(* ===== verification/Prelude.thy ===== *)
theory Prelude
  imports Complex_Main "HOL-Library.AList" "HOL-Library.List_Lexorder" "HOL-Library.Char_ord"
begin

text \<open>
  Shared vocabulary of the development: identifiers, JavaScript truthiness, JavaScript maps and
  sets, stable sorting, parent chains, and the lemmas about them that the components use.

  A JavaScript \<^verbatim>\<open>Map\<close> iterates in insertion order, keeps the position of a key that is overwritten
  and appends a new key at the end. An association list with \<open>AList.update\<close> and \<open>AList.delete\<close>
  behaves in exactly this way as long as its keys are distinct, so \<open>('k, 'v) jsmap\<close> is an
  association list and \<open>jsm_ok\<close> says that the keys are distinct. A JavaScript \<^verbatim>\<open>Set\<close> whose iteration
  order matters is a distinct list extended by \<open>set_add\<close>; where it is used for membership only it is
  a HOL set.
\<close>

type_synonym ident = string
type_synonym urn = string
type_synonym ('k, 'v) jsmap = "('k \<times> 'v) list"

named_theorems jsm_simps \<open>lookups and key sets of JavaScript maps after an operation\<close>
named_theorems jsm_ok_intros \<open>operations keep the keys of a JavaScript map distinct\<close>

section \<open>Truthiness and optional values\<close>

text \<open>An optional string is falsy when it is \<^verbatim>\<open>undefined\<close>/\<^verbatim>\<open>null\<close> and when it is empty.\<close>

definition truthy :: "string option \<Rightarrow> bool" where
  "truthy x \<longleftrightarrow> x \<noteq> None \<and> x \<noteq> Some ''''"

text \<open>\<^verbatim>\<open>a || b\<close> on strings and \<^verbatim>\<open>a ?? b\<close>.\<close>

definition str_or :: "string option \<Rightarrow> string \<Rightarrow> string" where
  "str_or x d = (if truthy x then the x else d)"

definition nullish :: "'a option \<Rightarrow> 'a \<Rightarrow> 'a" where
  "nullish x d = (case x of None \<Rightarrow> d | Some v \<Rightarrow> v)"

lemma truthy_simps [simp]:
  "\<not> truthy None"
  "truthy (Some s) \<longleftrightarrow> s \<noteq> ''''"
  by (auto simp: truthy_def)

lemma truthyE: "truthy x \<Longrightarrow> (\<And>s. x = Some s \<Longrightarrow> s \<noteq> '''' \<Longrightarrow> P) \<Longrightarrow> P"
  by (cases x) auto

lemma nullish_simps [simp]:
  "nullish None d = d"
  "nullish (Some v) d = v"
  by (auto simp: nullish_def)

lemma str_or_simps [simp]:
  "str_or None d = d"
  "str_or (Some s) d = (if s = '''' then d else s)"
  by (auto simp: str_or_def)

section \<open>JavaScript maps\<close>

abbreviation mget :: "('k, 'v) jsmap \<Rightarrow> 'k \<Rightarrow> 'v option" where
  "mget m k \<equiv> map_of m k"

abbreviation mset_key :: "'k \<Rightarrow> 'v \<Rightarrow> ('k, 'v) jsmap \<Rightarrow> ('k, 'v) jsmap" where
  "mset_key k v m \<equiv> AList.update k v m"

abbreviation mdel :: "'k \<Rightarrow> ('k, 'v) jsmap \<Rightarrow> ('k, 'v) jsmap" where
  "mdel k m \<equiv> AList.delete k m"

definition mhas :: "('k, 'v) jsmap \<Rightarrow> 'k \<Rightarrow> bool" where
  "mhas m k \<longleftrightarrow> k \<in> set (map fst m)"

definition jsm_ok :: "('k, 'v) jsmap \<Rightarrow> bool" where
  "jsm_ok m \<longleftrightarrow> distinct (map fst m)"

text \<open>\<^verbatim>\<open>new Map(pairs)\<close>: later pairs overwrite earlier ones.\<close>

definition mfrom :: "('k \<times> 'v) list \<Rightarrow> ('k, 'v) jsmap" where
  "mfrom ps = fold (\<lambda>(k, v) m. mset_key k v m) ps []"

lemma mhas_iff [simp, code_unfold]: "mhas m k \<longleftrightarrow> mget m k \<noteq> None"
  by (auto simp: mhas_def map_of_eq_None_iff)

lemma mget_mset_key [simp, jsm_simps]: "mget (mset_key k v m) k' = (if k = k' then Some v else mget m k')"
  by (simp add: update_conv')

lemma mget_mdel [simp, jsm_simps]: "mget (mdel k m) k' = (if k = k' then None else mget m k')"
  by (simp add: delete_conv')

lemma jsm_ok_Nil [simp, jsm_ok_intros]: "jsm_ok []"
  by (simp add: jsm_ok_def)

lemma jsm_ok_mset_key [simp, jsm_ok_intros]: "jsm_ok m \<Longrightarrow> jsm_ok (mset_key k v m)"
  by (simp add: jsm_ok_def distinct_update)

lemma jsm_ok_mdel [simp, jsm_ok_intros]: "jsm_ok m \<Longrightarrow> jsm_ok (mdel k m)"
  by (simp add: jsm_ok_def distinct_delete)

lemma keys_mset_key [jsm_simps]: "set (map fst (mset_key k v m)) = insert k (set (map fst m))"
  by (simp add: dom_update)

lemma keys_mdel [jsm_simps]: "set (map fst (mdel k m)) = set (map fst m) - {k}"
  by (simp add: delete_keys)

lemma length_mset_key:
  "length (mset_key k v m) = (if mget m k = None then Suc (length m) else length m)"
  by (induction m) auto

lemma mget_in_set: "mget m k = Some v \<Longrightarrow> (k, v) \<in> set m"
  by (rule map_of_SomeD)

lemma mget_iff_in_set: "jsm_ok m \<Longrightarrow> mget m k = Some v \<longleftrightarrow> (k, v) \<in> set m"
  by (auto simp: jsm_ok_def)

lemma jsm_ok_fold_mset_key:
  "jsm_ok m \<Longrightarrow> jsm_ok (fold (\<lambda>(k, v) m. mset_key k v m) ps m)"
  by (induction ps arbitrary: m) auto

lemma jsm_ok_mfrom [simp, jsm_ok_intros]: "jsm_ok (mfrom ps)"
  by (simp add: mfrom_def jsm_ok_fold_mset_key)

lemma mget_fold_mset_key:
  "mget (fold (\<lambda>(k, v) m. mset_key k v m) ps m) k =
     (case mget (rev ps) k of None \<Rightarrow> mget m k | Some v \<Rightarrow> Some v)"
  by (induction ps arbitrary: m) (auto simp: map_add_def split: option.splits)

lemma mget_mfrom: "mget (mfrom ps) k = mget (rev ps) k"
  by (simp add: mfrom_def mget_fold_mset_key split: option.splits)

lemma map_of_rev_distinct: "distinct (map fst ps) \<Longrightarrow> map_of (rev ps) = map_of ps"
  by (rule map_of_inject_set [THEN iffD2]) (simp_all add: rev_map [symmetric])

lemma mget_mfrom_ok: "jsm_ok ps \<Longrightarrow> mget (mfrom ps) k = mget ps k"
  by (simp add: mget_mfrom map_of_rev_distinct jsm_ok_def)

section \<open>JavaScript sets in insertion order\<close>

definition set_add :: "'a \<Rightarrow> 'a list \<Rightarrow> 'a list" where
  "set_add x xs = (if x \<in> set xs then xs else xs @ [x])"

lemma set_set_add [simp]: "set (set_add x xs) = insert x (set xs)"
  by (auto simp: set_add_def)

lemma distinct_set_add [simp]: "distinct xs \<Longrightarrow> distinct (set_add x xs)"
  by (auto simp: set_add_def)

definition set_from :: "'a list \<Rightarrow> 'a list" where
  "set_from xs = fold set_add xs []"

lemma set_fold_set_add [simp]: "set (fold set_add xs ys) = set ys \<union> set xs"
  by (induction xs arbitrary: ys) auto

lemma distinct_fold_set_add [simp]: "distinct ys \<Longrightarrow> distinct (fold set_add xs ys)"
  by (induction xs arbitrary: ys) auto

lemma set_set_from [simp]: "set (set_from xs) = set xs"
  by (simp add: set_from_def)

lemma distinct_set_from [simp]: "distinct (set_from xs)"
  by (simp add: set_from_def)

lemma set_add_new: "x \<notin> set xs \<Longrightarrow> set_add x xs = xs @ [x]"
  by (simp add: set_add_def)

lemma fold_set_add_distinct:
  "distinct xs \<Longrightarrow> set xs \<inter> set ys = {} \<Longrightarrow> fold set_add xs ys = ys @ xs"
  by (induction xs arbitrary: ys) (auto simp: set_add_new)

lemma set_from_distinct [simp]: "distinct xs \<Longrightarrow> set_from xs = xs"
  by (simp add: set_from_def fold_set_add_distinct)

section \<open>First match in an array\<close>

definition find_first :: "('a \<Rightarrow> bool) \<Rightarrow> 'a list \<Rightarrow> 'a option" where
  "find_first P xs = List.find P xs"

lemma find_first_simps [simp]:
  "find_first P [] = None"
  "find_first P (x # xs) = (if P x then Some x else find_first P xs)"
  by (simp_all add: find_first_def)

lemma find_first_Some: "find_first P xs = Some x \<Longrightarrow> x \<in> set xs \<and> P x"
  by (induction xs) (auto split: if_splits)

lemma find_first_None: "find_first P xs = None \<longleftrightarrow> (\<forall>x \<in> set xs. \<not> P x)"
  by (induction xs) auto

lemma find_first_append: "\<exists>y \<in> set ys. P y \<Longrightarrow> find_first P (ys @ zs) = find_first P ys"
  by (induction ys) auto

section \<open>Lists\<close>

lemma filter_neq_length: "length (filter P xs) = length xs \<longleftrightarrow> (\<forall>x \<in> set xs. P x)"
  by (metis filter_id_conv length_filter_less less_irrefl)

text \<open>A separator that neither left part contains splits a key uniquely.\<close>

lemma separated_inject:
  "x \<notin> set as \<Longrightarrow> x \<notin> set bs \<Longrightarrow> as @ x # cs = bs @ x # ds \<longleftrightarrow> as = bs \<and> cs = ds"
proof (induction as arbitrary: bs)
  case Nil
  then show ?case by (cases bs) auto
next
  case (Cons a as)
  then show ?case by (cases bs) auto
qed

lemma remove1_filter:
  "distinct (map f es) \<Longrightarrow> e \<in> set es \<Longrightarrow> remove1 e es = filter (\<lambda>x. f x \<noteq> f e) es"
proof (induction es)
  case (Cons a es)
  show ?case
  proof (cases "a = e")
    case True
    with Cons.prems have "\<forall>x \<in> set es. f x \<noteq> f e" by (auto simp: image_iff)
    with True show ?thesis by (simp add: filter_True)
  next
    case False
    with Cons show ?thesis by (auto simp: image_iff)
  qed
qed simp

end
