(* ===== verification/Step_System.thy ===== *)
theory Step_System
  imports Prelude
begin

text \<open>
  The interface the stores and the resilience components share: a state, events, a handler that
  answers an event with the next state, and an invariant every admissible event keeps. The store
  theories interpret it with their own handlers; what they get is the lift of one-step facts to
  every run of events.
  \<open>clocked_system\<close> adds a counter that no handler decreases, \<open>observed_system\<close> a part of the state
  that changes only together with the counter.
\<close>

definition run :: "('e \<Rightarrow> 's \<Rightarrow> 's) \<Rightarrow> 'e list \<Rightarrow> 's \<Rightarrow> 's" where
  "run step es s = fold step es s"

lemma run_simps [simp]:
  "run step [] s = s"
  "run step (e # es) s = run step es (step e s)"
  by (simp_all add: run_def)

lemma run_append: "run step (es @ fs) s = run step fs (run step es s)"
  by (simp add: run_def)

text \<open>A condition on every step of a history, one step at a time.\<close>

lemma all_steps_Nil: "[] = fs @ e # gs \<Longrightarrow> P e (run step fs s)"
  by simp

lemma all_steps_Cons:
  assumes "P e0 s" and "\<And>fs e gs. es = fs @ e # gs \<Longrightarrow> P e (run step fs (step e0 s))" and "e0 # es = fs @ e # gs"
  shows "P e (run step fs s)"
  using assms by (cases fs) auto

locale step_system =
  fixes step :: "'e \<Rightarrow> 's \<Rightarrow> 's"
    and inv :: "'s \<Rightarrow> bool"
    and admissible :: "'e \<Rightarrow> bool"
  assumes step_inv: "inv s \<Longrightarrow> admissible e \<Longrightarrow> inv (step e s)"
begin

lemma run_inv:
  assumes "inv s" and "\<And>e. e \<in> set es \<Longrightarrow> admissible e"
  shows "inv (run step es s)"
  using assms by (induction es arbitrary: s) (auto intro: step_inv)

lemma run_inv_prefix:
  assumes "inv s" and "\<And>e. e \<in> set (es @ fs) \<Longrightarrow> admissible e"
  shows "inv (run step es s)"
  using assms by (intro run_inv) auto

end

locale clocked_system = step_system +
  fixes clock :: "'b \<Rightarrow> nat"
  assumes step_clock: "clock s \<le> clock (step e s)"
begin

lemma run_clock: "clock s \<le> clock (run step es s)"
proof (induction es arbitrary: s)
  case Nil
  show ?case by simp
next
  case (Cons e es)
  have "clock s \<le> clock (step e s)" by (rule step_clock)
  also have "\<dots> \<le> clock (run step es (step e s))" by (rule Cons.IH)
  finally show ?case by simp
qed

end

locale observed_system = clocked_system +
  fixes observe :: "'b \<Rightarrow> 'o"
  assumes step_observe: "clock (step e s) = clock s \<Longrightarrow> observe (step e s) = observe s"
begin

lemma run_observe:
  assumes "clock (run step es s) = clock s"
  shows "observe (run step es s) = observe s"
  using assms
proof (induction es arbitrary: s)
  case Nil
  show ?case by simp
next
  case (Cons e es)
  have "clock s \<le> clock (step e s)" by (rule step_clock)
  moreover have "clock (step e s) \<le> clock (run step es (step e s))" by (rule run_clock)
  ultimately have "clock (step e s) = clock s" and "clock (run step es (step e s)) = clock (step e s)"
    using Cons.prems by simp_all
  then show ?case using Cons.IH step_observe by simp
qed

end

end
