(* ===== verification/Circuit_Breaker.thy ===== *)
theory Circuit_Breaker
  imports Step_System
begin

text \<open>
  The circuit breaker of \<^verbatim>\<open>services/circuitBreaker.ts\<close> and its registry. \<open>Date.now()\<close> is an argument of
  the operations that read the clock, in milliseconds. A breaker of the registry is addressed by
  its key: two callers with the same scope share the state, as they share the object in the code.
\<close>

section \<open>One breaker\<close>

datatype circuit_state = Closed | Open | HalfOpen

record breaker =
  cb_state :: circuit_state
  consecutiveFailures :: nat
  lastFailureTime :: int
  halfOpenPending :: bool
  failureThreshold :: nat
  resetTimeoutMs :: int
  dynamicResetMs :: "int option"

definition new_breaker :: "nat \<Rightarrow> int \<Rightarrow> breaker" where
  "new_breaker threshold reset =
     \<lparr>cb_state = Closed, consecutiveFailures = 0, lastFailureTime = 0, halfOpenPending = False,
      failureThreshold = threshold, resetTimeoutMs = reset, dynamicResetMs = None\<rparr>"

definition default_breaker :: breaker where
  "default_breaker = new_breaker 3 15000"

definition effectiveReset :: "breaker \<Rightarrow> int" where
  "effectiveReset b = nullish (dynamicResetMs b) (resetTimeoutMs b)"

definition cooled_down :: "int \<Rightarrow> breaker \<Rightarrow> bool" where
  "cooled_down now b \<longleftrightarrow> effectiveReset b \<le> now - lastFailureTime b"

definition to_half_open :: "breaker \<Rightarrow> breaker" where
  "to_half_open b = b\<lparr>cb_state := HalfOpen, halfOpenPending := False, dynamicResetMs := None\<rparr>"

text \<open>\<open>canRequest\<close> answers and changes the state; its early returns are the branches.\<close>

definition claim_probe :: "breaker \<Rightarrow> bool \<times> breaker" where
  "claim_probe b =
     (if halfOpenPending b then (False, b) else (True, b\<lparr>halfOpenPending := True\<rparr>))"

definition canRequest :: "int \<Rightarrow> breaker \<Rightarrow> bool \<times> breaker" where
  "canRequest now b =
     (case cb_state b of
        Closed \<Rightarrow> (True, b)
      | Open \<Rightarrow> if cooled_down now b then claim_probe (to_half_open b) else (False, b)
      | HalfOpen \<Rightarrow> claim_probe b)"

definition recordSuccess :: "breaker \<Rightarrow> breaker" where
  "recordSuccess b = b\<lparr>cb_state := Closed, consecutiveFailures := 0, halfOpenPending := False\<rparr>"

definition recordFailure :: "int \<Rightarrow> int option \<Rightarrow> breaker \<Rightarrow> breaker" where
  "recordFailure now retryAfterMs b =
     (let b1 = b\<lparr>consecutiveFailures := Suc (consecutiveFailures b), lastFailureTime := now,
                 halfOpenPending := False\<rparr>
      in if failureThreshold b1 \<le> consecutiveFailures b1 then
           (let b2 = b1\<lparr>cb_state := Open\<rparr>
            in case retryAfterMs of
                 None \<Rightarrow> b2
               | Some r \<Rightarrow> if r \<noteq> 0 \<and> resetTimeoutMs b2 < r then b2\<lparr>dynamicResetMs := Some r\<rparr> else b2)
         else b1)"

definition cb_reset :: "breaker \<Rightarrow> breaker" where
  "cb_reset b = b\<lparr>cb_state := Closed, consecutiveFailures := 0, halfOpenPending := False\<rparr>"

definition getState :: "int \<Rightarrow> breaker \<Rightarrow> circuit_state \<times> breaker" where
  "getState now b =
     (let b' = (if cb_state b = Open \<and> cooled_down now b then to_half_open b else b)
      in (cb_state b', b'))"

section \<open>The registry\<close>

type_synonym registry = "(string, breaker) jsmap"

definition circuit_key :: "string option \<Rightarrow> string option \<Rightarrow> string" where
  "circuit_key ws ds = nullish ws '''' @ '':'' @ nullish ds ''''"

definition getCircuitBreaker :: "string option \<Rightarrow> string option \<Rightarrow> registry \<Rightarrow> breaker \<times> registry" where
  "getCircuitBreaker ws ds circuits =
     (case mget circuits (circuit_key ws ds) of
        Some cb \<Rightarrow> (cb, circuits)
      | None \<Rightarrow> (default_breaker, mset_key (circuit_key ws ds) default_breaker circuits))"

definition resetAllCircuitBreakers :: "registry \<Rightarrow> registry" where
  "resetAllCircuitBreakers circuits = map (\<lambda>(k, cb). (k, cb_reset cb)) circuits"

section \<open>Events and answers\<close>

datatype cb_event =
    CanRequest int
  | Success
  | Failure int "int option"
  | Reset
  | GetState int

fun cb_step :: "cb_event \<Rightarrow> breaker \<Rightarrow> breaker" where
  "cb_step (CanRequest now) b = snd (canRequest now b)"
| "cb_step Success b = recordSuccess b"
| "cb_step (Failure now r) b = recordFailure now r b"
| "cb_step Reset b = cb_reset b"
| "cb_step (GetState now) b = snd (getState now b)"

text \<open>The requests a run lets through.\<close>

fun granted :: "cb_event list \<Rightarrow> breaker \<Rightarrow> nat" where
  "granted [] b = 0"
| "granted (e # es) b =
     (case e of CanRequest now \<Rightarrow> (if fst (canRequest now b) then 1 else 0) | _ \<Rightarrow> 0)
       + granted es (cb_step e b)"

text \<open>The abstract view: failures since the last success or reset.\<close>

fun failures_since :: "cb_event list \<Rightarrow> nat \<Rightarrow> nat" where
  "failures_since [] n = n"
| "failures_since (e # es) n =
     failures_since es (case e of Failure _ _ \<Rightarrow> Suc n | Success \<Rightarrow> 0 | Reset \<Rightarrow> 0 | _ \<Rightarrow> n)"

lemmas cb_defs = canRequest_def claim_probe_def to_half_open_def recordSuccess_def recordFailure_def
  cb_reset_def getState_def

section \<open>Invariant\<close>

text \<open>The breaker is closed exactly while fewer failures than the threshold are on record.\<close>

definition cb_inv :: "breaker \<Rightarrow> bool" where
  "cb_inv b \<longleftrightarrow> 0 < failureThreshold b
     \<and> (cb_state b = Closed \<longleftrightarrow> consecutiveFailures b < failureThreshold b)
     \<and> (halfOpenPending b \<longrightarrow> cb_state b = HalfOpen)
     \<and> (\<forall>d. dynamicResetMs b = Some d \<longrightarrow> resetTimeoutMs b < d)"

lemma cb_inv_new: "0 < threshold \<Longrightarrow> cb_inv (new_breaker threshold reset)"
  by (simp add: cb_inv_def new_breaker_def)

lemma cb_inv_step: "cb_inv b \<Longrightarrow> cb_inv (cb_step e b)"
  by (cases e) (auto simp: cb_inv_def cb_defs Let_def split: circuit_state.splits option.splits if_splits)

interpretation cb: step_system cb_step cb_inv "\<lambda>_. True"
  by unfold_locales (rule cb_inv_step)

lemma cb_step_frame [simp]:
  "failureThreshold (cb_step e b) = failureThreshold b"
  "resetTimeoutMs (cb_step e b) = resetTimeoutMs b"
  by (cases e; simp add: cb_defs Let_def split: circuit_state.splits option.splits)+

lemma cb_run_threshold [simp]: "failureThreshold (run cb_step es b) = failureThreshold b"
  by (induction es arbitrary: b) simp_all

lemma cb_step_failures:
  "consecutiveFailures (cb_step e b)
     = (case e of Failure _ _ \<Rightarrow> Suc (consecutiveFailures b) | Success \<Rightarrow> 0 | Reset \<Rightarrow> 0
        | _ \<Rightarrow> consecutiveFailures b)"
  by (cases e) (auto simp: cb_defs Let_def split: circuit_state.splits option.splits)

lemma cb_run_failures: "consecutiveFailures (run cb_step es b) = failures_since es (consecutiveFailures b)"
  by (induction es arbitrary: b) (simp_all add: cb_step_failures)


lemma cb_inv_run: "cb_inv b \<Longrightarrow> cb_inv (run cb_step es b)"
  using cb.run_inv by blast

text \<open>
  a breaker that starts closed with a positive threshold is closed after any history of
  requests, successes, failures, resets and state reads exactly when fewer failures than the
  threshold have been recorded since the last success or reset.
\<close>

theorem breaker_closed_iff_failures_below_threshold:
  "cb_state (run cb_step es (new_breaker (Suc t) r)) = Closed \<longleftrightarrow> failures_since es 0 < Suc t"
proof -
  have "cb_inv (run cb_step es (new_breaker (Suc t) r))"
    by (rule cb_inv_run) (simp add: cb_inv_new)
  then show ?thesis
    by (simp add: cb_inv_def cb_run_failures) (simp add: new_breaker_def)
qed

section \<open>Failing fast and probing\<close>

lemma open_denies:
  "cb_state b = Open \<Longrightarrow> now < lastFailureTime b + effectiveReset b \<Longrightarrow> canRequest now b = (False, b)"
  by (simp add: canRequest_def cooled_down_def)

lemma pending_probe_denies:
  "cb_state b = HalfOpen \<Longrightarrow> halfOpenPending b \<Longrightarrow> canRequest now b = (False, b)"
  by (simp add: canRequest_def claim_probe_def)

lemma recordFailure_opens:
  "failureThreshold b \<le> Suc (consecutiveFailures b) \<Longrightarrow> cb_state (recordFailure now r b) = Open"
  by (auto simp: recordFailure_def Let_def split: option.splits)

lemma recordFailure_time [simp]: "lastFailureTime (recordFailure now r b) = now"
  by (auto simp: recordFailure_def Let_def split: option.splits)

lemma recordFailure_delay:
  assumes "cb_inv b" and "failureThreshold b \<le> Suc (consecutiveFailures b)"
  shows "max (resetTimeoutMs b) (nullish r (resetTimeoutMs b)) \<le> effectiveReset (recordFailure now r b)
    \<or> r = Some 0"
  using assms
  by (cases "dynamicResetMs b"; cases r)
     (auto simp: cb_inv_def recordFailure_def effectiveReset_def Let_def)

text \<open>
  a failure that opens the breaker keeps every later request out, without changing the
  breaker, until the default delay and the server's \<open>Retry-After\<close> hint (when it sent a non-zero one)
  have both passed since that failure.
\<close>

theorem retry_after_honoured:
  assumes "cb_inv b"
    and "failureThreshold b \<le> Suc (consecutiveFailures b)"
    and "r \<noteq> Some 0"
    and "t < now + max (resetTimeoutMs b) (nullish r (resetTimeoutMs b))"
  shows "canRequest t (recordFailure now r b) = (False, recordFailure now r b)"
proof (rule open_denies)
  show "cb_state (recordFailure now r b) = Open"
    using assms(2) by (rule recordFailure_opens)
  have "max (resetTimeoutMs b) (nullish r (resetTimeoutMs b)) \<le> effectiveReset (recordFailure now r b)"
    using recordFailure_delay [OF assms(1,2), of r now] assms(3) by simp
  then show "t < lastFailureTime (recordFailure now r b) + effectiveReset (recordFailure now r b)"
    using assms(4) by (simp del: max.bounded_iff)
qed

theorem retry_after_honoured_witness:
  "canRequest 61000 (recordFailure 2000 (Some 60000) (run cb_step [Failure 0 None, Failure 1000 None] default_breaker))
     = (False, recordFailure 2000 (Some 60000) (run cb_step [Failure 0 None, Failure 1000 None] default_breaker))"
proof (rule retry_after_honoured)
  show "cb_inv (run cb_step [Failure 0 None, Failure 1000 None] default_breaker)"
    by (rule cb_inv_run) (simp add: default_breaker_def cb_inv_new)
qed (simp_all add: default_breaker_def new_breaker_def cb_defs Let_def)

text \<open>Reading the state and asking for permission is all a run of \<open>polls\<close> does.\<close>

fun is_poll :: "cb_event \<Rightarrow> bool" where
  "is_poll (CanRequest now) = True"
| "is_poll (GetState now) = True"
| "is_poll e = False"

lemma granted_pending:
  "cb_state b = HalfOpen \<Longrightarrow> halfOpenPending b \<Longrightarrow> \<forall>e \<in> set es. is_poll e \<Longrightarrow> granted es b = 0"
proof (induction es)
  case (Cons e es)
  have "cb_step e b = b"
    using Cons.prems by (cases e) (auto simp: cb_defs Let_def)
  then show ?case
    using Cons by (cases e) (auto simp: pending_probe_denies)
qed simp

lemma poll_outcome:
  assumes "cb_state b \<noteq> Closed" and "is_poll e"
  shows "cb_state (cb_step e b) \<noteq> Closed \<and> (\<forall>now. e = CanRequest now \<longrightarrow> \<not> fst (canRequest now b))
    \<or> cb_state (cb_step e b) = HalfOpen \<and> halfOpenPending (cb_step e b)"
  using assms by (cases e; cases "cb_state b") (auto simp: cb_defs)

text \<open>
  once the breaker has left the closed state, any sequence of permission requests and state
  reads, at whatever times, lets at most one probe through before its outcome is recorded.
\<close>

theorem at_most_one_probe:
  assumes "cb_state b \<noteq> Closed" and "\<forall>e \<in> set es. is_poll e"
  shows "granted es b \<le> 1"
  using assms
proof (induction es arbitrary: b)
  case (Cons e es)
  from Cons.prems have poll: "is_poll e" and rest: "\<forall>e \<in> set es. is_poll e" by simp_all
  show ?case
  proof (cases "cb_state (cb_step e b) = HalfOpen \<and> halfOpenPending (cb_step e b)")
    case True
    then have "granted es (cb_step e b) = 0" using rest by (intro granted_pending) auto
    then show ?thesis by (simp split: cb_event.splits)
  next
    case False
    with poll_outcome [OF Cons.prems(1) poll] Cons.IH [OF _ rest, of "cb_step e b"]
    show ?thesis by (auto split: cb_event.splits)
  qed
qed simp

theorem at_most_one_probe_witness:
  "granted [CanRequest 16000, GetState 16500, CanRequest 90000]
     (run cb_step [Failure 0 None, Failure 0 None, Failure 0 None] default_breaker) = 1"
proof -
  let ?b = "run cb_step [Failure 0 None, Failure 0 None, Failure 0 None] default_breaker"
  let ?es = "[CanRequest 16000, GetState 16500, CanRequest 90000]"
  have "granted ?es ?b \<le> 1"
    by (rule at_most_one_probe) (simp_all add: default_breaker_def new_breaker_def cb_defs Let_def)
  moreover have "0 < granted ?es ?b"
    by (simp add: default_breaker_def new_breaker_def cb_defs cooled_down_def effectiveReset_def Let_def)
  ultimately show ?thesis by linarith
qed

section \<open>A delay that outlives the recovery\<close>

text \<open>
  Neither \<open>reset\<close> nor \<open>recordSuccess\<close> clears the server's hint. After a hint of one minute, a forced
  reset and three failures without a hint, a request sixteen seconds later is still refused,
  where a fresh breaker lets a probe through after fifteen.
\<close>

lemma reset_keeps_stale_delay:
  "fst (canRequest 19000
          (run cb_step [Failure 0 None, Failure 0 None, Failure 0 (Some 60000), Reset,
                        Failure 3000 None, Failure 3000 None, Failure 3000 None] default_breaker)) = False"
  "fst (canRequest 19000
          (run cb_step [Failure 3000 None, Failure 3000 None, Failure 3000 None] default_breaker)) = True"
  by (simp_all add: default_breaker_def new_breaker_def cb_defs cooled_down_def effectiveReset_def Let_def)

section \<open>Scopes of the registry\<close>

lemma getCircuitBreaker_get:
  "getCircuitBreaker ws ds circuits = (cb, circuits') \<Longrightarrow> mget circuits' (circuit_key ws ds) = Some cb"
  by (auto simp: getCircuitBreaker_def split: option.splits)

lemma getCircuitBreaker_stable:
  "getCircuitBreaker ws ds circuits = (cb, circuits')
    \<Longrightarrow> getCircuitBreaker ws ds circuits' = (cb, circuits')"
  by (auto simp: getCircuitBreaker_def split: option.splits)

lemma getCircuitBreaker_other:
  "getCircuitBreaker ws ds circuits = (cb, circuits') \<Longrightarrow> k \<noteq> circuit_key ws ds
    \<Longrightarrow> mget circuits' k = mget circuits k"
  by (auto simp: getCircuitBreaker_def split: option.splits)

lemma mget_resetAll:
  "mget (resetAllCircuitBreakers circuits) k = map_option cb_reset (mget circuits k)"
  by (simp add: resetAllCircuitBreakers_def map_of_map)

text \<open>Workspace ids without a colon keep the scopes apart.\<close>

lemma circuit_key_inject:
  assumes "CHR '':'' \<notin> set (nullish ws [])" and "CHR '':'' \<notin> set (nullish ws' [])"
  shows "circuit_key ws ds = circuit_key ws' ds'
    \<longleftrightarrow> nullish ws [] = nullish ws' [] \<and> nullish ds [] = nullish ds' []"
  using assms by (simp add: circuit_key_def separated_inject)

end
