(* ===== verification/Graph_Model.thy ===== *)
theory Graph_Model
  imports Prelude
begin

text \<open>
  The data the canvas components exchange: JSON values, canvas nodes and edges (\<^verbatim>\<open>store/canvas.ts\<close>),
  and the classification of edges by type (\<^verbatim>\<open>store/schema.ts\<close>). A node's \<^verbatim>\<open>data\<close> is an open object
  and is kept as a JavaScript map from property names to JSON values; an edge's \<^verbatim>\<open>data\<close> has the
  fields its interface declares. Case conversion is that of ASCII letters, other characters are
  left alone.
\<close>

section \<open>JSON values and objects\<close>

datatype json =
    JNull
  | JBool bool
  | JNum rat
  | JStr string
  | JArr "json list"
  | JObj "(string \<times> json) list"

type_synonym jsobj = "(string, json) jsmap"

text \<open>\<^verbatim>\<open>{ ...base, ...patch }\<close>\<close>

definition spread :: "jsobj \<Rightarrow> jsobj \<Rightarrow> jsobj" where
  "spread base patch = fold (\<lambda>(k, v) m. mset_key k v m) patch base"

lemma mget_spread: "mget (spread base patch) k = (case mget (rev patch) k of None \<Rightarrow> mget base k | Some v \<Rightarrow> Some v)"
  by (simp add: spread_def mget_fold_mset_key)

lemma spread_Nil [simp]: "spread base [] = base"
  by (simp add: spread_def)

lemma jsm_ok_spread [simp, jsm_ok_intros]: "jsm_ok base \<Longrightarrow> jsm_ok (spread base patch)"
  by (simp add: spread_def jsm_ok_fold_mset_key)

text \<open>Reading a property as a string; anything else than a string reads as absent.\<close>

definition str_field :: "jsobj \<Rightarrow> string \<Rightarrow> string option" where
  "str_field d f = (case mget d f of Some (JStr s) \<Rightarrow> Some s | _ \<Rightarrow> None)"

definition strs_of :: "json list \<Rightarrow> string list" where
  "strs_of xs = concat (map (\<lambda>x. case x of JStr s \<Rightarrow> [s] | _ \<Rightarrow> []) xs)"

definition strs_field :: "jsobj \<Rightarrow> string \<Rightarrow> string list option" where
  "strs_field d f = (case mget d f of Some (JArr xs) \<Rightarrow> Some (strs_of xs) | _ \<Rightarrow> None)"

section \<open>Case conversion\<close>

definition upper_char :: "char \<Rightarrow> char" where
  "upper_char c = (let n = (of_char c :: nat) in if 97 \<le> n \<and> n \<le> 122 then char_of (n - 32) else c)"

definition lower_char :: "char \<Rightarrow> char" where
  "lower_char c = (let n = (of_char c :: nat) in if 65 \<le> n \<and> n \<le> 90 then char_of (n + 32) else c)"

definition toUpperCase :: "string \<Rightarrow> string" where
  "toUpperCase = map upper_char"

definition toLowerCase :: "string \<Rightarrow> string" where
  "toLowerCase = map lower_char"

lemma upper_char_idem [simp]: "upper_char (upper_char c) = upper_char c"
proof -
  have "(of_char c :: nat) < 256" by simp
  then have "((of_char c :: nat) - 32) mod 256 = of_char c - 32" by (intro mod_less) arith
  then show ?thesis by (auto simp: upper_char_def Let_def)
qed

lemma lower_char_idem [simp]: "lower_char (lower_char c) = lower_char c"
  by (simp add: lower_char_def Let_def)

lemma toUpperCase_idem [simp]: "toUpperCase (toUpperCase s) = toUpperCase s"
  by (simp add: toUpperCase_def comp_def)

lemma toLowerCase_idem [simp]: "toLowerCase (toLowerCase s) = toLowerCase s"
  by (simp add: toLowerCase_def comp_def)

section \<open>Canvas nodes and edges\<close>

record lineage_node =
  node_id :: ident
  node_data :: jsobj

record edge_data =
  d_edgeType :: "string option"
  d_relationship :: "string option"
  d_confidence :: "rat option"
  d_isAggregated :: bool
  d_edgeTypes :: "string list option"

record lineage_edge =
  edge_id :: ident
  edge_source :: ident
  edge_target :: ident
  edge_data_of :: "edge_data option"

section \<open>Edges of the graph service\<close>

record graph_edge =
  ge_id :: ident
  ge_sourceUrn :: urn
  ge_targetUrn :: urn
  ge_edgeType :: string
  ge_confidence :: "rat option"
  ge_properties :: "jsobj option"

section \<open>Edge classification\<close>

definition normalizeEdgeType :: "lineage_edge \<Rightarrow> string" where
  "normalizeEdgeType edge =
     (case edge_data_of edge of
        None \<Rightarrow> ''''
      | Some d \<Rightarrow> toUpperCase (str_or (d_edgeType d) (str_or (d_relationship d) '''')))"

definition isContainmentEdgeType :: "string \<Rightarrow> string list \<Rightarrow> bool" where
  "isContainmentEdgeType edgeType containmentTypes =
     list_ex (\<lambda>t. toUpperCase t = toUpperCase edgeType) containmentTypes"

definition isLineageEdgeType :: "string \<Rightarrow> string list \<Rightarrow> bool" where
  "isLineageEdgeType edgeType lineageTypes =
     list_ex (\<lambda>t. toUpperCase t = toUpperCase edgeType) lineageTypes"

lemma isContainmentEdgeType_upper:
  "isContainmentEdgeType (toUpperCase t) types = isContainmentEdgeType t types"
  by (simp add: isContainmentEdgeType_def)

end
