(* ===== verification/Cache_Envelope.thy ===== *)
theory Cache_Envelope
  imports Circuit_Breaker Graph_Model
begin

text \<open>
  The cache-only response envelope of \<^verbatim>\<open>services/cacheEnvelope.ts\<close> and the guarded fetch that reads it: a
  client of the circuit breaker. What \<^verbatim>\<open>fetchWithTimeout\<close> brings back is an argument, a
  \<open>fetch_outcome\<close>; the time at which the request is made and the time at which its outcome arrives are
  arguments too. \<^verbatim>\<open>null\<close> is \<open>JNull\<close>.
\<close>

section \<open>Envelopes\<close>

definition has_field :: "jsobj \<Rightarrow> string \<Rightarrow> bool" where
  "has_field obj f = mhas obj f"

definition isCacheEnvelope :: "json \<Rightarrow> bool" where
  "isCacheEnvelope x =
     (case x of
        JObj obj \<Rightarrow>
          has_field obj ''data''
            \<and> (case mget obj ''meta'' of
                 Some (JObj meta) \<Rightarrow>
                   list_all (has_field meta) [''status'', ''source'', ''age_seconds'', ''ttl_seconds'', ''missing_fields'']
               | _ \<Rightarrow> False)
      | _ \<Rightarrow> False)"

text \<open>Reading a property of a value known to be an object; anything else reads as \<^verbatim>\<open>null\<close>.\<close>

definition get_prop :: "string \<Rightarrow> json \<Rightarrow> json" where
  "get_prop f x = (case x of JObj obj \<Rightarrow> nullish (mget obj f) JNull | _ \<Rightarrow> JNull)"

definition unwrapEnvelope :: "json \<Rightarrow> json" where
  "unwrapEnvelope v =
     (if isCacheEnvelope v
      then (if get_prop ''status'' (get_prop ''meta'' v) = JStr ''error'' then JNull else get_prop ''data'' v)
      else v)"

definition unwrapEnvelopeWithMeta :: "json \<Rightarrow> json \<times> json" where
  "unwrapEnvelopeWithMeta v =
     (if isCacheEnvelope v then (get_prop ''data'' v, get_prop ''meta'' v) else (v, JNull))"

section \<open>The guarded fetch\<close>

record fetch_options =
  workspaceId :: "string option"
  dataSourceId :: "string option"
  useCircuitBreaker :: "bool option"

record response =
  status :: nat
  retry_after :: "string option"
  body :: "json option"

text \<open>\<open>Threw True\<close> is a \<^verbatim>\<open>TypeError\<close> (time out, network failure); a body of \<open>None\<close> does not parse.\<close>

datatype fetch_outcome = Threw bool | Responded response

definition response_ok :: "response \<Rightarrow> bool" where
  "response_ok r \<longleftrightarrow> 200 \<le> status r \<and> status r \<le> 299"

text \<open>\<^verbatim>\<open>parseInt(s, 10)\<close>: white space, a sign, the longest run of digits; \<open>None\<close> is \<^verbatim>\<open>NaN\<close>.\<close>

definition is_space :: "char \<Rightarrow> bool" where
  "is_space c \<longleftrightarrow> (of_char c :: nat) \<in> {9, 10, 11, 12, 13, 32, 160}"

definition is_digit :: "char \<Rightarrow> bool" where
  "is_digit c \<longleftrightarrow> 48 \<le> (of_char c :: nat) \<and> (of_char c :: nat) \<le> 57"

definition digits_value :: "string \<Rightarrow> int" where
  "digits_value ds = fold (\<lambda>c n. 10 * n + (int (of_char c) - 48)) ds 0"

definition parseInt10 :: "string \<Rightarrow> int option" where
  "parseInt10 s =
     (let s1 = dropWhile is_space s;
          neg = (s1 \<noteq> [] \<and> hd s1 = CHR ''-'');
          s2 = (if s1 \<noteq> [] \<and> (hd s1 = CHR ''-'' \<or> hd s1 = CHR ''+'') then tl s1 else s1);
          ds = takeWhile is_digit s2
      in if ds = [] then None else Some (if neg then - digits_value ds else digits_value ds))"

definition retryAfterMs :: "response \<Rightarrow> int option" where
  "retryAfterMs r =
     (if truthy (retry_after r) then map_option (\<lambda>n. n * 1000) (parseInt10 (the (retry_after r))) else None)"

definition useCB :: "fetch_options \<Rightarrow> bool" where
  "useCB opts \<longleftrightarrow> useCircuitBreaker opts \<noteq> Some False"

definition scope_key :: "fetch_options \<Rightarrow> string" where
  "scope_key opts = circuit_key (workspaceId opts) (dataSourceId opts)"

text \<open>The call of \<open>getCircuitBreaker\<close> and of \<open>canRequest\<close>, up to the first \<^verbatim>\<open>await\<close>.\<close>

definition preflight :: "fetch_options \<Rightarrow> int \<Rightarrow> registry \<Rightarrow> bool \<times> registry" where
  "preflight opts now circuits =
     (if useCB opts then
        (let (cb, circuits1) = getCircuitBreaker (workspaceId opts) (dataSourceId opts) circuits;
             (ok, cb1) = canRequest now cb
         in (ok, mset_key (scope_key opts) cb1 circuits1))
      else (True, circuits))"

text \<open>An update of the breaker the request holds, none when it runs without one.\<close>

definition on_breaker :: "fetch_options \<Rightarrow> (breaker \<Rightarrow> breaker) \<Rightarrow> registry \<Rightarrow> registry" where
  "on_breaker opts upd circuits =
     (if useCB opts then
        (let (cb, circuits1) = getCircuitBreaker (workspaceId opts) (dataSourceId opts) circuits
         in mset_key (scope_key opts) (upd cb) circuits1)
      else circuits)"

definition settle_fetch :: "fetch_options \<Rightarrow> fetch_outcome \<Rightarrow> int \<Rightarrow> registry \<Rightarrow> json \<times> registry" where
  "settle_fetch opts outcome now circuits =
     (case outcome of
        Threw typeError \<Rightarrow>
          (JNull, if typeError then on_breaker opts (recordFailure now None) circuits else circuits)
      | Responded res \<Rightarrow>
          (if \<not> response_ok res then
             (JNull, if 500 \<le> status res
                     then on_breaker opts (recordFailure now (retryAfterMs res)) circuits else circuits)
           else (case body res of
                   None \<Rightarrow> (JNull, on_breaker opts recordSuccess circuits)
                 | Some json \<Rightarrow> (json, on_breaker opts recordSuccess circuits))))"

text \<open>One request made at \<open>now\<close> whose outcome arrives at \<open>later\<close>.\<close>

definition runEnvelopeFetch ::
  "fetch_options \<Rightarrow> int \<Rightarrow> fetch_outcome \<Rightarrow> int \<Rightarrow> registry \<Rightarrow> json \<times> registry" where
  "runEnvelopeFetch opts now outcome later circuits =
     (let (ok, circuits1) = preflight opts now circuits
      in if \<not> ok then (JNull, circuits1) else settle_fetch opts outcome later circuits1)"

definition fetchEnveloped ::
  "fetch_options \<Rightarrow> int \<Rightarrow> fetch_outcome \<Rightarrow> int \<Rightarrow> registry \<Rightarrow> json \<times> registry" where
  "fetchEnveloped opts now outcome later circuits =
     (let (json, circuits1) = runEnvelopeFetch opts now outcome later circuits
      in (if json = JNull then JNull else unwrapEnvelope json, circuits1))"

definition fetchEnvelopedWithMeta ::
  "fetch_options \<Rightarrow> int \<Rightarrow> fetch_outcome \<Rightarrow> int \<Rightarrow> registry \<Rightarrow> (json \<times> json) \<times> registry" where
  "fetchEnvelopedWithMeta opts now outcome later circuits =
     (let (json, circuits1) = runEnvelopeFetch opts now outcome later circuits
      in (if json = JNull then (JNull, JNull) else unwrapEnvelopeWithMeta json, circuits1))"

section \<open>Unwrapping\<close>

text \<open>An envelope as the backend builds it.\<close>

definition envelope :: "json \<Rightarrow> jsobj \<Rightarrow> json" where
  "envelope d meta = JObj [(''data'', d), (''meta'', JObj meta)]"

definition meta_ok :: "jsobj \<Rightarrow> bool" where
  "meta_ok meta \<longleftrightarrow> list_all (has_field meta) [''status'', ''source'', ''age_seconds'', ''ttl_seconds'', ''missing_fields'']"

lemma isCacheEnvelope_envelope [simp]: "isCacheEnvelope (envelope d meta) \<longleftrightarrow> meta_ok meta"
  by (simp add: isCacheEnvelope_def envelope_def meta_ok_def has_field_def)

lemma get_prop_envelope [simp]:
  "get_prop ''data'' (envelope d meta) = d"
  "get_prop ''meta'' (envelope d meta) = JObj meta"
  by (simp_all add: get_prop_def envelope_def)

lemma unwrapEnvelope_envelope:
  "meta_ok meta \<Longrightarrow> unwrapEnvelope (envelope d meta)
     = (if mget meta ''status'' = Some (JStr ''error'') then JNull else d)"
  by (auto simp: unwrapEnvelope_def get_prop_def [of _ "JObj _"] meta_ok_def has_field_def)

lemma unwrapEnvelopeWithMeta_envelope:
  "meta_ok meta \<Longrightarrow> unwrapEnvelopeWithMeta (envelope d meta) = (d, JObj meta)"
  by (simp add: unwrapEnvelopeWithMeta_def)

lemma unwrapEnvelope_raw: "\<not> isCacheEnvelope v \<Longrightarrow> unwrapEnvelope v = v"
  by (simp add: unwrapEnvelope_def)

section \<open>What a request does to the breakers\<close>

definition breaker_at :: "registry \<Rightarrow> string \<Rightarrow> breaker" where
  "breaker_at circuits k = nullish (mget circuits k) default_breaker"

text \<open>The breaker events of an outcome: nothing for a client error or an error that is no \<^verbatim>\<open>TypeError\<close>.\<close>

fun outcome_events :: "fetch_outcome \<Rightarrow> int \<Rightarrow> cb_event list" where
  "outcome_events (Threw typeError) now = (if typeError then [Failure now None] else [])"
| "outcome_events (Responded res) now =
     (if response_ok res then [Success]
      else if 500 \<le> status res then [Failure now (retryAfterMs res)] else [])"

definition payload :: "fetch_outcome \<Rightarrow> json" where
  "payload outcome =
     (case outcome of Threw _ \<Rightarrow> JNull
      | Responded res \<Rightarrow> if response_ok res then nullish (body res) JNull else JNull)"

lemma getCircuitBreaker_at: "fst (getCircuitBreaker ws ds circuits) = breaker_at circuits (circuit_key ws ds)"
  by (simp add: getCircuitBreaker_def breaker_at_def split: option.splits)

lemma breaker_at_get: "breaker_at (snd (getCircuitBreaker ws ds circuits)) k = breaker_at circuits k"
  by (auto simp: getCircuitBreaker_def breaker_at_def split: option.splits)

lemma breaker_at_mset: "breaker_at (mset_key k' cb circuits) k = (if k = k' then cb else breaker_at circuits k)"
  by (simp add: breaker_at_def)

lemma breaker_at_on_breaker:
  "breaker_at (on_breaker opts upd circuits) k
     = (if useCB opts \<and> k = scope_key opts then upd (breaker_at circuits k) else breaker_at circuits k)"
  using getCircuitBreaker_at [of "workspaceId opts" "dataSourceId opts" circuits]
    breaker_at_get [of "workspaceId opts" "dataSourceId opts" circuits k]
  by (auto simp: on_breaker_def breaker_at_mset scope_key_def split: prod.splits)

lemma preflight_at:
  "breaker_at (snd (preflight opts now circuits)) k
     = (if useCB opts \<and> k = scope_key opts then snd (canRequest now (breaker_at circuits k)) else breaker_at circuits k)"
  "fst (preflight opts now circuits)
     \<longleftrightarrow> (useCB opts \<longrightarrow> fst (canRequest now (breaker_at circuits (scope_key opts))))"
  using getCircuitBreaker_at [of "workspaceId opts" "dataSourceId opts" circuits]
    breaker_at_get [of "workspaceId opts" "dataSourceId opts" circuits k]
  by (auto simp: preflight_def breaker_at_mset scope_key_def split: prod.splits)

lemma settle_fetch_at:
  "breaker_at (snd (settle_fetch opts outcome now circuits)) k
     = (if useCB opts \<and> k = scope_key opts then run cb_step (outcome_events outcome now) (breaker_at circuits k)
        else breaker_at circuits k)"
  "fst (settle_fetch opts outcome now circuits) = payload outcome"
  by (auto simp: settle_fetch_def payload_def breaker_at_on_breaker split: fetch_outcome.splits option.splits)

lemma runEnvelopeFetch_at:
  "breaker_at (snd (runEnvelopeFetch opts now outcome later circuits)) k
     = (if useCB opts \<and> k = scope_key opts
        then run cb_step (CanRequest now # (if fst (preflight opts now circuits) then outcome_events outcome later else []))
               (breaker_at circuits k)
        else breaker_at circuits k)"
  by (auto simp: runEnvelopeFetch_def settle_fetch_at preflight_at split: prod.splits)
     (metis fst_conv snd_conv preflight_at)+

lemma snd_fetchEnveloped:
  "snd (fetchEnveloped opts now outcome later circuits) = snd (runEnvelopeFetch opts now outcome later circuits)"
  by (simp add: fetchEnveloped_def split: prod.splits)

text \<open>
  C40: a request never touches the breaker of another scope; on its own breaker it asks for permission
  and, when it gets it, reports exactly the outcome (a success, a failure with the server's delay,
  or nothing for a client error), and its result is the unwrapped body, \<^verbatim>\<open>null\<close> when it was denied or
  failed. With the breaker disabled no breaker changes.
\<close>

theorem fetch_accounts_to_its_own_breaker:
  "breaker_at (snd (fetchEnveloped opts now outcome later circuits)) k
     = (if useCB opts \<and> k = scope_key opts
        then run cb_step (CanRequest now # (if fst (preflight opts now circuits) then outcome_events outcome later else []))
               (breaker_at circuits k)
        else breaker_at circuits k)
   \<and> fst (fetchEnveloped opts now outcome later circuits)
     = (if fst (preflight opts now circuits) then unwrapEnvelope (payload outcome) else JNull)"
proof
  show "breaker_at (snd (fetchEnveloped opts now outcome later circuits)) k
     = (if useCB opts \<and> k = scope_key opts
        then run cb_step (CanRequest now # (if fst (preflight opts now circuits) then outcome_events outcome later else []))
               (breaker_at circuits k)
        else breaker_at circuits k)"
    by (simp only: snd_fetchEnveloped runEnvelopeFetch_at)
  have "fst (runEnvelopeFetch opts now outcome later circuits)
     = (if fst (preflight opts now circuits) then payload outcome else JNull)"
    using settle_fetch_at(2) by (auto simp: runEnvelopeFetch_def split: prod.splits)
  moreover have "unwrapEnvelope JNull = JNull" by (simp add: unwrapEnvelope_raw isCacheEnvelope_def)
  ultimately show "fst (fetchEnveloped opts now outcome later circuits)
     = (if fst (preflight opts now circuits) then unwrapEnvelope (payload outcome) else JNull)"
    by (auto simp: fetchEnveloped_def split: prod.splits)
qed

section \<open>Failing fast\<close>

text \<open>Requests of one scope one after the other; the number of them that reach the network.\<close>

type_synonym fetch_call = "int \<times> fetch_outcome \<times> int"

fun network_calls :: "fetch_options \<Rightarrow> fetch_call list \<Rightarrow> registry \<Rightarrow> nat" where
  "network_calls opts [] circuits = 0"
| "network_calls opts ((now, outcome, later) # calls) circuits =
     (if fst (preflight opts now circuits) then 1 else 0)
       + network_calls opts calls (snd (fetchEnveloped opts now outcome later circuits))"

fun backend_failure :: "fetch_outcome \<Rightarrow> bool" where
  "backend_failure (Threw typeError) \<longleftrightarrow> typeError"
| "backend_failure (Responded res) \<longleftrightarrow> 500 \<le> status res"

text \<open>A response of the class 4xx.\<close>

fun client_error :: "fetch_outcome \<Rightarrow> bool" where
  "client_error (Threw typeError) \<longleftrightarrow> False"
| "client_error (Responded res) \<longleftrightarrow> 400 \<le> status res \<and> status res < 500"

lemma fetchEnveloped_own:
  "useCB opts \<Longrightarrow> breaker_at (snd (fetchEnveloped opts now outcome later circuits)) (scope_key opts)
     = run cb_step (CanRequest now # (if fst (preflight opts now circuits) then outcome_events outcome later else []))
         (breaker_at circuits (scope_key opts))"
  by (simp only: snd_fetchEnveloped runEnvelopeFetch_at simp_thms if_True)

lemma backend_failure_events:
  "backend_failure outcome \<Longrightarrow> \<exists>r. outcome_events outcome later = [Failure later r]"
  by (cases outcome) (auto simp: response_ok_def)

lemma open_blocks:
  assumes "useCB opts" and "cb_state (breaker_at circuits (scope_key opts)) = Open"
    and "\<forall>(now, outcome, later) \<in> set calls.
           now < lastFailureTime (breaker_at circuits (scope_key opts)) + effectiveReset (breaker_at circuits (scope_key opts))"
  shows "network_calls opts calls circuits = 0"
  using assms
proof (induction calls arbitrary: circuits)
  case (Cons call calls)
  obtain now outcome later where call: "call = (now, outcome, later)" by (cases call)
  let ?b = "breaker_at circuits (scope_key opts)"
  have "canRequest now ?b = (False, ?b)" using Cons.prems call by (intro open_denies) auto
  then have "\<not> fst (preflight opts now circuits)"
    and "breaker_at (snd (fetchEnveloped opts now outcome later circuits)) (scope_key opts) = ?b"
    using Cons.prems(1) by (simp_all add: preflight_at fetchEnveloped_own)
  with Cons show ?case by (simp add: call)
qed simp

lemma recordFailure_closed:
  "Suc (consecutiveFailures b) < failureThreshold b \<Longrightarrow>
     recordFailure now r b = b\<lparr>consecutiveFailures := Suc (consecutiveFailures b), lastFailureTime := now, halfOpenPending := False\<rparr>"
  by (simp add: recordFailure_def Let_def)

lemma recordFailure_reset_bound:
  assumes "cb_inv b"
  shows "resetTimeoutMs b \<le> effectiveReset (recordFailure now r b)"
  using assms by (cases "dynamicResetMs b"; cases r) (auto simp: cb_inv_def recordFailure_def effectiveReset_def Let_def)

lemma dead_backend_calls:
  assumes "useCB opts" and "cb_inv (breaker_at circuits (scope_key opts))"
    and "cb_state (breaker_at circuits (scope_key opts)) = Closed"
    and "\<forall>(now, outcome, later) \<in> set calls. backend_failure outcome \<and> start \<le> later
           \<and> now < start + resetTimeoutMs (breaker_at circuits (scope_key opts))"
  shows "network_calls opts calls circuits
    \<le> failureThreshold (breaker_at circuits (scope_key opts)) - consecutiveFailures (breaker_at circuits (scope_key opts))"
  using assms
proof (induction calls arbitrary: circuits)
  case (Cons call calls)
  obtain now outcome later where call: "call = (now, outcome, later)" by (cases call)
  let ?b = "breaker_at circuits (scope_key opts)"
  let ?circuits' = "snd (fetchEnveloped opts now outcome later circuits)"
  obtain r where events: "outcome_events outcome later = [Failure later r]"
    using backend_failure_events [of outcome later] Cons.prems(4) by (auto simp: call)
  have granted: "canRequest now ?b = (True, ?b)" using Cons.prems(3) by (simp add: canRequest_def)
  then have pre: "fst (preflight opts now circuits)" by (simp add: preflight_at)
  then have next_b: "breaker_at ?circuits' (scope_key opts) = recordFailure later r ?b"
    using Cons.prems(1) granted events by (simp add: fetchEnveloped_own)
  have inv': "cb_inv (recordFailure later r ?b)" using cb_inv_step [OF Cons.prems(2), of "Failure later r"] by simp
  have below: "consecutiveFailures ?b < failureThreshold ?b" using Cons.prems(2,3) by (simp add: cb_inv_def)
  show ?case
  proof (cases "Suc (consecutiveFailures ?b) < failureThreshold ?b")
    case True
    have "network_calls opts calls ?circuits' \<le> failureThreshold ?b - Suc (consecutiveFailures ?b)"
      using Cons.IH [of ?circuits'] Cons.prems inv' True by (simp add: next_b recordFailure_closed call)
    then show ?thesis using pre below by (simp add: call)
  next
    case False
    have "network_calls opts calls ?circuits' = 0"
    proof (rule open_blocks [OF Cons.prems(1)])
      show "cb_state (breaker_at ?circuits' (scope_key opts)) = Open"
        using False by (simp add: next_b recordFailure_opens)
      show "\<forall>(n, outcome, l) \<in> set calls. n < lastFailureTime (breaker_at ?circuits' (scope_key opts))
          + effectiveReset (breaker_at ?circuits' (scope_key opts))"
        using Cons.prems(4) recordFailure_reset_bound [OF Cons.prems(2), of later r] by (force simp: next_b call)
    qed
    then show ?thesis using pre below by (simp add: call)
  qed
qed simp

text \<open>
  against a backend that only times out or answers 5xx, the requests of one scope reach the network
  at most as often as the threshold allows (three times by default) before the reset time has
  passed; all others fail fast.
\<close>

theorem dead_backend_is_spared:
  assumes "useCB opts" and "mget circuits (scope_key opts) = None"
    and "\<forall>(now, outcome, later) \<in> set calls. backend_failure outcome \<and> start \<le> later \<and> now < start + 15000"
  shows "network_calls opts calls circuits \<le> 3"
proof -
  have b: "breaker_at circuits (scope_key opts) = default_breaker" using assms(2) by (simp add: breaker_at_def)
  have def: "cb_inv default_breaker" "cb_state default_breaker = Closed" "resetTimeoutMs default_breaker = 15000"
    by (simp_all add: default_breaker_def cb_inv_new) (simp_all add: new_breaker_def)
  have "network_calls opts calls circuits \<le> failureThreshold default_breaker - consecutiveFailures default_breaker"
    using dead_backend_calls [of opts circuits calls start] assms(1,3) by (simp add: b def)
  then show ?thesis by (simp add: default_breaker_def new_breaker_def)
qed

theorem dead_backend_is_spared_witness:
  "network_calls \<lparr>workspaceId = Some ''ws'', dataSourceId = None, useCircuitBreaker = None\<rparr>
     [(0, Threw True, 5000), (5000, Responded \<lparr>status = 503, retry_after = Some ''60'', body = None\<rparr>, 6000),
      (7000, Threw True, 12000), (13000, Threw True, 18000)] [] \<le> 3"
  by (rule dead_backend_is_spared [where start = 5000]) (simp_all add: useCB_def)

text \<open>
  a probe that meets a client error is never reported to the breaker, so the breaker waits for its
  outcome for ever: every later request of the scope is denied, whatever the time and however
  healthy the backend, until the breaker is reset.
\<close>

theorem client_error_on_probe_blocks_scope:
  assumes "useCB opts" and "cb_state (breaker_at circuits (scope_key opts)) = Open"
    and "cooled_down now (breaker_at circuits (scope_key opts))" and "client_error outcome"
  shows "fst (preflight opts now circuits)
    \<and> network_calls opts calls (snd (fetchEnveloped opts now outcome later circuits)) = 0"
proof
  let ?b = "breaker_at circuits (scope_key opts)"
  let ?circuits' = "snd (fetchEnveloped opts now outcome later circuits)"
  have probe: "fst (canRequest now ?b)" "cb_state (snd (canRequest now ?b)) = HalfOpen"
    "halfOpenPending (snd (canRequest now ?b))"
    using assms by (simp_all add: cb_defs)
  then show pre: "fst (preflight opts now circuits)" by (simp add: preflight_at)
  have "outcome_events outcome later = []"
    using assms(4) by (cases outcome) (auto simp: response_ok_def)
  then have pending: "cb_state (breaker_at ?circuits' (scope_key opts)) = HalfOpen"
    "halfOpenPending (breaker_at ?circuits' (scope_key opts))"
    using assms(1) pre probe by (simp_all add: fetchEnveloped_own)
  show "network_calls opts calls ?circuits' = 0"
    using pending
  proof (induction calls arbitrary: outcome circuits now later)
    case (Cons call calls)
    let ?c = "snd (fetchEnveloped opts now outcome later circuits)"
    obtain n out l where call: "call = (n, out, l)" by (cases call)
    have "canRequest n (breaker_at ?c (scope_key opts)) = (False, breaker_at ?c (scope_key opts))"
      using Cons.prems by (simp add: pending_probe_denies)
    then have "\<not> fst (preflight opts n ?c)"
      and "breaker_at (snd (fetchEnveloped opts n out l ?c)) (scope_key opts) = breaker_at ?c (scope_key opts)"
      using assms(1) by (simp_all add: preflight_at fetchEnveloped_own)
    with Cons show ?case by (simp add: call)
  qed simp
qed

theorem client_error_on_probe_blocks_scope_witness:
  "network_calls \<lparr>workspaceId = None, dataSourceId = None, useCircuitBreaker = None\<rparr>
     [(100000, Responded \<lparr>status = 200, retry_after = None, body = Some (JBool True)\<rparr>, 100100)]
     (snd (fetchEnveloped \<lparr>workspaceId = None, dataSourceId = None, useCircuitBreaker = None\<rparr> 20000
        (Responded \<lparr>status = 404, retry_after = None, body = None\<rparr>) 20100
        [('':'', run cb_step [Failure 0 None, Failure 0 None, Failure 0 None] default_breaker)])) = 0"
  by (rule client_error_on_probe_blocks_scope [THEN conjunct2])
     (simp_all add: useCB_def scope_key_def circuit_key_def breaker_at_def default_breaker_def new_breaker_def
       recordFailure_def cooled_down_def effectiveReset_def Let_def)

end
