(* ===== verification/Lineage_Cache.thy ===== *)
theory Lineage_Cache
  imports Step_System "HOL-Library.Word"
begin

text \<open>
  The substrate of \<^verbatim>\<open>hooks/lib/lineageCache.ts\<close>: the FNV-1a hash that makes cache keys compact, and the
  bounded cache with a time to live. The interface \<open>ttl_cache\<close> states what the lineage hooks rely
  on; this theory shows that \<open>LruCache\<close> provides it.
\<close>

unbundle bit_operations_syntax

section \<open>FNV-1a\<close>

text \<open>
  The code computes on \<^verbatim>\<open>BigInt\<close> and masks to 64 bits after each multiplication; a \<open>64 word\<close> does the
  same. A character is its code unit.
\<close>

definition FNV_OFFSET_64 :: "64 word" where
  "FNV_OFFSET_64 = 0xcbf29ce484222325"

definition FNV_PRIME_64 :: "64 word" where
  "FNV_PRIME_64 = 0x100000001b3"

definition fnv_step :: "char \<Rightarrow> 64 word \<Rightarrow> 64 word" where
  "fnv_step c hash = (hash XOR of_char c) * FNV_PRIME_64"

definition fnv_hash :: "string \<Rightarrow> 64 word" where
  "fnv_hash input = fold fnv_step input FNV_OFFSET_64"

text \<open>\<^verbatim>\<open>hash.toString(16)\<close>: lower-case hexadecimal digits, no leading zeros.\<close>

definition hex_digit :: "nat \<Rightarrow> char" where
  "hex_digit d = ''0123456789abcdef'' ! d"

fun hex_of_nat :: "nat \<Rightarrow> string" where
  "hex_of_nat n = (if n < 16 then [hex_digit n] else hex_of_nat (n div 16) @ [hex_digit (n mod 16)])"

declare hex_of_nat.simps [simp del]

definition fnv1a64 :: "string \<Rightarrow> string" where
  "fnv1a64 input = hex_of_nat (unat (fnv_hash input))"

text \<open>The prime is odd, so a step loses nothing of the hash; this is its inverse.\<close>

definition FNV_PRIME_INV :: "64 word" where
  "FNV_PRIME_INV = 0xce965057aff6957b"

lemma fnv_prime_inv: "FNV_PRIME_64 * FNV_PRIME_INV = 1"
  by (simp add: FNV_PRIME_64_def FNV_PRIME_INV_def)

lemma times_prime_inject: "x * FNV_PRIME_64 = y * FNV_PRIME_64 \<longleftrightarrow> x = y"
proof
  assume "x * FNV_PRIME_64 = y * FNV_PRIME_64"
  then have "x * FNV_PRIME_64 * FNV_PRIME_INV = y * FNV_PRIME_64 * FNV_PRIME_INV" by simp
  then show "x = y" by (simp add: mult.assoc fnv_prime_inv)
qed simp

lemma xor_inject: "(x :: 64 word) XOR z = y XOR z \<longleftrightarrow> x = y"
proof
  assume "x XOR z = y XOR z"
  then have "(x XOR z) XOR z = (y XOR z) XOR z" by simp
  then show "x = y" by (simp add: xor.assoc)
qed simp

lemma fnv_step_hash_inject: "fnv_step c x = fnv_step c y \<longleftrightarrow> x = y"
  by (simp add: fnv_step_def times_prime_inject xor_inject)

lemma of_char_word_inject: "(of_char c :: 64 word) = of_char d \<longleftrightarrow> c = d"
proof
  assume eq: "(of_char c :: 64 word) = of_char d"
  have small: "(of_char x :: nat) < 2 ^ 64" for x :: char
    by (rule less_trans [OF nat_of_char_less_256]) simp
  have "unat (of_char x :: 64 word) = of_char x" for x :: char
  proof -
    have "(of_char x :: 64 word) = of_nat (of_char x)" by (rule of_nat_of_char [symmetric])
    then show ?thesis using small [of x] by (simp add: unat_of_nat)
  qed
  with eq have "(of_char c :: nat) = of_char d" by metis
  then show "c = d" by simp
qed simp

lemma fnv_step_char_inject: "fnv_step c x = fnv_step d x \<longleftrightarrow> c = d"
  by (simp add: fnv_step_def times_prime_inject xor_inject of_char_word_inject
      xor.commute [of x])

lemma fnv_fold_inject: "fold fnv_step w x = fold fnv_step w y \<longleftrightarrow> x = y"
  by (induction w arbitrary: x y) (simp_all add: fnv_step_hash_inject)

lemma hex_digit_inject: "m < 16 \<Longrightarrow> n < 16 \<Longrightarrow> hex_digit m = hex_digit n \<longleftrightarrow> m = n"
  unfolding hex_digit_def by (subst nth_eq_iff_index_eq) simp_all

lemma hex_of_nat_nonempty: "hex_of_nat n \<noteq> []"
  by (subst hex_of_nat.simps) simp

lemma hex_of_nat_inject: "hex_of_nat m = hex_of_nat n \<Longrightarrow> m = n"
proof (induction m arbitrary: n rule: hex_of_nat.induct)
  case (1 m)
  show ?case
  proof (cases "m < 16 \<or> n < 16")
    case True
    with "1.prems" show ?thesis
      by (auto simp: hex_of_nat.simps [of m] hex_of_nat.simps [of n] hex_of_nat_nonempty hex_of_nat_nonempty [symmetric]
          hex_digit_inject split: if_splits)
  next
    case False
    with "1.prems" have "hex_of_nat (m div 16) = hex_of_nat (n div 16)"
      and "hex_digit (m mod 16) = hex_digit (n mod 16)"
      by (simp_all add: hex_of_nat.simps [of m] hex_of_nat.simps [of n])
    with False "1.IH" have "m div 16 = n div 16" and "m mod 16 = n mod 16"
      by (simp_all add: hex_digit_inject)
    then show ?thesis by (metis div_mult_mod_eq)
  qed
qed

lemma fnv1a64_eq_iff: "fnv1a64 u = fnv1a64 v \<longleftrightarrow> fnv_hash u = fnv_hash v"
  by (auto simp: fnv1a64_def dest!: hex_of_nat_inject intro: word_unat_eq_iff [THEN iffD2])

text \<open>
  two inputs of the hash that differ in exactly one character never get the same key, and a
  common tail neither causes nor hides a collision.
\<close>

theorem fnv1a64_separates_one_character:
  "(fnv1a64 (u @ c # w) = fnv1a64 (u @ d # w) \<longleftrightarrow> c = d)
   \<and> (fnv1a64 (u @ w) = fnv1a64 (v @ w) \<longleftrightarrow> fnv1a64 u = fnv1a64 v)"
  by (simp_all add: fnv1a64_eq_iff fnv_hash_def fnv_fold_inject fnv_step_char_inject)

section \<open>The bounded cache\<close>

record 'v cache_entry =
  entry_value :: 'v
  timestamp :: int

record 'v lru_cache =
  lru_store :: "(string, 'v cache_entry) jsmap"
  maxEntries :: nat
  ttlMs :: int

definition new_lru :: "nat \<Rightarrow> int \<Rightarrow> 'v lru_cache" where
  "new_lru n ttl = \<lparr>lru_store = [], maxEntries = n, ttlMs = ttl\<rparr>"

text \<open>\<open>get\<close> drops a stale entry, so it returns the cache as well.\<close>

definition lru_get :: "int \<Rightarrow> string \<Rightarrow> 'v lru_cache \<Rightarrow> 'v option \<times> 'v lru_cache" where
  "lru_get now key c =
     (case mget (lru_store c) key of
        None \<Rightarrow> (None, c)
      | Some entry \<Rightarrow>
          if ttlMs c < now - timestamp entry then (None, c\<lparr>lru_store := mdel key (lru_store c)\<rparr>)
          else (Some (entry_value entry), c))"

definition evict_oldest :: "('k, 'v) jsmap \<Rightarrow> ('k, 'v) jsmap" where
  "evict_oldest m = (case m of [] \<Rightarrow> [] | (oldestKey, _) # _ \<Rightarrow> mdel oldestKey m)"

definition lru_set :: "int \<Rightarrow> string \<Rightarrow> 'v \<Rightarrow> 'v lru_cache \<Rightarrow> 'v lru_cache" where
  "lru_set now key v c =
     (let store = (if maxEntries c \<le> length (lru_store c) \<and> \<not> mhas (lru_store c) key
                   then evict_oldest (lru_store c) else lru_store c)
      in c\<lparr>lru_store := mset_key key \<lparr>entry_value = v, timestamp = now\<rparr> store\<rparr>)"

definition lru_delete :: "string \<Rightarrow> 'v lru_cache \<Rightarrow> bool \<times> 'v lru_cache" where
  "lru_delete key c = (mhas (lru_store c) key, c\<lparr>lru_store := mdel key (lru_store c)\<rparr>)"

definition lru_clear :: "'v lru_cache \<Rightarrow> 'v lru_cache" where
  "lru_clear c = c\<lparr>lru_store := []\<rparr>"

definition lru_size :: "'v lru_cache \<Rightarrow> nat" where
  "lru_size c = length (lru_store c)"

definition lru_entries :: "'v lru_cache \<Rightarrow> (string \<times> 'v) list" where
  "lru_entries c = map (\<lambda>(key, entry). (key, entry_value entry)) (lru_store c)"

datatype 'v lru_event =
    Get int string
  | Put int string 'v
  | Delete string
  | Clear

fun lru_step :: "'v lru_event \<Rightarrow> 'v lru_cache \<Rightarrow> 'v lru_cache" where
  "lru_step (Get now k) c = snd (lru_get now k c)"
| "lru_step (Put now k v) c = lru_set now k v c"
| "lru_step (Delete k) c = snd (lru_delete k c)"
| "lru_step Clear c = lru_clear c"

definition lru_ok :: "'v lru_cache \<Rightarrow> bool" where
  "lru_ok c \<longleftrightarrow> jsm_ok (lru_store c) \<and> lru_size c \<le> max 1 (maxEntries c)"

lemmas lru_defs = lru_get_def lru_set_def lru_delete_def lru_clear_def lru_size_def

lemma evict_oldest_tl: "jsm_ok m \<Longrightarrow> evict_oldest m = tl m"
  by (cases m) (auto simp: evict_oldest_def jsm_ok_def image_iff)

lemma jsm_ok_tl: "jsm_ok m \<Longrightarrow> jsm_ok (tl m)"
  by (simp add: jsm_ok_def distinct_tl map_tl)

lemma jsm_ok_evict [simp, jsm_ok_intros]: "jsm_ok m \<Longrightarrow> jsm_ok (evict_oldest m)"
  by (simp add: evict_oldest_tl jsm_ok_tl)

lemma length_mdel_le: "length (mdel k m) \<le> length m"
  by (rule length_delete_le)

lemma mget_evict_oldest: "mget m k = None \<Longrightarrow> mget (evict_oldest m) k = None"
  by (cases m) (auto simp: evict_oldest_def)


lemma length_evict_set:
  assumes "jsm_ok m" and "n \<le> length m" and "length m \<le> max 1 n" and "mget m k = None"
  shows "length (mset_key k v (evict_oldest m)) \<le> max 1 n"
  using assms by (auto simp: length_mset_key mget_evict_oldest evict_oldest_tl)

lemma lru_ok_set: "lru_ok c \<Longrightarrow> lru_ok (lru_set now k v c)"
  by (auto simp: lru_ok_def lru_defs Let_def length_mset_key mget_evict_oldest evict_oldest_tl jsm_ok_tl)

lemma lru_ok_step: "lru_ok c \<Longrightarrow> lru_ok (lru_step e c)"
proof (cases e)
  case (Put now k v)
  then show "lru_ok c \<Longrightarrow> ?thesis" by (simp add: lru_ok_set)
qed (auto simp: lru_ok_def lru_defs split: option.splits intro: order_trans [OF length_mdel_le])

interpretation lru: step_system lru_step lru_ok "\<lambda>_. True"
  by unfold_locales (rule lru_ok_step)

lemma lru_ok_new: "lru_ok (new_lru n ttl)"
  by (simp add: lru_ok_def new_lru_def lru_size_def)

lemma lru_step_frame [simp]:
  "maxEntries (lru_step e c) = maxEntries c"
  "ttlMs (lru_step e c) = ttlMs c"
  by (cases e; simp add: lru_defs Let_def split: option.splits)+

lemma lru_run_frame [simp]: "maxEntries (run lru_step es c) = maxEntries c"
  by (induction es arbitrary: c) simp_all

text \<open>
  no history of reads, writes, deletions and clears takes a cache beyond its capacity (beyond
  one entry for a capacity of zero), nor stores a key twice.
\<close>

theorem lru_never_exceeds_capacity:
  "lru_size (run lru_step es (new_lru n ttl)) \<le> max 1 n \<and> jsm_ok (lru_store (run lru_step es (new_lru n ttl)))"
proof -
  have "lru_ok (run lru_step es (new_lru n ttl))"
    by (rule lru.run_inv) (simp_all add: lru_ok_new)
  then show ?thesis by (simp add: lru_ok_def new_lru_def)
qed

section \<open>The interface of a cache with a time to live\<close>

text \<open>
  What the hooks use: a pure view of what a read at a time answers, a write, the time to live, and
  the keys held. The laws: a write is read back before its time to live is over, a read returns
  only what was written under that key and is not older than the time to live, and the number of
  entries stays bounded.
\<close>

locale ttl_cache =
  fixes lookup :: "int \<Rightarrow> string \<Rightarrow> 'c \<Rightarrow> 'v option"
    and store :: "int \<Rightarrow> string \<Rightarrow> 'v \<Rightarrow> 'c \<Rightarrow> 'c"
    and ttl :: "'c \<Rightarrow> int"
    and written :: "'c \<Rightarrow> string \<Rightarrow> ('v \<times> int) option"
    and ok :: "'c \<Rightarrow> bool"
  assumes lookup_written: "ok c \<Longrightarrow> lookup now k c = Some v
      \<Longrightarrow> \<exists>t. written c k = Some (v, t) \<and> now - t \<le> ttl c"
    and fresh_lookup: "ok c \<Longrightarrow> written c k = Some (v, t) \<Longrightarrow> now - t < ttl c \<Longrightarrow> lookup now k c = Some v"
    and written_store: "ok c \<Longrightarrow> written (store t k v c) k = Some (v, t)"
    and written_other: "ok c \<Longrightarrow> k' \<noteq> k \<Longrightarrow> written (store t k v c) k' = written c k'
      \<or> written (store t k v c) k' = None"
    and ttl_store: "ttl (store t k v c) = ttl c"
    and ok_store: "ok c \<Longrightarrow> ok (store t k v c)"
begin

lemma read_back: "ok c \<Longrightarrow> now - t < ttl c \<Longrightarrow> lookup now k (store t k v c) = Some v"
  by (rule fresh_lookup) (auto simp: ok_store written_store ttl_store)

lemma never_invents:
  assumes "ok c" and "lookup now k (store t k' v c) = Some u"
  shows "k = k' \<and> u = v \<or> (\<exists>t'. written c k = Some (u, t') \<and> now - t' \<le> ttl c)"
  using lookup_written [OF ok_store assms(2), OF assms(1)] written_store [OF assms(1)]
    written_other [OF assms(1), of k k'] ttl_store
  by (metis option.distinct(1) option.inject prod.inject)

lemma stale_after_ttl:
  assumes "ok c" and "ttl c < now - t"
  shows "lookup now k (store t k v c) = None"
proof (cases "lookup now k (store t k v c)")
  case (Some u)
  then have "\<exists>t'. written (store t k v c) k = Some (u, t') \<and> now - t' \<le> ttl (store t k v c)"
    by (intro lookup_written ok_store assms(1))
  with assms show ?thesis by (auto simp: written_store ttl_store)
qed

end

definition lru_written :: "'v lru_cache \<Rightarrow> string \<Rightarrow> ('v \<times> int) option" where
  "lru_written c k = map_option (\<lambda>e. (entry_value e, timestamp e)) (mget (lru_store c) k)"

lemma mget_tl: "jsm_ok m \<Longrightarrow> mget (tl m) k = mget m k \<or> mget (tl m) k = None"
  by (cases m) (auto simp: jsm_ok_def map_of_eq_None_iff)

interpretation lru_cache: ttl_cache "\<lambda>now k c. fst (lru_get now k c)" lru_set ttlMs lru_written lru_ok
proof (unfold_locales, goal_cases)
  case (4 c k' k t v)
  then show ?case
    using mget_tl [of "lru_store c" k']
    by (auto simp: lru_written_def lru_set_def Let_def lru_ok_def evict_oldest_tl)
next
  case (6 c t k v)
  then show ?case by (rule lru_ok_set)
qed (auto simp: lru_written_def lru_get_def lru_set_def Let_def split: option.splits if_splits)

section \<open>First in, first out\<close>

text \<open>
  Despite its name the cache evicts by age of insertion. The slack of a key is its position plus
  the free room: a write of any other key lowers it by at most one, and a key with slack survives.
\<close>

fun position :: "'k \<Rightarrow> 'k list \<Rightarrow> nat" where
  "position k [] = 0"
| "position k (x # xs) = (if x = k then 0 else Suc (position k xs))"

definition lru_slack :: "string \<Rightarrow> 'v lru_cache \<Rightarrow> nat" where
  "lru_slack k c = position k (map fst (lru_store c)) + (maxEntries c - lru_size c)"

lemma position_append: "k \<in> set xs \<Longrightarrow> position k (xs @ ys) = position k xs"
  by (induction xs) auto

lemma position_last: "k \<notin> set xs \<Longrightarrow> position k (xs @ [k]) = length xs"
  by (induction xs) auto

lemma position_tl: "k \<in> set xs \<Longrightarrow> 0 < position k xs \<Longrightarrow> position k xs = Suc (position k (tl xs)) \<and> k \<in> set (tl xs)"
  by (cases xs) auto

lemma lru_set_maxEntries [simp]: "maxEntries (lru_set now k v c) = maxEntries c"
  by (simp add: lru_set_def)

lemma mhas_keys: "mhas m k \<longleftrightarrow> k \<in> set (map fst m)"
  by (simp only: mhas_def)

lemma lru_set_slack:
  assumes "lru_ok c" and "mhas (lru_store c) k" and "0 < lru_slack k c"
  shows "mhas (lru_store (lru_set now k' v c)) k \<and> lru_slack k c \<le> Suc (lru_slack k (lru_set now k' v c))"
proof (cases "maxEntries c \<le> lru_size c \<and> \<not> mhas (lru_store c) k'")
  case True
  let ?ks = "map fst (lru_store c)"
  have k: "k \<in> set ?ks" using assms(2) by (simp add: mhas_def del: mhas_iff)
  have k': "k' \<notin> set (tl ?ks)"
    using True by (cases "lru_store c") (auto simp: mhas_def simp del: mhas_iff)
  have pos: "0 < position k ?ks" using True assms(3) by (simp add: lru_slack_def)
  have keys: "map fst (lru_store (lru_set now k' v c)) = tl ?ks @ [k']"
    using True assms(1) k' by (simp add: lru_set_def lru_size_def lru_ok_def evict_oldest_tl update_keys map_tl)
  have sz: "lru_size (lru_set now k' v c) = lru_size c"
    using arg_cong [OF keys, of length] k by (cases ?ks) (auto simp: lru_size_def)
  show ?thesis
    using position_tl [OF k pos] keys sz
    by (simp add: lru_slack_def position_append mhas_keys keys sz del: mhas_iff)
next
  case False
  let ?ks = "map fst (lru_store c)"
  have k: "k \<in> set ?ks" using assms(2) by (simp add: mhas_def del: mhas_iff)
  have keys: "map fst (lru_store (lru_set now k' v c)) = (if k' \<in> set ?ks then ?ks else ?ks @ [k'])"
    using False by (auto simp: lru_set_def lru_size_def update_keys mhas_def simp del: mhas_iff)
  have sz: "lru_size (lru_set now k' v c) \<le> Suc (lru_size c)"
    using arg_cong [OF keys, of length] by (auto simp: lru_size_def split: if_splits)
  show ?thesis
    using k sz by (auto simp: lru_slack_def position_append mhas_keys keys simp del: mhas_iff)
qed

definition lru_sets :: "(int \<times> string \<times> 'v) list \<Rightarrow> 'v lru_cache \<Rightarrow> 'v lru_cache" where
  "lru_sets ws c = fold (\<lambda>(now, k, v). lru_set now k v) ws c"

lemma lru_sets_Cons [simp]: "lru_sets ((now, k, v) # ws) c = lru_sets ws (lru_set now k v c)"
  by (simp add: lru_sets_def)

lemma lru_sets_survive:
  "lru_ok c \<Longrightarrow> mhas (lru_store c) k \<Longrightarrow> length ws \<le> lru_slack k c \<Longrightarrow> mhas (lru_store (lru_sets ws c)) k"
proof (induction ws arbitrary: c)
  case Nil
  then show ?case by (simp add: lru_sets_def)
next
  case (Cons w ws)
  obtain now k' v where w: "w = (now, k', v)" by (cases w)
  have "0 < lru_slack k c" using Cons.prems(3) by simp
  from lru_set_slack [OF Cons.prems(1,2) this, of now k' v] Cons.prems
  show ?case unfolding w lru_sets_Cons by (intro Cons.IH lru_ok_set) auto
qed

lemma lru_slack_new:
  assumes "lru_ok c" and "mget (lru_store c) k = None" and "0 < maxEntries c"
  shows "lru_slack k (lru_set now k v c) = maxEntries c - 1"
proof -
  have k: "k \<notin> set (map fst (lru_store c))" using assms(2) by (simp add: map_of_eq_None_iff)
  then have k_tl: "k \<notin> set (tl (map fst (lru_store c)))" by (metis list.sel(2) list.set_sel(2))
  have keys: "map fst (lru_store (lru_set now k v c)) =
      (if maxEntries c \<le> lru_size c then tl (map fst (lru_store c)) else map fst (lru_store c)) @ [k]"
    using assms k k_tl
    by (simp add: lru_set_def lru_size_def lru_ok_def Let_def evict_oldest_tl update_keys map_tl
        del: set_map)
  have "lru_size (lru_set now k v c) = length (map fst (lru_store (lru_set now k v c)))"
    by (simp add: lru_size_def)
  then show ?thesis
    using assms(1,3) position_last [OF k] position_last [OF k_tl]
    by (simp only: lru_slack_def keys) (auto simp: lru_ok_def lru_size_def)
qed

text \<open>
  a key written for the first time stays in the cache for the next \<open>maxEntries - 1\<close> writes,
  whatever keys they write and however often it is read or not read: eviction is first in, first
  out.
\<close>

theorem new_key_survives_until_capacity:
  assumes "lru_ok c" and "mget (lru_store c) k = None" and "length ws < maxEntries c"
  shows "mget (lru_store (lru_sets ws (lru_set now k v c))) k \<noteq> None"
proof -
  have "lru_slack k (lru_set now k v c) = maxEntries c - 1"
    using assms by (intro lru_slack_new) auto
  then have "mhas (lru_store (lru_sets ws (lru_set now k v c))) k"
    using assms(3) by (intro lru_sets_survive lru_ok_set assms(1)) (simp_all add: lru_set_def)
  then show ?thesis by simp
qed

theorem new_key_survives_until_capacity_witness:
  "mget (lru_store (lru_sets [(1, ''b'', 20), (2, ''c'', 30)] (lru_set 0 ''a'' (10 :: nat) (new_lru 3 60)))) ''a'' \<noteq> None"
  by (rule new_key_survives_until_capacity) (simp_all add: lru_ok_new, simp_all add: new_lru_def)

text \<open>
  The bound is tight, and reading a key does not keep it: the first key is evicted by the third
  write of another key although it was read in between.
\<close>

lemma reads_do_not_refresh:
  "mget (lru_store (run lru_step
      [Put 0 ''a'' (10 :: nat), Put 1 ''b'' 20, Put 2 ''c'' 30, Get 3 ''a'', Put 4 ''d'' 40]
      (new_lru 3 60))) ''a'' = None"
  by (simp add: new_lru_def lru_defs evict_oldest_def)

end
