(* ===== verification/Bounded_Queue.thy ===== *)
theory Bounded_Queue
  imports Step_System
begin

text \<open>
  \<open>BoundedQueue\<close> of \<^verbatim>\<open>lib/concurrency.ts\<close>. An entry and its promise are identified by a number taken from
  \<open>bq_next\<close>; \<open>bq_running\<close> holds the entries whose \<open>start\<close> has fired and whose task has not settled
  (the code keeps only their number, \<open>active\<close>). A task settles later, by a \<open>Settle\<close> event, unless
  calling it throws synchronously (\<open>e_throws\<close>): then the code's \<^verbatim>\<open>try/catch/finally\<close> runs to its end
  inside \<open>start\<close>.
\<close>

record bq_entry =
  e_key :: string
  e_id :: nat
  e_throws :: bool

datatype promise_state = Resolved | Rejected

record bqueue =
  bq_limit :: nat
  bq_active :: nat
  bq_pending :: "bq_entry list"
  bq_entries :: "(string, bq_entry) jsmap"
  bq_inflight :: "(string, nat) jsmap"
  bq_running :: "bq_entry list"
  bq_settled :: "(nat, promise_state) jsmap"
  bq_aborted :: "nat list"
  bq_next :: nat

definition new_queue :: "int \<Rightarrow> bqueue" where
  "new_queue limit =
     \<lparr>bq_limit = nat (max 1 limit), bq_active = 0, bq_pending = [], bq_entries = [],
      bq_inflight = [], bq_running = [], bq_settled = [], bq_aborted = [], bq_next = 0\<rparr>"

text \<open>The \<^verbatim>\<open>finally\<close> block of a task, before its call of \<open>drain\<close>.\<close>

definition finish_entry :: "bq_entry \<Rightarrow> promise_state \<Rightarrow> bqueue \<Rightarrow> bqueue" where
  "finish_entry e r q =
     q\<lparr>bq_entries := mdel (e_key e) (bq_entries q), bq_inflight := mdel (e_key e) (bq_inflight q),
       bq_active := bq_active q - 1, bq_running := remove1 e (bq_running q),
       bq_settled := mset_key (e_id e) r (bq_settled q)\<rparr>"

text \<open>
  \<open>drain\<close> shifts and starts entries while there is room. An entry whose task throws synchronously
  finishes on the spot; the nested \<open>drain\<close> of its \<^verbatim>\<open>finally\<close> and the rest of the outer loop are the
  same loop.
\<close>

function drain :: "bqueue \<Rightarrow> bqueue" where
  "drain q =
     (if bq_active q < bq_limit q then
        (case bq_pending q of
           [] \<Rightarrow> q
         | e # rest \<Rightarrow>
             (let q' = q\<lparr>bq_pending := rest, bq_active := Suc (bq_active q), bq_running := bq_running q @ [e]\<rparr>
              in drain (if e_throws e then finish_entry e Rejected q' else q')))
      else q)"
  by pat_completeness auto
termination
  by (relation "measure (\<lambda>q. length (bq_pending q))") (auto simp: finish_entry_def Let_def split: if_splits)

declare drain.simps [simp del]

definition submit :: "string \<Rightarrow> bool \<Rightarrow> bqueue \<Rightarrow> nat \<times> bqueue" where
  "submit key throws q =
     (case mget (bq_inflight q) key of
        Some existing \<Rightarrow> (existing, q)
      | None \<Rightarrow>
          (let entry = \<lparr>e_key = key, e_id = bq_next q, e_throws = throws\<rparr>;
               q' = drain (q\<lparr>bq_pending := bq_pending q @ [entry],
                            bq_entries := mset_key key entry (bq_entries q), bq_next := Suc (bq_next q)\<rparr>)
           in (e_id entry, q'\<lparr>bq_inflight := mset_key key (e_id entry) (bq_inflight q')\<rparr>)))"

definition cancel :: "string \<Rightarrow> bqueue \<Rightarrow> bqueue" where
  "cancel key q =
     (case mget (bq_entries q) key of
        None \<Rightarrow> q
      | Some entry \<Rightarrow>
          (let q1 = q\<lparr>bq_aborted := e_id entry # bq_aborted q\<rparr>
           in if entry \<in> set (bq_running q) then q1
              else q1\<lparr>bq_pending := remove1 entry (bq_pending q1),
                      bq_entries := mdel key (bq_entries q1), bq_inflight := mdel key (bq_inflight q1),
                      bq_settled := mset_key (e_id entry) Resolved (bq_settled q1)\<rparr>))"

definition cancelAll :: "bqueue \<Rightarrow> bqueue" where
  "cancelAll q = fold cancel (map fst (bq_entries q)) q"

definition bq_size :: "bqueue \<Rightarrow> nat" where
  "bq_size q = bq_active q + length (bq_pending q)"

text \<open>The task of a running entry settles: the rest of its \<open>start\<close> closure runs.\<close>

definition settle :: "nat \<Rightarrow> promise_state \<Rightarrow> bqueue \<Rightarrow> bqueue" where
  "settle eid r q =
     (case find_first (\<lambda>e. e_id e = eid) (bq_running q) of
        None \<Rightarrow> q
      | Some e \<Rightarrow> drain (finish_entry e r q))"

datatype bq_event =
    Submit string bool
  | Cancel string
  | CancelAll
  | Settle nat promise_state

fun bq_step :: "bq_event \<Rightarrow> bqueue \<Rightarrow> bqueue" where
  "bq_step (Submit key throws) q = snd (submit key throws q)"
| "bq_step (Cancel key) q = cancel key q"
| "bq_step CancelAll q = cancelAll q"
| "bq_step (Settle eid r) q = settle eid r q"

section \<open>The bound\<close>

text \<open>The counter agrees with the running tasks, never passes the limit, and no slot stays free while work waits.\<close>

definition bq_counts :: "bqueue \<Rightarrow> bool" where
  "bq_counts q \<longleftrightarrow> bq_active q = length (bq_running q) \<and> bq_active q \<le> bq_limit q \<and> 0 < bq_limit q"

definition bq_busy :: "bqueue \<Rightarrow> bool" where
  "bq_busy q \<longleftrightarrow> (bq_pending q \<noteq> [] \<longrightarrow> bq_active q = bq_limit q)"

definition bq_bounded :: "bqueue \<Rightarrow> bool" where
  "bq_bounded q \<longleftrightarrow> bq_counts q \<and> bq_busy q"

lemma finish_entry_counts:
  "bq_counts q \<Longrightarrow> e \<in> set (bq_running q) \<Longrightarrow> bq_counts (finish_entry e r q)"
  by (auto simp: bq_counts_def finish_entry_def length_remove1)

definition start_entry :: "bq_entry \<Rightarrow> bq_entry list \<Rightarrow> bqueue \<Rightarrow> bqueue" where
  "start_entry e rest q =
     q\<lparr>bq_pending := rest, bq_active := Suc (bq_active q), bq_running := bq_running q @ [e]\<rparr>"

lemma drain_stop: "\<not> bq_active q < bq_limit q \<or> bq_pending q = [] \<Longrightarrow> drain q = q"
  by (subst drain.simps) auto

lemma drain_start:
  "bq_active q < bq_limit q \<Longrightarrow> bq_pending q = e # rest \<Longrightarrow>
     drain q = drain (if e_throws e then finish_entry e Rejected (start_entry e rest q) else start_entry e rest q)"
  by (subst drain.simps) (simp add: start_entry_def Let_def)

lemma drain_induct [case_names stop start]:
  assumes "\<And>q. \<not> bq_active q < bq_limit q \<or> bq_pending q = [] \<Longrightarrow> P q"
    and "\<And>q e rest. bq_active q < bq_limit q \<Longrightarrow> bq_pending q = e # rest \<Longrightarrow>
      P (if e_throws e then finish_entry e Rejected (start_entry e rest q) else start_entry e rest q) \<Longrightarrow> P q"
  shows "P q"
proof (induction q rule: drain.induct)
  case (1 q)
  show ?case
  proof (cases "bq_active q < bq_limit q \<and> bq_pending q \<noteq> []")
    case True
    then obtain e rest where p: "bq_pending q = e # rest" by (cases "bq_pending q") auto
    have "P (if e_throws e then finish_entry e Rejected (start_entry e rest q) else start_entry e rest q)"
      unfolding start_entry_def using True by (intro "1" [OF _ p refl]) simp
    with True show ?thesis using assms(2) [OF _ p] by simp
  qed (use assms(1) in auto)
qed

lemma drain_bounded: "bq_counts q \<Longrightarrow> bq_bounded (drain q)"
proof (induction q rule: drain_induct)
  case (stop q)
  then show ?case by (auto simp: drain_stop bq_bounded_def bq_counts_def bq_busy_def)
next
  case (start q e rest)
  have q': "bq_counts (start_entry e rest q)"
    using start by (simp add: bq_counts_def start_entry_def)
  then have "bq_counts (finish_entry e Rejected (start_entry e rest q))"
    by (rule finish_entry_counts) (simp add: start_entry_def)
  with q' start.IH show ?case
    by (simp add: drain_start [OF start.hyps] split: if_splits)
qed

lemma drain_frame [simp]: "bq_limit (drain q) = bq_limit q" "bq_next (drain q) = bq_next q"
proof (induction q rule: drain_induct)
  case (start q e rest)
  { case 1 show ?case unfolding drain_start [OF start.hyps] start.IH(1) by (simp add: finish_entry_def start_entry_def) }
  { case 2 show ?case unfolding drain_start [OF start.hyps] start.IH(2) by (simp add: finish_entry_def start_entry_def) }
qed (simp_all add: drain_stop)

definition enqueue :: "string \<Rightarrow> bool \<Rightarrow> bqueue \<Rightarrow> bqueue" where
  "enqueue key t q =
     (let entry = \<lparr>e_key = key, e_id = bq_next q, e_throws = t\<rparr>
      in q\<lparr>bq_pending := bq_pending q @ [entry], bq_entries := mset_key key entry (bq_entries q),
           bq_next := Suc (bq_next q)\<rparr>)"

lemma submit_new:
  "mget (bq_inflight q) key = None \<Longrightarrow> submit key t q =
     (bq_next q, (drain (enqueue key t q))\<lparr>bq_inflight := mset_key key (bq_next q) (bq_inflight (drain (enqueue key t q)))\<rparr>)"
  by (simp add: submit_def enqueue_def Let_def)

lemma submit_old: "mget (bq_inflight q) key = Some i \<Longrightarrow> submit key t q = (i, q)"
  by (simp add: submit_def)

lemma submit_bounded: "bq_bounded q \<Longrightarrow> bq_bounded (snd (submit key t q))"
proof (cases "mget (bq_inflight q) key")
  case None
  assume "bq_bounded q"
  then have "bq_bounded (drain (enqueue key t q))"
    by (intro drain_bounded) (simp add: bq_bounded_def bq_counts_def enqueue_def Let_def)
  with None show ?thesis by (auto simp: submit_new bq_bounded_def bq_counts_def bq_busy_def)
qed (simp add: submit_old)

lemma cancel_bounded: "bq_bounded q \<Longrightarrow> bq_bounded (cancel key q)"
  by (auto simp: cancel_def Let_def bq_bounded_def bq_counts_def bq_busy_def split: option.splits)

lemma cancelAll_bounded: "bq_bounded q \<Longrightarrow> bq_bounded (cancelAll q)"
proof -
  have "bq_bounded q \<Longrightarrow> bq_bounded (fold cancel ks q)" for ks
    by (induction ks arbitrary: q) (auto dest: cancel_bounded)
  then show "bq_bounded q \<Longrightarrow> ?thesis" by (simp add: cancelAll_def)
qed

lemma settle_bounded: "bq_bounded q \<Longrightarrow> bq_bounded (settle eid r q)"
  by (auto simp: settle_def bq_bounded_def split: option.splits
      dest!: find_first_Some intro!: drain_bounded [unfolded bq_bounded_def] finish_entry_counts)

lemma bq_bounded_step: "bq_bounded q \<Longrightarrow> bq_bounded (bq_step ev q)"
  by (cases ev) (auto intro: submit_bounded cancel_bounded cancelAll_bounded settle_bounded)

interpretation bq_bound: step_system bq_step bq_bounded "\<lambda>_. True"
  by unfold_locales (rule bq_bounded_step)

lemma new_queue_bounded: "bq_bounded (new_queue n)"
  by (simp add: bq_bounded_def bq_counts_def bq_busy_def new_queue_def)

text \<open>
  C37: in every history of submissions, cancellations and settlements the number of running tasks
  never exceeds the limit, and it is at the limit whenever a task is waiting: no slot is lost, not
  even by a task that throws synchronously.
\<close>

theorem bounded_queue_bound_and_work_conserving:
  "length (bq_running (run bq_step es (new_queue n))) \<le> bq_limit (run bq_step es (new_queue n))
   \<and> (bq_pending (run bq_step es (new_queue n)) \<noteq> [] \<longrightarrow>
        length (bq_running (run bq_step es (new_queue n))) = bq_limit (run bq_step es (new_queue n)))"
proof -
  have "bq_bounded (run bq_step es (new_queue n))"
    by (rule bq_bound.run_inv) (simp_all add: new_queue_bounded)
  then show ?thesis by (auto simp: bq_bounded_def bq_counts_def bq_busy_def)
qed

theorem bounded_queue_bound_and_work_conserving_witness:
  "length (bq_running (run bq_step [Submit ''a'' False, Submit ''b'' True, Submit ''c'' False] (new_queue 1)))
     = bq_limit (run bq_step [Submit ''a'' False, Submit ''b'' True, Submit ''c'' False] (new_queue 1))"
proof -
  let ?q = "run bq_step [Submit ''a'' False, Submit ''b'' True, Submit ''c'' False] (new_queue 1)"
  have "bq_pending ?q \<noteq> []"
    by (simp add: new_queue_def submit_def Let_def drain.simps)
  then show ?thesis
    using bounded_queue_bound_and_work_conserving
      [of "[Submit ''a'' False, Submit ''b'' True, Submit ''c'' False]" 1] by blast
qed

section \<open>The queue as a list of live tasks\<close>

text \<open>
  The abstract view of a queue whose tasks are asynchronous: the unfinished tasks in the order in
  which they were submitted, of which the first \<open>limit\<close> run.
\<close>

definition live :: "bqueue \<Rightarrow> bq_entry list" where
  "live q = bq_running q @ bq_pending q"

fun live_step :: "nat \<Rightarrow> nat \<Rightarrow> bq_event \<Rightarrow> bq_entry list \<Rightarrow> bq_entry list" where
  "live_step limit next (Submit key t) es =
     (if key \<in> e_key ` set es then es else es @ [\<lparr>e_key = key, e_id = next, e_throws = t\<rparr>])"
| "live_step limit next (Cancel key) es =
     take limit es @ filter (\<lambda>e. e_key e \<noteq> key) (drop limit es)"
| "live_step limit next CancelAll es = take limit es"
| "live_step limit next (Settle eid r) es =
     filter (\<lambda>e. e_id e \<noteq> eid) (take limit es) @ drop limit es"

fun asynchronous :: "bq_event \<Rightarrow> bool" where
  "asynchronous (Submit key throws) = (\<not> throws)"
| "asynchronous _ = True"

text \<open>One live task per key, found under its key in both maps, and nothing else in the maps.\<close>

definition bq_keys :: "bqueue \<Rightarrow> bool" where
  "bq_keys q \<longleftrightarrow>
     distinct (map e_key (live q)) \<and> distinct (map e_id (live q))
     \<and> (\<forall>e \<in> set (live q). \<not> e_throws e \<and> e_id e < bq_next q)
     \<and> mget (bq_entries q) = mget (map (\<lambda>e. (e_key e, e)) (live q))
     \<and> mget (bq_inflight q) = mget (map (\<lambda>e. (e_key e, e_id e)) (live q))"

definition bq_ok :: "bqueue \<Rightarrow> bool" where
  "bq_ok q \<longleftrightarrow> bq_bounded q \<and> bq_keys q"

lemma drain_async:
  "\<forall>e \<in> set (bq_pending q). \<not> e_throws e \<Longrightarrow>
     live (drain q) = live q \<and> bq_entries (drain q) = bq_entries q \<and> bq_inflight (drain q) = bq_inflight q"
proof (induction q rule: drain_induct)
  case (start q e rest)
  then show ?case by (simp add: drain_start [OF start.hyps] start_entry_def live_def)
qed (simp add: drain_stop)

lemma running_take: "bq_bounded q \<Longrightarrow> bq_running q = take (bq_limit q) (live q)"
  by (cases "bq_pending q") (auto simp: bq_bounded_def bq_counts_def bq_busy_def live_def)

lemma pending_drop: "bq_bounded q \<Longrightarrow> bq_pending q = drop (bq_limit q) (live q)"
  by (cases "bq_pending q") (auto simp: bq_bounded_def bq_counts_def bq_busy_def live_def)

lemma mget_map_filter_key:
  "mget (map (\<lambda>e. (e_key e, f e)) (filter (\<lambda>e. e_key e \<noteq> key) es)) =
     (mget (map (\<lambda>e. (e_key e, f e)) es))(key := None)"
  by (induction es) (auto simp: fun_eq_iff)

lemma filter_id_key:
  assumes "distinct (map e_key es)" and "distinct (map e_id es)" and "e \<in> set es"
  shows "filter (\<lambda>x. e_id x \<noteq> e_id e) es = filter (\<lambda>x. e_key x \<noteq> e_key e) es"
  using remove1_filter [OF assms(2,3)] remove1_filter [OF assms(1,3)] by simp

text \<open>Dropping one live task from the list and from both maps.\<close>

lemma bq_keys_drop:
  assumes "bq_keys q" and "e \<in> set (live q)"
    and "live q' = filter (\<lambda>x. e_key x \<noteq> e_key e) (live q)" and "bq_next q' = bq_next q"
    and "bq_entries q' = mdel (e_key e) (bq_entries q)" and "bq_inflight q' = mdel (e_key e) (bq_inflight q)"
  shows "bq_keys q'"
  using assms unfolding bq_keys_def
  by (auto simp: distinct_map_filter delete_conv' mget_map_filter_key)

lemma mget_entries_live:
  "bq_keys q \<Longrightarrow> mget (bq_entries q) key = Some e \<Longrightarrow> e \<in> set (live q) \<and> e_key e = key"
  by (auto simp: bq_keys_def dest!: map_of_SomeD)

lemma mget_entries_None:
  assumes "bq_keys q"
  shows "mget (bq_entries q) key = None \<longleftrightarrow> key \<notin> e_key ` set (live q)"
proof -
  have "mget (bq_entries q) key = mget (map (\<lambda>e. (e_key e, e)) (live q)) key"
    using assms by (simp add: bq_keys_def)
  then show ?thesis by (simp only: map_of_eq_None_iff) (simp add: image_image)
qed

lemma mget_inflight_None:
  "bq_keys q \<Longrightarrow> mget (bq_inflight q) key = None \<longleftrightarrow> key \<notin> e_key ` set (live q)"
  by (auto simp: bq_keys_def map_of_eq_None_iff image_iff)


lemma running_live: "e \<in> set (bq_running q) \<Longrightarrow> e \<in> set (live q)"
  by (simp add: live_def)

lemma submit_async:
  assumes "bq_ok q"
  shows "bq_keys (snd (submit key False q))
    \<and> live (snd (submit key False q)) = live_step (bq_limit q) (bq_next q) (Submit key False) (live q)"
proof (cases "mget (bq_inflight q) key")
  case None
  let ?e = "\<lparr>e_key = key, e_id = bq_next q, e_throws = False\<rparr>"
  let ?d = "drain (enqueue key False q)"
  let ?q' = "snd (submit key False q)"
  have keys: "bq_keys q" using assms by (simp add: bq_ok_def)
  then have new: "key \<notin> e_key ` set (live q)" using None by (simp add: mget_inflight_None)
  have d: "live ?d = live q @ [?e] \<and> bq_entries ?d = mset_key key ?e (bq_entries q) \<and> bq_inflight ?d = bq_inflight q"
    using drain_async [of "enqueue key False q"] keys
    by (auto simp: enqueue_def Let_def live_def bq_keys_def)
  have q': "live ?q' = live q @ [?e]" "bq_entries ?q' = mset_key key ?e (bq_entries q)"
    "bq_inflight ?q' = mset_key key (bq_next q) (bq_inflight q)" "bq_next ?q' = Suc (bq_next q)"
    using d None by (simp_all add: submit_new live_def enqueue_def Let_def)
  have "bq_keys ?q'"
    using keys new unfolding bq_keys_def q'
    by (auto simp: update_conv' fun_eq_iff map_add_def less_Suc_eq dest!: map_of_SomeD split: option.splits)
  with q' new show ?thesis by simp
next
  case (Some i)
  with assms mget_inflight_None [of q key] show ?thesis by (simp add: submit_old bq_ok_def)
qed

lemma settle_async:
  assumes ok: "bq_ok q"
  shows "bq_keys (settle eid r q)
    \<and> live (settle eid r q) = live_step (bq_limit q) (bq_next q) (Settle eid r) (live q)"
proof -
  have b: "bq_bounded q" and k: "bq_keys q" using ok by (simp_all add: bq_ok_def)
  then have did: "distinct (map e_id (live q))" and dkey: "distinct (map e_key (live q))"
    and nothrow: "\<forall>e \<in> set (bq_pending q). \<not> e_throws e"
    by (auto simp: bq_keys_def live_def)
  show ?thesis
  proof (cases "find_first (\<lambda>e. e_id e = eid) (bq_running q)")
    case None
    then have "filter (\<lambda>e. e_id e \<noteq> eid) (bq_running q) = bq_running q"
      by (simp add: find_first_None filter_id_conv)
    then show ?thesis
      using k None running_take [OF b] by (simp add: settle_def)
  next
    case (Some e)
    then have e: "e \<in> set (bq_running q)" and eid: "e_id e = eid" by (auto dest: find_first_Some)
    let ?f = "finish_entry e r q"
    have pend: "filter (\<lambda>x. e_id x \<noteq> eid) (bq_pending q) = bq_pending q"
      using did e eid by (force simp: live_def filter_id_conv)
    have run: "bq_running ?f = filter (\<lambda>x. e_id x \<noteq> eid) (bq_running q)"
      using remove1_filter [of e_id "bq_running q" e] did e eid by (simp add: finish_entry_def live_def)
    have f: "live ?f = filter (\<lambda>x. e_id x \<noteq> eid) (live q)"
      using run pend by (simp add: live_def finish_entry_def)
    have d: "live (drain ?f) = live ?f" "bq_entries (drain ?f) = mdel (e_key e) (bq_entries q)"
      "bq_inflight (drain ?f) = mdel (e_key e) (bq_inflight q)"
      using drain_async [of ?f] nothrow by (simp_all add: finish_entry_def)
    have "bq_keys (drain ?f)"
      using filter_id_key [OF dkey did running_live [OF e]] f d eid
      by (intro bq_keys_drop [OF k running_live [OF e]]) (simp_all add: finish_entry_def)
    moreover have "live (drain ?f) = filter (\<lambda>x. e_id x \<noteq> eid) (bq_running q) @ bq_pending q"
      unfolding d(1) f using pend by (simp add: live_def)
    ultimately show ?thesis
      using Some by (simp add: settle_def running_take [OF b, symmetric] pending_drop [OF b, symmetric])
  qed
qed

lemma cancel_async:
  assumes ok: "bq_ok q"
  shows "bq_keys (cancel key q)
    \<and> live (cancel key q) = live_step (bq_limit q) (bq_next q) (Cancel key) (live q)"
proof -
  have b: "bq_bounded q" and k: "bq_keys q" using ok by (simp_all add: bq_ok_def)
  note split_live = running_take [OF b, symmetric] pending_drop [OF b, symmetric]
  have dkey: "distinct (map e_key (live q))" using k by (simp add: bq_keys_def)
  show ?thesis
  proof (cases "mget (bq_entries q) key")
    case None
    then have "key \<notin> e_key ` set (live q)" using k by (simp add: mget_entries_None)
    then have "filter (\<lambda>e. e_key e \<noteq> key) (bq_pending q) = bq_pending q"
      by (auto simp: live_def filter_id_conv)
    with None k show ?thesis by (simp add: cancel_def split_live) (simp add: live_def)
  next
    case (Some e)
    with k have e: "e \<in> set (live q)" "e_key e = key" by (auto dest: mget_entries_live)
    show ?thesis
    proof (cases "e \<in> set (bq_running q)")
      case True
      have "filter (\<lambda>x. e_key x \<noteq> key) (bq_pending q) = bq_pending q"
        using dkey True e(2) by (force simp: live_def filter_id_conv)
      with Some True k show ?thesis
        by (simp add: cancel_def split_live Let_def) (simp add: live_def bq_keys_def)
    next
      case False
      have r: "filter (\<lambda>x. e_key x \<noteq> key) (bq_running q) = bq_running q"
        using dkey False e by (force simp: live_def filter_id_conv)
      have p: "remove1 e (bq_pending q) = filter (\<lambda>x. e_key x \<noteq> key) (bq_pending q)"
        using remove1_filter [of e_key "bq_pending q" e] dkey False e by (simp add: live_def)
      have l: "live (cancel key q) = bq_running q @ filter (\<lambda>x. e_key x \<noteq> key) (bq_pending q)"
        using Some False p by (simp add: cancel_def Let_def live_def)
      have "bq_keys (cancel key q)"
        using Some False r l e(2)
        by (intro bq_keys_drop [OF k e(1)]) (simp_all add: cancel_def Let_def live_def)
      with l show ?thesis by (simp add: split_live)
    qed
  qed
qed

lemma cancel_frame [simp]: "bq_limit (cancel key q) = bq_limit q" "bq_next (cancel key q) = bq_next q"
  by (simp_all add: cancel_def Let_def split: option.splits)

lemma fold_cancel_async:
  "bq_ok q \<Longrightarrow> bq_keys (fold cancel ks q) \<and> live (fold cancel ks q) =
     take (bq_limit q) (live q) @ filter (\<lambda>e. e_key e \<notin> set ks) (drop (bq_limit q) (live q))"
proof (induction ks arbitrary: q)
  case Nil
  then show ?case by (simp add: bq_ok_def)
next
  case (Cons key ks)
  let ?L = "bq_limit q"
  have c: "live (cancel key q) = take ?L (live q) @ filter (\<lambda>e. e_key e \<noteq> key) (drop ?L (live q))"
    using cancel_async [OF Cons.prems] by simp
  have ok: "bq_ok (cancel key q)"
    using Cons.prems cancel_async [OF Cons.prems] by (simp add: bq_ok_def cancel_bounded)
  have "take ?L (live (cancel key q)) = take ?L (live q)"
    and "drop ?L (live (cancel key q)) = filter (\<lambda>e. e_key e \<noteq> key) (drop ?L (live q))"
    unfolding c by (cases "length (live q) \<le> ?L"; simp)+
  with Cons.IH [OF ok] show ?case by (simp add: conj_commute)
qed

lemma cancelAll_async:
  assumes "bq_ok q"
  shows "bq_keys (cancelAll q) \<and> live (cancelAll q) = take (bq_limit q) (live q)"
proof -
  have "e_key e \<in> set (map fst (bq_entries q))" if "e \<in> set (live q)" for e
  proof -
    have "mget (bq_entries q) (e_key e) \<noteq> None"
      using assms that by (simp add: bq_ok_def mget_entries_None)
    then show ?thesis by (simp add: map_of_eq_None_iff)
  qed
  then have "filter (\<lambda>e. e_key e \<notin> set (map fst (bq_entries q))) (drop (bq_limit q) (live q)) = []"
    by (auto simp: filter_empty_conv dest: in_set_dropD)
  with fold_cancel_async [OF assms, of "map fst (bq_entries q)"] show ?thesis
    by (simp add: cancelAll_def)
qed

lemma bq_async_step:
  "bq_ok q \<Longrightarrow> asynchronous e \<Longrightarrow>
     bq_ok (bq_step e q) \<and> live (bq_step e q) = live_step (bq_limit q) (bq_next q) e (live q)"
proof (cases e)
  case (Submit key t)
  then show "bq_ok q \<Longrightarrow> asynchronous e \<Longrightarrow> ?thesis"
    using submit_async [of q key] submit_bounded [of q key False] by (simp add: bq_ok_def)
next
  case (Cancel key)
  then show "bq_ok q \<Longrightarrow> asynchronous e \<Longrightarrow> ?thesis"
    using cancel_async [of q key] cancel_bounded [of q key] by (simp add: bq_ok_def)
next
  case CancelAll
  then show "bq_ok q \<Longrightarrow> asynchronous e \<Longrightarrow> ?thesis"
    using cancelAll_async [of q] cancelAll_bounded [of q] by (simp add: bq_ok_def)
next
  case (Settle eid r)
  then show "bq_ok q \<Longrightarrow> asynchronous e \<Longrightarrow> ?thesis"
    using settle_async [of q eid r] settle_bounded [of q eid r] by (simp add: bq_ok_def)
qed

interpretation bq: step_system bq_step bq_ok asynchronous
  by unfold_locales (simp add: bq_async_step)

lemma bq_ok_new: "bq_ok (new_queue n)"
  using new_queue_bounded [of n] by (simp add: bq_ok_def bq_keys_def live_def new_queue_def)

lemma bq_ok_run: "\<forall>e \<in> set es. asynchronous e \<Longrightarrow> bq_ok (run bq_step es (new_queue n))"
  by (rule bq.run_inv) (simp_all add: bq_ok_new)

text \<open>
  C38: with asynchronous tasks the queue refines a list of unfinished tasks in order of submission of
  which the first \<open>limit\<close> run: after any history, every further event acts on that list as
  \<open>live_step\<close> says, and the running tasks are its first \<open>limit\<close> elements.
\<close>

theorem bounded_queue_refines_live_list:
  assumes "\<forall>e \<in> set es. asynchronous e" and "asynchronous e" and "q = run bq_step es (new_queue n)"
  shows "live (bq_step e q) = live_step (bq_limit q) (bq_next q) e (live q)
    \<and> bq_running q = take (bq_limit q) (live q)"
  using bq_async_step [OF bq_ok_run [OF assms(1)] assms(2)] bq_ok_run [OF assms(1), of n] assms(3)
  by (simp add: bq_ok_def running_take)

theorem bounded_queue_refines_live_list_witness:
  "map e_key (live (bq_step (Settle 0 Resolved)
       (run bq_step [Submit ''a'' False, Submit ''b'' False, Submit ''a'' False] (new_queue 1)))) = [''b'']"
proof -
  let ?q = "run bq_step [Submit ''a'' False, Submit ''b'' False, Submit ''a'' False] (new_queue 1)"
  have "live (bq_step (Settle 0 Resolved) ?q)
      = live_step (bq_limit ?q) (bq_next ?q) (Settle 0 Resolved) (live ?q)"
    using bounded_queue_refines_live_list
      [of "[Submit ''a'' False, Submit ''b'' False, Submit ''a'' False]" "Settle 0 Resolved" ?q 1] by simp
  then show ?thesis
    by (simp add: new_queue_def submit_def Let_def drain.simps live_def)
qed

text \<open>
  with asynchronous tasks no key ever has two unfinished tasks, and the promise kept for a key
  is that of its unfinished task: a finished or cancelled key can be submitted afresh.
\<close>

theorem bounded_queue_one_task_per_key:
  assumes "\<forall>e \<in> set es. asynchronous e" and "q = run bq_step es (new_queue n)"
  shows "distinct (map e_key (live q))
    \<and> (mget (bq_inflight q) key = Some i \<longleftrightarrow> (\<exists>e \<in> set (live q). e_key e = key \<and> e_id e = i))"
proof -
  have k: "bq_keys q" using bq_ok_run [OF assms(1)] assms(2) by (simp add: bq_ok_def)
  then have "distinct (map fst (map (\<lambda>e. (e_key e, e_id e)) (live q)))"
    by (simp add: bq_keys_def comp_def)
  with k show ?thesis by (auto simp: bq_keys_def)
qed

theorem bounded_queue_one_task_per_key_witness:
  "mget (bq_inflight (run bq_step [Submit ''a'' False, Submit ''a'' False, Cancel ''a''] (new_queue 2))) ''a''
     = Some 0"
  using bounded_queue_one_task_per_key
    [of "[Submit ''a'' False, Submit ''a'' False, Cancel ''a'']" _ 2 "''a''" 0]
  by (simp add: new_queue_def submit_def cancel_def Let_def drain.simps live_def)

section \<open>A task that throws synchronously\<close>

text \<open>
  When a slot is free and the task throws before it returns a promise, the \<^verbatim>\<open>finally\<close> block runs
  before \<open>submit\<close> records the promise. The record then outlives the task: the next submission
  under that key gets the rejected promise and its task is dropped.
\<close>

lemma synchronous_throw_poisons_key:
  "fst (submit ''a'' False (run bq_step [Submit ''a'' True] (new_queue 4))) = 0"
  "mget (bq_settled (run bq_step [Submit ''a'' True] (new_queue 4))) 0 = Some Rejected"
  "live (run bq_step [Submit ''a'' True, Submit ''a'' False] (new_queue 4)) = []"
  by (simp_all add: new_queue_def submit_def Let_def drain.simps finish_entry_def live_def)

end
