(* ===== verification/Concurrency.thy ===== *)
theory Concurrency
  imports Step_System "HOL-Library.Multiset"
begin

text \<open>
  The concurrency primitives of \<^verbatim>\<open>lib/concurrency.ts\<close>: the worker pool \<open>mapWithConcurrency\<close> and the
  keyed queue \<open>BoundedQueue\<close>. JavaScript runs one piece of synchronous code at a time, so a schedule is
  a list of moves: which worker continues next, which task settles next.
\<close>

section \<open>mapWithConcurrency\<close>

text \<open>
  A worker is idle before it takes an index, running while it awaits \<^verbatim>\<open>fn(items[idx], idx)\<close>, and done
  after the cursor has passed the end. The results array has one slot per item. A settled result is
  \<open>Inr\<close> the value or \<open>Inl\<close> the reason.
\<close>

datatype worker = Idle | Running nat | Done

record ('e, 'r) pool =
  cursor :: nat
  workers :: "worker list"
  results :: "('e + 'r) option list"

definition pool_cap :: "int \<Rightarrow> nat \<Rightarrow> nat" where
  "pool_cap limit n = nat (max 1 (min limit (int n)))"

definition pool_init :: "int \<Rightarrow> nat \<Rightarrow> ('e, 'r) pool" where
  "pool_init limit n =
     \<lparr>cursor = 0, workers = replicate (pool_cap limit n) Idle, results = replicate n None\<rparr>"

text \<open>Worker \<open>w\<close> runs until its next \<open>await\<close> (or returns).\<close>

definition pool_move :: "('a \<Rightarrow> nat \<Rightarrow> 'e + 'r) \<Rightarrow> 'a list \<Rightarrow> nat \<Rightarrow> ('e, 'r) pool \<Rightarrow> ('e, 'r) pool" where
  "pool_move fn items w p =
     (if w < length (workers p) then
        (case workers p ! w of
           Idle \<Rightarrow>
             (if cursor p < length items
              then p\<lparr>workers := (workers p)[w := Running (cursor p)], cursor := Suc (cursor p)\<rparr>
              else p\<lparr>workers := (workers p)[w := Done], cursor := Suc (cursor p)\<rparr>)
         | Running idx \<Rightarrow>
             p\<lparr>workers := (workers p)[w := Idle],
               results := (results p)[idx := Some (fn (items ! idx) idx)]\<rparr>
         | Done \<Rightarrow> p)
      else p)"

definition mapWithConcurrency ::
  "nat list \<Rightarrow> 'a list \<Rightarrow> int \<Rightarrow> ('a \<Rightarrow> nat \<Rightarrow> 'e + 'r) \<Rightarrow> ('e, 'r) pool" where
  "mapWithConcurrency schedule items limit fn =
     run (pool_move fn items) schedule (pool_init limit (length items))"

text \<open>\<^verbatim>\<open>Promise.all(workers)\<close> resolves when every worker has returned; no items, no workers needed.\<close>

definition pool_done :: "('e, 'r) pool \<Rightarrow> bool" where
  "pool_done p \<longleftrightarrow> (\<forall>x \<in> set (workers p). x = Done)"

definition in_flight :: "('e, 'r) pool \<Rightarrow> nat" where
  "in_flight p = length (filter (\<lambda>x. \<exists>i. x = Running i) (workers p))"

text \<open>
  An index is held by exactly one worker from the moment the cursor passes it until its result is
  stored; a stored result is the outcome of the call on that index.
\<close>

definition pool_inv :: "('a \<Rightarrow> nat \<Rightarrow> 'e + 'r) \<Rightarrow> 'a list \<Rightarrow> nat \<Rightarrow> ('e, 'r) pool \<Rightarrow> bool" where
  "pool_inv fn items cap p \<longleftrightarrow>
     length (workers p) = cap \<and> length (results p) = length items
     \<and> (\<forall>i. count (mset (workers p)) (Running i) =
          (if i < length items \<and> i < cursor p \<and> results p ! i = None then 1 else 0))
     \<and> (\<forall>i < length items. results p ! i \<noteq> None \<longrightarrow>
          i < cursor p \<and> results p ! i = Some (fn (items ! i) i))
     \<and> (0 < count (mset (workers p)) Done \<longrightarrow> length items \<le> cursor p)"

lemma pool_cap_pos: "0 < pool_cap limit n"
  by (simp add: pool_cap_def)

lemma pool_inv_init: "pool_inv fn items (pool_cap limit (length items)) (pool_init limit (length items))"
  by (simp add: pool_inv_def pool_init_def)

lemma count_update:
  "w < length xs \<Longrightarrow> count (mset (xs[w := b])) x
     = count (mset xs) x - (if x = xs ! w then 1 else 0) + (if x = b then 1 else 0)"
  by (simp add: mset_update)

lemma pool_inv_claim:
  assumes "pool_inv fn items cap p" and "w < cap" "workers p ! w = Idle" and "cursor p < length items"
  shows "pool_inv fn items cap (p\<lparr>workers := (workers p)[w := Running (cursor p)], cursor := Suc (cursor p)\<rparr>)"
  using assms unfolding pool_inv_def by (auto simp: count_update less_Suc_eq simp del: mset_update)

lemma pool_inv_retire:
  assumes "pool_inv fn items cap p" and "w < cap" "workers p ! w = Idle" and "\<not> cursor p < length items"
  shows "pool_inv fn items cap (p\<lparr>workers := (workers p)[w := Done], cursor := Suc (cursor p)\<rparr>)"
  using assms unfolding pool_inv_def by (auto simp: count_update less_Suc_eq simp del: mset_update)

lemma running_count:
  assumes "w < length xs" and "xs ! w = y"
  shows "0 < count (mset xs) y"
  using assms by (metis count_greater_zero_iff nth_mem_mset)

lemma pool_inv_settle:
  assumes inv: "pool_inv fn items cap p" and w: "w < cap" "workers p ! w = Running i"
  shows "pool_inv fn items cap
    (p\<lparr>workers := (workers p)[w := Idle], results := (results p)[i := Some (fn (items ! i) i)]\<rparr>)"
proof -
  have "0 < count (mset (workers p)) (Running i)"
    using inv w by (intro running_count) (simp_all add: pool_inv_def)
  then have "i < length items \<and> i < cursor p \<and> results p ! i = None"
    using inv by (auto simp: pool_inv_def split: if_splits)
  then show ?thesis
    using inv w unfolding pool_inv_def by (auto simp: count_update nth_list_update simp del: mset_update)
qed

lemma pool_inv_move: "pool_inv fn items cap p \<Longrightarrow> pool_inv fn items cap (pool_move fn items w p)"
proof -
  assume inv: "pool_inv fn items cap p"
  then have "length (workers p) = cap" by (simp add: pool_inv_def)
  with inv show ?thesis
    by (auto simp: pool_move_def split: worker.splits
        intro: pool_inv_claim pool_inv_retire pool_inv_settle)
qed

interpretation pool: step_system "pool_move fn items" "pool_inv fn items cap" "\<lambda>_. True"
  by unfold_locales (rule pool_inv_move)

lemma pool_inv_run: "pool_inv fn items (pool_cap limit (length items)) (mapWithConcurrency schedule items limit fn)"
  unfolding mapWithConcurrency_def by (rule pool.run_inv) (simp_all add: pool_inv_init)

lemma pool_done_results:
  assumes inv: "pool_inv fn items cap p" and "0 < cap" and fin: "pool_done p"
  shows "results p = map (\<lambda>i. Some (fn (items ! i) i)) [0..<length items]"
proof (rule nth_equalityI)
  show "length (results p) = length (map (\<lambda>i. Some (fn (items ! i) i)) [0..<length items])"
    using inv by (simp add: pool_inv_def)
  fix i assume "i < length (results p)"
  then have i: "i < length items" using inv by (simp add: pool_inv_def)
  obtain x where x: "x \<in> set (workers p)"
    using inv \<open>0 < cap\<close> by (cases "workers p") (auto simp: pool_inv_def)
  then have "0 < count (mset (workers p)) Done" using fin by (auto simp: pool_done_def)
  then have "i < cursor p" using inv i by (auto simp: pool_inv_def)
  moreover have "Running i \<notin> set (workers p)" using fin by (auto simp: pool_done_def)
  then have "count (mset (workers p)) (Running i) = 0" by (simp add: count_eq_zero_iff)
  moreover have "count (mset (workers p)) (Running i) = (if i < cursor p \<and> results p ! i = None then 1 else 0)"
    using inv i by (simp add: pool_inv_def)
  ultimately have "results p ! i \<noteq> None" by (cases "results p ! i") simp_all
  then show "results p ! i = map (\<lambda>i. Some (fn (items ! i) i)) [0..<length items] ! i"
    using inv i by (simp add: pool_inv_def)
qed

text \<open>Every move of a worker that has not returned brings the pool closer to its end.\<close>

fun worker_rank :: "worker \<Rightarrow> nat" where
  "worker_rank Idle = 1"
| "worker_rank (Running _) = 2"
| "worker_rank Done = 0"

definition pool_rank :: "nat \<Rightarrow> ('e, 'r) pool \<Rightarrow> nat" where
  "pool_rank n p = 3 * (n - cursor p) + sum_list (map worker_rank (workers p))"

lemma sum_list_update_add:
  "w < length xs \<Longrightarrow> sum_list (map f (xs[w := x])) + f (xs ! w) = sum_list (map f xs) + (f x :: nat)"
proof (induction xs arbitrary: w)
  case (Cons y ys)
  then show ?case by (cases w) (simp_all add: add.assoc)
qed simp

lemma pool_rank_decreases:
  assumes "w < length (workers p)" and "workers p ! w \<noteq> Done"
  shows "pool_rank (length items) (pool_move fn items w p) < pool_rank (length items) p"
proof (cases "workers p ! w")
  case Idle
  with assms sum_list_update_add [of w "workers p" worker_rank "Running (cursor p)"]
    sum_list_update_add [of w "workers p" worker_rank Done]
  show ?thesis by (cases "cursor p < length items") (simp_all add: pool_move_def pool_rank_def, linarith?)
next
  case (Running i)
  with assms sum_list_update_add [of w "workers p" worker_rank Idle]
  show ?thesis by (simp add: pool_move_def pool_rank_def)
qed (use assms in simp)

lemma pool_completes:
  "\<exists>rest. length rest \<le> pool_rank (length items) p \<and> pool_done (run (pool_move fn items) rest p)"
proof (induction "pool_rank (length items) p" arbitrary: p rule: less_induct)
  case less
  show ?case
  proof (cases "pool_done p")
    case True
    then show ?thesis by (intro exI [of _ "[]"]) simp
  next
    case False
    then obtain w where w: "w < length (workers p)" "workers p ! w \<noteq> Done"
      by (auto simp: pool_done_def in_set_conv_nth)
    note dec = pool_rank_decreases [OF w, of items fn]
    from less [OF dec] obtain rest where "length rest \<le> pool_rank (length items) (pool_move fn items w p)"
      and "pool_done (run (pool_move fn items) rest (pool_move fn items w p))" by blast
    with dec show ?thesis by (intro exI [of _ "w # rest"]) simp
  qed
qed

text \<open>
  the pool never gets stuck: whatever has been scheduled so far, at most
  \<open>3 n + 2 cap\<close> further moves of workers bring every worker to its return.
\<close>

theorem mapWithConcurrency_completes:
  "\<exists>rest. length rest \<le> 3 * length items + 2 * pool_cap limit (length items)
     \<and> pool_done (mapWithConcurrency (prefix @ rest) items limit fn)"
proof -
  let ?p = "mapWithConcurrency prefix items limit fn"
  obtain rest where rest: "length rest \<le> pool_rank (length items) ?p"
    "pool_done (run (pool_move fn items) rest ?p)"
    using pool_completes by blast
  have "worker_rank x \<le> 2" for x by (cases x) simp_all
  then have "sum_list (map worker_rank xs) \<le> 2 * length xs" for xs
    by (induction xs) (simp_all, metis add_mono mult_2 add_2_eq_Suc)
  moreover have "length (workers ?p) = pool_cap limit (length items)"
    using pool_inv_run [of fn items limit prefix] by (simp add: pool_inv_def)
  ultimately have "pool_rank (length items) ?p \<le> 3 * length items + 2 * pool_cap limit (length items)"
    by (simp add: pool_rank_def) (metis add_mono diff_le_self mult_le_mono2)
  with rest show ?thesis
    by (intro exI [of _ rest]) (simp add: mapWithConcurrency_def run_append)
qed

lemma in_flight_le: "in_flight p \<le> length (workers p)"
  by (simp add: in_flight_def)

text \<open>
  on every schedule of the workers, at most \<open>max 1 (min limit n)\<close> calls are in flight at any
  time, and once all workers have returned the results are the outcomes of the calls in input
  order, one per item, rejections included.
\<close>

theorem mapWithConcurrency_order_and_bound:
  assumes "pool_done (mapWithConcurrency schedule items limit fn)"
  shows "results (mapWithConcurrency schedule items limit fn)
           = map (\<lambda>i. Some (fn (items ! i) i)) [0..<length items]
       \<and> (\<forall>prefix rest. schedule = prefix @ rest \<longrightarrow>
            in_flight (mapWithConcurrency prefix items limit fn) \<le> pool_cap limit (length items))"
proof -
  have "in_flight (mapWithConcurrency prefix items limit fn) \<le> pool_cap limit (length items)" for prefix
    using pool_inv_run [of fn items limit prefix] in_flight_le [of "mapWithConcurrency prefix items limit fn"]
    by (simp add: pool_inv_def)
  then show ?thesis
    using pool_done_results [OF pool_inv_run pool_cap_pos assms] by simp
qed

theorem mapWithConcurrency_order_and_bound_witness:
  "results (mapWithConcurrency [0, 1, 1, 1, 0, 0, 1, 1] [10, 20, 30 :: int] 2
      (\<lambda>x i. if x = 20 then Inl ''boom'' else Inr (x + int i)))
     = [Some (Inr 10), Some (Inl ''boom''), Some (Inr 32)]"
proof -
  let ?fn = "\<lambda>(x :: int) i. if x = 20 then Inl ''boom'' else Inr (x + int i)"
  let ?s = "[0, 1, 1, 1, 0, 0, 1, 1]"
  have "pool_done (mapWithConcurrency ?s [10, 20, 30 :: int] 2 ?fn)"
    by (simp add: mapWithConcurrency_def pool_init_def pool_cap_def pool_move_def pool_done_def
        numeral_2_eq_2 numeral_3_eq_3)
  from mapWithConcurrency_order_and_bound [OF this] show ?thesis
    by (simp add: upt_rec numeral_2_eq_2 numeral_3_eq_3)
qed

end
