(* ===== verification/Canvas_Store.thy ===== *)
theory Canvas_Store
  imports Step_System Graph_Model
begin

text \<open>
  The canvas store of \<^verbatim>\<open>store/canvas.ts\<close>: its state, the middleware that counts versions, and every
  action. \<open>commit\<close> is the middleware: an action hands it the keys of its update object and the state
  the update leads to. An action that answers \<^verbatim>\<open>return state\<close> hands over all keys.
  The store's collections of nodes and of edges are two instances of \<open>indexed_collection\<close>.
\<close>

datatype hydration_phase = PIdle | PRoots | PEdges | PChildren | PComplete

datatype trace_direction = Upstream | Downstream | Both

record viewport =
  vp_x :: rat
  vp_y :: rat
  vp_zoom :: rat

record canvas =
  nodes :: "lineage_node list"
  edges :: "lineage_edge list"
  nodeIndex :: "ident set"
  edgeIndex :: "ident set"
  version :: nat
  visibleEdges :: "lineage_edge list"
  pulseNodeIds :: "ident set"
  selectedNodeIds :: "ident list"
  selectedEdgeIds :: "ident list"
  drawerNodeId :: "ident option"
  viewport_of :: viewport
  isLoading :: bool
  loadingRegions :: "string set"
  hydrationPhase :: hydration_phase
  activeLensId :: "ident option"
  traceOrigin :: "ident option"
  traceDirection :: trace_direction
  traceDepth :: int
  cachedRegions :: "(string, lineage_node list) jsmap"
  isEditing :: bool

definition initial_canvas :: canvas where
  "initial_canvas =
     \<lparr>nodes = [], edges = [], nodeIndex = {}, edgeIndex = {}, version = 0, visibleEdges = [],
      pulseNodeIds = {}, selectedNodeIds = [], selectedEdgeIds = [], drawerNodeId = None,
      viewport_of = \<lparr>vp_x = 0, vp_y = 0, vp_zoom = 1\<rparr>, isLoading = False, loadingRegions = {},
      hydrationPhase = PIdle, activeLensId = None, traceOrigin = None, traceDirection = Both,
      traceDepth = 10, cachedRegions = [], isEditing = False\<rparr>"

section \<open>The version middleware\<close>

datatype update_keys = WholeState | GraphKeys | OtherKeys

definition touchesGraph :: "update_keys \<Rightarrow> bool" where
  "touchesGraph ks \<longleftrightarrow> ks = WholeState \<or> ks = GraphKeys"

definition commit :: "update_keys \<Rightarrow> canvas \<Rightarrow> canvas \<Rightarrow> canvas" where
  "commit ks prev next = (if touchesGraph ks then next\<lparr>version := Suc (version prev)\<rparr> else next)"

section \<open>Nodes and edges\<close>

definition setNodes :: "lineage_node list \<Rightarrow> canvas \<Rightarrow> canvas" where
  "setNodes ns s = commit GraphKeys s (s\<lparr>nodes := ns, nodeIndex := node_id ` set ns\<rparr>)"

definition setEdges :: "lineage_edge list \<Rightarrow> canvas \<Rightarrow> canvas" where
  "setEdges es s = commit GraphKeys s (s\<lparr>edges := es, edgeIndex := edge_id ` set es\<rparr>)"

definition setVisibleEdges :: "lineage_edge list \<Rightarrow> canvas \<Rightarrow> canvas" where
  "setVisibleEdges es s = commit OtherKeys s (s\<lparr>visibleEdges := es\<rparr>)"

definition fresh_items :: "('a \<Rightarrow> ident) \<Rightarrow> ident set \<Rightarrow> 'a list \<Rightarrow> 'a list" where
  "fresh_items key index xs = filter (\<lambda>x. key x \<notin> index) xs"

definition addNodes :: "lineage_node list \<Rightarrow> canvas \<Rightarrow> canvas" where
  "addNodes newNodes s =
     (let uniqueNodes = fresh_items node_id (nodeIndex s) newNodes
      in if uniqueNodes = [] then commit WholeState s s
         else commit GraphKeys s
           (s\<lparr>nodes := nodes s @ uniqueNodes, nodeIndex := nodeIndex s \<union> node_id ` set uniqueNodes\<rparr>))"

definition addEdges :: "lineage_edge list \<Rightarrow> canvas \<Rightarrow> canvas" where
  "addEdges newEdges s =
     (let uniqueEdges = fresh_items edge_id (edgeIndex s) newEdges
      in if uniqueEdges = [] then commit WholeState s s
         else commit GraphKeys s
           (s\<lparr>edges := edges s @ uniqueEdges, edgeIndex := edgeIndex s \<union> edge_id ` set uniqueEdges\<rparr>))"

text \<open>The two loops of \<open>setGraph\<close>: the first item of every id is kept.\<close>

fun dedup_by :: "('a \<Rightarrow> ident) \<Rightarrow> ident set \<Rightarrow> 'a list \<Rightarrow> 'a list" where
  "dedup_by key seen [] = []"
| "dedup_by key seen (x # xs) =
     (if key x \<in> seen then dedup_by key seen xs else x # dedup_by key (insert (key x) seen) xs)"

definition setGraph :: "lineage_node list \<Rightarrow> lineage_edge list \<Rightarrow> canvas \<Rightarrow> canvas" where
  "setGraph ns es s =
     (let dedupedNodes = dedup_by node_id {} ns; dedupedEdges = dedup_by edge_id {} es
      in commit GraphKeys s
           (s\<lparr>nodes := dedupedNodes, edges := dedupedEdges,
              nodeIndex := node_id ` set ns, edgeIndex := edge_id ` set es\<rparr>))"

definition addGraph :: "lineage_node list \<Rightarrow> lineage_edge list \<Rightarrow> canvas \<Rightarrow> canvas" where
  "addGraph newNodes newEdges s =
     (let uniqueNodes = fresh_items node_id (nodeIndex s) newNodes;
          uniqueEdges = fresh_items edge_id (edgeIndex s) newEdges
      in if uniqueNodes = [] \<and> uniqueEdges = [] then commit WholeState s s
         else commit GraphKeys s
           (s\<lparr>nodes := nodes s @ uniqueNodes, edges := edges s @ uniqueEdges,
              nodeIndex := nodeIndex s \<union> node_id ` set uniqueNodes,
              edgeIndex := edgeIndex s \<union> edge_id ` set uniqueEdges\<rparr>))"

definition updateNode :: "ident \<Rightarrow> jsobj \<Rightarrow> canvas \<Rightarrow> canvas" where
  "updateNode nid data s =
     commit GraphKeys s
       (s\<lparr>nodes := map (\<lambda>n. if node_id n = nid then n\<lparr>node_data := spread (node_data n) data\<rparr> else n) (nodes s)\<rparr>)"

definition incident :: "ident set \<Rightarrow> lineage_edge \<Rightarrow> bool" where
  "incident ids e \<longleftrightarrow> edge_source e \<in> ids \<or> edge_target e \<in> ids"

definition removeNode :: "ident \<Rightarrow> canvas \<Rightarrow> canvas" where
  "removeNode nid s =
     (let remainingEdges = filter (\<lambda>e. edge_source e \<noteq> nid \<and> edge_target e \<noteq> nid) (edges s)
      in commit GraphKeys s
           (s\<lparr>nodes := filter (\<lambda>n. node_id n \<noteq> nid) (nodes s), edges := remainingEdges,
              nodeIndex := nodeIndex s - {nid}, edgeIndex := edge_id ` set remainingEdges\<rparr>))"

definition removeNodes :: "ident list \<Rightarrow> canvas \<Rightarrow> canvas" where
  "removeNodes ids s =
     (if ids = [] then commit WholeState s s
      else let remainingEdges = filter (\<lambda>e. \<not> incident (set ids) e) (edges s)
           in commit GraphKeys s
                (s\<lparr>nodes := filter (\<lambda>n. node_id n \<notin> set ids) (nodes s), edges := remainingEdges,
                   nodeIndex := nodeIndex s - set ids, edgeIndex := edge_id ` set remainingEdges\<rparr>))"

definition removeEdge :: "ident \<Rightarrow> canvas \<Rightarrow> canvas" where
  "removeEdge eid s =
     commit GraphKeys s
       (s\<lparr>edges := filter (\<lambda>e. edge_id e \<noteq> eid) (edges s), edgeIndex := edgeIndex s - {eid}\<rparr>)"

definition removeEdges :: "ident list \<Rightarrow> canvas \<Rightarrow> canvas" where
  "removeEdges ids s =
     (if ids = [] then commit WholeState s s
      else commit GraphKeys s
        (s\<lparr>edges := filter (\<lambda>e. edge_id e \<notin> set ids) (edges s), edgeIndex := edgeIndex s - set ids\<rparr>))"

definition removeEdgesByNodeIds :: "ident list \<Rightarrow> canvas \<Rightarrow> canvas" where
  "removeEdgesByNodeIds nodeIds s =
     (if nodeIds = [] then commit WholeState s s
      else let remainingEdges = filter (\<lambda>e. \<not> incident (set nodeIds) e) (edges s);
               dropped = filter (incident (set nodeIds)) (edges s)
           in if length remainingEdges = length (edges s) then commit WholeState s s
              else commit GraphKeys s
                (s\<lparr>edges := remainingEdges, edgeIndex := edgeIndex s - edge_id ` set dropped\<rparr>))"


section \<open>Pulse, selection and drawer\<close>

definition pulseNode :: "ident \<Rightarrow> canvas \<Rightarrow> canvas" where
  "pulseNode nid s =
     (if nid \<in> pulseNodeIds s then commit WholeState s s
      else commit OtherKeys s (s\<lparr>pulseNodeIds := insert nid (pulseNodeIds s)\<rparr>))"

text \<open>The callback of \<^verbatim>\<open>setTimeout(..., 900)\<close>.\<close>

definition pulseExpired :: "ident \<Rightarrow> canvas \<Rightarrow> canvas" where
  "pulseExpired nid s =
     (if nid \<notin> pulseNodeIds s then commit WholeState s s
      else commit OtherKeys s (s\<lparr>pulseNodeIds := pulseNodeIds s - {nid}\<rparr>))"

definition logical_id :: "ident \<Rightarrow> bool" where
  "logical_id nid \<longleftrightarrow> take 8 nid = ''logical:''"

definition toggle_in :: "ident \<Rightarrow> ident list \<Rightarrow> ident list" where
  "toggle_in x xs = (if x \<in> set xs then filter (\<lambda>y. y \<noteq> x) xs else xs @ [x])"

definition selectNode :: "ident \<Rightarrow> bool \<Rightarrow> canvas \<Rightarrow> canvas" where
  "selectNode nid multi s =
     (let s1 = s\<lparr>selectedNodeIds :=
                   (if multi then toggle_in nid (selectedNodeIds s)
                    else if selectedNodeIds s = [nid] then [] else [nid]),
                 selectedEdgeIds := (if multi then selectedEdgeIds s else [])\<rparr>
      in commit OtherKeys s (if \<not> multi \<and> \<not> logical_id nid then s1\<lparr>drawerNodeId := Some nid\<rparr> else s1))"

definition selectEdge :: "ident \<Rightarrow> bool \<Rightarrow> canvas \<Rightarrow> canvas" where
  "selectEdge eid multi s =
     commit OtherKeys s
       (s\<lparr>selectedEdgeIds := (if multi then toggle_in eid (selectedEdgeIds s) else [eid]),
          selectedNodeIds := (if multi then selectedNodeIds s else []), drawerNodeId := None\<rparr>)"

definition clearSelection :: "canvas \<Rightarrow> canvas" where
  "clearSelection s = commit OtherKeys s (s\<lparr>selectedNodeIds := [], selectedEdgeIds := []\<rparr>)"

definition openNodeDrawer :: "ident \<Rightarrow> canvas \<Rightarrow> canvas" where
  "openNodeDrawer nid s = commit OtherKeys s (s\<lparr>drawerNodeId := Some nid\<rparr>)"

definition closeNodeDrawer :: "canvas \<Rightarrow> canvas" where
  "closeNodeDrawer s = commit OtherKeys s (s\<lparr>drawerNodeId := None\<rparr>)"

section \<open>Viewport, loading, lens, trace, cache, editing\<close>

definition setViewport :: "viewport \<Rightarrow> canvas \<Rightarrow> canvas" where
  "setViewport v s = commit OtherKeys s (s\<lparr>viewport_of := v\<rparr>)"

definition setHydrationPhase :: "hydration_phase \<Rightarrow> canvas \<Rightarrow> canvas" where
  "setHydrationPhase p s = commit OtherKeys s (s\<lparr>hydrationPhase := p\<rparr>)"

definition setLoading :: "bool \<Rightarrow> canvas \<Rightarrow> canvas" where
  "setLoading b s = commit OtherKeys s (s\<lparr>isLoading := b\<rparr>)"

definition addLoadingRegion :: "string \<Rightarrow> canvas \<Rightarrow> canvas" where
  "addLoadingRegion r s =
     commit OtherKeys s (s\<lparr>loadingRegions := insert r (loadingRegions s), isLoading := True\<rparr>)"

definition removeLoadingRegion :: "string \<Rightarrow> canvas \<Rightarrow> canvas" where
  "removeLoadingRegion r s =
     (let newRegions = loadingRegions s - {r}
      in commit OtherKeys s (s\<lparr>loadingRegions := newRegions, isLoading := (newRegions \<noteq> {})\<rparr>))"

definition setActiveLens :: "ident option \<Rightarrow> canvas \<Rightarrow> canvas" where
  "setActiveLens l s = commit OtherKeys s (s\<lparr>activeLensId := l\<rparr>)"

definition setTraceOrigin :: "ident option \<Rightarrow> canvas \<Rightarrow> canvas" where
  "setTraceOrigin t s = commit OtherKeys s (s\<lparr>traceOrigin := t\<rparr>)"

definition setTraceDirection :: "trace_direction \<Rightarrow> canvas \<Rightarrow> canvas" where
  "setTraceDirection d s = commit OtherKeys s (s\<lparr>traceDirection := d\<rparr>)"

definition setTraceDepth :: "int \<Rightarrow> canvas \<Rightarrow> canvas" where
  "setTraceDepth d s = commit OtherKeys s (s\<lparr>traceDepth := d\<rparr>)"

definition cacheRegion :: "string \<Rightarrow> lineage_node list \<Rightarrow> canvas \<Rightarrow> canvas" where
  "cacheRegion key ns s = commit OtherKeys s (s\<lparr>cachedRegions := mset_key key ns (cachedRegions s)\<rparr>)"

definition getCachedRegion :: "string \<Rightarrow> canvas \<Rightarrow> lineage_node list option" where
  "getCachedRegion key s = mget (cachedRegions s) key"

definition clearCache :: "canvas \<Rightarrow> canvas" where
  "clearCache s = commit OtherKeys s (s\<lparr>cachedRegions := []\<rparr>)"

definition setEditing :: "bool \<Rightarrow> canvas \<Rightarrow> canvas" where
  "setEditing b s = commit OtherKeys s (s\<lparr>isEditing := b\<rparr>)"

text \<open>\<^verbatim>\<open>partialize\<close>: what is kept in local storage; a reload starts from the initial state and merges it.\<close>

definition partialize :: "canvas \<Rightarrow> viewport \<times> ident option" where
  "partialize s = (viewport_of s, activeLensId s)"

definition rehydrate :: "viewport \<times> ident option \<Rightarrow> canvas" where
  "rehydrate p = initial_canvas\<lparr>viewport_of := fst p, activeLensId := snd p\<rparr>"

section \<open>Actions as events\<close>

datatype canvas_event =
    SetNodes "lineage_node list"
  | SetEdges "lineage_edge list"
  | SetVisibleEdges "lineage_edge list"
  | AddNodes "lineage_node list"
  | AddEdges "lineage_edge list"
  | SetGraph "lineage_node list" "lineage_edge list"
  | AddGraph "lineage_node list" "lineage_edge list"
  | UpdateNode ident jsobj
  | RemoveNode ident
  | RemoveNodes "ident list"
  | RemoveEdge ident
  | RemoveEdges "ident list"
  | RemoveEdgesByNodeIds "ident list"
  | PulseNode ident
  | PulseExpired ident
  | SelectNode ident bool
  | SelectEdge ident bool
  | ClearSelection
  | OpenNodeDrawer ident
  | CloseNodeDrawer
  | SetViewport viewport
  | SetHydrationPhase hydration_phase
  | SetLoading bool
  | AddLoadingRegion string
  | RemoveLoadingRegion string
  | SetActiveLens "ident option"
  | SetTraceOrigin "ident option"
  | SetTraceDirection trace_direction
  | SetTraceDepth int
  | CacheRegion string "lineage_node list"
  | ClearCache
  | SetEditing bool

fun canvas_step :: "canvas_event \<Rightarrow> canvas \<Rightarrow> canvas" where
  "canvas_step (SetNodes ns) s = setNodes ns s"
| "canvas_step (SetEdges es) s = setEdges es s"
| "canvas_step (SetVisibleEdges es) s = setVisibleEdges es s"
| "canvas_step (AddNodes ns) s = addNodes ns s"
| "canvas_step (AddEdges es) s = addEdges es s"
| "canvas_step (SetGraph ns es) s = setGraph ns es s"
| "canvas_step (AddGraph ns es) s = addGraph ns es s"
| "canvas_step (UpdateNode nid d) s = updateNode nid d s"
| "canvas_step (RemoveNode nid) s = removeNode nid s"
| "canvas_step (RemoveNodes ids) s = removeNodes ids s"
| "canvas_step (RemoveEdge eid) s = removeEdge eid s"
| "canvas_step (RemoveEdges ids) s = removeEdges ids s"
| "canvas_step (RemoveEdgesByNodeIds ids) s = removeEdgesByNodeIds ids s"
| "canvas_step (PulseNode nid) s = pulseNode nid s"
| "canvas_step (PulseExpired nid) s = pulseExpired nid s"
| "canvas_step (SelectNode nid m) s = selectNode nid m s"
| "canvas_step (SelectEdge eid m) s = selectEdge eid m s"
| "canvas_step ClearSelection s = clearSelection s"
| "canvas_step (OpenNodeDrawer nid) s = openNodeDrawer nid s"
| "canvas_step CloseNodeDrawer s = closeNodeDrawer s"
| "canvas_step (SetViewport v) s = setViewport v s"
| "canvas_step (SetHydrationPhase p) s = setHydrationPhase p s"
| "canvas_step (SetLoading b) s = setLoading b s"
| "canvas_step (AddLoadingRegion r) s = addLoadingRegion r s"
| "canvas_step (RemoveLoadingRegion r) s = removeLoadingRegion r s"
| "canvas_step (SetActiveLens l) s = setActiveLens l s"
| "canvas_step (SetTraceOrigin t) s = setTraceOrigin t s"
| "canvas_step (SetTraceDirection d) s = setTraceDirection d s"
| "canvas_step (SetTraceDepth d) s = setTraceDepth d s"
| "canvas_step (CacheRegion k ns) s = cacheRegion k ns s"
| "canvas_step ClearCache s = clearCache s"
| "canvas_step (SetEditing b) s = setEditing b s"


lemmas graph_action_defs = setNodes_def setEdges_def addNodes_def addEdges_def setGraph_def addGraph_def
  updateNode_def removeNode_def removeNodes_def removeEdge_def removeEdges_def removeEdgesByNodeIds_def

lemmas view_action_defs = setVisibleEdges_def pulseNode_def pulseExpired_def selectNode_def selectEdge_def
  clearSelection_def openNodeDrawer_def closeNodeDrawer_def setViewport_def setHydrationPhase_def
  setLoading_def addLoadingRegion_def removeLoadingRegion_def setActiveLens_def setTraceOrigin_def
  setTraceDirection_def setTraceDepth_def cacheRegion_def clearCache_def setEditing_def

lemma commit_simps [simp]:
  "commit WholeState prev next = next\<lparr>version := Suc (version prev)\<rparr>"
  "commit GraphKeys prev next = next\<lparr>version := Suc (version prev)\<rparr>"
  "commit OtherKeys prev next = next"
  by (simp_all add: commit_def touchesGraph_def)

section \<open>The version counter\<close>

text \<open>What the version stands for: the nodes, the edges and their indexes.\<close>

definition graph_of :: "canvas \<Rightarrow> lineage_node list \<times> lineage_edge list \<times> ident set \<times> ident set" where
  "graph_of s = (nodes s, edges s, nodeIndex s, edgeIndex s)"

fun view_event :: "canvas_event \<Rightarrow> bool" where
  "view_event (SetNodes ns) = False"
| "view_event (SetEdges es) = False"
| "view_event (AddNodes ns) = False"
| "view_event (AddEdges es) = False"
| "view_event (SetGraph ns es) = False"
| "view_event (AddGraph ns es) = False"
| "view_event (UpdateNode nid d) = False"
| "view_event (RemoveNode nid) = False"
| "view_event (RemoveNodes ids) = False"
| "view_event (RemoveEdge eid) = False"
| "view_event (RemoveEdges ids) = False"
| "view_event (RemoveEdgesByNodeIds ids) = False"
| "view_event _ = True"

lemma graph_event_version: "\<not> view_event e \<Longrightarrow> version (canvas_step e s) = Suc (version s)"
  by (cases e) (simp_all add: graph_action_defs Let_def)

lemma view_event_graph:
  "view_event e \<Longrightarrow> graph_of (canvas_step e s) = graph_of s"
  by (cases e) (simp_all add: view_action_defs graph_of_def Let_def)

lemma view_event_version: "view_event e \<Longrightarrow> version s \<le> version (canvas_step e s)"
  by (cases e) (simp_all add: view_action_defs Let_def)

lemma canvas_version_mono: "version s \<le> version (canvas_step e s)"
  by (cases "view_event e") (simp_all add: graph_event_version view_event_version)

lemma canvas_version_sound: "version (canvas_step e s) = version s \<Longrightarrow> graph_of (canvas_step e s) = graph_of s"
  by (cases "view_event e") (simp_all add: graph_event_version view_event_graph)

interpretation canvas_version: observed_system canvas_step "\<lambda>_. True" "\<lambda>_. True" version graph_of
  by unfold_locales (simp_all add: canvas_version_mono canvas_version_sound)

text \<open>
  the version counter never goes back, and it is a sound change detector: after any sequence of
  actions that leaves it at the same value, nodes, edges and both indexes are what they were.
\<close>

theorem version_detects_every_graph_change:
  "version s \<le> version (run canvas_step es s)
   \<and> (version (run canvas_step es s) = version s \<longrightarrow> graph_of (run canvas_step es s) = graph_of s)"
  using canvas_version.run_clock [of s es] canvas_version.run_observe [of es s] by blast

theorem version_detects_every_graph_change_witness:
  "graph_of (run canvas_step [SelectNode ''a'' False, SetTraceDepth 3, ClearSelection] initial_canvas)
     = graph_of initial_canvas"
proof -
  let ?es = "[SelectNode ''a'' False, SetTraceDepth 3, ClearSelection]"
  have "version (run canvas_step ?es initial_canvas) = version initial_canvas"
    by (simp add: view_action_defs Let_def)
  then show ?thesis using version_detects_every_graph_change [of initial_canvas ?es] by blast
qed

text \<open>
  The converse fails: an action that means to change nothing answers the whole state, which has the
  key \<^verbatim>\<open>nodes\<close>, so the middleware counts it as a mutation.
\<close>

lemma noop_bumps_version:
  "graph_of (addNodes [] s) = graph_of s" "version (addNodes [] s) = Suc (version s)"
  "nid \<in> pulseNodeIds s \<Longrightarrow> version (pulseNode nid s) = Suc (version s)"
  by (simp_all add: addNodes_def fresh_items_def pulseNode_def graph_of_def)

section \<open>Collections with an index\<close>

text \<open>
  The contract the node list and the edge list share: items have an id, the index holds ids, adding
  appends the items whose id the index does not hold, dropping ids removes them from both.
\<close>

locale indexed_collection =
  fixes key :: "'a \<Rightarrow> ident"
    and items :: "'s \<Rightarrow> 'a list"
    and index :: "'s \<Rightarrow> ident set"
    and add :: "'a list \<Rightarrow> 's \<Rightarrow> 's"
    and drop_ids :: "ident list \<Rightarrow> 's \<Rightarrow> 's"
  assumes items_add: "items (add xs s) = items s @ fresh_items key (index s) xs"
    and index_add: "index (add xs s) = index s \<union> key ` set xs"
    and items_drop: "items (drop_ids ids s) = filter (\<lambda>x. key x \<notin> set ids) (items s)"
    and index_drop: "index (drop_ids ids s) = index s - set ids"
begin

definition agrees :: "'s \<Rightarrow> bool" where
  "agrees s \<longleftrightarrow> index s = key ` set (items s) \<and> distinct (map key (items s))"

lemma agrees_add: "agrees s \<Longrightarrow> distinct (map key xs) \<Longrightarrow> agrees (add xs s)"
  by (auto simp: agrees_def items_add index_add fresh_items_def distinct_map_filter) (metis image_eqI)

lemma agrees_drop: "agrees s \<Longrightarrow> agrees (drop_ids ids s)"
  by (auto simp: agrees_def items_drop index_drop distinct_map_filter)

lemma add_again: "items (add xs (add xs s)) = items (add xs s)"
  by (simp add: items_add index_add fresh_items_def)

lemma drop_added:
  assumes "agrees s" and "key ` set xs \<inter> index s = {}"
  shows "items (drop_ids (map key xs) (add xs s)) = items s"
  using assms by (auto simp: items_add items_drop fresh_items_def agrees_def filter_empty_conv
      intro!: filter_True)

lemma lookup_added:
  assumes "agrees s" and "k \<in> index s"
  shows "find_first (\<lambda>x. key x = k) (items (add xs s)) = find_first (\<lambda>x. key x = k) (items s)"
  using assms by (auto simp: items_add agrees_def intro!: find_first_append)

end

interpretation node_collection: indexed_collection node_id nodes nodeIndex addNodes removeNodes
  by unfold_locales
    (auto simp: addNodes_def removeNodes_def fresh_items_def Let_def filter_empty_conv)

interpretation edge_collection: indexed_collection edge_id edges edgeIndex addEdges removeEdges
  by unfold_locales
    (auto simp: addEdges_def removeEdges_def fresh_items_def Let_def filter_empty_conv)


section \<open>The graph invariant\<close>

definition canvas_wf :: "canvas \<Rightarrow> bool" where
  "canvas_wf s \<longleftrightarrow>
     nodeIndex s = node_id ` set (nodes s) \<and> distinct (map node_id (nodes s))
     \<and> edgeIndex s = edge_id ` set (edges s) \<and> distinct (map edge_id (edges s))"

text \<open>The store does not look for duplicates inside a batch, except in \<open>setGraph\<close>.\<close>

fun distinct_batch :: "canvas_event \<Rightarrow> bool" where
  "distinct_batch (SetNodes ns) = distinct (map node_id ns)"
| "distinct_batch (SetEdges es) = distinct (map edge_id es)"
| "distinct_batch (AddNodes ns) = distinct (map node_id ns)"
| "distinct_batch (AddEdges es) = distinct (map edge_id es)"
| "distinct_batch (AddGraph ns es) = (distinct (map node_id ns) \<and> distinct (map edge_id es))"
| "distinct_batch _ = True"

lemma dedup_by_ids:
  "key ` set (dedup_by key seen xs) = key ` set xs - seen \<and> distinct (map key (dedup_by key seen xs))"
  by (induction key seen xs rule: dedup_by.induct) auto

lemma canvas_wf_nodes_edges:
  "canvas_wf s \<longleftrightarrow> node_collection.agrees s \<and> edge_collection.agrees s"
  by (simp add: canvas_wf_def node_collection.agrees_def edge_collection.agrees_def conj_assoc)

lemma canvas_wf_cong:
  "graph_of s = graph_of t \<Longrightarrow> canvas_wf s \<longleftrightarrow> canvas_wf t"
  by (simp add: graph_of_def canvas_wf_def)

lemma edges_addNodes [simp]: "edges (addNodes ns s) = edges s" "edgeIndex (addNodes ns s) = edgeIndex s"
  by (simp_all add: addNodes_def Let_def)

lemma nodes_addEdges [simp]: "nodes (addEdges es s) = nodes s" "nodeIndex (addEdges es s) = nodeIndex s"
  by (simp_all add: addEdges_def Let_def)

lemma nodes_removeEdges [simp]: "nodes (removeEdges ids s) = nodes s" "nodeIndex (removeEdges ids s) = nodeIndex s"
  by (simp_all add: removeEdges_def Let_def)

lemma addGraph_graph_of:
  "graph_of (addGraph ns es s) = graph_of (addEdges es (addNodes ns s))"
  by (auto simp: addGraph_def addNodes_def addEdges_def graph_of_def Let_def fresh_items_def filter_empty_conv)

lemma removeNode_graph_of: "graph_of (removeNode nid s) = graph_of (removeNodes [nid] s)"
  by (auto simp: removeNode_def removeNodes_def graph_of_def Let_def incident_def intro!: filter_cong)

lemma removeEdge_graph_of: "graph_of (removeEdge eid s) = graph_of (removeEdges [eid] s)"
  by (auto simp: removeEdge_def removeEdges_def graph_of_def Let_def intro!: filter_cong)

lemma canvas_wf_addNodes: "canvas_wf s \<Longrightarrow> distinct (map node_id ns) \<Longrightarrow> canvas_wf (addNodes ns s)"
  using node_collection.agrees_add by (auto simp: canvas_wf_nodes_edges edge_collection.agrees_def)

lemma canvas_wf_addEdges: "canvas_wf s \<Longrightarrow> distinct (map edge_id es) \<Longrightarrow> canvas_wf (addEdges es s)"
  using edge_collection.agrees_add by (auto simp: canvas_wf_nodes_edges node_collection.agrees_def)

lemma canvas_wf_removeEdges: "canvas_wf s \<Longrightarrow> canvas_wf (removeEdges ids s)"
  using edge_collection.agrees_drop by (auto simp: canvas_wf_nodes_edges node_collection.agrees_def)

lemma canvas_wf_removeNodes: "canvas_wf s \<Longrightarrow> canvas_wf (removeNodes ids s)"
  using node_collection.agrees_drop [of s ids]
  by (auto simp: canvas_wf_nodes_edges edge_collection.agrees_def removeNodes_def Let_def distinct_map_filter)

lemma edge_ids_partition:
  assumes "distinct (map edge_id es)"
  shows "edge_id ` set es - edge_id ` set (filter P es) = edge_id ` set (filter (\<lambda>e. \<not> P e) es)"
  using assms by (auto simp: distinct_map inj_on_def)

lemma canvas_wf_removeEdgesByNodeIds: "canvas_wf s \<Longrightarrow> canvas_wf (removeEdgesByNodeIds ids s)"
  using edge_ids_partition [of "edges s" "incident (set ids)"]
  by (simp add: canvas_wf_def removeEdgesByNodeIds_def Let_def distinct_map_filter)

lemma canvas_wf_setGraph: "canvas_wf (setGraph ns es s)"
  using dedup_by_ids [of node_id "{}" ns] dedup_by_ids [of edge_id "{}" es]
  by (simp add: canvas_wf_def setGraph_def Let_def)

lemma canvas_wf_step:
  assumes wf: "canvas_wf s" and ok: "distinct_batch e"
  shows "canvas_wf (canvas_step e s)"
proof (cases "view_event e")
  case True
  with wf show ?thesis using canvas_wf_cong [OF view_event_graph] by blast
next
  case False
  with wf ok show ?thesis
  proof (cases e)
    case (SetNodes ns)
    with wf ok show ?thesis by (simp add: canvas_wf_def setNodes_def)
  next
    case (SetEdges es)
    with wf ok show ?thesis by (simp add: canvas_wf_def setEdges_def)
  next
    case (AddGraph ns es)
    with wf ok show ?thesis
      using canvas_wf_cong [OF addGraph_graph_of] canvas_wf_addEdges canvas_wf_addNodes by simp
  next
    case (UpdateNode nid d)
    have ids: "map node_id (nodes (updateNode nid d s)) = map node_id (nodes s)"
      by (simp add: updateNode_def)
    have "node_id ` set (nodes (updateNode nid d s)) = node_id ` set (nodes s)"
      using arg_cong [OF ids, of set] by simp
    moreover have "nodeIndex (updateNode nid d s) = nodeIndex s" "edges (updateNode nid d s) = edges s"
      "edgeIndex (updateNode nid d s) = edgeIndex s" by (simp_all add: updateNode_def)
    ultimately show ?thesis using wf ids UpdateNode by (simp add: canvas_wf_def)
  next
    case (RemoveNode nid)
    with wf show ?thesis using canvas_wf_cong [OF removeNode_graph_of] canvas_wf_removeNodes by simp
  next
    case (RemoveEdge eid)
    with wf show ?thesis using canvas_wf_cong [OF removeEdge_graph_of] canvas_wf_removeEdges by simp
  qed (simp_all add: canvas_wf_addNodes canvas_wf_addEdges canvas_wf_setGraph canvas_wf_removeNodes
      canvas_wf_removeEdges canvas_wf_removeEdgesByNodeIds)
qed

interpretation canvas: step_system canvas_step canvas_wf distinct_batch
  by unfold_locales (rule canvas_wf_step)

lemma canvas_wf_initial: "canvas_wf initial_canvas"
  by (simp add: canvas_wf_def initial_canvas_def)

text \<open>
  as long as no batch of nodes or edges handed to the store holds an id twice, every sequence of
  store actions keeps both indexes equal to the ids present and keeps ids unique.
\<close>

theorem canvas_indexes_exact:
  assumes "\<forall>e \<in> set es. distinct_batch e"
  shows "nodeIndex (run canvas_step es initial_canvas) = node_id ` set (nodes (run canvas_step es initial_canvas))
    \<and> edgeIndex (run canvas_step es initial_canvas) = edge_id ` set (edges (run canvas_step es initial_canvas))
    \<and> distinct (map node_id (nodes (run canvas_step es initial_canvas)))
    \<and> distinct (map edge_id (edges (run canvas_step es initial_canvas)))"
proof -
  have "canvas_wf (run canvas_step es initial_canvas)"
    by (rule canvas.run_inv) (use assms in \<open>simp_all add: canvas_wf_initial\<close>)
  then show ?thesis by (simp add: canvas_wf_def)
qed

theorem canvas_indexes_exact_witness:
  "nodeIndex (run canvas_step
      [AddNodes [\<lparr>node_id = ''a'', node_data = []\<rparr>, \<lparr>node_id = ''b'', node_data = []\<rparr>],
       AddNodes [\<lparr>node_id = ''b'', node_data = []\<rparr>], RemoveNode ''a''] initial_canvas) = {''b''}"
proof -
  let ?es = "[AddNodes [\<lparr>node_id = ''a'', node_data = []\<rparr>, \<lparr>node_id = ''b'', node_data = []\<rparr>],
       AddNodes [\<lparr>node_id = ''b'', node_data = []\<rparr>], RemoveNode ''a'']"
  have "nodeIndex (run canvas_step ?es initial_canvas) = node_id ` set (nodes (run canvas_step ?es initial_canvas))"
    using canvas_indexes_exact [of ?es] by simp
  also have "\<dots> = {''b''}"
    by (simp add: addNodes_def removeNode_def fresh_items_def initial_canvas_def Let_def)
  finally show ?thesis .
qed

text \<open>
  The premise is needed: the filter of \<open>addNodes\<close> and \<open>addGraph\<close> compares with the index only, so an
  id that is new but occurs twice in the batch is stored twice.
\<close>

lemma addGraph_keeps_duplicates:
  "map node_id (nodes (addGraph [\<lparr>node_id = ''a'', node_data = []\<rparr>, \<lparr>node_id = ''a'', node_data = []\<rparr>] [] initial_canvas))
     = [''a'', ''a'']"
  by (simp add: addGraph_def fresh_items_def initial_canvas_def)

section \<open>Removing nodes\<close>

text \<open>
  removing nodes drops exactly the edges that touch one of them: no dangling edge is left, the
  other nodes and edges survive in their order, and the surviving edges are the indexed ones.
\<close>

theorem removeNodes_leaves_no_dangling_edge:
  assumes "canvas_wf s"
  shows "edges (removeNodes ids s) = filter (\<lambda>e. edge_source e \<notin> set ids \<and> edge_target e \<notin> set ids) (edges s)
    \<and> nodes (removeNodes ids s) = filter (\<lambda>n. node_id n \<notin> set ids) (nodes s)
    \<and> edgeIndex (removeNodes ids s) = edge_id ` set (edges (removeNodes ids s))
    \<and> nodeIndex (removeNodes ids s) = nodeIndex s - set ids"
  using assms by (auto simp: removeNodes_def Let_def incident_def canvas_wf_def intro!: filter_cong)

theorem removeNodes_leaves_no_dangling_edge_witness:
  "edges (removeNodes [''a''] (setGraph [\<lparr>node_id = ''a'', node_data = []\<rparr>]
      [\<lparr>edge_id = ''e'', edge_source = ''a'', edge_target = ''b'', edge_data_of = None\<rparr>,
       \<lparr>edge_id = ''f'', edge_source = ''c'', edge_target = ''b'', edge_data_of = None\<rparr>] initial_canvas))
     = [\<lparr>edge_id = ''f'', edge_source = ''c'', edge_target = ''b'', edge_data_of = None\<rparr>]"
proof -
  let ?ns = "[\<lparr>node_id = ''a'', node_data = []\<rparr>]"
  let ?es = "[\<lparr>edge_id = ''e'', edge_source = ''a'', edge_target = ''b'', edge_data_of = None\<rparr>,
       \<lparr>edge_id = ''f'', edge_source = ''c'', edge_target = ''b'', edge_data_of = None\<rparr>]"
  let ?s = "setGraph ?ns ?es initial_canvas"
  have "edges (removeNodes [''a''] ?s)
      = filter (\<lambda>e. edge_source e \<notin> set [''a''] \<and> edge_target e \<notin> set [''a'']) (edges ?s)"
    using removeNodes_leaves_no_dangling_edge [OF canvas_wf_setGraph [of ?ns ?es initial_canvas], of "[''a'']"]
    by blast
  also have "edges ?s = ?es" by (simp add: setGraph_def Let_def)
  finally show ?thesis by simp
qed

section \<open>Merging a graph\<close>

text \<open>
  merging a batch is idempotent on nodes and edges, keeps what was there under the same id, and
  is undone by removing the batch's ids when none of them was known before.
\<close>

theorem addGraph_idempotent_and_reversible:
  assumes "canvas_wf s"
  shows "nodes (addGraph ns es (addGraph ns es s)) = nodes (addGraph ns es s)
    \<and> edges (addGraph ns es (addGraph ns es s)) = edges (addGraph ns es s)
    \<and> (k \<in> nodeIndex s \<longrightarrow> find_first (\<lambda>n. node_id n = k) (nodes (addGraph ns es s))
                             = find_first (\<lambda>n. node_id n = k) (nodes s))
    \<and> (node_id ` set ns \<inter> nodeIndex s = {} \<longrightarrow>
         nodes (removeNodes (map node_id ns) (addGraph ns es s)) = nodes s)"
proof -
  have g: "nodes (addGraph xs ys t) = nodes (addNodes xs t) \<and> edges (addGraph xs ys t) = edges (addEdges ys t)
      \<and> nodeIndex (addGraph xs ys t) = nodeIndex (addNodes xs t)
      \<and> edgeIndex (addGraph xs ys t) = edgeIndex (addEdges ys t)" for xs ys t
    by (auto simp: addGraph_def addNodes_def addEdges_def Let_def fresh_items_def filter_empty_conv)
  have a: "node_collection.agrees s" using assms by (simp add: canvas_wf_nodes_edges)
  show ?thesis
    using node_collection.lookup_added [OF a] node_collection.drop_added [OF a]
    by (simp add: g node_collection.items_add node_collection.index_add edge_collection.items_add
        edge_collection.index_add node_collection.items_drop fresh_items_def)
qed

theorem addGraph_idempotent_and_reversible_witness:
  "nodes (removeNodes [''b''] (addGraph [\<lparr>node_id = ''b'', node_data = []\<rparr>] []
      (setGraph [\<lparr>node_id = ''a'', node_data = []\<rparr>] [] initial_canvas)))
     = [\<lparr>node_id = ''a'', node_data = []\<rparr>]"
proof -
  let ?b = "[\<lparr>node_id = ''b'', node_data = []\<rparr>]"
  let ?s = "setGraph [\<lparr>node_id = ''a'', node_data = []\<rparr>] [] initial_canvas"
  have s: "nodes ?s = [\<lparr>node_id = ''a'', node_data = []\<rparr>]" "nodeIndex ?s = {''a''}"
    by (simp_all add: setGraph_def Let_def)
  have "node_id ` set ?b \<inter> nodeIndex ?s = {}" by (simp add: s)
  then have "nodes (removeNodes (map node_id ?b) (addGraph ?b [] ?s)) = nodes ?s"
    using addGraph_idempotent_and_reversible
      [OF canvas_wf_setGraph [of "[\<lparr>node_id = ''a'', node_data = []\<rparr>]" "[]" initial_canvas], of ?b "[]"]
    by blast
  then show ?thesis by (simp add: s)
qed

section \<open>Selection and persistence\<close>

lemma toggle_in_twice: "x \<notin> set xs \<Longrightarrow> toggle_in x (toggle_in x xs) = xs"
  by (auto simp: toggle_in_def filter_id_conv)

lemma selectNode_single:
  "selectedNodeIds (selectNode nid False s) = (if selectedNodeIds s = [nid] then [] else [nid])"
  "selectedEdgeIds (selectNode nid False s) = []"
  by (simp_all add: selectNode_def Let_def)

lemma rehydrate_partialize:
  "viewport_of (rehydrate (partialize s)) = viewport_of s"
  "activeLensId (rehydrate (partialize s)) = activeLensId s"
  "nodes (rehydrate (partialize s)) = []"
  by (simp_all add: rehydrate_def partialize_def initial_canvas_def)

end
