(* ===== verification/Staged_Changes.thy ===== *)
theory Staged_Changes
  imports Step_System Graph_Model "HOL-Library.Multiset"
begin

text \<open>
  The review-before-save layer of \<^verbatim>\<open>store/stagedChangesStore.ts\<close>. The stores a staged edit belongs to are
  one state \<open>'w\<close>, the world: a change's \<open>discard\<close> hook is the change of the world it makes (an error it
  throws is caught and dropped, so the hook is total), its \<open>apply\<close> hook changes the context of the save
  and reports \<open>None\<close> or the message of the error it threw. Ids (\<open>generateId\<close>) and times are arguments.
\<close>

section \<open>State\<close>

datatype change_type =
    Create_entity | Rename_entity | Update_entity | Delete_entity | Assign_layer
  | Move_to_layer | Create_edge | Edit_edge | Delete_edge | Reverse_edge

text \<open>\<open>provider\<close> and \<open>wsId\<close> of the context are part of what a hook closes over.\<close>

record 'w apply_context =
  world :: 'w
  tempIdMap :: "(string, string) jsmap"

type_synonym 'w apply_hook = "'w apply_context \<Rightarrow> 'w apply_context \<times> string option"

record 'w change_input =
  in_type :: change_type
  in_targetId :: ident
  in_targetUrn :: "urn option"
  in_before :: "json option"
  in_after :: json
  in_summary :: string
  in_apply :: "'w apply_hook option"
  in_discard :: "('w \<Rightarrow> 'w) option"
  in_error :: "string option"

record 'w staged_change =
  ch_id :: ident
  ch_type :: change_type
  ch_targetId :: ident
  ch_targetUrn :: "urn option"
  ch_before :: "json option"
  ch_after :: json
  ch_summary :: string
  ch_apply :: "'w apply_hook option"
  ch_discard :: "('w \<Rightarrow> 'w) option"
  ch_timestamp :: int
  ch_error :: "string option"

datatype apply_status = Apply_Idle | Applying | Partial_Error

record 'w staged =
  changes :: "'w staged_change list"
  isReviewPanelOpen :: bool
  applyStatus :: apply_status
  lastApplyResult :: "(nat \<times> nat) option"
  redoStack :: "'w staged_change list"

definition initial_staged :: "'w staged" where
  "initial_staged =
     \<lparr>changes = [], isReviewPanelOpen = False, applyStatus = Apply_Idle, lastApplyResult = None, redoStack = []\<rparr>"

section \<open>Staging\<close>

definition new_change :: "ident \<Rightarrow> int \<Rightarrow> 'w change_input \<Rightarrow> 'w staged_change" where
  "new_change cid now i =
     \<lparr>ch_id = cid, ch_type = in_type i, ch_targetId = in_targetId i, ch_targetUrn = in_targetUrn i,
      ch_before = in_before i, ch_after = in_after i, ch_summary = in_summary i, ch_apply = in_apply i,
      ch_discard = in_discard i, ch_timestamp = now, ch_error = in_error i\<rparr>"

definition stage :: "ident \<Rightarrow> int \<Rightarrow> 'w change_input \<Rightarrow> 'w staged \<Rightarrow> ident \<times> 'w staged" where
  "stage cid now i s = (cid, s\<lparr>changes := changes s @ [new_change cid now i], redoStack := []\<rparr>)"

text \<open>The value of an optional property after \<^verbatim>\<open>{ ...c, ...input }\<close>: an absent one leaves the old value.\<close>

definition overlay :: "'a option \<Rightarrow> 'a option \<Rightarrow> 'a option" where
  "overlay new old = (case new of None \<Rightarrow> old | Some v \<Rightarrow> Some v)"

definition replace_change ::
  "'w staged_change \<Rightarrow> int \<Rightarrow> 'w change_input \<Rightarrow> 'w staged_change \<Rightarrow> 'w staged_change" where
  "replace_change existing now i c =
     \<lparr>ch_id = ch_id existing, ch_type = in_type i, ch_targetId = in_targetId i,
      ch_targetUrn = overlay (in_targetUrn i) (ch_targetUrn c), ch_before = ch_before existing,
      ch_after = in_after i, ch_summary = in_summary i, ch_apply = overlay (in_apply i) (ch_apply c),
      ch_discard = overlay (in_discard i) (ch_discard c), ch_timestamp = now,
      ch_error = overlay (in_error i) (ch_error c)\<rparr>"

definition stageOrReplace ::
  "ident \<Rightarrow> int \<Rightarrow> ('w staged_change \<Rightarrow> bool) \<Rightarrow> 'w change_input \<Rightarrow> 'w staged \<Rightarrow> ident \<times> 'w staged" where
  "stageOrReplace cid now matcher i s =
     (case find_first matcher (changes s) of
        Some existing \<Rightarrow>
          (ch_id existing,
           s\<lparr>changes := map (\<lambda>c. if ch_id c = ch_id existing then replace_change existing now i c else c) (changes s)\<rparr>)
      | None \<Rightarrow> stage cid now i s)"

section \<open>Discarding, undo and redo\<close>

definition run_discard :: "'w staged_change \<Rightarrow> 'w \<Rightarrow> 'w" where
  "run_discard c w = (case ch_discard c of None \<Rightarrow> w | Some h \<Rightarrow> h w)"

definition discard :: "ident \<Rightarrow> 'w \<times> 'w staged \<Rightarrow> 'w \<times> 'w staged" where
  "discard cid ws =
     (case ws of (w, s) \<Rightarrow>
        (case find_first (\<lambda>c. ch_id c = cid) (changes s) of
           None \<Rightarrow> (w, s)
         | Some c \<Rightarrow>
             (run_discard c w,
              s\<lparr>changes := filter (\<lambda>c. ch_id c \<noteq> cid) (changes s), redoStack := redoStack s @ [c]\<rparr>)))"

definition discardAll :: "'w \<times> 'w staged \<Rightarrow> 'w \<times> 'w staged" where
  "discardAll ws =
     (case ws of (w, s) \<Rightarrow>
        (fold run_discard (rev (changes s)) w,
         s\<lparr>changes := [], redoStack := [], applyStatus := Apply_Idle, lastApplyResult := None\<rparr>))"

definition undo :: "'w \<times> 'w staged \<Rightarrow> bool \<times> ('w \<times> 'w staged)" where
  "undo ws =
     (case ws of (w, s) \<Rightarrow>
        if changes s = [] then (False, (w, s))
        else (let c = last (changes s)
              in (True, (run_discard c w, s\<lparr>changes := butlast (changes s), redoStack := redoStack s @ [c]\<rparr>))))"

definition redo :: "'w staged \<Rightarrow> bool \<times> 'w staged" where
  "redo s =
     (if redoStack s = [] then (False, s)
      else (True, s\<lparr>changes := changes s @ [last (redoStack s)], redoStack := butlast (redoStack s)\<rparr>))"

definition canUndo :: "'w staged \<Rightarrow> bool" where
  "canUndo s \<longleftrightarrow> 0 < length (changes s)"

definition canRedo :: "'w staged \<Rightarrow> bool" where
  "canRedo s \<longleftrightarrow> 0 < length (redoStack s)"

section \<open>Saving\<close>

fun APPLY_ORDER_GROUP :: "change_type \<Rightarrow> nat" where
  "APPLY_ORDER_GROUP Delete_edge = 1"
| "APPLY_ORDER_GROUP Delete_entity = 2"
| "APPLY_ORDER_GROUP Rename_entity = 3"
| "APPLY_ORDER_GROUP Update_entity = 3"
| "APPLY_ORDER_GROUP Edit_edge = 3"
| "APPLY_ORDER_GROUP Reverse_edge = 3"
| "APPLY_ORDER_GROUP Assign_layer = 3"
| "APPLY_ORDER_GROUP Move_to_layer = 3"
| "APPLY_ORDER_GROUP Create_entity = 4"
| "APPLY_ORDER_GROUP Create_edge = 5"

text \<open>The comparator of the sort as a linear order: the group first, then the time stamp.\<close>

datatype apply_rank = Apply_Rank (rank_group: nat) (rank_time: int)

instantiation apply_rank :: linorder
begin

definition less_apply_rank :: "apply_rank \<Rightarrow> apply_rank \<Rightarrow> bool" where
  "less_apply_rank a b \<longleftrightarrow>
     (if rank_group a \<noteq> rank_group b then rank_group a < rank_group b else rank_time a < rank_time b)"

definition less_eq_apply_rank :: "apply_rank \<Rightarrow> apply_rank \<Rightarrow> bool" where
  "less_eq_apply_rank a b \<longleftrightarrow>
     (if rank_group a \<noteq> rank_group b then rank_group a < rank_group b else rank_time a \<le> rank_time b)"

instance
  by intro_classes
     (auto simp: less_apply_rank_def less_eq_apply_rank_def apply_rank.expand split: if_splits)

end

definition apply_rank_of :: "'w staged_change \<Rightarrow> apply_rank" where
  "apply_rank_of c = Apply_Rank (APPLY_ORDER_GROUP (ch_type c)) (ch_timestamp c)"

definition apply_order :: "'w staged_change list \<Rightarrow> 'w staged_change list" where
  "apply_order cs = sort_key apply_rank_of cs"

record 'w save_state =
  save_ctx :: "'w apply_context"
  save_ok :: nat
  save_failed :: nat
  save_remaining :: "'w staged_change list"

text \<open>One turn of the loop of \<open>applyAll\<close>.\<close>

definition apply_one :: "'w staged_change \<Rightarrow> 'w save_state \<Rightarrow> 'w save_state" where
  "apply_one c r =
     (case ch_apply c of
        None \<Rightarrow> r\<lparr>save_ok := Suc (save_ok r)\<rparr>
      | Some hook \<Rightarrow>
          (case hook (save_ctx r) of
             (ctx, None) \<Rightarrow> r\<lparr>save_ctx := ctx, save_ok := Suc (save_ok r)\<rparr>
           | (ctx, Some msg) \<Rightarrow>
               r\<lparr>save_ctx := ctx, save_failed := Suc (save_failed r),
                 save_remaining := save_remaining r @ [c\<lparr>ch_error := Some msg\<rparr>]\<rparr>))"

definition apply_loop :: "'w staged_change list \<Rightarrow> 'w \<Rightarrow> 'w save_state" where
  "apply_loop ordered w =
     fold apply_one ordered \<lparr>save_ctx = \<lparr>world = w, tempIdMap = []\<rparr>, save_ok = 0, save_failed = 0, save_remaining = []\<rparr>"

text \<open>The synchronous parts of \<open>applyAll\<close> before its first and after its last \<^verbatim>\<open>await\<close>.\<close>

definition apply_begin :: "'w staged \<Rightarrow> 'w staged_change list \<times> 'w staged" where
  "apply_begin s = (apply_order (changes s), s\<lparr>applyStatus := Applying\<rparr>)"

definition apply_finish :: "'w save_state \<Rightarrow> 'w staged \<Rightarrow> 'w staged" where
  "apply_finish r s =
     s\<lparr>changes := save_remaining r,
       applyStatus := (if 0 < save_failed r then Partial_Error else Apply_Idle),
       lastApplyResult := Some (save_ok r, save_failed r)\<rparr>"

definition applyAll :: "'w \<times> 'w staged \<Rightarrow> (nat \<times> nat) \<times> ('w \<times> 'w staged)" where
  "applyAll ws =
     (case ws of (w, s) \<Rightarrow>
        if changes s = [] then ((0, 0), (w, s))
        else (let (ordered, s1) = apply_begin s; r = apply_loop ordered w
              in ((save_ok r, save_failed r), (world (save_ctx r), apply_finish r s1))))"

section \<open>Panel and queries\<close>

definition openReviewPanel :: "'w staged \<Rightarrow> 'w staged" where
  "openReviewPanel s = s\<lparr>isReviewPanelOpen := True\<rparr>"

definition closeReviewPanel :: "'w staged \<Rightarrow> 'w staged" where
  "closeReviewPanel s = s\<lparr>isReviewPanelOpen := False\<rparr>"

definition hasChange :: "ident \<Rightarrow> 'w staged \<Rightarrow> bool" where
  "hasChange t s = list_ex (\<lambda>c. ch_targetId c = t) (changes s)"

definition getChangesForTarget :: "ident \<Rightarrow> 'w staged \<Rightarrow> 'w staged_change list" where
  "getChangesForTarget t s = filter (\<lambda>c. ch_targetId c = t) (changes s)"

definition latestStagedChange :: "ident \<Rightarrow> 'w staged \<Rightarrow> 'w staged_change option" where
  "latestStagedChange t s =
     (let matches = getChangesForTarget t s in if matches = [] then None else Some (last matches))"

definition countByType :: "'w staged \<Rightarrow> change_type \<Rightarrow> nat" where
  "countByType s = fold (\<lambda>c counts. counts(ch_type c := Suc (counts (ch_type c)))) (changes s) (\<lambda>_. 0)"

datatype badge_color = Green | Amber | Red

definition stagedChangeColor :: "change_type \<Rightarrow> badge_color" where
  "stagedChangeColor t =
     (case t of Create_entity \<Rightarrow> Green | Create_edge \<Rightarrow> Green
      | Delete_entity \<Rightarrow> Red | Delete_edge \<Rightarrow> Red | _ \<Rightarrow> Amber)"

section \<open>Actions as events\<close>

datatype 'w staged_event =
    Stage ident int "'w change_input"
  | StageOrReplace ident int "'w staged_change \<Rightarrow> bool" "'w change_input"
  | Discard ident
  | DiscardAll
  | Undo
  | Redo
  | ApplyAll
  | OpenReviewPanel
  | CloseReviewPanel

fun staged_step :: "'w staged_event \<Rightarrow> 'w \<times> 'w staged \<Rightarrow> 'w \<times> 'w staged" where
  "staged_step (Stage cid now i) (w, s) = (w, snd (stage cid now i s))"
| "staged_step (StageOrReplace cid now matcher i) (w, s) = (w, snd (stageOrReplace cid now matcher i s))"
| "staged_step (Discard cid) (w, s) = discard cid (w, s)"
| "staged_step DiscardAll (w, s) = discardAll (w, s)"
| "staged_step Undo (w, s) = snd (undo (w, s))"
| "staged_step Redo (w, s) = (w, snd (redo s))"
| "staged_step ApplyAll (w, s) = snd (applyAll (w, s))"
| "staged_step OpenReviewPanel (w, s) = (w, openReviewPanel s)"
| "staged_step CloseReviewPanel (w, s) = (w, closeReviewPanel s)"

section \<open>The order of a save and its account\<close>

lemma apply_one_account:
  "save_ok (apply_one c r) + save_failed (apply_one c r) = Suc (save_ok r + save_failed r)"
  "length (save_remaining (apply_one c r)) + save_failed r = length (save_remaining r) + save_failed (apply_one c r)"
  by (simp_all add: apply_one_def split: option.splits prod.splits)

lemma apply_fold_account:
  "save_ok (fold apply_one cs r) + save_failed (fold apply_one cs r) = length cs + save_ok r + save_failed r"
  "length (save_remaining (fold apply_one cs r)) + save_failed r
     = length (save_remaining r) + save_failed (fold apply_one cs r)"
proof (induction cs arbitrary: r)
  case (Cons c cs)
  { case 1 show ?case using Cons.IH(1) [of "apply_one c r"] apply_one_account(1) [of c r] by simp }
  { case 2 show ?case using Cons.IH(2) [of "apply_one c r"] apply_one_account(2) [of c r] by simp }
qed simp_all

text \<open>What is left is made of the changes whose hook failed, in the order they ran, marked with the error.\<close>

definition failed_hook :: "'w staged_change \<Rightarrow> 'w staged_change \<Rightarrow> bool" where
  "failed_hook c c' \<longleftrightarrow> ch_apply c \<noteq> None \<and> (\<exists>msg. c' = c\<lparr>ch_error := Some msg\<rparr>)"

lemma apply_one_remaining:
  "\<exists>cs'. save_remaining (apply_one c r) = save_remaining r @ cs' \<and> (cs' = [] \<or> (\<exists>c'. cs' = [c'] \<and> failed_hook c c'))"
  by (auto simp: apply_one_def failed_hook_def split: option.splits prod.splits)

lemma apply_fold_remaining:
  "\<exists>fs cs'. save_remaining (fold apply_one cs r) = save_remaining r @ cs' \<and> list_all2 failed_hook fs cs' \<and> set fs \<subseteq> set cs
     \<and> length fs \<le> length cs \<and> (distinct (map ch_id cs) \<longrightarrow> distinct (map ch_id fs))"
proof (induction cs arbitrary: r)
  case (Cons c cs)
  obtain cs1 where one: "save_remaining (apply_one c r) = save_remaining r @ cs1"
    "cs1 = [] \<or> (\<exists>c'. cs1 = [c'] \<and> failed_hook c c')"
    using apply_one_remaining by blast
  obtain fs cs2 where rest: "save_remaining (fold apply_one cs (apply_one c r)) = save_remaining (apply_one c r) @ cs2"
    "list_all2 failed_hook fs cs2" "set fs \<subseteq> set cs" "length fs \<le> length cs"
    "distinct (map ch_id cs) \<longrightarrow> distinct (map ch_id fs)"
    using Cons.IH by blast
  from one(2) show ?case
  proof
    assume "cs1 = []"
    with one(1) rest show ?thesis by (intro exI [of _ fs] exI [of _ cs2]) auto
  next
    assume "\<exists>c'. cs1 = [c'] \<and> failed_hook c c'"
    then obtain c' where "cs1 = [c']" "failed_hook c c'" by blast
    with one(1) rest show ?thesis by (intro exI [of _ "c # fs"] exI [of _ "c' # cs2"]) auto
  qed
qed auto

lemma failed_hook_ids: "list_all2 failed_hook fs cs \<Longrightarrow> map ch_id cs = map ch_id fs"
  by (induction rule: list_all2_induct) (auto simp: failed_hook_def)

lemma apply_order_mset [simp]: "mset (apply_order cs) = mset cs"
  by (simp add: apply_order_def)

lemma apply_order_set [simp]: "set (apply_order cs) = set cs"
  by (simp add: apply_order_def)

lemma apply_order_length [simp]: "length (apply_order cs) = length cs"
  by (simp add: apply_order_def)

lemma apply_order_ids: "distinct (map ch_id (apply_order cs)) = distinct (map ch_id cs)"
  by (metis apply_order_mset mset_eq_imp_distinct_iff mset_map)

lemma applyAll_result:
  "applyAll (w, s) =
     (let r = apply_loop (apply_order (changes s)) w
      in if changes s = [] then ((0, 0), (w, s))
         else ((save_ok r, save_failed r), (world (save_ctx r), apply_finish r (s\<lparr>applyStatus := Applying\<rparr>))))"
  by (simp add: applyAll_def apply_begin_def Let_def)

text \<open>What a hook does to the context it sees, the change it leaves staged, and the contexts a sequence of changes sees.\<close>

definition after_hook :: "'w staged_change \<Rightarrow> 'w apply_context \<Rightarrow> 'w apply_context" where
  "after_hook c ctx = (case ch_apply c of None \<Rightarrow> ctx | Some hook \<Rightarrow> fst (hook ctx))"

definition left_staged :: "'w staged_change \<Rightarrow> 'w apply_context \<Rightarrow> 'w staged_change list" where
  "left_staged c ctx =
     (case ch_apply c of None \<Rightarrow> []
      | Some hook \<Rightarrow> (case snd (hook ctx) of None \<Rightarrow> [] | Some msg \<Rightarrow> [c\<lparr>ch_error := Some msg\<rparr>]))"

fun contexts_seen :: "'w staged_change list \<Rightarrow> 'w apply_context \<Rightarrow> 'w apply_context list" where
  "contexts_seen [] ctx = []"
| "contexts_seen (c # cs) ctx = ctx # contexts_seen cs (after_hook c ctx)"

lemma apply_one_hook:
  "save_ctx (apply_one c r) = after_hook c (save_ctx r)"
  "save_remaining (apply_one c r) = save_remaining r @ left_staged c (save_ctx r)"
  by (simp_all add: apply_one_def after_hook_def left_staged_def split: option.splits prod.splits)

lemma apply_fold_hooks:
  "save_ctx (fold apply_one cs r) = fold after_hook cs (save_ctx r)"
  "save_remaining (fold apply_one cs r)
     = save_remaining r @ concat (map2 left_staged cs (contexts_seen cs (save_ctx r)))"
  by (induction cs arbitrary: r) (simp_all add: apply_one_hook)

text \<open>
  C6: a save goes through a stable sort of the staged changes: by group (edge deletions, entity deletions, updates,
  entity creations, edge creations), by time inside a group, in the order of staging for equal times. The apply
  hook of each change runs exactly once, in this order, on the context the hooks before it left (a change without
  hook does nothing), and what the world is afterwards is what the last hook left. What stays staged are exactly
  the changes whose hook failed on the context it saw, in this order, marked with the error; the others are
  counted as saved, and the status says whether something failed.
\<close>

theorem applyAll_order_and_account:
  "\<exists>order. mset order = mset (changes s)
   \<and> sorted (map apply_rank_of order)
   \<and> (\<forall>k. filter (\<lambda>c. apply_rank_of c = k) order = filter (\<lambda>c. apply_rank_of c = k) (changes s))
   \<and> fst (snd (applyAll (w, s))) = world (fold after_hook order \<lparr>world = w, tempIdMap = []\<rparr>)
   \<and> changes (snd (snd (applyAll (w, s))))
       = concat (map2 left_staged order (contexts_seen order \<lparr>world = w, tempIdMap = []\<rparr>))
   \<and> fst (fst (applyAll (w, s))) + snd (fst (applyAll (w, s))) = length (changes s)
   \<and> snd (fst (applyAll (w, s))) = length (changes (snd (snd (applyAll (w, s)))))
   \<and> applyStatus (snd (snd (applyAll (w, s))))
       = (if changes s = [] then applyStatus s else if changes (snd (snd (applyAll (w, s)))) = [] then Apply_Idle else Partial_Error)"
proof (intro exI conjI)
  let ?order = "apply_order (changes s)"
  let ?r0 = "\<lparr>save_ctx = \<lparr>world = w, tempIdMap = []\<rparr>, save_ok = 0, save_failed = 0, save_remaining = []\<rparr>"
  let ?res = "apply_loop ?order w"
  have account: "save_ok ?res + save_failed ?res = length (changes s)" "length (save_remaining ?res) = save_failed ?res"
    using apply_fold_account [of ?order ?r0] by (simp_all add: apply_loop_def)
  have hooks: "save_ctx ?res = fold after_hook ?order \<lparr>world = w, tempIdMap = []\<rparr>"
    "save_remaining ?res = concat (map2 left_staged ?order (contexts_seen ?order \<lparr>world = w, tempIdMap = []\<rparr>))"
    using apply_fold_hooks [of ?order ?r0] by (simp_all add: apply_loop_def)
  have empty: "?order = []" if "changes s = []" using that by (simp add: apply_order_def)
  show "mset ?order = mset (changes s)" by simp
  show "sorted (map apply_rank_of ?order)" by (simp add: apply_order_def)
  show "\<forall>k. filter (\<lambda>c. apply_rank_of c = k) ?order = filter (\<lambda>c. apply_rank_of c = k) (changes s)"
    by (simp add: apply_order_def sort_key_stable)
  show "fst (snd (applyAll (w, s))) = world (fold after_hook ?order \<lparr>world = w, tempIdMap = []\<rparr>)"
    using hooks(1) empty by (simp add: applyAll_result Let_def)
  show "changes (snd (snd (applyAll (w, s)))) = concat (map2 left_staged ?order (contexts_seen ?order \<lparr>world = w, tempIdMap = []\<rparr>))"
    using hooks(2) empty by (simp add: applyAll_result apply_finish_def Let_def)
  show "fst (fst (applyAll (w, s))) + snd (fst (applyAll (w, s))) = length (changes s)"
    using account(1) by (simp add: applyAll_result Let_def)
  show "snd (fst (applyAll (w, s))) = length (changes (snd (snd (applyAll (w, s)))))"
    using account(2) by (simp add: applyAll_result apply_finish_def Let_def)
  show "applyStatus (snd (snd (applyAll (w, s))))
      = (if changes s = [] then applyStatus s else if changes (snd (snd (applyAll (w, s)))) = [] then Apply_Idle else Partial_Error)"
    using account(2) by (auto simp: applyAll_result apply_finish_def Let_def)
qed

section \<open>Temporary ids\<close>

text \<open>
  \<open>registerTempIdResolution\<close> is the only way a hook changes the map of temporary ids, so no hook forgets
  a resolution.
\<close>

definition keeps_resolutions :: "'w staged_change \<Rightarrow> bool" where
  "keeps_resolutions c \<longleftrightarrow>
     (\<forall>hook ctx t. ch_apply c = Some hook \<longrightarrow> mget (tempIdMap ctx) t \<noteq> None \<longrightarrow> mget (tempIdMap (fst (hook ctx))) t \<noteq> None)"

definition registers_target :: "'w staged_change \<Rightarrow> bool" where
  "registers_target c \<longleftrightarrow>
     (\<exists>hook. ch_apply c = Some hook \<and> (\<forall>ctx. mget (tempIdMap (fst (hook ctx))) (ch_targetId c) \<noteq> None))"

lemma apply_one_keeps:
  "keeps_resolutions c \<Longrightarrow> mget (tempIdMap (save_ctx r)) t \<noteq> None \<Longrightarrow> mget (tempIdMap (save_ctx (apply_one c r))) t \<noteq> None"
  by (auto simp: apply_one_def keeps_resolutions_def split: option.splits prod.splits) (metis fst_conv option.distinct(1))+

lemma apply_fold_keeps:
  "\<forall>c \<in> set cs. keeps_resolutions c \<Longrightarrow> mget (tempIdMap (save_ctx r)) t \<noteq> None
    \<Longrightarrow> mget (tempIdMap (save_ctx (fold apply_one cs r))) t \<noteq> None"
proof (induction cs arbitrary: r)
  case (Cons c cs)
  then show ?case using apply_one_keeps [of c r t] by simp
qed simp

lemma apply_one_registers:
  "registers_target c \<Longrightarrow> mget (tempIdMap (save_ctx (apply_one c r))) (ch_targetId c) \<noteq> None"
  by (auto simp: apply_one_def registers_target_def split: option.splits prod.splits) (metis fst_conv option.distinct(1))+

lemma apply_fold_registers:
  assumes "\<forall>c \<in> set cs. keeps_resolutions c" and "d \<in> set cs" and "registers_target d"
  shows "mget (tempIdMap (save_ctx (fold apply_one cs r))) (ch_targetId d) \<noteq> None"
proof -
  obtain us vs where cs: "cs = us @ d # vs" using assms(2) by (meson split_list)
  have "mget (tempIdMap (save_ctx (apply_one d (fold apply_one us r)))) (ch_targetId d) \<noteq> None"
    using assms(3) by (rule apply_one_registers)
  then show ?thesis using apply_fold_keeps [of vs] assms(1) by (simp add: cs)
qed

lemma sorted_before:
  "sorted (map f (us @ c # vs)) \<Longrightarrow> d \<in> set (us @ c # vs) \<Longrightarrow> f d < f c \<Longrightarrow> d \<in> set us"
  by (auto simp: sorted_append)

text \<open>
  when the hook of an edge creation runs, the temporary id of every entity created in the same save
  has been resolved, whatever the order in which the user staged the changes.
\<close>

theorem created_entities_resolve_before_edges:
  assumes "\<forall>c \<in> set (changes s). keeps_resolutions c"
    and "d \<in> set (changes s)" and "ch_type d = Create_entity" and "registers_target d"
    and "apply_order (changes s) = us @ c # vs" and "ch_type c = Create_edge"
  shows "mget (tempIdMap (save_ctx (apply_loop us w))) (ch_targetId d) \<noteq> None"
proof -
  have in_order: "d \<in> set (us @ c # vs)" using assms(2) by (simp flip: assms(5))
  have "sorted (map apply_rank_of (us @ c # vs))" by (simp add: apply_order_def flip: assms(5))
  moreover have "apply_rank_of d < apply_rank_of c"
    using assms(3,6) by (simp add: apply_rank_of_def less_apply_rank_def)
  ultimately have "d \<in> set us" using sorted_before [OF _ in_order] by blast
  moreover have "\<forall>c \<in> set us. keeps_resolutions c"
    using assms(1) by (simp flip: apply_order_set [of "changes s"] add: assms(5))
  ultimately show ?thesis unfolding apply_loop_def using assms(4) by (intro apply_fold_registers) auto
qed

text \<open>A creation that registers its target, an edge creation that reads it, staged the other way round.\<close>

definition creation :: "ident \<Rightarrow> int \<Rightarrow> change_type \<Rightarrow> ident \<Rightarrow> string list apply_hook \<Rightarrow> string list staged_change" where
  "creation cid t ty target hook =
     \<lparr>ch_id = cid, ch_type = ty, ch_targetId = target, ch_targetUrn = None, ch_before = None, ch_after = JNull,
      ch_summary = [], ch_apply = Some hook, ch_discard = None, ch_timestamp = t, ch_error = None\<rparr>"

definition create_hook :: "string list apply_hook" where
  "create_hook ctx = (ctx\<lparr>tempIdMap := mset_key ''tmp'' ''real'' (tempIdMap ctx)\<rparr>, None)"

definition edge_hook :: "string list apply_hook" where
  "edge_hook ctx = (ctx\<lparr>world := (case mget (tempIdMap ctx) ''tmp'' of None \<Rightarrow> ''dangling'' | Some r \<Rightarrow> r) # world ctx\<rparr>, None)"

theorem created_entities_resolve_before_edges_witness:
  "mget (tempIdMap (save_ctx (apply_loop [creation ''c2'' 20 Create_entity ''tmp'' create_hook] []))) ''tmp'' \<noteq> None"
proof -
  let ?d = "creation ''c2'' 20 Create_entity ''tmp'' create_hook"
  let ?c = "creation ''c1'' 10 Create_edge ''e'' edge_hook"
  let ?s = "initial_staged\<lparr>changes := [?c, ?d]\<rparr>"
  have order: "apply_order (changes ?s) = [?d] @ ?c # []"
    by (simp add: apply_order_def apply_rank_of_def creation_def less_eq_apply_rank_def)
  have "mget (tempIdMap (save_ctx (apply_loop [?d] []))) (ch_targetId ?d) \<noteq> None"
    using order
    by (intro created_entities_resolve_before_edges [of ?s ?d "[?d]" ?c "[]"])
       (auto simp: initial_staged_def creation_def keeps_resolutions_def registers_target_def create_hook_def edge_hook_def)
  then show ?thesis by (simp add: creation_def)
qed

section \<open>Identity\<close>

text \<open>Staged and undone changes together carry each id once.\<close>

definition all_ids :: "'w staged \<Rightarrow> ident list" where
  "all_ids s = map ch_id (changes s) @ map ch_id (redoStack s)"

definition staged_wf :: "'w staged \<Rightarrow> bool" where
  "staged_wf s \<longleftrightarrow> distinct (all_ids s)"

fun staged_id :: "'w staged_event \<Rightarrow> ident list" where
  "staged_id (Stage cid now i) = [cid]"
| "staged_id (StageOrReplace cid now matcher i) = [cid]"
| "staged_id e = []"

lemma stage_ids: "set (all_ids (snd (stage cid now i s))) \<subseteq> insert cid (set (all_ids s))"
  by (auto simp: stage_def all_ids_def new_change_def)

lemma stage_wf: "staged_wf s \<Longrightarrow> cid \<notin> set (all_ids s) \<Longrightarrow> staged_wf (snd (stage cid now i s))"
  by (auto simp: staged_wf_def stage_def all_ids_def new_change_def)

lemma replace_ids [simp]:
  "map ch_id (map (\<lambda>c. if ch_id c = ch_id ex then replace_change ex now i c else c) cs) = map ch_id cs"
  by (induction cs) (auto simp: replace_change_def)

lemma stageOrReplace_existing:
  "find_first matcher (changes s) = Some ex \<Longrightarrow> all_ids (snd (stageOrReplace cid now matcher i s)) = all_ids s"
  by (simp add: stageOrReplace_def all_ids_def del: map_map)

lemma stageOrReplace_ids:
  "set (all_ids (snd (stageOrReplace cid now matcher i s))) \<subseteq> insert cid (set (all_ids s))"
  using stage_ids [of cid now i s]
  by (cases "find_first matcher (changes s)") (auto simp: stageOrReplace_existing, auto simp: stageOrReplace_def)

lemma stageOrReplace_wf:
  "staged_wf s \<Longrightarrow> cid \<notin> set (all_ids s) \<Longrightarrow> staged_wf (snd (stageOrReplace cid now matcher i s))"
  using stage_wf [of s cid now i]
  by (cases "find_first matcher (changes s)") (simp_all add: staged_wf_def stageOrReplace_existing, simp add: stageOrReplace_def)

lemma discard_wf_ids:
  "staged_wf s \<Longrightarrow> staged_wf (snd (discard cid (w, s))) \<and> set (all_ids (snd (discard cid (w, s)))) \<subseteq> set (all_ids s)"
  by (auto simp: discard_def staged_wf_def all_ids_def distinct_map_filter dest!: find_first_Some split: option.splits)

lemma undo_wf_ids:
  "staged_wf s \<Longrightarrow> staged_wf (snd (snd (undo (w, s)))) \<and> set (all_ids (snd (snd (undo (w, s))))) \<subseteq> set (all_ids s)"
  by (cases "changes s" rule: rev_cases) (auto simp: undo_def staged_wf_def all_ids_def Let_def)

lemma redo_wf_ids:
  "staged_wf s \<Longrightarrow> staged_wf (snd (redo s)) \<and> set (all_ids (snd (redo s))) \<subseteq> set (all_ids s)"
  by (cases "redoStack s" rule: rev_cases) (auto simp: redo_def staged_wf_def all_ids_def Let_def)

lemma applyAll_wf_ids:
  assumes "staged_wf s"
  shows "staged_wf (snd (snd (applyAll (w, s)))) \<and> set (all_ids (snd (snd (applyAll (w, s))))) \<subseteq> set (all_ids s)"
proof (cases "changes s = []")
  case True
  then show ?thesis using assms by (simp add: applyAll_result Let_def)
next
  case False
  have "distinct (map ch_id (apply_order (changes s)))"
    using assms by (simp add: apply_order_ids staged_wf_def all_ids_def)
  then obtain fs where "list_all2 failed_hook fs (save_remaining (apply_loop (apply_order (changes s)) w))"
    "set fs \<subseteq> set (changes s)" "distinct (map ch_id fs)"
    using apply_fold_remaining [of "apply_order (changes s)" "\<lparr>save_ctx = \<lparr>world = w, tempIdMap = []\<rparr>, save_ok = 0, save_failed = 0, save_remaining = []\<rparr>"]
    by (auto simp: apply_loop_def)
  then have "map ch_id (save_remaining (apply_loop (apply_order (changes s)) w)) = map ch_id fs"
    "distinct (map ch_id fs)" "set (map ch_id fs) \<subseteq> set (map ch_id (changes s))"
    by (auto simp: failed_hook_ids)
  then show ?thesis
    using assms False by (auto simp: applyAll_result Let_def apply_finish_def staged_wf_def all_ids_def)
qed

lemma staged_step_wf_ids:
  assumes "staged_wf s" and "set (staged_id e) \<inter> set (all_ids s) = {}"
  shows "staged_wf (snd (staged_step e (w, s)))
    \<and> set (all_ids (snd (staged_step e (w, s)))) \<subseteq> set (all_ids s) \<union> set (staged_id e)"
  using assms stage_wf stage_ids stageOrReplace_wf stageOrReplace_ids discard_wf_ids undo_wf_ids redo_wf_ids applyAll_wf_ids
proof (cases e)
  case DiscardAll
  then show ?thesis by (simp add: discardAll_def staged_wf_def all_ids_def)
next
  case OpenReviewPanel
  then show ?thesis using assms by (simp add: openReviewPanel_def staged_wf_def all_ids_def)
next
  case CloseReviewPanel
  then show ?thesis using assms by (simp add: closeReviewPanel_def staged_wf_def all_ids_def)
qed (simp_all, blast+)

lemma staged_run_wf:
  assumes "staged_wf s" and "distinct (concat (map staged_id es))"
    and "set (concat (map staged_id es)) \<inter> set (all_ids s) = {}"
  shows "staged_wf (snd (run staged_step es (w, s)))"
  using assms
proof (induction es arbitrary: w s)
  case (Cons e es)
  obtain w' s' where step: "staged_step e (w, s) = (w', s')" by (cases "staged_step e (w, s)")
  have "staged_wf s'" and "set (all_ids s') \<subseteq> set (all_ids s) \<union> set (staged_id e)"
    using staged_step_wf_ids [of s e w] Cons.prems by (auto simp: step)
  then have "staged_wf (snd (run staged_step es (w', s')))"
    using Cons.prems by (intro Cons.IH) auto
  then show ?case by (simp add: step)
qed simp

lemma filter_one: "distinct (map f xs) \<Longrightarrow> x \<in> set xs \<Longrightarrow> mset xs = add_mset x (mset (filter (\<lambda>y. f y \<noteq> f x) xs))"
  by (simp flip: remove1_filter [of f])

text \<open>
  as long as the generated ids are fresh, every history of staging, replacing, discarding, undoing,
  redoing and saving keeps the ids of staged and undone changes unique, so discarding by id
  removes exactly one change and puts exactly that change on the redo stack.
\<close>

theorem staged_changes_keep_identity:
  assumes "distinct (concat (map staged_id es))"
    and "run staged_step es (w, initial_staged) = (w', s)" and "c \<in> set (changes s)"
  shows "distinct (all_ids s)
    \<and> mset (changes s) = add_mset c (mset (changes (snd (discard (ch_id c) (w', s)))))
    \<and> redoStack (snd (discard (ch_id c) (w', s))) = redoStack s @ [c]
    \<and> fst (discard (ch_id c) (w', s)) = run_discard c w'"
proof -
  have wf: "distinct (all_ids s)"
    using staged_run_wf [of initial_staged es w] assms(1,2)
    by (simp add: staged_wf_def initial_staged_def all_ids_def)
  then have ids: "distinct (map ch_id (changes s))" by (simp add: all_ids_def)
  obtain d where d: "find_first (\<lambda>x. ch_id x = ch_id c) (changes s) = Some d"
    using assms(3) by (cases "find_first (\<lambda>x. ch_id x = ch_id c) (changes s)") (auto simp: find_first_None)
  then have "d = c" using find_first_Some [OF d] ids assms(3) by (auto simp: distinct_map dest: inj_onD)
  with d wf filter_one [OF ids assms(3)] show ?thesis by (simp add: discard_def)
qed

theorem staged_changes_keep_identity_witness:
  "mset (changes (snd (run staged_step
       [Stage ''a'' 1 \<lparr>in_type = Rename_entity, in_targetId = ''n'', in_targetUrn = None, in_before = None, in_after = JNull,
                      in_summary = [], in_apply = None, in_discard = Some Suc, in_error = None\<rparr>] (0, initial_staged))))
   = add_mset (new_change ''a'' 1 \<lparr>in_type = Rename_entity, in_targetId = ''n'', in_targetUrn = None, in_before = None,
       in_after = JNull, in_summary = [], in_apply = None, in_discard = Some Suc, in_error = None\<rparr>) {#}"
proof -
  let ?i = "\<lparr>in_type = Rename_entity, in_targetId = ''n'', in_targetUrn = None, in_before = None, in_after = JNull,
                      in_summary = [], in_apply = None, in_discard = Some Suc, in_error = None\<rparr>"
  let ?es = "[Stage ''a'' 1 ?i]"
  obtain w' s where run: "run staged_step ?es (0, initial_staged) = (w', s)" by (cases "run staged_step ?es (0, initial_staged)")
  then have s: "changes s = [new_change ''a'' 1 ?i]" by (auto simp: stage_def initial_staged_def)
  have "mset (changes s) = add_mset (new_change ''a'' 1 ?i)
      (mset (changes (snd (discard (ch_id (new_change ''a'' 1 ?i)) (w', s)))))"
    using staged_changes_keep_identity [OF _ run, of "new_change ''a'' 1 ?i"] by (simp add: s)
  then show ?thesis by (simp add: s discard_def new_change_def stage_def initial_staged_def)
qed

section \<open>Undoing the edits\<close>

text \<open>
  An edit changes the world and stages itself; \<open>fwd c\<close> is the effect of the change \<open>c\<close>. The events
  below leave the stack discipline of the changes intact, and what they stage can be undone.
\<close>

definition undoes :: "('w staged_change \<Rightarrow> 'w \<Rightarrow> 'w) \<Rightarrow> 'w staged_change \<Rightarrow> bool" where
  "undoes fwd c \<longleftrightarrow> (\<forall>w. run_discard c (fwd c w) = w)"

fun undoable_event :: "('w staged_change \<Rightarrow> 'w \<Rightarrow> 'w) \<Rightarrow> 'w staged_event \<Rightarrow> bool" where
  "undoable_event fwd (Stage cid now i) \<longleftrightarrow> undoes fwd (new_change cid now i)"
| "undoable_event fwd DiscardAll \<longleftrightarrow> True"
| "undoable_event fwd Undo \<longleftrightarrow> True"
| "undoable_event fwd OpenReviewPanel \<longleftrightarrow> True"
| "undoable_event fwd CloseReviewPanel \<longleftrightarrow> True"
| "undoable_event fwd e \<longleftrightarrow> False"

fun edit_step :: "('w staged_change \<Rightarrow> 'w \<Rightarrow> 'w) \<Rightarrow> 'w staged_event \<Rightarrow> 'w \<times> 'w staged \<Rightarrow> 'w \<times> 'w staged" where
  "edit_step fwd (Stage cid now i) (w, s) = staged_step (Stage cid now i) (fwd (new_change cid now i) w, s)"
| "edit_step fwd e ws = staged_step e ws"

definition edits_of :: "('w staged_change \<Rightarrow> 'w \<Rightarrow> 'w) \<Rightarrow> 'w \<Rightarrow> 'w \<times> 'w staged \<Rightarrow> bool" where
  "edits_of fwd w0 ws \<longleftrightarrow> fst ws = fold fwd (changes (snd ws)) w0 \<and> (\<forall>c \<in> set (changes (snd ws)). undoes fwd c)"

lemma discard_rev_fold:
  "\<forall>c \<in> set cs. undoes fwd c \<Longrightarrow> fold run_discard (rev cs) (fold fwd cs w) = w"
  by (induction cs arbitrary: w) (simp_all add: undoes_def)

lemma edit_step_edits:
  assumes "edits_of fwd w0 ws" and "undoable_event fwd e"
  shows "edits_of fwd w0 (edit_step fwd e ws)"
proof (cases ws)
  case (Pair w s)
  show ?thesis
  proof (cases e)
    case Undo
    with Pair assms show ?thesis
      by (cases "changes s" rule: rev_cases) (simp_all add: edits_of_def undo_def undoes_def Let_def)
  next
    case DiscardAll
    with Pair assms(1) discard_rev_fold [of "changes s" fwd w0] show ?thesis
      by (simp add: edits_of_def discardAll_def)
  qed (use assms Pair in \<open>auto simp: edits_of_def stage_def openReviewPanel_def closeReviewPanel_def\<close>)
qed

interpretation edits: step_system "edit_step fwd" "edits_of fwd w0" "undoable_event fwd"
  by unfold_locales (rule edit_step_edits)

text \<open>
  when every staged change's discard hook undoes the edit it belongs to, the canvas is at any time the
  result of the staged edits in their order, so discarding everything brings the original canvas
  back, however edits, undos, discards of everything and panel events were interleaved before.
\<close>

theorem discardAll_restores_canvas:
  assumes "\<And>e. e \<in> set es \<Longrightarrow> undoable_event fwd e"
  shows "fst (run (edit_step fwd) es (w0, initial_staged)) = fold fwd (changes (snd (run (edit_step fwd) es (w0, initial_staged)))) w0
    \<and> fst (discardAll (run (edit_step fwd) es (w0, initial_staged))) = w0"
proof -
  let ?ws = "run (edit_step fwd) es (w0, initial_staged)"
  have "edits_of fwd w0 ?ws"
    using edits.run_inv [of fwd w0 "(w0, initial_staged)" es] assms by (simp add: edits_of_def initial_staged_def)
  then have "fst ?ws = fold fwd (changes (snd ?ws)) w0" and "\<forall>c \<in> set (changes (snd ?ws)). undoes fwd c"
    by (simp_all add: edits_of_def)
  then show ?thesis
    using discard_rev_fold [of "changes (snd ?ws)" fwd w0] by (cases ?ws) (simp add: discardAll_def)
qed

text \<open>Two renames of a label, one of them undone: each hook puts the label before its own edit back.\<close>

definition rename_input :: "int \<Rightarrow> int change_input" where
  "rename_input d =
     \<lparr>in_type = Rename_entity, in_targetId = ''n'', in_targetUrn = None, in_before = None, in_after = JNum (of_int d),
      in_summary = [], in_apply = None, in_discard = Some (\<lambda>n. n - d), in_error = None\<rparr>"

definition rename_effect :: "int staged_change \<Rightarrow> int \<Rightarrow> int" where
  "rename_effect c n = (case ch_after c of JNum d \<Rightarrow> n + \<lfloor>d\<rfloor> | _ \<Rightarrow> n)"

theorem discardAll_restores_canvas_witness:
  "fst (discardAll (run (edit_step rename_effect)
     [Stage ''a'' 1 (rename_input 4), Stage ''b'' 2 (rename_input 5), Undo, Stage ''c'' 3 (rename_input 6)]
     (100, initial_staged))) = 100"
  by (rule discardAll_restores_canvas [THEN conjunct2])
     (auto simp: undoes_def rename_input_def rename_effect_def new_change_def run_discard_def)

text \<open>Undo followed by redo restores the staging area (the canvas is left as undo left it).\<close>

lemma redo_undo:
  "changes s \<noteq> [] \<Longrightarrow> redo (snd (snd (undo (w, s)))) = (True, s)"
  by (simp add: undo_def redo_def Let_def)

lemma stage_clears_redo: "canRedo (snd (stage cid now i s)) = False"
  by (simp add: stage_def canRedo_def)

section \<open>Changes that a save overwrites\<close>

text \<open>
  The last write of \<open>applyAll\<close> replaces the list by what failed of its snapshot: whatever was staged while
  the save was waiting for the backend is gone, and a change discarded meanwhile is back when its
  hook fails.
\<close>

lemma save_overwrites_meanwhile:
  "changes (apply_finish r (snd (run staged_step es (w, snd (apply_begin s))))) = save_remaining r"
  by (simp add: apply_finish_def)

lemma staging_during_save_is_lost:
  "changes (apply_finish (apply_loop [] w) (snd (run staged_step [Stage cid now i] (w, snd (apply_begin initial_staged))))) = []"
  by (simp only: save_overwrites_meanwhile) (simp add: apply_loop_def)

section \<open>Counting\<close>

lemma fold_counts: "fold (\<lambda>c counts. counts(f c := Suc (counts (f c)))) cs g t = g t + length (filter (\<lambda>c. f c = t) cs)"
  by (induction cs arbitrary: g) simp_all

lemma countByType_filter: "countByType s t = length (filter (\<lambda>c. ch_type c = t) (changes s))"
  by (simp add: countByType_def fold_counts)

lemma hasChange_iff: "hasChange t s \<longleftrightarrow> getChangesForTarget t s \<noteq> []"
  by (induction "changes s") (auto simp: hasChange_def getChangesForTarget_def list_ex_iff filter_empty_conv)

end
