(* ===== verification/Containment_Map.thy ===== *)
theory Containment_Map
  imports Prelude
begin

text \<open>
  Parent maps (child id to parent id) and the walks the components make on them: the child lists built
  from the map, the breadth-first walk down with a visited set, which ends on every map, and the
  walk up along the parents, which ends only when the chain does. \<open>below pm a d\<close> says that \<open>d\<close> is a
  strict descendant of \<open>a\<close>.
\<close>

type_synonym parent_map = "(ident, ident) jsmap"

text \<open>\<^verbatim>\<open>childMap.get(p) ?? []\<close> for the child map filled by \<^verbatim>\<open>parentMap.forEach\<close>.\<close>

definition children_of :: "parent_map \<Rightarrow> ident \<Rightarrow> ident list" where
  "children_of pm p = map fst (filter (\<lambda>(c, q). q = p) pm)"

inductive below :: "parent_map \<Rightarrow> ident \<Rightarrow> ident \<Rightarrow> bool" for pm where
  child: "mget pm d = Some a \<Longrightarrow> below pm a d"
| deeper: "mget pm d = Some p \<Longrightarrow> below pm a p \<Longrightarrow> below pm a d"

inductive_cases belowE: "below pm a d"

lemma children_of_keys: "set (children_of pm p) \<subseteq> set (map fst pm)"
  by (auto simp: children_of_def)

lemma children_of_iff: "jsm_ok pm \<Longrightarrow> c \<in> set (children_of pm p) \<longleftrightarrow> mget pm c = Some p"
  by (auto simp: children_of_def mget_iff_in_set image_iff split: prod.splits)

lemma below_trans: "below pm b d \<Longrightarrow> below pm a b \<Longrightarrow> below pm a d"
  by (induction rule: below.induct) (auto intro: below.intros)

lemma below_parent: "below pm a d \<Longrightarrow> mget pm d = Some p \<Longrightarrow> p = a \<or> below pm a p"
  by (auto elim: belowE)

section \<open>Walking down\<close>

function descend :: "parent_map \<Rightarrow> ident list \<Rightarrow> ident list \<Rightarrow> ident list" where
  "descend pm [] visited = visited"
| "descend pm (c # queue) visited =
     (if c \<in> set visited then descend pm queue visited
      else descend pm (queue @ children_of pm c) (visited @ [c]))"
  by pat_completeness auto

lemma walk_measure:
  assumes "c \<notin> set visited"
  shows "card ((set (map fst pm) \<union> set (queue @ children_of pm c)) - set (visited @ [c]))
    < card ((set (map fst pm) \<union> set (c # queue)) - set visited)"
proof (rule psubset_card_mono)
  show "(set (map fst pm) \<union> set (queue @ children_of pm c)) - set (visited @ [c])
      \<subset> (set (map fst pm) \<union> set (c # queue)) - set visited"
    using assms children_of_keys [of pm c] by auto
qed simp

lemma skip_measure:
  assumes "c \<in> set visited"
  shows "card ((set (map fst pm) \<union> set queue) - set visited) = card ((set (map fst pm) \<union> set (c # queue)) - set visited)"
  using assms by (intro arg_cong [where f = card]) auto

termination descend
  by (relation "(\<lambda>(pm, queue, visited). card ((set (map fst pm) \<union> set queue) - set visited)) <*mlex*> measure (\<lambda>(pm, queue, visited). length queue)")
     (auto simp: wf_mlex mlex_prod_def in_measure simp flip: skip_measure [simplified] intro: walk_measure [simplified])

lemma descend_sound:
  "jsm_ok pm \<Longrightarrow> set (descend pm queue visited) \<subseteq> set visited \<union> {d. \<exists>x \<in> set queue. d = x \<or> below pm x d}"
proof (induction pm queue visited rule: descend.induct)
  case (2 pm c queue visited)
  show ?case
  proof (cases "c \<in> set visited")
    case True
    with 2 show ?thesis by auto
  next
    case False
    have kids: "below pm c d" if "x \<in> set (children_of pm c)" and "d = x \<or> below pm x d" for x d
      using that "2.prems" by (auto simp: children_of_iff intro: below.child below_trans [OF _ below.child])
    show ?thesis
    proof
      fix d assume "d \<in> set (descend pm (c # queue) visited)"
      then have "d \<in> set (descend pm (queue @ children_of pm c) (visited @ [c]))" using False by simp
      then have "d \<in> set (visited @ [c]) \<or> (\<exists>x \<in> set (queue @ children_of pm c). d = x \<or> below pm x d)"
        using "2.IH"(2) [OF False "2.prems"] by (auto dest!: subsetD)
      then show "d \<in> set visited \<union> {d. \<exists>x \<in> set (c # queue). d = x \<or> below pm x d}"
        using kids by auto
    qed
  qed
qed simp

lemma descend_closed:
  "jsm_ok pm \<Longrightarrow> \<forall>x \<in> set visited. set (children_of pm x) \<subseteq> set visited \<union> set queue
    \<Longrightarrow> set visited \<union> set queue \<subseteq> set (descend pm queue visited)
      \<and> (\<forall>x \<in> set (descend pm queue visited). set (children_of pm x) \<subseteq> set (descend pm queue visited))"
proof (induction pm queue visited rule: descend.induct)
  case (2 pm c queue visited)
  show ?case
  proof (cases "c \<in> set visited")
    case True
    with 2 show ?thesis by auto
  next
    case False
    have "\<forall>x \<in> set (visited @ [c]). set (children_of pm x) \<subseteq> set (visited @ [c]) \<union> set (queue @ children_of pm c)"
      using "2.prems"(2) by auto
    with "2.IH"(2) [OF False "2.prems"(1)] False show ?thesis by auto
  qed
qed auto

lemma descend_distinct: "distinct visited \<Longrightarrow> distinct (descend pm queue visited)"
  by (induction pm queue visited rule: descend.induct) auto

lemma below_closed:
  assumes "below pm a d" and "jsm_ok pm" and "\<forall>x \<in> R. set (children_of pm x) \<subseteq> R" and "set (children_of pm a) \<subseteq> R"
  shows "d \<in> R"
  using assms by (induction rule: below.induct) (auto simp: children_of_iff subset_iff)

text \<open>The walk from the children of \<open>a\<close> visits exactly the strict descendants of \<open>a\<close>, also on cyclic maps.\<close>

theorem descend_children:
  assumes "jsm_ok pm"
  shows "set (descend pm (children_of pm a) []) = {d. below pm a d}"
proof
  show "set (descend pm (children_of pm a) []) \<subseteq> {d. below pm a d}"
    using descend_sound [OF assms, of "children_of pm a" "[]"] assms
    by (auto simp: children_of_iff dest!: subsetD intro: below.child below_trans [OF _ below.child])
  show "{d. below pm a d} \<subseteq> set (descend pm (children_of pm a) [])"
    using descend_closed [OF assms, of "[]" "children_of pm a"] below_closed [OF _ assms] by auto
qed

text \<open>The same walk cut short at the first child that satisfies a test.\<close>

function search_down :: "parent_map \<Rightarrow> (ident \<Rightarrow> bool) \<Rightarrow> ident list \<Rightarrow> ident list \<Rightarrow> ident option" where
  "search_down pm P [] visited = None"
| "search_down pm P (c # queue) visited =
     (if c \<in> set visited then search_down pm P queue visited
      else (case find_first P (children_of pm c) of
              Some d \<Rightarrow> Some d
            | None \<Rightarrow> search_down pm P (queue @ children_of pm c) (visited @ [c])))"
  by pat_completeness auto

termination search_down
  by (relation "(\<lambda>(pm, P, queue, visited). card ((set (map fst pm) \<union> set queue) - set visited)) <*mlex*> measure (\<lambda>(pm, P, queue, visited). length queue)")
     (auto simp: wf_mlex mlex_prod_def in_measure simp flip: skip_measure [simplified] intro: walk_measure [simplified])

lemma search_down_Some:
  "jsm_ok pm \<Longrightarrow> search_down pm P queue visited = Some d
    \<Longrightarrow> P d \<and> (\<exists>x \<in> set queue. below pm x d)"
proof (induction pm P queue visited rule: search_down.induct)
  case (2 pm P c queue visited)
  show ?case
  proof (cases "c \<in> set visited")
    case True
    with 2 show ?thesis by auto
  next
    case False
    show ?thesis
    proof (cases "find_first P (children_of pm c)")
      case None
      with False 2 have "P d \<and> (\<exists>x \<in> set (queue @ children_of pm c). below pm x d)" by simp
      with "2.prems"(1) show ?thesis by (auto simp: children_of_iff intro: below_trans [OF _ below.child])
    next
      case (Some e)
      with False 2 find_first_Some [OF Some] show ?thesis
        by (auto simp: children_of_iff intro: below.intros)
    qed
  qed
qed simp

lemma search_down_None:
  "search_down pm P queue visited = None
    \<Longrightarrow> \<forall>x \<in> set visited. \<forall>d \<in> set (children_of pm x). \<not> P d
    \<Longrightarrow> \<forall>x \<in> set (descend pm queue visited). \<forall>d \<in> set (children_of pm x). \<not> P d"
proof (induction pm P queue visited rule: search_down.induct)
  case (2 pm P c queue visited)
  show ?case
  proof (cases "c \<in> set visited")
    case True
    with 2 show ?thesis by simp
  next
    case False
    with "2.prems"(1) have none: "find_first P (children_of pm c) = None" by (auto split: option.splits)
    then have "\<forall>x \<in> set (visited @ [c]). \<forall>d \<in> set (children_of pm x). \<not> P d"
      using "2.prems"(2) by (auto simp: find_first_None)
    with "2.IH"(2) [OF False none] "2.prems"(1) False none show ?thesis by simp
  qed
qed simp

section \<open>Walking up\<close>

text \<open>\<open>Some r\<close>: the loop has ended with \<open>r\<close>; \<open>None\<close>: it does not end.\<close>

partial_function (option) walk_up :: "parent_map \<Rightarrow> (ident \<Rightarrow> bool) \<Rightarrow> ident \<Rightarrow> ident option option" where
  "walk_up pm P c =
     (case mget pm c of
        None \<Rightarrow> Some None
      | Some p \<Rightarrow> if P p then Some (Some p) else walk_up pm P p)"

declare walk_up.simps [code]

lemma walk_up_induct [consumes 1, case_names walk]:
  assumes "walk_up pm P c = Some r"
    and "\<And>walk pm P c r. (\<And>pm P c y. walk pm P c = Some y \<Longrightarrow> Q pm P c y) \<Longrightarrow>
      (case mget pm c of None \<Rightarrow> Some None | Some p \<Rightarrow> if P p then Some (Some p) else walk pm P p) = Some r
      \<Longrightarrow> Q pm P c r"
  shows "Q pm P c r"
  using assms(1)
  by (rule walk_up.raw_induct [of "\<lambda>((pm, P), c) r. Q pm P c r", unfolded prod.case, rotated]) (rule assms(2))

lemma walk_up_Some:
  assumes "walk_up pm P c = Some (Some a)"
  shows "P a \<and> below pm a c"
proof -
  have "\<forall>a. r = Some a \<longrightarrow> P a \<and> below pm a c" if "walk_up pm P c = Some r" for r
    using that
  proof (induction rule: walk_up_induct)
    case (walk walk pm P c r)
    from walk(2) show ?case by (auto split: option.splits if_splits dest: walk(1) intro: below.intros)
  qed
  with assms show ?thesis by blast
qed

lemma walk_up_None:
  assumes "walk_up pm P c = Some None" and "below pm a c"
  shows "\<not> P a"
proof -
  have "r = None \<longrightarrow> (\<forall>a. below pm a c \<longrightarrow> \<not> P a)" if "walk_up pm P c = Some r" for r
    using that
  proof (induction rule: walk_up_induct)
    case (walk walk pm P c r)
    show ?case
    proof (intro impI allI)
      fix a assume none: "r = None" and below: "below pm a c"
      then obtain p where p: "mget pm c = Some p" by (auto elim: belowE)
      with walk(2) none have "\<not> P p" and up: "walk pm P p = Some None" by (auto split: if_splits)
      with walk(1) [OF up] below_parent [OF below p] show "\<not> P a" by auto
    qed
  qed
  with assms show ?thesis by blast
qed

text \<open>A rank that grows from parent to child keeps the chain finite.\<close>

definition ranked :: "(ident \<Rightarrow> nat) \<Rightarrow> parent_map \<Rightarrow> bool" where
  "ranked rank pm \<longleftrightarrow> (\<forall>c p. mget pm c = Some p \<longrightarrow> rank p < rank c)"

lemma walk_up_terminates:
  assumes "ranked rank pm"
  shows "\<exists>r. walk_up pm P c = Some r"
proof (induction "rank c" arbitrary: c rule: less_induct)
  case less
  show ?case
  proof (cases "mget pm c")
    case None
    then show ?thesis by (simp add: walk_up.simps [of pm P c])
  next
    case (Some p)
    then have "rank p < rank c" using assms by (simp add: ranked_def)
    with less Some show ?thesis by (auto simp: walk_up.simps [of pm P c])
  qed
qed

text \<open>On a cycle that never passes the test the loop does not end.\<close>

lemma walk_up_cycle:
  assumes "\<forall>c \<in> C. \<exists>p \<in> C. mget pm c = Some p" and "\<forall>c \<in> C. \<not> P c" and "c \<in> C"
  shows "walk_up pm P c = None"
proof -
  have "c' \<notin> C" if "walk_up pm' P' c' = Some r" "pm' = pm" "P' = P" for pm' P' c' r
    using that
  proof (induction rule: walk_up_induct)
    case (walk walk pm' P' c' r)
    show ?case
    proof
      assume here: "c' \<in> C"
      with assms(1) obtain p where "p \<in> C" "mget pm c' = Some p" by auto
      with walk assms(2) show False by (auto split: if_splits)
    qed
  qed
  with assms(3) show ?thesis by (cases "walk_up pm P c") blast+
qed

text \<open>The search from \<open>a\<close> fails exactly when no strict descendant passes the test.\<close>

lemma search_down_single:
  assumes "jsm_ok pm"
  shows "search_down pm P [a] [] = None \<longleftrightarrow> (\<forall>d. below pm a d \<longrightarrow> \<not> P d)"
proof
  assume none: "search_down pm P [a] [] = None"
  let ?R = "set (descend pm [a] [])"
  have R: "a \<in> ?R" "\<forall>x \<in> ?R. set (children_of pm x) \<subseteq> ?R"
    using descend_closed [OF assms, of "[]" "[a]"] by simp_all
  have "\<forall>x \<in> ?R. \<forall>d \<in> set (children_of pm x). \<not> P d" using search_down_None [OF none] by simp
  moreover have "\<exists>x \<in> ?R. d \<in> set (children_of pm x)" if d: "below pm a d" for d
  proof -
    consider (top) "mget pm d = Some a" | (deep) p where "mget pm d = Some p" "below pm a p"
      using d by (auto elim: belowE)
    then show ?thesis
    proof cases
    case top
    then show ?thesis using R(1) assms by (auto simp: children_of_iff)
  next
    case deep
    then have "p \<in> ?R" using below_closed [OF _ assms R(2)] R by blast
    with deep assms show ?thesis by (auto simp: children_of_iff)
  qed
  qed
  ultimately show "\<forall>d. below pm a d \<longrightarrow> \<not> P d" by blast
next
  assume "\<forall>d. below pm a d \<longrightarrow> \<not> P d"
  then show "search_down pm P [a] [] = None"
    using search_down_Some [OF assms, of P "[a]" "[]"] by (cases "search_down pm P [a] []") auto
qed

end
