(* ===== verification/Js_String.thy ===== *)
theory Js_String
  imports Prelude
begin

text \<open>
  The string methods of JavaScript the program uses: \<^verbatim>\<open>startsWith\<close>, \<^verbatim>\<open>endsWith\<close>, \<^verbatim>\<open>includes\<close>, \<^verbatim>\<open>trim\<close>
  and \<^verbatim>\<open>split\<close> at one character.
\<close>

definition is_prefix :: "string \<Rightarrow> string \<Rightarrow> bool" where
  "is_prefix p s \<longleftrightarrow> take (length p) s = p"

definition is_suffix :: "string \<Rightarrow> string \<Rightarrow> bool" where
  "is_suffix p s \<longleftrightarrow> is_prefix (rev p) (rev s)"

fun is_infix :: "string \<Rightarrow> string \<Rightarrow> bool" where
  "is_infix p [] \<longleftrightarrow> p = []"
| "is_infix p (c # s) \<longleftrightarrow> is_prefix p (c # s) \<or> is_infix p s"

text \<open>The white space of \<^verbatim>\<open>trim\<close> among the characters of the model.\<close>

definition is_space :: "char \<Rightarrow> bool" where
  "is_space c \<longleftrightarrow> (let n = (of_char c :: nat) in 9 \<le> n \<and> n \<le> 13 \<or> n = 32 \<or> n = 160)"

definition trim :: "string \<Rightarrow> string" where
  "trim s = rev (dropWhile is_space (rev (dropWhile is_space s)))"

fun split_on :: "char \<Rightarrow> string \<Rightarrow> string list" where
  "split_on d [] = [[]]"
| "split_on d (c # s) =
     (if c = d then [] # split_on d s
      else (case split_on d s of [] \<Rightarrow> [[c]] | w # ws \<Rightarrow> (c # w) # ws))"

text \<open>A number in a template string.\<close>

fun dec_of_nat :: "nat \<Rightarrow> string" where
  "dec_of_nat n = (if n < 10 then [char_of (48 + n)] else dec_of_nat (n div 10) @ [char_of (48 + n mod 10)])"

declare dec_of_nat.simps [simp del]

definition dec_of_int :: "int \<Rightarrow> string" where
  "dec_of_int i = (if i < 0 then CHR ''-'' # dec_of_nat (nat (- i)) else dec_of_nat (nat i))"

lemma is_prefix_iff: "is_prefix p s \<longleftrightarrow> (\<exists>r. s = p @ r)"
  by (auto simp: is_prefix_def) (metis append_take_drop_id)

lemma is_infix_iff: "is_infix p s \<longleftrightarrow> (\<exists>l r. s = l @ p @ r)"
proof (induction s)
  case (Cons c s)
  note IH = this
  show ?case
  proof
    assume "is_infix p (c # s)"
    then show "\<exists>l r. c # s = l @ p @ r" using Cons by (auto simp: is_prefix_iff) (metis append_Nil | metis append_Cons)+
  next
    assume "\<exists>l r. c # s = l @ p @ r"
    then obtain l r where lr: "c # s = l @ p @ r" by blast
    show "is_infix p (c # s)"
    proof (cases l)
      case Nil
      with lr have "is_prefix p (c # s)" unfolding is_prefix_iff by (metis append_Nil)
      then show ?thesis by simp
    next
      case (Cons c' l')
      with lr have "\<exists>l r. s = l @ p @ r" by auto
      with IH show ?thesis by simp
    qed
  qed
qed simp

lemma is_suffix_iff: "is_suffix p s \<longleftrightarrow> (\<exists>l. s = l @ p)"
proof -
  have "is_suffix p s \<longleftrightarrow> (\<exists>r. rev s = rev p @ r)" by (simp add: is_suffix_def is_prefix_iff)
  also have "\<dots> \<longleftrightarrow> (\<exists>l. s = l @ p)" by (metis rev_append rev_rev_ident)
  finally show ?thesis .
qed

text \<open>The pieces of a split hold no separator, and joining them with it gives the string back.\<close>

fun join_with :: "char \<Rightarrow> string list \<Rightarrow> string" where
  "join_with d [] = []"
| "join_with d [w] = w"
| "join_with d (w # w' # ws) = w @ d # join_with d (w' # ws)"

lemma split_on_nonempty: "split_on d s \<noteq> []"
  by (cases "(d, s)" rule: split_on.cases) (auto split: list.splits)

lemma join_split: "join_with d (split_on d s) = s"
proof (induction d s rule: split_on.induct)
  case (2 d c s)
  obtain w ws where split: "split_on d s = w # ws" using split_on_nonempty [of d s] by (cases "split_on d s") auto
  show ?case using 2 split by (cases ws) auto
qed simp

lemma split_on_pieces: "w \<in> set (split_on d s) \<Longrightarrow> d \<notin> set w"
  by (induction d s arbitrary: w rule: split_on.induct) (auto split: list.splits if_splits)

lemma split_on_free: "d \<notin> set s \<Longrightarrow> split_on d s = [s]"
  by (induction s) auto

lemma split_on_join: "d \<notin> set w \<Longrightarrow> split_on d (w @ d # s) = w # split_on d s"
  by (induction w) auto

end
