(* ===== verification/Layer_Rules.thy ===== *)
theory Layer_Rules
  imports Graph_Model Js_String
begin

text \<open>
  The layer rules of \<^verbatim>\<open>providers/GraphDataProvider.ts\<close> (\<open>evaluateCondition\<close>, \<open>matchesRule\<close>,
  \<open>resolveLayerAssignment\<close>, \<open>resolveLogicalAssignment\<close>). The regular expression engine is a parameter:
  \<open>rx p\<close> is what \<^verbatim>\<open>new RegExp(p)\<close> gives, \<open>None\<close> when it throws (an invalid pattern), otherwise its \<^verbatim>\<open>test\<close>.
  A result \<open>None\<close> of the operations below is that exception.
\<close>

section \<open>Nodes and rules\<close>

record graph_node =
  gn_urn :: urn
  gn_entityType :: string
  gn_displayName :: string
  gn_tags :: "string list option"
  gn_properties :: jsobj

datatype operator = Equals | NotEquals | Contains | StartsWith | EndsWith | Exists

record condition =
  cond_field :: string
  cond_operator :: operator
  cond_value :: "json option"

record property_match =
  pm_field :: string
  pm_operator :: "operator option"
  pm_value :: "json option"

record rule_config =
  rule_id :: string
  rule_entityTypes :: "string list option"
  rule_tags :: "string list option"
  rule_urnPattern :: "string option"
  rule_propertyMatch :: "property_match option"
  rule_conditions :: "condition list option"
  rule_priority :: rat
  rule_inheritsFromParent :: "bool option"

record layer_rule = rule_config +
  rule_layerId :: ident

datatype logical_node =
  Logical_Node (ln_id: ident) (ln_name: string) (ln_type: string) (ln_children: "logical_node list option") (ln_rules: "rule_config list option")

type_synonym regex_engine = "string \<Rightarrow> (string \<Rightarrow> bool) option"

section \<open>Conditions\<close>

text \<open>\<^verbatim>\<open>a === b\<close> on values that come out of JSON: two arrays or objects are never the same object.\<close>

fun strict_eq :: "json option \<Rightarrow> json option \<Rightarrow> bool" where
  "strict_eq (Some (JArr _)) _ = False"
| "strict_eq (Some (JObj _)) _ = False"
| "strict_eq x y = (x = y)"

definition actual_value :: "graph_node \<Rightarrow> string \<Rightarrow> json option" where
  "actual_value node field =
     (case mget (gn_properties node) field of
        Some v \<Rightarrow> Some v
      | None \<Rightarrow>
          if field = ''name'' then Some (JStr (gn_displayName node))
          else if field = ''type'' then Some (JStr (gn_entityType node))
          else if field = ''urn'' then Some (JStr (gn_urn node))
          else None)"

definition on_strings :: "(string \<Rightarrow> string \<Rightarrow> bool) \<Rightarrow> json option \<Rightarrow> json option \<Rightarrow> bool" where
  "on_strings P target actual =
     (case (target, actual) of
        (Some (JStr t), Some (JStr a)) \<Rightarrow> P (toLowerCase t) (toLowerCase a)
      | _ \<Rightarrow> False)"

definition evaluateCondition :: "graph_node \<Rightarrow> string \<Rightarrow> operator \<Rightarrow> json option \<Rightarrow> bool" where
  "evaluateCondition node field op target =
     (let actual = actual_value node field
      in case op of
           Exists \<Rightarrow> actual \<noteq> None \<and> actual \<noteq> Some JNull
         | Contains \<Rightarrow>
             on_strings is_infix target actual
               \<or> (case actual of Some (JArr xs) \<Rightarrow> list_ex (\<lambda>x. strict_eq (Some x) target) xs | _ \<Rightarrow> False)
         | StartsWith \<Rightarrow> on_strings is_prefix target actual
         | EndsWith \<Rightarrow> on_strings is_suffix target actual
         | NotEquals \<Rightarrow> \<not> strict_eq actual target
         | Equals \<Rightarrow> strict_eq actual target)"

section \<open>Rules\<close>

text \<open>\<^verbatim>\<open>rule.urnPattern.replace(/\*/g, '.*')\<close>\<close>

definition pattern_source :: "string \<Rightarrow> string" where
  "pattern_source p = concat (map (\<lambda>c. if c = CHR ''*'' then ''.*'' else [c]) p)"

definition nonempty :: "'a list option \<Rightarrow> bool" where
  "nonempty xs \<longleftrightarrow> (case xs of None \<Rightarrow> False | Some ys \<Rightarrow> ys \<noteq> [])"

definition type_ok :: "graph_node \<Rightarrow> 'z rule_config_scheme \<Rightarrow> bool" where
  "type_ok node rule \<longleftrightarrow>
     (nonempty (rule_entityTypes rule) \<longrightarrow> gn_entityType node \<in> set (the (rule_entityTypes rule)))"

definition tags_ok :: "graph_node \<Rightarrow> 'z rule_config_scheme \<Rightarrow> bool" where
  "tags_ok node rule \<longleftrightarrow>
     (nonempty (rule_tags rule) \<longrightarrow>
        (case gn_tags node of None \<Rightarrow> False | Some ts \<Rightarrow> list_ex (\<lambda>t. t \<in> set (the (rule_tags rule))) ts))"

definition urn_ok :: "regex_engine \<Rightarrow> graph_node \<Rightarrow> 'z rule_config_scheme \<Rightarrow> bool option" where
  "urn_ok rx node rule =
     (if truthy (rule_urnPattern rule)
      then map_option (\<lambda>test. test (gn_urn node)) (rx (pattern_source (the (rule_urnPattern rule))))
      else Some True)"

definition properties_ok :: "graph_node \<Rightarrow> 'z rule_config_scheme \<Rightarrow> bool" where
  "properties_ok node rule \<longleftrightarrow>
     (if nonempty (rule_conditions rule)
      then list_all (\<lambda>c. evaluateCondition node (cond_field c) (cond_operator c) (cond_value c)) (the (rule_conditions rule))
      else (case rule_propertyMatch rule of
              None \<Rightarrow> True
            | Some m \<Rightarrow> evaluateCondition node (pm_field m) (nullish (pm_operator m) Equals) (pm_value m)))"

definition matchesRule :: "regex_engine \<Rightarrow> graph_node \<Rightarrow> 'z rule_config_scheme \<Rightarrow> bool option" where
  "matchesRule rx node rule =
     (if \<not> type_ok node rule then Some False
      else if \<not> tags_ok node rule then Some False
      else (case urn_ok rx node rule of
              None \<Rightarrow> None
            | Some False \<Rightarrow> Some False
            | Some True \<Rightarrow> Some (properties_ok node rule)))"

text \<open>The loop over the rules in the order of descending priority; the sort is stable.\<close>

fun first_matching :: "regex_engine \<Rightarrow> graph_node \<Rightarrow> 'z rule_config_scheme list \<Rightarrow> 'z rule_config_scheme option option" where
  "first_matching rx node [] = Some None"
| "first_matching rx node (rule # rules) =
     (case matchesRule rx node rule of
        None \<Rightarrow> None
      | Some True \<Rightarrow> Some (Some rule)
      | Some False \<Rightarrow> first_matching rx node rules)"

definition by_priority :: "'z rule_config_scheme list \<Rightarrow> 'z rule_config_scheme list" where
  "by_priority rules = sort_key (\<lambda>r. - rule_priority r) rules"

definition resolveLayerAssignment :: "regex_engine \<Rightarrow> graph_node \<Rightarrow> layer_rule list \<Rightarrow> ident option option" where
  "resolveLayerAssignment rx node rules =
     map_option (map_option rule_layerId) (first_matching rx node (by_priority rules))"

fun resolveLogicalAssignment :: "regex_engine \<Rightarrow> graph_node \<Rightarrow> logical_node list \<Rightarrow> ident option option" where
  "resolveLogicalAssignment rx node [] = Some None"
| "resolveLogicalAssignment rx node (Logical_Node nid name ty children rules # rest) =
     (case (case children of None \<Rightarrow> Some None | Some cs \<Rightarrow> resolveLogicalAssignment rx node cs) of
        None \<Rightarrow> None
      | Some childMatch \<Rightarrow>
          if truthy childMatch then Some childMatch
          else (case first_matching rx node (by_priority (nullish rules [])) of
                  None \<Rightarrow> None
                | Some (Some _) \<Rightarrow> Some (Some nid)
                | Some None \<Rightarrow> resolveLogicalAssignment rx node rest))"

section \<open>The rule that wins\<close>

text \<open>\<open>matches\<close> when no pattern is invalid.\<close>

definition matches :: "regex_engine \<Rightarrow> graph_node \<Rightarrow> 'z rule_config_scheme \<Rightarrow> bool" where
  "matches rx node rule \<longleftrightarrow> matchesRule rx node rule = Some True"

definition valid_pattern :: "regex_engine \<Rightarrow> 'z rule_config_scheme \<Rightarrow> bool" where
  "valid_pattern rx rule \<longleftrightarrow> (truthy (rule_urnPattern rule) \<longrightarrow> rx (pattern_source (the (rule_urnPattern rule))) \<noteq> None)"

lemma matchesRule_valid: "valid_pattern rx rule \<Longrightarrow> matchesRule rx node rule = Some (matches rx node rule)"
  by (auto simp: matchesRule_def matches_def valid_pattern_def urn_ok_def split: option.splits bool.splits)

lemma matches_iff:
  "matches rx node rule \<longleftrightarrow> type_ok node rule \<and> tags_ok node rule \<and> urn_ok rx node rule = Some True \<and> properties_ok node rule"
  by (auto simp: matches_def matchesRule_def split: option.splits bool.splits)

lemma first_matching_valid:
  "\<forall>r \<in> set rules. valid_pattern rx r \<Longrightarrow> first_matching rx node rules = Some (find_first (matches rx node) rules)"
  by (induction rules) (auto simp: matchesRule_valid)

lemma find_first_filter: "find_first P xs = (case filter P xs of [] \<Rightarrow> None | x # _ \<Rightarrow> Some x)"
  by (induction xs) auto

text \<open>The first match in the sorted list is the first best match in the given order.\<close>

lemma hd_sort_key:
  fixes f :: "'a \<Rightarrow> 'b :: linorder"
  assumes "ys \<noteq> []"
  shows "Some (hd (sort_key f ys)) = find_first (\<lambda>y. \<forall>z \<in> set ys. f y \<le> f z) ys"
proof -
  obtain x xs where sorted: "sort_key f ys = x # xs"
    using assms by (metis list.exhaust length_0_conv length_sort)
  have "sorted (map f (x # xs))" by (metis sorted sorted_sort_key)
  then have "\<forall>z \<in> set (x # xs). f x \<le> f z" by auto
  then have min: "\<forall>z \<in> set ys. f x \<le> f z" by (metis sorted set_sort)
  have "(\<forall>z \<in> set ys. f y \<le> f z) \<longleftrightarrow> f y = f x" if "y \<in> set ys" for y
  proof -
    have "x \<in> set ys" by (metis sorted set_sort list.set_intros(1))
    with min that show ?thesis by (metis order_antisym_conv)
  qed
  then have "filter (\<lambda>y. \<forall>z \<in> set ys. f y \<le> f z) ys = filter (\<lambda>y. f y = f x) ys"
    by (intro filter_cong) auto
  also have "\<dots> = filter (\<lambda>y. f y = f x) (sort_key f ys)" by (simp add: sort_key_stable)
  also have "\<dots> = x # filter (\<lambda>y. f y = f x) xs" by (simp add: sorted)
  finally show ?thesis by (simp add: find_first_filter sorted)
qed

lemma find_first_sort_key:
  fixes f :: "'a \<Rightarrow> 'b :: linorder"
  shows "find_first P (sort_key f xs) = find_first (\<lambda>x. P x \<and> (\<forall>z \<in> set xs. P z \<longrightarrow> f x \<le> f z)) xs"
proof (cases "filter P xs = []")
  case True
  then have "\<forall>x \<in> set xs. \<not> P x" by (simp add: filter_empty_conv)
  then show ?thesis by (simp add: find_first_None [THEN iffD2])
next
  case False
  then obtain y ys where split: "sort_key f (filter P xs) = y # ys"
    by (metis list.exhaust length_0_conv length_sort)
  have "find_first P (sort_key f xs) = Some (hd (sort_key f (filter P xs)))"
    by (simp add: find_first_filter filter_sort split)
  also have "\<dots> = find_first (\<lambda>y. \<forall>z \<in> set (filter P xs). f y \<le> f z) (filter P xs)"
    using False by (rule hd_sort_key)
  also have "\<dots> = find_first (\<lambda>x. P x \<and> (\<forall>z \<in> set xs. P z \<longrightarrow> f x \<le> f z)) xs"
  proof -
    have "(\<lambda>x. P x \<and> (\<forall>z \<in> set (filter P xs). f x \<le> f z)) = (\<lambda>x. P x \<and> (\<forall>z \<in> set xs. P z \<longrightarrow> f x \<le> f z))"
      by auto
    then show ?thesis by (simp only: find_first_filter filter_filter conj_commute)
  qed
  finally show ?thesis .
qed

text \<open>
  C19: with valid patterns a node gets the layer of the first rule, in the order they are configured, that
  matches and has the highest priority among the matching rules; it gets no layer exactly when no
  rule matches.
\<close>

theorem resolveLayerAssignment_picks_best_rule:
  assumes "\<forall>r \<in> set rules. valid_pattern rx r"
  shows "resolveLayerAssignment rx node rules
    = Some (map_option rule_layerId
        (find_first (\<lambda>r. matches rx node r \<and> (\<forall>q \<in> set rules. matches rx node q \<longrightarrow> rule_priority q \<le> rule_priority r)) rules))"
proof -
  have "\<forall>r \<in> set (by_priority rules). valid_pattern rx r" using assms by (simp add: by_priority_def)
  then show ?thesis
    by (simp add: resolveLayerAssignment_def first_matching_valid) (simp add: by_priority_def find_first_sort_key)
qed

text \<open>An engine for patterns of literal characters, \<^verbatim>\<open>.\<close> and \<^verbatim>\<open>.*\<close>, to run the rules on.\<close>

function glob_here :: "string \<Rightarrow> string \<Rightarrow> bool" where
  "glob_here p s =
     (case p of
        [] \<Rightarrow> True
      | c # q \<Rightarrow>
          if c = CHR ''.'' \<and> q \<noteq> [] \<and> hd q = CHR ''*''
          then (if s = [] then glob_here (tl q) s else glob_here (tl q) s \<or> glob_here p (tl s))
          else (if s = [] then False else (c = CHR ''.'' \<or> c = hd s) \<and> glob_here q (tl s)))"
  by pat_completeness auto
termination
  by (relation "measure (\<lambda>(p, s). length p + length s)") (auto simp: neq_Nil_conv)

definition glob_search :: "string \<Rightarrow> string \<Rightarrow> bool" where
  "glob_search p s = list_ex (\<lambda>n. glob_here p (drop n s)) [0..<Suc (length s)]"

definition glob_engine :: regex_engine where
  "glob_engine p = Some (glob_search p)"

definition type_rule :: "string \<Rightarrow> string \<Rightarrow> rat \<Rightarrow> ident \<Rightarrow> layer_rule" where
  "type_rule rid pattern prio layer =
     \<lparr>rule_id = rid, rule_entityTypes = Some [''table''], rule_tags = None, rule_urnPattern = Some pattern,
      rule_propertyMatch = None, rule_conditions = None, rule_priority = prio, rule_inheritsFromParent = None,
      rule_layerId = layer\<rparr>"

theorem resolveLayerAssignment_picks_best_rule_witness:
  "resolveLayerAssignment glob_engine
     \<lparr>gn_urn = ''urn:sales'', gn_entityType = ''table'', gn_displayName = ''sales'', gn_tags = None, gn_properties = []\<rparr>
     [type_rule ''r1'' ''urn:*'' 10 ''raw'', type_rule ''r2'' ''*sales'' 20 ''mart'', type_rule ''r3'' ''*'' 20 ''other'']
   = Some (Some ''mart'')"
proof -
  let ?n = "\<lparr>gn_urn = ''urn:sales'', gn_entityType = ''table'', gn_displayName = ''sales'', gn_tags = None, gn_properties = []\<rparr>"
  let ?rs = "[type_rule ''r1'' ''urn:*'' 10 ''raw'', type_rule ''r2'' ''*sales'' 20 ''mart'', type_rule ''r3'' ''*'' 20 ''other'']"
  have valid: "\<forall>r \<in> set ?rs. valid_pattern glob_engine r"
    by (simp add: valid_pattern_def glob_engine_def)
  have "matches glob_engine ?n (type_rule ''r2'' ''*sales'' 20 ''mart'')" by code_simp
  then show ?thesis
    by (subst resolveLayerAssignment_picks_best_rule [OF valid]) (simp add: type_rule_def)
qed

section \<open>The logical node that wins\<close>

text \<open>The logical nodes of a forest, children before their parent.\<close>

fun postorder :: "logical_node list \<Rightarrow> logical_node list" where
  "postorder [] = []"
| "postorder (Logical_Node nid name ty children rules # rest) =
     (case children of None \<Rightarrow> [] | Some cs \<Rightarrow> postorder cs) @ Logical_Node nid name ty children rules # postorder rest"

definition claims :: "regex_engine \<Rightarrow> graph_node \<Rightarrow> logical_node \<Rightarrow> bool" where
  "claims rx node lnode \<longleftrightarrow> list_ex (matches rx node) (nullish (ln_rules lnode) [])"

definition valid_logical :: "regex_engine \<Rightarrow> logical_node \<Rightarrow> bool" where
  "valid_logical rx lnode \<longleftrightarrow> ln_id lnode \<noteq> '''' \<and> list_all (valid_pattern rx) (nullish (ln_rules lnode) [])"

lemma find_first_append': "find_first P (xs @ ys) = (case find_first P xs of None \<Rightarrow> find_first P ys | Some x \<Rightarrow> Some x)"
  by (induction xs) auto

lemma first_matching_by_priority:
  assumes "list_all (valid_pattern rx) rules"
  shows "\<exists>m. first_matching rx node (by_priority rules) = Some m \<and> (m \<noteq> None \<longleftrightarrow> list_ex (matches rx node) rules)"
proof -
  have "\<forall>r \<in> set (by_priority rules). valid_pattern rx r" using assms by (simp add: by_priority_def list_all_iff)
  then have "first_matching rx node (by_priority rules) = Some (find_first (matches rx node) (by_priority rules))"
    by (rule first_matching_valid)
  moreover have "find_first (matches rx node) (by_priority rules) \<noteq> None \<longleftrightarrow> list_ex (matches rx node) rules"
    by (simp only: find_first_None) (auto simp: by_priority_def list_ex_iff)
  ultimately show ?thesis by blast
qed

text \<open>
  with valid patterns and non-empty ids the recursive search is the search for the first logical node
  with a matching rule in post-order: the most specific node wins over its ancestors, earlier
  siblings over later ones.
\<close>

theorem resolveLogicalAssignment_is_postorder_search:
  assumes "\<forall>lnode \<in> set (postorder lns). valid_logical rx lnode"
  shows "resolveLogicalAssignment rx node lns = Some (map_option ln_id (find_first (claims rx node) (postorder lns)))"
  using assms
proof (induction rx node lns rule: resolveLogicalAssignment.induct)
  case (2 rx node nid name ty children rules rest)
  let ?kids = "find_first (claims rx node) (case children of None \<Rightarrow> [] | Some cs \<Rightarrow> postorder cs)"
  have kids: "(case children of None \<Rightarrow> Some None | Some cs \<Rightarrow> resolveLogicalAssignment rx node cs) = Some (map_option ln_id ?kids)"
    using 2 by (cases children) auto
  have truthy_kids: "truthy (map_option ln_id ?kids) \<longleftrightarrow> ?kids \<noteq> None"
    using "2.prems" by (cases ?kids) (auto simp: valid_logical_def dest!: find_first_Some)
  obtain m where m: "first_matching rx node (by_priority (nullish rules [])) = Some m"
    "m \<noteq> None \<longleftrightarrow> claims rx node (Logical_Node nid name ty children rules)"
    using first_matching_by_priority [of rx "nullish rules []" node] "2.prems" by (auto simp: valid_logical_def claims_def)
  show ?case
  proof (cases "?kids = None")
    case False
    then show ?thesis using kids truthy_kids by (auto simp: find_first_append')
  next
    case no_kids: True
    have rest: "resolveLogicalAssignment rx node rest = Some (map_option ln_id (find_first (claims rx node) (postorder rest)))"
      if "m = None"
      using "2.IH"(2) kids no_kids m(1) that "2.prems" by simp
    show ?thesis
      using kids no_kids m rest by (cases m) (simp_all add: find_first_append')
  qed
qed simp

theorem resolveLogicalAssignment_is_postorder_search_witness:
  "resolveLogicalAssignment glob_engine
     \<lparr>gn_urn = ''urn:sales'', gn_entityType = ''table'', gn_displayName = ''sales'', gn_tags = None, gn_properties = []\<rparr>
     [Logical_Node ''platform'' ''Platform'' ''system'' (Some [Logical_Node ''payments'' ''Payments'' ''group'' None
          (Some [rule_config.truncate (type_rule ''r'' ''*sales'' 1 [])])])
        (Some [rule_config.truncate (type_rule ''q'' ''*'' 9 [])])]
   = Some (Some ''payments'')"
proof -
  let ?n = "\<lparr>gn_urn = ''urn:sales'', gn_entityType = ''table'', gn_displayName = ''sales'', gn_tags = None, gn_properties = []\<rparr>"
  let ?pay = "Logical_Node ''payments'' ''Payments'' ''group'' None (Some [rule_config.truncate (type_rule ''r'' ''*sales'' 1 [])])"
  let ?lns = "[Logical_Node ''platform'' ''Platform'' ''system'' (Some [?pay]) (Some [rule_config.truncate (type_rule ''q'' ''*'' 9 [])])]"
  have valid: "\<forall>lnode \<in> set (postorder ?lns). valid_logical glob_engine lnode"
    by (simp add: valid_logical_def valid_pattern_def glob_engine_def)
  have "claims glob_engine ?n ?pay" by code_simp
  then show ?thesis
    by (subst resolveLogicalAssignment_is_postorder_search [OF valid]) simp
qed

text \<open>All criteria of a rule must hold, also criteria of different fields.\<close>

lemma criteria_are_conjunctive:
  "matches rx node rule \<Longrightarrow> nonempty (rule_entityTypes rule) \<Longrightarrow> gn_entityType node \<in> set (the (rule_entityTypes rule))"
  "matches rx node rule \<Longrightarrow> nonempty (rule_tags rule)
     \<Longrightarrow> \<exists>ts. gn_tags node = Some ts \<and> set ts \<inter> set (the (rule_tags rule)) \<noteq> {}"
  by (auto simp: matches_iff type_ok_def tags_ok_def list_ex_iff split: option.splits)

end
