(* ===== verification/Reference_Model.thy ===== *)
theory Reference_Model
  imports Step_System Containment_Map Layer_Rules
begin

text \<open>
  The reference model store of \<^verbatim>\<open>store/referenceModelStore.ts\<close>: layers, their order, the assignment of
  entities to layers, and the synchronisation with the backend. An action calls the store's \<^verbatim>\<open>set\<close>
  through the auto-dirty middleware; \<open>commit\<close> is that call, with the keys of the update. Times
  (\<^verbatim>\<open>new Date().toISOString()\<close>) and generated ids are arguments, the texts of conflict messages are left
  out, subscribers are numbers and what they are told is kept as a log.
\<close>

section \<open>State\<close>

datatype assigner = By_User | By_Rule | By_Inference

record assignment_config =
  ac_entityId :: ident
  ac_layerId :: ident
  ac_logicalNodeId :: "ident option"
  ac_inheritsChildren :: bool
  ac_priority :: int
  ac_assignedBy :: "assigner option"
  ac_assignedAt :: "string option"

record assignment =
  as_entityId :: ident
  as_layerId :: ident
  as_logicalNodeId :: "ident option"
  as_ruleId :: "string option"
  as_isInherited :: bool
  as_inheritedFromId :: "ident option"
  as_confidence :: rat

datatype conflict_type = Parent_assigned | Child_assigned | Circular | Containment_locked

record conflict =
  cf_entityId :: ident
  cf_conflictingEntityId :: ident
  cf_type :: conflict_type
  cf_conflictingLayerId :: ident

text \<open>The properties of a layer that no action reads are kept together as \<open>ly_rest\<close>.\<close>

record layer =
  ly_id :: ident
  ly_name :: string
  ly_color :: "string option"
  ly_entityTypes :: "string list"
  ly_order :: int
  ly_sequence :: "int option"
  ly_logicalNodes :: "logical_node list option"
  ly_rules :: "rule_config list option"
  ly_entityAssignments :: "assignment_config list option"
  ly_rest :: jsobj

datatype assignment_status = As_Idle | As_Loading | As_Success | As_Error
datatype sync_status = Synced | Dirty | Saving | Sync_Error

datatype layer_event =
    Layer_Added ident "layer list" "layer list"
  | Layer_Removed ident "layer list" "layer list"
  | Layer_Updated "ident option" "layer list" "layer list"
  | Layers_Reordered "layer list" "layer list"

record refmodel =
  layers :: "layer list"
  layerSequence :: "ident list"
  scopeFilter :: "json option"
  effectiveAssignments :: "(ident, assignment) jsmap"
  parentMap :: parent_map
  preservedEdges :: "json list"
  unassignedEntityIds :: "ident list"
  assignmentStatus :: assignment_status
  lastError :: "string option"
  lastComputeTimeMs :: int
  expandedNodeIds :: "ident set"
  instanceAssignments :: "(ident, assignment_config) jsmap"
  assignmentConflicts :: "conflict list"
  scopeEdgeConfig :: "json option"
  activeContextModelId :: "ident option"
  activeContextModelName :: "string option"
  syncStatus :: sync_status
  subscribers :: "nat list"
  notified :: "(nat \<times> layer_event) list"

definition initial_refmodel :: refmodel where
  "initial_refmodel =
     \<lparr>layers = [], layerSequence = [], scopeFilter = None, effectiveAssignments = [], parentMap = [],
      preservedEdges = [], unassignedEntityIds = [], assignmentStatus = As_Idle, lastError = None,
      lastComputeTimeMs = 0, expandedNodeIds = {}, instanceAssignments = [], assignmentConflicts = [],
      scopeEdgeConfig = None, activeContextModelId = None, activeContextModelName = None, syncStatus = Synced,
      subscribers = [], notified = []\<rparr>"

section \<open>The auto-dirty middleware\<close>

definition BLUEPRINT_KEYS :: "string list" where
  "BLUEPRINT_KEYS = [''layers'', ''layerSequence'', ''scopeFilter'', ''scopeEdgeConfig'', ''instanceAssignments'']"

definition commit :: "string list \<Rightarrow> refmodel \<Rightarrow> refmodel" where
  "commit keys s =
     (if ''syncStatus'' \<in> set keys then s
      else if list_ex (\<lambda>k. k \<in> set BLUEPRINT_KEYS) keys \<and> syncStatus s \<noteq> Saving then s\<lparr>syncStatus := Dirty\<rparr>
      else s)"

definition notify :: "layer_event \<Rightarrow> refmodel \<Rightarrow> refmodel" where
  "notify ev s = s\<lparr>notified := notified s @ map (\<lambda>cb. (cb, ev)) (subscribers s)\<rparr>"

section \<open>Layers\<close>

definition display_order :: "layer \<Rightarrow> int" where
  "display_order l = nullish (ly_sequence l) (ly_order l)"

definition in_display_order :: "layer list \<Rightarrow> layer list" where
  "in_display_order ls = sort_key display_order ls"

text \<open>The sort is in place, so the layers are stored sorted.\<close>

definition setLayers :: "layer list \<Rightarrow> refmodel \<Rightarrow> refmodel" where
  "setLayers ls s =
     (let prevLayers = layers s;
          ls' = in_display_order ls;
          s1 = s\<lparr>layers := ls', layerSequence := map ly_id ls', assignmentStatus := As_Idle\<rparr>;
          isViewSwitch = card (ly_id ` set prevLayers) \<noteq> card (ly_id ` set ls')
            \<or> list_ex (\<lambda>l. ly_id l \<notin> ly_id ` set prevLayers) ls'
      in notify (Layer_Updated None ls' prevLayers)
          (if isViewSwitch
           then commit [''layers'', ''layerSequence'', ''instanceAssignments'', ''effectiveAssignments'',
                        ''assignmentConflicts'', ''assignmentStatus'']
                  (s1\<lparr>instanceAssignments := [], effectiveAssignments := [], assignmentConflicts := []\<rparr>)
           else commit [''layers'', ''layerSequence'', ''assignmentStatus''] s1))"

text \<open>The argument carries no meaningful id or order.\<close>

definition addLayer :: "ident \<Rightarrow> layer \<Rightarrow> refmodel \<Rightarrow> ident \<times> refmodel" where
  "addLayer lid layerData s =
     (let order = int (length (layers s));
          newLayer = layerData\<lparr>ly_id := lid, ly_order := order, ly_sequence := Some order\<rparr>;
          ls' = layers s @ [newLayer]
      in (lid, notify (Layer_Added lid ls' (layers s))
            (commit [''layers'', ''layerSequence''] (s\<lparr>layers := ls', layerSequence := layerSequence s @ [lid]\<rparr>))))"

definition renumber :: "layer list \<Rightarrow> layer list" where
  "renumber ls = map (\<lambda>(idx, l). l\<lparr>ly_order := int idx, ly_sequence := Some (int idx)\<rparr>) (enumerate 0 ls)"

definition removeLayer :: "ident \<Rightarrow> refmodel \<Rightarrow> refmodel" where
  "removeLayer lid s =
     (case find_first (\<lambda>l. ly_id l = lid) (layers s) of
        None \<Rightarrow> s
      | Some _ \<Rightarrow>
          (let ls' = renumber (filter (\<lambda>l. ly_id l \<noteq> lid) (layers s))
           in notify (Layer_Removed lid ls' (layers s))
                (commit [''layers'', ''layerSequence'']
                   (s\<lparr>layers := ls', layerSequence := filter (\<lambda>l. l \<noteq> lid) (layerSequence s)\<rparr>))))"

text \<open>The partial update is the function that overwrites the given fields.\<close>

definition updateLayer :: "ident \<Rightarrow> (layer \<Rightarrow> layer) \<Rightarrow> refmodel \<Rightarrow> refmodel" where
  "updateLayer lid updates s =
     (let ls' = map (\<lambda>l. if ly_id l = lid then updates l else l) (layers s)
      in notify (Layer_Updated (Some lid) ls' (layers s)) (commit [''layers''] (s\<lparr>layers := ls'\<rparr>)))"

definition reorderLayers :: "ident list \<Rightarrow> refmodel \<Rightarrow> refmodel" where
  "reorderLayers newSequence s =
     (let layerMap = mfrom (map (\<lambda>l. (ly_id l, l)) (layers s));
          ls' = renumber (map (\<lambda>lid. the (mget layerMap lid)) (filter (mhas layerMap) newSequence))
      in notify (Layers_Reordered ls' (layers s))
           (commit [''layers'', ''layerSequence''] (s\<lparr>layers := ls', layerSequence := newSequence\<rparr>)))"

definition setScopeFilter :: "json option \<Rightarrow> refmodel \<Rightarrow> refmodel" where
  "setScopeFilter f s = commit [''scopeFilter''] (s\<lparr>scopeFilter := f\<rparr>)"

section \<open>Results of a computed assignment\<close>

record assignment_result =
  res_assignments :: "(ident, assignment) jsmap"
  res_parentMap :: parent_map
  res_edges :: "json list"
  res_unassigned :: "ident list"
  res_computeTimeMs :: int

definition setAssignmentResult :: "assignment_result \<Rightarrow> refmodel \<Rightarrow> refmodel" where
  "setAssignmentResult r s =
     commit [''effectiveAssignments'', ''parentMap'', ''preservedEdges'', ''unassignedEntityIds'', ''assignmentStatus'',
             ''lastError'', ''lastComputeTimeMs'']
       (s\<lparr>effectiveAssignments := res_assignments r, parentMap := res_parentMap r, preservedEdges := res_edges r,
          unassignedEntityIds := res_unassigned r, assignmentStatus := As_Success, lastError := None,
          lastComputeTimeMs := res_computeTimeMs r\<rparr>)"

definition setParentMap :: "parent_map \<Rightarrow> refmodel \<Rightarrow> refmodel" where
  "setParentMap pm s = commit [''parentMap''] (s\<lparr>parentMap := pm\<rparr>)"

definition setPreservedEdges :: "json list \<Rightarrow> refmodel \<Rightarrow> refmodel" where
  "setPreservedEdges es s = commit [''preservedEdges''] (s\<lparr>preservedEdges := es\<rparr>)"

definition setAssignmentLoading :: "refmodel \<Rightarrow> refmodel" where
  "setAssignmentLoading s = commit [''assignmentStatus'', ''lastError''] (s\<lparr>assignmentStatus := As_Loading, lastError := None\<rparr>)"

definition setAssignmentError :: "string \<Rightarrow> refmodel \<Rightarrow> refmodel" where
  "setAssignmentError e s = commit [''assignmentStatus'', ''lastError''] (s\<lparr>assignmentStatus := As_Error, lastError := Some e\<rparr>)"

text \<open>\<open>computeAssignments\<close>: before the backend is asked, and when its answer (or an error) arrives.\<close>

definition computeAssignments_begin :: "refmodel \<Rightarrow> refmodel" where
  "computeAssignments_begin s = setAssignmentLoading s"

definition computeAssignments_end :: "string + assignment_result \<Rightarrow> refmodel \<Rightarrow> refmodel" where
  "computeAssignments_end answer s =
     (case answer of Inl e \<Rightarrow> setAssignmentError e s | Inr r \<Rightarrow> setAssignmentResult r s)"

record request_layer =
  rq_id :: ident
  rq_name :: string
  rq_color :: string
  rq_order :: int
  rq_sequence :: int
  rq_entityTypes :: "string list"
  rq_rules :: "rule_config list"
  rq_logicalNodes :: "logical_node list option"
  rq_entityAssignments :: "assignment_config list"

record assignment_request =
  rq_scopeFilter :: "json option"
  rq_layers :: "request_layer list"
  rq_includeEdges :: bool

definition buildAssignmentRequest :: "refmodel \<Rightarrow> assignment_request" where
  "buildAssignmentRequest s =
     \<lparr>rq_scopeFilter = scopeFilter s,
      rq_layers = map (\<lambda>l. \<lparr>rq_id = ly_id l, rq_name = ly_name l, rq_color = nullish (ly_color l) ''#808080'',
        rq_order = ly_order l, rq_sequence = nullish (ly_sequence l) (ly_order l), rq_entityTypes = ly_entityTypes l,
        rq_rules = nullish (ly_rules l) [], rq_logicalNodes = ly_logicalNodes l,
        rq_entityAssignments = nullish (ly_entityAssignments l) []\<rparr>) (layers s),
      rq_includeEdges = True\<rparr>"

section \<open>Expansion and queries\<close>

definition toggleNodeExpanded :: "ident \<Rightarrow> refmodel \<Rightarrow> refmodel" where
  "toggleNodeExpanded nid s =
     commit [''expandedNodeIds'']
       (s\<lparr>expandedNodeIds := (if nid \<in> expandedNodeIds s then expandedNodeIds s - {nid} else insert nid (expandedNodeIds s))\<rparr>)"

definition setExpandedNodeIds :: "ident set \<Rightarrow> refmodel \<Rightarrow> refmodel" where
  "setExpandedNodeIds ids s = commit [''expandedNodeIds''] (s\<lparr>expandedNodeIds := ids\<rparr>)"

definition isNodeExpanded :: "ident \<Rightarrow> refmodel \<Rightarrow> bool" where
  "isNodeExpanded nid s \<longleftrightarrow> nid \<in> expandedNodeIds s"

definition getAssignment :: "ident \<Rightarrow> refmodel \<Rightarrow> assignment option" where
  "getAssignment e s = mget (effectiveAssignments s) e"

definition getAssignmentsByLayer :: "ident \<Rightarrow> refmodel \<Rightarrow> assignment list" where
  "getAssignmentsByLayer lid s = filter (\<lambda>a. as_layerId a = lid) (map snd (effectiveAssignments s))"

definition getAssignmentsByLogicalNode :: "ident \<Rightarrow> ident \<Rightarrow> refmodel \<Rightarrow> assignment list" where
  "getAssignmentsByLogicalNode lid lnid s =
     filter (\<lambda>a. as_layerId a = lid \<and> as_logicalNodeId a = Some lnid) (map snd (effectiveAssignments s))"

definition getInheritedFrom :: "ident \<Rightarrow> refmodel \<Rightarrow> assignment option" where
  "getInheritedFrom e s =
     (case mget (effectiveAssignments s) e of
        Some a \<Rightarrow> if as_isInherited a \<and> truthy (as_inheritedFromId a)
                  then mget (effectiveAssignments s) (the (as_inheritedFromId a)) else None
      | None \<Rightarrow> None)"

definition onLayerChange :: "nat \<Rightarrow> refmodel \<Rightarrow> refmodel" where
  "onLayerChange cb s = s\<lparr>subscribers := set_add cb (subscribers s)\<rparr>"

definition unsubscribe :: "nat \<Rightarrow> refmodel \<Rightarrow> refmodel" where
  "unsubscribe cb s = s\<lparr>subscribers := removeAll cb (subscribers s)\<rparr>"

definition getLayerBySequence :: "nat \<Rightarrow> refmodel \<Rightarrow> layer option" where
  "getLayerBySequence i s =
     (if i < length (layerSequence s) \<and> layerSequence s ! i \<noteq> ''''
      then find_first (\<lambda>l. ly_id l = layerSequence s ! i) (layers s) else None)"

fun index_of :: "'a \<Rightarrow> 'a list \<Rightarrow> nat option" where
  "index_of x [] = None"
| "index_of x (y # ys) = (if x = y then Some 0 else map_option Suc (index_of x ys))"

definition calculateLayerX :: "int \<Rightarrow> int \<Rightarrow> int \<Rightarrow> ident \<Rightarrow> refmodel \<Rightarrow> int" where
  "calculateLayerX margin width gap lid s =
     (case index_of lid (layerSequence s) of
        None \<Rightarrow> 0
      | Some i \<Rightarrow> margin + int i * width + int i * gap)"

section \<open>Conflicts\<close>

definition differs :: "refmodel \<Rightarrow> ident \<Rightarrow> ident \<Rightarrow> bool" where
  "differs s layerId e \<longleftrightarrow>
     (case mget (instanceAssignments s) e of None \<Rightarrow> False | Some a \<Rightarrow> ac_layerId a \<noteq> layerId)"

definition inherits_other :: "refmodel \<Rightarrow> ident \<Rightarrow> ident \<Rightarrow> bool" where
  "inherits_other s layerId e \<longleftrightarrow>
     (case mget (instanceAssignments s) e of None \<Rightarrow> False
      | Some a \<Rightarrow> ac_layerId a \<noteq> layerId \<and> ac_inheritsChildren a)"

text \<open>\<open>None\<close>: the walk along the ancestors does not end.\<close>

definition checkAssignmentConflict :: "ident \<Rightarrow> ident \<Rightarrow> refmodel \<Rightarrow> conflict option option" where
  "checkAssignmentConflict e layerId s =
     (case walk_up (parentMap s) (inherits_other s layerId) e of
        None \<Rightarrow> None
      | Some (Some p) \<Rightarrow>
          Some (Some \<lparr>cf_entityId = e, cf_conflictingEntityId = p, cf_type = Parent_assigned,
                     cf_conflictingLayerId = ac_layerId (the (mget (instanceAssignments s) p))\<rparr>)
      | Some None \<Rightarrow>
          Some (map_option (\<lambda>c. \<lparr>cf_entityId = e, cf_conflictingEntityId = c, cf_type = Child_assigned,
                                cf_conflictingLayerId = ac_layerId (the (mget (instanceAssignments s) c))\<rparr>)
                  (search_down (parentMap s) (differs s layerId) [e] [])))"

text \<open>The lock: an entity whose parent has an effective assignment to another layer.\<close>

definition containment_lock :: "ident \<Rightarrow> ident \<Rightarrow> refmodel \<Rightarrow> conflict option" where
  "containment_lock e layerId s =
     (let parentId = mget (parentMap s) e
      in if truthy parentId then
           (case mget (effectiveAssignments s) (the parentId) of
              None \<Rightarrow> None
            | Some pa \<Rightarrow>
                if as_layerId pa \<noteq> layerId
                then Some \<lparr>cf_entityId = e, cf_conflictingEntityId = the parentId, cf_type = Containment_locked,
                          cf_conflictingLayerId = as_layerId pa\<rparr>
                else None)
         else None)"

section \<open>Assigning entities\<close>

definition user_config :: "ident \<Rightarrow> ident \<Rightarrow> ident option \<Rightarrow> bool \<Rightarrow> string \<Rightarrow> assignment_config" where
  "user_config e layerId logicalNodeId inheritsChildren now =
     \<lparr>ac_entityId = e, ac_layerId = layerId, ac_logicalNodeId = logicalNodeId, ac_inheritsChildren = inheritsChildren,
      ac_priority = 1000, ac_assignedBy = Some By_User, ac_assignedAt = Some now\<rparr>"

definition follow_config :: "ident \<Rightarrow> string \<Rightarrow> ident \<Rightarrow> assignment_config" where
  "follow_config layerId now d =
     \<lparr>ac_entityId = d, ac_layerId = layerId, ac_logicalNodeId = None, ac_inheritsChildren = True,
      ac_priority = 999, ac_assignedBy = Some By_Rule, ac_assignedAt = Some now\<rparr>"

definition direct_assignment :: "ident \<Rightarrow> ident \<Rightarrow> ident option \<Rightarrow> assignment" where
  "direct_assignment e layerId logicalNodeId =
     \<lparr>as_entityId = e, as_layerId = layerId, as_logicalNodeId = logicalNodeId, as_ruleId = None,
      as_isInherited = False, as_inheritedFromId = None, as_confidence = 1\<rparr>"

definition inherited_assignment :: "ident \<Rightarrow> ident \<Rightarrow> assignment" where
  "inherited_assignment layerId d =
     \<lparr>as_entityId = d, as_layerId = layerId, as_logicalNodeId = None, as_ruleId = None,
      as_isInherited = True, as_inheritedFromId = None, as_confidence = 1\<rparr>"

definition assigned_elsewhere :: "refmodel \<Rightarrow> ident \<Rightarrow> ident \<Rightarrow> bool" where
  "assigned_elsewhere s layerId d \<longleftrightarrow>
     (case mget (effectiveAssignments s) d of None \<Rightarrow> False | Some a \<Rightarrow> as_layerId a \<noteq> layerId)"

definition descendantsToReassign :: "ident \<Rightarrow> ident \<Rightarrow> refmodel \<Rightarrow> ident list" where
  "descendantsToReassign e layerId s =
     filter (assigned_elsewhere s layerId) (descend (parentMap s) (children_of (parentMap s) e) [])"

definition report :: "conflict option \<Rightarrow> refmodel \<Rightarrow> refmodel" where
  "report c s =
     (case c of None \<Rightarrow> s
      | Some cf \<Rightarrow> commit [''assignmentConflicts''] (s\<lparr>assignmentConflicts := assignmentConflicts s @ [cf]\<rparr>))"

definition move_in_layer :: "ident set \<Rightarrow> ident \<Rightarrow> assignment_config list \<Rightarrow> layer \<Rightarrow> layer" where
  "move_in_layer moved layerId new l =
     (let old = nullish (ly_entityAssignments l) [];
          filtered = filter (\<lambda>a. ac_entityId a \<notin> moved) old
      in if ly_id l = layerId then l\<lparr>ly_entityAssignments := Some (filtered @ new)\<rparr>
         else if length filtered \<noteq> length old then l\<lparr>ly_entityAssignments := Some filtered\<rparr>
         else l)"

text \<open>The state after a successful assignment of \<open>e\<close> together with the descendants \<open>ds\<close>.\<close>

definition apply_assignment ::
  "ident \<Rightarrow> ident \<Rightarrow> ident option \<Rightarrow> bool \<Rightarrow> string \<Rightarrow> ident list \<Rightarrow> refmodel \<Rightarrow> refmodel" where
  "apply_assignment e layerId logicalNodeId inheritsChildren now ds s =
     (let config = user_config e layerId logicalNodeId inheritsChildren now;
          followers = map (follow_config layerId now) ds
      in commit [''instanceAssignments'', ''layers'', ''effectiveAssignments'']
           (s\<lparr>instanceAssignments := fold (\<lambda>a m. mset_key (ac_entityId a) a m) followers (mset_key e config (instanceAssignments s)),
              layers := map (move_in_layer (set (e # ds)) layerId (config # followers)) (layers s),
              effectiveAssignments := fold (\<lambda>d m. mset_key d (inherited_assignment layerId d) m) ds
                (mset_key e (direct_assignment e layerId logicalNodeId) (effectiveAssignments s))\<rparr>))"

record assign_answer =
  success :: bool
  answer_conflict :: "conflict option"

text \<open>\<open>None\<close>: the call does not return, because \<open>checkAssignmentConflict\<close> does not.\<close>

definition assignEntityToLayer ::
  "ident \<Rightarrow> ident \<Rightarrow> ident option \<Rightarrow> bool \<Rightarrow> string \<Rightarrow> refmodel \<Rightarrow> (assign_answer \<times> refmodel) option" where
  "assignEntityToLayer e layerId logicalNodeId inheritsChildren now s =
     (case containment_lock e layerId s of
        Some conflict \<Rightarrow> Some (\<lparr>success = False, answer_conflict = Some conflict\<rparr>, report (Some conflict) s)
      | None \<Rightarrow>
          (let ds = descendantsToReassign e layerId s
           in if ds \<noteq> [] then
                (let conflict = \<lparr>cf_entityId = e, cf_conflictingEntityId = hd ds, cf_type = Child_assigned,
                                cf_conflictingLayerId = layerId\<rparr>
                 in Some (\<lparr>success = True, answer_conflict = Some conflict\<rparr>,
                          apply_assignment e layerId logicalNodeId inheritsChildren now ds (report (Some conflict) s)))
              else
                (case checkAssignmentConflict e layerId s of
                   None \<Rightarrow> None
                 | Some conflict \<Rightarrow>
                     Some (\<lparr>success = True, answer_conflict = conflict\<rparr>,
                           apply_assignment e layerId logicalNodeId inheritsChildren now ds (report conflict s)))))"

definition drop_in_layer :: "ident \<Rightarrow> layer \<Rightarrow> layer" where
  "drop_in_layer e l =
     (case ly_entityAssignments l of
        None \<Rightarrow> l
      | Some as \<Rightarrow>
          if list_ex (\<lambda>a. ac_entityId a = e) as
          then l\<lparr>ly_entityAssignments := Some (filter (\<lambda>a. ac_entityId a \<noteq> e) as)\<rparr> else l)"

definition removeEntityAssignment :: "ident \<Rightarrow> refmodel \<Rightarrow> refmodel" where
  "removeEntityAssignment e s =
     commit [''instanceAssignments'', ''layers'', ''assignmentConflicts'', ''effectiveAssignments'']
       (s\<lparr>instanceAssignments := mdel e (instanceAssignments s),
          layers := map (drop_in_layer e) (layers s),
          assignmentConflicts := filter (\<lambda>c. cf_entityId c \<noteq> e \<and> cf_conflictingEntityId c \<noteq> e) (assignmentConflicts s),
          effectiveAssignments := mdel e (effectiveAssignments s)\<rparr>)"

definition removeElements :: "ident list \<Rightarrow> refmodel \<Rightarrow> refmodel" where
  "removeElements nodeIds s =
     (if nodeIds = [] then s
      else commit [''instanceAssignments'', ''effectiveAssignments'']
        (s\<lparr>instanceAssignments := fold mdel nodeIds (instanceAssignments s),
           effectiveAssignments := fold mdel nodeIds (effectiveAssignments s)\<rparr>))"

definition clearConflicts :: "refmodel \<Rightarrow> refmodel" where
  "clearConflicts s = commit [''assignmentConflicts''] (s\<lparr>assignmentConflicts := []\<rparr>)"

definition setScopeEdgeConfig :: "json option \<Rightarrow> refmodel \<Rightarrow> refmodel" where
  "setScopeEdgeConfig c s = commit [''scopeEdgeConfig''] (s\<lparr>scopeEdgeConfig := c\<rparr>)"

text \<open>The two passes of the bulk assignment; the checks read the state before the call.\<close>

fun option_all :: "'a option list \<Rightarrow> 'a list option" where
  "option_all [] = Some []"
| "option_all (x # xs) =
     (case x of None \<Rightarrow> None | Some y \<Rightarrow> map_option (Cons y) (option_all xs))"

definition somes :: "'a option list \<Rightarrow> 'a list" where
  "somes xs = concat (map (\<lambda>x. case x of None \<Rightarrow> [] | Some y \<Rightarrow> [y]) xs)"

definition bulk_in_layer :: "ident list \<Rightarrow> ident \<Rightarrow> assignment_config list \<Rightarrow> layer \<Rightarrow> layer" where
  "bulk_in_layer allowedIds layerId new l =
     (if ly_id l = layerId
      then l\<lparr>ly_entityAssignments :=
             Some (filter (\<lambda>a. ac_entityId a \<notin> set allowedIds) (nullish (ly_entityAssignments l) []) @ new)\<rparr>
      else (case ly_entityAssignments l of
              None \<Rightarrow> l
            | Some as \<Rightarrow>
                if list_ex (\<lambda>a. ac_entityId a \<in> set allowedIds) as
                then l\<lparr>ly_entityAssignments := Some (filter (\<lambda>a. ac_entityId a \<notin> set allowedIds) as)\<rparr> else l))"

definition bulkAssignEntitiesToLayer ::
  "ident list \<Rightarrow> ident \<Rightarrow> bool \<Rightarrow> string \<Rightarrow> refmodel \<Rightarrow> ((ident list \<times> conflict list) \<times> refmodel) option" where
  "bulkAssignEntitiesToLayer entityIds layerId inheritsChildren now s =
     (let locks = somes (map (\<lambda>e. containment_lock e layerId s) entityIds);
          allowedIds = filter (\<lambda>e. containment_lock e layerId s = None) entityIds;
          configs = map (\<lambda>e. user_config e layerId None inheritsChildren now) allowedIds
      in case option_all (map (\<lambda>e. checkAssignmentConflict e layerId s) allowedIds) of
           None \<Rightarrow> None
         | Some checks \<Rightarrow>
             (let conflicts = locks @ somes checks
              in Some ((allowedIds, conflicts),
                   commit [''instanceAssignments'', ''effectiveAssignments'', ''layers'', ''assignmentConflicts'']
                     (s\<lparr>instanceAssignments := fold (\<lambda>a m. mset_key (ac_entityId a) a m) configs (instanceAssignments s),
                        effectiveAssignments := fold (\<lambda>e m. mset_key e (direct_assignment e layerId None) m) allowedIds
                          (effectiveAssignments s),
                        layers := map (bulk_in_layer allowedIds layerId configs) (layers s),
                        assignmentConflicts := assignmentConflicts s @ conflicts\<rparr>))))"

definition clearAssignments :: "refmodel \<Rightarrow> refmodel" where
  "clearAssignments s =
     commit [''instanceAssignments'', ''assignmentConflicts'', ''layers'', ''effectiveAssignments'']
       (s\<lparr>instanceAssignments := [], assignmentConflicts := [],
          layers := map (\<lambda>l. l\<lparr>ly_entityAssignments := Some []\<rparr>) (layers s), effectiveAssignments := []\<rparr>)"

section \<open>Synchronisation with the backend\<close>

record blueprint =
  bp_name :: "string option"
  bp_layersConfig :: "layer list"
  bp_scopeFilter :: "json option"
  bp_instanceAssignments :: "(ident, assignment_config) jsmap"
  bp_scopeEdgeConfig :: "json option"

datatype save_request = Update_Model ident blueprint | Create_Model blueprint

definition blueprint_of :: "refmodel \<Rightarrow> blueprint" where
  "blueprint_of s =
     \<lparr>bp_name = activeContextModelName s, bp_layersConfig = layers s, bp_scopeFilter = scopeFilter s,
      bp_instanceAssignments = instanceAssignments s, bp_scopeEdgeConfig = scopeEdgeConfig s\<rparr>"

text \<open>\<open>saveToBackend\<close> up to its request, and from the answer: the model's id and name, or an error.\<close>

definition save_begin :: "refmodel \<Rightarrow> save_request option \<times> refmodel" where
  "save_begin s =
     (if syncStatus s = Saving then (None, s)
      else (Some (if truthy (activeContextModelId s)
                  then Update_Model (the (activeContextModelId s)) (blueprint_of s)
                  else Create_Model ((blueprint_of s)\<lparr>bp_name := Some (nullish (activeContextModelName s) ''Untitled Context Model'')\<rparr>)),
            commit [''syncStatus''] (s\<lparr>syncStatus := Saving\<rparr>)))"

definition save_end :: "save_request \<Rightarrow> (ident \<times> string) option \<Rightarrow> refmodel \<Rightarrow> refmodel" where
  "save_end req answer s =
     (case answer of
        None \<Rightarrow> commit [''syncStatus''] (s\<lparr>syncStatus := Sync_Error\<rparr>)
      | Some (mid, mname) \<Rightarrow>
          (case req of
             Update_Model _ _ \<Rightarrow>
               commit [''syncStatus'', ''activeContextModelName''] (s\<lparr>syncStatus := Synced, activeContextModelName := Some mname\<rparr>)
           | Create_Model _ \<Rightarrow>
               commit [''activeContextModelId'', ''activeContextModelName'', ''syncStatus'']
                 (s\<lparr>activeContextModelId := Some mid, activeContextModelName := Some mname, syncStatus := Synced\<rparr>)))"

record context_model =
  cm_id :: ident
  cm_name :: string
  cm_layersConfig :: "layer list option"
  cm_scopeFilter :: "json option"
  cm_instanceAssignments :: "(ident, assignment_config) jsmap option"
  cm_scopeEdgeConfig :: "json option"

definition install_model :: "context_model \<Rightarrow> (ident, assignment_config) jsmap \<Rightarrow> refmodel \<Rightarrow> refmodel" where
  "install_model m instances s =
     (let ls = in_display_order (nullish (cm_layersConfig m) [])
      in commit [''activeContextModelId'', ''activeContextModelName'', ''layers'', ''layerSequence'', ''instanceAssignments'',
                 ''scopeFilter'', ''scopeEdgeConfig'', ''syncStatus'', ''assignmentConflicts'']
           (s\<lparr>activeContextModelId := Some (cm_id m), activeContextModelName := Some (cm_name m), layers := ls,
              layerSequence := map ly_id ls, instanceAssignments := instances, scopeFilter := cm_scopeFilter m,
              scopeEdgeConfig := cm_scopeEdgeConfig m, syncStatus := Synced, assignmentConflicts := []\<rparr>))"

definition loadFromBackend :: "context_model option \<Rightarrow> refmodel \<Rightarrow> refmodel" where
  "loadFromBackend answer s =
     (case answer of None \<Rightarrow> s | Some m \<Rightarrow> install_model m (mfrom (nullish (cm_instanceAssignments m) [])) s)"

definition loadTemplate :: "context_model option \<Rightarrow> refmodel \<Rightarrow> refmodel" where
  "loadTemplate answer s = (case answer of None \<Rightarrow> s | Some m \<Rightarrow> install_model m [] s)"

section \<open>Actions as events\<close>

datatype rm_event =
    SetLayers "layer list"
  | AddLayer ident layer
  | RemoveLayer ident
  | UpdateLayer ident "layer \<Rightarrow> layer"
  | ReorderLayers "ident list"
  | SetScopeFilter "json option"
  | SetAssignmentResult assignment_result
  | SetParentMap parent_map
  | SetPreservedEdges "json list"
  | ComputeBegin
  | ComputeEnd "string + assignment_result"
  | ToggleNodeExpanded ident
  | SetExpandedNodeIds "ident set"
  | Assign ident ident "ident option" bool string
  | RemoveAssignment ident
  | RemoveElements "ident list"
  | ClearConflicts
  | SetScopeEdgeConfig "json option"
  | BulkAssign "ident list" ident bool string
  | ClearAssignments
  | SaveBegin
  | SaveEnd save_request "(ident \<times> string) option"
  | LoadFromBackend "context_model option"
  | LoadTemplate "context_model option"

text \<open>A call that does not return leaves the store as it is.\<close>

definition after_call :: "refmodel \<Rightarrow> ('a \<times> refmodel) option \<Rightarrow> refmodel" where
  "after_call s r = (case r of None \<Rightarrow> s | Some (_, s') \<Rightarrow> s')"

fun rm_step :: "rm_event \<Rightarrow> refmodel \<Rightarrow> refmodel" where
  "rm_step (SetLayers ls) s = setLayers ls s"
| "rm_step (AddLayer lid l) s = snd (addLayer lid l s)"
| "rm_step (RemoveLayer lid) s = removeLayer lid s"
| "rm_step (UpdateLayer lid u) s = updateLayer lid u s"
| "rm_step (ReorderLayers ids) s = reorderLayers ids s"
| "rm_step (SetScopeFilter f) s = setScopeFilter f s"
| "rm_step (SetAssignmentResult r) s = setAssignmentResult r s"
| "rm_step (SetParentMap pm) s = setParentMap pm s"
| "rm_step (SetPreservedEdges es) s = setPreservedEdges es s"
| "rm_step ComputeBegin s = computeAssignments_begin s"
| "rm_step (ComputeEnd r) s = computeAssignments_end r s"
| "rm_step (ToggleNodeExpanded nid) s = toggleNodeExpanded nid s"
| "rm_step (SetExpandedNodeIds ids) s = setExpandedNodeIds ids s"
| "rm_step (Assign e l lnode i now) s = after_call s (assignEntityToLayer e l lnode i now s)"
| "rm_step (RemoveAssignment e) s = removeEntityAssignment e s"
| "rm_step (RemoveElements ids) s = removeElements ids s"
| "rm_step ClearConflicts s = clearConflicts s"
| "rm_step (SetScopeEdgeConfig c) s = setScopeEdgeConfig c s"
| "rm_step (BulkAssign es l i now) s = after_call s (bulkAssignEntitiesToLayer es l i now s)"
| "rm_step ClearAssignments s = clearAssignments s"
| "rm_step SaveBegin s = snd (save_begin s)"
| "rm_step (SaveEnd req a) s = save_end req a s"
| "rm_step (LoadFromBackend a) s = loadFromBackend a s"
| "rm_step (LoadTemplate a) s = loadTemplate a s"

section \<open>What the middleware leaves alone\<close>

lemma commit_frame [simp]:
  "layers (commit ks s) = layers s" "layerSequence (commit ks s) = layerSequence s"
  "effectiveAssignments (commit ks s) = effectiveAssignments s" "parentMap (commit ks s) = parentMap s"
  "instanceAssignments (commit ks s) = instanceAssignments s" "assignmentConflicts (commit ks s) = assignmentConflicts s"
  "scopeFilter (commit ks s) = scopeFilter s" "scopeEdgeConfig (commit ks s) = scopeEdgeConfig s"
  "activeContextModelId (commit ks s) = activeContextModelId s"
  "activeContextModelName (commit ks s) = activeContextModelName s"
  by (simp_all add: commit_def)

lemma notify_frame [simp]:
  "layers (notify ev s) = layers s" "layerSequence (notify ev s) = layerSequence s"
  "effectiveAssignments (notify ev s) = effectiveAssignments s" "parentMap (notify ev s) = parentMap s"
  "instanceAssignments (notify ev s) = instanceAssignments s" "assignmentConflicts (notify ev s) = assignmentConflicts s"
  "scopeFilter (notify ev s) = scopeFilter s" "scopeEdgeConfig (notify ev s) = scopeEdgeConfig s"
  "activeContextModelId (notify ev s) = activeContextModelId s"
  "activeContextModelName (notify ev s) = activeContextModelName s" "syncStatus (notify ev s) = syncStatus s"
  by (simp_all add: notify_def)

lemma report_frame [simp]:
  "layers (report c s) = layers s" "layerSequence (report c s) = layerSequence s"
  "effectiveAssignments (report c s) = effectiveAssignments s" "parentMap (report c s) = parentMap s"
  "instanceAssignments (report c s) = instanceAssignments s" "scopeFilter (report c s) = scopeFilter s"
  "scopeEdgeConfig (report c s) = scopeEdgeConfig s" "activeContextModelId (report c s) = activeContextModelId s"
  "activeContextModelName (report c s) = activeContextModelName s" "syncStatus (report c s) = syncStatus s"
  by (simp_all add: report_def commit_def BLUEPRINT_KEYS_def split: option.splits)

lemmas rm_action_defs = setLayers_def addLayer_def removeLayer_def updateLayer_def reorderLayers_def setScopeFilter_def
  setAssignmentResult_def setParentMap_def setPreservedEdges_def setAssignmentLoading_def setAssignmentError_def
  computeAssignments_begin_def computeAssignments_end_def toggleNodeExpanded_def setExpandedNodeIds_def
  removeEntityAssignment_def removeElements_def clearConflicts_def setScopeEdgeConfig_def clearAssignments_def
  save_begin_def save_end_def loadFromBackend_def loadTemplate_def install_model_def

section \<open>The containment lock\<close>

text \<open>A child with an effective assignment is in the layer of its parent when the parent has one.\<close>

definition same_layer :: "(ident, assignment) jsmap \<Rightarrow> ident \<Rightarrow> ident \<Rightarrow> bool" where
  "same_layer eff c p \<longleftrightarrow>
     (\<forall>a b. mget eff c = Some a \<longrightarrow> mget eff p = Some b \<longrightarrow> as_layerId a = as_layerId b)"

definition locked_in :: "parent_map \<Rightarrow> (ident, assignment) jsmap \<Rightarrow> bool" where
  "locked_in pm eff \<longleftrightarrow> jsm_ok pm \<and> (\<forall>c p. mget pm c = Some p \<longrightarrow> p \<noteq> '''' \<longrightarrow> same_layer eff c p)"

definition locked :: "refmodel \<Rightarrow> bool" where
  "locked s \<longleftrightarrow> locked_in (parentMap s) (effectiveAssignments s)"

lemma locked_in_subset:
  "locked_in pm eff \<Longrightarrow> (\<And>e a. mget eff' e = Some a \<Longrightarrow> mget eff e = Some a) \<Longrightarrow> locked_in pm eff'"
  unfolding locked_in_def same_layer_def by blast

lemma mget_fold_mdel: "mget (fold mdel ids m) e = (if e \<in> set ids then None else mget m e)"
  by (induction ids arbitrary: m) auto

lemma mget_fold_inherited:
  "mget (fold (\<lambda>d m. mset_key d (f d) m) ds m) e = (if e \<in> set ds then Some (f e) else mget m e)"
  by (induction ds arbitrary: m) auto

lemma apply_assignment_effective:
  "mget (effectiveAssignments (apply_assignment e layerId lnode inh now ds s)) x =
     (if x \<in> set ds then Some (inherited_assignment layerId x)
      else if x = e then Some (direct_assignment e layerId lnode) else mget (effectiveAssignments s) x)"
  by (simp add: apply_assignment_def Let_def mget_fold_inherited)

lemma apply_assignment_parentMap [simp]: "parentMap (apply_assignment e layerId lnode inh now ds s) = parentMap s"
  by (simp add: apply_assignment_def Let_def)

lemma descendantsToReassign_iff:
  "jsm_ok (parentMap s) \<Longrightarrow> d \<in> set (descendantsToReassign e layerId s)
    \<longleftrightarrow> below (parentMap s) e d \<and> assigned_elsewhere s layerId d"
  by (simp add: descendantsToReassign_def descend_children)

lemma apply_assignment_locked:
  assumes lock: "locked_in (parentMap s) (effectiveAssignments s)" and free: "containment_lock e layerId s = None"
  shows "locked_in (parentMap s)
    (effectiveAssignments (apply_assignment e layerId lnode inh now (descendantsToReassign e layerId s) (report cf s)))"
proof -
  let ?ds = "descendantsToReassign e layerId s"
  let ?eff = "effectiveAssignments (apply_assignment e layerId lnode inh now ?ds (report cf s))"
  have ok: "jsm_ok (parentMap s)" using lock by (simp add: locked_in_def)
  have subtree: "as_layerId a = layerId" if "d = e \<or> below (parentMap s) e d" and "mget ?eff d = Some a" for d a
    using that ok
    by (auto simp: apply_assignment_effective inherited_assignment_def direct_assignment_def descendantsToReassign_iff
        assigned_elsewhere_def split: if_splits)
  have outside: "mget (effectiveAssignments s) d = Some a"
    if "d \<noteq> e" "\<not> below (parentMap s) e d" "mget ?eff d = Some a" for d a
    using that ok by (auto simp: apply_assignment_effective descendantsToReassign_iff split: if_splits)
  have "same_layer ?eff c p" if cp: "mget (parentMap s) c = Some p" "p \<noteq> ''''" for c p
    unfolding same_layer_def
  proof (intro allI impI)
    fix a b assume a: "mget ?eff c = Some a" and b: "mget ?eff p = Some b"
    show "as_layerId a = as_layerId b"
    proof (cases "p = e \<or> below (parentMap s) e p")
      case True
      then have "below (parentMap s) e c" using cp(1) by (auto intro: below.intros)
      with subtree [OF _ a] subtree [OF _ b] True show ?thesis by simp
    next
      case False
      then have b': "mget (effectiveAssignments s) p = Some b" using outside b by blast
      have "\<not> below (parentMap s) e c" using below_parent cp(1) False by blast
      then show ?thesis
      proof (cases "c = e")
        case True
        with free cp b' have "as_layerId b = layerId"
          by (simp add: containment_lock_def Let_def split: option.splits if_splits)
        with subtree [OF _ a] True show ?thesis by simp
      next
        case False
        with outside a \<open>\<not> below (parentMap s) e c\<close> have "mget (effectiveAssignments s) c = Some a" by blast
        with lock cp b' show ?thesis by (simp add: locked_in_def same_layer_def)
      qed
    qed
  qed
  with ok show ?thesis by (simp add: locked_in_def)
qed

lemma assign_locked:
  assumes "locked s"
  shows "locked (after_call s (assignEntityToLayer e layerId lnode inh now s))"
  using assms apply_assignment_locked [of s e layerId]
  by (auto simp: locked_def assignEntityToLayer_def after_call_def Let_def split: option.splits)

text \<open>The events a user causes; a result of the backend must respect the lock itself.\<close>

fun respects_lock :: "rm_event \<Rightarrow> bool" where
  "respects_lock (SetAssignmentResult r) \<longleftrightarrow> locked_in (res_parentMap r) (res_assignments r)"
| "respects_lock (ComputeEnd (Inr r)) \<longleftrightarrow> locked_in (res_parentMap r) (res_assignments r)"
| "respects_lock (SetParentMap pm) \<longleftrightarrow> False"
| "respects_lock (BulkAssign es l i now) \<longleftrightarrow> False"
| "respects_lock e \<longleftrightarrow> True"

lemma locked_step: "locked s \<Longrightarrow> respects_lock e \<Longrightarrow> locked (rm_step e s)"
proof (cases e)
  case (Assign en l lnode i now)
  assume "locked s" with Assign show ?thesis by (simp add: assign_locked)
next
  case (ComputeEnd r)
  assume "locked s" "respects_lock e" with ComputeEnd show ?thesis by (cases r) (auto simp: locked_def rm_action_defs)
next
  case (RemoveAssignment en)
  assume "locked s" with RemoveAssignment show ?thesis
    by (auto simp: locked_def rm_action_defs intro: locked_in_subset split: if_splits)
next
  case (RemoveElements ids)
  assume "locked s" with RemoveElements show ?thesis
    by (auto simp: locked_def rm_action_defs mget_fold_mdel intro: locked_in_subset split: if_splits)
qed (auto simp: locked_def rm_action_defs Let_def locked_in_def same_layer_def split: option.splits save_request.splits if_splits)

interpretation lock: step_system rm_step locked respects_lock
  by unfold_locales (rule locked_step)

text \<open>
  C1: in the empty store, or any whose children are in the layers of their parents, every history of the
  store's actions keeps each assigned child in the layer of its assigned parent, provided that
  \<open>bulkAssignEntitiesToLayer\<close> and \<open>setParentMap\<close> are not called and that every result of a computed assignment
  has its own children in the layers of their parents. The two excluded actions can break it
  (\<open>bulk_assignment_breaks_lock\<close>, \<open>new_parents_break_lock\<close>).
\<close>

theorem children_stay_with_their_parent:
  assumes "locked s" and "\<And>ev. ev \<in> set evs \<Longrightarrow> respects_lock ev"
    and "mget (parentMap (run rm_step evs s)) c = Some p" and "p \<noteq> ''''"
    and "mget (effectiveAssignments (run rm_step evs s)) c = Some a"
    and "mget (effectiveAssignments (run rm_step evs s)) p = Some b"
  shows "as_layerId a = as_layerId b"
proof -
  have "locked (run rm_step evs s)" using assms(1,2) by (rule lock.run_inv)
  with assms(3-) show ?thesis by (simp add: locked_def locked_in_def same_layer_def)
qed

definition family_result :: assignment_result where
  "family_result =
     \<lparr>res_assignments = [(''p'', direct_assignment ''p'' ''L1'' None), (''c'', inherited_assignment ''L1'' ''c'')],
      res_parentMap = [(''c'', ''p''), (''d'', ''c'')], res_edges = [], res_unassigned = [], res_computeTimeMs = 1\<rparr>"

theorem children_stay_with_their_parent_witness:
  "as_layerId (the (mget (effectiveAssignments (run rm_step
      [SetAssignmentResult family_result, Assign ''c'' ''L2'' None True ''now'', Assign ''p'' ''L2'' None True ''now'']
      initial_refmodel)) ''c'')) = ''L2''"
proof -
  let ?evs = "[SetAssignmentResult family_result, Assign ''c'' ''L2'' None True ''now'', Assign ''p'' ''L2'' None True ''now'']"
  let ?s = "run rm_step ?evs initial_refmodel"
  have run: "mget (parentMap ?s) ''c'' = Some ''p''"
    "mget (effectiveAssignments ?s) ''c'' = Some (inherited_assignment ''L2'' ''c'')"
    "mget (effectiveAssignments ?s) ''p'' = Some (direct_assignment ''p'' ''L2'' None)"
    by code_simp+
  have "as_layerId (inherited_assignment ''L2'' ''c'') = as_layerId (direct_assignment ''p'' ''L2'' None)"
  proof (rule children_stay_with_their_parent [OF _ _ run(1) _ run(2,3)])
    show "locked initial_refmodel" by (simp add: locked_def locked_in_def initial_refmodel_def)
    show "respects_lock ev" if "ev \<in> set ?evs" for ev
      using that by (auto simp: locked_in_def same_layer_def family_result_def jsm_ok_def
          direct_assignment_def inherited_assignment_def split: if_splits)
  qed simp
  then show ?thesis using run(2) by (simp add: direct_assignment_def)
qed

text \<open>A bulk assignment does not take the descendants along: the child stays behind in the old layer.\<close>

lemma bulk_assignment_breaks_lock:
  "let s = run rm_step [SetAssignmentResult family_result, BulkAssign [''p''] ''L2'' True ''now''] initial_refmodel
   in mget (parentMap s) ''c'' = Some ''p'' \<and> map_option as_layerId (mget (effectiveAssignments s) ''p'') = Some ''L2''
      \<and> map_option as_layerId (mget (effectiveAssignments s) ''c'') = Some ''L1''"
  by code_simp

lemma new_parents_break_lock:
  "let s = run rm_step [Assign ''p'' ''L1'' None True ''now'', Assign ''c'' ''L2'' None True ''now'', SetParentMap [(''c'', ''p'')]]
       initial_refmodel
   in mget (parentMap s) ''c'' = Some ''p'' \<and> map_option as_layerId (mget (effectiveAssignments s) ''p'') = Some ''L1''
      \<and> map_option as_layerId (mget (effectiveAssignments s) ''c'') = Some ''L2''"
  by code_simp

section \<open>What an assignment does\<close>

lemma containment_lock_report [simp]: "containment_lock e layerId (report c s) = containment_lock e layerId s"
  by (simp add: containment_lock_def Let_def)

lemma assign_success_cases:
  assumes "assignEntityToLayer e layerId lnode inh now s = Some (ans, s')" and "containment_lock e layerId s = None"
  shows "success ans \<and> (\<exists>cf. s' = apply_assignment e layerId lnode inh now (descendantsToReassign e layerId s) (report cf s))"
  using assms by (auto simp: assignEntityToLayer_def Let_def split: if_splits option.splits)

lemma move_in_layer_lists:
  "ly_id (move_in_layer moved layerId new l) = ly_id l"
  "nullish (ly_entityAssignments (move_in_layer moved layerId new l)) []
     = filter (\<lambda>a. ac_entityId a \<notin> moved) (nullish (ly_entityAssignments l) []) @ (if ly_id l = layerId then new else [])"
proof -
  show "ly_id (move_in_layer moved layerId new l) = ly_id l" by (simp add: move_in_layer_def Let_def)
  have "filter (\<lambda>a. ac_entityId a \<notin> moved) (nullish (ly_entityAssignments l) []) = nullish (ly_entityAssignments l) []"
    if "length (filter (\<lambda>a. ac_entityId a \<notin> moved) (nullish (ly_entityAssignments l) [])) = length (nullish (ly_entityAssignments l) [])"
    using that by (simp only: filter_neq_length filter_id_conv)
  then show "nullish (ly_entityAssignments (move_in_layer moved layerId new l)) []
     = filter (\<lambda>a. ac_entityId a \<notin> moved) (nullish (ly_entityAssignments l) []) @ (if ly_id l = layerId then new else [])"
    by (auto simp: move_in_layer_def Let_def)
qed

lemma mget_fold_configs:
  "mget (fold (\<lambda>a m. mset_key (ac_entityId a) a m) (map (follow_config layerId now) ds) m) x
     = (if x \<in> set ds then Some (follow_config layerId now x) else mget m x)"
  by (induction ds arbitrary: m) (auto simp: follow_config_def)

text \<open>
  C2: a permitted assignment moves the entity and every assigned descendant that was elsewhere, and
  nothing else: their effective layer is the new one, all other entities keep theirs; afterwards
  the target layer lists each moved entity once more than before its lists were cleared of them,
  no other layer lists any of them, and what the layers listed besides is untouched. A refused
  assignment changes no assignment.
\<close>

theorem assignment_moves_exactly_the_subtree:
  assumes "jsm_ok (parentMap s)" and "assignEntityToLayer e layerId lnode inh now s = Some (ans, s')"
  shows "(\<not> success ans \<longrightarrow> effectiveAssignments s' = effectiveAssignments s \<and> instanceAssignments s' = instanceAssignments s
            \<and> layers s' = layers s)
    \<and> (success ans \<longrightarrow>
        (\<forall>x. map_option as_layerId (mget (effectiveAssignments s') x) =
             (if x = e \<or> below (parentMap s) e x \<and> assigned_elsewhere s layerId x then Some layerId
              else map_option as_layerId (mget (effectiveAssignments s) x)))
        \<and> map ly_id (layers s') = map ly_id (layers s)
        \<and> (\<forall>i < length (layers s).
             nullish (ly_entityAssignments (layers s' ! i)) [] =
               filter (\<lambda>a. \<not> (ac_entityId a = e \<or> below (parentMap s) e (ac_entityId a) \<and> assigned_elsewhere s layerId (ac_entityId a)))
                 (nullish (ly_entityAssignments (layers s ! i)) [])
               @ (if ly_id (layers s ! i) = layerId
                  then user_config e layerId lnode inh now # map (follow_config layerId now) (descendantsToReassign e layerId s)
                  else [])))"
proof (cases "containment_lock e layerId s")
  case (Some c)
  then show ?thesis using assms(2) by (auto simp: assignEntityToLayer_def)
next
  case None
  let ?ds = "descendantsToReassign e layerId s"
  obtain cf where ans: "success ans" and s': "s' = apply_assignment e layerId lnode inh now ?ds (report cf s)"
    using assign_success_cases [OF assms(2) None] by blast
  have ds: "x \<in> set ?ds \<longleftrightarrow> below (parentMap s) e x \<and> assigned_elsewhere s layerId x" for x
    using assms(1) by (rule descendantsToReassign_iff)
  have eff: "map_option as_layerId (mget (effectiveAssignments s') x) =
             (if x = e \<or> below (parentMap s) e x \<and> assigned_elsewhere s layerId x then Some layerId
              else map_option as_layerId (mget (effectiveAssignments s) x))" for x
    by (simp add: s' apply_assignment_effective ds inherited_assignment_def direct_assignment_def)
  have moved: "layers s' = map (move_in_layer (set (e # ?ds)) layerId
      (user_config e layerId lnode inh now # map (follow_config layerId now) ?ds)) (layers s)"
    by (simp add: s' apply_assignment_def Let_def)
  have "(ac_entityId a \<notin> set (e # ?ds)) = (\<not> (ac_entityId a = e \<or> below (parentMap s) e (ac_entityId a)
      \<and> assigned_elsewhere s layerId (ac_entityId a)))" for a :: assignment_config
    by (simp add: ds)
  then show ?thesis
    using ans eff by (simp add: moved move_in_layer_lists comp_def del: set_simps)
qed

theorem assignment_moves_exactly_the_subtree_witness:
  "map_option as_layerId (mget (effectiveAssignments (snd (the (assignEntityToLayer ''p'' ''L2'' None True ''now''
      (rm_step (SetAssignmentResult family_result) initial_refmodel))))) ''c'') = Some ''L2''"
proof -
  let ?s = "rm_step (SetAssignmentResult family_result) initial_refmodel"
  have call: "map_option (success \<circ> fst) (assignEntityToLayer ''p'' ''L2'' None True ''now'' ?s) = Some True"
    and data: "jsm_ok (parentMap ?s)" "assigned_elsewhere ?s ''L2'' ''c''" "mget (parentMap ?s) ''c'' = Some ''p''"
    by code_simp+
  from call obtain ans s' where ans: "assignEntityToLayer ''p'' ''L2'' None True ''now'' ?s = Some (ans, s')" "success ans"
    by auto
  have "map_option as_layerId (mget (effectiveAssignments s') ''c'') = Some ''L2''"
    using assignment_moves_exactly_the_subtree [OF data(1) ans(1)] ans(2) data(2) below.child [OF data(3)] by simp
  then show ?thesis by (simp only: ans(1) option.sel snd_conv)
qed

section \<open>The conflict check\<close>

text \<open>
  C4: on parent maps without cycles the check returns, and it reports a conflict exactly when some
  ancestor passes an assignment to another layer on to its children or some descendant is assigned
  to another layer; the reported entity is such an ancestor or descendant, ancestors first.
\<close>

theorem conflict_check_is_complete:
  assumes "jsm_ok (parentMap s)" and "ranked rank (parentMap s)"
  shows "\<exists>r. checkAssignmentConflict e layerId s = Some r
    \<and> (r = None \<longleftrightarrow> (\<forall>a. below (parentMap s) a e \<longrightarrow> \<not> inherits_other s layerId a)
                  \<and> (\<forall>d. below (parentMap s) e d \<longrightarrow> \<not> differs s layerId d))
    \<and> (\<forall>c. r = Some c \<longrightarrow>
         (if cf_type c = Parent_assigned
          then below (parentMap s) (cf_conflictingEntityId c) e \<and> inherits_other s layerId (cf_conflictingEntityId c)
          else (\<forall>a. below (parentMap s) a e \<longrightarrow> \<not> inherits_other s layerId a)
               \<and> below (parentMap s) e (cf_conflictingEntityId c) \<and> differs s layerId (cf_conflictingEntityId c)))"
proof -
  obtain up where up: "walk_up (parentMap s) (inherits_other s layerId) e = Some up"
    using walk_up_terminates [OF assms(2)] by blast
  show ?thesis
  proof (cases up)
    case (Some a)
    with up walk_up_Some [of "parentMap s" "inherits_other s layerId" e a]
    show ?thesis by (auto simp: checkAssignmentConflict_def)
  next
    case None
    then have none: "\<forall>a. below (parentMap s) a e \<longrightarrow> \<not> inherits_other s layerId a" using walk_up_None up by blast
    show ?thesis
    proof (cases "search_down (parentMap s) (differs s layerId) [e] []")
      case None
      with none up \<open>up = None\<close> search_down_single [OF assms(1), of "differs s layerId" e]
      show ?thesis by (auto simp: checkAssignmentConflict_def)
    next
      case (Some d)
      with none up \<open>up = None\<close> search_down_Some [OF assms(1) Some]
      show ?thesis by (auto simp: checkAssignmentConflict_def)
    qed
  qed
qed

theorem conflict_check_is_complete_witness:
  "\<exists>r. checkAssignmentConflict ''d'' ''L2'' (rm_step (SetAssignmentResult family_result) initial_refmodel) = Some r"
proof -
  let ?s = "rm_step (SetAssignmentResult family_result) initial_refmodel"
  have pm: "parentMap ?s = [(''c'', ''p''), (''d'', ''c'')]" by code_simp
  have "jsm_ok (parentMap ?s)" unfolding pm by code_simp
  moreover have "ranked (\<lambda>x. if x = ''p'' then 0 else if x = ''c'' then 1 else 2) (parentMap ?s)"
    unfolding pm by (auto simp: ranked_def split: if_splits)
  ultimately show ?thesis using conflict_check_is_complete [of ?s _ "''d''" "''L2''"] by blast
qed

text \<open>On a parent map with a cycle of unassigned entities neither the check nor the assignment returns.\<close>

lemma conflict_check_hangs_on_cycle:
  "checkAssignmentConflict ''a'' ''L'' (rm_step (SetParentMap [(''a'', ''b''), (''b'', ''a'')]) initial_refmodel) = None"
  "assignEntityToLayer ''a'' ''L'' None True ''now'' (rm_step (SetParentMap [(''a'', ''b''), (''b'', ''a'')]) initial_refmodel) = None"
proof -
  let ?s = "rm_step (SetParentMap [(''a'', ''b''), (''b'', ''a'')]) initial_refmodel"
  have "walk_up (parentMap ?s) (inherits_other ?s ''L'') ''a'' = None"
    by (rule walk_up_cycle [where C = "{''a'', ''b''}"])
       (simp_all add: rm_action_defs initial_refmodel_def inherits_other_def)
  then show check: "checkAssignmentConflict ''a'' ''L'' ?s = None" by (simp add: checkAssignmentConflict_def)
  have "containment_lock ''a'' ''L'' ?s = None \<and> descendantsToReassign ''a'' ''L'' ?s = []" by code_simp
  with check show "assignEntityToLayer ''a'' ''L'' None True ''now'' ?s = None" by (simp add: assignEntityToLayer_def)
qed

section \<open>Dirty, saving, synced\<close>

type_synonym content = "layer list \<times> json option \<times> (ident, assignment_config) jsmap \<times> json option"

definition content_of :: "refmodel \<Rightarrow> content" where
  "content_of s = (layers s, scopeFilter s, instanceAssignments s, scopeEdgeConfig s)"

definition content_of_blueprint :: "blueprint \<Rightarrow> content" where
  "content_of_blueprint b = (bp_layersConfig b, bp_scopeFilter b, bp_instanceAssignments b, bp_scopeEdgeConfig b)"

fun content_of_request :: "save_request \<Rightarrow> content" where
  "content_of_request (Update_Model mid b) = content_of_blueprint b"
| "content_of_request (Create_Model b) = content_of_blueprint b"

text \<open>
  What the backend does with the requests (\<^verbatim>\<open>src/backend/app/db/repositories/context_model_repo.py\<close>): a table of
  models. A creation stores an empty filter as none, an update leaves alone what it gets no value for; a JSON
  null is no value.
\<close>

record context_row =
  row_name :: string
  row_layers :: "layer list"
  row_scopeFilter :: "json option"
  row_instances :: "(ident, assignment_config) jsmap"
  row_scopeEdgeConfig :: "json option"

type_synonym context_table = "(ident, context_row) jsmap"

definition no_value :: "json option \<Rightarrow> bool" where
  "no_value v \<longleftrightarrow> v = None \<or> v = Some JNull"

definition py_falsy :: "json option \<Rightarrow> bool" where
  "py_falsy v \<longleftrightarrow> no_value v \<or> v = Some (JObj [])"

definition created_row :: "blueprint \<Rightarrow> context_row" where
  "created_row b =
     \<lparr>row_name = nullish (bp_name b) '''', row_layers = bp_layersConfig b,
      row_scopeFilter = (if py_falsy (bp_scopeFilter b) then None else bp_scopeFilter b),
      row_instances = bp_instanceAssignments b,
      row_scopeEdgeConfig = (if py_falsy (bp_scopeEdgeConfig b) then None else bp_scopeEdgeConfig b)\<rparr>"

definition updated_row :: "blueprint \<Rightarrow> context_row \<Rightarrow> context_row" where
  "updated_row b row =
     \<lparr>row_name = nullish (bp_name b) (row_name row), row_layers = bp_layersConfig b,
      row_scopeFilter = (if no_value (bp_scopeFilter b) then row_scopeFilter row else bp_scopeFilter b),
      row_instances = bp_instanceAssignments b,
      row_scopeEdgeConfig = (if no_value (bp_scopeEdgeConfig b) then row_scopeEdgeConfig row else bp_scopeEdgeConfig b)\<rparr>"

definition response_of :: "ident \<Rightarrow> context_row \<Rightarrow> context_model" where
  "response_of mid row =
     \<lparr>cm_id = mid, cm_name = row_name row, cm_layersConfig = Some (row_layers row), cm_scopeFilter = row_scopeFilter row,
      cm_instanceAssignments = Some (row_instances row), cm_scopeEdgeConfig = row_scopeEdgeConfig row\<rparr>"

text \<open>\<open>fresh\<close> is the id the database makes up; \<open>None\<close>: there is no such model, or the id is taken.\<close>

fun serve :: "save_request \<Rightarrow> ident \<Rightarrow> context_table \<Rightarrow> ((ident \<times> string) \<times> context_table) option" where
  "serve (Update_Model mid b) fresh tab =
     (case mget tab mid of None \<Rightarrow> None
      | Some row \<Rightarrow> Some ((mid, row_name (updated_row b row)), mset_key mid (updated_row b row) tab))"
| "serve (Create_Model b) fresh tab =
     (if fresh = '''' \<or> mhas tab fresh then None
      else Some ((fresh, row_name (created_row b)), mset_key fresh (created_row b) tab))"

text \<open>
  The store together with the backend's table and the request on its way. A save is answered, or its answer is
  lost after it was carried out, or it fails. A template is copied to a new model without assignments.
\<close>

record sync =
  model :: refmodel
  backend :: context_table
  pending_save :: "save_request option"

fun syncs :: "rm_event \<Rightarrow> bool" where
  "syncs SaveBegin \<longleftrightarrow> True"
| "syncs (SaveEnd req a) \<longleftrightarrow> True"
| "syncs (LoadFromBackend a) \<longleftrightarrow> True"
| "syncs (LoadTemplate a) \<longleftrightarrow> True"
| "syncs e \<longleftrightarrow> False"

inductive sync_step :: "sync \<Rightarrow> sync \<Rightarrow> bool" where
  edit: "syncStatus (model c) \<noteq> Saving \<Longrightarrow> \<not> syncs e \<Longrightarrow> sync_step c (c\<lparr>model := rm_step e (model c)\<rparr>)"
| save: "save_begin (model c) = (Some req, s') \<Longrightarrow> sync_step c (c\<lparr>model := s', pending_save := Some req\<rparr>)"
| saved: "pending_save c = Some req \<Longrightarrow> serve req fresh (backend c) = Some (answer, tab) \<Longrightarrow>
    sync_step c (c\<lparr>model := save_end req (Some answer) (model c), backend := tab, pending_save := None\<rparr>)"
| lost: "pending_save c = Some req \<Longrightarrow> serve req fresh (backend c) = Some (answer, tab) \<Longrightarrow>
    sync_step c (c\<lparr>model := save_end req None (model c), backend := tab, pending_save := None\<rparr>)"
| failed: "pending_save c = Some req \<Longrightarrow> sync_step c (c\<lparr>model := save_end req None (model c), pending_save := None\<rparr>)"
| load: "syncStatus (model c) \<noteq> Saving \<Longrightarrow> mget (backend c) mid = Some row \<Longrightarrow> mid \<noteq> '''' \<Longrightarrow>
    sync_step c (c\<lparr>model := loadFromBackend (Some (response_of mid row)) (model c)\<rparr>)"
| template: "syncStatus (model c) \<noteq> Saving \<Longrightarrow> fresh \<noteq> '''' \<Longrightarrow> \<not> mhas (backend c) fresh \<Longrightarrow> row_instances row = [] \<Longrightarrow>
    sync_step c (c\<lparr>model := loadTemplate (Some (response_of fresh row)) (model c), backend := mset_key fresh row (backend c)\<rparr>)"
| not_loaded: "sync_step c (c\<lparr>model := loadFromBackend None (model c)\<rparr>)"

inductive_cases sync_stepE: "sync_step c c'"

inductive sync_reach :: "sync \<Rightarrow> sync \<Rightarrow> bool" for c0 where
  start: "sync_reach c0 c0"
| move: "sync_reach c0 c \<Longrightarrow> sync_step c c' \<Longrightarrow> sync_reach c0 c'"

text \<open>What of the content of the store is in a row: everything but fields the store has no value for.\<close>

definition stored :: "json option \<Rightarrow> json option \<Rightarrow> bool" where
  "stored v w \<longleftrightarrow> v = w \<or> py_falsy v"

definition stored_in :: "content \<Rightarrow> context_row \<Rightarrow> bool" where
  "stored_in k row \<longleftrightarrow>
     (case k of (ls, flt, inst, edges) \<Rightarrow>
        (ls = row_layers row \<or> ls = in_display_order (row_layers row)) \<and> stored flt (row_scopeFilter row)
        \<and> (\<forall>e. mget inst e = mget (row_instances row) e) \<and> stored edges (row_scopeEdgeConfig row))"

definition up_to_date :: "sync \<Rightarrow> bool" where
  "up_to_date c \<longleftrightarrow>
     (if truthy (activeContextModelId (model c))
      then \<exists>row. mget (backend c) (the (activeContextModelId (model c))) = Some row \<and> stored_in (content_of (model c)) row
      else content_of (model c) = content_of initial_refmodel)"

fun request_is_for :: "save_request \<Rightarrow> ident option \<Rightarrow> bool" where
  "request_is_for (Update_Model mid b) active \<longleftrightarrow> active = Some mid \<and> mid \<noteq> ''''"
| "request_is_for (Create_Model b) active \<longleftrightarrow> True"

definition rows_ok :: "context_table \<Rightarrow> bool" where
  "rows_ok tab \<longleftrightarrow> (\<forall>mid row. mget tab mid = Some row \<longrightarrow> jsm_ok (row_instances row))"

definition sync_ok :: "sync \<Rightarrow> bool" where
  "sync_ok c \<longleftrightarrow>
     (syncStatus (model c) = Synced \<longrightarrow> up_to_date c)
     \<and> (syncStatus (model c) = Saving \<longleftrightarrow> pending_save c \<noteq> None)
     \<and> (\<forall>req. pending_save c = Some req \<longrightarrow>
          content_of_request req = content_of (model c) \<and> request_is_for req (activeContextModelId (model c)))
     \<and> jsm_ok (instanceAssignments (model c)) \<and> rows_ok (backend c)"

lemma commit_status:
  "syncStatus s \<noteq> Saving \<Longrightarrow> ''syncStatus'' \<notin> set ks \<Longrightarrow>
     syncStatus (commit ks s) = (if list_ex (\<lambda>k. k \<in> set BLUEPRINT_KEYS) ks then Dirty else syncStatus s)"
  by (simp add: commit_def)

lemma apply_assignment_status:
  "syncStatus s \<noteq> Saving \<Longrightarrow> syncStatus (apply_assignment e l n i now ds s) = Dirty"
  by (simp add: apply_assignment_def Let_def commit_status BLUEPRINT_KEYS_def)

lemma edit_status:
  assumes "syncStatus s \<noteq> Saving" and "\<not> syncs e"
  shows "syncStatus (rm_step e s) = Dirty \<or> syncStatus (rm_step e s) = syncStatus s \<and> content_of (rm_step e s) = content_of s"
proof (cases e)
  case (Assign en l n i now)
  show ?thesis
  proof (cases "assignEntityToLayer en l n i now s")
    case None
    with Assign show ?thesis by (simp add: after_call_def)
  next
    case (Some r)
    show ?thesis
    proof (cases "containment_lock en l s")
      case None
      obtain ans s' where r: "r = (ans, s')" by (cases r)
      then obtain cf where "s' = apply_assignment en l n i now (descendantsToReassign en l s) (report cf s)"
        using assign_success_cases Some None by blast
      then show ?thesis using Assign Some r assms(1) by (simp add: after_call_def apply_assignment_status)
    next
      case (Some cf)
      with Assign show ?thesis by (simp add: after_call_def assignEntityToLayer_def content_of_def)
    qed
  qed
next
  case (BulkAssign es l i now)
  with assms(1) show ?thesis
    by (auto simp: after_call_def bulkAssignEntitiesToLayer_def Let_def commit_status BLUEPRINT_KEYS_def content_of_def split: option.splits)
next
  case (ComputeEnd r)
  with assms(1) show ?thesis by (cases r) (auto simp: rm_action_defs commit_status BLUEPRINT_KEYS_def content_of_def)
qed (use assms in \<open>auto simp: rm_action_defs commit_status BLUEPRINT_KEYS_def content_of_def Let_def split: option.splits\<close>)

lemma active_id_step: "\<not> syncs e \<Longrightarrow> activeContextModelId (rm_step e s) = activeContextModelId s"
proof (cases e)
  case (ComputeEnd r)
  then show ?thesis by (cases r) (simp_all add: rm_action_defs)
qed (auto simp: rm_action_defs Let_def after_call_def assignEntityToLayer_def apply_assignment_def bulkAssignEntitiesToLayer_def
    split: option.splits)

lemma jsm_ok_fold_configs [jsm_ok_intros]:
  "jsm_ok m \<Longrightarrow> jsm_ok (fold (\<lambda>a m. mset_key (ac_entityId a) a m) as m)"
  by (induction as arbitrary: m) auto

lemma jsm_ok_fold_mdel [jsm_ok_intros]: "jsm_ok m \<Longrightarrow> jsm_ok (fold mdel ids m)"
  by (induction ids arbitrary: m) auto

lemma instances_ok_step:
  assumes "jsm_ok (instanceAssignments s)" and "\<not> syncs e"
  shows "jsm_ok (instanceAssignments (rm_step e s))"
proof (cases e)
  case (ComputeEnd r)
  with assms(1) show ?thesis by (cases r) (simp_all add: rm_action_defs)
qed (use assms in \<open>auto simp: rm_action_defs Let_def after_call_def assignEntityToLayer_def apply_assignment_def
    bulkAssignEntitiesToLayer_def intro!: jsm_ok_intros split: option.splits\<close>)

lemma stored_request:
  "stored_in (content_of_blueprint b) (created_row b)" "stored_in (content_of_blueprint b) (updated_row b row)"
  by (auto simp: stored_in_def content_of_blueprint_def created_row_def updated_row_def stored_def py_falsy_def)

lemma save_end_content [simp]:
  "content_of (save_end req a s) = content_of s" "instanceAssignments (save_end req a s) = instanceAssignments s"
  by (auto simp: save_end_def content_of_def commit_def split: option.splits save_request.splits)

lemma rows_ok_set: "rows_ok tab \<Longrightarrow> jsm_ok (row_instances row) \<Longrightarrow> rows_ok (mset_key mid row tab)"
  by (auto simp: rows_ok_def)

lemma served_rows_ok:
  assumes "serve req fresh tab = Some (answer, tab')" and "rows_ok tab" and "content_of_request req = content_of s"
    and "jsm_ok (instanceAssignments s)"
  shows "rows_ok tab'"
  using assms
  by (cases req) (auto simp: content_of_def content_of_blueprint_def created_row_def updated_row_def
      split: option.splits if_splits intro!: rows_ok_set)

lemma saved_up_to_date:
  assumes "serve req fresh (backend c) = Some (answer, tab)" and "request_is_for req (activeContextModelId (model c))"
    and "content_of_request req = content_of (model c)"
  shows "up_to_date (c\<lparr>model := save_end req (Some answer) (model c), backend := tab, pending_save := None\<rparr>)"
proof (cases req)
  case (Update_Model mid b)
  with assms stored_request(2) [of b] show ?thesis
    by (auto simp: up_to_date_def save_end_def commit_def content_of_def split: option.splits)
next
  case (Create_Model b)
  with assms stored_request(1) [of b] show ?thesis
    by (auto simp: up_to_date_def save_end_def commit_def content_of_def split: if_splits)
qed

lemma install_up_to_date:
  assumes "mid \<noteq> ''''" and "mget tab mid = Some row" and "\<And>e. mget inst e = mget (row_instances row) e"
  shows "up_to_date (c\<lparr>model := install_model (response_of mid row) inst s, backend := tab\<rparr>)"
  using assms
  by (auto simp: up_to_date_def install_model_def response_of_def Let_def commit_def content_of_def stored_in_def stored_def)

lemma install_frame:
  "syncStatus (install_model m inst s) = Synced" "instanceAssignments (install_model m inst s) = inst"
  by (simp_all add: install_model_def Let_def commit_def)

lemma backend_same [simp]: "c\<lparr>model := s, backend := backend c\<rparr> = c\<lparr>model := s\<rparr>"
  by (cases c) simp

lemma sync_ok_step:
  assumes "sync_ok c" and "sync_step c c'"
  shows "sync_ok c'"
  using assms(2)
proof cases
  case (edit e)
  have "up_to_date (c\<lparr>model := rm_step e (model c)\<rparr>)"
    if "up_to_date c" "content_of (rm_step e (model c)) = content_of (model c)"
    using that active_id_step [OF edit(3)] by (simp add: up_to_date_def)
  with edit_status [OF edit(2,3)] instances_ok_step [OF _ edit(3)] assms(1) edit show ?thesis
    by (auto simp: sync_ok_def)
next
  case (save req s')
  with assms(1) show ?thesis
    by (auto simp: sync_ok_def save_begin_def commit_def content_of_def blueprint_of_def content_of_blueprint_def
        elim!: truthyE split: if_splits)
next
  case (saved req fresh answer tab)
  with assms(1) have ok: "request_is_for req (activeContextModelId (model c))" "content_of_request req = content_of (model c)"
    by (auto simp: sync_ok_def)
  have "syncStatus (save_end req (Some answer) (model c)) = Synced"
    by (cases req; cases answer) (simp_all add: save_end_def commit_def)
  with saved assms(1) saved_up_to_date [OF saved(3) ok] served_rows_ok [OF saved(3) _ ok(2)] show ?thesis
    by (auto simp: sync_ok_def)
next
  case (lost req fresh answer tab)
  with assms(1) served_rows_ok [OF lost(3)] show ?thesis by (auto simp: sync_ok_def save_end_def commit_def)
next
  case (failed req)
  with assms(1) show ?thesis by (auto simp: sync_ok_def save_end_def commit_def)
next
  case (load mid row)
  then have "jsm_ok (row_instances row)" using assms(1) by (auto simp: sync_ok_def rows_ok_def)
  with load install_up_to_date [of mid "backend c" row "mfrom (row_instances row)" "model c" c] assms(1) show ?thesis
    by (auto simp: sync_ok_def loadFromBackend_def install_frame mget_mfrom_ok response_of_def)
next
  case (template fresh row)
  with install_up_to_date [of fresh "mset_key fresh row (backend c)" row "[]" "model c" c] assms(1) show ?thesis
    by (auto simp: sync_ok_def loadTemplate_def install_frame intro: rows_ok_set)
next
  case not_loaded
  with assms(1) show ?thesis by (simp add: loadFromBackend_def)
qed

text \<open>
  C3: start with the fresh store, let no edit and no load happen while a save is running and no other client write
  the models. Then the store says \<open>synced\<close> only if the row of the active model in the backend's table has its
  layers (in the order stored or in display order), its instance assignments, and its filter and edge
  configuration where the store has one that is not empty, and without an active model only if the store has no
  content; a save on its way carries the present content. Every edit marks the store dirty, and a save that failed
  or whose answer was lost does not count. A filter that was taken away stays in the backend
  (\<open>cleared_filter_is_not_saved\<close>).
\<close>

theorem synced_means_saved:
  assumes "sync_reach \<lparr>model = initial_refmodel, backend = tab, pending_save = None\<rparr> c" and "rows_ok tab"
  shows "(syncStatus (model c) = Synced \<longrightarrow>
      (if truthy (activeContextModelId (model c))
       then \<exists>row. mget (backend c) (the (activeContextModelId (model c))) = Some row
         \<and> (layers (model c) = row_layers row \<or> layers (model c) = in_display_order (row_layers row))
         \<and> (\<forall>e. mget (instanceAssignments (model c)) e = mget (row_instances row) e)
         \<and> (scopeFilter (model c) = row_scopeFilter row \<or> py_falsy (scopeFilter (model c)))
         \<and> (scopeEdgeConfig (model c) = row_scopeEdgeConfig row \<or> py_falsy (scopeEdgeConfig (model c)))
       else content_of (model c) = ([], None, [], None)))
    \<and> (\<forall>req. pending_save c = Some req \<longrightarrow> content_of_request req = content_of (model c))"
proof -
  have "sync_ok \<lparr>model = initial_refmodel, backend = tab, pending_save = None\<rparr>"
    using assms(2) by (simp add: sync_ok_def up_to_date_def initial_refmodel_def)
  with assms(1) have "sync_ok c" by (induction rule: sync_reach.induct) (auto intro: sync_ok_step)
  moreover have "content_of initial_refmodel = ([], None, [], None)" by (simp add: content_of_def initial_refmodel_def)
  ultimately show ?thesis
    by (auto simp: sync_ok_def up_to_date_def stored_in_def stored_def content_of_def split: if_splits)
qed

definition fresh_sync :: sync where
  "fresh_sync = \<lparr>model = initial_refmodel, backend = [], pending_save = None\<rparr>"

theorem synced_means_saved_witness:
  "\<exists>c row. sync_reach fresh_sync c \<and> mget (backend c) ''m'' = Some row \<and> row_scopeFilter row = Some (JStr ''f'')
    \<and> scopeFilter (model c) = row_scopeFilter row"
proof -
  let ?s1 = "rm_step (SetScopeFilter (Some (JStr ''f''))) initial_refmodel"
  let ?req = "the (fst (save_begin ?s1))"
  let ?s2 = "snd (save_begin ?s1)"
  let ?ans = "the (serve ?req ''m'' [])"
  let ?c1 = "fresh_sync\<lparr>model := ?s1\<rparr>"
  let ?c2 = "?c1\<lparr>model := ?s2, pending_save := Some ?req\<rparr>"
  let ?c3 = "?c2\<lparr>model := save_end ?req (Some (fst ?ans)) (model ?c2), backend := snd ?ans, pending_save := None\<rparr>"
  have run: "save_begin ?s1 = (Some ?req, ?s2)" "serve ?req ''m'' [] = Some (fst ?ans, snd ?ans)" by code_simp+
  have "sync_step fresh_sync ?c1"
    using sync_step.edit [of fresh_sync "SetScopeFilter (Some (JStr ''f''))"] by (simp add: fresh_sync_def initial_refmodel_def)
  moreover have "sync_step ?c1 ?c2" using sync_step.save [of ?c1 ?req ?s2] run(1) by (simp add: fresh_sync_def)
  moreover have "sync_step ?c2 ?c3" using sync_step.saved [of ?c2 ?req "''m''" "fst ?ans" "snd ?ans"] run(2) by (simp add: fresh_sync_def)
  ultimately have reach: "sync_reach fresh_sync ?c3" by (meson sync_reach.intros)
  have run3: "syncStatus (model ?c3) = Synced" "activeContextModelId (model ?c3) = Some ''m''"
    "scopeFilter (model ?c3) = Some (JStr ''f'')"
    by code_simp+
  from reach have "sync_reach \<lparr>model = initial_refmodel, backend = [], pending_save = None\<rparr> ?c3" by (simp add: fresh_sync_def)
  from synced_means_saved [OF this] run3 reach show ?thesis
    by (auto simp: rows_ok_def py_falsy_def no_value_def)
qed

text \<open>
  A filter that is taken away is not saved: the update sends null, the backend keeps the old filter, and the next
  load brings it back.
\<close>

lemma cleared_filter_is_not_saved:
  "let s1 = rm_step (SetScopeFilter (Some (JStr ''f''))) initial_refmodel;
       (req1, s2) = save_begin s1; (a1, tab1) = the (serve (the req1) ''m'' []); s3 = save_end (the req1) (Some a1) s2;
       (req2, s4) = save_begin (rm_step (SetScopeFilter None) s3); (a2, tab2) = the (serve (the req2) '''' tab1);
       s5 = save_end (the req2) (Some a2) s4
   in syncStatus s5 = Synced \<and> scopeFilter s5 = None
      \<and> scopeFilter (loadFromBackend (Some (response_of ''m'' (the (mget tab2 ''m'')))) s5) = Some (JStr ''f'')"
  by code_simp

text \<open>An edit made while the save is running is neither saved nor marked: the store ends up synced.\<close>

lemma edit_while_saving_is_lost:
  "let s1 = rm_step SaveBegin initial_refmodel;
       s2 = rm_step (SetScopeFilter (Some JNull)) s1;
       s3 = rm_step (SaveEnd (the (fst (save_begin initial_refmodel))) (Some (''m'', ''Model''))) s2
   in syncStatus s3 = Synced \<and> content_of s3 \<noteq> content_of_request (the (fst (save_begin initial_refmodel)))"
  by code_simp

section \<open>Order of the layers\<close>

lemma renumber_ids [simp]: "map ly_id (renumber ls) = map ly_id ls"
  by (rule nth_equalityI) (simp_all add: renumber_def nth_enumerate_eq)

lemma renumber_orders: "map ly_order (renumber ls) = map int [0..<length ls]"
  by (rule nth_equalityI) (simp_all add: renumber_def nth_enumerate_eq)

text \<open>A sequence that leaves a layer out deletes the layer, an id that is no layer stays in the sequence.\<close>

definition plain_layer :: "ident \<Rightarrow> layer" where
  "plain_layer lid = \<lparr>ly_id = lid, ly_name = lid, ly_color = None, ly_entityTypes = [], ly_order = 0, ly_sequence = None,
     ly_logicalNodes = None, ly_rules = None, ly_entityAssignments = None, ly_rest = []\<rparr>"

lemma reorder_drops_unlisted:
  "let s = reorderLayers [''b'', ''x''] (setLayers [plain_layer ''a'', plain_layer ''b''] initial_refmodel)
   in map ly_id (layers s) = [''b''] \<and> layerSequence s = [''b'', ''x'']"
  by code_simp

text \<open>Columns of two layers of the sequence do not overlap.\<close>

lemma index_of_nth: "index_of x xs = Some i \<Longrightarrow> i < length xs \<and> xs ! i = x"
  by (induction xs arbitrary: i) (auto split: if_splits)

lemma columns_disjoint:
  assumes "index_of a (layerSequence s) = Some i" and "index_of b (layerSequence s) = Some j" and "i < j"
    and "0 \<le> width" and "0 \<le> gap"
  shows "calculateLayerX margin width gap a s + width + gap \<le> calculateLayerX margin width gap b s"
proof -
  have "int i + 1 \<le> int j" using assms(3) by simp
  then have "(int i + 1) * (width + gap) \<le> int j * (width + gap)" using assms(4,5) by (intro mult_right_mono) auto
  then show ?thesis by (simp add: calculateLayerX_def assms(1,2) algebra_simps)
qed

end
