(* ===== verification/Layer_Assignment.thy ===== *)
theory Layer_Assignment
  imports Reference_Model "HOL-Library.Multiset"
begin

text \<open>
  The layout of entities into layers, \<^verbatim>\<open>hooks/useLayerAssignment.ts\<close>: the rules derived from the layers,
  the effective layer of every node with containment inheritance, the hierarchy shown in each layer
  with its logical groups, and the flat views of it. The collation of \<^verbatim>\<open>localeCompare\<close> is a parameter:
  \<open>coll\<close> gives a string's collation key. A result \<open>None\<close> is an exception of a rule's pattern.
\<close>

section \<open>Inputs\<close>

record layout_input =
  li_nodes :: "lineage_node list"
  li_layers :: "layer list"
  li_instance :: "(ident, assignment_config) jsmap"
  li_backend :: "(ident, assignment) jsmap"
  li_nodeMap :: "(ident, lineage_node) jsmap"
  li_childMap :: "(ident, ident list) jsmap"
  li_parentMap :: parent_map

definition kids_of :: "(ident, ident list) jsmap \<Rightarrow> ident \<Rightarrow> ident list" where
  "kids_of cm n = nullish (mget cm n) []"

section \<open>Rules of the layers\<close>

text \<open>The copy of a configured rule; its compound conditions are not copied.\<close>

definition explicit_rule :: "layer \<Rightarrow> rule_config \<Rightarrow> layer_rule" where
  "explicit_rule l r =
     \<lparr>rule_id = rule_id r, rule_entityTypes = Some (nullish (rule_entityTypes r) []), rule_tags = rule_tags r,
      rule_urnPattern = rule_urnPattern r, rule_propertyMatch = rule_propertyMatch r, rule_conditions = None,
      rule_priority = rule_priority r, rule_inheritsFromParent = None, rule_layerId = ly_id l\<rparr>"

definition entity_type_rule :: "layer \<Rightarrow> nat \<times> string \<Rightarrow> layer_rule" where
  "entity_type_rule l it =
     \<lparr>rule_id = ly_id l @ ''-type-'' @ snd it, rule_entityTypes = Some [snd it], rule_tags = None,
      rule_urnPattern = None, rule_propertyMatch = None, rule_conditions = None,
      rule_priority = of_int (ly_order l * 10 + int (fst it)), rule_inheritsFromParent = None, rule_layerId = ly_id l\<rparr>"

definition layerRules :: "layer list \<Rightarrow> layer_rule list" where
  "layerRules ls =
     concat (map (\<lambda>l. map (explicit_rule l) (nullish (ly_rules l) [])
                      @ map (entity_type_rule l) (enumerate 0 (ly_entityTypes l))) ls)"

section \<open>The effective layer of a node\<close>

definition explicitAssignments :: "layer list \<Rightarrow> (ident, ident) jsmap" where
  "explicitAssignments ls =
     fold (\<lambda>l m. fold (\<lambda>a m. mset_key (ac_entityId a) (ly_id l) m) (nullish (ly_entityAssignments l) []) m) ls []"

definition graph_node_of :: "lineage_node \<Rightarrow> graph_node" where
  "graph_node_of n =
     (let d = node_data n
      in \<lparr>gn_urn = str_or (str_field d ''urn'') (node_id n), gn_entityType = str_or (str_field d ''type'') '''',
          gn_displayName = str_or (str_field d ''label'') (str_or (str_field d ''businessLabel'') (node_id n)),
          gn_tags = Some (nullish (strs_field d ''classifications'') []), gn_properties = d\<rparr>)"

fun ruleAssignments ::
  "regex_engine \<Rightarrow> layer_rule list \<Rightarrow> (ident, ident) jsmap \<Rightarrow> lineage_node list \<Rightarrow> (ident, ident) jsmap \<Rightarrow> (ident, ident) jsmap option" where
  "ruleAssignments rx rules explicit [] m = Some m"
| "ruleAssignments rx rules explicit (n # ns) m =
     (if mhas explicit (node_id n) then ruleAssignments rx rules explicit ns m
      else (case resolveLayerAssignment rx (graph_node_of n) rules of
              None \<Rightarrow> None
            | Some r \<Rightarrow>
                ruleAssignments rx rules explicit ns (if truthy r then mset_key (node_id n) (the r) m else m)))"

text \<open>\<open>or_else a b\<close>: \<^verbatim>\<open>if (!x) x = b\<close> after \<^verbatim>\<open>x = a\<close>.\<close>

definition or_else :: "string option \<Rightarrow> string option \<Rightarrow> string option" where
  "or_else a b = (if truthy a then a else b)"

record sources =
  src_backend :: "(ident, assignment) jsmap"
  src_instance :: "(ident, assignment_config) jsmap"
  src_explicit :: "(ident, ident) jsmap"
  src_rules :: "(ident, ident) jsmap"

definition priority_chain :: "sources \<Rightarrow> ident \<Rightarrow> ident option \<Rightarrow> ident option" where
  "priority_chain src n inherited =
     or_else (map_option as_layerId (mget (src_backend src) n))
       (or_else (map_option ac_layerId (mget (src_instance src) n))
         (or_else (mget (src_explicit src) n)
           (or_else (mget (src_rules src) n) inherited)))"

definition my_layer :: "sources \<Rightarrow> parent_map \<Rightarrow> ident \<Rightarrow> ident option \<Rightarrow> ident option" where
  "my_layer src pm n inherited =
     (let l = (if mhas pm n \<and> truthy inherited then inherited else priority_chain src n inherited)
      in if l = Some ''__UNASSIGNED__'' then None else l)"

text \<open>The traversal; the top of the stack is the head of the list.\<close>

function traverse ::
  "sources \<Rightarrow> parent_map \<Rightarrow> (ident, ident list) jsmap \<Rightarrow> (ident \<times> ident option) list \<Rightarrow> ident list \<Rightarrow> (ident, ident) jsmap
     \<Rightarrow> ident list \<times> (ident, ident) jsmap" where
  "traverse src pm cm [] processed eff = (processed, eff)"
| "traverse src pm cm ((n, inherited) # stack) processed eff =
     (if n \<in> set processed then traverse src pm cm stack processed eff
      else (let l = my_layer src pm n inherited
            in traverse src pm cm (map (\<lambda>c. (c, l)) (kids_of cm n) @ stack) (processed @ [n])
                 (if truthy l then mset_key n (the l) eff else eff)))"
  by pat_completeness auto

definition map_values :: "(ident, ident list) jsmap \<Rightarrow> ident list" where
  "map_values cm = concat (map snd cm)"

lemma kids_of_values: "set (kids_of cm n) \<subseteq> set (map_values cm)"
  by (cases "mget cm n") (auto simp: kids_of_def map_values_def dest!: map_of_SomeD)

termination traverse
proof (relation "(\<lambda>(src, pm, cm, stack, processed, eff). card ((set (map_values cm) \<union> set (map fst stack)) - set processed))
    <*mlex*> measure (\<lambda>(src, pm, cm, stack, processed, eff). length stack)", goal_cases)
  case 1
  show ?case by (simp add: wf_mlex)
next
  case (2 src pm cm n inherited stack processed eff)
  then have "(set (map_values cm) \<union> set (map fst stack)) - set processed
      = (set (map_values cm) \<union> set (map fst ((n, inherited) # stack))) - set processed" by auto
  then show ?case by (simp add: mlex_prod_def del: set_map list.map)
next
  case (3 src pm cm n inherited stack processed eff l)
  have "(set (map_values cm) \<union> set (map fst (map (\<lambda>c. (c, l)) (kids_of cm n) @ stack))) - set (processed @ [n])
      \<subset> (set (map_values cm) \<union> set (map fst ((n, inherited) # stack))) - set processed"
    using 3 kids_of_values [of cm n] by auto
  then have "card ((set (map_values cm) \<union> set (map fst (map (\<lambda>c. (c, l)) (kids_of cm n) @ stack))) - set (processed @ [n]))
      < card ((set (map_values cm) \<union> set (map fst ((n, inherited) # stack))) - set processed)"
    by (intro psubset_card_mono) simp_all
  then show ?case by (simp add: mlex_prod_def del: set_map list.map map_append set_append)
qed

definition root_ids :: "layout_input \<Rightarrow> ident list" where
  "root_ids i = map node_id (filter (\<lambda>n. \<not> mhas (li_parentMap i) (node_id n)) (li_nodes i))"

definition effectiveLayer :: "sources \<Rightarrow> layout_input \<Rightarrow> (ident, ident) jsmap" where
  "effectiveLayer src i =
     snd (traverse src (li_parentMap i) (li_childMap i) (map (\<lambda>r. (r, None)) (root_ids i)) [] [])"

definition sources_of :: "regex_engine \<Rightarrow> layout_input \<Rightarrow> sources option" where
  "sources_of rx i =
     map_option (\<lambda>rules. \<lparr>src_backend = li_backend i, src_instance = li_instance i,
                           src_explicit = explicitAssignments (li_layers i), src_rules = rules\<rparr>)
       (ruleAssignments rx (layerRules (li_layers i)) (explicitAssignments (li_layers i)) (li_nodes i) [])"

section \<open>The hierarchy of a layer\<close>

datatype hnode =
  HNode (hn_id: ident) (hn_typeId: "string option") (hn_name: string) (hn_data: jsobj) (hn_children: "hnode list")
    (hn_depth: nat) (hn_urn: urn) (hn_entityTypeOption: string) (hn_tags: "string list") (hn_logicalConfig: "logical_node option")

definition by_name :: "(string \<Rightarrow> string) \<Rightarrow> hnode list \<Rightarrow> hnode list" where
  "by_name coll hs = sort_key (\<lambda>h. coll (hn_name h)) hs"

definition make_hnode :: "lineage_node \<Rightarrow> hnode list \<Rightarrow> nat \<Rightarrow> hnode" where
  "make_hnode n children depth =
     (let d = node_data n
      in HNode (node_id n) (str_field d ''type'')
           (nullish (str_field d ''label'') (nullish (str_field d ''businessLabel'') (node_id n))) d children depth
           (str_or (str_field d ''urn'') (node_id n)) (str_or (str_field d ''type'') '''')
           (nullish (strs_field d ''classifications'') []) None)"

text \<open>
  \<open>buildHierarchyNode\<close>: children of the same layer, built before their parent. The second phase walks
  the depth-first order backwards, so children arrive in reverse before the stable sort; a node
  the node map does not know is dropped with everything below it. The fuel bounds the depth.
\<close>

fun buildHierarchyNode ::
  "nat \<Rightarrow> (string \<Rightarrow> string) \<Rightarrow> layout_input \<Rightarrow> (ident, ident) jsmap \<Rightarrow> ident option \<Rightarrow> nat \<Rightarrow> ident \<Rightarrow> hnode list" where
  "buildHierarchyNode 0 coll i eff rootLayer depth nid = []"
| "buildHierarchyNode (Suc fuel) coll i eff rootLayer depth nid =
     (case mget (li_nodeMap i) nid of
        None \<Rightarrow> []
      | Some n \<Rightarrow>
          [make_hnode n
             (by_name coll (rev (concat (map (buildHierarchyNode fuel coll i eff rootLayer (Suc depth))
                (filter (\<lambda>c. mget eff c = rootLayer) (kids_of (li_childMap i) nid)))))) depth])"

text \<open>The layer of the containment parent, when it has one.\<close>

definition parent_layer :: "layout_input \<Rightarrow> (ident, ident) jsmap \<Rightarrow> ident \<Rightarrow> ident option" where
  "parent_layer i eff nid =
     (let p = mget (li_parentMap i) nid in if truthy p then mget eff (the p) else None)"

definition depth_fuel :: "layout_input \<Rightarrow> nat" where
  "depth_fuel i = Suc (length (li_nodes i))"

definition place_node ::
  "(string \<Rightarrow> string) \<Rightarrow> layout_input \<Rightarrow> (ident, ident) jsmap \<Rightarrow> lineage_node \<Rightarrow> (ident, hnode list) jsmap \<Rightarrow> (ident, hnode list) jsmap" where
  "place_node coll i eff n grouped =
     (case mget eff (node_id n) of
        None \<Rightarrow> grouped
      | Some l \<Rightarrow>
          if Some l \<noteq> parent_layer i eff (node_id n) then
            (case mget grouped l of
               None \<Rightarrow> grouped
             | Some hs \<Rightarrow>
                 mset_key l (hs @ buildHierarchyNode (depth_fuel i) coll i eff (mget eff (node_id n)) 0 (node_id n)) grouped)
          else grouped)"

definition physicalByLayer :: "(string \<Rightarrow> string) \<Rightarrow> layout_input \<Rightarrow> (ident, ident) jsmap \<Rightarrow> (ident, hnode list) jsmap" where
  "physicalByLayer coll i eff =
     map (\<lambda>(l, hs). (l, by_name coll hs))
       (fold (place_node coll i eff) (li_nodes i) (mfrom (map (\<lambda>l. (ly_id l, [])) (li_layers i))))"

section \<open>Logical groups\<close>

definition entityLogicalMap :: "layout_input \<Rightarrow> (ident, ident) jsmap" where
  "entityLogicalMap i =
     (let put = (\<lambda>e lid m. if truthy lid then mset_key e (the lid) m else m);
          fromLayers = fold (\<lambda>l m. fold (\<lambda>a m. put (ac_entityId a) (ac_logicalNodeId a) m) (nullish (ly_entityAssignments l) []) m) (li_layers i) []
      in fold (\<lambda>(e, a) m. put e (ac_logicalNodeId a) m) (li_instance i) fromLayers)"

fun logical_ids :: "logical_node list \<Rightarrow> ident list" where
  "logical_ids [] = []"
| "logical_ids (Logical_Node nid name ty children rules # rest) =
     nid # (case children of None \<Rightarrow> [] | Some cs \<Rightarrow> logical_ids cs) @ logical_ids rest"

definition in_group :: "layout_input \<Rightarrow> logical_node list \<Rightarrow> ident \<Rightarrow> hnode \<Rightarrow> bool" where
  "in_group i lns lid h \<longleftrightarrow> mget (entityLogicalMap i) (hn_id h) = Some lid \<and> lid \<noteq> '''' \<and> lid \<in> set (logical_ids lns)"

definition grouped_in :: "layout_input \<Rightarrow> logical_node list \<Rightarrow> hnode \<Rightarrow> bool" where
  "grouped_in i lns h \<longleftrightarrow>
     (case mget (entityLogicalMap i) (hn_id h) of None \<Rightarrow> False | Some lid \<Rightarrow> in_group i lns lid h)"

definition logical_data :: "string \<Rightarrow> string \<Rightarrow> jsobj" where
  "logical_data ty name = [(''type'', JStr ty), (''label'', JStr name), (''isLogical'', JBool True)]"

text \<open>\<open>members lid\<close> are the entities assigned to the group; groups without members or children are left out.\<close>

fun buildLogicalHierarchy :: "(string \<Rightarrow> string) \<Rightarrow> (ident \<Rightarrow> hnode list) \<Rightarrow> logical_node list \<Rightarrow> nat \<Rightarrow> hnode list" where
  "buildLogicalHierarchy coll members [] depth = []"
| "buildLogicalHierarchy coll members (Logical_Node nid name ty children rules # rest) depth =
     (let childGroups = (case children of None \<Rightarrow> [] | Some cs \<Rightarrow> buildLogicalHierarchy coll members cs (Suc depth));
          inside = by_name coll (childGroups @ members nid);
          wrapper = HNode (''logical:'' @ nid) (Some ty) name (logical_data ty name) inside depth (''logical:'' @ nid) ty []
                      (Some (Logical_Node nid name ty children rules))
      in (if inside \<noteq> [] \<or> members nid \<noteq> [] then [wrapper] else [])
           @ buildLogicalHierarchy coll members rest depth)"

definition group_layer :: "(string \<Rightarrow> string) \<Rightarrow> layout_input \<Rightarrow> layer \<Rightarrow> (ident, hnode list) jsmap \<Rightarrow> (ident, hnode list) jsmap" where
  "group_layer coll i l grouped =
     (let lns = nullish (ly_logicalNodes l) []; hs = nullish (mget grouped (ly_id l)) []
      in if lns = [] \<or> hs = [] \<or> \<not> list_ex (grouped_in i lns) hs then grouped
         else mset_key (ly_id l)
                (buildLogicalHierarchy coll (\<lambda>lid. filter (in_group i lns lid) hs) lns 0
                   @ filter (\<lambda>h. \<not> grouped_in i lns h) hs) grouped)"

definition nodesByLayer :: "regex_engine \<Rightarrow> (string \<Rightarrow> string) \<Rightarrow> layout_input \<Rightarrow> (ident, hnode list) jsmap option" where
  "nodesByLayer rx coll i =
     (case sources_of rx i of
        None \<Rightarrow> None
      | Some src \<Rightarrow>
          (let physical = physicalByLayer coll i (effectiveLayer src i)
           in Some (if entityLogicalMap i = [] then physical else fold (group_layer coll i) (li_layers i) physical)))"

section \<open>Flat views\<close>

text \<open>The stack starts with the last root on top; the top is the head of the list.\<close>

fun hnode_size :: "hnode \<Rightarrow> nat" where
  "hnode_size (HNode _ _ _ _ children _ _ _ _ _) = Suc (sum_list (map hnode_size children))"

lemma hnode_size_pos: "0 < hnode_size h"
  by (cases h) simp

lemma hnode_size_children: "hnode_size h = Suc (sum_list (map hnode_size (hn_children h)))"
  by (cases h) simp

function flatten :: "hnode list \<Rightarrow> (ident, hnode) jsmap \<Rightarrow> (ident, hnode) jsmap" where
  "flatten [] m = m"
| "flatten (h # stack) m =
     (if mhas m (hn_id h) then flatten stack m
      else flatten (hn_children h @ stack) (m @ [(hn_id h, h)]))"
  by pat_completeness auto
termination
  by (relation "measure (\<lambda>(stack, m). sum_list (map hnode_size stack))") (auto simp: hnode_size_pos hnode_size_children)

definition displayMap :: "(ident, hnode list) jsmap \<Rightarrow> (ident, hnode) jsmap" where
  "displayMap byLayer = fold (\<lambda>(l, hs) m. flatten (rev hs) m) byLayer []"

definition displayFlat :: "(ident, hnode list) jsmap \<Rightarrow> hnode list" where
  "displayFlat byLayer = map snd (displayMap byLayer)"

definition urnToIdMap :: "(ident, hnode list) jsmap \<Rightarrow> (urn, ident) jsmap" where
  "urnToIdMap byLayer =
     fold (\<lambda>h m. if hn_urn h \<noteq> '''' then mset_key (hn_urn h) (hn_id h) m else m) (displayFlat byLayer) []"

function mark_layer :: "ident \<Rightarrow> hnode list \<Rightarrow> (ident, ident) jsmap \<Rightarrow> (ident, ident) jsmap" where
  "mark_layer l [] m = m"
| "mark_layer l (h # stack) m = mark_layer l (hn_children h @ stack) (mset_key (hn_id h) l m)"
  by pat_completeness auto
termination
  by (relation "measure (\<lambda>(l, stack, m). sum_list (map hnode_size stack))") (auto simp: hnode_size_children)

definition nodeLayerMap :: "(ident, hnode list) jsmap \<Rightarrow> (ident, ident) jsmap" where
  "nodeLayerMap byLayer = fold (\<lambda>(l, hs) m. mark_layer l (rev hs) m) byLayer []"

section \<open>Inheritance\<close>

definition norm :: "string option \<Rightarrow> string option" where
  "norm l = (if truthy l then l else None)"

definition own_layer :: "sources \<Rightarrow> ident \<Rightarrow> ident option" where
  "own_layer src n =
     (let l = priority_chain src n None in if l = Some ''__UNASSIGNED__'' then None else norm l)"

definition inherited_from :: "parent_map \<Rightarrow> (ident, ident) jsmap \<Rightarrow> ident \<Rightarrow> ident option" where
  "inherited_from pm eff n = (case mget pm n of None \<Rightarrow> None | Some p \<Rightarrow> mget eff p)"

definition consistent_kids :: "parent_map \<Rightarrow> (ident, ident list) jsmap \<Rightarrow> bool" where
  "consistent_kids pm cm \<longleftrightarrow> (\<forall>p c. c \<in> set (kids_of cm p) \<longleftrightarrow> mget pm c = Some p)"

text \<open>The layer of a node as the rule prescribes it.\<close>

definition layer_rule_holds :: "sources \<Rightarrow> parent_map \<Rightarrow> (ident, ident) jsmap \<Rightarrow> ident \<Rightarrow> bool" where
  "layer_rule_holds src pm eff n \<longleftrightarrow>
     mget eff n = (case inherited_from pm eff n of Some l \<Rightarrow> Some l | None \<Rightarrow> own_layer src n)"

text \<open>What holds between two turns of the traversal.\<close>

definition traverse_inv ::
  "sources \<Rightarrow> parent_map \<Rightarrow> (ident \<times> ident option) list \<Rightarrow> ident list \<Rightarrow> (ident, ident) jsmap \<Rightarrow> bool" where
  "traverse_inv src pm stack processed eff \<longleftrightarrow>
     (\<forall>(c, inh) \<in> set stack. norm inh = inherited_from pm eff c \<and> (\<forall>p. mget pm c = Some p \<longrightarrow> p \<in> set processed))
     \<and> (\<forall>n \<in> set processed. \<forall>p. mget pm n = Some p \<longrightarrow> p \<in> set processed)
     \<and> (\<forall>n. mget eff n \<noteq> None \<longrightarrow> n \<in> set processed \<and> mget eff n \<noteq> Some ''__UNASSIGNED__'' \<and> mget eff n \<noteq> Some '''')
     \<and> (\<forall>n \<in> set processed. layer_rule_holds src pm eff n)"

lemma norm_simps [simp]: "norm None = None" "norm (Some s) = (if s = '''' then None else Some s)"
  by (simp_all add: norm_def)

lemma norm_nonempty: "norm l \<noteq> Some ''''"
  by (cases l) simp_all

lemma priority_chain_norm: "norm (priority_chain src n inh) = norm (priority_chain src n (norm inh))"
  by (cases inh) (auto simp: priority_chain_def or_else_def norm_def)

lemma my_layer_norm:
  assumes "norm inh = h" and "h \<noteq> Some ''__UNASSIGNED__''" and "h \<noteq> None \<Longrightarrow> mhas pm n"
  shows "norm (my_layer src pm n inh) = (case h of Some l \<Rightarrow> Some l | None \<Rightarrow> own_layer src n)"
proof (cases h)
  case None
  then have untrue: "\<not> truthy inh" using assms(1) by (cases inh) (auto split: if_splits)
  then have "norm (priority_chain src n inh) = norm (priority_chain src n None)"
    using priority_chain_norm [of src n inh] by (simp add: norm_def)
  moreover have "priority_chain src n inh = Some ''__UNASSIGNED__'' \<longleftrightarrow> priority_chain src n None = Some ''__UNASSIGNED__''"
    using untrue by (cases inh) (auto simp: priority_chain_def or_else_def)
  ultimately show ?thesis using None untrue by (simp add: my_layer_def own_layer_def Let_def)
next
  case (Some l)
  then have "inh = Some l" "l \<noteq> ''''" using assms(1) by (cases inh; auto split: if_splits)+
  with Some assms show ?thesis by (simp add: my_layer_def Let_def)
qed

lemma traverse_inv_pop:
  assumes inv: "traverse_inv src pm ((n, inh) # stack) processed eff" and new: "n \<notin> set processed"
    and kids: "consistent_kids pm cm"
  defines "l \<equiv> my_layer src pm n inh"
  defines "eff' \<equiv> if truthy l then mset_key n (the l) eff else eff"
  shows "traverse_inv src pm (map (\<lambda>c. (c, l)) (kids_of cm n) @ stack) (processed @ [n]) eff'"
proof -
  have absent: "mget eff n = None" using inv new by (auto simp: traverse_inv_def)
  have mine: "mget eff' x = (if x = n then norm l else mget eff x)" for x
    using absent by (auto simp: eff'_def norm_def truthy_def)
  have parent_not_n: "inherited_from pm eff' x = inherited_from pm eff x" if "\<forall>p. mget pm x = Some p \<longrightarrow> p \<in> set processed" for x
    using that new by (auto simp: inherited_from_def mine split: option.splits)
  have n_stack: "norm inh = inherited_from pm eff n" "\<forall>p. mget pm n = Some p \<longrightarrow> p \<in> set processed"
    using inv by (auto simp: traverse_inv_def)
  have unassigned: "inherited_from pm eff n \<noteq> Some ''__UNASSIGNED__''"
    using inv unfolding inherited_from_def by (auto simp: traverse_inv_def split: option.splits)
  have l: "norm l = (case inherited_from pm eff n of Some l \<Rightarrow> Some l | None \<Rightarrow> own_layer src n)"
    unfolding l_def using n_stack(1) unassigned
    by (intro my_layer_norm) (auto simp: inherited_from_def split: option.splits)
  have own_ok: "own_layer src x \<noteq> Some ''__UNASSIGNED__'' \<and> own_layer src x \<noteq> Some ''''" for x
    by (auto simp: own_layer_def Let_def norm_def truthy_def)
  have l_ok: "norm l \<noteq> Some ''__UNASSIGNED__'' \<and> norm l \<noteq> Some ''''"
    using l own_ok unassigned norm_nonempty [of l] by (auto split: option.splits)
  have kids_n: "mget pm c = Some n" if "c \<in> set (kids_of cm n)" for c
    using that kids by (simp add: consistent_kids_def)
  show ?thesis
    unfolding traverse_inv_def
  proof (intro conjI ballI allI impI, goal_cases)
    case (1 e)
    show ?case
    proof (cases "e \<in> set stack")
      case True
      then have "norm (snd e) = inherited_from pm eff (fst e)" "\<forall>p. mget pm (fst e) = Some p \<longrightarrow> p \<in> set processed"
        using inv by (auto simp: traverse_inv_def)
      then show ?thesis using parent_not_n by (auto split: prod.splits)
    next
      case False
      with 1 obtain c where "e = (c, l)" "c \<in> set (kids_of cm n)" by auto
      then show ?thesis using kids_n by (auto simp: inherited_from_def mine)
    qed
  next
    case (2 m p)
    then show ?case using inv n_stack(2) by (auto simp: traverse_inv_def)
  next
    case (3 m)
    then show ?case using inv by (auto simp: traverse_inv_def mine split: if_splits)
  next
    case (4 m)
    then show ?case using inv l_ok by (auto simp: traverse_inv_def mine split: if_splits)
  next
    case (5 m)
    then show ?case using inv l_ok by (auto simp: traverse_inv_def mine split: if_splits)
  next
    case (6 m)
    show ?case
    proof (cases "m = n")
      case True
      then show ?thesis using l parent_not_n [OF n_stack(2)] by (simp add: mine layer_rule_holds_def)
    next
      case False
      with 6 have "m \<in> set processed" by simp
      with inv have "\<forall>p. mget pm m = Some p \<longrightarrow> p \<in> set processed" "layer_rule_holds src pm eff m"
        by (auto simp: traverse_inv_def)
      then show ?thesis using False parent_not_n [of m] by (simp add: mine layer_rule_holds_def)
    qed
  qed
qed

lemma traverse_inv_run:
  assumes "traverse_inv src pm stack processed eff" and "consistent_kids pm cm"
  shows "traverse_inv src pm [] (fst (traverse src pm cm stack processed eff)) (snd (traverse src pm cm stack processed eff))"
  using assms
proof (induction src pm cm stack processed eff rule: traverse.induct)
  case (2 src pm cm n inh stack processed eff)
  show ?case
  proof (cases "n \<in> set processed")
    case True
    moreover have "traverse_inv src pm stack processed eff" using 2 by (auto simp: traverse_inv_def)
    ultimately show ?thesis using 2 by simp
  next
    case False
    then show ?thesis using "2.IH"(2) [OF False refl traverse_inv_pop [OF "2.prems"(1) False "2.prems"(2)] "2.prems"(2)]
      by (simp add: Let_def)
  qed
qed simp

lemma traverse_closed:
  assumes "\<forall>x \<in> set processed. set (kids_of cm x) \<subseteq> set processed \<union> fst ` set stack"
  shows "set processed \<union> fst ` set stack \<subseteq> set (fst (traverse src pm cm stack processed eff))
    \<and> (\<forall>x \<in> set (fst (traverse src pm cm stack processed eff)). set (kids_of cm x) \<subseteq> set (fst (traverse src pm cm stack processed eff)))"
  using assms
proof (induction src pm cm stack processed eff rule: traverse.induct)
  case (2 src pm cm n inh stack processed eff)
  show ?case
  proof (cases "n \<in> set processed")
    case True
    then show ?thesis using 2 by (auto simp: insert_absorb)
  next
    case False
    let ?l = "my_layer src pm n inh"
    have "\<forall>x \<in> set (processed @ [n]). set (kids_of cm x) \<subseteq> set (processed @ [n]) \<union> fst ` set (map (\<lambda>c. (c, ?l)) (kids_of cm n) @ stack)"
      using "2.prems" by (force simp: image_image)
    from "2.IH"(2) [OF False refl this] show ?thesis using False by (simp add: Let_def image_Un image_image)
  qed
qed auto

text \<open>The inputs the hierarchy hook provides: a forest over the nodes, with both maps in agreement.\<close>

definition forest_input :: "(ident \<Rightarrow> nat) \<Rightarrow> layout_input \<Rightarrow> bool" where
  "forest_input rank i \<longleftrightarrow>
     consistent_kids (li_parentMap i) (li_childMap i) \<and> ranked rank (li_parentMap i)
     \<and> distinct (map node_id (li_nodes i)) \<and> '''' \<notin> node_id ` set (li_nodes i)
     \<and> (\<forall>p. distinct (kids_of (li_childMap i) p))
     \<and> (\<forall>n \<in> set (li_nodes i). mget (li_nodeMap i) (node_id n) = Some n)
     \<and> (\<forall>c p. mget (li_parentMap i) c = Some p \<longrightarrow> c \<in> node_id ` set (li_nodes i) \<and> p \<in> node_id ` set (li_nodes i))"

lemma all_nodes_traversed:
  assumes "forest_input rank i" and "n \<in> node_id ` set (li_nodes i)"
  shows "n \<in> set (fst (traverse src (li_parentMap i) (li_childMap i) (map (\<lambda>r. (r, None)) (root_ids i)) [] []))"
proof -
  let ?P = "set (fst (traverse src (li_parentMap i) (li_childMap i) (map (\<lambda>r. (r, None)) (root_ids i)) [] []))"
  have closed: "set (root_ids i) \<subseteq> ?P" "\<forall>x \<in> ?P. set (kids_of (li_childMap i) x) \<subseteq> ?P"
    using traverse_closed [of "[]" "li_childMap i" "map (\<lambda>r. (r, None)) (root_ids i)" src "li_parentMap i" "[]"]
    by (auto simp: image_image)
  show ?thesis using assms(2)
  proof (induction "rank n" arbitrary: n rule: less_induct)
    case less
    show ?case
    proof (cases "mget (li_parentMap i) n")
      case None
      then have "n \<in> set (root_ids i)" using less.prems by (auto simp: root_ids_def)
      then show ?thesis using closed(1) by blast
    next
      case (Some p)
      with assms(1) have "rank p < rank n" "p \<in> node_id ` set (li_nodes i)" "n \<in> set (kids_of (li_childMap i) p)"
        by (auto simp: forest_input_def ranked_def consistent_kids_def)
      with less closed(2) show ?thesis by blast
    qed
  qed
qed

lemma effectiveLayer_inv:
  assumes "forest_input rank i"
  shows "traverse_inv src (li_parentMap i) [] (fst (traverse src (li_parentMap i) (li_childMap i) (map (\<lambda>r. (r, None)) (root_ids i)) [] []))
    (effectiveLayer src i)"
  unfolding effectiveLayer_def
proof (rule traverse_inv_run)
  show "consistent_kids (li_parentMap i) (li_childMap i)" using assms by (simp add: forest_input_def)
  show "traverse_inv src (li_parentMap i) (map (\<lambda>r. (r, None)) (root_ids i)) [] []"
    by (auto simp: traverse_inv_def root_ids_def inherited_from_def split: option.splits)
qed

text \<open>
  on a forest every node is in the layer of its containment parent when the parent has one; otherwise,
  and only then, its own sources decide in the order backend, user, view configuration, rules, and
  the marker for unassigned entities takes it out of all layers.
\<close>

theorem effective_layer_is_inherited:
  assumes "forest_input rank i" and "n \<in> node_id ` set (li_nodes i)"
  shows "mget (effectiveLayer src i) n =
    (case inherited_from (li_parentMap i) (effectiveLayer src i) n of Some l \<Rightarrow> Some l | None \<Rightarrow> own_layer src n)"
proof -
  have "layer_rule_holds src (li_parentMap i) (effectiveLayer src i) n"
    using effectiveLayer_inv [OF assms(1), of src] all_nodes_traversed [OF assms, of src]
    unfolding traverse_inv_def by blast
  then show ?thesis by (simp only: layer_rule_holds_def)
qed

section \<open>Every assigned entity is shown once\<close>

fun hn_ids :: "hnode \<Rightarrow> ident list" where
  "hn_ids (HNode nid _ _ _ children _ _ _ _ _) = nid # concat (map hn_ids children)"

definition forest_ids :: "hnode list \<Rightarrow> ident list" where
  "forest_ids hs = concat (map hn_ids hs)"

lemma hn_ids_make: "hn_ids (make_hnode n children d) = node_id n # forest_ids children"
  by (simp add: make_hnode_def Let_def forest_ids_def)

lemma forest_ids_mset: "mset (forest_ids hs) = (\<Sum>h \<in># mset hs. mset (hn_ids h))"
  by (induction hs) (simp_all add: forest_ids_def)

lemma forest_ids_perm: "mset hs = mset hs' \<Longrightarrow> mset (forest_ids hs) = mset (forest_ids hs')"
  by (simp add: forest_ids_mset)

lemma forest_ids_append [simp]: "forest_ids (hs @ hs') = forest_ids hs @ forest_ids hs'"
  by (simp add: forest_ids_def)

text \<open>The ids below and including \<open>n\<close>, down to a depth.\<close>

fun subtree :: "(ident, ident list) jsmap \<Rightarrow> nat \<Rightarrow> ident \<Rightarrow> ident list" where
  "subtree cm 0 n = []"
| "subtree cm (Suc fuel) n = n # concat (map (subtree cm fuel) (kids_of cm n))"

definition hard_rule :: "parent_map \<Rightarrow> (ident, ident) jsmap \<Rightarrow> bool" where
  "hard_rule pm eff \<longleftrightarrow> (\<forall>c p l. mget pm c = Some p \<longrightarrow> mget eff p = Some l \<longrightarrow> mget eff c = Some l)"

lemma concat_map_perm:
  "(\<And>x. x \<in> set xs \<Longrightarrow> mset (f x) = mset (g x)) \<Longrightarrow> mset (concat (map f xs)) = mset (concat (map g xs))"
  by (induction xs) auto

lemma forest_ids_concat: "forest_ids (concat (map f xs)) = concat (map (\<lambda>x. forest_ids (f x)) xs)"
  by (induction xs) (simp_all add: forest_ids_def)

lemma node_of_id: "forest_input rank i \<Longrightarrow> nid \<in> node_id ` set (li_nodes i) \<Longrightarrow>
    \<exists>n. mget (li_nodeMap i) nid = Some n \<and> node_id n = nid"
  by (auto simp: forest_input_def)

lemma kid_facts:
  assumes "forest_input rank i" and "c \<in> set (kids_of (li_childMap i) p)"
  shows "mget (li_parentMap i) c = Some p" "c \<in> node_id ` set (li_nodes i)"
proof -
  have kids: "consistent_kids (li_parentMap i) (li_childMap i)"
    and nodes: "\<forall>c p. mget (li_parentMap i) c = Some p \<longrightarrow> c \<in> node_id ` set (li_nodes i) \<and> p \<in> node_id ` set (li_nodes i)"
    using assms(1) unfolding forest_input_def by blast+
  show pm: "mget (li_parentMap i) c = Some p" using kids assms(2) by (simp only: consistent_kids_def)
  show "c \<in> node_id ` set (li_nodes i)" using nodes pm by blast
qed

lemma build_subtree:
  assumes "forest_input rank i" and "hard_rule (li_parentMap i) eff" and "mget eff nid = Some l"
    and "nid \<in> node_id ` set (li_nodes i)"
  shows "mset (forest_ids (buildHierarchyNode fuel coll i eff (Some l) depth nid)) = mset (subtree (li_childMap i) fuel nid)"
  using assms(3,4)
proof (induction fuel arbitrary: depth nid)
  case (Suc fuel)
  obtain n where n: "mget (li_nodeMap i) nid = Some n" "node_id n = nid"
    using node_of_id [OF assms(1) Suc.prems(2)] by blast
  let ?kids = "kids_of (li_childMap i) nid"
  have kids: "mget eff c = Some l" "c \<in> node_id ` set (li_nodes i)" if "c \<in> set ?kids" for c
    using kid_facts [OF assms(1) that] assms(2) Suc.prems(1) by (auto simp: hard_rule_def)
  then have all: "filter (\<lambda>c. mget eff c = Some l) ?kids = ?kids" by (simp add: filter_id_conv)
  let ?hs = "concat (map (buildHierarchyNode fuel coll i eff (Some l) (Suc depth)) ?kids)"
  have "mset (forest_ids (by_name coll (rev ?hs))) = mset (forest_ids ?hs)"
    by (rule forest_ids_perm) (simp add: by_name_def)
  also have "\<dots> = mset (concat (map (subtree (li_childMap i) fuel) ?kids))"
    unfolding forest_ids_concat by (rule concat_map_perm) (rule Suc.IH [OF kids])
  finally show ?case by (simp add: n all forest_ids_def [of "[make_hnode _ _ _]"] hn_ids_make)
qed (simp add: forest_ids_def)

lemma below_ranked: "ranked rank pm \<Longrightarrow> below pm a d \<Longrightarrow> rank a < rank d"
proof -
  assume r: "ranked rank pm"
  show "below pm a d \<Longrightarrow> rank a < rank d"
    by (induction rule: below.induct) (use r in \<open>auto simp: ranked_def intro: less_trans\<close>)
qed

lemma below_linear:
  assumes "below pm r m" and "below pm q m"
  shows "r = q \<or> below pm r q \<or> below pm q r"
  using assms
proof (induction rule: below.induct)
  case (child d a)
  then show ?case using below_parent by blast
next
  case (deeper d p a)
  then show ?case using below_parent by blast
qed

lemma siblings_apart:
  assumes "ranked rank pm" and "mget pm b = Some n" and "mget pm c = Some n"
  shows "\<not> below pm b c"
proof
  assume "below pm b c"
  then have "n = b \<or> below pm b n" using below_parent assms(3) by blast
  moreover have "rank n < rank b" using assms(1,2) by (simp add: ranked_def)
  ultimately show False using below_ranked [OF assms(1), of b n] by auto
qed

lemma below_first: "below pm a d \<Longrightarrow> \<exists>c. mget pm c = Some a \<and> (c = d \<or> below pm c d)"
  by (induction rule: below.induct) (auto intro: below.intros)

text \<open>With more fuel than there are descendants the subtree is the node and its descendants, each once.\<close>

lemma finite_below: "finite {d. below pm a d}"
proof (rule finite_subset)
  show "{d. below pm a d} \<subseteq> set (map fst pm)"
  proof
    fix d assume "d \<in> {d. below pm a d}"
    then have "mget pm d \<noteq> None" by (auto elim: belowE)
    then show "d \<in> set (map fst pm)" by (auto dest: map_of_SomeD intro: rev_image_eqI)
  qed
qed simp

lemma subtree_descendants:
  assumes "consistent_kids pm cm" and "ranked rank pm" and "\<forall>p. distinct (kids_of cm p)"
    and "card {d. below pm n d} < fuel"
  shows "set (subtree cm fuel n) = insert n {d. below pm n d} \<and> distinct (subtree cm fuel n)"
  using assms(4)
proof (induction fuel arbitrary: n)
  case (Suc fuel)
  have kid: "c \<in> set (kids_of cm n) \<longleftrightarrow> mget pm c = Some n" for c
    using assms(1) by (simp only: consistent_kids_def)
  have smaller: "card {d. below pm c d} < fuel" if c: "mget pm c = Some n" for c
  proof -
    have "c \<in> {d. below pm n d}" using c by (auto intro: below.child)
    moreover have "c \<notin> {d. below pm c d}" using below_ranked [OF assms(2), of c c] by auto
    moreover have "{d. below pm c d} \<subseteq> {d. below pm n d}" using c by (auto intro: below_trans below.child)
    ultimately have "{d. below pm c d} \<subset> {d. below pm n d}" by blast
    then have "card {d. below pm c d} < card {d. below pm n d}" by (rule psubset_card_mono [OF finite_below])
    with Suc.prems show ?thesis by simp
  qed
  have IH: "set (subtree cm fuel c) = insert c {d. below pm c d}" "distinct (subtree cm fuel c)"
    if "c \<in> set (kids_of cm n)" for c
    using Suc.IH [OF smaller] that kid by blast+
  have sets: "set (concat (map (subtree cm fuel) (kids_of cm n))) = {d. below pm n d}"
  proof
    show "set (concat (map (subtree cm fuel) (kids_of cm n))) \<subseteq> {d. below pm n d}"
      using IH(1) kid by (auto intro: below.child below_trans [OF _ below.child])
    show "{d. below pm n d} \<subseteq> set (concat (map (subtree cm fuel) (kids_of cm n)))"
    proof
      fix d assume "d \<in> {d. below pm n d}"
      then obtain c where "mget pm c = Some n" "c = d \<or> below pm c d" using below_first by blast
      with IH(1) [of c] kid show "d \<in> set (concat (map (subtree cm fuel) (kids_of cm n)))" by auto
    qed
  qed
  have disjoint: "set (subtree cm fuel b) \<inter> set (subtree cm fuel c) = {}"
    if "b \<in> set (kids_of cm n)" "c \<in> set (kids_of cm n)" "b \<noteq> c" for b c
  proof -
    have b: "mget pm b = Some n" and c: "mget pm c = Some n" using that kid by auto
    have apart: "\<not> below pm b c" "\<not> below pm c b"
      using siblings_apart [OF assms(2)] b c by blast+
    show ?thesis
      unfolding IH(1) [OF that(1)] IH(1) [OF that(2)] using that(3) apart by (auto dest: below_linear [of pm b _ c])
  qed
  have "distinct (concat (map (subtree cm fuel) (kids_of cm n)))"
  proof (rule distinct_concat)
    show "distinct (map (subtree cm fuel) (kids_of cm n))"
      unfolding distinct_map
    proof (intro conjI inj_onI)
      show "distinct (kids_of cm n)" using assms(3) by blast
      fix b c assume bc: "b \<in> set (kids_of cm n)" "c \<in> set (kids_of cm n)" "subtree cm fuel b = subtree cm fuel c"
      then show "b = c" using disjoint IH(1) by (metis Int_absorb insert_not_empty)
    qed
    show "distinct ys" if "ys \<in> set (map (subtree cm fuel) (kids_of cm n))" for ys
      using that IH(2) by auto
    show "set ys \<inter> set zs = {}" if "ys \<in> set (map (subtree cm fuel) (kids_of cm n))"
      "zs \<in> set (map (subtree cm fuel) (kids_of cm n))" "ys \<noteq> zs" for ys zs
      using that disjoint by auto
  qed
  moreover have "\<not> below pm n n" using below_ranked [OF assms(2), of n n] by auto
  ultimately show ?case using sets by simp
qed simp

lemma few_descendants:
  assumes "forest_input rank i"
  shows "card {d. below (li_parentMap i) n d} < depth_fuel i"
proof -
  have "{d. below (li_parentMap i) n d} \<subseteq> node_id ` set (li_nodes i)"
    using assms unfolding forest_input_def by (blast elim: belowE)
  then have "card {d. below (li_parentMap i) n d} \<le> card (node_id ` set (li_nodes i))" by (intro card_mono) simp_all
  also have "\<dots> \<le> length (li_nodes i)" by (metis card_image_le card_length le_trans finite_set)
  finally show ?thesis by (simp add: depth_fuel_def)
qed

lemma tree_ids:
  assumes "forest_input rank i" and "hard_rule (li_parentMap i) eff" and "mget eff nid = Some l"
    and "nid \<in> node_id ` set (li_nodes i)"
  shows "set (forest_ids (buildHierarchyNode (depth_fuel i) coll i eff (Some l) 0 nid)) = insert nid {d. below (li_parentMap i) nid d}"
    and "distinct (forest_ids (buildHierarchyNode (depth_fuel i) coll i eff (Some l) 0 nid))"
proof -
  have perm: "mset (forest_ids (buildHierarchyNode (depth_fuel i) coll i eff (Some l) 0 nid)) = mset (subtree (li_childMap i) (depth_fuel i) nid)"
    using assms by (rule build_subtree)
  have "consistent_kids (li_parentMap i) (li_childMap i)" "ranked rank (li_parentMap i)" "\<forall>p. distinct (kids_of (li_childMap i) p)"
    using assms(1) unfolding forest_input_def by blast+
  then have sub: "set (subtree (li_childMap i) (depth_fuel i) nid) = insert nid {d. below (li_parentMap i) nid d}
      \<and> distinct (subtree (li_childMap i) (depth_fuel i) nid)"
    using few_descendants [OF assms(1)] by (intro subtree_descendants) auto
  with perm show "set (forest_ids (buildHierarchyNode (depth_fuel i) coll i eff (Some l) 0 nid)) = insert nid {d. below (li_parentMap i) nid d}"
    by (metis set_mset_mset)
  from sub perm show "distinct (forest_ids (buildHierarchyNode (depth_fuel i) coll i eff (Some l) 0 nid))"
    by (metis mset_eq_imp_distinct_iff)
qed

text \<open>The roots shown in layer \<open>l\<close>.\<close>

definition visual_root :: "layout_input \<Rightarrow> (ident, ident) jsmap \<Rightarrow> ident \<Rightarrow> ident \<Rightarrow> bool" where
  "visual_root i eff l nid \<longleftrightarrow> mget eff nid = Some l \<and> parent_layer i eff nid \<noteq> Some l"

definition root_trees :: "(string \<Rightarrow> string) \<Rightarrow> layout_input \<Rightarrow> (ident, ident) jsmap \<Rightarrow> ident \<Rightarrow> ident list \<Rightarrow> hnode list" where
  "root_trees coll i eff l ids =
     concat (map (buildHierarchyNode (depth_fuel i) coll i eff (Some l) 0) (filter (visual_root i eff l) ids))"

lemma place_node_at:
  "mget (place_node coll i eff n g) l =
     map_option (\<lambda>hs. hs @ root_trees coll i eff l [node_id n]) (mget g l)"
  by (cases "mget g l") (auto simp: place_node_def root_trees_def visual_root_def split: option.splits)

lemma place_nodes_at:
  "mget (fold (place_node coll i eff) ns g) l =
     map_option (\<lambda>hs. hs @ root_trees coll i eff l (map node_id ns)) (mget g l)"
proof (induction ns arbitrary: g)
  case Nil
  show ?case by (cases "mget g l") (simp_all add: root_trees_def)
next
  case (Cons n ns)
  show ?case by (cases "mget g l") (simp_all add: Cons.IH place_node_at, simp_all add: root_trees_def)
qed

lemma mget_fold_empty:
  "mget (fold (\<lambda>(k, v) m. mset_key k v m) (map (\<lambda>l. (ly_id l, [])) ls) m) k
     = (if k \<in> ly_id ` set ls then Some [] else mget m k)"
  by (induction ls arbitrary: m) auto

lemma physicalByLayer_at:
  "mget (physicalByLayer coll i eff) l =
     (if l \<in> ly_id ` set (li_layers i) then Some (by_name coll (root_trees coll i eff l (map node_id (li_nodes i)))) else None)"
  by (simp add: physicalByLayer_def map_of_map place_nodes_at mfrom_def mget_fold_empty)

lemma root_above:
  assumes "forest_input rank i" and "nid \<in> node_id ` set (li_nodes i)" and "mget eff nid = Some l"
  shows "\<exists>r \<in> node_id ` set (li_nodes i). visual_root i eff l r \<and> (r = nid \<or> below (li_parentMap i) r nid)"
  using assms(2,3)
proof (induction "rank nid" arbitrary: nid rule: less_induct)
  case less
  show ?case
  proof (cases "visual_root i eff l nid")
    case True
    with less.prems show ?thesis by blast
  next
    case False
    with less.prems(2) obtain p where p: "mget (li_parentMap i) nid = Some p" "mget eff p = Some l"
      by (cases "mget (li_parentMap i) nid") (auto simp: visual_root_def parent_layer_def Let_def split: if_splits)
    moreover have "rank p < rank nid" "p \<in> node_id ` set (li_nodes i)"
      using assms(1) p(1) unfolding forest_input_def ranked_def by blast+
    ultimately obtain r where "r \<in> node_id ` set (li_nodes i)" "visual_root i eff l r" "r = p \<or> below (li_parentMap i) r p"
      using less.hyps by blast
    with p(1) show ?thesis by (blast intro: below.intros)
  qed
qed

lemma hard_rule_below: "hard_rule pm eff \<Longrightarrow> below pm r d \<Longrightarrow> mget eff r = Some l \<Longrightarrow> mget eff d = Some l"
proof -
  assume hard: "hard_rule pm eff"
  show "below pm r d \<Longrightarrow> mget eff r = Some l \<Longrightarrow> mget eff d = Some l"
    by (induction rule: below.induct) (use hard in \<open>auto simp: hard_rule_def\<close>)
qed

lemma roots_apart:
  assumes "forest_input rank i" and "hard_rule (li_parentMap i) eff"
    and "visual_root i eff l r" and "visual_root i eff l q" and "r \<noteq> q"
  shows "insert r {d. below (li_parentMap i) r d} \<inter> insert q {d. below (li_parentMap i) q d} = {}"
proof -
  have not_below: "\<not> below (li_parentMap i) a b" if a: "visual_root i eff l a" and b: "visual_root i eff l b" for a b
  proof
    assume below: "below (li_parentMap i) a b"
    then obtain p where p: "mget (li_parentMap i) b = Some p" "p = a \<or> below (li_parentMap i) a p"
      by (auto elim: belowE)
    then have "mget eff p = Some l" using a hard_rule_below [OF assms(2)] by (auto simp: visual_root_def)
    moreover have "p \<noteq> ''''" using assms(1) p(1) unfolding forest_input_def by blast
    ultimately show False using b p(1) by (simp add: visual_root_def parent_layer_def Let_def)
  qed
  show ?thesis
    using not_below [OF assms(3,4)] not_below [OF assms(4,3)] assms(5)
    by (auto dest: below_linear [of "li_parentMap i" r _ q])
qed

lemma hard_rule_effectiveLayer:
  assumes "forest_input rank i"
  shows "hard_rule (li_parentMap i) (effectiveLayer src i)"
  unfolding hard_rule_def
proof (intro allI impI)
  fix c p l assume c: "mget (li_parentMap i) c = Some p" and p: "mget (effectiveLayer src i) p = Some l"
  have nodes: "c \<in> node_id ` set (li_nodes i)" using assms c unfolding forest_input_def by blast
  have "layer_rule_holds src (li_parentMap i) (effectiveLayer src i) c"
    using effectiveLayer_inv [OF assms, of src] all_nodes_traversed [OF assms nodes, of src]
    unfolding traverse_inv_def by blast
  moreover have "inherited_from (li_parentMap i) (effectiveLayer src i) c = Some l" using c p by (simp add: inherited_from_def)
  ultimately show "mget (effectiveLayer src i) c = Some l" unfolding layer_rule_holds_def by (simp only: option.case)
qed

lemma root_trees_ids:
  assumes "forest_input rank i" and "hard_rule (li_parentMap i) eff"
    and "distinct ids" and "set ids \<subseteq> node_id ` set (li_nodes i)"
  shows "set (forest_ids (root_trees coll i eff l ids)) = (\<Union>r \<in> {r \<in> set ids. visual_root i eff l r}. insert r {d. below (li_parentMap i) r d})
    \<and> distinct (forest_ids (root_trees coll i eff l ids))"
  using assms(3,4)
proof (induction ids)
  case Nil
  show ?case by (simp add: root_trees_def forest_ids_def)
next
  case (Cons x ids)
  show ?case
  proof (cases "visual_root i eff l x")
    case False
    with Cons show ?thesis by (auto simp: root_trees_def)
  next
    case True
    have split: "root_trees coll i eff l (x # ids)
        = buildHierarchyNode (depth_fuel i) coll i eff (Some l) 0 x @ root_trees coll i eff l ids"
      using True by (simp add: root_trees_def)
    have here: "set (forest_ids (buildHierarchyNode (depth_fuel i) coll i eff (Some l) 0 x)) = insert x {d. below (li_parentMap i) x d}"
      "distinct (forest_ids (buildHierarchyNode (depth_fuel i) coll i eff (Some l) 0 x))"
      using tree_ids [OF assms(1,2), of x l] True Cons.prems(2) by (auto simp: visual_root_def)
    have IH: "set (forest_ids (root_trees coll i eff l ids)) = (\<Union>r \<in> {r \<in> set ids. visual_root i eff l r}. insert r {d. below (li_parentMap i) r d})"
      "distinct (forest_ids (root_trees coll i eff l ids))"
      using Cons by auto
    have "insert x {d. below (li_parentMap i) x d} \<inter> insert r {d. below (li_parentMap i) r d} = {}"
      if "r \<in> set ids" "visual_root i eff l r" for r
      using roots_apart [OF assms(1,2) True that(2)] that(1) Cons.prems(1) by auto
    then have apart: "insert x {d. below (li_parentMap i) x d} \<inter>
        (\<Union>r \<in> {r \<in> set ids. visual_root i eff l r}. insert r {d. below (li_parentMap i) r d}) = {}"
      by blast
    have "{r \<in> set (x # ids). visual_root i eff l r} = insert x {r \<in> set ids. visual_root i eff l r}" using True by auto
    then show ?thesis using here IH apart by (simp only: split forest_ids_append set_append distinct_append UN_insert)
  qed
qed

text \<open>
  C11: on a forest the lists of a layer show exactly the entities whose effective layer it is, each one
  exactly once, as a root or below a root; with the depth bound used none is cut off.
\<close>

theorem every_assigned_entity_shown_once:
  assumes "forest_input rank i" and "l \<in> ly_id ` set (li_layers i)"
  shows "mset (forest_ids (nullish (mget (physicalByLayer coll i (effectiveLayer src i)) l) []))
    = mset (filter (\<lambda>n. mget (effectiveLayer src i) n = Some l) (map node_id (li_nodes i)))"
proof -
  let ?eff = "effectiveLayer src i"
  let ?ids = "map node_id (li_nodes i)"
  have ids: "distinct ?ids" using assms(1) unfolding forest_input_def by blast
  have hard: "hard_rule (li_parentMap i) ?eff" by (rule hard_rule_effectiveLayer [OF assms(1)])
  have trees: "set (forest_ids (root_trees coll i ?eff l ?ids)) = (\<Union>r \<in> {r \<in> set ?ids. visual_root i ?eff l r}. insert r {d. below (li_parentMap i) r d})"
    "distinct (forest_ids (root_trees coll i ?eff l ?ids))"
    using root_trees_ids [OF assms(1) hard ids, of coll l] by simp_all
  have "set (forest_ids (root_trees coll i ?eff l ?ids)) = set (filter (\<lambda>n. mget ?eff n = Some l) ?ids)"
  proof
    show "set (forest_ids (root_trees coll i ?eff l ?ids)) \<subseteq> set (filter (\<lambda>n. mget ?eff n = Some l) ?ids)"
    proof
      fix d assume "d \<in> set (forest_ids (root_trees coll i ?eff l ?ids))"
      then obtain r where r: "r \<in> set ?ids" "visual_root i ?eff l r" "d = r \<or> below (li_parentMap i) r d"
        using trees(1) by auto
      then have "mget ?eff d = Some l" using hard_rule_below [OF hard] by (auto simp: visual_root_def)
      moreover have "d \<in> set ?ids" using r assms(1) unfolding forest_input_def by (auto elim: belowE)
      ultimately show "d \<in> set (filter (\<lambda>n. mget ?eff n = Some l) ?ids)" by simp
    qed
    show "set (filter (\<lambda>n. mget ?eff n = Some l) ?ids) \<subseteq> set (forest_ids (root_trees coll i ?eff l ?ids))"
    proof
      fix d assume "d \<in> set (filter (\<lambda>n. mget ?eff n = Some l) ?ids)"
      then have "d \<in> node_id ` set (li_nodes i)" "mget ?eff d = Some l" by auto
      from root_above [OF assms(1) this] show "d \<in> set (forest_ids (root_trees coll i ?eff l ?ids))"
        unfolding trees(1) by auto
    qed
  qed
  then have "mset (forest_ids (root_trees coll i ?eff l ?ids)) = mset (filter (\<lambda>n. mget ?eff n = Some l) ?ids)"
    using trees(2) ids by (subst set_eq_iff_mset_eq_distinct [symmetric]) simp_all
  moreover have "mset (forest_ids (by_name coll (root_trees coll i ?eff l ?ids))) = mset (forest_ids (root_trees coll i ?eff l ?ids))"
    by (rule forest_ids_perm) (simp add: by_name_def)
  ultimately show ?thesis using assms(2) by (simp add: physicalByLayer_at)
qed

text \<open>A domain with a table and a column in it, assigned by the user; a second table without parent.\<close>

definition plain_node :: "ident \<Rightarrow> string \<Rightarrow> lineage_node" where
  "plain_node nid label = \<lparr>node_id = nid, node_data = [(''label'', JStr label), (''urn'', JStr nid)]\<rparr>"

definition sample_input :: layout_input where
  "sample_input =
     \<lparr>li_nodes = [plain_node ''p'' ''Sales'', plain_node ''c'' ''orders'', plain_node ''d'' ''amount'', plain_node ''x'' ''other''],
      li_layers = [plain_layer ''L1'', plain_layer ''L2''],
      li_instance = [(''p'', user_config ''p'' ''L1'' None True ''now''), (''c'', user_config ''c'' ''L2'' None True ''now'')],
      li_backend = [],
      li_nodeMap = [(''p'', plain_node ''p'' ''Sales''), (''c'', plain_node ''c'' ''orders''), (''d'', plain_node ''d'' ''amount''), (''x'', plain_node ''x'' ''other'')],
      li_childMap = [(''p'', [''c'']), (''c'', [''d''])], li_parentMap = [(''c'', ''p''), (''d'', ''c'')]\<rparr>"

definition sample_sources :: sources where
  "sample_sources = \<lparr>src_backend = [], src_instance = li_instance sample_input, src_explicit = [], src_rules = [(''x'', ''L2'')]\<rparr>"

lemma sample_forest: "forest_input (\<lambda>n. if n = ''d'' then 2 else if n = ''c'' then 1 else 0) sample_input"
  by (auto simp: forest_input_def sample_input_def consistent_kids_def kids_of_def ranked_def plain_node_def split: if_splits)

theorem effective_layer_is_inherited_witness:
  "mget (effectiveLayer sample_sources sample_input) ''c'' = Some ''L1''"
proof -
  have "inherited_from (li_parentMap sample_input) (effectiveLayer sample_sources sample_input) ''c'' = Some ''L1''"
    by code_simp
  then show ?thesis
    by (subst effective_layer_is_inherited [OF sample_forest]) (simp_all add: sample_input_def plain_node_def)
qed

theorem every_assigned_entity_shown_once_witness:
  "mset (forest_ids (nullish (mget (physicalByLayer toLowerCase sample_input (effectiveLayer sample_sources sample_input)) ''L1'') []))
     = {#''p'', ''c'', ''d''#}"
proof -
  have "mset (filter (\<lambda>n. mget (effectiveLayer sample_sources sample_input) n = Some ''L1'') (map node_id (li_nodes sample_input)))
      = mset [''p'', ''c'', ''d'']"
    by (rule arg_cong [where f = mset]) code_simp
  then show ?thesis
    by (subst every_assigned_entity_shown_once [OF sample_forest])
       (simp_all add: sample_input_def plain_layer_def add_mset_commute)
qed

section \<open>A rule that loses its conditions\<close>

text \<open>
  The copy of a rule drops its compound conditions: a rule that has only such conditions matches
  every node of the canvas.
\<close>

lemma compound_rule_matches_everything:
  assumes "\<not> nonempty (rule_entityTypes r)" and "\<not> nonempty (rule_tags r)"
    and "\<not> truthy (rule_urnPattern r)" and "rule_propertyMatch r = None"
  shows "matches rx node (explicit_rule l r)"
  using assms
  by (cases "rule_entityTypes r")
     (auto simp: matches_iff explicit_rule_def type_ok_def tags_ok_def urn_ok_def properties_ok_def nonempty_def)

section \<open>Flat views\<close>

lemma flatten_keys:
  "jsm_ok m \<Longrightarrow> jsm_ok (flatten hs m)"
  by (induction hs m rule: flatten.induct) (auto simp: jsm_ok_def map_of_eq_None_iff)

lemma flatten_named: "\<forall>(k, h) \<in> set m. k = hn_id h \<Longrightarrow> \<forall>(k, h) \<in> set (flatten hs m). k = hn_id h"
  by (induction hs m rule: flatten.induct) auto

lemma displayMap_ok: "jsm_ok (displayMap byLayer) \<and> (\<forall>(k, h) \<in> set (displayMap byLayer). k = hn_id h)"
proof -
  have "jsm_ok (fold (\<lambda>(l, hs) m. flatten (rev hs) m) byLayer m)
      \<and> (\<forall>(k, h) \<in> set (fold (\<lambda>(l, hs) m. flatten (rev hs) m) byLayer m). k = hn_id h)"
    if "jsm_ok m" "\<forall>(k, h) \<in> set m. k = hn_id h" for m
    using that
  proof (induction byLayer arbitrary: m)
    case (Cons p byLayer)
    obtain l hs where p: "p = (l, hs)" by (cases p)
    have "jsm_ok (flatten (rev hs) m)" "\<forall>(k, h) \<in> set (flatten (rev hs) m). k = hn_id h"
      using Cons.prems by (simp_all add: flatten_keys flatten_named)
    then show ?case unfolding p using Cons.IH by simp
  qed simp
  from this [of "[]"] show ?thesis by (simp add: displayMap_def)
qed

lemma displayFlat_distinct: "distinct (map hn_id (displayFlat byLayer))"
proof -
  have "map fst (displayMap byLayer) = map hn_id (displayFlat byLayer)"
    using displayMap_ok [of byLayer] by (auto simp: displayFlat_def)
  then show ?thesis using displayMap_ok [of byLayer] by (simp add: jsm_ok_def)
qed

end
