(* ===== verification/Containment_Hierarchy.thy ===== *)
theory Containment_Hierarchy
  imports Layer_Assignment
begin

text \<open>
  The hook that derives the containment maps from the canvas edges,
  \<^verbatim>\<open>hooks/useContainmentHierarchy.ts\<close>. It keeps its last maps in refs and either rebuilds them or only adds the
  edges that were appended. The containment predicate is a function together with the identity the
  code compares. One \<open>render\<close> is one run of the memo.
\<close>

section \<open>Building the maps\<close>

record render_input =
  rd_nodes :: "lineage_node list"
  rd_edges :: "lineage_edge list"
  rd_pred_ref :: nat
  rd_pred :: "string \<Rightarrow> bool"
  rd_fingerprint :: "string option"

type_synonym maps = "(ident, ident list) jsmap \<times> parent_map"

definition add_containment :: "(string \<Rightarrow> bool) \<Rightarrow> lineage_edge \<Rightarrow> maps \<Rightarrow> maps" where
  "add_containment isContainmentEdge e m =
     (case m of (cSets, pMap) \<Rightarrow>
        if edge_source e = '''' \<or> edge_target e = '''' then (cSets, pMap)
        else if \<not> isContainmentEdge (normalizeEdgeType e) then (cSets, pMap)
        else (mset_key (edge_source e) (set_add (edge_target e) (kids_of cSets (edge_source e))) cSets,
              mset_key (edge_target e) (edge_source e) pMap))"

definition add_all :: "(string \<Rightarrow> bool) \<Rightarrow> lineage_edge list \<Rightarrow> maps \<Rightarrow> maps" where
  "add_all isContainmentEdge es m = fold (add_containment isContainmentEdge) es m"

definition build_maps :: "(string \<Rightarrow> bool) \<Rightarrow> lineage_edge list \<Rightarrow> maps" where
  "build_maps isContainmentEdge es = add_all isContainmentEdge es ([], [])"

section \<open>The refs of the hook\<close>

text \<open>\<open>childMapKey\<close> is \<open>None\<close> while the cached child map belongs to no set map.\<close>

record hierarchy =
  prevEdgeLen :: nat
  prevIsContainment :: nat
  prevFingerprint :: "string option"
  childSetsRef :: "(ident, ident list) jsmap"
  parentMapRef :: parent_map
  childMapRef :: "(ident, ident list) jsmap"
  childMapKey :: "(nat \<times> nat) option"

definition initial_hierarchy :: "nat \<Rightarrow> string option \<Rightarrow> hierarchy" where
  "initial_hierarchy pred_ref fingerprint =
     \<lparr>prevEdgeLen = 0, prevIsContainment = pred_ref, prevFingerprint = fingerprint, childSetsRef = [], parentMapRef = [],
      childMapRef = [], childMapKey = None\<rparr>"

definition needsFullRebuild :: "render_input \<Rightarrow> hierarchy \<Rightarrow> bool" where
  "needsFullRebuild r h \<longleftrightarrow>
     prevIsContainment h \<noteq> rd_pred_ref r \<or> length (rd_edges r) < prevEdgeLen h
       \<or> (rd_fingerprint r \<noteq> None \<and> rd_fingerprint r \<noteq> prevFingerprint h)"

definition parentMapEqual :: "parent_map \<Rightarrow> parent_map \<Rightarrow> bool" where
  "parentMapEqual prev new \<longleftrightarrow> length prev = length new \<and> list_all (\<lambda>(k, v). mget prev k = Some v) new"

definition map_key :: "(ident, ident list) jsmap \<Rightarrow> nat \<times> nat" where
  "map_key cSets = (length cSets, sum_list (map (length \<circ> snd) cSets))"

definition render :: "render_input \<Rightarrow> hierarchy \<Rightarrow> hierarchy" where
  "render r h =
     (let (cSets, pMap, sameRef) =
            (if needsFullRebuild r h then
               (let (newCSets, newPMap) = build_maps (rd_pred r) (rd_edges r)
                in if parentMapEqual (parentMapRef h) newPMap then (childSetsRef h, parentMapRef h, True)
                   else (newCSets, newPMap, False))
             else
               (let (cs, pm) = add_all (rd_pred r) (drop (prevEdgeLen h) (rd_edges r)) (childSetsRef h, parentMapRef h)
                in (cs, pm, True)));
          cached = sameRef \<and> childMapKey h = Some (map_key cSets)
      in h\<lparr>childMapRef := (if cached then childMapRef h else cSets), childMapKey := Some (map_key cSets),
           prevEdgeLen := length (rd_edges r), prevIsContainment := rd_pred_ref r, prevFingerprint := rd_fingerprint r,
           childSetsRef := cSets, parentMapRef := pMap\<rparr>)"

definition nodeMap_of :: "lineage_node list \<Rightarrow> (ident, lineage_node) jsmap" where
  "nodeMap_of ns = mfrom (map (\<lambda>n. (node_id n, n)) ns)"

definition rootNodes :: "lineage_node list \<Rightarrow> parent_map \<Rightarrow> lineage_node list" where
  "rootNodes ns pm =
     filter (\<lambda>n. node_id n \<noteq> '''' \<and> \<not> mhas pm (node_id n) \<and> str_field (node_data n) ''type'' \<noteq> Some ''ghost'') ns"

section \<open>What the maps contain\<close>

definition contains :: "(string \<Rightarrow> bool) \<Rightarrow> lineage_edge list \<Rightarrow> ident \<Rightarrow> ident \<Rightarrow> bool" where
  "contains P es p c \<longleftrightarrow>
     (\<exists>e \<in> set es. edge_source e = p \<and> edge_target e = c \<and> p \<noteq> '''' \<and> c \<noteq> '''' \<and> P (normalizeEdgeType e))"

text \<open>No entity lies in two containers.\<close>

definition single_parent :: "(string \<Rightarrow> bool) \<Rightarrow> lineage_edge list \<Rightarrow> bool" where
  "single_parent P es \<longleftrightarrow> (\<forall>p q c. contains P es p c \<longrightarrow> contains P es q c \<longrightarrow> p = q)"

text \<open>The maps are those of the edges.\<close>

definition maps_of :: "(string \<Rightarrow> bool) \<Rightarrow> lineage_edge list \<Rightarrow> maps \<Rightarrow> bool" where
  "maps_of P es m \<longleftrightarrow> jsm_ok (fst m) \<and> jsm_ok (snd m)
     \<and> (\<forall>p c. c \<in> set (kids_of (fst m) p) \<longleftrightarrow> contains P es p c)
     \<and> (\<forall>p. distinct (kids_of (fst m) p))
     \<and> (\<forall>c p. mget (snd m) c = Some p \<longrightarrow> contains P es p c)
     \<and> (\<forall>p c. contains P es p c \<longrightarrow> mget (snd m) c \<noteq> None)"

lemma contains_snoc:
  "contains P (es @ [e]) p c \<longleftrightarrow> contains P es p c
     \<or> (edge_source e = p \<and> edge_target e = c \<and> p \<noteq> '''' \<and> c \<noteq> '''' \<and> P (normalizeEdgeType e))"
  by (auto simp: contains_def)

lemma kids_of_set [simp]: "kids_of (mset_key p ks cm) q = (if p = q then ks else kids_of cm q)"
  by (simp add: kids_of_def)

lemma maps_of_add: "maps_of P es m \<Longrightarrow> maps_of P (es @ [e]) (add_containment P e m)"
  by (cases m) (auto simp: maps_of_def add_containment_def contains_snoc)

lemma maps_of_add_all: "maps_of P es m \<Longrightarrow> maps_of P (es @ fs) (add_all P fs m)"
proof (induction fs arbitrary: es m)
  case (Cons f fs)
  have "maps_of P ((es @ [f]) @ fs) (add_all P fs (add_containment P f m))"
    by (rule Cons.IH) (rule maps_of_add [OF Cons.prems])
  then show ?case by (simp add: add_all_def)
qed (simp add: add_all_def)

lemma maps_of_build: "maps_of P es (build_maps P es)"
  unfolding build_maps_def
  by (rule maps_of_add_all [of P "[]", simplified]) (simp add: maps_of_def contains_def kids_of_def)

lemma maps_of_parent:
  assumes "maps_of P es m" and "single_parent P es"
  shows "mget (snd m) c = Some p \<longleftrightarrow> contains P es p c"
  using assms unfolding maps_of_def single_parent_def by (metis not_Some_eq)

lemma parentMapEqual_lookup:
  assumes "jsm_ok prev" and "jsm_ok new" and "parentMapEqual prev new"
  shows "mget prev k = mget new k"
proof -
  have sub: "set new \<subseteq> set prev"
    using assms(3) by (auto simp: parentMapEqual_def list_all_iff dest!: map_of_SomeD)
  have "card (set new) = length new" "card (set prev) = length prev"
    using assms(1,2) by (simp_all add: jsm_ok_def distinct_card distinct_map)
  then have "set new = set prev"
    using sub assms(3) by (intro card_subset_eq) (simp_all add: parentMapEqual_def)
  then have "map_of prev = map_of new" using assms(1,2) by (intro map_of_inject_set [THEN iffD2]) (simp_all add: jsm_ok_def)
  then show ?thesis by simp
qed

text \<open>Equal parent maps come from the same containments when nothing has two containers.\<close>

lemma maps_of_reuse:
  assumes old: "maps_of P es m" "single_parent P es" and new: "maps_of Q fs m'" "single_parent Q fs"
    and equal: "parentMapEqual (snd m) (snd m')"
  shows "maps_of Q fs m"
proof -
  have "mget (snd m) k = mget (snd m') k" for k
    using old(1) new(1) equal by (intro parentMapEqual_lookup) (auto simp: maps_of_def)
  then have same: "contains P es p c \<longleftrightarrow> contains Q fs p c" for p c
    using maps_of_parent [OF old] maps_of_parent [OF new] by simp
  show ?thesis using old(1) unfolding maps_of_def same .
qed

section \<open>Histories of renders\<close>

definition tracks :: "hierarchy \<Rightarrow> render_input \<Rightarrow> bool" where
  "tracks h r \<longleftrightarrow> maps_of (rd_pred r) (rd_edges r) (childSetsRef h, parentMapRef h)
     \<and> prevEdgeLen h = length (rd_edges r) \<and> prevIsContainment h = rd_pred_ref r \<and> prevFingerprint h = rd_fingerprint r
     \<and> (childMapKey h \<noteq> None \<longrightarrow> childMapKey h = Some (map_key (childSetsRef h)) \<and> childMapRef h = childSetsRef h)"

text \<open>
  The caller's part: a render is either recognised as new (other predicate, fewer edges, other
  fingerprint), or its edges extend those of the render before and the predicate is the same one.
\<close>

definition announced :: "render_input \<Rightarrow> render_input \<Rightarrow> bool" where
  "announced prev r \<longleftrightarrow>
     rd_pred_ref r \<noteq> rd_pred_ref prev \<or> length (rd_edges r) < length (rd_edges prev)
     \<or> (rd_fingerprint r \<noteq> None \<and> rd_fingerprint r \<noteq> rd_fingerprint prev)
     \<or> (rd_pred r = rd_pred prev \<and> (\<exists>more. rd_edges r = rd_edges prev @ more))"

fun announced_all :: "render_input \<Rightarrow> render_input list \<Rightarrow> bool" where
  "announced_all prev [] \<longleftrightarrow> True"
| "announced_all prev (r # rs) \<longleftrightarrow> announced prev r \<and> single_parent (rd_pred r) (rd_edges r) \<and> announced_all r rs"

lemma announced_all_last: "announced_all prev (rs @ [r]) \<Longrightarrow> single_parent (rd_pred r) (rd_edges r)"
  by (induction rs arbitrary: prev) auto

text \<open>Adding edges can only grow the sets, so an equal key means nothing was added.\<close>

lemma sum_mset_key:
  "jsm_ok cs \<Longrightarrow> mget cs p = Some ks \<Longrightarrow>
     sum_list (map (length \<circ> snd) (mset_key p (ks' :: ident list) cs)) + length ks = sum_list (map (length \<circ> snd) cs) + length ks'"
proof (induction cs)
  case (Cons x cs)
  then show ?case by (cases x) (auto simp: jsm_ok_def split: if_splits)
qed simp

lemma sum_mset_key_new:
  "mget cs p = None \<Longrightarrow> sum_list (map (length \<circ> snd) (mset_key p (ks :: ident list) cs)) = sum_list (map (length \<circ> snd) cs) + length ks"
  by (induction cs) (auto split: if_splits)

lemma mset_key_same: "mget cs p = Some ks \<Longrightarrow> mset_key p ks cs = cs"
  by (induction cs) (auto split: if_splits)

lemma add_containment_grows:
  assumes "jsm_ok (fst m)"
  shows "snd (map_key (fst (add_containment P e m))) \<ge> snd (map_key (fst m))
    \<and> (snd (map_key (fst (add_containment P e m))) = snd (map_key (fst m)) \<longrightarrow> fst (add_containment P e m) = fst m)"
proof (cases m)
  case (Pair cs pm)
  show ?thesis
  proof (cases "mget cs (edge_source e)")
    case None
    with Pair show ?thesis
      by (auto simp: add_containment_def map_key_def kids_of_def sum_mset_key_new set_add_def)
  next
    case (Some ks)
    have ok: "jsm_ok cs" using assms Pair by simp
    show ?thesis
    proof (cases "edge_target e \<in> set ks")
      case True
      with Pair Some show ?thesis by (simp add: add_containment_def kids_of_def set_add_def mset_key_same)
    next
      case False
      with sum_mset_key [OF ok Some, of "ks @ [edge_target e]"] Pair Some show ?thesis
        by (auto simp: add_containment_def kids_of_def set_add_def map_key_def)
    qed
  qed
qed

lemma add_containment_ok: "jsm_ok (fst m) \<Longrightarrow> jsm_ok (fst (add_containment P e m))"
  by (cases m) (simp add: add_containment_def)

lemma add_all_grows:
  "jsm_ok (fst m) \<Longrightarrow> snd (map_key (fst m)) \<le> snd (map_key (fst (add_all P es m)))
    \<and> (snd (map_key (fst (add_all P es m))) = snd (map_key (fst m)) \<longrightarrow> fst (add_all P es m) = fst m)"
proof (induction es arbitrary: m)
  case (Cons e es)
  have ok: "jsm_ok (fst (add_containment P e m))" using Cons.prems by (rule add_containment_ok)
  have split: "add_all P (e # es) m = add_all P es (add_containment P e m)" by (simp add: add_all_def)
  note first = add_containment_grows [OF Cons.prems, of P e] and rest = Cons.IH [OF ok]
  show ?case unfolding split
  proof (intro conjI impI)
    show "snd (map_key (fst m)) \<le> snd (map_key (fst (add_all P es (add_containment P e m))))"
      using first rest by (meson le_trans)
    assume "snd (map_key (fst (add_all P es (add_containment P e m)))) = snd (map_key (fst m))"
    then have "snd (map_key (fst (add_containment P e m))) = snd (map_key (fst m))"
      using first rest by (metis le_antisym)
    with first rest show "fst (add_all P es (add_containment P e m)) = fst m"
      using \<open>snd (map_key (fst (add_all P es (add_containment P e m)))) = snd (map_key (fst m))\<close> by simp
  qed
qed (simp add: add_all_def)

lemma render_tracks:
  assumes "tracks h prev" and "announced prev r" and "single_parent (rd_pred prev) (rd_edges prev)"
    and "single_parent (rd_pred r) (rd_edges r)"
  shows "tracks (render r h) r \<and> childMapRef (render r h) = childSetsRef (render r h)"
proof (cases "needsFullRebuild r h")
  case True
  obtain cs pm where build: "build_maps (rd_pred r) (rd_edges r) = (cs, pm)" by (cases "build_maps (rd_pred r) (rd_edges r)")
  then have new: "maps_of (rd_pred r) (rd_edges r) (cs, pm)" using maps_of_build [of "rd_pred r" "rd_edges r"] by simp
  show ?thesis
  proof (cases "parentMapEqual (parentMapRef h) pm")
    case reuse: True
    have "maps_of (rd_pred r) (rd_edges r) (childSetsRef h, parentMapRef h)"
      using maps_of_reuse [OF _ assms(3) new assms(4)] assms(1) reuse by (simp add: tracks_def)
    moreover have "render r h = h\<lparr>childMapRef := (if childMapKey h = Some (map_key (childSetsRef h)) then childMapRef h else childSetsRef h),
        childMapKey := Some (map_key (childSetsRef h)), prevEdgeLen := length (rd_edges r), prevIsContainment := rd_pred_ref r,
        prevFingerprint := rd_fingerprint r\<rparr>"
      using True reuse by (simp add: render_def build)
    moreover have "childMapKey h = Some (map_key (childSetsRef h)) \<Longrightarrow> childMapRef h = childSetsRef h"
      using assms(1) by (simp add: tracks_def)
    ultimately show ?thesis by (simp add: tracks_def)
  next
    case False
    with True build new show ?thesis by (simp add: render_def tracks_def Let_def)
  qed
next
  case False
  then obtain more where more: "rd_pred r = rd_pred prev" "rd_edges r = rd_edges prev @ more"
    using assms(1,2) by (auto simp: needsFullRebuild_def announced_def tracks_def)
  obtain cs pm where add: "add_all (rd_pred r) more (childSetsRef h, parentMapRef h) = (cs, pm)"
    by (cases "add_all (rd_pred r) more (childSetsRef h, parentMapRef h)")
  have len: "drop (prevEdgeLen h) (rd_edges r) = more" using assms(1) more by (simp add: tracks_def)
  have maps: "maps_of (rd_pred r) (rd_edges r) (cs, pm)"
    using maps_of_add_all [of "rd_pred prev" "rd_edges prev" _ more] assms(1) add more by (metis tracks_def)
  have "jsm_ok (childSetsRef h)" using assms(1) by (simp add: tracks_def maps_of_def)
  then have "map_key cs = map_key (childSetsRef h) \<Longrightarrow> cs = childSetsRef h"
    using add_all_grows [of "(childSetsRef h, parentMapRef h)" "rd_pred r" more] add by simp
  moreover have "render r h = h\<lparr>childMapRef := (if childMapKey h = Some (map_key cs) then childMapRef h else cs),
      childMapKey := Some (map_key cs), prevEdgeLen := length (rd_edges r), prevIsContainment := rd_pred_ref r,
      prevFingerprint := rd_fingerprint r, childSetsRef := cs, parentMapRef := pm\<rparr>"
    using False by (simp add: render_def len add)
  moreover have "childMapRef h = cs" if "childMapKey h = Some (map_key cs)"
  proof -
    have "map_key cs = map_key (childSetsRef h) \<and> childMapRef h = childSetsRef h"
      using assms(1) that unfolding tracks_def by (metis option.distinct(1) option.inject)
    with \<open>map_key cs = map_key (childSetsRef h) \<Longrightarrow> cs = childSetsRef h\<close> show ?thesis by simp
  qed
  ultimately show ?thesis using maps by (auto simp: tracks_def)
qed

lemma renders_track:
  assumes "tracks h prev" and "single_parent (rd_pred prev) (rd_edges prev)" and "announced_all prev rs" and "rs \<noteq> []"
  shows "tracks (fold render rs h) (last rs) \<and> childMapRef (fold render rs h) = childSetsRef (fold render rs h)"
  using assms
proof (induction rs arbitrary: h prev)
  case (Cons r rs)
  have here: "tracks (render r h) r" "childMapRef (render r h) = childSetsRef (render r h)"
    using render_tracks [OF Cons.prems(1) _ Cons.prems(2)] Cons.prems(3) by simp_all
  show ?case
  proof (cases "rs = []")
    case True
    with here show ?thesis by simp
  next
    case False
    with Cons here show ?thesis by simp
  qed
qed simp

text \<open>
  C12: consider a history of renders in which (1) each render either has another containment predicate, fewer edges or
  another fingerprint than the one before, or the same predicate and edges that extend those before, and (2) in no
  render an entity lies in two containers. Then, whatever mixture of rebuilds, reuses and incremental updates it
  takes, the maps are those a rebuild from the current edges would give, the parent map and the child map agree
  with each other, and the cached child map is the current one. Without (2) the cached child map can be stale
  (\<open>stale_child_of_removed_containment\<close>).
\<close>

theorem incremental_hierarchy_equals_rebuild:
  assumes "announced_all \<lparr>rd_nodes = [], rd_edges = [], rd_pred_ref = p0, rd_pred = P0, rd_fingerprint = f0\<rparr> (rs @ [r])"
  defines "h \<equiv> fold render (rs @ [r]) (initial_hierarchy p0 f0)"
  shows "mget (parentMapRef h) c = mget (snd (build_maps (rd_pred r) (rd_edges r))) c
    \<and> set (kids_of (childMapRef h) p) = set (kids_of (fst (build_maps (rd_pred r) (rd_edges r))) p)
    \<and> consistent_kids (parentMapRef h) (childMapRef h)"
proof -
  let ?start = "\<lparr>rd_nodes = [], rd_edges = [], rd_pred_ref = p0, rd_pred = P0, rd_fingerprint = f0\<rparr>"
  have "tracks (initial_hierarchy p0 f0) ?start"
    by (simp add: tracks_def initial_hierarchy_def maps_of_def contains_def kids_of_def)
  moreover have "single_parent P0 []" by (simp add: single_parent_def contains_def)
  ultimately have "tracks h r" and child: "childMapRef h = childSetsRef h"
    using renders_track [of "initial_hierarchy p0 f0" ?start "rs @ [r]"] assms(1) by (simp_all add: h_def)
  then have maps: "maps_of (rd_pred r) (rd_edges r) (childSetsRef h, parentMapRef h)" by (simp add: tracks_def)
  have single: "single_parent (rd_pred r) (rd_edges r)" using announced_all_last [OF assms(1)] .
  note here = maps_of_parent [OF maps single, simplified]
    and there = maps_of_parent [OF maps_of_build [of "rd_pred r" "rd_edges r"] single]
  have "mget (parentMapRef h) c = mget (snd (build_maps (rd_pred r) (rd_edges r))) c"
    by (metis here there not_Some_eq)
  moreover have "set (kids_of (childMapRef h) p) = set (kids_of (fst (build_maps (rd_pred r) (rd_edges r))) p)"
    using maps maps_of_build [of "rd_pred r" "rd_edges r"] by (auto simp: maps_of_def child)
  moreover have "consistent_kids (parentMapRef h) (childMapRef h)"
    using maps here by (simp add: consistent_kids_def child maps_of_def)
  ultimately show ?thesis by blast
qed

text \<open>Three renders: one edge, one edge more, and after a new fingerprint a different edge.\<close>

definition contain_edge :: "ident \<Rightarrow> ident \<Rightarrow> lineage_edge" where
  "contain_edge p c = \<lparr>edge_id = p @ ''-'' @ c, edge_source = p, edge_target = c,
     edge_data_of = Some \<lparr>d_edgeType = Some ''contains'', d_relationship = None, d_confidence = None, d_isAggregated = False, d_edgeTypes = None\<rparr>\<rparr>"

definition is_contains :: "string \<Rightarrow> bool" where
  "is_contains t \<longleftrightarrow> t = ''CONTAINS''"

definition sample_render :: "string \<Rightarrow> lineage_edge list \<Rightarrow> render_input" where
  "sample_render f es = \<lparr>rd_nodes = [], rd_edges = es, rd_pred_ref = 0, rd_pred = is_contains, rd_fingerprint = Some f\<rparr>"

theorem incremental_hierarchy_equals_rebuild_witness:
  "mget (parentMapRef (fold render [sample_render ''v1'' [contain_edge ''a'' ''b''],
      sample_render ''v1'' [contain_edge ''a'' ''b'', contain_edge ''b'' ''c''], sample_render ''v2'' [contain_edge ''x'' ''c'']]
      (initial_hierarchy 0 (Some ''v1'')))) ''c'' = Some ''x''"
proof -
  let ?rs = "[sample_render ''v1'' [contain_edge ''a'' ''b''], sample_render ''v1'' [contain_edge ''a'' ''b'', contain_edge ''b'' ''c'']]"
  let ?r = "sample_render ''v2'' [contain_edge ''x'' ''c'']"
  have "announced_all \<lparr>rd_nodes = [], rd_edges = [], rd_pred_ref = 0, rd_pred = is_contains, rd_fingerprint = Some ''v1''\<rparr> (?rs @ [?r])"
    by (auto simp: announced_def sample_render_def single_parent_def contains_def contain_edge_def)
  from incremental_hierarchy_equals_rebuild [OF this, of "''c''"]
  have "mget (parentMapRef (fold render (?rs @ [?r]) (initial_hierarchy 0 (Some ''v1'')))) ''c''
      = mget (snd (build_maps (rd_pred ?r) (rd_edges ?r))) ''c''" by blast
  moreover have "mget (snd (build_maps (rd_pred ?r) (rd_edges ?r))) ''c'' = Some ''x''" by code_simp
  ultimately show ?thesis by simp
qed

text \<open>
  An entity in two containers: when the first containment is removed the parent map does not change,
  so the old child map is kept and still lists the entity under the container that lost it.
\<close>

lemma stale_child_of_removed_containment:
  "kids_of (childMapRef (fold render [sample_render ''v1'' [contain_edge ''a'' ''c'', contain_edge ''b'' ''c''],
      sample_render ''v2'' [contain_edge ''b'' ''c'']] (initial_hierarchy 0 (Some ''v1'')))) ''a'' = [''c'']"
  by code_simp

text \<open>Roots have no container, and every named node that is no ghost is a root or has one.\<close>

lemma rootNodes_iff:
  "n \<in> set (rootNodes ns pm) \<longleftrightarrow> n \<in> set ns \<and> node_id n \<noteq> '''' \<and> mget pm (node_id n) = None
     \<and> str_field (node_data n) ''type'' \<noteq> Some ''ghost''"
  by (auto simp: rootNodes_def)

end
