(* ===== verification/Trace_Spine.thy ===== *)
theory Trace_Spine
  imports Containment_Map Graph_Model
begin

text \<open>
  The merge of a trace into the canvas: the spine of ancestors a trace needs
  (\<^verbatim>\<open>hooks/lib/traceMergeSpine.ts\<close>) and the containment edges synthesised for a search hit
  (\<^verbatim>\<open>lib/synthesizeContainmentEdges.ts\<close>). Sets whose order matters to nobody are HOL sets.
\<close>

section \<open>The spine\<close>

record trace_edge =
  te_source :: urn
  te_target :: urn

definition link_parent :: "trace_edge \<Rightarrow> parent_map \<Rightarrow> parent_map" where
  "link_parent ce m =
     (if te_source ce = [] \<or> te_target ce = [] then m else mset_key (te_target ce) (te_source ce) m)"

definition childToParent :: "trace_edge list \<Rightarrow> parent_map" where
  "childToParent es = fold link_parent es []"

text \<open>The inner loop: the chain so far and the cursor at which the walk stopped.\<close>

function spine_walk :: "parent_map \<Rightarrow> (urn \<Rightarrow> bool) \<Rightarrow> urn option \<Rightarrow> urn list \<Rightarrow> urn list \<Rightarrow> urn list \<times> urn option" where
  "spine_walk pm known None visited chain = (chain, None)"
| "spine_walk pm known (Some c) visited chain =
     (if c = '''' \<or> known c \<or> c \<in> set visited then (chain, Some c)
      else spine_walk pm known (mget pm c) (c # visited) (chain @ [c]))"
  by pat_completeness auto

termination spine_walk
proof (relation "measure (\<lambda>(pm, known, cursor, visited, chain). case cursor of None \<Rightarrow> 0
    | Some c \<Rightarrow> Suc (card ((set (map snd pm) \<union> {c}) - set visited)))", goal_cases)
  case (2 pm known c visited chain)
  show ?case
  proof (cases "mget pm c")
    case (Some p)
    then have "(set (map snd pm) \<union> {p}) - set (c # visited) \<subset> (set (map snd pm) \<union> {c}) - set visited"
      using 2 by (auto dest: map_of_SomeD intro: rev_image_eqI)
    then have "card ((set (map snd pm) \<union> {p}) - set (c # visited)) < card ((set (map snd pm) \<union> {c}) - set visited)"
      by (intro psubset_card_mono) simp_all
    with Some show ?thesis by simp
  qed simp
qed simp

record spine_result =
  spineUrns :: "urn set"
  unreachableRoots :: "urn set"

definition spine_step :: "parent_map \<Rightarrow> (urn \<Rightarrow> bool) \<Rightarrow> urn \<Rightarrow> spine_result \<Rightarrow> spine_result" where
  "spine_step pm known u r =
     (if u = '''' \<or> known u then r
      else (let (chain, cursor) = spine_walk pm known (mget pm u) [u] [];
                reachedAnchor = (case cursor of None \<Rightarrow> False | Some c \<Rightarrow> known c)
            in r\<lparr>spineUrns := spineUrns r \<union> set chain,
                 unreachableRoots :=
                   (if reachedAnchor then unreachableRoots r
                    else insert (if chain \<noteq> [] then last chain else u) (unreachableRoots r))\<rparr>))"

definition computeTraceMergeSpine :: "urn list \<Rightarrow> trace_edge list \<Rightarrow> (urn \<Rightarrow> bool) \<Rightarrow> spine_result" where
  "computeTraceMergeSpine participantUrns containmentEdges known =
     fold (spine_step (childToParent containmentEdges) known) participantUrns
       \<lparr>spineUrns = {}, unreachableRoots = {}\<rparr>"

section \<open>What the spine is\<close>

text \<open>\<open>novel pm known u a\<close>: \<open>a\<close> is an ancestor of \<open>u\<close>, and neither it nor anything between is on the canvas.\<close>

inductive novel :: "parent_map \<Rightarrow> (urn \<Rightarrow> bool) \<Rightarrow> urn \<Rightarrow> urn \<Rightarrow> bool" for pm known u where
  parent: "mget pm u = Some a \<Longrightarrow> \<not> known a \<Longrightarrow> novel pm known u a"
| above: "novel pm known u b \<Longrightarrow> mget pm b = Some a \<Longrightarrow> \<not> known a \<Longrightarrow> novel pm known u a"

inductive_cases novelE: "novel pm known u a"

definition anchored :: "parent_map \<Rightarrow> (urn \<Rightarrow> bool) \<Rightarrow> urn \<Rightarrow> bool" where
  "anchored pm known u \<longleftrightarrow> (\<exists>b k. (b = u \<or> novel pm known u b) \<and> mget pm b = Some k \<and> known k)"

definition no_empty_parent :: "parent_map \<Rightarrow> bool" where
  "no_empty_parent pm \<longleftrightarrow> (\<forall>c p. mget pm c = Some p \<longrightarrow> p \<noteq> '''')"

lemma link_parent_no_empty: "no_empty_parent m \<Longrightarrow> no_empty_parent (link_parent ce m)"
  by (simp add: no_empty_parent_def link_parent_def)

lemma fold_link_no_empty: "no_empty_parent m \<Longrightarrow> no_empty_parent (fold link_parent es m)"
  by (induction es arbitrary: m) (simp_all add: link_parent_no_empty)

lemma childToParent_no_empty: "no_empty_parent (childToParent es)"
  unfolding childToParent_def by (rule fold_link_no_empty) (simp add: no_empty_parent_def)

text \<open>
  During the walk from \<open>u\<close>: the chain holds novel ancestors, it is closed under parents up to the
  cursor, and what has been visited is \<open>u\<close> and the chain.
\<close>

definition walk_inv :: "parent_map \<Rightarrow> (urn \<Rightarrow> bool) \<Rightarrow> urn \<Rightarrow> urn option \<Rightarrow> urn list \<Rightarrow> urn list \<Rightarrow> bool" where
  "walk_inv pm known u cursor visited chain \<longleftrightarrow>
     set visited = insert u (set chain) \<and> u \<notin> set chain
     \<and> (\<forall>a \<in> set chain. novel pm known u a)
     \<and> (cursor = mget pm (if chain = [] then u else last chain))
     \<and> (\<forall>b \<in> insert u (set chain). mget pm b = cursor \<or> (\<exists>a \<in> set chain. mget pm b = Some a))"

lemma novel_not_known: "novel pm known u a \<Longrightarrow> \<not> known a"
  by (auto elim: novelE)

lemma walk_inv_step:
  assumes "walk_inv pm known u (Some c) visited chain" and "\<not> known c" and "c \<notin> set visited"
  shows "walk_inv pm known u (mget pm c) (c # visited) (chain @ [c])"
proof -
  have c: "mget pm (if chain = [] then u else last chain) = Some c" using assms(1) by (simp add: walk_inv_def)
  have "novel pm known u (last chain)" if "chain \<noteq> []" using assms(1) that by (simp add: walk_inv_def)
  with c assms(2) have "novel pm known u c" by (cases "chain = []") (auto intro: novel.intros)
  with assms show ?thesis by (auto simp: walk_inv_def)
qed

lemma walk_inv_stuck:
  assumes inv: "walk_inv pm known u (Some c) visited chain" and "\<not> known u"
    and stop: "known c \<or> c \<in> set visited"
  shows "set chain = {a. a \<noteq> u \<and> novel pm known u a} \<and> (known c \<longleftrightarrow> anchored pm known u)"
proof -
  have visited: "set visited = insert u (set chain)" "u \<notin> set chain" and chain: "\<And>a. a \<in> set chain \<Longrightarrow> novel pm known u a"
    and cursor: "mget pm (if chain = [] then u else last chain) = Some c"
    and next_in: "\<And>b. b \<in> insert u (set chain) \<Longrightarrow> mget pm b = Some c \<or> (\<exists>a \<in> set chain. mget pm b = Some a)"
    using inv by (auto simp: walk_inv_def)
  have closed: "a \<in> insert u (set chain)" if "novel pm known u a" for a
    using that
  proof (induction rule: novel.induct)
    case (parent a)
    with next_in [of u] stop visited show ?case by auto
  next
    case (above b a)
    with next_in [of b] stop visited show ?case by auto
  qed
  have known_c: "known c" if "anchored pm known u"
  proof -
    from that obtain b k where "b = u \<or> novel pm known u b" "mget pm b = Some k" "known k" by (auto simp: anchored_def)
    moreover from this have "b \<in> insert u (set chain)" using closed by auto
    ultimately have "k = c \<or> k \<in> set chain" using next_in [of b] by auto
    with \<open>known k\<close> chain novel_not_known show ?thesis by blast
  qed
  have "anchored pm known u" if "known c"
    unfolding anchored_def using that cursor chain by (intro exI [of _ "if chain = [] then u else last chain"] exI [of _ c]) auto
  with known_c closed chain visited show ?thesis by auto
qed

lemma walk_inv_result:
  assumes "walk_inv pm known u cursor visited chain" and "no_empty_parent pm" and "\<not> known u"
  shows "set (fst (spine_walk pm known cursor visited chain)) = {a. a \<noteq> u \<and> novel pm known u a}
    \<and> ((\<exists>c. snd (spine_walk pm known cursor visited chain) = Some c \<and> known c) \<longleftrightarrow> anchored pm known u)"
  using assms
proof (induction pm known cursor visited chain rule: spine_walk.induct)
  case (1 pm known visited chain)
  have next_in: "\<And>b. b \<in> insert u (set chain) \<Longrightarrow> mget pm b = None \<or> (\<exists>a \<in> set chain. mget pm b = Some a)"
    and chain: "\<And>a. a \<in> set chain \<Longrightarrow> novel pm known u a" and fresh: "u \<notin> set chain"
    using 1(1) by (auto simp: walk_inv_def)
  have closed: "a \<in> set chain" if "novel pm known u a" for a
    using that
  proof (induction rule: novel.induct)
    case (parent a)
    with next_in [of u] show ?case by auto
  next
    case (above b a)
    with next_in [of b] show ?case by auto
  qed
  have "\<not> anchored pm known u"
  proof
    assume "anchored pm known u"
    then obtain b k where b: "b = u \<or> novel pm known u b" "mget pm b = Some k" "known k" by (auto simp: anchored_def)
    then have "b \<in> insert u (set chain)" using closed by auto
    with next_in [of b] b(2) have "k \<in> set chain" by auto
    with chain b(3) novel_not_known show False by blast
  qed
  with closed chain fresh show ?case by auto
next
  case (2 pm known c visited chain)
  have "c \<noteq> ''''" using 2(2,3) by (auto simp: walk_inv_def no_empty_parent_def split: if_splits)
  show ?case
  proof (cases "known c \<or> c \<in> set visited")
    case True
    with walk_inv_stuck [OF 2(2,4) True] show ?thesis by auto
  next
    case False
    with \<open>c \<noteq> ''''\<close> 2(1) [OF _ walk_inv_step [OF 2(2)] 2(3,4)] show ?thesis by simp
  qed
qed

lemma spine_walk_from:
  assumes "no_empty_parent pm" and "\<not> known u"
  shows "set (fst (spine_walk pm known (mget pm u) [u] [])) = {a. a \<noteq> u \<and> novel pm known u a}"
    and "(\<exists>c. snd (spine_walk pm known (mget pm u) [u] []) = Some c \<and> known c) \<longleftrightarrow> anchored pm known u"
proof -
  have "walk_inv pm known u (mget pm u) [u] []" by (simp add: walk_inv_def)
  from walk_inv_result [OF this assms]
  show "set (fst (spine_walk pm known (mget pm u) [u] [])) = {a. a \<noteq> u \<and> novel pm known u a}"
    and "(\<exists>c. snd (spine_walk pm known (mget pm u) [u] []) = Some c \<and> known c) \<longleftrightarrow> anchored pm known u"
    by simp_all
qed

lemma spine_step_sets:
  assumes "no_empty_parent pm"
  shows "spineUrns (spine_step pm known u r) = spineUrns r \<union>
      (if u = '''' \<or> known u then {} else {a. a \<noteq> u \<and> novel pm known u a})
    \<and> (unreachableRoots (spine_step pm known u r) = {} \<longleftrightarrow>
        unreachableRoots r = {} \<and> (u = '''' \<or> known u \<or> anchored pm known u))"
proof (cases "u = '''' \<or> known u")
  case True
  then show ?thesis by (auto simp: spine_step_def)
next
  case False
  obtain chain cursor where walk: "spine_walk pm known (mget pm u) [u] [] = (chain, cursor)"
    by (cases "spine_walk pm known (mget pm u) [u] []")
  have "set chain = {a. a \<noteq> u \<and> novel pm known u a}"
    and "(case cursor of None \<Rightarrow> False | Some c \<Rightarrow> known c) \<longleftrightarrow> anchored pm known u"
    using spine_walk_from [OF assms, of known u] False walk by (auto split: option.splits)
  with False show ?thesis by (simp add: spine_step_def walk)
qed

lemma fold_spine_steps:
  assumes "no_empty_parent pm"
  shows "spineUrns (fold (spine_step pm known) us r)
      = spineUrns r \<union> {a. \<exists>u \<in> set us. u \<noteq> '''' \<and> \<not> known u \<and> a \<noteq> u \<and> novel pm known u a}
    \<and> (unreachableRoots (fold (spine_step pm known) us r) = {} \<longleftrightarrow>
        unreachableRoots r = {} \<and> (\<forall>u \<in> set us. u = '''' \<or> known u \<or> anchored pm known u))"
proof (induction us arbitrary: r)
  case (Cons u us)
  show ?case
    using Cons.IH [of "spine_step pm known u r"] spine_step_sets [OF assms, of known u r] by auto
qed simp

text \<open>
  C17: on every set of containment edges, cyclic ones included, the spine is exactly the set of
  ancestors of unplaced participants that have no placed entity between them and the participant
  (the minimum that routes them), never a placed entity and never a participant as its own
  ancestor, and no root is flagged exactly when every unplaced participant reaches an anchor.
\<close>

theorem merge_spine_is_minimal_and_sufficient:
  "spineUrns (computeTraceMergeSpine us es known)
     = {a. \<exists>u \<in> set us. u \<noteq> '''' \<and> \<not> known u \<and> a \<noteq> u \<and> novel (childToParent es) known u a}
   \<and> (unreachableRoots (computeTraceMergeSpine us es known) = {} \<longleftrightarrow>
        (\<forall>u \<in> set us. u = '''' \<or> known u \<or> anchored (childToParent es) known u))"
  using fold_spine_steps [OF childToParent_no_empty, of es known us] by (simp add: computeTraceMergeSpine_def)

text \<open>A column under a new table of a placed schema, and a containment cycle that reaches no anchor.\<close>

definition sample_edges :: "trace_edge list" where
  "sample_edges = [\<lparr>te_source = ''schema'', te_target = ''table''\<rparr>, \<lparr>te_source = ''table'', te_target = ''column''\<rparr>,
     \<lparr>te_source = ''a'', te_target = ''b''\<rparr>, \<lparr>te_source = ''b'', te_target = ''a''\<rparr>]"

lemma merge_spine_is_minimal_and_sufficient_witness:
  "novel (childToParent sample_edges) (\<lambda>u. u = ''schema'') ''column'' ''table''
   \<and> \<not> anchored (childToParent sample_edges) (\<lambda>u. u = ''schema'') ''a''"
proof -
  let ?r = "computeTraceMergeSpine [''column'', ''a''] sample_edges (\<lambda>u. u = ''schema'')"
  let ?c = "computeTraceMergeSpine [''column''] sample_edges (\<lambda>u. u = ''schema'')"
  have computed: "spineUrns ?c = {''table''}" "unreachableRoots ?c = {}" "unreachableRoots ?r \<noteq> {}"
    by code_simp+
  have "''table'' \<in> spineUrns ?c" using computed(1) by blast
  then have "novel (childToParent sample_edges) (\<lambda>u. u = ''schema'') ''column'' ''table''"
    unfolding merge_spine_is_minimal_and_sufficient [THEN conjunct1] by force
  moreover have "anchored (childToParent sample_edges) (\<lambda>u. u = ''schema'') ''column''"
    using computed(2) unfolding merge_spine_is_minimal_and_sufficient [THEN conjunct2] by force
  then have "\<not> anchored (childToParent sample_edges) (\<lambda>u. u = ''schema'') ''a''"
    using computed(3) unfolding merge_spine_is_minimal_and_sufficient [THEN conjunct2] by force
  ultimately show ?thesis by (rule conjI)
qed

section \<open>Synthesised containment edges\<close>

definition synth_edge :: "string \<Rightarrow> urn \<Rightarrow> urn \<Rightarrow> graph_edge" where
  "synth_edge ty parent child =
     \<lparr>ge_id = ''synth-search-'' @ parent @ ''-'' @ child, ge_sourceUrn = parent, ge_targetUrn = child, ge_edgeType = ty,
      ge_confidence = None, ge_properties = None\<rparr>"

definition synthesizeContainmentEdges :: "urn list \<Rightarrow> urn \<Rightarrow> string \<Rightarrow> graph_edge list" where
  "synthesizeContainmentEdges ancestorChain leaf ty =
     (if ancestorChain = [] then []
      else map (\<lambda>i. synth_edge ty (ancestorChain ! i) (ancestorChain ! (i + 1))) [0..<length ancestorChain - 1]
             @ [synth_edge ty (last ancestorChain) leaf])"

text \<open>The edges link the chain root to leaf, one per hop.\<close>

lemma synthesize_links:
  "map (\<lambda>e. (ge_sourceUrn e, ge_targetUrn e)) (synthesizeContainmentEdges chain leaf ty) = zip chain (tl chain @ [leaf])"
proof (cases "chain = []")
  case False
  have "zip chain (tl chain @ [leaf]) = map (\<lambda>i. (chain ! i, (tl chain @ [leaf]) ! i)) [0..<length chain]"
    using False by (intro nth_equalityI) auto
  also have "[0..<length chain] = [0..<length chain - 1] @ [length chain - 1]"
    using False by (metis Suc_diff_1 length_greater_0_conv upt_Suc_append le0)
  finally show ?thesis using False
    by (auto simp: synthesizeContainmentEdges_def synth_edge_def nth_append nth_tl last_conv_nth)
qed (simp add: synthesizeContainmentEdges_def)

text \<open>The id joins two URNs with a hyphen, which URNs may contain: two different edges share an id.\<close>

lemma synthesized_ids_collide:
  "ge_id (synth_edge ty ''a'' ''b-c'') = ge_id (synth_edge ty ''a-b'' ''c'')"
  by (simp add: synth_edge_def)

end
