(* ===== verification/Trace_Filter.thy ===== *)
theory Trace_Filter
  imports Layer_Assignment Trace_Spine
begin

text \<open>
  The view of the canvas while a trace is active (\<^verbatim>\<open>hooks/useTraceFilteredHierarchy.ts\<close>): the
  context set of the trace, the pruned hierarchies and the flat views of them. The context set is
  only asked for membership, so it is a HOL set; the flat list and the map are built by the
  recursion itself and are threaded through it as a state.
\<close>

section \<open>The context of a trace\<close>

record trace_filter_input =
  tf_nodesByLayer :: "(ident, hnode list) jsmap"
  tf_displayFlat :: "hnode list"
  tf_displayMap :: "(ident, hnode) jsmap"
  tf_isTracing :: bool
  tf_traceNodes :: "urn list"
  tf_drilldowns :: "(string, urn list) jsmap"
  tf_parentMap :: parent_map
  tf_expandedNodes :: "ident set"

text \<open>The loop of \<^verbatim>\<open>addWithAncestors\<close>: up to a root, or to the first ancestor already in the set.\<close>

function climb :: "parent_map \<Rightarrow> ident option \<Rightarrow> ident set \<Rightarrow> ident set" where
  "climb pm None ctx = ctx"
| "climb pm (Some p) ctx = (if p = '''' \<or> p \<in> ctx then ctx else climb pm (mget pm p) (insert p ctx))"
  by pat_completeness auto

termination climb
proof (relation "measure (\<lambda>(pm, cursor, ctx). case cursor of None \<Rightarrow> 0
    | Some c \<Rightarrow> Suc (card ((set (map snd pm) \<union> {c}) - ctx)))", goal_cases)
  case (2 pm p ctx)
  show ?case
  proof (cases "mget pm p")
    case (Some q)
    then have "(set (map snd pm) \<union> {q}) - insert p ctx \<subset> (set (map snd pm) \<union> {p}) - ctx"
      using 2 by (auto dest: map_of_SomeD intro: rev_image_eqI)
    then have "card ((set (map snd pm) \<union> {q}) - insert p ctx) < card ((set (map snd pm) \<union> {p}) - ctx)"
      by (intro psubset_card_mono) simp_all
    with Some show ?thesis by simp
  qed simp
qed simp

definition addWithAncestors :: "parent_map \<Rightarrow> ident \<Rightarrow> ident set \<Rightarrow> ident set" where
  "addWithAncestors pm n ctx = (if n = '''' \<or> n \<in> ctx then ctx else climb pm (mget pm n) (insert n ctx))"

definition trace_seeds :: "trace_filter_input \<Rightarrow> urn list" where
  "trace_seeds i = tf_traceNodes i @ concat (map snd (tf_drilldowns i))"

definition trace_context :: "trace_filter_input \<Rightarrow> ident set" where
  "trace_context i = fold (addWithAncestors (tf_parentMap i)) (trace_seeds i) {}"

section \<open>Pruning\<close>

record filter_state =
  contextSet :: "ident set"
  filteredFlat :: "hnode list"
  filteredMap :: "(ident, hnode) jsmap"

definition recordKept :: "hnode \<Rightarrow> filter_state \<Rightarrow> filter_state" where
  "recordKept h s = s\<lparr>filteredFlat := filteredFlat s @ [h], filteredMap := mset_key (hn_id h) h (filteredMap s)\<rparr>"

definition mark_node :: "hnode \<Rightarrow> filter_state \<Rightarrow> filter_state" where
  "mark_node h s = s\<lparr>contextSet :=
     (let ctx = insert (hn_id h) (contextSet s)
      in if hn_urn h \<noteq> '''' \<and> hn_urn h \<noteq> hn_id h then insert (hn_urn h) ctx else ctx)\<rparr>"

fun collectSubtree :: "hnode \<Rightarrow> filter_state \<Rightarrow> filter_state" where
  "collectSubtree (HNode nid ty name d children depth u eo tags lc) s =
     fold collectSubtree children
       (recordKept (HNode nid ty name d children depth u eo tags lc)
          (mark_node (HNode nid ty name d children depth u eo tags lc) s))"

definition in_context :: "ident set \<Rightarrow> hnode \<Rightarrow> bool" where
  "in_context ctx h \<longleftrightarrow> hn_id h \<in> ctx \<or> hn_urn h \<in> ctx"

fun with_children :: "hnode \<Rightarrow> hnode list \<Rightarrow> hnode" where
  "with_children (HNode nid ty name d children depth u eo tags lc) cs = HNode nid ty name d cs depth u eo tags lc"

text \<open>
  What \<^verbatim>\<open>pruneTree\<close> does with a node once its children have been pruned to \<open>kept\<close>. The original
  object is reused when nothing below it changed, which a value cannot tell from a copy.
\<close>

definition prune_here :: "ident set \<Rightarrow> hnode \<Rightarrow> hnode list \<Rightarrow> filter_state \<Rightarrow> hnode option \<times> filter_state" where
  "prune_here expanded h kept s =
     (let inContext = in_context (contextSet s) h
      in if inContext \<and> hn_id h \<in> expanded \<and> kept = [] \<and> hn_children h \<noteq> []
         then (Some h, recordKept h (fold collectSubtree (hn_children h) s))
         else if \<not> inContext \<and> kept = [] then (None, s)
         else (let rebuilt = (if kept = hn_children h then h else with_children h kept)
               in (Some rebuilt, recordKept rebuilt s)))"

fun pruneTree :: "ident set \<Rightarrow> hnode \<Rightarrow> filter_state \<Rightarrow> hnode option \<times> filter_state"
  and prune_all :: "ident set \<Rightarrow> hnode list \<Rightarrow> filter_state \<Rightarrow> hnode list \<times> filter_state" where
  "pruneTree expanded (HNode nid ty name d children depth u eo tags lc) s =
     (let (kept, s1) = prune_all expanded children s
      in prune_here expanded (HNode nid ty name d children depth u eo tags lc) kept s1)"
| "prune_all expanded [] s = ([], s)"
| "prune_all expanded (h # hs) s =
     (let (k, s1) = pruneTree expanded h s; (ks, s2) = prune_all expanded hs s1
      in (case k of None \<Rightarrow> ks | Some h' \<Rightarrow> h' # ks, s2))"

fun filter_layers :: "ident set \<Rightarrow> (ident, hnode list) jsmap \<Rightarrow> filter_state \<Rightarrow> (ident, hnode list) jsmap \<times> filter_state" where
  "filter_layers expanded [] s = ([], s)"
| "filter_layers expanded ((l, hs) # rest) s =
     (let (ks, s1) = prune_all expanded hs s; (byLayer, s2) = filter_layers expanded rest s1
      in ((l, ks) # byLayer, s2))"

definition tracing :: "trace_filter_input \<Rightarrow> bool" where
  "tracing i \<longleftrightarrow> tf_isTracing i \<and> \<not> (tf_traceNodes i = [] \<and> tf_drilldowns i = [])"

definition useTraceFilteredHierarchy :: "trace_filter_input \<Rightarrow> (ident, hnode list) jsmap \<times> filter_state" where
  "useTraceFilteredHierarchy i =
     (if \<not> tracing i
      then (tf_nodesByLayer i, \<lparr>contextSet = {}, filteredFlat = tf_displayFlat i, filteredMap = tf_displayMap i\<rparr>)
      else filter_layers (tf_expandedNodes i) (tf_nodesByLayer i)
             \<lparr>contextSet = trace_context i, filteredFlat = [], filteredMap = []\<rparr>)"

section \<open>The context is the trace and its ancestors\<close>

text \<open>\<open>n\<close> and everything above it.\<close>

definition up_from :: "parent_map \<Rightarrow> ident \<Rightarrow> ident set" where
  "up_from pm n = {a. a = n \<or> below pm a n}"

lemma up_from_unfold: "up_from pm n = insert n (case mget pm n of None \<Rightarrow> {} | Some p \<Rightarrow> up_from pm p)"
  by (auto simp: up_from_def elim: belowE intro: below.intros split: option.splits)

definition closed_up_to :: "parent_map \<Rightarrow> ident option \<Rightarrow> ident set \<Rightarrow> bool" where
  "closed_up_to pm cursor ctx \<longleftrightarrow> (\<forall>x \<in> ctx. \<forall>q. mget pm x = Some q \<longrightarrow> q \<in> ctx \<or> cursor = Some q)"

lemma closed_above: "below pm a n \<Longrightarrow> closed_up_to pm None ctx \<Longrightarrow> n \<in> ctx \<Longrightarrow> a \<in> ctx"
  by (induction rule: below.induct) (auto simp: closed_up_to_def)

lemma closed_up_from: "closed_up_to pm None ctx \<Longrightarrow> n \<in> ctx \<Longrightarrow> up_from pm n \<subseteq> ctx"
  by (auto simp: up_from_def intro: closed_above)

lemma climb_result:
  "no_empty_parent pm \<Longrightarrow> cursor \<noteq> Some '''' \<Longrightarrow> closed_up_to pm cursor ctx \<Longrightarrow>
    climb pm cursor ctx = ctx \<union> (case cursor of None \<Rightarrow> {} | Some p \<Rightarrow> up_from pm p)
    \<and> closed_up_to pm None (climb pm cursor ctx)"
proof (induction pm cursor ctx rule: climb.induct)
  case (2 pm p ctx)
  show ?case
  proof (cases "p \<in> ctx")
    case True
    then have closed: "closed_up_to pm None ctx" using 2(4) by (auto simp: closed_up_to_def)
    with True closed_up_from [OF closed True] show ?thesis by auto
  next
    case False
    have "\<not> (p = '''' \<or> p \<in> ctx)" using False 2(3) by simp
    moreover have "mget pm p \<noteq> Some ''''" using 2(2) by (auto simp: no_empty_parent_def)
    moreover have "closed_up_to pm (mget pm p) (insert p ctx)" using 2(4) by (auto simp: closed_up_to_def)
    ultimately have both: "climb pm (mget pm p) (insert p ctx) = insert p ctx \<union> (case mget pm p of None \<Rightarrow> {} | Some q \<Rightarrow> up_from pm q)
        \<and> closed_up_to pm None (climb pm (mget pm p) (insert p ctx))"
      using 2(1,2) by blast
    note closed = both [THEN conjunct2] and above = both [THEN conjunct1]
    have step: "climb pm (Some p) ctx = climb pm (mget pm p) (insert p ctx)" using False 2(3) by simp
    with above have "climb pm (Some p) ctx = ctx \<union> up_from pm p" using up_from_unfold [of pm p] by simp
    moreover have "closed_up_to pm None (climb pm (Some p) ctx)" unfolding step by (rule closed)
    ultimately show ?thesis by (intro conjI) (simp_all only: option.case)
  qed
qed auto

lemma addWithAncestors_result:
  assumes "no_empty_parent pm" and "closed_up_to pm None ctx"
  shows "addWithAncestors pm n ctx = ctx \<union> (if n = '''' then {} else up_from pm n)
    \<and> closed_up_to pm None (addWithAncestors pm n ctx)"
proof (cases "n = '''' \<or> n \<in> ctx")
  case True
  with assms closed_up_from [OF assms(2)] show ?thesis by (auto simp: addWithAncestors_def)
next
  case False
  have "mget pm n \<noteq> Some ''''" using assms(1) by (auto simp: no_empty_parent_def)
  moreover have "closed_up_to pm (mget pm n) (insert n ctx)" using assms(2) by (auto simp: closed_up_to_def)
  ultimately have "climb pm (mget pm n) (insert n ctx)
      = insert n ctx \<union> (case mget pm n of None \<Rightarrow> {} | Some q \<Rightarrow> up_from pm q)
      \<and> closed_up_to pm None (climb pm (mget pm n) (insert n ctx))"
    by (rule climb_result [OF assms(1)])
  with False up_from_unfold [of pm n] show ?thesis by (auto simp: addWithAncestors_def)
qed

text \<open>
  on every containment map that has no empty parent id, cyclic maps included, building the
  context terminates and gives exactly the traced and drilled-down entities together with all
  their containment ancestors.
\<close>

theorem trace_context_is_ancestor_closure:
  assumes "no_empty_parent (tf_parentMap i)"
  shows "trace_context i = {a. \<exists>n \<in> set (trace_seeds i). n \<noteq> '''' \<and> (a = n \<or> below (tf_parentMap i) a n)}"
proof -
  let ?pm = "tf_parentMap i"
  have "fold (addWithAncestors ?pm) ns ctx = ctx \<union> (\<Union>n \<in> set ns - {[]}. up_from ?pm n)"
    if "closed_up_to ?pm None ctx" for ns ctx
    using that
  proof (induction ns arbitrary: ctx)
    case (Cons n ns)
    from addWithAncestors_result [OF assms Cons.prems, of n] Cons.IH show ?case by auto
  qed simp
  from this [of "{}" "trace_seeds i"] show ?thesis
    by (auto simp: trace_context_def closed_up_to_def up_from_def)
qed

section \<open>Nothing of the trace is lost\<close>

fun hn_nodes :: "hnode \<Rightarrow> hnode list" where
  "hn_nodes (HNode nid ty name d children depth u eo tags lc) =
     HNode nid ty name d children depth u eo tags lc # concat (map hn_nodes children)"

definition forest_nodes :: "hnode list \<Rightarrow> hnode list" where
  "forest_nodes hs = concat (map hn_nodes hs)"

lemma forest_nodes_simps [simp]:
  "forest_nodes [] = []"
  "forest_nodes (h # hs) = hn_nodes h @ forest_nodes hs"
  "forest_nodes (hs @ hs') = forest_nodes hs @ forest_nodes hs'"
  by (simp_all add: forest_nodes_def)

lemma hn_nodes_unfold: "hn_nodes h = h # forest_nodes (hn_children h)"
  by (cases h) (simp add: forest_nodes_def)

lemma with_children_simps [simp]:
  "hn_id (with_children h cs) = hn_id h"
  "hn_urn (with_children h cs) = hn_urn h"
  "hn_children (with_children h cs) = cs"
  by (cases h; simp)+

text \<open>
  Pruning \<open>hs\<close> to \<open>ks\<close> from the state \<open>s\<close> to \<open>s'\<close>: the nodes kept are the nodes recorded; what was in
  the context stays in it and is kept; nothing foreign appears; every kept node leads to one in the
  context; the context grows by kept nodes only; pruning everything changes nothing.
\<close>

definition kept_ok :: "filter_state \<Rightarrow> hnode list \<Rightarrow> hnode list \<Rightarrow> filter_state \<Rightarrow> bool" where
  "kept_ok s hs ks s' \<longleftrightarrow>
     mset (filteredFlat s') = mset (filteredFlat s) + mset (forest_nodes ks)
     \<and> contextSet s \<subseteq> contextSet s'
     \<and> (\<forall>x \<in> set (forest_nodes hs). in_context (contextSet s) x \<longrightarrow> hn_id x \<in> hn_id ` set (forest_nodes ks))
     \<and> hn_id ` set (forest_nodes ks) \<subseteq> hn_id ` set (forest_nodes hs)
     \<and> (\<forall>y \<in> set (forest_nodes ks). \<exists>z \<in> set (hn_nodes y). in_context (contextSet s') z)
     \<and> contextSet s' \<subseteq> contextSet s \<union> hn_id ` set (forest_nodes ks) \<union> hn_urn ` set (forest_nodes ks)
     \<and> (ks = [] \<longrightarrow> s' = s)"

lemma in_context_mono: "in_context ctx x \<Longrightarrow> ctx \<subseteq> ctx' \<Longrightarrow> in_context ctx' x"
  by (auto simp: in_context_def)

lemma kept_ok_Nil: "kept_ok s [] [] s"
  by (simp add: kept_ok_def)

lemma kept_ok_append:
  assumes one: "kept_ok s hs ks s1" and two: "kept_ok s1 hs' ks' s2"
  shows "kept_ok s (hs @ hs') (ks @ ks') s2"
proof -
  have grow: "contextSet s \<subseteq> contextSet s1" "contextSet s1 \<subseteq> contextSet s2"
    using one two by (simp_all add: kept_ok_def)
  have "\<exists>z \<in> set (hn_nodes y). in_context (contextSet s2) z" if "y \<in> set (forest_nodes ks)" for y
    using that one in_context_mono [OF _ grow(2)] unfolding kept_ok_def by blast
  moreover have "hn_id x \<in> hn_id ` set (forest_nodes ks')"
    if "x \<in> set (forest_nodes hs')" "in_context (contextSet s) x" for x
    using that two in_context_mono [OF _ grow(1)] unfolding kept_ok_def by blast
  moreover have "contextSet s2 \<subseteq> contextSet s \<union> (hn_id ` set (forest_nodes ks) \<union> hn_id ` set (forest_nodes ks'))
      \<union> (hn_urn ` set (forest_nodes ks) \<union> hn_urn ` set (forest_nodes ks'))"
    using one two by (simp add: kept_ok_def) blast
  moreover have "\<exists>z \<in> set (hn_nodes y). in_context (contextSet s2) z" if "y \<in> set (forest_nodes ks')" for y
    using that two by (simp add: kept_ok_def)
  moreover have "hn_id x \<in> hn_id ` set (forest_nodes ks)"
    if "x \<in> set (forest_nodes hs)" "in_context (contextSet s) x" for x
    using that one by (simp add: kept_ok_def)
  moreover have "hn_id ` set (forest_nodes ks) \<subseteq> hn_id ` set (forest_nodes hs)"
    "hn_id ` set (forest_nodes ks') \<subseteq> hn_id ` set (forest_nodes hs')"
    "mset (filteredFlat s2) = mset (filteredFlat s) + (mset (forest_nodes ks) + mset (forest_nodes ks'))"
    "ks = [] \<Longrightarrow> ks' = [] \<Longrightarrow> s2 = s"
    using one two by (simp_all add: kept_ok_def)
  moreover have "contextSet s \<subseteq> contextSet s2" using grow by blast
  ultimately show ?thesis
    unfolding kept_ok_def forest_nodes_simps set_append image_Un mset_append append_is_Nil_conv by (intro conjI) blast+
qed

definition collected :: "filter_state \<Rightarrow> hnode list \<Rightarrow> filter_state \<Rightarrow> bool" where
  "collected s ns s' \<longleftrightarrow>
     mset (filteredFlat s') = mset (filteredFlat s) + mset ns
     \<and> contextSet s' \<subseteq> contextSet s \<union> hn_id ` set ns \<union> hn_urn ` set ns
     \<and> contextSet s \<union> hn_id ` set ns \<subseteq> contextSet s'"

lemma collected_Nil: "collected s [] s"
  by (simp add: collected_def)

lemma collected_append: "collected s ns s1 \<Longrightarrow> collected s1 ns' s2 \<Longrightarrow> collected s (ns @ ns') s2"
  unfolding collected_def by (simp add: image_Un) blast

lemma collected_one: "collected s [h] (recordKept h (mark_node h s))"
  by (auto simp: collected_def recordKept_def mark_node_def Let_def)

lemma collected_fold:
  "(\<And>c t. c \<in> set cs \<Longrightarrow> collected t (hn_nodes c) (collectSubtree c t)) \<Longrightarrow>
    collected s (forest_nodes cs) (fold collectSubtree cs s)"
proof (induction cs arbitrary: s)
  case (Cons c cs)
  have "collected s (hn_nodes c) (collectSubtree c s)" using Cons.prems by simp
  moreover have "collected (collectSubtree c s) (forest_nodes cs) (fold collectSubtree cs (collectSubtree c s))"
    using Cons.prems by (intro Cons.IH) simp
  ultimately show ?case by (simp add: collected_append)
qed (simp add: collected_Nil)

lemma collect_result: "collected s (hn_nodes h) (collectSubtree h s)"
proof (induction h arbitrary: s)
  case (HNode nid ty name d children depth u eo tags lc)
  let ?h = "HNode nid ty name d children depth u eo tags lc"
  have "collected (recordKept ?h (mark_node ?h s)) (forest_nodes children)
      (fold collectSubtree children (recordKept ?h (mark_node ?h s)))"
    by (rule collected_fold) (rule HNode.IH)
  from collected_append [OF collected_one this] show ?case by (simp add: forest_nodes_def)
qed

lemma prune_here_ok:
  assumes kept: "kept_ok s (hn_children h) ks s1" and here: "prune_here expanded h ks s1 = (k, s2)"
  shows "kept_ok s [h] (case k of None \<Rightarrow> [] | Some h' \<Rightarrow> [h']) s2"
proof -
  have nodes: "hn_nodes h = h # forest_nodes (hn_children h)" by (rule hn_nodes_unfold)
  have still: "in_context (contextSet s) h \<Longrightarrow> in_context (contextSet s1) h"
    using kept by (auto simp: kept_ok_def in_context_def)
  consider (relax) "in_context (contextSet s1) h" "ks = []" "k = Some h" "s2 = recordKept h (fold collectSubtree (hn_children h) s1)"
    | (gone) "\<not> in_context (contextSet s1) h" "ks = []" "k = None" "s2 = s1"
    | (rebuilt) "in_context (contextSet s1) h \<or> ks \<noteq> []" "k = Some (if ks = hn_children h then h else with_children h ks)"
        "s2 = recordKept (if ks = hn_children h then h else with_children h ks) s1"
    using here by (auto simp: prune_here_def Let_def split: if_splits)
  then show ?thesis
  proof cases
    case relax
    then have s1: "s1 = s" using kept by (simp add: kept_ok_def)
    have "collected s1 (forest_nodes (hn_children h)) (fold collectSubtree (hn_children h) s1)"
      by (rule collected_fold) (rule collect_result)
    with relax s1 nodes show ?thesis
      by (auto simp: kept_ok_def collected_def recordKept_def in_context_def hn_nodes_unfold)
  next
    case gone
    with kept still nodes show ?thesis by (auto simp: kept_ok_def)
  next
    case rebuilt
    let ?r = "if ks = hn_children h then h else with_children h ks"
    have r: "hn_nodes ?r = ?r # forest_nodes ks" "hn_id ?r = hn_id h" "hn_urn ?r = hn_urn h"
      using hn_nodes_unfold [of ?r] by (auto split: if_splits)
    have "\<exists>z \<in> set (hn_nodes ?r). in_context (contextSet s1) z"
    proof (cases ks)
      case Nil
      with rebuilt(1) r show ?thesis by (auto simp: in_context_def)
    next
      case (Cons k' ks')
      then have "k' \<in> set (forest_nodes ks)" using hn_nodes_unfold [of k'] by simp
      with kept obtain z where "z \<in> set (hn_nodes k')" "in_context (contextSet s1) z" by (auto simp: kept_ok_def)
      with Cons r show ?thesis by auto
    qed
    with rebuilt kept r nodes show ?thesis
      by (simp add: kept_ok_def recordKept_def) blast
  qed
qed

lemma prune_ok:
  "pruneTree expanded h s = (k, s') \<Longrightarrow> kept_ok s [h] (case k of None \<Rightarrow> [] | Some h' \<Rightarrow> [h']) s'"
  "prune_all expanded hs s = (ks, s') \<Longrightarrow> kept_ok s hs ks s'"
proof (induction expanded h s and expanded hs s arbitrary: k s' and ks s' rule: pruneTree_prune_all.induct)
  case (1 expanded nid ty name d children depth u eo tags lc s)
  obtain kept s1 where "prune_all expanded children s = (kept, s1)" by (cases "prune_all expanded children s")
  with 1 show ?case by (auto intro!: prune_here_ok [of s _ kept s1])
next
  case (3 expanded h hs s)
  obtain k s1 where one: "pruneTree expanded h s = (k, s1)" by (cases "pruneTree expanded h s")
  obtain ks' s2 where two: "prune_all expanded hs s1 = (ks', s2)" by (cases "prune_all expanded hs s1")
  have "kept_ok s ([h] @ hs) ((case k of None \<Rightarrow> [] | Some h' \<Rightarrow> [h']) @ ks') s2"
    using 3(1) [OF one] 3(2) [OF one [symmetric] refl two] by (rule kept_ok_append)
  with 3(3) one two show ?case by (auto split: option.splits)
qed (simp add: kept_ok_Nil)

lemma filter_layers_ok:
  "filter_layers expanded ls s = (byLayer, s') \<Longrightarrow>
    kept_ok s (concat (map snd ls)) (concat (map snd byLayer)) s'
    \<and> list_all2 (\<lambda>(l, hs) (l', ks). l' = l
        \<and> (\<forall>x \<in> set (forest_nodes hs). in_context (contextSet s) x \<longrightarrow> hn_id x \<in> hn_id ` set (forest_nodes ks))
        \<and> hn_id ` set (forest_nodes ks) \<subseteq> hn_id ` set (forest_nodes hs)) ls byLayer"
proof (induction expanded ls s arbitrary: byLayer s' rule: filter_layers.induct)
  case (2 expanded l hs rest s)
  obtain ks s1 where one: "prune_all expanded hs s = (ks, s1)" by (cases "prune_all expanded hs s")
  obtain rest' s2 where two: "filter_layers expanded rest s1 = (rest', s2)" by (cases "filter_layers expanded rest s1")
  have res: "byLayer = (l, ks) # rest'" "s' = s2" using 2(2) one two by simp_all
  have here: "kept_ok s hs ks s1" using prune_ok(2) [OF one] .
  have there: "kept_ok s1 (concat (map snd rest)) (concat (map snd rest')) s2"
    and layers: "list_all2 (\<lambda>(l, hs) (l', ks). l' = l
        \<and> (\<forall>x \<in> set (forest_nodes hs). in_context (contextSet s1) x \<longrightarrow> hn_id x \<in> hn_id ` set (forest_nodes ks))
        \<and> hn_id ` set (forest_nodes ks) \<subseteq> hn_id ` set (forest_nodes hs)) rest rest'"
    using 2(1) [OF one [symmetric] refl two] by simp_all
  have "contextSet s \<subseteq> contextSet s1" using here by (simp add: kept_ok_def)
  then have "list_all2 (\<lambda>(l, hs) (l', ks). l' = l
        \<and> (\<forall>x \<in> set (forest_nodes hs). in_context (contextSet s) x \<longrightarrow> hn_id x \<in> hn_id ` set (forest_nodes ks))
        \<and> hn_id ` set (forest_nodes ks) \<subseteq> hn_id ` set (forest_nodes hs)) rest rest'"
    using layers by (elim list_all2_mono) (auto intro: in_context_mono)
  with kept_ok_append [OF here there] here res show ?case by (simp add: kept_ok_def)
qed (simp add: kept_ok_Nil)

section \<open>Exactly what is shown\<close>

text \<open>
  The view as a function of the context the trace starts with: a tree without a node of the context is gone; a node
  of the context that is expanded and has none below it is shown whole; any other keeps what is shown below it.
\<close>

definition option_list :: "'a option \<Rightarrow> 'a list" where
  "option_list k = (case k of None \<Rightarrow> [] | Some x \<Rightarrow> [x])"

fun shown_tree :: "ident set \<Rightarrow> ident set \<Rightarrow> hnode \<Rightarrow> hnode option" where
  "shown_tree ctx expanded (HNode nid ty name d children depth u eo tags lc) =
     (let h = HNode nid ty name d children depth u eo tags lc
      in if \<not> list_ex (in_context ctx) (hn_nodes h) then None
         else if in_context ctx h \<and> nid \<in> expanded \<and> \<not> list_ex (in_context ctx) (forest_nodes children) then Some h
         else Some (with_children h (concat (map (\<lambda>c. option_list (shown_tree ctx expanded c)) children))))"

definition shown_forest :: "ident set \<Rightarrow> ident set \<Rightarrow> hnode list \<Rightarrow> hnode list" where
  "shown_forest ctx expanded hs = concat (map (\<lambda>h. option_list (shown_tree ctx expanded h)) hs)"

text \<open>The ids and URNs of a node; no two nodes share one, and no id is empty.\<close>

definition names :: "hnode \<Rightarrow> ident set" where
  "names h = {hn_id h, hn_urn h} - {''''}"

definition separate :: "hnode list \<Rightarrow> bool" where
  "separate ns \<longleftrightarrow> sorted_wrt (\<lambda>x y. names x \<inter> names y = {}) ns \<and> list_all (\<lambda>x. hn_id x \<noteq> '''') ns"

definition names_of_all :: "hnode list \<Rightarrow> ident set" where
  "names_of_all ns = (\<Union>x \<in> set ns. names x)"

text \<open>For the nodes \<open>ns\<close> the context that has grown says what the one at the start says.\<close>

definition agrees :: "ident set \<Rightarrow> ident set \<Rightarrow> hnode list \<Rightarrow> bool" where
  "agrees ctx0 ctx ns \<longleftrightarrow> '''' \<notin> ctx \<and> (\<forall>x \<in> set ns. in_context ctx x \<longleftrightarrow> in_context ctx0 x)"

definition grows_by :: "ident set \<Rightarrow> ident set \<Rightarrow> hnode list \<Rightarrow> bool" where
  "grows_by ctx ctx' ns \<longleftrightarrow> ctx \<subseteq> ctx' \<and> ctx' \<subseteq> ctx \<union> names_of_all ns"

lemma names_of_all_simps [simp]:
  "names_of_all [] = {}" "names_of_all (x # xs) = names x \<union> names_of_all xs" "names_of_all (xs @ ys) = names_of_all xs \<union> names_of_all ys"
  by (auto simp: names_of_all_def)

lemma separate_append: "separate (xs @ ys) \<longleftrightarrow> separate xs \<and> separate ys \<and> names_of_all xs \<inter> names_of_all ys = {}"
  by (auto simp: separate_def sorted_wrt_append names_of_all_def)

lemma separate_Cons: "separate (x # xs) \<longleftrightarrow> hn_id x \<noteq> '''' \<and> names x \<inter> names_of_all xs = {} \<and> separate xs"
  by (auto simp: separate_def names_of_all_def)

lemma no_empty_name [simp]: "'''' \<notin> names_of_all ns"
  by (auto simp: names_of_all_def names_def)

lemma in_context_names: "'''' \<notin> ctx \<Longrightarrow> in_context ctx x \<longleftrightarrow> names x \<inter> ctx \<noteq> {}"
  by (simp add: in_context_def names_def Diff_Int_distrib2 Int_insert_left)

lemma agrees_grown:
  assumes "agrees ctx0 ctx ns" and "grows_by ctx ctx' ms" and "names_of_all ms \<inter> names_of_all ns = {}"
  shows "agrees ctx0 ctx' ns"
proof -
  have empty: "'''' \<notin> ctx" "'''' \<notin> ctx'" using assms(1,2) no_empty_name [of ms] unfolding agrees_def grows_by_def by blast+
  have "in_context ctx' x \<longleftrightarrow> in_context ctx x" if "x \<in> set ns" for x
  proof -
    have "names x \<inter> names_of_all ms = {}" using assms(3) that by (auto simp: names_of_all_def)
    with assms(2) show ?thesis unfolding in_context_names [OF empty(1)] in_context_names [OF empty(2)] grows_by_def by blast
  qed
  with assms(1) empty(2) show ?thesis by (simp add: agrees_def)
qed

lemma agrees_parts: "agrees ctx0 ctx (xs @ ys) \<longleftrightarrow> agrees ctx0 ctx xs \<and> agrees ctx0 ctx ys"
  "agrees ctx0 ctx (x # xs) \<longleftrightarrow> (in_context ctx x \<longleftrightarrow> in_context ctx0 x) \<and> agrees ctx0 ctx xs"
  by (auto simp: agrees_def)

lemma grows_by_trans: "grows_by a b xs \<Longrightarrow> grows_by b c ys \<Longrightarrow> grows_by a c (xs @ ys)"
  unfolding grows_by_def names_of_all_simps by blast

lemma grows_by_more: "grows_by a b xs \<Longrightarrow> grows_by a b (x # xs)"
  by (auto simp: grows_by_def)

lemma with_own_children [simp]: "with_children h (hn_children h) = h"
  by (cases h) simp

lemma mark_grows: "hn_id h \<noteq> '''' \<Longrightarrow> grows_by (contextSet s) (contextSet (mark_node h s)) [h]"
  by (auto simp: grows_by_def mark_node_def names_def Let_def)

lemma recordKept_context [simp]: "contextSet (recordKept h s) = contextSet s"
  by (simp add: recordKept_def)

lemma collect_fold_grows:
  "(\<And>c t. c \<in> set cs \<Longrightarrow> grows_by (contextSet t) (contextSet (collectSubtree c t)) (hn_nodes c))
    \<Longrightarrow> grows_by (contextSet s) (contextSet (fold collectSubtree cs s)) (forest_nodes cs)"
proof (induction cs arbitrary: s)
  case (Cons c cs)
  have "grows_by (contextSet s) (contextSet (collectSubtree c s)) (hn_nodes c)" by (rule Cons.prems) simp
  moreover have "grows_by (contextSet (collectSubtree c s)) (contextSet (fold collectSubtree cs (collectSubtree c s))) (forest_nodes cs)"
    by (rule Cons.IH, rule Cons.prems) simp
  ultimately show ?case by (simp add: grows_by_trans)
qed (simp add: grows_by_def)

lemma collect_grows: "separate (hn_nodes h) \<Longrightarrow> grows_by (contextSet s) (contextSet (collectSubtree h s)) (hn_nodes h)"
proof (induction h arbitrary: s)
  case (HNode nid ty name d children depth u eo tags lc)
  let ?h = "HNode nid ty name d children depth u eo tags lc"
  have sep: "hn_id ?h \<noteq> ''''" "separate (forest_nodes children)"
    using HNode.prems by (simp_all add: separate_Cons forest_nodes_def)
  have "separate (hn_nodes c)" if "c \<in> set children" for c
    using split_list [OF that] sep(2) by (auto simp: separate_append)
  then have "grows_by (contextSet (mark_node ?h s)) (contextSet (fold collectSubtree children (recordKept ?h (mark_node ?h s)))) (forest_nodes children)"
    using collect_fold_grows [of children "recordKept ?h (mark_node ?h s)"] HNode.IH by simp
  from grows_by_trans [OF mark_grows [OF sep(1)] this] show ?case by (simp add: forest_nodes_def)
qed

lemma collect_all_grows:
  assumes "separate (forest_nodes cs)"
  shows "grows_by (contextSet s) (contextSet (fold collectSubtree cs s)) (forest_nodes cs)"
proof (rule collect_fold_grows)
  fix c t assume "c \<in> set cs"
  from split_list [OF this] assms have "separate (hn_nodes c)" by (auto simp: separate_append)
  then show "grows_by (contextSet t) (contextSet (collectSubtree c t)) (hn_nodes c)" by (rule collect_grows)
qed

lemma shown_tree_None: "shown_tree ctx expanded h = None \<longleftrightarrow> \<not> list_ex (in_context ctx) (hn_nodes h)"
  by (cases h) (simp add: Let_def)

lemma shown_forest_Nil: "shown_forest ctx expanded hs = [] \<longleftrightarrow> \<not> list_ex (in_context ctx) (forest_nodes hs)"
proof (induction hs)
  case (Cons h hs)
  with shown_tree_None [of ctx expanded h] show ?case
    by (cases "shown_tree ctx expanded h") (simp_all add: shown_forest_def option_list_def)
qed (simp add: shown_forest_def)

lemma prune_here_shown:
  assumes "in_context (contextSet s1) h \<longleftrightarrow> in_context ctx h" and "kept = shown_forest ctx expanded (hn_children h)"
    and "separate (hn_nodes h)"
  shows "fst (prune_here expanded h kept s1) = shown_tree ctx expanded h
    \<and> grows_by (contextSet s1) (contextSet (snd (prune_here expanded h kept s1))) (hn_nodes h)"
proof -
  have nil: "kept = [] \<longleftrightarrow> \<not> list_ex (in_context ctx) (forest_nodes (hn_children h))"
    unfolding assms(2) by (rule shown_forest_Nil)
  have shown: "shown_tree ctx expanded h =
      (if \<not> in_context ctx h \<and> kept = [] then None
       else if in_context ctx h \<and> hn_id h \<in> expanded \<and> kept = [] then Some h else Some (with_children h kept))"
    unfolding nil by (cases h) (auto simp: Let_def forest_nodes_def assms(2) shown_forest_def)
  have "separate (forest_nodes (hn_children h))" using assms(3) by (simp add: hn_nodes_unfold [of h] separate_Cons)
  then have grows: "grows_by (contextSet s1) (contextSet (fold collectSubtree (hn_children h) s1)) (hn_nodes h)"
    using grows_by_more [OF collect_all_grows] by (simp add: hn_nodes_unfold [of h])
  have same: "grows_by (contextSet s1) (contextSet s1) (hn_nodes h)" by (auto simp: grows_by_def)
  have leaf: "with_children h [] = h" if "hn_children h = []" using with_own_children [of h] that by simp
  show ?thesis
    using grows same leaf by (auto simp: shown prune_here_def Let_def assms(1))
qed

lemma prune_shown:
  "separate (hn_nodes h) \<Longrightarrow> agrees ctx (contextSet s) (hn_nodes h) \<Longrightarrow>
     fst (pruneTree expanded h s) = shown_tree ctx expanded h
     \<and> grows_by (contextSet s) (contextSet (snd (pruneTree expanded h s))) (hn_nodes h)"
  "separate (forest_nodes hs) \<Longrightarrow> agrees ctx (contextSet s) (forest_nodes hs) \<Longrightarrow>
     fst (prune_all expanded hs s) = shown_forest ctx expanded hs
     \<and> grows_by (contextSet s) (contextSet (snd (prune_all expanded hs s))) (forest_nodes hs)"
proof (induction expanded h s and expanded hs s rule: pruneTree_prune_all.induct)
  case (1 expanded nid ty name d children depth u eo tags lc s)
  let ?h = "HNode nid ty name d children depth u eo tags lc"
  obtain kept s1 where below: "prune_all expanded children s = (kept, s1)" by (cases "prune_all expanded children s")
  have nodes: "hn_nodes ?h = ?h # forest_nodes children" by (simp add: forest_nodes_def)
  note sep = 1(2) [unfolded nodes separate_Cons] and agr = 1(3) [unfolded nodes agrees_parts]
  have kept: "kept = shown_forest ctx expanded children" and grown: "grows_by (contextSet s) (contextSet s1) (forest_nodes children)"
    using 1(1) sep agr below by simp_all
  have "agrees ctx (contextSet s) [?h]" using 1(3) by (simp add: agrees_def)
  then have "agrees ctx (contextSet s1) [?h]" by (rule agrees_grown [OF _ grown]) (use sep in auto)
  then have "in_context (contextSet s1) ?h \<longleftrightarrow> in_context ctx ?h" by (simp add: agrees_def)
  from prune_here_shown [OF this _ 1(2), of kept expanded] kept
  have "fst (prune_here expanded ?h kept s1) = shown_tree ctx expanded ?h"
    "grows_by (contextSet s1) (contextSet (snd (prune_here expanded ?h kept s1))) (hn_nodes ?h)" by simp_all
  moreover have "pruneTree expanded ?h s = prune_here expanded ?h kept s1" by (simp add: below)
  moreover have "grows_by (contextSet s) (contextSet t) (hn_nodes ?h)" if "grows_by (contextSet s1) (contextSet t) (hn_nodes ?h)" for t
    using grows_by_trans [OF grown that] unfolding nodes by (auto simp: grows_by_def)
  ultimately show ?case by simp
next
  case (3 expanded h hs s)
  obtain k s1 where one: "pruneTree expanded h s = (k, s1)" by (cases "pruneTree expanded h s")
  obtain ks s2 where two: "prune_all expanded hs s1 = (ks, s2)" by (cases "prune_all expanded hs s1")
  note sep = 3(3) [unfolded forest_nodes_simps separate_append] and agr = 3(4) [unfolded forest_nodes_simps agrees_parts]
  have k: "k = shown_tree ctx expanded h" and grown: "grows_by (contextSet s) (contextSet s1) (hn_nodes h)"
    using 3(1) sep agr one by simp_all
  have "agrees ctx (contextSet s1) (forest_nodes hs)" by (rule agrees_grown [OF _ grown]) (use sep agr in auto)
  then have "ks = shown_forest ctx expanded hs" "grows_by (contextSet s1) (contextSet s2) (forest_nodes hs)"
    using 3(2) [OF one [symmetric] refl] sep two by simp_all
  then show ?case using k one two grows_by_trans [OF grown] by (simp add: shown_forest_def option_list_def split: option.split)
qed (simp_all add: shown_forest_def grows_by_def)

lemma filter_layers_shown:
  "separate (forest_nodes (concat (map snd ls))) \<Longrightarrow> agrees ctx (contextSet s) (forest_nodes (concat (map snd ls))) \<Longrightarrow>
     fst (filter_layers expanded ls s) = map (\<lambda>(l, hs). (l, shown_forest ctx expanded hs)) ls"
proof (induction expanded ls s rule: filter_layers.induct)
  case (2 expanded l hs rest s)
  obtain ks s1 where one: "prune_all expanded hs s = (ks, s1)" by (cases "prune_all expanded hs s")
  have nodes: "forest_nodes (concat (map snd ((l, hs) # rest))) = forest_nodes hs @ forest_nodes (concat (map snd rest))" by simp
  note sep = 2(2) [unfolded nodes separate_append] and agr = 2(3) [unfolded nodes agrees_parts]
  have ks: "ks = shown_forest ctx expanded hs" and grown: "grows_by (contextSet s) (contextSet s1) (forest_nodes hs)"
    using prune_shown(2) [of hs ctx s expanded] sep agr one by simp_all
  have "agrees ctx (contextSet s1) (forest_nodes (concat (map snd rest)))" by (rule agrees_grown [OF _ grown]) (use sep agr in auto)
  with 2(1) [OF one [symmetric] refl] sep ks one show ?case by (cases "filter_layers expanded rest s1") simp
qed simp

lemma climb_no_empty: "'''' \<notin> ctx \<Longrightarrow> '''' \<notin> climb pm cursor ctx"
proof (induction pm cursor ctx rule: climb.induct)
  case (2 pm p ctx)
  show ?case
  proof (cases "p = '''' \<or> p \<in> ctx")
    case True
    with 2(2) show ?thesis by simp
  next
    case False
    then have "'''' \<notin> insert p ctx" using 2(2) by auto
    with 2(1) False have "'''' \<notin> climb pm (mget pm p) (insert p ctx)" by blast
    then show ?thesis unfolding climb.simps if_not_P [OF False] .
  qed
qed simp

lemma addWithAncestors_no_empty: "'''' \<notin> ctx \<Longrightarrow> '''' \<notin> addWithAncestors pm n ctx"
proof (cases "n = '''' \<or> n \<in> ctx")
  case False
  assume "'''' \<notin> ctx"
  then have "'''' \<notin> insert n ctx" using False by auto
  then show ?thesis unfolding addWithAncestors_def if_not_P [OF False] by (rule climb_no_empty)
qed (simp add: addWithAncestors_def)

lemma trace_context_no_empty: "'''' \<notin> trace_context i"
proof -
  have "'''' \<notin> fold (addWithAncestors (tf_parentMap i)) ns ctx" if "'''' \<notin> ctx" for ns ctx
    using that by (induction ns arbitrary: ctx) (simp_all add: addWithAncestors_no_empty)
  then show ?thesis by (simp add: trace_context_def)
qed

text \<open>
  C18: with a trace active, every layer keeps each of its nodes that is in the trace context (the traced and drilled-down
  entities and their ancestors) and shows nothing of another layer; the flat list holds exactly the nodes of the
  filtered hierarchies; and the context grows only by nodes that are shown. If, besides, no two nodes of the
  hierarchies share an id or a URN and no id is empty, what every layer shows is exactly this: trees without a node
  of the context are gone; a context node that is expanded and has no context node below it is shown with its whole
  subtree; every other node with a context node at or below it keeps the part of its children so defined. Without
  a trace the inputs are returned as they are.
\<close>

theorem trace_view_keeps_the_trace:
  assumes "useTraceFilteredHierarchy i = (byLayer, s)"
  shows "if tracing i
    then mset (filteredFlat s) = mset (forest_nodes (concat (map snd byLayer)))
      \<and> list_all2 (\<lambda>(l, hs) (l', ks). l' = l
          \<and> (\<forall>x \<in> set (forest_nodes hs). in_context (trace_context i) x \<longrightarrow> hn_id x \<in> hn_id ` set (forest_nodes ks))
          \<and> hn_id ` set (forest_nodes ks) \<subseteq> hn_id ` set (forest_nodes hs)) (tf_nodesByLayer i) byLayer
      \<and> (\<forall>y \<in> set (filteredFlat s). \<exists>z \<in> set (hn_nodes y). in_context (contextSet s) z)
      \<and> trace_context i \<subseteq> contextSet s
      \<and> contextSet s \<subseteq> trace_context i \<union> hn_id ` set (filteredFlat s) \<union> hn_urn ` set (filteredFlat s)
      \<and> (separate (forest_nodes (concat (map snd (tf_nodesByLayer i)))) \<longrightarrow>
          byLayer = map (\<lambda>(l, hs). (l, shown_forest (trace_context i) (tf_expandedNodes i) hs)) (tf_nodesByLayer i))
    else byLayer = tf_nodesByLayer i \<and> filteredFlat s = tf_displayFlat i \<and> filteredMap s = tf_displayMap i
      \<and> contextSet s = {}"
proof (cases "tracing i")
  case True
  let ?s0 = "\<lparr>contextSet = trace_context i, filteredFlat = [], filteredMap = []\<rparr>"
  have run: "filter_layers (tf_expandedNodes i) (tf_nodesByLayer i) ?s0 = (byLayer, s)"
    using assms True by (simp add: useTraceFilteredHierarchy_def)
  note ok = filter_layers_ok [OF run]
  then have "mset (filteredFlat s) = mset (forest_nodes (concat (map snd byLayer)))" by (simp add: kept_ok_def)
  moreover from this have "set (filteredFlat s) = set (forest_nodes (concat (map snd byLayer)))" by (rule mset_eq_setD)
  moreover have "agrees (trace_context i) (contextSet ?s0) ns" for ns by (simp add: agrees_def trace_context_no_empty)
  then have "byLayer = map (\<lambda>(l, hs). (l, shown_forest (trace_context i) (tf_expandedNodes i) hs)) (tf_nodesByLayer i)"
    if "separate (forest_nodes (concat (map snd (tf_nodesByLayer i))))"
    using filter_layers_shown [OF that, of "trace_context i" ?s0 "tf_expandedNodes i"] run by simp
  ultimately show ?thesis using ok True by (simp add: kept_ok_def)
next
  case False
  with assms show ?thesis by (auto simp: useTraceFilteredHierarchy_def)
qed


text \<open>The map of the filtered nodes is the flat list by id, a later node with the same id winning.\<close>

definition map_follows_list :: "filter_state \<Rightarrow> bool" where
  "map_follows_list s \<longleftrightarrow> filteredMap s = fold (\<lambda>h. mset_key (hn_id h) h) (filteredFlat s) []"

lemma recordKept_follows: "map_follows_list s \<Longrightarrow> map_follows_list (recordKept h s)"
  by (simp add: map_follows_list_def recordKept_def)

lemma fold_follows:
  "(\<And>c t. c \<in> set cs \<Longrightarrow> map_follows_list t \<Longrightarrow> map_follows_list (f c t)) \<Longrightarrow> map_follows_list s \<Longrightarrow>
    map_follows_list (fold f cs s)"
  by (induction cs arbitrary: s) simp_all

lemma collect_follows: "map_follows_list s \<Longrightarrow> map_follows_list (collectSubtree h s)"
proof (induction h arbitrary: s)
  case (HNode nid ty name d children depth u eo tags lc)
  then have "map_follows_list (mark_node (HNode nid ty name d children depth u eo tags lc) s)"
    by (simp add: map_follows_list_def mark_node_def)
  then show ?case by (auto intro!: fold_follows HNode.IH recordKept_follows)
qed

lemma prune_here_follows:
  "map_follows_list s \<Longrightarrow> prune_here expanded h kept s = (k, s') \<Longrightarrow> map_follows_list s'"
  by (auto simp: prune_here_def Let_def intro!: recordKept_follows fold_follows collect_follows split: if_splits)

lemma prune_follows:
  "map_follows_list s \<Longrightarrow> map_follows_list (snd (pruneTree expanded h s))"
  "map_follows_list s \<Longrightarrow> map_follows_list (snd (prune_all expanded hs s))"
proof (induction expanded h s and expanded hs s rule: pruneTree_prune_all.induct)
  case (1 expanded nid ty name d children depth u eo tags lc s)
  obtain kept s1 where "prune_all expanded children s = (kept, s1)" by (cases "prune_all expanded children s")
  with 1 show ?case by (metis prune_here_follows pruneTree.simps prod.collapse case_prod_conv snd_conv)
next
  case (3 expanded h hs s)
  then show ?case by (auto split: prod.splits)
qed simp

lemma filtered_map_follows_list:
  "map_follows_list s \<Longrightarrow> map_follows_list (snd (filter_layers expanded ls s))"
proof (induction expanded ls s rule: filter_layers.induct)
  case (2 expanded l hs rest s)
  obtain ks s1 where one: "prune_all expanded hs s = (ks, s1)" by (cases "prune_all expanded hs s")
  with prune_follows(2) [OF 2(2), of expanded hs] have "map_follows_list s1" by simp
  from 2(1) [OF one [symmetric] refl this] one show ?case by (auto split: prod.splits)
qed simp

section \<open>The pass-through of an expanded node\<close>

lemma prune_unmarked:
  "\<forall>x \<in> set (hn_nodes h). \<not> in_context (contextSet s) x \<Longrightarrow> pruneTree expanded h s = (None, s)"
  "\<forall>x \<in> set (forest_nodes hs). \<not> in_context (contextSet s) x \<Longrightarrow> prune_all expanded hs s = ([], s)"
proof (induction expanded h s and expanded hs s rule: pruneTree_prune_all.induct)
  case (1 expanded nid ty name d children depth u eo tags lc s)
  then have "prune_all expanded children s = ([], s)" by (simp add: forest_nodes_def)
  with 1(2) show ?case by (simp add: prune_here_def)
qed simp_all

text \<open>
  a node of the context that the user has expanded and below which the trace knows nothing is
  shown with its whole subtree unchanged, and all of that subtree is added to the context, so that
  its lineage edges clear the trace gate; a subtree that has nothing in the context leaves no mark.
\<close>

theorem expanded_node_passes_through:
  assumes "\<forall>x \<in> set (forest_nodes (hn_children h)). \<not> in_context (contextSet s) x"
    and "hn_id h \<in> expanded" and "hn_children h \<noteq> []"
  shows "if in_context (contextSet s) h
    then fst (pruneTree expanded h s) = Some h
      \<and> mset (filteredFlat (snd (pruneTree expanded h s))) = mset (filteredFlat s) + mset (hn_nodes h)
      \<and> hn_id ` set (forest_nodes (hn_children h)) \<subseteq> contextSet (snd (pruneTree expanded h s))
    else pruneTree expanded h s = (None, s)"
proof (cases "in_context (contextSet s) h")
  case True
  have "prune_all expanded (hn_children h) s = ([], s)" by (rule prune_unmarked(2)) (rule assms(1))
  with True assms have "pruneTree expanded h s = (Some h, recordKept h (fold collectSubtree (hn_children h) s))"
    by (cases h) (simp add: prune_here_def)
  moreover have "collected s (forest_nodes (hn_children h)) (fold collectSubtree (hn_children h) s)"
    by (rule collected_fold) (rule collect_result)
  ultimately show ?thesis using True by (simp add: collected_def recordKept_def hn_nodes_unfold [of h])
next
  case False
  with assms(1) have "pruneTree expanded h s = (None, s)"
    by (intro prune_unmarked(1)) (simp add: hn_nodes_unfold [of h])
  with False show ?thesis by simp
qed

section \<open>Witnesses\<close>

text \<open>A domain with a data set of two columns, and a data set outside the trace.\<close>

definition plain_hnode :: "ident \<Rightarrow> hnode list \<Rightarrow> hnode" where
  "plain_hnode n children = HNode n None n [] children 0 n '''' [] None"

definition sample_tree :: hnode where
  "sample_tree = plain_hnode ''dom'' [plain_hnode ''ds1'' [plain_hnode ''c1'' [], plain_hnode ''c2'' []], plain_hnode ''ds2'' []]"

definition sample_trace :: trace_filter_input where
  "sample_trace = \<lparr>tf_nodesByLayer = [(''L'', [sample_tree])], tf_displayFlat = [], tf_displayMap = [],
     tf_isTracing = True, tf_traceNodes = [''ds1''], tf_drilldowns = [],
     tf_parentMap = [(''ds1'', ''dom''), (''c1'', ''ds1''), (''c2'', ''ds1''), (''ds2'', ''dom'')],
     tf_expandedNodes = {''ds1''}\<rparr>"

lemma trace_context_is_ancestor_closure_witness:
  "trace_context sample_trace = {''ds1'', ''dom''}
   \<and> trace_context sample_trace =
      {a. \<exists>n \<in> set (trace_seeds sample_trace). n \<noteq> '''' \<and> (a = n \<or> below (tf_parentMap sample_trace) a n)}"
proof -
  have "no_empty_parent (tf_parentMap sample_trace)" by (simp add: no_empty_parent_def sample_trace_def)
  moreover have "trace_context sample_trace = {''ds1'', ''dom''}"
    by (simp add: trace_context_def trace_seeds_def addWithAncestors_def sample_trace_def insert_commute)
  ultimately show ?thesis using trace_context_is_ancestor_closure [of sample_trace] by simp
qed

lemma trace_view_keeps_the_trace_witness:
  "map hn_id (filteredFlat (snd (useTraceFilteredHierarchy sample_trace))) = [''c1'', ''c2'', ''ds1'', ''dom'']
   \<and> fst (useTraceFilteredHierarchy sample_trace)
      = [(''L'', shown_forest (trace_context sample_trace) (tf_expandedNodes sample_trace) [sample_tree])]"
proof -
  have "tracing sample_trace" by (simp add: tracing_def sample_trace_def)
  moreover have "map hn_id (filteredFlat (snd (useTraceFilteredHierarchy sample_trace))) = [''c1'', ''c2'', ''ds1'', ''dom'']"
    by code_simp
  moreover have "separate (forest_nodes (concat (map snd (tf_nodesByLayer sample_trace))))"
    by (simp add: sample_trace_def sample_tree_def plain_hnode_def separate_def names_def)
  moreover have "tf_nodesByLayer sample_trace = [(''L'', [sample_tree])]" by (simp add: sample_trace_def)
  ultimately show ?thesis
    using trace_view_keeps_the_trace [of sample_trace "fst (useTraceFilteredHierarchy sample_trace)"
      "snd (useTraceFilteredHierarchy sample_trace)"] by simp
qed

lemma expanded_node_passes_through_witness:
  "fst (pruneTree {''ds1''} (plain_hnode ''ds1'' [plain_hnode ''c1'' []]) \<lparr>contextSet = {''ds1''}, filteredFlat = [], filteredMap = []\<rparr>)
    = Some (plain_hnode ''ds1'' [plain_hnode ''c1'' []])"
  using expanded_node_passes_through
    [of "plain_hnode ''ds1'' [plain_hnode ''c1'' []]" "\<lparr>contextSet = {''ds1''}, filteredFlat = [], filteredMap = []\<rparr>" "{''ds1''}"]
  by (simp add: in_context_def plain_hnode_def)

end
