(* ===== verification/Search_Scoring.thy ===== *)
theory Search_Scoring
  imports Layer_Rules "HOL-Library.Product_Lexorder" "HOL-Library.Multiset"
begin

text \<open>
  The scoring of the global search (\<^verbatim>\<open>utils/searchScoring.ts\<close>). A position in a string is the
  suffix that starts there. Weights are rationals: the products and sums of JavaScript numbers are
  taken to be exact.
\<close>

section \<open>Matching one value\<close>

definition isWordChar :: "char \<Rightarrow> bool" where
  "isWordChar c \<longleftrightarrow> CHR ''A'' \<le> c \<and> c \<le> CHR ''Z'' \<or> CHR ''a'' \<le> c \<and> c \<le> CHR ''z'' \<or> CHR ''0'' \<le> c \<and> c \<le> CHR ''9''"

function wordStartsWith :: "string \<Rightarrow> string \<Rightarrow> bool" where
  "wordStartsWith value query =
     (let w = dropWhile (\<lambda>c. \<not> isWordChar c) value
      in if w = '''' then False
         else if is_prefix query w then True
         else wordStartsWith (dropWhile isWordChar w) query)"
  by pat_completeness auto

lemma skip_word: "w \<noteq> [] \<Longrightarrow> P (hd w) \<Longrightarrow> length (dropWhile P w) < length w"
  by (cases w) (simp_all add: le_imp_less_Suc length_dropWhile_le)

termination wordStartsWith
proof (relation "measure (\<lambda>(v, q). length v)", goal_cases)
  case (2 v q w)
  then have "isWordChar (hd w)" by (metis hd_dropWhile)
  with 2 have "length (dropWhile isWordChar w) < length w" by (intro skip_word) simp_all
  also have "length w \<le> length v" using 2(1) by (simp add: length_dropWhile_le)
  finally show ?case by simp
qed simp

declare wordStartsWith.simps [simp del]

definition scoreOne :: "string \<Rightarrow> string \<Rightarrow> nat" where
  "scoreOne value query =
     (if value = query then 100
      else if is_prefix query value then 60
      else if wordStartsWith value query then 40
      else if is_infix query value then 20
      else 0)"

section \<open>Scoring and ranking candidates\<close>

datatype field_value = Missing | Text string | Texts "string list"

record 'a field_spec =
  fs_get :: "'a \<Rightarrow> field_value"
  fs_weight :: rat

text \<open>The best element of an array field; empty elements are skipped.\<close>

definition best_of :: "string \<Rightarrow> string list \<Rightarrow> nat" where
  "best_of query vs =
     fold (\<lambda>v best. if v = '''' then best
                     else (let s = scoreOne (toLowerCase v) query in if best < s then s else best)) vs 0"

definition field_score :: "'a \<Rightarrow> string \<Rightarrow> 'a field_spec \<Rightarrow> rat" where
  "field_score candidate query f =
     (case fs_get f candidate of
        Missing \<Rightarrow> 0
      | Texts vs \<Rightarrow> of_nat (best_of query vs) * fs_weight f
      | Text v \<Rightarrow> of_nat (scoreOne (toLowerCase v) query) * fs_weight f)"

definition scoreCandidate :: "'a \<Rightarrow> string \<Rightarrow> 'a field_spec list \<Rightarrow> rat" where
  "scoreCandidate candidate query specs = fold (\<lambda>f total. total + field_score candidate query f) specs 0"

definition scored :: "'a field_spec list \<Rightarrow> string \<Rightarrow> 'a list \<Rightarrow> ('a \<times> rat \<times> nat) list" where
  "scored specs q candidates =
     filter (\<lambda>(item, s, idx). 0 < s)
       (map (\<lambda>(idx, item). (item, scoreCandidate item q specs, idx)) (enumerate 0 candidates))"

definition scoreCandidates :: "'a list \<Rightarrow> string \<Rightarrow> 'a field_spec list \<Rightarrow> ('a \<times> rat) list" where
  "scoreCandidates candidates rawQuery specs =
     (let q = toLowerCase (trim rawQuery)
      in if q = '''' then []
         else map (\<lambda>(item, s, idx). (item, s)) (sort_key (\<lambda>(item, s, idx). (- s, idx)) (scored specs q candidates)))"

section \<open>Word boundaries\<close>

text \<open>A position where a word of the value begins.\<close>

definition word_start :: "string \<Rightarrow> nat \<Rightarrow> bool" where
  "word_start v i \<longleftrightarrow> i < length v \<and> isWordChar (v ! i) \<and> (i = 0 \<or> \<not> isWordChar (v ! (i - 1)))"

definition starts_at :: "string \<Rightarrow> string \<Rightarrow> bool" where
  "starts_at v q \<longleftrightarrow> (\<exists>i. word_start v i \<and> is_prefix q (drop i v))"

definition later_start :: "string \<Rightarrow> string \<Rightarrow> bool" where
  "later_start v q \<longleftrightarrow> (\<exists>i. word_start v (Suc i) \<and> is_prefix q (drop (Suc i) v))"

lemma word_start_Suc: "word_start (c # v) (Suc j) \<longleftrightarrow> word_start v j \<and> (j = 0 \<longrightarrow> \<not> isWordChar c)"
  by (cases j) (auto simp: word_start_def)

lemma starts_at_now: "starts_at v q \<longleftrightarrow> (v \<noteq> [] \<and> isWordChar (hd v) \<and> is_prefix q v) \<or> later_start v q"
proof -
  have "starts_at v q \<longleftrightarrow> (word_start v 0 \<and> is_prefix q v) \<or> later_start v q"
    unfolding starts_at_def later_start_def by (metis drop0 not0_implies_Suc)
  then show ?thesis by (cases v) (auto simp: word_start_def)
qed

lemma later_start_Cons: "later_start (c # v) q \<longleftrightarrow> (if isWordChar c then later_start v q else starts_at v q)"
proof -
  have pos: "(\<exists>j. P j \<and> j \<noteq> 0) \<longleftrightarrow> (\<exists>i. P (Suc i))" for P :: "nat \<Rightarrow> bool"
    by (metis not0_implies_Suc old.nat.distinct(2))
  show ?thesis
    using pos [of "\<lambda>j. word_start v j \<and> is_prefix q (drop j v)"]
    by (simp add: later_start_def starts_at_def word_start_Suc conj_ac)
qed

lemma starts_at_word: "starts_at (dropWhile (\<lambda>c. \<not> isWordChar c) v) q \<longleftrightarrow> starts_at v q"
  by (induction v) (auto simp: starts_at_now later_start_Cons)

lemma later_start_word: "later_start v q \<longleftrightarrow> starts_at (dropWhile isWordChar v) q"
proof (induction v)
  case (Cons c v)
  then show ?case by (simp add: later_start_Cons) (simp add: starts_at_now later_start_Cons)
qed (simp add: later_start_def starts_at_def word_start_def)

lemma wordStartsWith_starts_at: "wordStartsWith v q \<longleftrightarrow> starts_at v q"
proof (induction v q rule: wordStartsWith.induct)
  case (1 v q)
  let ?w = "dropWhile (\<lambda>c. \<not> isWordChar c) v"
  show ?case
  proof (cases "?w = []")
    case True
    have "\<not> starts_at ?w q" unfolding True by (simp add: starts_at_def word_start_def)
    with True show ?thesis by (subst wordStartsWith.simps) (simp add: starts_at_word Let_def)
  next
    case False
    then have "isWordChar (hd ?w)" by (metis hd_dropWhile)
    with False have "starts_at v q \<longleftrightarrow> is_prefix q ?w \<or> starts_at (dropWhile isWordChar ?w) q"
      using starts_at_word [of v q] starts_at_now [of ?w q] later_start_word [of ?w q] by simp
    moreover have "wordStartsWith v q \<longleftrightarrow> is_prefix q ?w \<or> wordStartsWith (dropWhile isWordChar ?w) q"
      unfolding wordStartsWith.simps [of v q] Let_def using False by presburger
    moreover have "wordStartsWith (dropWhile isWordChar ?w) q \<longleftrightarrow> starts_at (dropWhile isWordChar ?w) q" if "\<not> is_prefix q ?w"
      using 1 [OF refl False that] .
    ultimately show ?thesis by blast
  qed
qed

text \<open>
  the scan over words finds a match exactly when the query starts at the beginning of some word
  of the value, a word being a maximal run of ASCII letters and digits.
\<close>

theorem word_boundary_match_iff:
  "wordStartsWith v q \<longleftrightarrow>
    (\<exists>i < length v. isWordChar (v ! i) \<and> (i = 0 \<or> \<not> isWordChar (v ! (i - 1))) \<and> is_prefix q (drop i v))"
  by (auto simp: wordStartsWith_starts_at starts_at_def word_start_def)

section \<open>The search finds every match\<close>

lemma scoreOne_pos: "0 < scoreOne v q \<longleftrightarrow> is_infix q v"
proof -
  have "is_infix q v" if "wordStartsWith v q"
  proof -
    from that obtain i where "is_prefix q (drop i v)" by (auto simp: wordStartsWith_starts_at starts_at_def)
    then obtain r where "drop i v = q @ r" by (auto simp: is_prefix_iff)
    then have "v = take i v @ q @ r" by (metis append_take_drop_id)
    then show ?thesis unfolding is_infix_iff by blast
  qed
  moreover have "is_infix q v" if "is_prefix q v"
    using that unfolding is_prefix_iff is_infix_iff by (metis append_Nil)
  moreover have "is_infix q q" unfolding is_infix_iff by (metis append_Nil append_Nil2)
  ultimately show ?thesis by (auto simp: scoreOne_def)
qed

lemma is_infix_Nil: "q \<noteq> '''' \<Longrightarrow> \<not> is_infix q ''''"
  by simp

lemma best_of_pos:
  assumes "q \<noteq> ''''"
  shows "0 < best_of q vs \<longleftrightarrow> (\<exists>v \<in> set vs. is_infix q (toLowerCase v))"
proof -
  let ?f = "\<lambda>v best. if v = '''' then best else (let s = scoreOne (toLowerCase v) q in if best < s then s else best)"
  have "0 < fold ?f vs b \<longleftrightarrow> 0 < b \<or> (\<exists>v \<in> set vs. is_infix q (toLowerCase v))" for b
  proof (induction vs arbitrary: b)
    case (Cons v vs)
    have "\<not> is_infix q (toLowerCase '''')" using assms by (simp add: toLowerCase_def)
    then have "0 < ?f v b \<longleftrightarrow> 0 < b \<or> is_infix q (toLowerCase v)"
      using scoreOne_pos [of "toLowerCase v" q] by (auto simp: Let_def)
    with Cons.IH [of "?f v b"] show ?case by auto
  qed simp
  from this [of 0] show ?thesis by (simp add: best_of_def)
qed

definition field_matches :: "'a \<Rightarrow> string \<Rightarrow> 'a field_spec \<Rightarrow> bool" where
  "field_matches c q f =
     (case fs_get f c of
        Missing \<Rightarrow> False
      | Text v \<Rightarrow> is_infix q (toLowerCase v)
      | Texts vs \<Rightarrow> list_ex (\<lambda>v. is_infix q (toLowerCase v)) vs)"

lemma field_score_pos:
  assumes "q \<noteq> ''''" and "0 < fs_weight f"
  shows "0 \<le> field_score c q f" and "0 < field_score c q f \<longleftrightarrow> field_matches c q f"
proof -
  have "0 < (of_nat n :: rat) * fs_weight f \<longleftrightarrow> 0 < n" for n using assms(2) by (simp add: zero_less_mult_iff)
  moreover have "0 \<le> (of_nat n :: rat) * fs_weight f" for n using assms(2) by simp
  ultimately show "0 \<le> field_score c q f" and "0 < field_score c q f \<longleftrightarrow> field_matches c q f"
    by (auto simp: field_score_def field_matches_def scoreOne_pos best_of_pos [OF assms(1)] list_ex_iff split: field_value.splits)
qed

lemma scoreCandidate_sum: "scoreCandidate c q specs = sum_list (map (field_score c q) specs)"
proof -
  have "fold (\<lambda>f total. total + field_score c q f) specs t = t + sum_list (map (field_score c q) specs)" for t
    by (induction specs arbitrary: t) simp_all
  then show ?thesis by (simp add: scoreCandidate_def)
qed

lemma scoreCandidate_pos:
  assumes "q \<noteq> ''''" and "\<forall>f \<in> set specs. 0 < fs_weight f"
  shows "0 < scoreCandidate c q specs \<longleftrightarrow> (\<exists>f \<in> set specs. field_matches c q f)"
proof -
  have "0 \<le> sum_list (map (field_score c q) specs)
      \<and> (0 < sum_list (map (field_score c q) specs) \<longleftrightarrow> (\<exists>f \<in> set specs. field_matches c q f))"
    using assms(2)
  proof (induction specs)
    case (Cons f specs)
    then have IH: "0 \<le> sum_list (map (field_score c q) specs)"
        "0 < sum_list (map (field_score c q) specs) \<longleftrightarrow> (\<exists>f \<in> set specs. field_matches c q f)"
      and w: "0 < fs_weight f" by simp_all
    note f = field_score_pos [OF assms(1) w, of c]
    have "0 < field_score c q f + sum_list (map (field_score c q) specs)
        \<longleftrightarrow> 0 < field_score c q f \<or> 0 < sum_list (map (field_score c q) specs)"
      using f(1) IH(1) by linarith
    with f IH show ?case by simp
  qed simp
  then show ?thesis by (simp add: scoreCandidate_sum)
qed

lemma scored_items:
  "map (\<lambda>(item, s, idx). (item, s)) (scored specs q cs)
    = map (\<lambda>c. (c, scoreCandidate c q specs)) (filter (\<lambda>c. 0 < scoreCandidate c q specs) cs)"
proof -
  have "map (\<lambda>(item, s, idx). (item, s)) (filter (\<lambda>(item, s, idx). 0 < s)
        (map (\<lambda>(idx, item). (item, scoreCandidate item q specs, idx)) (enumerate n cs)))
      = map (\<lambda>c. (c, scoreCandidate c q specs)) (filter (\<lambda>c. 0 < scoreCandidate c q specs) cs)" for n
    by (induction cs arbitrary: n) simp_all
  then show ?thesis by (simp add: scored_def)
qed

text \<open>A sort by two keys of a list that is already ordered by the second is a stable sort by the first.\<close>

lemma sort_key_pair:
  assumes "sorted (map g xs)"
  shows "sort_key (\<lambda>x. (f x, g x)) xs = sort_key f xs"
  using assms
proof (induction xs)
  case (Cons x xs)
  have "insort_key (\<lambda>x. (f x, g x)) x ys = insort_key f x ys" if "\<forall>y \<in> set ys. g x \<le> g y" for ys
    using that by (induction ys) (auto simp: less_eq_prod_def)
  with Cons show ?case by simp
qed simp

lemma scored_in_order: "sorted (map (\<lambda>(item, s, idx). idx) (scored specs q cs))"
proof -
  have "map (\<lambda>(item, s, idx). idx) (map (\<lambda>(idx, item). (item, scoreCandidate item q specs, idx)) (enumerate 0 cs)) = [0..<length cs]"
    using map_fst_enumerate [of 0 cs] by (simp add: comp_def case_prod_unfold fst_def [symmetric])
  then have "sorted (map (\<lambda>(item, s, idx). idx) (map (\<lambda>(idx, item). (item, scoreCandidate item q specs, idx)) (enumerate 0 cs)))"
    by simp
  then show ?thesis unfolding scored_def by (rule sorted_filter)
qed

lemma ranked_order:
  "sort_key (\<lambda>(item, s, idx). (- s, idx)) (scored specs q cs) = sort_key (\<lambda>(item, s, idx). - s) (scored specs q cs)"
  using sort_key_pair [OF scored_in_order, of "\<lambda>(item, s, idx). - s" specs q cs] by (simp add: case_prod_unfold)

text \<open>
  whatever the query and the weights, the results come in descending order of score, and
  among the candidates of one score, those that score above zero are all there, once per occurrence
  and in their original order; a blank query has no results.
\<close>

theorem search_results_ranked_stably:
  "sorted_wrt (\<lambda>a b. snd b \<le> snd a) (scoreCandidates cs raw specs)
   \<and> filter (\<lambda>r. snd r = k) (scoreCandidates cs raw specs)
      = (if trim raw = '''' \<or> k \<le> 0 then []
         else map (\<lambda>c. (c, k)) (filter (\<lambda>c. scoreCandidate c (toLowerCase (trim raw)) specs = k) cs))"
proof (cases "trim raw = ''''")
  case True
  then show ?thesis by (simp add: scoreCandidates_def toLowerCase_def)
next
  case False
  let ?q = "toLowerCase (trim raw)" and ?key = "\<lambda>(item, s, idx). - s :: rat" and ?out = "\<lambda>(item, s, idx). (item, s)"
  let ?E = "scored specs ?q cs"
  have "?q \<noteq> ''''" using False by (simp add: toLowerCase_def)
  then have res: "scoreCandidates cs raw specs = map ?out (sort_key ?key ?E)"
    by (simp add: scoreCandidates_def ranked_order)
  have "sorted (map ?key (sort_key ?key ?E))" by simp
  then have sorted: "sorted_wrt (\<lambda>a b. snd b \<le> snd a) (scoreCandidates cs raw specs)"
    unfolding res by (simp add: sorted_wrt_map case_prod_unfold)
  have "filter (\<lambda>r. snd r = k) (scoreCandidates cs raw specs) = map ?out (filter (\<lambda>x. ?key x = - k) (sort_key ?key ?E))"
    unfolding res by (simp add: filter_map comp_def case_prod_unfold)
  also have "\<dots> = map ?out (filter (\<lambda>x. ?key x = - k) ?E)" by (simp only: sort_key_stable)
  also have "\<dots> = filter (\<lambda>r. snd r = k) (map ?out ?E)" by (simp add: filter_map comp_def case_prod_unfold)
  also have "\<dots> = map (\<lambda>c. (c, scoreCandidate c ?q specs))
      (filter (\<lambda>c. scoreCandidate c ?q specs = k \<and> 0 < scoreCandidate c ?q specs) cs)"
    unfolding scored_items by (simp add: filter_map comp_def conj_commute)
  also have "\<dots> = (if k \<le> 0 then [] else map (\<lambda>c. (c, k)) (filter (\<lambda>c. scoreCandidate c ?q specs = k) cs))"
    by (induction cs) auto
  finally show ?thesis using sorted False by simp
qed

text \<open>
  when all weights are positive and the query is not blank, the results are exactly the
  candidates that have, in some field, a value containing the trimmed query in any case: no match
  is lost and nothing else is found.
\<close>

theorem search_finds_exactly_the_matches:
  assumes "\<forall>f \<in> set specs. 0 < fs_weight f" and "trim raw \<noteq> ''''"
  shows "mset (map fst (scoreCandidates cs raw specs))
    = mset (filter (\<lambda>c. list_ex (field_matches c (toLowerCase (trim raw))) specs) cs)"
proof -
  let ?q = "toLowerCase (trim raw)"
  have q: "?q \<noteq> ''''" using assms(2) by (simp add: toLowerCase_def)
  have "mset (scoreCandidates cs raw specs) = mset (map (\<lambda>(item, s, idx). (item, s)) (scored specs ?q cs))"
    using q by (simp add: scoreCandidates_def)
  then have "mset (map fst (scoreCandidates cs raw specs)) = mset (map fst (map (\<lambda>(item, s, idx). (item, s)) (scored specs ?q cs)))"
    by (simp only: mset_map)
  also have "\<dots> = mset (filter (\<lambda>c. 0 < scoreCandidate c ?q specs) cs)"
    unfolding scored_items by (simp add: comp_def)
  finally show ?thesis by (simp add: scoreCandidate_pos [OF q assms(1)] list_ex_iff)
qed

section \<open>Witnesses\<close>

definition name_field :: "(string \<times> string list) field_spec" where
  "name_field = \<lparr>fs_get = \<lambda>c. Text (fst c), fs_weight = 1\<rparr>"

definition tag_field :: "(string \<times> string list) field_spec" where
  "tag_field = \<lparr>fs_get = \<lambda>c. Texts (snd c), fs_weight = 3 / 5\<rparr>"

definition sample_candidates :: "(string \<times> string list) list" where
  "sample_candidates = [(''Order items'', []), (''customers'', [''Orders'']), (''reorder'', []), (''payments'', [])]"

lemma word_boundary_match_iff_witness:
  "\<exists>i < length ''sales-order''. isWordChar (''sales-order'' ! i)
     \<and> (i = 0 \<or> \<not> isWordChar (''sales-order'' ! (i - 1))) \<and> is_prefix ''ord'' (drop i ''sales-order'')"
proof -
  have "wordStartsWith ''sales-order'' ''ord''" by code_simp
  then show ?thesis by (subst (asm) word_boundary_match_iff)
qed

lemma search_finds_exactly_the_matches_witness:
  "mset (map fst (scoreCandidates sample_candidates ''  ORDER'' [name_field, tag_field]))
    = mset [(''Order items'', []), (''customers'', [''Orders'']), (''reorder'', [])]"
proof -
  have "filter (\<lambda>c. list_ex (field_matches c (toLowerCase (trim ''  ORDER''))) [name_field, tag_field]) sample_candidates
      = [(''Order items'', []), (''customers'', [''Orders'']), (''reorder'', [])]"
    by code_simp
  moreover have "trim ''  ORDER'' \<noteq> ''''" by code_simp
  moreover have "\<forall>f \<in> set [name_field, tag_field]. 0 < fs_weight f" by (simp add: name_field_def tag_field_def)
  ultimately show ?thesis
    using search_finds_exactly_the_matches [of "[name_field, tag_field]" "''  ORDER''" sample_candidates] by simp
qed

lemma search_example:
  "scoreCandidates sample_candidates '' order'' [name_field, tag_field]
    = [((''Order items'', []), 60), ((''customers'', [''Orders'']), 36), ((''reorder'', []), 20)]"
  by code_simp

end
