(* ===== verification/Fetch_Policy.thy ===== *)
theory Fetch_Policy
  imports Graph_Model Js_String Step_System
begin

text \<open>
  The request wrapper every service goes through (\<^verbatim>\<open>services/fetchWithTimeout.ts\<close>) and the JSON
  wrapper on top of it (\<^verbatim>\<open>services/apiClient.ts\<close>): CSRF header, one silent refresh on 401, one
  delayed retry under backpressure, the announcements to the rest of the application.

  The network is a parameter: \<open>attempt n\<close> is what the n-th call of the browser's \<^verbatim>\<open>fetch\<close> comes to.
  What the code computes is the result and the list of effects, in order. Parsers of the platform
  (\<^verbatim>\<open>URL\<close>, \<^verbatim>\<open>Number\<close>, \<^verbatim>\<open>Date.parse\<close>, \<^verbatim>\<open>decodeURIComponent\<close>, \<^verbatim>\<open>JSON.parse\<close>) are the fields of \<open>platform\<close>.
\<close>

section \<open>Requests and responses\<close>

record platform =
  pf_pathname :: "string \<Rightarrow> string option"
  pf_number :: "string \<Rightarrow> rat option"
  pf_date :: "string \<Rightarrow> int option"
  pf_decode :: "string \<Rightarrow> string option"
  pf_json :: "string \<Rightarrow> json option"
  pf_stringify :: "json \<Rightarrow> string"

record response =
  rs_status :: nat
  rs_statusText :: string
  rs_retryAfter :: "string option"
  rs_body :: "string option"

text \<open>A timeout and an abort by the caller both reject with an \<^verbatim>\<open>AbortError\<close>.\<close>

datatype outcome = Responded response | Abort_Error | Other_Error string

datatype fetch_error = Timed_Out | Failed string

type_synonym headers = "(string, string) jsmap"

datatype effect =
    Sent headers
  | Refresh_Attempt
  | Session_Lost
  | Waited int
  | Access_Denied "json option" string nat
  | Health_Failure

record request =
  rq_url :: string
  rq_method :: "string option"
  rq_headers :: headers
  rq_body :: "string option"

text \<open>What the surroundings supply to one call: the network, the cookies, the clock and the dice.\<close>

record surroundings =
  attempt :: "nat \<Rightarrow> outcome"
  refreshed :: bool
  cookies :: "nat \<Rightarrow> string"
  clock_ms :: int
  dice :: rat

section \<open>Cookies and headers\<close>

definition SAFE_METHODS :: "string list" where
  "SAFE_METHODS = [''GET'', ''HEAD'', ''OPTIONS'']"

text \<open>The error is \<^verbatim>\<open>decodeURIComponent\<close>'s \<^verbatim>\<open>URIError\<close> on a malformed value.\<close>

definition readCookie :: "platform \<Rightarrow> string \<Rightarrow> string \<Rightarrow> string + string option" where
  "readCookie pf jar name =
     (case find_first (is_prefix (name @ ''='')) (map trim (split_on CHR '';'' jar)) of
        None \<Rightarrow> Inr None
      | Some part \<Rightarrow>
          (case pf_decode pf (drop (length name + 1) part) of
             None \<Rightarrow> Inl ''URIError''
           | Some v \<Rightarrow> Inr (Some v)))"

text \<open>Header names are kept in lower case; the \<^verbatim>\<open>Headers\<close> class compares them without case.\<close>

definition buildHeaders :: "platform \<Rightarrow> string \<Rightarrow> string \<Rightarrow> request \<Rightarrow> string + headers" where
  "buildHeaders pf jar method rq =
     (let h0 = mfrom (map (\<lambda>(k, v). (toLowerCase k, v)) (rq_headers rq));
          withType = (\<lambda>h. if nullish (rq_body rq) '''' \<noteq> '''' \<and> \<not> mhas h ''content-type''
                            then mset_key ''content-type'' ''application/json'' h else h)
      in if method \<notin> set SAFE_METHODS \<and> \<not> mhas h0 ''x-csrf-token''
         then (case readCookie pf jar ''nx_csrf'' of
                 Inl e \<Rightarrow> Inl e
               | Inr csrf \<Rightarrow> Inr (withType (if truthy csrf then mset_key ''x-csrf-token'' (the csrf) h0 else h0)))
         else Inr (withType h0))"

section \<open>Backpressure and announcements\<close>

definition RETRY_AFTER_MAX_MS :: int where
  "RETRY_AFTER_MAX_MS = 5000"

definition jitter :: "rat \<Rightarrow> int" where
  "jitter d = 10 + floor (d * 240)"

definition parseRetryAfterMs :: "platform \<Rightarrow> int \<Rightarrow> rat \<Rightarrow> string option \<Rightarrow> int option" where
  "parseRetryAfterMs pf now d header =
     (let t = trim (nullish header '''')
      in if t = '''' then None
         else (let ms = (case pf_number pf t of
                           Some n \<Rightarrow> if 0 \<le> n then Some (floor (n * 1000))
                                     else map_option (\<lambda>ts. ts - now) (pf_date pf t)
                         | None \<Rightarrow> map_option (\<lambda>ts. ts - now) (pf_date pf t))
               in (case ms of
                     None \<Rightarrow> None
                   | Some m \<Rightarrow> if m < 0 then None else Some (min RETRY_AFTER_MAX_MS (m + jitter d)))))"

definition REFRESH_URL :: string where
  "REFRESH_URL = ''/api/v1/auth/refresh''"

definition urlPath :: "platform \<Rightarrow> string \<Rightarrow> string" where
  "urlPath pf raw = nullish (pf_pathname pf raw) raw"

definition isRefreshEndpoint :: "platform \<Rightarrow> string \<Rightarrow> bool" where
  "isRefreshEndpoint pf raw \<longleftrightarrow> urlPath pf raw = REFRESH_URL"

text \<open>\<^verbatim>\<open>body.detail\<close>, which raises when the body is \<^verbatim>\<open>null\<close>: then \<open>None\<close>.\<close>

definition member_of :: "json \<Rightarrow> string \<Rightarrow> json option option" where
  "member_of j f = (case j of JNull \<Rightarrow> None | JObj o' \<Rightarrow> Some (mget o' f) | _ \<Rightarrow> Some None)"

definition denied_detail :: "platform \<Rightarrow> string option \<Rightarrow> json option" where
  "denied_detail pf body =
     (let t = nullish body ''''
      in if t = '''' then None
         else (case pf_json pf t of
                 None \<Rightarrow> Some (JStr t)
               | Some j \<Rightarrow>
                   (case member_of j ''detail'' of
                      None \<Rightarrow> Some (JStr t)
                    | Some d \<Rightarrow> if d = Some JNull then None else d)))"

definition notifyAccessDenied :: "platform \<Rightarrow> response \<Rightarrow> string \<Rightarrow> effect" where
  "notifyAccessDenied pf r path = Access_Denied (denied_detail pf (rs_body r)) path (rs_status r)"

section \<open>The wrapper\<close>

definition runOnce :: "platform \<Rightarrow> surroundings \<Rightarrow> request \<Rightarrow> string \<Rightarrow> nat \<Rightarrow> (fetch_error + response) \<times> effect list" where
  "runOnce pf w rq method n =
     (case buildHeaders pf (cookies w n) method rq of
        Inl e \<Rightarrow> (Inl (Failed e), [])
      | Inr h \<Rightarrow>
          (case attempt w n of
             Responded r \<Rightarrow> (Inr r, [Sent h])
           | Abort_Error \<Rightarrow> (Inl Timed_Out, [Sent h])
           | Other_Error e \<Rightarrow> (Inl (Failed e), [Sent h])))"

text \<open>The code after the refresh block: backpressure, then the announcement of a denial.\<close>

definition settle_response ::
  "platform \<Rightarrow> surroundings \<Rightarrow> request \<Rightarrow> string \<Rightarrow> response \<Rightarrow> effect list \<Rightarrow> (fetch_error + response) \<times> effect list" where
  "settle_response pf w rq method r es =
     (let announced = (Inr r, es @ (if rs_status r = 403 then [notifyAccessDenied pf r (urlPath pf (rq_url rq))] else []))
      in if (rs_status r = 429 \<or> rs_status r = 503) \<and> method \<in> set SAFE_METHODS
         then (case parseRetryAfterMs pf (clock_ms w) (dice w) (rs_retryAfter r) of
                 Some ms \<Rightarrow> (let (res, es') = runOnce pf w rq method 1 in (res, es @ [Waited ms] @ es'))
               | None \<Rightarrow> announced)
         else announced)"

definition request_method :: "request \<Rightarrow> string" where
  "request_method rq = toUpperCase (nullish (rq_method rq) ''GET'')"

definition fetchWithTimeout :: "platform \<Rightarrow> surroundings \<Rightarrow> request \<Rightarrow> (fetch_error + response) \<times> effect list" where
  "fetchWithTimeout pf w rq =
     (let method = request_method rq; (first, es) = runOnce pf w rq method 0
      in case first of
           Inl e \<Rightarrow> (Inl e, es)
         | Inr r \<Rightarrow>
             if rs_status r = 401 \<and> \<not> isRefreshEndpoint pf (rq_url rq)
             then (if refreshed w
                   then (let (res, es') = runOnce pf w rq method 1 in (res, es @ [Refresh_Attempt] @ es'))
                   else settle_response pf w rq method r (es @ [Refresh_Attempt, Session_Lost]))
             else settle_response pf w rq method r es)"

section \<open>The JSON wrapper\<close>

definition message_of :: "string \<Rightarrow> json \<Rightarrow> string option" where
  "message_of f j = (case member_of j f of Some (Some (JStr s)) \<Rightarrow> Some s | _ \<Rightarrow> None)"

text \<open>The message of a failed response; the body may not be JSON, and its \<open>detail\<close> may have any shape.\<close>

definition error_detail :: "platform \<Rightarrow> response \<Rightarrow> string" where
  "error_detail pf r =
     (let text = nullish (rs_body r) ''''
      in case pf_json pf text of
           None \<Rightarrow> str_or (Some text) (rs_statusText r)
         | Some body \<Rightarrow>
             (case member_of body ''detail'' of
                Some (Some (JStr s)) \<Rightarrow> s
              | Some (Some (JArr xs)) \<Rightarrow>
                  (case find_first (\<lambda>e. message_of ''msg'' e \<noteq> None) xs of
                     Some e \<Rightarrow> the (message_of ''msg'' e)
                   | None \<Rightarrow> pf_stringify pf (JArr xs))
              | Some (Some (JObj fs)) \<Rightarrow> nullish (message_of ''message'' (JObj fs)) (pf_stringify pf (JObj fs))
              | _ \<Rightarrow> pf_stringify pf body))"

definition response_ok :: "response \<Rightarrow> bool" where
  "response_ok r \<longleftrightarrow> 200 \<le> rs_status r \<and> rs_status r \<le> 299"

datatype api_error = Fetch_Error fetch_error | Api_Error string | Bad_Json

definition authFetch :: "platform \<Rightarrow> surroundings \<Rightarrow> request \<Rightarrow> (api_error + json option) \<times> effect list" where
  "authFetch pf w rq =
     (case fetchWithTimeout pf w rq of
        (Inl e, es) \<Rightarrow> (Inl (Fetch_Error e), es @ [Health_Failure])
      | (Inr r, es) \<Rightarrow>
          if \<not> response_ok r
          then (Inl (Api_Error (if rs_status r = 401 then ''Session expired'' else error_detail pf r)), es)
          else if rs_status r = 204 then (Inr None, es)
          else (case pf_json pf (nullish (rs_body r) '''') of
                  None \<Rightarrow> (Inl Bad_Json, es)
                | Some j \<Rightarrow> (Inr (Some j), es)))"

lemma authFetch_raises_on_failure:
  assumes "authFetch pf w rq = (Inr v, es)"
  shows "\<exists>r. fetchWithTimeout pf w rq = (Inr r, es) \<and> response_ok r \<and> (v = None \<longleftrightarrow> rs_status r = 204)"
  using assms by (auto simp: authFetch_def dest: sym split: prod.splits sum.splits if_splits option.splits)

text \<open>The health store hears of exactly the calls that got no response.\<close>

lemma fetch_never_reports_health: "fetchWithTimeout pf w rq = (res, es) \<Longrightarrow> Health_Failure \<notin> set es"
  by (auto simp: fetchWithTimeout_def settle_response_def runOnce_def notifyAccessDenied_def Let_def
      split: sum.splits outcome.splits if_splits option.splits)

lemma health_hears_network_failures:
  "Health_Failure \<in> set (snd (authFetch pf w rq)) \<longleftrightarrow> (\<exists>e. fst (fetchWithTimeout pf w rq) = Inl e)"
  using fetch_never_reports_health [of pf w rq]
  by (auto simp: authFetch_def split: prod.splits sum.splits if_splits option.splits)

section \<open>One retry, and only a safe one\<close>

definition is_sent :: "effect \<Rightarrow> bool" where
  "is_sent e \<longleftrightarrow> (case e of Sent h \<Rightarrow> True | _ \<Rightarrow> False)"

definition sent_count :: "effect list \<Rightarrow> nat" where
  "sent_count es = length (filter is_sent es)"

lemma sent_count_simps [simp]:
  "sent_count [] = 0"
  "sent_count (Sent h # es) = Suc (sent_count es)"
  "sent_count (Refresh_Attempt # es) = sent_count es"
  "sent_count (Session_Lost # es) = sent_count es"
  "sent_count (Waited ms # es) = sent_count es"
  "sent_count (Access_Denied d p st # es) = sent_count es"
  "sent_count (Health_Failure # es) = sent_count es"
  "sent_count (es @ es') = sent_count es + sent_count es'"
  by (simp_all add: sent_count_def is_sent_def)

lemma sent_count_denied [simp]: "sent_count (notifyAccessDenied pf r p # es) = sent_count es"
  by (simp add: notifyAccessDenied_def)

lemma runOnce_sent: "snd (runOnce pf w rq method n) = [] \<or> (\<exists>h. snd (runOnce pf w rq method n) = [Sent h])"
  by (auto simp: runOnce_def split: sum.splits outcome.splits)

lemma retry_after_bounds:
  assumes "parseRetryAfterMs pf now d header = Some ms" and "0 \<le> d" and "d < 1"
  shows "10 \<le> ms \<and> ms \<le> RETRY_AFTER_MAX_MS"
proof -
  have "0 \<le> floor (d * 240)" using assms(2) by simp
  then have "10 \<le> jitter d" by (simp add: jitter_def)
  moreover have "\<exists>m \<ge> 0. ms = min RETRY_AFTER_MAX_MS (m + jitter d)"
    using assms(1) by (auto simp: parseRetryAfterMs_def Let_def not_less split: if_splits option.splits)
  ultimately show ?thesis by (auto simp: RETRY_AFTER_MAX_MS_def min_def)
qed

lemma settle_cases:
  assumes "settle_response pf w rq method r es = (res, es')"
  obtains (announced) "res = Inr r" "es' = es \<or> (\<exists>d p st. es' = es @ [Access_Denied d p st])"
  | (retried) ms where "method \<in> set SAFE_METHODS" "rs_status r = 429 \<or> rs_status r = 503"
      "parseRetryAfterMs pf (clock_ms w) (dice w) (rs_retryAfter r) = Some ms"
      "res = fst (runOnce pf w rq method 1)" "es' = es @ Waited ms # snd (runOnce pf w rq method 1)"
  using assms
  by (auto simp: settle_response_def notifyAccessDenied_def case_prod_unfold Let_def split: if_splits option.splits)

lemma fetch_cases:
  assumes "fetchWithTimeout pf w rq = (res, es)"
  obtains (failed) e where "runOnce pf w rq (request_method rq) 0 = (Inl e, es)" "res = Inl e"
  | (refresh) r h where "runOnce pf w rq (request_method rq) 0 = (Inr r, [Sent h])" "attempt w 0 = Responded r" "refreshed w"
      "rs_status r = 401" "\<not> isRefreshEndpoint pf (rq_url rq)"
      "res = fst (runOnce pf w rq (request_method rq) 1)" "es = Sent h # Refresh_Attempt # snd (runOnce pf w rq (request_method rq) 1)"
  | (lost) r h where "runOnce pf w rq (request_method rq) 0 = (Inr r, [Sent h])" "attempt w 0 = Responded r" "\<not> refreshed w"
      "rs_status r = 401" "\<not> isRefreshEndpoint pf (rq_url rq)" "res = Inr r" "es = [Sent h, Refresh_Attempt, Session_Lost]"
  | (settled) r h where "runOnce pf w rq (request_method rq) 0 = (Inr r, [Sent h])" "attempt w 0 = Responded r"
      "rs_status r = 401 \<longrightarrow> isRefreshEndpoint pf (rq_url rq)"
      "settle_response pf w rq (request_method rq) r [Sent h] = (res, es)"
proof -
  obtain first es0 where first: "runOnce pf w rq (request_method rq) 0 = (first, es0)"
    by (cases "runOnce pf w rq (request_method rq) 0")
  show thesis
  proof (cases first)
    case (Inl e)
    with assms first have "res = Inl e" "es = es0" by (simp_all add: fetchWithTimeout_def)
    with Inl first show thesis by (intro failed) auto
  next
    case (Inr r)
    with first obtain h where h: "es0 = [Sent h]" "attempt w 0 = Responded r"
      by (auto simp: runOnce_def split: sum.splits outcome.splits)
    with Inr first have first: "runOnce pf w rq (request_method rq) 0 = (Inr r, [Sent h])" by simp
    consider "rs_status r = 401 \<longrightarrow> isRefreshEndpoint pf (rq_url rq)"
      | "rs_status r = 401" "\<not> isRefreshEndpoint pf (rq_url rq)" "refreshed w"
      | "rs_status r = 401" "\<not> isRefreshEndpoint pf (rq_url rq)" "\<not> refreshed w" by blast
    then show thesis
    proof cases
      case 1
      with assms first have "settle_response pf w rq (request_method rq) r [Sent h] = (res, es)"
        by (auto simp: fetchWithTimeout_def)
      with first h(2) 1 show thesis by (rule settled)
    next
      case 2
      with assms first h(2) show thesis by (intro refresh) (auto simp: fetchWithTimeout_def case_prod_unfold Let_def)
    next
      case 3
      with assms first h(2) show thesis by (intro lost) (auto simp: fetchWithTimeout_def settle_response_def)
    qed
  qed
qed

text \<open>
  C36: one call makes at most two requests and at most one silent refresh. A second request is
  made only after a successful refresh, or, for \<^verbatim>\<open>GET\<close>, \<^verbatim>\<open>HEAD\<close> and \<^verbatim>\<open>OPTIONS\<close>, after a 429 or 503 with
  a usable \<^verbatim>\<open>Retry-After\<close>, and then after a pause of 10 to 5000 ms: a write is never repeated
  because of backpressure. The session is announced lost exactly when a refresh was tried and failed.
\<close>

theorem fetch_retries_once_and_safely:
  assumes "0 \<le> dice w" and "dice w < 1" and "fetchWithTimeout pf w rq = (res, es)"
  shows "sent_count es \<le> 2 \<and> length (filter (\<lambda>e. e = Refresh_Attempt) es) \<le> 1
    \<and> (sent_count es = 2 \<longrightarrow> (Refresh_Attempt \<in> set es \<and> refreshed w)
        \<or> (request_method rq \<in> set SAFE_METHODS
            \<and> (\<exists>r. attempt w 0 = Responded r \<and> (rs_status r = 429 \<or> rs_status r = 503))
            \<and> (\<exists>ms. Waited ms \<in> set es)))
    \<and> (\<forall>ms. Waited ms \<in> set es \<longrightarrow> 10 \<le> ms \<and> ms \<le> RETRY_AFTER_MAX_MS)
    \<and> (Session_Lost \<in> set es \<longleftrightarrow> Refresh_Attempt \<in> set es \<and> \<not> refreshed w)"
proof -
  obtain second es1 where second: "runOnce pf w rq (request_method rq) 1 = (second, es1)"
    by (cases "runOnce pf w rq (request_method rq) 1")
  have es1: "es1 = [] \<or> (\<exists>h. es1 = [Sent h])" using runOnce_sent [of pf w rq "request_method rq" 1] second by simp
  note wait = retry_after_bounds [OF _ assms(1,2)]
  from assms(3) show ?thesis
  proof (cases rule: fetch_cases)
    case (failed e)
    then show ?thesis using runOnce_sent [of pf w rq "request_method rq" 0] by auto
  next
    case (refresh r h)
    then show ?thesis using es1 by (auto simp: second [unfolded One_nat_def])
  next
    case (lost r h)
    then show ?thesis by auto
  next
    case (settled r h)
    from settled(4) show ?thesis
    proof (cases rule: settle_cases)
      case announced
      then show ?thesis by auto
    next
      case (retried ms)
      then show ?thesis using es1 settled(2) wait by (auto simp: second [unfolded One_nat_def])
    qed
  qed
qed

text \<open>
  no failure is swallowed and none is invented. As long as the headers can be built, the call
  ends in what its last request came to: the response, a timeout error for an abort, the network
  error otherwise; a response of 401, 403 or any other status is handed to the caller, not raised.
\<close>

theorem fetch_returns_the_last_outcome:
  assumes "\<forall>n. \<exists>h. buildHeaders pf (cookies w n) (request_method rq) rq = Inr h" and "fetchWithTimeout pf w rq = (res, es)"
  shows "1 \<le> sent_count es
    \<and> res = (case attempt w (sent_count es - 1) of
               Responded r \<Rightarrow> Inr r | Abort_Error \<Rightarrow> Inl Timed_Out | Other_Error e \<Rightarrow> Inl (Failed e))"
proof -
  have once: "sent_count (snd (runOnce pf w rq (request_method rq) n)) = 1
      \<and> fst (runOnce pf w rq (request_method rq) n)
        = (case attempt w n of Responded r \<Rightarrow> Inr r | Abort_Error \<Rightarrow> Inl Timed_Out | Other_Error e \<Rightarrow> Inl (Failed e))" for n
    using assms(1) [rule_format, of n] by (auto simp: runOnce_def split: outcome.splits)
  from assms(2) show ?thesis
  proof (cases rule: fetch_cases)
    case (failed e)
    then show ?thesis using once [of 0] by auto
  next
    case (refresh r h)
    then show ?thesis using once [of 1] by auto
  next
    case (lost r h)
    then show ?thesis by simp
  next
    case (settled r h)
    from settled(4) show ?thesis
    proof (cases rule: settle_cases)
      case announced
      then show ?thesis using settled(2) by auto
    next
      case (retried ms)
      then show ?thesis using once [of 1] by auto
    qed
  qed
qed

section \<open>Concurrent refreshes share one request\<close>

text \<open>
  \<open>refreshInFlight\<close> over the life of the module: a caller that met a 401 joins, the refresh request
  answers, the microtask of the \<^verbatim>\<open>finally\<close> block clears the variable. Promises are numbered as they
  are made, one per \<^verbatim>\<open>POST\<close>.
\<close>

record refresh_state =
  rf_inFlight :: "nat option"
  rf_posts :: nat
  rf_results :: "(nat, bool) jsmap"
  rf_waiters :: "(nat \<times> nat) list"

definition rf_initial :: refresh_state where
  "rf_initial = \<lparr>rf_inFlight = None, rf_posts = 0, rf_results = [], rf_waiters = []\<rparr>"

datatype refresh_event = Join nat | Answer bool | Clear

definition tryRefresh :: "nat \<Rightarrow> refresh_state \<Rightarrow> refresh_state" where
  "tryRefresh caller s =
     (case rf_inFlight s of
        Some p \<Rightarrow> s\<lparr>rf_waiters := rf_waiters s @ [(caller, p)]\<rparr>
      | None \<Rightarrow> s\<lparr>rf_inFlight := Some (rf_posts s), rf_posts := Suc (rf_posts s),
                   rf_waiters := rf_waiters s @ [(caller, rf_posts s)]\<rparr>)"

fun rf_step :: "refresh_event \<Rightarrow> refresh_state \<Rightarrow> refresh_state" where
  "rf_step (Join caller) s = tryRefresh caller s"
| "rf_step (Answer ok) s =
     (case rf_inFlight s of
        Some p \<Rightarrow> if mhas (rf_results s) p then s else s\<lparr>rf_results := mset_key p ok (rf_results s)\<rparr>
      | None \<Rightarrow> s)"
| "rf_step Clear s =
     (case rf_inFlight s of
        Some p \<Rightarrow> if mhas (rf_results s) p then s\<lparr>rf_inFlight := None\<rparr> else s
      | None \<Rightarrow> s)"

text \<open>The boolean a waiter's \<^verbatim>\<open>await tryRefresh()\<close> gives, once it is there.\<close>

definition refresh_answer :: "refresh_state \<Rightarrow> nat \<times> nat \<Rightarrow> bool option" where
  "refresh_answer s w = mget (rf_results s) (snd w)"

definition is_answer :: "refresh_event \<Rightarrow> bool" where
  "is_answer e \<longleftrightarrow> (case e of Answer ok \<Rightarrow> True | _ \<Rightarrow> False)"

definition refreshing :: "refresh_state \<Rightarrow> bool" where
  "refreshing s \<longleftrightarrow> (case rf_inFlight s of None \<Rightarrow> False | Some p \<Rightarrow> mget (rf_results s) p = None)"

definition single_flight :: "refresh_state \<Rightarrow> bool" where
  "single_flight s \<longleftrightarrow>
     (\<forall>p < rf_posts s. rf_inFlight s = Some p \<or> mget (rf_results s) p \<noteq> None)
     \<and> (\<forall>p. rf_inFlight s = Some p \<longrightarrow> Suc p = rf_posts s)
     \<and> (\<forall>w \<in> set (rf_waiters s). snd w < rf_posts s)
     \<and> (\<forall>p. mget (rf_results s) p \<noteq> None \<longrightarrow> p < rf_posts s)
     \<and> rf_posts s \<le> length (rf_results s) + (if refreshing s then 1 else 0)"

lemma tryRefresh_single: "single_flight s \<Longrightarrow> single_flight (tryRefresh c s)"
  unfolding single_flight_def tryRefresh_def refreshing_def
  by (auto split: option.splits if_splits simp: less_Suc_eq)

lemma answer_single: "single_flight s \<Longrightarrow> single_flight (rf_step (Answer ok) s)"
  by (auto simp: single_flight_def refreshing_def length_mset_key split: option.splits if_splits)

lemma clear_single: "single_flight s \<Longrightarrow> single_flight (rf_step Clear s)"
  by (auto simp: single_flight_def refreshing_def split: option.splits if_splits)

lemma rf_step_single: "single_flight s \<Longrightarrow> single_flight (rf_step e s)"
  by (cases e) (auto simp only: rf_step.simps(1) intro: tryRefresh_single answer_single clear_single)

interpretation refresh: step_system rf_step single_flight "\<lambda>e. True"
  by unfold_locales (rule rf_step_single)

lemma single_flight_initial: "single_flight rf_initial"
  by (simp add: single_flight_def rf_initial_def)

lemma results_per_answer:
  "length (rf_results (run rf_step es s)) \<le> length (rf_results s) + length (filter is_answer es)"
proof (induction es arbitrary: s)
  case (Cons e es)
  have "length (rf_results (rf_step e s)) \<le> length (rf_results s) + (if is_answer e then 1 else 0)"
    by (cases e) (auto simp: tryRefresh_def is_answer_def length_mset_key split: option.splits)
  with Cons.IH [of "rf_step e s"] show ?case by (simp split: if_splits)
qed simp

text \<open>
  whatever the interleaving of callers, answers and microtasks, at most one refresh request is
  unanswered at any time, and every other promise handed out has its answer; requests outnumber
  answers by at most one, so callers that meet a 401 while a refresh is under way wait for it
  instead of sending their own.
\<close>

theorem concurrent_refreshes_share_one_request:
  assumes "s = run rf_step es rf_initial"
  shows "(\<forall>w \<in> set (rf_waiters s). refresh_answer s w = None \<longrightarrow> rf_inFlight s = Some (snd w))
    \<and> rf_posts s \<le> length (filter is_answer es) + 1
    \<and> (refreshing s \<longrightarrow> rf_posts (rf_step (Join c) s) = rf_posts s)"
proof -
  have ok: "single_flight s" unfolding assms by (rule refresh.run_inv [OF single_flight_initial]) simp
  have "length (rf_results s) \<le> length (filter is_answer es)"
    using results_per_answer [of es rf_initial] by (simp add: assms rf_initial_def)
  with ok have "rf_posts s \<le> length (filter is_answer es) + 1" by (auto simp: single_flight_def split: if_splits)
  moreover have "\<forall>w \<in> set (rf_waiters s). refresh_answer s w = None \<longrightarrow> rf_inFlight s = Some (snd w)"
    using ok unfolding single_flight_def refresh_answer_def by metis
  ultimately show ?thesis by (auto simp: refreshing_def tryRefresh_def split: option.splits)
qed

section \<open>Deviations\<close>

text \<open>A platform whose parsers know plain paths and small numbers only, for the examples.\<close>

definition plain_platform :: platform where
  "plain_platform = \<lparr>pf_pathname = Some, pf_number = \<lambda>t. if t = ''2'' then Some 2 else None, pf_date = \<lambda>t. None,
     pf_decode = Some, pf_json = \<lambda>t. None, pf_stringify = \<lambda>j. ''json''\<rparr>"

definition status_response :: "nat \<Rightarrow> response" where
  "status_response st = \<lparr>rs_status = st, rs_statusText = '''', rs_retryAfter = Some ''2'', rs_body = None\<rparr>"

definition answers :: "outcome \<Rightarrow> outcome \<Rightarrow> bool \<Rightarrow> surroundings" where
  "answers a b ok = \<lparr>attempt = (\<lambda>n. if n = 0 then a else b), refreshed = ok, cookies = (\<lambda>n. ''a=b; nx_csrf=tok''), clock_ms = 0, dice = 1 / 2\<rparr>"

definition get_request :: "string \<Rightarrow> request" where
  "get_request url = \<lparr>rq_url = url, rq_method = None, rq_headers = [], rq_body = None\<rparr>"

text \<open>A 403 of the request repeated after a refresh is not announced, and its 429 is not honoured.\<close>

lemma denial_after_refresh_is_silent:
  "fetchWithTimeout plain_platform (answers (Responded (status_response 401)) (Responded (status_response 403)) True) (get_request ''/api/v1/views'')
    = (Inr (status_response 403), [Sent [], Refresh_Attempt, Sent []])"
  "fetchWithTimeout plain_platform (answers (Responded (status_response 401)) (Responded (status_response 429)) True) (get_request ''/api/v1/views'')
    = (Inr (status_response 429), [Sent [], Refresh_Attempt, Sent []])"
  by code_simp+

text \<open>The header comment exempts every \<^verbatim>\<open>/auth/\<close> URL from the silent refresh; only the refresh URL is.\<close>

lemma login_failure_triggers_refresh:
  "fetchWithTimeout plain_platform (answers (Responded (status_response 401)) Abort_Error False) (get_request ''/api/v1/auth/me'')
    = (Inr (status_response 401), [Sent [], Refresh_Attempt, Session_Lost])"
  by code_simp

text \<open>A rejected log-in is sent twice when an old refresh cookie is still good.\<close>

lemma rejected_login_is_repeated:
  "sent_count (snd (fetchWithTimeout plain_platform (answers (Responded (status_response 401)) (Responded (status_response 401)) True)
     ((get_request ''/api/v1/auth/login'')\<lparr>rq_method := Some ''POST''\<rparr>))) = 2"
  by code_simp

section \<open>Witnesses\<close>

lemma fetch_retries_once_and_safely_witness:
  "fetchWithTimeout plain_platform (answers (Responded (status_response 503)) (Responded (status_response 200)) False) (get_request ''/x'')
      = (Inr (status_response 200), [Sent [], Waited 2130, Sent []])
    \<and> (2130 :: int) \<le> RETRY_AFTER_MAX_MS"
proof -
  have run: "fetchWithTimeout plain_platform (answers (Responded (status_response 503)) (Responded (status_response 200)) False) (get_request ''/x'')
      = (Inr (status_response 200), [Sent [], Waited 2130, Sent []])" by code_simp
  have "0 \<le> dice (answers (Responded (status_response 503)) (Responded (status_response 200)) False)"
    "dice (answers (Responded (status_response 503)) (Responded (status_response 200)) False) < 1" by (simp_all add: answers_def)
  from fetch_retries_once_and_safely [OF this run] have "(2130 :: int) \<le> RETRY_AFTER_MAX_MS" by auto
  with run show ?thesis by (rule conjI)
qed

lemma fetch_returns_the_last_outcome_witness:
  "fst (fetchWithTimeout plain_platform (answers (Responded (status_response 503)) Abort_Error False) (get_request ''/x'')) = Inl Timed_Out"
proof -
  let ?w = "answers (Responded (status_response 503)) Abort_Error False"
  let ?f = "fetchWithTimeout plain_platform ?w (get_request ''/x'')"
  have two: "sent_count (snd ?f) = 2" by code_simp
  have last: "attempt ?w (2 - 1) = Abort_Error" by (simp add: answers_def)
  have "buildHeaders plain_platform (cookies ?w n) (request_method (get_request ''/x'')) (get_request ''/x'') = Inr []" for n
  proof -
    have "request_method (get_request ''/x'') = ''GET''" by code_simp
    then show ?thesis by (simp add: buildHeaders_def SAFE_METHODS_def get_request_def mfrom_def)
  qed
  then have "\<forall>n. \<exists>h. buildHeaders plain_platform (cookies ?w n) (request_method (get_request ''/x'')) (get_request ''/x'') = Inr h" by blast
  from fetch_returns_the_last_outcome [OF this prod.collapse [symmetric]] show ?thesis
    by (simp only: two last outcome.case)
qed

lemma concurrent_refreshes_share_one_request_witness:
  "rf_posts (run rf_step [Join 1, Join 2, Answer True, Join 3, Clear] rf_initial) \<le> 2
   \<and> map (refresh_answer (run rf_step [Join 1, Join 2, Answer True, Join 3, Clear] rf_initial))
       (rf_waiters (run rf_step [Join 1, Join 2, Answer True, Join 3, Clear] rf_initial)) = [Some True, Some True, Some True]"
  using concurrent_refreshes_share_one_request [OF refl, of "[Join 1, Join 2, Answer True, Join 3, Clear]" 0]
  by (simp add: is_answer_def rf_initial_def tryRefresh_def refresh_answer_def)

end
