(* ===== verification/Auth_Session.thy ===== *)
theory Auth_Session
  imports Js_String Step_System
begin

text \<open>
  The session of the signed-in user (\<^verbatim>\<open>store/auth.ts\<close>): the state machine of the store and the
  permission check. The calls of the auth service are asynchronous: an action runs up to its
  \<^verbatim>\<open>await\<close>, leaves a continuation in \<open>pending\<close>, and a \<open>Resume\<close> event runs the continuation with the
  answer of the server, in whatever order the answers come.
\<close>

section \<open>Permissions\<close>

record claims =
  cl_sid :: string
  cl_global :: "string list"
  cl_ws :: "(ident, string list) jsmap"

definition EMPTY_CLAIMS :: claims where
  "EMPTY_CLAIMS = \<lparr>cl_sid = '''', cl_global = [], cl_ws = []\<rparr>"

text \<open>The test of one granted permission in the loop: \<open>slice(0, -2)\<close> drops the \<^verbatim>\<open>:*\<close>.\<close>

definition wildcard_covers :: "string \<Rightarrow> string \<Rightarrow> bool" where
  "wildcard_covers granted permission \<longleftrightarrow>
     is_suffix '':*'' granted \<and> is_prefix (take (length granted - 2) granted @ '':'') permission"

definition checkPermission :: "claims \<Rightarrow> string \<Rightarrow> ident option \<Rightarrow> bool" where
  "checkPermission c permission workspaceId =
     (if ''system:admin'' \<in> set (cl_global c) then True
      else if \<not> truthy workspaceId then permission \<in> set (cl_global c)
      else (case mget (cl_ws c) (the workspaceId) of
              None \<Rightarrow> False
            | Some bucket \<Rightarrow>
                permission \<in> set bucket \<or> list_ex (\<lambda>g. wildcard_covers g permission) bucket))"

section \<open>The store\<close>

datatype auth_status = Idle | Loading | Authenticated | Unauthenticated

record auth_state =
  au_status :: auth_status
  au_isAuthenticated :: bool
  au_user :: "ident option"
  au_permissions :: claims
  au_error :: "string option"
  au_isLoading :: bool

definition initial_auth :: auth_state where
  "initial_auth = \<lparr>au_status = Idle, au_isAuthenticated = False, au_user = None, au_permissions = EMPTY_CLAIMS,
     au_error = None, au_isLoading = False\<rparr>"

definition unauthenticated :: "auth_state \<Rightarrow> auth_state" where
  "unauthenticated s = s\<lparr>au_status := Unauthenticated, au_isAuthenticated := False, au_user := None, au_permissions := EMPTY_CLAIMS\<rparr>"

definition authenticated :: "ident \<Rightarrow> auth_state \<Rightarrow> auth_state" where
  "authenticated u s = s\<lparr>au_status := Authenticated, au_isAuthenticated := True, au_user := Some u\<rparr>"

text \<open>The continuations, one per \<^verbatim>\<open>await\<close>.\<close>

datatype continuation = After_Me | After_Login | After_Signup | After_Logout | After_Permissions

text \<open>The answer of a call: the error message (absent when what was thrown is no \<^verbatim>\<open>Error\<close>), or the payload.\<close>

datatype answer = Refused "string option" | User ident | Claims claims | Done

record auth_world =
  aw_store :: auth_state
  aw_pending :: "continuation list"

definition bootstrap :: "auth_world \<Rightarrow> auth_world" where
  "bootstrap w =
     (let current = au_status (aw_store w)
      in if current = Loading \<or> current = Authenticated then w
         else \<lparr>aw_store = (aw_store w)\<lparr>au_status := Loading\<rparr>, aw_pending = aw_pending w @ [After_Me]\<rparr>)"

definition login :: "auth_world \<Rightarrow> auth_world" where
  "login w = \<lparr>aw_store = (aw_store w)\<lparr>au_error := None, au_isLoading := True\<rparr>, aw_pending = aw_pending w @ [After_Login]\<rparr>"

definition signup :: "auth_world \<Rightarrow> auth_world" where
  "signup w = \<lparr>aw_store = (aw_store w)\<lparr>au_error := None, au_isLoading := True\<rparr>, aw_pending = aw_pending w @ [After_Signup]\<rparr>"

definition logout :: "auth_world \<Rightarrow> auth_world" where
  "logout w = w\<lparr>aw_pending := aw_pending w @ [After_Logout]\<rparr>"

definition handleSessionLost :: "auth_state \<Rightarrow> auth_state" where
  "handleSessionLost s = (unauthenticated s)\<lparr>au_error := None\<rparr>"

definition clearError :: "auth_state \<Rightarrow> auth_state" where
  "clearError s = s\<lparr>au_error := None\<rparr>"

definition hydratePermissions :: "answer \<Rightarrow> auth_state \<Rightarrow> auth_state" where
  "hydratePermissions a s = s\<lparr>au_permissions := (case a of Claims c \<Rightarrow> c | _ \<Rightarrow> EMPTY_CLAIMS)\<rparr>"

text \<open>The store after a continuation, and the continuation it leaves in turn.\<close>

fun continue_with :: "continuation \<Rightarrow> answer \<Rightarrow> auth_state \<Rightarrow> auth_state \<times> continuation list" where
  "continue_with After_Me a s =
     (case a of
        User u \<Rightarrow> ((authenticated u s)\<lparr>au_error := None\<rparr>, [After_Permissions])
      | _ \<Rightarrow> ((unauthenticated s)\<lparr>au_error := None\<rparr>, []))"
| "continue_with After_Login a s =
     (case a of
        User u \<Rightarrow> ((authenticated u s)\<lparr>au_error := None, au_isLoading := False\<rparr>, [After_Permissions])
      | Refused msg \<Rightarrow> ((unauthenticated s)\<lparr>au_error := Some (nullish msg ''Login failed''), au_isLoading := False\<rparr>, [])
      | _ \<Rightarrow> ((unauthenticated s)\<lparr>au_error := Some ''Login failed'', au_isLoading := False\<rparr>, []))"
| "continue_with After_Signup a s =
     (case a of
        Refused msg \<Rightarrow> (s\<lparr>au_error := Some (nullish msg ''Signup failed''), au_isLoading := False\<rparr>, [])
      | _ \<Rightarrow> (s\<lparr>au_isLoading := False\<rparr>, []))"
| "continue_with After_Logout a s = ((unauthenticated s)\<lparr>au_error := None, au_isLoading := False\<rparr>, [])"
| "continue_with After_Permissions a s = (hydratePermissions a s, [])"

definition resume :: "nat \<Rightarrow> answer \<Rightarrow> auth_world \<Rightarrow> auth_world" where
  "resume k a w =
     (if k < length (aw_pending w)
      then (let (s, more) = continue_with (aw_pending w ! k) a (aw_store w)
            in \<lparr>aw_store = s, aw_pending = take k (aw_pending w) @ drop (Suc k) (aw_pending w) @ more\<rparr>)
      else w)"

datatype auth_event =
    Bootstrap
  | Login
  | Signup
  | Logout
  | Resume nat answer
  | Session_Gone
  | Set_Permissions claims
  | Clear_Error

fun auth_step :: "auth_event \<Rightarrow> auth_world \<Rightarrow> auth_world" where
  "auth_step Bootstrap w = bootstrap w"
| "auth_step Login w = login w"
| "auth_step Signup w = signup w"
| "auth_step Logout w = logout w"
| "auth_step (Resume k a) w = resume k a w"
| "auth_step Session_Gone w = w\<lparr>aw_store := handleSessionLost (aw_store w)\<rparr>"
| "auth_step (Set_Permissions c) w = w\<lparr>aw_store := (aw_store w)\<lparr>au_permissions := c\<rparr>\<rparr>"
| "auth_step Clear_Error w = w\<lparr>aw_store := clearError (aw_store w)\<rparr>"

definition can :: "auth_state \<Rightarrow> string \<Rightarrow> ident option \<Rightarrow> bool" where
  "can s permission workspaceId = checkPermission (au_permissions s) permission workspaceId"

definition canAny :: "auth_state \<Rightarrow> string list \<Rightarrow> ident option \<Rightarrow> bool" where
  "canAny s permissions workspaceId = list_ex (\<lambda>p. checkPermission (au_permissions s) p workspaceId) permissions"

definition canAll :: "auth_state \<Rightarrow> string list \<Rightarrow> ident option \<Rightarrow> bool" where
  "canAll s permissions workspaceId = list_all (\<lambda>p. checkPermission (au_permissions s) p workspaceId) permissions"

definition auth_start :: auth_world where
  "auth_start = \<lparr>aw_store = initial_auth, aw_pending = []\<rparr>"

section \<open>The flags of the session agree\<close>

text \<open>
  The type of the store: the three views of "signed in" are one, and neither the loading screen nor
  the spinner is shown without a call that will end it.
\<close>

definition auth_typed :: "auth_world \<Rightarrow> bool" where
  "auth_typed w \<longleftrightarrow>
     (let s = aw_store w
      in (au_isAuthenticated s \<longleftrightarrow> au_status s = Authenticated)
         \<and> (au_user s \<noteq> None \<longleftrightarrow> au_status s = Authenticated)
         \<and> (au_status s = Loading \<longrightarrow> After_Me \<in> set (aw_pending w))
         \<and> (au_isLoading s \<longrightarrow> After_Login \<in> set (aw_pending w) \<or> After_Signup \<in> set (aw_pending w)))"

lemma store_updates [simp]:
  "au_status (unauthenticated s) = Unauthenticated" "\<not> au_isAuthenticated (unauthenticated s)"
  "au_user (unauthenticated s) = None" "au_permissions (unauthenticated s) = EMPTY_CLAIMS"
  "au_isLoading (unauthenticated s) = au_isLoading s"
  "au_status (authenticated u s) = Authenticated" "au_isAuthenticated (authenticated u s)"
  "au_user (authenticated u s) = Some u" "au_permissions (authenticated u s) = au_permissions s"
  "au_isLoading (authenticated u s) = au_isLoading s"
  by (simp_all add: unauthenticated_def authenticated_def)

lemma resumed_pending:
  assumes "k < length cs" and "c \<in> set cs" and "c \<noteq> cs ! k"
  shows "c \<in> set (take k cs @ drop (Suc k) cs @ new)"
proof -
  have "set cs = set (take k cs @ cs ! k # drop (Suc k) cs)" using assms(1) by (simp add: id_take_nth_drop [symmetric])
  with assms show ?thesis by auto
qed

lemma resume_typed:
  assumes "auth_typed w"
  shows "auth_typed (resume k a w)"
proof (cases "k < length (aw_pending w)")
  case True
  note keep = resumed_pending [OF True]
  show ?thesis
    using assms True keep [of After_Me] keep [of After_Login] keep [of After_Signup]
    by (cases "aw_pending w ! k"; cases a)
       (auto simp: auth_typed_def resume_def Let_def hydratePermissions_def)
qed (simp add: resume_def assms)

lemma auth_step_typed: "auth_typed w \<Longrightarrow> auth_typed (auth_step e w)"
proof (cases e)
  case (Resume k a)
  then show "auth_typed w \<Longrightarrow> ?thesis" by (simp add: resume_typed)
qed (auto simp: auth_typed_def bootstrap_def login_def signup_def logout_def handleSessionLost_def clearError_def Let_def)

interpretation auth: step_system auth_step auth_typed "\<lambda>e. True"
  by unfold_locales (rule auth_step_typed)

text \<open>
  C39: whatever the order of user actions and server answers, \<^verbatim>\<open>isAuthenticated\<close>, the status and the
  presence of a user agree; the loading status always has the session check in flight, and the
  spinner always has a log-in or sign-up in flight, so neither can be shown for ever by the store.
\<close>

theorem session_flags_agree:
  fixes es :: "auth_event list"
  defines "w \<equiv> run auth_step es auth_start"
  shows "(au_isAuthenticated (aw_store w) \<longleftrightarrow> au_status (aw_store w) = Authenticated)
    \<and> (au_user (aw_store w) \<noteq> None \<longleftrightarrow> au_status (aw_store w) = Authenticated)
    \<and> (au_status (aw_store w) = Loading \<longrightarrow> After_Me \<in> set (aw_pending w))
    \<and> (au_isLoading (aw_store w) \<longrightarrow> After_Login \<in> set (aw_pending w) \<or> After_Signup \<in> set (aw_pending w))"
proof -
  have "auth_typed auth_start" by (simp add: auth_typed_def auth_start_def initial_auth_def)
  then have "auth_typed w" unfolding w_def by (rule auth.run_inv) simp
  then show ?thesis by (simp add: auth_typed_def Let_def)
qed

section \<open>What a permission check grants\<close>

lemma wildcard_covers_iff: "wildcard_covers g p \<longleftrightarrow> (\<exists>scope rest. g = scope @ '':*'' \<and> p = scope @ '':'' @ rest)"
proof -
  have "take (length g - 2) g = scope" if "g = scope @ '':*''" for scope using that by simp
  then show ?thesis unfolding wildcard_covers_def is_suffix_iff is_prefix_iff by auto
qed

text \<open>
  the check grants a permission exactly to a system administrator, to the holder of a global
  permission when no workspace is meant, and in a workspace to the holder of that permission there
  or of a wildcard over a scope it lies in; so granting more claims never takes a permission away.
\<close>

theorem permission_check_meaning:
  "checkPermission c p ws \<longleftrightarrow>
     ''system:admin'' \<in> set (cl_global c)
     \<or> (\<not> truthy ws \<and> p \<in> set (cl_global c))
     \<or> (truthy ws \<and> (\<exists>bucket granted. mget (cl_ws c) (the ws) = Some bucket \<and> granted \<in> set bucket
          \<and> (granted = p \<or> (\<exists>scope rest. granted = scope @ '':*'' \<and> p = scope @ '':'' @ rest))))"
  unfolding checkPermission_def list_ex_iff wildcard_covers_iff by (auto split: option.splits)

section \<open>Without a session there are no permissions\<close>

text \<open>A complete use of the store: an action with the answers of all its calls, nothing else in between.\<close>

datatype auth_op = Boot answer answer | Log_In answer answer | Sign_Up answer | Log_Out answer | Lost | Dismiss

fun op_events :: "auth_op \<Rightarrow> auth_event list" where
  "op_events (Boot a c) = [Bootstrap, Resume 0 a, Resume 0 c]"
| "op_events (Log_In a c) = [Login, Resume 0 a, Resume 0 c]"
| "op_events (Sign_Up a) = [Signup, Resume 0 a]"
| "op_events (Log_Out a) = [Logout, Resume 0 a]"
| "op_events Lost = [Session_Gone]"
| "op_events Dismiss = [Clear_Error]"

definition quiet :: "auth_world \<Rightarrow> bool" where
  "quiet w \<longleftrightarrow> aw_pending w = [] \<and> au_status (aw_store w) \<noteq> Loading
     \<and> (au_status (aw_store w) \<noteq> Authenticated \<longrightarrow> au_permissions (aw_store w) = EMPTY_CLAIMS)"

lemma op_quiet: "quiet w \<Longrightarrow> quiet (run auth_step (op_events oper) w)"
  by (cases oper; cases "case oper of Boot a c \<Rightarrow> a | Log_In a c \<Rightarrow> a | Sign_Up a \<Rightarrow> a | Log_Out a \<Rightarrow> a | _ \<Rightarrow> Done")
     (auto simp: quiet_def bootstrap_def login_def signup_def logout_def resume_def hydratePermissions_def
        handleSessionLost_def clearError_def Let_def)

interpretation session: step_system "\<lambda>oper. run auth_step (op_events oper)" quiet "\<lambda>oper. True"
  by unfold_locales (rule op_quiet)

text \<open>
  as long as the actions do not overlap, a user without a session has no permission at all,
  whatever the servers answered before.
\<close>

theorem no_permission_without_session:
  assumes "w = run (\<lambda>oper. run auth_step (op_events oper)) ops auth_start" and "\<not> au_isAuthenticated (aw_store w)"
  shows "\<not> can (aw_store w) p ws \<and> \<not> canAny (aw_store w) ps ws \<and> (canAll (aw_store w) ps ws \<longleftrightarrow> ps = [])"
proof -
  have "quiet w" unfolding assms(1)
    by (rule session.run_inv) (simp_all add: quiet_def auth_start_def initial_auth_def)
  moreover have "au_status (aw_store w) \<noteq> Authenticated"
  proof -
    have "auth_typed auth_start" by (simp add: auth_typed_def auth_start_def initial_auth_def)
    then have "auth_typed (run (\<lambda>oper. run auth_step (op_events oper)) ops auth_start)"
      by (induction ops rule: rev_induct) (simp_all add: run_append auth.run_inv)
    with assms show ?thesis by (simp add: auth_typed_def Let_def)
  qed
  ultimately have "checkPermission (au_permissions (aw_store w)) q ws = False" for q
    by (simp add: quiet_def checkPermission_def EMPTY_CLAIMS_def)
  then show ?thesis by (cases ps) (simp_all add: can_def canAny_def canAll_def list_ex_iff)
qed

section \<open>Overlapping actions\<close>

definition admin_claims :: claims where
  "admin_claims = \<lparr>cl_sid = ''s'', cl_global = [''system:admin''], cl_ws = [(''w1'', [''workspace:view:*''])]\<rparr>"

text \<open>The permissions of a log-in that arrive after the log-out stay in the store of nobody.\<close>

lemma claims_outlive_session:
  "let s = aw_store (run auth_step [Login, Resume 0 (User ''u''), Logout, Resume 1 Done, Resume 0 (Claims admin_claims)] auth_start)
   in \<not> au_isAuthenticated s \<and> can s ''workspaces:delete'' None"
  by code_simp

text \<open>A session check that was answered late with a refusal ends the session of a log-in made meanwhile.\<close>

lemma late_check_ends_new_session:
  "au_status (aw_store (run auth_step [Bootstrap, Login, Resume 1 (User ''u''), Resume 0 (Refused None)] auth_start)) = Unauthenticated"
  by code_simp

section \<open>Witnesses\<close>

lemma session_flags_agree_witness:
  "(au_user (aw_store (run auth_step [Bootstrap, Resume 0 (User ''u'')] auth_start)) \<noteq> None)
    = (au_status (aw_store (run auth_step [Bootstrap, Resume 0 (User ''u'')] auth_start)) = Authenticated)"
  using session_flags_agree [of "[Bootstrap, Resume 0 (User ''u'')]"] by blast

lemma no_permission_without_session_witness:
  "\<not> can (aw_store (run (\<lambda>oper. run auth_step (op_events oper))
      [Log_In (User ''u'') (Claims admin_claims), Log_Out Done] auth_start)) ''workspaces:create'' None"
proof -
  have "\<not> au_isAuthenticated (aw_store (run (\<lambda>oper. run auth_step (op_events oper))
      [Log_In (User ''u'') (Claims admin_claims), Log_Out Done] auth_start))" by code_simp
  from no_permission_without_session [OF refl this] show ?thesis by blast
qed

end
