(* ===== verification/Aggregated_Lineage.thy ===== *)
theory Aggregated_Lineage
  imports Graph_Model Lineage_Cache Step_System "HOL-Library.Multiset"
begin

text \<open>
  Progressive disclosure of aggregated edges (\<^verbatim>\<open>hooks/useAggregatedLineage.ts\<close>). The state of the hook
  and the module's cache are one record. An asynchronous operation runs up to its request, which it
  leaves in \<open>ah_pending\<close>; the rest of it is a step of its own, given the answer of the graph service.
  A chunk's failure carries the message of what was thrown, if it was an \<^verbatim>\<open>Error\<close>.
\<close>

section \<open>Data\<close>

record agg_info =
  ai_id :: ident
  ai_sourceUrn :: urn
  ai_targetUrn :: urn
  ai_edgeCount :: nat
  ai_edgeTypes :: "string list"
  ai_confidence :: rat
  ai_sourceEdgeIds :: "ident list"

text \<open>\<^verbatim>\<open>lastMaterializedAt\<close> may be absent, null or a time; an absent flag reads as false.\<close>

record agg_result =
  ar_edges :: "agg_info list"
  ar_totalSourceEdges :: nat
  ar_truncated :: bool
  ar_lastMaterializedAt :: "string option option"
  ar_triggered :: bool

datatype expansion = Collapsed | Expanded | Loading

record agg_state =
  as_aggregated :: agg_info
  as_state :: expansion
  as_detailedEdges :: "graph_edge list"

record agg_cache_entry =
  ce_result :: agg_result
  ce_timestamp :: int
  ce_sourceUrns :: "urn list"
  ce_targetUrns :: "urn list option"
  ce_granularity :: "string option"

type_synonym agg_cache = "(string, agg_cache_entry) jsmap"

datatype agg_pending =
    Fetching string "urn list" "urn list option" "string option"
  | Expanding ident

text \<open>The sources of a chunk, the targets and the granularity.\<close>

type_synonym agg_request = "urn list \<times> urn list option \<times> string option"

text \<open>\<open>ah_requests\<close> are the requests sent to the provider so far.\<close>

record agg_hook =
  ah_edges :: "(ident, agg_state) jsmap"
  ah_isLoading :: bool
  ah_error :: "string option"
  ah_granularity :: "string option"
  ah_truncated :: bool
  ah_lastMaterializedAt :: "string option"
  ah_triggered :: bool
  ah_currentSources :: "urn list"
  ah_currentTargets :: "urn list option"
  ah_cache :: agg_cache
  ah_pending :: "agg_pending list"
  ah_requests :: "agg_request list"

definition CACHE_MAX_ENTRIES :: nat where
  "CACHE_MAX_ENTRIES = 200"

definition AGGREGATED_FETCH_BATCH_SIZE :: nat where
  "AGGREGATED_FETCH_BATCH_SIZE = 500"

definition new_agg_hook :: "string option \<Rightarrow> agg_cache \<Rightarrow> agg_hook" where
  "new_agg_hook initialGranularity cache =
     \<lparr>ah_edges = [], ah_isLoading = False, ah_error = None, ah_granularity = initialGranularity, ah_truncated = False,
      ah_lastMaterializedAt = None, ah_triggered = False, ah_currentSources = [], ah_currentTargets = None,
      ah_cache = cache, ah_pending = [], ah_requests = []\<rparr>"

section \<open>The cache of results\<close>

definition getCacheKey :: "urn list \<Rightarrow> urn list option \<Rightarrow> string option \<Rightarrow> string" where
  "getCacheKey sourceUrns targetUrns granularity =
     nullish granularity ''null'' @ '':'' @ fnv1a64 (concat (sort sourceUrns)) @ '':''
       @ (case targetUrns of None \<Rightarrow> ''0'' | Some ts \<Rightarrow> fnv1a64 (concat (sort ts)))"

definition cache_lookup :: "int \<Rightarrow> int \<Rightarrow> string \<Rightarrow> agg_cache \<Rightarrow> agg_result option" where
  "cache_lookup cacheTtl now key c =
     (case mget c key of
        None \<Rightarrow> None
      | Some e \<Rightarrow> if now - ce_timestamp e < cacheTtl then Some (ce_result e) else None)"

definition cache_store :: "string \<Rightarrow> agg_cache_entry \<Rightarrow> agg_cache \<Rightarrow> agg_cache" where
  "cache_store key e c = mset_key key e (if CACHE_MAX_ENTRIES \<le> length c then evict_oldest c else c)"

section \<open>Fetching\<close>

text \<open>The updater of \<^verbatim>\<open>setAggregatedEdges\<close>: what is known of an edge by its id is carried over.\<close>

definition carried :: "(ident, agg_state) jsmap \<Rightarrow> agg_info \<Rightarrow> agg_state" where
  "carried prev agg =
     \<lparr>as_aggregated = agg,
      as_state = (case mget prev (ai_id agg) of None \<Rightarrow> Collapsed | Some e \<Rightarrow> as_state e),
      as_detailedEdges = (case mget prev (ai_id agg) of None \<Rightarrow> [] | Some e \<Rightarrow> as_detailedEdges e)\<rparr>"

definition place_edge :: "(ident, agg_state) jsmap \<Rightarrow> agg_info \<Rightarrow> (ident, agg_state) jsmap \<Rightarrow> (ident, agg_state) jsmap" where
  "place_edge prev agg edgeMap = mset_key (ai_id agg) (carried prev agg) edgeMap"

definition apply_result :: "agg_result \<Rightarrow> agg_hook \<Rightarrow> agg_hook" where
  "apply_result r s =
     s\<lparr>ah_edges := fold (place_edge (ah_edges s)) (ar_edges r) [],
       ah_truncated := ar_truncated r,
       ah_lastMaterializedAt := nullish (ar_lastMaterializedAt r) None,
       ah_triggered := ar_triggered r\<rparr>"

function slices :: "nat \<Rightarrow> 'a list \<Rightarrow> 'a list list" where
  "slices n xs = (if xs = [] \<or> n = 0 then [] else take n xs # slices n (drop n xs))"
  by pat_completeness auto
termination by (relation "measure (\<lambda>(n, xs). length xs)") auto

declare slices.simps [simp del]

definition fetch_chunks :: "urn list \<Rightarrow> urn list list" where
  "fetch_chunks sourceUrns =
     (if AGGREGATED_FETCH_BATCH_SIZE < length sourceUrns then slices AGGREGATED_FETCH_BATCH_SIZE sourceUrns else [sourceUrns])"

text \<open>The oldest materialisation wins; a time in a later chunk replaces an absent or null one.\<close>

definition merge_time :: "string option option \<Rightarrow> string option option \<Rightarrow> string option option" where
  "merge_time new merged =
     (case new of
        None \<Rightarrow> merged
      | Some t \<Rightarrow>
          (case merged of
             None \<Rightarrow> Some t
           | Some None \<Rightarrow> Some t
           | Some (Some m) \<Rightarrow> if truthy t \<and> the t < m then Some t else merged))"

definition merge_chunk :: "agg_result \<Rightarrow> agg_result \<Rightarrow> agg_result" where
  "merge_chunk r acc =
     \<lparr>ar_edges = ar_edges acc @ ar_edges r, ar_totalSourceEdges = ar_totalSourceEdges acc + ar_totalSourceEdges r,
      ar_truncated = (ar_truncated acc \<or> ar_truncated r),
      ar_lastMaterializedAt = merge_time (ar_lastMaterializedAt r) (ar_lastMaterializedAt acc),
      ar_triggered = (ar_triggered acc \<or> ar_triggered r)\<rparr>"

text \<open>\<^verbatim>\<open>mergedEdgesById\<close> of all edges in order: later ones overwrite, the first position is kept.\<close>

definition merge_results :: "agg_result list \<Rightarrow> agg_result" where
  "merge_results rs =
     (let m = fold merge_chunk rs
                \<lparr>ar_edges = [], ar_totalSourceEdges = 0, ar_truncated = False, ar_lastMaterializedAt = None, ar_triggered = False\<rparr>
      in m\<lparr>ar_edges := map snd (mfrom (map (\<lambda>e. (ai_id e, e)) (ar_edges m))),
           ar_lastMaterializedAt := Some (nullish (ar_lastMaterializedAt m) None)\<rparr>)"

definition fulfilled :: "(string option + agg_result) list \<Rightarrow> agg_result list" where
  "fulfilled settled = concat (map (\<lambda>s. case s of Inl e \<Rightarrow> [] | Inr r \<Rightarrow> [r]) settled)"

definition rejected :: "(string option + agg_result) list \<Rightarrow> string option list" where
  "rejected settled = concat (map (\<lambda>s. case s of Inl e \<Rightarrow> [e] | Inr r \<Rightarrow> []) settled)"

text \<open>
  \<open>granularity\<close> is the one of the closure that was called, not the current one. All chunks are asked for, a few
  at a time (\<^verbatim>\<open>mapWithConcurrency\<close>).
\<close>

definition fetchAggregated ::
  "int \<Rightarrow> int \<Rightarrow> urn list \<Rightarrow> urn list option \<Rightarrow> string option \<Rightarrow> agg_hook \<Rightarrow> agg_hook" where
  "fetchAggregated cacheTtl now sourceUrns targetUrns granularity s =
     (if sourceUrns = [] then s
      else (let key = getCacheKey sourceUrns targetUrns granularity
            in case cache_lookup cacheTtl now key (ah_cache s) of
                 Some r \<Rightarrow> apply_result r s
               | None \<Rightarrow> s\<lparr>ah_isLoading := True, ah_error := None,
                           ah_pending := ah_pending s @ [Fetching key sourceUrns targetUrns granularity],
                           ah_requests := ah_requests s @ map (\<lambda>chunk. (chunk, targetUrns, granularity)) (fetch_chunks sourceUrns)\<rparr>))"

text \<open>The rest of the fetch, with the outcomes of the chunks in chunk order.\<close>

definition finish_fetch ::
  "int \<Rightarrow> (string option + agg_result) list \<Rightarrow> string \<Rightarrow> urn list \<Rightarrow> urn list option \<Rightarrow> string option \<Rightarrow> agg_hook \<Rightarrow> agg_hook" where
  "finish_fetch now settled key sourceUrns targetUrns granularity s =
     (let r = merge_results (fulfilled settled);
          s1 = apply_result r (s\<lparr>ah_cache := cache_store key
                 \<lparr>ce_result = r, ce_timestamp = now, ce_sourceUrns = sourceUrns, ce_targetUrns = targetUrns,
                  ce_granularity = granularity\<rparr> (ah_cache s)\<rparr>);
          s2 = (case rejected settled of
                  [] \<Rightarrow> s1
                | e # _ \<Rightarrow> s1\<lparr>ah_error := Some (nullish e ''Failed to fetch some aggregated edges'')\<rparr>)
      in s2\<lparr>ah_currentSources := sourceUrns, ah_currentTargets := targetUrns, ah_isLoading := False\<rparr>)"

section \<open>Expanding and collapsing\<close>

definition set_expansion :: "ident \<Rightarrow> expansion \<Rightarrow> agg_hook \<Rightarrow> agg_hook" where
  "set_expansion eid x s =
     (case mget (ah_edges s) eid of
        None \<Rightarrow> s
      | Some current \<Rightarrow> s\<lparr>ah_edges := mset_key eid (current\<lparr>as_state := x\<rparr>) (ah_edges s)\<rparr>)"

definition expandEdge :: "ident \<Rightarrow> agg_hook \<Rightarrow> agg_hook" where
  "expandEdge eid s =
     (case mget (ah_edges s) eid of
        None \<Rightarrow> s
      | Some e \<Rightarrow>
          if as_state e = Expanded \<or> as_state e = Loading then s
          else (set_expansion eid Loading s)\<lparr>ah_pending := ah_pending s @ [Expanding eid]\<rparr>)"

definition finish_expand :: "ident \<Rightarrow> string option + graph_edge list \<Rightarrow> agg_hook \<Rightarrow> agg_hook" where
  "finish_expand eid answer s =
     (case answer of
        Inr es \<Rightarrow>
          (case mget (ah_edges s) eid of
             None \<Rightarrow> s
           | Some current \<Rightarrow>
               s\<lparr>ah_edges := mset_key eid (current\<lparr>as_state := Expanded, as_detailedEdges := es\<rparr>) (ah_edges s)\<rparr>)
      | Inl msg \<Rightarrow> (set_expansion eid Collapsed s)\<lparr>ah_error := Some (nullish msg ''Failed to expand edge'')\<rparr>)"

definition collapseEdge :: "ident \<Rightarrow> agg_hook \<Rightarrow> agg_hook" where
  "collapseEdge eid s = set_expansion eid Collapsed s"

definition toggleEdge :: "ident \<Rightarrow> agg_hook \<Rightarrow> agg_hook" where
  "toggleEdge eid s =
     (case mget (ah_edges s) eid of
        None \<Rightarrow> s
      | Some e \<Rightarrow> (case as_state e of Expanded \<Rightarrow> collapseEdge eid s | Collapsed \<Rightarrow> expandEdge eid s | Loading \<Rightarrow> s))"

definition isExpanded :: "ident \<Rightarrow> agg_hook \<Rightarrow> bool" where
  "isExpanded eid s \<longleftrightarrow> map_option as_state (mget (ah_edges s) eid) = Some Expanded"

definition visible_of :: "agg_state \<Rightarrow> (graph_edge + agg_info) list" where
  "visible_of e =
     (if as_state e = Expanded \<and> as_detailedEdges e \<noteq> [] then map Inl (as_detailedEdges e) else [Inr (as_aggregated e)])"

definition getVisibleEdges :: "agg_hook \<Rightarrow> (graph_edge + agg_info) list" where
  "getVisibleEdges s = concat (map (\<lambda>(k, e). visible_of e) (ah_edges s))"

definition getEdgeCount :: "ident \<Rightarrow> agg_hook \<Rightarrow> nat" where
  "getEdgeCount eid s = nullish (map_option (ai_edgeCount \<circ> as_aggregated) (mget (ah_edges s) eid)) 0"

definition getEdgeTypes :: "ident \<Rightarrow> agg_hook \<Rightarrow> string list" where
  "getEdgeTypes eid s = nullish (map_option (ai_edgeTypes \<circ> as_aggregated) (mget (ah_edges s) eid)) []"

section \<open>Granularity, reset and purge\<close>

definition handleSetGranularity :: "int \<Rightarrow> int \<Rightarrow> string option \<Rightarrow> agg_hook \<Rightarrow> agg_hook" where
  "handleSetGranularity cacheTtl now newGranularity s =
     (if newGranularity = ah_granularity s then s
      else (let s1 = s\<lparr>ah_granularity := newGranularity\<rparr>
            in if ah_currentSources s \<noteq> []
               then fetchAggregated cacheTtl now (ah_currentSources s) (ah_currentTargets s) (ah_granularity s) (s1\<lparr>ah_cache := []\<rparr>)
               else s1))"

definition clearCache :: "agg_hook \<Rightarrow> agg_hook" where
  "clearCache s =
     s\<lparr>ah_cache := [], ah_edges := [], ah_currentSources := [], ah_currentTargets := None, ah_truncated := False,
       ah_lastMaterializedAt := None, ah_triggered := False\<rparr>"

definition incident :: "urn set \<Rightarrow> agg_state \<Rightarrow> bool" where
  "incident urns e \<longleftrightarrow> ai_sourceUrn (as_aggregated e) \<in> urns \<or> ai_targetUrn (as_aggregated e) \<in> urns"

definition purgeEdgesIncidentToUrns :: "urn set \<Rightarrow> agg_hook \<Rightarrow> agg_hook" where
  "purgeEdgesIncidentToUrns urns s =
     s\<lparr>ah_edges := fold (\<lambda>(k, e) m. if incident urns e then mdel k m else m) (ah_edges s) (ah_edges s)\<rparr>"

section \<open>The hook over time\<close>

datatype agg_event =
    Fetch int "urn list" "urn list option"
  | Fetched nat int "(string option + agg_result) list"
  | Expand ident
  | ExpandAnswer nat "string option + graph_edge list"
  | Collapse ident
  | Toggle ident
  | SetGranularity int "string option"
  | ClearCache
  | Purge "urn set"

definition drop_pending :: "nat \<Rightarrow> agg_hook \<Rightarrow> agg_hook" where
  "drop_pending k s = s\<lparr>ah_pending := take k (ah_pending s) @ drop (Suc k) (ah_pending s)\<rparr>"

fun agg_step :: "int \<Rightarrow> agg_event \<Rightarrow> agg_hook \<Rightarrow> agg_hook" where
  "agg_step ttl (Fetch now us ts) s = fetchAggregated ttl now us ts (ah_granularity s) s"
| "agg_step ttl (Fetched k now settled) s =
     (if k < length (ah_pending s) then
        (case ah_pending s ! k of
           Fetching key us ts g \<Rightarrow> finish_fetch now settled key us ts g (drop_pending k s)
         | Expanding eid \<Rightarrow> s)
      else s)"
| "agg_step ttl (Expand eid) s = expandEdge eid s"
| "agg_step ttl (ExpandAnswer k answer) s =
     (if k < length (ah_pending s) then
        (case ah_pending s ! k of
           Fetching key us ts g \<Rightarrow> s
         | Expanding eid \<Rightarrow> finish_expand eid answer (drop_pending k s))
      else s)"
| "agg_step ttl (Collapse eid) s = collapseEdge eid s"
| "agg_step ttl (Toggle eid) s = toggleEdge eid s"
| "agg_step ttl (SetGranularity now g) s = handleSetGranularity ttl now g s"
| "agg_step ttl ClearCache s = clearCache s"
| "agg_step ttl (Purge urns) s = purgeEdgesIncidentToUrns urns s"

section \<open>Chunks\<close>

lemma concat_slices: "0 < n \<Longrightarrow> concat (slices n xs) = xs"
  by (induction n xs rule: slices.induct) (subst slices.simps, simp)

lemma slices_bounds: "0 < n \<Longrightarrow> c \<in> set (slices n xs) \<Longrightarrow> c \<noteq> [] \<and> length c \<le> n"
proof (induction n xs rule: slices.induct)
  case (1 n xs)
  then show ?case by (subst (asm) slices.simps) (auto split: if_splits)
qed

lemma chunks_partition: "concat (fetch_chunks us) = us"
  by (simp add: fetch_chunks_def concat_slices AGGREGATED_FETCH_BATCH_SIZE_def)

lemma chunks_bounds: "us \<noteq> [] \<Longrightarrow> c \<in> set (fetch_chunks us) \<Longrightarrow> c \<noteq> [] \<and> length c \<le> AGGREGATED_FETCH_BATCH_SIZE"
  using slices_bounds [of AGGREGATED_FETCH_BATCH_SIZE c us]
  by (auto simp: fetch_chunks_def AGGREGATED_FETCH_BATCH_SIZE_def split: if_splits)

section \<open>Merging\<close>

abbreviation by_id :: "agg_info list \<Rightarrow> (ident \<times> agg_info) list" where
  "by_id as \<equiv> map (\<lambda>e. (ai_id e, e)) as"

lemma mget_place_edges:
  "mget (fold (place_edge prev) as m) k =
     (case mget (rev (by_id as)) k of None \<Rightarrow> mget m k | Some agg \<Rightarrow> Some (carried prev agg))"
proof -
  have "fold (place_edge prev) as m = fold (\<lambda>(k, v) m. mset_key k v m) (map (\<lambda>a. (ai_id a, carried prev a)) as) m"
    by (induction as arbitrary: m) (simp_all add: place_edge_def)
  moreover have "mget (rev (map (\<lambda>a. (ai_id a, carried prev a)) as)) k = map_option (carried prev) (mget (rev (by_id as)) k)"
  proof -
    have "mget (map (\<lambda>a. (ai_id a, carried prev a)) xs) k = map_option (carried prev) (mget (by_id xs) k)" for xs
      by (induction xs) auto
    then show ?thesis unfolding rev_map by blast
  qed
  ultimately show ?thesis by (simp add: mget_fold_mset_key split: option.splits)
qed

lemma place_edges_ok: "jsm_ok m \<Longrightarrow> jsm_ok (fold (place_edge prev) as m)"
  by (induction as arbitrary: m) (simp_all add: place_edge_def)

lemma by_id_key: "mget (rev (by_id as)) k = Some agg \<Longrightarrow> ai_id agg = k"
  by (auto dest!: mget_in_set)

lemma fold_merge_edges: "ar_edges (fold merge_chunk rs acc) = ar_edges acc @ concat (map ar_edges rs)"
  by (induction rs arbitrary: acc) (simp_all add: merge_chunk_def)

lemma merged_edges: "ar_edges (merge_results rs) = map snd (mfrom (by_id (concat (map ar_edges rs))))"
  by (simp add: merge_results_def Let_def fold_merge_edges)

lemma mfrom_named: "(k, e) \<in> set (mfrom (by_id as)) \<Longrightarrow> k = ai_id e"
proof -
  assume "(k, e) \<in> set (mfrom (by_id as))"
  then have "mget (mfrom (by_id as)) k = Some e" by (simp add: mget_iff_in_set)
  then show ?thesis by (auto simp: mget_mfrom dest!: by_id_key)
qed

text \<open>Merging by id first or placing every edge in turn gives the same map.\<close>

lemma by_id_merged: "mget (rev (by_id (map snd (mfrom (by_id as))))) k = mget (rev (by_id as)) k"
proof -
  have "by_id (map snd m) = m" if "\<forall>(k, e) \<in> set m. k = ai_id e" for m :: "(ident \<times> agg_info) list"
    using that by (induction m) auto
  then have "by_id (map snd (mfrom (by_id as))) = mfrom (by_id as)" using mfrom_named by blast
  moreover have "mget (rev (mfrom (by_id as))) k = mget (mfrom (by_id as)) k"
    using jsm_ok_mfrom [of "by_id as"] by (simp add: jsm_ok_def map_of_rev_distinct)
  ultimately show ?thesis by (simp add: mget_mfrom)
qed

lemma rejected_Nil: "rejected settled = [] \<longleftrightarrow> (\<forall>x \<in> set settled. \<exists>r. x = Inr r)"
  by (induction settled) (auto simp: rejected_def split: sum.splits)

lemma finish_fetch_simps [simp]:
  "ah_edges (finish_fetch now settled key us ts g s) = fold (place_edge (ah_edges s)) (ar_edges (merge_results (fulfilled settled))) []"
  "ah_pending (finish_fetch now settled key us ts g s) = ah_pending s"
  "ah_isLoading (finish_fetch now settled key us ts g s) = False"
  "ah_cache (finish_fetch now settled key us ts g s) = cache_store key
     \<lparr>ce_result = merge_results (fulfilled settled), ce_timestamp = now, ce_sourceUrns = us, ce_targetUrns = ts, ce_granularity = g\<rparr> (ah_cache s)"
  by (simp_all add: finish_fetch_def apply_result_def Let_def split: list.splits)

text \<open>
  C20: a fetch of sources without a fresh cached result clears the error, shows that it is loading and sends requests
  of at most 500 sources that together ask for each source once, in order. When its answer comes, whatever chunks
  failed, the canvas has exactly the edges some chunk returned, under their ids and as the last chunk gave them,
  with the expansion and the details a user had opened carried over, and loading is over. If nothing else has
  reported an error since the fetch began, an error is shown exactly when a chunk failed, the first one's; if
  something has, a fetch without failures leaves it.
\<close>

theorem partial_fetch_keeps_what_arrived:
  assumes "us \<noteq> []" and "cache_lookup ttl t (getCacheKey us ts g) (ah_cache s0) = None"
    and "s1 = fetchAggregated ttl t us ts g s0"
    and "k < length (ah_pending s)" and "ah_pending s ! k = Fetching (getCacheKey us ts g) us ts g"
    and "s' = agg_step ttl (Fetched k now settled) s"
  shows "ah_error s1 = None \<and> ah_isLoading s1
    \<and> ah_requests s1 = ah_requests s0 @ map (\<lambda>chunk. (chunk, ts, g)) (fetch_chunks us)
    \<and> concat (fetch_chunks us) = us
    \<and> (\<forall>c \<in> set (fetch_chunks us). c \<noteq> [] \<and> length c \<le> AGGREGATED_FETCH_BATCH_SIZE)
    \<and> mget (ah_edges s') i = map_option (carried (ah_edges s)) (mget (rev (by_id (concat (map ar_edges (fulfilled settled))))) i)
    \<and> ah_error s' = (if rejected settled = [] then ah_error s else Some (nullish (hd (rejected settled)) ''Failed to fetch some aggregated edges''))
    \<and> (ah_error s = ah_error s1 \<longrightarrow> (ah_error s' \<noteq> None \<longleftrightarrow> (\<exists>e. Inl e \<in> set settled)))
    \<and> \<not> ah_isLoading s'"
proof -
  let ?s = "drop_pending k s"
  have s': "s' = finish_fetch now settled (getCacheKey us ts g) us ts g ?s" using assms(4,5) by (simp add: assms(6))
  have same: "ah_edges ?s = ah_edges s" "ah_error ?s = ah_error s" by (simp_all add: drop_pending_def)
  have started: "ah_error s1 = None" "ah_isLoading s1"
    "ah_requests s1 = ah_requests s0 @ map (\<lambda>chunk. (chunk, ts, g)) (fetch_chunks us)"
    using assms(1,2) by (simp_all add: assms(3) fetchAggregated_def)
  have "mget (ah_edges s') i = map_option (carried (ah_edges s)) (mget (rev (by_id (concat (map ar_edges (fulfilled settled))))) i)"
    using by_id_merged [of "concat (map ar_edges (fulfilled settled))" i]
    by (simp add: s' same mget_place_edges merged_edges split: option.splits)
  moreover have err: "ah_error s' = (if rejected settled = [] then ah_error s
      else Some (nullish (hd (rejected settled)) ''Failed to fetch some aggregated edges''))"
    by (simp add: s' same finish_fetch_def apply_result_def Let_def split: list.splits)
  moreover have "rejected settled = [] \<longleftrightarrow> (\<forall>e. Inl e \<notin> set settled)"
    unfolding rejected_Nil by (metis Inl_Inr_False sum.exhaust)
  moreover have "\<not> ah_isLoading s'" by (simp add: s')
  ultimately show ?thesis using started chunks_partition [of us] chunks_bounds [OF assms(1)] by simp
qed

section \<open>The cache as a cache with a time to live\<close>

definition cache_ok :: "agg_cache \<Rightarrow> bool" where
  "cache_ok c \<longleftrightarrow> jsm_ok c \<and> length c \<le> CACHE_MAX_ENTRIES"

lemma cache_store_ok: "cache_ok c \<Longrightarrow> cache_ok (cache_store key e c)"
proof -
  assume ok: "cache_ok c"
  then have "length (evict_oldest c) < CACHE_MAX_ENTRIES"
    by (cases c) (auto simp: cache_ok_def evict_oldest_tl CACHE_MAX_ENTRIES_def)
  with ok show ?thesis by (auto simp: cache_ok_def cache_store_def length_mset_key)
qed

definition cache_written :: "agg_cache \<Rightarrow> string \<Rightarrow> (agg_result \<times> int) option" where
  "cache_written c k = map_option (\<lambda>e. (ce_result e, ce_timestamp e)) (mget c k)"

interpretation agg_cache: ttl_cache "\<lambda>now k c. cache_lookup cacheTtl now k c"
    "\<lambda>t k r c. cache_store k \<lparr>ce_result = r, ce_timestamp = t, ce_sourceUrns = us, ce_targetUrns = ts, ce_granularity = g\<rparr> c"
    "\<lambda>c. cacheTtl" cache_written cache_ok
  for cacheTtl us ts g
proof (unfold_locales, goal_cases)
  case (4 c k' k t v)
  then show ?case
    using mget_tl [of c k'] by (auto simp: cache_written_def cache_store_def cache_ok_def evict_oldest_tl)
next
  case (6 c t k v)
  then show ?case by (rule cache_store_ok)
qed (auto simp: cache_written_def cache_lookup_def cache_store_def split: option.splits if_splits)

section \<open>The state of the hook stays well formed\<close>

definition edges_ok :: "(ident, agg_state) jsmap \<Rightarrow> agg_pending list \<Rightarrow> bool" where
  "edges_ok m ps \<longleftrightarrow>
     jsm_ok m \<and> (\<forall>k e. mget m k = Some e \<longrightarrow> ai_id (as_aggregated e) = k \<and> (as_state e = Loading \<longrightarrow> Expanding k \<in> set ps))"

definition agg_ok :: "agg_hook \<Rightarrow> bool" where
  "agg_ok s \<longleftrightarrow>
     edges_ok (ah_edges s) (ah_pending s) \<and> cache_ok (ah_cache s)
     \<and> (ah_isLoading s \<longrightarrow> (\<exists>key us ts g. Fetching key us ts g \<in> set (ah_pending s)))"

lemma edges_okD: "edges_ok m ps \<Longrightarrow> mget m k = Some e \<Longrightarrow> ai_id (as_aggregated e) = k"
  by (simp add: edges_ok_def)

lemma edges_ok_Nil: "edges_ok [] ps"
  by (simp add: edges_ok_def)

lemma edges_ok_more: "edges_ok m ps \<Longrightarrow> edges_ok m (ps @ qs)"
  by (simp add: edges_ok_def)

lemma edges_ok_update:
  "edges_ok m ps \<Longrightarrow> ai_id (as_aggregated e) = k \<Longrightarrow> (as_state e = Loading \<Longrightarrow> Expanding k \<in> set ps) \<Longrightarrow> edges_ok (mset_key k e m) ps"
  by (auto simp: edges_ok_def)

lemma edges_ok_placed:
  assumes "edges_ok prev ps"
  shows "edges_ok (fold (place_edge prev) as []) ps"
proof -
  have "ai_id (as_aggregated e) = k \<and> (as_state e = Loading \<longrightarrow> Expanding k \<in> set ps)"
    if "mget (fold (place_edge prev) as []) k = Some e" for k e
  proof -
    from that obtain agg where agg: "mget (rev (by_id as)) k = Some agg" and e: "e = carried prev agg"
      by (auto simp: mget_place_edges split: option.splits)
    from by_id_key [OF agg] show ?thesis using assms unfolding e by (auto simp: carried_def edges_ok_def split: option.splits)
  qed
  then show ?thesis by (simp add: edges_ok_def place_edges_ok)
qed

lemma edges_ok_del: "edges_ok m ps \<Longrightarrow> edges_ok (mdel k m) ps"
  by (auto simp: edges_ok_def)

lemma edges_ok_purge: "edges_ok m ps \<Longrightarrow> edges_ok (fold (\<lambda>(k, e) m. if incident urns e then mdel k m else m) es m) ps"
  by (induction es arbitrary: m) (auto simp: edges_ok_del)

lemma dropped_keeps:
  assumes "k < length ps" and "p \<in> set ps" and "p \<noteq> ps ! k"
  shows "p \<in> set (take k ps @ drop (Suc k) ps)"
proof -
  have "set ps = set (take k ps @ ps ! k # drop (Suc k) ps)" using assms(1) by (simp add: id_take_nth_drop [symmetric])
  with assms show ?thesis by auto
qed

lemma edges_ok_dropped_fetch:
  assumes "edges_ok m ps" and "k < length ps" and "ps ! k = Fetching key us ts g"
  shows "edges_ok m (take k ps @ drop (Suc k) ps)"
  using assms dropped_keeps [OF assms(2)] unfolding edges_ok_def by fastforce

lemma edges_ok_dropped_expand:
  assumes "edges_ok m ps" and "k < length ps" and "ps ! k = Expanding eid"
    and "\<forall>e. mget m eid = Some e \<longrightarrow> as_state e \<noteq> Loading"
  shows "edges_ok m (take k ps @ drop (Suc k) ps)"
  using assms dropped_keeps [OF assms(2)] unfolding edges_ok_def by (metis agg_pending.inject(2))

lemma set_expansion_edges:
  "ah_edges (set_expansion eid x s) = (case mget (ah_edges s) eid of None \<Rightarrow> ah_edges s | Some e \<Rightarrow> mset_key eid (e\<lparr>as_state := x\<rparr>) (ah_edges s))"
  "ah_pending (set_expansion eid x s) = ah_pending s" "ah_cache (set_expansion eid x s) = ah_cache s"
  "ah_isLoading (set_expansion eid x s) = ah_isLoading s"
  by (simp_all add: set_expansion_def split: option.splits)

lemma apply_result_ok: "agg_ok s \<Longrightarrow> agg_ok (apply_result r s)"
  by (simp add: agg_ok_def apply_result_def edges_ok_placed)

lemma fetchAggregated_ok: "agg_ok s \<Longrightarrow> agg_ok (fetchAggregated ttl now us ts g s)"
  using apply_result_ok [of s]
  by (auto simp: fetchAggregated_def Let_def split: option.splits) (auto simp: agg_ok_def edges_ok_more)

lemma collapseEdge_ok: "agg_ok s \<Longrightarrow> agg_ok (collapseEdge eid s)"
  by (auto simp: agg_ok_def collapseEdge_def set_expansion_edges edges_okD intro!: edges_ok_update split: option.splits)

lemma expandEdge_ok: "agg_ok s \<Longrightarrow> agg_ok (expandEdge eid s)"
  by (auto simp: agg_ok_def expandEdge_def set_expansion_edges edges_okD intro!: edges_ok_update [OF edges_ok_more] split: option.splits)

lemma toggleEdge_ok: "agg_ok s \<Longrightarrow> agg_ok (toggleEdge eid s)"
  by (auto simp: toggleEdge_def collapseEdge_ok expandEdge_ok split: option.splits expansion.splits)

lemma finish_fetch_ok:
  assumes "agg_ok s" and "k < length (ah_pending s)" and "ah_pending s ! k = Fetching key us ts g"
  shows "agg_ok (finish_fetch now settled key us ts g (drop_pending k s))"
  using assms edges_ok_dropped_fetch [OF _ assms(2,3)]
  by (simp add: agg_ok_def drop_pending_def edges_ok_placed cache_store_ok)

lemma finish_expand_ok:
  assumes "agg_ok s" and k: "k < length (ah_pending s)" "ah_pending s ! k = Expanding eid"
  shows "agg_ok (finish_expand eid answer (drop_pending k s))"
proof -
  have load: "ah_isLoading s \<longrightarrow> (\<exists>key us ts g. Fetching key us ts g \<in> set (take k (ah_pending s) @ drop (Suc k) (ah_pending s)))"
    using assms(1) dropped_keeps [OF k(1)] k(2) unfolding agg_ok_def by (metis agg_pending.distinct(1))
  have ok: "edges_ok (ah_edges s) (ah_pending s)" "cache_ok (ah_cache s)" using assms(1) by (simp_all add: agg_ok_def)
  show ?thesis
  proof (cases "mget (ah_edges s) eid")
    case None
    then show ?thesis using edges_ok_dropped_expand [OF ok(1) k] load ok(2)
      by (simp add: agg_ok_def finish_expand_def set_expansion_def drop_pending_def split: sum.splits)
  next
    case (Some e)
    have "edges_ok (mset_key eid e' (ah_edges s)) (take k (ah_pending s) @ drop (Suc k) (ah_pending s))"
      if "ai_id (as_aggregated e') = eid" "as_state e' \<noteq> Loading" for e'
      using that by (intro edges_ok_dropped_expand [OF edges_ok_update [OF ok(1)] k]) auto
    with Some edges_okD [OF ok(1) Some] load ok(2) show ?thesis
      by (simp add: agg_ok_def finish_expand_def set_expansion_def drop_pending_def split: sum.splits)
  qed
qed

lemma handleSetGranularity_ok:
  assumes "agg_ok s"
  shows "agg_ok (handleSetGranularity ttl now g s)"
proof -
  have "agg_ok (s\<lparr>ah_granularity := g\<rparr>)" "agg_ok (s\<lparr>ah_granularity := g, ah_cache := []\<rparr>)"
    using assms by (simp_all add: agg_ok_def cache_ok_def jsm_ok_def)
  with assms show ?thesis by (simp add: handleSetGranularity_def fetchAggregated_ok Let_def)
qed

lemma agg_step_ok: "agg_ok s \<Longrightarrow> agg_ok (agg_step ttl e s)"
proof (cases e)
  case (Fetched k now settled)
  then show "agg_ok s \<Longrightarrow> ?thesis" by (auto split: agg_pending.splits intro: finish_fetch_ok)
next
  case (ExpandAnswer k answer)
  then show "agg_ok s \<Longrightarrow> ?thesis" by (auto split: agg_pending.splits intro: finish_expand_ok)
next
  case ClearCache
  then show "agg_ok s \<Longrightarrow> ?thesis" by (simp add: agg_ok_def clearCache_def edges_ok_Nil cache_ok_def jsm_ok_def)
next
  case (Purge urns)
  then show "agg_ok s \<Longrightarrow> ?thesis" by (simp add: agg_ok_def purgeEdgesIncidentToUrns_def edges_ok_purge)
qed (simp_all add: fetchAggregated_ok expandEdge_ok collapseEdge_ok toggleEdge_ok handleSetGranularity_ok)

interpretation agg: step_system "agg_step ttl" agg_ok "\<lambda>e. True"
  for ttl
  by unfold_locales (rule agg_step_ok)

lemma agg_ok_new: "agg_ok (new_agg_hook g [])"
  by (simp add: agg_ok_def new_agg_hook_def edges_ok_Nil cache_ok_def jsm_ok_def)

text \<open>
  C21: after any history of fetches, answers in any order, expansions, resets and purges, each edge
  is filed under its own id, no edge is shown as loading without a request that will end it, the
  hook does not report loading without a fetch in flight, and the cache holds at most 200 results.
\<close>

theorem aggregated_edges_never_stuck:
  fixes es :: "agg_event list"
  assumes "s = run (agg_step ttl) es (new_agg_hook g [])"
  shows "(mget (ah_edges s) k = Some e \<longrightarrow> ai_id (as_aggregated e) = k \<and> (as_state e = Loading \<longrightarrow> Expanding k \<in> set (ah_pending s)))
    \<and> (ah_isLoading s \<longrightarrow> (\<exists>key us ts g. Fetching key us ts g \<in> set (ah_pending s)))
    \<and> length (ah_cache s) \<le> CACHE_MAX_ENTRIES"
proof -
  have "agg_ok s" unfolding assms by (rule agg.run_inv [OF agg_ok_new]) simp
  then show ?thesis by (simp add: agg_ok_def edges_ok_def cache_ok_def)
qed

section \<open>What is visible\<close>

text \<open>Every edge of the map is visible as itself or as its details; nothing else is.\<close>

lemma visible_iff:
  "x \<in> set (getVisibleEdges s) \<longleftrightarrow> (\<exists>k e. (k, e) \<in> set (ah_edges s) \<and> x \<in> set (visible_of e))"
  by (force simp: getVisibleEdges_def)

lemma mget_purge:
  assumes "jsm_ok m"
  shows "mget (fold (\<lambda>(k, e) m. if incident urns e then mdel k m else m) m m) k
    = (case mget m k of None \<Rightarrow> None | Some e \<Rightarrow> if incident urns e then None else Some e)"
proof -
  have purged: "mget (fold (\<lambda>(k, e) m. if incident urns e then mdel k m else m) ps m) k
      = (if \<exists>e. (k, e) \<in> set ps \<and> incident urns e then None else mget m k)" for ps m
    by (induction ps arbitrary: m) auto
  show ?thesis unfolding purged [of m m] using assms
    by (auto simp: mget_iff_in_set [symmetric] split: option.splits)
qed

lemma purge_removes_exactly_the_incident:
  assumes "jsm_ok (ah_edges s)"
  shows "mget (ah_edges (purgeEdgesIncidentToUrns urns s)) k
    = (case mget (ah_edges s) k of None \<Rightarrow> None | Some e \<Rightarrow> if incident urns e then None else Some e)"
  by (simp add: purgeEdgesIncidentToUrns_def mget_purge [OF assms])

lemma collapse_shows_the_aggregate:
  assumes "mget (ah_edges s) eid = Some e"
  shows "map_option visible_of (mget (ah_edges (collapseEdge eid s)) eid) = Some [Inr (as_aggregated e)]"
  using assms by (simp add: collapseEdge_def set_expansion_def visible_of_def)

section \<open>Deviations\<close>

definition sample_agg :: "ident \<Rightarrow> urn \<Rightarrow> urn \<Rightarrow> nat \<Rightarrow> agg_info" where
  "sample_agg i a b n = \<lparr>ai_id = i, ai_sourceUrn = a, ai_targetUrn = b, ai_edgeCount = n, ai_edgeTypes = [''FLOW''],
     ai_confidence = 1, ai_sourceEdgeIds = []\<rparr>"

definition sample_answer :: "agg_info list \<Rightarrow> agg_result" where
  "sample_answer as = \<lparr>ar_edges = as, ar_totalSourceEdges = length as, ar_truncated = False, ar_lastMaterializedAt = None, ar_triggered = False\<rparr>"

definition loaded_hook :: agg_hook where
  "loaded_hook = finish_fetch 10 [Inr (sample_answer [sample_agg ''e'' ''a'' ''b'' 3])] ''key'' [''a''] None (Some ''dataset'')
     (new_agg_hook (Some ''dataset'') [])"

text \<open>
  When every chunk of a fetch fails, the edges on the canvas are dropped and an empty result is
  cached as if it had been answered: fetching again within the time to live asks nobody.
\<close>

lemma total_failure_is_cached:
  assumes "fulfilled settled = []" and "us \<noteq> []" and "now' - now < ttl"
    and "s' = finish_fetch now settled (getCacheKey us ts g) us ts g s"
  shows "ah_edges s' = [] \<and> ah_pending (fetchAggregated ttl now' us ts g s') = ah_pending s'
    \<and> ah_edges (fetchAggregated ttl now' us ts g s') = []"
  using assms(1-3)
  by (simp add: assms(4) merge_results_def mfrom_def fetchAggregated_def cache_lookup_def cache_store_def apply_result_def)

text \<open>Joining the sorted URNs without a separator gives different source sets the same key.\<close>

lemma cache_key_collision: "getCacheKey [''ab'', ''c''] None g = getCacheKey [''a'', ''bc''] None g"
  by (simp add: getCacheKey_def)

text \<open>The refetch of a change of granularity still asks for the old one, and files it under the old key.\<close>

lemma granularity_refetch_is_old:
  assumes "g \<noteq> ah_granularity s" and "ah_currentSources s \<noteq> []"
  shows "ah_granularity (handleSetGranularity ttl now g s) = g
    \<and> (\<exists>key. ah_pending (handleSetGranularity ttl now g s)
         = ah_pending s @ [Fetching key (ah_currentSources s) (ah_currentTargets s) (ah_granularity s)])"
  using assms by (simp add: handleSetGranularity_def fetchAggregated_def cache_lookup_def Let_def)

text \<open>An answer that comes late overwrites the edges of a newer fetch.\<close>

lemma late_answer_wins:
  "map fst (ah_edges (finish_fetch 3 [Inr (sample_answer [sample_agg ''old'' ''a'' ''c'' 1])] ''first'' [''a''] None None
     (finish_fetch 2 [Inr (sample_answer [sample_agg ''new'' ''b'' ''c'' 1])] ''second'' [''b''] None None (new_agg_hook None [])))) = [''old'']"
  by code_simp

text \<open>An edge collapsed while its details are loading is expanded when they arrive.\<close>

lemma collapse_while_loading_is_undone:
  "isExpanded ''e'' (run (agg_step 300000) [Expand ''e'', Collapse ''e'', ExpandAnswer 0 (Inr [])] loaded_hook)"
  by code_simp

text \<open>An aggregated edge found by two chunks keeps the count of the last one only.\<close>

lemma chunk_counts_are_lost:
  "map ai_edgeCount (ar_edges (merge_results [sample_answer [sample_agg ''e'' ''a'' ''b'' 3], sample_answer [sample_agg ''e'' ''a'' ''b'' 4]])) = [4]"
  by code_simp

section \<open>Witnesses\<close>

lemma partial_fetch_keeps_what_arrived_witness:
  "ah_error (agg_step 300000 (Fetched 0 10 [Inl (Some ''offline'')]) (fetchAggregated 300000 0 [''a''] None None (new_agg_hook None []))) \<noteq> None"
proof -
  let ?s0 = "new_agg_hook None []"
  let ?s1 = "fetchAggregated 300000 0 [''a''] None None ?s0" and ?settled = "[Inl (Some ''offline'')]"
  have start: "[''a''] \<noteq> []" "cache_lookup 300000 0 (getCacheKey [''a''] None None) (ah_cache ?s0) = None"
    "0 < length (ah_pending ?s1)" "ah_pending ?s1 ! 0 = Fetching (getCacheKey [''a''] None None) [''a''] None None"
    by (simp_all add: new_agg_hook_def cache_lookup_def fetchAggregated_def)
  have "Inl (Some ''offline'') \<in> set ?settled" by simp
  with partial_fetch_keeps_what_arrived [OF start(1,2) refl start(3,4) refl, of 10 ?settled]
  show ?thesis by blast
qed

lemma aggregated_edges_never_stuck_witness:
  "length (ah_cache (run (agg_step 300000) [Fetch 0 [''a''] None, Fetched 0 10 [Inl None]] (new_agg_hook None []))) \<le> CACHE_MAX_ENTRIES"
  using aggregated_edges_never_stuck [OF refl, of 300000 "[Fetch 0 [''a''] None, Fetched 0 10 [Inl None]]" None] by blast

end
