(* ===== verification/Lineage_Stubs.thy ===== *)
theory Lineage_Stubs
  imports Graph_Model Lineage_Cache Step_System
begin

text \<open>
  The lineage stubs of single nodes (\<^verbatim>\<open>hooks/useLineageStubs.ts\<close>): collapsed, loading, expanded or
  pinned, per node and direction. Timers and requests are part of the state; their firing and their
  answers are events. A request is known by the number of its abort controller. The module-level
  cache is the bounded cache of \<open>Lineage_Cache\<close> with 500 entries and 15 minutes to live.
\<close>

section \<open>State\<close>

datatype direction = In | Out

datatype stub_mode = Collapsed | Loading | Expanded | Pinned

record stub_entry =
  sb_urn :: urn
  sb_direction :: direction
  sb_mode :: stub_mode
  sb_count :: "nat option"
  sb_edgeTypes :: "string list"
  sb_realEdges :: "graph_edge list option"
  sb_fetchedAt :: "int option"
  sb_error :: "string option"

record stub_value =
  sv_count :: nat
  sv_edgeTypes :: "string list"
  sv_realEdges :: "graph_edge list"

record stub_request =
  rq_controller :: nat
  rq_key :: string
  rq_urn :: urn
  rq_direction :: direction
  rq_pins :: bool

record stubs =
  st_entries :: "(string, stub_entry) jsmap"
  st_loadingCount :: nat
  st_hoverTimers :: "(string, urn \<times> direction) jsmap"
  st_leaveTimers :: "(string, unit) jsmap"
  st_aborters :: "(string, nat) jsmap"
  st_aborted :: "nat set"
  st_requests :: "stub_request list"
  st_next :: nat
  st_cache :: "stub_value lru_cache"

definition new_stubs :: stubs where
  "new_stubs = \<lparr>st_entries = [], st_loadingCount = 0, st_hoverTimers = [], st_leaveTimers = [], st_aborters = [],
     st_aborted = {}, st_requests = [], st_next = 0, st_cache = new_lru 500 900000\<rparr>"

definition cacheKey :: "urn \<Rightarrow> direction \<Rightarrow> string" where
  "cacheKey u d = (case d of In \<Rightarrow> ''in'' | Out \<Rightarrow> ''out'') @ '':'' @ fnv1a64 u"

text \<open>
  \<open>upsert\<close> takes the patch as the function that spreads it over an entry; over a missing entry it
  is spread over the defaults, whose \<open>urn\<close> is empty.
\<close>

definition blank_entry :: stub_entry where
  "blank_entry = \<lparr>sb_urn = '''', sb_direction = In, sb_mode = Collapsed, sb_count = None, sb_edgeTypes = [],
     sb_realEdges = None, sb_fetchedAt = None, sb_error = None\<rparr>"

definition upsert :: "string \<Rightarrow> (stub_entry \<Rightarrow> stub_entry) \<Rightarrow> stubs \<Rightarrow> stubs" where
  "upsert key patch s = s\<lparr>st_entries := mset_key key (patch (nullish (mget (st_entries s) key) blank_entry)) (st_entries s)\<rparr>"

definition mode_of :: "string \<Rightarrow> stubs \<Rightarrow> stub_mode option" where
  "mode_of key s = map_option sb_mode (mget (st_entries s) key)"

definition reveal :: "urn \<Rightarrow> direction \<Rightarrow> int \<Rightarrow> stub_value \<Rightarrow> stub_entry \<Rightarrow> stub_entry" where
  "reveal u d now v e =
     e\<lparr>sb_urn := u, sb_direction := d, sb_mode := Expanded, sb_count := Some (sv_count v), sb_edgeTypes := sv_edgeTypes v,
       sb_realEdges := Some (sv_realEdges v), sb_fetchedAt := Some now, sb_error := None\<rparr>"

section \<open>Fetching\<close>

text \<open>After the \<open>await\<close> of a pin: an expanded stub becomes pinned.\<close>

definition promote :: "string \<Rightarrow> stubs \<Rightarrow> stubs" where
  "promote key s = (if mode_of key s = Some Expanded then upsert key (\<lambda>e. e\<lparr>sb_mode := Pinned\<rparr>) s else s)"

definition fetchEdges :: "int \<Rightarrow> bool \<Rightarrow> urn \<Rightarrow> direction \<Rightarrow> stubs \<Rightarrow> stubs" where
  "fetchEdges now pins u d s =
     (let key = cacheKey u d; (cached, cache) = lru_get now key (st_cache s); s0 = s\<lparr>st_cache := cache\<rparr>
      in case cached of
           Some v \<Rightarrow> (let s1 = upsert key (reveal u d now v) s0 in if pins then promote key s1 else s1)
         | None \<Rightarrow>
             (let s1 = (case mget (st_aborters s0) key of
                          None \<Rightarrow> s0
                        | Some prior \<Rightarrow> s0\<lparr>st_aborted := insert prior (st_aborted s0)\<rparr>);
                  s2 = upsert key (\<lambda>e. e\<lparr>sb_urn := u, sb_direction := d, sb_mode := Loading, sb_error := None\<rparr>)
                         (s1\<lparr>st_aborters := mset_key key (st_next s1) (st_aborters s1)\<rparr>)
              in s2\<lparr>st_loadingCount := Suc (st_loadingCount s2), st_next := Suc (st_next s2),
                    st_requests := st_requests s2 @
                      [\<lparr>rq_controller = st_next s2, rq_key = key, rq_urn = u, rq_direction = d, rq_pins = pins\<rparr>]\<rparr>))"

definition value_of :: "graph_edge list \<Rightarrow> stub_value" where
  "value_of es = \<lparr>sv_count = length es, sv_edgeTypes = set_from (map ge_edgeType es), sv_realEdges = es\<rparr>"

text \<open>The code after the \<^verbatim>\<open>await provider.getEdges\<close>, its \<^verbatim>\<open>finally\<close> block included.\<close>

definition settle_edges :: "int \<Rightarrow> stub_request \<Rightarrow> string option + graph_edge list \<Rightarrow> stubs \<Rightarrow> stubs" where
  "settle_edges now r answer s =
     (if rq_controller r \<in> st_aborted s then s
      else (case answer of
              Inr es \<Rightarrow>
                upsert (rq_key r) (reveal (rq_urn r) (rq_direction r) now (value_of es))
                  (s\<lparr>st_cache := lru_set now (rq_key r) (value_of es) (st_cache s)\<rparr>)
            | Inl msg \<Rightarrow>
                upsert (rq_key r) (\<lambda>e. e\<lparr>sb_urn := rq_urn r, sb_direction := rq_direction r, sb_mode := Collapsed,
                  sb_error := Some (nullish msg ''Failed to fetch lineage'')\<rparr>) s))"

definition finish_request :: "int \<Rightarrow> stub_request \<Rightarrow> string option + graph_edge list \<Rightarrow> stubs \<Rightarrow> stubs" where
  "finish_request now r answer s =
     (let s1 = settle_edges now r answer s;
          s2 = s1\<lparr>st_aborters := (if mget (st_aborters s1) (rq_key r) = Some (rq_controller r)
                                   then mdel (rq_key r) (st_aborters s1) else st_aborters s1),
                   st_loadingCount := st_loadingCount s1 - 1,
                   st_requests := remove1 r (st_requests s1)\<rparr>
      in if rq_pins r then promote (rq_key r) s2 else s2)"

section \<open>The operations\<close>

definition getEntry :: "urn \<Rightarrow> direction \<Rightarrow> stubs \<Rightarrow> stub_entry option" where
  "getEntry u d s = mget (st_entries s) (cacheKey u d)"

definition setKnownCount :: "urn \<Rightarrow> direction \<Rightarrow> nat \<Rightarrow> string list \<Rightarrow> stubs \<Rightarrow> stubs" where
  "setKnownCount u d count edgeTypes s =
     upsert (cacheKey u d) (\<lambda>e. e\<lparr>sb_urn := u, sb_direction := d, sb_count := Some count, sb_edgeTypes := edgeTypes\<rparr>) s"

definition hoverEnter :: "urn \<Rightarrow> direction \<Rightarrow> stubs \<Rightarrow> stubs" where
  "hoverEnter u d s =
     (let key = cacheKey u d; s1 = s\<lparr>st_leaveTimers := mdel key (st_leaveTimers s)\<rparr>
      in if mode_of key s \<in> {Some Expanded, Some Pinned, Some Loading} then s1
         else s1\<lparr>st_hoverTimers := mset_key key (u, d) (mdel key (st_hoverTimers s1))\<rparr>)"

definition cancelHover :: "string \<Rightarrow> stubs \<Rightarrow> stubs" where
  "cancelHover key s = s\<lparr>st_hoverTimers := mdel key (st_hoverTimers s)\<rparr>"

definition hoverLeave :: "urn \<Rightarrow> direction \<Rightarrow> stubs \<Rightarrow> stubs" where
  "hoverLeave u d s =
     (let key = cacheKey u d; s1 = cancelHover key s
      in if mode_of key s \<in> {None, Some Pinned, Some Collapsed} then s1
         else s1\<lparr>st_leaveTimers := mset_key key () (mdel key (st_leaveTimers s1))\<rparr>)"

definition clear_timers :: "string \<Rightarrow> stubs \<Rightarrow> stubs" where
  "clear_timers key s = s\<lparr>st_hoverTimers := mdel key (st_hoverTimers s), st_leaveTimers := mdel key (st_leaveTimers s)\<rparr>"

definition pin :: "int \<Rightarrow> urn \<Rightarrow> direction \<Rightarrow> stubs \<Rightarrow> stubs" where
  "pin now u d s =
     (let key = cacheKey u d; s1 = clear_timers key s
      in if mode_of key s = Some Expanded then upsert key (\<lambda>e. e\<lparr>sb_mode := Pinned\<rparr>) s1
         else fetchEdges now True u d (upsert key (\<lambda>e. e\<lparr>sb_urn := u, sb_direction := d, sb_mode := Loading\<rparr>) s1))"

definition collapse :: "urn \<Rightarrow> direction \<Rightarrow> stubs \<Rightarrow> stubs" where
  "collapse u d s = upsert (cacheKey u d) (\<lambda>e. e\<lparr>sb_mode := Collapsed\<rparr>) (clear_timers (cacheKey u d) s)"

definition clearAll :: "stubs \<Rightarrow> stubs" where
  "clearAll s = s\<lparr>st_hoverTimers := [], st_leaveTimers := [], st_aborted := st_aborted s \<union> snd ` set (st_aborters s),
     st_aborters := [], st_entries := []\<rparr>"

text \<open>The two timers fire.\<close>

definition hover_fires :: "int \<Rightarrow> string \<Rightarrow> stubs \<Rightarrow> stubs" where
  "hover_fires now key s =
     (case mget (st_hoverTimers s) key of
        None \<Rightarrow> s
      | Some (u, d) \<Rightarrow> fetchEdges now False u d (s\<lparr>st_hoverTimers := mdel key (st_hoverTimers s)\<rparr>))"

definition leave_fires :: "string \<Rightarrow> stubs \<Rightarrow> stubs" where
  "leave_fires key s =
     (if mhas (st_leaveTimers s) key
      then upsert key (\<lambda>e. e\<lparr>sb_mode := Collapsed\<rparr>) (s\<lparr>st_leaveTimers := mdel key (st_leaveTimers s)\<rparr>)
      else s)"

datatype stub_event =
    Known urn direction nat "string list"
  | Enter urn direction
  | Cancel string
  | Leave urn direction
  | Pin int urn direction
  | Collapse urn direction
  | ClearAll
  | HoverFires int string
  | LeaveFires string
  | Answered nat int "string option + graph_edge list"

fun stub_step :: "stub_event \<Rightarrow> stubs \<Rightarrow> stubs" where
  "stub_step (Known u d n ts) s = setKnownCount u d n ts s"
| "stub_step (Enter u d) s = hoverEnter u d s"
| "stub_step (Cancel key) s = cancelHover key s"
| "stub_step (Leave u d) s = hoverLeave u d s"
| "stub_step (Pin now u d) s = pin now u d s"
| "stub_step (Collapse u d) s = collapse u d s"
| "stub_step ClearAll s = clearAll s"
| "stub_step (HoverFires now key) s = hover_fires now key s"
| "stub_step (LeaveFires key) s = leave_fires key s"
| "stub_step (Answered k now answer) s =
     (if k < length (st_requests s) then finish_request now (st_requests s ! k) answer s else s)"

section \<open>No stub is stuck\<close>

text \<open>
  Requests have distinct controllers; the aborters are exactly the requests that have not been
  aborted; a stub that is loading has one, except possibly the stub of \<open>x\<close>, which is being set up.
\<close>

definition requests_ok :: "stub_request list \<Rightarrow> (string, nat) jsmap \<Rightarrow> nat set \<Rightarrow> nat \<Rightarrow> bool" where
  "requests_ok rs ab dead n \<longleftrightarrow>
     jsm_ok ab \<and> distinct (map rq_controller rs)
     \<and> (\<forall>r \<in> set rs. rq_controller r < n)
     \<and> (\<forall>c \<in> dead. c < n)
     \<and> (\<forall>key c. mget ab key = Some c \<longrightarrow> c \<notin> dead \<and> (\<exists>r \<in> set rs. rq_controller r = c \<and> rq_key r = key))
     \<and> (\<forall>r \<in> set rs. rq_controller r \<notin> dead \<longrightarrow> mget ab (rq_key r) = Some (rq_controller r))"

definition loading_ok :: "string option \<Rightarrow> (string, stub_entry) jsmap \<Rightarrow> (string, nat) jsmap \<Rightarrow> bool" where
  "loading_ok x es ab \<longleftrightarrow>
     (\<forall>key e. mget es key = Some e \<longrightarrow> sb_mode e = Loading \<longrightarrow> x = Some key \<or> mget ab key \<noteq> None)"

definition stubs_ok :: "string option \<Rightarrow> stubs \<Rightarrow> bool" where
  "stubs_ok x s \<longleftrightarrow>
     st_loadingCount s = length (st_requests s)
     \<and> requests_ok (st_requests s) (st_aborters s) (st_aborted s) (st_next s)
     \<and> loading_ok x (st_entries s) (st_aborters s)"

lemma loading_ok_update:
  "loading_ok x es ab \<Longrightarrow> (sb_mode e = Loading \<Longrightarrow> x = Some key \<or> mget ab key \<noteq> None) \<Longrightarrow> loading_ok x (mset_key key e es) ab"
  by (auto simp: loading_ok_def)

lemma stubs_ok_upsert:
  assumes "stubs_ok x s" and "sb_mode (patch (nullish (mget (st_entries s) key) blank_entry)) = Loading \<Longrightarrow>
    x = Some key \<or> mget (st_aborters s) key \<noteq> None"
  shows "stubs_ok x (upsert key patch s)"
  using assms by (simp add: stubs_ok_def upsert_def loading_ok_update)

lemma stubs_ok_frame:
  "stubs_ok x (s\<lparr>st_hoverTimers := h\<rparr>) = stubs_ok x s" "stubs_ok x (s\<lparr>st_leaveTimers := l\<rparr>) = stubs_ok x s"
  "stubs_ok x (s\<lparr>st_cache := c\<rparr>) = stubs_ok x s"
  by (simp_all add: stubs_ok_def)

lemma upsert_simps [simp]:
  "st_aborters (upsert key f s) = st_aborters s" "st_requests (upsert key f s) = st_requests s"
  "st_loadingCount (upsert key f s) = st_loadingCount s" "st_aborted (upsert key f s) = st_aborted s"
  "st_next (upsert key f s) = st_next s" "st_hoverTimers (upsert key f s) = st_hoverTimers s"
  "st_leaveTimers (upsert key f s) = st_leaveTimers s"
  "mget (st_entries (upsert key f s)) k = (if key = k then Some (f (nullish (mget (st_entries s) key) blank_entry)) else mget (st_entries s) k)"
  by (simp_all add: upsert_def)

lemma stubs_ok_done: "stubs_ok (Some key) s \<Longrightarrow> mode_of key s \<noteq> Some Loading \<Longrightarrow> stubs_ok None s"
  by (auto simp: stubs_ok_def loading_ok_def mode_of_def)

lemma promote_ok: "stubs_ok x s \<Longrightarrow> stubs_ok x (promote key s)"
  by (auto simp: promote_def intro!: stubs_ok_upsert)

lemma requests_ok_new:
  assumes "requests_ok rs ab dead n" and "rq_controller r = n" and "rq_key r = key"
  shows "requests_ok (rs @ [r]) (mset_key key n ab) (case mget ab key of None \<Rightarrow> dead | Some prior \<Rightarrow> insert prior dead) (Suc n)"
proof (cases "mget ab key")
  case None
  with assms show ?thesis by (auto simp: requests_ok_def less_Suc_eq)
next
  case (Some prior)
  have only: "rq_controller r' = prior" if "r' \<in> set rs" "rq_key r' = key" "rq_controller r' \<notin> dead" for r'
    using assms(1) that Some unfolding requests_ok_def by fastforce
  have apart: "c \<noteq> prior" if "mget ab k = Some c" "k \<noteq> key" for k c
  proof
    assume "c = prior"
    with that Some assms(1) obtain r1 r2 where "r1 \<in> set rs" "r2 \<in> set rs" "rq_controller r1 = prior" "rq_controller r2 = prior"
        "rq_key r1 = k" "rq_key r2 = key" unfolding requests_ok_def by metis
    with assms(1) that(2) show False unfolding requests_ok_def distinct_map by (metis inj_onD)
  qed
  have "prior < n" using assms(1) Some unfolding requests_ok_def by blast
  with assms Some only apart show ?thesis unfolding requests_ok_def by (auto simp: less_Suc_eq)
qed

lemma fetchEdges_ok:
  assumes "stubs_ok (Some (cacheKey u d)) s"
  shows "stubs_ok None (fetchEdges now pins u d s)"
proof -
  let ?key = "cacheKey u d"
  obtain cached cache where get: "lru_get now ?key (st_cache s) = (cached, cache)" by (cases "lru_get now ?key (st_cache s)")
  let ?s0 = "s\<lparr>st_cache := cache\<rparr>"
  have s0: "stubs_ok (Some ?key) ?s0" using assms by (simp add: stubs_ok_frame)
  show ?thesis
  proof (cases cached)
    case (Some v)
    have "stubs_ok (Some ?key) (upsert ?key (reveal u d now v) ?s0)" by (rule stubs_ok_upsert [OF s0]) simp
    moreover have "mode_of ?key (upsert ?key (reveal u d now v) ?s0) = Some Expanded" by (simp add: mode_of_def reveal_def)
    ultimately have "stubs_ok None (upsert ?key (reveal u d now v) ?s0)" by (intro stubs_ok_done) auto
    with Some get show ?thesis by (simp add: fetchEdges_def Let_def promote_ok)
  next
    case None
    have reqs: "requests_ok (st_requests s) (st_aborters s) (st_aborted s) (st_next s)" and ld: "loading_ok (Some ?key) (st_entries s) (st_aborters s)"
      and count: "st_loadingCount s = length (st_requests s)" using assms by (simp_all add: stubs_ok_def)
    note new = requests_ok_new [OF reqs, of "\<lparr>rq_controller = st_next s, rq_key = ?key, rq_urn = u, rq_direction = d, rq_pins = pins\<rparr>" ?key]
    have "loading_ok None (mset_key ?key e (st_entries s)) (mset_key ?key (st_next s) (st_aborters s))" for e
      using ld by (auto simp: loading_ok_def)
    with None get count new show ?thesis
      by (cases "mget (st_aborters s) ?key") (simp_all add: fetchEdges_def stubs_ok_def Let_def upsert_def)
  qed
qed

lemma settle_frame [simp]:
  "st_requests (settle_edges now r answer s) = st_requests s" "st_aborters (settle_edges now r answer s) = st_aborters s"
  "st_aborted (settle_edges now r answer s) = st_aborted s" "st_next (settle_edges now r answer s) = st_next s"
  "st_loadingCount (settle_edges now r answer s) = st_loadingCount s"
  by (simp_all add: settle_edges_def split: sum.splits)

lemma requests_ok_finish:
  assumes "requests_ok rs ab dead n" and "r \<in> set rs"
  shows "requests_ok (remove1 r rs) (if mget ab (rq_key r) = Some (rq_controller r) then mdel (rq_key r) ab else ab) dead n"
proof -
  have dist: "distinct (map rq_controller rs)" "distinct rs" using assms(1) by (auto simp: requests_ok_def distinct_map)
  have rest: "set (remove1 r rs) = set rs - {r}" using dist(2) by simp
  have "distinct (map rq_controller (remove1 r rs))"
    using dist rest by (auto simp: distinct_map inj_on_def)
  moreover have same: "r' = r" if "r' \<in> set rs" "rq_controller r' = rq_controller r" for r'
    using dist(1) assms(2) that by (auto simp: distinct_map dest: inj_onD)
  have aborters: "c \<notin> dead \<and> (\<exists>r' \<in> set rs - {r}. rq_controller r' = c \<and> rq_key r' = key)"
    if "mget (if mget ab (rq_key r) = Some (rq_controller r) then mdel (rq_key r) ab else ab) key = Some c" for key c
  proof -
    have got: "mget ab key = Some c" using that by (simp split: if_splits)
    then obtain r' where r': "r' \<in> set rs" "rq_controller r' = c" "rq_key r' = key" "c \<notin> dead"
      using assms(1) unfolding requests_ok_def by blast
    have "r' \<noteq> r" using that got r' by (auto split: if_splits)
    with r' show ?thesis by blast
  qed
  have live: "mget (if mget ab (rq_key r) = Some (rq_controller r) then mdel (rq_key r) ab else ab) (rq_key r') = Some (rq_controller r')"
    if "r' \<in> set rs - {r}" "rq_controller r' \<notin> dead" for r'
  proof -
    have "mget ab (rq_key r') = Some (rq_controller r')" using assms(1) that unfolding requests_ok_def by blast
    moreover have "rq_controller r' \<noteq> rq_controller r" using same that by blast
    ultimately show ?thesis by auto
  qed
  show ?thesis
    unfolding requests_ok_def rest using calculation aborters live assms(1) by (auto simp: requests_ok_def)
qed

lemma finish_request_ok:
  assumes ok: "stubs_ok None s" and r: "r \<in> set (st_requests s)"
  shows "stubs_ok None (finish_request now r answer s)"
proof -
  let ?ab = "if mget (st_aborters s) (rq_key r) = Some (rq_controller r) then mdel (rq_key r) (st_aborters s) else st_aborters s"
  have reqs: "requests_ok (st_requests s) (st_aborters s) (st_aborted s) (st_next s)" and ld: "loading_ok None (st_entries s) (st_aborters s)"
    and count: "st_loadingCount s = length (st_requests s)" using ok by (simp_all add: stubs_ok_def)
  have new: "requests_ok (remove1 r (st_requests s)) ?ab (st_aborted s) (st_next s)" by (rule requests_ok_finish [OF reqs r])
  have "loading_ok None (st_entries (settle_edges now r answer s)) ?ab"
  proof (cases "rq_controller r \<in> st_aborted s")
    case True
    then have "mget (st_aborters s) (rq_key r) \<noteq> Some (rq_controller r)" using reqs unfolding requests_ok_def by blast
    with True ld show ?thesis by (simp add: settle_edges_def)
  next
    case False
    then show ?thesis using ld by (auto simp: settle_edges_def loading_ok_def upsert_def reveal_def split: sum.splits if_splits)
  qed
  note loading = this
  define mid where "mid = (settle_edges now r answer s)\<lparr>st_aborters := ?ab,
      st_loadingCount := st_loadingCount s - 1, st_requests := remove1 r (st_requests s)\<rparr>"
  from loading new count r have "stubs_ok None mid"
    by (simp add: stubs_ok_def mid_def length_remove1)
  moreover have "finish_request now r answer s = (if rq_pins r then promote (rq_key r) mid else mid)"
    by (simp add: finish_request_def Let_def mid_def)
  ultimately show ?thesis by (simp add: promote_ok)
qed

lemma clearAll_ok: "stubs_ok None s \<Longrightarrow> stubs_ok None (clearAll s)"
proof -
  assume ok: "stubs_ok None s"
  then have reqs: "requests_ok (st_requests s) (st_aborters s) (st_aborted s) (st_next s)" by (simp add: stubs_ok_def)
  then have known: "c \<in> snd ` set (st_aborters s) \<longleftrightarrow> (\<exists>key. mget (st_aborters s) key = Some c)" for c
    by (force simp: requests_ok_def mget_iff_in_set)
  have "rq_controller r \<in> st_aborted s \<union> snd ` set (st_aborters s)" if "r \<in> set (st_requests s)" for r
    using reqs that unfolding requests_ok_def Un_iff known by blast
  moreover have "c < st_next s" if "c \<in> snd ` set (st_aborters s)" for c
    using reqs that unfolding requests_ok_def known by blast
  ultimately have "requests_ok (st_requests s) [] (st_aborted s \<union> snd ` set (st_aborters s)) (st_next s)"
    using reqs unfolding requests_ok_def ball_Un by (simp add: jsm_ok_def)
  with ok show ?thesis by (simp add: stubs_ok_def clearAll_def loading_ok_def)
qed

lemma stubs_ok_weaken: "stubs_ok None s \<Longrightarrow> stubs_ok x s"
  by (auto simp: stubs_ok_def loading_ok_def)

lemma clear_timers_ok: "stubs_ok x (clear_timers key s) = stubs_ok x s"
  by (simp add: stubs_ok_def clear_timers_def)

lemma pin_ok: "stubs_ok None s \<Longrightarrow> stubs_ok None (pin now u d s)"
proof -
  assume ok: "stubs_ok None s"
  have "stubs_ok (Some (cacheKey u d)) (upsert (cacheKey u d) (\<lambda>e. e\<lparr>sb_urn := u, sb_direction := d, sb_mode := Loading\<rparr>)
      (clear_timers (cacheKey u d) s))"
    by (rule stubs_ok_upsert) (simp_all add: clear_timers_ok stubs_ok_weaken [OF ok])
  then show ?thesis
    using ok by (auto simp: pin_def Let_def clear_timers_ok intro!: stubs_ok_upsert fetchEdges_ok)
qed

lemma setKnownCount_ok: "stubs_ok None s \<Longrightarrow> stubs_ok None (setKnownCount u d n ts s)"
  unfolding setKnownCount_def
  by (rule stubs_ok_upsert) (auto simp: stubs_ok_def loading_ok_def blank_entry_def nullish_def split: option.splits)

lemma stub_step_ok: "stubs_ok None s \<Longrightarrow> stubs_ok None (stub_step e s)"
proof (cases e)
  case (HoverFires now key)
  then show "stubs_ok None s \<Longrightarrow> ?thesis"
    by (auto simp: hover_fires_def stubs_ok_frame stubs_ok_weaken intro!: fetchEdges_ok split: option.splits)
next
  case (Answered k now answer)
  then show "stubs_ok None s \<Longrightarrow> ?thesis" by (simp add: finish_request_ok)
next
  case (Collapse u d)
  then show "stubs_ok None s \<Longrightarrow> ?thesis" by (auto simp: collapse_def clear_timers_ok intro!: stubs_ok_upsert)
next
  case (LeaveFires key)
  then show "stubs_ok None s \<Longrightarrow> ?thesis" by (auto simp: leave_fires_def stubs_ok_frame intro!: stubs_ok_upsert)
qed (simp_all add: setKnownCount_ok pin_ok clearAll_ok hoverEnter_def cancelHover_def hoverLeave_def Let_def stubs_ok_frame)

interpretation stubs: step_system stub_step "stubs_ok None" "\<lambda>e. True"
  by unfold_locales (rule stub_step_ok)

lemma stubs_ok_new: "stubs_ok None new_stubs"
  by (simp add: stubs_ok_def new_stubs_def requests_ok_def loading_ok_def jsm_ok_def)

text \<open>
  after any interleaving of pointer movements, timers, answers, pins and resets, a stub that is
  loading has exactly one request that has not been aborted, no node and direction has two, and
  the loading flag is on exactly while some request is unanswered.
\<close>

theorem stubs_never_stuck:
  assumes "s = run stub_step es new_stubs"
  shows "(mode_of key s = Some Loading \<longrightarrow> (\<exists>r \<in> set (st_requests s). rq_key r = key \<and> rq_controller r \<notin> st_aborted s))
    \<and> (\<forall>r \<in> set (st_requests s). \<forall>r' \<in> set (st_requests s).
         rq_key r = rq_key r' \<and> rq_controller r \<notin> st_aborted s \<and> rq_controller r' \<notin> st_aborted s \<longrightarrow> r = r')
    \<and> (0 < st_loadingCount s \<longleftrightarrow> st_requests s \<noteq> [])"
proof -
  have ok: "stubs_ok None s" unfolding assms by (rule stubs.run_inv [OF stubs_ok_new]) simp
  then have reqs: "requests_ok (st_requests s) (st_aborters s) (st_aborted s) (st_next s)" by (simp add: stubs_ok_def)
  have "\<exists>r \<in> set (st_requests s). rq_key r = key \<and> rq_controller r \<notin> st_aborted s" if "mode_of key s = Some Loading"
  proof -
    from that ok obtain c where "mget (st_aborters s) key = Some c" by (auto simp: mode_of_def stubs_ok_def loading_ok_def)
    with reqs show ?thesis unfolding requests_ok_def by blast
  qed
  moreover have "r = r'" if "r \<in> set (st_requests s)" "r' \<in> set (st_requests s)" "rq_key r = rq_key r'"
    "rq_controller r \<notin> st_aborted s" "rq_controller r' \<notin> st_aborted s" for r r'
  proof -
    have "mget (st_aborters s) (rq_key r) = Some (rq_controller r)" "mget (st_aborters s) (rq_key r') = Some (rq_controller r')"
      using reqs that unfolding requests_ok_def by blast+
    with that(3) have "rq_controller r = rq_controller r'" by simp
    with reqs that(1,2) show ?thesis unfolding requests_ok_def distinct_map by (blast dest: inj_onD)
  qed
  ultimately show ?thesis using ok by (auto simp: stubs_ok_def)
qed

section \<open>A pinned stub stays pinned\<close>

text \<open>The stub of \<open>key\<close> is pinned, and no timer or request that was there before the pin is left.\<close>

definition settled_pin :: "string \<Rightarrow> stubs \<Rightarrow> bool" where
  "settled_pin key s \<longleftrightarrow>
     mode_of key s = Some Pinned \<and> mget (st_hoverTimers s) key = None \<and> mget (st_leaveTimers s) key = None
     \<and> (\<forall>r \<in> set (st_requests s). rq_key r = key \<longrightarrow> rq_controller r \<in> st_aborted s)
     \<and> (\<forall>key' u d. mget (st_hoverTimers s) key' = Some (u, d) \<longrightarrow> key' = cacheKey u d)"

definition hovering :: "string \<Rightarrow> stub_event \<Rightarrow> bool" where
  "hovering key e \<longleftrightarrow>
     (case e of Pin now u d \<Rightarrow> cacheKey u d \<noteq> key | Collapse u d \<Rightarrow> cacheKey u d \<noteq> key | ClearAll \<Rightarrow> False | _ \<Rightarrow> True)"

lemma mode_upsert: "mode_of k (upsert key f s) = (if key = k then Some (sb_mode (f (nullish (mget (st_entries s) key) blank_entry))) else mode_of k s)"
  by (simp add: mode_of_def)

lemma mode_frame [simp]:
  "mode_of key (s\<lparr>st_hoverTimers := h\<rparr>) = mode_of key s" "mode_of key (s\<lparr>st_leaveTimers := l\<rparr>) = mode_of key s"
  "mode_of key (s\<lparr>st_cache := c\<rparr>) = mode_of key s" "mode_of key (s\<lparr>st_aborters := ab, st_loadingCount := n, st_requests := rs\<rparr>) = mode_of key s"
  by (simp_all add: mode_of_def)

lemma settled_promote: "settled_pin key s \<Longrightarrow> settled_pin key (promote k s)"
  by (auto simp: settled_pin_def promote_def mode_upsert)

lemma settled_fetch: "settled_pin key s \<Longrightarrow> cacheKey u d \<noteq> key \<Longrightarrow> settled_pin key (fetchEdges now pins u d s)"
proof -
  assume *: "settled_pin key s" "cacheKey u d \<noteq> key"
  obtain cached cache where get: "lru_get now (cacheKey u d) (st_cache s) = (cached, cache)" by (cases "lru_get now (cacheKey u d) (st_cache s)")
  show ?thesis
  proof (cases cached)
    case (Some v)
    have "settled_pin key (upsert (cacheKey u d) (reveal u d now v) (s\<lparr>st_cache := cache\<rparr>))"
      using * by (simp add: settled_pin_def mode_upsert)
    with get Some show ?thesis by (simp add: fetchEdges_def Let_def settled_promote)
  next
    case None
    with * get show ?thesis
      by (auto simp: fetchEdges_def settled_pin_def mode_of_def upsert_def Let_def split: option.splits)
  qed
qed

lemma settled_answer:
  assumes "settled_pin key s" and "r \<in> set (st_requests s)"
  shows "settled_pin key (finish_request now r answer s)"
proof -
  define mid where "mid = (settle_edges now r answer s)\<lparr>
      st_aborters := (if mget (st_aborters s) (rq_key r) = Some (rq_controller r) then mdel (rq_key r) (st_aborters s) else st_aborters s),
      st_loadingCount := st_loadingCount s - 1, st_requests := remove1 r (st_requests s)\<rparr>"
  have gone: "set (remove1 r (st_requests s)) \<subseteq> set (st_requests s)" by (rule set_remove1_subset)
  have "rq_key r \<noteq> key \<or> settle_edges now r answer s = s"
    using assms by (auto simp: settled_pin_def settle_edges_def)
  then have "settled_pin key mid"
  proof
    assume "rq_key r \<noteq> key"
    with assms(1) gone show ?thesis
      by (auto simp: settled_pin_def mid_def settle_edges_def mode_of_def upsert_def split: sum.splits)
  next
    assume "settle_edges now r answer s = s"
    with assms(1) gone show ?thesis by (auto simp: settled_pin_def mid_def mode_of_def)
  qed
  moreover have "finish_request now r answer s = (if rq_pins r then promote (rq_key r) mid else mid)"
    by (simp add: finish_request_def Let_def mid_def)
  ultimately show ?thesis by (simp add: settled_promote)
qed

lemma settled_upsert:
  "settled_pin key s \<Longrightarrow> k \<noteq> key \<or> (\<forall>e. sb_mode e = Pinned \<longrightarrow> sb_mode (f e) = Pinned) \<Longrightarrow> settled_pin key (upsert k f s)"
  by (auto simp: settled_pin_def mode_of_def nullish_def split: option.splits)

lemma settled_timers:
  "settled_pin key s \<Longrightarrow> settled_pin key (s\<lparr>st_hoverTimers := mdel k (st_hoverTimers s)\<rparr>)"
  "settled_pin key s \<Longrightarrow> settled_pin key (s\<lparr>st_leaveTimers := mdel k (st_leaveTimers s)\<rparr>)"
  "settled_pin key s \<Longrightarrow> settled_pin key (clear_timers k s)"
  by (auto simp: settled_pin_def clear_timers_def mode_of_def)

lemma settled_step: "settled_pin key s \<Longrightarrow> hovering key e \<Longrightarrow> settled_pin key (stub_step e s)"
proof (cases e)
  case (Known u d n ts)
  then show "settled_pin key s \<Longrightarrow> ?thesis" by (simp add: setKnownCount_def settled_upsert)
next
  case (Enter u d)
  then show "settled_pin key s \<Longrightarrow> ?thesis"
    by (auto simp: settled_pin_def hoverEnter_def Let_def mode_of_def)
next
  case (Leave u d)
  then show "settled_pin key s \<Longrightarrow> ?thesis"
    by (auto simp: settled_pin_def hoverLeave_def cancelHover_def Let_def mode_of_def)
next
  case (Pin now u d)
  assume *: "settled_pin key s" "hovering key e"
  then have "cacheKey u d \<noteq> key" using Pin by (simp add: hovering_def)
  with *(1) Pin show ?thesis
    by (auto simp: pin_def Let_def intro!: settled_fetch settled_upsert settled_timers)
next
  case (Collapse u d)
  then show "settled_pin key s \<Longrightarrow> hovering key e \<Longrightarrow> ?thesis"
    by (auto simp: hovering_def collapse_def intro!: settled_upsert settled_timers)
next
  case (HoverFires now k)
  assume *: "settled_pin key s"
  show ?thesis
  proof (cases "mget (st_hoverTimers s) k")
    case (Some ud)
    obtain u d where ud: "ud = (u, d)" by (cases ud)
    with * Some have "cacheKey u d = k" "k \<noteq> key" unfolding settled_pin_def by auto
    with * Some ud HoverFires show ?thesis
      by (auto simp: hover_fires_def intro!: settled_fetch settled_timers)
  qed (simp add: * HoverFires hover_fires_def)
next
  case (LeaveFires k)
  then show "settled_pin key s \<Longrightarrow> ?thesis"
    by (auto simp: leave_fires_def settled_pin_def intro!: settled_upsert settled_timers)
       (auto simp: mode_of_def)
qed (simp_all add: hovering_def cancelHover_def settled_timers settled_answer)

interpretation pinned: step_system stub_step "settled_pin key" "hovering key"
  for key
  by unfold_locales (rule settled_step)

text \<open>
  once a stub is pinned and nothing from before the pin is under way, no movement of the pointer,
  no timer, no late answer and no action on other stubs unpins it: only collapsing it, pinning it
  again or clearing all can.
\<close>

theorem pinned_stub_survives_hover:
  assumes "settled_pin key s" and "\<And>e. e \<in> set es \<Longrightarrow> hovering key e"
  shows "mode_of key (run stub_step es s) = Some Pinned"
proof -
  have "settled_pin key (run stub_step es s)" by (rule pinned.run_inv [OF assms])
  then show ?thesis by (simp add: settled_pin_def)
qed

section \<open>Deviations\<close>

lemmas stub_defs = pin_def hoverLeave_def cancelHover_def clear_timers_def fetchEdges_def finish_request_def settle_edges_def
  promote_def leave_fires_def hover_fires_def hoverEnter_def mode_of_def reveal_def value_of_def new_stubs_def new_lru_def lru_get_def
  lru_set_def upsert_def Let_def

text \<open>
  The pointer leaves while a pin is still loading: the grace timer survives the pin and collapses
  the stub that has been pinned meanwhile.
\<close>

lemma pin_lost_to_leave_timer:
  "mode_of (cacheKey u d) (run stub_step [Pin 0 u d, Leave u d, Answered 0 100 (Inr es)] new_stubs) = Some Pinned"
  "mode_of (cacheKey u d) (run stub_step [Pin 0 u d, Leave u d, Answered 0 100 (Inr es), LeaveFires (cacheKey u d)] new_stubs) = Some Collapsed"
  by (simp_all add: stub_defs)

text \<open>The grace timer fires before the answer: the stub is revealed although the pointer has left.\<close>

lemma revealed_after_leave:
  "mode_of (cacheKey u d) (run stub_step [Enter u d, HoverFires 0 (cacheKey u d), Leave u d, LeaveFires (cacheKey u d),
     Answered 0 500 (Inr es)] new_stubs) = Some Expanded"
  by (simp add: stub_defs)

text \<open>Collapsing a stub that was never seen files an entry without URN under its key.\<close>

lemma collapse_creates_blank_entry:
  "map_option sb_urn (getEntry u Out (run stub_step [Collapse u Out] new_stubs)) = Some ''''"
  by (simp add: collapse_def getEntry_def blank_entry_def stub_defs)

section \<open>Witnesses\<close>

lemma stubs_never_stuck_witness:
  "0 < st_loadingCount (run stub_step [Pin 0 ''a'' In] new_stubs)"
proof -
  have "st_requests (run stub_step [Pin 0 ''a'' In] new_stubs) \<noteq> []" by (simp add: stub_defs)
  with stubs_never_stuck [OF refl, of "''k''" "[Pin 0 ''a'' In]"] show ?thesis by blast
qed

lemma pinned_stub_survives_hover_witness:
  "mode_of (cacheKey ''a'' In) (run stub_step [Leave ''a'' In, LeaveFires (cacheKey ''a'' In), Enter ''a'' In]
     (run stub_step [Pin 0 ''a'' In, Answered 0 100 (Inr [])] new_stubs)) = Some Pinned"
proof -
  have "settled_pin (cacheKey ''a'' In) (run stub_step [Pin 0 ''a'' In, Answered 0 100 (Inr [])] new_stubs)"
    by (simp add: settled_pin_def stub_defs)
  then show ?thesis by (rule pinned_stub_survives_hover) (auto simp: hovering_def)
qed

end
