(* ===== verification/Ancestor_Map.thy ===== *)
theory Ancestor_Map
  imports Trace_Filter "HOL-Library.Multiset"
begin

text \<open>
  The map from every name of a node to its visible ancestor, which the canvas uses to draw an edge
  between what is shown (\<^verbatim>\<open>hooks/useEdgeProjection.ts\<close>, first half): the full build over the layers and
  the patch of the subtrees that were expanded or collapsed since the last render. Stacks are lists
  with the top at the head.
\<close>

section \<open>The ancestor map\<close>

text \<open>A name of a node: its URN, when it has one, and its id.\<close>

definition set_names :: "hnode \<Rightarrow> ident \<Rightarrow> (ident, ident) jsmap \<Rightarrow> (ident, ident) jsmap" where
  "set_names h anchor m = mset_key (hn_id h) anchor (if hn_urn h \<noteq> '''' then mset_key (hn_urn h) anchor m else m)"

function index_walk :: "hnode list \<Rightarrow> (ident, hnode) jsmap \<Rightarrow> (ident, hnode) jsmap" where
  "index_walk [] m = m"
| "index_walk (h # stack) m = index_walk (hn_children h @ stack) (mset_key (hn_id h) h m)"
  by pat_completeness auto
termination
  by (relation "measure (\<lambda>(stack, m). sum_list (map hnode_size stack))") (auto simp: hnode_size_children)

definition root_stack :: "(ident, hnode list) jsmap \<Rightarrow> hnode list" where
  "root_stack byLayer = fold (\<lambda>(l, roots) stack. roots @ stack) byLayer []"

definition buildNodeIndex :: "(ident, hnode list) jsmap \<Rightarrow> (ident, hnode) jsmap" where
  "buildNodeIndex byLayer = index_walk (root_stack byLayer) []"

function collapse_walk :: "ident \<Rightarrow> hnode list \<Rightarrow> (ident, ident) jsmap \<Rightarrow> (ident, ident) jsmap" where
  "collapse_walk anchor [] m = m"
| "collapse_walk anchor (h # stack) m = collapse_walk anchor (hn_children h @ stack) (set_names h anchor m)"
  by pat_completeness auto
termination
  by (relation "measure (\<lambda>(a, stack, m). sum_list (map hnode_size stack))") (auto simp: hnode_size_children)

definition collapseSubtreeInMap :: "hnode \<Rightarrow> ident \<Rightarrow> (ident, ident) jsmap \<Rightarrow> (ident, ident) jsmap" where
  "collapseSubtreeInMap node anchor m = collapse_walk anchor [node] m"

text \<open>One child in the loop of \<^verbatim>\<open>expandNodeInMap\<close>: the stack and the map after it.\<close>

definition expand_child :: "ident set \<Rightarrow> hnode \<Rightarrow> hnode list \<times> (ident, ident) jsmap \<Rightarrow> hnode list \<times> (ident, ident) jsmap" where
  "expand_child expanded child st =
     (case st of (stack, m) \<Rightarrow>
        (let m1 = set_names child (hn_id child) m
         in if hn_id child \<in> expanded then (child # stack, m1)
            else (stack, fold (\<lambda>gc. collapseSubtreeInMap gc (hn_id child)) (hn_children child) m1)))"

lemma expand_child_stack:
  "sum_list (map hnode_size (fst (fold (expand_child expanded) cs (stack, m)))) \<le> sum_list (map hnode_size cs) + sum_list (map hnode_size stack)"
proof (induction cs arbitrary: stack m)
  case (Cons c cs)
  obtain stack' m' where one: "expand_child expanded c (stack, m) = (stack', m')" by (cases "expand_child expanded c (stack, m)")
  then have "sum_list (map hnode_size stack') \<le> hnode_size c + sum_list (map hnode_size stack)"
    by (auto simp: expand_child_def Let_def split: if_splits)
  with Cons.IH [of stack' m'] one show ?case by simp
qed simp

function expand_walk :: "ident set \<Rightarrow> hnode list \<Rightarrow> (ident, ident) jsmap \<Rightarrow> (ident, ident) jsmap" where
  "expand_walk expanded [] m = m"
| "expand_walk expanded (current # stack) m =
     expand_walk expanded (fst (fold (expand_child expanded) (hn_children current) (stack, m)))
       (snd (fold (expand_child expanded) (hn_children current) (stack, m)))"
  by pat_completeness auto
termination
proof (relation "measure (\<lambda>(e, stack, m). sum_list (map hnode_size stack))", goal_cases)
  case (2 expanded current stack m)
  show ?case using expand_child_stack [of expanded "hn_children current" stack m] by (simp add: hnode_size_children [of current] case_prod_unfold)
qed simp

definition expandNodeInMap :: "hnode \<Rightarrow> ident set \<Rightarrow> (ident, ident) jsmap \<Rightarrow> (ident, ident) jsmap" where
  "expandNodeInMap node expanded m = expand_walk expanded [node] m"

text \<open>The anchor a child inherits: its own id below a visible expanded node (\<^verbatim>\<open>USE_CHILD_ID\<close> in the code).\<close>

definition child_anchor :: "ident set \<Rightarrow> hnode \<Rightarrow> ident \<Rightarrow> hnode \<Rightarrow> ident" where
  "child_anchor expanded node anchor child =
     (if hn_id node = anchor then (if hn_id node \<in> expanded then hn_id child else hn_id node) else anchor)"

function full_walk :: "ident set \<Rightarrow> (hnode \<times> ident) list \<Rightarrow> (ident, ident) jsmap \<Rightarrow> (ident, ident) jsmap" where
  "full_walk expanded [] m = m"
| "full_walk expanded ((node, anchor) # stack) m =
     full_walk expanded (map (\<lambda>c. (c, child_anchor expanded node anchor c)) (hn_children node) @ stack) (set_names node anchor m)"
  by pat_completeness auto
termination
proof (relation "measure (\<lambda>(e, stack, m). sum_list (map (hnode_size \<circ> fst) stack))", goal_cases)
  case (2 expanded node anchor stack m)
  show ?case by (simp add: comp_def hnode_size_children [of node])
qed simp

text \<open>The pass over the flat list maps a node that has no entry yet to itself.\<close>

definition keep_visible :: "hnode \<Rightarrow> (ident, ident) jsmap \<Rightarrow> (ident, ident) jsmap" where
  "keep_visible h m =
     (let m1 = (if mhas m (hn_id h) then m else mset_key (hn_id h) (hn_id h) m)
      in if hn_urn h \<noteq> '''' \<and> \<not> mhas m1 (hn_urn h) then mset_key (hn_urn h) (hn_id h) m1 else m1)"

definition buildFullAncestorMap :: "(ident, hnode list) jsmap \<Rightarrow> ident set \<Rightarrow> hnode list \<Rightarrow> (ident, ident) jsmap" where
  "buildFullAncestorMap byLayer expanded flat =
     fold keep_visible flat (full_walk expanded (map (\<lambda>h. (h, hn_id h)) (root_stack byLayer)) [])"

text \<open>
  The memo over renders. The layers are compared by reference, so a render brings the number of
  the object it got; the expanded nodes are a JavaScript set with its order.
\<close>

record ancestor_memo =
  am_map :: "(ident, ident) jsmap"
  am_layersRef :: "nat option"
  am_expanded :: "ident list"

definition initial_memo :: ancestor_memo where
  "initial_memo = \<lparr>am_map = [], am_layersRef = None, am_expanded = []\<rparr>"

definition collapse_in_map :: "(ident, hnode) jsmap \<Rightarrow> ident \<Rightarrow> (ident, ident) jsmap \<Rightarrow> (ident, ident) jsmap" where
  "collapse_in_map nodeIndex n m =
     (case mget nodeIndex n of
        None \<Rightarrow> m
      | Some node \<Rightarrow> fold (\<lambda>child. collapseSubtreeInMap child n) (hn_children node) m)"

definition expand_in_map :: "(ident, hnode) jsmap \<Rightarrow> ident set \<Rightarrow> ident \<Rightarrow> (ident, ident) jsmap \<Rightarrow> (ident, ident) jsmap" where
  "expand_in_map nodeIndex expanded n m =
     (case mget nodeIndex n of None \<Rightarrow> m | Some node \<Rightarrow> expandNodeInMap node expanded m)"

definition patchAncestorMap :: "(ident, hnode list) jsmap \<Rightarrow> ident list \<Rightarrow> ident list \<Rightarrow> (ident, ident) jsmap \<Rightarrow> (ident, ident) jsmap" where
  "patchAncestorMap byLayer prev expandedNodes m =
     (let nodeIndex = buildNodeIndex byLayer;
          expanded = filter (\<lambda>n. n \<notin> set prev) expandedNodes;
          collapsed = filter (\<lambda>n. n \<notin> set expandedNodes) prev
      in fold (expand_in_map nodeIndex (set expandedNodes)) expanded (fold (collapse_in_map nodeIndex) collapsed m))"

definition ancestorMap_render ::
  "nat \<Rightarrow> (ident, hnode list) jsmap \<Rightarrow> ident list \<Rightarrow> hnode list \<Rightarrow> ancestor_memo \<Rightarrow> ancestor_memo" where
  "ancestorMap_render layersRef byLayer expandedNodes flat memo =
     (if am_layersRef memo \<noteq> Some layersRef
      then \<lparr>am_map = buildFullAncestorMap byLayer (set expandedNodes) flat, am_layersRef = Some layersRef, am_expanded = expandedNodes\<rparr>
      else memo\<lparr>am_map := patchAncestorMap byLayer (am_expanded memo) expandedNodes (am_map memo), am_expanded := expandedNodes\<rparr>)"

section \<open>What the walks write\<close>

text \<open>The names of the nodes of a forest, and the condition that no two nodes share one.\<close>

definition own_names :: "hnode \<Rightarrow> ident list" where
  "own_names h = (if hn_urn h = '''' \<or> hn_urn h = hn_id h then [hn_id h] else [hn_urn h, hn_id h])"

definition forest_names :: "hnode list \<Rightarrow> ident list" where
  "forest_names hs = concat (map own_names (forest_nodes hs))"

lemma forest_names_simps [simp]:
  "forest_names [] = []"
  "forest_names (h # hs) = own_names h @ forest_names (hn_children h) @ forest_names hs"
  "forest_names (hs @ hs') = forest_names hs @ forest_names hs'"
  by (simp_all add: forest_names_def hn_nodes_unfold [of h])

lemma hn_id_own [simp]: "hn_id h \<in> set (own_names h)"
  by (simp add: own_names_def)

lemma own_names_sub: "h \<in> set hs \<Longrightarrow> set (own_names h) \<union> set (forest_names (hn_children h)) \<subseteq> set (forest_names hs)"
  by (induction hs) auto

lemma distinct_own [simp]: "distinct (own_names h)"
  by (simp add: own_names_def)

text \<open>
  The pairs of name and anchor of a tree whose root has the given anchor. A map is \<open>patched\<close> with
  a set of pairs when it has them and is unchanged at the other names.
\<close>

fun anchor_pairs :: "ident set \<Rightarrow> ident \<Rightarrow> hnode \<Rightarrow> (ident \<times> ident) set" where
  "anchor_pairs expanded a (HNode i ty nm d cs dp u eo tg lc) =
     (let h = HNode i ty nm d cs dp u eo tg lc
      in set (own_names h) \<times> {a} \<union> (\<Union>c \<in> set cs. anchor_pairs expanded (child_anchor expanded h a c) c))"

lemma anchor_pairs_unfold:
  "anchor_pairs expanded a h =
     set (own_names h) \<times> {a} \<union> (\<Union>c \<in> set (hn_children h). anchor_pairs expanded (child_anchor expanded h a c) c)"
  by (cases h) (simp add: Let_def)

declare anchor_pairs.simps [simp del]

lemma hnode_children_induct [case_names Node]:
  assumes "\<And>h. (\<And>c. c \<in> set (hn_children h) \<Longrightarrow> P c) \<Longrightarrow> P h"
  shows "P h"
proof (induction h rule: hnode.induct)
  case (HNode i ty nm d cs dp u eo tg lc)
  then show ?case by (intro assms [of "HNode i ty nm d cs dp u eo tg lc"]) simp
qed

definition patched :: "('k, 'v) jsmap \<Rightarrow> ('k \<times> 'v) set \<Rightarrow> ('k, 'v) jsmap \<Rightarrow> bool" where
  "patched m ps m' \<longleftrightarrow> (\<forall>k v. (k, v) \<in> ps \<longrightarrow> mget m' k = Some v) \<and> (\<forall>k. k \<notin> fst ` ps \<longrightarrow> mget m' k = mget m k)"

lemma patched_refl [simp]: "patched m {} m"
  by (simp add: patched_def)

lemma patched_trans: "patched m ps m1 \<Longrightarrow> patched m1 qs m2 \<Longrightarrow> fst ` ps \<inter> fst ` qs = {} \<Longrightarrow> patched m (ps \<union> qs) m2"
  unfolding patched_def image_Un by (metis Un_iff disjoint_iff fst_conv image_eqI)

lemma fst_anchor_pairs: "fst ` anchor_pairs expanded a h = set (forest_names [h])"
proof (induction h arbitrary: a rule: hnode_children_induct)
  case (Node h)
  have "fst ` (set (own_names h) \<times> {a}) = set (own_names h)" by force
  moreover have "fst ` (\<Union>c \<in> set (hn_children h). anchor_pairs expanded (child_anchor expanded h a c) c)
      = (\<Union>c \<in> set (hn_children h). set (forest_names [c]))"
    by (simp only: image_UN Node cong: SUP_cong)
  moreover have "(\<Union>c \<in> set cs. set (forest_names [c])) = set (forest_names cs)" for cs
    by (induction cs) auto
  ultimately show ?case by (simp add: anchor_pairs_unfold [of _ _ h] image_Un)
qed

lemma patched_set_names: "patched m (set (own_names h) \<times> {a}) (set_names h a m)"
  by (auto simp: patched_def set_names_def own_names_def image_iff)

lemma forest_names_map_fst [simp]: "forest_names (map fst (map (\<lambda>c. (c, f c)) cs)) = forest_names cs"
  by (simp add: comp_def)

lemma patched_full_walk:
  "distinct (forest_names (map fst stack)) \<Longrightarrow>
   patched m (\<Union>(h, a) \<in> set stack. anchor_pairs expanded a h) (full_walk expanded stack m)"
proof (induction expanded stack m rule: full_walk.induct)
  case (2 expanded h a stack m)
  let ?cs = "map (\<lambda>c. (c, child_anchor expanded h a c)) (hn_children h) @ stack"
  let ?ps = "\<Union>(h, a) \<in> set ?cs. anchor_pairs expanded a h"
  have keys: "fst ` (\<Union>(h, a) \<in> set hs. anchor_pairs expanded a h) = set (forest_names (map fst hs))" for hs
    by (induction hs) (simp_all add: case_prod_unfold image_Un fst_anchor_pairs Un_assoc)
  from 2 have "patched (set_names h a m) ?ps (full_walk expanded ?cs (set_names h a m))" by (simp add: comp_def)
  moreover have "fst ` (set (own_names h) \<times> {a}) \<inter> fst ` ?ps = {}"
    using "2.prems" by (auto simp only: keys) (auto simp: comp_def)
  ultimately have "patched m (set (own_names h) \<times> {a} \<union> ?ps) (full_walk expanded ?cs (set_names h a m))"
    by (rule patched_trans [OF patched_set_names])
  moreover have "(\<Union>(h, a) \<in> set ((h, a) # stack). anchor_pairs expanded a h) = set (own_names h) \<times> {a} \<union> ?ps"
    by (auto simp: anchor_pairs_unfold [of _ a h])
  ultimately show ?case by simp
qed simp

lemma patched_collapse_walk:
  "distinct (forest_names stack) \<Longrightarrow> patched m (set (forest_names stack) \<times> {a}) (collapse_walk a stack m)"
proof (induction a stack m rule: collapse_walk.induct)
  case (2 a h stack m)
  then have "patched (set_names h a m) (set (forest_names (hn_children h @ stack)) \<times> {a}) (collapse_walk a (hn_children h @ stack) (set_names h a m))"
    by simp
  then have "patched m (set (own_names h) \<times> {a} \<union> set (forest_names (hn_children h @ stack)) \<times> {a}) (collapse_walk a (h # stack) m)"
    using "2.prems" by (auto intro!: patched_trans [OF patched_set_names])
  then show ?case by (simp add: Sigma_Un_distrib1 Un_assoc)
qed simp

lemma distinct_forestD:
  assumes "distinct (forest_names (h # hs))"
  shows "distinct (forest_names [h])" "distinct (forest_names hs)" "distinct (forest_names (hn_children h))"
    "set (forest_names [h]) \<inter> set (forest_names hs) = {}" "set (own_names h) \<inter> set (forest_names (hn_children h)) = {}"
    "hn_id h \<notin> set (forest_names (hn_children h))"
proof -
  show "set (own_names h) \<inter> set (forest_names (hn_children h)) = {}" using assms by simp blast
  then show "hn_id h \<notin> set (forest_names (hn_children h))" using hn_id_own [of h] by blast
  show "set (forest_names [h]) \<inter> set (forest_names hs) = {}" using assms by simp blast
  show "distinct (forest_names [h])" using assms by simp blast
qed (use assms in simp_all)

text \<open>What lies open below an expanded node: each child at its own id.\<close>

definition open_pairs :: "ident set \<Rightarrow> hnode \<Rightarrow> (ident \<times> ident) set" where
  "open_pairs expanded h = (\<Union>c \<in> set (hn_children h). anchor_pairs expanded (hn_id c) c)"

lemma hidden_pairs:
  "a \<notin> set (forest_names [h]) \<Longrightarrow> anchor_pairs expanded a h = set (forest_names [h]) \<times> {a}"
proof (induction h rule: hnode_children_induct)
  case (Node h)
  have sub: "set (forest_names [c]) \<subseteq> set (forest_names [h])" if "c \<in> set (hn_children h)" for c
    using own_names_sub [OF that] by auto
  have "anchor_pairs expanded (child_anchor expanded h a c) c = set (forest_names [c]) \<times> {a}" if "c \<in> set (hn_children h)" for c
  proof -
    have "hn_id h \<noteq> a" using Node.prems hn_id_own [of h] by auto
    then have "child_anchor expanded h a c = a" by (simp add: child_anchor_def)
    moreover have "a \<notin> set (forest_names [c])" using Node.prems sub [OF that] by blast
    ultimately show ?thesis using Node.IH [OF that] by simp
  qed
  then have "anchor_pairs expanded a h = set (own_names h) \<times> {a} \<union> (\<Union>c \<in> set (hn_children h). set (forest_names [c])) \<times> {a}"
    by (simp add: anchor_pairs_unfold [of _ _ h] Sigma_Union)
  moreover have "(\<Union>c \<in> set cs. set (forest_names [c])) = set (forest_names cs)" for cs by (induction cs) auto
  ultimately show ?case by (simp add: Sigma_Un_distrib1)
qed

lemma shown_pairs:
  assumes "distinct (forest_names [h])"
  shows "anchor_pairs expanded (hn_id h) h =
    set (own_names h) \<times> {hn_id h} \<union>
      (if hn_id h \<in> expanded then open_pairs expanded h else set (forest_names (hn_children h)) \<times> {hn_id h})"
proof (cases "hn_id h \<in> expanded")
  case True
  then show ?thesis by (simp add: anchor_pairs_unfold [of _ _ h] child_anchor_def open_pairs_def)
next
  case False
  note apart = distinct_forestD(6) [OF assms]
  have "anchor_pairs expanded (hn_id h) c = set (forest_names [c]) \<times> {hn_id h}" if "c \<in> set (hn_children h)" for c
    using own_names_sub [OF that] apart by (intro hidden_pairs) auto
  then have "anchor_pairs expanded (hn_id h) h = set (own_names h) \<times> {hn_id h} \<union> (\<Union>c \<in> set (hn_children h). set (forest_names [c])) \<times> {hn_id h}"
    using False by (simp add: anchor_pairs_unfold [of _ _ h] child_anchor_def Sigma_Union)
  moreover have "(\<Union>c \<in> set cs. set (forest_names [c])) = set (forest_names cs)" for cs by (induction cs) auto
  ultimately show ?thesis using False by simp
qed

lemma mset_forest_names: "mset (forest_names (concat (map f (rev xs)))) = mset (forest_names (concat (map f xs)))"
  by (induction xs) auto

lemma distinct_mset_cong: "mset xs = mset ys \<Longrightarrow> distinct xs = distinct ys"
  using mset_eq_imp_distinct_iff by blast

text \<open>Collapsed grandchildren: one child after the other.\<close>

lemma patched_collapse_children:
  "distinct (forest_names cs) \<Longrightarrow>
   patched m (set (forest_names cs) \<times> {a}) (fold (\<lambda>c. collapseSubtreeInMap c a) cs m)"
proof (induction cs arbitrary: m)
  case (Cons c cs)
  let ?m = "collapseSubtreeInMap c a m"
  have "patched m (set (forest_names [c]) \<times> {a}) ?m"
    using distinct_forestD(1) [OF Cons.prems] unfolding collapseSubtreeInMap_def by (rule patched_collapse_walk)
  moreover have "patched ?m (set (forest_names cs) \<times> {a}) (fold (\<lambda>c. collapseSubtreeInMap c a) cs ?m)"
    using Cons by simp
  ultimately have "patched m (set (forest_names [c]) \<times> {a} \<union> set (forest_names cs) \<times> {a}) (fold (\<lambda>c. collapseSubtreeInMap c a) cs ?m)"
    using distinct_forestD(4) [OF Cons.prems] by (intro patched_trans) auto
  then show ?case by (simp add: Sigma_Un_distrib1 Un_assoc)
qed simp

text \<open>What the loop over the children of one node writes at once, before the expanded ones are visited.\<close>

definition child_pairs :: "ident set \<Rightarrow> hnode \<Rightarrow> (ident \<times> ident) set" where
  "child_pairs expanded c =
     set (own_names c) \<times> {hn_id c} \<union> (if hn_id c \<in> expanded then {} else set (forest_names (hn_children c)) \<times> {hn_id c})"

lemma fst_child_pairs: "fst ` child_pairs expanded c \<subseteq> set (forest_names [c])"
  by (auto simp: child_pairs_def)

lemma child_pairs_sub: "fst ` (\<Union>c \<in> set hs. child_pairs expanded c) \<subseteq> set (forest_names hs)"
proof (induction hs)
  case (Cons h hs)
  have "fst ` (\<Union>c \<in> set (h # hs). child_pairs expanded c) = fst ` child_pairs expanded h \<union> fst ` (\<Union>c \<in> set hs. child_pairs expanded c)"
    by (simp add: image_Un)
  with Cons fst_child_pairs [of expanded h] show ?case by auto
qed simp

lemma filter_children_sub: "set (forest_names (concat (map hn_children (filter P hs)))) \<subseteq> set (forest_names hs)"
  by (induction hs) auto

lemma distinct_filter_children:
  "distinct (forest_names hs) \<Longrightarrow> distinct (forest_names (concat (map hn_children (filter P hs))))"
proof (induction hs)
  case (Cons h hs)
  have "set (forest_names (hn_children h)) \<inter> set (forest_names hs) = {}" using Cons.prems by simp
  with Cons filter_children_sub [of P hs] show ?case by auto
qed simp

lemma patched_expand_child:
  assumes "distinct (forest_names [c])"
  shows "fst (expand_child expanded c (stack, m)) = (if hn_id c \<in> expanded then c # stack else stack)
    \<and> patched m (child_pairs expanded c) (snd (expand_child expanded c (stack, m)))"
proof (cases "hn_id c \<in> expanded")
  case True
  then show ?thesis using patched_set_names [of m c "hn_id c"] by (simp add: expand_child_def child_pairs_def)
next
  case False
  let ?m = "set_names c (hn_id c) m"
  have "patched ?m (set (forest_names (hn_children c)) \<times> {hn_id c}) (fold (\<lambda>gc. collapseSubtreeInMap gc (hn_id c)) (hn_children c) ?m)"
    using assms by (intro patched_collapse_children) simp
  then have "patched m (set (own_names c) \<times> {hn_id c} \<union> set (forest_names (hn_children c)) \<times> {hn_id c})
      (fold (\<lambda>gc. collapseSubtreeInMap gc (hn_id c)) (hn_children c) ?m)"
    using assms by (intro patched_trans [OF patched_set_names]) auto
  with False show ?thesis by (simp add: expand_child_def child_pairs_def)
qed

lemma patched_expand_children:
  "distinct (forest_names cs) \<Longrightarrow>
   fst (fold (expand_child expanded) cs (stack, m)) = rev (filter (\<lambda>c. hn_id c \<in> expanded) cs) @ stack
   \<and> patched m (\<Union>c \<in> set cs. child_pairs expanded c) (snd (fold (expand_child expanded) cs (stack, m)))"
proof (induction cs arbitrary: stack m)
  case (Cons c cs)
  obtain stack' m' where one: "expand_child expanded c (stack, m) = (stack', m')" by (cases "expand_child expanded c (stack, m)")
  with patched_expand_child [OF distinct_forestD(1) [OF Cons.prems], of expanded stack m]
  have first: "stack' = (if hn_id c \<in> expanded then c # stack else stack)" "patched m (child_pairs expanded c) m'" by auto
  have rest: "fst (fold (expand_child expanded) cs (stack', m')) = rev (filter (\<lambda>c. hn_id c \<in> expanded) cs) @ stack'"
    "patched m' (\<Union>c \<in> set cs. child_pairs expanded c) (snd (fold (expand_child expanded) cs (stack', m')))"
    using Cons by auto
  have "fst ` child_pairs expanded c \<inter> fst ` (\<Union>c \<in> set cs. child_pairs expanded c) = {}"
    using fst_child_pairs [of expanded c] child_pairs_sub [of expanded cs] distinct_forestD(4) [OF Cons.prems] by blast
  then have "patched m (child_pairs expanded c \<union> (\<Union>c \<in> set cs. child_pairs expanded c)) (snd (fold (expand_child expanded) cs (stack', m')))"
    using first(2) rest(2) by (intro patched_trans)
  then show ?case using first(1) rest(1) one by simp
qed simp

text \<open>The pairs of the open subtrees below the nodes of a stack, and those of one node split by its children.\<close>

lemma shown_split:
  assumes "distinct (forest_names [c])"
  shows "anchor_pairs expanded (hn_id c) c = child_pairs expanded c \<union> (if hn_id c \<in> expanded then open_pairs expanded c else {})"
  using shown_pairs [OF assms, of expanded] by (auto simp: child_pairs_def)

lemma distinct_childD: "distinct (forest_names hs) \<Longrightarrow> c \<in> set hs \<Longrightarrow> distinct (forest_names [c])"
  by (induction hs) auto

lemma open_pairs_split:
  assumes "distinct (forest_names (hn_children h))"
  shows "open_pairs expanded h =
    (\<Union>c \<in> set (hn_children h). child_pairs expanded c) \<union>
    (\<Union>c \<in> set (rev (filter (\<lambda>c. hn_id c \<in> expanded) (hn_children h))). open_pairs expanded c)"
proof -
  have "anchor_pairs expanded (hn_id c) c = child_pairs expanded c \<union> (if hn_id c \<in> expanded then open_pairs expanded c else {})"
    if "c \<in> set (hn_children h)" for c
    using shown_split [OF distinct_childD [OF assms that]] .
  then have "open_pairs expanded h =
      (\<Union>c \<in> set (hn_children h). child_pairs expanded c \<union> (if hn_id c \<in> expanded then open_pairs expanded c else {}))"
    unfolding open_pairs_def [of _ h] by (intro SUP_cong) simp_all
  then show ?thesis by (auto split: if_splits)
qed

lemma fst_open_pairs: "fst ` open_pairs expanded h = set (forest_names (hn_children h))"
proof -
  have "(\<Union>c \<in> set cs. set (forest_names [c])) = set (forest_names cs)" for cs by (induction cs) auto
  then show ?thesis by (simp only: open_pairs_def image_UN fst_anchor_pairs cong: SUP_cong)
qed

lemma fst_open_UN:
  "fst ` (\<Union>h \<in> set hs. open_pairs expanded h) = set (forest_names (concat (map hn_children hs)))"
  by (induction hs) (simp_all add: image_Un fst_open_pairs)

text \<open>The names written at once for the children, and those of the nodes put on the stack, are apart.\<close>

lemma split_names_apart:
  "distinct (forest_names cs) \<Longrightarrow>
   fst ` (\<Union>c \<in> set cs. child_pairs expanded c)
     \<inter> set (forest_names (concat (map hn_children (filter (\<lambda>c. hn_id c \<in> expanded) cs)))) = {}"
proof (induction cs)
  case (Cons c cs)
  let ?rest = "set (forest_names (concat (map hn_children (filter (\<lambda>c. hn_id c \<in> expanded) cs))))"
  have "fst ` (\<Union>c \<in> set cs. child_pairs expanded c) \<inter> ?rest = {}" using Cons by simp
  moreover have "fst ` child_pairs expanded c \<inter> ?rest = {}"
    using fst_child_pairs [of expanded c] filter_children_sub [of "\<lambda>c. hn_id c \<in> expanded" cs] distinct_forestD(4) [OF Cons.prems] by blast
  moreover have "fst ` child_pairs expanded c \<inter> set (forest_names (hn_children c)) = {}" if "hn_id c \<in> expanded"
    using that distinct_forestD(5) [OF Cons.prems] by (auto simp: child_pairs_def)
  moreover have "fst ` (\<Union>c \<in> set cs. child_pairs expanded c) \<inter> set (forest_names (hn_children c)) = {}"
  proof -
    have "set (forest_names (hn_children c)) \<subseteq> set (forest_names [c])" by simp
    with child_pairs_sub [of expanded cs] distinct_forestD(4) [OF Cons.prems] show ?thesis by blast
  qed
  ultimately show ?case by (cases "hn_id c \<in> expanded") (simp_all add: image_Un Int_Un_distrib Int_Un_distrib2)
qed simp

lemma patched_expand_walk:
  "distinct (forest_names (concat (map hn_children stack))) \<Longrightarrow>
   patched m (\<Union>h \<in> set stack. open_pairs expanded h) (expand_walk expanded stack m)"
proof (induction expanded stack m rule: expand_walk.induct)
  case (2 expanded h stack m)
  let ?cs = "hn_children h" and ?ex = "filter (\<lambda>c. hn_id c \<in> expanded) (hn_children h)"
  let ?now = "\<Union>c \<in> set ?cs. child_pairs expanded c"
  let ?later = "\<Union>c \<in> set (rev ?ex @ stack). open_pairs expanded c"
  let ?m = "snd (fold (expand_child expanded) ?cs (stack, m))"
  have dist: "distinct (forest_names ?cs)" "distinct (forest_names (concat (map hn_children stack)))"
    "set (forest_names ?cs) \<inter> set (forest_names (concat (map hn_children stack))) = {}"
    using "2.prems" by auto
  have now: "fst (fold (expand_child expanded) ?cs (stack, m)) = rev ?ex @ stack" "patched m ?now ?m"
    using patched_expand_children [OF dist(1), of expanded stack m] by auto
  have "distinct (forest_names (concat (map hn_children (rev ?ex))))"
    using distinct_mset_cong [OF mset_forest_names] distinct_filter_children [OF dist(1)] by blast
  moreover have names: "set (forest_names (concat (map hn_children (rev ?ex)))) = set (forest_names (concat (map hn_children ?ex)))"
    by (rule mset_eq_setD [OF mset_forest_names])
  ultimately have "distinct (forest_names (concat (map hn_children (rev ?ex @ stack))))"
    using dist filter_children_sub [of "\<lambda>c. hn_id c \<in> expanded" ?cs] by auto
  with 2 now(1) have "patched ?m ?later (expand_walk expanded (rev ?ex @ stack) ?m)" by simp
  moreover have "fst ` ?now \<inter> fst ` ?later = {}"
  proof -
    have "fst ` ?later = set (forest_names (concat (map hn_children ?ex))) \<union> set (forest_names (concat (map hn_children stack)))"
      using names by (simp add: image_Un fst_open_UN del: set_rev)
    moreover have "fst ` ?now \<subseteq> set (forest_names ?cs)" by (rule child_pairs_sub)
    ultimately show ?thesis using split_names_apart [OF dist(1), of expanded] dist(3) by blast
  qed
  ultimately have "patched m (?now \<union> ?later) (expand_walk expanded (rev ?ex @ stack) ?m)"
    by (rule patched_trans [OF now(2)])
  then show ?case using now(1) by (simp add: open_pairs_split [OF dist(1)] Un_assoc)
qed simp

section \<open>A patch is a rebuild\<close>

lemma node_names_sub:
  "x \<in> set (forest_nodes hs) \<Longrightarrow> set (own_names x) \<union> set (forest_names (hn_children x)) \<subseteq> set (forest_names hs)"
proof (induction "sum_list (map hnode_size hs)" arbitrary: hs rule: less_induct)
  case less
  show ?case
  proof (cases hs)
    case Nil
    with less.prems show ?thesis by simp
  next
    case (Cons h rest)
    from less.prems consider "x = h" | "x \<in> set (forest_nodes (hn_children h))" | "x \<in> set (forest_nodes rest)"
      by (auto simp: Cons hn_nodes_unfold [of h])
    then show ?thesis
    proof cases
      case 2
      then show ?thesis using less.hyps [of "hn_children h"] by (auto simp: Cons hnode_size_children [of h])
    next
      case 3
      then show ?thesis using less.hyps [of rest] hnode_size_pos [of h] by (auto simp: Cons)
    qed (auto simp: Cons)
  qed
qed

lemma forest_nodes_iff: "x \<in> set (forest_nodes hs) \<longleftrightarrow> (\<exists>h \<in> set hs. x \<in> set (hn_nodes h))"
  by (simp add: forest_nodes_def)

lemma tree_names_sub: "x \<in> set (hn_nodes h) \<Longrightarrow> set (own_names x) \<union> set (forest_names (hn_children x)) \<subseteq> set (forest_names [h])"
  using node_names_sub [of x "[h]"] by simp

lemma anchor_pairs_cong:
  "(\<And>x. x \<in> set (hn_nodes h) \<Longrightarrow> hn_id x \<in> e' \<longleftrightarrow> hn_id x \<in> e) \<Longrightarrow> anchor_pairs e' a h = anchor_pairs e a h"
proof (induction h arbitrary: a rule: hnode_children_induct)
  case (Node h)
  have "child_anchor e' h a = child_anchor e h a" using Node.prems [of h] by (auto simp: child_anchor_def hn_nodes_unfold [of h])
  moreover have "anchor_pairs e' b c = anchor_pairs e b c" if "c \<in> set (hn_children h)" for b c
    using that by (intro Node.IH Node.prems) (auto simp: hn_nodes_unfold [of h] forest_nodes_iff)
  ultimately show ?case by (simp add: anchor_pairs_unfold [of _ _ h])
qed

text \<open>What a node shows below itself: its open subtree, or itself for every name below it.\<close>

definition below_pairs :: "ident set \<Rightarrow> hnode \<Rightarrow> (ident \<times> ident) set" where
  "below_pairs expanded h =
     (if hn_id h \<in> expanded then open_pairs expanded h else set (forest_names (hn_children h)) \<times> {hn_id h})"

lemma fst_below_pairs: "fst ` below_pairs expanded h = set (forest_names (hn_children h))"
  by (auto simp: below_pairs_def fst_open_pairs)

lemma anchor_pairs_key: "(k, v) \<in> anchor_pairs e a h \<Longrightarrow> k \<in> set (forest_names [h])"
  using fst_anchor_pairs [of e a h] by force

lemma children_pairs_key: "c \<in> set cs \<Longrightarrow> (k, v) \<in> anchor_pairs e a c \<Longrightarrow> k \<in> set (forest_names cs)"
  using own_names_sub [of c cs] anchor_pairs_key [of k v e a c] by auto

lemma below_pairs_key: "(k, v) \<in> below_pairs e h \<Longrightarrow> k \<in> set (forest_names (hn_children h))"
  using fst_below_pairs [of e h] by force

lemma shown_below:
  "distinct (forest_names [h]) \<Longrightarrow> anchor_pairs e (hn_id h) h = set (own_names h) \<times> {hn_id h} \<union> below_pairs e h"
  using shown_pairs [of h e] by (simp add: below_pairs_def)

lemma root_anchor: "distinct (forest_names [h]) \<Longrightarrow> (k, v) \<in> anchor_pairs e a h \<Longrightarrow> k \<in> set (own_names h) \<Longrightarrow> v = a"
  using distinct_forestD(5) [of h "[]"] by (auto simp: anchor_pairs_unfold [of e a h] dest: children_pairs_key)

lemma sibling_names_apart:
  assumes "distinct (forest_names cs)" "c \<in> set cs" "c' \<in> set cs" "c \<noteq> c'"
  shows "set (forest_names [c]) \<inter> set (forest_names [c']) = {}"
  using assms
proof (induction cs)
  case (Cons h cs)
  have sub: "set (forest_names [x]) \<subseteq> set (forest_names cs)" if "x \<in> set cs" for x using own_names_sub [OF that] by simp
  note apart = distinct_forestD(4) [OF Cons.prems(1)] and rest = distinct_forestD(2) [OF Cons.prems(1)]
  from Cons.prems(2-4) consider "c = h" "c' \<in> set cs" | "c' = h" "c \<in> set cs" | "c \<in> set cs" "c' \<in> set cs" by auto
  then show ?case
  proof cases
    case 1
    with apart sub [of c'] show ?thesis by blast
  next
    case 2
    with apart sub [of c] show ?thesis by blast
  next
    case 3
    with Cons.IH [OF rest] Cons.prems(4) show ?thesis by blast
  qed
qed simp

text \<open>
  When only the node \<open>x\<close>, which is shown, is expanded or collapsed, the pairs of the new state are
  those of the old one, except below \<open>x\<close>.
\<close>

lemma toggled_pairs:
  assumes "distinct (forest_names [t])" "x \<in> set (hn_nodes t)" "a = hn_id t \<or> a \<notin> set (forest_names [t])"
    and "(hn_id x, hn_id x) \<in> anchor_pairs e a t" and "\<And>n. n \<noteq> hn_id x \<Longrightarrow> n \<in> e' \<longleftrightarrow> n \<in> e"
    and "(k, v) \<in> anchor_pairs e' a t"
  shows "if k \<in> set (forest_names (hn_children x)) then (k, v) \<in> below_pairs e' x else (k, v) \<in> anchor_pairs e a t"
  using assms
proof (induction t arbitrary: a rule: hnode_children_induct)
  case (Node t)
  note dist = Node.prems(1) and top = distinct_forestD [OF Node.prems(1)]
  show ?case
  proof (cases "x = t")
    case True
    then have "a = hn_id t" using root_anchor [OF dist Node.prems(4)] by simp
    with Node.prems(6) have "(k, v) \<in> set (own_names t) \<times> {hn_id t} \<union> below_pairs e' t" by (simp add: shown_below [OF dist])
    then consider "k \<in> set (own_names t)" "v = hn_id t" | "(k, v) \<in> below_pairs e' t" by auto
    then show ?thesis
    proof cases
      case 1
      then have "k \<notin> set (forest_names (hn_children t))" using top(5) by blast
      with 1 show ?thesis by (simp add: True \<open>a = hn_id t\<close> shown_below [OF dist])
    next
      case 2
      with below_pairs_key [OF 2] show ?thesis by (simp add: True)
    qed
  next
    case False
    then obtain c where c: "c \<in> set (hn_children t)" "x \<in> set (hn_nodes c)"
      using Node.prems(2) by (auto simp: hn_nodes_unfold [of t] forest_nodes_iff)
    have x_names: "set (own_names x) \<union> set (forest_names (hn_children x)) \<subseteq> set (forest_names [c])" by (rule tree_names_sub [OF c(2)])
    have c_names: "set (forest_names [c]) \<subseteq> set (forest_names (hn_children t))" using own_names_sub [OF c(1)] by simp
    have "hn_id x \<in> set (forest_names (hn_children t))" using x_names c_names hn_id_own [of x] by blast
    then have "hn_id x \<noteq> hn_id t" using top(6) by auto
    then have anchors: "child_anchor e' t a = child_anchor e t a" using Node.prems(5) by (auto simp: child_anchor_def)
    from Node.prems(6) consider "k \<in> set (own_names t)" "v = a"
      | c' where "c' \<in> set (hn_children t)" "(k, v) \<in> anchor_pairs e' (child_anchor e t a c') c'"
      by (auto simp: anchor_pairs_unfold [of e' a t] anchors)
    then show ?thesis
    proof cases
      case 1
      then have "k \<notin> set (forest_names (hn_children x))" using top(5) x_names c_names by blast
      with 1 show ?thesis by (simp add: anchor_pairs_unfold [of e a t])
    next
      case 2
      have cdist: "distinct (forest_names [c])" by (rule distinct_childD [OF top(3) c(1)])
      show ?thesis
      proof (cases "c' = c")
        case True
        have "hn_id t \<notin> set (forest_names [c])" using top(6) c_names by blast
        then have anchor: "child_anchor e t a c = hn_id c \<or> child_anchor e t a c \<notin> set (forest_names [c])"
          using Node.prems(3) c_names by (auto simp: child_anchor_def)
        have "hn_id x \<notin> set (own_names t)" using top(5) x_names c_names hn_id_own [of x] by blast
        with Node.prems(4) obtain d where d: "d \<in> set (hn_children t)" "(hn_id x, hn_id x) \<in> anchor_pairs e (child_anchor e t a d) d"
          by (auto simp: anchor_pairs_unfold [of e a t])
        have "d = c" using sibling_names_apart [OF top(3) d(1) c(1)] anchor_pairs_key [OF d(2)] x_names hn_id_own [of x] by blast
        with d(2) have "if k \<in> set (forest_names (hn_children x)) then (k, v) \<in> below_pairs e' x else (k, v) \<in> anchor_pairs e (child_anchor e t a c) c"
          using 2(2) True by (intro Node.IH [OF c(1) cdist c(2) anchor _ Node.prems(5)]) simp_all
        then show ?thesis using c(1) by (auto simp: anchor_pairs_unfold [of e a t] split: if_splits)
      next
        case False
        have apart: "set (forest_names [c']) \<inter> set (forest_names [c]) = {}"
          by (rule sibling_names_apart [OF top(3) 2(1) c(1) False])
        have "hn_id y \<noteq> hn_id x" if "y \<in> set (hn_nodes c')" for y
        proof -
          have "hn_id y \<in> set (forest_names [c'])" "hn_id x \<in> set (forest_names [c])"
            using tree_names_sub [OF that] x_names hn_id_own [of x] hn_id_own [of y] by blast+
          with apart show ?thesis by (metis disjoint_iff)
        qed
        then have "anchor_pairs e' (child_anchor e t a c') c' = anchor_pairs e (child_anchor e t a c') c'"
          by (intro anchor_pairs_cong Node.prems(5))
        with 2 have "(k, v) \<in> anchor_pairs e a t" by (auto simp: anchor_pairs_unfold [of e a t])
        moreover have "k \<notin> set (forest_names (hn_children x))" using anchor_pairs_key [OF 2(2)] apart x_names by blast
        ultimately show ?thesis by simp
      qed
    qed
  qed
qed

text \<open>The whole forest, each root at its own id, and the index of its nodes.\<close>

definition forest_pairs :: "ident set \<Rightarrow> hnode list \<Rightarrow> (ident \<times> ident) set" where
  "forest_pairs expanded hs = (\<Union>h \<in> set hs. anchor_pairs expanded (hn_id h) h)"

lemma fst_forest_pairs: "fst ` forest_pairs expanded hs = set (forest_names hs)"
  by (induction hs) (simp_all add: forest_pairs_def image_Un fst_anchor_pairs Un_assoc)

lemma patched_lookup: "patched m ps m' \<Longrightarrow> k \<in> fst ` ps \<Longrightarrow> \<exists>v. (k, v) \<in> ps \<and> mget m' k = Some v"
  by (force simp: patched_def)

lemma patched_fresh_iff: assumes "patched [] ps m" shows "mget m k = Some v \<longleftrightarrow> (k, v) \<in> ps"
proof
  assume "mget m k = Some v"
  then show "(k, v) \<in> ps" using patched_lookup [OF assms, of k] assms by (cases "k \<in> fst ` ps") (auto simp: patched_def)
qed (use assms in \<open>simp add: patched_def\<close>)

lemma keep_visible_known:
  "mhas m (hn_id h) \<Longrightarrow> hn_urn h = '''' \<or> mhas m (hn_urn h) \<Longrightarrow> keep_visible h m = m"
  by (auto simp: keep_visible_def Let_def)

lemma urn_own: "hn_urn h \<noteq> '''' \<Longrightarrow> hn_urn h \<in> set (own_names h)"
  by (simp add: own_names_def)

lemma fold_keep_visible_known:
  "(\<And>h k. h \<in> set flat \<Longrightarrow> k \<in> set (own_names h) \<Longrightarrow> mget m k \<noteq> None) \<Longrightarrow> fold keep_visible flat m = m"
proof (induction flat)
  case (Cons h flat)
  have "keep_visible h m = m" using Cons.prems [of h] urn_own [of h] by (intro keep_visible_known) auto
  moreover have "fold keep_visible flat m = m" by (rule Cons.IH) (metis Cons.prems list.set_intros(2))
  ultimately show ?case by simp
qed simp

text \<open>The full build, when the flat list has nodes of the forest only.\<close>

definition flat_known :: "(ident, hnode list) jsmap \<Rightarrow> hnode list \<Rightarrow> bool" where
  "flat_known byLayer flat \<longleftrightarrow> set (forest_names flat) \<subseteq> set (forest_names (root_stack byLayer))"

lemma patched_full_map:
  assumes "distinct (forest_names (root_stack byLayer))" "flat_known byLayer flat"
  shows "patched [] (forest_pairs expanded (root_stack byLayer)) (buildFullAncestorMap byLayer expanded flat)"
proof -
  let ?walk = "full_walk expanded (map (\<lambda>h. (h, hn_id h)) (root_stack byLayer)) []"
  have walk: "patched [] (forest_pairs expanded (root_stack byLayer)) ?walk"
    using patched_full_walk [of "map (\<lambda>h. (h, hn_id h)) (root_stack byLayer)" "[]" expanded] assms(1)
    by (simp add: forest_pairs_def comp_def)
  have "mget ?walk k \<noteq> None" if "h \<in> set flat" "k \<in> set (own_names h)" for h k
  proof -
    have "k \<in> set (forest_names (root_stack byLayer))" using own_names_sub [OF that(1)] that(2) assms(2) by (auto simp: flat_known_def)
    then show ?thesis using patched_lookup [OF walk] by (fastforce simp: fst_forest_pairs)
  qed
  then have "fold keep_visible flat ?walk = ?walk" by (rule fold_keep_visible_known)
  with walk show ?thesis by (simp add: buildFullAncestorMap_def)
qed

lemma patched_index_walk:
  "distinct (forest_names stack) \<Longrightarrow> patched m ((\<lambda>h. (hn_id h, h)) ` set (forest_nodes stack)) (index_walk stack m)"
proof (induction stack m rule: index_walk.induct)
  case (2 h stack m)
  let ?rest = "(\<lambda>h. (hn_id h, h)) ` set (forest_nodes (hn_children h @ stack))"
  have "patched (mset_key (hn_id h) h m) ?rest (index_walk (hn_children h @ stack) (mset_key (hn_id h) h m))"
    using "2.prems" by (intro "2.IH") simp
  moreover have "patched m {(hn_id h, h)} (mset_key (hn_id h) h m)" by (auto simp: patched_def)
  moreover have "hn_id h \<notin> fst ` ?rest"
  proof
    assume "hn_id h \<in> fst ` ?rest"
    then obtain x where "x \<in> set (forest_nodes (hn_children h @ stack))" "hn_id x = hn_id h"
      unfolding image_image fst_conv by (metis imageE)
    then have "hn_id h \<in> set (forest_names (hn_children h @ stack))" using node_names_sub hn_id_own [of x] by (metis le_sup_iff subset_iff)
    moreover have "set (own_names h) \<inter> set (forest_names (hn_children h @ stack)) = {}" using "2.prems" by simp
    ultimately show False using hn_id_own [of h] by blast
  qed
  ultimately have "patched m ({(hn_id h, h)} \<union> ?rest) (index_walk (hn_children h @ stack) (mset_key (hn_id h) h m))"
    by (intro patched_trans) auto
  then show ?case by (simp add: hn_nodes_unfold [of h] Un_assoc image_Un)
qed simp

lemma node_index_iff:
  assumes "distinct (forest_names (root_stack byLayer))"
  shows "mget (buildNodeIndex byLayer) n = Some x \<longleftrightarrow> x \<in> set (forest_nodes (root_stack byLayer)) \<and> hn_id x = n"
  using patched_fresh_iff [OF patched_index_walk [OF assms]] by (auto simp: buildNodeIndex_def)

text \<open>One click on an expander, and the patch it leads to.\<close>

definition click :: "ident \<Rightarrow> ident list \<Rightarrow> ident list" where
  "click n expanded = (if n \<in> set expanded then filter (\<lambda>k. k \<noteq> n) expanded else expanded @ [n])"

lemma distinct_click [simp]: "distinct expanded \<Longrightarrow> distinct (click n expanded)"
  by (auto simp: click_def)

lemma in_click: "n' \<noteq> n \<Longrightarrow> n' \<in> set (click n expanded) \<longleftrightarrow> n' \<in> set expanded"
  "n \<in> set (click n expanded) \<longleftrightarrow> n \<notin> set expanded"
  by (auto simp: click_def)

lemma filter_eq_distinct: "distinct xs \<Longrightarrow> filter (\<lambda>k. k = n) xs = (if n \<in> set xs then [n] else [])"
  by (induction xs) auto

lemma patch_of_click:
  assumes "distinct expanded"
  shows "patchAncestorMap byLayer expanded (click n expanded) m =
    (if n \<in> set expanded then collapse_in_map (buildNodeIndex byLayer) n m
     else expand_in_map (buildNodeIndex byLayer) (set (click n expanded)) n m)"
proof (cases "n \<in> set expanded")
  case True
  then have "filter (\<lambda>k. k \<notin> set expanded) (click n expanded) = []" by (simp add: click_def filter_empty_conv)
  moreover have "filter (\<lambda>k. k \<notin> set (click n expanded)) expanded = filter (\<lambda>k. k = n) expanded"
    using True by (intro filter_cong) (auto simp: click_def)
  ultimately show ?thesis using True assms by (simp add: patchAncestorMap_def Let_def filter_eq_distinct)
next
  case False
  then have "filter (\<lambda>k. k \<notin> set expanded) (click n expanded) = [n]" by (simp add: click_def filter_empty_conv)
  moreover have "filter (\<lambda>k. k \<notin> set (click n expanded)) expanded = []" using False by (simp add: click_def filter_empty_conv)
  ultimately show ?thesis using False by (simp add: patchAncestorMap_def Let_def)
qed

lemma patched_click:
  assumes "distinct (forest_names (root_stack byLayer))" "distinct expanded"
    and x: "x \<in> set (forest_nodes (root_stack byLayer))" "hn_id x = n"
  shows "patched m (below_pairs (set (click n expanded)) x) (patchAncestorMap byLayer expanded (click n expanded) m)"
proof -
  have index: "mget (buildNodeIndex byLayer) n = Some x" using assms by (simp add: node_index_iff)
  have "distinct (forest_names hs) \<Longrightarrow> x \<in> set (forest_nodes hs) \<Longrightarrow> distinct (forest_names (hn_children x))" for hs
  proof (induction "sum_list (map hnode_size hs)" arbitrary: hs rule: less_induct)
    case less
    show ?case
    proof (cases hs)
      case Nil
      with less.prems show ?thesis by simp
    next
      case (Cons h rest)
      from less.prems consider "x = h" | "x \<in> set (forest_nodes (hn_children h))" | "x \<in> set (forest_nodes rest)"
        by (auto simp: Cons hn_nodes_unfold [of h])
      then show ?thesis
      proof cases
        case 2
        then show ?thesis using less.hyps [of "hn_children h"] less.prems by (auto simp: Cons hnode_size_children [of h])
      next
        case 3
        then show ?thesis using less.hyps [of rest] less.prems hnode_size_pos [of h] by (auto simp: Cons)
      qed (use less.prems in \<open>auto simp: Cons\<close>)
    qed
  qed
  then have dist: "distinct (forest_names (hn_children x))" using assms by blast
  show ?thesis
  proof (cases "n \<in> set expanded")
    case True
    then show ?thesis using patched_collapse_children [OF dist, of m n] x(2)
      by (simp add: patch_of_click [OF assms(2)] collapse_in_map_def index below_pairs_def in_click)
  next
    case False
    then show ?thesis using patched_expand_walk [of "[x]" m "set (click n expanded)"] dist x(2)
      by (simp add: patch_of_click [OF assms(2)] expand_in_map_def expandNodeInMap_def index below_pairs_def in_click)
  qed
qed

lemma forest_toggled_pairs:
  assumes dist: "distinct (forest_names hs)" and x: "x \<in> set (forest_nodes hs)" "hn_id x = n"
    and shown: "(n, n) \<in> forest_pairs (set expanded) hs" and kv: "(k, v) \<in> forest_pairs (set (click n expanded)) hs"
  shows "if k \<in> set (forest_names (hn_children x)) then (k, v) \<in> below_pairs (set (click n expanded)) x else (k, v) \<in> forest_pairs (set expanded) hs"
proof -
  obtain t where t: "t \<in> set hs" "x \<in> set (hn_nodes t)" using x(1) by (auto simp: forest_nodes_iff)
  obtain t' where t': "t' \<in> set hs" "(k, v) \<in> anchor_pairs (set (click n expanded)) (hn_id t') t'" using kv by (auto simp: forest_pairs_def)
  note tree = distinct_childD [OF dist t(1)] and x_names = tree_names_sub [OF t(2)]
  have n_in: "n \<in> set (forest_names [t])" using x_names hn_id_own [of x] x(2) by blast
  show ?thesis
  proof (cases "t' = t")
    case True
    obtain d where d: "d \<in> set hs" "(n, n) \<in> anchor_pairs (set expanded) (hn_id d) d" using shown by (auto simp: forest_pairs_def)
    have "d = t" using sibling_names_apart [OF dist d(1) t(1)] anchor_pairs_key [OF d(2)] n_in by blast
    then have shown_t: "(hn_id x, hn_id x) \<in> anchor_pairs (set expanded) (hn_id t) t" using d(2) x(2) by simp
    have "if k \<in> set (forest_names (hn_children x)) then (k, v) \<in> below_pairs (set (click n expanded)) x
          else (k, v) \<in> anchor_pairs (set expanded) (hn_id t) t"
      using t'(2) True x(2) by (intro toggled_pairs [OF tree t(2) _ shown_t]) (auto simp: in_click)
    then show ?thesis using t(1) by (auto simp: forest_pairs_def split: if_splits)
  next
    case False
    have apart: "set (forest_names [t']) \<inter> set (forest_names [t]) = {}" by (rule sibling_names_apart [OF dist t'(1) t(1) False])
    have "hn_id y \<noteq> n" if "y \<in> set (hn_nodes t')" for y
    proof -
      have "hn_id y \<in> set (forest_names [t'])" using tree_names_sub [OF that] hn_id_own [of y] by blast
      with apart n_in show ?thesis by (metis disjoint_iff)
    qed
    then have "anchor_pairs (set (click n expanded)) (hn_id t') t' = anchor_pairs (set expanded) (hn_id t') t'"
      by (intro anchor_pairs_cong in_click(1))
    with t' have "(k, v) \<in> forest_pairs (set expanded) hs" by (auto simp: forest_pairs_def)
    moreover have "k \<notin> set (forest_names (hn_children x))" using anchor_pairs_key [OF t'(2)] apart x_names by blast
    ultimately show ?thesis by simp
  qed
qed

text \<open>A node that no expander belongs to changes nothing.\<close>

lemma click_foreign:
  assumes "distinct (forest_names (root_stack byLayer))" "distinct expanded"
    and "\<And>x. x \<in> set (forest_nodes (root_stack byLayer)) \<Longrightarrow> hn_id x \<noteq> n"
  shows "patchAncestorMap byLayer expanded (click n expanded) m = m"
    and "forest_pairs (set (click n expanded)) (root_stack byLayer) = forest_pairs (set expanded) (root_stack byLayer)"
proof -
  have "mget (buildNodeIndex byLayer) n = None" using assms(3) node_index_iff [OF assms(1), of n] by (cases "mget (buildNodeIndex byLayer) n") auto
  then show "patchAncestorMap byLayer expanded (click n expanded) m = m"
    by (simp add: patch_of_click [OF assms(2)] collapse_in_map_def expand_in_map_def)
  have "anchor_pairs (set (click n expanded)) (hn_id h) h = anchor_pairs (set expanded) (hn_id h) h" if "h \<in> set (root_stack byLayer)" for h
    using that assms(3) by (intro anchor_pairs_cong in_click(1)) (auto simp: forest_nodes_iff)
  then show "forest_pairs (set (click n expanded)) (root_stack byLayer) = forest_pairs (set expanded) (root_stack byLayer)"
    by (simp add: forest_pairs_def)
qed

lemma click_keeps_pairs:
  assumes dist: "distinct (forest_names (root_stack byLayer))" "distinct expanded"
    and old: "patched [] (forest_pairs (set expanded) (root_stack byLayer)) m" and shown: "mget m n = Some n"
  shows "patched [] (forest_pairs (set (click n expanded)) (root_stack byLayer)) (patchAncestorMap byLayer expanded (click n expanded) m)"
proof (cases "\<exists>x \<in> set (forest_nodes (root_stack byLayer)). hn_id x = n")
  case False
  with click_foreign [OF dist] old show ?thesis by auto
next
  case True
  then obtain x where x: "x \<in> set (forest_nodes (root_stack byLayer))" "hn_id x = n" by blast
  let ?new = "patchAncestorMap byLayer expanded (click n expanded) m"
  have patch: "patched m (below_pairs (set (click n expanded)) x) ?new" by (rule patched_click [OF dist x])
  have "mget ?new k = Some v" if "(k, v) \<in> forest_pairs (set (click n expanded)) (root_stack byLayer)" for k v
    using forest_toggled_pairs [OF dist(1) x patched_fresh_iff [OF old, THEN iffD1, OF shown] that]
      patch old by (auto simp: patched_def fst_below_pairs split: if_splits)
  moreover have "mget ?new k = None" if "k \<notin> set (forest_names (root_stack byLayer))" for k
  proof -
    have "k \<notin> set (forest_names (hn_children x))" using node_names_sub [OF x(1)] that by blast
    then show ?thesis using patch old that by (simp add: patched_def fst_below_pairs fst_forest_pairs)
  qed
  ultimately show ?thesis by (simp add: patched_def fst_forest_pairs)
qed

text \<open>A run of clicks, each on a node that is shown at that time.\<close>

fun click_run :: "nat \<Rightarrow> (ident, hnode list) jsmap \<Rightarrow> hnode list \<Rightarrow> ident list \<Rightarrow> ancestor_memo \<Rightarrow> ancestor_memo" where
  "click_run r byLayer flat [] memo = memo"
| "click_run r byLayer flat (n # ns) memo =
     click_run r byLayer flat ns (ancestorMap_render r byLayer (click n (am_expanded memo)) flat memo)"

fun clicks_shown :: "nat \<Rightarrow> (ident, hnode list) jsmap \<Rightarrow> hnode list \<Rightarrow> ident list \<Rightarrow> ancestor_memo \<Rightarrow> bool" where
  "clicks_shown r byLayer flat [] memo \<longleftrightarrow> True"
| "clicks_shown r byLayer flat (n # ns) memo \<longleftrightarrow>
     mget (am_map memo) n = Some n \<and>
     clicks_shown r byLayer flat ns (ancestorMap_render r byLayer (click n (am_expanded memo)) flat memo)"

lemma click_run_patched:
  assumes "distinct (forest_names (root_stack byLayer))" "am_layersRef memo = Some r" "distinct (am_expanded memo)"
    and "patched [] (forest_pairs (set (am_expanded memo)) (root_stack byLayer)) (am_map memo)"
    and "clicks_shown r byLayer flat ns memo"
  shows "patched [] (forest_pairs (set (am_expanded (click_run r byLayer flat ns memo))) (root_stack byLayer)) (am_map (click_run r byLayer flat ns memo))"
  using assms(2-)
proof (induction ns arbitrary: memo)
  case (Cons n ns)
  let ?memo = "ancestorMap_render r byLayer (click n (am_expanded memo)) flat memo"
  have "patched [] (forest_pairs (set (am_expanded ?memo)) (root_stack byLayer)) (am_map ?memo)"
    using Cons.prems click_keeps_pairs [OF assms(1) Cons.prems(2,3), of n] by (simp add: ancestorMap_render_def)
  moreover have "am_layersRef ?memo = Some r" "distinct (am_expanded ?memo)"
    using Cons.prems by (simp_all add: ancestorMap_render_def)
  ultimately show ?case using Cons.IH [of ?memo] Cons.prems by simp
qed simp

lemma patched_fresh_unique: "patched [] ps m \<Longrightarrow> patched [] ps m' \<Longrightarrow> mget m = mget m'"
proof (rule ext)
  fix k
  assume m: "patched [] ps m" "patched [] ps m'"
  show "mget m k = mget m' k"
    by (metis patched_fresh_iff [OF m(1)] patched_fresh_iff [OF m(2)] not_None_eq)
qed

text \<open>C23: The incremental map of visible ancestors is exact: start from a full build and click any
  expanders that are shown at the time, and the patched map answers every lookup as a build from
  scratch would, given that no two nodes of the layers share a name.\<close>

theorem patched_ancestors_equal_rebuild:
  assumes "distinct (forest_names (root_stack byLayer))" "flat_known byLayer flat" "distinct expanded"
    and "am_layersRef memo \<noteq> Some r" and "clicks_shown r byLayer flat ns (ancestorMap_render r byLayer expanded flat memo)"
  shows "mget (am_map (click_run r byLayer flat ns (ancestorMap_render r byLayer expanded flat memo))) =
    mget (buildFullAncestorMap byLayer (set (am_expanded (click_run r byLayer flat ns (ancestorMap_render r byLayer expanded flat memo)))) flat)"
proof (rule patched_fresh_unique)
  let ?start = "ancestorMap_render r byLayer expanded flat memo"
  have start: "am_layersRef ?start = Some r" "am_expanded ?start = expanded" "am_map ?start = buildFullAncestorMap byLayer (set expanded) flat"
    using assms(4) by (simp_all add: ancestorMap_render_def)
  show "patched [] (forest_pairs (set (am_expanded (click_run r byLayer flat ns ?start))) (root_stack byLayer)) (am_map (click_run r byLayer flat ns ?start))"
    using assms start by (intro click_run_patched) (simp_all add: patched_full_map)
  show "patched [] (forest_pairs (set (am_expanded (click_run r byLayer flat ns ?start))) (root_stack byLayer))
      (buildFullAncestorMap byLayer (set (am_expanded (click_run r byLayer flat ns ?start))) flat)"
    by (rule patched_full_map [OF assms(1,2)])
qed

text \<open>
  Two nodes closed at once are not covered: the parent is patched first, as it was expanded first,
  and the child then claims its own children although it is hidden itself.
\<close>

definition closing_layers :: "(ident, hnode list) jsmap" where
  "closing_layers = [(''L'', [plain_hnode ''p'' [plain_hnode ''c'' [plain_hnode ''d'' []]]])]"

lemma closing_parent_and_child:
  "mget (patchAncestorMap closing_layers [''p'', ''c''] [] (buildFullAncestorMap closing_layers {''p'', ''c''} [])) ''d'' = Some ''c''"
  "mget (buildFullAncestorMap closing_layers {} []) ''d'' = Some ''p''"
  "mget (buildFullAncestorMap closing_layers {} []) ''c'' = Some ''p''"
  by code_simp+

lemma patched_ancestors_equal_rebuild_witness:
  "mget (am_map (click_run 1 closing_layers [] [''p'', ''c'', ''p''] (ancestorMap_render 1 closing_layers [] [] initial_memo))) =
     mget (buildFullAncestorMap closing_layers {''c''} [])"
proof -
  have "distinct (forest_names (root_stack closing_layers))" by code_simp
  moreover have "flat_known closing_layers []" by (simp add: flat_known_def)
  moreover have "clicks_shown 1 closing_layers [] [''p'', ''c'', ''p''] (ancestorMap_render 1 closing_layers [] [] initial_memo)" by code_simp
  moreover have "am_expanded (click_run 1 closing_layers [] [''p'', ''c'', ''p''] (ancestorMap_render 1 closing_layers [] [] initial_memo)) = [''c'']"
    by code_simp
  ultimately show ?thesis
    using patched_ancestors_equal_rebuild [of closing_layers "[]" "[]" initial_memo 1 "[''p'', ''c'', ''p'']"]
    by (simp add: initial_memo_def)
qed

end
