(* ===== verification/Edge_Projection.thy ===== *)
theory Edge_Projection
  imports Aggregated_Lineage Ancestor_Map
begin

text \<open>
  What is drawn between the visible nodes of the canvas (\<^verbatim>\<open>hooks/useEdgeProjection.ts\<close>, second half): the
  projection of aggregated, regular and detailed edges onto visible pairs, with the two kinds of
  bundling, the merge of opposite directions and the delegation marks. Group keys are the strings of
  the code, arrow included. The projected edges have distinct ids, so that membership of a value
  stands for the object identity of the code.
\<close>

section \<open>Input of the projection\<close>

record projection_input =
  px_edges :: "lineage_edge list"
  px_aggregated :: "(ident, agg_state) jsmap"
  px_nodeIndex :: "(ident, hnode) jsmap"
  px_ancestorMap :: "(ident, ident) jsmap"
  px_expanded :: "ident list"
  px_displayMap :: "(ident, hnode) jsmap"
  px_urnToIdMap :: "(urn, ident) jsmap"
  px_showLineageFlow :: bool
  px_isTracing :: bool
  px_traceContext :: "ident set"
  px_isContainment :: "string \<Rightarrow> bool"
  px_hovered :: "ident option"
  px_suppressed :: "string set option"
  px_traceAdded :: "ident set option"
  px_traceParents :: "parent_map option"
  px_typeLevels :: "(string, int) jsmap option"
  px_focusLevel :: "int option"
  px_browseEnabled :: bool
  px_browseParents :: "parent_map option"
  px_fanIn :: int
  px_layerIndex :: "(ident, int) jsmap option"

definition arrow_key :: "ident \<Rightarrow> ident \<Rightarrow> string" where
  "arrow_key s t = s @ ''->'' @ t"

text \<open>\<^verbatim>\<open>split('->')\<close>, of which the code uses the first two parts.\<close>

fun split_arrow :: "string \<Rightarrow> string list" where
  "split_arrow [] = [[]]"
| "split_arrow [c] = [[c]]"
| "split_arrow (c # c' # s) =
     (if c = CHR ''-'' \<and> c' = CHR ''>'' then [] # split_arrow s
      else (case split_arrow (c' # s) of [] \<Rightarrow> [[c]] | w # ws \<Rightarrow> (c # w) # ws))"

definition arrow_ends :: "string \<Rightarrow> ident \<times> ident" where
  "arrow_ends key = (case split_arrow key of s # t # _ \<Rightarrow> (s, t) | [s] \<Rightarrow> (s, '''') | [] \<Rightarrow> ('''', ''''))"

section \<open>Lineage edges\<close>

definition detailed_data :: "graph_edge \<Rightarrow> edge_data" where
  "detailed_data de = \<lparr>d_edgeType = Some (ge_edgeType de), d_relationship = Some (ge_edgeType de),
     d_confidence = ge_confidence de, d_isAggregated = False, d_edgeTypes = None\<rparr>"

definition aggregated_data :: "agg_info \<Rightarrow> edge_data" where
  "aggregated_data agg = \<lparr>d_edgeType = Some ''AGGREGATED'', d_relationship = Some ''aggregated'',
     d_confidence = Some (ai_confidence agg), d_isAggregated = True, d_edgeTypes = Some (ai_edgeTypes agg)\<rparr>"

definition lineageEdges :: "projection_input \<Rightarrow> lineage_edge list" where
  "lineageEdges i =
     (if \<not> px_showLineageFlow i then []
      else map (\<lambda>(k, e). let agg = as_aggregated e in
                  \<lparr>edge_id = ai_id agg, edge_source = ai_sourceUrn agg, edge_target = ai_targetUrn agg,
                   edge_data_of = Some (aggregated_data agg)\<rparr>)
             (filter (\<lambda>(k, e). as_state e = Collapsed) (px_aggregated i))
         @ concat (map (\<lambda>(k, e). map (\<lambda>de. \<lparr>edge_id = ge_id de, edge_source = ge_sourceUrn de, edge_target = ge_targetUrn de,
                     edge_data_of = Some (detailed_data de)\<rparr>)
                   (filter (\<lambda>de. \<not> px_isContainment i (ge_edgeType de)) (as_detailedEdges e)))
             (filter (\<lambda>(k, e). as_state e = Expanded) (px_aggregated i)))
         @ filter (\<lambda>e. \<not> px_isContainment i (normalizeEdgeType e)
               \<and> (mhas (px_displayMap i) (edge_source e) \<or> mhas (px_displayMap i) (edge_target e))) (px_edges i))"

section \<open>Groups\<close>

text \<open>
  An edge in its group. The fields \<^verbatim>\<open>originalSourceId\<close> and \<^verbatim>\<open>originalTargetId\<close> the ghost mark reads
  are set by nobody.
\<close>

record grouped_edge =
  gr_id :: ident
  gr_source :: ident
  gr_target :: ident
  gr_data :: edge_data
  gr_originalType :: string
  gr_originalSourceId :: "ident option"
  gr_originalTargetId :: "ident option"
  gr_browseBundled :: bool

type_synonym groups = "(string, grouped_edge list) jsmap"

definition addEdgeToGroup :: "ident \<Rightarrow> ident \<Rightarrow> ident \<Rightarrow> edge_data \<Rightarrow> string \<Rightarrow> groups \<Rightarrow> groups" where
  "addEdgeToGroup s t eid d ty g =
     mset_key (arrow_key s t)
       (nullish (mget g (arrow_key s t)) [] @
          [\<lparr>gr_id = eid, gr_source = s, gr_target = t, gr_data = d, gr_originalType = ty, gr_originalSourceId = None,
            gr_originalTargetId = None, gr_browseBundled = False\<rparr>]) g"

text \<open>Two resolved endpoints of an edge that is to be drawn.\<close>

definition distinct_ends :: "ident option \<Rightarrow> ident option \<Rightarrow> (ident \<times> ident) option" where
  "distinct_ends s t = (if truthy s \<and> truthy t \<and> s \<noteq> t then Some (the s, the t) else None)"

definition or_lookup :: "ident option \<Rightarrow> ident option \<Rightarrow> ident option" where
  "or_lookup a b = (if truthy a then a else b)"

definition agg_end :: "projection_input \<Rightarrow> urn \<Rightarrow> ident option" where
  "agg_end i u =
     or_lookup (if mhas (px_displayMap i) u then Some u else mget (px_ancestorMap i) u) (mget (px_urnToIdMap i) u)"

definition suppressed :: "projection_input \<Rightarrow> urn \<Rightarrow> urn \<Rightarrow> bool" where
  "suppressed i s t \<longleftrightarrow> (case px_suppressed i of None \<Rightarrow> False | Some keys \<Rightarrow> arrow_key s t \<in> keys)"

definition agg_ends :: "projection_input \<Rightarrow> agg_state \<Rightarrow> (ident \<times> ident) option" where
  "agg_ends i e =
     (let agg = as_aggregated e
      in if as_state e \<noteq> Collapsed \<or> (px_isTracing i \<and> suppressed i (ai_sourceUrn agg) (ai_targetUrn agg)) then None
         else distinct_ends (agg_end i (ai_sourceUrn agg)) (agg_end i (ai_targetUrn agg)))"

definition unresolved_aggregated :: "projection_input \<Rightarrow> nat" where
  "unresolved_aggregated i =
     length (filter (\<lambda>(k, e). let agg = as_aggregated e in
        as_state e = Collapsed \<and> \<not> (px_isTracing i \<and> suppressed i (ai_sourceUrn agg) (ai_targetUrn agg))
        \<and> \<not> truthy (agg_end i (ai_sourceUrn agg)) \<and> \<not> truthy (agg_end i (ai_targetUrn agg))) (px_aggregated i))"

text \<open>\<^verbatim>\<open>projectToTraceLevel\<close>: up to an ancestor at the level of the trace, guarded against cycles.\<close>

definition level_of :: "projection_input \<Rightarrow> ident \<Rightarrow> int option" where
  "level_of i n =
     (let node = (case mget (px_nodeIndex i) n of None \<Rightarrow> mget (px_displayMap i) n | Some h \<Rightarrow> Some h);
          entityType = (case node of
                          None \<Rightarrow> None
                        | Some h \<Rightarrow> (case str_field (hn_data h) ''type'' of None \<Rightarrow> hn_typeId h | Some t \<Rightarrow> Some t))
      in if truthy entityType then mget (nullish (px_typeLevels i) []) (the entityType) else None)"

function level_walk :: "(ident \<Rightarrow> int option) \<Rightarrow> parent_map \<Rightarrow> int \<Rightarrow> ident set \<Rightarrow> ident \<Rightarrow> ident" where
  "level_walk level pm bundleCeiling seen cursor =
     (if cursor = '''' \<or> cursor \<in> seen then cursor
      else (case level cursor of
              None \<Rightarrow> cursor
            | Some l \<Rightarrow>
                if l \<le> bundleCeiling then cursor
                else (case mget pm cursor of
                        None \<Rightarrow> cursor
                      | Some p \<Rightarrow> if p = '''' then cursor else level_walk level pm bundleCeiling (insert cursor seen) p)))"
  by pat_completeness auto
termination
proof (relation "measure (\<lambda>(level, pm, bundleCeiling, seen, cursor). card ((set (map snd pm) \<union> {cursor}) - seen))", goal_cases)
  case (2 level pm bundleCeiling seen cursor l p)
  then have "(set (map snd pm) \<union> {p}) - insert cursor seen \<subset> (set (map snd pm) \<union> {cursor}) - seen"
    by (auto dest: map_of_SomeD intro: rev_image_eqI)
  then show ?case by (auto intro: psubset_card_mono)
qed simp

declare level_walk.simps [simp del]

definition bundleEnabled :: "projection_input \<Rightarrow> bool" where
  "bundleEnabled i \<longleftrightarrow> px_isTracing i \<and> px_traceParents i \<noteq> None \<and> px_typeLevels i \<noteq> None \<and> px_focusLevel i \<noteq> None"

definition projectToTraceLevel :: "projection_input \<Rightarrow> ident \<Rightarrow> ident" where
  "projectToTraceLevel i n = level_walk (level_of i) (nullish (px_traceParents i) []) (nullish (px_focusLevel i) 0) {} n"

definition regular_end :: "projection_input \<Rightarrow> ident \<Rightarrow> ident option" where
  "regular_end i n =
     or_lookup (mget (px_ancestorMap i) n) (if mhas (px_displayMap i) n then Some n else None)"

definition rolled_up :: "projection_input \<Rightarrow> ident option \<Rightarrow> ident option \<Rightarrow> ident option" where
  "rolled_up i a other =
     (if truthy a \<and> truthy other \<and> bundleEnabled i \<and> projectToTraceLevel i (the a) \<noteq> '''' then Some (projectToTraceLevel i (the a)) else a)"

definition regular_ends :: "projection_input \<Rightarrow> lineage_edge \<Rightarrow> (ident \<times> ident) option" where
  "regular_ends i e =
     (if px_isContainment i (normalizeEdgeType e) then None
      else (let s0 = regular_end i (edge_source e); t0 = regular_end i (edge_target e)
            in case distinct_ends (rolled_up i s0 t0) (rolled_up i t0 s0) of
                 None \<Rightarrow> None
               | Some (s, t) \<Rightarrow>
                   if px_isTracing i \<and> edge_id e \<notin> nullish (px_traceAdded i) {} \<and> (s \<notin> px_traceContext i \<or> t \<notin> px_traceContext i)
                   then None
                   else if px_isTracing i
                     \<and> toUpperCase (case edge_data_of e of None \<Rightarrow> '''' | Some d \<Rightarrow> nullish (d_edgeType d) '''') = ''AGGREGATED''
                     \<and> suppressed i (edge_source e) (edge_target e)
                   then None
                   else Some (s, t)))"

definition empty_data :: edge_data where
  "empty_data = \<lparr>d_edgeType = None, d_relationship = None, d_confidence = None, d_isAggregated = False, d_edgeTypes = None\<rparr>"

definition detailed_ends :: "projection_input \<Rightarrow> graph_edge \<Rightarrow> (ident \<times> ident) option" where
  "detailed_ends i de = distinct_ends (mget (px_ancestorMap i) (ge_sourceUrn de)) (mget (px_ancestorMap i) (ge_targetUrn de))"

definition put_edge :: "(ident \<times> ident) option \<Rightarrow> ident \<Rightarrow> edge_data \<Rightarrow> string \<Rightarrow> groups \<Rightarrow> groups" where
  "put_edge ends eid d ty g = (case ends of None \<Rightarrow> g | Some (s, t) \<Rightarrow> addEdgeToGroup s t eid d ty g)"

definition edgeGroups :: "projection_input \<Rightarrow> groups" where
  "edgeGroups i =
     (let a = fold (\<lambda>(k, e). let agg = as_aggregated e in
                put_edge (agg_ends i e) (ai_id agg) (aggregated_data agg) ''AGGREGATED'') (px_aggregated i) [];
          b = fold (\<lambda>e. put_edge (regular_ends i e) (edge_id e) (nullish (edge_data_of e) empty_data) (normalizeEdgeType e)) (px_edges i) a
      in fold (\<lambda>de. put_edge (detailed_ends i de) (ge_id de) (detailed_data de) (ge_edgeType de))
           (concat (map (as_detailedEdges \<circ> snd) (filter (\<lambda>(k, e). as_state e = Expanded) (px_aggregated i)))) b)"

section \<open>Browse-mode bundling\<close>

definition collapsed_parent :: "projection_input \<Rightarrow> ident \<Rightarrow> ident option" where
  "collapsed_parent i n =
     (let p = mget (nullish (px_browseParents i) []) n in if truthy p \<and> the p \<notin> set (px_expanded i) then p else None)"

text \<open>The bucket a group goes to, when one of its ends has a collapsed parent.\<close>

definition bucket_of :: "projection_input \<Rightarrow> string \<Rightarrow> string option" where
  "bucket_of i key =
     (let (s, t) = arrow_ends key; sP = collapsed_parent i s; tP = collapsed_parent i t;
          parentKey = arrow_key (nullish sP s) (nullish tP t)
      in if sP = None \<and> tP = None \<or> parentKey = key then None else Some parentKey)"

definition parentBuckets :: "projection_input \<Rightarrow> string list \<Rightarrow> (string, string list) jsmap" where
  "parentBuckets i keys =
     fold (\<lambda>key b. case bucket_of i key of None \<Rightarrow> b | Some pk \<Rightarrow> mset_key pk (nullish (mget b pk) [] @ [key]) b) keys []"

definition rekeyed :: "ident \<Rightarrow> ident \<Rightarrow> grouped_edge \<Rightarrow> grouped_edge" where
  "rekeyed s t e = e\<lparr>gr_source := s, gr_target := t, gr_browseBundled := True\<rparr>"

text \<open>The inner loop: the groups left and the edges moved so far.\<close>

definition move_group :: "ident \<Rightarrow> ident \<Rightarrow> string \<Rightarrow> grouped_edge list \<times> groups \<Rightarrow> grouped_edge list \<times> groups" where
  "move_group sP tP ck st =
     (case st of (merged, g) \<Rightarrow>
        (case mget g ck of None \<Rightarrow> (merged, g) | Some child \<Rightarrow> (merged @ map (rekeyed sP tP) child, mdel ck g)))"

definition merge_bucket :: "projection_input \<Rightarrow> string \<times> string list \<Rightarrow> groups \<times> bool \<Rightarrow> groups \<times> bool" where
  "merge_bucket i bucket st =
     (case bucket of (parentKey, childKeys) \<Rightarrow> case st of (g, collapsedAny) \<Rightarrow>
        (let (sP, tP) = arrow_ends parentKey
         in if int (length childKeys) \<le> px_fanIn i \<or> sP = tP then (g, collapsedAny)
            else (let (merged, g') = fold (move_group sP tP) childKeys (nullish (mget g parentKey) [], g)
                  in (mset_key parentKey merged g', True))))"

fun bundle_passes :: "projection_input \<Rightarrow> nat \<Rightarrow> groups \<Rightarrow> groups" where
  "bundle_passes i 0 g = g"
| "bundle_passes i (Suc n) g =
     (let (g', collapsedAny) = fold (merge_bucket i) (parentBuckets i (map fst g)) (g, False)
      in if collapsedAny then bundle_passes i n g' else g')"

definition bundled_groups :: "projection_input \<Rightarrow> groups" where
  "bundled_groups i =
     (let g = edgeGroups i
      in if \<not> px_isTracing i \<and> px_browseEnabled i \<and> px_browseParents i \<noteq> None \<and> g \<noteq> [] then bundle_passes i 6 g else g)"

section \<open>Projected edges\<close>

record projected_edge =
  pj_id :: string
  pj_source :: ident
  pj_target :: ident
  pj_isBundled :: bool
  pj_isBrowseBundle :: bool
  pj_isGhost :: bool
  pj_edgeCount :: nat
  pj_types :: "string list"
  pj_confidence :: rat
  pj_isAggregated :: bool
  pj_isReverseFlow :: bool
  pj_isDelegated :: bool
  pj_isResidual :: bool
  pj_isBidirectional :: bool

definition group_types :: "grouped_edge list \<Rightarrow> string list" where
  "group_types es =
     fold (\<lambda>e types. case d_edgeTypes (gr_data e) of
             Some ts \<Rightarrow> fold set_add ts types
           | None \<Rightarrow> if gr_originalType e \<noteq> '''' then set_add (gr_originalType e) types else types) es []"

definition group_confidence :: "grouped_edge list \<Rightarrow> rat" where
  "group_confidence es = fold (\<lambda>e m. max m (nullish (d_confidence (gr_data e)) 1)) es 0"

definition reverse_flow :: "projection_input \<Rightarrow> ident \<Rightarrow> ident \<Rightarrow> bool" where
  "reverse_flow i s t \<longleftrightarrow>
     (case px_layerIndex i of
        None \<Rightarrow> False
      | Some idx \<Rightarrow> (case (mget idx s, mget idx t) of (Some sLayer, Some tLayer) \<Rightarrow> tLayer < sLayer | _ \<Rightarrow> False))"

definition finalize_group :: "projection_input \<Rightarrow> string \<times> grouped_edge list \<Rightarrow> projected_edge" where
  "finalize_group i keyed =
     (case keyed of (key, es) \<Rightarrow>
        (let s = gr_source (hd es); t = gr_target (hd es); browse = list_ex gr_browseBundled es
         in \<lparr>pj_id = ''bundle-'' @ key, pj_source = s, pj_target = t, pj_isBundled = (1 < length es \<or> browse),
             pj_isBrowseBundle = browse,
             pj_isGhost = list_ex (\<lambda>e. Some (gr_target e) \<noteq> gr_originalTargetId e \<or> Some (gr_source e) \<noteq> gr_originalSourceId e) es,
             pj_edgeCount = length es, pj_types = group_types es, pj_confidence = group_confidence es,
             pj_isAggregated = list_ex (d_isAggregated \<circ> gr_data) es, pj_isReverseFlow = reverse_flow i s t,
             pj_isDelegated = False, pj_isResidual = False, pj_isBidirectional = False\<rparr>))"

text \<open>The slots of \<^verbatim>\<open>byPair\<close>: the edge in the canonical direction and the one against it.\<close>

type_synonym pair_slot = "projected_edge option \<times> projected_edge option"

definition canonical :: "ident \<Rightarrow> ident \<Rightarrow> string" where
  "canonical a b = (if a < b then arrow_key a b else arrow_key b a)"

definition slot_edge :: "projected_edge \<Rightarrow> (string, pair_slot) jsmap \<Rightarrow> (string, pair_slot) jsmap" where
  "slot_edge p m =
     (let a = pj_source p; b = pj_target p; (fwd, rev) = nullish (mget m (canonical a b)) (None, None)
      in if a = b then m else mset_key (canonical a b) (if a < b then (Some p, rev) else (fwd, Some p)) m)"

definition both_ways :: "string \<Rightarrow> projected_edge \<Rightarrow> projected_edge \<Rightarrow> projected_edge" where
  "both_ways key f r =
     (let (s, t) = arrow_ends key
      in \<lparr>pj_id = ''bundle-bi-'' @ key, pj_source = s, pj_target = t, pj_isBundled = True,
          pj_isBrowseBundle = (pj_isBrowseBundle f \<or> pj_isBrowseBundle r), pj_isGhost = (pj_isGhost f \<and> pj_isGhost r),
          pj_edgeCount = pj_edgeCount f + pj_edgeCount r, pj_types = fold set_add (pj_types r) (set_from (pj_types f)),
          pj_confidence = max (pj_confidence f) (pj_confidence r), pj_isAggregated = (pj_isAggregated f \<or> pj_isAggregated r),
          pj_isReverseFlow = False, pj_isDelegated = False, pj_isResidual = False, pj_isBidirectional = True\<rparr>)"

definition full_slots :: "(string, pair_slot) jsmap \<Rightarrow> (string \<times> projected_edge \<times> projected_edge) list" where
  "full_slots m = concat (map (\<lambda>(key, fwd, rev). case (fwd, rev) of (Some f, Some r) \<Rightarrow> [(key, f, r)] | _ \<Rightarrow> []) m)"

definition merge_directions :: "projected_edge list \<Rightarrow> projected_edge list" where
  "merge_directions projected =
     (let slots = full_slots (fold slot_edge projected []);
          consumed = concat (map (\<lambda>(key, f, r). [f, r]) slots)
      in if consumed = [] then projected
         else filter (\<lambda>p. p \<notin> set consumed) projected @ map (\<lambda>(key, f, r). both_ways key f r) slots)"

definition projectedEdges :: "projection_input \<Rightarrow> projected_edge list" where
  "projectedEdges i = (if \<not> px_showLineageFlow i then [] else merge_directions (map (finalize_group i) (bundled_groups i)))"

section \<open>Delegation\<close>

definition num_or :: "json option \<Rightarrow> rat \<Rightarrow> rat" where
  "num_or j d = (case j of Some (JNum n) \<Rightarrow> if n = 0 then d else n | _ \<Rightarrow> d)"

text \<open>For an expanded parent with loaded children: whether some of its children are not loaded.\<close>

definition expandedParentInfo :: "projection_input \<Rightarrow> ident \<Rightarrow> bool option" where
  "expandedParentInfo i n =
     (if n \<notin> set (px_expanded i) then None
      else (case mget (px_displayMap i) n of
              None \<Rightarrow> None
            | Some h \<Rightarrow>
                (let total = num_or (mget (hn_data h) ''childCount'') (num_or (mget (hn_data h) ''_collapsedChildCount'') 0);
                     loaded = length (hn_children h)
                 in if loaded = 0 then None else Some (0 < total \<and> of_nat loaded < total))))"

definition delegate_edge :: "projection_input \<Rightarrow> projected_edge \<Rightarrow> projected_edge" where
  "delegate_edge i e =
     (let s = expandedParentInfo i (pj_source e); t = expandedParentInfo i (pj_target e)
      in if s = None \<and> t = None then e
         else (let hovered = px_hovered i = Some (pj_source e) \<or> px_hovered i = Some (pj_target e);
                   anyPartial = nullish s False \<or> nullish t False
               in e\<lparr>pj_isDelegated := (\<not> anyPartial \<and> \<not> hovered), pj_isResidual := (anyPartial \<and> \<not> hovered)\<rparr>))"

definition visibleLineageEdges :: "projection_input \<Rightarrow> projected_edge list" where
  "visibleLineageEdges i = map (delegate_edge i) (projectedEdges i)"

section \<open>Groups keep every edge\<close>

definition grouped_total :: "groups \<Rightarrow> nat" where
  "grouped_total g = sum_list (map (length \<circ> snd) g)"

lemma grouped_total_simps [simp]:
  "grouped_total [] = 0"
  "grouped_total ((k, es) # g) = length es + grouped_total g"
  by (simp_all add: grouped_total_def)

lemma delete_absent: "k \<notin> set (map fst g) \<Longrightarrow> mdel k g = g"
  by (induction g) auto

lemma grouped_total_mset_key:
  "jsm_ok g \<Longrightarrow> grouped_total (mset_key k es g) + length (nullish (mget g k) []) = grouped_total g + length es"
  by (induction g) (auto simp: jsm_ok_def)

lemma grouped_total_mdel:
  "jsm_ok g \<Longrightarrow> grouped_total (mdel k g) + length (nullish (mget g k) []) = grouped_total g"
proof (induction g)
  case (Cons p g)
  then show ?case by (cases p) (auto simp: jsm_ok_def delete_absent)
qed simp

text \<open>Groups have distinct keys, none is empty, and \<open>R\<close> holds of every edge and its key.\<close>

definition groups_ok :: "(string \<Rightarrow> grouped_edge \<Rightarrow> bool) \<Rightarrow> groups \<Rightarrow> bool" where
  "groups_ok R g \<longleftrightarrow> jsm_ok g \<and> (\<forall>k es. mget g k = Some es \<longrightarrow> es \<noteq> [] \<and> (\<forall>e \<in> set es. R k e))"

lemma groups_okD:
  "groups_ok R g \<Longrightarrow> jsm_ok g"
  "groups_ok R g \<Longrightarrow> mget g k = Some es \<Longrightarrow> es \<noteq> []"
  "groups_ok R g \<Longrightarrow> mget g k = Some es \<Longrightarrow> e \<in> set es \<Longrightarrow> R k e"
  by (auto simp: groups_ok_def)

lemma groups_ok_Nil [simp]: "groups_ok R []"
  by (simp add: groups_ok_def)

lemma groups_ok_mset_key:
  "groups_ok R g \<Longrightarrow> es \<noteq> [] \<Longrightarrow> (\<And>e. e \<in> set es \<Longrightarrow> R k e) \<Longrightarrow> groups_ok R (mset_key k es g)"
  by (auto simp: groups_ok_def)

lemma groups_ok_mdel: "groups_ok R g \<Longrightarrow> groups_ok R (mdel k g)"
  by (auto simp: groups_ok_def)

text \<open>The edges put into groups, given by what an edge's ends are.\<close>

definition new_edge :: "ident \<Rightarrow> ident \<Rightarrow> ident \<Rightarrow> edge_data \<Rightarrow> string \<Rightarrow> grouped_edge" where
  "new_edge s t eid d ty =
     \<lparr>gr_id = eid, gr_source = s, gr_target = t, gr_data = d, gr_originalType = ty, gr_originalSourceId = None,
      gr_originalTargetId = None, gr_browseBundled = False\<rparr>"

lemma addEdgeToGroup_eq:
  "addEdgeToGroup s t eid d ty g = mset_key (arrow_key s t) (nullish (mget g (arrow_key s t)) [] @ [new_edge s t eid d ty]) g"
  by (simp add: addEdgeToGroup_def new_edge_def)

lemma put_edge_ok:
  assumes "groups_ok R g" and "\<And>s t. ends = Some (s, t) \<Longrightarrow> R (arrow_key s t) (new_edge s t eid d ty)"
  shows "groups_ok R (put_edge ends eid d ty g)"
proof (cases ends)
  case (Some p)
  obtain s t where p: "p = (s, t)" by (cases p)
  have "R (arrow_key s t) e" if "e \<in> set (nullish (mget g (arrow_key s t)) [] @ [new_edge s t eid d ty])" for e
    using that assms(2) [of s t] groups_okD(3) [OF assms(1), of "arrow_key s t"] Some p
    by (cases "mget g (arrow_key s t)") auto
  then have "groups_ok R (addEdgeToGroup s t eid d ty g)"
    unfolding addEdgeToGroup_eq by (intro groups_ok_mset_key assms(1)) simp_all
  then show ?thesis by (simp add: put_edge_def Some p)
qed (use assms in \<open>simp add: put_edge_def\<close>)

lemma put_edge_total:
  assumes "jsm_ok g"
  shows "grouped_total (put_edge ends eid d ty g) = grouped_total g + (if ends = None then 0 else 1)"
proof (cases ends)
  case (Some p)
  obtain s t where p: "p = (s, t)" by (cases p)
  show ?thesis
    using grouped_total_mset_key [OF assms, of "arrow_key s t" "nullish (mget g (arrow_key s t)) [] @ [new_edge s t eid d ty]"]
    by (simp add: put_edge_def Some p addEdgeToGroup_eq)
qed (simp add: put_edge_def)

text \<open>The pairs of the edges that are drawn, in order.\<close>

definition opt_list :: "'a option \<Rightarrow> 'a list" where
  "opt_list x = (case x of None \<Rightarrow> [] | Some y \<Rightarrow> [y])"

lemma opt_list_simps [simp]: "opt_list None = []" "opt_list (Some x) = [x]"
  by (simp_all add: opt_list_def)

lemma opt_list_member: "x \<in> set xs \<Longrightarrow> f x = Some p \<Longrightarrow> p \<in> set (concat (map (opt_list \<circ> f) xs))"
  by force

lemma fold_put_edge_ok:
  assumes "groups_ok R g"
    and "\<And>x s t. x \<in> set xs \<Longrightarrow> ends x = Some (s, t) \<Longrightarrow> R (arrow_key s t) (new_edge s t (eid x) (d x) (ty x))"
  shows "groups_ok R (fold (\<lambda>x. put_edge (ends x) (eid x) (d x) (ty x)) xs g)
    \<and> grouped_total (fold (\<lambda>x. put_edge (ends x) (eid x) (d x) (ty x)) xs g)
       = grouped_total g + length (concat (map (opt_list \<circ> ends) xs))"
  using assms
proof (induction xs arbitrary: g)
  case (Cons x xs)
  have "groups_ok R (put_edge (ends x) (eid x) (d x) (ty x) g)" using Cons.prems by (intro put_edge_ok) auto
  note rest = Cons.IH [OF this Cons.prems(2)]
  have "grouped_total (put_edge (ends x) (eid x) (d x) (ty x) g) = grouped_total g + length (opt_list (ends x))"
    using put_edge_total [OF groups_okD(1) [OF Cons.prems(1)], of "ends x"] by (cases "ends x") simp_all
  with rest show ?case by simp
qed simp

definition detailed_edges :: "projection_input \<Rightarrow> graph_edge list" where
  "detailed_edges i = concat (map (as_detailedEdges \<circ> snd) (filter (\<lambda>(k, e). as_state e = Expanded) (px_aggregated i)))"

definition drawn_ends :: "projection_input \<Rightarrow> (ident \<times> ident) list" where
  "drawn_ends i =
     concat (map (opt_list \<circ> agg_ends i \<circ> snd) (px_aggregated i))
     @ concat (map (opt_list \<circ> regular_ends i) (px_edges i))
     @ concat (map (opt_list \<circ> detailed_ends i) (detailed_edges i))"

lemma edgeGroups_ok:
  assumes "\<And>s t eid d ty. (s, t) \<in> set (drawn_ends i) \<Longrightarrow> R (arrow_key s t) (new_edge s t eid d ty)"
  shows "groups_ok R (edgeGroups i)" and "grouped_total (edgeGroups i) = length (drawn_ends i)"
proof -
  let ?a = "fold (\<lambda>p. put_edge (agg_ends i (snd p)) (ai_id (as_aggregated (snd p))) (aggregated_data (as_aggregated (snd p))) ''AGGREGATED'') (px_aggregated i) []"
  let ?b = "fold (\<lambda>e. put_edge (regular_ends i e) (edge_id e) (nullish (edge_data_of e) empty_data) (normalizeEdgeType e)) (px_edges i) ?a"
  let ?c = "fold (\<lambda>de. put_edge (detailed_ends i de) (ge_id de) (detailed_data de) (ge_edgeType de)) (detailed_edges i) ?b"
  have drawn: "set (concat (map (opt_list \<circ> (\<lambda>p. agg_ends i (snd p))) (px_aggregated i))) \<subseteq> set (drawn_ends i)"
    "set (concat (map (opt_list \<circ> regular_ends i) (px_edges i))) \<subseteq> set (drawn_ends i)"
    "set (concat (map (opt_list \<circ> detailed_ends i) (detailed_edges i))) \<subseteq> set (drawn_ends i)"
    by (auto simp: drawn_ends_def)
  have a: "groups_ok R ?a \<and> grouped_total ?a = grouped_total [] + length (concat (map (opt_list \<circ> (\<lambda>p. agg_ends i (snd p))) (px_aggregated i)))"
    by (intro fold_put_edge_ok groups_ok_Nil assms) (rule subsetD [OF drawn(1) opt_list_member])
  have b: "groups_ok R ?b \<and> grouped_total ?b = grouped_total ?a + length (concat (map (opt_list \<circ> regular_ends i) (px_edges i)))"
    by (intro fold_put_edge_ok conjunct1 [OF a] assms) (rule subsetD [OF drawn(2) opt_list_member])
  have c: "groups_ok R ?c \<and> grouped_total ?c = grouped_total ?b + length (concat (map (opt_list \<circ> detailed_ends i) (detailed_edges i)))"
    by (intro fold_put_edge_ok conjunct1 [OF b] assms) (rule subsetD [OF drawn(3) opt_list_member])
  have "edgeGroups i = ?c" by (simp add: edgeGroups_def detailed_edges_def Let_def case_prod_unfold)
  with a b c show "groups_ok R (edgeGroups i)" "grouped_total (edgeGroups i) = length (drawn_ends i)"
    by (simp_all add: drawn_ends_def comp_def)
qed

section \<open>Bundling moves edges and loses none\<close>

text \<open>A list of buckets that is still to be merged: all its children are groups of their own.\<close>

definition buckets_live :: "projection_input \<Rightarrow> (string \<times> string list) list \<Rightarrow> groups \<Rightarrow> bool" where
  "buckets_live i bs g \<longleftrightarrow>
     jsm_ok bs \<and> (\<forall>(pk, cks) \<in> set bs. cks \<noteq> [] \<and> (\<forall>ck \<in> set cks. bucket_of i ck = Some pk \<and> mget g ck \<noteq> None))"

lemma bucket_of_other: "bucket_of i ck = Some pk \<Longrightarrow> pk \<noteq> ck"
  by (auto simp: bucket_of_def Let_def case_prod_unfold split: if_splits)

lemma parentBuckets_fold:
  assumes "\<forall>(pk, cks) \<in> set b. cks \<noteq> [] \<and> (\<forall>ck \<in> set cks. bucket_of i ck = Some pk \<and> ck \<in> K)" "jsm_ok b" "set keys \<subseteq> K"
  shows "(\<forall>(pk, cks) \<in> set (fold (\<lambda>key b. case bucket_of i key of None \<Rightarrow> b | Some pk \<Rightarrow> mset_key pk (nullish (mget b pk) [] @ [key]) b) keys b).
            cks \<noteq> [] \<and> (\<forall>ck \<in> set cks. bucket_of i ck = Some pk \<and> ck \<in> K))
    \<and> jsm_ok (fold (\<lambda>key b. case bucket_of i key of None \<Rightarrow> b | Some pk \<Rightarrow> mset_key pk (nullish (mget b pk) [] @ [key]) b) keys b)"
  using assms
proof (induction keys arbitrary: b)
  case (Cons key keys)
  show ?case
  proof (cases "bucket_of i key")
    case None
    with Cons show ?thesis by simp
  next
    case (Some pk)
    let ?b = "mset_key pk (nullish (mget b pk) [] @ [key]) b"
    have "cks \<noteq> [] \<and> (\<forall>ck \<in> set cks. bucket_of i ck = Some p \<and> ck \<in> K)" if "(p, cks) \<in> set ?b" for p cks
    proof -
      have "mget ?b p = Some cks" by (intro mget_iff_in_set [THEN iffD2] jsm_ok_mset_key Cons.prems(2) that)
      then consider "p = pk" "cks = nullish (mget b pk) [] @ [key]" | "mget b p = Some cks" by (auto split: if_splits)
      then show ?thesis
      proof cases
        case 1
        then show ?thesis using Cons.prems Some by (cases "mget b pk") (auto dest!: mget_in_set)
      next
        case 2
        then show ?thesis using Cons.prems(1) by (auto dest!: mget_in_set)
      qed
    qed
    then have "\<forall>(p, cks) \<in> set ?b. cks \<noteq> [] \<and> (\<forall>ck \<in> set cks. bucket_of i ck = Some p \<and> ck \<in> K)" by blast
    then show ?thesis using Cons.IH [of ?b] Cons.prems Some by simp
  qed
qed simp

lemma parentBuckets_live: "buckets_live i (parentBuckets i (map fst g)) g"
proof -
  have "mget g ck \<noteq> None" if "ck \<in> set (map fst g)" for ck using that by (simp add: map_of_eq_None_iff)
  then show ?thesis
    using parentBuckets_fold [of "[]" i "set (map fst g)" "map fst g"] unfolding buckets_live_def parentBuckets_def by fastforce
qed

lemma fold_move_group:
  assumes "jsm_ok g" "pk \<notin> set cks" "fold (move_group sP tP) cks (merged, g) = (merged', g')"
  shows "jsm_ok g' \<and> (\<forall>k. mget g' k = (if k \<in> set cks then None else mget g k))
    \<and> length merged' + grouped_total g' = length merged + grouped_total g
    \<and> (\<forall>e' \<in> set merged'. e' \<in> set merged \<or> (\<exists>ck \<in> set cks. \<exists>es e. mget g ck = Some es \<and> e \<in> set es \<and> e' = rekeyed sP tP e))
    \<and> length merged \<le> length merged' \<and> (\<forall>ck \<in> set cks. \<forall>es. mget g ck = Some es \<longrightarrow> es \<noteq> [] \<longrightarrow> merged' \<noteq> [])"
  using assms
proof (induction cks arbitrary: merged g)
  case (Cons ck cks)
  show ?case
  proof (cases "mget g ck")
    case None
    then have "move_group sP tP ck (merged, g) = (merged, g)" by (simp add: move_group_def)
    then have "fold (move_group sP tP) cks (merged, g) = (merged', g')" using Cons.prems(3) by simp
    note ih = Cons.IH [OF Cons.prems(1) _ this]
    show ?thesis using ih Cons.prems(2) None by auto
  next
    case (Some es)
    let ?g = "mdel ck g" and ?merged = "merged @ map (rekeyed sP tP) es"
    have "move_group sP tP ck (merged, g) = (?merged, ?g)" using Some by (simp add: move_group_def)
    then have step: "fold (move_group sP tP) cks (?merged, ?g) = (merged', g')" using Cons.prems(3) by simp
    have ih: "jsm_ok g'" "\<And>k. mget g' k = (if k \<in> set cks then None else mget ?g k)"
      "length merged' + grouped_total g' = length ?merged + grouped_total ?g"
      "\<And>e'. e' \<in> set merged' \<Longrightarrow> e' \<in> set ?merged \<or> (\<exists>c \<in> set cks. \<exists>es e. mget ?g c = Some es \<and> e \<in> set es \<and> e' = rekeyed sP tP e)"
      "length ?merged \<le> length merged'" "\<And>c es. c \<in> set cks \<Longrightarrow> mget ?g c = Some es \<Longrightarrow> es \<noteq> [] \<Longrightarrow> merged' \<noteq> []"
      using Cons.IH [OF jsm_ok_mdel [OF Cons.prems(1)] _ step] Cons.prems(2) by auto
    have "grouped_total ?g + length es = grouped_total g" using grouped_total_mdel [OF Cons.prems(1), of ck] Some by simp
    then have total: "length merged' + grouped_total g' = length merged + grouped_total g" using ih(3) by simp
    have from_where: "e' \<in> set merged \<or> (\<exists>c \<in> set (ck # cks). \<exists>es e. mget g c = Some es \<and> e \<in> set es \<and> e' = rekeyed sP tP e)"
      if e': "e' \<in> set merged'" for e'
    proof -
      from ih(4) [OF e'] consider "e' \<in> set merged" | "e' \<in> rekeyed sP tP ` set es"
        | c es' e where "c \<in> set cks" "mget ?g c = Some es'" "e \<in> set es'" "e' = rekeyed sP tP e" by auto
      then show ?thesis
      proof cases
        case 3
        then have "mget g c = Some es'" by (simp split: if_splits)
        with 3 show ?thesis by auto
      qed (use Some in auto)
    qed
    have some_left: "merged' \<noteq> []" if "c \<in> set (ck # cks)" "mget g c = Some es'" "es' \<noteq> []" for c es'
    proof (cases "c = ck")
      case True
      then show ?thesis using ih(5) that Some by auto
    next
      case False
      then show ?thesis using ih(6) [of c es'] that by simp
    qed
    show ?thesis using ih(1,2,5) total from_where some_left by auto
  qed
qed auto

text \<open>What the edges of a merged bucket have to satisfy.\<close>

definition bundle_ok :: "projection_input \<Rightarrow> (string \<Rightarrow> grouped_edge \<Rightarrow> bool) \<Rightarrow> bool" where
  "bundle_ok i R \<longleftrightarrow>
     (\<forall>ck pk e. bucket_of i ck = Some pk \<longrightarrow> R ck e \<longrightarrow> fst (arrow_ends pk) \<noteq> snd (arrow_ends pk)
        \<longrightarrow> R pk (rekeyed (fst (arrow_ends pk)) (snd (arrow_ends pk)) e))"

lemma merge_bucket_ok:
  assumes R: "bundle_ok i R" and g: "groups_ok R g" and live: "buckets_live i ((pk, cks) # bs) g"
  shows "groups_ok R (fst (merge_bucket i (pk, cks) (g, b))) \<and> grouped_total (fst (merge_bucket i (pk, cks) (g, b))) = grouped_total g
    \<and> buckets_live i bs (fst (merge_bucket i (pk, cks) (g, b)))"
proof (cases "int (length cks) \<le> px_fanIn i \<or> fst (arrow_ends pk) = snd (arrow_ends pk)")
  case True
  then have "merge_bucket i (pk, cks) (g, b) = (g, b)" by (simp add: merge_bucket_def case_prod_unfold Let_def)
  with g live show ?thesis by (simp add: buckets_live_def jsm_ok_def)
next
  case False
  let ?s = "fst (arrow_ends pk)" and ?t = "snd (arrow_ends pk)"
  obtain merged g' where fold: "fold (move_group ?s ?t) cks (nullish (mget g pk) [], g) = (merged, g')"
    by (cases "fold (move_group ?s ?t) cks (nullish (mget g pk) [], g)")
  have res: "fst (merge_bucket i (pk, cks) (g, b)) = mset_key pk merged g'"
    using False fold by (simp add: merge_bucket_def case_prod_unfold Let_def)
  have cks: "cks \<noteq> []" "\<And>ck. ck \<in> set cks \<Longrightarrow> bucket_of i ck = Some pk" "\<And>ck. ck \<in> set cks \<Longrightarrow> mget g ck \<noteq> None"
    using live by (auto simp: buckets_live_def)
  have "pk \<notin> set cks" using cks(2) bucket_of_other by blast
  note moved = fold_move_group [OF groups_okD(1) [OF g] this fold]
  have kept: "mget g' k = (if k \<in> set cks then None else mget g k)" for k using moved by blast
  have old: "R pk e" if "e \<in> set (nullish (mget g pk) [])" for e
    using that groups_okD(3) [OF g, of pk] by (cases "mget g pk") auto
  have edges: "R pk e'" if "e' \<in> set merged" for e'
  proof -
    from that moved consider "e' \<in> set (nullish (mget g pk) [])"
      | ck es e where "ck \<in> set cks" "mget g ck = Some es" "e \<in> set es" "e' = rekeyed ?s ?t e" by blast
    then show ?thesis
    proof cases
      case 1
      with old show ?thesis by blast
    next
      case 2
      then have "R ck e" using groups_okD(3) [OF g] by blast
      with R cks(2) [OF 2(1)] False 2(4) show ?thesis by (auto simp: bundle_ok_def)
    qed
  qed
  have "merged \<noteq> []"
  proof -
    obtain es where "mget g (hd cks) = Some es" "es \<noteq> []" using cks(1,3) groups_okD(2) [OF g] by (metis hd_in_set not_None_eq)
    then show ?thesis using moved cks(1) by (metis hd_in_set)
  qed
  moreover have "groups_ok R g'" using moved g kept by (auto simp: groups_ok_def split: if_splits)
  ultimately have fine: "groups_ok R (mset_key pk merged g')" using edges by (intro groups_ok_mset_key)
  have "mget g' pk = mget g pk" using kept \<open>pk \<notin> set cks\<close> by simp
  then have total: "grouped_total (mset_key pk merged g') = grouped_total g"
    using grouped_total_mset_key [OF conjunct1 [OF moved], of pk merged] moved by simp
  have "mget (mset_key pk merged g') ck \<noteq> None" if "(pk', cks') \<in> set bs" "ck \<in> set cks'" for pk' cks' ck
  proof -
    have "bucket_of i ck = Some pk'" "mget g ck \<noteq> None" using live that by (auto simp: buckets_live_def)
    moreover have "pk' \<noteq> pk" using live rev_image_eqI [OF that(1), of pk' fst] by (auto simp: buckets_live_def jsm_ok_def)
    ultimately have "ck \<notin> set cks" using cks(2) by auto
    with \<open>mget g ck \<noteq> None\<close> kept show ?thesis by simp
  qed
  moreover have "jsm_ok bs" "\<forall>(pk', cks') \<in> set bs. cks' \<noteq> [] \<and> (\<forall>ck \<in> set cks'. bucket_of i ck = Some pk')"
    using live by (auto simp: buckets_live_def jsm_ok_def)
  ultimately have "buckets_live i bs (mset_key pk merged g')" unfolding buckets_live_def by blast
  with fine total show ?thesis by (simp add: res)
qed

lemma fold_merge_bucket_ok:
  assumes "bundle_ok i R" "groups_ok R g" "buckets_live i bs g"
  shows "groups_ok R (fst (fold (merge_bucket i) bs (g, b))) \<and> grouped_total (fst (fold (merge_bucket i) bs (g, b))) = grouped_total g"
  using assms(2,3)
proof (induction bs arbitrary: g b)
  case (Cons bucket bs)
  obtain pk cks where bucket: "bucket = (pk, cks)" by (cases bucket)
  obtain g1 b1 where one: "merge_bucket i bucket (g, b) = (g1, b1)" by (cases "merge_bucket i bucket (g, b)")
  with merge_bucket_ok [OF assms(1) Cons.prems(1) Cons.prems(2) [unfolded bucket], of b]
  have "groups_ok R g1" "grouped_total g1 = grouped_total g" "buckets_live i bs g1" by (simp_all add: bucket)
  with Cons.IH [of g1 b1] one show ?case by simp
qed simp

lemma bundle_passes_ok:
  assumes "bundle_ok i R" "groups_ok R g"
  shows "groups_ok R (bundle_passes i n g) \<and> grouped_total (bundle_passes i n g) = grouped_total g"
  using assms(2)
proof (induction n arbitrary: g)
  case (Suc n)
  obtain g1 b1 where one: "fold (merge_bucket i) (parentBuckets i (map fst g)) (g, False) = (g1, b1)"
    by (cases "fold (merge_bucket i) (parentBuckets i (map fst g)) (g, False)")
  with fold_merge_bucket_ok [OF assms(1) Suc.prems parentBuckets_live, of False]
  have "groups_ok R g1" "grouped_total g1 = grouped_total g" by simp_all
  with Suc.IH [of g1] one show ?case by simp
qed simp

lemma bundled_groups_ok:
  assumes "bundle_ok i R" "\<And>s t eid d ty. (s, t) \<in> set (drawn_ends i) \<Longrightarrow> R (arrow_key s t) (new_edge s t eid d ty)"
  shows "groups_ok R (bundled_groups i)" and "grouped_total (bundled_groups i) = length (drawn_ends i)"
  using edgeGroups_ok [of i R, OF assms(2)] bundle_passes_ok [OF assms(1), of "edgeGroups i" 6]
  by (simp_all add: bundled_groups_def Let_def)

section \<open>Opposite directions\<close>

definition slots_ok :: "projected_edge list \<Rightarrow> (string, pair_slot) jsmap \<Rightarrow> bool" where
  "slots_ok ps m \<longleftrightarrow> jsm_ok m \<and> (\<forall>K f r. mget m K = Some (f, r) \<longrightarrow>
     (\<forall>p. f = Some p \<longrightarrow> p \<in> set ps \<and> pj_source p < pj_target p \<and> canonical (pj_source p) (pj_target p) = K) \<and>
     (\<forall>p. r = Some p \<longrightarrow> p \<in> set ps \<and> pj_target p < pj_source p \<and> canonical (pj_source p) (pj_target p) = K))"

lemma slot_edge_ok:
  assumes "slots_ok ps m" "p \<in> set ps"
  shows "slots_ok ps (slot_edge p m)"
proof (cases "pj_source p = pj_target p")
  case True
  then show ?thesis using assms by (simp add: slot_edge_def case_prod_unfold Let_def)
next
  case False
  let ?K = "canonical (pj_source p) (pj_target p)"
  obtain f r where old: "nullish (mget m ?K) (None, None) = (f, r)" by (cases "nullish (mget m ?K) (None, None)")
  have was: "(\<forall>q. f = Some q \<longrightarrow> q \<in> set ps \<and> pj_source q < pj_target q \<and> canonical (pj_source q) (pj_target q) = ?K) \<and>
     (\<forall>q. r = Some q \<longrightarrow> q \<in> set ps \<and> pj_target q < pj_source q \<and> canonical (pj_source q) (pj_target q) = ?K)"
    using assms(1) old by (cases "mget m ?K") (auto simp: slots_ok_def)
  have eq: "slot_edge p m = mset_key ?K (if pj_source p < pj_target p then (Some p, r) else (f, Some p)) m"
    using False old by (simp add: slot_edge_def Let_def)
  show ?thesis
    using assms was False unfolding eq slots_ok_def
    by (auto split: if_splits simp: linorder_neq_iff)
qed

lemma fold_slot_edge_ok:
  "set qs \<subseteq> set ps \<Longrightarrow> slots_ok ps m \<Longrightarrow> slots_ok ps (fold slot_edge qs m)"
  by (induction qs arbitrary: m) (auto simp: slot_edge_ok)

lemma full_slots_iff: "jsm_ok m \<Longrightarrow> (K, f, r) \<in> set (full_slots m) \<longleftrightarrow> mget m K = Some (Some f, Some r)"
  by (simp only: mget_iff_in_set) (force simp: full_slots_def split: option.splits)

definition consumed_edges :: "(string \<times> projected_edge \<times> projected_edge) list \<Rightarrow> projected_edge list" where
  "consumed_edges slots = concat (map (\<lambda>(key, f, r). [f, r]) slots)"

lemma consumed_edges_simps [simp]:
  "consumed_edges [] = []"
  "consumed_edges ((key, f, r) # slots) = f # r # consumed_edges slots"
  by (simp_all add: consumed_edges_def)

lemma consumed_iff: "p \<in> set (consumed_edges slots) \<longleftrightarrow> (\<exists>q \<in> set slots. p = fst (snd q) \<or> p = snd (snd q))"
  by (induction slots) auto

lemma full_slots_key: "(K, f, r) \<in> set (full_slots m) \<Longrightarrow> K \<in> set (map fst m)"
  by (force simp: full_slots_def split: option.splits)

lemma distinct_full_slots: "jsm_ok m \<Longrightarrow> distinct (map fst (full_slots m))"
proof (induction m)
  case (Cons q m)
  obtain K f r where q: "q = (K, f, r)" by (cases q) auto
  have "K \<notin> fst ` set (full_slots m)"
    using Cons.prems full_slots_key [of K _ _ m] by (auto simp: jsm_ok_def q)
  moreover have "full_slots (q # m) = (case (f, r) of (Some f, Some r) \<Rightarrow> [(K, f, r)] | _ \<Rightarrow> []) @ full_slots m"
    by (simp add: full_slots_def q)
  ultimately show ?case using Cons by (auto simp: jsm_ok_def split: option.splits)
qed (simp add: full_slots_def)

lemma distinct_consumed:
  assumes "distinct (map fst slots)"
    and "\<And>K f r. (K, f, r) \<in> set slots \<Longrightarrow> f \<noteq> r \<and> canonical (pj_source f) (pj_target f) = K \<and> canonical (pj_source r) (pj_target r) = K"
  shows "distinct (consumed_edges slots)"
  using assms
proof (induction slots)
  case (Cons q slots)
  obtain K f r where q: "q = (K, f, r)" by (cases q) auto
  have head: "f \<noteq> r" "canonical (pj_source f) (pj_target f) = K" "canonical (pj_source r) (pj_target r) = K"
    using Cons.prems(2) [of K f r] by (simp_all add: q)
  have "canonical (pj_source p) (pj_target p) \<noteq> K" if "p \<in> set (consumed_edges slots)" for p
  proof -
    obtain K' f' r' where "(K', f', r') \<in> set slots" "p = f' \<or> p = r'" 
      using \<open>p \<in> set (consumed_edges slots)\<close> by (auto simp: consumed_iff)
    moreover have "canonical (pj_source p) (pj_target p) = K'" using Cons.prems(2) [of K' f' r'] calculation by auto
    ultimately show ?thesis using Cons.prems(1) by (force simp: q)
  qed
  moreover have "distinct (consumed_edges slots)"
    by (rule Cons.IH) (use Cons.prems(1) in simp, rule Cons.prems(2), simp)
  ultimately show ?case using head by (auto simp: q)
qed simp

lemma sum_counts_consumed:
  "sum_list (map (\<lambda>(K, f, r). pj_edgeCount (both_ways K f r)) slots) = sum_list (map pj_edgeCount (consumed_edges slots))"
  by (induction slots) (auto simp: both_ways_def case_prod_unfold Let_def)

lemma merge_directions_total:
  assumes "distinct ps"
  shows "sum_list (map pj_edgeCount (merge_directions ps)) = sum_list (map pj_edgeCount ps)"
proof -
  let ?m = "fold slot_edge ps []"
  let ?slots = "full_slots ?m" and ?C = "consumed_edges (full_slots ?m)"
  have ok: "slots_ok ps ?m" by (rule fold_slot_edge_ok) (simp_all add: slots_ok_def)
  then have "jsm_ok ?m" by (simp add: slots_ok_def)
  have slot: "f \<in> set ps \<and> r \<in> set ps \<and> f \<noteq> r \<and> canonical (pj_source f) (pj_target f) = K \<and> canonical (pj_source r) (pj_target r) = K"
    if "(K, f, r) \<in> set ?slots" for K f r
  proof -
    have "mget ?m K = Some (Some f, Some r)" using that full_slots_iff [OF \<open>jsm_ok ?m\<close>] by blast
    then show ?thesis using ok unfolding slots_ok_def by (metis order.asym)
  qed
  have dist: "distinct ?C" using slot by (intro distinct_consumed distinct_full_slots \<open>jsm_ok ?m\<close>) blast
  have sub: "set ?C \<subseteq> set ps" using slot by (auto simp: consumed_iff)
  have "sum_list (map pj_edgeCount ps) = sum pj_edgeCount (set ps)" using assms by (simp add: sum_list_distinct_conv_sum_set)
  also have "\<dots> = sum pj_edgeCount (set ps - set ?C) + sum pj_edgeCount (set ?C)"
    using sub by (simp add: sum.subset_diff)
  also have "sum pj_edgeCount (set ps - set ?C) = sum_list (map pj_edgeCount (filter (\<lambda>p. p \<notin> set ?C) ps))"
    using assms by (simp add: sum_list_distinct_conv_sum_set set_diff_eq)
  also have "sum pj_edgeCount (set ?C) = sum_list (map pj_edgeCount ?C)" using dist by (simp add: sum_list_distinct_conv_sum_set)
  finally have total: "sum_list (map pj_edgeCount ps) = sum_list (map pj_edgeCount (filter (\<lambda>p. p \<notin> set ?C) ps)) + sum_list (map pj_edgeCount ?C)" .
  have "merge_directions ps = (if ?C = [] then ps else filter (\<lambda>p. p \<notin> set ?C) ps @ map (\<lambda>(key, f, r). both_ways key f r) ?slots)"
    by (simp add: merge_directions_def Let_def consumed_edges_def)
  moreover have "map pj_edgeCount (map (\<lambda>(key, f, r). both_ways key f r) ?slots) = map (\<lambda>(K, f, r). pj_edgeCount (both_ways K f r)) ?slots"
    by auto
  ultimately show ?thesis using total
  proof (cases "?C = []")
    case False
    with \<open>merge_directions ps = _\<close> total show ?thesis
      by (simp only: map_append sum_list_append if_False \<open>map pj_edgeCount (map _ ?slots) = _\<close> sum_counts_consumed)
  qed simp
qed

lemma finalize_group_simps [simp]:
  "pj_id (finalize_group i (k, es)) = ''bundle-'' @ k"
  "pj_source (finalize_group i (k, es)) = gr_source (hd es)"
  "pj_target (finalize_group i (k, es)) = gr_target (hd es)"
  "pj_edgeCount (finalize_group i (k, es)) = length es"
  by (simp_all add: finalize_group_def Let_def)

lemma distinct_finalized: "jsm_ok g \<Longrightarrow> distinct (map (finalize_group i) g)"
proof -
  assume "jsm_ok g"
  moreover have "map pj_id (map (finalize_group i) g) = map ((@) ''bundle-'') (map fst g)" by auto
  ultimately have "distinct (map pj_id (map (finalize_group i) g))" by (simp add: jsm_ok_def distinct_map inj_on_def)
  then show ?thesis by (simp only: distinct_map [of pj_id])
qed

text \<open>
  C24: No edge that is to be drawn is lost or drawn twice: with the lineage flow on, the counts on the drawn edges add up
  to the number of the edges that are to be drawn, whatever is bundled and merged on the way; with it off nothing is
  drawn. To be drawn are (\<open>drawn_ends\<close>) an aggregated edge that is collapsed and, in a trace, not suppressed; an edge of
  the canvas that is no containment edge and, in a trace, was added by it or joins two nodes of its context and is not
  a suppressed aggregate; and each detailed edge of an expanded aggregate; always only if its ends lead to two
  different nodes. An aggregated edge counts as one, whatever number of lineage edges it stands for, other than the
  legend's comment says (\<open>aggregated_edge_counts_as_one\<close>).
\<close>

theorem projection_accounts_for_every_edge:
  "sum_list (map pj_edgeCount (visibleLineageEdges i)) = (if px_showLineageFlow i then length (drawn_ends i) else 0)"
proof -
  have same: "map pj_edgeCount (visibleLineageEdges i) = map pj_edgeCount (projectedEdges i)"
    by (simp add: visibleLineageEdges_def delegate_edge_def Let_def)
  let ?g = "bundled_groups i"
  have "groups_ok (\<lambda>k e. True) ?g" by (rule bundled_groups_ok) (simp_all add: bundle_ok_def)
  then have "distinct (map (finalize_group i) ?g)" by (intro distinct_finalized groups_okD)
  then have "sum_list (map pj_edgeCount (merge_directions (map (finalize_group i) ?g))) = sum_list (map pj_edgeCount (map (finalize_group i) ?g))"
    by (rule merge_directions_total)
  also have "map pj_edgeCount (map (finalize_group i) ?g) = map (length \<circ> snd) ?g" by auto
  also have "sum_list \<dots> = grouped_total ?g" by (simp add: grouped_total_def)
  also have "\<dots> = length (drawn_ends i)" by (rule bundled_groups_ok [of i "\<lambda>k e. True"]) (simp_all add: bundle_ok_def)
  finally show ?thesis by (simp only: same projectedEdges_def) simp
qed

section \<open>One drawn edge for a pair of nodes\<close>

text \<open>A name without an arrow comes back from a key.\<close>

definition no_arrow :: "string \<Rightarrow> bool" where
  "no_arrow s \<longleftrightarrow> split_arrow s = [s]"

lemma split_arrow_Nil [simp]: "split_arrow s \<noteq> []"
  by (cases s rule: split_arrow.cases) (auto split: list.splits)

lemma split_arrow_append: "no_arrow s \<Longrightarrow> split_arrow (s @ ''->'' @ t) = s # split_arrow t"
  unfolding no_arrow_def
proof (induction s rule: split_arrow.induct)
  case (3 c c' s)
  then show ?case by (auto split: if_splits list.splits)
qed auto

lemma split_arrow_head: "split_arrow (c # s) = (d # w) # ws \<Longrightarrow> d = c"
  by (cases s) (auto split: if_splits list.splits)

lemma split_arrow_parts: "w \<in> set (split_arrow s) \<Longrightarrow> no_arrow w"
proof (induction s arbitrary: w rule: split_arrow.induct)
  case (3 c c' s)
  show ?case
  proof (cases "c = CHR ''-'' \<and> c' = CHR ''>''")
    case True
    then show ?thesis using 3 by (auto simp: no_arrow_def)
  next
    case False
    obtain v vs where split: "split_arrow (c' # s) = v # vs" using split_arrow_Nil by (cases "split_arrow (c' # s)") blast+
    have "no_arrow x" if "x \<in> set (v # vs)" for x using 3(2) [OF False, of x] that split by simp
    moreover have "no_arrow (c # v)"
    proof (cases v)
      case (Cons d v')
      have "d = c'" using split split_arrow_head unfolding Cons by blast
      then show ?thesis using \<open>\<And>x. x \<in> set (v # vs) \<Longrightarrow> no_arrow x\<close> [of v] False by (auto simp: no_arrow_def Cons)
    qed (simp add: no_arrow_def)
    ultimately show ?thesis using 3(3) False split by auto
  qed
qed (auto simp: no_arrow_def)

lemma arrow_ends_key [simp]: "no_arrow s \<Longrightarrow> no_arrow t \<Longrightarrow> arrow_ends (arrow_key s t) = (s, t)"
  using split_arrow_append [of s t] by (simp add: arrow_ends_def arrow_key_def no_arrow_def)

lemma arrow_ends_no_arrow: "no_arrow (fst (arrow_ends key))" "no_arrow (snd (arrow_ends key))"
  using split_arrow_parts [of _ key] by (auto simp: arrow_ends_def no_arrow_def split: list.splits)

definition pair_of :: "projected_edge \<Rightarrow> ident set" where
  "pair_of p = {pj_source p, pj_target p}"

text \<open>An edge that keeps its pair in its key.\<close>

definition keyed_edge :: "string \<Rightarrow> grouped_edge \<Rightarrow> bool" where
  "keyed_edge k e \<longleftrightarrow> gr_source e \<noteq> gr_target e \<and> no_arrow (gr_source e) \<and> no_arrow (gr_target e) \<and> k = arrow_key (gr_source e) (gr_target e)"

definition arrow_free_input :: "projection_input \<Rightarrow> bool" where
  "arrow_free_input i \<longleftrightarrow>
     (\<forall>(s, t) \<in> set (drawn_ends i). no_arrow s \<and> no_arrow t) \<and> (\<forall>(c, p) \<in> set (nullish (px_browseParents i) []). no_arrow p)"

lemma collapsed_parent_no_arrow: "arrow_free_input i \<Longrightarrow> collapsed_parent i n = Some p \<Longrightarrow> no_arrow p"
  by (auto simp: collapsed_parent_def Let_def arrow_free_input_def dest!: mget_in_set split: if_splits)

lemma bundle_keyed: "arrow_free_input i \<Longrightarrow> bundle_ok i keyed_edge"
  unfolding bundle_ok_def
proof (intro allI impI)
  fix ck pk e
  assume free: "arrow_free_input i" and bucket: "bucket_of i ck = Some pk" and "keyed_edge ck e" and ends: "fst (arrow_ends pk) \<noteq> snd (arrow_ends pk)"
  have "no_arrow (nullish (collapsed_parent i n) n)" if "no_arrow n" for n
    using that collapsed_parent_no_arrow [OF free, of n] by (cases "collapsed_parent i n") auto
  then obtain s t where "pk = arrow_key s t" "no_arrow s" "no_arrow t"
    using bucket arrow_ends_no_arrow [of ck] by (auto simp: bucket_of_def Let_def case_prod_unfold split: if_splits)
  with ends show "keyed_edge pk (rekeyed (fst (arrow_ends pk)) (snd (arrow_ends pk)) e)"
    by (simp add: keyed_edge_def rekeyed_def)
qed

lemma distinct_ends_SomeD: "distinct_ends a b = Some (s, t) \<Longrightarrow> s \<noteq> t"
  by (auto simp: distinct_ends_def truthy_def split: if_splits)

lemma agg_ends_distinct: "agg_ends i e = Some (s, t) \<Longrightarrow> s \<noteq> t"
  by (simp add: agg_ends_def Let_def split: if_splits) (rule distinct_ends_SomeD)

lemma detailed_ends_distinct: "detailed_ends i e = Some (s, t) \<Longrightarrow> s \<noteq> t"
  unfolding detailed_ends_def by (rule distinct_ends_SomeD)

lemma regular_ends_distinct:
  assumes "regular_ends i e = Some (s, t)"
  shows "s \<noteq> t"
proof -
  let ?s = "regular_end i (edge_source e)" and ?t = "regular_end i (edge_target e)"
  have "distinct_ends (rolled_up i ?s ?t) (rolled_up i ?t ?s) = Some (s, t)"
    using assms by (cases "distinct_ends (rolled_up i ?s ?t) (rolled_up i ?t ?s)")
      (auto simp: regular_ends_def Let_def simp del: truthy_simps split: if_splits)
  then show ?thesis by (rule distinct_ends_SomeD)
qed

lemma opt_list_drawn: "p \<in> set (concat (map (opt_list \<circ> f) xs)) \<Longrightarrow> \<exists>x. f x = Some p"
  by (force simp: opt_list_def split: option.splits)

lemma drawn_ends_distinct:
  assumes "(s, t) \<in> set (drawn_ends i)"
  shows "s \<noteq> t"
proof -
  from assms consider "(s, t) \<in> set (concat (map (opt_list \<circ> (agg_ends i \<circ> snd)) (px_aggregated i)))"
    | "(s, t) \<in> set (concat (map (opt_list \<circ> regular_ends i) (px_edges i)))"
    | "(s, t) \<in> set (concat (map (opt_list \<circ> detailed_ends i) (detailed_edges i)))"
    unfolding drawn_ends_def set_append Un_iff comp_assoc by blast
  then show ?thesis
  proof cases
    case 1
    from opt_list_drawn [OF this] show ?thesis using agg_ends_distinct by auto
  next
    case 2
    from opt_list_drawn [OF this] show ?thesis using regular_ends_distinct by blast
  next
    case 3
    from opt_list_drawn [OF this] show ?thesis using detailed_ends_distinct by blast
  qed
qed

lemma bundled_keyed: "arrow_free_input i \<Longrightarrow> groups_ok keyed_edge (bundled_groups i)"
proof (rule bundled_groups_ok(1) [OF bundle_keyed])
  fix s t eid d ty
  assume "arrow_free_input i" "(s, t) \<in> set (drawn_ends i)"
  with drawn_ends_distinct show "keyed_edge (arrow_key s t) (new_edge s t eid d ty)"
    by (auto simp: keyed_edge_def new_edge_def arrow_free_input_def)
qed

text \<open>Projected edges that name two nodes without arrows, and no ordered pair twice.\<close>

definition plain_edge :: "projected_edge \<Rightarrow> bool" where
  "plain_edge p \<longleftrightarrow> pj_source p \<noteq> pj_target p \<and> no_arrow (pj_source p) \<and> no_arrow (pj_target p)"

lemma finalized_plain:
  assumes "groups_ok keyed_edge g"
  shows "\<forall>p \<in> set (map (finalize_group i) g). plain_edge p"
    and "distinct (map (\<lambda>p. (pj_source p, pj_target p)) (map (finalize_group i) g))"
proof -
  have head: "keyed_edge k (hd es)" if "(k, es) \<in> set g" for k es
    using that groups_okD(1) [OF assms] groups_okD(2,3) [OF assms, of k es] by (metis hd_in_set mget_iff_in_set)
  then show "\<forall>p \<in> set (map (finalize_group i) g). plain_edge p" by (auto simp: plain_edge_def keyed_edge_def)
  have "map (\<lambda>(s, t). arrow_key s t) (map (\<lambda>p. (pj_source p, pj_target p)) (map (finalize_group i) g)) = map fst g"
    using head by (auto simp: keyed_edge_def)
  then have "distinct (map (\<lambda>(s, t). arrow_key s t) (map (\<lambda>p. (pj_source p, pj_target p)) (map (finalize_group i) g)))"
    using groups_okD(1) [OF assms] by (simp only: jsm_ok_def)
  then show "distinct (map (\<lambda>p. (pj_source p, pj_target p)) (map (finalize_group i) g))"
    by (simp only: distinct_map [of "\<lambda>(s, t). arrow_key s t"])
qed

lemma canonical_ends: "no_arrow a \<Longrightarrow> no_arrow b \<Longrightarrow> arrow_ends (canonical a b) = (if a < b then (a, b) else (b, a))"
  by (simp add: canonical_def)

lemma canonical_pair:
  assumes "plain_edge p" "plain_edge q"
  shows "canonical (pj_source p) (pj_target p) = canonical (pj_source q) (pj_target q) \<longleftrightarrow> pair_of p = pair_of q"
proof
  assume "canonical (pj_source p) (pj_target p) = canonical (pj_source q) (pj_target q)"
  then have "arrow_ends (canonical (pj_source p) (pj_target p)) = arrow_ends (canonical (pj_source q) (pj_target q))" by simp
  then show "pair_of p = pair_of q" using assms by (auto simp: plain_edge_def canonical_ends pair_of_def split: if_splits)
next
  assume "pair_of p = pair_of q"
  then consider "pj_source p = pj_source q" "pj_target p = pj_target q" | "pj_source p = pj_target q" "pj_target p = pj_source q"
    by (auto simp: pair_of_def doubleton_eq_iff)
  then show "canonical (pj_source p) (pj_target p) = canonical (pj_source q) (pj_target q)"
    using assms(1) by cases (auto simp: canonical_def plain_edge_def)
qed

lemma canonical_sym: "canonical a b = canonical b a"
  by (auto simp: canonical_def)

text \<open>With no ordered pair twice, every edge sits in the slot of its pair.\<close>

definition slots_full :: "projected_edge list \<Rightarrow> (string, pair_slot) jsmap \<Rightarrow> bool" where
  "slots_full ps m \<longleftrightarrow>
     (\<forall>p \<in> set ps.
        (pj_source p < pj_target p \<longrightarrow> (\<exists>r. mget m (canonical (pj_source p) (pj_target p)) = Some (Some p, r))) \<and>
        (pj_target p < pj_source p \<longrightarrow> (\<exists>f. mget m (canonical (pj_source p) (pj_target p)) = Some (f, Some p))))"

lemma fold_slot_edge_full:
  "\<forall>p \<in> set ps. plain_edge p \<Longrightarrow> distinct (map (\<lambda>p. (pj_source p, pj_target p)) ps) \<Longrightarrow> slots_full ps (fold slot_edge ps [])"
proof (induction ps rule: rev_induct)
  case (snoc p ps)
  let ?m = "fold slot_edge ps []" and ?K = "canonical (pj_source p) (pj_target p)"
  have ih: "slots_full ps ?m" using snoc by simp
  have plain: "plain_edge p" "\<And>q. q \<in> set ps \<Longrightarrow> plain_edge q" using snoc.prems(1) by simp_all
  obtain f r where old: "nullish (mget ?m ?K) (None, None) = (f, r)" by (cases "nullish (mget ?m ?K) (None, None)")
  have new: "slot_edge p ?m = mset_key ?K (if pj_source p < pj_target p then (Some p, r) else (f, Some p)) ?m"
    using plain(1) old by (simp add: slot_edge_def Let_def plain_edge_def)
  have earlier: "(pj_source q < pj_target q \<longrightarrow> (\<exists>r. mget (slot_edge p ?m) (canonical (pj_source q) (pj_target q)) = Some (Some q, r))) \<and>
      (pj_target q < pj_source q \<longrightarrow> (\<exists>f. mget (slot_edge p ?m) (canonical (pj_source q) (pj_target q)) = Some (f, Some q)))"
    if q: "q \<in> set ps" for q
  proof (cases "canonical (pj_source q) (pj_target q) = ?K")
    case False
    then show ?thesis using ih q by (auto simp: slots_full_def new)
  next
    case True
    have "pair_of q = pair_of p" using True canonical_pair [OF plain(2) [OF q] plain(1)] by simp
    moreover have "(pj_source q, pj_target q) \<noteq> (pj_source p, pj_target p)" using snoc.prems(2) q by (force simp: rev_image_eqI)
    ultimately have opp: "pj_source q = pj_target p" "pj_target q = pj_source p" by (auto simp: pair_of_def doubleton_eq_iff)
    have "(pj_source q < pj_target q \<longrightarrow> f = Some q) \<and> (pj_target q < pj_source q \<longrightarrow> r = Some q)"
      using ih q True old by (auto simp: slots_full_def)
    then show ?thesis by (auto simp: new opp canonical_sym [of "pj_target p" "pj_source p"])
  qed
  have "pj_source p < pj_target p \<or> pj_target p < pj_source p" using plain(1) by (auto simp: plain_edge_def)
  then show ?case using earlier by (auto simp: slots_full_def new)
qed (simp add: slots_full_def)

lemma merge_directions_pairs:
  assumes plain: "\<forall>p \<in> set ps. plain_edge p" and dist: "distinct (map (\<lambda>p. (pj_source p, pj_target p)) ps)"
  shows "distinct (map pair_of (merge_directions ps)) \<and> (\<forall>p \<in> set (merge_directions ps). plain_edge p)
    \<and> pair_of ` set (merge_directions ps) = pair_of ` set ps"
proof -
  let ?m = "fold slot_edge ps []"
  let ?slots = "full_slots ?m"
  let ?C = "consumed_edges ?slots"
  have ok: "slots_ok ps ?m" by (rule fold_slot_edge_ok) (simp_all add: slots_ok_def)
  then have jsm: "jsm_ok ?m" by (simp add: slots_ok_def)
  note full = fold_slot_edge_full [OF plain dist, unfolded slots_full_def]
  have slot: "f \<in> set ps" "r \<in> set ps" "pj_source f < pj_target f" "pj_target r < pj_source r"
    "canonical (pj_source f) (pj_target f) = K" "canonical (pj_source r) (pj_target r) = K" if "(K, f, r) \<in> set ?slots" for K f r
    using ok full_slots_iff [OF jsm, of K f r] that unfolding slots_ok_def by blast+
  have both: "pair_of (both_ways K f r) = pair_of f \<and> pair_of r = pair_of f \<and> plain_edge (both_ways K f r)" if "(K, f, r) \<in> set ?slots" for K f r
  proof -
    have pf: "plain_edge f" and pr: "plain_edge r" using slot(1,2) [OF that] plain by auto
    have "arrow_ends K = (pj_source f, pj_target f)"
      using slot(3,5) [OF that] canonical_ends [of "pj_source f" "pj_target f"] pf by (auto simp: plain_edge_def)
    then have "pj_source (both_ways K f r) = pj_source f" "pj_target (both_ways K f r) = pj_target f"
      by (simp_all add: both_ways_def)
    moreover have "pair_of f = pair_of r" using canonical_pair [OF pf pr] slot(5,6) [OF that] by simp
    ultimately show ?thesis using pf by (simp add: pair_of_def plain_edge_def)
  qed
  have both_in: "f \<in> set ?C" "r \<in> set ?C" if "(K, f, r) \<in> set ?slots" for K f r
    using that unfolding consumed_iff by force+
  have taken: "\<exists>K f r. (K, f, r) \<in> set ?slots \<and> (p = f \<or> p = r)" if "p \<in> set ?C" for p
    using that unfolding consumed_iff by (metis prod.collapse)
  have opposite: "p \<in> set ?C \<and> q \<in> set ?C"
    if pq: "p \<in> set ps" "q \<in> set ps" "pair_of p = pair_of q" "pj_source p < pj_target p" "pj_target q < pj_source q" for p q
  proof -
    have same: "canonical (pj_source q) (pj_target q) = canonical (pj_source p) (pj_target p)"
      using canonical_pair plain pq(1-3) by metis
    obtain r where "mget ?m (canonical (pj_source p) (pj_target p)) = Some (Some p, r)" using full pq(1,4) by blast
    moreover obtain f where "mget ?m (canonical (pj_source p) (pj_target p)) = Some (f, Some q)"
      using full pq(2,5) unfolding same [symmetric] by blast
    ultimately have "mget ?m (canonical (pj_source p) (pj_target p)) = Some (Some p, Some q)" by simp
    then have "(canonical (pj_source p) (pj_target p), p, q) \<in> set ?slots" by (simp add: full_slots_iff [OF jsm])
    then show ?thesis using both_in by blast
  qed
  have unique: "p = q \<or> (p \<in> set ?C \<and> q \<in> set ?C)" if pq: "p \<in> set ps" "q \<in> set ps" "pair_of p = pair_of q" for p q
  proof -
    from pq(3) consider "(pj_source p, pj_target p) = (pj_source q, pj_target q)" | "pj_source p = pj_target q" "pj_target p = pj_source q"
      by (auto simp: pair_of_def doubleton_eq_iff)
    then show ?thesis
    proof cases
      case 1
      then show ?thesis using dist pq(1,2) by (auto simp: distinct_map inj_on_def)
    next
      case 2
      have "pj_source p < pj_target p \<or> pj_target p < pj_source p" using plain pq(1) by (auto simp: plain_edge_def)
      then show ?thesis using opposite [OF pq] opposite [OF pq(2,1) pq(3) [symmetric]] 2 by auto
    qed
  qed
  let ?left = "filter (\<lambda>p. p \<notin> set ?C) ps" and ?new = "map (\<lambda>(key, f, r). both_ways key f r) ?slots"
  have out: "merge_directions ps = (if ?C = [] then ps else ?left @ ?new)"
    by (simp add: merge_directions_def Let_def consumed_edges_def)
  have same: "merge_directions ps = ?left @ ?new"
  proof (cases "?C = []")
    case True
    then have "?slots = []" by (cases ?slots) auto
    with True show ?thesis by (simp add: out)
  qed (simp add: out)
  have "distinct ps" using dist by (simp add: distinct_map)
  have left: "distinct (map pair_of ?left)"
    using unique \<open>distinct ps\<close> by (auto simp: distinct_map inj_on_def)
  have pair_new: "pair_of ((\<lambda>(key, f, r). both_ways key f r) q) = pair_of (fst (snd q))" if "q \<in> set ?slots" for q
    using both that by (cases q) auto
  have "inj_on (pair_of \<circ> (\<lambda>(key, f, r). both_ways key f r)) (set ?slots)"
  proof (rule inj_onI)
    fix q q'
    assume q: "q \<in> set ?slots" "q' \<in> set ?slots"
      "(pair_of \<circ> (\<lambda>(key, f, r). both_ways key f r)) q = (pair_of \<circ> (\<lambda>(key, f, r). both_ways key f r)) q'"
    obtain K f r K' f' r' where parts: "q = (K, f, r)" "q' = (K', f', r')" by (cases q, cases q')
    have "pair_of f = pair_of f'" using q(3) pair_new [OF q(1)] pair_new [OF q(2)] by (simp add: parts)
    moreover have "plain_edge f" "plain_edge f'" using slot(1) q(1,2) plain unfolding parts by blast+
    ultimately have "K = K'" using canonical_pair slot(5) q(1,2) unfolding parts by metis
    then show "q = q'" using q(1,2) full_slots_iff [OF jsm] unfolding parts by simp
  qed
  moreover have "distinct ?slots" using distinct_full_slots [OF jsm] by (simp add: distinct_map)
  ultimately have new: "distinct (map pair_of ?new)" by (simp add: distinct_map)
  have news: "pair_of ` set ?new = pair_of ` set ?C"
  proof -
    have "pair_of ` set ?new = (\<lambda>q. pair_of (fst (snd q))) ` set ?slots" using pair_new by (simp add: image_image)
    moreover have "pair_of ` set ?C = (\<lambda>q. pair_of (fst (snd q))) ` set ?slots"
    proof
      show "pair_of ` set ?C \<subseteq> (\<lambda>q. pair_of (fst (snd q))) ` set ?slots"
        using taken both by (force intro: rev_image_eqI)
      show "(\<lambda>q. pair_of (fst (snd q))) ` set ?slots \<subseteq> pair_of ` set ?C"
        using both_in by force
    qed
    ultimately show ?thesis by simp
  qed
  have sub: "set ?C \<subseteq> set ps" using taken slot(1,2) by blast
  have apart: "pair_of ` set ?left \<inter> pair_of ` set ?C = {}"
  proof -
    have False if "p \<in> set ?left" "q \<in> set ?C" "pair_of p = pair_of q" for p q
      using unique [of p q] that sub by auto
    then show ?thesis by blast
  qed
  have "set ?left \<union> set ?C = set ps" using sub by auto
  then have "pair_of ` set ?left \<union> pair_of ` set ?new = pair_of ` set ps" by (metis news image_Un)
  moreover have "\<forall>p \<in> set (?left @ ?new). plain_edge p" using plain both by auto
  moreover have "distinct (map pair_of ?left @ map pair_of ?new)"
    unfolding distinct_append using left new apart news by (metis set_map)
  then have "distinct (map pair_of (?left @ ?new))" unfolding map_append .
  ultimately show ?thesis unfolding same by (simp only: set_append image_Un)
qed

lemma put_edge_keeps_keys: "mget g k \<noteq> None \<Longrightarrow> mget (put_edge ends eid d ty g) k \<noteq> None"
  by (auto simp: put_edge_def addEdgeToGroup_def split: option.splits)

lemma fold_put_edge_keys:
  "mget g k \<noteq> None \<or> (\<exists>s t. (s, t) \<in> set (concat (map (opt_list \<circ> ends) xs)) \<and> k = arrow_key s t) \<Longrightarrow>
   mget (fold (\<lambda>x. put_edge (ends x) (eid x) (d x) (ty x)) xs g) k \<noteq> None"
proof (induction xs arbitrary: g)
  case (Cons x xs)
  let ?g = "put_edge (ends x) (eid x) (d x) (ty x) g"
  from Cons.prems consider "mget g k \<noteq> None" | s t where "ends x = Some (s, t)" "k = arrow_key s t"
    | s t where "(s, t) \<in> set (concat (map (opt_list \<circ> ends) xs))" "k = arrow_key s t"
    by (cases "ends x") (auto simp: comp_def simp del: set_concat)
  then have "mget ?g k \<noteq> None \<or> (\<exists>s t. (s, t) \<in> set (concat (map (opt_list \<circ> ends) xs)) \<and> k = arrow_key s t)"
  proof cases
    case 1
    with put_edge_keeps_keys show ?thesis by blast
  next
    case 2
    then show ?thesis by (simp add: put_edge_def addEdgeToGroup_def)
  qed blast
  from Cons.IH [OF this] show ?case by simp
qed simp

lemma edgeGroups_keys:
  assumes "(s, t) \<in> set (drawn_ends i)"
  shows "mget (edgeGroups i) (arrow_key s t) \<noteq> None"
proof -
  let ?a = "fold (\<lambda>p. put_edge (agg_ends i (snd p)) (ai_id (as_aggregated (snd p))) (aggregated_data (as_aggregated (snd p))) ''AGGREGATED'') (px_aggregated i) []"
  let ?b = "fold (\<lambda>e. put_edge (regular_ends i e) (edge_id e) (nullish (edge_data_of e) empty_data) (normalizeEdgeType e)) (px_edges i) ?a"
  have eq: "edgeGroups i = fold (\<lambda>de. put_edge (detailed_ends i de) (ge_id de) (detailed_data de) (ge_edgeType de)) (detailed_edges i) ?b"
    by (simp add: edgeGroups_def detailed_edges_def Let_def case_prod_unfold)
  from assms consider "(s, t) \<in> set (concat (map (opt_list \<circ> (\<lambda>p. agg_ends i (snd p))) (px_aggregated i)))"
    | "(s, t) \<in> set (concat (map (opt_list \<circ> regular_ends i) (px_edges i)))"
    | "(s, t) \<in> set (concat (map (opt_list \<circ> detailed_ends i) (detailed_edges i)))"
    by (auto simp: drawn_ends_def)
  then show ?thesis
  proof cases
    case 1
    then have "mget ?a (arrow_key s t) \<noteq> None" by (intro fold_put_edge_keys) blast
    then have "mget ?b (arrow_key s t) \<noteq> None" by (rule fold_put_edge_keys [OF disjI1])
    then show ?thesis unfolding eq by (rule fold_put_edge_keys [OF disjI1])
  next
    case 2
    then have "mget ?b (arrow_key s t) \<noteq> None" by (intro fold_put_edge_keys) blast
    then show ?thesis unfolding eq by (rule fold_put_edge_keys [OF disjI1])
  next
    case 3
    then show ?thesis unfolding eq by (intro fold_put_edge_keys) blast
  qed
qed

lemma unbundled_pairs:
  assumes free: "arrow_free_input i" and off: "px_isTracing i \<or> \<not> px_browseEnabled i \<or> px_browseParents i = None"
  shows "pair_of ` set (map (finalize_group i) (bundled_groups i)) = (\<lambda>(s, t). {s, t}) ` set (drawn_ends i)"
proof -
  have g: "bundled_groups i = edgeGroups i" using off by (auto simp: bundled_groups_def Let_def)
  let ?R = "\<lambda>k e. keyed_edge k e \<and> (gr_source e, gr_target e) \<in> set (drawn_ends i)"
  have ok: "groups_ok ?R (edgeGroups i)"
  proof (rule edgeGroups_ok(1))
    fix s t eid d ty
    assume "(s, t) \<in> set (drawn_ends i)"
    with free drawn_ends_distinct show "?R (arrow_key s t) (new_edge s t eid d ty)"
      by (auto simp: keyed_edge_def new_edge_def arrow_free_input_def)
  qed
  have head: "?R k (hd es)" if "mget (edgeGroups i) k = Some es" for k es
    using groups_okD(2,3) [OF ok that] by (meson hd_in_set)
  show ?thesis
  proof (intro equalityI subsetI)
    fix x
    assume "x \<in> pair_of ` set (map (finalize_group i) (bundled_groups i))"
    then obtain k es where "(k, es) \<in> set (edgeGroups i)" "x = {gr_source (hd es), gr_target (hd es)}"
      by (auto simp: g pair_of_def)
    with head [of k es] groups_okD(1) [OF ok] show "x \<in> (\<lambda>(s, t). {s, t}) ` set (drawn_ends i)"
      by (force simp: mget_iff_in_set)
  next
    fix x
    assume "x \<in> (\<lambda>(s, t). {s, t}) ` set (drawn_ends i)"
    then obtain s t where st: "(s, t) \<in> set (drawn_ends i)" "x = {s, t}" by auto
    then obtain es where es: "mget (edgeGroups i) (arrow_key s t) = Some es" using edgeGroups_keys by blast
    have "no_arrow s" "no_arrow t" using free st by (auto simp: arrow_free_input_def)
    then have "(gr_source (hd es), gr_target (hd es)) = (s, t)" using head [OF es] arrow_ends_key by (metis keyed_edge_def)
    then have "x = pair_of (finalize_group i (arrow_key s t, es))" using st by (simp add: pair_of_def)
    then show "x \<in> pair_of ` set (map (finalize_group i) (bundled_groups i))" using mget_in_set [OF es] by (auto simp: g)
  qed
qed

lemma delegate_edge_ends [simp]: "pj_source (delegate_edge i p) = pj_source p" "pj_target (delegate_edge i p) = pj_target p"
  by (simp_all add: delegate_edge_def Let_def)

text \<open>When the names of the canvas contain no arrow, a pair of nodes has at most one drawn edge,
  of whichever direction, every drawn edge joins two different nodes, and outside the bundling of the
  browse mode the pairs joined are exactly those the edges lead to.\<close>

theorem one_drawn_edge_per_pair:
  assumes "arrow_free_input i" "px_showLineageFlow i"
  shows "distinct (map pair_of (visibleLineageEdges i))
    \<and> (\<forall>p \<in> set (visibleLineageEdges i). pj_source p \<noteq> pj_target p)
    \<and> (px_isTracing i \<or> \<not> px_browseEnabled i \<or> px_browseParents i = None
        \<longrightarrow> pair_of ` set (visibleLineageEdges i) = (\<lambda>(s, t). {s, t}) ` set (drawn_ends i))"
proof -
  let ?ps = "map (finalize_group i) (bundled_groups i)"
  note merged = merge_directions_pairs [OF finalized_plain [OF bundled_keyed [OF assms(1)]], of i]
  have pairs: "map pair_of (visibleLineageEdges i) = map pair_of (merge_directions ?ps)"
    using assms(2) by (simp add: visibleLineageEdges_def projectedEdges_def pair_of_def)
  then have set_pairs: "pair_of ` set (visibleLineageEdges i) = pair_of ` set ?ps" using merged by (metis set_map)
  have "pj_source p \<noteq> pj_target p" if "p \<in> set (visibleLineageEdges i)" for p
    using that merged assms(2) by (auto simp: visibleLineageEdges_def projectedEdges_def plain_edge_def)
  then show ?thesis using pairs merged set_pairs unbundled_pairs [OF assms(1)] by metis
qed

section \<open>What the drawn edges say of themselves\<close>

text \<open>The ghost mark compares with ids that no group carries: every drawn edge has it.\<close>

lemma every_drawn_edge_is_a_ghost:
  assumes "p \<in> set (visibleLineageEdges i)"
  shows "pj_isGhost p"
proof -
  have ok: "groups_ok (\<lambda>k e. gr_originalTargetId e = None) (bundled_groups i)"
    by (rule bundled_groups_ok) (simp_all add: bundle_ok_def new_edge_def rekeyed_def)
  have ghost: "pj_isGhost (finalize_group i (k, es))" if "(k, es) \<in> set (bundled_groups i)" for k es
  proof -
    have "mget (bundled_groups i) k = Some es" using that groups_okD(1) [OF ok] by (simp add: mget_iff_in_set)
    then obtain e where "e \<in> set es" "gr_originalTargetId e = None" using groups_okD(2,3) [OF ok] by (meson hd_in_set)
    then show ?thesis by (force simp: finalize_group_def Let_def list_ex_iff)
  qed
  let ?ps = "map (finalize_group i) (bundled_groups i)"
  have all: "\<forall>q \<in> set ?ps. pj_isGhost q" using ghost by auto
  have ok': "slots_ok ?ps (fold slot_edge ?ps [])" by (rule fold_slot_edge_ok) (simp_all add: slots_ok_def)
  have both: "pj_isGhost (both_ways K f r)" if "(K, f, r) \<in> set (full_slots (fold slot_edge ?ps []))" for K f r
  proof -
    have "f \<in> set ?ps" "r \<in> set ?ps" using that ok' full_slots_iff unfolding slots_ok_def by blast+
    with all show ?thesis by (auto simp: both_ways_def case_prod_unfold Let_def)
  qed
  obtain q where q: "q \<in> set (projectedEdges i)" "p = delegate_edge i q" using assms by (auto simp: visibleLineageEdges_def)
  have "q \<in> set ?ps \<or> (\<exists>K f r. (K, f, r) \<in> set (full_slots (fold slot_edge ?ps [])) \<and> q = both_ways K f r)"
    using q(1) by (auto simp: projectedEdges_def merge_directions_def Let_def split: if_splits)
  then have "pj_isGhost q" using all both by blast
  then show ?thesis by (simp add: q(2) delegate_edge_def Let_def)
qed

definition sample_projection :: projection_input where
  "sample_projection =
     \<lparr>px_edges = [\<lparr>edge_id = ''e1'', edge_source = ''d'', edge_target = ''b'', edge_data_of = None\<rparr>,
                  \<lparr>edge_id = ''e2'', edge_source = ''b'', edge_target = ''a'', edge_data_of = None\<rparr>,
                  \<lparr>edge_id = ''e3'', edge_source = ''d'', edge_target = ''a'', edge_data_of = None\<rparr>],
      px_aggregated = [], px_nodeIndex = [], px_ancestorMap = [(''a'', ''a''), (''b'', ''b''), (''d'', ''a'')], px_expanded = [],
      px_displayMap = [(''a'', plain_hnode ''a'' [plain_hnode ''d'' []]), (''b'', plain_hnode ''b'' []), (''d'', plain_hnode ''d'' [])],
      px_urnToIdMap = [], px_showLineageFlow = True, px_isTracing = False, px_traceContext = {}, px_isContainment = (\<lambda>t. False),
      px_hovered = None, px_suppressed = None, px_traceAdded = None, px_traceParents = None, px_typeLevels = None,
      px_focusLevel = None, px_browseEnabled = False, px_browseParents = None, px_fanIn = 1, px_layerIndex = None\<rparr>"

lemma one_drawn_edge_per_pair_witness:
  "drawn_ends sample_projection = [(''a'', ''b''), (''b'', ''a'')]
   \<and> distinct (map pair_of (visibleLineageEdges sample_projection))
   \<and> pair_of ` set (visibleLineageEdges sample_projection) = {{''a'', ''b''}}"
proof -
  have ends: "drawn_ends sample_projection = [(''a'', ''b''), (''b'', ''a'')]" by code_simp
  have "arrow_free_input sample_projection"
    unfolding arrow_free_input_def ends by (simp add: no_arrow_def) (simp add: sample_projection_def)
  then show ?thesis
    using one_drawn_edge_per_pair [of sample_projection] ends
    by (simp add: insert_commute) (simp add: sample_projection_def)
qed

text \<open>
  An aggregated edge ends at a node that is loaded, shown or not, while a regular edge ends at its
  visible ancestor; and an expanded aggregate draws its containment edges too.
\<close>

lemma aggregated_end_is_not_rolled_up:
  "agg_end sample_projection ''d'' = Some ''d''" "regular_end sample_projection ''d'' = Some ''a''"
  by code_simp+

lemma contained_detail_is_drawn:
  "detailed_ends (sample_projection\<lparr>px_isContainment := (\<lambda>t. t = ''CONTAINS'')\<rparr>)
     \<lparr>ge_id = ''x'', ge_sourceUrn = ''a'', ge_targetUrn = ''b'', ge_edgeType = ''CONTAINS'', ge_confidence = None, ge_properties = None\<rparr> = Some (''a'', ''b'')"
  by code_simp

text \<open>The count on a drawn edge is one for an aggregated edge that stands for three.\<close>

lemma aggregated_edge_counts_as_one:
  "map pj_edgeCount (visibleLineageEdges (sample_projection\<lparr>px_edges := [], px_aggregated := [(''e'',
      \<lparr>as_aggregated = \<lparr>ai_id = ''e'', ai_sourceUrn = ''a'', ai_targetUrn = ''b'', ai_edgeCount = 3, ai_edgeTypes = [''FLOW''],
         ai_confidence = 1, ai_sourceEdgeIds = []\<rparr>, as_state = Collapsed, as_detailedEdges = []\<rparr>)]\<rparr>)) = [1]"
  by code_simp

end
