(* ===== verification/Trace_Session.thy ===== *)
theory Trace_Session
  imports Canvas_Store Layer_Rules
begin

text \<open>
  The trace of a canvas (\<^verbatim>\<open>hooks/useUnifiedTrace.ts\<close>): the store with its requests, the drill-downs into
  aggregated edges, and what the hook derives for the canvas. An asynchronous action runs up to its
  request, which it leaves in \<open>ts_pending\<close>; the rest of it is a step of its own, given the answer. A
  failure carries the message of what was thrown, if it was an \<^verbatim>\<open>Error\<close>. Sets that are only asked for
  membership and size are HOL sets; the sidecar \<^verbatim>\<open>meta\<close> of an answer is left out.
\<close>

section \<open>Configuration and requests\<close>

datatype trace_level = AutoLevel | LevelNumber int | LevelType string

record trace_config =
  tc_upstreamDepth :: nat
  tc_downstreamDepth :: nat
  tc_includeColumnLineage :: bool
  tc_excludeContainmentEdges :: bool
  tc_includeInheritedLineage :: bool
  tc_autoExpandAncestors :: bool
  tc_pathOnly :: bool
  tc_autoSyncToStore :: bool
  tc_granularity :: "string option"
  tc_level :: trace_level
  tc_lineageEdgeTypes :: "string list"
  tc_includeContainmentEdges :: bool

definition DEFAULT_TRACE_DEPTH :: nat where
  "DEFAULT_TRACE_DEPTH = 25"

definition DEFAULT_CONFIG :: trace_config where
  "DEFAULT_CONFIG =
     \<lparr>tc_upstreamDepth = DEFAULT_TRACE_DEPTH, tc_downstreamDepth = DEFAULT_TRACE_DEPTH, tc_includeColumnLineage = True,
      tc_excludeContainmentEdges = True, tc_includeInheritedLineage = True, tc_autoExpandAncestors = True,
      tc_pathOnly = False, tc_autoSyncToStore = True, tc_granularity = Some ''column'', tc_level = LevelNumber 0,
      tc_lineageEdgeTypes = [], tc_includeContainmentEdges = True\<rparr>"

text \<open>The whitelist of edge types, \<^verbatim>\<open>null\<close> when it is empty, and the direction two depths mean.\<close>

definition edge_types_of :: "trace_config \<Rightarrow> string list option" where
  "edge_types_of c = (if tc_lineageEdgeTypes c = [] then None else Some (tc_lineageEdgeTypes c))"

definition direction_of :: "nat \<Rightarrow> nat \<Rightarrow> trace_direction" where
  "direction_of upDepth downDepth =
     (if 0 < upDepth \<and> downDepth = 0 then Upstream else if 0 < downDepth \<and> upDepth = 0 then Downstream else Both)"

datatype trace_request =
    TraceAtLevel urn trace_direction nat nat trace_level "string list option" bool bool
  | FullLineage urn nat nat bool bool bool "string list option" string

text \<open>Which optional methods a provider has.\<close>

record trace_provider =
  has_traceAtLevel :: bool
  has_expandAggregated :: bool
  has_expandAggregatedBatch :: bool

definition trace_request_of :: "trace_provider \<Rightarrow> trace_config \<Rightarrow> urn \<Rightarrow> trace_request" where
  "trace_request_of prov c u =
     (if has_traceAtLevel prov
      then TraceAtLevel u (direction_of (tc_upstreamDepth c) (tc_downstreamDepth c)) (tc_upstreamDepth c) (tc_downstreamDepth c)
             (tc_level c) (edge_types_of c) (tc_includeContainmentEdges c) (tc_includeInheritedLineage c)
      else FullLineage u (tc_upstreamDepth c) (tc_downstreamDepth c) (tc_includeColumnLineage c) (tc_excludeContainmentEdges c)
             (tc_includeInheritedLineage c) (edge_types_of c) (nullish (tc_granularity c) ''column''))"

section \<open>Answers and results\<close>

record trace_node = graph_node +
  gn_qualifiedName :: "string option"
  gn_description :: "string option"
  gn_layerAssignment :: "string option"
  gn_childCount :: "rat option"
  gn_sourceSystem :: "string option"
  gn_lastSyncedAt :: "string option"

record trace_v2 =
  v2_nodes :: "trace_node list"
  v2_edges :: "graph_edge list"
  v2_containmentEdges :: "graph_edge list"
  v2_upstreamUrns :: "urn set"
  v2_downstreamUrns :: "urn set"
  v2_focusUrn :: urn
  v2_effectiveLevel :: int
  v2_isInherited :: bool
  v2_inheritedFromUrn :: "string option"
  v2_truncated :: bool
  v2_truncationReason :: "string option"

record lineage_result =
  lr_nodes :: "trace_node list"
  lr_edges :: "graph_edge list"
  lr_upstreamUrns :: "urn set"
  lr_downstreamUrns :: "urn set"
  lr_totalCount :: nat
  lr_hasMore :: bool
  lr_inheritedMark :: "string option"
  lr_inheritedFrom :: "string option"

record trace_result =
  tr_focusId :: ident
  tr_traceNodes :: "ident set"
  tr_upstreamNodes :: "ident set"
  tr_downstreamNodes :: "ident set"
  tr_traceEdges :: "ident set"
  tr_lineageResult :: "lineage_result option"
  tr_effectiveLevel :: "int option"
  tr_isInherited :: "bool option"
  tr_inheritedFromUrn :: "string option"
  tr_truncated :: "bool option"
  tr_truncationReason :: "string option"
  tr_containmentEdges :: "graph_edge list option"
  tr_ancestorUrns :: "urn set option"

datatype trace_answer = AnswerV2 trace_v2 | AnswerLegacy lineage_result

definition traceResultFromV2 :: "ident \<Rightarrow> urn \<Rightarrow> trace_v2 \<Rightarrow> trace_result" where
  "traceResultFromV2 focus focusUrn v2 =
     (let lineageMembers = {focusUrn} \<union> v2_upstreamUrns v2 \<union> v2_downstreamUrns v2
      in \<lparr>tr_focusId = focus,
          tr_traceNodes = {focus, focusUrn} \<union> gn_urn ` set (v2_nodes v2) \<union> v2_upstreamUrns v2 \<union> v2_downstreamUrns v2,
          tr_upstreamNodes = v2_upstreamUrns v2, tr_downstreamNodes = v2_downstreamUrns v2,
          tr_traceEdges = ge_id ` set (v2_edges v2),
          tr_lineageResult = Some \<lparr>lr_nodes = v2_nodes v2, lr_edges = v2_edges v2, lr_upstreamUrns = v2_upstreamUrns v2,
            lr_downstreamUrns = v2_downstreamUrns v2, lr_totalCount = length (v2_nodes v2), lr_hasMore = False,
            lr_inheritedMark = None,
            lr_inheritedFrom = (if v2_isInherited v2 \<and> truthy (v2_inheritedFromUrn v2) then v2_inheritedFromUrn v2 else None)\<rparr>,
          tr_effectiveLevel = Some (v2_effectiveLevel v2), tr_isInherited = Some (v2_isInherited v2),
          tr_inheritedFromUrn = v2_inheritedFromUrn v2, tr_truncated = Some (v2_truncated v2),
          tr_truncationReason = v2_truncationReason v2, tr_containmentEdges = Some (v2_containmentEdges v2),
          tr_ancestorUrns = Some (Set.filter (\<lambda>u. u \<notin> lineageMembers) (gn_urn ` set (v2_nodes v2)))\<rparr>)"

definition traceResultFromLegacy :: "ident \<Rightarrow> urn \<Rightarrow> lineage_result \<Rightarrow> trace_result" where
  "traceResultFromLegacy focus focusUrn lineage =
     \<lparr>tr_focusId = focus,
      tr_traceNodes = {focus, focusUrn} \<union> gn_urn ` set (lr_nodes lineage) \<union> lr_upstreamUrns lineage \<union> lr_downstreamUrns lineage,
      tr_upstreamNodes = lr_upstreamUrns lineage, tr_downstreamNodes = lr_downstreamUrns lineage,
      tr_traceEdges = ge_id ` set (lr_edges lineage), tr_lineageResult = Some lineage, tr_effectiveLevel = None,
      tr_isInherited = None, tr_inheritedFromUrn = None, tr_truncated = None, tr_truncationReason = None,
      tr_containmentEdges = None, tr_ancestorUrns = None\<rparr>"

definition trace_result_of :: "ident \<Rightarrow> urn \<Rightarrow> trace_answer \<Rightarrow> trace_result" where
  "trace_result_of focus focusUrn a =
     (case a of AnswerV2 v2 \<Rightarrow> traceResultFromV2 focus focusUrn v2 | AnswerLegacy l \<Rightarrow> traceResultFromLegacy focus focusUrn l)"

text \<open>Several drill-downs as one: a later node or edge overwrites an earlier one of the same key.\<close>

definition by_key :: "('a \<Rightarrow> ident) \<Rightarrow> 'a list \<Rightarrow> 'a list" where
  "by_key f xs = map snd (mfrom (map (\<lambda>x. (f x, x)) xs))"

definition mergeDrilldownResults :: "trace_v2 list \<Rightarrow> trace_v2 option" where
  "mergeDrilldownResults results =
     (case results of
        [] \<Rightarrow> None
      | [r] \<Rightarrow> Some r
      | first # _ \<Rightarrow>
          Some \<lparr>v2_nodes = by_key gn_urn (concat (map v2_nodes results)), v2_edges = by_key ge_id (concat (map v2_edges results)),
            v2_containmentEdges = by_key ge_id (concat (map v2_containmentEdges results)),
            v2_upstreamUrns = \<Union> (set (map v2_upstreamUrns results)), v2_downstreamUrns = \<Union> (set (map v2_downstreamUrns results)),
            v2_focusUrn = v2_focusUrn first, v2_effectiveLevel = v2_effectiveLevel first, v2_isInherited = v2_isInherited first,
            v2_inheritedFromUrn = v2_inheritedFromUrn first, v2_truncated = list_ex v2_truncated results,
            v2_truncationReason = None\<rparr>)"

section \<open>The store\<close>

datatype trace_status = TIdle | TLoading | TSuccess | TError

record history_entry =
  he_focusId :: ident
  he_focusUrn :: urn
  he_level :: "int option"
  he_timestamp :: int
  he_config :: trace_config

text \<open>A pair of subtrees to drill into, at the next finer level.\<close>

record drill_pair =
  dp_source :: urn
  dp_target :: urn
  dp_nextLevel :: int

text \<open>
  Requests under way: a trace, the drill-down into one pair, a batch of pairs, and the pairs asked one
  by one, after a batch that failed (with its message) or in place of it.
\<close>

datatype trace_pending =
    Tracing ident urn trace_config trace_request
  | Drilling drill_pair "string list option" bool
  | Batching "drill_pair list" bool "string list option" bool
  | Per_Edge "drill_pair list" "string option option" "string list option" bool

record trace_state =
  ts_status :: trace_status
  ts_error :: "string option"
  ts_focusId :: "ident option"
  ts_result :: "trace_result option"
  ts_config :: trace_config
  ts_showUpstream :: bool
  ts_showDownstream :: bool
  ts_drilldowns :: "(string, trace_v2) jsmap"
  ts_history :: "history_entry list"
  ts_addedEdgeIds :: "ident list"
  ts_expandingPairs :: "string set"
  ts_pending :: "trace_pending list"

definition initial_trace :: trace_state where
  "initial_trace =
     \<lparr>ts_status = TIdle, ts_error = None, ts_focusId = None, ts_result = None, ts_config = DEFAULT_CONFIG,
      ts_showUpstream = True, ts_showDownstream = True, ts_drilldowns = [], ts_history = [], ts_addedEdgeIds = [],
      ts_expandingPairs = {}, ts_pending = []\<rparr>"

definition pair_key :: "drill_pair \<Rightarrow> string" where
  "pair_key p = dp_source p @ ''->'' @ dp_target p"

definition drilldownKey :: "drill_pair \<Rightarrow> string" where
  "drilldownKey p = pair_key p @ ''@'' @ dec_of_int (dp_nextLevel p)"

definition TRACE_HISTORY_LIMIT :: nat where
  "TRACE_HISTORY_LIMIT = 5"

definition setTraceFocus :: "ident option \<Rightarrow> trace_state \<Rightarrow> trace_state" where
  "setTraceFocus nid s =
     (if nid = None
      then s\<lparr>ts_focusId := None, ts_result := None, ts_status := TIdle, ts_drilldowns := [], ts_addedEdgeIds := []\<rparr>
      else s\<lparr>ts_focusId := nid\<rparr>)"

text \<open>\<^verbatim>\<open>Partial<TraceConfig>\<close> is what its spread does to a configuration.\<close>

definition setTraceConfig :: "(trace_config \<Rightarrow> trace_config) \<Rightarrow> trace_state \<Rightarrow> trace_state" where
  "setTraceConfig patch s = s\<lparr>ts_config := patch (ts_config s)\<rparr>"

definition setShowUpstream :: "bool \<Rightarrow> trace_state \<Rightarrow> trace_state" where
  "setShowUpstream b s = s\<lparr>ts_showUpstream := b\<rparr>"

definition setShowDownstream :: "bool \<Rightarrow> trace_state \<Rightarrow> trace_state" where
  "setShowDownstream b s = s\<lparr>ts_showDownstream := b\<rparr>"

definition fetchTrace :: "trace_provider \<Rightarrow> (ident \<Rightarrow> urn) \<Rightarrow> ident \<Rightarrow> trace_state \<Rightarrow> trace_state" where
  "fetchTrace prov urnResolver nid s =
     s\<lparr>ts_status := TLoading, ts_error := None, ts_focusId := Some nid, ts_drilldowns := [], ts_addedEdgeIds := [],
       ts_pending := ts_pending s @ [Tracing nid (urnResolver nid) (ts_config s) (trace_request_of prov (ts_config s) (urnResolver nid))]\<rparr>"

definition push_history :: "int \<Rightarrow> ident \<Rightarrow> urn \<Rightarrow> trace_config \<Rightarrow> trace_result \<Rightarrow> history_entry list \<Rightarrow> history_entry list" where
  "push_history now nid u config r history =
     (if history \<noteq> [] \<and> he_focusId (hd history) = nid then history
      else take TRACE_HISTORY_LIMIT
             (\<lparr>he_focusId = nid, he_focusUrn = u, he_level = tr_effectiveLevel r, he_timestamp = now, he_config = config\<rparr> # history))"

text \<open>The rest of \<^verbatim>\<open>fetchTrace\<close>, with the result it returns.\<close>

definition finish_trace ::
  "int \<Rightarrow> ident \<Rightarrow> urn \<Rightarrow> trace_config \<Rightarrow> string option + trace_answer \<Rightarrow> trace_state \<Rightarrow> trace_state \<times> trace_result option" where
  "finish_trace now nid u config answer s =
     (case answer of
        Inl e \<Rightarrow> (s\<lparr>ts_status := TError, ts_error := Some (nullish e ''Failed to fetch trace'')\<rparr>, None)
      | Inr a \<Rightarrow>
          (let r = trace_result_of nid u a
           in (s\<lparr>ts_status := TSuccess, ts_result := Some r, ts_history := push_history now nid u config r (ts_history s)\<rparr>, Some r)))"

section \<open>Drilling down\<close>

text \<open>A pair as the canvas gives it, with the level it is at.\<close>

definition next_finer :: "urn \<times> urn \<times> int \<Rightarrow> drill_pair" where
  "next_finer p = (case p of (src, tgt, currentLevel) \<Rightarrow> \<lparr>dp_source = src, dp_target = tgt, dp_nextLevel = currentLevel + 1\<rparr>)"

text \<open>One pair. What the action returns at once is its cached answer, if there is one.\<close>

definition expandAggregatedEdge :: "trace_provider \<Rightarrow> urn \<Rightarrow> urn \<Rightarrow> int \<Rightarrow> trace_state \<Rightarrow> trace_state \<times> trace_v2 option" where
  "expandAggregatedEdge prov src tgt currentLevel s =
     (let p = next_finer (src, tgt, currentLevel)
      in if \<not> has_expandAggregated prov then (s, None)
         else if mhas (ts_drilldowns s) (drilldownKey p) then (s, mget (ts_drilldowns s) (drilldownKey p))
         else (s\<lparr>ts_expandingPairs := insert (pair_key p) (ts_expandingPairs s),
                 ts_pending := ts_pending s @ [Drilling p (edge_types_of (ts_config s)) (tc_includeContainmentEdges (ts_config s))]\<rparr>, None))"

definition finish_drill :: "drill_pair \<Rightarrow> string option + trace_v2 \<Rightarrow> trace_state \<Rightarrow> trace_state \<times> trace_v2 option" where
  "finish_drill p answer s =
     (let (s1, r) = (case answer of
                       Inl e \<Rightarrow> (s\<lparr>ts_error := Some (nullish e ''Failed to expand aggregated edge'')\<rparr>, None)
                     | Inr v2 \<Rightarrow> (s\<lparr>ts_drilldowns := mset_key (drilldownKey p) v2 (ts_drilldowns s)\<rparr>, Some v2))
      in (s1\<lparr>ts_expandingPairs := ts_expandingPairs s1 - {pair_key p}\<rparr>, r))"

text \<open>A batch: the pairs that are not cached yet are asked in one request, or one by one.\<close>

definition uncached_pairs :: "trace_state \<Rightarrow> drill_pair list \<Rightarrow> drill_pair list" where
  "uncached_pairs s ps = filter (\<lambda>p. \<not> mhas (ts_drilldowns s) (drilldownKey p)) ps"

definition cached_union :: "trace_state \<Rightarrow> drill_pair list \<Rightarrow> trace_v2 option" where
  "cached_union s ps =
     mergeDrilldownResults (map (\<lambda>k. the (mget (ts_drilldowns s) k)) (filter (mhas (ts_drilldowns s)) (set_from (map drilldownKey ps))))"

definition clear_expanding :: "drill_pair list \<Rightarrow> trace_state \<Rightarrow> trace_state" where
  "clear_expanding ps s = s\<lparr>ts_expandingPairs := ts_expandingPairs s - pair_key ` set ps\<rparr>"

definition expandAggregatedEdgesBatch :: "trace_provider \<Rightarrow> (urn \<times> urn \<times> int) list \<Rightarrow> trace_state \<Rightarrow> trace_state \<times> trace_v2 option" where
  "expandAggregatedEdgesBatch prov pairs s =
     (let ps = map next_finer pairs; uncached = uncached_pairs s ps; types = edge_types_of (ts_config s); cont = tc_includeContainmentEdges (ts_config s)
      in if ps = [] then (s, None)
         else if uncached = [] then (s, cached_union s ps)
         else if has_expandAggregatedBatch prov
         then (s\<lparr>ts_expandingPairs := ts_expandingPairs s \<union> pair_key ` set uncached,
                 ts_pending := ts_pending s @ [Batching uncached (has_expandAggregated prov) types cont]\<rparr>, None)
         else if has_expandAggregated prov
         then (s\<lparr>ts_expandingPairs := ts_expandingPairs s \<union> pair_key ` set uncached,
                 ts_pending := ts_pending s @ [Per_Edge uncached None types cont]\<rparr>, None)
         else (clear_expanding uncached (s\<lparr>ts_expandingPairs := ts_expandingPairs s \<union> pair_key ` set uncached\<rparr>), None))"

definition cache_batch :: "drill_pair list \<Rightarrow> trace_v2 \<Rightarrow> trace_state \<Rightarrow> trace_state" where
  "cache_batch ps merged s = s\<lparr>ts_drilldowns := fold (\<lambda>p. mset_key (drilldownKey p) merged) ps (ts_drilldowns s)\<rparr>"

text \<open>After a batch that failed, the pairs are asked one by one when the provider can.\<close>

definition finish_batch :: "drill_pair list \<Rightarrow> bool \<Rightarrow> string list option \<Rightarrow> bool \<Rightarrow> string option + trace_v2 \<Rightarrow> trace_state \<Rightarrow> trace_state \<times> trace_v2 option" where
  "finish_batch ps canPerEdge types cont answer s =
     (case answer of
        Inr merged \<Rightarrow> (clear_expanding ps (cache_batch ps merged s), Some merged)
      | Inl e \<Rightarrow>
          if canPerEdge then (s\<lparr>ts_pending := ts_pending s @ [Per_Edge ps (Some e) types cont]\<rparr>, None)
          else (clear_expanding ps (s\<lparr>ts_error := Some (nullish e ''Failed to expand aggregated edges (batch)'')\<rparr>), None))"

text \<open>All single requests have settled: what answered is merged.\<close>

definition finish_per_edge :: "drill_pair list \<Rightarrow> string option option \<Rightarrow> (string option + trace_v2) list \<Rightarrow> trace_state \<Rightarrow> trace_state \<times> trace_v2 option" where
  "finish_per_edge ps batchError settled s =
     (case mergeDrilldownResults (concat (map (case_sum (\<lambda>_. []) (\<lambda>v. [v])) settled)) of
        Some merged \<Rightarrow> (clear_expanding ps (cache_batch ps merged s), Some merged)
      | None \<Rightarrow>
          (clear_expanding ps
             (case batchError of
                None \<Rightarrow> s
              | Some e \<Rightarrow> s\<lparr>ts_error := Some (nullish e ''Failed to expand aggregated edges (batch)'')\<rparr>), None))"

definition collapseDrilldown :: "string \<Rightarrow> trace_state \<Rightarrow> trace_state" where
  "collapseDrilldown key s = (if mhas (ts_drilldowns s) key then s\<lparr>ts_drilldowns := mdel key (ts_drilldowns s)\<rparr> else s)"

section \<open>Clearing\<close>

definition clearTraceHistory :: "trace_state \<Rightarrow> trace_state" where
  "clearTraceHistory s = s\<lparr>ts_history := []\<rparr>"

definition clearTrace :: "trace_state \<Rightarrow> trace_state" where
  "clearTrace s =
     s\<lparr>ts_focusId := None, ts_result := None, ts_status := TIdle, ts_error := None, ts_showUpstream := True,
       ts_showDownstream := True, ts_drilldowns := [], ts_expandingPairs := {}\<rparr>"

definition recordAddedEdgeIds :: "ident list \<Rightarrow> trace_state \<Rightarrow> trace_state" where
  "recordAddedEdgeIds ids s = s\<lparr>ts_addedEdgeIds := fold set_add ids (ts_addedEdgeIds s)\<rparr>"

definition resetAddedEdgeIds :: "trace_state \<Rightarrow> trace_state" where
  "resetAddedEdgeIds s = s\<lparr>ts_addedEdgeIds := []\<rparr>"

definition reset_trace :: "trace_state \<Rightarrow> trace_state" where
  "reset_trace s = initial_trace\<lparr>ts_pending := ts_pending s\<rparr>"

section \<open>The hook\<close>

definition startTrace :: "trace_provider option \<Rightarrow> (ident \<Rightarrow> urn) \<Rightarrow> ident \<Rightarrow> trace_state \<Rightarrow> trace_state" where
  "startTrace prov urnResolver nid s = (case prov of None \<Rightarrow> s | Some p \<Rightarrow> fetchTrace p urnResolver nid s)"

definition retrace :: "trace_provider option \<Rightarrow> (ident \<Rightarrow> urn) \<Rightarrow> trace_state \<Rightarrow> trace_state" where
  "retrace prov urnResolver s = (if truthy (ts_focusId s) then startTrace prov urnResolver (the (ts_focusId s)) s else s)"

definition with_depths :: "nat \<Rightarrow> nat \<Rightarrow> trace_config \<Rightarrow> trace_config" where
  "with_depths up down c = c\<lparr>tc_upstreamDepth := up, tc_downstreamDepth := down\<rparr>"

definition traceUpstream :: "trace_provider option \<Rightarrow> (ident \<Rightarrow> urn) \<Rightarrow> ident \<Rightarrow> trace_state \<Rightarrow> trace_state" where
  "traceUpstream prov res nid s =
     startTrace prov res nid (setShowDownstream False (setShowUpstream True (setTraceConfig (with_depths 50 0) s)))"

definition traceDownstream :: "trace_provider option \<Rightarrow> (ident \<Rightarrow> urn) \<Rightarrow> ident \<Rightarrow> trace_state \<Rightarrow> trace_state" where
  "traceDownstream prov res nid s =
     startTrace prov res nid (setShowDownstream True (setShowUpstream False (setTraceConfig (with_depths 0 50) s)))"

definition traceFullLineage :: "trace_provider option \<Rightarrow> (ident \<Rightarrow> urn) \<Rightarrow> ident \<Rightarrow> trace_state \<Rightarrow> trace_state" where
  "traceFullLineage prov res nid s =
     startTrace prov res nid (setShowDownstream True (setShowUpstream True (setTraceConfig (with_depths 25 25) s)))"

definition toggleTrace :: "trace_provider option \<Rightarrow> (ident \<Rightarrow> urn) \<Rightarrow> ident \<Rightarrow> trace_state \<Rightarrow> trace_state" where
  "toggleTrace prov res nid s = (if ts_focusId s = Some nid then clearTrace s else startTrace prov res nid s)"

definition jumpToHistoryEntry :: "trace_provider option \<Rightarrow> (ident \<Rightarrow> urn) \<Rightarrow> history_entry \<Rightarrow> trace_state \<Rightarrow> trace_state" where
  "jumpToHistoryEntry prov res entry s =
     startTrace prov res (he_focusId entry) (setTraceConfig (\<lambda>_. he_config entry) s)"

text \<open>Membership by id, or by the URN of the canvas node of that id.\<close>

definition by_id_or_urn :: "lineage_node list \<Rightarrow> ident \<Rightarrow> ident set \<Rightarrow> bool" where
  "by_id_or_urn canvasNodes nid xs \<longleftrightarrow>
     nid \<in> xs \<or>
     (case find_first (\<lambda>n. node_id n = nid) canvasNodes of
        None \<Rightarrow> False
      | Some n \<Rightarrow> truthy (str_field (node_data n) ''urn'') \<and> the (str_field (node_data n) ''urn'') \<in> xs)"

definition isInTrace :: "lineage_node list \<Rightarrow> trace_state \<Rightarrow> ident \<Rightarrow> bool" where
  "isInTrace ns s nid \<longleftrightarrow> (case ts_result s of None \<Rightarrow> False | Some r \<Rightarrow> by_id_or_urn ns nid (tr_traceNodes r))"

definition isUpstream :: "lineage_node list \<Rightarrow> trace_state \<Rightarrow> ident \<Rightarrow> bool" where
  "isUpstream ns s nid \<longleftrightarrow> (case ts_result s of None \<Rightarrow> False | Some r \<Rightarrow> by_id_or_urn ns nid (tr_upstreamNodes r))"

definition isDownstream :: "lineage_node list \<Rightarrow> trace_state \<Rightarrow> ident \<Rightarrow> bool" where
  "isDownstream ns s nid \<longleftrightarrow> (case ts_result s of None \<Rightarrow> False | Some r \<Rightarrow> by_id_or_urn ns nid (tr_downstreamNodes r))"

definition isFocus :: "lineage_node list \<Rightarrow> trace_state \<Rightarrow> ident \<Rightarrow> bool" where
  "isFocus ns s nid \<longleftrightarrow> by_id_or_urn ns nid (set_option (ts_focusId s))"

definition visible_in :: "trace_state \<Rightarrow> trace_result \<Rightarrow> ident \<Rightarrow> bool" where
  "visible_in s r n \<longleftrightarrow>
     (let isUp = n \<in> tr_upstreamNodes r; isDown = n \<in> tr_downstreamNodes r
      in if Some n = ts_focusId s then True
         else if isUp \<and> ts_showUpstream s then True
         else if isDown \<and> ts_showDownstream s then True
         else \<not> isUp \<and> \<not> isDown \<and> (ts_showUpstream s \<or> ts_showDownstream s))"

definition visibleTraceNodes :: "trace_state \<Rightarrow> ident set" where
  "visibleTraceNodes s =
     (case ts_result s of
        None \<Rightarrow> {}
      | Some r \<Rightarrow> (if truthy (ts_focusId s) then {the (ts_focusId s)} else {}) \<union> Set.filter (visible_in s r) (tr_traceNodes r))"

record trace_statistics =
  st_totalNodes :: nat
  st_upstreamCount :: nat
  st_downstreamCount :: nat
  st_totalEdges :: nat
  st_edgeTypes :: "string list"
  st_isInherited :: bool
  st_inheritedFrom :: "string option"

definition statistics :: "trace_state \<Rightarrow> trace_statistics" where
  "statistics s =
     (case ts_result s of
        None \<Rightarrow> \<lparr>st_totalNodes = 0, st_upstreamCount = 0, st_downstreamCount = 0, st_totalEdges = 0, st_edgeTypes = [],
                 st_isInherited = False, st_inheritedFrom = None\<rparr>
      | Some r \<Rightarrow>
          (case tr_lineageResult r of
             None \<Rightarrow> \<lparr>st_totalNodes = 0, st_upstreamCount = 0, st_downstreamCount = 0, st_totalEdges = 0, st_edgeTypes = [],
                      st_isInherited = False, st_inheritedFrom = None\<rparr>
           | Some l \<Rightarrow>
               \<lparr>st_totalNodes = card (tr_traceNodes r), st_upstreamCount = card (tr_upstreamNodes r),
                st_downstreamCount = card (tr_downstreamNodes r), st_totalEdges = card (tr_traceEdges r),
                st_edgeTypes = set_from (map ge_edgeType (lr_edges l @ concat (map (v2_edges \<circ> snd) (ts_drilldowns s)))),
                st_isInherited = nullish (tr_isInherited r) (truthy (lr_inheritedMark l)),
                st_inheritedFrom = (case tr_inheritedFromUrn r of None \<Rightarrow> lr_inheritedMark l | Some u \<Rightarrow> Some u)\<rparr>))"

section \<open>Events\<close>

datatype trace_event =
    Focus "ident option"
  | Configure "trace_config \<Rightarrow> trace_config"
  | Show_Upstream bool
  | Show_Downstream bool
  | Start trace_provider "ident \<Rightarrow> urn" ident
  | Drill trace_provider urn urn int
  | Drill_All trace_provider "(urn \<times> urn \<times> int) list"
  | Answer nat int "string option + trace_answer"
  | Drill_Answer nat "string option + trace_v2"
  | Settled nat "(string option + trace_v2) list"
  | Collapse_Drill string
  | Clear_History
  | Clear
  | Record_Added "ident list"
  | Reset_Added
  | Reset

definition drop_request :: "nat \<Rightarrow> trace_state \<Rightarrow> trace_state" where
  "drop_request k s = s\<lparr>ts_pending := take k (ts_pending s) @ drop (Suc k) (ts_pending s)\<rparr>"

definition answer_trace :: "nat \<Rightarrow> int \<Rightarrow> string option + trace_answer \<Rightarrow> trace_state \<Rightarrow> trace_state \<times> trace_result option" where
  "answer_trace k now a s =
     (if k < length (ts_pending s) then
        (case ts_pending s ! k of
           Tracing nid u c req \<Rightarrow> finish_trace now nid u c a (drop_request k s)
         | _ \<Rightarrow> (s, None))
      else (s, None))"

definition answer_drill :: "nat \<Rightarrow> string option + trace_v2 \<Rightarrow> trace_state \<Rightarrow> trace_state \<times> trace_v2 option" where
  "answer_drill k a s =
     (if k < length (ts_pending s) then
        (case ts_pending s ! k of
           Drilling p types cont \<Rightarrow> finish_drill p a (drop_request k s)
         | Batching ps can types cont \<Rightarrow> finish_batch ps can types cont a (drop_request k s)
         | _ \<Rightarrow> (s, None))
      else (s, None))"

definition answer_settled :: "nat \<Rightarrow> (string option + trace_v2) list \<Rightarrow> trace_state \<Rightarrow> trace_state \<times> trace_v2 option" where
  "answer_settled k settled s =
     (if k < length (ts_pending s) then
        (case ts_pending s ! k of
           Per_Edge ps e types cont \<Rightarrow> finish_per_edge ps e settled (drop_request k s)
         | _ \<Rightarrow> (s, None))
      else (s, None))"

fun trace_step :: "trace_event \<Rightarrow> trace_state \<Rightarrow> trace_state" where
  "trace_step (Focus nid) s = setTraceFocus nid s"
| "trace_step (Configure patch) s = setTraceConfig patch s"
| "trace_step (Show_Upstream b) s = setShowUpstream b s"
| "trace_step (Show_Downstream b) s = setShowDownstream b s"
| "trace_step (Start prov res nid) s = fetchTrace prov res nid s"
| "trace_step (Drill prov src tgt l) s = fst (expandAggregatedEdge prov src tgt l s)"
| "trace_step (Drill_All prov ps) s = fst (expandAggregatedEdgesBatch prov ps s)"
| "trace_step (Answer k now a) s = fst (answer_trace k now a s)"
| "trace_step (Drill_Answer k a) s = fst (answer_drill k a s)"
| "trace_step (Settled k a) s = fst (answer_settled k a s)"
| "trace_step (Collapse_Drill key) s = collapseDrilldown key s"
| "trace_step Clear_History s = clearTraceHistory s"
| "trace_step Clear s = clearTrace s"
| "trace_step (Record_Added ids) s = recordAddedEdgeIds ids s"
| "trace_step Reset_Added s = resetAddedEdgeIds s"
| "trace_step Reset s = reset_trace s"

section \<open>Nothing stays loading\<close>

fun pending_keys :: "trace_pending \<Rightarrow> string set" where
  "pending_keys (Tracing _ _ _ _) = {}"
| "pending_keys (Drilling p _ _) = {pair_key p}"
| "pending_keys (Batching ps _ _ _) = pair_key ` set ps"
| "pending_keys (Per_Edge ps _ _ _) = pair_key ` set ps"

fun is_tracing :: "trace_pending \<Rightarrow> bool" where
  "is_tracing (Tracing _ _ _ _) \<longleftrightarrow> True"
| "is_tracing _ \<longleftrightarrow> False"

fun neighbours_differ :: "ident list \<Rightarrow> bool" where
  "neighbours_differ (a # b # xs) \<longleftrightarrow> a \<noteq> b \<and> neighbours_differ (b # xs)"
| "neighbours_differ _ \<longleftrightarrow> True"

lemma neighbours_differ_Cons: "neighbours_differ (a # xs) \<longleftrightarrow> (xs \<noteq> [] \<longrightarrow> a \<noteq> hd xs) \<and> neighbours_differ xs"
  by (cases xs) auto

lemma neighbours_differ_take: "neighbours_differ xs \<Longrightarrow> neighbours_differ (take n xs)"
proof (induction xs arbitrary: n)
  case (Cons x xs)
  show ?case
  proof (cases n)
    case (Suc m)
    have "hd (take m xs) = hd xs" if "take m xs \<noteq> []" using that by (cases m; cases xs) auto
    then show ?thesis using Cons Suc by (auto simp: neighbours_differ_Cons)
  qed simp
qed simp

definition trace_ok :: "trace_state \<Rightarrow> bool" where
  "trace_ok s \<longleftrightarrow>
     (ts_status s = TLoading \<longrightarrow> list_ex is_tracing (ts_pending s))
     \<and> (ts_status s = TSuccess \<longrightarrow> ts_result s \<noteq> None)
     \<and> (ts_status s = TError \<longrightarrow> ts_error s \<noteq> None)
     \<and> ts_expandingPairs s \<subseteq> \<Union> (pending_keys ` set (ts_pending s))
     \<and> length (ts_history s) \<le> TRACE_HISTORY_LIMIT \<and> neighbours_differ (map he_focusId (ts_history s))"

lemma push_history_ok:
  assumes "length h \<le> TRACE_HISTORY_LIMIT" "neighbours_differ (map he_focusId h)"
  shows "length (push_history now nid u c r h) \<le> TRACE_HISTORY_LIMIT \<and> neighbours_differ (map he_focusId (push_history now nid u c r h))"
proof -
  let ?e = "\<lparr>he_focusId = nid, he_focusUrn = u, he_level = tr_effectiveLevel r, he_timestamp = now, he_config = c\<rparr>"
  have "neighbours_differ (map he_focusId (take TRACE_HISTORY_LIMIT (?e # h)))" if "\<not> (h \<noteq> [] \<and> he_focusId (hd h) = nid)"
    unfolding take_map [symmetric] using that assms by (intro neighbours_differ_take) (auto simp: neighbours_differ_Cons hd_map)
  then show ?thesis using assms by (simp add: push_history_def)
qed

lemma pending_split: "k < length xs \<Longrightarrow> set xs = insert (xs ! k) (set (take k xs @ drop (Suc k) xs))"
  using id_take_nth_drop [of k xs] by (metis Un_insert_right list.simps(15) set_append)

text \<open>Requests whose answer ends a trace or the pulse of their pairs.\<close>

lemma drop_keys:
  assumes "k < length (ts_pending s)" "ts_expandingPairs s \<subseteq> \<Union> (pending_keys ` set (ts_pending s))"
  shows "ts_expandingPairs s - pending_keys (ts_pending s ! k) \<subseteq> \<Union> (pending_keys ` set (ts_pending (drop_request k s)))"
  using assms pending_split [OF assms(1)] by (auto simp: drop_request_def)

lemma drop_other:
  assumes "k < length (ts_pending s)" "\<not> is_tracing (ts_pending s ! k)" "list_ex is_tracing (ts_pending s)"
  shows "list_ex is_tracing (ts_pending (drop_request k s))"
  using assms pending_split [OF assms(1)] unfolding list_ex_iff drop_request_def by auto

lemma drop_request_simps [simp]:
  "ts_status (drop_request k s) = ts_status s" "ts_error (drop_request k s) = ts_error s"
  "ts_focusId (drop_request k s) = ts_focusId s" "ts_result (drop_request k s) = ts_result s"
  "ts_expandingPairs (drop_request k s) = ts_expandingPairs s" "ts_history (drop_request k s) = ts_history s"
  "ts_drilldowns (drop_request k s) = ts_drilldowns s"
  by (simp_all add: drop_request_def)

lemma trace_ok_answer:
  assumes "trace_ok s"
  shows "trace_ok (fst (answer_trace k now a s))"
proof (cases "k < length (ts_pending s) \<and> is_tracing (ts_pending s ! k)")
  case True
  then obtain nid u c req where req: "ts_pending s ! k = Tracing nid u c req" by (cases "ts_pending s ! k") auto
  let ?d = "drop_request k s"
  have keys: "ts_expandingPairs s \<subseteq> \<Union> (pending_keys ` set (ts_pending ?d))"
    using drop_keys [of k s] True assms req by (simp add: trace_ok_def)
  have "fst (answer_trace k now a s) = fst (finish_trace now nid u c a ?d)" using True req by (simp add: answer_trace_def)
  then show ?thesis using keys assms push_history_ok [of "ts_history s" now nid u c]
    by (cases a) (simp_all add: finish_trace_def Let_def trace_ok_def)
next
  case False
  then have "answer_trace k now a s = (s, None)" by (auto simp: answer_trace_def split: trace_pending.splits)
  with assms show ?thesis by simp
qed

text \<open>A step that ends a drill-down leaves the status, the result and the history alone.\<close>

definition drill_frame :: "trace_state \<Rightarrow> trace_state \<Rightarrow> bool" where
  "drill_frame s s' \<longleftrightarrow> ts_status s' = ts_status s \<and> ts_result s' = ts_result s \<and> ts_history s' = ts_history s
     \<and> (ts_error s \<noteq> None \<longrightarrow> ts_error s' \<noteq> None) \<and> ts_focusId s' = ts_focusId s"

lemma trace_ok_frame:
  assumes "trace_ok s" "drill_frame s s'"
    and "list_ex is_tracing (ts_pending s) \<Longrightarrow> list_ex is_tracing (ts_pending s')"
    and "ts_expandingPairs s' \<subseteq> \<Union> (pending_keys ` set (ts_pending s'))"
  shows "trace_ok s'"
  using assms by (auto simp: trace_ok_def drill_frame_def)

lemma trace_ok_drill_answer:
  assumes "trace_ok s"
  shows "trace_ok (fst (answer_drill k a s))"
proof (cases "k < length (ts_pending s) \<and> (\<forall>ps e types cont. ts_pending s ! k \<noteq> Per_Edge ps e types cont) \<and> \<not> is_tracing (ts_pending s ! k)")
  case True
  let ?d = "drop_request k s"
  have k: "k < length (ts_pending s)" "\<not> is_tracing (ts_pending s ! k)" using True by auto
  have keys: "ts_expandingPairs s - pending_keys (ts_pending s ! k) \<subseteq> \<Union> (pending_keys ` set (ts_pending ?d))"
    using drop_keys [OF k(1)] assms by (simp add: trace_ok_def)
  note left = drop_other [OF k]
  from True consider p types cont where "ts_pending s ! k = Drilling p types cont" | ps can types cont where "ts_pending s ! k = Batching ps can types cont"
    by (cases "ts_pending s ! k") auto
  then show ?thesis
  proof cases
    case 1
    then have "fst (answer_drill k a s) = fst (finish_drill p a ?d)" using k by (simp add: answer_drill_def)
    then show ?thesis using keys left 1
      by (intro trace_ok_frame [OF assms]) (cases a; auto simp: finish_drill_def drill_frame_def)+
  next
    case 2
    then have eq: "fst (answer_drill k a s) = fst (finish_batch ps can types cont a ?d)" using k by (simp add: answer_drill_def)
    show ?thesis unfolding eq using keys left 2
      by (intro trace_ok_frame [OF assms]; cases a) (auto simp: finish_batch_def drill_frame_def clear_expanding_def cache_batch_def)
  qed
next
  case False
  then have "answer_drill k a s = (s, None)" by (auto simp: answer_drill_def split: trace_pending.splits)
  with assms show ?thesis by simp
qed

lemma trace_ok_settled:
  assumes "trace_ok s"
  shows "trace_ok (fst (answer_settled k settled s))"
proof (cases "k < length (ts_pending s) \<and> (\<exists>ps e types cont. ts_pending s ! k = Per_Edge ps e types cont)")
  case True
  then obtain ps e types cont where req: "ts_pending s ! k = Per_Edge ps e types cont" and k: "k < length (ts_pending s)" by auto
  let ?d = "drop_request k s"
  have keys: "ts_expandingPairs s - pair_key ` set ps \<subseteq> \<Union> (pending_keys ` set (ts_pending ?d))"
    using drop_keys [OF k] assms req by (simp add: trace_ok_def)
  have left: "list_ex is_tracing (ts_pending s) \<Longrightarrow> list_ex is_tracing (ts_pending ?d)" using drop_other [OF k] req by simp
  have eq: "fst (answer_settled k settled s) = fst (finish_per_edge ps e settled ?d)" using k req by (simp add: answer_settled_def)
  show ?thesis unfolding eq using keys left
    by (intro trace_ok_frame [OF assms])
      (auto simp: finish_per_edge_def drill_frame_def clear_expanding_def cache_batch_def split: option.splits)
next
  case False
  then have "answer_settled k settled s = (s, None)" by (auto simp: answer_settled_def split: trace_pending.splits)
  with assms show ?thesis by simp
qed

lemma trace_ok_drill: "trace_ok s \<Longrightarrow> trace_ok (fst (expandAggregatedEdge prov src tgt l s))"
  by (rule trace_ok_frame) (auto simp: expandAggregatedEdge_def drill_frame_def Let_def trace_ok_def)

lemma trace_ok_drill_all: "trace_ok s \<Longrightarrow> trace_ok (fst (expandAggregatedEdgesBatch prov pairs s))"
  by (rule trace_ok_frame) (auto simp: expandAggregatedEdgesBatch_def drill_frame_def Let_def trace_ok_def clear_expanding_def)

lemma trace_ok_step: "trace_ok s \<Longrightarrow> trace_ok (trace_step e s)"
proof (cases e)
  case (Answer k now a)
  then show "trace_ok s \<Longrightarrow> ?thesis" by (simp add: trace_ok_answer)
next
  case (Drill_Answer k a)
  then show "trace_ok s \<Longrightarrow> ?thesis" by (simp add: trace_ok_drill_answer)
next
  case (Settled k a)
  then show "trace_ok s \<Longrightarrow> ?thesis" by (simp add: trace_ok_settled)
next
  case (Drill prov src tgt l)
  then show "trace_ok s \<Longrightarrow> ?thesis" by (simp add: trace_ok_drill)
next
  case (Drill_All prov ps)
  then show "trace_ok s \<Longrightarrow> ?thesis" by (simp add: trace_ok_drill_all)
next
  case (Start prov res nid)
  then show "trace_ok s \<Longrightarrow> ?thesis" by (auto simp: trace_ok_def fetchTrace_def)
qed (auto simp: trace_ok_def setTraceFocus_def setTraceConfig_def setShowUpstream_def setShowDownstream_def collapseDrilldown_def
  clearTraceHistory_def clearTrace_def recordAddedEdgeIds_def resetAddedEdgeIds_def reset_trace_def initial_trace_def)

interpretation trace_run: step_system trace_step trace_ok "\<lambda>_. True"
  by unfold_locales (rule trace_ok_step)

lemma trace_ok_initial: "trace_ok initial_trace"
  by (simp add: trace_ok_def initial_trace_def)

text \<open>C13: After any history of actions and answers, a trace is shown as loading only while a request
  is under way that will end it, a success has a result and a failure a message, an edge pulses only
  while its drill-down is under way, and the recent list has at most five entries, no two
  neighbours with the same focus.\<close>

theorem trace_never_stuck:
  assumes "s = run trace_step es initial_trace"
  shows "(ts_status s = TLoading \<longrightarrow> list_ex is_tracing (ts_pending s))
    \<and> (ts_status s = TSuccess \<longrightarrow> ts_result s \<noteq> None) \<and> (ts_status s = TError \<longrightarrow> ts_error s \<noteq> None)
    \<and> ts_expandingPairs s \<subseteq> \<Union> (pending_keys ` set (ts_pending s))
    \<and> length (ts_history s) \<le> 5 \<and> neighbours_differ (map he_focusId (ts_history s))"
  using trace_run.run_inv [OF trace_ok_initial, of es] assms by (simp add: trace_ok_def TRACE_HISTORY_LIMIT_def)

section \<open>Whose result is shown\<close>

text \<open>
  States that are reached when a trace is started or cleared only after the one before has been
  answered, and the focus is not set behind the trace's back.
\<close>

fun moves_focus :: "trace_event \<Rightarrow> bool" where
  "moves_focus (Focus nid) \<longleftrightarrow> True"
| "moves_focus (Start _ _ _) \<longleftrightarrow> True"
| "moves_focus Clear \<longleftrightarrow> True"
| "moves_focus Reset \<longleftrightarrow> True"
| "moves_focus _ \<longleftrightarrow> False"

inductive orderly :: "trace_state \<Rightarrow> bool" where
  orderly_initial: "orderly initial_trace"
| orderly_step: "orderly s \<Longrightarrow> moves_focus e \<Longrightarrow> \<not> list_ex is_tracing (ts_pending s) \<Longrightarrow>
    \<forall>n. e = Focus (Some n) \<longrightarrow> ts_status s = TSuccess \<longrightarrow> ts_focusId s = Some n \<Longrightarrow> orderly (trace_step e s)"
| orderly_other: "orderly s \<Longrightarrow> \<not> moves_focus e \<Longrightarrow> orderly (trace_step e s)"

fun traced_node :: "trace_pending \<Rightarrow> ident option" where
  "traced_node (Tracing nid _ _ _) = Some nid"
| "traced_node _ = None"

definition focused :: "trace_state \<Rightarrow> bool" where
  "focused s \<longleftrightarrow>
     (\<forall>p \<in> set (ts_pending s). is_tracing p \<longrightarrow> traced_node p = ts_focusId s)
     \<and> (ts_status s = TSuccess \<longrightarrow> (\<exists>r. ts_result s = Some r \<and> ts_focusId s = Some (tr_focusId r)))"

lemma trace_result_focus [simp]: "tr_focusId (trace_result_of nid u a) = nid"
  by (simp add: trace_result_of_def traceResultFromV2_def traceResultFromLegacy_def Let_def split: trace_answer.splits)

lemma drop_request_subset: "set (ts_pending (drop_request k s)) \<subseteq> set (ts_pending s)"
  by (auto simp: drop_request_def dest: in_set_takeD in_set_dropD)

lemma focused_answer:
  assumes "focused s"
  shows "focused (fst (answer_trace k now a s))"
proof (cases "k < length (ts_pending s) \<and> is_tracing (ts_pending s ! k)")
  case True
  then obtain nid u c req where req: "ts_pending s ! k = Tracing nid u c req" by (cases "ts_pending s ! k") auto
  have "ts_focusId s = Some nid"
  proof -
    have "ts_pending s ! k \<in> set (ts_pending s)" using True by simp
    then show ?thesis using assms req unfolding focused_def by fastforce
  qed
  moreover have "\<forall>p \<in> set (ts_pending (drop_request k s)). is_tracing p \<longrightarrow> traced_node p = ts_focusId s"
    using assms drop_request_subset [of k s] by (auto simp: focused_def)
  moreover have "fst (answer_trace k now a s) = fst (finish_trace now nid u c a (drop_request k s))"
    using True req by (simp add: answer_trace_def)
  ultimately show ?thesis by (cases a) (simp_all add: finish_trace_def Let_def focused_def)
next
  case False
  then have "answer_trace k now a s = (s, None)" by (auto simp: answer_trace_def split: trace_pending.splits)
  with assms show ?thesis by simp
qed

lemma focused_frame:
  assumes "focused s" "drill_frame s s'" "\<forall>p \<in> set (ts_pending s'). is_tracing p \<longrightarrow> p \<in> set (ts_pending s)"
  shows "focused s'"
  using assms by (auto simp: focused_def drill_frame_def)

lemma drill_frames:
  "drill_frame s (fst (expandAggregatedEdge prov src tgt l s))"
  "drill_frame s (fst (expandAggregatedEdgesBatch prov pairs s))"
  "drill_frame s (fst (answer_drill k a s))"
  "drill_frame s (fst (answer_settled k settled s))"
  by (auto simp: drill_frame_def expandAggregatedEdge_def expandAggregatedEdgesBatch_def answer_drill_def answer_settled_def
      finish_drill_def finish_batch_def finish_per_edge_def clear_expanding_def cache_batch_def Let_def
      split: trace_pending.splits sum.splits option.splits)

lemma drill_pending:
  "\<forall>p \<in> set (ts_pending (fst (expandAggregatedEdge prov src tgt l s))). is_tracing p \<longrightarrow> p \<in> set (ts_pending s)"
  "\<forall>p \<in> set (ts_pending (fst (expandAggregatedEdgesBatch prov pairs s))). is_tracing p \<longrightarrow> p \<in> set (ts_pending s)"
  "\<forall>p \<in> set (ts_pending (fst (answer_drill k a s))). is_tracing p \<longrightarrow> p \<in> set (ts_pending s)"
  "\<forall>p \<in> set (ts_pending (fst (answer_settled k settled s))). is_tracing p \<longrightarrow> p \<in> set (ts_pending s)"
  using drop_request_subset [of k s]
  by (auto simp: expandAggregatedEdge_def expandAggregatedEdgesBatch_def answer_drill_def answer_settled_def
      finish_drill_def finish_batch_def finish_per_edge_def clear_expanding_def cache_batch_def Let_def
      split: trace_pending.splits sum.splits option.splits)

lemma orderly_focused: "orderly s \<Longrightarrow> focused s"
proof (induction rule: orderly.induct)
  case orderly_initial
  show ?case by (simp add: focused_def initial_trace_def)
next
  case (orderly_step s e)
  then have "\<forall>p \<in> set (ts_pending s). \<not> is_tracing p" by (simp add: list_ex_iff)
  with orderly_step show ?case
    by (cases e) (auto simp: focused_def setTraceFocus_def fetchTrace_def clearTrace_def reset_trace_def initial_trace_def)
next
  case (orderly_other s e)
  note f = orderly_other.IH
  show ?case
  proof (cases e)
    case (Drill prov src tgt l)
    then show ?thesis by (simp add: focused_frame [OF f drill_frames(1) drill_pending(1)])
  next
    case (Drill_All prov pairs)
    then show ?thesis by (simp add: focused_frame [OF f drill_frames(2) drill_pending(2)])
  next
    case (Answer k now a)
    then show ?thesis by (simp add: focused_answer [OF f])
  next
    case (Drill_Answer k a)
    then show ?thesis by (simp add: focused_frame [OF f drill_frames(3) drill_pending(3)])
  next
    case (Settled k settled)
    then show ?thesis by (simp add: focused_frame [OF f drill_frames(4) drill_pending(4)])
  qed (use f orderly_other.hyps in \<open>auto simp: focused_def setTraceConfig_def setShowUpstream_def setShowDownstream_def
      collapseDrilldown_def clearTraceHistory_def recordAddedEdgeIds_def resetAddedEdgeIds_def\<close>)
qed

text \<open>
  C14: let a trace be started, cleared or reset and the focus be set only when no trace waits for its answer, and
  let the focus not be set to another node while a result is shown (setting the focus alone keeps status and
  result). Then a successful trace shows the result of the node in focus.
\<close>

theorem shown_result_is_of_the_focus:
  assumes "orderly s" "ts_status s = TSuccess"
  shows "\<exists>r. ts_result s = Some r \<and> ts_focusId s = Some (tr_focusId r)"
  using orderly_focused [OF assms(1)] assms(2) by (simp add: focused_def)

section \<open>Drilling down once\<close>

lemma cached_after_fold:
  "mget (fold (\<lambda>p. mset_key (f p) v) ps m) k = (if k \<in> f ` set ps then Some v else mget m k)"
  by (induction ps arbitrary: m) auto

text \<open>A batch of drill-downs asks for exactly the pairs that are not cached, and pulses them until
  the answer; after a success every pair of the batch is cached, nothing it asked for still pulses,
  no request is left, and the same batch again asks nothing.\<close>

theorem batch_drill_is_asked_once:
  assumes "has_expandAggregatedBatch prov" "uncached_pairs s (map next_finer pairs) \<noteq> []"
    and "s1 = fst (expandAggregatedEdgesBatch prov pairs s)" and "s2 = fst (answer_drill (length (ts_pending s)) (Inr v) s1)"
  shows "ts_pending s1 = ts_pending s @ [Batching (uncached_pairs s (map next_finer pairs)) (has_expandAggregated prov)
           (edge_types_of (ts_config s)) (tc_includeContainmentEdges (ts_config s))]
    \<and> ts_expandingPairs s1 = ts_expandingPairs s \<union> pair_key ` set (uncached_pairs s (map next_finer pairs))
    \<and> ts_pending s2 = ts_pending s
    \<and> (\<forall>p \<in> next_finer ` set pairs. mget (ts_drilldowns s2) (drilldownKey p) = (case mget (ts_drilldowns s) (drilldownKey p) of None \<Rightarrow> Some v | Some old \<Rightarrow> Some old))
    \<and> ts_expandingPairs s2 = ts_expandingPairs s - pair_key ` set (uncached_pairs s (map next_finer pairs))
    \<and> fst (expandAggregatedEdgesBatch prov pairs s2) = s2"
proof -
  let ?ps = "map next_finer pairs"
  let ?un = "uncached_pairs s ?ps"
  have "?ps \<noteq> []" using assms(2) by (auto simp: uncached_pairs_def)
  then have s1: "s1 = s\<lparr>ts_expandingPairs := ts_expandingPairs s \<union> pair_key ` set ?un,
      ts_pending := ts_pending s @ [Batching ?un (has_expandAggregated prov) (edge_types_of (ts_config s)) (tc_includeContainmentEdges (ts_config s))]\<rparr>"
    using assms(1,2,3) by (simp add: expandAggregatedEdgesBatch_def Let_def)
  have s2: "s2 = clear_expanding ?un (cache_batch ?un v (drop_request (length (ts_pending s)) s1))"
    using assms(4) by (simp add: answer_drill_def s1 finish_batch_def)
  have pend: "ts_pending s2 = ts_pending s" by (simp add: s2 s1 clear_expanding_def cache_batch_def drop_request_def)
  have cached: "mget (ts_drilldowns s2) k = (if k \<in> drilldownKey ` set ?un then Some v else mget (ts_drilldowns s) k)" for k
    by (simp add: s2 s1 clear_expanding_def cache_batch_def cached_after_fold)
  have un: "drilldownKey p \<in> drilldownKey ` set ?un \<longleftrightarrow> mget (ts_drilldowns s) (drilldownKey p) = None" if "p \<in> set ?ps" for p
    using that by (force simp: uncached_pairs_def)
  have all: "mget (ts_drilldowns s2) (drilldownKey p) = (case mget (ts_drilldowns s) (drilldownKey p) of None \<Rightarrow> Some v | Some old \<Rightarrow> Some old)"
    if "p \<in> set ?ps" for p
    using un [OF that] by (cases "mget (ts_drilldowns s) (drilldownKey p)") (simp_all add: cached)
  then have "uncached_pairs s2 ?ps = []" by (auto simp: uncached_pairs_def filter_empty_conv split: option.splits)
  then have again: "fst (expandAggregatedEdgesBatch prov pairs s2) = s2" by (simp add: expandAggregatedEdgesBatch_def Let_def)
  have "ts_expandingPairs s2 = ts_expandingPairs s - pair_key ` set ?un" by (auto simp: s2 s1 clear_expanding_def cache_batch_def)
  then show ?thesis using s1 pend all again by simp
qed

section \<open>Merged drill-downs\<close>

lemma set_by_key: "f ` set (by_key f xs) = f ` set xs \<and> set (by_key f xs) \<subseteq> set xs \<and> distinct (map f (by_key f xs))"
proof -
  let ?m = "mfrom (map (\<lambda>x. (f x, x)) xs)"
  have keys: "f v = k \<and> v \<in> set xs" if "(k, v) \<in> set ?m" for k v
  proof -
    have "mget (rev (map (\<lambda>x. (f x, x)) xs)) k = Some v" using that by (simp add: mget_iff_in_set [symmetric] mget_mfrom)
    then show ?thesis by (auto dest!: map_of_SomeD)
  qed
  have fst_m: "map fst ?m = map f (map snd ?m)" using keys by auto
  have "k \<in> set (map fst ?m)" if k: "k \<in> f ` set xs" for k
  proof -
    have "mget (rev (map (\<lambda>x. (f x, x)) xs)) k \<noteq> None" 
      unfolding map_of_eq_None_iff using k by (auto simp: image_image)
    then have "mget ?m k \<noteq> None" by (simp add: mget_mfrom)
    then show ?thesis by (simp add: map_of_eq_None_iff)
  qed
  then have "f ` set xs \<subseteq> f ` set (by_key f xs)" unfolding by_key_def fst_m by (auto simp: image_image)
  moreover have "set (by_key f xs) \<subseteq> set xs" using keys by (auto simp: by_key_def)
  moreover have "distinct (map f (by_key f xs))" unfolding by_key_def fst_m [symmetric] using jsm_ok_mfrom by (simp add: jsm_ok_def)
  ultimately show ?thesis by blast
qed

text \<open>The merge of drill-downs shows every node and edge some answer has, each once, and nothing else.\<close>

lemma merged_drilldowns_are_a_union:
  assumes "mergeDrilldownResults rs = Some m" "2 \<le> length rs"
  shows "gn_urn ` set (v2_nodes m) = (\<Union>r \<in> set rs. gn_urn ` set (v2_nodes r)) \<and> distinct (map gn_urn (v2_nodes m))
    \<and> ge_id ` set (v2_edges m) = (\<Union>r \<in> set rs. ge_id ` set (v2_edges r)) \<and> distinct (map ge_id (v2_edges m))
    \<and> v2_upstreamUrns m = (\<Union>r \<in> set rs. v2_upstreamUrns r) \<and> v2_downstreamUrns m = (\<Union>r \<in> set rs. v2_downstreamUrns r)
    \<and> (v2_truncated m \<longleftrightarrow> (\<exists>r \<in> set rs. v2_truncated r))"
proof -
  obtain a b rest where rs: "rs = a # b # rest" using assms(2) by (cases rs; cases "tl rs") auto
  note keys = set_by_key [of gn_urn "concat (map v2_nodes rs)"] set_by_key [of ge_id "concat (map v2_edges rs)"]
  have m: "v2_nodes m = by_key gn_urn (concat (map v2_nodes rs))" "v2_edges m = by_key ge_id (concat (map v2_edges rs))"
    "v2_upstreamUrns m = \<Union> (set (map v2_upstreamUrns rs))" "v2_downstreamUrns m = \<Union> (set (map v2_downstreamUrns rs))"
    "v2_truncated m = list_ex v2_truncated rs"
    using assms(1) by (auto simp: rs mergeDrilldownResults_def)
  have "gn_urn ` set (v2_nodes m) = (\<Union>r \<in> set rs. gn_urn ` set (v2_nodes r))" unfolding m(1) conjunct1 [OF keys(1)] by auto
  moreover have "ge_id ` set (v2_edges m) = (\<Union>r \<in> set rs. ge_id ` set (v2_edges r))" unfolding m(2) conjunct1 [OF keys(2)] by auto
  ultimately show ?thesis using keys m(3-5) by (simp add: m(1,2) list_ex_iff)
qed

section \<open>What a direction shows\<close>

text \<open>
  A result of the new service splits into the focus, the two directions and the ancestors; with one
  direction shown, the nodes of the other alone disappear, and with none only the focus is left.
\<close>

lemma trace_result_parts:
  "tr_traceNodes (traceResultFromV2 nid u v2) =
     {nid, u} \<union> v2_upstreamUrns v2 \<union> v2_downstreamUrns v2 \<union> the (tr_ancestorUrns (traceResultFromV2 nid u v2))"
  "the (tr_ancestorUrns (traceResultFromV2 nid u v2)) \<inter> ({u} \<union> v2_upstreamUrns v2 \<union> v2_downstreamUrns v2) = {}"
  by (auto simp: traceResultFromV2_def Let_def)

lemma visible_by_direction:
  assumes "ts_result s = Some r" "ts_focusId s = Some nid" "nid \<noteq> ''''" "nid \<in> tr_traceNodes r"
  shows "ts_showUpstream s \<Longrightarrow> ts_showDownstream s \<Longrightarrow> visibleTraceNodes s = tr_traceNodes r"
    and "ts_showUpstream s \<Longrightarrow> \<not> ts_showDownstream s \<Longrightarrow> visibleTraceNodes s = insert nid (tr_traceNodes r - (tr_downstreamNodes r - tr_upstreamNodes r))"
    and "\<not> ts_showUpstream s \<Longrightarrow> ts_showDownstream s \<Longrightarrow> visibleTraceNodes s = insert nid (tr_traceNodes r - (tr_upstreamNodes r - tr_downstreamNodes r))"
    and "\<not> ts_showUpstream s \<Longrightarrow> \<not> ts_showDownstream s \<Longrightarrow> visibleTraceNodes s = {nid}"
  using assms by (auto simp: visibleTraceNodes_def visible_in_def Let_def)

section \<open>Late answers\<close>

definition sample_node :: "urn \<Rightarrow> trace_node" where
  "sample_node u =
     \<lparr>gn_urn = u, gn_entityType = ''dataset'', gn_displayName = u, gn_tags = None, gn_properties = [], gn_qualifiedName = None,
      gn_description = None, gn_layerAssignment = None, gn_childCount = None, gn_sourceSystem = None, gn_lastSyncedAt = None\<rparr>"

definition sample_v2 :: "urn \<Rightarrow> urn list \<Rightarrow> trace_v2" where
  "sample_v2 u ups =
     \<lparr>v2_nodes = map sample_node (u # ups), v2_edges = [], v2_containmentEdges = [], v2_upstreamUrns = set ups, v2_downstreamUrns = {},
      v2_focusUrn = u, v2_effectiveLevel = 0, v2_isInherited = False, v2_inheritedFromUrn = None, v2_truncated = False,
      v2_truncationReason = None\<rparr>"

definition full_provider :: trace_provider where
  "full_provider = \<lparr>has_traceAtLevel = True, has_expandAggregated = True, has_expandAggregatedBatch = True\<rparr>"

text \<open>The answer for a node left behind replaces the result of the node in focus.\<close>

definition overtaken :: trace_state where
  "overtaken =
     run trace_step [Start full_provider (\<lambda>n. n) ''a'', Start full_provider (\<lambda>n. n) ''b'', Answer 1 1 (Inr (AnswerV2 (sample_v2 ''b'' []))),
       Answer 0 2 (Inr (AnswerV2 (sample_v2 ''a'' [])))] initial_trace"

lemma late_trace_replaces_result:
  "ts_focusId overtaken = Some ''b''" "map_option tr_focusId (ts_result overtaken) = Some ''a''"
  by code_simp+

text \<open>After the trace was cleared, its answer brings a result back that belongs to no focus.\<close>

definition cleared :: trace_state where
  "cleared =
     run trace_step [Start full_provider (\<lambda>n. n) ''a'', Clear, Answer 0 1 (Inr (AnswerV2 (sample_v2 ''a'' [])))] initial_trace"

lemma answer_after_clear_brings_result_back:
  "ts_focusId cleared = None" "ts_status cleared = TSuccess" "map_option tr_focusId (ts_result cleared) = Some ''a''"
  by code_simp+

text \<open>A drill-down of the trace before is filed under the new one.\<close>

lemma late_drill_lands_in_new_trace:
  "map fst (ts_drilldowns (run trace_step [Start full_provider (\<lambda>n. n) ''a'', Drill full_provider ''x'' ''y'' 0,
       Start full_provider (\<lambda>n. n) ''b'', Drill_Answer 1 (Inr (sample_v2 ''x'' []))] initial_trace)) = [''x->y@1'']"
  by code_simp

text \<open>
  When a batch fails and only one of its pairs answers on its own, the other is cached with that
  answer and never asked again.
\<close>

definition half_answered :: trace_state where
  "half_answered =
     run trace_step [Drill_All full_provider [(''x'', ''y'', 0), (''z'', ''y'', 0)], Drill_Answer 0 (Inl (Some ''500'')),
       Settled 0 [Inr (sample_v2 ''x'' []), Inl (Some ''500'')]] initial_trace"

lemma failed_pair_is_cached:
  "map fst (ts_drilldowns half_answered) = [''x->y@1'', ''z->y@1'']"
  "length (ts_pending (trace_step (Drill full_provider ''z'' ''y'' 0) half_answered)) = 0"
  by code_simp+

text \<open>Jumping back to an older focus does not reuse its entry: the list then has it twice.\<close>

lemma jump_back_duplicates_history:
  "map he_focusId (ts_history (run trace_step [Start full_provider (\<lambda>n. n) ''a'', Answer 0 1 (Inr (AnswerV2 (sample_v2 ''a'' []))),
       Start full_provider (\<lambda>n. n) ''b'', Answer 0 2 (Inr (AnswerV2 (sample_v2 ''b'' []))),
       Start full_provider (\<lambda>n. n) ''a'', Answer 0 3 (Inr (AnswerV2 (sample_v2 ''a'' [])))] initial_trace)) = [''a'', ''b'', ''a'']"
  by code_simp

section \<open>Witnesses\<close>

lemma trace_never_stuck_witness:
  "ts_status (run trace_step [Start full_provider (\<lambda>n. n) ''a''] initial_trace) = TLoading
   \<and> list_ex is_tracing (ts_pending (run trace_step [Start full_provider (\<lambda>n. n) ''a''] initial_trace))"
proof -
  have "ts_status (run trace_step [Start full_provider (\<lambda>n. n) ''a''] initial_trace) = TLoading" by code_simp
  with trace_never_stuck [OF refl, of "[Start full_provider (\<lambda>n. n) ''a'']"] show ?thesis by blast
qed

lemma shown_result_is_of_the_focus_witness:
  "\<exists>r. ts_result (trace_step (Answer 0 1 (Inr (AnswerV2 (sample_v2 ''a'' [])))) (trace_step (Start full_provider (\<lambda>n. n) ''a'') initial_trace)) = Some r
     \<and> ts_focusId (trace_step (Answer 0 1 (Inr (AnswerV2 (sample_v2 ''a'' [])))) (trace_step (Start full_provider (\<lambda>n. n) ''a'') initial_trace)) = Some (tr_focusId r)"
proof (rule shown_result_is_of_the_focus)
  have "orderly (trace_step (Start full_provider (\<lambda>n. n) ''a'') initial_trace)"
    by (rule orderly_step [OF orderly_initial]) (simp_all add: initial_trace_def)
  then show "orderly (trace_step (Answer 0 1 (Inr (AnswerV2 (sample_v2 ''a'' [])))) (trace_step (Start full_provider (\<lambda>n. n) ''a'') initial_trace))"
    by (rule orderly_other) simp
  show "ts_status (trace_step (Answer 0 1 (Inr (AnswerV2 (sample_v2 ''a'' [])))) (trace_step (Start full_provider (\<lambda>n. n) ''a'') initial_trace)) = TSuccess"
    by code_simp
qed

lemma batch_drill_is_asked_once_witness:
  "ts_expandingPairs (fst (answer_drill 0 (Inr (sample_v2 ''x'' []))
     (fst (expandAggregatedEdgesBatch full_provider [(''x'', ''y'', 0)] initial_trace)))) = {}"
proof -
  have "uncached_pairs initial_trace (map next_finer [(''x'', ''y'', 0)]) \<noteq> []"
    by (simp add: uncached_pairs_def initial_trace_def)
  moreover have "has_expandAggregatedBatch full_provider" by (simp add: full_provider_def)
  ultimately show ?thesis
    using batch_drill_is_asked_once [of full_provider initial_trace "[(''x'', ''y'', 0)]" _ _ "sample_v2 ''x'' []", OF _ _ refl refl]
    by (simp add: initial_trace_def)
qed

end
