(* ===== verification/Trace_Canvas.thy ===== *)
theory Trace_Canvas
  imports Trace_Session Trace_Spine
begin

text \<open>
  What a finished trace does to a canvas: the shared wrapper \<^verbatim>\<open>hooks/useCanvasTrace.ts\<close> and the context
  view's own merge, drill-down and exit (\<^verbatim>\<open>components/canvas/context-view/ContextViewCanvas.tsx\<close>). Both
  write to the canvas store, the trace store and the set of expanded nodes, which are one record here.
  The order in which a JavaScript set is walked makes no difference to them; the model walks it
  sorted. A loop that may not end is an option, \<open>None\<close> when it does not.
\<close>

section \<open>Conversions\<close>

definition opt_json :: "string \<Rightarrow> ('a \<Rightarrow> json) \<Rightarrow> 'a option \<Rightarrow> jsobj" where
  "opt_json k f x = (case x of None \<Rightarrow> [] | Some v \<Rightarrow> [(k, f v)])"

definition toCanvasNode :: "trace_node \<Rightarrow> lineage_node" where
  "toCanvasNode n =
     \<lparr>node_id = gn_urn n,
      node_data =
        [(''urn'', JStr (gn_urn n)), (''label'', JStr (gn_displayName n)), (''type'', JStr (gn_entityType n))]
        @ opt_json ''qualifiedName'' JStr (gn_qualifiedName n) @ opt_json ''description'' JStr (gn_description n)
        @ opt_json ''sourceSystem'' JStr (gn_sourceSystem n) @ opt_json ''layerAssignment'' JStr (gn_layerAssignment n)
        @ opt_json ''lastSyncedAt'' JStr (gn_lastSyncedAt n) @ opt_json ''childCount'' JNum (gn_childCount n)
        @ [(''properties'', JObj (gn_properties n))] @ opt_json ''classifications'' (JArr \<circ> map JStr) (gn_tags n)
        @ (case mget (gn_properties n) ''businessLabel'' of None \<Rightarrow> [] | Some JNull \<Rightarrow> [] | Some v \<Rightarrow> [(''businessLabel'', v)])\<rparr>"

definition toCanvasEdge :: "graph_edge \<Rightarrow> lineage_edge" where
  "toCanvasEdge e =
     \<lparr>edge_id = ge_id e, edge_source = ge_sourceUrn e, edge_target = ge_targetUrn e,
      edge_data_of = Some \<lparr>d_edgeType = Some (ge_edgeType e), d_relationship = Some (ge_edgeType e), d_confidence = ge_confidence e,
        d_isAggregated = False, d_edgeTypes = None\<rparr>\<rparr>"

text \<open>The context view builds its nodes in place; the counts go into the metadata.\<close>

definition contextNode :: "trace_node \<Rightarrow> lineage_node" where
  "contextNode n =
     \<lparr>node_id = gn_urn n,
      node_data =
        [(''label'', JStr (gn_displayName n)), (''urn'', JStr (gn_urn n)), (''type'', JStr (gn_entityType n)),
         (''classifications'', JArr (map JStr (nullish (gn_tags n) []))),
         (''metadata'', JObj (spread (gn_properties n)
            (opt_json ''childCount'' JNum (gn_childCount n) @ opt_json ''sourceSystem'' JStr (gn_sourceSystem n))))]\<rparr>"

section \<open>The canvas\<close>

record canvas_view =
  cv_canvas :: canvas
  cv_trace :: trace_state
  cv_expanded :: "ident set"
  cv_showLineageFlow :: bool

definition add_nodes :: "lineage_node list \<Rightarrow> canvas_view \<Rightarrow> canvas_view" where
  "add_nodes ns v = (if ns = [] then v else v\<lparr>cv_canvas := addNodes ns (cv_canvas v)\<rparr>)"

definition add_edges :: "lineage_edge list \<Rightarrow> canvas_view \<Rightarrow> canvas_view" where
  "add_edges es v = (if es = [] then v else v\<lparr>cv_canvas := addEdges es (cv_canvas v)\<rparr>)"

text \<open>The edges of the context view's merges are recorded as added by the trace.\<close>

definition add_recorded :: "lineage_edge list \<Rightarrow> canvas_view \<Rightarrow> canvas_view" where
  "add_recorded es v =
     (if es = [] then v
      else v\<lparr>cv_canvas := addEdges es (cv_canvas v), cv_trace := recordAddedEdgeIds (map edge_id es) (cv_trace v)\<rparr>)"

definition urn_of_node :: "lineage_node list \<Rightarrow> ident \<Rightarrow> urn" where
  "urn_of_node ns nid =
     (case find_first (\<lambda>n. node_id n = nid) ns of None \<Rightarrow> nid | Some n \<Rightarrow> str_or (str_field (node_data n) ''urn'') nid)"

definition containment_parents :: "(string \<Rightarrow> bool) \<Rightarrow> lineage_edge list \<Rightarrow> parent_map" where
  "containment_parents isContainment es =
     fold (\<lambda>e m. if isContainment (normalizeEdgeType e) then mset_key (edge_target e) (edge_source e) m else m) es []"

text \<open>The unguarded loop up the parents.\<close>

partial_function (option) climb_all ::
  "(ident \<Rightarrow> ident option) \<Rightarrow> (ident \<Rightarrow> bool) \<Rightarrow> ident option \<Rightarrow> ident set \<Rightarrow> ident set option" where
  "climb_all parent stop cursor acc =
     (case cursor of
        None \<Rightarrow> Some acc
      | Some c \<Rightarrow> if c = '''' \<or> stop c then Some acc else climb_all parent stop (parent c) (insert c acc))"

declare climb_all.simps [code]

definition expand_ancestors :: "(ident \<Rightarrow> ident option) \<Rightarrow> (ident \<Rightarrow> bool) \<Rightarrow> ident list \<Rightarrow> ident set \<Rightarrow> ident set option" where
  "expand_ancestors parent stop ns acc =
     fold (\<lambda>n r. case r of None \<Rightarrow> None | Some xs \<Rightarrow> climb_all parent stop (parent n) xs) ns (Some acc)"

section \<open>The shared wrapper\<close>

record canvas_trace_options =
  co_edges :: "lineage_edge list"
  co_isContainment :: "string \<Rightarrow> bool"
  co_excludeAncestors :: bool

text \<open>The answer carries no focus, so the focus is known only when its id looks like a URN.\<close>

definition focus_urn :: "trace_result \<Rightarrow> urn option" where
  "focus_urn r = (if is_prefix ''urn:'' (tr_focusId r) then Some (tr_focusId r) else None)"

definition with_focus :: "urn option \<Rightarrow> urn set \<Rightarrow> urn set" where
  "with_focus f us = (if truthy f then insert (the f) us else us)"

definition accepts_urn :: "canvas_trace_options \<Rightarrow> urn set \<Rightarrow> urn \<Rightarrow> bool" where
  "accepts_urn opts lineageUrns u \<longleftrightarrow> (if \<not> co_excludeAncestors opts then True else u \<noteq> '''' \<and> u \<in> lineageUrns)"

definition accepts_edge :: "canvas_trace_options \<Rightarrow> urn set \<Rightarrow> graph_edge \<Rightarrow> bool" where
  "accepts_edge opts lineageUrns e \<longleftrightarrow>
     \<not> co_excludeAncestors opts \<or> (ge_sourceUrn e \<in> lineageUrns \<and> ge_targetUrn e \<in> lineageUrns)"



text \<open>The drill-down of the wrapper merges what the store's drill-down returns.\<close>

definition merge_trace_edge :: "canvas_trace_options \<Rightarrow> trace_v2 \<Rightarrow> canvas_view \<Rightarrow> canvas_view" where
  "merge_trace_edge opts v2 v =
     (let lineageUrns = with_focus (Some (v2_focusUrn v2)) (v2_upstreamUrns v2 \<union> v2_downstreamUrns v2);
          newNodes = map toCanvasNode (filter (\<lambda>n. accepts_urn opts lineageUrns (gn_urn n)) (v2_nodes v2));
          lineage = map toCanvasEdge (filter (accepts_edge opts lineageUrns) (v2_edges v2));
          containment = (if co_excludeAncestors opts then [] else map toCanvasEdge (v2_containmentEdges v2))
      in add_edges (lineage @ containment) (add_nodes newNodes v))"

section \<open>The context view\<close>

text \<open>The guarded loop: it stops at the first node that is expanded already.\<close>

function climb_new :: "parent_map \<Rightarrow> ident option \<Rightarrow> ident set \<Rightarrow> ident set" where
  "climb_new pm None acc = acc"
| "climb_new pm (Some c) acc = (if c = '''' \<or> c \<in> acc then acc else climb_new pm (mget pm c) (insert c acc))"
  by pat_completeness auto
termination
proof (relation "measure (\<lambda>(pm, cursor, acc). case cursor of None \<Rightarrow> 0
    | Some c \<Rightarrow> Suc (card ((set (map snd pm) \<union> {c}) - acc)))", goal_cases)
  case (2 pm c acc)
  show ?case
  proof (cases "mget pm c")
    case (Some p)
    then have "(set (map snd pm) \<union> {p}) - insert c acc \<subset> (set (map snd pm) \<union> {c}) - acc"
      using 2 by (auto dest: map_of_SomeD intro: rev_image_eqI)
    then have "card ((set (map snd pm) \<union> {p}) - insert c acc) < card ((set (map snd pm) \<union> {c}) - acc)"
      by (intro psubset_card_mono) simp_all
    with Some show ?thesis by simp
  qed simp
qed simp

definition as_trace_edge :: "graph_edge \<Rightarrow> trace_edge" where
  "as_trace_edge e = \<lparr>te_source = ge_sourceUrn e, te_target = ge_targetUrn e\<rparr>"

definition should_merge :: "urn set \<Rightarrow> graph_edge list \<Rightarrow> (urn \<Rightarrow> bool) \<Rightarrow> urn \<Rightarrow> bool" where
  "should_merge participants containmentEdges known u \<longleftrightarrow>
     (u \<in> participants
      \<or> u \<in> spineUrns (computeTraceMergeSpine (sorted_list_of_set participants) (map as_trace_edge containmentEdges) known))
     \<and> \<not> known u"

definition resolvable :: "urn set \<Rightarrow> graph_edge list \<Rightarrow> (urn \<Rightarrow> bool) \<Rightarrow> urn \<Rightarrow> bool" where
  "resolvable participants containmentEdges known u \<longleftrightarrow> should_merge participants containmentEdges known u \<or> known u"

definition merged_nodes :: "urn set \<Rightarrow> graph_edge list \<Rightarrow> (urn \<Rightarrow> bool) \<Rightarrow> trace_node list \<Rightarrow> lineage_node list" where
  "merged_nodes ps ce known ns = map contextNode (filter (\<lambda>n. should_merge ps ce known (gn_urn n)) ns)"

definition merged_edges :: "urn set \<Rightarrow> graph_edge list \<Rightarrow> (urn \<Rightarrow> bool) \<Rightarrow> graph_edge list \<Rightarrow> lineage_edge list" where
  "merged_edges ps ce known es =
     map toCanvasEdge (filter (\<lambda>e. resolvable ps ce known (ge_sourceUrn e) \<and> resolvable ps ce known (ge_targetUrn e)) es)"

definition merged_containment :: "urn set \<Rightarrow> graph_edge list \<Rightarrow> (urn \<Rightarrow> bool) \<Rightarrow> lineage_edge list" where
  "merged_containment ps ce known =
     map toCanvasEdge (filter (\<lambda>e. should_merge ps ce known (ge_targetUrn e) \<and> resolvable ps ce known (ge_sourceUrn e)) ce)"

definition merge_into_context ::
  "urn set \<Rightarrow> graph_edge list \<Rightarrow> (urn \<Rightarrow> bool) \<Rightarrow> trace_node list \<Rightarrow> graph_edge list \<Rightarrow> canvas_view \<Rightarrow> canvas_view" where
  "merge_into_context ps ce known ns es v =
     add_recorded (merged_containment ps ce known) (add_recorded (merged_edges ps ce known es) (add_nodes (merged_nodes ps ce known ns) v))"

definition trace_participants :: "trace_result \<Rightarrow> lineage_result \<Rightarrow> urn set" where
  "trace_participants r lr = tr_traceNodes r \<union> lr_upstreamUrns lr \<union> lr_downstreamUrns lr"

text \<open>\<^verbatim>\<open>onTraceComplete\<close>, with the layout's placed names, the edges and the expanded nodes of its render.\<close>

definition context_trace_complete ::
  "(urn \<Rightarrow> bool) \<Rightarrow> lineage_edge list \<Rightarrow> (string \<Rightarrow> bool) \<Rightarrow> ident set \<Rightarrow> trace_result \<Rightarrow> canvas_view \<Rightarrow> canvas_view" where
  "context_trace_complete known es0 isContainment expandedNodes r v =
     (let v0 = v\<lparr>cv_showLineageFlow := True\<rparr>
      in case tr_lineageResult r of
           None \<Rightarrow> v0
         | Some lr \<Rightarrow>
             (let ps = trace_participants r lr; ce = nullish (tr_containmentEdges r) [];
                  pm = containment_parents isContainment (es0 @ merged_edges ps ce known (lr_edges lr) @ merged_containment ps ce known)
              in (merge_into_context ps ce known (lr_nodes lr) (lr_edges lr) v0)
                   \<lparr>cv_expanded := (if tr_focusId r \<noteq> '''' then climb_new pm (mget pm (tr_focusId r)) expandedNodes else expandedNodes)\<rparr>))"

definition drill_participants :: "trace_v2 \<Rightarrow> urn set" where
  "drill_participants v2 = gn_urn ` set (v2_nodes v2) \<union> v2_upstreamUrns v2 \<union> v2_downstreamUrns v2"

definition drill_parent :: "trace_v2 \<Rightarrow> parent_map \<Rightarrow> ident \<Rightarrow> ident option" where
  "drill_parent v2 parentMap n =
     (case mget (mfrom (map (\<lambda>e. (ge_targetUrn e, ge_sourceUrn e)) (v2_containmentEdges v2))) n of
        None \<Rightarrow> mget parentMap n | Some p \<Rightarrow> Some p)"

definition mergeDrilldownIntoCanvas :: "(urn \<Rightarrow> bool) \<Rightarrow> parent_map \<Rightarrow> trace_v2 \<Rightarrow> canvas_view \<Rightarrow> canvas_view option" where
  "mergeDrilldownIntoCanvas known parentMap v2 v =
     map_option (\<lambda>xs. (merge_into_context (drill_participants v2) (v2_containmentEdges v2) known (v2_nodes v2) (v2_edges v2) v)\<lparr>cv_expanded := xs\<rparr>)
       (expand_ancestors (drill_parent v2 parentMap) (\<lambda>_. False) (map gn_urn (v2_nodes v2)) (cv_expanded v))"

text \<open>The pairs a traced node drills into when it is expanded.\<close>

definition auto_drill_pairs ::
  "lineage_node list \<Rightarrow> lineage_edge list \<Rightarrow> (string, int) jsmap \<Rightarrow> ident \<Rightarrow> (urn \<times> urn \<times> int) list" where
  "auto_drill_pairs ns es levels nid =
     (case find_first (\<lambda>n. node_id n = nid) ns of
        None \<Rightarrow> []
      | Some n \<Rightarrow>
          (let u = nullish (str_field (node_data n) ''urn'') nid
           in case mget levels (nullish (str_field (node_data n) ''type'') '''') of
                None \<Rightarrow> []
              | Some l \<Rightarrow>
                  map (\<lambda>e. (edge_source e, edge_target e, l))
                    (filter (\<lambda>e. toUpperCase (case edge_data_of e of None \<Rightarrow> '''' | Some d \<Rightarrow> nullish (d_edgeType d) '''') = ''AGGREGATED''
                        \<and> (edge_source e = u \<or> edge_target e = u) \<and> edge_source e \<noteq> '''' \<and> edge_target e \<noteq> '''') es)))"

definition autoDrillOnExpand ::
  "trace_provider \<Rightarrow> lineage_node list \<Rightarrow> lineage_edge list \<Rightarrow> (string, int) jsmap \<Rightarrow> ident \<Rightarrow> canvas_view \<Rightarrow> canvas_view \<times> trace_v2 option" where
  "autoDrillOnExpand prov ns es levels nid v =
     (let pairs = auto_drill_pairs ns es levels nid
      in if ts_focusId (cv_trace v) = None \<or> pairs = [] then (v, None)
         else (let (t, cached) = expandAggregatedEdgesBatch prov pairs (cv_trace v) in (v\<lparr>cv_trace := t\<rparr>, cached)))"

definition exitTrace :: "canvas_view \<Rightarrow> canvas_view \<times> bool" where
  "exitTrace v =
     (if ts_focusId (cv_trace v) = None then (v, False)
      else (let ids = ts_addedEdgeIds (cv_trace v)
            in (v\<lparr>cv_trace := resetAddedEdgeIds (clearTrace (cv_trace v)),
                  cv_canvas := (if ids = [] then cv_canvas v else removeEdges ids (cv_canvas v)), cv_expanded := {}\<rparr>, True)))"

section \<open>The walks up\<close>

text \<open>\<open>climb_ends parent stop c\<close>: the walk from \<open>c\<close> reaches an end.\<close>

inductive climb_ends :: "(ident \<Rightarrow> ident option) \<Rightarrow> (ident \<Rightarrow> bool) \<Rightarrow> ident option \<Rightarrow> bool" for parent stop where
  top: "climb_ends parent stop None"
| stopped: "c = '''' \<or> stop c \<Longrightarrow> climb_ends parent stop (Some c)"
| up: "climb_ends parent stop (parent c) \<Longrightarrow> climb_ends parent stop (Some c)"

lemma climb_all_ends: "climb_all parent stop cursor acc = Some xs \<Longrightarrow> climb_ends parent stop cursor"
proof (rule climb_all.raw_induct [where P = "\<lambda>parent stop cursor acc xs. climb_ends parent stop cursor"])
  fix f parent stop cursor acc xs
  assume IH: "\<And>parent stop cursor acc xs. f parent stop cursor acc = Some xs \<Longrightarrow> climb_ends parent stop cursor"
    and "(case cursor of None \<Rightarrow> Some acc | Some c \<Rightarrow> if c = '''' \<or> stop c then Some acc else f parent stop (parent c) (insert c acc)) = Some xs"
  then show "climb_ends parent stop cursor"
    by (cases cursor) (auto intro: climb_ends.intros IH split: if_splits)
qed

text \<open>The parents a walk can reach: it stops at an empty id and at what \<open>stop\<close> holds of.\<close>

definition walkable :: "(ident \<Rightarrow> bool) \<Rightarrow> parent_map \<Rightarrow> parent_map" where
  "walkable stop pm = filter (\<lambda>(c, p). p \<noteq> '''' \<and> \<not> stop p) pm"

lemma mget_walkable:
  "jsm_ok pm \<Longrightarrow> mget (walkable stop pm) c =
     (case mget pm c of None \<Rightarrow> None | Some p \<Rightarrow> if p = '''' \<or> stop p then None else Some p)"
proof (induction pm)
  case (Cons kp pm)
  have "mget pm (fst kp) = None" using Cons.prems by (simp add: jsm_ok_def map_of_eq_None_iff)
  with Cons show ?case by (cases kp) (auto simp: walkable_def jsm_ok_def split: option.splits)
qed (simp add: walkable_def)

lemma climb_ends_acyclic:
  assumes "climb_ends (mget pm) stop cursor" and "jsm_ok pm"
  shows "\<forall>c. cursor = Some c \<and> c \<noteq> '''' \<and> \<not> stop c \<longrightarrow>
    \<not> below (walkable stop pm) c c \<and> (\<forall>a. below (walkable stop pm) a c \<longrightarrow> \<not> below (walkable stop pm) a a)"
  using assms
proof (induction rule: climb_ends.induct)
  case (up c)
  show ?case
  proof (cases "mget (walkable stop pm) c")
    case None
    then have "\<not> below (walkable stop pm) a c" for a by (auto elim: belowE)
    then show ?thesis by simp
  next
    case (Some p)
    then have "mget pm c = Some p" "p \<noteq> ''''" "\<not> stop p"
      using up.prems by (auto simp: mget_walkable split: option.splits if_splits)
    moreover have "a = p \<or> below (walkable stop pm) a p" if "below (walkable stop pm) a c" for a
      using that Some by (auto elim: belowE)
    ultimately show ?thesis using up.IH [OF up.prems] by blast
  qed
qed auto

lemma ancestors_of_child: "mget pm n = Some p \<Longrightarrow> {a. below pm a n} = insert p {a. below pm a p}"
  by (auto intro: below.intros dest: below_parent)

lemma ancestors_finite: "finite {a. below pm a n}"
proof (rule finite_subset)
  have "below pm a n \<Longrightarrow> a \<in> set (map snd pm)" for a
    by (induction rule: below.induct) (auto dest: map_of_SomeD intro: rev_image_eqI)
  then show "{a. below pm a n} \<subseteq> set (map snd pm)" by auto
qed simp

lemma climb_all_acyclic:
  assumes "jsm_ok pm" and "\<forall>a. below (walkable stop pm) a n \<longrightarrow> \<not> below (walkable stop pm) a a"
  shows "climb_all (mget pm) stop (mget pm n) acc = Some (acc \<union> {a. below (walkable stop pm) a n})"
  using assms(2)
proof (induction "card {a. below (walkable stop pm) a n}" arbitrary: n acc rule: less_induct)
  case less
  show ?case
  proof (cases "mget (walkable stop pm) n")
    case None
    then have "{a. below (walkable stop pm) a n} = {}" by (auto elim: belowE)
    moreover have "mget pm n = None \<or> (\<exists>p. mget pm n = Some p \<and> (p = '''' \<or> stop p))"
      using None assms(1) by (auto simp: mget_walkable split: option.splits if_splits)
    ultimately show ?thesis by (auto simp: climb_all.simps [of _ _ None] climb_all.simps [of _ _ "Some p" for p])
  next
    case (Some p)
    then have p: "mget pm n = Some p" "p \<noteq> ''''" "\<not> stop p"
      using assms(1) by (auto simp: mget_walkable split: option.splits if_splits)
    have "p \<notin> {a. below (walkable stop pm) a p}" using less.prems Some by (auto intro: below.child)
    then have "card {a. below (walkable stop pm) a p} < card {a. below (walkable stop pm) a n}"
      using ancestors_finite [of "walkable stop pm" p] by (simp add: ancestors_of_child [OF Some])
    moreover have "\<forall>a. below (walkable stop pm) a p \<longrightarrow> \<not> below (walkable stop pm) a a"
      using less.prems Some by (auto intro: below.deeper)
    ultimately have "climb_all (mget pm) stop (mget pm p) (insert p acc) = Some (insert p acc \<union> {a. below (walkable stop pm) a p})"
      by (rule less.hyps)
    with p show ?thesis by (simp add: climb_all.simps [of _ _ "Some p"] ancestors_of_child [OF Some])
  qed
qed

definition climbs_into_cycle :: "parent_map \<Rightarrow> ident \<Rightarrow> bool" where
  "climbs_into_cycle pm n \<longleftrightarrow> (\<exists>a. below pm a n \<and> below pm a a)"

lemma climb_all_iff:
  assumes "jsm_ok pm"
  shows "climb_all (mget pm) stop (mget pm n) acc =
    (if climbs_into_cycle (walkable stop pm) n then None else Some (acc \<union> {a. below (walkable stop pm) a n}))"
proof (cases "climbs_into_cycle (walkable stop pm) n")
  case True
  then obtain p where n: "mget (walkable stop pm) n = Some p"
    and cyclic: "below (walkable stop pm) p p \<or> (\<exists>a. below (walkable stop pm) a p \<and> below (walkable stop pm) a a)"
    by (auto simp: climbs_into_cycle_def elim: belowE)
  have p: "mget pm n = Some p" "p \<noteq> ''''" "\<not> stop p"
    using n assms by (auto simp: mget_walkable split: option.splits if_splits)
  have "climb_all (mget pm) stop (mget pm n) acc \<noteq> Some xs" for xs
    using climb_ends_acyclic [OF climb_all_ends assms, of stop "mget pm n" acc xs] p cyclic by auto
  with True show ?thesis by (cases "climb_all (mget pm) stop (mget pm n) acc") auto
next
  case False
  with climb_all_acyclic [OF assms, of stop n acc] show ?thesis by (auto simp: climbs_into_cycle_def)
qed

lemma expand_ancestors_iff:
  assumes "jsm_ok pm"
  shows "expand_ancestors (mget pm) stop ns acc =
    (if \<exists>n \<in> set ns. climbs_into_cycle (walkable stop pm) n then None
     else Some (acc \<union> {a. \<exists>n \<in> set ns. below (walkable stop pm) a n}))"
proof -
  have none: "fold (\<lambda>n r. case r of None \<Rightarrow> None | Some xs \<Rightarrow> climb_all (mget pm) stop (mget pm n) xs) ns None = None" for ns
    by (induction ns) simp_all
  show ?thesis unfolding expand_ancestors_def
    by (induction ns arbitrary: acc) (auto simp: none climb_all_iff [OF assms])
qed



section \<open>The merge into the context view\<close>

lemma add_recorded_simps [simp]:
  "edges (cv_canvas (add_recorded es v)) = edges (cv_canvas v) @ fresh_items edge_id (edgeIndex (cv_canvas v)) es"
  "edgeIndex (cv_canvas (add_recorded es v)) = edgeIndex (cv_canvas v) \<union> edge_id ` set es"
  "nodeIndex (cv_canvas (add_recorded es v)) = nodeIndex (cv_canvas v)"
  "set (ts_addedEdgeIds (cv_trace (add_recorded es v))) = set (ts_addedEdgeIds (cv_trace v)) \<union> edge_id ` set es"
  "ts_focusId (cv_trace (add_recorded es v)) = ts_focusId (cv_trace v)"
  by (auto simp: add_recorded_def edge_collection.items_add edge_collection.index_add fresh_items_def recordAddedEdgeIds_def)

lemma add_nodes_simps [simp]:
  "edges (cv_canvas (add_nodes ns v)) = edges (cv_canvas v)" "edgeIndex (cv_canvas (add_nodes ns v)) = edgeIndex (cv_canvas v)"
  "nodeIndex (cv_canvas (add_nodes ns v)) = nodeIndex (cv_canvas v) \<union> node_id ` set ns"
  "cv_trace (add_nodes ns v) = cv_trace v"
  by (simp_all add: add_nodes_def node_collection.index_add)

lemma merge_into_context_simps [simp]:
  "edges (cv_canvas (merge_into_context ps ce known ns es v)) =
     edges (cv_canvas v)
     @ fresh_items edge_id (edgeIndex (cv_canvas v)) (merged_edges ps ce known es)
     @ fresh_items edge_id (edgeIndex (cv_canvas v) \<union> edge_id ` set (merged_edges ps ce known es)) (merged_containment ps ce known)"
  "nodeIndex (cv_canvas (merge_into_context ps ce known ns es v)) = nodeIndex (cv_canvas v) \<union> node_id ` set (merged_nodes ps ce known ns)"
  "set (ts_addedEdgeIds (cv_trace (merge_into_context ps ce known ns es v))) =
     set (ts_addedEdgeIds (cv_trace v)) \<union> edge_id ` set (merged_edges ps ce known es) \<union> edge_id ` set (merged_containment ps ce known)"
  "ts_focusId (cv_trace (merge_into_context ps ce known ns es v)) = ts_focusId (cv_trace v)"
  by (simp_all add: merge_into_context_def)

lemma context_trace_complete_simps:
  assumes "tr_lineageResult r = Some lr" and "ps = trace_participants r lr" and "ce = nullish (tr_containmentEdges r) []"
    and "m = merge_into_context ps ce known (lr_nodes lr) (lr_edges lr) v"
  shows "edges (cv_canvas (context_trace_complete known es0 isC expanded r v)) = edges (cv_canvas m)"
    and "nodeIndex (cv_canvas (context_trace_complete known es0 isC expanded r v)) = nodeIndex (cv_canvas m)"
    and "set (ts_addedEdgeIds (cv_trace (context_trace_complete known es0 isC expanded r v))) = set (ts_addedEdgeIds (cv_trace m))"
    and "ts_focusId (cv_trace (context_trace_complete known es0 isC expanded r v)) = ts_focusId (cv_trace m)"
  by (simp_all add: context_trace_complete_def Let_def assms)

lemma containment_parents_other:
  assumes "\<forall>e \<in> set fs. edge_target e = c \<longrightarrow> \<not> isC (normalizeEdgeType e)"
  shows "mget (containment_parents isC (es @ fs)) c = mget (containment_parents isC es) c"
proof -
  have "mget (fold (\<lambda>e m. if isC (normalizeEdgeType e) then mset_key (edge_target e) (edge_source e) m else m) fs m) c = mget m c" for m
    using assms by (induction fs arbitrary: m) auto
  then show ?thesis by (simp add: containment_parents_def)
qed

lemma spine_from_containment:
  "u \<in> spineUrns (computeTraceMergeSpine us (map as_trace_edge ce) known) \<Longrightarrow> u \<in> ge_sourceUrn ` set ce"
proof -
  have keep: "mget (fold link_parent es m) c = Some p \<Longrightarrow> (\<And>c p. mget m c = Some p \<Longrightarrow> p \<in> S) \<Longrightarrow> te_source ` set es \<subseteq> S \<Longrightarrow> p \<in> S"
    for es m c p S
  proof (induction es arbitrary: m)
    case (Cons e es)
    show ?case
      using Cons.prems by (intro Cons.IH [of "link_parent e m"]) (auto simp: link_parent_def split: if_splits)
  qed simp
  have "mget (childToParent (map as_trace_edge ce)) c = Some p \<Longrightarrow> p \<in> ge_sourceUrn ` set ce" for c p
    unfolding childToParent_def by (rule keep [of _ "[]" c]) (auto simp: as_trace_edge_def)
  then have "novel (childToParent (map as_trace_edge ce)) known b a \<Longrightarrow> a \<in> ge_sourceUrn ` set ce" for b a
    by (auto elim: novelE)
  then show "u \<in> spineUrns (computeTraceMergeSpine us (map as_trace_edge ce) known) \<Longrightarrow> u \<in> ge_sourceUrn ` set ce"
    using fold_spine_steps [OF childToParent_no_empty, of "map as_trace_edge ce" known us]
    by (auto simp: computeTraceMergeSpine_def)
qed

lemma toCanvasEdge_simps [simp]:
  "edge_id (toCanvasEdge e) = ge_id e" "edge_source (toCanvasEdge e) = ge_sourceUrn e" "edge_target (toCanvasEdge e) = ge_targetUrn e"
  by (simp_all add: toCanvasEdge_def)

lemma resolvable_drawn:
  assumes "resolvable ps ce known u" and "ps \<union> ge_sourceUrn ` set ce \<subseteq> {u. known u} \<union> gn_urn ` set ns"
  shows "known u \<or> u \<in> node_id ` set (merged_nodes ps ce known ns)"
proof (cases "known u")
  case False
  then have merge: "should_merge ps ce known u" using assms(1) by (simp add: resolvable_def)
  then have "u \<in> ps \<union> ge_sourceUrn ` set ce" by (auto simp: should_merge_def dest: spine_from_containment)
  with False assms(2) obtain n where "n \<in> set ns" "gn_urn n = u" by auto
  with merge show ?thesis by (force simp: merged_nodes_def contextNode_def)
qed simp

text \<open>
  C15: if the answer holds the participants and the parents it names, as the server promises, every edge
  the merge adds runs between entities that are placed or on the canvas; and if its lineage edges are
  not containment edges, no placed entity gets another parent.
\<close>

theorem trace_merge_dangles_nothing_and_reparents_nobody:
  assumes "tr_lineageResult r = Some lr" and "ce = nullish (tr_containmentEdges r) []"
    and "trace_participants r lr \<union> ge_sourceUrn ` set ce \<subseteq> {u. known u} \<union> gn_urn ` set (lr_nodes lr)"
    and "\<forall>e \<in> set (lr_edges lr). \<not> isC (normalizeEdgeType (toCanvasEdge e))"
    and "v' = context_trace_complete known es0 isC' expanded r v"
  shows "(\<forall>e \<in> set (edges (cv_canvas v')) - set (edges (cv_canvas v)). \<forall>u \<in> {edge_source e, edge_target e}.
        known u \<or> u \<in> nodeIndex (cv_canvas v'))
    \<and> (\<forall>c. known c \<longrightarrow> mget (containment_parents isC (edges (cv_canvas v'))) c = mget (containment_parents isC (edges (cv_canvas v))) c)"
proof -
  let ?ps = "trace_participants r lr"
  let ?added = "fresh_items edge_id (edgeIndex (cv_canvas v)) (merged_edges ?ps ce known (lr_edges lr))
    @ fresh_items edge_id (edgeIndex (cv_canvas v) \<union> edge_id ` set (merged_edges ?ps ce known (lr_edges lr))) (merged_containment ?ps ce known)"
  note complete = context_trace_complete_simps [OF assms(1) refl assms(2) refl]
  have edges': "edges (cv_canvas v') = edges (cv_canvas v) @ ?added" by (simp add: assms(5) complete)
  have index': "nodeIndex (cv_canvas v') = nodeIndex (cv_canvas v) \<union> node_id ` set (merged_nodes ?ps ce known (lr_nodes lr))"
    by (simp add: assms(5) complete)
  have added: "e \<in> set (merged_edges ?ps ce known (lr_edges lr)) \<or> e \<in> set (merged_containment ?ps ce known)" if "e \<in> set ?added" for e
    using that by (auto simp: fresh_items_def)
  have ends: "resolvable ?ps ce known (edge_source e) \<and> resolvable ?ps ce known (edge_target e)" if "e \<in> set ?added" for e
    using added [OF that] by (auto simp: merged_edges_def merged_containment_def resolvable_def)
  have "\<forall>e \<in> set ?added. edge_target e = c \<longrightarrow> \<not> isC (normalizeEdgeType e)" if "known c" for c
    using assms(4) that added by (fastforce simp: merged_edges_def merged_containment_def should_merge_def)
  then have "mget (containment_parents isC (edges (cv_canvas v'))) c = mget (containment_parents isC (edges (cv_canvas v))) c" if "known c" for c
    unfolding edges' using that by (intro containment_parents_other)
  moreover have "known u \<or> u \<in> nodeIndex (cv_canvas v')"
    if "e \<in> set (edges (cv_canvas v')) - set (edges (cv_canvas v))" and "u \<in> {edge_source e, edge_target e}" for e u
  proof -
    have "e \<in> set ?added" using that(1) unfolding edges' by auto
    with that(2) have "resolvable ?ps ce known u" using ends by auto
    from resolvable_drawn [OF this assms(3)] show ?thesis by (auto simp: index')
  qed
  ultimately show ?thesis by blast
qed

lemma drop_two_batches:
  assumes "(key ` set ys \<union> key ` set zs) \<inter> key ` set xs = {}"
  shows "filter (\<lambda>x. key x \<notin> key ` set ys \<union> key ` set zs) (xs @ fresh_items key i ys @ fresh_items key j zs) = xs"
proof -
  have "filter (\<lambda>x. key x \<notin> key ` set ys \<union> key ` set zs) xs = xs" using assms by (intro filter_True) blast
  moreover have "filter (\<lambda>x. key x \<notin> key ` set ys \<union> key ` set zs) (fresh_items key i ys) = []"
    "filter (\<lambda>x. key x \<notin> key ` set ys \<union> key ` set zs) (fresh_items key j zs) = []"
    by (auto simp: fresh_items_def filter_empty_conv)
  ultimately show ?thesis by (simp only: filter_append append_Nil2)
qed

text \<open>
  leaving a trace takes back exactly the edges its merge added, if none of their ids was on the
  canvas before and nothing else was recorded.
\<close>

theorem exit_restores_the_edges:
  assumes "tr_lineageResult r = Some lr" and "ts_focusId (cv_trace v) = Some f" and "ts_addedEdgeIds (cv_trace v) = []"
    and "canvas_wf (cv_canvas v)"
    and "ge_id ` set (lr_edges lr @ nullish (tr_containmentEdges r) []) \<inter> edgeIndex (cv_canvas v) = {}"
    and "v' = fst (exitTrace (context_trace_complete known es0 isC expanded r v))"
  shows "edges (cv_canvas v') = edges (cv_canvas v) \<and> ts_addedEdgeIds (cv_trace v') = [] \<and> ts_focusId (cv_trace v') = None"
proof -
  let ?ps = "trace_participants r lr" and ?ce = "nullish (tr_containmentEdges r) []"
  let ?es = "merged_edges ?ps ?ce known (lr_edges lr)" and ?cs = "merged_containment ?ps ?ce known"
  let ?m = "context_trace_complete known es0 isC expanded r v"
  note complete = context_trace_complete_simps [OF assms(1) refl refl refl]
  have recorded: "set (ts_addedEdgeIds (cv_trace ?m)) = edge_id ` set ?es \<union> edge_id ` set ?cs"
    using assms(3) by (simp add: complete)
  have fresh: "(edge_id ` set ?es \<union> edge_id ` set ?cs) \<inter> edge_id ` set (edges (cv_canvas v)) = {}"
  proof -
    have "edgeIndex (cv_canvas v) = edge_id ` set (edges (cv_canvas v))" using assms(4) by (simp only: canvas_wf_def)
    moreover have "edge_id ` set ?es \<union> edge_id ` set ?cs \<subseteq> ge_id ` set (lr_edges lr @ ?ce)"
      by (auto simp: merged_edges_def merged_containment_def)
    from Int_mono [OF this subset_refl [of "edgeIndex (cv_canvas v)"]]
    have "(edge_id ` set ?es \<union> edge_id ` set ?cs) \<inter> edgeIndex (cv_canvas v) = {}" by (simp only: assms(5) subset_empty)
    ultimately show ?thesis by (simp only:)
  qed
  have "edges (cv_canvas v') = filter (\<lambda>e. edge_id e \<notin> set (ts_addedEdgeIds (cv_trace ?m))) (edges (cv_canvas ?m))"
    using assms(2) by (simp add: assms(6) exitTrace_def Let_def complete(4) edge_collection.items_drop)
  moreover have "filter (\<lambda>e. edge_id e \<notin> edge_id ` set ?es \<union> edge_id ` set ?cs) (edges (cv_canvas ?m)) = edges (cv_canvas v)"
    unfolding complete(1) merge_into_context_simps by (rule drop_two_batches [OF fresh])
  ultimately have "edges (cv_canvas v') = edges (cv_canvas v)" by (simp only: recorded)
  then show ?thesis
    using assms(2) by (simp add: assms(6) exitTrace_def Let_def complete(4) resetAddedEdgeIds_def clearTrace_def)
qed

section \<open>What the merges do besides\<close>

text \<open>
  Every node of an answer counts as a participant, its ancestors too, so the spine holds none of them
  back: whatever is not placed is merged.
\<close>

lemma spine_filters_nothing:
  assumes "r = traceResultFromV2 f u v2" and "tr_lineageResult r = Some lr" and "n \<in> set (lr_nodes lr)" and "\<not> known (gn_urn n)"
  shows "should_merge (trace_participants r lr) ce known (gn_urn n)"
  using assms by (auto simp: should_merge_def trace_participants_def traceResultFromV2_def)

lemma drill_filters_nothing:
  "n \<in> set (v2_nodes v2) \<Longrightarrow> \<not> known (gn_urn n) \<Longrightarrow> should_merge (drill_participants v2) ce known (gn_urn n)"
  by (auto simp: should_merge_def drill_participants_def)

text \<open>The walk of a drill-down is over its own parents and the view's; on a cycle it does not return.\<close>

lemma drill_parent_mget:
  "drill_parent v2 pm = mget (fold (\<lambda>e. mset_key (ge_targetUrn e) (ge_sourceUrn e)) (v2_containmentEdges v2) pm)"
proof
  fix n
  have "mget (fold (\<lambda>(k, v). mset_key k v) (map (\<lambda>e. (ge_targetUrn e, ge_sourceUrn e)) (v2_containmentEdges v2)) pm) n = drill_parent v2 pm n"
    unfolding drill_parent_def mget_fold_mset_key mget_mfrom ..
  then show "drill_parent v2 pm n = mget (fold (\<lambda>e. mset_key (ge_targetUrn e) (ge_sourceUrn e)) (v2_containmentEdges v2) pm) n"
    by (simp add: fold_map comp_def)
qed

lemma drill_returns_iff:
  assumes "pm' = fold (\<lambda>e. mset_key (ge_targetUrn e) (ge_sourceUrn e)) (v2_containmentEdges v2) pm" and "jsm_ok pm"
  shows "mergeDrilldownIntoCanvas known pm v2 v = None
    \<longleftrightarrow> (\<exists>n \<in> set (v2_nodes v2). climbs_into_cycle (walkable (\<lambda>_. False) pm') (gn_urn n))"
proof -
  have "jsm_ok m \<Longrightarrow> jsm_ok (fold (\<lambda>e. mset_key (ge_targetUrn e) (ge_sourceUrn e)) es m)" for es m
    by (induction es arbitrary: m) auto
  from this [OF assms(2)] have "jsm_ok pm'" by (simp only: assms(1))
  from expand_ancestors_iff [OF this, of "\<lambda>_. False" "map gn_urn (v2_nodes v2)" "cv_expanded v"] show ?thesis
    by (auto simp: mergeDrilldownIntoCanvas_def drill_parent_mget assms(1) [symmetric])
qed

definition contains_edge :: "string \<Rightarrow> ident \<Rightarrow> ident \<Rightarrow> ident \<Rightarrow> graph_edge" where
  "contains_edge ty eid p c =
     \<lparr>ge_id = eid, ge_sourceUrn = p, ge_targetUrn = c, ge_edgeType = ty, ge_confidence = None, ge_properties = None\<rparr>"

lemma drill_hangs_on_a_cycle:
  "mergeDrilldownIntoCanvas known [] (sample_v2 ''a'' []\<lparr>v2_containmentEdges := [contains_edge ''CONTAINS'' ''1'' ''b'' ''a'', contains_edge ''CONTAINS'' ''2'' ''a'' ''b'']\<rparr>) v = None"
proof -
  let ?pm = "[(''a'', ''b''), (''b'', ''a'')] :: parent_map"
  have "climbs_into_cycle ?pm ''a''"
    unfolding climbs_into_cycle_def by (intro exI [of _ "''a''"] conjI; rule below.deeper [of _ _ "''b''"]) (auto intro: below.child)
  then show ?thesis
    by (subst drill_returns_iff [OF refl]) (auto simp: sample_v2_def sample_node_def contains_edge_def walkable_def)
qed

text \<open>
  The walk to the focus stops at a container that is expanded already: one further up that is
  collapsed stays so, and the focus stays out of sight.
\<close>

lemma collapsed_grandparent_stays_collapsed:
  "climb_new [(''focus'', ''table''), (''table'', ''schema'')] (Some ''table'') {''table''} = {''table''}"
  by simp

text \<open>In the other order everything is expanded.\<close>

lemma fresh_walk_expands_all:
  "climb_new [(''focus'', ''table''), (''table'', ''schema'')] (Some ''table'') {} = {''schema'', ''table''}"
  by simp

text \<open>
  The wrapper knows the focus by an id that looks like a URN only. For any other id its node and its
  edges are held back when ancestors are.
\<close>

lemma focus_is_held_back:
  assumes "co_excludeAncestors opts" and "\<not> is_prefix ''urn:'' (tr_focusId r)" and "u \<notin> ups \<union> downs"
  shows "\<not> accepts_urn opts (with_focus (focus_urn r) (ups \<union> downs)) u"
    and "ge_sourceUrn e = u \<or> ge_targetUrn e = u \<Longrightarrow> \<not> accepts_edge opts (with_focus (focus_urn r) (ups \<union> downs)) e"
  using assms by (auto simp: accepts_urn_def accepts_edge_def with_focus_def focus_urn_def)

section \<open>Traces on a small canvas\<close>

definition flow_edge :: "ident \<Rightarrow> ident \<Rightarrow> ident \<Rightarrow> graph_edge" where
  "flow_edge = contains_edge ''FLOWS_TO''"

definition small_view :: "lineage_edge list \<Rightarrow> canvas_view" where
  "small_view es =
     \<lparr>cv_canvas = initial_canvas\<lparr>edges := es, edgeIndex := edge_id ` set es\<rparr>, cv_trace = initial_trace\<lparr>ts_focusId := Some ''a''\<rparr>,
      cv_expanded = {}, cv_showLineageFlow = False\<rparr>"

text \<open>\<open>a\<close> is placed, \<open>b\<close> is new, in the new table \<open>t\<close>.\<close>

definition small_result :: trace_result where
  "small_result =
     traceResultFromV2 ''a'' ''a'' (sample_v2 ''a'' [''b'', ''t'']\<lparr>v2_edges := [flow_edge ''f'' ''b'' ''a''],
       v2_containmentEdges := [contains_edge ''CONTAINS'' ''c'' ''t'' ''b'']\<rparr>)"

definition small_merge :: "lineage_edge list \<Rightarrow> canvas_view" where
  "small_merge es = context_trace_complete (\<lambda>u. u = ''a'') es (\<lambda>t. t = ''CONTAINS'') {} small_result (small_view es)"

lemma small_merge_adds: "map edge_id (edges (cv_canvas (small_merge []))) = [''f'', ''c'']"
  by code_simp

text \<open>An edge the canvas had, and the trace returned, is recorded as added and deleted on exit.\<close>

lemma exit_deletes_what_was_there:
  "map edge_id (edges (cv_canvas (fst (exitTrace (small_merge [toCanvasEdge (flow_edge ''f'' ''b'' ''a'')]))))) = []"
  by code_simp

text \<open>A second trace forgets what the first one added: those edges stay after exit.\<close>

lemma retrace_leaks_edges:
  "map edge_id (edges (cv_canvas (fst (exitTrace
     ((small_merge [])\<lparr>cv_trace := fetchTrace full_provider (\<lambda>n. n) ''b'' (cv_trace (small_merge []))\<rparr>))))) = [''f'', ''c'']"
  by code_simp

section \<open>Witnesses\<close>



lemma trace_merge_dangles_nothing_and_reparents_nobody_witness:
  "mget (containment_parents (\<lambda>t. t = ''CONTAINS'') (edges (cv_canvas (small_merge [])))) ''a'' = None"
proof -
  let ?ce = "[contains_edge ''CONTAINS'' ''c'' ''t'' ''b'']"
  obtain lr where lr: "tr_lineageResult small_result = Some lr" "lr_edges lr = [flow_edge ''f'' ''b'' ''a'']"
      "gn_urn ` set (lr_nodes lr) = {''a'', ''b'', ''t''}" "trace_participants small_result lr = {''a'', ''b'', ''t''}"
    by (auto simp: small_result_def traceResultFromV2_def sample_v2_def sample_node_def trace_participants_def)
  have ce: "nullish (tr_containmentEdges small_result) [] = ?ce" by (simp add: small_result_def traceResultFromV2_def)
  have "\<not> normalizeEdgeType (toCanvasEdge (flow_edge ''f'' ''b'' ''a'')) = ''CONTAINS''" by code_simp
  then have "mget (containment_parents (\<lambda>t. t = ''CONTAINS'') (edges (cv_canvas (small_merge [])))) ''a''
      = mget (containment_parents (\<lambda>t. t = ''CONTAINS'') (edges (cv_canvas (small_view [])))) ''a''"
    using trace_merge_dangles_nothing_and_reparents_nobody
      [OF lr(1) refl _ _ small_merge_def [of "[]"], where isC = "\<lambda>t. t = ''CONTAINS''", THEN conjunct2] lr(2-4)
    unfolding ce by (simp add: contains_edge_def)
  then show ?thesis by (simp add: small_view_def containment_parents_def)
qed

lemma exit_restores_the_edges_witness:
  "edges (cv_canvas (small_merge [])) \<noteq> [] \<and> edges (cv_canvas (fst (exitTrace (small_merge [])))) = []"
proof
  obtain lr where lr: "tr_lineageResult small_result = Some lr" by (simp add: small_result_def traceResultFromV2_def)
  have "canvas_wf (cv_canvas (small_view []))" by (simp add: canvas_wf_def small_view_def initial_canvas_def)
  moreover have "edgeIndex (cv_canvas (small_view [])) = {}" "edges (cv_canvas (small_view [])) = []"
      "ts_focusId (cv_trace (small_view [])) = Some ''a''" "ts_addedEdgeIds (cv_trace (small_view [])) = []"
    by (simp_all add: small_view_def initial_trace_def)
  ultimately show "edges (cv_canvas (fst (exitTrace (small_merge [])))) = []"
    using exit_restores_the_edges [OF lr, of "small_view []" "''a''", OF _ _ _ _ refl, THEN conjunct1]
    unfolding small_merge_def by (simp only: Int_empty_right)
  show "edges (cv_canvas (small_merge [])) \<noteq> []" using small_merge_adds by auto
qed

end
