(* ===== verification/Schema_Store.thy ===== *)
theory Schema_Store
  imports Graph_Model Js_String
begin

text \<open>
  The ontology and the views of the active workspace (\<^verbatim>\<open>store/schema.ts\<close>): the conversion of the
  service's schema, the load with its guard against rewriting what is there, the views and the scope
  they are shown in, and the selectors. A partial update is the function that spreads it; new ids and
  the time are arguments.
\<close>

section \<open>Types of the ontology\<close>

record field_def =
  fd_id :: ident
  fd_name :: string
  fd_type :: string
  fd_required :: bool
  fd_showInNode :: bool
  fd_showInPanel :: bool
  fd_showInTooltip :: bool
  fd_displayOrder :: int

record visual_def =
  vd_icon :: string
  vd_color :: string
  vd_shape :: string
  vd_size :: string
  vd_borderStyle :: string
  vd_showInMinimap :: bool

record hierarchy_def =
  hd_level :: int
  hd_canContain :: "string list"
  hd_canBeContainedBy :: "string list"
  hd_defaultExpanded :: bool

record behavior_def =
  bd_selectable :: bool
  bd_draggable :: bool
  bd_expandable :: bool
  bd_traceable :: bool
  bd_clickAction :: string
  bd_doubleClickAction :: string

text \<open>The frontend adds a second colour, a format and the roll-ups to what the service sends.\<close>

record entity_visual = visual_def +
  vd_colorSecondary :: "string option"

record entity_field = field_def +
  fd_format :: "jsobj option"

record entity_hierarchy = hierarchy_def +
  hd_rollUpFields :: "jsobj list"

record backend_entity_type =
  be_id :: ident
  be_name :: string
  be_pluralName :: string
  be_description :: "string option"
  be_visual :: visual_def
  be_fields :: "field_def list"
  be_hierarchy :: hierarchy_def
  be_behavior :: behavior_def

record entity_type =
  et_id :: ident
  et_name :: string
  et_pluralName :: string
  et_description :: "string option"
  et_visual :: entity_visual
  et_fields :: "entity_field list"
  et_hierarchy :: entity_hierarchy
  et_behavior :: behavior_def

record rel_visual =
  rv_strokeColor :: string
  rv_strokeWidth :: rat
  rv_strokeStyle :: string
  rv_animated :: bool
  rv_animationSpeed :: string
  rv_arrowType :: string
  rv_curveType :: string

text \<open>The three flags of the service's types may be absent; so may those of a type the frontend adds.\<close>

record backend_rel_type =
  br_id :: ident
  br_name :: string
  br_description :: "string option"
  br_sourceTypes :: "string list"
  br_targetTypes :: "string list"
  br_visual :: rel_visual
  br_bidirectional :: bool
  br_showLabel :: bool
  br_isContainment :: "bool option"
  br_isLineage :: "bool option"
  br_category :: "string option"

record rel_type = backend_rel_type +
  rt_labelField :: "string option"

record graph_schema =
  gs_version :: string
  gs_entityTypes :: "backend_entity_type list"
  gs_relationshipTypes :: "backend_rel_type list"
  gs_rootEntityTypes :: "string list option"
  gs_containmentEdgeTypes :: "string list option"
  gs_lineageEdgeTypes :: "string list option"

section \<open>Conversion\<close>

definition convertBackendEntityType :: "backend_entity_type \<Rightarrow> entity_type" where
  "convertBackendEntityType b =
     \<lparr>et_id = be_id b, et_name = be_name b, et_pluralName = be_pluralName b, et_description = be_description b,
      et_visual = visual_def.extend (be_visual b) (entity_visual.fields None),
      et_fields = map (\<lambda>f. field_def.extend f (entity_field.fields None)) (be_fields b),
      et_hierarchy = hierarchy_def.extend (be_hierarchy b) (entity_hierarchy.fields []), et_behavior = be_behavior b\<rparr>"

definition convertBackendRelationshipType :: "backend_rel_type \<Rightarrow> rel_type" where
  "convertBackendRelationshipType b =
     backend_rel_type.extend
       (b\<lparr>br_isContainment := Some (nullish (br_isContainment b) False), br_isLineage := Some (nullish (br_isLineage b) False),
          br_category := Some (nullish (br_category b) ''association'')\<rparr>)
       (rel_type.fields None)"

section \<open>The store\<close>

record visual_patch =
  vp_icon :: "string option"
  vp_color :: "string option"
  vp_colorSecondary :: "string option"
  vp_shape :: "string option"
  vp_size :: "string option"
  vp_borderStyle :: "string option"
  vp_showInMinimap :: "bool option"

text \<open>The properties of a view that no action reads are kept together as \<open>vw_rest\<close>.\<close>

record view_config =
  vw_id :: ident
  vw_name :: string
  vw_scopeKey :: "string option"
  vw_workspaceId :: "string option"
  vw_dataSourceId :: "string option"
  vw_visibleEntityTypes :: "string list"
  vw_entityOverrides :: "(string, visual_patch) jsmap"
  vw_isDefault :: bool
  vw_createdAt :: string
  vw_updatedAt :: string
  vw_rest :: jsobj

record workspace_schema =
  ws_id :: ident
  ws_name :: string
  ws_version :: string
  ws_entityTypes :: "entity_type list"
  ws_relationshipTypes :: "rel_type list"
  ws_views :: "view_config list"
  ws_defaultViewId :: ident
  ws_globalVisuals :: jsobj
  ws_containmentEdgeTypes :: "string list option"
  ws_lineageEdgeTypes :: "string list option"
  ws_rootEntityTypes :: "string list option"

record schema_state =
  sc_schema :: "workspace_schema option"
  sc_activeViewId :: "ident option"
  sc_activeScopeKey :: "string option"
  sc_lastLoadedScopeKey :: "string option"
  sc_isLoading :: bool
  sc_error :: "string option"

definition initial_schema :: schema_state where
  "initial_schema = \<lparr>sc_schema = None, sc_activeViewId = None, sc_activeScopeKey = None, sc_lastLoadedScopeKey = None,
     sc_isLoading = False, sc_error = None\<rparr>"

definition DEFAULT_GLOBAL_VISUALS :: jsobj where
  "DEFAULT_GLOBAL_VISUALS =
     [(''theme'', JStr ''dark''), (''accentColor'', JStr ''#6366f1''), (''fontFamily'', JStr ''Inter''), (''borderRadius'', JStr ''md''),
      (''showConfidenceScores'', JBool True), (''animationsEnabled'', JBool True)]"

definition has_view :: "ident option \<Rightarrow> view_config list \<Rightarrow> bool" where
  "has_view i vs \<longleftrightarrow> truthy i \<and> list_ex (\<lambda>v. Some (vw_id v) = i) vs"

definition loadSchema :: "workspace_schema \<Rightarrow> schema_state \<Rightarrow> schema_state" where
  "loadSchema ws s =
     s\<lparr>sc_schema := Some ws,
       sc_activeViewId := (if has_view (sc_activeViewId s) (ws_views ws) then sc_activeViewId s else Some (ws_defaultViewId ws))\<rparr>"

section \<open>Scope\<close>

definition scope_of :: "string option \<Rightarrow> string option \<Rightarrow> string option" where
  "scope_of w d =
     (if truthy w \<and> truthy d then Some (the w @ ''/'' @ the d) else if truthy w then Some (the w @ ''/default'') else None)"

definition unscoped :: "view_config \<Rightarrow> bool" where
  "unscoped v \<longleftrightarrow> \<not> truthy (vw_scopeKey v)"

definition migrate_view :: "string option \<Rightarrow> string \<Rightarrow> view_config \<Rightarrow> view_config" where
  "migrate_view workspaceId key v =
     (if \<not> unscoped v then v
      else (let wsId = (case vw_workspaceId v of None \<Rightarrow> workspaceId | Some w \<Rightarrow> Some w)
            in v\<lparr>vw_scopeKey := Some (nullish (scope_of wsId (vw_dataSourceId v)) key)\<rparr>))"

definition setActiveScopeKey :: "string option \<Rightarrow> string option \<Rightarrow> schema_state \<Rightarrow> schema_state" where
  "setActiveScopeKey w d s =
     (let key = scope_of w d;
          hasUnscoped = (case sc_schema s of None \<Rightarrow> False | Some ws \<Rightarrow> list_ex unscoped (ws_views ws))
      in if sc_activeScopeKey s = key \<and> \<not> hasUnscoped then s
         else case (key, sc_schema s) of
                (Some k, Some ws) \<Rightarrow>
                  if hasUnscoped
                  then s\<lparr>sc_schema := Some (ws\<lparr>ws_views := map (migrate_view w k) (ws_views ws)\<rparr>), sc_activeScopeKey := key\<rparr>
                  else s\<lparr>sc_activeScopeKey := key\<rparr>
              | _ \<Rightarrow> s\<lparr>sc_activeScopeKey := key\<rparr>)"

text \<open>The workspace and the data source are the first two parts of the key.\<close>

definition view_visible :: "string option \<Rightarrow> view_config \<Rightarrow> bool" where
  "view_visible activeScopeKey v =
     (let parts = (case activeScopeKey of None \<Rightarrow> [] | Some k \<Rightarrow> split_on (CHR ''/'') k);
          activeWorkspaceId = (case parts of [] \<Rightarrow> None | p # _ \<Rightarrow> Some p);
          activeDataSourceId = (case parts of _ # p # _ \<Rightarrow> Some p | _ \<Rightarrow> None)
      in if unscoped v \<and> \<not> truthy (vw_workspaceId v) then True
         else if truthy activeWorkspaceId \<and> vw_workspaceId v = activeWorkspaceId
         then (if \<not> truthy (vw_dataSourceId v) then True else vw_dataSourceId v = activeDataSourceId)
         else vw_scopeKey v = activeScopeKey)"

definition visibleViews :: "schema_state \<Rightarrow> view_config list" where
  "visibleViews s = (case sc_schema s of None \<Rightarrow> [] | Some ws \<Rightarrow> filter (view_visible (sc_activeScopeKey s)) (ws_views ws))"

section \<open>Loading the ontology\<close>

definition incoming_scope :: "(string option \<times> string option) option \<Rightarrow> schema_state \<Rightarrow> string option" where
  "incoming_scope scope s =
     (case scope of
        None \<Rightarrow> sc_activeScopeKey s
      | Some (w, d) \<Rightarrow> if truthy w \<and> truthy d then Some (the w @ ''/'' @ the d) else sc_activeScopeKey s)"

definition same_payload :: "graph_schema \<Rightarrow> workspace_schema \<Rightarrow> bool" where
  "same_payload b prev \<longleftrightarrow>
     ws_version prev = gs_version b
     \<and> ws_entityTypes prev = map convertBackendEntityType (gs_entityTypes b)
     \<and> ws_relationshipTypes prev = map convertBackendRelationshipType (gs_relationshipTypes b)
     \<and> nullish (ws_containmentEdgeTypes prev) [] = nullish (gs_containmentEdgeTypes b) []
     \<and> nullish (ws_lineageEdgeTypes prev) [] = nullish (gs_lineageEdgeTypes b) []"

definition views_of :: "workspace_schema option \<Rightarrow> view_config list" where
  "views_of ws = (case ws of None \<Rightarrow> [] | Some w \<Rightarrow> ws_views w)"

definition first_view_id :: "view_config list \<Rightarrow> ident" where
  "first_view_id vs = (case vs of [] \<Rightarrow> '''' | v # _ \<Rightarrow> vw_id v)"

definition preserved_views :: "string option \<Rightarrow> schema_state \<Rightarrow> view_config list" where
  "preserved_views incoming s =
     (if sc_lastLoadedScopeKey s = incoming then views_of (sc_schema s)
      else filter (\<lambda>v. Some (vw_id v) = sc_activeViewId s) (views_of (sc_schema s)))"

definition merged_schema :: "ident \<Rightarrow> string option \<Rightarrow> graph_schema \<Rightarrow> schema_state \<Rightarrow> workspace_schema" where
  "merged_schema newId incoming b s =
     (let prev = sc_schema s; vs = preserved_views incoming s
      in \<lparr>ws_id = (case prev of None \<Rightarrow> newId | Some p \<Rightarrow> ws_id p),
          ws_name = (case prev of None \<Rightarrow> ''Dynamic Workspace'' | Some p \<Rightarrow> ws_name p),
          ws_version = gs_version b,
          ws_entityTypes = map convertBackendEntityType (gs_entityTypes b),
          ws_relationshipTypes = map convertBackendRelationshipType (gs_relationshipTypes b),
          ws_views = vs,
          ws_defaultViewId = (case prev of
              Some p \<Rightarrow> if sc_lastLoadedScopeKey s = incoming then ws_defaultViewId p else first_view_id vs
            | None \<Rightarrow> first_view_id vs),
          ws_globalVisuals = (case prev of None \<Rightarrow> DEFAULT_GLOBAL_VISUALS | Some p \<Rightarrow> ws_globalVisuals p),
          ws_containmentEdgeTypes = Some (nullish (gs_containmentEdgeTypes b) []),
          ws_lineageEdgeTypes = Some (nullish (gs_lineageEdgeTypes b) []),
          ws_rootEntityTypes = Some (nullish (gs_rootEntityTypes b) [])\<rparr>)"

text \<open>A payload that lacks what the conversion reads makes it throw, with the message on the left.\<close>

definition loadSchemaFromBackend ::
  "ident \<Rightarrow> string + graph_schema \<Rightarrow> (string option \<times> string option) option \<Rightarrow> schema_state \<Rightarrow> schema_state" where
  "loadSchemaFromBackend newId payload scope s =
     (case payload of
        Inl msg \<Rightarrow> s\<lparr>sc_error := Some msg, sc_isLoading := False\<rparr>
      | Inr b \<Rightarrow>
          (let incoming = incoming_scope scope s
           in if (case sc_schema s of None \<Rightarrow> False | Some prev \<Rightarrow> sc_lastLoadedScopeKey s = incoming \<and> same_payload b prev)
              then (if truthy (sc_error s) \<or> sc_isLoading s then s\<lparr>sc_isLoading := False, sc_error := None\<rparr> else s)
              else (let ws = merged_schema newId incoming b s
                    in s\<lparr>sc_schema := Some ws,
                         sc_activeViewId := (if has_view (sc_activeViewId s) (ws_views ws) then sc_activeViewId s
                           else if ws_defaultViewId ws \<noteq> '''' then Some (ws_defaultViewId ws) else None),
                         sc_lastLoadedScopeKey := incoming, sc_isLoading := False, sc_error := None\<rparr>)))"

definition reset_schema :: "schema_state \<Rightarrow> schema_state" where
  "reset_schema s =
     s\<lparr>sc_schema := None, sc_activeViewId := None, sc_lastLoadedScopeKey := None, sc_isLoading := False, sc_error := None\<rparr>"

definition setActiveView :: "ident \<Rightarrow> schema_state \<Rightarrow> schema_state" where
  "setActiveView i s = s\<lparr>sc_activeViewId := Some i\<rparr>"

section \<open>Entity and relationship types\<close>

definition on_schema :: "(workspace_schema \<Rightarrow> workspace_schema) \<Rightarrow> schema_state \<Rightarrow> schema_state" where
  "on_schema f s = (case sc_schema s of None \<Rightarrow> s | Some ws \<Rightarrow> s\<lparr>sc_schema := Some (f ws)\<rparr>)"

definition addEntityType :: "entity_type \<Rightarrow> schema_state \<Rightarrow> schema_state" where
  "addEntityType et = on_schema (\<lambda>ws. ws\<lparr>ws_entityTypes := ws_entityTypes ws @ [et]\<rparr>)"

definition updateEntityType :: "ident \<Rightarrow> (entity_type \<Rightarrow> entity_type) \<Rightarrow> schema_state \<Rightarrow> schema_state" where
  "updateEntityType i upd =
     on_schema (\<lambda>ws. ws\<lparr>ws_entityTypes := map (\<lambda>et. if et_id et = i then upd et else et) (ws_entityTypes ws)\<rparr>)"

definition removeEntityType :: "ident \<Rightarrow> schema_state \<Rightarrow> schema_state" where
  "removeEntityType i = on_schema (\<lambda>ws. ws\<lparr>ws_entityTypes := filter (\<lambda>et. et_id et \<noteq> i) (ws_entityTypes ws)\<rparr>)"

definition getEntityType :: "ident \<Rightarrow> schema_state \<Rightarrow> entity_type option" where
  "getEntityType i s = (case sc_schema s of None \<Rightarrow> None | Some ws \<Rightarrow> find_first (\<lambda>et. et_id et = i) (ws_entityTypes ws))"

definition addRelationshipType :: "rel_type \<Rightarrow> schema_state \<Rightarrow> schema_state" where
  "addRelationshipType rt = on_schema (\<lambda>ws. ws\<lparr>ws_relationshipTypes := ws_relationshipTypes ws @ [rt]\<rparr>)"

definition updateRelationshipType :: "ident \<Rightarrow> (rel_type \<Rightarrow> rel_type) \<Rightarrow> schema_state \<Rightarrow> schema_state" where
  "updateRelationshipType i upd =
     on_schema (\<lambda>ws. ws\<lparr>ws_relationshipTypes := map (\<lambda>rt. if br_id rt = i then upd rt else rt) (ws_relationshipTypes ws)\<rparr>)"

definition removeRelationshipType :: "ident \<Rightarrow> schema_state \<Rightarrow> schema_state" where
  "removeRelationshipType i =
     on_schema (\<lambda>ws. ws\<lparr>ws_relationshipTypes := filter (\<lambda>rt. br_id rt \<noteq> i) (ws_relationshipTypes ws)\<rparr>)"

section \<open>Views\<close>

definition addView :: "view_config \<Rightarrow> schema_state \<Rightarrow> schema_state" where
  "addView v s =
     on_schema (\<lambda>ws. ws\<lparr>ws_views := ws_views ws
        @ [if truthy (sc_activeScopeKey s)
           then v\<lparr>vw_scopeKey := (case vw_scopeKey v of None \<Rightarrow> sc_activeScopeKey s | Some k \<Rightarrow> Some k)\<rparr> else v]\<rparr>) s"

definition updateView :: "string \<Rightarrow> ident \<Rightarrow> (view_config \<Rightarrow> view_config) \<Rightarrow> schema_state \<Rightarrow> schema_state" where
  "updateView now i upd =
     on_schema (\<lambda>ws. ws\<lparr>ws_views := map (\<lambda>v. if vw_id v = i then (upd v)\<lparr>vw_updatedAt := now\<rparr> else v) (ws_views ws)\<rparr>)"

definition shell_schema :: "ident \<Rightarrow> view_config list \<Rightarrow> ident \<Rightarrow> workspace_schema" where
  "shell_schema newId vs defaultId =
     \<lparr>ws_id = newId, ws_name = ''Dynamic Workspace'', ws_version = ''0'', ws_entityTypes = [], ws_relationshipTypes = [], ws_views = vs,
      ws_defaultViewId = defaultId, ws_globalVisuals = DEFAULT_GLOBAL_VISUALS, ws_containmentEdgeTypes = Some [],
      ws_lineageEdgeTypes = Some [], ws_rootEntityTypes = Some []\<rparr>"

text \<open>The assignment at the index \<^verbatim>\<open>findIndex\<close> found.\<close>

fun replace_first :: "('a \<Rightarrow> bool) \<Rightarrow> 'a \<Rightarrow> 'a list \<Rightarrow> 'a list" where
  "replace_first P y [] = []"
| "replace_first P y (x # xs) = (if P x then y # xs else x # replace_first P y xs)"

definition addOrUpdateView :: "ident \<Rightarrow> string \<Rightarrow> view_config \<Rightarrow> schema_state \<Rightarrow> schema_state" where
  "addOrUpdateView newId now v s =
     (case sc_schema s of
        None \<Rightarrow> s\<lparr>sc_schema := Some (shell_schema newId [v] (vw_id v))\<rparr>
      | Some ws \<Rightarrow>
          s\<lparr>sc_schema := Some (ws\<lparr>ws_views :=
              if list_ex (\<lambda>x. vw_id x = vw_id v) (ws_views ws)
              then replace_first (\<lambda>x. vw_id x = vw_id v) (v\<lparr>vw_updatedAt := now\<rparr>) (ws_views ws)
              else ws_views ws @ [v]\<rparr>)\<rparr>)"

definition upserted :: "string \<Rightarrow> view_config list \<Rightarrow> view_config list \<Rightarrow> view_config list" where
  "upserted now vs old =
     map snd (fold (\<lambda>v m. mset_key (vw_id v) (v\<lparr>vw_updatedAt := now\<rparr>) m) vs (mfrom (map (\<lambda>v. (vw_id v, v)) old)))"

definition upsertViews :: "ident \<Rightarrow> string \<Rightarrow> view_config list \<Rightarrow> schema_state \<Rightarrow> schema_state" where
  "upsertViews newId now vs s =
     (if vs = [] then s
      else (let ws = nullish (sc_schema s) (shell_schema newId [] '''')
            in s\<lparr>sc_schema := Some (ws\<lparr>ws_views := upserted now vs (ws_views ws)\<rparr>)\<rparr>))"

definition removeView :: "ident \<Rightarrow> schema_state \<Rightarrow> schema_state" where
  "removeView i s =
     (case sc_schema s of
        None \<Rightarrow> s
      | Some ws \<Rightarrow>
          s\<lparr>sc_schema := Some (ws\<lparr>ws_views := filter (\<lambda>v. vw_id v \<noteq> i) (ws_views ws)\<rparr>),
            sc_activeViewId := (if sc_activeViewId s = Some i then Some (ws_defaultViewId ws) else sc_activeViewId s)\<rparr>)"

definition find_view :: "ident \<Rightarrow> view_config list \<Rightarrow> view_config option" where
  "find_view i vs = find_first (\<lambda>v. vw_id v = i) vs"

definition duplicateView :: "ident \<Rightarrow> string \<Rightarrow> ident \<Rightarrow> schema_state \<Rightarrow> schema_state \<times> ident" where
  "duplicateView newId now i s =
     (case find_view i (views_of (sc_schema s)) of
        None \<Rightarrow> (s, '''')
      | Some orig \<Rightarrow>
          (on_schema (\<lambda>ws. ws\<lparr>ws_views := ws_views ws
              @ [orig\<lparr>vw_id := newId, vw_name := vw_name orig @ '' (Copy)'', vw_isDefault := False, vw_createdAt := now, vw_updatedAt := now\<rparr>]\<rparr>) s,
           newId))"

section \<open>Selectors\<close>

definition getActiveView :: "schema_state \<Rightarrow> view_config option" where
  "getActiveView s =
     (if truthy (sc_activeViewId s) then find_view (the (sc_activeViewId s)) (views_of (sc_schema s)) else None)"

definition getVisibleEntityTypes :: "schema_state \<Rightarrow> entity_type list" where
  "getVisibleEntityTypes s =
     (case sc_schema s of
        None \<Rightarrow> []
      | Some ws \<Rightarrow>
          if \<not> truthy (sc_activeViewId s) then []
          else (case find_view (the (sc_activeViewId s)) (ws_views ws) of
                  None \<Rightarrow> ws_entityTypes ws
                | Some v \<Rightarrow> filter (\<lambda>et. et_id et \<in> set (vw_visibleEntityTypes v)) (ws_entityTypes ws)))"

definition apply_override :: "visual_patch \<Rightarrow> entity_visual \<Rightarrow> entity_visual" where
  "apply_override p v =
     v\<lparr>vd_icon := nullish (vp_icon p) (vd_icon v), vd_color := nullish (vp_color p) (vd_color v),
       vd_shape := nullish (vp_shape p) (vd_shape v), vd_size := nullish (vp_size p) (vd_size v),
       vd_borderStyle := nullish (vp_borderStyle p) (vd_borderStyle v), vd_showInMinimap := nullish (vp_showInMinimap p) (vd_showInMinimap v),
       vd_colorSecondary := (case vp_colorSecondary p of None \<Rightarrow> vd_colorSecondary v | Some c \<Rightarrow> Some c)\<rparr>"

definition getEntityVisual :: "string \<Rightarrow> schema_state \<Rightarrow> entity_visual option" where
  "getEntityVisual typeId s =
     map_option (\<lambda>et. case getActiveView s of
         None \<Rightarrow> et_visual et
       | Some v \<Rightarrow> (case mget (vw_entityOverrides v) typeId of None \<Rightarrow> et_visual et | Some p \<Rightarrow> apply_override p (et_visual et)))
       (getEntityType typeId s)"

definition entityTypeHierarchyMap :: "schema_state \<Rightarrow> (string, string list \<times> string list) jsmap" where
  "entityTypeHierarchyMap s =
     (case sc_schema s of
        None \<Rightarrow> []
      | Some ws \<Rightarrow> mfrom (map (\<lambda>et. (et_id et, (hd_canContain (et_hierarchy et), hd_canBeContainedBy (et_hierarchy et)))) (ws_entityTypes ws)))"

definition edgeTypeMetadataMap :: "schema_state \<Rightarrow> (string, bool \<times> bool \<times> string) jsmap" where
  "edgeTypeMetadataMap s =
     (case sc_schema s of
        None \<Rightarrow> []
      | Some ws \<Rightarrow> mfrom (map (\<lambda>rt. (br_id rt, (nullish (br_isContainment rt) False, nullish (br_isLineage rt) False,
            nullish (br_category rt) ''association''))) (ws_relationshipTypes ws)))"

definition find_rel_type :: "string \<Rightarrow> rel_type list \<Rightarrow> rel_type option" where
  "find_rel_type edgeType rts = find_first (\<lambda>rt. toUpperCase (br_id rt) = toUpperCase edgeType) rts"

definition getEdgeClassification :: "schema_state \<Rightarrow> string \<Rightarrow> string" where
  "getEdgeClassification s edgeType =
     (case find_rel_type edgeType (case sc_schema s of None \<Rightarrow> [] | Some ws \<Rightarrow> ws_relationshipTypes ws) of
        None \<Rightarrow> ''association''
      | Some rt \<Rightarrow> nullish (br_category rt) ''association'')"

text \<open>What survives a page load.\<close>

definition partialize_schema :: "schema_state \<Rightarrow> ident option" where
  "partialize_schema s = sc_activeViewId s"

definition rehydrate_schema :: "ident option \<Rightarrow> schema_state" where
  "rehydrate_schema i = initial_schema\<lparr>sc_activeViewId := i\<rparr>"

section \<open>Loading is idempotent and purges by scope\<close>

lemma same_payload_merged: "same_payload b (merged_schema newId incoming b s)"
  by (simp add: same_payload_def merged_schema_def Let_def)

lemma load_written:
  assumes "s' = loadSchemaFromBackend newId (Inr b) scope s"
  shows "sc_lastLoadedScopeKey s' = incoming_scope scope s \<and> incoming_scope scope s' = incoming_scope scope s
    \<and> sc_isLoading s' = False \<and> \<not> truthy (sc_error s')
    \<and> (\<exists>ws. sc_schema s' = Some ws \<and> same_payload b ws)"
  unfolding assms by (auto simp: loadSchemaFromBackend_def incoming_scope_def Let_def same_payload_merged split: option.splits)

text \<open>
  loading the same schema again in the same scope changes nothing, and a payload that cannot be
  read leaves schema, views and scope as they were and reports the error.
\<close>

theorem load_is_idempotent:
  "loadSchemaFromBackend newId' (Inr b) scope (loadSchemaFromBackend newId (Inr b) scope s) = loadSchemaFromBackend newId (Inr b) scope s
   \<and> loadSchemaFromBackend newId (Inl msg) scope s = s\<lparr>sc_isLoading := False, sc_error := Some msg\<rparr>"
proof
  let ?s = "loadSchemaFromBackend newId (Inr b) scope s"
  from load_written [OF refl, of newId b scope s] obtain ws where
    "sc_lastLoadedScopeKey ?s = incoming_scope scope ?s" "sc_isLoading ?s = False" "\<not> truthy (sc_error ?s)"
    "sc_schema ?s = Some ws" "same_payload b ws" by auto
  then show "loadSchemaFromBackend newId' (Inr b) scope ?s = ?s"
    by (simp add: loadSchemaFromBackend_def [of newId' "Inr b" scope ?s])
qed (simp add: loadSchemaFromBackend_def)

lemma has_view_iff: "has_view (Some i) vs \<longleftrightarrow> i \<noteq> '''' \<and> i \<in> vw_id ` set vs"
  by (auto simp: has_view_def list_ex_iff)

lemma first_view_in: "vs \<noteq> [] \<Longrightarrow> first_view_id vs \<in> vw_id ` set vs"
  by (cases vs) (auto simp: first_view_id_def)

text \<open>
  a load for another scope drops every view but the active one, and then a view is active exactly
  if it was among them; a load in the same scope keeps all views and an active view that is among
  them.
\<close>

theorem scope_switch_purges_views:
  assumes "s' = loadSchemaFromBackend newId (Inr b) scope s"
  shows "if sc_lastLoadedScopeKey s = incoming_scope scope s
    then views_of (sc_schema s') = views_of (sc_schema s)
      \<and> (has_view (sc_activeViewId s) (views_of (sc_schema s)) \<longrightarrow> sc_activeViewId s' = sc_activeViewId s)
    else views_of (sc_schema s') = filter (\<lambda>v. Some (vw_id v) = sc_activeViewId s) (views_of (sc_schema s))
      \<and> sc_activeViewId s' = (if has_view (sc_activeViewId s) (views_of (sc_schema s)) then sc_activeViewId s else None)"
proof (cases "sc_lastLoadedScopeKey s = incoming_scope scope s")
  case True
  then show ?thesis
    unfolding assms
    by (auto simp: loadSchemaFromBackend_def Let_def views_of_def merged_schema_def preserved_views_def split: option.splits)
next
  case False
  let ?vs = "filter (\<lambda>v. Some (vw_id v) = sc_activeViewId s) (views_of (sc_schema s))"
  have vs: "ws_views (merged_schema newId (incoming_scope scope s) b s) = ?vs"
    "ws_defaultViewId (merged_schema newId (incoming_scope scope s) b s) = first_view_id ?vs"
    using False by (simp_all add: merged_schema_def preserved_views_def Let_def split: option.splits)
  have active: "has_view (sc_activeViewId s) ?vs = has_view (sc_activeViewId s) (views_of (sc_schema s))"
    by (auto simp: has_view_def list_ex_iff)
  have none: "first_view_id ?vs = ''''" if "\<not> has_view (sc_activeViewId s) ?vs"
  proof (cases "?vs = []")
    case False
    then have "Some (first_view_id ?vs) = sc_activeViewId s" using first_view_in [OF False] by auto
    with that first_view_in [OF False] show ?thesis by (metis has_view_iff)
  qed (simp add: first_view_id_def)
  have "s' = s\<lparr>sc_schema := Some (merged_schema newId (incoming_scope scope s) b s),
      sc_activeViewId := (if has_view (sc_activeViewId s) ?vs then sc_activeViewId s
        else if first_view_id ?vs \<noteq> '''' then Some (first_view_id ?vs) else None),
      sc_lastLoadedScopeKey := incoming_scope scope s, sc_isLoading := False, sc_error := None\<rparr>"
    using False unfolding assms by (auto simp: loadSchemaFromBackend_def Let_def vs split: option.splits)
  with False none active show ?thesis by (simp add: views_of_def [of "Some _"] vs)
qed

section \<open>Views by scope\<close>

definition slash_free :: "string \<Rightarrow> bool" where
  "slash_free s \<longleftrightarrow> CHR ''/'' \<notin> set s"

text \<open>The scope of a view and what a link takes its data source from (\<^verbatim>\<open>utils/viewNavigation.ts\<close>).\<close>

definition parseDataSourceId :: "string option \<Rightarrow> string option" where
  "parseDataSourceId scopeKey =
     (if \<not> truthy scopeKey then None
      else (case split_on (CHR ''/'') (the scopeKey) of
              _ # dsId # _ \<Rightarrow> if dsId \<noteq> '''' \<and> dsId \<noteq> ''default'' then Some dsId else None
            | _ \<Rightarrow> None))"

text \<open>How the service's views get their scope (\<^verbatim>\<open>viewToViewConfig\<close>).\<close>

definition scope_of_view :: "string option \<Rightarrow> string option \<Rightarrow> string option \<Rightarrow> string option" where
  "scope_of_view w d stored = (case scope_of w d of None \<Rightarrow> stored | Some k \<Rightarrow> Some k)"

lemma split_scope:
  assumes "slash_free w" and "w \<noteq> ''''" and "\<And>x. d = Some x \<Longrightarrow> slash_free x"
  shows "scope_of (Some w) d = Some (w @ ''/'' @ (if truthy d then the d else ''default''))"
    and "split_on (CHR ''/'') (the (scope_of (Some w) d)) = [w, if truthy d then the d else ''default'']"
  using assms split_on_join [of "CHR ''/''" w] split_on_free [of "CHR ''/''"] by (auto simp: scope_of_def slash_free_def truthy_def)

lemma scope_of_inj:
  assumes "slash_free w" "slash_free w'" "w \<noteq> ''''" "w' \<noteq> ''''" "\<And>x. d = Some x \<Longrightarrow> slash_free x" "\<And>x. d' = Some x \<Longrightarrow> slash_free x"
    and "scope_of (Some w) d = scope_of (Some w') d'"
  shows "w = w'"
  using split_scope(2) [of w d] split_scope(2) [of w' d'] assms by simp

text \<open>
  C25: let the active scope be that of a workspace with or without a data source, let no id contain a slash, and let a view
  carry the scope key of its own workspace and data source, as \<^verbatim>\<open>viewToViewConfig\<close> stamps it. Then the view is shown
  exactly if it is of the active workspace and has no data source or the active one (without an active one, only
  \<^verbatim>\<open>default\<close>); and the scope key names the active data source back unless that is called \<^verbatim>\<open>default\<close>. The
  comment at the store's \<^verbatim>\<open>visibleViews\<close>, that a view's key equals the active one, is narrower: a view of the
  workspace without a data source is shown under each of its data sources.
\<close>

theorem views_stay_in_their_scope:
  assumes "slash_free w" "w \<noteq> ''''" "\<And>x. d = Some x \<Longrightarrow> slash_free x"
    and "vw_workspaceId v = Some w'" "slash_free w'" "w' \<noteq> ''''" "\<And>x. vw_dataSourceId v = Some x \<Longrightarrow> slash_free x"
    and "vw_scopeKey v = scope_of_view (Some w') (vw_dataSourceId v) stored"
  shows "(view_visible (scope_of (Some w) d) v
      \<longleftrightarrow> w' = w \<and> (\<not> truthy (vw_dataSourceId v) \<or> vw_dataSourceId v = Some (if truthy d then the d else ''default'')))
    \<and> parseDataSourceId (scope_of (Some w) d) = (if truthy d \<and> d \<noteq> Some ''default'' then d else None)"
proof -
  let ?d = "if truthy d then the d else ''default''"
  have split: "split_on (CHR ''/'') (the (scope_of (Some w) d)) = [w, ?d]" and key: "scope_of (Some w) d = Some (w @ ''/'' @ ?d)"
    using split_scope [of w d] assms(1-3) by simp_all
  have "?d \<noteq> ''''" by (auto elim: truthyE)
  have scoped: "vw_scopeKey v = scope_of (Some w') (vw_dataSourceId v)"
    using split_scope(1) [of w' "vw_dataSourceId v"] assms(5-8) by (simp add: scope_of_view_def)
  then have "w' = w" if "vw_scopeKey v = scope_of (Some w) d"
    using scope_of_inj [of w' w "vw_dataSourceId v" d] that assms by auto
  moreover have "\<not> unscoped v"
    using split_scope(1) [of w' "vw_dataSourceId v"] assms(5-7) scoped by (simp add: unscoped_def truthy_def)
  moreover have "parseDataSourceId (scope_of (Some w) d) = (if truthy d \<and> d \<noteq> Some ''default'' then d else None)"
    using split key \<open>?d \<noteq> ''''\<close> by (auto simp: parseDataSourceId_def truthy_def split: option.splits)
  ultimately show ?thesis
    using split key assms(2,4,6) by (auto simp: view_visible_def truthy_def)
qed

text \<open>A view of the workspace is shown under a data source although its key is not the active one.\<close>

lemma workspace_view_under_a_data_source:
  assumes "slash_free w" "w \<noteq> ''''" "slash_free d" "d \<noteq> ''''" "d \<noteq> ''default''"
    and "vw_workspaceId v = Some w" "vw_dataSourceId v = None" "vw_scopeKey v = scope_of (Some w) None"
  shows "view_visible (scope_of (Some w) (Some d)) v \<and> vw_scopeKey v \<noteq> scope_of (Some w) (Some d)"
proof -
  have "split_on (CHR ''/'') (the (scope_of (Some w) (Some d))) = [w, d]" "scope_of (Some w) (Some d) = Some (w @ ''/'' @ d)"
    using split_scope [of w "Some d"] assms(1-4) by (simp_all add: truthy_def)
  then have "view_visible (scope_of (Some w) (Some d)) v"
    using assms(2,6-8) by (simp add: view_visible_def unscoped_def scope_of_def truthy_def)
  moreover have "vw_scopeKey v \<noteq> scope_of (Some w) (Some d)" using assms(2,4,5,8) by (auto simp: scope_of_def truthy_def)
  ultimately show ?thesis by simp
qed

section \<open>Upserts\<close>

lemma keys_of_stamped: "map fst (map (\<lambda>v. (vw_id v, v)) vs) = map vw_id vs"
  by (simp add: comp_def)

lemma values_keyed:
  assumes "\<forall>(k, v) \<in> set m. vw_id v = k"
  shows "map vw_id (map snd m) = map fst m" and "find_view i (map snd m) = mget m i"
  using assms by (induction m) (auto simp: find_view_def)

lemma in_set_mset_key: "(k', v') \<in> set (mset_key k v m) \<Longrightarrow> (k', v') = (k, v) \<or> (k', v') \<in> set m"
  by (induction m) (auto split: if_splits)

lemma fold_keyed:
  assumes "\<forall>v. vw_id (f v) = vw_id v" and "\<forall>(k, v) \<in> set m. vw_id v = k"
  shows "\<forall>(k, v) \<in> set (fold (\<lambda>v m. mset_key (vw_id v) (f v) m) vs m). vw_id v = k"
  using assms(2)
proof (induction vs arbitrary: m)
  case (Cons v vs)
  have "\<forall>(k, x) \<in> set (mset_key (vw_id v) (f v) m). vw_id x = k"
    using Cons.prems assms(1) by (auto dest!: in_set_mset_key)
  then show ?case by (simp add: Cons.IH)
qed simp

lemma keyed_views:
  fixes f :: "view_config \<Rightarrow> view_config" and m :: "(ident, view_config) jsmap"
  shows "jsm_ok m \<Longrightarrow> jsm_ok (fold (\<lambda>v m. mset_key (vw_id v) (f v) m) vs m)"
    and "mget (fold (\<lambda>v m. mset_key (vw_id v) (f v) m) vs m) i = (case find_view i (rev vs) of None \<Rightarrow> mget m i | Some v \<Rightarrow> Some (f v))"
proof (induction vs arbitrary: m)
  case (Cons v vs)
  {
    case 1
    then show ?case by (simp add: Cons.IH(1))
  next
    case 2
    have "find_view i (rev vs @ [v]) = (case find_view i (rev vs) of None \<Rightarrow> if vw_id v = i then Some v else None | Some x \<Rightarrow> Some x)"
    proof (cases "\<exists>x \<in> set (rev vs). vw_id x = i")
      case True
      then have "find_view i (rev vs @ [v]) = find_view i (rev vs)" unfolding find_view_def by (rule find_first_append)
      moreover have "find_view i (rev vs) \<noteq> None" using True by (auto simp: find_view_def find_first_None)
      ultimately show ?thesis by auto
    next
      case False
      then have "find_view i (rev vs) = None" by (auto simp: find_view_def find_first_None)
      moreover have "find_first (\<lambda>x. vw_id x = i) (ys @ [v]) = (if vw_id v = i then Some v else None)" if "\<forall>y \<in> set ys. vw_id y \<noteq> i" for ys
        using that by (induction ys) auto
      ultimately show ?thesis using False by (simp add: find_view_def)
    qed
    then show ?case by (simp add: Cons.IH(2) split: option.split)
  }
qed (simp_all add: find_view_def)

text \<open>
  after an upsert no two views share an id, a view of the batch is found with its stamp (the last
  one of an id), and any other view is found as it was.
\<close>

theorem upsert_finds_every_view:
  "distinct (map vw_id (upserted now vs old))
   \<and> find_view i (upserted now vs old) =
       (case find_view i (rev vs) of Some v \<Rightarrow> Some (v\<lparr>vw_updatedAt := now\<rparr>) | None \<Rightarrow> find_view i (rev old))"
proof -
  let ?old = "fold (\<lambda>v m. mset_key (vw_id v) v m) old []"
  let ?m = "fold (\<lambda>v m. mset_key (vw_id v) (v\<lparr>vw_updatedAt := now\<rparr>) m) vs ?old"
  have upserted: "upserted now vs old = map snd ?m"
    by (simp add: upserted_def mfrom_def fold_map comp_def)
  have "\<forall>(k, v) \<in> set ?old. vw_id v = k" by (rule fold_keyed [where f = "\<lambda>v. v"]) simp_all
  then have keyed: "\<forall>(k, v) \<in> set ?m. vw_id v = k" by (intro fold_keyed) simp_all
  have "jsm_ok ?m" by (intro keyed_views(1) keyed_views(1) [where f = "\<lambda>v. v"]) simp
  moreover have "mget ?old i = find_view i (rev old)"
    using keyed_views(2) [where f = "\<lambda>v. v" and i = i and vs = old and m = "[]"] by (simp split: option.splits)
  ultimately show ?thesis
    unfolding upserted values_keyed [OF keyed]
    by (auto simp: jsm_ok_def keyed_views(2) [where f = "\<lambda>v. v\<lparr>vw_updatedAt := now\<rparr>"] split: option.splits)
qed

section \<open>What the store loses\<close>

definition sample_view :: "ident \<Rightarrow> string option \<Rightarrow> string option \<Rightarrow> string option \<Rightarrow> view_config" where
  "sample_view i k w d =
     \<lparr>vw_id = i, vw_name = i, vw_scopeKey = k, vw_workspaceId = w, vw_dataSourceId = d, vw_visibleEntityTypes = [], vw_entityOverrides = [],
      vw_isDefault = False, vw_createdAt = '''', vw_updatedAt = '''', vw_rest = []\<rparr>"

definition with_views :: "view_config list \<Rightarrow> schema_state" where
  "with_views vs = initial_schema\<lparr>sc_schema := Some (shell_schema ''ws'' vs (first_view_id vs))\<rparr>"

text \<open>
  A global view is shown everywhere until a data source becomes active: the migration then gives it the
  key of the workspace but not the workspace, so it is shown in no data source any more.
\<close>

lemma migrated_view_disappears:
  "map vw_id (visibleViews (with_views [sample_view ''v'' None None None])) = [''v'']"
  "visibleViews (setActiveScopeKey (Some ''w'') (Some ''d'') (with_views [sample_view ''v'' None None None])) = []"
  by code_simp+

definition sample_payload :: "string list option \<Rightarrow> graph_schema" where
  "sample_payload roots =
     \<lparr>gs_version = ''1'', gs_entityTypes = [], gs_relationshipTypes = [], gs_rootEntityTypes = roots, gs_containmentEdgeTypes = None,
      gs_lineageEdgeTypes = None\<rparr>"

text \<open>The guard does not look at the root types: a load that only changes them is skipped.\<close>

lemma changed_roots_are_skipped:
  "map_option ws_rootEntityTypes (sc_schema (loadSchemaFromBackend ''x'' (Inr (sample_payload (Some [''domain'']))) None
     (loadSchemaFromBackend ''x'' (Inr (sample_payload None)) None initial_schema))) = Some (Some [])"
  by code_simp

text \<open>Removing the default view while it is active leaves its id active and default.\<close>

lemma removed_view_stays_active:
  "sc_activeViewId (removeView ''v'' (setActiveView ''v'' (with_views [sample_view ''v'' None None None, sample_view ''u'' None None None]))) = Some ''v''"
  "getActiveView (removeView ''v'' (setActiveView ''v'' (with_views [sample_view ''v'' None None None, sample_view ''u'' None None None]))) = None"
  by code_simp+

text \<open>Only one of the two ways to add a view gives it the scope it was added in.\<close>

lemma upserted_view_has_no_scope:
  "map vw_scopeKey (views_of (sc_schema (addView (sample_view ''v'' None None None) ((with_views [])\<lparr>sc_activeScopeKey := Some ''w/d''\<rparr>)))) = [Some ''w/d'']"
  "map vw_scopeKey (views_of (sc_schema (upsertViews ''x'' ''t'' [sample_view ''v'' None None None] ((with_views [])\<lparr>sc_activeScopeKey := Some ''w/d''\<rparr>)))) = [None]"
  by code_simp+

section \<open>Witnesses\<close>

lemma scope_switch_purges_views_witness:
  "sc_activeViewId (loadSchemaFromBackend ''x'' (Inr (sample_payload None)) (Some (Some ''w'', Some ''d''))
     (setActiveView ''v'' (with_views [sample_view ''u'' None None None, sample_view ''v'' None None None]))) = Some ''v''"
proof -
  let ?s = "setActiveView ''v'' (with_views [sample_view ''u'' None None None, sample_view ''v'' None None None])"
  have "sc_lastLoadedScopeKey ?s \<noteq> incoming_scope (Some (Some ''w'', Some ''d'')) ?s" by code_simp
  moreover have "has_view (sc_activeViewId ?s) (views_of (sc_schema ?s))" by code_simp
  moreover have "sc_activeViewId ?s = Some ''v''" by code_simp
  ultimately show ?thesis
    using scope_switch_purges_views [OF refl, of ?s "Some (Some ''w'', Some ''d'')" "''x''" "sample_payload None"] by simp
qed

lemma views_stay_in_their_scope_witness:
  "view_visible (Some ''w/d'') (sample_view ''v'' (Some ''w/d'') (Some ''w'') (Some ''d''))
   \<and> \<not> view_visible (Some ''w/e'') (sample_view ''v'' (Some ''w/d'') (Some ''w'') (Some ''d''))"
proof -
  have "view_visible (scope_of (Some ''w'') (Some d)) (sample_view ''v'' (Some ''w/d'') (Some ''w'') (Some ''d'')) \<longleftrightarrow> d = ''d''"
    if "d \<in> {''d'', ''e''}" for d
    using that views_stay_in_their_scope [of "''w''" "Some d" "sample_view ''v'' (Some ''w/d'') (Some ''w'') (Some ''d'')" "''w''" None]
    by (auto simp: slash_free_def sample_view_def scope_of_view_def scope_of_def)
  from this [of "''d''"] this [of "''e''"] show ?thesis by (simp add: scope_of_def)
qed

end
