(* ===== verification/Workspace_Switch.thy ===== *)
theory Workspace_Switch
  imports Schema_Store Canvas_Store Reference_Model
begin

text \<open>
  The active workspace and data source (\<^verbatim>\<open>store/workspaces.ts\<close>), the clean-up of the other stores when
  they change (\<^verbatim>\<open>store/workspaceSwitchCleanup.ts\<close>) and the switch a view asks for
  (\<^verbatim>\<open>utils/viewNavigation.ts\<close>). The four stores are one state here; the query cache is left out, it is
  a library's.
\<close>

section \<open>The store\<close>

text \<open>The properties no action reads are kept together.\<close>

record data_source =
  ds_id :: ident
  ds_isPrimary :: bool
  ds_rest :: jsobj

record workspace =
  wk_id :: ident
  wk_dataSources :: "data_source list option"
  wk_isDefault :: bool
  wk_rest :: jsobj

record app =
  workspaces :: "workspace list"
  activeWorkspaceId :: "ident option"
  activeDataSourceId :: "ident option"
  wk_isLoading :: bool
  wk_error :: "string option"
  schema_store :: schema_state
  canvas_store :: canvas
  model_store :: refmodel

definition initial_app :: app where
  "initial_app =
     \<lparr>workspaces = [], activeWorkspaceId = None, activeDataSourceId = None, wk_isLoading = False, wk_error = None,
      schema_store = initial_schema, canvas_store = initial_canvas, model_store = initial_refmodel\<rparr>"

definition or_else :: "'a option \<Rightarrow> 'a option \<Rightarrow> 'a option" where
  "or_else x y = (case x of None \<Rightarrow> y | Some v \<Rightarrow> Some v)"

definition first_item :: "'a list \<Rightarrow> 'a option" where
  "first_item xs = (case xs of [] \<Rightarrow> None | x # _ \<Rightarrow> Some x)"

definition primary_source :: "workspace option \<Rightarrow> data_source option" where
  "primary_source ws =
     (case ws of
        None \<Rightarrow> None
      | Some w \<Rightarrow> (let dss = nullish (wk_dataSources w) [] in or_else (find_first ds_isPrimary dss) (first_item dss)))"

definition default_or_first :: "workspace list \<Rightarrow> workspace option" where
  "default_or_first ws = or_else (find_first wk_isDefault ws) (first_item ws)"

definition find_workspace :: "ident option \<Rightarrow> workspace list \<Rightarrow> workspace option" where
  "find_workspace i ws = find_first (\<lambda>w. Some (wk_id w) = i) ws"

definition set_scope :: "ident option \<Rightarrow> ident option \<Rightarrow> app \<Rightarrow> app" where
  "set_scope w d s = s\<lparr>schema_store := setActiveScopeKey w d (schema_store s)\<rparr>"

text \<open>
  Neither the reference model nor the canvas has the reset that is looked for, so the other branch is
  taken.
\<close>

definition cleanupOnWorkspaceSwitch :: "app \<Rightarrow> app" where
  "cleanupOnWorkspaceSwitch s =
     s\<lparr>schema_store := reset_schema (schema_store s), model_store := clearConflicts (clearAssignments (model_store s)),
       canvas_store := Canvas_Store.clearSelection (Canvas_Store.clearCache (canvas_store s))\<rparr>"

section \<open>Actions\<close>

definition load_workspaces_begin :: "app \<Rightarrow> app" where
  "load_workspaces_begin s = s\<lparr>wk_isLoading := True, wk_error := None\<rparr>"

text \<open>The rest of \<^verbatim>\<open>loadWorkspaces\<close>; a failure carries the message of what was thrown, if it was an \<^verbatim>\<open>Error\<close>.\<close>

definition loadWorkspaces :: "string option + workspace list \<Rightarrow> app \<Rightarrow> app" where
  "loadWorkspaces answer s =
     (case answer of
        Inl e \<Rightarrow> s\<lparr>wk_isLoading := False, wk_error := Some (nullish e ''Failed to load workspaces'')\<rparr>
      | Inr ws \<Rightarrow>
          (let s1 = s\<lparr>workspaces := ws, wk_isLoading := False\<rparr>
           in case find_workspace (activeWorkspaceId s) ws of
                None \<Rightarrow>
                  (let d = default_or_first ws; wi = map_option wk_id d; di = map_option ds_id (primary_source d)
                   in set_scope wi di (s1\<lparr>activeWorkspaceId := wi, activeDataSourceId := di\<rparr>))
              | Some w \<Rightarrow>
                  if \<not> truthy (activeDataSourceId s) then s1
                  else if list_ex (\<lambda>ds. Some (ds_id ds) = activeDataSourceId s) (nullish (wk_dataSources w) [])
                  then set_scope (activeWorkspaceId s) (activeDataSourceId s) s1
                  else (let di = map_option ds_id (primary_source (Some w))
                        in set_scope (activeWorkspaceId s) di (s1\<lparr>activeDataSourceId := di\<rparr>))))"

definition setActiveWorkspace :: "ident option \<Rightarrow> app \<Rightarrow> app" where
  "setActiveWorkspace i s =
     (let ws = (if truthy i then find_workspace i (workspaces s) else None);
          nextDsId = map_option ds_id (primary_source ws);
          s1 = (if activeWorkspaceId s \<noteq> i \<or> activeDataSourceId s \<noteq> nextDsId then cleanupOnWorkspaceSwitch s else s)
      in set_scope i nextDsId (s1\<lparr>activeWorkspaceId := i, activeDataSourceId := nextDsId\<rparr>))"

definition setActiveDataSource :: "ident option \<Rightarrow> app \<Rightarrow> app" where
  "setActiveDataSource i s =
     (let s1 = (if activeDataSourceId s \<noteq> i then cleanupOnWorkspaceSwitch s else s)
      in set_scope (activeWorkspaceId s1) i (s1\<lparr>activeDataSourceId := i\<rparr>))"

definition getDefaultWorkspace :: "app \<Rightarrow> workspace option" where
  "getDefaultWorkspace s = find_first wk_isDefault (workspaces s)"

definition getActiveWorkspace :: "app \<Rightarrow> workspace option" where
  "getActiveWorkspace s = find_workspace (activeWorkspaceId s) (workspaces s)"

definition getActiveDataSource :: "app \<Rightarrow> data_source option" where
  "getActiveDataSource s =
     (case getActiveWorkspace s of
        None \<Rightarrow> None
      | Some w \<Rightarrow>
          if truthy (activeDataSourceId s)
          then find_first (\<lambda>ds. Some (ds_id ds) = activeDataSourceId s) (nullish (wk_dataSources w) [])
          else primary_source (Some w))"

definition addWorkspace :: "workspace \<Rightarrow> app \<Rightarrow> app" where
  "addWorkspace w s = s\<lparr>workspaces := workspaces s @ [w]\<rparr>"

definition updateWorkspace :: "workspace \<Rightarrow> app \<Rightarrow> app" where
  "updateWorkspace w s = s\<lparr>workspaces := map (\<lambda>x. if wk_id x = wk_id w then w else x) (workspaces s)\<rparr>"

definition removeWorkspace :: "ident \<Rightarrow> app \<Rightarrow> app" where
  "removeWorkspace i s =
     (let rest = filter (\<lambda>w. wk_id w \<noteq> i) (workspaces s); s1 = s\<lparr>workspaces := rest\<rparr>
      in if activeWorkspaceId s = Some i
         then s1\<lparr>activeWorkspaceId := map_option wk_id (default_or_first rest),
                 activeDataSourceId := map_option ds_id (primary_source (default_or_first rest))\<rparr>
         else s1)"

text \<open>The switch of a view, with what changed.\<close>

definition switchToViewScope :: "ident option \<Rightarrow> ident option \<Rightarrow> app \<Rightarrow> app \<times> bool \<times> bool" where
  "switchToViewScope w d s =
     (let needWsSwitch = (truthy w \<and> w \<noteq> activeWorkspaceId s);
          s1 = (if needWsSwitch then setActiveWorkspace w s else s);
          s2 = (if truthy d \<and> d \<noteq> activeDataSourceId s1 then setActiveDataSource d s1 else s1)
      in (s2, needWsSwitch, activeDataSourceId s \<noteq> activeDataSourceId s2))"

definition partialize_workspaces :: "app \<Rightarrow> ident option \<times> ident option" where
  "partialize_workspaces s = (activeWorkspaceId s, activeDataSourceId s)"

section \<open>Events\<close>

datatype app_event =
    Load_Begin
  | Load_End "string option + workspace list"
  | Set_Workspace "ident option"
  | Set_Data_Source "ident option"
  | Add_Workspace workspace
  | Update_Workspace workspace
  | Remove_Workspace ident
  | View_Scope "ident option" "ident option"

fun app_step :: "app_event \<Rightarrow> app \<Rightarrow> app" where
  "app_step Load_Begin s = load_workspaces_begin s"
| "app_step (Load_End a) s = loadWorkspaces a s"
| "app_step (Set_Workspace i) s = setActiveWorkspace i s"
| "app_step (Set_Data_Source i) s = setActiveDataSource i s"
| "app_step (Add_Workspace w) s = addWorkspace w s"
| "app_step (Update_Workspace w) s = updateWorkspace w s"
| "app_step (Remove_Workspace i) s = removeWorkspace i s"
| "app_step (View_Scope w d) s = fst (switchToViewScope w d s)"

section \<open>The scope stays in step\<close>

lemma scope_key_set [simp]: "sc_activeScopeKey (setActiveScopeKey w d st) = scope_of w d"
  by (auto simp: setActiveScopeKey_def Let_def split: option.splits)

lemma set_scope_simps [simp]:
  "activeWorkspaceId (set_scope w d s) = activeWorkspaceId s" "activeDataSourceId (set_scope w d s) = activeDataSourceId s"
  "schema_store (set_scope w d s) = setActiveScopeKey w d (schema_store s)" "workspaces (set_scope w d s) = workspaces s"
  "canvas_store (set_scope w d s) = canvas_store s" "model_store (set_scope w d s) = model_store s"
  by (simp_all add: set_scope_def)

lemma cleanup_simps [simp]:
  "activeWorkspaceId (cleanupOnWorkspaceSwitch s) = activeWorkspaceId s" "activeDataSourceId (cleanupOnWorkspaceSwitch s) = activeDataSourceId s"
  "workspaces (cleanupOnWorkspaceSwitch s) = workspaces s" "schema_store (cleanupOnWorkspaceSwitch s) = reset_schema (schema_store s)"
  by (simp_all add: cleanupOnWorkspaceSwitch_def)

definition in_step :: "app \<Rightarrow> bool" where
  "in_step s \<longleftrightarrow> sc_activeScopeKey (schema_store s) = scope_of (activeWorkspaceId s) (activeDataSourceId s)"

definition keeps_active :: "app_event \<Rightarrow> bool" where
  "keeps_active e \<longleftrightarrow> (case e of Remove_Workspace _ \<Rightarrow> False | _ \<Rightarrow> True)"

lemma in_step_set:
  "in_step (setActiveWorkspace i s)" "in_step (setActiveDataSource i s)"
  by (simp_all add: in_step_def setActiveWorkspace_def setActiveDataSource_def Let_def)

lemma in_step_step: "in_step s \<Longrightarrow> keeps_active e \<Longrightarrow> in_step (app_step e s)"
proof (cases e)
  case (Load_End a)
  then show "in_step s \<Longrightarrow> ?thesis" by (auto simp: in_step_def loadWorkspaces_def Let_def split: sum.splits option.splits)
next
  case (View_Scope w d)
  then show "in_step s \<Longrightarrow> ?thesis" by (simp add: switchToViewScope_def Let_def in_step_set)
qed (simp_all add: in_step_set, simp_all add: in_step_def load_workspaces_begin_def addWorkspace_def updateWorkspace_def keeps_active_def)

interpretation app: step_system app_step in_step keeps_active
  by unfold_locales (rule in_step_step)

text \<open>
  as long as no workspace is removed, the scope by which the schema store shows its views is that
  of the active workspace and data source.
\<close>

theorem scope_follows_the_workspace:
  assumes "\<And>e. e \<in> set es \<Longrightarrow> keeps_active e" and "s = run app_step es initial_app"
  shows "sc_activeScopeKey (schema_store s) = scope_of (activeWorkspaceId s) (activeDataSourceId s)"
proof -
  have "in_step initial_app" by (simp add: in_step_def initial_app_def initial_schema_def scope_of_def truthy_def)
  from app.run_inv [OF this assms(1)] show ?thesis by (simp add: assms(2) in_step_def)
qed

text \<open>Removing the active workspace selects another without telling the schema store.\<close>

definition two_workspaces :: "workspace list" where
  "two_workspaces =
     map (\<lambda>i. \<lparr>wk_id = i, wk_dataSources = Some [\<lparr>ds_id = i @ ''1'', ds_isPrimary = True, ds_rest = []\<rparr>], wk_isDefault = False, wk_rest = []\<rparr>)
       [''a'', ''b'']"

lemma removal_leaves_the_scope_behind:
  "(let s = run app_step [Load_End (Inr two_workspaces), Remove_Workspace ''a''] initial_app
    in activeWorkspaceId s = Some ''b'' \<and> sc_activeScopeKey (schema_store s) = Some ''a/a1'')"
  by code_simp

section \<open>What a switch clears\<close>

text \<open>
  C26: a call of \<^verbatim>\<open>setActiveWorkspace\<close> or \<^verbatim>\<open>setActiveDataSource\<close> that changes the workspace or the data source
  leaves no schema, view, selection, cached region or assignment of the one before, but leaves its nodes and
  edges on the canvas; a call that changes neither leaves the canvas and the model alone. (Loading the
  workspaces and removing one can also change them, without any of this: the lemmas
  \<open>reload_switches_without_cleanup\<close> and \<open>removal_leaves_the_scope_behind\<close>.)
\<close>

theorem switch_clears_the_stores:
  assumes "s' = setActiveWorkspace i s \<or> s' = setActiveDataSource i s"
  shows "(if activeWorkspaceId s' = activeWorkspaceId s \<and> activeDataSourceId s' = activeDataSourceId s
    then canvas_store s' = canvas_store s \<and> model_store s' = model_store s
    else sc_schema (schema_store s') = None \<and> sc_activeViewId (schema_store s') = None
      \<and> selectedNodeIds (canvas_store s') = [] \<and> selectedEdgeIds (canvas_store s') = [] \<and> cachedRegions (canvas_store s') = []
      \<and> instanceAssignments (model_store s') = [] \<and> effectiveAssignments (model_store s') = []
      \<and> assignmentConflicts (model_store s') = [])
    \<and> nodes (canvas_store s') = nodes (canvas_store s) \<and> edges (canvas_store s') = edges (canvas_store s)"
proof -
  have none: "sc_schema (setActiveScopeKey w d (reset_schema st)) = None \<and> sc_activeViewId (setActiveScopeKey w d (reset_schema st)) = None" for w d st
    by (auto simp: setActiveScopeKey_def reset_schema_def Let_def split: option.splits)
  have cleared: "selectedNodeIds (canvas_store (cleanupOnWorkspaceSwitch s)) = []" "selectedEdgeIds (canvas_store (cleanupOnWorkspaceSwitch s)) = []"
    "cachedRegions (canvas_store (cleanupOnWorkspaceSwitch s)) = []" "instanceAssignments (model_store (cleanupOnWorkspaceSwitch s)) = []"
    "effectiveAssignments (model_store (cleanupOnWorkspaceSwitch s)) = []" "assignmentConflicts (model_store (cleanupOnWorkspaceSwitch s)) = []"
    by (simp_all add: cleanupOnWorkspaceSwitch_def Canvas_Store.clearSelection_def Canvas_Store.clearCache_def clearAssignments_def
        clearConflicts_def Reference_Model.commit_def)
  have kept: "nodes (canvas_store (cleanupOnWorkspaceSwitch s)) = nodes (canvas_store s)" "edges (canvas_store (cleanupOnWorkspaceSwitch s)) = edges (canvas_store s)"
    by (simp_all add: cleanupOnWorkspaceSwitch_def Canvas_Store.clearSelection_def Canvas_Store.clearCache_def)
  from assms show ?thesis
    by (elim disjE) (auto simp: setActiveWorkspace_def setActiveDataSource_def Let_def none cleared kept)
qed

text \<open>
  The nodes and edges of the old workspace stay on the canvas, and the layers and the id of its model in
  the reference model, which is marked as changed: saving it writes the model without its assignments.
\<close>

definition loaded_app :: app where
  "loaded_app =
     (run app_step [Load_End (Inr two_workspaces)] initial_app)
       \<lparr>canvas_store := initial_canvas\<lparr>nodes := [\<lparr>node_id = ''n'', node_data = []\<rparr>], nodeIndex := {''n''}\<rparr>,
        model_store := initial_refmodel\<lparr>activeContextModelId := Some ''m''\<rparr>\<rparr>"

lemma switch_keeps_the_old_graph:
  "(let s = setActiveWorkspace (Some ''b'') loaded_app
    in map node_id (nodes (canvas_store s)) = [''n''] \<and> activeContextModelId (model_store s) = Some ''m'' \<and> syncStatus (model_store s) = Dirty)"
  by code_simp

text \<open>A workspace list that no longer has the active workspace selects another without the clean-up.\<close>

lemma reload_switches_without_cleanup:
  "(let s = loadWorkspaces (Inr (tl two_workspaces)) (loaded_app\<lparr>schema_store := with_views [sample_view ''v'' (Some ''a/a1'') (Some ''a'') None]\<rparr>)
    in activeWorkspaceId s = Some ''b'' \<and> map vw_id (views_of (sc_schema (schema_store s))) = [''v''])"
  by code_simp

section \<open>The switch of a view\<close>

text \<open>
  after the switch of a view its workspace and its data source are active, what the call reports is
  what changed, and a second call changes nothing and says so.
\<close>

theorem view_switch_reaches_the_scope:
  assumes "switchToViewScope w d s = (s', wsChanged, dsChanged)"
  shows "(truthy w \<longrightarrow> activeWorkspaceId s' = w) \<and> (truthy d \<longrightarrow> activeDataSourceId s' = d)
    \<and> (wsChanged \<longleftrightarrow> activeWorkspaceId s' \<noteq> activeWorkspaceId s) \<and> (dsChanged \<longleftrightarrow> activeDataSourceId s' \<noteq> activeDataSourceId s)
    \<and> switchToViewScope w d s' = (s', False, False)"
proof -
  have keep: "activeWorkspaceId (setActiveDataSource i x) = activeWorkspaceId x" "activeDataSourceId (setActiveDataSource i x) = i"
    "activeWorkspaceId (setActiveWorkspace i x) = i" for i x
    by (simp_all add: setActiveDataSource_def setActiveWorkspace_def Let_def)
  define s1 where "s1 = (if truthy w \<and> w \<noteq> activeWorkspaceId s then setActiveWorkspace w s else s)"
  have s': "s' = (if truthy d \<and> d \<noteq> activeDataSourceId s1 then setActiveDataSource d s1 else s1)"
    and changed: "wsChanged = (truthy w \<and> w \<noteq> activeWorkspaceId s)" "dsChanged = (activeDataSourceId s \<noteq> activeDataSourceId s')"
    using assms [unfolded switchToViewScope_def Let_def, folded s1_def] by (elim Pair_inject; blast)+
  have ws: "activeWorkspaceId s' = (if truthy w then w else activeWorkspaceId s)" by (simp add: s' keep s1_def)
  have ds: "truthy d \<Longrightarrow> activeDataSourceId s' = d" by (simp add: s' keep)
  from ws ds have "switchToViewScope w d s' = (s', False, False)" by (auto simp: switchToViewScope_def Let_def)
  with ws ds changed show ?thesis by auto
qed

section \<open>Witnesses\<close>

lemma scope_follows_the_workspace_witness:
  "sc_activeScopeKey (schema_store (run app_step [Load_End (Inr two_workspaces), Set_Workspace (Some ''b'')] initial_app)) = Some ''b/b1''"
proof -
  let ?es = "[Load_End (Inr two_workspaces), Set_Workspace (Some ''b'')]"
  have active: "activeWorkspaceId (run app_step ?es initial_app) = Some ''b''" "activeDataSourceId (run app_step ?es initial_app) = Some ''b1''"
    by code_simp+
  have "sc_activeScopeKey (schema_store (run app_step ?es initial_app))
      = scope_of (activeWorkspaceId (run app_step ?es initial_app)) (activeDataSourceId (run app_step ?es initial_app))"
    by (rule scope_follows_the_workspace [OF _ refl]) (auto simp: keeps_active_def)
  then show ?thesis unfolding active by (simp add: scope_of_def)
qed

lemma switch_clears_the_stores_witness:
  "sc_schema (schema_store (setActiveDataSource (Some ''x'') (initial_app\<lparr>schema_store := with_views []\<rparr>))) = None"
proof -
  let ?s = "initial_app\<lparr>schema_store := with_views []\<rparr>"
  have "activeDataSourceId (setActiveDataSource (Some ''x'') ?s) \<noteq> activeDataSourceId ?s"
    by (simp add: setActiveDataSource_def Let_def initial_app_def)
  then show ?thesis
    using switch_clears_the_stores [of "setActiveDataSource (Some ''x'') ?s" "Some ''x''" ?s] by simp
qed

lemma view_switch_reaches_the_scope_witness:
  "activeWorkspaceId (fst (switchToViewScope (Some ''a'') None initial_app)) = Some ''a''"
proof (cases "switchToViewScope (Some ''a'') None initial_app")
  case (fields s' wsChanged dsChanged)
  from view_switch_reaches_the_scope [OF this] fields show ?thesis by simp
qed

end
