(* ===== verification/Edge_Filters.thy ===== *)
theory Edge_Filters
  imports Schema_Store "HOL-Library.Word"
begin

text \<open>
  The edge types of a canvas and their filters: the colours generated from a name
  (\<^verbatim>\<open>lib/type-visuals.ts\<close>), the definitions of the types that occur (\<^verbatim>\<open>utils/edgeTypeUtils.tsx\<close>) and the
  filters, highlights and transitive edges of a node (\<^verbatim>\<open>hooks/useEdgeFilters.ts\<close>). The order of
  \<^verbatim>\<open>localeCompare\<close> is that of a collation key, a parameter; the one icon of all types is left out.
\<close>

section \<open>Colours from names\<close>

definition TYPE_COLOR_PALETTE :: "string list" where
  "TYPE_COLOR_PALETTE =
     [''#3b82f6'', ''#8b5cf6'', ''#06b6d4'', ''#10b981'', ''#f59e0b'', ''#ef4444'', ''#ec4899'', ''#6366f1'', ''#14b8a6'', ''#f97316'',
      ''#84cc16'', ''#a855f7'', ''#0ea5e9'', ''#22c55e'', ''#e11d48'', ''#64748b'']"

definition TYPE_ICON_SET :: "string list" where
  "TYPE_ICON_SET =
     [''Box'', ''Database'', ''Table2'', ''Layers'', ''Workflow'', ''LayoutDashboard'', ''Server'', ''Package'', ''FolderOpen'', ''Columns3'',
      ''GitBranch'', ''Network'']"

text \<open>\<^verbatim>\<open>| 0\<close> makes the sum a 32-bit integer; \<^verbatim>\<open>Math.abs\<close> is taken of a number, so it does not overflow.\<close>

definition hash_char :: "char \<Rightarrow> 32 word \<Rightarrow> 32 word" where
  "hash_char c hash = push_bit 5 hash - hash + word_of_nat (of_char c)"

definition hashString :: "string \<Rightarrow> nat" where
  "hashString s = nat \<bar>sint (fold hash_char s 0)\<bar>"

definition generateColorFromType :: "string \<Rightarrow> string" where
  "generateColorFromType typeId = TYPE_COLOR_PALETTE ! (hashString typeId mod length TYPE_COLOR_PALETTE)"

definition generateIconFallback :: "string \<Rightarrow> string" where
  "generateIconFallback typeId = TYPE_ICON_SET ! (hashString typeId mod length TYPE_ICON_SET)"

definition generateEdgeColorFromType :: "string \<Rightarrow> string" where
  "generateEdgeColorFromType edgeTypeId = generateColorFromType (toUpperCase edgeTypeId)"

section \<open>Edge types\<close>

record edge_type_def =
  ed_type :: string
  ed_label :: string
  ed_description :: string
  ed_color :: string
  ed_strokeStyle :: string
  ed_animated :: bool

definition discoverEdgeTypes :: "lineage_edge list \<Rightarrow> string list" where
  "discoverEdgeTypes es = set_from (filter (\<lambda>t. t \<noteq> '''') (map normalizeEdgeType es))"

definition getEdgeTypeFromSchema :: "string \<Rightarrow> rel_type list \<Rightarrow> rel_type option" where
  "getEdgeTypeFromSchema edgeType rts = find_first (\<lambda>rt. toUpperCase (br_id rt) = toUpperCase edgeType) rts"

definition capitalise :: "string \<Rightarrow> string" where
  "capitalise w = toUpperCase (take 1 w) @ drop 1 w"

definition formatEdgeTypeLabel :: "string \<Rightarrow> string" where
  "formatEdgeTypeLabel t = join_with (CHR '' '') (map capitalise (split_on (CHR ''_'') (toLowerCase t)))"

definition getDefaultColor :: "string \<Rightarrow> string" where
  "getDefaultColor t = generateColorFromType (toUpperCase t)"

definition getDefaultStrokeStyle :: "string \<Rightarrow> bool \<Rightarrow> string" where
  "getDefaultStrokeStyle t isContainment =
     (if isContainment then ''dashed'' else if toUpperCase t = ''AGGREGATED'' then ''dashed'' else ''solid'')"

text \<open>The metadata of the ontology maps a type to its description, when it has any.\<close>

definition createDefaultEdgeTypeDefinition :: "string \<Rightarrow> string list \<Rightarrow> (string, string) jsmap \<Rightarrow> edge_type_def" where
  "createDefaultEdgeTypeDefinition edgeType containmentTypes descriptions =
     (let normalized = toUpperCase edgeType; isContainment = isContainmentEdgeType normalized containmentTypes;
          described = mget descriptions normalized
      in \<lparr>ed_type = normalized, ed_label = formatEdgeTypeLabel edgeType,
          ed_description = (if truthy described then the described
            else if isContainment then ''Parent-child containment relationship''
            else ''Data flow relationship: '' @ formatEdgeTypeLabel edgeType),
          ed_color = getDefaultColor edgeType, ed_strokeStyle = getDefaultStrokeStyle edgeType isContainment,
          ed_animated = (\<not> isContainment)\<rparr>)"

definition getEdgeTypeDefinition :: "rel_type list \<Rightarrow> string list \<Rightarrow> (string, string) jsmap \<Rightarrow> string \<Rightarrow> edge_type_def" where
  "getEdgeTypeDefinition rts containmentTypes descriptions edgeType =
     (case getEdgeTypeFromSchema edgeType rts of
        Some rt \<Rightarrow>
          \<lparr>ed_type = toUpperCase (br_id rt), ed_label = br_name rt,
           ed_description = str_or (br_description rt) (''Edge type: '' @ br_name rt), ed_color = rv_strokeColor (br_visual rt),
           ed_strokeStyle = rv_strokeStyle (br_visual rt), ed_animated = rv_animated (br_visual rt)\<rparr>
      | None \<Rightarrow> createDefaultEdgeTypeDefinition edgeType containmentTypes descriptions)"

definition getAllEdgeTypeDefinitions ::
  "(string \<Rightarrow> string) \<Rightarrow> lineage_edge list \<Rightarrow> rel_type list \<Rightarrow> string list \<Rightarrow> (string, string) jsmap \<Rightarrow> edge_type_def list" where
  "getAllEdgeTypeDefinitions coll es rts containmentTypes descriptions =
     sort_key (\<lambda>d. coll (ed_label d)) (map (getEdgeTypeDefinition rts containmentTypes descriptions) (discoverEdgeTypes es))"

definition normalizeEdgeTypeForMatching :: "string \<Rightarrow> string" where
  "normalizeEdgeTypeForMatching edgeType = toLowerCase (toUpperCase edgeType)"

record edge_type_filter =
  ef_type :: string
  ef_label :: string
  ef_color :: string
  ef_enabled :: bool

definition generateEdgeTypeFiltersFromEdges ::
  "(string \<Rightarrow> string) \<Rightarrow> lineage_edge list \<Rightarrow> rel_type list \<Rightarrow> string list \<Rightarrow> (string, string) jsmap \<Rightarrow> edge_type_filter list" where
  "generateEdgeTypeFiltersFromEdges coll es rts containmentTypes descriptions =
     map (\<lambda>d. \<lparr>ef_type = toLowerCase (ed_type d), ef_label = ed_label d, ef_color = ed_color d, ef_enabled = True\<rparr>)
       (getAllEdgeTypeDefinitions coll es rts containmentTypes descriptions)"

section \<open>The store\<close>

datatype edge_direction = All_Edges | Incoming | Outgoing | Upstream_Of | Downstream_Of
datatype highlight_mode = Pulse | Glow | Bold

record edge_filters =
  ff_panelOpen :: bool
  ff_filters :: "edge_type_filter list"
  ff_direction :: edge_direction
  ff_focusedNodeId :: "ident option"
  ff_highlighted :: "ident set"
  ff_highlightMode :: highlight_mode
  ff_isolate :: bool
  ff_showLabels :: bool
  ff_threshold :: rat

definition initial_filters :: edge_filters where
  "initial_filters =
     \<lparr>ff_panelOpen = False, ff_filters = [], ff_direction = All_Edges, ff_focusedNodeId = None, ff_highlighted = {}, ff_highlightMode = Glow,
      ff_isolate = False, ff_showLabels = False, ff_threshold = 0\<rparr>"

definition toggleDetailPanel :: "edge_filters \<Rightarrow> edge_filters" where
  "toggleDetailPanel s = s\<lparr>ff_panelOpen := \<not> ff_panelOpen s\<rparr>"

definition set_panel :: "bool \<Rightarrow> edge_filters \<Rightarrow> edge_filters" where
  "set_panel b s = s\<lparr>ff_panelOpen := b\<rparr>"

definition toggleFilter :: "string \<Rightarrow> edge_filters \<Rightarrow> edge_filters" where
  "toggleFilter t s = s\<lparr>ff_filters := map (\<lambda>f. if ef_type f = t then f\<lparr>ef_enabled := \<not> ef_enabled f\<rparr> else f) (ff_filters s)\<rparr>"

definition set_all_filters :: "bool \<Rightarrow> edge_filters \<Rightarrow> edge_filters" where
  "set_all_filters b s = s\<lparr>ff_filters := map (\<lambda>f. f\<lparr>ef_enabled := b\<rparr>) (ff_filters s)\<rparr>"

definition resetFilters :: "edge_filters \<Rightarrow> edge_filters" where
  "resetFilters s = s\<lparr>ff_filters := []\<rparr>"

definition setFilterEnabled :: "string \<Rightarrow> bool \<Rightarrow> edge_filters \<Rightarrow> edge_filters" where
  "setFilterEnabled t b s = s\<lparr>ff_filters := map (\<lambda>f. if ef_type f = t then f\<lparr>ef_enabled := b\<rparr> else f) (ff_filters s)\<rparr>"

definition setDirectionFilter :: "edge_direction \<Rightarrow> edge_filters \<Rightarrow> edge_filters" where
  "setDirectionFilter d s = s\<lparr>ff_direction := d\<rparr>"

definition setFocusedNode :: "ident option \<Rightarrow> edge_filters \<Rightarrow> edge_filters" where
  "setFocusedNode n s = s\<lparr>ff_focusedNodeId := n\<rparr>"

definition highlightEdge :: "ident \<Rightarrow> edge_filters \<Rightarrow> edge_filters" where
  "highlightEdge e s = s\<lparr>ff_highlighted := insert e (ff_highlighted s)\<rparr>"

definition unhighlightEdge :: "ident \<Rightarrow> edge_filters \<Rightarrow> edge_filters" where
  "unhighlightEdge e s = s\<lparr>ff_highlighted := ff_highlighted s - {e}\<rparr>"

definition toggleHighlightEdge :: "ident \<Rightarrow> edge_filters \<Rightarrow> edge_filters" where
  "toggleHighlightEdge e s = (if e \<in> ff_highlighted s then unhighlightEdge e s else highlightEdge e s)"

definition setHighlightedEdges :: "ident list \<Rightarrow> edge_filters \<Rightarrow> edge_filters" where
  "setHighlightedEdges es s = s\<lparr>ff_highlighted := set es\<rparr>"

definition setHighlightMode :: "highlight_mode \<Rightarrow> edge_filters \<Rightarrow> edge_filters" where
  "setHighlightMode m s = s\<lparr>ff_highlightMode := m\<rparr>"

definition setIsolateMode :: "bool \<Rightarrow> edge_filters \<Rightarrow> edge_filters" where
  "setIsolateMode b s = s\<lparr>ff_isolate := b\<rparr>"

definition toggleEdgeLabels :: "edge_filters \<Rightarrow> edge_filters" where
  "toggleEdgeLabels s = s\<lparr>ff_showLabels := \<not> ff_showLabels s\<rparr>"

definition setConfidenceThreshold :: "rat \<Rightarrow> edge_filters \<Rightarrow> edge_filters" where
  "setConfidenceThreshold t s = s\<lparr>ff_threshold := t\<rparr>"

definition partialize_filters :: "edge_filters \<Rightarrow> edge_type_filter list \<times> bool \<times> rat \<times> highlight_mode" where
  "partialize_filters s = (ff_filters s, ff_showLabels s, ff_threshold s, ff_highlightMode s)"

definition rehydrate_filters :: "edge_type_filter list \<times> bool \<times> rat \<times> highlight_mode \<Rightarrow> edge_filters" where
  "rehydrate_filters p =
     (case p of (fs, labels, threshold, mode) \<Rightarrow>
        initial_filters\<lparr>ff_filters := fs, ff_showLabels := labels, ff_threshold := threshold, ff_highlightMode := mode\<rparr>)"

section \<open>The edges up and down from a node\<close>

text \<open>
  \<^verbatim>\<open>findUpstreamEdges\<close> with \<open>near\<close> the target and \<open>far\<close> the source of an edge, \<^verbatim>\<open>findDownstreamEdges\<close> the other
  way round. The loop over the unvisited edges at a node shares the set of visited ids with the
  recursion, so the set is threaded through: the function answers for the rest of a loop.
\<close>

function (domintros) walk_edges ::
  "(lineage_edge \<Rightarrow> ident) \<Rightarrow> (lineage_edge \<Rightarrow> ident) \<Rightarrow> lineage_edge list \<Rightarrow> lineage_edge list \<Rightarrow> ident set \<Rightarrow> lineage_edge list \<times> ident set" where
  "walk_edges near far es [] visited = ([], visited)"
| "walk_edges near far es (e # todo) visited =
     (let visited1 = insert (edge_id e) visited;
          (deeper, visited2) = walk_edges near far es (filter (\<lambda>x. near x = far e \<and> edge_id x \<notin> visited1) es) visited1;
          (later, visited3) = walk_edges near far es todo visited2
      in (e # deeper @ later, visited3))"
  by pat_completeness auto

lemma walk_edges_grows:
  "walk_edges_dom (near, far, es, todo, visited) \<Longrightarrow> visited \<union> edge_id ` set todo \<subseteq> snd (walk_edges near far es todo visited)"
proof (induction near far es todo visited rule: walk_edges.pinduct)
  case (2 near far es e todo visited)
  let ?v1 = "insert (edge_id e) visited"
  let ?kids = "filter (\<lambda>x. near x = far e \<and> edge_id x \<notin> ?v1) es"
  obtain deeper v2 where deeper: "walk_edges near far es ?kids ?v1 = (deeper, v2)" by (cases "walk_edges near far es ?kids ?v1")
  obtain later v3 where later: "walk_edges near far es todo v2 = (later, v3)" by (cases "walk_edges near far es todo v2")
  have "?v1 \<subseteq> v2" using 2(2) [OF refl] by (simp only: deeper snd_conv Un_subset_iff)
  moreover have "v2 \<union> edge_id ` set todo \<subseteq> v3"
    using 2(3) [OF refl deeper [symmetric] refl] by (simp only: later snd_conv)
  moreover have "snd (walk_edges near far es (e # todo) visited) = v3"
    by (simp only: walk_edges.psimps(2) [OF 2(1)] Let_def deeper later prod.case snd_conv)
  ultimately show ?case by (simp only:) auto
qed (simp add: walk_edges.psimps(1))

definition unvisited :: "lineage_edge list \<Rightarrow> lineage_edge list \<Rightarrow> ident set \<Rightarrow> nat" where
  "unvisited es todo visited = card ((edge_id ` set es \<union> edge_id ` set todo) - (visited - edge_id ` set todo))"

lemma unvisited_deeper:
  "unvisited es (filter (\<lambda>x. near x = far e \<and> edge_id x \<notin> insert (edge_id e) visited) es) (insert (edge_id e) visited) < unvisited es (e # todo) visited"
  unfolding unvisited_def by (intro psubset_card_mono) auto

lemma unvisited_later:
  "insert (edge_id e) visited \<subseteq> visited' \<Longrightarrow> unvisited es todo visited' \<le> unvisited es (e # todo) visited"
  unfolding unvisited_def by (intro card_mono) auto

termination walk_edges
proof (relation "(\<lambda>(near, far, es, todo, visited). unvisited es todo visited) <*mlex*> measure (\<lambda>(near, far, es, todo, visited). length todo)", goal_cases)
  case 1
  show ?case by (simp add: wf_mlex)
next
  case (2 near far es e todo visited visited1)
  show ?case unfolding 2 by (rule mlex_less) (simp only: prod.case unvisited_deeper)
next
  case (3 near far es e todo visited visited1 p deeper visited2)
  have "insert (edge_id e) visited \<subseteq> visited2"
    using walk_edges_grows [OF 3(4)] by (simp only: 3(2,3) [symmetric] 3(1) [symmetric] snd_conv Un_subset_iff)
  then show ?case by (intro mlex_leq) (simp_all only: prod.case unvisited_later, simp)
qed

definition edges_at :: "(lineage_edge \<Rightarrow> ident) \<Rightarrow> (lineage_edge \<Rightarrow> ident) \<Rightarrow> ident \<Rightarrow> lineage_edge list \<Rightarrow> lineage_edge list" where
  "edges_at near far n es = fst (walk_edges near far es (filter (\<lambda>e. near e = n \<and> edge_id e \<notin> {}) es) {})"

definition findUpstreamEdges :: "ident \<Rightarrow> lineage_edge list \<Rightarrow> lineage_edge list" where
  "findUpstreamEdges n es = edges_at edge_target edge_source n es"

definition findDownstreamEdges :: "ident \<Rightarrow> lineage_edge list \<Rightarrow> lineage_edge list" where
  "findDownstreamEdges n es = edges_at edge_source edge_target n es"

section \<open>What the canvas shows\<close>

definition enabled_types :: "edge_type_filter list \<Rightarrow> string list" where
  "enabled_types fs = map ef_type (filter ef_enabled fs)"

definition original_type :: "lineage_edge \<Rightarrow> string" where
  "original_type e =
     toLowerCase (case edge_data_of e of None \<Rightarrow> ''unknown'' | Some d \<Rightarrow> str_or (d_edgeType d) (str_or (d_relationship d) ''unknown''))"

definition passes_type :: "edge_type_filter list \<Rightarrow> lineage_edge \<Rightarrow> bool" where
  "passes_type fs e \<longleftrightarrow>
     fs = [] \<or> toLowerCase (normalizeEdgeType e) \<in> set (enabled_types fs) \<or> original_type e \<in> set (enabled_types fs)"

definition confidence_of :: "lineage_edge \<Rightarrow> rat" where
  "confidence_of e = (case edge_data_of e of None \<Rightarrow> 1 | Some d \<Rightarrow> nullish (d_confidence d) 1)"

record filtered_edges =
  fe_all :: "lineage_edge list"
  fe_filtered :: "lineage_edge list"
  fe_containment :: "lineage_edge list"
  fe_lineage :: "lineage_edge list"
  fe_directed :: "lineage_edge list"
  fe_highlighted :: "lineage_edge list"

definition in_direction :: "edge_direction \<Rightarrow> ident \<Rightarrow> lineage_edge list \<Rightarrow> lineage_edge list" where
  "in_direction d n es =
     (case d of
        All_Edges \<Rightarrow> es
      | Incoming \<Rightarrow> filter (\<lambda>e. edge_target e = n) es
      | Outgoing \<Rightarrow> filter (\<lambda>e. edge_source e = n) es
      | Upstream_Of \<Rightarrow> findUpstreamEdges n es
      | Downstream_Of \<Rightarrow> findDownstreamEdges n es)"

definition filteredEdges :: "string list \<Rightarrow> edge_filters \<Rightarrow> lineage_edge list \<Rightarrow> filtered_edges" where
  "filteredEdges containmentTypes s es =
     (let typeFiltered = filter (\<lambda>e. \<not> confidence_of e < ff_threshold s \<and> passes_type (ff_filters s) e) es;
          contains = (\<lambda>e. isContainmentEdgeType (normalizeEdgeType e) containmentTypes);
          directed = (if truthy (ff_focusedNodeId s) \<and> ff_direction s \<noteq> All_Edges
                      then in_direction (ff_direction s) (the (ff_focusedNodeId s)) typeFiltered else typeFiltered);
          highlighted = (\<lambda>e. edge_id e \<in> ff_highlighted s)
      in \<lparr>fe_all = es,
          fe_filtered = (if ff_isolate s \<and> ff_highlighted s \<noteq> {} then filter highlighted directed else directed),
          fe_containment = filter contains es, fe_lineage = filter (\<lambda>e. \<not> contains e) es, fe_directed = directed,
          fe_highlighted = filter highlighted es\<rparr>)"

record node_edges =
  ne_incoming :: "lineage_edge list"
  ne_outgoing :: "lineage_edge list"
  ne_upstream :: "lineage_edge list"
  ne_downstream :: "lineage_edge list"
  ne_all :: "lineage_edge list"

text \<open>The statistics are the lengths of these lists.\<close>

definition nodeEdges :: "ident option \<Rightarrow> edge_type_filter list \<Rightarrow> lineage_edge list \<Rightarrow> node_edges" where
  "nodeEdges nid fs es =
     (if \<not> truthy nid then \<lparr>ne_incoming = [], ne_outgoing = [], ne_upstream = [], ne_downstream = [], ne_all = []\<rparr>
      else (let n = the nid; typeFiltered = filter (passes_type fs) es;
                incoming = filter (\<lambda>e. edge_target e = n) typeFiltered; outgoing = filter (\<lambda>e. edge_source e = n) typeFiltered
            in \<lparr>ne_incoming = incoming, ne_outgoing = outgoing, ne_upstream = findUpstreamEdges n typeFiltered,
                ne_downstream = findDownstreamEdges n typeFiltered, ne_all = set_from (incoming @ outgoing)\<rparr>))"

definition edge_stats :: "node_edges \<Rightarrow> nat \<times> nat \<times> nat \<times> nat" where
  "edge_stats ne = (length (ne_incoming ne), length (ne_outgoing ne), length (ne_upstream ne), length (ne_downstream ne))"

section \<open>The transitive edges\<close>

text \<open>\<open>leads near far es n e\<close>: \<open>e\<close> is reached from \<open>n\<close> along edges that join far end to near end.\<close>

inductive leads :: "(lineage_edge \<Rightarrow> ident) \<Rightarrow> (lineage_edge \<Rightarrow> ident) \<Rightarrow> lineage_edge list \<Rightarrow> ident \<Rightarrow> lineage_edge \<Rightarrow> bool"
  for near far es n where
  touching: "e \<in> set es \<Longrightarrow> near e = n \<Longrightarrow> leads near far es n e"
| onwards: "leads near far es n e \<Longrightarrow> x \<in> set es \<Longrightarrow> near x = far e \<Longrightarrow> leads near far es n x"

lemma walk_edges_Cons:
  assumes "walk_edges near far es (filter (\<lambda>x. near x = far e \<and> edge_id x \<notin> insert (edge_id e) visited) es) (insert (edge_id e) visited) = (deeper, v2)"
    and "walk_edges near far es todo v2 = (later, v3)"
  shows "walk_edges near far es (e # todo) visited = (e # deeper @ later, v3)"
  by (simp only: walk_edges.simps(2) Let_def assms prod.case)

lemma leads_trans: "leads near far es (far t) e \<Longrightarrow> leads near far es n t \<Longrightarrow> leads near far es n e"
  by (induction rule: leads.induct) (auto intro: leads.intros)

lemma walk_edges_facts:
  "walk_edges near far es todo visited = (rs, visited') \<Longrightarrow>
     visited' = visited \<union> edge_id ` set rs \<and> set todo \<subseteq> set rs
     \<and> (\<forall>e \<in> set rs. \<forall>x \<in> set es. near x = far e \<longrightarrow> edge_id x \<in> visited')
     \<and> (\<forall>e \<in> set rs. e \<in> set todo \<or> (\<exists>t \<in> set todo. leads near far es (far t) e))"
proof (induction near far es todo visited arbitrary: rs visited' rule: walk_edges.induct)
  case (2 near far es e todo visited)
  let ?v1 = "insert (edge_id e) visited"
  let ?kids = "filter (\<lambda>x. near x = far e \<and> edge_id x \<notin> ?v1) es"
  obtain deeper v2 where deeper: "walk_edges near far es ?kids ?v1 = (deeper, v2)" by (cases "walk_edges near far es ?kids ?v1")
  obtain later v3 where later: "walk_edges near far es todo v2 = (later, v3)" by (cases "walk_edges near far es todo v2")
  have rs: "rs = e # deeper @ later" "visited' = v3" using 2(3) walk_edges_Cons [OF deeper later] by simp_all
  note IH1 = 2(1) [OF refl deeper] and IH2 = 2(2) [OF refl deeper [symmetric] refl later]
  have visited: "v3 = visited \<union> edge_id ` set rs" using IH1 IH2 by (auto simp: rs)
  moreover have "set (e # todo) \<subseteq> set rs" using IH2 by (auto simp: rs)
  moreover have "edge_id x \<in> v3" if "d \<in> set rs" "x \<in> set es" "near x = far d" for d x
  proof -
    have "d = e \<or> d \<in> set deeper \<or> d \<in> set later" using that(1) by (simp add: rs)
    then consider "d = e" | "d \<in> set deeper" | "d \<in> set later" by blast
    then show ?thesis
    proof cases
      case 1
      then have "edge_id x \<in> ?v1 \<or> x \<in> set ?kids" using that by auto
      then show ?thesis using IH1 IH2 by auto
    next
      case 2
      then have "edge_id x \<in> v2" using that IH1 by blast
      then show ?thesis using IH2 by blast
    next
      case 3
      then show ?thesis using that IH2 by blast
    qed
  qed
  moreover have "d \<in> set (e # todo) \<or> (\<exists>t \<in> set (e # todo). leads near far es (far t) d)" if "d \<in> set rs" for d
  proof -
    have "d = e \<or> d \<in> set deeper \<or> d \<in> set later" using that by (simp add: rs)
    then consider "d = e" | "d \<in> set deeper" | "d \<in> set later" by blast
    then show ?thesis
    proof cases
      case 2
      have "leads near far es (far e) t" if "t \<in> set ?kids" for t using that by (intro leads.touching) auto
      moreover from 2 IH1 have "d \<in> set ?kids \<or> (\<exists>t \<in> set ?kids. leads near far es (far t) d)" by blast
      ultimately have "leads near far es (far e) d" using leads_trans by blast
      then show ?thesis by auto
    qed (use IH2 in auto)
  qed
  ultimately show ?case by (simp only: rs) blast
qed simp

lemma edges_at_leads:
  assumes "distinct (map edge_id es)"
  shows "set (edges_at near far n es) = {e. leads near far es n e}"
proof -
  let ?start = "filter (\<lambda>e. near e = n \<and> edge_id e \<notin> {}) es"
  obtain rs v where walk: "walk_edges near far es ?start {} = (rs, v)" by (cases "walk_edges near far es ?start {}")
  note facts = walk_edges_facts [OF walk]
  have start: "leads near far es n t" if "t \<in> set ?start" for t using that by (intro leads.touching) auto
  have in_es: "e \<in> set es" if "leads near far es m e" for m e using that by (cases rule: leads.cases)
  have sound: "leads near far es n e" if "e \<in> set rs" for e using facts that start leads_trans by blast
  have "e \<in> set rs" if "leads near far es n e" for e
    using that
  proof (induction rule: leads.induct)
    case (touching e)
    with facts show ?case by auto
  next
    case (onwards e x)
    then have "edge_id x \<in> edge_id ` set rs" using facts by blast
    then obtain y where "y \<in> set rs" "edge_id y = edge_id x" by auto
    moreover from this have "y \<in> set es" using sound in_es by blast
    ultimately have "y = x" using assms onwards.hyps(2) by (metis inj_onD distinct_map)
    with \<open>y \<in> set rs\<close> show ?case by simp
  qed
  moreover have "edges_at near far n es = rs" by (simp only: edges_at_def walk fst_conv)
  ultimately show ?thesis using sound by auto
qed

text \<open>
  with distinct edge ids, the edges found up and down from a node are exactly those on paths into it
  and out of it, on cyclic graphs too.
\<close>

theorem transitive_edges_found:
  assumes "distinct (map edge_id es)"
  shows "set (findUpstreamEdges n es) = {e. leads edge_target edge_source es n e}
    \<and> set (findDownstreamEdges n es) = {e. leads edge_source edge_target es n e}"
  using edges_at_leads [OF assms] by (simp add: findUpstreamEdges_def findDownstreamEdges_def)

definition flow :: "ident \<Rightarrow> ident \<Rightarrow> ident \<Rightarrow> lineage_edge" where
  "flow i src tgt = \<lparr>edge_id = i, edge_source = src, edge_target = tgt, edge_data_of = None\<rparr>"

text \<open>
  On a cycle an edge may be listed twice: the loop goes on over the edges it chose before the
  recursion went past them, so the counts of the panel are too high.
\<close>

lemma cycle_counts_an_edge_twice:
  "map edge_id (findUpstreamEdges ''n'' [flow ''1'' ''a'' ''n'', flow ''2'' ''b'' ''n'', flow ''3'' ''n'' ''a'']) = [''1'', ''3'', ''2'', ''2'']"
  by code_simp

section \<open>Filters\<close>

lemma type_def_of_schema: "ed_type (getEdgeTypeDefinition rts cts ds t) = toUpperCase t"
proof (cases "getEdgeTypeFromSchema t rts")
  case None
  then show ?thesis by (simp add: getEdgeTypeDefinition_def createDefaultEdgeTypeDefinition_def Let_def)
next
  case (Some rt)
  then have "toUpperCase (br_id rt) = toUpperCase t" unfolding getEdgeTypeFromSchema_def by (auto dest: find_first_Some)
  with Some show ?thesis by (simp add: getEdgeTypeDefinition_def)
qed

lemma normalized_upper: "toUpperCase (normalizeEdgeType e) = normalizeEdgeType e"
  by (simp add: normalizeEdgeType_def toUpperCase_def comp_def split: option.split)

lemma generated_types:
  "set (enabled_types (generateEdgeTypeFiltersFromEdges coll es rts cts ds)) = toLowerCase ` (normalizeEdgeType ` set es - {''''})"
proof -
  have "set (enabled_types (generateEdgeTypeFiltersFromEdges coll es rts cts ds))
      = toLowerCase ` toUpperCase ` (normalizeEdgeType ` set es - {''''})"
    by (force simp: enabled_types_def generateEdgeTypeFiltersFromEdges_def getAllEdgeTypeDefinitions_def discoverEdgeTypes_def
        comp_def type_def_of_schema filter_map)
  also have "toUpperCase ` (normalizeEdgeType ` set es - {''''}) = normalizeEdgeType ` set es - {''''}"
    by (force simp: normalized_upper)
  finally show ?thesis .
qed

lemma lower_upper_char: "lower_char (upper_char c) = lower_char c"
proof -
  have "(of_char c :: nat) < 256" by simp
  then have "((of_char c :: nat) - 32) mod 256 = of_char c - 32" by (intro mod_less) arith
  then show ?thesis by (auto simp: lower_char_def upper_char_def Let_def)
qed

text \<open>
  freshly generated filters hide no edge that has a type, and switching a type off hides every edge
  of it and no edge of another type.
\<close>

theorem generated_filters_show_every_typed_edge:
  assumes "fs = generateEdgeTypeFiltersFromEdges coll es rts cts ds" and "e \<in> set es" and "normalizeEdgeType e \<noteq> ''''"
  shows "passes_type fs e
    \<and> (passes_type (map (\<lambda>f. if ef_type f = t then f\<lparr>ef_enabled := False\<rparr> else f) fs) e \<longleftrightarrow> toLowerCase (normalizeEdgeType e) \<noteq> t)"
proof -
  let ?off = "map (\<lambda>f. if ef_type f = t then f\<lparr>ef_enabled := False\<rparr> else f) fs"
  have types: "set (enabled_types fs) = toLowerCase ` (normalizeEdgeType ` set es - {''''})"
    by (simp only: assms(1) generated_types)
  have "set (enabled_types ?off) = {ef_type f |f. f \<in> set fs \<and> ef_enabled f \<and> ef_type f \<noteq> t}"
    by (auto simp: enabled_types_def)
  also have "\<dots> = set (enabled_types fs) - {t}" by (auto simp: enabled_types_def)
  finally have off: "set (enabled_types ?off) = set (enabled_types fs) - {t}" .
  have lower_upper: "toLowerCase (toUpperCase s) = toLowerCase s" for s
    by (simp add: toLowerCase_def toUpperCase_def comp_def lower_upper_char)
  from assms(3) obtain d where d: "edge_data_of e = Some d" by (cases "edge_data_of e") (simp_all add: normalizeEdgeType_def toUpperCase_def)
  with assms(3) have "str_or (d_edgeType d) (str_or (d_relationship d) '''') \<noteq> ''''"
    by (auto simp: normalizeEdgeType_def toUpperCase_def)
  then have "str_or (d_edgeType d) (str_or (d_relationship d) ''unknown'') = str_or (d_edgeType d) (str_or (d_relationship d) '''')"
    by (auto simp: str_or_def truthy_def split: option.splits if_splits)
  then have original: "original_type e = toLowerCase (normalizeEdgeType e)"
    by (simp add: original_type_def d normalizeEdgeType_def lower_upper)
  have mem: "toLowerCase (normalizeEdgeType e) \<in> set (enabled_types fs)" unfolding types using assms(2,3) by blast
  then have "fs \<noteq> []" by (auto simp: enabled_types_def)
  with mem show ?thesis unfolding passes_type_def original off by auto
qed

text \<open>
  Edges without a type, and edges of a type that came later, are hidden as soon as there are filters.
\<close>

definition typed_flow :: "ident \<Rightarrow> string \<Rightarrow> lineage_edge" where
  "typed_flow i ty =
     \<lparr>edge_id = i, edge_source = ''a'', edge_target = ''b'',
      edge_data_of = Some \<lparr>d_edgeType = Some ty, d_relationship = None, d_confidence = None, d_isAggregated = False, d_edgeTypes = None\<rparr>\<rparr>"

definition flows_to :: rel_type where
  "flows_to =
     \<lparr>br_id = ''FLOWS_TO'', br_name = ''Flows to'', br_description = None, br_sourceTypes = [], br_targetTypes = [],
      br_visual = \<lparr>rv_strokeColor = ''#000'', rv_strokeWidth = 1, rv_strokeStyle = ''solid'', rv_animated = False, rv_animationSpeed = '''',
        rv_arrowType = '''', rv_curveType = ''''\<rparr>,
      br_bidirectional = False, br_showLabel = False, br_isContainment = None, br_isLineage = None, br_category = None, rt_labelField = None\<rparr>"

lemma untyped_edges_are_hidden:
  "map edge_id (filter (passes_type (generateEdgeTypeFiltersFromEdges id [typed_flow ''1'' ''FLOWS_TO'', flow ''2'' ''a'' ''b''] [flows_to] [] []))
     [typed_flow ''1'' ''FLOWS_TO'', flow ''2'' ''a'' ''b'', typed_flow ''3'' ''CONSUMES'']) = [''1'']"
  by code_simp

text \<open>No action adds a filter: from the empty list of the start there never is one.\<close>

lemma filters_stay_empty:
  assumes "ff_filters s = []"
  shows "ff_filters (toggleFilter t s) = []" "ff_filters (set_all_filters b s) = []" "ff_filters (resetFilters s) = []"
    "ff_filters (setFilterEnabled t b s) = []" "ff_filters (setConfidenceThreshold c s) = []" "ff_filters (setDirectionFilter d s) = []"
    "ff_filters (setFocusedNode n s) = []" "ff_filters (setIsolateMode b s) = []" "ff_filters (rehydrate_filters (partialize_filters s)) = []"
  by (simp_all add: assms toggleFilter_def set_all_filters_def resetFilters_def setFilterEnabled_def setConfidenceThreshold_def
      setDirectionFilter_def setFocusedNode_def setIsolateMode_def rehydrate_filters_def partialize_filters_def)

text \<open>The panel of a node counts edges the canvas hides for their confidence.\<close>

lemma panel_ignores_the_threshold:
  "(let e = (typed_flow ''1'' ''T'')\<lparr>edge_data_of := Some \<lparr>d_edgeType = Some ''T'', d_relationship = None, d_confidence = Some (1/2),
       d_isAggregated = False, d_edgeTypes = None\<rparr>\<rparr>
    in fe_filtered (filteredEdges [] (initial_filters\<lparr>ff_threshold := 3/4\<rparr>) [e]) = [] \<and> edge_stats (nodeEdges (Some ''b'') [] [e]) = (1, 0, 1, 0))"
  by code_simp

text \<open>What is stored comes back; the focus, the highlights and the isolation do not.\<close>

lemma filters_rehydrate:
  "partialize_filters (rehydrate_filters p) = p"
  by (cases p) (simp add: partialize_filters_def rehydrate_filters_def)

section \<open>Hashes\<close>

definition polynomial_hash :: "string \<Rightarrow> nat" where
  "polynomial_hash s = fold (\<lambda>c h. 31 * h + of_char c) s 0"

lemma hash_char_31: "hash_char c (word_of_nat h) = word_of_nat (31 * h + of_char c)"
  by (simp add: hash_char_def push_bit_eq_mult)

lemma fold_hash: "fold hash_char s (word_of_nat h) = word_of_nat (fold (\<lambda>c h. 31 * h + of_char c) s h)"
  by (induction s arbitrary: h) (simp_all only: fold_simps hash_char_31)

text \<open>
  the hash is the absolute value of the polynomial in 31 cut to a signed 32-bit integer, it is at
  most \<open>2\<^sup>3\<^sup>1\<close> (its absolute value does not overflow), and the colour and the icon it selects are always in
  their tables.
\<close>

theorem hash_selects_from_the_tables:
  "hashString s = nat \<bar>sint (word_of_nat (polynomial_hash s) :: 32 word)\<bar> \<and> hashString s \<le> 2 ^ 31
   \<and> generateColorFromType s \<in> set TYPE_COLOR_PALETTE \<and> generateIconFallback s \<in> set TYPE_ICON_SET"
proof (intro conjI)
  show hash: "hashString s = nat \<bar>sint (word_of_nat (polynomial_hash s) :: 32 word)\<bar>"
    using fold_hash [of s 0] by (simp add: hashString_def polynomial_hash_def)
  have "\<bar>sint w\<bar> \<le> 2 ^ 31" for w :: "32 word"
    using sint_greater_eq [of w] sint_less [of w] by simp
  then show "hashString s \<le> 2 ^ 31" unfolding hash by (simp add: nat_le_iff)
  show "generateColorFromType s \<in> set TYPE_COLOR_PALETTE" unfolding generateColorFromType_def
    by (intro nth_mem mod_less_divisor) (simp add: TYPE_COLOR_PALETTE_def)
  show "generateIconFallback s \<in> set TYPE_ICON_SET" unfolding generateIconFallback_def
    by (intro nth_mem mod_less_divisor) (simp add: TYPE_ICON_SET_def)
qed

section \<open>Witnesses\<close>

lemma transitive_edges_found_witness:
  "set (findUpstreamEdges ''c'' [flow ''1'' ''a'' ''b'', flow ''2'' ''b'' ''c'']) \<noteq> {}
   \<and> leads edge_target edge_source [flow ''1'' ''a'' ''b'', flow ''2'' ''b'' ''c''] ''c'' (flow ''1'' ''a'' ''b'')"
proof -
  let ?es = "[flow ''1'' ''a'' ''b'', flow ''2'' ''b'' ''c'']"
  have found: "findUpstreamEdges ''c'' ?es = rev ?es" by code_simp
  have "set (findUpstreamEdges ''c'' ?es) = {e. leads edge_target edge_source ?es ''c'' e}"
    by (rule transitive_edges_found [THEN conjunct1]) (simp add: flow_def)
  then have "flow ''1'' ''a'' ''b'' \<in> {e. leads edge_target edge_source ?es ''c'' e}" unfolding found by auto
  then show ?thesis using found by simp
qed

lemma generated_filters_show_every_typed_edge_witness:
  "passes_type (generateEdgeTypeFiltersFromEdges id [typed_flow ''1'' ''FLOWS_TO''] [] [] []) (typed_flow ''1'' ''FLOWS_TO'')"
proof -
  have "normalizeEdgeType (typed_flow ''1'' ''FLOWS_TO'') \<noteq> ''''" by code_simp
  with generated_filters_show_every_typed_edge [OF refl, of "typed_flow ''1'' ''FLOWS_TO''" "[typed_flow ''1'' ''FLOWS_TO'']" id "[]" "[]" "[]"]
  show ?thesis by simp
qed

end
