(* ===== verification/Graph_Hydration.thy ===== *)
theory Graph_Hydration
  imports Trace_Canvas Reference_Model Schema_Store
begin

text \<open>
  The first load of a view into the canvas (\<^verbatim>\<open>hooks/useGraphHydration.ts\<close>, first half). The provider's
  answers are parameters, a rejection carries the message of what was thrown if it was an \<^verbatim>\<open>Error\<close>;
  \<open>alive k\<close> says whether the run is not aborted when its \<open>k\<close>-th request is answered. The random
  positions of nodes are left out, as in the canvas model.
\<close>

section \<open>The types to start with\<close>

definition canBeContainedBy :: "backend_entity_type list \<Rightarrow> string \<Rightarrow> string list" where
  "canBeContainedBy ets t =
     (case find_first (\<lambda>e. be_id e = t) ets of None \<Rightarrow> [] | Some e \<Rightarrow> hd_canBeContainedBy (be_hierarchy e))"

definition computeViewScopedRoots :: "string list \<Rightarrow> backend_entity_type list \<Rightarrow> string list \<Rightarrow> string list" where
  "computeViewScopedRoots visibleTypes ets globalRoots =
     (if visibleTypes = [] then globalRoots
      else (let roots = filter (\<lambda>t. list_all (\<lambda>p. p \<notin> set visibleTypes) (canBeContainedBy ets t)) visibleTypes;
                globalOverlap = filter (\<lambda>r. r \<in> set visibleTypes) globalRoots
            in if roots \<noteq> [] then roots else if globalOverlap \<noteq> [] then globalOverlap else [hd visibleTypes]))"

inductive shown_below :: "string list \<Rightarrow> backend_entity_type list \<Rightarrow> string \<Rightarrow> string \<Rightarrow> bool" for vs ets r where
  itself: "r \<in> set vs \<Longrightarrow> shown_below vs ets r r"
| below: "shown_below vs ets r p \<Longrightarrow> t \<in> set vs \<Longrightarrow> p \<in> set (canBeContainedBy ets t) \<Longrightarrow> shown_below vs ets r t"

text \<open>
  a view with types starts with some of its types (the search never starts with nothing); and if
  every cycle is left by following containing types that the view shows, every type of the view is a
  start or below one.
\<close>

theorem every_type_has_a_start:
  assumes "visibleTypes \<noteq> []"
    and "wf {(p, t). p \<in> set visibleTypes \<and> t \<in> set visibleTypes \<and> p \<in> set (canBeContainedBy ets t)}"
    and "rs = computeViewScopedRoots visibleTypes ets globalRoots"
  shows "rs \<noteq> [] \<and> set rs \<subseteq> set visibleTypes \<and> (\<forall>t \<in> set visibleTypes. \<exists>r \<in> set rs. shown_below visibleTypes ets r t)"
proof -
  let ?top = "\<lambda>t. list_all (\<lambda>p. p \<notin> set visibleTypes) (canBeContainedBy ets t)"
  have climb: "\<exists>r \<in> set (filter ?top visibleTypes). shown_below visibleTypes ets r t" if "t \<in> set visibleTypes" for t
    using assms(2) that
  proof (induction t rule: wf_induct_rule)
    case (less t)
    show ?case
    proof (cases "?top t")
      case True
      with less.prems show ?thesis by (intro bexI [of _ t] shown_below.itself) auto
    next
      case False
      then obtain p where p: "p \<in> set visibleTypes" "p \<in> set (canBeContainedBy ets t)" by (auto simp: list_all_iff)
      with less.IH [of p] less.prems obtain r where "r \<in> set (filter ?top visibleTypes)" "shown_below visibleTypes ets r p" by auto
      with p less.prems show ?thesis by (blast intro: shown_below.below)
    qed
  qed
  from assms(1) have "hd visibleTypes \<in> set visibleTypes" by simp
  from climb [OF this] have some: "filter ?top visibleTypes \<noteq> []" by (metis empty_iff list.set(1))
  with assms(1,3) have rs: "rs = filter ?top visibleTypes" by (simp only: computeViewScopedRoots_def Let_def if_False if_True not_False_eq_True)
  show ?thesis
  proof (intro conjI ballI)
    show "rs \<noteq> []" using some by (simp only: rs not_False_eq_True)
    show "set rs \<subseteq> set visibleTypes" by (auto simp: rs)
    show "\<exists>r \<in> set rs. shown_below visibleTypes ets r t" if "t \<in> set visibleTypes" for t using climb [OF that] by (simp only: rs)
  qed
qed

section \<open>Hydration\<close>

record hydration_provider =
  hp_byUrns :: "urn list \<Rightarrow> string option + trace_node list"
  hp_byTypes :: "string list \<Rightarrow> nat \<Rightarrow> string option + trace_node list"
  hp_getChildren :: "urn \<Rightarrow> nat \<Rightarrow> string option + trace_node list"
  hp_getEdgesBetween :: "urn list \<Rightarrow> string option + graph_edge list"

record hydration =
  hs_phase :: hydration_phase
  hs_error :: "string option"
  hs_canvas :: canvas

definition PER_TYPE_LIMIT :: nat where
  "PER_TYPE_LIMIT = 200"

text \<open>\<^verbatim>\<open>.catch(() => [])\<close>\<close>

definition caught :: "string option + 'a list \<Rightarrow> 'a list" where
  "caught r = (case r of Inl e \<Rightarrow> [] | Inr xs \<Rightarrow> xs)"

function batches :: "nat \<Rightarrow> 'a list \<Rightarrow> 'a list list" where
  "batches n xs = (if xs = [] \<or> n = 0 then [] else take n xs # batches n (drop n xs))"
  by pat_completeness auto
termination
  by (relation "measure (\<lambda>(n, xs). length xs)") auto

declare batches.simps [simp del]

definition enter :: "hydration_phase \<Rightarrow> hydration \<Rightarrow> hydration" where
  "enter p s = s\<lparr>hs_phase := p\<rparr>"

definition show_graph :: "trace_node list \<Rightarrow> graph_edge list \<Rightarrow> hydration \<Rightarrow> hydration" where
  "show_graph ns es s = s\<lparr>hs_canvas := setGraph (map toCanvasNode ns) (map toCanvasEdge es) (hs_canvas s)\<rparr>"

definition assigned_urns :: "layer list \<Rightarrow> urn list" where
  "assigned_urns ls =
     set_from (filter (\<lambda>u. u \<noteq> '''') (concat (map (\<lambda>l. map ac_entityId (nullish (ly_entityAssignments l) [])) ls)))"

definition has_children :: "trace_node \<Rightarrow> bool" where
  "has_children n \<longleftrightarrow> 0 < nullish (gn_childCount n) 0"

definition nodes_of_children :: "hydration_provider \<Rightarrow> trace_node list \<Rightarrow> trace_node list" where
  "nodes_of_children prov ps = concat (map (\<lambda>n. caught (hp_getChildren prov (gn_urn n) 100)) ps)"

definition unknown_to :: "trace_node list \<Rightarrow> trace_node list \<Rightarrow> trace_node list" where
  "unknown_to known ns = filter (\<lambda>n. gn_urn n \<notin> gn_urn ` set known) ns"

definition nodes_of_types :: "hydration_provider \<Rightarrow> string list \<Rightarrow> trace_node list" where
  "nodes_of_types prov ts = concat (map (\<lambda>t. caught (hp_byTypes prov [t] PER_TYPE_LIMIT)) ts)"

text \<open>The end of both strategies: the nodes, then their edges, then the phase.\<close>

definition finish_reference :: "hydration_provider \<Rightarrow> (nat \<Rightarrow> bool) \<Rightarrow> trace_node list \<Rightarrow> hydration \<Rightarrow> hydration" where
  "finish_reference prov alive allNodes s =
     (if allNodes = [] then s
      else (let s1 = enter PEdges (show_graph allNodes [] s)
            in if \<not> alive 3 then s1
               else enter PComplete (show_graph allNodes (caught (hp_getEdgesBetween prov (map gn_urn allNodes))) s1)))"

definition hydrate_reference ::
  "hydration_provider \<Rightarrow> (nat \<Rightarrow> bool) \<Rightarrow> layer list \<Rightarrow> string list \<Rightarrow> backend_entity_type list \<Rightarrow> string list \<Rightarrow> hydration \<Rightarrow> hydration" where
  "hydrate_reference prov alive viewLayers viewTypes ets rootEntityTypes s =
     (let assigned = assigned_urns viewLayers; s1 = enter PRoots s
      in if assigned \<noteq> [] then
           (let roots = concat (map (\<lambda>b. caught (hp_byUrns prov b)) (batches 100 assigned));
                parents = filter has_children roots; s2 = enter PChildren s1
            in if \<not> alive 1 then s1
               else if parents = [] then finish_reference prov alive roots s2
               else if \<not> alive 2 then s2
               else finish_reference prov alive (roots @ unknown_to roots (nodes_of_children prov parents)) s2)
         else
           (let rootTypes = computeViewScopedRoots viewTypes ets rootEntityTypes
            in if rootTypes = [] then s1
               else
                 (let roots = nodes_of_types prov rootTypes;
                      remaining = filter (\<lambda>t. t \<notin> gn_entityType ` set roots) viewTypes; s2 = enter PChildren s1
                  in if \<not> alive 1 \<or> roots = [] then s1
                     else if remaining = [] then finish_reference prov alive roots s2
                     else if \<not> alive 2 then s2
                     else finish_reference prov alive (roots @ nodes_of_types prov remaining) s2)))"

definition child_types :: "backend_entity_type list \<Rightarrow> string list \<Rightarrow> string list" where
  "child_types ets ts =
     set_from (concat (map (\<lambda>t. case find_first (\<lambda>e. be_id e = t) ets of None \<Rightarrow> [] | Some e \<Rightarrow> hd_canContain (be_hierarchy e)) ts))"

text \<open>The message of a rejection that names an unavailable provider is replaced.\<close>

definition unavailable :: string where
  "unavailable = ''The graph provider for this view is unavailable. The view definition is loaded but graph data cannot be displayed.''"

definition hydration_message :: "string option \<Rightarrow> string" where
  "hydration_message e =
     (let msg = nullish e ''Failed to load graph data''
      in if is_infix ''circuit'' msg \<or> is_infix ''timed out'' msg \<or> is_infix ''503'' msg then unavailable else msg)"

definition finish_hierarchy :: "hydration_provider \<Rightarrow> (nat \<Rightarrow> bool) \<Rightarrow> trace_node list \<Rightarrow> hydration \<Rightarrow> hydration" where
  "finish_hierarchy prov alive uniqueNodes s =
     (if uniqueNodes = [] then s
      else if \<not> alive 4 then enter PEdges s
      else enter PComplete (show_graph uniqueNodes (caught (hp_getEdgesBetween prov (map gn_urn uniqueNodes))) (enter PEdges s)))"

definition unique_nodes :: "trace_node list \<Rightarrow> trace_node list" where
  "unique_nodes ns = map snd (mfrom (map (\<lambda>n. (gn_urn n, n)) ns))"

definition hydrate_hierarchy ::
  "hydration_provider \<Rightarrow> (nat \<Rightarrow> bool) \<Rightarrow> backend_entity_type list \<Rightarrow> string list \<Rightarrow> hydration \<Rightarrow> hydration" where
  "hydrate_hierarchy prov alive ets rootEntityTypes s =
     (let typesToLoad = (if rootEntityTypes \<noteq> [] then rootEntityTypes else map be_id ets)
      in if typesToLoad = [] then s
         else (case hp_byTypes prov typesToLoad PER_TYPE_LIMIT of
                 Inl e \<Rightarrow> if alive 1 then (enter PRoots s)\<lparr>hs_error := Some (hydration_message e)\<rparr> else enter PRoots s
               | Inr roots \<Rightarrow>
                   if \<not> alive 1 \<or> roots = [] then enter PRoots s
                   else
                     (let s2 = enter PChildren (show_graph roots [] (enter PRoots s));
                          children = nodes_of_children prov roots; cts = child_types ets typesToLoad;
                          orphans = (if cts = [] then []
                            else unknown_to (roots @ children) (caught (hp_byTypes prov cts PER_TYPE_LIMIT)))
                      in if \<not> alive 2 \<or> (cts \<noteq> [] \<and> \<not> alive 3) then s2
                         else finish_hierarchy prov alive (unique_nodes (roots @ children @ orphans)) s2)))"

text \<open>The effect: it runs once per key, clears the canvas and the error, and its clean-up frees the key.\<close>

definition start_hydration :: "string option \<Rightarrow> string \<Rightarrow> hydration \<Rightarrow> (string option \<times> hydration) option" where
  "start_hydration initialized initKey s =
     (if initialized = Some initKey then None
      else Some (Some initKey, s\<lparr>hs_canvas := setGraph [] [] (hs_canvas s), hs_error := None\<rparr>))"

definition clean_up_hydration :: "string option \<Rightarrow> string \<Rightarrow> string option" where
  "clean_up_hydration initialized initKey = (if initialized = Some initKey then None else initialized)"

section \<open>What a hydration leaves\<close>

lemma batches_cover: "0 < n \<Longrightarrow> concat (batches n xs) = xs \<and> (\<forall>b \<in> set (batches n xs). b \<noteq> [] \<and> length b \<le> n)"
proof (induction n xs rule: batches.induct)
  case (1 n xs)
  then show ?case by (cases "xs = []") (simp_all add: batches.simps [of n xs] batches.simps [of n "[]"])
qed

lemma show_graph_simps [simp]:
  "hs_phase (show_graph ns es s) = hs_phase s" "hs_error (show_graph ns es s) = hs_error s"
  "canvas_wf (hs_canvas (show_graph ns es s))"
  "nodes (hs_canvas (show_graph ns es s)) = [] \<longleftrightarrow> ns = []"
  "edges (hs_canvas (show_graph ns [] s)) = []"
proof -
  have "dedup_by node_id {} (map toCanvasNode ns) = [] \<longleftrightarrow> ns = []" by (cases ns) simp_all
  then show "nodes (hs_canvas (show_graph ns es s)) = [] \<longleftrightarrow> ns = []" by (simp add: show_graph_def setGraph_def Let_def)
  show "edges (hs_canvas (show_graph ns [] s)) = []" by (simp add: show_graph_def setGraph_def Let_def)
qed (simp_all add: show_graph_def canvas_wf_setGraph)

lemma enter_simps [simp]: "hs_phase (enter p s) = p" "hs_error (enter p s) = hs_error s" "hs_canvas (enter p s) = hs_canvas s"
  by (simp_all add: enter_def)

definition fresh_start :: "hydration \<Rightarrow> bool" where
  "fresh_start s \<longleftrightarrow> canvas_wf (hs_canvas s) \<and> nodes (hs_canvas s) = [] \<and> edges (hs_canvas s) = [] \<and> hs_phase s \<noteq> PComplete \<and> hs_error s = None"

text \<open>Complete exactly with nodes if the last answer was awaited; without it, no edges and not complete.\<close>

definition outcome_ok :: "bool \<Rightarrow> hydration \<Rightarrow> bool" where
  "outcome_ok all_awaited s \<longleftrightarrow> canvas_wf (hs_canvas s)
     \<and> (if all_awaited then hs_phase s = PComplete \<longleftrightarrow> nodes (hs_canvas s) \<noteq> [] else hs_phase s \<noteq> PComplete \<and> edges (hs_canvas s) = [])"

lemma outcome_fresh: "fresh_start s \<Longrightarrow> p \<noteq> PComplete \<Longrightarrow> outcome_ok b (enter p s)"
  by (simp add: fresh_start_def outcome_ok_def)

lemma fresh_enter: "fresh_start s \<Longrightarrow> p \<noteq> PComplete \<Longrightarrow> fresh_start (enter p s)"
  by (simp add: fresh_start_def)

lemma outcome_reference_end: "fresh_start s \<Longrightarrow> outcome_ok (alive 3) (finish_reference prov alive ns s) \<and> hs_error (finish_reference prov alive ns s) = None"
  by (auto simp: finish_reference_def fresh_start_def outcome_ok_def Let_def)

lemma outcome_stop: "fresh_start s \<Longrightarrow> p \<noteq> PComplete \<Longrightarrow> outcome_ok b (enter p s) \<and> hs_error (enter p s) = None"
  by (simp add: fresh_start_def outcome_ok_def)

lemma reference_cases:
  assumes "P (enter PRoots s)" and "P (enter PChildren (enter PRoots s))"
    and "\<And>ns. P (finish_reference prov alive ns (enter PChildren (enter PRoots s)))"
  shows "P (hydrate_reference prov alive ls vts ets roots s)"
  unfolding hydrate_reference_def Let_def using assms by (simp only: if_split simp_thms)

lemma outcome_reference:
  assumes "fresh_start s"
  shows "outcome_ok (alive 3) (hydrate_reference prov alive ls vts ets roots s) \<and> hs_error (hydrate_reference prov alive ls vts ets roots s) = None"
proof (rule reference_cases [where P = "\<lambda>x. outcome_ok (alive 3) x \<and> hs_error x = None"])
  have start: "fresh_start (enter PRoots s)" "fresh_start (enter PChildren (enter PRoots s))" using assms by (simp_all add: fresh_enter)
  then show "outcome_ok (alive 3) (enter PRoots s) \<and> hs_error (enter PRoots s) = None"
    "outcome_ok (alive 3) (enter PChildren (enter PRoots s)) \<and> hs_error (enter PChildren (enter PRoots s)) = None"
    using assms by (simp_all add: fresh_start_def outcome_ok_def)
  show "outcome_ok (alive 3) (finish_reference prov alive ns (enter PChildren (enter PRoots s)))
      \<and> hs_error (finish_reference prov alive ns (enter PChildren (enter PRoots s))) = None" for ns
    by (rule outcome_reference_end [OF start(2)])
qed

lemma unique_nodes_empty [simp]: "unique_nodes ns = [] \<longleftrightarrow> ns = []"
proof (cases ns rule: rev_cases)
  case (snoc ys y)
  then have "mget (mfrom (map (\<lambda>n. (gn_urn n, n)) ns)) (gn_urn y) \<noteq> None" by (auto simp: mget_mfrom)
  then show ?thesis using snoc by (auto simp: unique_nodes_def)
qed (simp add: mfrom_def unique_nodes_def)

text \<open>After the roots are shown the canvas is not empty, so the end of a run that was not aborted completes.\<close>

lemma outcome_hierarchy_end:
  assumes "fresh_start s" and "roots \<noteq> []" and "ns \<noteq> []" and "s2 = enter PChildren (show_graph roots [] (enter PRoots s))"
  shows "outcome_ok (alive 4) (finish_hierarchy prov alive ns s2) \<and> hs_error (finish_hierarchy prov alive ns s2) = None"
  using assms by (simp add: finish_hierarchy_def fresh_start_def outcome_ok_def)

lemma outcome_hierarchy_cut:
  assumes "fresh_start s" and "s2 = enter PChildren (show_graph roots [] (enter PRoots s))"
  shows "outcome_ok False s2 \<and> hs_error s2 = None"
  using assms by (simp add: fresh_start_def outcome_ok_def)

lemma hierarchy_roots_cases:
  assumes "ts = (if rootTypes \<noteq> [] then rootTypes else map be_id ets)" and "ts \<noteq> []"
    and "hp_byTypes prov ts PER_TYPE_LIMIT = Inr roots" and "s2 = enter PChildren (show_graph roots [] (enter PRoots s))"
    and "alive 4 \<Longrightarrow> alive 2 \<and> alive 3" and h: "h = hydrate_hierarchy prov alive ets rootTypes s"
  obtains (stop) "h = enter PRoots s" | (cut) "\<not> alive 4" "h = s2"
    | (on) ns where "roots \<noteq> []" "ns \<noteq> []" "h = finish_hierarchy prov alive ns s2"
proof -
  define children where "children = nodes_of_children prov roots"
  define cts where "cts = child_types ets ts"
  define orphans where "orphans = (if cts = [] then [] else unknown_to (roots @ children) (caught (hp_byTypes prov cts PER_TYPE_LIMIT)))"
  let ?stop = "\<not> alive 1 \<or> roots = []" and ?cut = "\<not> alive 2 \<or> (cts \<noteq> [] \<and> \<not> alive 3)"
  have h: "h = (if ?stop then enter PRoots s else if ?cut then s2 else finish_hierarchy prov alive (unique_nodes (roots @ children @ orphans)) s2)"
    unfolding h hydrate_hierarchy_def assms(1) [symmetric] Let_def assms(4) children_def orphans_def cts_def
    by (simp only: if_False assms(2,3) sum.case)
  show thesis
  proof (cases ?stop)
    case True
    with h stop show ?thesis by (simp only: if_True)
  next
    case roots: False
    show ?thesis
    proof (cases ?cut)
      case True
      with roots h assms(5) cut show ?thesis by (auto simp only: if_True if_False)
    next
      case False
      with roots h have "h = finish_hierarchy prov alive (unique_nodes (roots @ children @ orphans)) s2" by (simp only: if_False)
      with roots on [where ns = "unique_nodes (roots @ children @ orphans)"] show ?thesis by simp
    qed
  qed
qed

definition types_to_load :: "backend_entity_type list \<Rightarrow> string list \<Rightarrow> string list" where
  "types_to_load ets rootTypes = (if rootTypes \<noteq> [] then rootTypes else map be_id ets)"

text \<open>The message of the only request of the hierarchy view whose rejection is not replaced by an empty list.\<close>

definition reported :: "hydration_provider \<Rightarrow> (nat \<Rightarrow> bool) \<Rightarrow> string list \<Rightarrow> string option" where
  "reported prov alive ts =
     (if ts = [] then None
      else case hp_byTypes prov ts PER_TYPE_LIMIT of Inl e \<Rightarrow> if alive 1 then Some (hydration_message e) else None | Inr _ \<Rightarrow> None)"

lemma outcome_hierarchy:
  assumes fresh: "fresh_start s" and alive: "alive 4 \<Longrightarrow> alive 2 \<and> alive 3"
  shows "outcome_ok (alive 4) (hydrate_hierarchy prov alive ets rootTypes s)
    \<and> hs_error (hydrate_hierarchy prov alive ets rootTypes s) = reported prov alive (types_to_load ets rootTypes)"
proof -
  define ts where "ts = (if rootTypes \<noteq> [] then rootTypes else map be_id ets)"
  define h where "h = hydrate_hierarchy prov alive ets rootTypes s"
  have "outcome_ok (alive 4) h \<and> hs_error h = reported prov alive ts"
  proof (cases "ts = []")
    case True
    then have "h = s" unfolding h_def hydrate_hierarchy_def ts_def Let_def by (simp only: if_True simp_thms)
    with True fresh show ?thesis by (simp add: fresh_start_def outcome_ok_def reported_def)
  next
    case ts: False
    show ?thesis
    proof (cases "hp_byTypes prov ts PER_TYPE_LIMIT")
      case (Inl e)
      then have "h = (if alive 1 then (enter PRoots s)\<lparr>hs_error := Some (hydration_message e)\<rparr> else enter PRoots s)"
        using ts unfolding h_def hydrate_hierarchy_def ts_def [symmetric] Let_def by (simp only: if_False sum.case)
      with Inl ts fresh show ?thesis by (simp add: fresh_start_def outcome_ok_def reported_def)
    next
      case (Inr roots)
      with ts have "reported prov alive ts = None" by (simp add: reported_def)
      moreover have "outcome_ok (alive 4) h \<and> hs_error h = None"
      proof (rule hierarchy_roots_cases [OF ts_def ts Inr refl alive h_def])
        assume "h = enter PRoots s"
        then show ?thesis using outcome_stop [OF fresh, of PRoots] by simp
      next
        assume "\<not> alive 4" "h = enter PChildren (show_graph roots [] (enter PRoots s))"
        then show ?thesis using outcome_hierarchy_cut [OF fresh refl] by simp
      next
        fix ns
        assume "roots \<noteq> []" "ns \<noteq> []" "h = finish_hierarchy prov alive ns (enter PChildren (show_graph roots [] (enter PRoots s)))"
        then show ?thesis using outcome_hierarchy_end [OF fresh _ _ refl] by simp
      qed auto
      ultimately show ?thesis by simp
    qed
  qed
  then show ?thesis by (simp add: h_def ts_def types_to_load_def)
qed

text \<open>Whatever the phase was, a run that has anything to load enters the first phase before anything else.\<close>

lemma enter_enter [simp]: "enter p (enter q s) = enter p s"
  by (simp add: enter_def)

lemma reference_enters: "hydrate_reference prov alive ls vts ets roots s = hydrate_reference prov alive ls vts ets roots (enter PRoots s)"
  by (simp only: hydrate_reference_def enter_enter)

lemma hierarchy_enters:
  assumes "types_to_load ets rootTypes \<noteq> []"
  shows "hydrate_hierarchy prov alive ets rootTypes s = hydrate_hierarchy prov alive ets rootTypes (enter PRoots s)"
  using assms by (simp only: hydrate_hierarchy_def types_to_load_def [symmetric] Let_def enter_enter if_False)

lemma hierarchy_without_types: "types_to_load ets rootTypes = [] \<Longrightarrow> hydrate_hierarchy prov alive ets rootTypes s = s"
  by (simp only: hydrate_hierarchy_def types_to_load_def [symmetric] Let_def if_True simp_thms)

lemma started_fresh:
  assumes "start_hydration initialized initKey s0 = Some (key, s)"
  shows "fresh_start (enter PRoots s) \<and> hs_error s = None \<and> canvas_wf (hs_canvas s) \<and> nodes (hs_canvas s) = [] \<and> edges (hs_canvas s) = []
    \<and> hs_phase s = hs_phase s0"
  using assms canvas_wf_setGraph [of "[]" "[]" "hs_canvas s0"]
  by (auto simp: start_hydration_def fresh_start_def setGraph_def Let_def split: if_splits)

text \<open>
  C30: a hydration that the effect starts, whatever the canvas and the phase were, leaves a well-formed graph. If
  a hierarchy view has no types to load, the run ends at once: the canvas is the cleared one and the phase
  stays what it was, complete if the run before was. In every other run that was not aborted the phase is
  complete exactly when there is something to see; an aborted one shows no edges and is not complete. (Once a
  run is aborted it stays so.) The hierarchy view reports an error exactly if the request for the roots is
  rejected before an abort; the reference view never reports one, not even when the provider is unavailable,
  other than the comment at \<^verbatim>\<open>hydrationError\<close> says (lemma \<open>reference_outage_is_silent\<close>).
\<close>

theorem hydration_outcome:
  assumes "start_hydration initialized initKey s0 = Some (key, s)" and "alive 4 \<Longrightarrow> alive 2 \<and> alive 3"
    and "r = hydrate_reference prov alive viewLayers viewTypes ets rootTypes s" and "h = hydrate_hierarchy prov alive ets rootTypes s"
  shows "canvas_wf (hs_canvas r) \<and> canvas_wf (hs_canvas h)
    \<and> (if alive 3 then hs_phase r = PComplete \<longleftrightarrow> nodes (hs_canvas r) \<noteq> [] else hs_phase r \<noteq> PComplete \<and> edges (hs_canvas r) = [])
    \<and> (if types_to_load ets rootTypes = [] then hs_phase h = hs_phase s0 \<and> nodes (hs_canvas h) = [] \<and> edges (hs_canvas h) = []
       else if alive 4 then hs_phase h = PComplete \<longleftrightarrow> nodes (hs_canvas h) \<noteq> [] else hs_phase h \<noteq> PComplete \<and> edges (hs_canvas h) = [])
    \<and> hs_error r = None
    \<and> hs_error h = (case types_to_load ets rootTypes of [] \<Rightarrow> None
         | ts \<Rightarrow> (case hp_byTypes prov (types_to_load ets rootTypes) PER_TYPE_LIMIT of
                    Inl e \<Rightarrow> if alive 1 then Some (hydration_message e) else None | Inr _ \<Rightarrow> None))"
proof -
  note start = started_fresh [OF assms(1)]
  have fresh: "fresh_start (enter PRoots s)" using start by blast
  have r: "outcome_ok (alive 3) r \<and> hs_error r = None" unfolding assms(3) by (subst (1 2) reference_enters) (rule outcome_reference [OF fresh])
  have h: "outcome_ok (alive 4) h \<and> hs_error h = reported prov alive (types_to_load ets rootTypes)" if "types_to_load ets rootTypes \<noteq> []"
    unfolding assms(4) by (subst (1 2) hierarchy_enters [OF that]) (rule outcome_hierarchy [OF fresh assms(2)])
  show ?thesis
  proof (cases "types_to_load ets rootTypes")
    case Nil
    then have "h = s" unfolding assms(4) by (rule hierarchy_without_types)
    with Nil r start show ?thesis by (simp add: outcome_ok_def)
  next
    case (Cons t ts)
    with r h show ?thesis by (simp add: outcome_ok_def reported_def)
  qed
qed

text \<open>A view that is hydrated again without types stays complete, with nothing to see.\<close>

lemma empty_view_stays_complete:
  "map_option (\<lambda>(key, s). let h = hydrate_hierarchy prov alive [] [] s in (hs_phase h, nodes (hs_canvas h)))
     (start_hydration None initKey \<lparr>hs_phase = PComplete, hs_error = None, hs_canvas = initial_canvas\<rparr>) = Some (PComplete, [])"
  by (simp add: start_hydration_def hydrate_hierarchy_def setGraph_def)

text \<open>A reference view whose requests are all rejected shows nothing, reports nothing and stays in its second phase.\<close>

lemma reference_outage_is_silent:
  assumes "assigned_urns ls \<noteq> []" and "\<And>b. \<exists>e. hp_byUrns prov b = Inl e" and "alive 1"
  shows "hydrate_reference prov alive ls vts ets roots s = enter PChildren (enter PRoots s)"
proof -
  have "(case hp_byUrns prov b of Inl e \<Rightarrow> [] | Inr xs \<Rightarrow> xs) = []" for b using assms(2) [of b] by auto
  then have "concat (map (\<lambda>b. caught (hp_byUrns prov b)) bs) = []" for bs by (simp add: caught_def)
  with assms(1,3) show ?thesis
    unfolding hydrate_reference_def Let_def finish_reference_def
    by (simp only: if_True if_False simp_thms filter.simps)
qed

section \<open>Witnesses\<close>

definition sample_type :: "ident \<Rightarrow> string list \<Rightarrow> backend_entity_type" where
  "sample_type i parents =
     \<lparr>be_id = i, be_name = i, be_pluralName = i, be_description = None,
      be_visual = \<lparr>vd_icon = '''', vd_color = '''', vd_shape = '''', vd_size = '''', vd_borderStyle = '''', vd_showInMinimap = True\<rparr>, be_fields = [],
      be_hierarchy = \<lparr>hd_level = 0, hd_canContain = [], hd_canBeContainedBy = parents, hd_defaultExpanded = False\<rparr>,
      be_behavior = \<lparr>bd_selectable = True, bd_draggable = False, bd_expandable = True, bd_traceable = True, bd_clickAction = '''', bd_doubleClickAction = ''''\<rparr>\<rparr>"

lemma every_type_has_a_start_witness:
  "\<exists>r. r \<in> set (computeViewScopedRoots [''table'', ''domain''] [sample_type ''table'' [''domain'']] [])
     \<and> shown_below [''table'', ''domain''] [sample_type ''table'' [''domain'']] r ''table''"
proof -
  let ?vs = "[''table'', ''domain'']" and ?ets = "[sample_type ''table'' [''domain'']]"
  have "{(p, t). p \<in> set ?vs \<and> t \<in> set ?vs \<and> p \<in> set (canBeContainedBy ?ets t)} \<subseteq> measure (\<lambda>t. if t = ''table'' then 1 else 0)"
    by (auto simp: canBeContainedBy_def sample_type_def split: if_splits)
  then have "wf {(p, t). p \<in> set ?vs \<and> t \<in> set ?vs \<and> p \<in> set (canBeContainedBy ?ets t)}" by (rule wf_subset [OF wf_measure])
  from every_type_has_a_start [OF _ this refl, of "[]"] show ?thesis by (auto simp only: list.simps insert_iff)
qed

text \<open>One domain is there; the request for what it contains times out.\<close>

definition sample_provider :: hydration_provider where
  "sample_provider =
     \<lparr>hp_byUrns = \<lambda>us. Inr (map sample_node us),
      hp_byTypes = \<lambda>ts l. if ts = [''domain''] then Inr [sample_node ''d''] else Inl (Some ''circuit open''),
      hp_getChildren = \<lambda>u l. Inl (Some ''timed out''), hp_getEdgesBetween = \<lambda>us. Inr []\<rparr>"

lemma hydration_outcome_witness:
  "hs_error (hydrate_hierarchy sample_provider (\<lambda>k. True) [] [''table''] \<lparr>hs_phase = PComplete, hs_error = None, hs_canvas = setGraph [] [] initial_canvas\<rparr>) = Some unavailable
   \<and> canvas_wf (hs_canvas (hydrate_reference sample_provider (\<lambda>k. k < 3) [] [''domain''] [] [] \<lparr>hs_phase = PComplete, hs_error = None, hs_canvas = setGraph [] [] initial_canvas\<rparr>))"
proof -
  have msg: "hydration_message (Some ''circuit open'') = unavailable" by code_simp
  let ?old = "\<lparr>hs_phase = PComplete, hs_error = Some ''before'', hs_canvas = initial_canvas\<rparr>"
  let ?s = "\<lparr>hs_phase = PComplete, hs_error = None, hs_canvas = setGraph [] [] initial_canvas\<rparr>"
  have start: "start_hydration None ''1:v:graph'' ?old = Some (Some ''1:v:graph'', ?s)" by (simp add: start_hydration_def)
  have ts: "types_to_load [] [''table''] = [''table'']"
    and no: "hp_byTypes sample_provider [''table''] PER_TYPE_LIMIT = Inl (Some ''circuit open'')"
    by (simp_all add: types_to_load_def sample_provider_def)
  have "hs_error (hydrate_hierarchy sample_provider (\<lambda>k. True) [] [''table''] ?s) = Some unavailable"
    using hydration_outcome [OF start _ refl refl, where alive = "\<lambda>k. True" and prov = sample_provider and rootTypes = "[''table'']" and ets = "[]"]
    by (simp only: ts no list.case sum.case msg if_True simp_thms)
  moreover have "canvas_wf (hs_canvas (hydrate_reference sample_provider (\<lambda>k. k < 3) [] [''domain''] [] [] ?s))"
    by (rule conjunct1 [OF hydration_outcome [OF start _ refl refl, where alive = "\<lambda>k. k < 3"]]) simp
  ultimately show ?thesis by simp
qed

end
