(* ===== verification/Child_Loading.thy ===== *)
theory Child_Loading
  imports Bounded_Queue Trace_Canvas
begin

text \<open>
  Loading on demand into the canvas (\<^verbatim>\<open>hooks/useGraphHydration.ts\<close>, second half): the roots, the children of a
  node and the search among them. A load is a task of the bounded queue; the task runs up to its request
  when the queue starts it and goes on when the answer comes, with the canvas of that moment. A failure
  carries nothing, the code only logs it.
\<close>

section \<open>Tasks\<close>

record children_answer =
  ca_children :: "trace_node list"
  ca_containmentEdges :: "graph_edge list"
  ca_lineageEdges :: "graph_edge list"

text \<open>A task with what it closes over: the parent's URN and the offset are read when it is submitted.\<close>

datatype load_task =
    Roots "string list"
  | Root_Edges "trace_node list"
  | Children ident urn nat
  | Search ident string

datatype load_answer = Nodes_Answer "trace_node list" | Edges_Answer "graph_edge list" | Children_Answer children_answer | Failure

record loading =
  hy_queue :: bqueue
  hy_tasks :: "(nat, load_task) jsmap"
  hy_loading :: "ident set"
  hy_failed :: "ident set"
  hy_rootsAttempted :: "string option"
  hy_canvas :: canvas

definition CHILD_LOAD_CONCURRENCY :: "rat option \<Rightarrow> int" where
  "CHILD_LOAD_CONCURRENCY fromEnv = (case fromEnv of Some n \<Rightarrow> if 1 \<le> n then \<lceil>n\<rceil> else 6 | None \<Rightarrow> 6)"

definition new_loading :: "int \<Rightarrow> canvas \<Rightarrow> loading" where
  "new_loading limit c =
     \<lparr>hy_queue = new_queue limit, hy_tasks = [], hy_loading = {}, hy_failed = {}, hy_rootsAttempted = None, hy_canvas = c\<rparr>"

text \<open>What a task does before its request.\<close>

fun spinner_of :: "load_task \<Rightarrow> ident" where
  "spinner_of (Roots ts) = ''ROOT''"
| "spinner_of (Root_Edges ns) = ''ROOT''"
| "spinner_of (Children p u n) = p"
| "spinner_of (Search p q) = p"

fun start_task :: "load_task \<Rightarrow> loading \<Rightarrow> loading" where
  "start_task (Children p u n) s = s\<lparr>hy_failed := hy_failed s - {p}, hy_loading := insert p (hy_loading s)\<rparr>"
| "start_task t s = s\<lparr>hy_loading := insert (spinner_of t) (hy_loading s)\<rparr>"

definition start_entry_of :: "bq_entry \<Rightarrow> loading \<Rightarrow> loading" where
  "start_entry_of e s = (case mget (hy_tasks s) (e_id e) of None \<Rightarrow> s | Some t \<Rightarrow> start_task t s)"

text \<open>The queue moved on to \<open>q\<close>: the tasks it started run up to their requests.\<close>

definition move_queue :: "bqueue \<Rightarrow> loading \<Rightarrow> loading" where
  "move_queue q s =
     fold start_entry_of (filter (\<lambda>e. e \<notin> set (bq_running (hy_queue s))) (bq_running q)) (s\<lparr>hy_queue := q\<rparr>)"

definition submit_task :: "string \<Rightarrow> load_task \<Rightarrow> loading \<Rightarrow> loading" where
  "submit_task key t s =
     (let fresh = (mget (bq_inflight (hy_queue s)) key = None); q = snd (submit key False (hy_queue s))
      in if fresh then move_queue q (s\<lparr>hy_tasks := mset_key (bq_next (hy_queue s)) t (hy_tasks s)\<rparr>) else s)"

section \<open>Loading\<close>

definition num_field :: "jsobj \<Rightarrow> string \<Rightarrow> rat option" where
  "num_field d f = (case mget d f of Some (JNum n) \<Rightarrow> Some n | _ \<Rightarrow> None)"

definition child_count :: "lineage_node \<Rightarrow> rat" where
  "child_count n =
     nullish (num_field (node_data n) ''childCount'')
       (nullish (case mget (node_data n) ''metadata'' of Some (JObj m) \<Rightarrow> num_field m ''childCount'' | _ \<Rightarrow> None) 0)"

definition loaded_children :: "string list \<Rightarrow> ident \<Rightarrow> canvas \<Rightarrow> nat" where
  "loaded_children containmentTypes p c =
     length (filter (\<lambda>e. edge_source e = p \<and> edge_target e \<in> node_id ` set (nodes c)
         \<and> isContainmentEdgeType (normalizeEdgeType e) containmentTypes) (edges c))"

definition roots_key :: "string list \<Rightarrow> string" where
  "roots_key ts = ''all:'' @ join_with (CHR '','') ts"

definition loadRoots :: "string list \<Rightarrow> bool \<Rightarrow> loading \<Rightarrow> loading" where
  "loadRoots rootEntityTypes isSchemaReady s =
     (if ''ROOT'' \<in> hy_loading s \<or> \<not> isSchemaReady \<or> rootEntityTypes = [] \<or> hy_rootsAttempted s = Some (roots_key rootEntityTypes) then s
      else submit_task ''ROOT'' (Roots rootEntityTypes) (s\<lparr>hy_rootsAttempted := Some (roots_key rootEntityTypes)\<rparr>))"

definition loadChildren :: "string list \<Rightarrow> string list \<Rightarrow> bool \<Rightarrow> ident \<Rightarrow> loading \<Rightarrow> loading" where
  "loadChildren rootEntityTypes containmentTypes isSchemaReady p s =
     (if p = '''' then loadRoots rootEntityTypes isSchemaReady s
      else (case find_first (\<lambda>n. node_id n = p) (nodes (hy_canvas s)) of
              None \<Rightarrow> s
            | Some n \<Rightarrow>
                (let count = child_count n; have = loaded_children containmentTypes p (hy_canvas s)
                 in if p \<in> hy_loading s \<or> count = 0 \<or> (count \<le> rat_of_nat have \<and> 0 < count) then s
                    else submit_task p (Children p (str_or (str_field (node_data n) ''urn'') p) have) s)))"

definition searchChildren :: "ident \<Rightarrow> string \<Rightarrow> loading \<Rightarrow> loading" where
  "searchChildren p query s = (if trim query = '''' then s else submit_task (''search:'' @ p) (Search p query) s)"

definition cancelChildLoad :: "ident \<Rightarrow> loading \<Rightarrow> loading" where
  "cancelChildLoad p s = move_queue (cancel p (hy_queue s)) s"

definition provider_changed :: "loading \<Rightarrow> loading" where
  "provider_changed s = move_queue (cancelAll (hy_queue s)) (s\<lparr>hy_rootsAttempted := None\<rparr>)"

section \<open>Answers\<close>

text \<open>The children that are not on the canvas yet, the first of each id.\<close>

definition new_children :: "ident set \<Rightarrow> trace_node list \<Rightarrow> lineage_node list" where
  "new_children known cs = dedup_by node_id known (map toCanvasNode cs)"

definition answer_edges :: "children_answer \<Rightarrow> lineage_edge list" where
  "answer_edges a = map toCanvasEdge (ca_containmentEdges a @ ca_lineageEdges a)"

definition finish_children :: "children_answer \<Rightarrow> canvas \<Rightarrow> canvas" where
  "finish_children a c =
     (if ca_children a = [] then c
      else addGraph (new_children (node_id ` set (nodes c)) (ca_children a)) (answer_edges a) c)"

definition search_removes :: "ident \<Rightarrow> canvas \<Rightarrow> ident list" where
  "search_removes p c =
     (let targets = set_from (map edge_target (filter (\<lambda>e. edge_source e = p) (edges c)));
          keep = edge_target ` set (filter (\<lambda>e. edge_source e \<noteq> p) (edges c))
      in filter (\<lambda>i. i \<notin> keep) targets)"

definition finish_search :: "ident \<Rightarrow> children_answer \<Rightarrow> canvas \<Rightarrow> canvas" where
  "finish_search p a c =
     (let gone = search_removes p c;
          edgeIds = map edge_id (filter (\<lambda>e. edge_source e = p) (edges c));
          c1 = (if gone = [] then c else removeNodes gone c);
          c2 = (if edgeIds = [] then c1 else removeEdges edgeIds c1)
      in if ca_children a = [] then c2
         else addGraph (new_children (node_id ` set (nodes c) - set gone) (ca_children a)) (answer_edges a) c2)"

text \<open>The \<^verbatim>\<open>finally\<close> of a task, and the slot it leaves to the next.\<close>

definition end_task :: "nat \<Rightarrow> load_task \<Rightarrow> loading \<Rightarrow> loading" where
  "end_task i t s =
     (let s1 = s\<lparr>hy_loading := hy_loading s - {spinner_of t}\<rparr> in move_queue (settle i Resolved (hy_queue s1)) s1)"

definition finish_task :: "nat \<Rightarrow> load_task \<Rightarrow> bool \<Rightarrow> load_answer \<Rightarrow> loading \<Rightarrow> loading" where
  "finish_task i t aborted a s =
     (case (t, a) of
        (Roots ts, Nodes_Answer ns) \<Rightarrow>
          if aborted \<or> ns = [] then end_task i t s else s\<lparr>hy_tasks := mset_key i (Root_Edges ns) (hy_tasks s)\<rparr>
      | (Roots ts, Failure) \<Rightarrow> end_task i t s
      | (Root_Edges ns, Edges_Answer es) \<Rightarrow>
          end_task i t (if aborted then s else s\<lparr>hy_canvas := addGraph (map toCanvasNode ns) (map toCanvasEdge es) (hy_canvas s)\<rparr>)
      | (Root_Edges ns, Failure) \<Rightarrow>
          end_task i t (if aborted then s else s\<lparr>hy_canvas := addGraph (map toCanvasNode ns) [] (hy_canvas s)\<rparr>)
      | (Children p u n, Children_Answer ca) \<Rightarrow>
          end_task i t (if aborted then s else s\<lparr>hy_canvas := finish_children ca (hy_canvas s)\<rparr>)
      | (Children p u n, Failure) \<Rightarrow> end_task i t (s\<lparr>hy_failed := insert p (hy_failed s)\<rparr>)
      | (Search p query, Children_Answer ca) \<Rightarrow>
          end_task i t (if aborted then s else s\<lparr>hy_canvas := finish_search p ca (hy_canvas s)\<rparr>)
      | (Search p query, Failure) \<Rightarrow> end_task i t s
      | _ \<Rightarrow> s)"

definition answer_task :: "nat \<Rightarrow> load_answer \<Rightarrow> loading \<Rightarrow> loading" where
  "answer_task i a s =
     (if list_ex (\<lambda>e. e_id e = i) (bq_running (hy_queue s))
      then (case mget (hy_tasks s) i of
              None \<Rightarrow> s
            | Some t \<Rightarrow> finish_task i t (i \<in> set (bq_aborted (hy_queue s))) a s)
      else s)"

datatype load_event =
    Load "string list" "string list" bool ident
  | Search_Children ident string
  | Cancel_Load ident
  | Provider_Changed
  | Task_Answer nat load_answer

fun load_step :: "load_event \<Rightarrow> loading \<Rightarrow> loading" where
  "load_step (Load roots cts ready p) s = loadChildren roots cts ready p s"
| "load_step (Search_Children p q) s = searchChildren p q s"
| "load_step (Cancel_Load p) s = cancelChildLoad p s"
| "load_step Provider_Changed s = provider_changed s"
| "load_step (Task_Answer i a) s = answer_task i a s"

section \<open>The queue behind the loads\<close>

lemma start_task_simps [simp]:
  "hy_queue (start_task t s) = hy_queue s" "hy_tasks (start_task t s) = hy_tasks s" "hy_canvas (start_task t s) = hy_canvas s"
  "hy_rootsAttempted (start_task t s) = hy_rootsAttempted s" "hy_loading (start_task t s) = insert (spinner_of t) (hy_loading s)"
  by (cases t; simp)+

lemma start_entry_of_simps [simp]:
  "hy_queue (start_entry_of e s) = hy_queue s" "hy_tasks (start_entry_of e s) = hy_tasks s" "hy_canvas (start_entry_of e s) = hy_canvas s"
  "hy_rootsAttempted (start_entry_of e s) = hy_rootsAttempted s"
  "hy_loading (start_entry_of e s) = hy_loading s \<union> (case mget (hy_tasks s) (e_id e) of None \<Rightarrow> {} | Some t \<Rightarrow> {spinner_of t})"
  by (auto simp: start_entry_of_def split: option.split)

lemma fold_start [simp]:
  "hy_queue (fold start_entry_of es s) = hy_queue s" "hy_tasks (fold start_entry_of es s) = hy_tasks s"
  "hy_canvas (fold start_entry_of es s) = hy_canvas s"
  "hy_loading (fold start_entry_of es s) = hy_loading s \<union> {spinner_of t |e t. e \<in> set es \<and> mget (hy_tasks s) (e_id e) = Some t}"
  by (induction es arbitrary: s) (auto split: option.splits)

lemma move_queue_simps [simp]:
  "hy_queue (move_queue q s) = q" "hy_tasks (move_queue q s) = hy_tasks s" "hy_canvas (move_queue q s) = hy_canvas s"
  "hy_loading (move_queue q s) = hy_loading s \<union>
     {spinner_of t |e t. e \<in> set (bq_running q) \<and> e \<notin> set (bq_running (hy_queue s)) \<and> mget (hy_tasks s) (e_id e) = Some t}"
  by (auto simp: move_queue_def)

definition tasked :: "loading \<Rightarrow> bool" where
  "tasked s \<longleftrightarrow> (\<forall>e \<in> set (live (hy_queue s)). mget (hy_tasks s) (e_id e) \<noteq> None)"

definition spinning :: "loading \<Rightarrow> bool" where
  "spinning s \<longleftrightarrow> (\<forall>p \<in> hy_loading s. \<exists>e t. e \<in> set (bq_running (hy_queue s)) \<and> mget (hy_tasks s) (e_id e) = Some t \<and> spinner_of t = p)"

definition loading_ok :: "loading \<Rightarrow> bool" where
  "loading_ok s \<longleftrightarrow> bq_ok (hy_queue s) \<and> tasked s \<and> spinning s"

lemma running_of: "bq_ok q \<Longrightarrow> bq_running q = take (bq_limit q) (live q)"
  by (simp add: bq_ok_def running_take)

lemma submit_live:
  assumes "bq_ok q" and "mget (bq_inflight q) key = None" and "q' = snd (submit key False q)"
  shows "bq_ok q'" and "live q' = live q @ [\<lparr>e_key = key, e_id = bq_next q, e_throws = False\<rparr>]"
    and "set (bq_running q) \<subseteq> set (bq_running q')" and "bq_limit q' = bq_limit q"
proof -
  have step: "q' = bq_step (Submit key False) q" using assms(3) by simp
  show ok: "bq_ok q'" unfolding step using bq_async_step [OF assms(1), of "Submit key False"] by simp
  have "key \<notin> e_key ` set (live q)" using assms(1,2) mget_inflight_None [of q key] by (simp add: bq_ok_def)
  then show live: "live q' = live q @ [\<lparr>e_key = key, e_id = bq_next q, e_throws = False\<rparr>]"
    unfolding step using bq_async_step [OF assms(1), of "Submit key False"] by simp
  show limit: "bq_limit q' = bq_limit q" using assms(2,3) by (simp add: submit_new enqueue_def Let_def)
  show "set (bq_running q) \<subseteq> set (bq_running q')"
    unfolding running_of [OF assms(1)] running_of [OF ok] live limit by simp
qed

lemma loading_ok_submit:
  assumes "loading_ok s"
  shows "loading_ok (submit_task key t s)"
proof (cases "mget (bq_inflight (hy_queue s)) key")
  case None
  let ?q = "hy_queue s"
  let ?q' = "snd (submit key False ?q)" and ?s = "s\<lparr>hy_tasks := mset_key (bq_next (hy_queue s)) t (hy_tasks s)\<rparr>"
  have ok: "bq_ok ?q" using assms by (simp add: loading_ok_def)
  note q' = submit_live [OF ok None refl]
  have old: "e_id e \<noteq> bq_next ?q" if "e \<in> set (live ?q)" for e using ok that by (auto simp: bq_ok_def bq_keys_def)
  have s': "submit_task key t s = move_queue ?q' ?s" using None by (simp add: submit_task_def Let_def)
  have "tasked (move_queue ?q' ?s)" using assms old by (auto simp: tasked_def loading_ok_def q'(2))
  moreover have "spinning (move_queue ?q' ?s)"
    unfolding spinning_def
  proof
    fix p assume "p \<in> hy_loading (move_queue ?q' ?s)"
    then consider "p \<in> hy_loading s"
      | e u where "e \<in> set (bq_running ?q')" "mget (hy_tasks ?s) (e_id e) = Some u" "spinner_of u = p" by auto
    then show "\<exists>e u. e \<in> set (bq_running (hy_queue (move_queue ?q' ?s))) \<and> mget (hy_tasks (move_queue ?q' ?s)) (e_id e) = Some u \<and> spinner_of u = p"
    proof cases
      case 1
      then obtain e u where e: "e \<in> set (bq_running ?q)" "mget (hy_tasks s) (e_id e) = Some u" "spinner_of u = p"
        using assms by (auto simp: loading_ok_def spinning_def)
      then have "e_id e \<noteq> bq_next ?q" using old running_live by blast
      with e q'(3) show ?thesis by (intro exI [of _ e] exI [of _ u]) auto
    qed auto
  qed
  ultimately show ?thesis using q'(1) by (simp add: s' loading_ok_def)
qed (use assms in \<open>simp add: submit_task_def\<close>)

text \<open>A step of the queue that starts nothing, takes no running entry away and adds none.\<close>

lemma loading_ok_cancel:
  assumes "loading_ok s" and "bq_ok q" and "bq_running q = bq_running (hy_queue s)" and "set (live q) \<subseteq> set (live (hy_queue s))"
  shows "loading_ok (move_queue q s)"
  using assms by (auto simp: loading_ok_def tasked_def spinning_def)

lemma cancel_running: "bq_running (cancel p q) = bq_running q"
  by (simp add: cancel_def Let_def split: option.splits)

lemma cancelAll_running: "bq_running (cancelAll q) = bq_running q"
proof -
  have "bq_running (fold cancel ks q) = bq_running q" for ks by (induction ks arbitrary: q) (simp_all add: cancel_running)
  then show ?thesis by (simp add: cancelAll_def)
qed

lemma loading_ok_cancels:
  assumes "loading_ok s"
  shows "loading_ok (move_queue (cancel p (hy_queue s)) s)" and "loading_ok (move_queue (cancelAll (hy_queue s)) s)"
proof -
  have ok: "bq_ok (hy_queue s)" using assms by (simp add: loading_ok_def)
  note c = bq_async_step [OF ok, of "Cancel p"] and ca = bq_async_step [OF ok, of CancelAll]
  show "loading_ok (move_queue (cancel p (hy_queue s)) s)"
    using c by (intro loading_ok_cancel [OF assms] cancel_running) (auto dest: in_set_takeD in_set_dropD)
  show "loading_ok (move_queue (cancelAll (hy_queue s)) s)"
    using ca by (intro loading_ok_cancel [OF assms] cancelAll_running) (auto dest: in_set_takeD)
qed

lemma settle_live:
  assumes "bq_ok q"
  shows "bq_ok (settle i r q)" and "set (live (settle i r q)) \<subseteq> set (live q)"
    and "e \<in> set (bq_running q) \<Longrightarrow> e_id e \<noteq> i \<Longrightarrow> e \<in> set (bq_running (settle i r q))"
proof -
  note step = bq_async_step [OF assms, of "Settle i r"]
  show ok: "bq_ok (settle i r q)" using step by simp
  have live: "live (settle i r q) = filter (\<lambda>e. e_id e \<noteq> i) (bq_running q) @ drop (bq_limit q) (live q)"
    using step running_of [OF assms] by simp
  have "set (bq_running q) \<subseteq> set (live q)" by (simp add: live_def)
  then show "set (live (settle i r q)) \<subseteq> set (live q)" unfolding live by (auto dest: in_set_dropD)
  have "bq_limit (settle i r q) = bq_limit q" by (auto simp: settle_def finish_entry_def split: option.splits)
  moreover have "length (filter (\<lambda>e. e_id e \<noteq> i) (bq_running q)) \<le> bq_limit q"
    using length_filter_le [of "\<lambda>e. e_id e \<noteq> i" "bq_running q"] running_of [OF assms] by simp
  ultimately show "e \<in> set (bq_running (settle i r q))" if "e \<in> set (bq_running q)" "e_id e \<noteq> i"
    unfolding running_of [OF ok] live using that by simp
qed

lemma loading_ok_end:
  assumes "loading_ok s" and "mget (hy_tasks s) i = Some t"
  shows "loading_ok (end_task i t s)"
proof -
  let ?q = "hy_queue s" and ?s1 = "s\<lparr>hy_loading := hy_loading s - {spinner_of t}\<rparr>"
  have ok: "bq_ok ?q" using assms(1) by (simp add: loading_ok_def)
  note q' = settle_live [OF ok, where i = i and r = Resolved]
  have s': "end_task i t s = move_queue (settle i Resolved ?q) ?s1" by (simp add: end_task_def Let_def)
  have "tasked (end_task i t s)" using assms(1) q'(2) by (auto simp: s' tasked_def loading_ok_def)
  moreover have "spinning (end_task i t s)"
    unfolding spinning_def
  proof
    fix p assume "p \<in> hy_loading (end_task i t s)"
    then consider "p \<in> hy_loading s" "p \<noteq> spinner_of t"
      | e u where "e \<in> set (bq_running (settle i Resolved ?q))" "mget (hy_tasks s) (e_id e) = Some u" "spinner_of u = p"
      by (auto simp: s')
    then show "\<exists>e u. e \<in> set (bq_running (hy_queue (end_task i t s))) \<and> mget (hy_tasks (end_task i t s)) (e_id e) = Some u \<and> spinner_of u = p"
    proof cases
      case 1
      then obtain e u where e: "e \<in> set (bq_running ?q)" "mget (hy_tasks s) (e_id e) = Some u" "spinner_of u = p"
        using assms(1) by (auto simp: loading_ok_def spinning_def)
      with 1 assms(2) have "e_id e \<noteq> i" by auto
      with e q'(3) show ?thesis by (intro exI [of _ e] exI [of _ u]) (simp add: s')
    qed (auto simp: s')
  qed
  ultimately show ?thesis using q'(1) by (simp add: s' loading_ok_def)
qed

lemma loading_ok_frame:
  "loading_ok s \<Longrightarrow> hy_queue s' = hy_queue s \<Longrightarrow> hy_tasks s' = hy_tasks s \<Longrightarrow> hy_loading s' = hy_loading s \<Longrightarrow> loading_ok s'"
  by (simp add: loading_ok_def tasked_def spinning_def)

lemma loading_ok_same_spinner:
  assumes "loading_ok s" and "mget (hy_tasks s) i = Some t" and "spinner_of u = spinner_of t"
  shows "loading_ok (s\<lparr>hy_tasks := mset_key i u (hy_tasks s)\<rparr>)"
proof -
  have "spinning (s\<lparr>hy_tasks := mset_key i u (hy_tasks s)\<rparr>)"
    unfolding spinning_def
  proof
    fix p assume "p \<in> hy_loading (s\<lparr>hy_tasks := mset_key i u (hy_tasks s)\<rparr>)"
    then obtain e v where e: "e \<in> set (bq_running (hy_queue s))" "mget (hy_tasks s) (e_id e) = Some v" "spinner_of v = p"
      using assms(1) by (auto simp: loading_ok_def spinning_def)
    with assms(2,3) show "\<exists>e t. e \<in> set (bq_running (hy_queue (s\<lparr>hy_tasks := mset_key i u (hy_tasks s)\<rparr>)))
        \<and> mget (hy_tasks (s\<lparr>hy_tasks := mset_key i u (hy_tasks s)\<rparr>)) (e_id e) = Some t \<and> spinner_of t = p"
      by (intro exI [of _ e] exI [of _ "if e_id e = i then u else v"]) auto
  qed
  with assms(1) show ?thesis by (simp add: loading_ok_def tasked_def)
qed

lemma loading_ok_finish:
  assumes "loading_ok s" and "mget (hy_tasks s) i = Some t"
  shows "loading_ok (finish_task i t aborted a s)"
proof -
  have canvas: "loading_ok (end_task i t (s\<lparr>hy_canvas := c\<rparr>))" for c
    by (rule loading_ok_end [OF loading_ok_frame [OF assms(1)]]) (simp_all add: assms(2))
  have failed: "loading_ok (end_task i t (s\<lparr>hy_failed := f\<rparr>))" for f
    by (rule loading_ok_end [OF loading_ok_frame [OF assms(1)]]) (simp_all add: assms(2))
  have edges: "loading_ok (s\<lparr>hy_tasks := mset_key i (Root_Edges ns) (hy_tasks s)\<rparr>)" if "t = Roots ts" for ns ts
    using that by (intro loading_ok_same_spinner [OF assms]) simp
  from canvas failed edges loading_ok_end [OF assms] show ?thesis
    by (cases t; cases a) (simp_all add: finish_task_def assms(1))
qed

lemma loading_ok_step: "loading_ok s \<Longrightarrow> loading_ok (load_step e s)"
proof (cases e)
  case (Load roots cts ready p)
  assume ok: "loading_ok s"
  then have attempted: "loading_ok (s\<lparr>hy_rootsAttempted := k\<rparr>)" for k by (rule loading_ok_frame) simp_all
  show ?thesis
    using Load ok by (simp add: loadChildren_def loadRoots_def Let_def loading_ok_submit attempted split: option.split)
next
  case Provider_Changed
  assume "loading_ok s"
  then have "loading_ok (s\<lparr>hy_rootsAttempted := None\<rparr>)" by (rule loading_ok_frame) simp_all
  from loading_ok_cancels(2) [OF this] Provider_Changed show ?thesis by (simp add: provider_changed_def)
next
  case (Task_Answer i a)
  then show "loading_ok s \<Longrightarrow> ?thesis" by (auto simp: answer_task_def loading_ok_finish split: option.split)
qed (simp_all add: searchChildren_def cancelChildLoad_def loading_ok_submit loading_ok_cancels)

interpretation loads: step_system load_step loading_ok "\<lambda>_. True"
  by unfold_locales (rule loading_ok_step)

lemma loading_ok_new: "loading_ok (new_loading n c)"
  using bq_ok_new [of n] by (simp add: loading_ok_def tasked_def spinning_def new_loading_def live_def new_queue_def)

text \<open>
  through every history of loads, searches, cancellations and answers no more requests are under way
  than the limit, and a node is marked as loading only while a task of its own is under way.
\<close>

theorem no_spinner_without_a_request:
  assumes "s = run load_step es (new_loading n c)"
  shows "length (bq_running (hy_queue s)) \<le> bq_limit (hy_queue s)
    \<and> (\<forall>p \<in> hy_loading s. \<exists>e t. e \<in> set (bq_running (hy_queue s)) \<and> mget (hy_tasks s) (e_id e) = Some t \<and> spinner_of t = p)"
proof -
  have "loading_ok s" unfolding assms by (rule loads.run_inv) (simp_all add: loading_ok_new)
  then show ?thesis by (auto simp: loading_ok_def spinning_def running_of)
qed

section \<open>Cancelled loads\<close>

lemma aborted_drain [simp]: "bq_aborted (drain q) = bq_aborted q"
proof (induction q rule: drain_induct)
  case (start q e rest)
  show ?case unfolding drain_start [OF start.hyps] start.IH by (simp add: finish_entry_def start_entry_def)
qed (simp add: drain_stop)

lemma aborted_submit: "bq_aborted (snd (submit key t q)) = bq_aborted q"
  by (simp add: submit_def Let_def split: option.split)

lemma aborted_settle: "bq_aborted (settle i r q) = bq_aborted q"
  by (simp add: settle_def finish_entry_def split: option.split)

lemma aborted_cancel: "set (bq_aborted q) \<subseteq> set (bq_aborted (cancel p q))"
  by (auto simp: cancel_def Let_def split: option.split)

lemma aborted_cancelAll: "set (bq_aborted q) \<subseteq> set (bq_aborted (cancelAll q))"
proof -
  have "set (bq_aborted q) \<subseteq> set (bq_aborted (fold cancel ks q))" for ks
    by (induction ks arbitrary: q) (use aborted_cancel in \<open>fastforce\<close>)+
  then show ?thesis by (simp add: cancelAll_def)
qed

lemma aborted_submit_task: "bq_aborted (hy_queue (submit_task key t s)) = bq_aborted (hy_queue s)"
  by (simp add: submit_task_def Let_def aborted_submit)

lemma aborted_finish_task: "bq_aborted (hy_queue (finish_task i t b a s)) = bq_aborted (hy_queue s)"
  by (simp add: finish_task_def end_task_def aborted_settle Let_def split: load_task.split load_answer.split)

lemma aborted_step: "set (bq_aborted (hy_queue s)) \<subseteq> set (bq_aborted (hy_queue (load_step e s)))"
  by (cases e) (simp_all add: loadChildren_def loadRoots_def searchChildren_def cancelChildLoad_def provider_changed_def answer_task_def
      Let_def aborted_submit_task aborted_finish_task aborted_cancel aborted_cancelAll split: option.split)

lemma aborted_run: "set (bq_aborted (hy_queue s)) \<subseteq> set (bq_aborted (hy_queue (run load_step es s)))"
proof (induction es arbitrary: s)
  case (Cons e es)
  from subset_trans [OF aborted_step Cons.IH] show ?case by simp
qed simp

lemma aborted_commits_nothing: "i \<in> set (bq_aborted (hy_queue s)) \<Longrightarrow> hy_canvas (answer_task i a s) = hy_canvas s"
  by (simp add: answer_task_def finish_task_def end_task_def Let_def split: option.split load_task.split load_answer.split)

text \<open>
  C22: once the load of a node was cancelled while it was under way, its answer, whenever it comes and
  whatever happened in between, changes nothing on the canvas.
\<close>

theorem cancelled_load_commits_nothing:
  assumes "s = run load_step es (new_loading n c)" and "e \<in> set (bq_running (hy_queue s))"
    and "s' = run load_step fs (cancelChildLoad (e_key e) s)"
  shows "hy_canvas (answer_task (e_id e) a s') = hy_canvas s'"
proof -
  have "loading_ok s" unfolding assms(1) by (rule loads.run_inv) (simp_all add: loading_ok_new)
  then have "bq_keys (hy_queue s)" by (simp add: loading_ok_def bq_ok_def)
  moreover have "e \<in> set (live (hy_queue s))" using assms(2) by (rule running_live)
  ultimately have "mget (bq_entries (hy_queue s)) (e_key e) = Some e"
    by (auto simp: bq_keys_def comp_def intro!: map_of_is_SomeI)
  then have "e_id e \<in> set (bq_aborted (hy_queue (cancelChildLoad (e_key e) s)))"
    by (simp add: cancelChildLoad_def cancel_def Let_def)
  with aborted_run [of "cancelChildLoad (e_key e) s" fs] show ?thesis
    unfolding assms(3) by (intro aborted_commits_nothing) blast
qed

section \<open>What a load adds\<close>

lemma addGraph_simps:
  "nodes (addGraph ns es c) = nodes c @ fresh_items node_id (nodeIndex c) ns"
  "edges (addGraph ns es c) = edges c @ fresh_items edge_id (edgeIndex c) es"
  using addGraph_graph_of [of ns es c]
  by (simp_all add: graph_of_def node_collection.items_add edge_collection.items_add)

lemma canvas_wf_addGraph:
  "canvas_wf c \<Longrightarrow> distinct (map node_id ns) \<Longrightarrow> distinct (map edge_id es) \<Longrightarrow> canvas_wf (addGraph ns es c)"
  using canvas_wf_cong [OF addGraph_graph_of] canvas_wf_addNodes canvas_wf_addEdges by blast

lemma toCanvasNode_id [simp]: "node_id (toCanvasNode n) = gn_urn n"
  by (simp add: toCanvasNode_def)

text \<open>
  the answer of a load leaves what is on the canvas in place and adds each new child once: after it
  the nodes are those before and the children, no id occurs twice, and the indexes agree.
\<close>

theorem children_arrive_once:
  assumes "canvas_wf c" and "distinct (map edge_id (answer_edges a))" and "c' = finish_children a c"
  shows "canvas_wf c' \<and> take (length (nodes c)) (nodes c') = nodes c \<and> take (length (edges c)) (edges c') = edges c
    \<and> node_id ` set (nodes c') = node_id ` set (nodes c) \<union> gn_urn ` set (ca_children a)"
proof (cases "ca_children a = []")
  case True
  with assms(1,3) show ?thesis by (simp add: finish_children_def)
next
  case False
  let ?new = "new_children (node_id ` set (nodes c)) (ca_children a)"
  have new: "node_id ` set ?new = gn_urn ` set (ca_children a) - node_id ` set (nodes c)" "distinct (map node_id ?new)"
    using dedup_by_ids [of node_id "node_id ` set (nodes c)" "map toCanvasNode (ca_children a)"]
    by (simp_all add: new_children_def image_image)
  have c': "c' = addGraph ?new (answer_edges a) c" using False assms(3) by (simp add: finish_children_def)
  have "fresh_items node_id (nodeIndex c) ?new = ?new"
    using new(1) assms(1) by (auto simp: fresh_items_def canvas_wf_def filter_id_conv)
  with new canvas_wf_addGraph [OF assms(1) new(2) assms(2)] show ?thesis
    by (auto simp: c' addGraph_simps image_Un)
qed

section \<open>What goes wrong\<close>

definition parent_node :: "ident \<Rightarrow> rat \<Rightarrow> lineage_node" where
  "parent_node p n = \<lparr>node_id = p, node_data = [(''childCount'', JNum n)]\<rparr>"

definition one_parent :: canvas where
  "one_parent = initial_canvas\<lparr>nodes := [parent_node ''p'' 30], nodeIndex := {''p''}\<rparr>"

definition answer_of :: "urn list \<Rightarrow> children_answer" where
  "answer_of us =
     \<lparr>ca_children = map sample_node us, ca_containmentEdges = map (\<lambda>u. contains_edge ''CONTAINS'' u ''p'' u) us, ca_lineageEdges = []\<rparr>"

abbreviation load_p :: load_event where
  "load_p \<equiv> Load [] [''CONTAINS''] True ''p''"

text \<open>
  A node collapsed and expanded again while it loads: the second load is dropped because the first is
  still under way, and the answer of the first is dropped because it was cancelled.
\<close>

lemma expand_again_loads_nothing:
  "(let s = run load_step [load_p, Cancel_Load ''p'', load_p, Task_Answer 0 (Children_Answer (answer_of [''a'']))] (new_loading 6 one_parent)
    in map node_id (nodes (hy_canvas s)) = [''p''] \<and> bq_size (hy_queue s) = 0 \<and> hy_loading s = {} \<and> hy_failed s = {})"
  by code_simp

text \<open>Roots whose load failed are not asked for again, and the failure is not marked.\<close>

lemma failed_roots_are_not_retried:
  "(let s = run load_step [Load [''domain''] [] True '''', Task_Answer 0 Failure, Load [''domain''] [] True ''''] (new_loading 6 initial_canvas)
    in bq_size (hy_queue s) = 0 \<and> nodes (hy_canvas s) = [] \<and> hy_failed s = {})"
  by code_simp

text \<open>
  A search replaces the children of a node, and the next load takes their number as the offset: it goes
  on behind the first page although none of it is there.
\<close>

lemma load_after_search_skips:
  "(let s = run load_step [Search_Children ''p'' ''x'', Task_Answer 0 (Children_Answer (answer_of [''x1'', ''x2''])), load_p] (new_loading 6 one_parent)
    in mget (hy_tasks s) 1 = Some (Children ''p'' ''p'' 2))"
  by code_simp

text \<open>A search removes every target of the node, also one a lineage edge leads to.\<close>

lemma search_removes_lineage_targets:
  "(let c = one_parent\<lparr>nodes := [parent_node ''p'' 30, parent_node ''t'' 0], nodeIndex := {''p'', ''t''},
        edges := [toCanvasEdge (flow_edge ''f'' ''p'' ''t'')], edgeIndex := {''f''}\<rparr>
    in map node_id (nodes (finish_search ''p'' (answer_of []) c)) = [''p''])"
  by code_simp

text \<open>A load and a search of one node share its mark: the first to end takes it away.\<close>

lemma mark_ends_with_the_first:
  "(let s = run load_step [load_p, Search_Children ''p'' ''x'', Task_Answer 0 (Children_Answer (answer_of []))] (new_loading 6 one_parent)
    in hy_loading s = {} \<and> bq_size (hy_queue s) = 1)"
  by code_simp

section \<open>Witnesses\<close>

lemma no_spinner_without_a_request_witness:
  "\<exists>e. e \<in> set (bq_running (hy_queue (run load_step [load_p] (new_loading 6 one_parent))))"
proof -
  have "''p'' \<in> hy_loading (run load_step [load_p] (new_loading 6 one_parent))" by code_simp
  with no_spinner_without_a_request [OF refl, of "[load_p]" 6 one_parent] show ?thesis by blast
qed

lemma cancelled_load_commits_nothing_witness:
  "map node_id (nodes (hy_canvas (answer_task 0 (Children_Answer (answer_of [''a''])) (cancelChildLoad ''p'' (run load_step [load_p] (new_loading 6 one_parent)))))) = [''p'']"
proof -
  let ?s = "run load_step [load_p] (new_loading 6 one_parent)" and ?e = "\<lparr>e_key = ''p'', e_id = 0, e_throws = False\<rparr>"
  have "bq_running (hy_queue ?s) = [?e]" by code_simp
  then have "hy_canvas (answer_task (e_id ?e) (Children_Answer (answer_of [''a''])) (run load_step [] (cancelChildLoad (e_key ?e) ?s)))
      = hy_canvas (run load_step [] (cancelChildLoad (e_key ?e) ?s))"
    by (intro cancelled_load_commits_nothing [OF refl _ refl]) simp
  moreover have "map node_id (nodes (hy_canvas (cancelChildLoad ''p'' ?s))) = [''p'']" by code_simp
  ultimately show ?thesis by simp
qed

lemma children_arrive_once_witness:
  "node_id ` set (nodes (finish_children (answer_of [''a'', ''b'']) one_parent)) = {''p'', ''a'', ''b''}"
proof -
  have "canvas_wf one_parent" by (simp add: canvas_wf_def one_parent_def parent_node_def initial_canvas_def)
  moreover have "distinct (map edge_id (answer_edges (answer_of [''a'', ''b''])))" by code_simp
  ultimately have "node_id ` set (nodes (finish_children (answer_of [''a'', ''b'']) one_parent))
      = node_id ` set (nodes one_parent) \<union> gn_urn ` set (ca_children (answer_of [''a'', ''b'']))"
    by (rule children_arrive_once [OF _ _ refl, THEN conjunct2, THEN conjunct2, THEN conjunct2])
  then show ?thesis by (auto simp: one_parent_def parent_node_def answer_of_def sample_node_def)
qed

end
