(* ===== verification/Undo_History.thy ===== *)
theory Undo_History
  imports Prelude
begin

text \<open>
  The interface of an editor with two stacks of snapshots: an edit puts the present state on the bounded
  stack of the past and empties the future, undo and redo shift the present along. What the laws give:
  past, present and future are one timeline that undo and redo only move along, so a series of edits that
  fits the bound is taken back and done again exactly.
\<close>

text \<open>\<^verbatim>\<open>xs.slice(-n)\<close> for a positive \<^verbatim>\<open>n\<close>\<close>

definition slice_last :: "nat \<Rightarrow> 'a list \<Rightarrow> 'a list" where
  "slice_last n xs = drop (length xs - n) xs"

lemma rev_slice_last: "rev (slice_last n xs) = take n (rev xs)"
  by (cases "n \<le> length xs") (simp_all add: slice_last_def rev_drop)

locale undo_history =
  fixes now_of :: "'s \<Rightarrow> 'l"
    and past :: "'s \<Rightarrow> 'l list"
    and future :: "'s \<Rightarrow> 'l list"
    and commit :: "'l \<Rightarrow> 's \<Rightarrow> 's"
    and undo :: "'s \<Rightarrow> 's"
    and redo :: "'s \<Rightarrow> 's"
    and cap :: nat
  assumes commit_now: "now_of (commit x s) = x"
    and commit_past: "length (past s) \<le> cap \<Longrightarrow> rev (past (commit x s)) = take cap (now_of s # rev (past s))"
    and commit_future: "future (commit x s) = []"
    and undo_some: "past s = ps @ [p] \<Longrightarrow> now_of (undo s) = p \<and> past (undo s) = ps \<and> future (undo s) = future s @ [now_of s]"
    and undo_none: "past s = [] \<Longrightarrow> undo s = s"
    and redo_some: "future s = fs @ [f] \<Longrightarrow> now_of (redo s) = f \<and> future (redo s) = fs \<and> past (redo s) = past s @ [now_of s]"
    and redo_none: "future s = [] \<Longrightarrow> redo s = s"
begin

definition timeline :: "'s \<Rightarrow> 'l list" where
  "timeline s = past s @ now_of s # rev (future s)"

lemma timeline_now: "now_of s = timeline s ! length (past s)"
  by (simp add: timeline_def nth_append)

lemma undo_timeline: "timeline (undo s) = timeline s \<and> length (past (undo s)) = length (past s) - 1"
proof (cases "past s" rule: rev_cases)
  case (snoc ps p)
  with undo_some [OF snoc] show ?thesis by (simp add: timeline_def)
qed (simp add: undo_none)

lemma redo_timeline:
  "timeline (redo s) = timeline s \<and> length (past (redo s)) = (if future s = [] then length (past s) else length (past s) + 1)"
proof (cases "future s" rule: rev_cases)
  case (snoc fs f)
  with redo_some [OF snoc] show ?thesis by (simp add: timeline_def)
qed (simp add: redo_none)

lemma length_timeline: "length (timeline s) = length (past s) + length (future s) + 1"
  by (simp add: timeline_def)

lemma undo_pow: "timeline ((undo ^^ k) s) = timeline s \<and> length (past ((undo ^^ k) s)) = length (past s) - k"
  by (induction k) (simp_all add: undo_timeline)

lemma redo_pow:
  "k \<le> length (future s) \<Longrightarrow> timeline ((redo ^^ k) s) = timeline s \<and> length (past ((redo ^^ k) s)) = length (past s) + k"
proof (induction k)
  case (Suc k)
  let ?t = "(redo ^^ k) s"
  have t: "timeline ?t = timeline s" "length (past ?t) = length (past s) + k" using Suc by simp_all
  then have "future ?t \<noteq> []" using Suc.prems length_timeline [of s] length_timeline [of ?t] by auto
  with t show ?case by (simp add: redo_timeline)
qed simp

text \<open>Undoing \<open>k\<close> steps shows the \<open>k\<close>-th state of the past, redoing them the present again.\<close>

lemma undo_redo_pow:
  assumes "k \<le> length (past s)"
  shows "now_of ((undo ^^ k) s) = (now_of s # rev (past s)) ! k" and "now_of ((redo ^^ k) ((undo ^^ k) s)) = now_of s"
proof -
  let ?u = "(undo ^^ k) s"
  have u: "timeline ?u = timeline s" "length (past ?u) = length (past s) - k" using undo_pow [of k s] by simp_all
  have "now_of ?u = timeline s ! (length (past s) - k)" by (simp add: timeline_now [of ?u] u)
  also have "\<dots> = (past s @ [now_of s]) ! (length (past s) - k)" using assms by (auto simp: timeline_def nth_append)
  also have "\<dots> = rev (now_of s # rev (past s)) ! (length (past s) - k)" by simp
  also have "\<dots> = (now_of s # rev (past s)) ! k" using assms by (subst rev_nth) auto
  finally show "now_of ?u = (now_of s # rev (past s)) ! k" .
  have "k \<le> length (future ?u)" using u assms length_timeline [of s] length_timeline [of ?u] by simp
  from redo_pow [OF this] u assms have "timeline ((redo ^^ k) ?u) = timeline s" "length (past ((redo ^^ k) ?u)) = length (past s)" by simp_all
  then show "now_of ((redo ^^ k) ?u) = now_of s" by (metis timeline_now)
qed

section \<open>Edits\<close>

inductive edits :: "'s \<Rightarrow> nat \<Rightarrow> 's \<Rightarrow> bool" for s where
  none: "edits s 0 s"
| more: "edits s n t \<Longrightarrow> edits s (Suc n) (commit x t)"

lemma edits_past:
  assumes "edits s n t" and "n \<le> cap" and "length (past s) \<le> cap"
  shows "n \<le> length (past t) \<and> (now_of t # rev (past t)) ! n = now_of s \<and> length (past t) \<le> cap"
  using assms
proof (induction rule: edits.induct)
  case (more n t x)
  then have t: "n \<le> length (past t)" "(now_of t # rev (past t)) ! n = now_of s" "length (past t) \<le> cap" by simp_all
  have "length (rev (past (commit x t))) = min cap (Suc (length (past t)))" by (simp add: commit_past [OF t(3)])
  then have "Suc n \<le> length (past (commit x t))" "length (past (commit x t)) \<le> cap" using t(1) more.prems by simp_all
  moreover have "(now_of (commit x t) # rev (past (commit x t))) ! Suc n = now_of s" using t more.prems by (simp add: commit_past [OF t(3)])
  ultimately show ?case by simp
qed simp

theorem edits_undone_and_redone:
  assumes "edits s n t" and "n \<le> cap" and "length (past s) \<le> cap"
  shows "now_of ((undo ^^ n) t) = now_of s" and "now_of ((redo ^^ n) ((undo ^^ n) t)) = now_of t"
  using undo_redo_pow [of n t] edits_past [OF assms] by simp_all

section \<open>The bound\<close>

definition in_bounds :: "'s \<Rightarrow> bool" where
  "in_bounds s \<longleftrightarrow> length (past s) + length (future s) \<le> cap"

lemma in_bounds_commit: "in_bounds s \<Longrightarrow> in_bounds (commit x s)"
proof -
  assume "in_bounds s"
  then have "length (past s) \<le> cap" by (simp add: in_bounds_def)
  from commit_past [OF this, of x] have "length (rev (past (commit x s))) \<le> cap" by simp
  then show ?thesis by (simp add: in_bounds_def commit_future)
qed

lemma in_bounds_undo: "in_bounds s \<Longrightarrow> in_bounds (undo s)"
proof -
  assume "in_bounds s"
  moreover have "length (timeline (undo s)) = length (timeline s)" by (simp add: undo_timeline)
  ultimately show ?thesis by (simp add: in_bounds_def length_timeline)
qed

lemma in_bounds_redo: "in_bounds s \<Longrightarrow> in_bounds (redo s)"
proof -
  assume "in_bounds s"
  moreover have "length (timeline (redo s)) = length (timeline s)" by (simp add: redo_timeline)
  ultimately show ?thesis by (simp add: in_bounds_def length_timeline)
qed

end

end
