(* ===== verification/Logical_Nodes.thy ===== *)
theory Logical_Nodes
  imports Reference_Model Step_System Js_String Undo_History "HOL-Library.Multiset"
begin

text \<open>
  The groups inside the layers of a view that is being edited, and their editor
  (\<^verbatim>\<open>hooks/useLogicalNodes.ts\<close>): the functions on trees of groups, the five operations on the groups of a
  layer, and the two stacks of snapshots. The hook works on the layers of the last render, which are the
  present layers of the state here; the copy of a snapshot is the snapshot, and a new id is an argument.
\<close>

section \<open>Groups and layers\<close>

datatype group_node =
  Group (gr_id: ident) (gr_name: string) (gr_description: "string option") (gr_type: string)
    (gr_children: "group_node list option") (gr_rules: "rule_config list option") (gr_collapsed: "bool option")

text \<open>A layer with the properties the editor reads; the others are kept together.\<close>

record view_layer =
  vl_id :: ident
  vl_name :: string
  vl_order :: int
  vl_sequence :: "int option"
  vl_logicalNodes :: "group_node list option"
  vl_entityAssignments :: "assignment_config list option"
  vl_rest :: jsobj

section \<open>Trees of groups\<close>

fun findNode :: "group_node list \<Rightarrow> ident \<Rightarrow> group_node option" where
  "findNode [] x = None"
| "findNode (Group i nm ds ty cs rs cl # ns) x =
     (if i = x then Some (Group i nm ds ty cs rs cl)
      else (case (case cs of None \<Rightarrow> None | Some ks \<Rightarrow> findNode ks x) of
              Some n \<Rightarrow> Some n
            | None \<Rightarrow> findNode ns x))"

text \<open>The last group that was taken out wins, and every group that stays gets a list of children.\<close>

fun removeNode :: "group_node list \<Rightarrow> ident \<Rightarrow> group_node option \<times> group_node list" where
  "removeNode [] x = (None, [])"
| "removeNode (Group i nm ds ty cs rs cl # ns) x =
     (let inner = (case cs of None \<Rightarrow> (None, []) | Some ks \<Rightarrow> removeNode ks x); rest = removeNode ns x;
          found = (if i = x then Some (Group i nm ds ty cs rs cl) else fst inner)
      in (case fst rest of None \<Rightarrow> found | Some r \<Rightarrow> Some r,
          if i = x then snd rest else Group i nm ds ty (Some (snd inner)) rs cl # snd rest))"

fun insert_below :: "group_node list \<Rightarrow> group_node \<Rightarrow> ident \<Rightarrow> group_node list" where
  "insert_below [] n p = []"
| "insert_below (Group i nm ds ty cs rs cl # ns) n p =
     (if i = p then Group i nm ds ty (Some (nullish cs [] @ [n])) rs cl
      else Group i nm ds ty (Some (case cs of None \<Rightarrow> [] | Some ks \<Rightarrow> insert_below ks n p)) rs cl) # insert_below ns n p"

definition insertNode :: "group_node list \<Rightarrow> group_node \<Rightarrow> ident option \<Rightarrow> group_node list" where
  "insertNode ns n p = (if truthy p then insert_below ns n (the p) else ns @ [n])"

fun updateNode :: "group_node list \<Rightarrow> ident \<Rightarrow> (group_node \<Rightarrow> group_node) \<Rightarrow> group_node list" where
  "updateNode [] x patch = []"
| "updateNode (Group i nm ds ty cs rs cl # ns) x patch =
     (if i = x then patch (Group i nm ds ty cs rs cl)
      else Group i nm ds ty (Some (case cs of None \<Rightarrow> [] | Some ks \<Rightarrow> updateNode ks x patch)) rs cl) # updateNode ns x patch"

fun group_ids :: "group_node list \<Rightarrow> ident list" where
  "group_ids [] = []"
| "group_ids (Group i nm ds ty cs rs cl # ns) = i # (case cs of None \<Rightarrow> [] | Some ks \<Rightarrow> group_ids ks) @ group_ids ns"

definition collectNodeIds :: "group_node \<Rightarrow> ident list" where
  "collectNodeIds n = group_ids [n]"

fun buildPath :: "group_node list \<Rightarrow> ident \<Rightarrow> string list \<Rightarrow> string list option" where
  "buildPath [] x path = None"
| "buildPath (Group i nm ds ty cs rs cl # ns) x path =
     (if i = x then Some (path @ [nm])
      else (case (case cs of None \<Rightarrow> None | Some ks \<Rightarrow> buildPath ks x (path @ [nm])) of
              Some p \<Rightarrow> Some p
            | None \<Rightarrow> buildPath ns x path))"

section \<open>Operations on the groups of a layer\<close>

definition in_layer :: "ident \<Rightarrow> (view_layer \<Rightarrow> view_layer) \<Rightarrow> view_layer list \<Rightarrow> view_layer list" where
  "in_layer lid f ls = map (\<lambda>l. if vl_id l \<noteq> lid then l else f l) ls"

definition groups_of :: "view_layer \<Rightarrow> group_node list" where
  "groups_of l = nullish (vl_logicalNodes l) []"

definition set_groups :: "group_node list \<Rightarrow> view_layer \<Rightarrow> view_layer" where
  "set_groups ns l = l\<lparr>vl_logicalNodes := Some ns\<rparr>"

definition new_group :: "ident \<Rightarrow> string \<Rightarrow> group_node" where
  "new_group i name = Group i (if trim name = '''' then ''New Group'' else trim name) None ''group'' (Some []) None (Some False)"

definition add_to_layers :: "ident \<Rightarrow> ident \<Rightarrow> string \<Rightarrow> ident option \<Rightarrow> view_layer list \<Rightarrow> view_layer list" where
  "add_to_layers i lid name p ls = in_layer lid (\<lambda>l. set_groups (insertNode (groups_of l) (new_group i name) p) l) ls"

definition rename_to :: "string \<Rightarrow> group_node \<Rightarrow> group_node" where
  "rename_to name n = (case n of Group i nm ds ty cs rs cl \<Rightarrow> Group i name ds ty cs rs cl)"

definition collapse_to :: "bool \<Rightarrow> group_node \<Rightarrow> group_node" where
  "collapse_to b n = (case n of Group i nm ds ty cs rs cl \<Rightarrow> Group i nm ds ty cs rs (Some b))"

definition rename_in_layers :: "ident \<Rightarrow> ident \<Rightarrow> string \<Rightarrow> view_layer list \<Rightarrow> view_layer list" where
  "rename_in_layers lid n name ls = in_layer lid (\<lambda>l. set_groups (updateNode (groups_of l) n (rename_to name)) l) ls"

definition forget_groups :: "ident set \<Rightarrow> assignment_config \<Rightarrow> assignment_config" where
  "forget_groups gone a =
     (if truthy (ac_logicalNodeId a) \<and> the (ac_logicalNodeId a) \<in> gone then a\<lparr>ac_logicalNodeId := None\<rparr> else a)"

definition delete_in_layer :: "ident \<Rightarrow> view_layer \<Rightarrow> view_layer" where
  "delete_in_layer n l =
     (let (removed, kept) = removeNode (groups_of l) n; gone = (case removed of None \<Rightarrow> {} | Some r \<Rightarrow> set (collectNodeIds r))
      in l\<lparr>vl_logicalNodes := Some kept, vl_entityAssignments := Some (map (forget_groups gone) (nullish (vl_entityAssignments l) []))\<rparr>)"

definition delete_in_layers :: "ident \<Rightarrow> ident \<Rightarrow> view_layer list \<Rightarrow> view_layer list" where
  "delete_in_layers lid n ls = in_layer lid (delete_in_layer n) ls"

definition move_in_layer_groups :: "ident \<Rightarrow> ident option \<Rightarrow> view_layer \<Rightarrow> view_layer" where
  "move_in_layer_groups n p l =
     (let (removed, kept) = removeNode (groups_of l) n
      in case removed of None \<Rightarrow> l | Some r \<Rightarrow> set_groups (insertNode kept r p) l)"

definition move_in_layers :: "ident \<Rightarrow> ident \<Rightarrow> ident option \<Rightarrow> view_layer list \<Rightarrow> view_layer list" where
  "move_in_layers lid n p ls = in_layer lid (move_in_layer_groups n p) ls"

definition collapse_in_layers :: "ident \<Rightarrow> ident \<Rightarrow> view_layer list \<Rightarrow> view_layer list" where
  "collapse_in_layers lid n ls =
     in_layer lid (\<lambda>l. case findNode (groups_of l) n of
         None \<Rightarrow> l
       | Some g \<Rightarrow> set_groups (updateNode (groups_of l) n (collapse_to (\<not> nullish (gr_collapsed g) False))) l) ls"

section \<open>The editor\<close>

record node_editor =
  ne_layers :: "view_layer list"
  ne_undo :: "view_layer list list"
  ne_redo :: "view_layer list list"

definition MAX_UNDO_STACK :: nat where
  "MAX_UNDO_STACK = 20"

definition pushSnapshot :: "view_layer list \<Rightarrow> node_editor \<Rightarrow> node_editor" where
  "pushSnapshot before s = s\<lparr>ne_undo := slice_last (MAX_UNDO_STACK - 1) (ne_undo s) @ [before], ne_redo := []\<rparr>"

definition commitUpdate :: "view_layer list \<Rightarrow> node_editor \<Rightarrow> node_editor" where
  "commitUpdate new s = (pushSnapshot (ne_layers s) s)\<lparr>ne_layers := new\<rparr>"

definition addNode :: "ident \<Rightarrow> ident \<Rightarrow> string \<Rightarrow> ident option \<Rightarrow> node_editor \<Rightarrow> group_node \<times> node_editor" where
  "addNode i lid name p s = (new_group i name, commitUpdate (add_to_layers i lid name p (ne_layers s)) s)"

definition renameNode :: "ident \<Rightarrow> ident \<Rightarrow> string \<Rightarrow> node_editor \<Rightarrow> node_editor" where
  "renameNode lid n name s = commitUpdate (rename_in_layers lid n name (ne_layers s)) s"

definition deleteNode :: "ident \<Rightarrow> ident \<Rightarrow> node_editor \<Rightarrow> node_editor" where
  "deleteNode lid n s = commitUpdate (delete_in_layers lid n (ne_layers s)) s"

definition moveNode :: "ident \<Rightarrow> ident \<Rightarrow> ident option \<Rightarrow> node_editor \<Rightarrow> node_editor" where
  "moveNode lid n p s = commitUpdate (move_in_layers lid n p (ne_layers s)) s"

definition toggleCollapse :: "ident \<Rightarrow> ident \<Rightarrow> node_editor \<Rightarrow> node_editor" where
  "toggleCollapse lid n s = s\<lparr>ne_layers := collapse_in_layers lid n (ne_layers s)\<rparr>"

definition layer_named :: "ident \<Rightarrow> view_layer list \<Rightarrow> view_layer option" where
  "layer_named lid ls = find_first (\<lambda>l. vl_id l = lid) ls"

definition nodesForLayer :: "ident \<Rightarrow> node_editor \<Rightarrow> group_node list" where
  "nodesForLayer lid s = (case layer_named lid (ne_layers s) of None \<Rightarrow> [] | Some l \<Rightarrow> groups_of l)"

text \<open>The separator is an arrow between spaces, which is no character of 8 bits: a parameter.\<close>

fun join_by :: "string \<Rightarrow> string list \<Rightarrow> string" where
  "join_by d [] = ''''"
| "join_by d [w] = w"
| "join_by d (w # v # vs) = w @ d @ join_by d (v # vs)"

definition nodePathLabel :: "string \<Rightarrow> ident \<Rightarrow> ident \<Rightarrow> node_editor \<Rightarrow> string" where
  "nodePathLabel arrow lid n s =
     (case layer_named lid (ne_layers s) of
        None \<Rightarrow> ''''
      | Some l \<Rightarrow> (case buildPath (groups_of l) n [] of None \<Rightarrow> '''' | Some p \<Rightarrow> join_by arrow p))"

definition undo_nodes :: "node_editor \<Rightarrow> node_editor" where
  "undo_nodes s =
     (if ne_undo s = [] then s
      else s\<lparr>ne_layers := last (ne_undo s), ne_undo := butlast (ne_undo s), ne_redo := ne_redo s @ [ne_layers s]\<rparr>)"

definition redo_nodes :: "node_editor \<Rightarrow> node_editor" where
  "redo_nodes s =
     (if ne_redo s = [] then s
      else s\<lparr>ne_layers := last (ne_redo s), ne_redo := butlast (ne_redo s), ne_undo := ne_undo s @ [ne_layers s]\<rparr>)"

datatype node_event =
    Add_Node ident ident string "ident option"
  | Rename_Node ident ident string
  | Delete_Node ident ident
  | Move_Node ident ident "ident option"
  | Toggle_Collapse ident ident
  | Undo_Nodes
  | Redo_Nodes

fun node_step :: "node_event \<Rightarrow> node_editor \<Rightarrow> node_editor" where
  "node_step (Add_Node i lid name p) s = snd (addNode i lid name p s)"
| "node_step (Rename_Node lid n name) s = renameNode lid n name s"
| "node_step (Delete_Node lid n) s = deleteNode lid n s"
| "node_step (Move_Node lid n p) s = moveNode lid n p s"
| "node_step (Toggle_Collapse lid n) s = toggleCollapse lid n s"
| "node_step Undo_Nodes s = undo_nodes s"
| "node_step Redo_Nodes s = redo_nodes s"

section \<open>Undo and redo\<close>

interpretation node_history: undo_history ne_layers ne_undo ne_redo commitUpdate undo_nodes redo_nodes MAX_UNDO_STACK
proof
  show "rev (ne_undo (commitUpdate x s)) = take MAX_UNDO_STACK (ne_layers s # rev (ne_undo s))" for x s
    by (simp add: commitUpdate_def pushSnapshot_def MAX_UNDO_STACK_def rev_slice_last)
qed (simp_all add: commitUpdate_def pushSnapshot_def undo_nodes_def redo_nodes_def)

fun is_edit :: "node_event \<Rightarrow> bool" where
  "is_edit (Add_Node i lid name p) = True"
| "is_edit (Rename_Node lid n name) = True"
| "is_edit (Delete_Node lid n) = True"
| "is_edit (Move_Node lid n p) = True"
| "is_edit _ = False"

lemma edit_commits: "is_edit e \<Longrightarrow> \<exists>x. node_step e s = commitUpdate x s"
  by (cases e) (auto simp: addNode_def renameNode_def deleteNode_def moveNode_def)

lemma run_edits: "(\<And>e. e \<in> set es \<Longrightarrow> is_edit e) \<Longrightarrow> node_history.edits s (length es) (run node_step es s)"
proof (induction es rule: rev_induct)
  case Nil
  show ?case by (simp add: node_history.edits.none)
next
  case (snoc e es)
  then have "node_history.edits s (length es) (run node_step es s)" by simp
  moreover obtain x where "node_step e (run node_step es s) = commitUpdate x (run node_step es s)"
    using edit_commits [of e "run node_step es s"] snoc.prems by auto
  ultimately show ?case by (simp add: run_append node_history.edits.more)
qed

lemma in_bounds_step: "node_history.in_bounds s \<Longrightarrow> node_history.in_bounds (node_step e s)"
proof (cases "is_edit e")
  case True
  moreover assume "node_history.in_bounds s"
  ultimately show ?thesis using edit_commits [OF True, of s] node_history.in_bounds_commit [of s] by auto
next
  case False
  assume "node_history.in_bounds s"
  with False show ?thesis
    using node_history.in_bounds_undo [of s] node_history.in_bounds_redo [of s]
    by (cases e) (auto simp: toggleCollapse_def node_history.in_bounds_def)
qed

interpretation node_bounds: step_system node_step node_history.in_bounds "\<lambda>_. True"
  by unfold_locales (rule in_bounds_step)

text \<open>
  C31: up to twenty edits of groups are undone by as many undos, which show the layers from before the
  first of them, and done again by as many redos; and through every history the two stacks together hold
  at most twenty snapshots.
\<close>

theorem edits_are_undone_and_redone:
  assumes "length (ne_undo s) + length (ne_redo s) \<le> MAX_UNDO_STACK"
    and "\<And>e. e \<in> set es \<Longrightarrow> is_edit e" and "length es \<le> MAX_UNDO_STACK"
    and "t = run node_step es s" and "u = (undo_nodes ^^ length es) t"
  shows "ne_layers u = ne_layers s \<and> ne_layers ((redo_nodes ^^ length es) u) = ne_layers t
    \<and> length (ne_undo (run node_step fs s)) + length (ne_redo (run node_step fs s)) \<le> MAX_UNDO_STACK"
proof -
  have commits: "node_history.edits s (length es) t" unfolding assms(4) by (rule run_edits) (rule assms(2))
  have "length (ne_undo s) \<le> MAX_UNDO_STACK" using assms(1) by simp
  note both = node_history.edits_undone_and_redone [OF commits assms(3) this]
  have "node_history.in_bounds (run node_step fs s)"
    using assms(1) by (intro node_bounds.run_inv) (simp_all add: node_history.in_bounds_def)
  then show ?thesis using both by (simp add: assms(5) node_history.in_bounds_def)
qed

section \<open>Taking groups out and putting them in\<close>

lemma findNode_None: "findNode ns x = None \<longleftrightarrow> x \<notin> set (group_ids ns)"
  by (induction ns x rule: findNode.induct) (auto split: option.splits)

lemma removeNode_absent: "x \<notin> set (group_ids ns) \<Longrightarrow> fst (removeNode ns x) = None \<and> group_ids (snd (removeNode ns x)) = group_ids ns"
  by (induction ns x rule: removeNode.induct) (auto simp: Let_def split: option.splits)

lemma removeNode_present:
  "distinct (group_ids ns) \<Longrightarrow> x \<in> set (group_ids ns)
    \<Longrightarrow> \<exists>g. fst (removeNode ns x) = Some g \<and> findNode ns x = Some g \<and> gr_id g = x
        \<and> mset (group_ids ns) = mset (collectNodeIds g) + mset (group_ids (snd (removeNode ns x)))"
proof (induction ns x rule: removeNode.induct)
  case (2 i nm ds ty cs rs cl ns x)
  let ?n = "Group i nm ds ty cs rs cl" and ?inner = "case cs of None \<Rightarrow> [] | Some ks \<Rightarrow> group_ids ks"
  have dist: "i \<notin> set ?inner" "i \<notin> set (group_ids ns)" "distinct ?inner" "distinct (group_ids ns)" "set ?inner \<inter> set (group_ids ns) = {}"
    using "2.prems"(1) by auto
  consider (here) "i = x" | (inside) ks where "i \<noteq> x" "cs = Some ks" "x \<in> set (group_ids ks)" | (later) "i \<noteq> x" "x \<notin> set ?inner" "x \<in> set (group_ids ns)"
    using "2.prems"(2) by (cases cs) auto
  then show ?case
  proof cases
    case here
    with dist(2) removeNode_absent [of x ns] show ?thesis by (auto simp: collectNodeIds_def Let_def)
  next
    case inside
    with dist(5) removeNode_absent [of x ns] have ns: "fst (removeNode ns x) = None" "group_ids (snd (removeNode ns x)) = group_ids ns" by auto
    from "2.IH"(1) inside dist(3) obtain g where "fst (removeNode ks x) = Some g" "findNode ks x = Some g" "gr_id g = x"
      "mset (group_ids ks) = mset (collectNodeIds g) + mset (group_ids (snd (removeNode ks x)))" by auto
    with inside ns show ?thesis by (simp add: Let_def)
  next
    case later
    from "2.IH"(2) later dist(4) obtain g where g: "fst (removeNode ns x) = Some g" "findNode ns x = Some g" "gr_id g = x"
      "mset (group_ids ns) = mset (collectNodeIds g) + mset (group_ids (snd (removeNode ns x)))" by auto
    show ?thesis
    proof (cases cs)
      case (Some ks)
      with later(2) removeNode_absent [of x ks] have "group_ids (snd (removeNode ks x)) = group_ids ks" "findNode ks x = None"
        by (auto simp: findNode_None)
      with Some later g show ?thesis by (simp add: Let_def)
    qed (use later g in \<open>simp add: Let_def\<close>)
  qed
qed simp

lemma group_ids_append [simp]: "group_ids (ms @ ns) = group_ids ms @ group_ids ns"
  by (induction ms rule: group_ids.induct) auto

lemma insert_below_absent: "p \<notin> set (group_ids ns) \<Longrightarrow> group_ids (insert_below ns n p) = group_ids ns"
  by (induction ns n p rule: insert_below.induct) (auto split: option.splits)

lemma insert_below_present:
  "distinct (group_ids ns) \<Longrightarrow> p \<in> set (group_ids ns)
    \<Longrightarrow> mset (group_ids (insert_below ns n p)) = mset (group_ids ns) + mset (collectNodeIds n)"
proof (induction ns n p rule: insert_below.induct)
  case (2 i nm ds ty cs rs cl ns n p)
  consider (here) "i = p" "p \<notin> set (group_ids ns)"
    | (inside) ks where "i \<noteq> p" "cs = Some ks" "p \<in> set (group_ids ks)" "p \<notin> set (group_ids ns)"
    | (later) "i \<noteq> p" "\<And>ks. cs = Some ks \<Longrightarrow> p \<notin> set (group_ids ks)" "p \<in> set (group_ids ns)"
    using "2.prems" by (cases cs) auto
  then show ?case
  proof cases
    case here
    then show ?thesis by (cases cs) (simp_all add: insert_below_absent collectNodeIds_def)
  next
    case inside
    with "2.IH"(1) "2.prems"(1) show ?thesis by (simp add: insert_below_absent)
  next
    case later
    with "2.IH"(2) "2.prems"(1) show ?thesis by (cases cs) (simp_all add: insert_below_absent)
  qed
qed simp

lemma insertNode_ids:
  assumes "distinct (group_ids ns)"
  shows "mset (group_ids (insertNode ns n p)) =
    mset (group_ids ns) + (if \<not> truthy p \<or> the p \<in> set (group_ids ns) then mset (collectNodeIds n) else {#})"
  using insert_below_present [OF assms, of "the p" n] insert_below_absent [of "the p" ns n]
  by (simp add: insertNode_def collectNodeIds_def)

lemma updateNode_ids: "(\<And>m. group_ids [patch m] = group_ids [m]) \<Longrightarrow> group_ids (updateNode ns x patch) = group_ids ns"
proof (induction ns x patch rule: updateNode.induct)
  case (2 i nm ds ty cs rs cl ns x patch)
  have "group_ids (patch n # ms) = group_ids [n] @ group_ids ms" for n ms
    using group_ids_append [of "[patch n]" ms] "2.prems" by simp
  with 2 show ?case by (auto split: option.splits)
qed simp

lemma patch_ids [simp]: "group_ids [rename_to name m] = group_ids [m]" "group_ids [collapse_to b m] = group_ids [m]"
  by (cases m; simp add: rename_to_def collapse_to_def)+

lemma set_groups_simps [simp]:
  "groups_of (set_groups ns l) = ns" "vl_entityAssignments (set_groups ns l) = vl_entityAssignments l" "vl_id (set_groups ns l) = vl_id l"
  by (simp_all add: groups_of_def set_groups_def)

lemma removed_groups:
  assumes "distinct (group_ids ns)" and "findNode ns n = Some g"
  shows "fst (removeNode ns n) = Some g" and "distinct (group_ids (snd (removeNode ns n)))"
    and "set (group_ids (snd (removeNode ns n))) = set (group_ids ns) - set (collectNodeIds g)"
    and "set (collectNodeIds g) \<subseteq> set (group_ids ns)" and "distinct (collectNodeIds g)"
proof -
  have "n \<in> set (group_ids ns)" using assms(2) findNode_None [of ns n] by auto
  from removeNode_present [OF assms(1) this] assms(2)
  have g: "fst (removeNode ns n) = Some g" "mset (group_ids ns) = mset (collectNodeIds g @ group_ids (snd (removeNode ns n)))" by auto
  from g(1) show "fst (removeNode ns n) = Some g" .
  have d: "distinct (collectNodeIds g @ group_ids (snd (removeNode ns n)))" using assms(1) mset_eq_imp_distinct_iff [OF g(2)] by (rule iffD1 [rotated])
  have s: "set (group_ids ns) = set (collectNodeIds g @ group_ids (snd (removeNode ns n)))" using g(2) by (rule mset_eq_setD)
  show "distinct (group_ids (snd (removeNode ns n)))" "distinct (collectNodeIds g)" using d by simp_all
  show "set (group_ids (snd (removeNode ns n))) = set (group_ids ns) - set (collectNodeIds g)" "set (collectNodeIds g) \<subseteq> set (group_ids ns)"
    using d s by auto
qed

lemma insertNode_set:
  assumes "distinct (group_ids ns)"
  shows "set (group_ids (insertNode ns n p)) =
    set (group_ids ns) \<union> (if \<not> truthy p \<or> the p \<in> set (group_ids ns) then set (collectNodeIds n) else {})"
  using arg_cong [OF insertNode_ids [OF assms, of n p], of set_mset] by (simp split: if_splits)

lemma insertNode_distinct:
  assumes "distinct (group_ids ns @ collectNodeIds n)"
  shows "distinct (group_ids (insertNode ns n p))"
proof -
  have "distinct (group_ids ns)" using assms by simp
  from insertNode_ids [OF this, of n p] have "mset (group_ids (insertNode ns n p)) = mset (group_ids ns @ collectNodeIds n)
      \<or> mset (group_ids (insertNode ns n p)) = mset (group_ids ns)" by (auto split: if_splits)
  with assms show ?thesis by (metis distinct_append mset_eq_imp_distinct_iff)
qed

text \<open>
  moving a group of a layer keeps every group when the target is the layer itself or a group outside
  the moved one; when the target is below the moved group, or does not exist, the moved group is lost
  with everything below it.
\<close>

theorem move_keeps_the_groups:
  assumes "distinct (group_ids (groups_of l))" and "findNode (groups_of l) n = Some g" and "l' = move_in_layer_groups n p l"
  shows "set (group_ids (groups_of l')) =
    (if \<not> truthy p \<or> the p \<in> set (group_ids (groups_of l)) - set (collectNodeIds g) then set (group_ids (groups_of l))
     else set (group_ids (groups_of l)) - set (collectNodeIds g))"
proof -
  note r = removed_groups [OF assms(1,2)]
  have "groups_of l' = insertNode (snd (removeNode (groups_of l) n)) g p"
    using r(1) by (cases "removeNode (groups_of l) n") (simp add: assms(3) move_in_layer_groups_def)
  with insertNode_set [OF r(2), of g p] r(3,4) show ?thesis by auto
qed

section \<open>References from assignments\<close>

definition assignments_in :: "view_layer \<Rightarrow> assignment_config list" where
  "assignments_in l = nullish (vl_entityAssignments l) []"

definition refs_ok :: "view_layer \<Rightarrow> bool" where
  "refs_ok l \<longleftrightarrow> distinct (group_ids (groups_of l))
     \<and> (\<forall>a \<in> set (assignments_in l). truthy (ac_logicalNodeId a) \<longrightarrow> the (ac_logicalNodeId a) \<in> set (group_ids (groups_of l)))"

definition editor_ok :: "node_editor \<Rightarrow> bool" where
  "editor_ok s \<longleftrightarrow> (\<forall>ls \<in> insert (ne_layers s) (set (ne_undo s) \<union> set (ne_redo s)). \<forall>l \<in> set ls. refs_ok l)"

text \<open>
  New ids are new in their layer, and a group that is there is moved to the layer itself or to a group of the
  layer that is not the group or below it.
\<close>

fun ok_event :: "node_event \<Rightarrow> node_editor \<Rightarrow> bool" where
  "ok_event (Add_Node i lid name p) s \<longleftrightarrow> (\<forall>l \<in> set (ne_layers s). vl_id l = lid \<longrightarrow> i \<notin> set (group_ids (groups_of l)))"
| "ok_event (Move_Node lid n p) s \<longleftrightarrow>
     (\<forall>l \<in> set (ne_layers s). vl_id l = lid \<and> truthy p \<longrightarrow>
        (case findNode (groups_of l) n of None \<Rightarrow> True | Some g \<Rightarrow> the p \<in> set (group_ids (groups_of l)) - set (collectNodeIds g)))"
| "ok_event _ s \<longleftrightarrow> True"

lemma assignments_set_groups [simp]: "assignments_in (set_groups ns l) = assignments_in l"
  by (simp add: assignments_in_def)

lemma refs_ok_set_groups:
  "refs_ok l \<Longrightarrow> distinct (group_ids ns) \<Longrightarrow> set (group_ids (groups_of l)) \<subseteq> set (group_ids ns) \<Longrightarrow> refs_ok (set_groups ns l)"
  by (auto simp: refs_ok_def)

lemma refs_ok_add: "refs_ok l \<Longrightarrow> i \<notin> set (group_ids (groups_of l)) \<Longrightarrow> refs_ok (set_groups (insertNode (groups_of l) (new_group i name) p) l)"
proof (rule refs_ok_set_groups)
  assume l: "refs_ok l" "i \<notin> set (group_ids (groups_of l))"
  then show "distinct (group_ids (insertNode (groups_of l) (new_group i name) p))"
    by (intro insertNode_distinct) (auto simp: refs_ok_def new_group_def collectNodeIds_def)
  show "set (group_ids (groups_of l)) \<subseteq> set (group_ids (insertNode (groups_of l) (new_group i name) p))"
    using l(1) insertNode_set [of "groups_of l"] by (auto simp: refs_ok_def)
qed

lemma refs_ok_delete: "refs_ok l \<Longrightarrow> refs_ok (delete_in_layer n l)"
proof -
  assume l: "refs_ok l"
  then have dist: "distinct (group_ids (groups_of l))" by (simp add: refs_ok_def)
  define gone where "gone = (case findNode (groups_of l) n of None \<Rightarrow> {} | Some g \<Rightarrow> set (collectNodeIds g))"
  obtain r kept where rk: "removeNode (groups_of l) n = (r, kept)" by (cases "removeNode (groups_of l) n")
  have kept: "distinct (group_ids kept) \<and> set (group_ids kept) = set (group_ids (groups_of l)) - gone \<and> r = findNode (groups_of l) n"
  proof (cases "findNode (groups_of l) n")
    case None
    then have "n \<notin> set (group_ids (groups_of l))" by (simp add: findNode_None)
    then show ?thesis using removeNode_absent [of n "groups_of l"] dist rk None by (simp add: gone_def)
  next
    case (Some g)
    then show ?thesis using removed_groups [OF dist Some] rk by (simp add: gone_def)
  qed
  have "groups_of (delete_in_layer n l) = kept" "assignments_in (delete_in_layer n l) = map (forget_groups gone) (assignments_in l)"
    using kept rk by (simp_all add: delete_in_layer_def Let_def groups_of_def assignments_in_def gone_def)
  with kept l show ?thesis by (auto simp: refs_ok_def forget_groups_def)
qed

lemma refs_ok_move:
  assumes "refs_ok l" and "truthy p \<Longrightarrow> case findNode (groups_of l) n of None \<Rightarrow> True | Some g \<Rightarrow> the p \<in> set (group_ids (groups_of l)) - set (collectNodeIds g)"
  shows "refs_ok (move_in_layer_groups n p l)"
proof (cases "findNode (groups_of l) n")
  case None
  then have "fst (removeNode (groups_of l) n) = None" using removeNode_absent [of n "groups_of l"] by (simp add: findNode_None)
  with assms(1) show ?thesis by (cases "removeNode (groups_of l) n") (simp add: move_in_layer_groups_def)
next
  case (Some g)
  have dist: "distinct (group_ids (groups_of l))" using assms(1) by (simp add: refs_ok_def)
  note r = removed_groups [OF dist Some]
  have l': "move_in_layer_groups n p l = set_groups (insertNode (snd (removeNode (groups_of l) n)) g p) l"
    using r(1) by (cases "removeNode (groups_of l) n") (simp add: move_in_layer_groups_def)
  show ?thesis
    unfolding l'
  proof (rule refs_ok_set_groups [OF assms(1)])
    show "distinct (group_ids (insertNode (snd (removeNode (groups_of l) n)) g p))" using r by (intro insertNode_distinct) auto
    show "set (group_ids (groups_of l)) \<subseteq> set (group_ids (insertNode (snd (removeNode (groups_of l) n)) g p))"
      using insertNode_set [OF r(2), of g p] r(3) assms(2) Some by auto
  qed
qed

lemma refs_ok_same_ids: "refs_ok l \<Longrightarrow> group_ids ns = group_ids (groups_of l) \<Longrightarrow> refs_ok (set_groups ns l)"
  by (simp add: refs_ok_def)

lemma in_layer_ok: "(\<And>l. l \<in> set ls \<Longrightarrow> refs_ok l \<Longrightarrow> vl_id l = lid \<Longrightarrow> refs_ok (f l)) \<Longrightarrow> \<forall>l \<in> set ls. refs_ok l \<Longrightarrow> \<forall>l \<in> set (in_layer lid f ls). refs_ok l"
  by (auto simp: in_layer_def)

lemma editor_ok_commit: "editor_ok s \<Longrightarrow> \<forall>l \<in> set new. refs_ok l \<Longrightarrow> editor_ok (commitUpdate new s)"
  by (auto simp: editor_ok_def commitUpdate_def pushSnapshot_def slice_last_def dest: in_set_dropD)

lemma editor_ok_step: "editor_ok s \<Longrightarrow> ok_event e s \<Longrightarrow> editor_ok (node_step e s)"
proof (cases e)
  case (Add_Node i lid name p)
  assume "editor_ok s" "ok_event e s"
  then show ?thesis unfolding Add_Node
    by (simp add: addNode_def add_to_layers_def) (intro editor_ok_commit in_layer_ok refs_ok_add; auto simp: editor_ok_def)
next
  case (Rename_Node lid n name)
  assume "editor_ok s"
  then show ?thesis unfolding Rename_Node
    by (simp add: renameNode_def rename_in_layers_def) (intro editor_ok_commit in_layer_ok refs_ok_same_ids updateNode_ids; auto simp: editor_ok_def)
next
  case (Delete_Node lid n)
  assume "editor_ok s"
  then show ?thesis unfolding Delete_Node
    by (simp add: deleteNode_def delete_in_layers_def) (intro editor_ok_commit in_layer_ok refs_ok_delete; auto simp: editor_ok_def)
next
  case (Move_Node lid n p)
  assume "editor_ok s" "ok_event e s"
  then show ?thesis unfolding Move_Node
    by (simp add: moveNode_def move_in_layers_def) (intro editor_ok_commit in_layer_ok refs_ok_move; auto simp: editor_ok_def)
next
  case (Toggle_Collapse lid n)
  assume s: "editor_ok s"
  have "\<forall>l \<in> set (collapse_in_layers lid n (ne_layers s)). refs_ok l"
    unfolding collapse_in_layers_def
    by (rule in_layer_ok) (use s in \<open>auto simp: editor_ok_def intro!: refs_ok_same_ids updateNode_ids split: option.split\<close>)
  with s show ?thesis by (simp add: Toggle_Collapse toggleCollapse_def editor_ok_def)
next
  case Undo_Nodes
  assume "editor_ok s" then show ?thesis by (auto simp: Undo_Nodes undo_nodes_def editor_ok_def dest: in_set_butlastD)
next
  case Redo_Nodes
  assume "editor_ok s" then show ?thesis by (auto simp: Redo_Nodes redo_nodes_def editor_ok_def dest: in_set_butlastD)
qed

text \<open>
  C32: start with layers and snapshots in which every assignment that names a group names one of its own layer
  and no layer has two groups of one id. This stays so through every history of edits, undos and redos in which
  (1) a new group gets an id that no group of its layer has, and (2) a group is moved to the top of its layer,
  or below a group that the layer has and that is not the group itself or below it. (A move anywhere else
  loses the group with all below it, theorem \<open>move_keeps_the_groups\<close>, and its assignments then name nothing:
  \<open>move_below_itself_loses_the_group\<close>, \<open>move_to_nowhere_loses_the_group\<close>.)
\<close>

theorem group_references_stay_valid:
  assumes "editor_ok s" and "\<And>fs e gs. es = fs @ e # gs \<Longrightarrow> ok_event e (run node_step fs s)"
    and "l \<in> set (ne_layers (run node_step es s))"
  shows "distinct (group_ids (groups_of l))
    \<and> (\<forall>a \<in> set (assignments_in l). truthy (ac_logicalNodeId a) \<longrightarrow> the (ac_logicalNodeId a) \<in> set (group_ids (groups_of l)))"
proof -
  have "editor_ok (run node_step es s)"
    using assms(2)
  proof (induction es rule: rev_induct)
    case (snoc e es)
    have "ok_event e' (run node_step fs s)" if "es = fs @ e' # gs" for fs e' gs using snoc.prems [of fs e' "gs @ [e]"] that by simp
    with snoc.IH have "editor_ok (run node_step es s)" by blast
    with snoc.prems [of es e "[]"] show ?case by (simp add: run_append editor_ok_step)
  qed (simp add: assms(1))
  with assms(3) show ?thesis by (simp add: editor_ok_def refs_ok_def)
qed

section \<open>Witnesses and examples\<close>

definition plain_group :: "ident \<Rightarrow> group_node list \<Rightarrow> group_node" where
  "plain_group i ks = Group i i None ''group'' (Some ks) None (Some False)"

definition sample_layer :: view_layer where
  "sample_layer =
     \<lparr>vl_id = ''L'', vl_name = ''Layer'', vl_order = 0, vl_sequence = None,
      vl_logicalNodes = Some [plain_group ''a'' [plain_group ''b'' []], plain_group ''c'' []],
      vl_entityAssignments = Some [\<lparr>ac_entityId = ''e'', ac_layerId = ''L'', ac_logicalNodeId = Some ''b'', ac_inheritsChildren = True,
        ac_priority = 1000, ac_assignedBy = None, ac_assignedAt = None\<rparr>], vl_rest = []\<rparr>"

definition sample_editor :: node_editor where
  "sample_editor = \<lparr>ne_layers = [sample_layer], ne_undo = [], ne_redo = []\<rparr>"

lemma edits_are_undone_and_redone_witness:
  "ne_layers ((undo_nodes ^^ length [Delete_Node ''L'' ''a'', Add_Node ''d'' ''L'' ''D'' None])
     (run node_step [Delete_Node ''L'' ''a'', Add_Node ''d'' ''L'' ''D'' None] sample_editor)) = [sample_layer]"
proof -
  let ?es = "[Delete_Node ''L'' ''a'', Add_Node ''d'' ''L'' ''D'' None]"
  have "length (ne_undo sample_editor) + length (ne_redo sample_editor) \<le> MAX_UNDO_STACK" "length ?es \<le> MAX_UNDO_STACK"
    "ne_layers sample_editor = [sample_layer]" by (simp_all add: sample_editor_def MAX_UNDO_STACK_def)
  moreover have "is_edit e" if "e \<in> set ?es" for e using that by auto
  ultimately show ?thesis using edits_are_undone_and_redone [OF _ _ _ refl refl, of sample_editor ?es] by (simp del: run_simps funpow.simps list.size)
qed

lemma move_keeps_the_groups_witness:
  "set (group_ids (groups_of (move_in_layer_groups ''a'' (Some ''c'') sample_layer))) = {''a'', ''b'', ''c''}
   \<and> set (group_ids (groups_of (move_in_layer_groups ''a'' (Some ''b'') sample_layer))) = {''c''}"
proof -
  have l: "distinct (group_ids (groups_of sample_layer))" "findNode (groups_of sample_layer) ''a'' = Some (plain_group ''a'' [plain_group ''b'' []])"
    "set (group_ids (groups_of sample_layer)) = {''a'', ''b'', ''c''}" "set (collectNodeIds (plain_group ''a'' [plain_group ''b'' []])) = {''a'', ''b''}"
    by code_simp+
  show ?thesis
    using move_keeps_the_groups [OF l(1,2) refl, of "Some ''c''"] move_keeps_the_groups [OF l(1,2) refl, of "Some ''b''"]
    by (auto simp: l(3,4))
qed

lemma group_references_stay_valid_witness:
  "list_all (\<lambda>l. distinct (group_ids (groups_of l))) (ne_layers (run node_step [Delete_Node ''L'' ''a''] sample_editor))"
  unfolding list_all_iff
proof
  fix l assume "l \<in> set (ne_layers (run node_step [Delete_Node ''L'' ''a''] sample_editor))"
  moreover have "editor_ok sample_editor" by code_simp
  ultimately show "distinct (group_ids (groups_of l))"
    using group_references_stay_valid [of sample_editor "[Delete_Node ''L'' ''a'']" l] by (auto simp: Cons_eq_append_conv)
qed

text \<open>A group that is moved below itself is lost, and its assignment is left without a group.\<close>

lemma move_below_itself_loses_the_group:
  "(let s = moveNode ''L'' ''a'' (Some ''b'') sample_editor
    in map (\<lambda>l. group_ids (groups_of l)) (ne_layers s) = [[''c'']]
     \<and> map (\<lambda>l. map ac_logicalNodeId (assignments_in l)) (ne_layers s) = [[Some ''b'']])"
  by code_simp

text \<open>So is one that is moved to a group that is not there.\<close>

lemma move_to_nowhere_loses_the_group:
  "(let s = moveNode ''L'' ''a'' (Some ''z'') sample_editor
    in map (\<lambda>l. group_ids (groups_of l)) (ne_layers s) = [[''c'']]
     \<and> map (\<lambda>l. map ac_logicalNodeId (assignments_in l)) (ne_layers s) = [[Some ''b'']])"
  by code_simp

text \<open>An edit that changes nothing is a step of its own, and takes the future away.\<close>

lemma empty_edits_fill_the_stack:
  "(let s = node_step (Rename_Node ''L'' ''z'' ''Z'') (undo_nodes (deleteNode ''L'' ''a'' sample_editor))
    in length (ne_undo s) = 1 \<and> ne_redo s = [] \<and> map (\<lambda>l. group_ids (groups_of l)) (ne_layers s) = [[''a'', ''b'', ''c'']])"
  by code_simp

text \<open>A renaming may leave a group without a name, which a new group never is.\<close>

lemma names_are_not_checked: "map gr_name (nodesForLayer ''L'' (renameNode ''L'' ''c'' '''' sample_editor)) = [''a'', '''']"
  by code_simp

end
