(* ===== verification/Layer_Studio.thy ===== *)
theory Layer_Studio
  imports Logical_Nodes Containment_Map
begin

text \<open>
  The editor that puts entities into layers (\<^verbatim>\<open>components/views/LayerStudio.tsx\<close>): which layer an entity is
  in, the rule that a child is in the layer of its parent, the three ways to assign with the question in
  between, and undo over all of it. The handlers work on the layers of the last render, which are the present
  layers here; a question keeps the layers it was asked with. Messages are modelled, rendering is not.
\<close>

section \<open>Parents and layers\<close>

text \<open>What the editor reads from other stores: canvas edges, containment types, the model's maps.\<close>

record studio_env =
  se_edges :: "lineage_edge list"
  se_containmentTypes :: "string list"
  se_storeParents :: parent_map
  se_storeLayers :: "(ident, ident) jsmap"

definition canvasParentMap :: "studio_env \<Rightarrow> parent_map" where
  "canvasParentMap env =
     fold (\<lambda>e m. if isContainmentEdgeType (normalizeEdgeType e) (se_containmentTypes env) then mset_key (edge_target e) (edge_source e) m else m)
       (se_edges env) []"

definition studio_parents :: "studio_env \<Rightarrow> parent_map" where
  "studio_parents env = (if canvasParentMap env \<noteq> [] then canvasParentMap env else se_storeParents env)"

definition layer_pairs :: "view_layer list \<Rightarrow> (ident \<times> ident) list" where
  "layer_pairs ls = concat (map (\<lambda>l. map (\<lambda>a. (ac_entityId a, vl_id l)) (assignments_in l)) ls)"

definition layerAssignmentMap :: "studio_env \<Rightarrow> view_layer list \<Rightarrow> (ident, ident) jsmap" where
  "layerAssignmentMap env ls = fold (\<lambda>(e, l) m. mset_key e l m) (layer_pairs ls) (mfrom (se_storeLayers env))"

definition layer_of :: "studio_env \<Rightarrow> view_layer list \<Rightarrow> ident \<Rightarrow> ident option" where
  "layer_of env ls e = mget (layerAssignmentMap env ls) e"

definition isContainmentLocked :: "studio_env \<Rightarrow> view_layer list \<Rightarrow> ident \<Rightarrow> ident \<Rightarrow> bool" where
  "isContainmentLocked env ls e target =
     (let parentId = mget (studio_parents env) e
      in truthy parentId \<and> (let parentLayer = layer_of env ls (the parentId) in truthy parentLayer \<and> parentLayer \<noteq> Some target))"

definition getDescendantsInDifferentLayer :: "studio_env \<Rightarrow> view_layer list \<Rightarrow> ident \<Rightarrow> ident \<Rightarrow> ident list" where
  "getDescendantsInDifferentLayer env ls e target =
     filter (\<lambda>c. truthy (layer_of env ls c) \<and> layer_of env ls c \<noteq> Some target)
       (descend (studio_parents env) (children_of (studio_parents env) e) [])"

section \<open>The editor\<close>

record active_target =
  at_layerId :: ident
  at_nodeId :: "ident option"
  at_label :: string

text \<open>The question before descendants move along, with the layers it was asked with.\<close>

record reassign =
  ra_entities :: "ident list"
  ra_descendants :: "ident list"
  ra_layerId :: ident
  ra_nodeId :: "ident option"
  ra_layers :: "view_layer list"

record studio =
  lz_layers :: "view_layer list"
  lz_undo :: "view_layer list list"
  lz_redo :: "view_layer list list"
  lz_target :: "active_target option"
  lz_warning :: "string option"
  lz_pending :: "reassign option"

text \<open>\<open>now\<close> are the layers of the render the handler belongs to.\<close>

definition update_from :: "view_layer list \<Rightarrow> view_layer list \<Rightarrow> studio \<Rightarrow> studio" where
  "update_from shown new s =
     (let stack = lz_undo s @ [shown]
      in s\<lparr>lz_layers := new, lz_undo := (if 50 < length stack then tl stack else stack), lz_redo := []\<rparr>)"

definition handleUpdateLayers :: "view_layer list \<Rightarrow> studio \<Rightarrow> studio" where
  "handleUpdateLayers new s = update_from (lz_layers s) new s"

definition handleUndo :: "studio \<Rightarrow> studio" where
  "handleUndo s =
     (if lz_undo s = [] then s
      else s\<lparr>lz_layers := last (lz_undo s), lz_undo := butlast (lz_undo s), lz_redo := lz_redo s @ [lz_layers s]\<rparr>)"

definition handleRedo :: "studio \<Rightarrow> studio" where
  "handleRedo s =
     (if lz_redo s = [] then s
      else s\<lparr>lz_layers := last (lz_redo s), lz_redo := butlast (lz_redo s), lz_undo := lz_undo s @ [lz_layers s]\<rparr>)"

definition numbered :: "nat \<Rightarrow> view_layer \<Rightarrow> view_layer" where
  "numbered i l = l\<lparr>vl_order := int i, vl_sequence := Some (int i)\<rparr>"

definition handleReorderLayers :: "ident list \<Rightarrow> studio \<Rightarrow> studio" where
  "handleReorderLayers newIds s =
     (let found = concat (map (\<lambda>i. case layer_named i (lz_layers s) of None \<Rightarrow> [] | Some l \<Rightarrow> [l]) newIds)
      in handleUpdateLayers (map2 numbered [0..<length found] found) s)"

definition user_assignment :: "ident \<Rightarrow> ident option \<Rightarrow> string \<Rightarrow> ident \<Rightarrow> assignment_config" where
  "user_assignment layerId nodeId time e =
     \<lparr>ac_entityId = e, ac_layerId = layerId, ac_logicalNodeId = nodeId, ac_inheritsChildren = True, ac_priority = 1000,
      ac_assignedBy = Some By_User, ac_assignedAt = Some time\<rparr>"

definition followed_assignment :: "ident \<Rightarrow> string \<Rightarrow> ident \<Rightarrow> assignment_config" where
  "followed_assignment layerId time e =
     \<lparr>ac_entityId = e, ac_layerId = layerId, ac_logicalNodeId = None, ac_inheritsChildren = True, ac_priority = 999,
      ac_assignedBy = Some By_Rule, ac_assignedAt = Some time\<rparr>"

definition commit_to :: "ident list \<Rightarrow> ident list \<Rightarrow> ident \<Rightarrow> ident option \<Rightarrow> string \<Rightarrow> view_layer \<Rightarrow> view_layer" where
  "commit_to entityIds descendants layerId nodeId time l =
     (let filtered = filter (\<lambda>a. ac_entityId a \<notin> set entityIds \<union> set descendants) (assignments_in l)
      in if vl_id l = layerId
         then l\<lparr>vl_entityAssignments := Some (filtered @ map (user_assignment layerId nodeId time) entityIds
                  @ map (followed_assignment layerId time) descendants)\<rparr>
         else l\<lparr>vl_entityAssignments := Some filtered\<rparr>)"

definition commitAssignment :: "view_layer list \<Rightarrow> ident list \<Rightarrow> ident list \<Rightarrow> ident \<Rightarrow> ident option \<Rightarrow> string \<Rightarrow> studio \<Rightarrow> studio" where
  "commitAssignment shown entityIds descendants layerId nodeId time s =
     update_from shown (map (commit_to entityIds descendants layerId nodeId time) shown) s"

definition confirmOrCommit :: "ident list \<Rightarrow> ident list \<Rightarrow> ident \<Rightarrow> ident option \<Rightarrow> string \<Rightarrow> studio \<Rightarrow> studio" where
  "confirmOrCommit entityIds descendants layerId nodeId time s =
     (if descendants = [] then commitAssignment (lz_layers s) entityIds [] layerId nodeId time s
      else s\<lparr>lz_pending := Some \<lparr>ra_entities = entityIds, ra_descendants = descendants, ra_layerId = layerId, ra_nodeId = nodeId, ra_layers = lz_layers s\<rparr>\<rparr>)"

definition confirm_pending :: "string \<Rightarrow> studio \<Rightarrow> studio" where
  "confirm_pending time s =
     (case lz_pending s of
        None \<Rightarrow> s
      | Some r \<Rightarrow> (commitAssignment (ra_layers r) (ra_entities r) (ra_descendants r) (ra_layerId r) (ra_nodeId r) time s)\<lparr>lz_pending := None\<rparr>)"

definition unassign_in :: "ident \<Rightarrow> view_layer \<Rightarrow> view_layer" where
  "unassign_in e l = l\<lparr>vl_entityAssignments := Some (filter (\<lambda>a. ac_entityId a \<noteq> e) (assignments_in l))\<rparr>"

definition locked_warning :: string where
  "locked_warning = ''Cannot assign child to a different layer than its parent. Children always inherit their parent's layer assignment.''"

definition blocked_warning :: "nat \<Rightarrow> string" where
  "blocked_warning n = dec_of_nat n @ '' assignment(s) blocked: children inherit their parent's layer.''"

definition target_node :: "ident \<Rightarrow> studio \<Rightarrow> ident option" where
  "target_node layerId s = (case lz_target s of Some t \<Rightarrow> if at_layerId t = layerId then at_nodeId t else None | None \<Rightarrow> None)"

definition handleAssignmentChange :: "studio_env \<Rightarrow> ident \<Rightarrow> ident option \<Rightarrow> string \<Rightarrow> studio \<Rightarrow> studio" where
  "handleAssignmentChange env e layerId time s =
     (if \<not> truthy layerId then handleUpdateLayers (map (unassign_in e) (lz_layers s)) s
      else if isContainmentLocked env (lz_layers s) e (the layerId) then s\<lparr>lz_warning := Some locked_warning\<rparr>
      else confirmOrCommit [e] (getDescendantsInDifferentLayer env (lz_layers s) e (the layerId)) (the layerId) (target_node (the layerId) s) time s)"

definition blocked :: "nat \<Rightarrow> studio \<Rightarrow> studio" where
  "blocked n s = (if 0 < n then s\<lparr>lz_warning := Some (blocked_warning n)\<rparr> else s)"

definition handleBulkAssignment :: "studio_env \<Rightarrow> ident \<Rightarrow> ident list \<Rightarrow> string \<Rightarrow> studio \<Rightarrow> studio" where
  "handleBulkAssignment env layerId entityIds time s =
     (let allowed = filter (\<lambda>e. \<not> isContainmentLocked env (lz_layers s) e layerId) entityIds;
          s1 = blocked (length entityIds - length allowed) s
      in if allowed = [] then s1
         else confirmOrCommit allowed (concat (map (\<lambda>e. getDescendantsInDifferentLayer env (lz_layers s) e layerId) allowed))
                layerId (target_node layerId s) time s1)"

definition dropped_ids :: "ident list option \<Rightarrow> ident option \<Rightarrow> ident list" where
  "dropped_ids entityIds entityId =
     (if nullish entityIds [] \<noteq> [] then the entityIds else if truthy entityId then [the entityId] else [])"

definition drop_target :: "string \<Rightarrow> ident \<Rightarrow> ident option \<Rightarrow> studio \<Rightarrow> studio \<Rightarrow> studio" where
  "drop_target arrow layerId nodeId s0 s =
     (case layer_named layerId (lz_layers s0) of
        None \<Rightarrow> s
      | Some l \<Rightarrow>
          (let label = (if truthy nodeId then nodePathLabel arrow layerId (the nodeId) \<lparr>ne_layers = lz_layers s0, ne_undo = [], ne_redo = []\<rparr> else '''')
           in s\<lparr>lz_target := Some \<lparr>at_layerId = layerId, at_nodeId = nodeId, at_label = (if label \<noteq> '''' then vl_name l @ arrow @ label else vl_name l)\<rparr>\<rparr>))"

definition handleHierarchyDrop ::
  "string \<Rightarrow> studio_env \<Rightarrow> ident \<Rightarrow> ident option \<Rightarrow> ident list option \<Rightarrow> ident option \<Rightarrow> string \<Rightarrow> studio \<Rightarrow> studio" where
  "handleHierarchyDrop arrow env layerId nodeId ids single time s =
     (let rawIds = dropped_ids ids single
      in if rawIds = [] then s
         else (let entityIds = filter (\<lambda>e. \<not> isContainmentLocked env (lz_layers s) e layerId) rawIds;
                   s1 = blocked (length rawIds - length entityIds) s
               in if entityIds = [] then s1
                  else drop_target arrow layerId nodeId s
                    (confirmOrCommit entityIds (concat (map (\<lambda>e. getDescendantsInDifferentLayer env (lz_layers s) e layerId) entityIds))
                       layerId nodeId time s1)))"

datatype studio_event =
    Assign_Entity ident "ident option" string
  | Bulk_Assign ident "ident list" string
  | Hierarchy_Drop ident "ident option" "ident list option" "ident option" string
  | Confirm_Reassign string
  | Dismiss_Reassign
  | Reorder_Layers "ident list"
  | Update_Layers "view_layer list"
  | Studio_Undo
  | Studio_Redo
  | Warning_Over

fun studio_step :: "string \<Rightarrow> studio_env \<Rightarrow> studio_event \<Rightarrow> studio \<Rightarrow> studio" where
  "studio_step arrow env (Assign_Entity e l time) s = handleAssignmentChange env e l time s"
| "studio_step arrow env (Bulk_Assign l es time) s = handleBulkAssignment env l es time s"
| "studio_step arrow env (Hierarchy_Drop l n es e time) s = handleHierarchyDrop arrow env l n es e time s"
| "studio_step arrow env (Confirm_Reassign time) s = confirm_pending time s"
| "studio_step arrow env Dismiss_Reassign s = s\<lparr>lz_pending := None\<rparr>"
| "studio_step arrow env (Reorder_Layers ids) s = handleReorderLayers ids s"
| "studio_step arrow env (Update_Layers ls) s = handleUpdateLayers ls s"
| "studio_step arrow env Studio_Undo s = handleUndo s"
| "studio_step arrow env Studio_Redo s = handleRedo s"
| "studio_step arrow env Warning_Over s = s\<lparr>lz_warning := None\<rparr>"

section \<open>Undo\<close>

interpretation studio_history: undo_history lz_layers lz_undo lz_redo handleUpdateLayers handleUndo handleRedo 50
proof
  fix s :: studio and x assume s: "length (lz_undo s) \<le> 50"
  have "rev (if 50 < length (ys @ [y]) then tl (ys @ [y]) else ys @ [y]) = take 50 (y # rev ys)" if "length ys \<le> 50" for ys :: "view_layer list list" and y
    using that by (cases ys) (auto simp: not_less)
  from this [OF s] show "rev (lz_undo (handleUpdateLayers x s)) = take 50 (lz_layers s # rev (lz_undo s))"
    by (simp add: handleUpdateLayers_def update_from_def Let_def)
qed (simp_all add: handleUpdateLayers_def update_from_def handleUndo_def handleRedo_def Let_def)

section \<open>Layers of entities\<close>

lemma map_of_at: "map_of xs x = map_of (filter (\<lambda>p. fst p = x) xs) x"
  by (induction xs) auto

lemma layer_of_pairs: "layer_of env ls x = (case map_of (rev (layer_pairs ls)) x of None \<Rightarrow> mget (mfrom (se_storeLayers env)) x | Some l \<Rightarrow> Some l)"
  by (simp add: layer_of_def layerAssignmentMap_def mget_fold_mset_key)

lemma commit_to_simps [simp]:
  "vl_id (commit_to es ds lid n time l) = vl_id l"
  "assignments_in (commit_to es ds lid n time l) = filter (\<lambda>a. ac_entityId a \<notin> set es \<union> set ds) (assignments_in l)
     @ (if vl_id l = lid then map (user_assignment lid n time) es @ map (followed_assignment lid time) ds else [])"
  by (simp_all add: commit_to_def assignments_in_def Let_def)

lemma new_assignment_simps [simp]: "ac_entityId (user_assignment lid n time e) = e" "ac_entityId (followed_assignment lid time e) = e"
  by (simp_all add: user_assignment_def followed_assignment_def)

lemma pairs_commit_other:
  assumes "x \<notin> set es \<union> set ds"
  shows "filter (\<lambda>p. fst p = x) (layer_pairs (map (commit_to es ds lid n time) ls)) = filter (\<lambda>p. fst p = x) (layer_pairs ls)"
proof -
  have no: "filter (\<lambda>p. fst p = x) (map (\<lambda>e. (e, l)) es) = []" "filter (\<lambda>p. fst p = x) (map (\<lambda>e. (e, l)) ds) = []" for l :: ident
    using assms by (auto simp: filter_empty_conv)
  have keep: "filter (\<lambda>p. fst p = x) (map (\<lambda>a. (ac_entityId a, l)) (filter (\<lambda>a. ac_entityId a \<notin> set es \<union> set ds) as))
      = filter (\<lambda>p. fst p = x) (map (\<lambda>a. (ac_entityId a, l)) as)" for l :: ident and "as" :: "assignment_config list"
    using assms by (induction "as") auto
  show ?thesis
    by (induction ls) (simp_all add: layer_pairs_def comp_def no keep del: Un_iff)
qed

lemma pairs_commit_moved:
  assumes "x \<in> set es \<union> set ds"
  shows "(x, l) \<in> set (layer_pairs (map (commit_to es ds lid n time) ls)) \<longleftrightarrow> l = lid \<and> lid \<in> vl_id ` set ls"
proof
  assume "(x, l) \<in> set (layer_pairs (map (commit_to es ds lid n time) ls))"
  with assms show "l = lid \<and> lid \<in> vl_id ` set ls" by (auto simp: layer_pairs_def split: if_splits)
next
  assume "l = lid \<and> lid \<in> vl_id ` set ls"
  then obtain l0 where l0: "l0 \<in> set ls" "vl_id l0 = lid" "l = lid" by auto
  have "x \<in> ac_entityId ` set (assignments_in (commit_to es ds lid n time l0))" using assms l0(2) by (auto simp: image_Un image_image)
  with l0 show "(x, l) \<in> set (layer_pairs (map (commit_to es ds lid n time) ls))"
    by (auto simp: layer_pairs_def simp del: commit_to_simps(2) intro!: bexI [of _ l0])
qed

lemma layer_of_unassign:
  "layer_of env (map (unassign_in e) ls) x = (if x = e then mget (mfrom (se_storeLayers env)) e else layer_of env ls x)"
proof -
  have keep: "filter (\<lambda>p. fst p = x) (map (\<lambda>a. (ac_entityId a, l)) (filter (\<lambda>a. ac_entityId a \<noteq> e) as))
      = (if x = e then [] else filter (\<lambda>p. fst p = x) (map (\<lambda>a. (ac_entityId a, l)) as))" for l :: ident and "as" :: "assignment_config list"
    by (induction "as") auto
  have "filter (\<lambda>p. fst p = x) (layer_pairs (map (unassign_in e) ls)) = (if x = e then [] else filter (\<lambda>p. fst p = x) (layer_pairs ls))"
    by (induction ls) (simp_all add: layer_pairs_def comp_def keep unassign_in_def assignments_in_def)
  then show ?thesis
    using map_of_at [of "rev (layer_pairs (map (unassign_in e) ls))" x] map_of_at [of "rev (layer_pairs ls)" x]
    by (simp add: layer_of_pairs flip: rev_filter)
qed

text \<open>After a commit to a layer that exists the moved entities are in that layer, the others where they were.\<close>

lemma layer_of_commit:
  assumes "lid \<in> vl_id ` set ls"
  shows "layer_of env (map (commit_to es ds lid n time) ls) x = (if x \<in> set es \<union> set ds then Some lid else layer_of env ls x)"
proof (cases "x \<in> set es \<union> set ds")
  case True
  let ?ps = "layer_pairs (map (commit_to es ds lid n time) ls)"
  have "(x, lid) \<in> set (rev ?ps)" using pairs_commit_moved [OF True, of lid lid n time ls] assms by simp
  then obtain l where "map_of (rev ?ps) x = Some l" by (metis weak_map_of_SomeI)
  moreover from map_of_SomeD [OF this] have "l = lid" using pairs_commit_moved [OF True, of l lid n time ls] by simp
  ultimately show ?thesis unfolding layer_of_pairs using True by simp
next
  case False
  then show ?thesis
    using map_of_at [of "rev (layer_pairs (map (commit_to es ds lid n time) ls))" x] map_of_at [of "rev (layer_pairs ls)" x]
      pairs_commit_other [OF False, of lid n time ls] by (simp add: layer_of_pairs flip: rev_filter)
qed

section \<open>Children and parents\<close>

definition together_in :: "studio_env \<Rightarrow> view_layer list \<Rightarrow> bool" where
  "together_in env ls \<longleftrightarrow>
     (\<forall>c p. mget (studio_parents env) c = Some p \<and> p \<noteq> '''' \<and> truthy (layer_of env ls c) \<and> truthy (layer_of env ls p)
        \<longrightarrow> layer_of env ls c = layer_of env ls p)"

lemma together_inD:
  assumes "together_in env ls" and "mget (studio_parents env) c = Some p" and "p \<noteq> ''''"
    and "layer_of env ls c = Some a" and "layer_of env ls p = Some b" and "a \<noteq> ''''" and "b \<noteq> ''''"
  shows "a = b"
proof -
  have "truthy (layer_of env ls c)" "truthy (layer_of env ls p)" using assms(4-) by simp_all
  with assms(1-3) have "layer_of env ls c = layer_of env ls p" by (simp only: together_in_def simp_thms)
  with assms(4,5) show ?thesis by simp
qed

text \<open>What a handler may commit: entities that are not locked, and all their descendants that are elsewhere.\<close>

definition fair_move :: "studio_env \<Rightarrow> view_layer list \<Rightarrow> ident list \<Rightarrow> ident list \<Rightarrow> ident \<Rightarrow> bool" where
  "fair_move env ls es ds lid \<longleftrightarrow> lid \<noteq> '''' \<and> lid \<in> vl_id ` set ls \<and> (\<forall>e \<in> set es. \<not> isContainmentLocked env ls e lid)
     \<and> set ds = (\<Union>e \<in> set es. set (getDescendantsInDifferentLayer env ls e lid))"

lemma descendants_elsewhere:
  assumes "jsm_ok (studio_parents env)"
  shows "set (getDescendantsInDifferentLayer env ls e lid) =
    {d. below (studio_parents env) e d \<and> truthy (layer_of env ls d) \<and> layer_of env ls d \<noteq> Some lid}"
  by (auto simp: getDescendantsInDifferentLayer_def descend_children [OF assms])

lemma commit_keeps_together:
  assumes ok: "jsm_ok (studio_parents env)" and old: "together_in env ls" and fair: "fair_move env ls es ds lid"
  shows "together_in env (map (commit_to es ds lid n time) ls)"
proof -
  let ?ls = "map (commit_to es ds lid n time) ls" and ?M = "set es \<union> set ds" and ?L = "layer_of env ls"
  have lid: "lid \<in> vl_id ` set ls" "lid \<noteq> ''''" and free: "\<not> isContainmentLocked env ls e lid" if "e \<in> set es" for e
    using fair that by (auto simp: fair_move_def)
  have new: "layer_of env ?ls x = (if x \<in> ?M then Some lid else ?L x)" for x
    using fair by (intro layer_of_commit) (simp add: fair_move_def)
  have ds: "d \<in> set ds \<longleftrightarrow> (\<exists>e \<in> set es. below (studio_parents env) e d) \<and> truthy (?L d) \<and> ?L d \<noteq> Some lid" for d
    using fair descendants_elsewhere [OF ok, of ls] by (auto simp: fair_move_def)
  show ?thesis
    unfolding together_in_def
  proof (intro allI impI)
    fix c p assume cp: "mget (studio_parents env) c = Some p \<and> p \<noteq> '''' \<and> truthy (layer_of env ?ls c) \<and> truthy (layer_of env ?ls p)"
    show "layer_of env ?ls c = layer_of env ?ls p"
    proof (cases "p \<in> ?M")
      case True
      then have "\<exists>e \<in> set es. below (studio_parents env) e c" using cp ds by (auto intro: below.intros)
      with cp show ?thesis using ds [of c] True by (auto simp: new)
    next
      case p: False
      show ?thesis
      proof (cases "c \<in> ?M")
        case True
        consider (top) "c \<in> set es" | (deep) e where "e \<in> set es" "below (studio_parents env) e c" using True ds by auto
        then have "?L p = Some lid"
        proof cases
          case top
          from free [OF this] cp p show ?thesis by (auto simp: isContainmentLocked_def Let_def new elim: truthyE)
        next
          case deep
          with cp below_parent [OF deep(2), of p] p have "below (studio_parents env) e p" by auto
          with deep(1) cp p ds [of p] show ?thesis by (auto simp: new)
        qed
        with True p show ?thesis by (simp add: new)
      next
        case False
        with p cp old show ?thesis by (simp add: new together_in_def)
      qed
    qed
  qed
qed

text \<open>
  The layers of the present and of every snapshot, and the move a question asks for.
\<close>

definition studio_ok :: "studio_env \<Rightarrow> studio \<Rightarrow> bool" where
  "studio_ok env s \<longleftrightarrow>
     (\<forall>ls \<in> insert (lz_layers s) (set (lz_undo s) \<union> set (lz_redo s)). together_in env ls)
     \<and> (\<forall>r. lz_pending s = Some r \<longrightarrow> together_in env (ra_layers r) \<and> fair_move env (ra_layers r) (ra_entities r) (ra_descendants r) (ra_layerId r))"

text \<open>
  Assignments go to layers that exist, an entity is taken out only if the model has not assigned it too,
  and other edits leave every entity in its layer.
\<close>

fun keeps_layers :: "studio_env \<Rightarrow> studio_event \<Rightarrow> studio \<Rightarrow> bool" where
  "keeps_layers env (Assign_Entity e l time) s \<longleftrightarrow> (if truthy l then the l \<in> vl_id ` set (lz_layers s) else mget (mfrom (se_storeLayers env)) e = None)"
| "keeps_layers env (Bulk_Assign l es time) s \<longleftrightarrow> l \<noteq> '''' \<and> l \<in> vl_id ` set (lz_layers s)"
| "keeps_layers env (Hierarchy_Drop l n es e time) s \<longleftrightarrow> l \<noteq> '''' \<and> l \<in> vl_id ` set (lz_layers s)"
| "keeps_layers env (Reorder_Layers ids) s \<longleftrightarrow> layer_of env (lz_layers (handleReorderLayers ids s)) = layer_of env (lz_layers s)"
| "keeps_layers env (Update_Layers ls) s \<longleftrightarrow> layer_of env ls = layer_of env (lz_layers s)"
| "keeps_layers env _ s \<longleftrightarrow> True"

lemma together_cong: "layer_of env ls = layer_of env ls' \<Longrightarrow> together_in env ls = together_in env ls'"
  by (simp add: together_in_def)

lemma update_from_simps:
  "lz_layers (update_from shown new s) = new" "lz_redo (update_from shown new s) = []" "lz_pending (update_from shown new s) = lz_pending s"
  "set (lz_undo (update_from shown new s)) \<subseteq> insert shown (set (lz_undo s))"
  using list.set_sel(2) [of "lz_undo s @ [shown]"] by (auto simp: update_from_def Let_def)

lemma studio_ok_warning [simp]: "studio_ok env (s\<lparr>lz_warning := w\<rparr>) = studio_ok env s"
  by (simp add: studio_ok_def)

lemma update_from_ok:
  "studio_ok env s \<Longrightarrow> together_in env shown \<Longrightarrow> together_in env new \<Longrightarrow> studio_ok env (update_from shown new s)"
  using update_from_simps(4) [of shown new s] by (auto simp: studio_ok_def update_from_simps(1-3) dest!: subsetD)

lemma studio_ok_dismiss: "studio_ok env s \<Longrightarrow> studio_ok env (s\<lparr>lz_pending := None\<rparr>)"
  by (simp add: studio_ok_def)

lemma commit_ok:
  assumes "jsm_ok (studio_parents env)" and "studio_ok env s" and "together_in env shown" and "fair_move env shown es ds lid"
  shows "studio_ok env (commitAssignment shown es ds lid n time s)"
  unfolding commitAssignment_def by (rule update_from_ok [OF assms(2,3) commit_keeps_together [OF assms(1,3,4)]])

lemma confirm_or_commit_ok:
  assumes "jsm_ok (studio_parents env)" and "studio_ok env s" and "fair_move env (lz_layers s) es ds lid"
  shows "studio_ok env (confirmOrCommit es ds lid n time s)"
proof -
  have now: "together_in env (lz_layers s)" using assms(2) by (simp add: studio_ok_def)
  show ?thesis
  proof (cases "ds = []")
    case True
    with commit_ok [OF assms(1,2) now] assms(3) show ?thesis by (simp add: confirmOrCommit_def)
  next
    case False
    with assms(2,3) now show ?thesis by (simp add: confirmOrCommit_def studio_ok_def)
  qed
qed

lemma studio_ok_target [simp]: "studio_ok env (drop_target arrow l n s0 s) = studio_ok env s"
  by (simp add: drop_target_def studio_ok_def Let_def split: option.split)

lemma studio_ok_blocked [simp]: "studio_ok env (blocked k s) = studio_ok env s" "lz_layers (blocked k s) = lz_layers s"
  by (simp_all add: blocked_def studio_ok_def)

lemma fair_filter:
  "lid \<noteq> '''' \<Longrightarrow> lid \<in> vl_id ` set ls \<Longrightarrow>
     fair_move env ls (filter (\<lambda>e. \<not> isContainmentLocked env ls e lid) es)
       (concat (map (\<lambda>e. getDescendantsInDifferentLayer env ls e lid) (filter (\<lambda>e. \<not> isContainmentLocked env ls e lid) es))) lid"
  by (auto simp: fair_move_def)

lemma studio_ok_step:
  assumes ok: "jsm_ok (studio_parents env)" and s: "studio_ok env s" and e: "keeps_layers env e s"
  shows "studio_ok env (studio_step arrow env e s)"
proof -
  have now: "together_in env (lz_layers s)" using s by (simp add: studio_ok_def)
  show ?thesis
  proof (cases e)
    case (Assign_Entity en l time)
    show ?thesis
    proof (cases "truthy l")
      case True
      with e have "fair_move env (lz_layers s) [en] (getDescendantsInDifferentLayer env (lz_layers s) en (the l)) (the l)"
        if "\<not> isContainmentLocked env (lz_layers s) en (the l)"
        using that by (auto simp: fair_move_def Assign_Entity elim: truthyE)
      with True confirm_or_commit_ok [OF ok s] s show ?thesis by (simp add: Assign_Entity handleAssignmentChange_def)
    next
      case False
      with e have "together_in env (map (unassign_in en) (lz_layers s))"
        using now by (auto simp: together_in_def layer_of_unassign Assign_Entity)
      with False update_from_ok [OF s now] show ?thesis by (simp add: Assign_Entity handleAssignmentChange_def handleUpdateLayers_def)
    qed
  next
    case (Bulk_Assign l es time)
    with e s confirm_or_commit_ok [OF ok, of "blocked _ s"] fair_filter [of l "lz_layers s" env es]
    show ?thesis by (simp add: handleBulkAssignment_def Let_def)
  next
    case (Hierarchy_Drop l n es single time)
    with e s confirm_or_commit_ok [OF ok, of "blocked _ s"] fair_filter [of l "lz_layers s" env "dropped_ids es single"]
    show ?thesis by (simp add: handleHierarchyDrop_def Let_def)
  next
    case (Confirm_Reassign time)
    show ?thesis
    proof (cases "lz_pending s")
      case (Some r)
      then have "together_in env (ra_layers r)" "fair_move env (ra_layers r) (ra_entities r) (ra_descendants r) (ra_layerId r)"
        using s by (simp_all add: studio_ok_def)
      from studio_ok_dismiss [OF commit_ok [OF ok s this]] Some Confirm_Reassign show ?thesis by (simp add: confirm_pending_def)
    qed (simp add: Confirm_Reassign confirm_pending_def s)
  next
    case Dismiss_Reassign
    with s show ?thesis by (simp add: studio_ok_def)
  next
    case (Reorder_Layers ids)
    obtain new where new: "handleReorderLayers ids s = update_from (lz_layers s) new s"
      by (simp add: handleReorderLayers_def handleUpdateLayers_def Let_def)
    have "layer_of env (lz_layers (handleReorderLayers ids s)) = layer_of env (lz_layers s)" using e by (simp only: Reorder_Layers keeps_layers.simps)
    then have "together_in env new" using now together_cong [of env new "lz_layers s"] by (simp only: new update_from_simps)
    from update_from_ok [OF s now this] show ?thesis by (simp only: Reorder_Layers studio_step.simps new)
  next
    case (Update_Layers ls)
    with e have "together_in env ls" using now together_cong [of env ls "lz_layers s"] by (simp only: keeps_layers.simps)
    from update_from_ok [OF s now this] show ?thesis by (simp only: Update_Layers studio_step.simps handleUpdateLayers_def)
  next
    case Studio_Undo
    with s show ?thesis by (auto simp: studio_ok_def handleUndo_def dest: in_set_butlastD)
  next
    case Studio_Redo
    with s show ?thesis by (auto simp: studio_ok_def handleRedo_def dest: in_set_butlastD)
  next
    case Warning_Over
    with s show ?thesis by (simp add: studio_ok_def)
  qed
qed

text \<open>
  C10: start where every child that has a layer is in that of its parent, in the layers, the snapshots and the
  question shown. Then, through every history of assignments, bulk assignments, drops, answers to the question,
  undos and redos, an entity with a layer is in the layer of its parent if the parent has one, under these
  conditions (\<open>keeps_layers\<close>): assignments and drops go to layers that exist; an entity is taken out only if the
  model's assignments do not mention it; and edits of another kind (reordering and updates of the layers) leave the
  entities in their layers. Without the second, the parent and child can part (\<open>taken_out_falls_back\<close>).
\<close>

theorem studio_children_stay_with_their_parent:
  assumes "jsm_ok (studio_parents env)" and "studio_ok env s"
    and "\<And>fs e gs. es = fs @ e # gs \<Longrightarrow> keeps_layers env e (run (studio_step arrow env) fs s)"
    and "ls = lz_layers (run (studio_step arrow env) es s)"
    and "mget (studio_parents env) c = Some p" and "p \<noteq> ''''"
    and "layer_of env ls c = Some a" and "layer_of env ls p = Some b" and "a \<noteq> ''''" and "b \<noteq> ''''"
  shows "a = b"
proof -
  have "studio_ok env (run (studio_step arrow env) es s)"
    using assms(3)
  proof (induction es rule: rev_induct)
    case (snoc e es)
    have "keeps_layers env e' (run (studio_step arrow env) fs s)" if "es = fs @ e' # gs" for fs e' gs
      using snoc.prems [of fs e' "gs @ [e]"] that by simp
    with snoc.IH have "studio_ok env (run (studio_step arrow env) es s)" by blast
    with snoc.prems [of es e "[]"] show ?case by (simp add: run_append studio_ok_step [OF assms(1)])
  qed (simp add: assms(2))
  then have "together_in env ls" by (simp add: studio_ok_def assms(4))
  from together_inD [OF this assms(5-10)] show ?thesis .
qed

section \<open>Examples\<close>

definition empty_layer :: "ident \<Rightarrow> view_layer" where
  "empty_layer i = \<lparr>vl_id = i, vl_name = i, vl_order = 0, vl_sequence = None, vl_logicalNodes = None, vl_entityAssignments = None, vl_rest = []\<rparr>"

definition sample_studio :: studio where
  "sample_studio = \<lparr>lz_layers = [empty_layer ''L1'', empty_layer ''L2''], lz_undo = [], lz_redo = [], lz_target = None, lz_warning = None, lz_pending = None\<rparr>"

text \<open>\<open>p\<close> contains \<open>c\<close>, which contains \<open>d\<close>.\<close>

definition sample_env :: "(ident, ident) jsmap \<Rightarrow> studio_env" where
  "sample_env st = \<lparr>se_edges = [], se_containmentTypes = [], se_storeParents = [(''c'', ''p''), (''d'', ''c'')], se_storeLayers = st\<rparr>"

abbreviation studio_run :: "(ident, ident) jsmap \<Rightarrow> studio_event list \<Rightarrow> studio" where
  "studio_run st es \<equiv> run (studio_step '' > '' (sample_env st)) es sample_studio"

abbreviation layers_in :: "(ident, ident) jsmap \<Rightarrow> studio \<Rightarrow> ident list \<Rightarrow> ident option list" where
  "layers_in st s es \<equiv> map (layer_of (sample_env st) (lz_layers s)) es"

lemma studio_children_stay_with_their_parent_witness:
  "layers_in [] (studio_run [] [Assign_Entity ''p'' (Some ''L1'') ''t'', Assign_Entity ''c'' (Some ''L1'') ''t'',
      Assign_Entity ''p'' (Some ''L2'') ''t'', Confirm_Reassign ''t'']) [''c'', ''p''] = [Some ''L2'', Some ''L2'']"
proof -
  let ?es = "[Assign_Entity ''p'' (Some ''L1'') ''t'', Assign_Entity ''c'' (Some ''L1'') ''t'', Assign_Entity ''p'' (Some ''L2'') ''t'', Confirm_Reassign ''t'']"
  let ?ls = "lz_layers (studio_run [] ?es)"
  have parent: "layer_of (sample_env []) ?ls ''p'' = Some ''L2''" by code_simp
  have "layer_of (sample_env []) ?ls ''c'' \<noteq> None" "layer_of (sample_env []) ?ls ''c'' \<noteq> Some ''''" by code_simp+
  then obtain a where child: "layer_of (sample_env []) ?ls ''c'' = Some a" and a: "a \<noteq> ''''" by blast
  have ok: "jsm_ok (studio_parents (sample_env []))" "mget (studio_parents (sample_env [])) ''c'' = Some ''p''" by code_simp+
  have start: "studio_ok (sample_env []) sample_studio"
    by (simp add: studio_ok_def sample_studio_def together_in_def layer_of_def layerAssignmentMap_def layer_pairs_def assignments_in_def empty_layer_def
        sample_env_def mfrom_def)
  let ?step = "studio_step '' > '' (sample_env [])"
  have to: "keeps_layers (sample_env []) (Assign_Entity e (Some ''L1'') time) s \<longleftrightarrow> ''L1'' \<in> set (map vl_id (lz_layers s))"
    "keeps_layers (sample_env []) (Assign_Entity e (Some ''L2'') time) s \<longleftrightarrow> ''L2'' \<in> set (map vl_id (lz_layers s))" for e time s
    by simp_all
  note step = all_steps_Cons [where P = "keeps_layers (sample_env [])" and step = ?step, rotated 2]
  have keeps: "keeps_layers (sample_env []) e (run ?step fs sample_studio)" if "?es = fs @ e # gs" for fs e gs
    using that
    apply (elim step all_steps_Nil)
       apply (unfold to keeps_layers.simps)
       apply (code_simp+)
    done
  have "a = ''L2''"
  proof (rule studio_children_stay_with_their_parent [where es = ?es and arrow = "'' > ''", OF ok(1) start _ refl ok(2) _ child parent a])
    show "keeps_layers (sample_env []) e (run ?step fs sample_studio)" if "?es = fs @ e # gs" for fs e gs by (rule keeps [OF that])
  qed simp_all
  with child parent show ?thesis by (simp del: run_simps)
qed

text \<open>
  An entity that the model has assigned falls back to that layer when the editor takes it out, whatever
  the layer of its parent is now.
\<close>

lemma taken_out_falls_back:
  "(let st = [(''p'', ''L1''), (''c'', ''L1'')]; s = studio_run st [Assign_Entity ''p'' (Some ''L2'') ''t'', Confirm_Reassign ''t'', Assign_Entity ''c'' None ''t'']
    in layers_in st s [''p'', ''c''] = [Some ''L2'', Some ''L1''])"
  by code_simp

text \<open>A parent and its child that are assigned together: the child is assigned twice.\<close>

lemma bulk_assigns_twice:
  "(let s = studio_run [(''c'', ''L1'')] [Bulk_Assign ''L2'' [''p'', ''c''] ''t'', Confirm_Reassign ''t'']
    in map (\<lambda>l. map (\<lambda>a. (ac_entityId a, ac_priority a)) (assignments_in l)) (lz_layers s) = [[], [(''p'', 1000), (''c'', 1000), (''c'', 999)]])"
  by code_simp

text \<open>The warning says the child was blocked, although it moves along with its parent.\<close>

lemma warned_although_moved:
  "(let st = [(''p'', ''L1''), (''c'', ''L1'')]; s = studio_run st [Bulk_Assign ''L2'' [''p'', ''c''] ''t'', Confirm_Reassign ''t'']
    in lz_warning s = Some (blocked_warning 1) \<and> layers_in st s [''p'', ''c''] = [Some ''L2'', Some ''L2''])"
  by code_simp

text \<open>Only the parent is looked at: below a parent without a layer a child may leave its grandparent.\<close>

lemma grandparents_are_not_asked:
  "(let s = studio_run [] [Assign_Entity ''p'' (Some ''L1'') ''t'', Assign_Entity ''d'' (Some ''L2'') ''t'']
    in layers_in [] s [''p'', ''c'', ''d''] = [Some ''L1'', None, Some ''L2''])"
  by code_simp

text \<open>The answer to a question works on the layers it was asked with: an undo in between is overwritten.\<close>

lemma confirm_overwrites_undo:
  "(let s = studio_run [(''c'', ''L1'')] [Assign_Entity ''x'' (Some ''L1'') ''t'', Assign_Entity ''p'' (Some ''L2'') ''t'', Studio_Undo, Confirm_Reassign ''t'']
    in layers_in [] s [''x'', ''p'', ''c''] = [Some ''L1'', Some ''L2'', Some ''L2''])"
  by code_simp

text \<open>Folding a group, which the hook of the groups does not count as a step, is one here.\<close>

lemma folding_is_a_step:
  "(let s = handleUpdateLayers (collapse_in_layers ''L'' ''a'' [sample_layer]) (sample_studio\<lparr>lz_layers := [sample_layer]\<rparr>)
    in lz_undo s = [[sample_layer]])"
  by code_simp

end
