(* ===== verification/Auto_Organize.thy ===== *)
theory Auto_Organize
  imports Layer_Studio
begin

text \<open>
  The suggestions of the layer editor (\<^verbatim>\<open>hooks/useAutoOrganize.ts\<close>): names of groups are compared with names
  of entities, the best group of each entity that has none is suggested, and the user accepts or dismisses.
\<close>

section \<open>Comparing names\<close>

record flat_node =
  fn_layerId :: ident
  fn_layerName :: string
  fn_nodeId :: ident
  fn_nodeName :: string
  fn_depth :: nat

fun flattenNodes :: "group_node list \<Rightarrow> ident \<Rightarrow> string \<Rightarrow> nat \<Rightarrow> flat_node list" where
  "flattenNodes [] lid lname d = []"
| "flattenNodes (Group i nm ds ty cs rs cl # ns) lid lname d =
     \<lparr>fn_layerId = lid, fn_layerName = lname, fn_nodeId = i, fn_nodeName = nm, fn_depth = d\<rparr>
       # (case cs of None \<Rightarrow> [] | Some ks \<Rightarrow> flattenNodes ks lid lname (d + 1)) @ flattenNodes ns lid lname d"

definition normalise :: "string \<Rightarrow> string" where
  "normalise s = filter (\<lambda>c. c \<notin> set ''_-. '') (toLowerCase s)"

text \<open>\<^verbatim>\<open>s.split(/\s+/)\<close>\<close>

function split_spaces :: "string \<Rightarrow> string list" where
  "split_spaces s =
     (let w = takeWhile (\<lambda>c. \<not> is_space c) s; r = dropWhile (\<lambda>c. \<not> is_space c) s
      in if r = [] then [w] else w # split_spaces (dropWhile is_space r))"
  by pat_completeness auto

lemma drop_spaces_shorter:
  assumes "dropWhile (\<lambda>c. \<not> is_space c) s \<noteq> []"
  shows "length (dropWhile is_space (dropWhile (\<lambda>c. \<not> is_space c) s)) < length s"
proof -
  let ?r = "dropWhile (\<lambda>c. \<not> is_space c) s"
  obtain c r where r: "?r = c # r" using assms by (cases ?r) auto
  then have "is_space c" using hd_dropWhile [of "\<lambda>c. \<not> is_space c" s] by simp
  then have "dropWhile is_space ?r = dropWhile is_space r" by (simp add: r)
  moreover have "length (dropWhile is_space r) \<le> length r" by (rule length_dropWhile_le)
  moreover have "length ?r \<le> length s" by (rule length_dropWhile_le)
  ultimately show ?thesis using r by simp
qed

termination split_spaces
  by (relation "measure length") (auto simp: drop_spaces_shorter simp del: dropWhile_eq_Nil_conv)

declare split_spaces.simps [simp del]

definition js_round :: "rat \<Rightarrow> int" where
  "js_round x = \<lfloor>x + 1 / 2\<rfloor>"

definition scoreMatch :: "string \<Rightarrow> string \<Rightarrow> int" where
  "scoreMatch entityName nodeName =
     (let e = normalise entityName; n = normalise nodeName
      in if e = n then 100
         else if is_infix n e \<or> is_infix e n then 75
         else (let tokens = split_spaces n; matched = filter (\<lambda>t. is_infix t e) tokens
               in if 0 < length matched then js_round (of_nat (length matched) / of_nat (length tokens) * 50) else 0))"

section \<open>Suggestions\<close>

datatype confidence = High_Confidence | Medium_Confidence | Low_Confidence

record suggestion =
  sg_entityId :: ident
  sg_entityName :: string
  sg_entityType :: string
  sg_layerId :: ident
  sg_layerName :: string
  sg_nodeId :: ident
  sg_nodeName :: string
  sg_confidence :: confidence
  sg_reason :: string

record named_entity =
  en_id :: ident
  en_name :: string
  en_type :: string

definition all_groups :: "view_layer list \<Rightarrow> flat_node list" where
  "all_groups ls = concat (map (\<lambda>l. flattenNodes (groups_of l) (vl_id l) (vl_name l) 0) ls)"

definition grouped_ids :: "view_layer list \<Rightarrow> ident set" where
  "grouped_ids ls = set (concat (map (\<lambda>l. map ac_entityId (filter (\<lambda>a. truthy (ac_logicalNodeId a)) (assignments_in l))) ls))"

definition better :: "string \<Rightarrow> flat_node \<Rightarrow> int \<times> flat_node option \<Rightarrow> int \<times> flat_node option" where
  "better name n b = (let score = scoreMatch name (fn_nodeName n) in if fst b < score then (score, Some n) else b)"

definition best_group :: "string \<Rightarrow> flat_node list \<Rightarrow> int \<times> flat_node option" where
  "best_group name ns = fold (better name) ns (0, None)"

definition confidence_of_score :: "int \<Rightarrow> confidence" where
  "confidence_of_score k = (if 75 \<le> k then High_Confidence else if 50 \<le> k then Medium_Confidence else Low_Confidence)"

definition quoted :: "string \<Rightarrow> string" where
  "quoted s = [CHR 0x22] @ s @ [CHR 0x22]"

definition suggest :: "flat_node list \<Rightarrow> named_entity \<Rightarrow> suggestion option" where
  "suggest groups e =
     (case best_group (en_name e) groups of
        (k, Some n) \<Rightarrow>
          if 30 \<le> k
          then Some \<lparr>sg_entityId = en_id e, sg_entityName = en_name e, sg_entityType = en_type e, sg_layerId = fn_layerId n,
                 sg_layerName = fn_layerName n, sg_nodeId = fn_nodeId n, sg_nodeName = fn_nodeName n, sg_confidence = confidence_of_score k,
                 sg_reason = quoted (en_name e) @ '' matches group '' @ quoted (fn_nodeName n) @ '' ('' @ dec_of_int k @ ''% confidence)''\<rparr>
          else None
      | (k, None) \<Rightarrow> None)"

definition confidence_order :: "confidence \<Rightarrow> nat" where
  "confidence_order c = (case c of High_Confidence \<Rightarrow> 0 | Medium_Confidence \<Rightarrow> 1 | Low_Confidence \<Rightarrow> 2)"

definition analyse :: "named_entity list \<Rightarrow> view_layer list \<Rightarrow> suggestion list" where
  "analyse entities ls =
     (let groups = all_groups ls
      in if groups = [] then []
         else sort_key (\<lambda>s. confidence_order (sg_confidence s))
                (List.map_filter (suggest groups) (filter (\<lambda>e. en_id e \<notin> grouped_ids ls) entities)))"

section \<open>Accepting\<close>

definition inferred_assignment :: "suggestion \<Rightarrow> string \<Rightarrow> assignment_config" where
  "inferred_assignment s time =
     \<lparr>ac_entityId = sg_entityId s, ac_layerId = sg_layerId s, ac_logicalNodeId = Some (sg_nodeId s), ac_inheritsChildren = True,
      ac_priority = 1000, ac_assignedBy = Some By_Inference, ac_assignedAt = Some time\<rparr>"

definition apply_to_layer :: "suggestion \<Rightarrow> string \<Rightarrow> view_layer \<Rightarrow> view_layer" where
  "apply_to_layer s time l =
     (let filtered = filter (\<lambda>a. ac_entityId a \<noteq> sg_entityId s) (assignments_in l)
      in if vl_id l \<noteq> sg_layerId s then l\<lparr>vl_entityAssignments := Some filtered\<rparr>
         else l\<lparr>vl_entityAssignments := Some (filtered @ [inferred_assignment s time])\<rparr>)"

definition applyOneSuggestion :: "suggestion \<Rightarrow> string \<Rightarrow> view_layer list \<Rightarrow> view_layer list" where
  "applyOneSuggestion s time ls = map (apply_to_layer s time) ls"

text \<open>The suggestions and the layers, which \<^verbatim>\<open>onUpdate\<close> receives.\<close>

definition acceptAll :: "string \<Rightarrow> suggestion list \<times> view_layer list \<Rightarrow> suggestion list \<times> view_layer list" where
  "acceptAll time st = ([], fold (\<lambda>s. applyOneSuggestion s time) (fst st) (snd st))"

definition acceptOne :: "string \<Rightarrow> suggestion \<Rightarrow> suggestion list \<times> view_layer list \<Rightarrow> suggestion list \<times> view_layer list" where
  "acceptOne time s st = (filter (\<lambda>t. sg_entityId t \<noteq> sg_entityId s) (fst st), applyOneSuggestion s time (snd st))"

definition dismissOne :: "ident \<Rightarrow> suggestion list \<Rightarrow> suggestion list" where
  "dismissOne e ss = filter (\<lambda>s. sg_entityId s \<noteq> e) ss"

definition clearAll :: "suggestion list \<Rightarrow> suggestion list" where
  "clearAll ss = []"

section \<open>The best group\<close>

lemma best_group_fold:
  "fold (better name) ns (k, b) =
     (if \<exists>n \<in> set ns. k < scoreMatch name (fn_nodeName n)
      then (Max ((\<lambda>n. scoreMatch name (fn_nodeName n)) ` set ns),
            find_first (\<lambda>n. scoreMatch name (fn_nodeName n) = Max ((\<lambda>n. scoreMatch name (fn_nodeName n)) ` set ns)) ns)
      else (k, b))"
proof (induction ns arbitrary: k b)
  case (Cons n ns)
  let ?s = "\<lambda>n. scoreMatch name (fn_nodeName n)"
  have max: "Max (insert (?s n) (?s ` set ns)) = max (?s n) (Max (?s ` set ns))" if "set ns \<noteq> {}"
    using that by (intro Max_insert) auto
  have le: "?s m \<le> Max (?s ` set ns)" if "m \<in> set ns" for m using that by (intro Max_ge) auto
  show ?case
  proof (cases "k < ?s n")
    case True
    then have step: "fold (better name) (n # ns) (k, b) = fold (better name) ns (?s n, Some n)" by (simp add: better_def)
    show ?thesis
    proof (cases "\<exists>m \<in> set ns. ?s n < ?s m")
      case more: True
      then have "?s n < Max (?s ` set ns)" using le by (meson less_le_trans)
      moreover have "set ns \<noteq> {}" using more by auto
      ultimately show ?thesis unfolding step Cons.IH using True more by (auto simp: max)
    next
      case False
      then have "Max (insert (?s n) (?s ` set ns)) = ?s n" by (intro Max_eqI) (auto simp: not_less)
      then show ?thesis unfolding step Cons.IH using True False by simp
    qed
  next
    case False
    then have step: "fold (better name) (n # ns) (k, b) = fold (better name) ns (k, b)" by (simp add: better_def)
    show ?thesis
    proof (cases "\<exists>m \<in> set ns. k < ?s m")
      case more: True
      then have "?s n < Max (?s ` set ns)" using le False by (meson less_le_trans not_less le_less_trans)
      moreover have "set ns \<noteq> {}" using more by auto
      ultimately show ?thesis unfolding step Cons.IH using more by (auto simp: max)
    next
      case none: False
      then have "fold (better name) ns (k, b) = (k, b)" unfolding Cons.IH by (simp only: if_False)
      with none False step show ?thesis by (simp del: fold_simps)
    qed
  qed
qed simp

lemma scoreMatch_range: "0 \<le> scoreMatch e n"
  by (simp add: scoreMatch_def Let_def js_round_def)

lemma best_group_cases:
  obtains (none) "best_group name ns = (0, None)" "\<And>m. m \<in> set ns \<Longrightarrow> scoreMatch name (fn_nodeName m) = 0"
    | (some) n where "n \<in> set ns" "best_group name ns = (scoreMatch name (fn_nodeName n), Some n)"
        "\<And>m. m \<in> set ns \<Longrightarrow> scoreMatch name (fn_nodeName m) \<le> scoreMatch name (fn_nodeName n)"
proof (cases "\<exists>n \<in> set ns. 0 < scoreMatch name (fn_nodeName n)")
  case False
  then have "best_group name ns = (0, None)" by (simp add: best_group_def best_group_fold)
  moreover have "scoreMatch name (fn_nodeName m) = 0" if "m \<in> set ns" for m using False that scoreMatch_range [of name "fn_nodeName m"] by force
  ultimately show thesis by (rule none)
next
  case True
  let ?s = "\<lambda>n. scoreMatch name (fn_nodeName n)" and ?m = "Max ((\<lambda>n. scoreMatch name (fn_nodeName n)) ` set ns)"
  have best: "best_group name ns = (?m, find_first (\<lambda>n. ?s n = ?m) ns)" using True by (simp add: best_group_def best_group_fold)
  have "?m \<in> ?s ` set ns" using True by (intro Max_in) auto
  then have "find_first (\<lambda>n. ?s n = ?m) ns \<noteq> None" by (auto simp: find_first_None)
  then obtain n where n: "find_first (\<lambda>n. ?s n = ?m) ns = Some n" by auto
  from find_first_Some [OF n] have "n \<in> set ns" "?s n = ?m" by simp_all
  moreover have "?s m \<le> ?m" if "m \<in> set ns" for m using that by (intro Max_ge) auto
  ultimately show thesis using best n some [of n] by simp
qed

lemma set_map_filter: "y \<in> set (List.map_filter f xs) \<longleftrightarrow> (\<exists>x \<in> set xs. f x = Some y)"
  by (induction xs) (auto simp: List.map_filter_simps split: option.splits)

lemma analyse_iff: "s \<in> set (analyse es ls) \<longleftrightarrow> (\<exists>e \<in> set es. en_id e \<notin> grouped_ids ls \<and> suggest (all_groups ls) e = Some s)"
proof (cases "all_groups ls = []")
  case True
  then show ?thesis by (simp add: analyse_def suggest_def best_group_def)
qed (auto simp: analyse_def set_map_filter)

text \<open>
  a suggestion names an entity without a group and a group of the view that matches its name with at
  least 30 and as well as any other group; every entity without a group that some group matches so well
  gets a suggestion.
\<close>

theorem suggestions_name_a_best_group:
  "(\<forall>s \<in> set (analyse es ls). \<exists>e n. e \<in> set es \<and> en_id e \<notin> grouped_ids ls \<and> n \<in> set (all_groups ls)
      \<and> sg_entityId s = en_id e \<and> sg_layerId s = fn_layerId n \<and> sg_nodeId s = fn_nodeId n
      \<and> 30 \<le> scoreMatch (en_name e) (fn_nodeName n)
      \<and> (\<forall>m \<in> set (all_groups ls). scoreMatch (en_name e) (fn_nodeName m) \<le> scoreMatch (en_name e) (fn_nodeName n)))
   \<and> (\<forall>e \<in> set es. \<forall>m \<in> set (all_groups ls). en_id e \<notin> grouped_ids ls \<and> 30 \<le> scoreMatch (en_name e) (fn_nodeName m)
        \<longrightarrow> en_id e \<in> sg_entityId ` set (analyse es ls))"
proof (intro conjI ballI impI)
  fix s assume "s \<in> set (analyse es ls)"
  then obtain e where e: "e \<in> set es" "en_id e \<notin> grouped_ids ls" "suggest (all_groups ls) e = Some s" by (auto simp: analyse_iff)
  show "\<exists>e n. e \<in> set es \<and> en_id e \<notin> grouped_ids ls \<and> n \<in> set (all_groups ls)
      \<and> sg_entityId s = en_id e \<and> sg_layerId s = fn_layerId n \<and> sg_nodeId s = fn_nodeId n
      \<and> 30 \<le> scoreMatch (en_name e) (fn_nodeName n)
      \<and> (\<forall>m \<in> set (all_groups ls). scoreMatch (en_name e) (fn_nodeName m) \<le> scoreMatch (en_name e) (fn_nodeName n))"
  proof (cases rule: best_group_cases [of "en_name e" "all_groups ls"])
    case none
    with e(3) show ?thesis by (simp add: suggest_def)
  next
    case (some n)
    with e show ?thesis by (intro exI [of _ e] exI [of _ n]) (auto simp: suggest_def split: if_splits)
  qed
next
  fix e m assume e: "e \<in> set es" and m: "m \<in> set (all_groups ls)"
    and good: "en_id e \<notin> grouped_ids ls \<and> 30 \<le> scoreMatch (en_name e) (fn_nodeName m)"
  show "en_id e \<in> sg_entityId ` set (analyse es ls)"
  proof (cases rule: best_group_cases [of "en_name e" "all_groups ls"])
    case none
    with m good show ?thesis by force
  next
    case (some n)
    with m good obtain s where "suggest (all_groups ls) e = Some s" "sg_entityId s = en_id e" by (force simp: suggest_def)
    with e good show ?thesis by (force simp: analyse_iff)
  qed
qed

section \<open>Accepting all and accepting each\<close>

definition accept_each :: "string \<Rightarrow> suggestion list \<times> view_layer list \<Rightarrow> suggestion list \<times> view_layer list" where
  "accept_each time st = fold (acceptOne time) (fst st) st"

lemma fold_accept: "fold (acceptOne time) ss (ts, ls) = (filter (\<lambda>t. sg_entityId t \<notin> sg_entityId ` set ss) ts, fold (\<lambda>s. applyOneSuggestion s time) ss ls)"
  by (induction ss arbitrary: ts ls) (auto simp: acceptOne_def intro!: filter_cong)

lemma accept_all_is_each: "acceptAll time st = accept_each time st"
  by (cases st) (auto simp: accept_each_def fold_accept acceptAll_def)

lemma apply_to_layer_simps [simp]:
  "vl_id (apply_to_layer s time l) = vl_id l"
  "assignments_in (apply_to_layer s time l) = filter (\<lambda>a. ac_entityId a \<noteq> sg_entityId s) (assignments_in l)
     @ (if vl_id l = sg_layerId s then [inferred_assignment s time] else [])"
  by (simp_all add: apply_to_layer_def assignments_in_def Let_def)

lemma inferred_simps [simp]: "ac_entityId (inferred_assignment s time) = sg_entityId s" "ac_layerId (inferred_assignment s time) = sg_layerId s"
  by (simp_all add: inferred_assignment_def)

definition entity_entries :: "ident \<Rightarrow> view_layer list \<Rightarrow> (ident \<times> assignment_config) list" where
  "entity_entries e ls = concat (map (\<lambda>l. map (Pair (vl_id l)) (filter (\<lambda>a. ac_entityId a = e) (assignments_in l))) ls)"

lemma entries_apply:
  assumes "distinct (map vl_id ls)"
  shows "entity_entries e (applyOneSuggestion s time ls) =
    (if e = sg_entityId s then (if sg_layerId s \<in> vl_id ` set ls then [(sg_layerId s, inferred_assignment s time)] else []) else entity_entries e ls)"
proof -
  have other: "filter (\<lambda>a. ac_entityId a = e \<and> ac_entityId a \<noteq> sg_entityId s) as = (if e = sg_entityId s then [] else filter (\<lambda>a. ac_entityId a = e) as)" for "as"
    by (induction "as") auto
  have absent: "concat (map (\<lambda>l. if vl_id l = sg_layerId s then [x l] else []) ms) = []" if "sg_layerId s \<notin> vl_id ` set ms" for x :: "view_layer \<Rightarrow> 'x" and ms
    using that by (induction ms) auto
  show ?thesis
    using assms by (induction ls) (auto simp: entity_entries_def applyOneSuggestion_def other comp_def absent conj_commute if_distrib cong: if_cong)
qed

lemma apply_ids [simp]: "map vl_id (applyOneSuggestion s time ls) = map vl_id ls"
  by (simp add: applyOneSuggestion_def comp_def)

lemma entries_fold:
  "distinct (map vl_id ls) \<Longrightarrow> distinct (map sg_entityId ss) \<Longrightarrow>
     entity_entries e (fold (\<lambda>s. applyOneSuggestion s time) ss ls) =
       (case find_first (\<lambda>s. sg_entityId s = e) ss of
          None \<Rightarrow> entity_entries e ls
        | Some s \<Rightarrow> if sg_layerId s \<in> vl_id ` set ls then [(sg_layerId s, inferred_assignment s time)] else [])"
proof (induction ss arbitrary: ls)
  case (Cons s ss)
  have ids: "vl_id ` set (applyOneSuggestion s time ls) = vl_id ` set ls" by (metis apply_ids set_map)
  show ?case
  proof (cases "sg_entityId s = e")
    case True
    with Cons.prems have "e \<notin> sg_entityId ` set ss" by simp
    then have "find_first (\<lambda>s. sg_entityId s = e) ss = None" by (auto simp: find_first_None)
    with True Cons.prems Cons.IH [of "applyOneSuggestion s time ls"] show ?thesis by (simp add: entries_apply)
  next
    case False
    with Cons.prems Cons.IH [of "applyOneSuggestion s time ls"] ids show ?thesis by (auto simp: entries_apply split: option.split)
  qed
qed simp

text \<open>
  accepting all suggestions is accepting one after the other. With one suggestion for an entity and
  distinct layers, each suggested entity is then assigned exactly once in the whole view, to the suggested
  group of the suggested layer, and the assignments of the other entities are as before.
\<close>

theorem accepting_places_each_entity_once:
  assumes "distinct (map vl_id ls)" and "distinct (map sg_entityId ss)" and "acceptAll time (ss, ls) = (ss', ls')"
  shows "accept_each time (ss, ls) = (ss', ls') \<and> ss' = []
    \<and> (\<forall>s \<in> set ss. sg_layerId s \<in> vl_id ` set ls \<longrightarrow> entity_entries (sg_entityId s) ls' = [(sg_layerId s, inferred_assignment s time)])
    \<and> (\<forall>e. e \<notin> sg_entityId ` set ss \<longrightarrow> entity_entries e ls' = entity_entries e ls)"
proof -
  have ls': "ss' = []" "ls' = fold (\<lambda>s. applyOneSuggestion s time) ss ls" using assms(3) by (simp_all add: acceptAll_def)
  have first: "find_first (\<lambda>t. sg_entityId t = sg_entityId s) ss = Some s" if "s \<in> set ss" for s
    using that assms(2) by (induction ss) auto
  have none: "find_first (\<lambda>t. sg_entityId t = e) ss = None" if "e \<notin> sg_entityId ` set ss" for e using that by (auto simp: find_first_None)
  show ?thesis using assms(3) ls' first none by (auto simp: accept_all_is_each entries_fold [OF assms(1,2)])
qed

section \<open>Examples\<close>

definition some_suggestion :: "ident \<Rightarrow> ident \<Rightarrow> suggestion" where
  "some_suggestion e lid =
     \<lparr>sg_entityId = e, sg_entityName = e, sg_entityType = ''table'', sg_layerId = lid, sg_layerName = lid, sg_nodeId = ''g'', sg_nodeName = ''g'',
      sg_confidence = High_Confidence, sg_reason = ''''\<rparr>"

lemma accepting_places_each_entity_once_witness:
  "entity_entries ''e'' (snd (acceptAll ''t'' ([some_suggestion ''e'' ''L2''], [empty_layer ''L1'', empty_layer ''L2''])))
     = [(''L2'', inferred_assignment (some_suggestion ''e'' ''L2'') ''t'')]"
  using accepting_places_each_entity_once [of "[empty_layer ''L1'', empty_layer ''L2'']" "[some_suggestion ''e'' ''L2'']" "''t''", OF _ _ surjective_pairing]
  by (simp add: some_suggestion_def empty_layer_def)

definition group_layer :: "string \<Rightarrow> view_layer" where
  "group_layer name = (empty_layer ''L'')\<lparr>vl_logicalNodes := Some [Group ''g'' name None ''group'' (Some []) None None]\<rparr>"

lemma suggestions_name_a_best_group_witness:
  "''e'' \<in> sg_entityId ` set (analyse [\<lparr>en_id = ''e'', en_name = ''Sales_Orders'', en_type = ''table''\<rparr>] [group_layer ''orders''])"
proof -
  let ?e = "\<lparr>en_id = ''e'', en_name = ''Sales_Orders'', en_type = ''table''\<rparr>"
  let ?n = "\<lparr>fn_layerId = ''L'', fn_layerName = ''L'', fn_nodeId = ''g'', fn_nodeName = ''orders'', fn_depth = 0\<rparr>"
  have "all_groups [group_layer ''orders''] = [?n]" by code_simp
  then have n: "?n \<in> set (all_groups [group_layer ''orders''])" by simp
  have "30 \<le> scoreMatch ''Sales_Orders'' ''orders''" by code_simp
  moreover have "grouped_ids [group_layer ''orders''] = {}" by (simp add: grouped_ids_def assignments_in_def group_layer_def empty_layer_def)
  ultimately have "en_id ?e \<notin> grouped_ids [group_layer ''orders''] \<and> 30 \<le> scoreMatch (en_name ?e) (fn_nodeName ?n)" by simp
  with bspec [OF bspec [OF conjunct2 [OF suggestions_name_a_best_group [of "[?e]" "[group_layer ''orders'']"]], of ?e] n]
  have "en_id ?e \<in> sg_entityId ` set (analyse [?e] [group_layer ''orders''])" by (simp only: list.set insert_iff simp_thms)
  then show ?thesis by (simp only: named_entity.simps)
qed

text \<open>
  A name has no white space left when it is cut into words, unless it has a tab or a line break: there is
  one word, which does not occur, and the partial score of the words is never used.
\<close>

lemma words_never_score:
  assumes "\<forall>c \<in> set n. is_space c \<longrightarrow> c = CHR '' ''"
  shows "scoreMatch e n \<in> {0, 75, 100}"
proof -
  have lower: "is_space (lower_char c) \<longleftrightarrow> is_space c" "is_space c \<Longrightarrow> lower_char c = c" for c
  proof -
    have "(of_char c :: nat) < 256" by simp
    then show "is_space (lower_char c) \<longleftrightarrow> is_space c" "is_space c \<Longrightarrow> lower_char c = c"
      by (auto simp: lower_char_def is_space_def Let_def)
  qed
  have "\<not> is_space c" if "c \<in> set (normalise n)" for c
    using that assms lower by (fastforce simp: normalise_def toLowerCase_def)
  then have "takeWhile (\<lambda>c. \<not> is_space c) (normalise n) = normalise n" "dropWhile (\<lambda>c. \<not> is_space c) (normalise n) = []"
    by (simp_all add: takeWhile_eq_all_conv)
  then have "split_spaces (normalise n) = [normalise n]" by (simp add: split_spaces.simps [of "normalise n"])
  then show ?thesis by (simp add: scoreMatch_def Let_def)
qed

text \<open>A group whose name has only separators matches every entity with high confidence.\<close>

lemma unnamed_group_matches_everything: "75 \<le> scoreMatch e ''- ''"
proof -
  have "normalise ''- '' = ''''" by code_simp
  moreover have "is_infix '''' (normalise e)" unfolding is_infix_iff by (intro exI [of _ "''''"] exI [of _ "normalise e"]) simp
  ultimately show ?thesis by (simp add: scoreMatch_def Let_def)
qed

text \<open>Accepting does not ask for the parent: the child leaves the layer its parent is in.\<close>

lemma accepting_ignores_the_parent:
  "(let s = studio_run [] [Assign_Entity ''p'' (Some ''L1'') ''t''];
        t = handleUpdateLayers (snd (acceptAll ''t'' ([some_suggestion ''c'' ''L2''], lz_layers s))) s
    in layers_in [] t [''p'', ''c''] = [Some ''L1'', Some ''L2''])"
  by code_simp

end
