(* ===== verification/Backend_Health.thy ===== *)
theory Backend_Health
  imports Step_System Js_String Graph_Model Circuit_Breaker
begin

text \<open>
  The health of the backend as the user sees it: the store (\<^verbatim>\<open>store/health.ts\<close>), the adaptive interval of the
  banner (\<^verbatim>\<open>components/layout/BackendHealthBanner.tsx\<close>) and the reload after an outage
  (\<^verbatim>\<open>hooks/useBackendRecovery.ts\<close>). Whether the browser is online, the answers and the times are arguments.
\<close>

section \<open>The store\<close>

datatype health_status = Is_Healthy | Is_Unreachable | Is_Recovered
datatype health_reason = No_Reason | Network_Offline | Backend_Down

text \<open>What was thrown: a \<^verbatim>\<open>TypeError\<close>, another \<^verbatim>\<open>Error\<close>, or something else.\<close>

datatype thrown = Thrown_Type_Error string | Thrown_Error string | Thrown_Other

record health =
  hl_status :: health_status
  hl_reason :: health_reason
  hl_detail :: "string option"
  hl_lastCheckedAt :: "int option"
  hl_failures :: nat

definition initial_health :: health where
  "initial_health = \<lparr>hl_status = Is_Healthy, hl_reason = No_Reason, hl_detail = None, hl_lastCheckedAt = None, hl_failures = 0\<rparr>"

definition FAILURE_THRESHOLD :: nat where
  "FAILURE_THRESHOLD = 2"

definition offline_detail :: string where
  "offline_detail = ''Your device appears to be offline.''"

definition connection_lost :: "string \<Rightarrow> bool" where
  "connection_lost m =
     (let msg = toLowerCase m
      in is_infix ''failed to fetch'' msg \<or> is_infix ''networkerror'' msg \<or> is_infix ''network request failed'' msg \<or> is_infix ''load failed'' msg)"

definition error_detail :: "string \<Rightarrow> string" where
  "error_detail m = (if m \<noteq> '''' then m else ''An unexpected error occurred.'')"

definition classifyError :: "bool \<Rightarrow> thrown \<Rightarrow> health_reason \<times> string" where
  "classifyError online err =
     (if \<not> online then (Network_Offline, offline_detail)
      else (Backend_Down,
        case err of
          Thrown_Type_Error m \<Rightarrow> if connection_lost m then ''The backend server is not responding.'' else error_detail m
        | Thrown_Error m \<Rightarrow> error_detail m
        | Thrown_Other \<Rightarrow> ''An unexpected error occurred.''))"

definition applyFailure :: "health_reason \<Rightarrow> string \<Rightarrow> int \<Rightarrow> health \<Rightarrow> health" where
  "applyFailure reason detail time s =
     (let failures = hl_failures s + 1
      in if FAILURE_THRESHOLD \<le> failures \<or> reason = Network_Offline \<or> hl_status s = Is_Unreachable
         then s\<lparr>hl_status := Is_Unreachable, hl_reason := reason, hl_detail := Some detail, hl_failures := failures, hl_lastCheckedAt := Some time\<rparr>
         else s\<lparr>hl_failures := failures, hl_lastCheckedAt := Some time\<rparr>)"

text \<open>How a poll ends; a body that is no JSON is a thrown error.\<close>

datatype poll_answer = Poll_Ok | Poll_Http nat | Poll_Thrown bool thrown

definition back_online :: string where
  "back_online = ''Backend services are back online.''"

text \<open>The state after an answer, \<open>None\<close> when the store is not written.\<close>

definition poll_end :: "poll_answer \<Rightarrow> int \<Rightarrow> health \<Rightarrow> health option" where
  "poll_end a time s =
     (case a of
        Poll_Http code \<Rightarrow> Some (applyFailure Backend_Down (''Backend returned HTTP '' @ dec_of_nat code @ ''.'') time s)
      | Poll_Thrown online err \<Rightarrow> (let (reason, detail) = classifyError online err in Some (applyFailure reason detail time s))
      | Poll_Ok \<Rightarrow>
          if hl_status s = Is_Unreachable
          then Some (s\<lparr>hl_status := Is_Recovered, hl_reason := No_Reason, hl_detail := Some back_online, hl_failures := 0, hl_lastCheckedAt := Some time\<rparr>)
          else if hl_status s \<noteq> Is_Recovered
          then Some (s\<lparr>hl_status := Is_Healthy, hl_reason := No_Reason, hl_detail := None, hl_failures := 0, hl_lastCheckedAt := Some time\<rparr>)
          else None)"

definition poll_offline :: "int \<Rightarrow> health \<Rightarrow> health" where
  "poll_offline time s = applyFailure Network_Offline offline_detail time s"

definition reportFailure :: "bool \<Rightarrow> thrown \<Rightarrow> int \<Rightarrow> health \<Rightarrow> health" where
  "reportFailure online err time s = (let (reason, detail) = classifyError online err in applyFailure reason detail time s)"

definition clearRecovery :: "health \<Rightarrow> health" where
  "clearRecovery s = s\<lparr>hl_status := Is_Healthy, hl_reason := No_Reason, hl_detail := None\<rparr>"

datatype health_event =
    Offline_Poll int
  | Poll_Answer poll_answer int
  | Failure_Reported bool thrown int
  | Recovery_Cleared

fun health_write :: "health_event \<Rightarrow> health \<Rightarrow> health option" where
  "health_write (Offline_Poll t) s = Some (poll_offline t s)"
| "health_write (Poll_Answer a t) s = poll_end a t s"
| "health_write (Failure_Reported online err t) s = Some (reportFailure online err t s)"
| "health_write Recovery_Cleared s = Some (clearRecovery s)"

section \<open>The interval of the banner\<close>

definition POLL_HEALTHY_MS :: nat where
  "POLL_HEALTHY_MS = 30000"

definition POLL_UNHEALTHY_BASE_MS :: nat where
  "POLL_UNHEALTHY_BASE_MS = 5000"

definition POLL_UNHEALTHY_CAP_MS :: nat where
  "POLL_UNHEALTHY_CAP_MS = 30000"

text \<open>Subtraction of naturals is \<^verbatim>\<open>Math.max(0, n - 2)\<close>.\<close>

definition getUnhealthyInterval :: "nat \<Rightarrow> nat" where
  "getUnhealthyInterval failures = min (POLL_UNHEALTHY_BASE_MS * 2 ^ (failures - 2)) POLL_UNHEALTHY_CAP_MS"

definition next_interval :: "health \<Rightarrow> nat" where
  "next_interval s = (if hl_status s = Is_Healthy \<or> hl_status s = Is_Recovered then POLL_HEALTHY_MS else getUnhealthyInterval (hl_failures s))"

definition banner_visible :: "health \<Rightarrow> bool" where
  "banner_visible s \<longleftrightarrow> hl_status s = Is_Unreachable \<or> hl_status s = Is_Recovered"

section \<open>The reload after an outage\<close>

text \<open>The subscriber of the store with the status it saw last; a reload resets the circuit breakers.\<close>

record recovery =
  rc_health :: health
  rc_prev :: health_status
  rc_reloads :: nat
  rc_breakers :: registry

definition is_back :: "health_status \<Rightarrow> health_status \<Rightarrow> bool" where
  "is_back prev curr' \<longleftrightarrow> curr' = Is_Recovered \<or> (curr' = Is_Healthy \<and> prev = Is_Unreachable)"

definition notify :: "health \<Rightarrow> recovery \<Rightarrow> recovery" where
  "notify h w =
     (let w1 = w\<lparr>rc_health := h, rc_prev := hl_status h\<rparr>
      in if is_back (rc_prev w) (hl_status h)
         then w1\<lparr>rc_reloads := rc_reloads w + 1, rc_breakers := resetAllCircuitBreakers (rc_breakers w)\<rparr> else w1)"

definition recovery_step :: "health_event \<Rightarrow> recovery \<Rightarrow> recovery" where
  "recovery_step e w = (case health_write e (rc_health w) of None \<Rightarrow> w | Some h \<Rightarrow> notify h w)"

definition new_recovery :: "registry \<Rightarrow> recovery" where
  "new_recovery reg = \<lparr>rc_health = initial_health, rc_prev = Is_Healthy, rc_reloads = 0, rc_breakers = reg\<rparr>"

section \<open>What the user sees\<close>

text \<open>
  The banner is up exactly in an outage: two failures in a row, or no network. It has a text, and the other
  states have the text of their own.
\<close>

definition health_ok :: "health \<Rightarrow> bool" where
  "health_ok s \<longleftrightarrow>
     (case hl_status s of
        Is_Unreachable \<Rightarrow> hl_reason s \<noteq> No_Reason \<and> hl_detail s \<noteq> None \<and> (FAILURE_THRESHOLD \<le> hl_failures s \<or> (hl_reason s = Network_Offline \<and> 0 < hl_failures s))
      | Is_Recovered \<Rightarrow> hl_reason s = No_Reason \<and> hl_detail s = Some back_online \<and> hl_failures s < FAILURE_THRESHOLD
      | Is_Healthy \<Rightarrow> hl_reason s = No_Reason \<and> hl_detail s = None)"

definition recovery_ok :: "recovery \<Rightarrow> bool" where
  "recovery_ok w \<longleftrightarrow> health_ok (rc_health w) \<and> rc_prev w = hl_status (rc_health w)"

lemma failure_ok: "health_ok s \<Longrightarrow> reason \<noteq> No_Reason \<Longrightarrow> health_ok (applyFailure reason detail t s)"
  by (auto simp: health_ok_def applyFailure_def FAILURE_THRESHOLD_def Let_def split: health_status.splits if_splits)

lemma classify_reason: "classifyError online err = (reason, detail) \<Longrightarrow> reason \<noteq> No_Reason"
  by (auto simp: classifyError_def split: if_splits)

lemma write_ok: "health_ok s \<Longrightarrow> health_write e s = Some h \<Longrightarrow> health_ok h"
proof (cases e)
  case (Poll_Answer a t)
  assume s: "health_ok s" and h: "health_write e s = Some h"
  show ?thesis
  proof (cases a)
    case Poll_Ok
    with Poll_Answer h show ?thesis by (auto simp: poll_end_def health_ok_def FAILURE_THRESHOLD_def split: if_splits)
  next
    case (Poll_Http code)
    with Poll_Answer h s show ?thesis by (auto simp: poll_end_def intro: failure_ok)
  next
    case (Poll_Thrown online err)
    with Poll_Answer h s show ?thesis by (auto simp: poll_end_def dest: classify_reason intro!: failure_ok split: prod.splits)
  qed
next
  case (Failure_Reported online err t)
  assume "health_ok s" "health_write e s = Some h"
  with Failure_Reported show ?thesis by (auto simp: reportFailure_def dest: classify_reason intro!: failure_ok split: prod.splits)
qed (auto simp: poll_offline_def clearRecovery_def health_ok_def [of "s\<lparr>hl_status := Is_Healthy, hl_reason := No_Reason, hl_detail := None\<rparr>"] intro: failure_ok)

lemma notify_simps [simp]: "rc_health (notify h w) = h" "rc_prev (notify h w) = hl_status h"
  by (simp_all add: notify_def Let_def)

lemma recovery_ok_step: "recovery_ok w \<Longrightarrow> recovery_ok (recovery_step e w)"
  by (auto simp: recovery_ok_def recovery_step_def dest: write_ok split: option.split)

interpretation recovery_system: step_system recovery_step recovery_ok "\<lambda>_. True"
  by unfold_locales (rule recovery_ok_step)

lemma new_recovery_ok: "recovery_ok (new_recovery reg)"
  by (simp add: recovery_ok_def new_recovery_def health_ok_def initial_health_def)

lemma interval_bounds: "5000 \<le> getUnhealthyInterval n \<and> getUnhealthyInterval n \<le> 30000"
proof -
  have "(1 :: nat) \<le> 2 ^ (n - 2)" by simp
  then show ?thesis by (simp add: getUnhealthyInterval_def POLL_UNHEALTHY_BASE_MS_def POLL_UNHEALTHY_CAP_MS_def)
qed

text \<open>
  C27: through every history of polls, reported failures and dismissals the backend is shown as unreachable
  only after two failures that were counted or without a network, with a text; then the next poll is due in 5
  seconds times a power of two that grows with every failure from the third, at most 30 seconds; and one good
  answer ends the outage: everything is reloaded and every circuit breaker is reset. The header of
  \<^verbatim>\<open>store/health.ts\<close> is narrower in two points: it says 5 seconds for every poll, and that the failures are
  consecutive, where a good answer while the recovery is shown does not end the count, and parallel requests
  count one failure each (lemmas \<open>failures_add_up_while_recovered\<close> and \<open>parallel_failures_count_twice\<close>).
\<close>

theorem outage_shown_and_ended:
  assumes "w = run recovery_step es (new_recovery reg)" and "hl_status (rc_health w) = Is_Unreachable"
    and "w' = recovery_step (Poll_Answer Poll_Ok t) w"
  shows "(2 \<le> hl_failures (rc_health w) \<or> hl_reason (rc_health w) = Network_Offline) \<and> hl_detail (rc_health w) \<noteq> None
    \<and> next_interval (rc_health w) = min (5000 * 2 ^ (hl_failures (rc_health w) - 2)) 30000
    \<and> 5000 \<le> next_interval (rc_health w) \<and> next_interval (rc_health w) \<le> 30000
    \<and> hl_status (rc_health w') = Is_Recovered \<and> hl_failures (rc_health w') = 0
    \<and> rc_reloads w' = rc_reloads w + 1 \<and> rc_breakers w' = resetAllCircuitBreakers (rc_breakers w)"
proof -
  have ok: "recovery_ok w" unfolding assms(1) by (rule recovery_system.run_inv) (simp_all add: new_recovery_ok)
  then have "(2 \<le> hl_failures (rc_health w) \<or> hl_reason (rc_health w) = Network_Offline) \<and> hl_detail (rc_health w) \<noteq> None"
    using assms(2) by (auto simp: recovery_ok_def health_ok_def FAILURE_THRESHOLD_def)
  moreover have "5000 \<le> next_interval (rc_health w) \<and> next_interval (rc_health w) \<le> 30000"
    using interval_bounds [of "hl_failures (rc_health w)"] assms(2) by (simp add: next_interval_def)
  moreover have "next_interval (rc_health w) = min (5000 * 2 ^ (hl_failures (rc_health w) - 2)) 30000"
    using assms(2) by (simp add: next_interval_def getUnhealthyInterval_def POLL_UNHEALTHY_BASE_MS_def POLL_UNHEALTHY_CAP_MS_def)
  ultimately show ?thesis using assms(2,3) by (simp add: recovery_step_def poll_end_def notify_def is_back_def Let_def)
qed

lemma outage_shown_and_ended_witness:
  "hl_status (rc_health (recovery_step (Poll_Answer Poll_Ok 9)
     (run recovery_step [Poll_Answer (Poll_Http 503) 1, Failure_Reported True Thrown_Other 2] (new_recovery [])))) = Is_Recovered"
proof -
  let ?w = "run recovery_step [Poll_Answer (Poll_Http 503) 1, Failure_Reported True Thrown_Other 2] (new_recovery [])"
  have "hl_status (rc_health ?w) = Is_Unreachable" by code_simp
  from outage_shown_and_ended [OF refl this refl, of 9] show ?thesis by (simp only: simp_thms)
qed

text \<open>One failure of a backend that answers is not shown, and 503 answers of other requests do not count.\<close>

lemma one_failure_is_not_shown:
  "hl_status s = Is_Healthy \<Longrightarrow> hl_failures s = 0 \<Longrightarrow> reason = Backend_Down \<Longrightarrow> hl_status (applyFailure reason detail t s) = Is_Healthy"
  by (simp add: applyFailure_def FAILURE_THRESHOLD_def)

section \<open>Examples\<close>

abbreviation after_outage :: "health_event list \<Rightarrow> recovery" where
  "after_outage es \<equiv> run recovery_step ([Poll_Answer (Poll_Http 503) 1, Poll_Answer (Poll_Http 503) 2, Poll_Answer Poll_Ok 3] @ es) (new_recovery [])"

text \<open>Every failure while the recovery is shown reloads everything again, also without an outage.\<close>

lemma failure_while_recovered_reloads:
  "rc_reloads (after_outage []) = 1 \<and> rc_reloads (after_outage [Failure_Reported True Thrown_Other 4]) = 2
   \<and> hl_status (rc_health (after_outage [Failure_Reported True Thrown_Other 4])) = Is_Recovered"
  by code_simp

text \<open>A good answer while the recovery is shown does not start the count again: failures that are not consecutive add up.\<close>

lemma failures_add_up_while_recovered:
  "hl_status (rc_health (after_outage [Failure_Reported True Thrown_Other 4, Poll_Answer Poll_Ok 5, Failure_Reported True Thrown_Other 6])) = Is_Unreachable"
  by code_simp

text \<open>Requests that fail at the same time count as failures one after the other.\<close>

lemma parallel_failures_count_twice:
  "hl_status (rc_health (run recovery_step [Failure_Reported True Thrown_Other 1, Failure_Reported True Thrown_Other 1] (new_recovery []))) = Is_Unreachable"
  by code_simp

end
