(* ===== verification/Polling.thy ===== *)
theory Polling
  imports Step_System Complex_Main
begin

text \<open>
  The polling hook (\<^verbatim>\<open>hooks/usePolling.ts\<close>) and the jitter it uses (\<^verbatim>\<open>config/polling.ts\<close>): the timers that
  are armed, the calls in flight, the two refs of the hook and the visibility of the tab. Random numbers and
  the end of a call are parts of the events.
\<close>

section \<open>Jitter\<close>

definition withJitter :: "int \<Rightarrow> rat \<Rightarrow> rat \<Rightarrow> int" where
  "withJitter baseMs jit rnd =
     (if baseMs \<le> 0 then 0
      else (let spread = max 0 (min 1 jit) in \<lfloor>of_int baseMs + rnd * of_int baseMs * spread\<rfloor>))"

definition default_frac :: rat where
  "default_frac = 3 / 10"

lemma withJitter_bounds:
  assumes "0 < b" and "0 \<le> rnd" and "rnd < 1"
  shows "b \<le> withJitter b jit rnd \<and> withJitter b jit rnd \<le> 2 * b \<and> (0 \<le> jit \<longrightarrow> of_int (withJitter b jit rnd) \<le> of_int b * (1 + jit))"
proof -
  define spread where "spread = max 0 (min 1 jit)"
  have s: "0 \<le> spread" "spread \<le> 1" "0 \<le> jit \<longrightarrow> spread \<le> jit" by (auto simp: spread_def)
  have b: "(0 :: rat) < of_int b" using assms(1) by simp
  have j: "0 \<le> rnd * of_int b * spread" using assms b s by simp
  have "rnd * of_int b \<le> of_int b" using assms b by (simp add: mult_left_le_one_le)
  then have part: "rnd * of_int b * spread \<le> of_int b * spread" using s by (simp add: mult_right_mono)
  have value_eq: "withJitter b jit rnd = \<lfloor>of_int b + rnd * of_int b * spread\<rfloor>"
    using assms(1) by (simp add: withJitter_def spread_def)
  have low: "b \<le> withJitter b jit rnd" unfolding value_eq using j by (simp add: le_floor_iff)
  have up: "of_int (withJitter b jit rnd) \<le> of_int b + of_int b * spread"
    unfolding value_eq using part by (meson add_left_mono of_int_floor_le order_trans)
  have "of_int b * spread \<le> of_int b" using b s by (simp add: mult_left_le)
  then have "of_int (withJitter b jit rnd) \<le> (of_int (2 * b) :: rat)" using up by simp
  then have "withJitter b jit rnd \<le> 2 * b" by (simp only: of_int_le_iff)
  moreover have "0 \<le> jit \<longrightarrow> of_int (withJitter b jit rnd) \<le> of_int b * (1 + jit)"
  proof
    assume "0 \<le> jit"
    with s have "of_int b * spread \<le> of_int b * jit" using b by simp
    with up show "of_int (withJitter b jit rnd) \<le> of_int b * (1 + jit)" by (simp add: algebra_simps)
  qed
  ultimately show ?thesis using low by blast
qed

section \<open>The hook\<close>

text \<open>
  A tick closure carries the interval and the jitter of the render it was made in. The refs \<open>po_timer\<close> and
  \<open>po_cancelled\<close> are shared by all closures of the component; a handle stays in \<open>po_timer\<close> after its timer fired.
  The platform has the armed timers, each with its closure and delay, and the calls a tick waits for;
  \<open>po_calls\<close> counts the calls of the callback, those of ticks and those of \<^verbatim>\<open>refresh()\<close>.
\<close>

type_synonym tick = "int \<times> rat"

record polling =
  po_mounted :: bool
  po_cancelled :: bool
  po_timer :: "nat option"
  po_tick :: tick
  po_armed :: "(nat \<times> tick \<times> int) list"
  po_flight :: "tick list"
  po_hidden :: bool
  po_next :: nat
  po_calls :: nat

definition new_polling :: "bool \<Rightarrow> polling" where
  "new_polling hidden = \<lparr>po_mounted = False, po_cancelled = False, po_timer = None, po_tick = (0, default_frac), po_armed = [], po_flight = [],
     po_hidden = hidden, po_next = 1, po_calls = 0\<rparr>"

definition arm :: "tick \<Rightarrow> rat \<Rightarrow> polling \<Rightarrow> polling" where
  "arm tk rnd s = s\<lparr>po_timer := Some (po_next s), po_next := po_next s + 1,
     po_armed := po_armed s @ [(po_next s, tk, withJitter (fst tk) (snd tk) rnd)]\<rparr>"

definition clear_timer :: "polling \<Rightarrow> polling" where
  "clear_timer s = (case po_timer s of None \<Rightarrow> s | Some h \<Rightarrow> s\<lparr>po_armed := filter (\<lambda>t. fst t \<noteq> h) (po_armed s)\<rparr>)"

text \<open>The part of a tick before the call, and the one after it.\<close>

definition tick_start :: "tick \<Rightarrow> rat \<Rightarrow> polling \<Rightarrow> polling" where
  "tick_start tk rnd s =
     (if po_cancelled s then s
      else if po_hidden s then arm tk rnd s
      else s\<lparr>po_flight := po_flight s @ [tk], po_calls := po_calls s + 1\<rparr>)"

definition tick_end :: "nat \<Rightarrow> rat \<Rightarrow> polling \<Rightarrow> polling" where
  "tick_end i rnd s =
     (if i < length (po_flight s)
      then (let tk = po_flight s ! i; s1 = s\<lparr>po_flight := take i (po_flight s) @ drop (i + 1) (po_flight s)\<rparr>
            in if po_cancelled s1 then s1 else arm tk rnd s1)
      else s)"

definition timer_fires :: "nat \<Rightarrow> rat \<Rightarrow> polling \<Rightarrow> polling" where
  "timer_fires h rnd s =
     (case find (\<lambda>t. fst t = h) (po_armed s) of
        None \<Rightarrow> s
      | Some (_, tk, _) \<Rightarrow> tick_start tk rnd (s\<lparr>po_armed := filter (\<lambda>t. fst t \<noteq> h) (po_armed s)\<rparr>))"

text \<open>The effect of a render and its clean-up; the tab's listener is there while the effect is.\<close>

definition start_effect :: "bool \<Rightarrow> tick \<Rightarrow> bool \<Rightarrow> rat \<Rightarrow> polling \<Rightarrow> polling" where
  "start_effect enabled tk fireOnMount rnd s =
     (if \<not> enabled \<or> fst tk \<le> 0 then s
      else (let s1 = s\<lparr>po_cancelled := False, po_mounted := True, po_tick := tk\<rparr>
            in if fireOnMount then tick_start tk rnd s1 else arm tk rnd s1))"

definition end_effect :: "polling \<Rightarrow> polling" where
  "end_effect s = (if po_mounted s then (clear_timer s)\<lparr>po_cancelled := True, po_timer := None, po_mounted := False\<rparr> else s)"

definition onVisibilityChange :: "bool \<Rightarrow> rat \<Rightarrow> polling \<Rightarrow> polling" where
  "onVisibilityChange hidden rnd s =
     (let s1 = s\<lparr>po_hidden := hidden\<rparr>
      in if \<not> po_mounted s1 \<or> hidden \<or> po_cancelled s1 then s1 else tick_start (po_tick s1) rnd (clear_timer s1))"

text \<open>The function the hook returns calls at once, enabled or not, and nobody waits for the end of its call.\<close>

definition refresh :: "polling \<Rightarrow> polling" where
  "refresh s = s\<lparr>po_calls := po_calls s + 1\<rparr>"

datatype polling_event =
    Options bool tick bool rat
  | Unmounted
  | Timer_Fires nat rat
  | Call_Ends nat rat
  | Visibility bool rat
  | Refreshed

fun polling_step :: "polling_event \<Rightarrow> polling \<Rightarrow> polling" where
  "polling_step (Options enabled tk fireOnMount rnd) s = start_effect enabled tk fireOnMount rnd (end_effect s)"
| "polling_step Unmounted s = end_effect s"
| "polling_step (Timer_Fires h rnd) s = timer_fires h rnd s"
| "polling_step (Call_Ends i rnd) s = tick_end i rnd s"
| "polling_step (Visibility hidden rnd) s = onVisibilityChange hidden rnd s"
| "polling_step Refreshed s = refresh s"

section \<open>A chain of ticks never breaks\<close>

fun random_of :: "polling_event \<Rightarrow> rat" where
  "random_of (Options _ _ _ rnd) = rnd"
| "random_of (Timer_Fires _ rnd) = rnd"
| "random_of (Call_Ends _ rnd) = rnd"
| "random_of (Visibility _ rnd) = rnd"
| "random_of _ = 0"

definition proper_random :: "polling_event \<Rightarrow> bool" where
  "proper_random e \<longleftrightarrow> 0 \<le> random_of e \<and> random_of e < 1"

definition alive :: "tick \<Rightarrow> polling \<Rightarrow> bool" where
  "alive tk s \<longleftrightarrow> tk \<in> set (po_flight s) \<or> tk \<in> (fst \<circ> snd) ` set (po_armed s)"

definition delays_ok :: "polling \<Rightarrow> bool" where
  "delays_ok s \<longleftrightarrow>
     (\<forall>(h, tk, d) \<in> set (po_armed s). 0 < fst tk \<and> fst tk \<le> d \<and> d \<le> 2 * fst tk \<and> h < po_next s)
     \<and> (\<forall>tk \<in> set (po_flight s). 0 < fst tk) \<and> distinct (map fst (po_armed s))"

definition polling_ok :: "polling \<Rightarrow> bool" where
  "polling_ok s \<longleftrightarrow>
     (if po_mounted s then \<not> po_cancelled s \<and> alive (po_tick s) s \<and> 0 < fst (po_tick s)
      else po_cancelled s \<or> (po_armed s = [] \<and> po_flight s = [])) \<and> delays_ok s"

lemma armed_simps [simp]:
  "po_armed (arm tk rnd s) = po_armed s @ [(po_next s, tk, withJitter (fst tk) (snd tk) rnd)]"
  "po_flight (arm tk rnd s) = po_flight s" "po_mounted (arm tk rnd s) = po_mounted s" "po_cancelled (arm tk rnd s) = po_cancelled s"
  "po_tick (arm tk rnd s) = po_tick s" "po_hidden (arm tk rnd s) = po_hidden s" "po_calls (arm tk rnd s) = po_calls s"
  "po_timer (arm tk rnd s) = Some (po_next s)" "po_next (arm tk rnd s) = po_next s + 1"
  by (simp_all add: arm_def)

lemma clear_simps [simp]:
  "po_flight (clear_timer s) = po_flight s" "po_mounted (clear_timer s) = po_mounted s" "po_cancelled (clear_timer s) = po_cancelled s"
  "po_tick (clear_timer s) = po_tick s" "po_hidden (clear_timer s) = po_hidden s" "po_calls (clear_timer s) = po_calls s"
  "po_timer (clear_timer s) = po_timer s" "po_next (clear_timer s) = po_next s"
  by (simp_all add: clear_timer_def split: option.split)

lemma armed_clear: "set (po_armed (clear_timer s)) \<subseteq> set (po_armed s)"
  by (auto simp: clear_timer_def split: option.split)

lemma distinct_clear: "distinct (map fst (po_armed s)) \<Longrightarrow> distinct (map fst (po_armed (clear_timer s)))"
  by (auto simp: clear_timer_def distinct_map_filter split: option.split)

lemma delays_ok_clear: "delays_ok s \<Longrightarrow> delays_ok (clear_timer s)"
  using armed_clear [of s] distinct_clear [of s] by (fastforce simp: delays_ok_def)

lemma delays_ok_arm:
  assumes "delays_ok s" and "0 < fst tk" and "0 \<le> rnd" and "rnd < 1"
  shows "delays_ok (arm tk rnd s)"
  using assms withJitter_bounds [OF assms(2-4)] by (fastforce simp: delays_ok_def)

text \<open>A started tick is in flight or armed, unless the hook was cancelled.\<close>

lemma delays_ok_start: "delays_ok s \<Longrightarrow> 0 < fst tk \<Longrightarrow> 0 \<le> rnd \<Longrightarrow> rnd < 1 \<Longrightarrow> delays_ok (tick_start tk rnd s)"
  by (auto simp: tick_start_def intro: delays_ok_arm) (auto simp: delays_ok_def)

lemma start_simps [simp]:
  "po_mounted (tick_start tk rnd s) = po_mounted s" "po_cancelled (tick_start tk rnd s) = po_cancelled s" "po_tick (tick_start tk rnd s) = po_tick s"
  by (simp_all add: tick_start_def)

lemma alive_start: "\<not> po_cancelled s \<Longrightarrow> alive tk (tick_start tk rnd s)"
  by (auto simp: tick_start_def alive_def image_iff)

lemma alive_start_other: "alive tk s \<Longrightarrow> alive tk (tick_start tk' rnd s)"
  by (auto simp: tick_start_def alive_def)

lemma alive_arm: "alive tk (arm tk rnd s)" and alive_arm_other: "alive tk s \<Longrightarrow> alive tk (arm tk' rnd s)"
  by (auto simp: alive_def image_iff)

lemma polling_ok_end: "polling_ok s \<Longrightarrow> polling_ok (end_effect s)"
  using delays_ok_clear [of s] by (auto simp: polling_ok_def end_effect_def delays_ok_def)

lemma polling_ok_effect:
  assumes "polling_ok s" and "\<not> po_mounted s" and "0 \<le> rnd" and "rnd < 1"
  shows "polling_ok (start_effect enabled tk fireOnMount rnd s)"
proof (cases "enabled \<and> 0 < fst tk")
  case True
  let ?s = "s\<lparr>po_cancelled := False, po_mounted := True, po_tick := tk\<rparr>"
  have d: "delays_ok ?s" using assms(1) by (simp add: polling_ok_def delays_ok_def)
  show ?thesis
  proof (cases fireOnMount)
    case True
    then have "start_effect enabled tk fireOnMount rnd s = tick_start tk rnd ?s"
      using \<open>enabled \<and> 0 < fst tk\<close> by (simp add: start_effect_def)
    then show ?thesis using delays_ok_start [OF d] alive_start [of ?s tk rnd] \<open>enabled \<and> 0 < fst tk\<close> assms(3,4) by (simp add: polling_ok_def)
  next
    case False
    then have "start_effect enabled tk fireOnMount rnd s = arm tk rnd ?s"
      using \<open>enabled \<and> 0 < fst tk\<close> by (simp add: start_effect_def)
    then show ?thesis using delays_ok_arm [OF d] alive_arm [of tk rnd ?s] \<open>enabled \<and> 0 < fst tk\<close> assms(3,4) by (simp add: polling_ok_def)
  qed
next
  case False
  with assms(1) show ?thesis by (auto simp: start_effect_def)
qed

lemma find_armed:
  assumes "find (\<lambda>t. fst t = h) ts = Some (h', tk, d)"
  shows "h' = h \<and> (h, tk, d) \<in> set ts"
  using assms by (induction ts) (auto split: if_splits)

lemma polling_ok_fires:
  assumes "polling_ok s" and "0 \<le> rnd" and "rnd < 1"
  shows "polling_ok (timer_fires h rnd s)"
proof (cases "find (\<lambda>t. fst t = h) (po_armed s)")
  case None
  with assms show ?thesis by (simp add: timer_fires_def)
next
  case (Some t)
  obtain tk d where t: "t = (h, tk, d)" and mem: "(h, tk, d) \<in> set (po_armed s)" using find_armed [of h "po_armed s"] Some by (cases t) auto
  let ?s = "s\<lparr>po_armed := filter (\<lambda>t. fst t \<noteq> h) (po_armed s)\<rparr>"
  have eq: "timer_fires h rnd s = tick_start tk rnd ?s" using Some by (simp add: timer_fires_def t)
  have dist: "distinct (map fst (po_armed s))" and pos: "0 < fst tk" using assms(1) mem by (auto simp: polling_ok_def delays_ok_def)
  have d: "delays_ok ?s" using assms(1) by (auto simp: polling_ok_def delays_ok_def distinct_map_filter)
  have same: "tk' = tk" if "(h, tk', d') \<in> set (po_armed s)" for tk' d' using dist mem that by (auto dest: eq_key_imp_eq_value)
  have still: "alive tk' (tick_start tk rnd ?s)" if "alive tk' s" "\<not> po_cancelled s" for tk'
  proof (cases "tk' = tk")
    case True
    with that show ?thesis using alive_start [of ?s tk rnd] by simp
  next
    case False
    then have "alive tk' ?s" using that(1) same by (force simp: alive_def)
    then show ?thesis by (rule alive_start_other)
  qed
  show ?thesis
  proof (cases "po_mounted s")
    case True
    with assms(1) have "\<not> po_cancelled s" "alive (po_tick s) s" "0 < fst (po_tick s)" by (simp_all add: polling_ok_def)
    with True still delays_ok_start [OF d pos assms(2,3)] show ?thesis by (simp add: polling_ok_def eq)
  next
    case False
    with assms(1) mem have "po_cancelled s" by (auto simp: polling_ok_def)
    with False delays_ok_start [OF d pos assms(2,3)] show ?thesis by (simp add: polling_ok_def eq)
  qed
qed

lemma delays_ok_drop: "delays_ok s \<Longrightarrow> set fl \<subseteq> set (po_flight s) \<Longrightarrow> delays_ok (s\<lparr>po_flight := fl\<rparr>)"
  by (auto simp: delays_ok_def)

lemma polling_ok_ends:
  assumes "polling_ok s" and "0 \<le> rnd" and "rnd < 1"
  shows "polling_ok (tick_end i rnd s)"
proof (cases "i < length (po_flight s)")
  case True
  let ?fl = "take i (po_flight s) @ drop (i + 1) (po_flight s)"
  let ?s = "s\<lparr>po_flight := ?fl\<rparr>" and ?tk = "po_flight s ! i"
  have split_flight: "po_flight s = take i (po_flight s) @ ?tk # drop (i + 1) (po_flight s)" using id_take_nth_drop [OF True] by simp
  have sub: "set ?fl \<subseteq> set (po_flight s)" by (auto dest: in_set_takeD in_set_dropD)
  have d: "delays_ok ?s" using assms(1) delays_ok_drop [OF _ sub] by (simp add: polling_ok_def)
  have pos: "0 < fst ?tk" using assms(1) True by (simp add: polling_ok_def delays_ok_def)
  have one: "tk' = ?tk \<or> tk' \<in> set ?fl" if "tk' \<in> set (po_flight s)" for tk' using that by (subst (asm) split_flight) auto
  have still: "alive tk' (arm ?tk rnd ?s)" if "alive tk' s" for tk'
    using that one [of tk'] alive_arm [of ?tk rnd ?s] by (auto simp: alive_def)
  show ?thesis
  proof (cases "po_cancelled s")
    case True
    with assms(1) d \<open>i < length (po_flight s)\<close> show ?thesis by (simp add: polling_ok_def tick_end_def split: if_splits)
  next
    case False
    then have eq: "tick_end i rnd s = arm ?tk rnd ?s" using \<open>i < length (po_flight s)\<close> by (simp add: tick_end_def)
    have "po_mounted s" using False assms(1) \<open>i < length (po_flight s)\<close> by (auto simp: polling_ok_def split: if_splits)
    with assms(1) False still delays_ok_arm [OF d pos assms(2,3)] show ?thesis by (simp add: polling_ok_def eq)
  qed
next
  case False
  with assms show ?thesis by (simp add: tick_end_def)
qed

lemma polling_ok_visibility:
  assumes "polling_ok s" and "0 \<le> rnd" and "rnd < 1"
  shows "polling_ok (onVisibilityChange hidden rnd s)"
proof -
  let ?s = "s\<lparr>po_hidden := hidden\<rparr>"
  have ok: "polling_ok ?s" using assms(1) by (auto simp: polling_ok_def delays_ok_def alive_def split: if_splits)
  show ?thesis
  proof (cases "po_mounted s \<and> \<not> hidden \<and> \<not> po_cancelled s")
    case True
    then have eq: "onVisibilityChange hidden rnd s = tick_start (po_tick s) rnd (clear_timer ?s)" by (auto simp: onVisibilityChange_def Let_def)
    have "delays_ok (clear_timer ?s)" "0 < fst (po_tick s)" using ok True delays_ok_clear [of ?s] by (simp_all add: polling_ok_def)
    with True alive_start [of "clear_timer ?s" "po_tick s" rnd] delays_ok_start assms(2,3) show ?thesis unfolding eq by (simp add: polling_ok_def)
  next
    case False
    with ok show ?thesis by (auto simp: onVisibilityChange_def Let_def)
  qed
qed

lemma end_effect_unmounted [simp]: "\<not> po_mounted (end_effect s)"
  by (simp add: end_effect_def)

lemma polling_ok_step:
  assumes "polling_ok s" and "proper_random e"
  shows "polling_ok (polling_step e s)"
proof (cases e)
  case (Options enabled tk fireOnMount rnd)
  with assms show ?thesis by (simp add: proper_random_def polling_ok_end polling_ok_effect)
next
  case Refreshed
  with assms show ?thesis by (auto simp: refresh_def polling_ok_def delays_ok_def alive_def split: if_splits)
qed (use assms in \<open>simp_all add: proper_random_def polling_ok_end polling_ok_fires polling_ok_ends polling_ok_visibility\<close>)

interpretation poller: step_system polling_step polling_ok proper_random
  by unfold_locales (rule polling_ok_step)

lemma new_polling_ok: "polling_ok (new_polling hidden)"
  by (simp add: polling_ok_def new_polling_def delays_ok_def)

fun enables :: "polling_event \<Rightarrow> bool" where
  "enables (Options enabled tk _ _) \<longleftrightarrow> enabled \<and> 0 < fst tk"
| "enables _ \<longleftrightarrow> False"

lemma calls_start: "po_cancelled s \<Longrightarrow> po_calls (tick_start tk rnd s) = po_calls s"
  by (simp add: tick_start_def)

lemma no_call_unmounted:
  assumes "polling_ok s" and "\<not> po_mounted s" and "\<not> enables e" and "e \<noteq> Refreshed"
  shows "po_calls (polling_step e s) = po_calls s \<and> \<not> po_mounted (polling_step e s)"
proof (cases e)
  case (Options enabled tk fireOnMount rnd)
  with assms(2,3) show ?thesis by (auto simp: start_effect_def end_effect_def)
next
  case (Timer_Fires h rnd)
  with assms(1,2) show ?thesis by (auto simp: polling_ok_def timer_fires_def calls_start split: option.split)
qed (use assms(2,4) in \<open>auto simp: end_effect_def tick_end_def Let_def onVisibilityChange_def\<close>)

fun shows_tab :: "polling_event \<Rightarrow> bool" where
  "shows_tab (Visibility hidden _) \<longleftrightarrow> \<not> hidden"
| "shows_tab _ \<longleftrightarrow> False"

lemma calls_start_hidden: "po_hidden s \<Longrightarrow> po_calls (tick_start tk rnd s) = po_calls s"
  by (simp add: tick_start_def)

lemma no_call_hidden:
  assumes "po_hidden s" and "\<not> shows_tab e" and "e \<noteq> Refreshed"
  shows "po_calls (polling_step e s) = po_calls s"
  using assms by (cases e) (auto simp: start_effect_def end_effect_def timer_fires_def tick_end_def onVisibilityChange_def Let_def
      calls_start_hidden split: option.split)

text \<open>
  C28: while the hook is enabled a tick with its present interval is always armed or in flight, and every timer
  armed with it is due between one and two intervals (the jitter only lengthens the interval, other than the
  header of \<^verbatim>\<open>config/polling.ts\<close> says). While it is not enabled, nothing but enabling it or \<^verbatim>\<open>refresh()\<close> starts a
  call, whatever is still armed or in flight; while the tab is hidden, nothing but showing it or \<^verbatim>\<open>refresh()\<close>;
  and \<^verbatim>\<open>refresh()\<close> calls once in every state.
\<close>

theorem polling_stays_alive:
  assumes "s = run polling_step es (new_polling hidden)" and "list_all proper_random es"
  shows "(if po_mounted s
      then (po_tick s \<in> set (po_flight s) \<or> (\<exists>h d. (h, po_tick s, d) \<in> set (po_armed s)))
        \<and> ((h, po_tick s, d) \<in> set (po_armed s) \<longrightarrow> fst (po_tick s) \<le> d \<and> d \<le> 2 * fst (po_tick s))
      else enables e \<or> e = Refreshed \<or> po_calls (polling_step e s) = po_calls s)
    \<and> (po_hidden s \<longrightarrow> shows_tab e \<or> e = Refreshed \<or> po_calls (polling_step e s) = po_calls s)
    \<and> po_calls (polling_step Refreshed s) = po_calls s + 1"
proof -
  have ok: "polling_ok s" using assms(2) unfolding assms(1) by (auto simp: list_all_iff intro: poller.run_inv [OF new_polling_ok])
  have "po_hidden s \<longrightarrow> shows_tab e \<or> e = Refreshed \<or> po_calls (polling_step e s) = po_calls s" using no_call_hidden [of s e] by blast
  moreover have "po_calls (polling_step Refreshed s) = po_calls s + 1" by (simp add: refresh_def)
  moreover have "if po_mounted s
      then (po_tick s \<in> set (po_flight s) \<or> (\<exists>h d. (h, po_tick s, d) \<in> set (po_armed s)))
        \<and> ((h, po_tick s, d) \<in> set (po_armed s) \<longrightarrow> fst (po_tick s) \<le> d \<and> d \<le> 2 * fst (po_tick s))
      else enables e \<or> e = Refreshed \<or> po_calls (polling_step e s) = po_calls s"
  proof (cases "po_mounted s")
    case True
    with ok have "alive (po_tick s) s" and d: "delays_ok s" by (simp_all add: polling_ok_def)
    then show ?thesis using True by (fastforce simp: alive_def delays_ok_def)
  next
    case False
    then show ?thesis using no_call_unmounted [OF ok False] by auto
  qed
  ultimately show ?thesis by blast
qed

lemma polling_stays_alive_witness:
  "\<exists>h d. (h, (15000, default_frac), d) \<in> set (po_armed (run polling_step [Options True (15000, default_frac) True 0, Call_Ends 0 (1 / 2), Visibility True 0, Timer_Fires 1 0] (new_polling False)))"
proof -
  let ?es = "[Options True (15000, default_frac) True 0, Call_Ends 0 (1 / 2), Visibility True 0, Timer_Fires 1 0]"
  let ?s = "run polling_step ?es (new_polling False)"
  have "list_all proper_random ?es" by (simp add: proper_random_def)
  note alive = polling_stays_alive [OF refl this, where hidden = False and e = Refreshed]
  have "po_mounted ?s" "po_flight ?s = []" "po_tick ?s = (15000, default_frac)" by code_simp+
  with alive show ?thesis by (simp del: run_simps)
qed

text \<open>A disabled hook calls when it is told to refresh.\<close>

lemma refresh_while_disabled: "po_calls (run polling_step [Options False (15000, default_frac) True 0, Refreshed] (new_polling False)) = 1"
  by code_simp

section \<open>Calls do not overlap\<close>

text \<open>
  There is one chain as long as neither the tab becomes visible nor the options change while a call is in
  flight. A condition on every step of a history is one on each of its prefixes.
\<close>

fun restarts :: "polling_event \<Rightarrow> bool" where
  "restarts (Options _ _ _ _) \<longleftrightarrow> True"
| "restarts (Visibility hidden _) \<longleftrightarrow> \<not> hidden"
| "restarts _ \<longleftrightarrow> False"

definition one_chain :: "polling \<Rightarrow> bool" where
  "one_chain s \<longleftrightarrow>
     (case po_armed s of
        [] \<Rightarrow> length (po_flight s) \<le> 1
      | [(h, _)] \<Rightarrow> po_flight s = [] \<and> po_timer s = Some h \<and> po_mounted s
      | _ \<Rightarrow> False)"

lemma one_chain_idle: "po_armed s = [] \<Longrightarrow> po_flight s = [] \<Longrightarrow> po_mounted s \<Longrightarrow> one_chain (tick_start tk rnd s) \<and> one_chain (arm tk rnd s)"
  by (simp add: one_chain_def tick_start_def)

lemma one_chain_armed: "po_armed s \<noteq> [] \<Longrightarrow> one_chain s \<Longrightarrow> \<exists>h t. po_armed s = [(h, t)] \<and> po_flight s = [] \<and> po_timer s = Some h \<and> po_mounted s"
  by (auto simp: one_chain_def split: list.splits)

lemma one_chain_clear: "one_chain s \<Longrightarrow> po_flight s = [] \<Longrightarrow> po_armed (clear_timer s) = []"
  by (cases "po_armed s = []") (auto simp: clear_timer_def dest: one_chain_armed split: option.split)

lemma one_chain_end: "one_chain s \<Longrightarrow> po_mounted s \<longrightarrow> \<not> po_cancelled s \<Longrightarrow> one_chain (end_effect s)"
  using one_chain_armed [of s] by (cases "po_armed s = []") (auto simp: end_effect_def clear_timer_def one_chain_def split: option.split)

lemma one_chain_end_idle: "one_chain s \<Longrightarrow> po_flight s = [] \<Longrightarrow> po_armed (end_effect s) = [] \<and> po_flight (end_effect s) = []"
  using one_chain_armed [of s] by (cases "po_armed s = []") (auto simp: end_effect_def clear_timer_def split: option.split)

lemma one_chain_step:
  assumes "one_chain s" and "polling_ok s" and "restarts e \<longrightarrow> po_flight s = []"
  shows "one_chain (polling_step e s)"
proof (cases e)
  case (Options enabled tk fireOnMount rnd)
  with assms(3) one_chain_end_idle [OF assms(1)] have "po_armed (end_effect s) = [] \<and> po_flight (end_effect s) = []" by simp
  with Options one_chain_idle show ?thesis by (auto simp: start_effect_def Let_def one_chain_def [of "end_effect s"])
next
  case Unmounted
  with assms one_chain_end [OF assms(1)] show ?thesis by (simp add: polling_ok_def)
next
  case (Timer_Fires h rnd)
  show ?thesis
  proof (cases "po_armed s = []")
    case False
    then obtain h' tk d where "po_armed s = [(h', tk, d)]" "po_flight s = []" "po_mounted s" using one_chain_armed [OF _ assms(1)] by (metis prod.exhaust)
    with Timer_Fires assms(1) one_chain_idle [of "s\<lparr>po_armed := []\<rparr>" tk rnd] show ?thesis by (auto simp: timer_fires_def)
  qed (use Timer_Fires assms(1) in \<open>simp add: timer_fires_def\<close>)
next
  case (Call_Ends i rnd)
  show ?thesis
  proof (cases "i < length (po_flight s)")
    case True
    then have "po_flight s \<noteq> []" by auto
    with assms(1) obtain tk where "po_armed s = []" "po_flight s = [tk]"
      by (cases "po_flight s") (auto simp: one_chain_def split: list.splits prod.splits)
    moreover from this True have "i = 0" by simp
    moreover have "po_cancelled s \<or> po_mounted s" using assms(2) \<open>po_flight s \<noteq> []\<close> by (auto simp: polling_ok_def split: if_splits)
    ultimately show ?thesis using Call_Ends by (auto simp: tick_end_def one_chain_def Let_def)
  qed (use Call_Ends assms(1) in \<open>simp add: tick_end_def\<close>)
next
  case (Visibility hidden rnd)
  have same: "one_chain (s\<lparr>po_hidden := hidden\<rparr>)" using assms(1) by (auto simp: one_chain_def split: list.splits)
  show ?thesis
  proof (cases "hidden \<or> \<not> po_mounted s \<or> po_cancelled s")
    case False
    with Visibility assms(3) one_chain_clear [OF same] have "po_armed (clear_timer (s\<lparr>po_hidden := hidden\<rparr>)) = []" "po_flight s = []" by simp_all
    with Visibility False one_chain_idle [of "clear_timer (s\<lparr>po_hidden := hidden\<rparr>)"] show ?thesis by (simp add: onVisibilityChange_def Let_def)
  qed (use Visibility same in \<open>auto simp: onVisibilityChange_def Let_def\<close>)
next
  case Refreshed
  with assms(1) show ?thesis by (auto simp: refresh_def one_chain_def split: list.splits)
qed

text \<open>
  as long as the tab does not become visible and the options do not change while a call is in flight,
  the ticks of the hook never overlap: at most one call is in flight, and none while a timer is armed.
\<close>

theorem polling_never_overlaps:
  assumes "list_all proper_random es"
    and "\<And>fs e gs. es = fs @ e # gs \<Longrightarrow> restarts e \<longrightarrow> po_flight (run polling_step fs (new_polling hidden)) = []"
  shows "length (po_flight (run polling_step es (new_polling hidden))) + length (po_armed (run polling_step es (new_polling hidden))) \<le> 1"
proof -
  have ok: "polling_ok (run polling_step fs (new_polling hidden))" if "list_all proper_random fs" for fs
    using that by (auto simp: list_all_iff intro: poller.run_inv [OF new_polling_ok])
  have "one_chain (run polling_step es (new_polling hidden))"
    using assms
  proof (induction es rule: rev_induct)
    case Nil
    show ?case by (simp add: one_chain_def new_polling_def)
  next
    case (snoc e es)
    then have "one_chain (run polling_step es (new_polling hidden))" by simp
    moreover have "restarts e \<longrightarrow> po_flight (run polling_step es (new_polling hidden)) = []" using snoc.prems(2) [of es e "[]"] by simp
    ultimately show ?case using ok [of es] snoc.prems(1) by (simp add: run_append one_chain_step)
  qed
  then show ?thesis by (auto simp: one_chain_def split: list.splits prod.splits)
qed

lemma polling_never_overlaps_witness:
  "length (po_flight (run polling_step [Options True (15000, default_frac) True 0, Call_Ends 0 0, Visibility False 0, Refreshed] (new_polling False)))
   + length (po_armed (run polling_step [Options True (15000, default_frac) True 0, Call_Ends 0 0, Visibility False 0, Refreshed] (new_polling False))) \<le> 1"
proof (rule polling_never_overlaps)
  let ?es = "[Options True (15000, default_frac) True 0, Call_Ends 0 0, Visibility False 0, Refreshed]"
  show "list_all proper_random ?es" by (simp add: proper_random_def)
  note step = all_steps_Cons [where P = "\<lambda>e s. restarts e \<longrightarrow> po_flight s = []" and step = polling_step, rotated 2]
  show "restarts e \<longrightarrow> po_flight (run polling_step fs (new_polling False)) = []" if "?es = fs @ e # gs" for fs e gs
    using that by (elim step all_steps_Nil) (code_simp+)
qed

section \<open>Examples\<close>

text \<open>Showing the tab while a call is in flight starts a second call, and from then on there are two chains.\<close>

lemma shown_during_a_call_overlaps:
  "length (po_flight (run polling_step [Options True (15000, 0) True 0, Visibility True 0, Visibility False 0] (new_polling False))) = 2
   \<and> length (po_armed (run polling_step [Options True (15000, 0) True 0, Visibility True 0, Visibility False 0, Call_Ends 0 0, Call_Ends 0 0] (new_polling False))) = 2"
  by code_simp

text \<open>A change of the options during a call does the same: the old tick finds the ref it shares reset, and goes on with the old interval.\<close>

lemma changed_options_keep_the_old_chain:
  "map (\<lambda>(h, tk, d). d) (po_armed (run polling_step [Options True (15000, 0) True 0, Options True (60000, 0) True 0, Call_Ends 0 0, Call_Ends 0 0] (new_polling False)))
   = [15000, 60000]"
  by code_simp

text \<open>The clean-up clears the last timer only; the other chain ends when its timer fires.\<close>

lemma second_timer_survives_unmount:
  "length (po_armed (run polling_step [Options True (15000, 0) True 0, Visibility False 0, Call_Ends 0 0, Call_Ends 0 0, Unmounted] (new_polling False))) = 1"
  by code_simp

end
