(* ===== verification/Provider_Status.thy ===== *)
theory Provider_Status
  imports Polling Prelude
begin

text \<open>
  The status of the graph providers: the store with its copy in the browser's storage
  (\<^verbatim>\<open>store/providerStatus.ts\<close>), the store by scope (\<^verbatim>\<open>store/providerHealth.ts\<close>), and the poller both modules
  have. Answers, times and random numbers are parts of the events, one time for one refresh; the content of an entry is a parameter.
\<close>

section \<open>The status store and its copy\<close>

text \<open>What the storage holds under the key, read as JSON; a field may be missing.\<close>

datatype 's stored = Nothing_Stored | Not_Json | Json_Null | Json_Snapshot "(ident, 's) jsmap option" "int option"

record 's status_store =
  st_statuses :: "(ident, 's) jsmap"
  st_lastUpdatedAt :: "int option"
  st_fromCache :: bool
  st_storage :: "'s stored"

definition PERSIST_TTL_MS :: int where
  "PERSIST_TTL_MS = 5 * 60000"

definition hydrateFromStorage :: "int \<Rightarrow> 's stored \<Rightarrow> ((ident, 's) jsmap \<times> int) option" where
  "hydrateFromStorage now raw =
     (case raw of
        Json_Snapshot statuses (Some ts) \<Rightarrow> if PERSIST_TTL_MS < now - ts then None else Some (nullish statuses [], ts)
      | _ \<Rightarrow> None)"

text \<open>\<open>writable\<close>: the storage is there and takes the value.\<close>

definition persistToStorage :: "bool \<Rightarrow> int \<Rightarrow> (ident, 's) jsmap \<Rightarrow> 's stored \<Rightarrow> 's stored" where
  "persistToStorage writable now statuses raw = (if writable then Json_Snapshot (Some statuses) (Some now) else raw)"

definition new_status_store :: "int \<Rightarrow> 's stored \<Rightarrow> 's status_store" where
  "new_status_store now raw =
     (case hydrateFromStorage now raw of
        None \<Rightarrow> \<lparr>st_statuses = [], st_lastUpdatedAt = None, st_fromCache = False, st_storage = raw\<rparr>
      | Some (statuses, ts) \<Rightarrow> \<lparr>st_statuses = statuses, st_lastUpdatedAt = Some ts, st_fromCache = True, st_storage = raw\<rparr>)"

text \<open>\<open>None\<close> is a failed request.\<close>

definition status_refreshed :: "bool \<Rightarrow> int \<Rightarrow> (ident \<times> 's) list option \<Rightarrow> 's status_store \<Rightarrow> 's status_store" where
  "status_refreshed writable now answer s =
     (case answer of
        None \<Rightarrow> s
      | Some statuses \<Rightarrow>
          (let m = mfrom statuses
           in s\<lparr>st_statuses := m, st_lastUpdatedAt := Some now, st_fromCache := False, st_storage := persistToStorage writable now m (st_storage s)\<rparr>))"

definition useProviderStatus :: "ident option \<Rightarrow> 's status_store \<Rightarrow> 's option" where
  "useProviderStatus providerId s = (if \<not> truthy providerId then None else mget (st_statuses s) (the providerId))"

section \<open>The health store\<close>

datatype provider_state = Provider_Healthy | Provider_Unhealthy | Provider_Unknown

record health_entry =
  he_status :: provider_state
  he_error :: "string option"
  he_lastChecked :: int

type_synonym health_map = "(string, health_entry) jsmap"

definition health_key :: "ident \<Rightarrow> ident \<Rightarrow> string" where
  "health_key ws ds = ws @ '':'' @ ds"

definition getStatus :: "ident option \<Rightarrow> ident option \<Rightarrow> health_map \<Rightarrow> provider_state" where
  "getStatus ws ds providers =
     (if \<not> truthy ws \<or> \<not> truthy ds then Provider_Unknown
      else (case mget providers (health_key (the ws) (the ds)) of None \<Rightarrow> Provider_Unknown | Some e \<Rightarrow> he_status e))"

text \<open>The answer's entries are a status text and an error; \<open>None\<close> is a failed request or an answer that is not ok.\<close>

definition health_refreshed :: "int \<Rightarrow> (string \<times> string \<times> string option) list option \<Rightarrow> health_map \<Rightarrow> health_map" where
  "health_refreshed now answer providers =
     (case answer of
        None \<Rightarrow> providers
      | Some es \<Rightarrow> mfrom (map (\<lambda>(k, status, err).
          (k, \<lparr>he_status = (if status = ''healthy'' then Provider_Healthy else Provider_Unhealthy), he_error = err, he_lastChecked = now\<rparr>)) es))"

section \<open>The poller of the module\<close>

text \<open>
  \<open>pl_timer\<close> is the module's variable: it keeps the handle of a timer that has fired. \<open>pl_armed\<close> are the
  platform's timers with their delays, \<open>pl_flight\<close> counts the refreshes that have not ended.
\<close>

record poller =
  pl_timer :: "nat option"
  pl_ready :: bool
  pl_hidden :: bool
  pl_armed :: "(nat \<times> int) list"
  pl_flight :: nat
  pl_next :: nat

definition new_poller :: "bool \<Rightarrow> poller" where
  "new_poller hidden = \<lparr>pl_timer = None, pl_ready = False, pl_hidden = hidden, pl_armed = [], pl_flight = 0, pl_next = 1\<rparr>"

definition stopPolling :: "poller \<Rightarrow> poller" where
  "stopPolling s = (case pl_timer s of None \<Rightarrow> s | Some h \<Rightarrow> s\<lparr>pl_armed := filter (\<lambda>t. fst t \<noteq> h) (pl_armed s), pl_timer := None\<rparr>)"

definition start_status :: "poller \<Rightarrow> poller" where
  "start_status s = (if pl_timer s \<noteq> None \<or> \<not> pl_ready s \<or> pl_hidden s then s else s\<lparr>pl_flight := pl_flight s + 1\<rparr>)"

definition start_health :: "poller \<Rightarrow> poller" where
  "start_health s = (if pl_timer s \<noteq> None \<or> \<not> pl_ready s then s else s\<lparr>pl_flight := pl_flight s + 1\<rparr>)"

definition enableProviderStatusPolling :: "poller \<Rightarrow> poller" where
  "enableProviderStatusPolling s = start_status (s\<lparr>pl_ready := True\<rparr>)"

definition enableProviderHealthPolling :: "poller \<Rightarrow> poller" where
  "enableProviderHealthPolling s = (let s1 = s\<lparr>pl_ready := True\<rparr> in if pl_hidden s1 then s1 else start_health s1)"

definition visibility :: "(poller \<Rightarrow> poller) \<Rightarrow> bool \<Rightarrow> poller \<Rightarrow> poller" where
  "visibility startPolling hidden s = (let s1 = s\<lparr>pl_hidden := hidden\<rparr> in if hidden then stopPolling s1 else startPolling s1)"

text \<open>The delays of the two modules; a timer takes the integer part of its delay.\<close>

definition status_delay :: "rat \<Rightarrow> int" where
  "status_delay rnd = withJitter 30000 default_frac rnd"

definition health_delay :: "rat \<Rightarrow> int" where
  "health_delay rnd = \<lfloor>30000 + rnd * 5000\<rfloor>"

definition refresh_ended :: "int \<Rightarrow> poller \<Rightarrow> poller" where
  "refresh_ended delay s =
     (if pl_flight s = 0 then s
      else s\<lparr>pl_flight := pl_flight s - 1, pl_timer := Some (pl_next s), pl_armed := pl_armed s @ [(pl_next s, delay)], pl_next := pl_next s + 1\<rparr>)"

definition poll_timer_fires :: "nat \<Rightarrow> poller \<Rightarrow> poller" where
  "poll_timer_fires h s =
     (if h \<in> fst ` set (pl_armed s) then s\<lparr>pl_armed := filter (\<lambda>t. fst t \<noteq> h) (pl_armed s), pl_flight := pl_flight s + 1\<rparr> else s)"

section \<open>The module\<close>

datatype 's status_event =
    Polling_Enabled
  | Tab_Visibility bool
  | Poll_Timer nat
  | Refresh_Ended bool int "(ident \<times> 's) list option" rat

text \<open>The refresh of an event is one of the poller's; the store is read when it has ended.\<close>

fun status_step :: "'s status_event \<Rightarrow> poller \<times> 's status_store \<Rightarrow> poller \<times> 's status_store" where
  "status_step Polling_Enabled (p, s) = (enableProviderStatusPolling p, s)"
| "status_step (Tab_Visibility hidden) (p, s) = (visibility start_status hidden p, s)"
| "status_step (Poll_Timer h) (p, s) = (poll_timer_fires h p, s)"
| "status_step (Refresh_Ended writable now answer rnd) (p, s) =
     (if pl_flight p = 0 then (p, s) else (refresh_ended (status_delay rnd) p, status_refreshed writable now answer s))"

definition new_status :: "bool \<Rightarrow> int \<Rightarrow> 's stored \<Rightarrow> poller \<times> 's status_store" where
  "new_status hidden now raw = (new_poller hidden, new_status_store now raw)"

text \<open>Both modules poll alike: where the tab is visible their two ways to start are the same.\<close>

lemma health_polls_like_status:
  "enableProviderHealthPolling p = enableProviderStatusPolling p \<and> visibility start_health hidden p = visibility start_status hidden p"
  by (simp add: enableProviderHealthPolling_def enableProviderStatusPolling_def visibility_def start_health_def start_status_def Let_def)

lemma health_delay_bounds: "0 \<le> rnd \<Longrightarrow> rnd < 1 \<Longrightarrow> 30000 \<le> health_delay rnd \<and> health_delay rnd < 35000"
  by (simp add: health_delay_def le_floor_iff floor_less_iff)

text \<open>The handle in the module's variable is armed or its timer has fired and a refresh is in flight.\<close>

definition poller_ok :: "poller \<Rightarrow> bool" where
  "poller_ok p \<longleftrightarrow>
     (pl_timer p \<noteq> None \<longrightarrow> pl_flight p \<noteq> 0 \<or> the (pl_timer p) \<in> fst ` set (pl_armed p))
     \<and> (pl_ready p \<and> \<not> pl_hidden p \<longrightarrow> pl_flight p \<noteq> 0 \<or> pl_armed p \<noteq> [])
     \<and> (\<forall>(h, d) \<in> set (pl_armed p). 30000 \<le> d \<and> d \<le> 39000)"

definition stored_ok :: "'s status_store \<Rightarrow> bool" where
  "stored_ok s \<longleftrightarrow>
     (case st_lastUpdatedAt s of
        None \<Rightarrow> st_statuses s = []
      | Some t \<Rightarrow> \<exists>st. st_storage s = Json_Snapshot st (Some t) \<and> nullish st [] = st_statuses s)"

fun writes :: "'s status_event \<Rightarrow> bool" where
  "writes (Refresh_Ended writable _ _ rnd) \<longleftrightarrow> writable \<and> 0 \<le> rnd \<and> rnd < 1"
| "writes _ \<longleftrightarrow> True"

lemma stored_ok_new: "stored_ok (new_status_store now raw)"
  by (auto simp: stored_ok_def new_status_store_def hydrateFromStorage_def split: stored.splits option.splits if_splits)

lemma stored_ok_refreshed: "stored_ok s \<Longrightarrow> stored_ok (status_refreshed True now answer s)"
  by (auto simp: stored_ok_def status_refreshed_def persistToStorage_def Let_def split: option.splits)

text \<open>The start turns an idle poller into a live one, whatever the tab and the module's flag were.\<close>

lemma poller_ok_start: "poller_ok p \<Longrightarrow> poller_ok (start_status (p\<lparr>pl_hidden := hidden, pl_ready := ready\<rparr>))"
  by (cases "pl_timer p") (auto simp: poller_ok_def start_status_def)

lemma poller_ok_stop: "poller_ok p \<Longrightarrow> poller_ok (stopPolling (p\<lparr>pl_hidden := True\<rparr>))"
  by (cases "pl_timer p") (auto simp: poller_ok_def stopPolling_def)

lemma status_delay_bounds:
  assumes "0 \<le> rnd" and "rnd < 1"
  shows "30000 \<le> status_delay rnd \<and> status_delay rnd \<le> 39000"
  using withJitter_bounds [of 30000 rnd default_frac] assms by (simp add: status_delay_def default_frac_def)

lemma poller_ok_step:
  assumes "poller_ok p" and "writes e"
  shows "poller_ok (fst (status_step e (p, s)))"
proof (cases e)
  case Polling_Enabled
  then show ?thesis using poller_ok_start [OF assms(1), where hidden = "pl_hidden p" and ready = True] by (simp add: enableProviderStatusPolling_def)
next
  case (Tab_Visibility hidden)
  then show ?thesis using poller_ok_start [OF assms(1), where hidden = False and ready = "pl_ready p"] poller_ok_stop [OF assms(1)]
    by (simp add: visibility_def Let_def)
next
  case (Poll_Timer h)
  with assms(1) show ?thesis by (auto simp: poll_timer_fires_def poller_ok_def)
next
  case (Refresh_Ended writable now answer rnd)
  with assms status_delay_bounds [of rnd] show ?thesis by (auto simp: refresh_ended_def poller_ok_def)
qed

definition status_ok :: "poller \<times> 's status_store \<Rightarrow> bool" where
  "status_ok w \<longleftrightarrow> poller_ok (fst w) \<and> stored_ok (snd w)"

lemma status_ok_step: "status_ok w \<Longrightarrow> writes e \<Longrightarrow> status_ok (status_step e w)"
  by (cases w) (use poller_ok_step in \<open>cases e; fastforce simp: status_ok_def intro: stored_ok_refreshed\<close>)

interpretation status_system: step_system status_step status_ok writes
  by unfold_locales (rule status_ok_step)

lemma new_status_ok: "status_ok (new_status hidden now raw)"
  by (simp add: status_ok_def new_status_def stored_ok_new new_poller_def poller_ok_def)

text \<open>
  once enabled, and while the tab is visible, the provider status is always being refreshed or due within
  39 seconds; and what is shown comes back after a reload of the page within five minutes of its last update,
  marked as cached, and not later.
\<close>

theorem provider_status_survives:
  assumes "w = run status_step es (new_status hidden t0 raw)" and "list_all writes es"
    and "st_lastUpdatedAt (snd w) = Some t"
  shows "(pl_ready (fst w) \<and> \<not> pl_hidden (fst w) \<longrightarrow> pl_flight (fst w) \<noteq> 0 \<or> (\<exists>h d. (h, d) \<in> set (pl_armed (fst w)) \<and> d \<le> 39000))
    \<and> new_status_store now (st_storage (snd w)) =
        (if now - t \<le> PERSIST_TTL_MS then (snd w)\<lparr>st_fromCache := True\<rparr>
         else \<lparr>st_statuses = [], st_lastUpdatedAt = None, st_fromCache = False, st_storage = st_storage (snd w)\<rparr>)"
proof -
  have ok: "status_ok w" using assms(2) unfolding assms(1) by (auto simp: list_all_iff intro: status_system.run_inv [OF new_status_ok])
  then have "pl_ready (fst w) \<and> \<not> pl_hidden (fst w) \<longrightarrow> pl_flight (fst w) \<noteq> 0 \<or> (\<exists>h d. (h, d) \<in> set (pl_armed (fst w)) \<and> d \<le> 39000)"
    by (cases "pl_armed (fst w)") (auto simp: status_ok_def poller_ok_def)
  moreover obtain st where "st_storage (snd w) = Json_Snapshot st (Some t)" "nullish st [] = st_statuses (snd w)"
    using ok assms(3) by (auto simp: status_ok_def stored_ok_def)
  then have "new_status_store now (st_storage (snd w)) =
        (if now - t \<le> PERSIST_TTL_MS then (snd w)\<lparr>st_fromCache := True\<rparr>
         else \<lparr>st_statuses = [], st_lastUpdatedAt = None, st_fromCache = False, st_storage = st_storage (snd w)\<rparr>)"
    using assms(3) by (auto simp: new_status_store_def hydrateFromStorage_def)
  ultimately show ?thesis by blast
qed

abbreviation status_sample :: "string status_event list" where
  "status_sample \<equiv> [Polling_Enabled, Refresh_Ended True 1000 (Some [(''p1'', ''ready'')]) 0, Poll_Timer 1, Refresh_Ended True 32000 None 0]"

lemma provider_status_survives_witness:
  "st_statuses (new_status_store 301000 (st_storage (snd (run status_step status_sample (new_status False 0 Nothing_Stored))))) = [(''p1'', ''ready'')]
   \<and> st_statuses (new_status_store 301001 (st_storage (snd (run status_step status_sample (new_status False 0 Nothing_Stored))))) = []"
proof -
  let ?w = "run status_step status_sample (new_status False 0 Nothing_Stored)"
  have "list_all writes status_sample" "st_lastUpdatedAt (snd ?w) = Some 1000" "st_statuses (snd ?w) = [(''p1'', ''ready'')]" by code_simp+
  note facts = provider_status_survives [OF refl this(1,2)] this(3)
  show ?thesis using facts(1) [of 301000] facts(1) [of 301001] facts(2) by (simp add: PERSIST_TTL_MS_def del: run_simps)
qed

section \<open>Examples\<close>

abbreviation status_run :: "string status_event list \<Rightarrow> poller" where
  "status_run es \<equiv> fst (run status_step es (new_status False 0 Nothing_Stored))"

text \<open>Hiding the tab during a refresh does not stop the polling: the timer is armed when the refresh has ended.\<close>

lemma polls_while_hidden:
  "(let p = status_run [Polling_Enabled, Tab_Visibility True, Refresh_Ended True 1 None 0] in pl_hidden p \<and> length (pl_armed p) = 1)
   \<and> pl_flight (status_run [Polling_Enabled, Tab_Visibility True, Refresh_Ended True 1 None 0, Poll_Timer 1]) = 1"
  by code_simp

text \<open>Hiding and showing it during a refresh starts a second chain, which no later hiding ends.\<close>

lemma second_chain_never_ends:
  "(let p = status_run [Polling_Enabled, Tab_Visibility True, Tab_Visibility False, Refresh_Ended True 1 None 0, Refresh_Ended True 1 None 0, Tab_Visibility True]
    in pl_hidden p \<and> length (pl_armed p) = 1 \<and> pl_timer p = None)"
  by code_simp

text \<open>Two scopes can have the same key.\<close>

lemma health_keys_clash: "health_key ''a'' ''b:c'' = health_key ''a:b'' ''c''"
  by (simp add: health_key_def)

end
