(* ===== verification/Provider_Probe.thy ===== *)
theory Provider_Probe
  imports Step_System Circuit_Breaker
begin

text \<open>
  The probes of the providers on a user's gesture (\<^verbatim>\<open>hooks/useProviderHealthSweep.ts\<close>): one probe, the sweep
  of all providers with its workers, time-outs and unmounting; and the pool of the graph providers
  (\<^verbatim>\<open>providers/providerPool.ts\<close>). Outcomes of requests and times are parts of the events.
\<close>

section \<open>Probes\<close>

datatype probe_status = Checking | Probed_Healthy | Probed_Unhealthy | Not_Probed

record provider_health =
  ph_status :: probe_status
  ph_latencyMs :: "int option"
  ph_error :: "string option"

text \<open>
  A probe in flight has its abort controller, its provider and the sweep whose worker waits for it. A sweep
  is the rest of its queue; all calls of the component are fresh.
\<close>

record probe =
  pb_controller :: nat
  pb_id :: ident
  pb_sweep :: "nat option"

record prober =
  pr_health :: "(ident, provider_health) jsmap"
  pr_controllers :: "(ident, nat) jsmap"
  pr_aborted :: "nat list"
  pr_flight :: "probe list"
  pr_breakers :: registry
  pr_queues :: "ident list list"
  pr_next :: nat

definition new_prober :: "registry \<Rightarrow> prober" where
  "new_prober reg = \<lparr>pr_health = [], pr_controllers = [], pr_aborted = [], pr_flight = [], pr_breakers = reg, pr_queues = [], pr_next = 0\<rparr>"

definition DEFAULT_CONCURRENCY :: nat where
  "DEFAULT_CONCURRENCY = 3"

text \<open>The breaker of a provider is made when it is first asked for.\<close>

definition provider_breaker :: "ident \<Rightarrow> registry \<Rightarrow> breaker \<times> registry" where
  "provider_breaker i reg = getCircuitBreaker (Some ''provider'') (Some i) reg"

definition with_breaker :: "ident \<Rightarrow> (breaker \<Rightarrow> breaker) \<Rightarrow> registry \<Rightarrow> registry" where
  "with_breaker i f reg = (let (b, reg') = provider_breaker i reg in mset_key (circuit_key (Some ''provider'') (Some i)) (f b) reg')"

definition circuit_open :: string where
  "circuit_open = ''Circuit open - skipping probe until provider recovers''"

definition begin_probe :: "ident \<Rightarrow> nat option \<Rightarrow> prober \<Rightarrow> prober" where
  "begin_probe i sweep s =
     s\<lparr>pr_aborted := (case mget (pr_controllers s) i of None \<Rightarrow> pr_aborted s | Some c \<Rightarrow> set_add c (pr_aborted s)),
       pr_controllers := mset_key i (pr_next s) (pr_controllers s),
       pr_flight := pr_flight s @ [\<lparr>pb_controller = pr_next s, pb_id = i, pb_sweep = sweep\<rparr>],
       pr_health := mset_key i \<lparr>ph_status = Checking, ph_latencyMs = None, ph_error = None\<rparr> (pr_health s),
       pr_next := pr_next s + 1\<rparr>"

definition runProbe :: "bool \<Rightarrow> int \<Rightarrow> ident \<Rightarrow> nat option \<Rightarrow> prober \<Rightarrow> prober" where
  "runProbe fresh now i sweep s =
     (if fresh then begin_probe i sweep (s\<lparr>pr_breakers := with_breaker i cb_reset (pr_breakers s)\<rparr>)
      else (let (b, reg) = provider_breaker i (pr_breakers s); (granted', b') = canRequest now b;
                s1 = s\<lparr>pr_breakers := mset_key (circuit_key (Some ''provider'') (Some i)) b' reg\<rparr>
            in if granted' then begin_probe i sweep s1
               else s1\<lparr>pr_health := mset_key i \<lparr>ph_status = Probed_Unhealthy, ph_latencyMs = None, ph_error = Some circuit_open\<rparr> (pr_health s1)\<rparr>))"

text \<open>The answer of the test, or what was thrown.\<close>

datatype probe_outcome = Tested bool "int option" "string option" | Test_Failed "string option"

definition outcome_health :: "probe_outcome \<Rightarrow> provider_health" where
  "outcome_health r =
     (case r of
        Tested success latency err \<Rightarrow> \<lparr>ph_status = (if success then Probed_Healthy else Probed_Unhealthy), ph_latencyMs = latency, ph_error = err\<rparr>
      | Test_Failed m \<Rightarrow> \<lparr>ph_status = Probed_Unhealthy, ph_latencyMs = None, ph_error = Some (nullish m ''Provider health check failed'')\<rparr>)"

definition outcome_breaker :: "int \<Rightarrow> probe_outcome \<Rightarrow> breaker \<Rightarrow> breaker" where
  "outcome_breaker now r b = (case r of Tested True _ _ \<Rightarrow> recordSuccess b | _ \<Rightarrow> recordFailure now None b)"

definition settle_probe :: "probe \<Rightarrow> probe_outcome \<Rightarrow> int \<Rightarrow> prober \<Rightarrow> prober" where
  "settle_probe p r now s =
     (let s1 = (if pb_controller p \<in> set (pr_aborted s) then s
                else s\<lparr>pr_breakers := with_breaker (pb_id p) (outcome_breaker now r) (pr_breakers s),
                       pr_health := mset_key (pb_id p) (outcome_health r) (pr_health s)\<rparr>)
      in s1\<lparr>pr_flight := filter (\<lambda>q. pb_controller q \<noteq> pb_controller p) (pr_flight s1),
            pr_controllers := (if mget (pr_controllers s1) (pb_id p) = Some (pb_controller p) then mdel (pb_id p) (pr_controllers s1) else pr_controllers s1)\<rparr>)"

section \<open>Sweeps\<close>

text \<open>A worker takes the next provider of its sweep's queue.\<close>

definition worker_next :: "int \<Rightarrow> nat \<Rightarrow> prober \<Rightarrow> prober" where
  "worker_next now k s =
     (case pr_queues s ! k of
        [] \<Rightarrow> s
      | i # rest \<Rightarrow> runProbe True now i (Some k) (s\<lparr>pr_queues := (pr_queues s)[k := rest]\<rparr>))"

text \<open>The loop that starts the workers reads the length of the queue, which every started worker makes shorter.\<close>

function start_workers :: "nat \<Rightarrow> int \<Rightarrow> nat \<Rightarrow> nat \<Rightarrow> prober \<Rightarrow> prober" where
  "start_workers concurrency now k i s =
     (if i < min concurrency (length (pr_queues s ! k)) then start_workers concurrency now k (i + 1) (worker_next now k s) else s)"
  by pat_completeness auto

termination by (relation "measure (\<lambda>(concurrency, now, k, i, s). concurrency - i)") auto

definition runSweep :: "nat \<Rightarrow> int \<Rightarrow> ident list \<Rightarrow> prober \<Rightarrow> prober" where
  "runSweep concurrency now ids s = start_workers concurrency now (length (pr_queues s)) 0 (s\<lparr>pr_queues := pr_queues s @ [ids]\<rparr>)"

definition probe_ended :: "nat \<Rightarrow> probe_outcome \<Rightarrow> int \<Rightarrow> prober \<Rightarrow> prober" where
  "probe_ended c r now s =
     (case find_first (\<lambda>p. pb_controller p = c) (pr_flight s) of
        None \<Rightarrow> s
      | Some p \<Rightarrow> (let s1 = settle_probe p r now s in case pb_sweep p of None \<Rightarrow> s1 | Some k \<Rightarrow> worker_next now k s1))"

text \<open>The timer of a probe aborts it; unmounting aborts those the map of controllers still has.\<close>

definition probe_timeout :: "nat \<Rightarrow> prober \<Rightarrow> prober" where
  "probe_timeout c s = (if c \<in> pb_controller ` set (pr_flight s) then s\<lparr>pr_aborted := set_add c (pr_aborted s)\<rparr> else s)"

definition unmount_probes :: "prober \<Rightarrow> prober" where
  "unmount_probes s = s\<lparr>pr_aborted := fold set_add (map snd (pr_controllers s)) (pr_aborted s), pr_controllers := []\<rparr>"

definition setHealth :: "ident \<Rightarrow> provider_health \<Rightarrow> prober \<Rightarrow> prober" where
  "setHealth i h s = s\<lparr>pr_health := mset_key i h (pr_health s)\<rparr>"

datatype probe_event =
    Test_One ident int
  | Test_All "ident list" int
  | Probe_Ended nat probe_outcome int
  | Probe_Timeout nat
  | Probes_Unmounted
  | Health_Set ident provider_health

fun probe_step :: "nat \<Rightarrow> probe_event \<Rightarrow> prober \<Rightarrow> prober" where
  "probe_step conc (Test_One i now) s = runProbe True now i None s"
| "probe_step conc (Test_All ids now) s = runSweep conc now ids s"
| "probe_step conc (Probe_Ended c r now) s = probe_ended c r now s"
| "probe_step conc (Probe_Timeout c) s = probe_timeout c s"
| "probe_step conc Probes_Unmounted s = unmount_probes s"
| "probe_step conc (Health_Set i h) s = setHealth i h s"

declare start_workers.simps [simp del]

section \<open>What holds of the probes\<close>

text \<open>
  A probe is live unless its controller is aborted. The map of controllers names the live probe of a provider,
  and a controller belongs to one provider.
\<close>

definition live :: "prober \<Rightarrow> probe \<Rightarrow> bool" where
  "live s p \<longleftrightarrow> p \<in> set (pr_flight s) \<and> pb_controller p \<notin> set (pr_aborted s)"

definition workers :: "nat \<Rightarrow> prober \<Rightarrow> nat" where
  "workers k s = length (filter (\<lambda>p. pb_sweep p = Some k) (pr_flight s))"

definition controllers_ok :: "prober \<Rightarrow> bool" where
  "controllers_ok s \<longleftrightarrow> distinct (map pb_controller (pr_flight s))
     \<and> (\<forall>p \<in> set (pr_flight s). pb_controller p < pr_next s) \<and> (\<forall>c \<in> set (pr_aborted s). c < pr_next s)
     \<and> jsm_ok (pr_controllers s) \<and> (\<forall>i c. mget (pr_controllers s) i = Some c \<longrightarrow> c < pr_next s)
     \<and> (\<forall>p. live s p \<longrightarrow> mget (pr_controllers s) (pb_id p) = Some (pb_controller p))
     \<and> (\<forall>p \<in> set (pr_flight s). \<forall>i. mget (pr_controllers s) i = Some (pb_controller p) \<longrightarrow> pb_id p = i)"

text \<open>A sweep with providers left has a worker, and no sweep has more than it may have.\<close>

definition sweeps_ok :: "nat \<Rightarrow> prober \<Rightarrow> bool" where
  "sweeps_ok conc s \<longleftrightarrow>
     (\<forall>k < length (pr_queues s). pr_queues s ! k \<noteq> [] \<longrightarrow> 0 < workers k s) \<and> (\<forall>k. workers k s \<le> conc)
     \<and> (\<forall>p \<in> set (pr_flight s). \<forall>k. pb_sweep p = Some k \<longrightarrow> k < length (pr_queues s))"

definition checking_ok :: "prober \<Rightarrow> bool" where
  "checking_ok s \<longleftrightarrow> (\<forall>i h. mget (pr_health s) i = Some h \<and> ph_status h = Checking \<longrightarrow> (\<exists>p. live s p \<and> pb_id p = i))"

definition breakers_set :: "registry \<Rightarrow> prober \<Rightarrow> prober" where
  "breakers_set reg s = s\<lparr>pr_breakers := reg\<rparr>"

lemma fresh_probe: "\<exists>reg. runProbe True now i sweep s = begin_probe i sweep (s\<lparr>pr_breakers := reg\<rparr>)"
  by (simp add: runProbe_def) blast

lemma breakers_frame [simp]:
  "controllers_ok (s\<lparr>pr_breakers := reg\<rparr>) = controllers_ok s" "checking_ok (s\<lparr>pr_breakers := reg\<rparr>) = checking_ok s"
  "live (s\<lparr>pr_breakers := reg\<rparr>) = live s" "workers k (s\<lparr>pr_breakers := reg\<rparr>) = workers k s"
  by (simp_all add: controllers_ok_def checking_ok_def live_def workers_def fun_eq_iff)

lemma queues_frame [simp]:
  "controllers_ok (s\<lparr>pr_queues := qs\<rparr>) = controllers_ok s" "checking_ok (s\<lparr>pr_queues := qs\<rparr>) = checking_ok s"
  "live (s\<lparr>pr_queues := qs\<rparr>) = live s" "workers k (s\<lparr>pr_queues := qs\<rparr>) = workers k s"
  by (simp_all add: controllers_ok_def checking_ok_def live_def workers_def fun_eq_iff)

lemma begin_simps [simp]:
  "pr_queues (begin_probe i sweep s) = pr_queues s" "workers k (begin_probe i sweep s) = workers k s + (if sweep = Some k then 1 else 0)"
  "pr_flight (begin_probe i sweep s) = pr_flight s @ [\<lparr>pb_controller = pr_next s, pb_id = i, pb_sweep = sweep\<rparr>]"
  "pr_next (begin_probe i sweep s) = pr_next s + 1" "pr_controllers (begin_probe i sweep s) = mset_key i (pr_next s) (pr_controllers s)"
  by (simp_all add: begin_probe_def workers_def)

lemma begin_aborted: "set (pr_aborted (begin_probe i sweep s)) = set (pr_aborted s) \<union> set_option (mget (pr_controllers s) i)"
  by (auto simp: begin_probe_def split: option.split)

lemma begin_live:
  assumes "controllers_ok s"
  shows "live (begin_probe i sweep s) p \<longleftrightarrow> p = \<lparr>pb_controller = pr_next s, pb_id = i, pb_sweep = sweep\<rparr> \<or> (live s p \<and> pb_id p \<noteq> i)"
proof -
  have "pr_next s \<notin> set (pr_aborted s)" "mget (pr_controllers s) i \<noteq> Some (pr_next s)"
    using assms by (auto simp: controllers_ok_def)
  moreover have "mget (pr_controllers s) i = Some (pb_controller p) \<longleftrightarrow> pb_id p = i" if "live s p"
    using assms that by (auto simp: controllers_ok_def live_def)
  moreover have "mget (pr_controllers s) i = Some (pb_controller p) \<Longrightarrow> p \<in> set (pr_flight s) \<Longrightarrow> pb_id p = i"
    using assms by (auto simp: controllers_ok_def)
  ultimately show ?thesis by (auto simp: live_def begin_aborted)
qed

lemma controllers_ok_begin:
  assumes "controllers_ok s"
  shows "controllers_ok (begin_probe i sweep s)"
proof -
  let ?s = "begin_probe i sweep s"
  have new: "pr_next s \<notin> pb_controller ` set (pr_flight s)" using assms by (auto simp: controllers_ok_def)
  have "distinct (map pb_controller (pr_flight ?s))" using assms new by (simp add: controllers_ok_def)
  moreover have "\<forall>p \<in> set (pr_flight ?s). pb_controller p < pr_next ?s"
    using assms by (simp add: controllers_ok_def less_Suc_eq)
  moreover have "\<forall>c \<in> set (pr_aborted ?s). c < pr_next ?s"
    using assms by (simp add: begin_aborted controllers_ok_def less_Suc_eq ball_Un)
  moreover have "jsm_ok (pr_controllers ?s)" using assms by (simp add: controllers_ok_def)
  moreover have "\<forall>j c. mget (pr_controllers ?s) j = Some c \<longrightarrow> c < pr_next ?s"
    using assms by (simp add: controllers_ok_def less_Suc_eq)
  moreover have "\<forall>p. live ?s p \<longrightarrow> mget (pr_controllers ?s) (pb_id p) = Some (pb_controller p)"
    using assms by (auto simp: begin_live) (simp add: controllers_ok_def)
  moreover have "\<forall>p \<in> set (pr_flight ?s). \<forall>j. mget (pr_controllers ?s) j = Some (pb_controller p) \<longrightarrow> pb_id p = j"
    using assms new by (auto simp: controllers_ok_def)
  ultimately show ?thesis unfolding controllers_ok_def by blast
qed

lemma checking_ok_begin:
  assumes "controllers_ok s" and "checking_ok s"
  shows "checking_ok (begin_probe i sweep s)"
proof -
  have "\<exists>p. live (begin_probe i sweep s) p \<and> pb_id p = i" by (rule exI [of _ "\<lparr>pb_controller = pr_next s, pb_id = i, pb_sweep = sweep\<rparr>"]) (simp add: begin_live [OF assms(1)])
  moreover have "mget (pr_health (begin_probe i sweep s)) j = mget (pr_health s) j" if "j \<noteq> i" for j using that by (simp add: begin_probe_def)
  ultimately show ?thesis using assms(2) by (auto simp: checking_ok_def begin_live [OF assms(1)]) metis
qed

lemma settle_simps [simp]:
  "pr_queues (settle_probe p r now s) = pr_queues s" "pr_next (settle_probe p r now s) = pr_next s" "pr_aborted (settle_probe p r now s) = pr_aborted s"
  "pr_flight (settle_probe p r now s) = filter (\<lambda>q. pb_controller q \<noteq> pb_controller p) (pr_flight s)"
  "pr_controllers (settle_probe p r now s) = (if mget (pr_controllers s) (pb_id p) = Some (pb_controller p) then mdel (pb_id p) (pr_controllers s) else pr_controllers s)"
  by (simp_all add: settle_probe_def Let_def)

lemma settle_probe_live: "live (settle_probe p r now s) q \<longleftrightarrow> live s q \<and> pb_controller q \<noteq> pb_controller p"
  by (auto simp: live_def)

lemma same_controller: "controllers_ok s \<Longrightarrow> p \<in> set (pr_flight s) \<Longrightarrow> q \<in> set (pr_flight s) \<Longrightarrow> pb_controller p = pb_controller q \<Longrightarrow> p = q"
  by (auto simp: controllers_ok_def distinct_map dest: inj_onD)

lemma live_controller: "controllers_ok s \<Longrightarrow> live s p \<Longrightarrow> mget (pr_controllers s) (pb_id p) = Some (pb_controller p)"
  by (simp add: controllers_ok_def)

text \<open>A provider has one live probe at most.\<close>

lemma one_live_probe:
  assumes "controllers_ok s" and "live s p" and "live s q" and "pb_id p = pb_id q"
  shows "p = q"
proof -
  have "pb_controller p = pb_controller q" using live_controller [OF assms(1,2)] live_controller [OF assms(1,3)] assms(4) by simp
  with assms(2,3) show ?thesis by (intro same_controller [OF assms(1)]) (auto simp: live_def)
qed

lemma controllers_ok_settle:
  assumes "controllers_ok s" and "p \<in> set (pr_flight s)"
  shows "controllers_ok (settle_probe p r now s)"
proof -
  let ?s = "settle_probe p r now s"
  have "distinct (map pb_controller (pr_flight ?s))" using assms(1) by (simp add: controllers_ok_def distinct_map_filter)
  moreover have "\<forall>q. live ?s q \<longrightarrow> mget (pr_controllers ?s) (pb_id q) = Some (pb_controller q)"
    using assms(1) by (auto simp: settle_probe_live controllers_ok_def)
  ultimately show ?thesis using assms(1) unfolding controllers_ok_def by simp
qed

lemma settle_health: "mget (pr_health (settle_probe p r now s)) i =
    (if pb_controller p \<notin> set (pr_aborted s) \<and> i = pb_id p then Some (outcome_health r) else mget (pr_health s) i)"
  by (simp add: settle_probe_def Let_def)

lemma outcome_not_checking: "ph_status (outcome_health r) \<noteq> Checking"
  by (simp add: outcome_health_def split: probe_outcome.split)

lemma checking_ok_settle:
  assumes "controllers_ok s" and "checking_ok s" and "p \<in> set (pr_flight s)"
  shows "checking_ok (settle_probe p r now s)"
  unfolding checking_ok_def
proof (intro allI impI)
  fix i h assume h: "mget (pr_health (settle_probe p r now s)) i = Some h \<and> ph_status h = Checking"
  then have stays: "mget (pr_health s) i = Some h" and not_p: "pb_controller p \<in> set (pr_aborted s) \<or> i \<noteq> pb_id p"
    using outcome_not_checking [of r] by (auto simp: settle_health split: if_splits)
  then obtain q where q: "live s q" "pb_id q = i" using assms(2) h by (auto simp: checking_ok_def)
  then have "pb_controller q \<noteq> pb_controller p"
    using not_p same_controller [OF assms(1) _ assms(3)] by (auto simp: live_def)
  with q show "\<exists>q. live (settle_probe p r now s) q \<and> pb_id q = i" by (auto simp: settle_probe_live)
qed

lemma workers_settle:
  assumes "controllers_ok s" and "p \<in> set (pr_flight s)"
  shows "workers k (settle_probe p r now s) + (if pb_sweep p = Some k then 1 else 0) = workers k s"
proof -
  obtain xs ys where fl: "pr_flight s = xs @ p # ys" using assms(2) by (meson split_list)
  then have "distinct (map pb_controller (xs @ p # ys))" using assms(1) by (simp add: controllers_ok_def)
  then have "\<forall>q \<in> set xs \<union> set ys. pb_controller q \<noteq> pb_controller p" by (fastforce simp: image_iff)
  then have "filter (\<lambda>q. pb_controller q \<noteq> pb_controller p) (pr_flight s) = xs @ ys" by (simp add: fl)
  then show ?thesis by (auto simp: workers_def fl)
qed

text \<open>The next provider of a worker; the worker that asks is not counted.\<close>

lemma next_simps:
  assumes "k < length (pr_queues s)"
  shows "pr_queues (worker_next now k s) = (pr_queues s)[k := tl (pr_queues s ! k)]"
    and "workers j (worker_next now k s) = workers j s + (if j = k \<and> pr_queues s ! k \<noteq> [] then 1 else 0)"
proof -
  show "pr_queues (worker_next now k s) = (pr_queues s)[k := tl (pr_queues s ! k)]"
  proof (cases "pr_queues s ! k")
    case (Cons i rest)
    then show ?thesis by (simp add: worker_next_def runProbe_def)
  next
    case Nil
    then show ?thesis by (simp add: worker_next_def) (metis list_update_id)
  qed
  show "workers j (worker_next now k s) = workers j s + (if j = k \<and> pr_queues s ! k \<noteq> [] then 1 else 0)"
    by (cases "pr_queues s ! k") (simp_all add: worker_next_def runProbe_def)
qed

lemma next_ok:
  assumes "controllers_ok s"
  shows "controllers_ok (worker_next now k s)" and "checking_ok s \<Longrightarrow> checking_ok (worker_next now k s)"
  using assms by (auto simp: worker_next_def runProbe_def controllers_ok_begin checking_ok_begin split: list.split)

lemma next_sweeps:
  assumes "p \<in> set (pr_flight (worker_next now k s))" and "pb_sweep p = Some j"
  shows "j = k \<or> p \<in> set (pr_flight s)"
  using assms by (auto simp: worker_next_def runProbe_def split: list.splits)

text \<open>What \<open>sweeps_ok\<close> says of all sweeps but one, whose worker is between two providers.\<close>

definition others_ok :: "nat \<Rightarrow> nat \<Rightarrow> prober \<Rightarrow> bool" where
  "others_ok conc k s \<longleftrightarrow>
     (\<forall>j < length (pr_queues s). j \<noteq> k \<longrightarrow> pr_queues s ! j \<noteq> [] \<longrightarrow> 0 < workers j s) \<and> (\<forall>j. j \<noteq> k \<longrightarrow> workers j s \<le> conc)
     \<and> (\<forall>p \<in> set (pr_flight s). \<forall>j. pb_sweep p = Some j \<longrightarrow> j < length (pr_queues s))"

lemma sweeps_ok_iff:
  "sweeps_ok conc s \<longleftrightarrow> others_ok conc k s \<and> (k < length (pr_queues s) \<longrightarrow> pr_queues s ! k \<noteq> [] \<longrightarrow> 0 < workers k s) \<and> workers k s \<le> conc"
  by (auto simp: sweeps_ok_def others_ok_def)

lemma others_ok_next:
  assumes "others_ok conc k s" and "k < length (pr_queues s)"
  shows "others_ok conc k (worker_next now k s)"
proof -
  have "j < length (pr_queues s)" if "p \<in> set (pr_flight (worker_next now k s))" "pb_sweep p = Some j" for p j
    using next_sweeps [OF that] assms that(2) by (auto simp: others_ok_def)
  then show ?thesis using assms by (auto simp: others_ok_def next_simps nth_list_update)
qed

lemma workers_beyond: "sweeps_ok conc s \<Longrightarrow> length (pr_queues s) \<le> k \<Longrightarrow> workers k s = 0"
  by (fastforce simp: sweeps_ok_def workers_def filter_empty_conv)

lemma start_workers_ok:
  assumes "controllers_ok s" and "others_ok conc k s" and "k < length (pr_queues s)" and "workers k s = i" and "i \<le> conc" and "0 < conc"
  shows "controllers_ok (start_workers conc now k i s) \<and> sweeps_ok conc (start_workers conc now k i s)
    \<and> (checking_ok s \<longrightarrow> checking_ok (start_workers conc now k i s))"
  using assms
proof (induction conc now k i s rule: start_workers.induct)
  case (1 conc now k i s)
  show ?case
  proof (cases "i < min conc (length (pr_queues s ! k))")
    case True
    then have some: "pr_queues s ! k \<noteq> []" by auto
    have "controllers_ok (worker_next now k s)" "others_ok conc k (worker_next now k s)" "k < length (pr_queues (worker_next now k s))"
      "workers k (worker_next now k s) = i + 1"
      using "1.prems" next_ok(1) [of s now k] others_ok_next some by (simp_all add: next_simps)
    from "1.IH" [OF True this] "1.prems"(1,6) True show ?thesis
      by (subst (1 2 3) start_workers.simps) (simp add: next_ok)
  next
    case False
    then have "pr_queues s ! k \<noteq> [] \<longrightarrow> 0 < i" using "1.prems"(6) by (cases "pr_queues s ! k") auto
    then have "sweeps_ok conc s" using "1.prems" unfolding sweeps_ok_iff [of conc s k] by auto
    with False "1.prems"(1) show ?thesis by (subst (1 2 3) start_workers.simps) auto
  qed
qed

lemma others_ok_all: "sweeps_ok conc s \<Longrightarrow> others_ok conc k s"
  by (auto simp: sweeps_ok_def others_ok_def)

lemma runSweep_ok:
  assumes "controllers_ok s" and "sweeps_ok conc s" and "0 < conc"
  shows "controllers_ok (runSweep conc now ids s) \<and> sweeps_ok conc (runSweep conc now ids s) \<and> (checking_ok s \<longrightarrow> checking_ok (runSweep conc now ids s))"
proof -
  let ?s = "s\<lparr>pr_queues := pr_queues s @ [ids]\<rparr>" and ?k = "length (pr_queues s)"
  have "others_ok conc ?k ?s" using assms(2) by (auto simp: others_ok_def sweeps_ok_def nth_append less_Suc_eq)
  moreover have "workers ?k ?s = 0" using workers_beyond [OF assms(2)] by simp
  ultimately show ?thesis using start_workers_ok [of ?s conc ?k 0 now] assms(1,3) by (simp add: runSweep_def)
qed

lemma probe_ended_ok:
  assumes "controllers_ok s" and "sweeps_ok conc s"
  shows "controllers_ok (probe_ended c r now s) \<and> sweeps_ok conc (probe_ended c r now s) \<and> (checking_ok s \<longrightarrow> checking_ok (probe_ended c r now s))"
proof (cases "find_first (\<lambda>p. pb_controller p = c) (pr_flight s)")
  case None
  with assms show ?thesis by (simp add: probe_ended_def)
next
  case (Some p)
  then have p: "p \<in> set (pr_flight s)" by (auto dest: find_first_Some)
  let ?s = "settle_probe p r now s"
  have ok: "controllers_ok ?s" "checking_ok s \<longrightarrow> checking_ok ?s"
    using assms(1) p controllers_ok_settle checking_ok_settle by blast+
  note count = workers_settle [OF assms(1) p, where r = r and now = now]
  show ?thesis
  proof (cases "pb_sweep p")
    case None
    then have "workers k ?s = workers k s" for k using count [of k] by simp
    with assms(2) have "sweeps_ok conc ?s" by (auto simp: sweeps_ok_def)
    with Some None ok show ?thesis by (simp add: probe_ended_def)
  next
    case (Some k)
    have same: "workers j ?s = workers j s" if "j \<noteq> k" for j using count [of j] Some that by simp
    have less: "workers k ?s + 1 = workers k s" using count [of k] Some by simp
    have k: "k < length (pr_queues s)" using assms(2) p Some by (auto simp: sweeps_ok_def)
    have "others_ok conc k ?s" using assms(2) same by (auto simp: sweeps_ok_def others_ok_def)
    moreover have "workers k ?s + 1 \<le> conc" unfolding less using assms(2) by (simp add: sweeps_ok_def)
    ultimately have "sweeps_ok conc (worker_next now k ?s)"
      unfolding sweeps_ok_iff [of conc "worker_next now k ?s" k] using k others_ok_next [of conc k ?s now] by (auto simp: next_simps)
    with ok next_ok [of ?s now k] show ?thesis
      using \<open>find_first (\<lambda>p. pb_controller p = c) (pr_flight s) = Some p\<close> Some by (simp add: probe_ended_def)
  qed
qed

definition prober_ok :: "nat \<Rightarrow> prober \<Rightarrow> bool" where
  "prober_ok conc s \<longleftrightarrow> 0 < conc \<and> controllers_ok s \<and> sweeps_ok conc s"

lemma prober_ok_begin:
  assumes "prober_ok conc s"
  shows "prober_ok conc (runProbe True now i None s)"
proof -
  obtain reg where eq: "runProbe True now i None s = begin_probe i None (s\<lparr>pr_breakers := reg\<rparr>)" using fresh_probe by blast
  have "sweeps_ok conc (begin_probe i None (s\<lparr>pr_breakers := reg\<rparr>))" using assms by (simp add: prober_ok_def sweeps_ok_def)
  with assms show ?thesis by (simp add: prober_ok_def eq controllers_ok_begin)
qed

text \<open>Aborting and setting a status touch neither the probes nor the queues.\<close>

lemma prober_ok_abort:
  assumes "prober_ok conc s" and "set cs \<subseteq> {..< pr_next s}"
  shows "prober_ok conc (s\<lparr>pr_aborted := fold set_add cs (pr_aborted s)\<rparr>)"
proof -
  have "live (s\<lparr>pr_aborted := fold set_add cs (pr_aborted s)\<rparr>) p \<Longrightarrow> live s p" for p by (simp add: live_def)
  then have "controllers_ok (s\<lparr>pr_aborted := fold set_add cs (pr_aborted s)\<rparr>)"
    using assms by (auto simp: prober_ok_def controllers_ok_def)
  then show ?thesis using assms(1) by (simp add: prober_ok_def sweeps_ok_def workers_def)
qed

lemma prober_ok_timeout: "prober_ok conc s \<Longrightarrow> prober_ok conc (probe_timeout c s)"
  using prober_ok_abort [of conc s "[c]"] by (auto simp: probe_timeout_def) (auto simp: prober_ok_def controllers_ok_def)

lemma prober_ok_unmount:
  assumes "prober_ok conc s"
  shows "prober_ok conc (unmount_probes s)"
proof -
  let ?s = "unmount_probes s"
  have gone: "\<not> live ?s p" for p
  proof
    assume p: "live ?s p"
    then have "live s p" by (simp add: unmount_probes_def live_def)
    then have "pb_controller p \<in> set (map snd (pr_controllers s))"
      using assms live_controller [of s p] by (force simp: prober_ok_def dest: mget_in_set)
    with p show False by (simp add: unmount_probes_def live_def)
  qed
  have "c < pr_next s" if "c \<in> set (map snd (pr_controllers s))" for c
    using assms that mget_iff_in_set [of "pr_controllers s" _ c] by (auto simp: prober_ok_def controllers_ok_def)
  then have "\<forall>c \<in> set (pr_aborted ?s). c < pr_next ?s"
    using assms by (auto simp: unmount_probes_def prober_ok_def controllers_ok_def)
  then have "controllers_ok ?s" using assms gone unfolding prober_ok_def controllers_ok_def by (simp add: unmount_probes_def)
  then show ?thesis using assms by (simp add: prober_ok_def sweeps_ok_def workers_def unmount_probes_def)
qed

lemma prober_ok_step: "prober_ok conc s \<Longrightarrow> prober_ok conc (probe_step conc e s)"
proof (cases e)
  case (Test_One i now)
  assume "prober_ok conc s"
  with Test_One show ?thesis by (simp add: prober_ok_begin)
next
  case (Health_Set i h)
  assume "prober_ok conc s"
  moreover have "live (setHealth i h s) = live s" by (simp add: setHealth_def live_def fun_eq_iff)
  ultimately show ?thesis using Health_Set by (simp add: setHealth_def prober_ok_def controllers_ok_def sweeps_ok_def workers_def)
next
  case (Probe_Ended c r now)
  assume "prober_ok conc s"
  with Probe_Ended probe_ended_ok [of s conc c r now] show ?thesis by (simp add: prober_ok_def)
qed (simp_all add: prober_ok_timeout prober_ok_unmount, simp_all add: prober_ok_def runSweep_ok)

text \<open>Nothing but an answer ends a probe, and nothing but a probe shows a provider as being checked.\<close>

fun undisturbed :: "probe_event \<Rightarrow> bool" where
  "undisturbed (Probe_Timeout _) \<longleftrightarrow> False"
| "undisturbed Probes_Unmounted \<longleftrightarrow> False"
| "undisturbed (Health_Set _ h) \<longleftrightarrow> ph_status h \<noteq> Checking"
| "undisturbed _ \<longleftrightarrow> True"

lemma checking_ok_step:
  assumes "prober_ok conc s" and "checking_ok s" and "undisturbed e"
  shows "checking_ok (probe_step conc e s)"
proof (cases e)
  case (Test_One i now)
  obtain reg where "runProbe True now i None s = begin_probe i None (s\<lparr>pr_breakers := reg\<rparr>)" using fresh_probe by blast
  with Test_One assms show ?thesis by (simp add: prober_ok_def checking_ok_begin)
next
  case (Health_Set i h)
  have "live (setHealth i h s) = live s" by (simp add: setHealth_def live_def fun_eq_iff)
  with Health_Set assms(2,3) show ?thesis by (auto simp: checking_ok_def) (auto simp: setHealth_def split: if_splits)
next
  case (Probe_Ended c r now)
  with assms probe_ended_ok [of s conc c r now] show ?thesis by (simp add: prober_ok_def)
qed (use assms in \<open>simp_all add: prober_ok_def runSweep_ok\<close>)

interpretation probe_system: step_system "probe_step conc" "prober_ok conc" "\<lambda>_. True"
  by unfold_locales (rule prober_ok_step)

interpretation quiet_probe_system: step_system "probe_step conc" "\<lambda>s. prober_ok conc s \<and> checking_ok s" undisturbed
  by unfold_locales (simp add: prober_ok_step checking_ok_step)

lemma new_prober_ok: "0 < conc \<Longrightarrow> prober_ok conc (new_prober reg) \<and> checking_ok (new_prober reg)"
  by (simp add: prober_ok_def new_prober_def controllers_ok_def sweeps_ok_def checking_ok_def live_def workers_def)

text \<open>
  A status that a step changes is the answer of a live probe, was set from outside, or is that of a provider
  whose probe has begun.
\<close>

definition being_checked :: "provider_health" where
  "being_checked = \<lparr>ph_status = Checking, ph_latencyMs = None, ph_error = None\<rparr>"

definition only_checks :: "prober \<Rightarrow> prober \<Rightarrow> bool" where
  "only_checks s s' \<longleftrightarrow>
     (\<forall>i. mget (pr_health s') i = mget (pr_health s) i \<or> (mget (pr_health s') i = Some being_checked \<and> (\<exists>q. live s' q \<and> pb_id q = i)))"

lemma only_checks_refl: "pr_health s' = pr_health s \<Longrightarrow> only_checks s s'"
  by (simp add: only_checks_def)

lemma begin_health: "mget (pr_health (begin_probe j sweep s)) i = (if i = j then Some being_checked else mget (pr_health s) i)"
  by (simp add: begin_probe_def being_checked_def)

lemma only_checks_begin:
  assumes "only_checks s s1" and "controllers_ok s1"
  shows "only_checks s (begin_probe j sweep s1)"
  unfolding only_checks_def
proof
  fix i
  have new: "live (begin_probe j sweep s1) \<lparr>pb_controller = pr_next s1, pb_id = j, pb_sweep = sweep\<rparr>" by (simp add: begin_live [OF assms(2)])
  show "mget (pr_health (begin_probe j sweep s1)) i = mget (pr_health s) i
      \<or> (mget (pr_health (begin_probe j sweep s1)) i = Some being_checked \<and> (\<exists>q. live (begin_probe j sweep s1) q \<and> pb_id q = i))"
  proof (cases "i = j")
    case True
    with new show ?thesis by (auto simp: begin_health)
  next
    case False
    with assms(1) show ?thesis unfolding only_checks_def begin_health begin_live [OF assms(2)] by auto
  qed
qed

lemma only_checks_frame [simp]:
  "only_checks s (s1\<lparr>pr_breakers := reg\<rparr>) = only_checks s s1" "only_checks s (s1\<lparr>pr_queues := qs\<rparr>) = only_checks s s1"
  "only_checks (s\<lparr>pr_queues := qs\<rparr>) s1 = only_checks s s1"
  by (simp_all add: only_checks_def)

lemma only_checks_next:
  assumes "only_checks s s1" and "controllers_ok s1"
  shows "only_checks s (worker_next now k s1)"
  using assms by (auto simp: worker_next_def runProbe_def intro: only_checks_begin split: list.split)

lemma only_checks_workers: "only_checks s s1 \<Longrightarrow> controllers_ok s1 \<Longrightarrow> only_checks s (start_workers conc now k i s1)"
proof (induction conc now k i s1 rule: start_workers.induct)
  case (1 conc now k i s1)
  then show ?case by (subst start_workers.simps) (simp add: only_checks_next next_ok)
qed

lemma ended_status:
  assumes "controllers_ok s"
  shows "mget (pr_health (probe_ended c r now s)) i = mget (pr_health s) i
    \<or> (\<exists>p. live s p \<and> pb_controller p = c \<and> pb_id p = i \<and> mget (pr_health (probe_ended c r now s)) i = Some (outcome_health r))
    \<or> (mget (pr_health (probe_ended c r now s)) i = Some being_checked \<and> (\<exists>q. live (probe_ended c r now s) q \<and> pb_id q = i))"
proof (cases "find_first (\<lambda>p. pb_controller p = c) (pr_flight s)")
  case (Some p)
  then have p: "p \<in> set (pr_flight s)" "pb_controller p = c" by (auto dest: find_first_Some)
  let ?s = "settle_probe p r now s"
  have "only_checks ?s (probe_ended c r now s)"
    using Some only_checks_next [OF only_checks_refl [OF refl] controllers_ok_settle [OF assms p(1)]]
    by (cases "pb_sweep p") (simp_all add: probe_ended_def only_checks_refl)
  then have "mget (pr_health (probe_ended c r now s)) i = mget (pr_health ?s) i
      \<or> (mget (pr_health (probe_ended c r now s)) i = Some being_checked \<and> (\<exists>q. live (probe_ended c r now s) q \<and> pb_id q = i))"
    by (simp add: only_checks_def)
  then show ?thesis using p by (auto simp: settle_health live_def split: if_splits)
qed (simp add: probe_ended_def)

lemma step_status:
  assumes "controllers_ok s" and "mget (pr_health (probe_step conc e s)) i \<noteq> mget (pr_health s) i"
  shows "(\<exists>p r now. e = Probe_Ended (pb_controller p) r now \<and> live s p \<and> pb_id p = i \<and> mget (pr_health (probe_step conc e s)) i = Some (outcome_health r))
    \<or> (mget (pr_health (probe_step conc e s)) i = Some being_checked \<and> (\<exists>q. live (probe_step conc e s) q \<and> pb_id q = i))
    \<or> (\<exists>h. e = Health_Set i h)"
proof (cases e)
  case (Test_One j now)
  obtain reg where "runProbe True now j None s = begin_probe j None (s\<lparr>pr_breakers := reg\<rparr>)" using fresh_probe by blast
  moreover have "only_checks s (begin_probe j None (s\<lparr>pr_breakers := reg\<rparr>))" using assms(1) by (simp add: only_checks_begin only_checks_refl)
  ultimately show ?thesis using assms(2) Test_One by (auto simp: only_checks_def)
next
  case (Test_All ids now)
  have "only_checks s (runSweep conc now ids s)" using assms(1) by (simp add: runSweep_def only_checks_workers only_checks_refl)
  with assms(2) Test_All show ?thesis by (auto simp: only_checks_def)
next
  case (Probe_Ended c r now)
  with ended_status [OF assms(1), of c r now i] assms(2) show ?thesis by auto
qed (use assms(2) in \<open>auto simp: probe_timeout_def unmount_probes_def setHealth_def split: if_splits\<close>)

text \<open>The answer of a live probe is shown, unless a probe of its provider begins in the same step.\<close>

lemma live_answer_shown:
  assumes "controllers_ok s" and "live s p"
  shows "mget (pr_health (probe_ended (pb_controller p) r now s)) (pb_id p) = Some (outcome_health r)
    \<or> (\<exists>q. live (probe_ended (pb_controller p) r now s) q \<and> pb_id q = pb_id p)"
proof -
  have p: "p \<in> set (pr_flight s)" using assms(2) by (simp add: live_def)
  obtain p' where find: "find_first (\<lambda>q. pb_controller q = pb_controller p) (pr_flight s) = Some p'"
    using p by (cases "find_first (\<lambda>q. pb_controller q = pb_controller p) (pr_flight s)") (auto simp: find_first_None)
  then have "p' = p" using same_controller [OF assms(1) _ p] by (auto dest: find_first_Some)
  let ?s = "settle_probe p r now s"
  have "only_checks ?s (probe_ended (pb_controller p) r now s)"
    using find \<open>p' = p\<close> only_checks_next [OF only_checks_refl [OF refl] controllers_ok_settle [OF assms(1) p]]
    by (cases "pb_sweep p") (simp_all add: probe_ended_def only_checks_refl)
  moreover have "mget (pr_health ?s) (pb_id p) = Some (outcome_health r)" using assms(2) by (simp add: settle_health live_def)
  ultimately show ?thesis unfolding only_checks_def by metis
qed

lemma aborted_answer_ignored:
  assumes "controllers_ok s" and "p \<in> set (pr_flight s)" and "\<not> live s p" and "pb_sweep p = None"
  shows "pr_health (probe_ended (pb_controller p) r now s) = pr_health s \<and> pr_breakers (probe_ended (pb_controller p) r now s) = pr_breakers s"
proof -
  obtain p' where find: "find_first (\<lambda>q. pb_controller q = pb_controller p) (pr_flight s) = Some p'"
    using assms(2) by (cases "find_first (\<lambda>q. pb_controller q = pb_controller p) (pr_flight s)") (auto simp: find_first_None)
  then have "p' = p" using same_controller [OF assms(1) _ assms(2)] by (auto dest: find_first_Some)
  with find assms(2-4) show ?thesis by (simp add: probe_ended_def settle_probe_def live_def)
qed

text \<open>
  C29: through every history of tests, sweeps, time-outs and unmounting a provider has at most one probe that is
  in flight and not aborted. A status changes only when such a probe of the provider ends, to its outcome, or
  when one begins, to "checking", or when it is set from outside; the outcome of such a probe is shown unless
  another probe of the provider begins with its end, and a single test that was aborted or replaced changes no
  status and no breaker when it ends. A sweep with providers left has a worker, and never more than it may
  have; and unless something times out or is unmounted, or a status is set to "checking" from outside, a
  provider shown as being checked has a probe that will answer.
\<close>

theorem probes_settle:
  assumes "s = run (probe_step conc) es (new_prober reg)" and "0 < conc" and "s' = probe_step conc e s"
  shows "(live s p \<and> live s q \<and> pb_id p = pb_id q \<longrightarrow> p = q)
    \<and> (mget (pr_health s') i \<noteq> mget (pr_health s) i \<longrightarrow>
        (\<exists>p r now. e = Probe_Ended (pb_controller p) r now \<and> live s p \<and> pb_id p = i \<and> mget (pr_health s') i = Some (outcome_health r))
        \<or> (mget (pr_health s') i = Some being_checked \<and> (\<exists>q. live s' q \<and> pb_id q = i)) \<or> (\<exists>h. e = Health_Set i h))
    \<and> (e = Probe_Ended (pb_controller p) r now \<and> live s p \<longrightarrow>
        mget (pr_health s') (pb_id p) = Some (outcome_health r) \<or> (\<exists>q. live s' q \<and> pb_id q = pb_id p))
    \<and> (e = Probe_Ended (pb_controller p) r now \<and> p \<in> set (pr_flight s) \<and> \<not> live s p \<and> pb_sweep p = None \<longrightarrow>
        pr_health s' = pr_health s \<and> pr_breakers s' = pr_breakers s)
    \<and> (k < length (pr_queues s) \<and> pr_queues s ! k \<noteq> [] \<longrightarrow> 0 < workers k s) \<and> workers k s \<le> conc
    \<and> (list_all undisturbed es \<and> mget (pr_health s) i = Some h \<and> ph_status h = Checking \<longrightarrow> (\<exists>p'. live s p' \<and> pb_id p' = i))"
proof -
  have ok: "prober_ok conc s" unfolding assms(1) by (rule probe_system.run_inv) (simp_all add: new_prober_ok assms(2))
  then have c: "controllers_ok s" by (simp add: prober_ok_def)
  have quiet: "checking_ok s" if "list_all undisturbed es"
    using that quiet_probe_system.run_inv [of conc "new_prober reg" es] new_prober_ok [OF assms(2), of reg] by (simp add: assms(1) list_all_iff)
  show ?thesis
  proof (intro conjI)
    show "live s p \<and> live s q \<and> pb_id p = pb_id q \<longrightarrow> p = q" using one_live_probe [OF c, of p q] by blast
    show "mget (pr_health s') i \<noteq> mget (pr_health s) i \<longrightarrow>
        (\<exists>p r now. e = Probe_Ended (pb_controller p) r now \<and> live s p \<and> pb_id p = i \<and> mget (pr_health s') i = Some (outcome_health r))
        \<or> (mget (pr_health s') i = Some being_checked \<and> (\<exists>q. live s' q \<and> pb_id q = i)) \<or> (\<exists>h. e = Health_Set i h)"
      using step_status [OF c, of conc e i] by (simp only: assms(3)) blast
    show "e = Probe_Ended (pb_controller p) r now \<and> live s p \<longrightarrow>
        mget (pr_health s') (pb_id p) = Some (outcome_health r) \<or> (\<exists>q. live s' q \<and> pb_id q = pb_id p)"
      using live_answer_shown [OF c, of p r now] by (auto simp: assms(3))
    show "e = Probe_Ended (pb_controller p) r now \<and> p \<in> set (pr_flight s) \<and> \<not> live s p \<and> pb_sweep p = None \<longrightarrow>
        pr_health s' = pr_health s \<and> pr_breakers s' = pr_breakers s"
      using aborted_answer_ignored [OF c, of p r now] by (auto simp: assms(3))
    show "k < length (pr_queues s) \<and> pr_queues s ! k \<noteq> [] \<longrightarrow> 0 < workers k s" "workers k s \<le> conc"
      using ok by (simp_all add: prober_ok_def sweeps_ok_def)
    show "list_all undisturbed es \<and> mget (pr_health s) i = Some h \<and> ph_status h = Checking \<longrightarrow> (\<exists>p'. live s p' \<and> pb_id p' = i)"
      using quiet by (auto simp: checking_ok_def)
  qed
qed

abbreviation probe_run :: "probe_event list \<Rightarrow> prober" where
  "probe_run es \<equiv> run (probe_step DEFAULT_CONCURRENCY) es (new_prober [])"

lemma probes_settle_witness:
  "\<exists>p. live (probe_run [Test_All [''a'', ''b'', ''c''] 0, Probe_Ended 0 (Tested True None None) 5]) p \<and> pb_id p = ''c''"
proof -
  let ?es = "[Test_All [''a'', ''b'', ''c''] 0, Probe_Ended 0 (Tested True None None) 5]"
  have "mget (pr_health (probe_run ?es)) ''c'' = Some being_checked" by code_simp
  moreover have "list_all undisturbed ?es" by simp
  moreover have "0 < DEFAULT_CONCURRENCY" by (simp add: DEFAULT_CONCURRENCY_def)
  moreover have "ph_status being_checked = Checking" by (simp add: being_checked_def)
  moreover have "list_all undisturbed ?es \<and> mget (pr_health (probe_run ?es)) ''c'' = Some being_checked \<and> ph_status being_checked = Checking
      \<longrightarrow> (\<exists>p. live (probe_run ?es) p \<and> pb_id p = ''c'')"
    using probes_settle [OF refl \<open>0 < DEFAULT_CONCURRENCY\<close> refl, where es = ?es and reg = "[]" and e = Probes_Unmounted
        and i = "''c''" and h = being_checked and k = 0 and r = "Test_Failed None" and now = 0 and p = undefined and q = undefined]
    by (elim conjE)
  ultimately show ?thesis by blast
qed

text \<open>The answer of a probe that was replaced changes nothing, and its successor's is shown.\<close>

lemma replaced_probe_is_ignored:
  "(let s = probe_run [Test_One ''a'' 0, Test_One ''a'' 1, Probe_Ended 0 (Tested False None None) 2]
    in map_option ph_status (mget (pr_health s) ''a'') = Some Checking
      \<and> map_option ph_status (mget (pr_health (probe_step 3 (Probe_Ended 1 (Tested True None None) 3) s)) ''a'') = Some Probed_Healthy)"
  by code_simp

section \<open>Examples\<close>

text \<open>A probe that times out stays "checking" for good, and the breaker hears nothing of it.\<close>

lemma timeout_keeps_checking:
  "(let s = probe_run [Test_One ''a'' 0, Probe_Timeout 0, Probe_Ended 0 (Test_Failed None) 30000]
    in map_option ph_status (mget (pr_health s) ''a'') = Some Checking \<and> pr_flight s = []
      \<and> map_option consecutiveFailures (mget (pr_breakers s) ''provider:a'') = Some 0)"
  by code_simp

text \<open>The loop that starts the workers stops early: two providers get one worker, four get two, of three.\<close>

lemma fewer_workers_than_allowed:
  "workers 0 (probe_run [Test_All [''a'', ''b''] 0]) = 1 \<and> workers 0 (probe_run [Test_All [''a'', ''b'', ''c'', ''d''] 0]) = 2"
  by code_simp

text \<open>Unmounting does not end a sweep: its workers go on, with probes nobody aborts.\<close>

lemma sweep_goes_on_unmounted:
  "map pb_id (filter (\<lambda>p. pb_controller p \<notin> set (pr_aborted (probe_run [Test_All [''a'', ''b'', ''c''] 0, Probes_Unmounted, Probe_Ended 0 (Test_Failed None) 1])))
     (pr_flight (probe_run [Test_All [''a'', ''b'', ''c''] 0, Probes_Unmounted, Probe_Ended 0 (Test_Failed None) 1]))) = [''c'']"
  by code_simp

section \<open>The pool of graph providers\<close>

text \<open>A provider object is a number; the pool keeps it with the time of its last use.\<close>

type_synonym provider_pool = "(string, nat \<times> int) jsmap"

definition POOL_MAX_SIZE :: nat where
  "POOL_MAX_SIZE = 8"

definition poolKey :: "ident \<Rightarrow> ident option \<Rightarrow> string" where
  "poolKey ws ds = ws @ '':'' @ nullish ds ''default''"

definition older :: "string \<times> nat \<times> int \<Rightarrow> (string \<times> int) option \<Rightarrow> (string \<times> int) option" where
  "older e best = (case best of None \<Rightarrow> Some (fst e, snd (snd e)) | Some (k, t) \<Rightarrow> if snd (snd e) < t then Some (fst e, snd (snd e)) else best)"

definition evict_oldest :: "provider_pool \<Rightarrow> provider_pool" where
  "evict_oldest pool = (case fold older pool None of None \<Rightarrow> pool | Some (k, t) \<Rightarrow> if k = '''' then pool else mdel k pool)"

definition getOrCreateProvider :: "int \<Rightarrow> nat \<Rightarrow> ident \<Rightarrow> ident option \<Rightarrow> provider_pool \<Rightarrow> nat \<times> provider_pool" where
  "getOrCreateProvider now new' ws ds pool =
     (let key = poolKey ws ds
      in case mget pool key of
        Some (p, t) \<Rightarrow> (p, mset_key key (p, now) pool)
      | None \<Rightarrow> (let pool1 = (if POOL_MAX_SIZE \<le> length pool then evict_oldest pool else pool) in (new', mset_key key (new', now) pool1)))"

lemma fold_older:
  "fold older es (Some (k, t)) = Some (k', t') \<Longrightarrow>
     t' \<le> t \<and> (\<forall>e \<in> set es. t' \<le> snd (snd e)) \<and> ((k', t') = (k, t) \<or> (\<exists>p. (k', p, t') \<in> set es))"
  by (induction es arbitrary: k t) (fastforce simp: older_def split: if_splits)+

lemma fold_older_Some: "\<exists>k t. fold older es (Some b) = Some (k, t)"
  by (induction es arbitrary: b) (auto simp: older_def split: prod.splits)

lemma oldest_of:
  assumes "pool \<noteq> []"
  shows "\<exists>k t p. fold older pool None = Some (k, t) \<and> (k, p, t) \<in> set pool \<and> (\<forall>e \<in> set pool. t \<le> snd (snd e))"
proof -
  obtain k0 p0 t0 es where pool: "pool = (k0, p0, t0) # es" using assms by (cases pool) auto
  obtain k t where kt: "fold older es (Some (k0, t0)) = Some (k, t)" using fold_older_Some by blast
  have "fold older pool None = Some (k, t)" using kt by (simp add: pool older_def)
  with fold_older [OF kt] show ?thesis by (auto simp: pool)
qed

definition pool_ok :: "provider_pool \<Rightarrow> bool" where
  "pool_ok pool \<longleftrightarrow> jsm_ok pool \<and> length pool \<le> POOL_MAX_SIZE \<and> '''' \<notin> set (map fst pool)"

lemma evict_ok:
  assumes "pool_ok pool" and "length pool = POOL_MAX_SIZE"
  shows "\<exists>k p t. evict_oldest pool = mdel k pool \<and> (k, p, t) \<in> set pool \<and> (\<forall>e \<in> set pool. t \<le> snd (snd e)) \<and> length (evict_oldest pool) < POOL_MAX_SIZE"
proof -
  have "pool \<noteq> []" using assms(2) by (auto simp: POOL_MAX_SIZE_def)
  then obtain k t p where k: "fold older pool None = Some (k, t)" "(k, p, t) \<in> set pool" "\<forall>e \<in> set pool. t \<le> snd (snd e)"
    using oldest_of by blast
  have "k \<noteq> ''''" using assms(1) k(2) by (force simp: pool_ok_def)
  then have eq: "evict_oldest pool = mdel k pool" using k(1) by (simp add: evict_oldest_def)
  have "length (mdel k pool) < length pool" using k(2) by (auto simp: AList.delete_eq intro!: length_filter_less)
  with eq k(2,3) assms(2) show ?thesis by auto
qed

text \<open>
  The pool never grows beyond its size: a scope that is in it keeps its provider, and a new one replaces the
  scope that was used least recently.
\<close>

lemma pool_stays_bounded:
  assumes "pool_ok pool" and "getOrCreateProvider now new' ws ds pool = (p, pool')"
  shows "pool_ok pool'" and "mget pool' (poolKey ws ds) = Some (p, now)"
    and "mget pool (poolKey ws ds) = Some (p0, t) \<Longrightarrow> p = p0"
proof -
  have key: "poolKey ws ds \<noteq> ''''" by (simp add: poolKey_def)
  have ok: "jsm_ok pool" "length pool \<le> POOL_MAX_SIZE" "'''' \<notin> set (map fst pool)" using assms(1) by (simp_all add: pool_ok_def)
  have "pool_ok pool' \<and> mget pool' (poolKey ws ds) = Some (p, now)"
  proof (cases "mget pool (poolKey ws ds)")
    case (Some e)
    then have "pool' = mset_key (poolKey ws ds) (p, now) pool" using assms(2) by (cases e) (auto simp: getOrCreateProvider_def Let_def)
    then show ?thesis using ok key Some by (simp add: pool_ok_def length_mset_key keys_mset_key del: set_map)
  next
    case None
    define pool1 where "pool1 = (if POOL_MAX_SIZE \<le> length pool then evict_oldest pool else pool)"
    have pool': "pool' = mset_key (poolKey ws ds) (p, now) pool1" using None assms(2) by (auto simp: getOrCreateProvider_def Let_def pool1_def)
    have "jsm_ok pool1 \<and> length pool1 < POOL_MAX_SIZE \<and> '''' \<notin> set (map fst pool1)"
    proof (cases "POOL_MAX_SIZE \<le> length pool")
      case True
      with ok(2) evict_ok [OF assms(1)] obtain k where "evict_oldest pool = mdel k pool" "length (evict_oldest pool) < POOL_MAX_SIZE" by auto
      with True ok show ?thesis by (simp add: pool1_def keys_mdel del: set_map)
    qed (use ok in \<open>simp add: pool1_def\<close>)
    then show ?thesis using key by (simp add: pool' pool_ok_def length_mset_key keys_mset_key del: set_map)
  qed
  then show "pool_ok pool'" "mget pool' (poolKey ws ds) = Some (p, now)" by simp_all
  show "p = p0" if "mget pool (poolKey ws ds) = Some (p0, t)" using that assms(2) by (auto simp: getOrCreateProvider_def)
qed

text \<open>A data source named "default" shares its provider with the scope that has none.\<close>

lemma default_scope_is_shared: "poolKey ws None = poolKey ws (Some ''default'')"
  by (simp add: poolKey_def)

end
