(* ===== verification/Ontology_Codec.thy ===== *)
theory Ontology_Codec
  imports Graph_Model Js_String
begin

text \<open>
  The two directions between the definitions of an ontology as the backend keeps them and the types the
  editor works with (\<^verbatim>\<open>features/ontology/lib/ontology-parsers.ts\<close>), and the names that are made of ids. The
  casts of the source check nothing: what is read is any JSON value, and a missing one is replaced only where
  the source has \<^verbatim>\<open>??\<close>.
\<close>

section \<open>Reading JSON\<close>

text \<open>A property of a value that is not \<^verbatim>\<open>null\<close>; only objects have the properties read here.\<close>

definition prop_of :: "json \<Rightarrow> string \<Rightarrow> json option" where
  "prop_of j k = (case j of JObj m \<Rightarrow> mget m k | _ \<Rightarrow> None)"

text \<open>\<^verbatim>\<open>x ?? d\<close>\<close>

definition or_else :: "json option \<Rightarrow> json \<Rightarrow> json" where
  "or_else x d = (case x of None \<Rightarrow> d | Some JNull \<Rightarrow> d | Some v \<Rightarrow> v)"

lemma or_else_simps [simp]:
  "or_else None d = d" "or_else (Some JNull) d = d" "v \<noteq> JNull \<Longrightarrow> or_else (Some v) d = v"
  by (simp_all add: or_else_def split: json.splits)

definition object_of :: "(string \<times> json option) list \<Rightarrow> json" where
  "object_of fs = JObj (concat (map (\<lambda>(k, v). case v of None \<Rightarrow> [] | Some j \<Rightarrow> [(k, j)]) fs))"

lemma prop_object_Nil [simp]: "prop_of (object_of []) k = None"
  by (simp add: object_of_def prop_of_def)

lemma prop_object_Cons [simp]:
  "prop_of (object_of ((k, v) # fs)) k' = (if k = k' then (case v of None \<Rightarrow> prop_of (object_of fs) k' | Some j \<Rightarrow> Some j) else prop_of (object_of fs) k')"
  by (simp add: object_of_def prop_of_def split: option.split)

lemma object_not_null [simp]: "object_of fs \<noteq> JNull"
  by (simp add: object_of_def)

section \<open>Names made of ids\<close>

definition is_lower :: "char \<Rightarrow> bool" where
  "is_lower c = (let n = (of_char c :: nat) in 97 \<le> n \<and> n \<le> 122)"

definition is_upper :: "char \<Rightarrow> bool" where
  "is_upper c = (let n = (of_char c :: nat) in 65 \<le> n \<and> n \<le> 90)"

definition is_word :: "char \<Rightarrow> bool" where
  "is_word c \<longleftrightarrow> is_lower c \<or> is_upper c \<or> c = CHR ''_'' \<or> (let n = (of_char c :: nat) in 48 \<le> n \<and> n \<le> 57)"

fun split_humps :: "string \<Rightarrow> string" where
  "split_humps (c # d # s) = (if is_lower c \<and> is_upper d then c # CHR '' '' # split_humps (d # s) else c # split_humps (d # s))"
| "split_humps s = s"

text \<open>A character at a word boundary is one after a character that is none of a word, or the first.\<close>

fun capitalise :: "bool \<Rightarrow> string \<Rightarrow> string" where
  "capitalise inside [] = []"
| "capitalise inside (c # s) = (if is_word c \<and> \<not> inside then upper_char c else c) # capitalise (is_word c) s"

definition humanizeId :: "string \<Rightarrow> string" where
  "humanizeId i = capitalise False (split_humps (map (\<lambda>c. if c = CHR ''_'' \<or> c = CHR ''-'' then CHR '' '' else c) i))"

lemma upper_char_of: "is_lower c \<Longrightarrow> is_upper (upper_char c)" and upper_char_other: "\<not> is_lower c \<Longrightarrow> upper_char c = c"
proof -
  assume c: "is_lower c"
  have "(of_char c :: nat) < 256" by simp
  then have "((of_char c :: nat) - 32) mod 256 = of_char c - 32" by (intro mod_less) arith
  with c show "is_upper (upper_char c)" by (simp add: is_lower_def is_upper_def upper_char_def Let_def) arith
next
  assume "\<not> is_lower c"
  then show "upper_char c = c" unfolding is_lower_def upper_char_def Let_def by (simp only: if_False)
qed

lemma lower_upper_disjoint: "is_lower c \<Longrightarrow> \<not> is_upper c"
  by (simp add: is_lower_def is_upper_def Let_def)

lemma is_word_upper [simp]: "is_word (upper_char c) = is_word c"
  using upper_char_of [of c] upper_char_other [of c] by (cases "is_lower c") (auto simp: is_word_def)

lemma capitalise_idem: "capitalise inside (capitalise inside s) = capitalise inside s"
  by (induction inside s rule: capitalise.induct) auto

fun no_humps :: "string \<Rightarrow> bool" where
  "no_humps (c # d # s) \<longleftrightarrow> \<not> (is_lower c \<and> is_upper d) \<and> no_humps (d # s)"
| "no_humps s \<longleftrightarrow> True"

lemma split_humps_same: "no_humps s \<Longrightarrow> split_humps s = s"
  by (induction s rule: split_humps.induct) auto

lemma split_humps_head: "\<exists>s'. split_humps (d # s) = d # s'"
  by (cases s) auto

lemma split_humps_none: "no_humps (split_humps s)"
proof (induction s rule: split_humps.induct)
  case (1 c d s)
  obtain s' where "split_humps (d # s) = d # s'" using split_humps_head by blast
  with 1 show ?case by (auto simp: is_upper_def is_lower_def)
qed simp_all

lemma capitalise_no_humps: "no_humps s \<Longrightarrow> no_humps (capitalise inside s)"
proof (induction s arbitrary: inside rule: no_humps.induct)
  case (1 c d s)
  then have "no_humps (capitalise (is_word c) (d # s))" by simp
  moreover have "\<not> (is_lower (if is_word c \<and> \<not> inside then upper_char c else c) \<and> is_upper d)"
    using 1 upper_char_of [of c] upper_char_other [of c] lower_upper_disjoint [of "upper_char c"] by (auto split: if_splits)
  ultimately show ?case using upper_char_of [of c] lower_upper_disjoint [of "upper_char c"] upper_char_other [of c]
    by (auto simp: is_word_def split: if_splits)
qed simp_all

lemma set_split_humps: "set (split_humps s) \<subseteq> insert (CHR '' '') (set s)"
  by (induction s rule: split_humps.induct) auto

lemma set_capitalise: "set (capitalise inside s) \<subseteq> set s \<union> upper_char ` set s"
  by (induction inside s rule: capitalise.induct) auto

lemma no_separator_upper: "c \<noteq> CHR ''_'' \<Longrightarrow> c \<noteq> CHR ''-'' \<Longrightarrow> upper_char c \<noteq> CHR ''_'' \<and> upper_char c \<noteq> CHR ''-''"
  using upper_char_of [of c] upper_char_other [of c] by (cases "is_lower c") (auto simp: is_upper_def)

text \<open>A name that was made of an id is its own name.\<close>

lemma humanizeId_idem: "humanizeId (humanizeId i) = humanizeId i"
proof -
  define t where "t = map (\<lambda>c. if c = CHR ''_'' \<or> c = CHR ''-'' then CHR '' '' else c) i"
  have in_t: "c \<noteq> CHR ''_'' \<and> c \<noteq> CHR ''-''" if "c \<in> set t" for c
    using that unfolding t_def set_map by (elim imageE) (simp split: if_split)
  have split: "c \<noteq> CHR ''_'' \<and> c \<noteq> CHR ''-''" if c: "c \<in> set (split_humps t)" for c
  proof -
    have "c = CHR '' '' \<or> c \<in> set t" using c set_split_humps [of t] by blast
    then show ?thesis by (elim disjE) (simp_all add: in_t)
  qed
  have clean: "c \<noteq> CHR ''_'' \<and> c \<noteq> CHR ''-''" if c: "c \<in> set (humanizeId i)" for c
  proof -
    have "c \<in> set (split_humps t) \<union> upper_char ` set (split_humps t)"
      using c unfolding humanizeId_def t_def [symmetric] by (rule subsetD [OF set_capitalise])
    then show ?thesis
    proof
      assume "c \<in> upper_char ` set (split_humps t)"
      then obtain d where "c = upper_char d" "d \<in> set (split_humps t)" by (elim imageE)
      with split [of d] no_separator_upper [of d] show ?thesis by simp
    qed (rule split)
  qed
  then have "map (\<lambda>c. if c = CHR ''_'' \<or> c = CHR ''-'' then CHR '' '' else c) (humanizeId i) = humanizeId i"
    by (intro map_idI) (simp add: clean)
  moreover have "no_humps (humanizeId i)" unfolding humanizeId_def by (intro capitalise_no_humps split_humps_none)
  ultimately have "humanizeId (humanizeId i) = capitalise False (humanizeId i)"
    by (simp add: humanizeId_def [of "humanizeId i"] split_humps_same)
  then show ?thesis by (simp add: humanizeId_def capitalise_idem)
qed

lemma value_names: "humanizeId ''data_platform-v2'' = ''Data Platform V2''" "humanizeId ''dataPlatform'' = ''Data Platform''"
  by code_simp+

section \<open>Entity types\<close>

record onto_visual =
  ov_icon :: json
  ov_color :: json
  ov_colorSecondary :: "json option"
  ov_shape :: json
  ov_size :: json
  ov_borderStyle :: json
  ov_showInMinimap :: json

record onto_field =
  of_id :: "json option"
  of_name :: "json option"
  of_type :: json
  of_required :: json
  of_showInNode :: json
  of_showInPanel :: json
  of_showInTooltip :: json
  of_displayOrder :: json
  of_format :: "json option"

record onto_hierarchy =
  oh_level :: json
  oh_canContain :: json
  oh_canBeContainedBy :: json
  oh_defaultExpanded :: json
  oh_rollUpFields :: "json option"

record onto_behavior =
  ob_selectable :: json
  ob_draggable :: json
  ob_expandable :: json
  ob_traceable :: json
  ob_clickAction :: json
  ob_doubleClickAction :: json

record onto_entity =
  oe_id :: ident
  oe_name :: json
  oe_pluralName :: json
  oe_description :: "json option"
  oe_visual :: onto_visual
  oe_fields :: "onto_field list"
  oe_hierarchy :: onto_hierarchy
  oe_behavior :: onto_behavior

text \<open>Reading a field; \<^verbatim>\<open>null\<close> throws.\<close>

definition field_of :: "json \<Rightarrow> onto_field option" where
  "field_of f =
     (if f = JNull then None
      else Some \<lparr>of_id = prop_of f ''id'', of_name = prop_of f ''name'',
        of_type = or_else (prop_of f ''type'') (JStr ''string''), of_required = or_else (prop_of f ''required'') (JBool False),
        of_showInNode = or_else (prop_of f ''show_in_node'') (JBool False), of_showInPanel = or_else (prop_of f ''show_in_panel'') (JBool True),
        of_showInTooltip = or_else (prop_of f ''show_in_tooltip'') (JBool False), of_displayOrder = or_else (prop_of f ''display_order'') (JNum 0),
        of_format = None\<rparr>)"

fun all_fields :: "json list \<Rightarrow> onto_field list option" where
  "all_fields [] = Some []"
| "all_fields (f # fs) = (case field_of f of None \<Rightarrow> None | Some x \<Rightarrow> map_option (\<lambda>xs. x # xs) (all_fields fs))"

text \<open>\<open>conv\<close> is the text of a value that is no string in a template. \<open>None\<close> is a \<^verbatim>\<open>TypeError\<close>.\<close>

definition template :: "(json \<Rightarrow> string) \<Rightarrow> json \<Rightarrow> string" where
  "template conv j = (case j of JStr s \<Rightarrow> s | _ \<Rightarrow> conv j)"

definition visual_of :: "json \<Rightarrow> onto_visual" where
  "visual_of v = \<lparr>ov_icon = or_else (prop_of v ''icon'') (JStr ''Box''), ov_color = or_else (prop_of v ''color'') (JStr ''#6366f1''), ov_colorSecondary = None,
     ov_shape = or_else (prop_of v ''shape'') (JStr ''rounded''), ov_size = or_else (prop_of v ''size'') (JStr ''md''),
     ov_borderStyle = or_else (prop_of v ''border_style'') (JStr ''solid''), ov_showInMinimap = or_else (prop_of v ''show_in_minimap'') (JBool True)\<rparr>"

definition hierarchy_of :: "json \<Rightarrow> onto_hierarchy" where
  "hierarchy_of h = \<lparr>oh_level = or_else (prop_of h ''level'') (JNum 0), oh_canContain = or_else (prop_of h ''can_contain'') (JArr []),
     oh_canBeContainedBy = or_else (prop_of h ''can_be_contained_by'') (JArr []), oh_defaultExpanded = or_else (prop_of h ''default_expanded'') (JBool False),
     oh_rollUpFields = Some (JArr [])\<rparr>"

definition behavior_of :: "json \<Rightarrow> onto_behavior" where
  "behavior_of b = \<lparr>ob_selectable = or_else (prop_of b ''selectable'') (JBool True), ob_draggable = or_else (prop_of b ''draggable'') (JBool True),
     ob_expandable = or_else (prop_of b ''expandable'') (JBool True), ob_traceable = or_else (prop_of b ''traceable'') (JBool True),
     ob_clickAction = or_else (prop_of b ''click_action'') (JStr ''select''), ob_doubleClickAction = or_else (prop_of b ''double_click_action'') (JStr ''expand'')\<rparr>"

definition entityDefToSchema :: "(json \<Rightarrow> string) \<Rightarrow> ident \<Rightarrow> json \<Rightarrow> onto_entity option" where
  "entityDefToSchema conv i def =
     (if def = JNull then None
      else (case or_else (prop_of def ''fields'') (JArr []) of
          JArr fs \<Rightarrow> map_option (\<lambda>fields'.
            \<lparr>oe_id = i, oe_name = or_else (prop_of def ''name'') (JStr (humanizeId i)),
             oe_pluralName = or_else (prop_of def ''plural_name'') (JStr (template conv (or_else (prop_of def ''name'') (JStr (humanizeId i))) @ ''s'')),
             oe_description = prop_of def ''description'', oe_visual = visual_of (or_else (prop_of def ''visual'') (JObj [])), oe_fields = fields',
             oe_hierarchy = hierarchy_of (or_else (prop_of def ''hierarchy'') (JObj [])), oe_behavior = behavior_of (or_else (prop_of def ''behavior'') (JObj []))\<rparr>)
            (all_fields fs)
        | _ \<Rightarrow> None))"

definition field_object :: "onto_field \<Rightarrow> json" where
  "field_object f = object_of [(''id'', of_id f), (''name'', of_name f), (''type'', Some (of_type f)), (''required'', Some (of_required f)),
     (''show_in_node'', Some (of_showInNode f)), (''show_in_panel'', Some (of_showInPanel f)), (''show_in_tooltip'', Some (of_showInTooltip f)),
     (''display_order'', Some (of_displayOrder f))]"

definition visual_object :: "onto_visual \<Rightarrow> json" where
  "visual_object v = object_of [(''icon'', Some (ov_icon v)), (''color'', Some (ov_color v)), (''shape'', Some (ov_shape v)), (''size'', Some (ov_size v)),
     (''border_style'', Some (ov_borderStyle v)), (''show_in_minimap'', Some (ov_showInMinimap v))]"

definition hierarchy_object :: "onto_hierarchy \<Rightarrow> json" where
  "hierarchy_object h = object_of [(''level'', Some (oh_level h)), (''can_contain'', Some (oh_canContain h)), (''can_be_contained_by'', Some (oh_canBeContainedBy h)),
     (''default_expanded'', Some (oh_defaultExpanded h)), (''roll_up_fields'', Some (or_else (oh_rollUpFields h) (JArr [])))]"

definition behavior_object :: "onto_behavior \<Rightarrow> json" where
  "behavior_object b = object_of [(''selectable'', Some (ob_selectable b)), (''draggable'', Some (ob_draggable b)), (''expandable'', Some (ob_expandable b)),
     (''traceable'', Some (ob_traceable b)), (''click_action'', Some (ob_clickAction b)), (''double_click_action'', Some (ob_doubleClickAction b))]"

definition entitySchemaToBackend :: "onto_entity \<Rightarrow> json" where
  "entitySchemaToBackend et = object_of [(''name'', Some (oe_name et)), (''plural_name'', Some (oe_pluralName et)), (''description'', oe_description et),
     (''visual'', Some (visual_object (oe_visual et))), (''hierarchy'', Some (hierarchy_object (oe_hierarchy et))),
     (''behavior'', Some (behavior_object (oe_behavior et))), (''fields'', Some (JArr (map field_object (oe_fields et))))]"

section \<open>Relationship types\<close>

record onto_rel_visual =
  rv_strokeColor :: json
  rv_strokeWidth :: json
  rv_strokeStyle :: json
  rv_animated :: json
  rv_animationSpeed :: json
  rv_arrowType :: json
  rv_curveType :: json

record onto_rel =
  or_id :: ident
  or_name :: json
  or_description :: "json option"
  or_sourceTypes :: json
  or_targetTypes :: json
  or_visual :: onto_rel_visual
  or_bidirectional :: json
  or_showLabel :: json
  or_labelField :: "json option"
  or_isContainment :: "json option"
  or_isLineage :: "json option"
  or_category :: "json option"
  or_direction :: "json option"

definition rel_visual_of :: "json \<Rightarrow> onto_rel_visual" where
  "rel_visual_of v = \<lparr>rv_strokeColor = or_else (prop_of v ''stroke_color'') (JStr ''#6366f1''), rv_strokeWidth = or_else (prop_of v ''stroke_width'') (JNum 2),
     rv_strokeStyle = or_else (prop_of v ''stroke_style'') (JStr ''solid''), rv_animated = or_else (prop_of v ''animated'') (JBool False),
     rv_animationSpeed = or_else (prop_of v ''animation_speed'') (JStr ''normal''), rv_arrowType = or_else (prop_of v ''arrow_type'') (JStr ''arrow''),
     rv_curveType = or_else (prop_of v ''curve_type'') (JStr ''bezier'')\<rparr>"

definition relDefToSchema :: "ident \<Rightarrow> json \<Rightarrow> onto_rel option" where
  "relDefToSchema i def =
     (if def = JNull then None
      else Some \<lparr>or_id = i, or_name = or_else (prop_of def ''name'') (JStr (humanizeId i)), or_description = Some (or_else (prop_of def ''description'') (JStr '''')),
        or_sourceTypes = or_else (prop_of def ''source_types'') (JArr []), or_targetTypes = or_else (prop_of def ''target_types'') (JArr []),
        or_visual = rel_visual_of (or_else (prop_of def ''visual'') (JObj [])),
        or_bidirectional = or_else (prop_of def ''bidirectional'') (JBool False), or_showLabel = or_else (prop_of def ''show_label'') (JBool False), or_labelField = None,
        or_isContainment = Some (or_else (prop_of def ''is_containment'') (JBool False)), or_isLineage = Some (or_else (prop_of def ''is_lineage'') (JBool False)),
        or_category = Some (or_else (prop_of def ''category'') (JStr ''association'')),
        or_direction = Some (or_else (prop_of def ''direction'') (JStr ''source-to-target''))\<rparr>)"

definition rel_visual_object :: "onto_rel_visual \<Rightarrow> json" where
  "rel_visual_object v = object_of [(''stroke_color'', Some (rv_strokeColor v)), (''stroke_width'', Some (rv_strokeWidth v)), (''stroke_style'', Some (rv_strokeStyle v)),
     (''animated'', Some (rv_animated v)), (''animation_speed'', Some (rv_animationSpeed v)), (''arrow_type'', Some (rv_arrowType v)), (''curve_type'', Some (rv_curveType v))]"

definition relSchemaToBackend :: "onto_rel \<Rightarrow> json" where
  "relSchemaToBackend rt = object_of [(''name'', Some (or_name rt)), (''description'', or_description rt),
     (''is_containment'', Some (or_else (or_isContainment rt) (JBool False))), (''is_lineage'', Some (or_else (or_isLineage rt) (JBool False))),
     (''category'', Some (or_else (or_category rt) (JStr ''association''))), (''direction'', Some (or_else (or_direction rt) (JStr ''source-to-target''))),
     (''visual'', Some (rel_visual_object (or_visual rt))), (''source_types'', Some (or_sourceTypes rt)), (''target_types'', Some (or_targetTypes rt)),
     (''bidirectional'', Some (or_bidirectional rt)), (''show_label'', Some (or_showLabel rt))]"

section \<open>What survives a save\<close>

definition filled_visual :: "onto_visual \<Rightarrow> bool" where
  "filled_visual v \<longleftrightarrow> list_all (\<lambda>j. j \<noteq> JNull) [ov_icon v, ov_color v, ov_shape v, ov_size v, ov_borderStyle v, ov_showInMinimap v]"

definition filled_field :: "onto_field \<Rightarrow> bool" where
  "filled_field f \<longleftrightarrow> list_all (\<lambda>j. j \<noteq> JNull) [of_type f, of_required f, of_showInNode f, of_showInPanel f, of_showInTooltip f, of_displayOrder f]"

definition filled_hierarchy :: "onto_hierarchy \<Rightarrow> bool" where
  "filled_hierarchy h \<longleftrightarrow> list_all (\<lambda>j. j \<noteq> JNull) [oh_level h, oh_canContain h, oh_canBeContainedBy h, oh_defaultExpanded h]"

definition filled_behavior :: "onto_behavior \<Rightarrow> bool" where
  "filled_behavior b \<longleftrightarrow> list_all (\<lambda>j. j \<noteq> JNull) [ob_selectable b, ob_draggable b, ob_expandable b, ob_traceable b, ob_clickAction b, ob_doubleClickAction b]"

definition filled_entity :: "onto_entity \<Rightarrow> bool" where
  "filled_entity et \<longleftrightarrow> oe_name et \<noteq> JNull \<and> oe_pluralName et \<noteq> JNull \<and> filled_visual (oe_visual et) \<and> list_all filled_field (oe_fields et)
     \<and> filled_hierarchy (oe_hierarchy et) \<and> filled_behavior (oe_behavior et)"

text \<open>The backend's form has no place for the second colour, the formats of fields, and drops the roll-ups on reading.\<close>

definition stored_part :: "onto_entity \<Rightarrow> onto_entity" where
  "stored_part et = et\<lparr>oe_visual := (oe_visual et)\<lparr>ov_colorSecondary := None\<rparr>, oe_fields := map (\<lambda>f. f\<lparr>of_format := None\<rparr>) (oe_fields et),
     oe_hierarchy := (oe_hierarchy et)\<lparr>oh_rollUpFields := Some (JArr [])\<rparr>\<rparr>"

lemma visual_roundtrip: "filled_visual v \<Longrightarrow> visual_of (visual_object v) = v\<lparr>ov_colorSecondary := None\<rparr>"
  by (simp add: filled_visual_def visual_of_def visual_object_def)

lemma hierarchy_roundtrip: "filled_hierarchy h \<Longrightarrow> hierarchy_of (hierarchy_object h) = h\<lparr>oh_rollUpFields := Some (JArr [])\<rparr>"
  by (simp add: filled_hierarchy_def hierarchy_of_def hierarchy_object_def)

lemma behavior_roundtrip: "filled_behavior b \<Longrightarrow> behavior_of (behavior_object b) = b"
  by (simp add: filled_behavior_def behavior_of_def behavior_object_def)

lemma field_roundtrip: "filled_field f \<Longrightarrow> field_of (field_object f) = Some (f\<lparr>of_format := None\<rparr>)"
  by (simp add: filled_field_def field_of_def field_object_def split: option.split)

lemma fields_roundtrip: "list_all filled_field fs \<Longrightarrow> all_fields (map field_object fs) = Some (map (\<lambda>f. f\<lparr>of_format := None\<rparr>) fs)"
  by (induction fs) (simp_all add: field_roundtrip)

lemma objects_not_null: "visual_object v \<noteq> JNull" "hierarchy_object h \<noteq> JNull" "behavior_object b \<noteq> JNull"
  by (simp_all add: visual_object_def hierarchy_object_def behavior_object_def)

lemma entity_roundtrip:
  assumes "filled_entity et"
  shows "entityDefToSchema conv (oe_id et) (entitySchemaToBackend et) = Some (stored_part et)"
  using assms objects_not_null
  by (simp add: entityDefToSchema_def entitySchemaToBackend_def filled_entity_def fields_roundtrip visual_roundtrip hierarchy_roundtrip behavior_roundtrip stored_part_def
      split: option.split)

lemma or_else_not_null [simp]: "d \<noteq> JNull \<Longrightarrow> or_else x d \<noteq> JNull"
  by (simp add: or_else_def split: option.split json.split)

lemma all_fields_filled: "all_fields fs = Some xs \<Longrightarrow> list_all filled_field xs \<and> map (\<lambda>f. f\<lparr>of_format := None\<rparr>) xs = xs"
  by (induction fs arbitrary: xs) (auto simp: field_of_def filled_field_def split: option.splits if_splits)

lemma parsed_filled:
  assumes "entityDefToSchema conv i def = Some et"
  shows "filled_entity et \<and> stored_part et = et \<and> oe_id et = i"
  using assms all_fields_filled
  by (auto simp: entityDefToSchema_def filled_entity_def stored_part_def filled_visual_def visual_of_def filled_hierarchy_def hierarchy_of_def
      filled_behavior_def behavior_of_def split: if_splits json.splits)

definition filled_rel :: "onto_rel \<Rightarrow> bool" where
  "filled_rel rt \<longleftrightarrow> list_all (\<lambda>j. j \<noteq> JNull) [or_name rt, or_sourceTypes rt, or_targetTypes rt, or_bidirectional rt, or_showLabel rt,
     rv_strokeColor (or_visual rt), rv_strokeWidth (or_visual rt), rv_strokeStyle (or_visual rt), rv_animated (or_visual rt),
     rv_animationSpeed (or_visual rt), rv_arrowType (or_visual rt), rv_curveType (or_visual rt)]"

definition stored_rel :: "onto_rel \<Rightarrow> onto_rel" where
  "stored_rel rt = rt\<lparr>or_description := Some (or_else (or_description rt) (JStr '''')), or_labelField := None,
     or_isContainment := Some (or_else (or_isContainment rt) (JBool False)), or_isLineage := Some (or_else (or_isLineage rt) (JBool False)),
     or_category := Some (or_else (or_category rt) (JStr ''association'')), or_direction := Some (or_else (or_direction rt) (JStr ''source-to-target''))\<rparr>"

lemma rel_roundtrip: "filled_rel rt \<Longrightarrow> relDefToSchema (or_id rt) (relSchemaToBackend rt) = Some (stored_rel rt)"
  by (simp add: relDefToSchema_def relSchemaToBackend_def filled_rel_def stored_rel_def rel_visual_of_def rel_visual_object_def split: option.split)

lemma or_else_or_else [simp]: "or_else (Some (or_else x d)) d = or_else x d"
  by (simp add: or_else_def split: option.split json.split)

lemma parsed_rel: "relDefToSchema i def = Some rt \<Longrightarrow> filled_rel rt \<and> stored_rel rt = rt \<and> or_id rt = i"
  by (auto simp: relDefToSchema_def filled_rel_def stored_rel_def rel_visual_of_def split: if_splits)

text \<open>
  C9: what the editor shows of an entity or relationship type is what it shows after a save: reading, writing
  and reading again changes nothing, and of a type made in the editor exactly the second colour, the formats of
  its fields and its roll-ups are gone.
\<close>

theorem ontology_types_survive_a_save:
  assumes "entityDefToSchema conv i def = Some et" and "relDefToSchema j rel = Some rt" and "filled_entity made"
  shows "entityDefToSchema conv i (entitySchemaToBackend et) = Some et \<and> relDefToSchema j (relSchemaToBackend rt) = Some rt
    \<and> entityDefToSchema conv (oe_id made) (entitySchemaToBackend made) = Some (stored_part made)"
proof -
  have "entityDefToSchema conv i (entitySchemaToBackend et) = Some et" using parsed_filled [OF assms(1)] entity_roundtrip [of et conv] by simp
  moreover have "relDefToSchema j (relSchemaToBackend rt) = Some rt" using parsed_rel [OF assms(2)] rel_roundtrip [of rt] by simp
  ultimately show ?thesis using entity_roundtrip [OF assms(3)] by simp
qed

definition sample_def :: json where
  "sample_def = JObj [(''plural_name'', JNull), (''hierarchy'', JObj [(''can_contain'', JArr [JStr ''column'']), (''roll_up_fields'', JArr [JObj [(''sourceField'', JStr ''rows'')]])]),
     (''fields'', JArr [JObj [(''id'', JStr ''owner''), (''name'', JStr ''Owner'')]])]"

lemma ontology_types_survive_a_save_witness:
  "map_option oe_pluralName (entityDefToSchema (\<lambda>_. '''') ''data_table'' (entitySchemaToBackend (the (entityDefToSchema (\<lambda>_. '''') ''data_table'' sample_def)))) = Some (JStr ''Data Tables'')"
proof -
  let ?et = "the (entityDefToSchema (\<lambda>_. '''') ''data_table'' sample_def)" and ?rt = "the (relDefToSchema ''flows_to'' (JObj []))"
  have "entityDefToSchema (\<lambda>_. '''') ''data_table'' sample_def = Some ?et" "relDefToSchema ''flows_to'' (JObj []) = Some ?rt" "filled_entity ?et"
    "oe_pluralName ?et = JStr ''Data Tables''" by code_simp+
  from ontology_types_survive_a_save [OF this(1-3)] this(4) show ?thesis by simp
qed

section \<open>Examples\<close>

text \<open>The roll-ups of a definition are lost with the first edit of its type.\<close>

lemma edit_loses_the_roll_ups:
  "prop_of (the (prop_of sample_def ''hierarchy'')) ''roll_up_fields'' \<noteq> Some (JArr [])
   \<and> map_option (\<lambda>et. prop_of (the (prop_of (entitySchemaToBackend et) ''hierarchy'')) ''roll_up_fields'') (entityDefToSchema (\<lambda>_. '''') ''t'' sample_def) = Some (Some (JArr []))"
  by code_simp

text \<open>So is whatever else the backend keeps in a definition.\<close>

lemma edit_loses_unknown_properties:
  "map_option (\<lambda>rt. prop_of (relSchemaToBackend rt) ''label_field'') (relDefToSchema ''r'' (JObj [(''label_field'', JStr ''kind'')])) = Some None"
  by code_simp

section \<open>Suggested names\<close>

definition humanize_type :: "string \<Rightarrow> string" where
  "humanize_type i = capitalise False (map (\<lambda>c. if c = CHR ''_'' then CHR '' '' else c) i)"

fun join_names :: "string list \<Rightarrow> string" where
  "join_names [] = ''''"
| "join_names [n] = n"
| "join_names (n # ns) = n @ '', '' @ join_names ns"

definition generateSuggestedName :: "string option \<Rightarrow> string option \<Rightarrow> string list option \<Rightarrow> string" where
  "generateSuggestedName dsLabel wsName typeIds =
     (if truthy dsLabel then the dsLabel @ '' Schema''
      else if truthy wsName then the wsName @ '' Schema''
      else (case typeIds of
          Some (i # is) \<Rightarrow>
            (if length (i # is) \<le> 3 then join_names (map humanize_type (i # is)) @ '' Schema''
             else humanize_type i @ '' + '' @ dec_of_nat (length is) @ '' Types Schema'')
        | _ \<Rightarrow> ''Graph Schema''))"

lemma suggested_names:
  "generateSuggestedName (Some '''') None (Some [''data_table'', ''column'']) = ''Data Table, Column Schema''"
  "generateSuggestedName None None (Some [''a'', ''b'', ''c'', ''d'']) = ''A + 3 Types Schema''"
  by code_simp+

end
