(* ===== verification/Ontology_Editor.thy ===== *)
theory Ontology_Editor
  imports Ontology_Codec Step_System
begin

text \<open>
  The editing of an ontology (\<^verbatim>\<open>pages/OntologySchemaPage.tsx\<close>): the working copies, the changes of entity types,
  relationship types and containment edges, saving, discarding and leaving. A definition is a JSON object, and
  \<^verbatim>\<open>JSON.stringify\<close> tells two values apart that differ in anything, the order of properties too. What is rendered
  and the answers' times are left out.
\<close>

section \<open>Containment in the definitions\<close>

type_synonym defs = "(ident, json) jsmap"

definition has_def :: "defs \<Rightarrow> ident \<Rightarrow> bool" where
  "has_def defs i = (case mget defs i of Some (JObj _) \<Rightarrow> True | _ \<Rightarrow> False)"

definition json_names :: "json option \<Rightarrow> ident list" where
  "json_names j = (case j of Some (JArr xs) \<Rightarrow> strs_of xs | _ \<Rightarrow> [])"

definition hierarchy_part :: "json \<Rightarrow> jsobj" where
  "hierarchy_part d = (case prop_of d ''hierarchy'' of Some (JObj h) \<Rightarrow> h | _ \<Rightarrow> [])"

definition object_part :: "json \<Rightarrow> jsobj" where
  "object_part d = (case d of JObj m \<Rightarrow> m | _ \<Rightarrow> [])"

text \<open>A list of the hierarchy of a definition, and \<^verbatim>\<open>{ ...d, hierarchy: { ...h, key: names } }\<close>.\<close>

definition names_of :: "string \<Rightarrow> json \<Rightarrow> ident list" where
  "names_of key d = json_names (mget (hierarchy_part d) key)"

definition with_names :: "string \<Rightarrow> ident list \<Rightarrow> json \<Rightarrow> json" where
  "with_names key xs d = JObj (mset_key ''hierarchy'' (JObj (mset_key key (JArr (map JStr xs)) (hierarchy_part d))) (object_part d))"

definition names_in :: "string \<Rightarrow> defs \<Rightarrow> ident \<Rightarrow> ident list" where
  "names_in key defs i = (case mget defs i of None \<Rightarrow> [] | Some d \<Rightarrow> names_of key d)"

abbreviation CAN_CONTAIN :: string where
  "CAN_CONTAIN \<equiv> ''can_contain''"

abbreviation CONTAINED_BY :: string where
  "CONTAINED_BY \<equiv> ''can_be_contained_by''"

definition put_names :: "string \<Rightarrow> ident \<Rightarrow> ident list \<Rightarrow> defs \<Rightarrow> defs" where
  "put_names key i xs defs = (case mget defs i of None \<Rightarrow> defs | Some d \<Rightarrow> mset_key i (with_names key xs d) defs)"

definition unlink :: "string \<Rightarrow> ident \<Rightarrow> ident \<Rightarrow> defs \<Rightarrow> defs" where
  "unlink key x i defs = (if has_def defs i then put_names key i (filter (\<lambda>y. y \<noteq> x) (names_in key defs i)) defs else defs)"

definition link :: "string \<Rightarrow> ident \<Rightarrow> ident \<Rightarrow> defs \<Rightarrow> defs" where
  "link key x i defs =
     (if has_def defs i \<and> x \<notin> set (names_in key defs i) then put_names key i (names_in key defs i @ [x]) defs else defs)"

lemma strs_of_names [simp]: "strs_of (map JStr xs) = xs"
  by (induction xs) (simp_all add: strs_of_def)

lemma hierarchy_with [simp]: "hierarchy_part (with_names key xs d) = mset_key key (JArr (map JStr xs)) (hierarchy_part d)"
  by (simp add: hierarchy_part_def [of "with_names key xs d"]) (simp add: with_names_def prop_of_def)

lemma names_with [simp]: "names_of key' (with_names key xs d) = (if key' = key then xs else names_of key' d)"
  by (simp add: names_of_def json_names_def)

lemma names_put: "names_in key' (put_names key i xs defs) j = (if j = i \<and> mget defs i \<noteq> None \<and> key' = key then xs else names_in key' defs j)"
  by (auto simp: put_names_def names_in_def split: option.split)

lemma has_def_put [simp]: "has_def defs i \<Longrightarrow> has_def (put_names key i xs defs) j = has_def defs j"
  by (auto simp: put_names_def has_def_def with_names_def split: option.split)

lemma has_def_mget: "has_def defs i \<Longrightarrow> mget defs i \<noteq> None"
  by (auto simp: has_def_def split: option.splits)

lemma has_def_link [simp]: "has_def (unlink key x i defs) j = has_def defs j" "has_def (link key x i defs) j = has_def defs j"
  by (simp_all add: unlink_def link_def)

lemma names_unlink: "set (names_in key' (unlink key x i defs) j) = set (names_in key' defs j) - (if j = i \<and> key' = key \<and> has_def defs i then {x} else {})"
  by (auto simp: unlink_def names_put dest: has_def_mget)

lemma names_link: "set (names_in key' (link key x i defs) j) = set (names_in key' defs j) \<union> (if j = i \<and> key' = key \<and> has_def defs i then {x} else {})"
  by (auto simp: link_def names_put dest: has_def_mget)

text \<open>The same for every type of a list.\<close>

lemma unlink_all:
  "has_def (fold (unlink key x) is defs) j = has_def defs j"
  "set (names_in key' (fold (unlink key x) is defs) j) = set (names_in key' defs j) - (if j \<in> set is \<and> key' = key \<and> has_def defs j then {x} else {})"
  by (induction "is" arbitrary: defs) (auto simp: names_unlink split: if_splits)

lemma link_all:
  "has_def (fold (link key x) is defs) j = has_def defs j"
  "set (names_in key' (fold (link key x) is defs) j) = set (names_in key' defs j) \<union> (if j \<in> set is \<and> key' = key \<and> has_def defs j then {x} else {})"
  by (induction "is" arbitrary: defs) (auto simp: names_link split: if_splits)

text \<open>An edge between two defined types that only one of its sides knows.\<close>

definition one_sided :: "defs \<Rightarrow> ident \<Rightarrow> ident \<Rightarrow> bool" where
  "one_sided defs a b \<longleftrightarrow> has_def defs a \<and> has_def defs b
     \<and> (b \<in> set (names_in CAN_CONTAIN defs a)) \<noteq> (a \<in> set (names_in CONTAINED_BY defs b))"

section \<open>Changes of the definitions\<close>

text \<open>The entity type takes the place of its definition, and the types it was or is linked with follow.\<close>

definition save_entity :: "onto_entity \<Rightarrow> defs \<Rightarrow> defs" where
  "save_entity et defs =
     (let i = oe_id et;
          old_cc = names_in CAN_CONTAIN defs i; old_cb = names_in CONTAINED_BY defs i;
          new_cc = json_names (Some (oh_canContain (oe_hierarchy et))); new_cb = json_names (Some (oh_canBeContainedBy (oe_hierarchy et)));
          d1 = mset_key i (entitySchemaToBackend et) defs;
          d2 = fold (unlink CONTAINED_BY i) (filter (\<lambda>c. c \<notin> set new_cc) old_cc) d1;
          d3 = fold (link CONTAINED_BY i) (filter (\<lambda>c. c \<notin> set old_cc) new_cc) d2;
          d4 = fold (unlink CAN_CONTAIN i) (filter (\<lambda>p. p \<notin> set new_cb) old_cb) d3
      in fold (link CAN_CONTAIN i) (filter (\<lambda>p. p \<notin> set old_cb) new_cb) d4)"

definition add_edge :: "ident \<Rightarrow> ident \<Rightarrow> defs \<Rightarrow> defs" where
  "add_edge child parent defs =
     (if has_def defs child \<and> has_def defs parent then link CAN_CONTAIN child parent (link CONTAINED_BY parent child defs) else defs)"

definition remove_edge :: "ident \<Rightarrow> ident \<Rightarrow> defs \<Rightarrow> defs" where
  "remove_edge child parent defs =
     (if has_def defs child then unlink CAN_CONTAIN child parent (unlink CONTAINED_BY parent child defs) else defs)"

definition make_root :: "ident \<Rightarrow> defs \<Rightarrow> defs" where
  "make_root child defs =
     (if has_def defs child
      then put_names CONTAINED_BY child [] (fold (unlink CAN_CONTAIN child) (names_in CONTAINED_BY defs child) defs) else defs)"

text \<open>A type that is new is mentioned nowhere.\<close>

definition mentioned :: "defs \<Rightarrow> ident \<Rightarrow> bool" where
  "mentioned defs i \<longleftrightarrow> list_ex (\<lambda>(j, d). i \<in> set (names_of CAN_CONTAIN d) \<or> i \<in> set (names_of CONTAINED_BY d)) defs"

lemma one_sided_add: "one_sided (add_edge child parent defs) a b \<Longrightarrow> one_sided defs a b"
  by (auto simp: one_sided_def add_edge_def names_link split: if_splits)

lemma one_sided_remove: "one_sided (remove_edge child parent defs) a b \<Longrightarrow> one_sided defs a b"
  by (auto simp: one_sided_def remove_edge_def names_unlink split: if_splits)

lemma one_sided_root: "one_sided (make_root child defs) a b \<Longrightarrow> one_sided defs a b"
  by (auto simp: one_sided_def make_root_def names_put unlink_all has_def_mget split: if_splits)

lemma one_sided_delete: "one_sided (mdel i defs) a b \<Longrightarrow> one_sided defs a b"
  by (auto simp: one_sided_def has_def_def names_in_def split: if_splits)

lemma backend_names:
  "names_of CAN_CONTAIN (entitySchemaToBackend et) = json_names (Some (oh_canContain (oe_hierarchy et)))"
  "names_of CONTAINED_BY (entitySchemaToBackend et) = json_names (Some (oh_canBeContainedBy (oe_hierarchy et)))"
  by (auto simp: names_of_def hierarchy_part_def entitySchemaToBackend_def prop_of_def object_of_def hierarchy_object_def split: option.split)

lemma has_def_saved: "has_def (mset_key (oe_id et) (entitySchemaToBackend et) defs) j \<longleftrightarrow> j = oe_id et \<or> has_def defs j"
  by (auto simp: has_def_def entitySchemaToBackend_def object_of_def)

lemma names_saved: "names_in key (mset_key i d defs) j = (if j = i then names_of key d else names_in key defs j)"
  by (simp add: names_in_def)

lemma not_mentioned: "\<not> mentioned defs i \<Longrightarrow> i \<notin> set (names_in CAN_CONTAIN defs j) \<and> i \<notin> set (names_in CONTAINED_BY defs j)"
  by (cases "mget defs j") (auto simp: mentioned_def names_in_def list_ex_iff dest!: mget_in_set)

lemma no_names: "\<not> has_def defs i \<Longrightarrow> names_in key defs i = []"
  by (auto simp: has_def_def names_in_def names_of_def hierarchy_part_def prop_of_def json_names_def split: option.splits json.splits)

lemma one_sided_save:
  assumes "has_def defs (oe_id et) \<or> \<not> mentioned defs (oe_id et)" and "one_sided (save_entity et defs) a b"
  shows "one_sided defs a b"
proof (rule ccontr)
  assume two: "\<not> one_sided defs a b"
  let ?i = "oe_id et"
  let ?cc = "json_names (Some (oh_canContain (oe_hierarchy et)))" and ?cb = "json_names (Some (oh_canBeContainedBy (oe_hierarchy et)))"
  let ?occ = "names_in CAN_CONTAIN defs ?i" and ?ocb = "names_in CONTAINED_BY defs ?i"
  let ?d = "save_entity et defs"
  have known: "has_def ?d j \<longleftrightarrow> j = ?i \<or> has_def defs j" for j
    by (simp add: save_entity_def Let_def link_all unlink_all has_def_saved)
  have ab: "has_def ?d a" "has_def ?d b" using assms(2) by (simp_all add: one_sided_def)
  then have hd: "a = ?i \<or> has_def defs a" "b = ?i \<or> has_def defs b" by (simp_all add: known)
  have cc: "b \<in> set ?occ \<longleftrightarrow> ?i \<in> set (names_in CONTAINED_BY defs b)" if "a = ?i" "has_def defs b"
    using two that assms(1) no_names [of defs ?i] not_mentioned [of defs ?i b] by (cases "has_def defs ?i") (auto simp: one_sided_def)
  have cb: "a \<in> set ?ocb \<longleftrightarrow> ?i \<in> set (names_in CAN_CONTAIN defs a)" if "b = ?i" "has_def defs a"
    using two that assms(1) no_names [of defs ?i] not_mentioned [of defs ?i a] by (cases "has_def defs ?i") (auto simp: one_sided_def)
  have self: "?i \<in> set ?occ \<longleftrightarrow> ?i \<in> set ?ocb" if "a = ?i" "b = ?i"
    using two that no_names [of defs ?i] by (cases "has_def defs ?i") (auto simp: one_sided_def)
  have contains: "set (names_in CAN_CONTAIN ?d a) = (if a = ?i then set ?cc else set (names_in CAN_CONTAIN defs a))
      - (if a \<in> set ?ocb - set ?cb then {?i} else {}) \<union> (if a \<in> set ?cb - set ?ocb then {?i} else {})"
    using ab(1) unfolding known by (auto simp: save_entity_def Let_def link_all unlink_all has_def_saved names_saved backend_names split: if_splits)
  have within': "set (names_in CONTAINED_BY ?d b) = (if b = ?i then set ?cb else set (names_in CONTAINED_BY defs b))
      - (if b \<in> set ?occ - set ?cc then {?i} else {}) \<union> (if b \<in> set ?cc - set ?occ then {?i} else {})"
    using ab(2) unfolding known by (auto simp: save_entity_def Let_def link_all unlink_all has_def_saved names_saved backend_names split: if_splits)
  have left: "b \<in> set (names_in CAN_CONTAIN ?d a) \<longleftrightarrow>
      b \<in> (if a = ?i then set ?cc else set (names_in CAN_CONTAIN defs a)) \<and> \<not> (b = ?i \<and> a \<in> set ?ocb \<and> a \<notin> set ?cb)
      \<or> (b = ?i \<and> a \<in> set ?cb \<and> a \<notin> set ?ocb)" unfolding contains by (auto split: if_splits)
  have right: "a \<in> set (names_in CONTAINED_BY ?d b) \<longleftrightarrow>
      a \<in> (if b = ?i then set ?cb else set (names_in CONTAINED_BY defs b)) \<and> \<not> (a = ?i \<and> b \<in> set ?occ \<and> b \<notin> set ?cc)
      \<or> (a = ?i \<and> b \<in> set ?cc \<and> b \<notin> set ?occ)" unfolding within' by (auto split: if_splits)
  have "b \<in> set (names_in CAN_CONTAIN ?d a) \<longleftrightarrow> a \<in> set (names_in CONTAINED_BY ?d b)"
  proof (cases "a = ?i")
    case True
    then show ?thesis unfolding left right using self cc hd by (cases "b = ?i") auto
  next
    case False
    then have "has_def defs a" using hd by simp
    then show ?thesis unfolding left right using False cb hd two by (cases "b = ?i") (auto simp: one_sided_def)
  qed
  with assms(2) show False by (simp add: one_sided_def)
qed

section \<open>The page\<close>

record ontology =
  on_id :: ident
  on_immutable :: bool
  on_defs :: defs
  on_rels :: defs
  on_containment :: "ident list"
  on_lineage :: "ident list"
  on_name :: string
  on_description :: "string option"
  on_policy :: "string option"

record details =
  de_name :: string
  de_description :: string
  de_policy :: string

record request =
  rq_defs :: "defs option"
  rq_rels :: "defs option"
  rq_containment :: "ident list option"
  rq_lineage :: "ident list option"
  rq_name :: "string option"
  rq_description :: "string option"
  rq_policy :: "string option"

text \<open>
  \<open>ed_selected\<close> is the server's data of the ontology of the route, \<open>None\<close> while it loads; then the working
  copies, the ref of staged changes, whether the question before a discard is shown, and the requests that were sent.
\<close>

record editor =
  ed_selected :: "ontology option"
  ed_defs :: "defs option"
  ed_rels :: "defs option"
  ed_containment :: "ident list option"
  ed_lineage :: "ident list option"
  ed_details :: "details option"
  ed_staged :: bool
  ed_confirm :: bool
  ed_requests :: "(ident \<times> request) list"

definition new_editor :: "ontology option \<Rightarrow> editor" where
  "new_editor sel = \<lparr>ed_selected = sel, ed_defs = None, ed_rels = None, ed_containment = None, ed_lineage = None, ed_details = None,
     ed_staged = False, ed_confirm = False, ed_requests = []\<rparr>"

definition isLocked :: "editor \<Rightarrow> bool" where
  "isLocked s = (case ed_selected s of None \<Rightarrow> True | Some on \<Rightarrow> on_immutable on)"

definition hasDetailChanges :: "editor \<Rightarrow> bool" where
  "hasDetailChanges s =
     (case (ed_details s, ed_selected s) of
        (Some d, Some on) \<Rightarrow> de_name d \<noteq> on_name on \<or> de_description d \<noteq> nullish (on_description on) '''' \<or> de_policy d \<noteq> nullish (on_policy on) ''reject''
      | _ \<Rightarrow> False)"

definition differs :: "'a option \<Rightarrow> 'a \<Rightarrow> bool" where
  "differs w x = (case w of None \<Rightarrow> False | Some y \<Rightarrow> y \<noteq> x)"

definition hasPendingChanges :: "editor \<Rightarrow> bool" where
  "hasPendingChanges s \<longleftrightarrow> hasDetailChanges s
     \<or> (case ed_selected s of
          None \<Rightarrow> False
        | Some on \<Rightarrow> ed_defs s \<noteq> None \<and> (ed_staged s \<or> differs (ed_defs s) (on_defs on) \<or> differs (ed_rels s) (on_rels on)
            \<or> differs (ed_containment s) (on_containment on) \<or> differs (ed_lineage s) (on_lineage on)))"

definition changed_keys :: "defs \<Rightarrow> defs \<Rightarrow> ident list" where
  "changed_keys server work = filter (\<lambda>i. mget server i \<noteq> mget work i) (set_from (map fst server @ map fst work))"

definition changedEntityIds :: "editor \<Rightarrow> ident list" where
  "changedEntityIds s = (case (ed_selected s, ed_defs s) of (Some on, Some d) \<Rightarrow> changed_keys (on_defs on) d | _ \<Rightarrow> [])"

definition changedRelIds :: "editor \<Rightarrow> ident list" where
  "changedRelIds s = (case (ed_selected s, ed_defs s, ed_rels s) of (Some on, Some _, Some d) \<Rightarrow> changed_keys (on_rels on) d | _ \<Rightarrow> [])"

definition doDiscard :: "editor \<Rightarrow> editor" where
  "doDiscard s = s\<lparr>ed_defs := None, ed_rels := None, ed_containment := None, ed_lineage := None, ed_details := None, ed_staged := False, ed_confirm := False\<rparr>"

definition discardChanges :: "editor \<Rightarrow> editor" where
  "discardChanges s = (if hasPendingChanges s then s\<lparr>ed_confirm := True\<rparr> else doDiscard s)"

text \<open>
  A handler reads the state \<open>c\<close> of the render it was made in and writes to \<open>s\<close>, which is later than \<open>c\<close> when
  another handler ran before it in the same event.
\<close>

definition ensureEditMode :: "editor \<Rightarrow> editor \<Rightarrow> editor" where
  "ensureEditMode c s =
     (case ed_selected c of
        None \<Rightarrow> s
      | Some on \<Rightarrow>
          if on_immutable on \<or> ed_defs c \<noteq> None then s
          else s\<lparr>ed_defs := Some (on_defs on), ed_rels := Some (on_rels on), ed_containment := Some (on_containment on), ed_lineage := Some (on_lineage on)\<rparr>)"

definition edit_defs :: "(defs \<Rightarrow> defs option) \<Rightarrow> editor \<Rightarrow> editor \<Rightarrow> editor" where
  "edit_defs f c s =
     (if isLocked c then s
      else (case ed_defs c of
          None \<Rightarrow> s
        | Some d \<Rightarrow> (case f d of None \<Rightarrow> s | Some d' \<Rightarrow> s\<lparr>ed_defs := Some d', ed_staged := True\<rparr>)))"

definition handleSaveEntityType :: "onto_entity \<Rightarrow> editor \<Rightarrow> editor \<Rightarrow> editor" where
  "handleSaveEntityType et = edit_defs (\<lambda>d. Some (save_entity et d))"

definition handleDeleteEntityType :: "ident \<Rightarrow> editor \<Rightarrow> editor \<Rightarrow> editor" where
  "handleDeleteEntityType i = edit_defs (\<lambda>d. Some (mdel i d))"

definition handleAddContainmentEdge :: "ident \<Rightarrow> ident \<Rightarrow> editor \<Rightarrow> editor \<Rightarrow> editor" where
  "handleAddContainmentEdge child parent = edit_defs (\<lambda>d. if has_def d child \<and> has_def d parent then Some (add_edge child parent d) else None)"

definition handleRemoveContainmentEdge :: "ident \<Rightarrow> ident \<Rightarrow> editor \<Rightarrow> editor \<Rightarrow> editor" where
  "handleRemoveContainmentEdge child parent = edit_defs (\<lambda>d. if has_def d child then Some (remove_edge child parent d) else None)"

definition handleMakeRootType :: "ident \<Rightarrow> editor \<Rightarrow> editor \<Rightarrow> editor" where
  "handleMakeRootType child = edit_defs (\<lambda>d. if has_def d child then Some (make_root child d) else None)"

definition handleUpdateContainmentEdgeTypes :: "ident list \<Rightarrow> editor \<Rightarrow> editor \<Rightarrow> editor" where
  "handleUpdateContainmentEdgeTypes ts c s = (if isLocked c then s else s\<lparr>ed_containment := Some ts, ed_staged := True\<rparr>)"

text \<open>Truth of a JSON value in a condition.\<close>

definition is_true :: "json option \<Rightarrow> bool" where
  "is_true j = (case j of None \<Rightarrow> False | Some JNull \<Rightarrow> False | Some (JBool b) \<Rightarrow> b | Some (JNum n) \<Rightarrow> n \<noteq> 0 | Some (JStr t) \<Rightarrow> t \<noteq> '''' | _ \<Rightarrow> True)"

definition listed :: "bool \<Rightarrow> ident \<Rightarrow> ident list \<Rightarrow> ident list" where
  "listed yes i ts = (if yes then (if i \<in> set ts then ts else ts @ [i]) else filter (\<lambda>t. t \<noteq> i) ts)"

definition handleSaveRelType :: "onto_rel \<Rightarrow> editor \<Rightarrow> editor \<Rightarrow> editor" where
  "handleSaveRelType rt c s =
     (case (ed_selected c, ed_rels c) of
        (Some on, Some rels) \<Rightarrow>
          if on_immutable on then s
          else (let i = toUpperCase (or_id rt)
            in s\<lparr>ed_rels := Some (mset_key i (relSchemaToBackend rt) rels),
                 ed_containment := Some (listed (is_true (or_isContainment rt)) i (nullish (ed_containment c) (on_containment on))),
                 ed_lineage := Some (listed (is_true (or_isLineage rt)) i (nullish (ed_lineage c) (on_lineage on))), ed_staged := True\<rparr>)
      | _ \<Rightarrow> s)"

definition handleDeleteRelType :: "ident \<Rightarrow> editor \<Rightarrow> editor \<Rightarrow> editor" where
  "handleDeleteRelType i c s =
     (if isLocked c then s else (case ed_rels c of None \<Rightarrow> s | Some rels \<Rightarrow> s\<lparr>ed_rels := Some (mdel (toUpperCase i) rels), ed_staged := True\<rparr>))"

definition save_request :: "editor \<Rightarrow> request" where
  "save_request c = \<lparr>rq_defs = ed_defs c, rq_rels = ed_rels c, rq_containment = ed_containment c, rq_lineage = ed_lineage c,
     rq_name = map_option de_name (ed_details c),
     rq_description = (case ed_details c of Some d \<Rightarrow> if de_description d \<noteq> '''' then Some (de_description d) else None | None \<Rightarrow> None),
     rq_policy = map_option de_policy (ed_details c)\<rparr>"

definition handleSaveAllChanges :: "editor \<Rightarrow> editor" where
  "handleSaveAllChanges s =
     (case ed_selected s of
        None \<Rightarrow> s
      | Some on \<Rightarrow> if \<not> hasPendingChanges s then s else s\<lparr>ed_requests := ed_requests s @ [(on_id on, save_request s)]\<rparr>)"

definition save_ended :: "bool \<Rightarrow> editor \<Rightarrow> editor" where
  "save_ended ok s = (if ok then doDiscard s else s)"

text \<open>The route's ontology changes: the effect asks to discard what the new render sees as pending.\<close>

definition select_ontology :: "ontology option \<Rightarrow> editor \<Rightarrow> editor" where
  "select_ontology sel s = discardChanges (s\<lparr>ed_selected := sel\<rparr>)"

text \<open>The dialog before leaving with pending changes: saving or discarding, then the navigation goes on.\<close>

definition leave_saving :: "bool \<Rightarrow> ontology option \<Rightarrow> editor \<Rightarrow> editor" where
  "leave_saving ok sel s = select_ontology sel (if hasPendingChanges s then save_ended ok (handleSaveAllChanges s) else s)"

definition leave_discarding :: "ontology option \<Rightarrow> editor \<Rightarrow> editor" where
  "leave_discarding sel s = select_ontology sel (discardChanges s)"

definition leave :: "ontology option \<Rightarrow> editor \<Rightarrow> editor" where
  "leave sel s = (if hasPendingChanges s then s else select_ontology sel s)"

datatype editor_event =
    Open_Editor
  | Save_Entity onto_entity
  | Delete_Entity ident
  | Save_Rel onto_rel
  | Delete_Rel ident
  | Add_Edge ident ident
  | Remove_Edge ident ident
  | Make_Root ident
  | Containment_Types "ident list"
  | Details_Changed details
  | Discard_Clicked
  | Discard_Confirmed
  | Save_Clicked
  | Save_Ended bool
  | Server_Data ontology
  | Leave "ontology option"
  | Leave_Saving bool "ontology option"
  | Leave_Discarding "ontology option"

fun editor_step :: "editor_event \<Rightarrow> editor \<Rightarrow> editor" where
  "editor_step Open_Editor s = ensureEditMode s s"
| "editor_step (Save_Entity et) s = handleSaveEntityType et s s"
| "editor_step (Delete_Entity i) s = handleDeleteEntityType i s s"
| "editor_step (Save_Rel rt) s = handleSaveRelType rt s s"
| "editor_step (Delete_Rel i) s = handleDeleteRelType i s s"
| "editor_step (Add_Edge child parent) s = handleAddContainmentEdge child parent s (ensureEditMode s s)"
| "editor_step (Remove_Edge child parent) s = handleRemoveContainmentEdge child parent s (ensureEditMode s s)"
| "editor_step (Make_Root child) s = handleMakeRootType child s (ensureEditMode s s)"
| "editor_step (Containment_Types ts) s = handleUpdateContainmentEdgeTypes ts s (ensureEditMode s s)"
| "editor_step (Details_Changed d) s = s\<lparr>ed_details := Some d\<rparr>"
| "editor_step Discard_Clicked s = discardChanges s"
| "editor_step Discard_Confirmed s = doDiscard s"
| "editor_step Save_Clicked s = handleSaveAllChanges s"
| "editor_step (Save_Ended ok) s = save_ended ok s"
| "editor_step (Server_Data on) s = s\<lparr>ed_selected := Some on\<rparr>"
| "editor_step (Leave sel) s = leave sel s"
| "editor_step (Leave_Saving ok sel) s = leave_saving ok sel s"
| "editor_step (Leave_Discarding sel) s = leave_discarding sel s"

section \<open>Both sides of every edge are saved\<close>

definition for_some :: "('a \<Rightarrow> bool) \<Rightarrow> 'a option \<Rightarrow> bool" where
  "for_some P x = (case x of None \<Rightarrow> True | Some y \<Rightarrow> P y)"

lemma for_some_simps [simp]: "for_some P None" "for_some P (Some y) = P y"
  by (simp_all add: for_some_def)

text \<open>Only edges with the property \<open>U\<close> are one-sided: in the working copy, the server's data and the requests.\<close>

definition only_sides :: "(ident \<Rightarrow> ident \<Rightarrow> bool) \<Rightarrow> defs \<Rightarrow> bool" where
  "only_sides U defs \<longleftrightarrow> (\<forall>a b. one_sided defs a b \<longrightarrow> U a b)"

definition onto_editor_ok :: "(ident \<Rightarrow> ident \<Rightarrow> bool) \<Rightarrow> editor \<Rightarrow> bool" where
  "onto_editor_ok U s \<longleftrightarrow> for_some (only_sides U) (ed_defs s) \<and> for_some (\<lambda>on. only_sides U (on_defs on)) (ed_selected s)
     \<and> list_all (\<lambda>(i, r). for_some (only_sides U) (rq_defs r)) (ed_requests s)"

text \<open>The ontologies the server delivers in a history, and the condition on the ids of new entity types.\<close>

fun delivered :: "editor_event \<Rightarrow> ontology list" where
  "delivered (Server_Data on) = [on]"
| "delivered (Leave sel) = (case sel of None \<Rightarrow> [] | Some on \<Rightarrow> [on])"
| "delivered (Leave_Saving ok sel) = (case sel of None \<Rightarrow> [] | Some on \<Rightarrow> [on])"
| "delivered (Leave_Discarding sel) = (case sel of None \<Rightarrow> [] | Some on \<Rightarrow> [on])"
| "delivered _ = []"

fun new_id_unmentioned :: "editor_event \<Rightarrow> editor \<Rightarrow> bool" where
  "new_id_unmentioned (Save_Entity et) s \<longleftrightarrow> for_some (\<lambda>d. has_def d (oe_id et) \<or> \<not> mentioned d (oe_id et)) (ed_defs s)"
| "new_id_unmentioned _ s \<longleftrightarrow> True"

lemma onto_editor_ok_ensure: "onto_editor_ok U s \<Longrightarrow> onto_editor_ok U (ensureEditMode s s)"
  by (auto simp: ensureEditMode_def onto_editor_ok_def split: option.split)

lemma onto_editor_ok_edit:
  assumes "onto_editor_ok U c" and "onto_editor_ok U s"
    and "\<And>d d' a b. ed_defs c = Some d \<Longrightarrow> f d = Some d' \<Longrightarrow> one_sided d' a b \<Longrightarrow> one_sided d a b"
  shows "onto_editor_ok U (edit_defs f c s)"
  using assms by (auto simp: edit_defs_def onto_editor_ok_def only_sides_def split: option.split)

lemma onto_editor_ok_discard: "onto_editor_ok U s \<Longrightarrow> onto_editor_ok U (doDiscard s)" "onto_editor_ok U s \<Longrightarrow> onto_editor_ok U (discardChanges s)"
  by (auto simp: onto_editor_ok_def doDiscard_def discardChanges_def)

lemma onto_editor_ok_save: "onto_editor_ok U s \<Longrightarrow> onto_editor_ok U (handleSaveAllChanges s)"
  by (auto simp: onto_editor_ok_def handleSaveAllChanges_def save_request_def split: option.split)

lemma onto_editor_ok_ended: "onto_editor_ok U s \<Longrightarrow> onto_editor_ok U (save_ended ok s)"
  by (simp add: save_ended_def onto_editor_ok_discard)

lemma onto_editor_ok_select: "onto_editor_ok U s \<Longrightarrow> for_some (\<lambda>on. only_sides U (on_defs on)) sel \<Longrightarrow> onto_editor_ok U (select_ontology sel s)"
  unfolding select_ontology_def by (rule onto_editor_ok_discard) (simp add: onto_editor_ok_def)

lemmas onto_editor_ok_handlers = onto_editor_ok_ensure onto_editor_ok_discard onto_editor_ok_save onto_editor_ok_ended onto_editor_ok_select

lemma onto_editor_ok_step:
  assumes "onto_editor_ok U s" and "new_id_unmentioned e s" and "list_all (\<lambda>on. only_sides U (on_defs on)) (delivered e)"
  shows "onto_editor_ok U (editor_step e s)"
proof (cases e)
  case (Save_Entity et)
  with assms(1,2) show ?thesis by (auto simp: handleSaveEntityType_def intro!: onto_editor_ok_edit intro: one_sided_save)
next
  case (Delete_Entity i)
  with assms(1) show ?thesis by (auto simp: handleDeleteEntityType_def intro!: onto_editor_ok_edit dest: one_sided_delete)
next
  case (Save_Rel rt)
  with assms(1) show ?thesis by (auto simp: handleSaveRelType_def onto_editor_ok_def Let_def split: option.split)
next
  case (Delete_Rel i)
  with assms(1) show ?thesis by (auto simp: handleDeleteRelType_def onto_editor_ok_def split: option.split)
next
  case (Add_Edge child parent)
  with assms(1) show ?thesis
    by (auto simp: handleAddContainmentEdge_def intro!: onto_editor_ok_edit onto_editor_ok_ensure dest: one_sided_add split: if_splits)
next
  case (Remove_Edge child parent)
  with assms(1) show ?thesis
    by (auto simp: handleRemoveContainmentEdge_def intro!: onto_editor_ok_edit onto_editor_ok_ensure dest: one_sided_remove split: if_splits)
next
  case (Make_Root child)
  with assms(1) show ?thesis
    by (auto simp: handleMakeRootType_def intro!: onto_editor_ok_edit onto_editor_ok_ensure dest: one_sided_root split: if_splits)
next
  case (Containment_Types ts)
  with onto_editor_ok_ensure [OF assms(1)] show ?thesis by (auto simp: handleUpdateContainmentEdgeTypes_def onto_editor_ok_def)
next
  case (Details_Changed d)
  with assms(1) show ?thesis by (simp add: onto_editor_ok_def)
next
  case (Server_Data on)
  with assms show ?thesis by (simp add: onto_editor_ok_def)
next
  case (Leave sel)
  with assms show ?thesis by (auto simp: leave_def for_some_def intro!: onto_editor_ok_handlers split: option.splits)
next
  case (Leave_Saving ok sel)
  with assms show ?thesis by (auto simp: leave_saving_def for_some_def intro!: onto_editor_ok_handlers split: option.splits)
next
  case (Leave_Discarding sel)
  with assms show ?thesis by (auto simp: leave_discarding_def for_some_def intro!: onto_editor_ok_handlers split: option.splits)
qed (use assms in \<open>simp_all add: onto_editor_ok_handlers\<close>)

text \<open>
  C5: through every history of edits, saves, discards and changes of the page in which a new entity type gets an id
  that no definition mentions, the editor makes no containment edge one-sided: if, between two defined entity types,
  the two sides of an edge disagree in what is edited or in a request that is sent, they disagreed in an ontology the
  server delivered before. With ontologies whose sides agree, both sides always agree.
\<close>

theorem containment_stays_symmetric:
  assumes "\<And>fs e gs. es = fs @ e # gs \<Longrightarrow> new_id_unmentioned e (run editor_step fs (new_editor (Some on)))"
    and "s = run editor_step es (new_editor (Some on))" and "ed_defs s = Some d \<or> (\<exists>i r. (i, r) \<in> set (ed_requests s) \<and> rq_defs r = Some d)"
    and "has_def d a" and "has_def d b"
  shows "(b \<in> set (names_in CAN_CONTAIN d a) \<longleftrightarrow> a \<in> set (names_in CONTAINED_BY d b))
    \<or> list_ex (\<lambda>on'. one_sided (on_defs on') a b) (on # concat (map delivered es))"
proof -
  let ?U = "\<lambda>a b. list_ex (\<lambda>on'. one_sided (on_defs on') a b) (on # concat (map delivered es))"
  have "onto_editor_ok ?U (run editor_step fs (new_editor (Some on)))" if "es = fs @ gs" for fs gs
    using that
  proof (induction fs arbitrary: gs rule: rev_induct)
    case (snoc e fs)
    have "onto_editor_ok ?U (run editor_step fs (new_editor (Some on)))" using snoc.IH [of "e # gs"] snoc.prems by simp
    moreover have "new_id_unmentioned e (run editor_step fs (new_editor (Some on)))" using assms(1) [of fs e gs] snoc.prems by simp
    moreover have "list_all (\<lambda>on. only_sides ?U (on_defs on)) (delivered e)"
      using snoc.prems by (auto simp: list_all_iff list_ex_iff only_sides_def)
    ultimately show ?case unfolding run_append run_simps by (rule onto_editor_ok_step)
  qed (auto simp: new_editor_def onto_editor_ok_def only_sides_def)
  from this [of es "[]"] have "only_sides ?U d" using assms(3) unfolding assms(2) by (auto simp: onto_editor_ok_def list_all_iff)
  then show ?thesis using assms(4,5) unfolding only_sides_def one_sided_def [of d] by blast
qed

section \<open>Examples\<close>

definition type_def' :: "ident list \<Rightarrow> ident list \<Rightarrow> json" where
  "type_def' cc cb = JObj [(''hierarchy'', JObj [(CAN_CONTAIN, JArr (map JStr cc)), (CONTAINED_BY, JArr (map JStr cb))])]"

definition sample_ontology :: "ident \<Rightarrow> ontology" where
  "sample_ontology i = \<lparr>on_id = i, on_immutable = False, on_defs = [(''table'', type_def' [''column''] []), (''column'', type_def' [] [''table'']), (''view'', type_def' [] [])],
     on_rels = [], on_containment = [], on_lineage = [], on_name = i, on_description = Some ''old'', on_policy = None\<rparr>"

definition edited :: "ident \<Rightarrow> ident list \<Rightarrow> ident list \<Rightarrow> onto_entity" where
  "edited i cc cb = (let et = the (entityDefToSchema (\<lambda>_. '''') i (JObj []))
     in et\<lparr>oe_hierarchy := (oe_hierarchy et)\<lparr>oh_canContain := JArr (map JStr cc), oh_canBeContainedBy := JArr (map JStr cb)\<rparr>\<rparr>)"

abbreviation edit_run :: "editor_event list \<Rightarrow> editor" where
  "edit_run es \<equiv> run editor_step es (new_editor (Some (sample_ontology ''A'')))"

lemma containment_stays_symmetric_witness:
  "''view'' \<in> set (names_in CAN_CONTAIN (the (ed_defs (edit_run [Open_Editor, Save_Entity (edited ''column'' [] [''view'']), Save_Clicked]))) ''table'') \<longleftrightarrow>
   ''table'' \<in> set (names_in CONTAINED_BY (the (ed_defs (edit_run [Open_Editor, Save_Entity (edited ''column'' [] [''view'']), Save_Clicked]))) ''view'')"
proof -
  let ?es = "[Open_Editor, Save_Entity (edited ''column'' [] [''view'']), Save_Clicked]"
  let ?d = "the (ed_defs (edit_run ?es))"
  note step = all_steps_Cons [where P = new_id_unmentioned and step = editor_step, rotated 2]
  have sound: "new_id_unmentioned e (run editor_step fs (new_editor (Some (sample_ontology ''A''))))" if "?es = fs @ e # gs" for fs e gs
    using that by (elim step all_steps_Nil) (code_simp+)
  have sym: "\<not> list_ex (\<lambda>on'. one_sided (on_defs on') ''table'' ''view'') (sample_ontology ''A'' # concat (map delivered ?es))"
    by code_simp
  have "ed_defs (edit_run ?es) = Some ?d" "has_def ?d ''table''" "has_def ?d ''view''" by code_simp+
  note d = this
  show ?thesis
    by (rule disjE [OF containment_stays_symmetric [OF _ refl disjI1 [OF d(1)] d(2,3)]])
       (erule sound, assumption, use sym in blast)
qed

text \<open>The first containment edge after opening an ontology is lost: the handler of the render before reads no working copy.\<close>

lemma first_edge_is_lost:
  "map_option (\<lambda>d. names_in CAN_CONTAIN d ''view'') (ed_defs (edit_run [Add_Edge ''column'' ''view''])) = Some []
   \<and> map_option (\<lambda>d. names_in CAN_CONTAIN d ''view'') (ed_defs (edit_run [Add_Edge ''column'' ''view'', Add_Edge ''column'' ''view''])) = Some [''column'']"
  by code_simp

text \<open>Deleting a type before anything was edited does nothing.\<close>

lemma first_delete_is_lost: "ed_defs (edit_run [Delete_Entity ''view'']) = None \<and> \<not> hasPendingChanges (edit_run [Delete_Entity ''view''])"
  by code_simp

text \<open>
  Who discards the changes on leaving for an ontology that is in the cache keeps them: they are asked for
  again, and a save sends them to the other ontology.
\<close>

lemma discarded_edits_reach_another_ontology:
  "map (\<lambda>(i, r). (i, map_option (map fst) (rq_defs r)))
     (ed_requests (edit_run [Open_Editor, Delete_Entity ''view'', Leave_Discarding (Some (sample_ontology ''B'')), Save_Clicked]))
   = [(''B'', Some [''table'', ''column''])]"
  by code_simp

text \<open>The other ontology may be published: saving does not ask whether it is locked.\<close>

lemma locked_ontology_is_saved:
  "map fst (ed_requests (edit_run [Open_Editor, Delete_Entity ''view'', Leave_Discarding (Some ((sample_ontology ''B'')\<lparr>on_immutable := True\<rparr>)), Save_Clicked])) = [''B'']"
  by code_simp

text \<open>A save that fails on leaving does not keep the user; the changes come along.\<close>

lemma failed_save_leaves:
  "(let s = edit_run [Open_Editor, Delete_Entity ''view'', Leave_Saving False (Some (sample_ontology ''B''))]
    in map_option on_id (ed_selected s) = Some ''B'' \<and> map_option (map fst) (ed_defs s) = Some [''table'', ''column''])"
  by code_simp

text \<open>What is edited while a save is under way is discarded with its success.\<close>

lemma edits_during_a_save_are_lost:
  "ed_defs (edit_run [Open_Editor, Delete_Entity ''view'', Save_Clicked, Delete_Entity ''column'', Save_Ended True]) = None"
  by code_simp

text \<open>A description that was emptied is a pending change that no request carries.\<close>

lemma emptied_description_is_not_sent:
  "(let s = edit_run [Details_Changed \<lparr>de_name = ''A'', de_description = '''', de_policy = ''reject''\<rparr>]
    in hasPendingChanges s \<and> map (\<lambda>(i, r). rq_description r) (ed_requests (handleSaveAllChanges s)) = [None])"
  by code_simp

text \<open>Deleting a type leaves its name in the others; a new type with that id is then known to one side only.\<close>

lemma deleted_type_is_still_mentioned:
  "(let d = the (ed_defs (edit_run [Open_Editor, Delete_Entity ''column'', Save_Entity (edited ''column'' [] [])]))
    in names_in CAN_CONTAIN d ''table'' = [''column''] \<and> names_in CONTAINED_BY d ''column'' = [])"
  by code_simp

text \<open>A deleted relationship type stays a containment type, and one with a small letter in its id is never deleted.\<close>

lemma deleted_relationship_stays_containment:
  "(let rt = (the (relDefToSchema ''has'' (JObj [])))\<lparr>or_isContainment := Some (JBool True)\<rparr>;
        s = edit_run [Open_Editor, Save_Rel rt, Delete_Rel ''has'']
    in ed_rels s = Some [] \<and> ed_containment s = Some [''HAS''])
   \<and> (let c = (edit_run [Open_Editor])\<lparr>ed_rels := Some [(''has'', JObj [])]\<rparr> in ed_rels (handleDeleteRelType ''has'' c c) = ed_rels c)"
  by code_simp

end
