(* ===== verification/Remote_Provider.thy ===== *)
theory Remote_Provider
  imports Step_System Js_String Cache_Envelope
begin

text \<open>
  The graph provider that talks to the backend (\<^verbatim>\<open>providers/RemoteGraphProvider.ts\<close>): its URLs, the response
  cache, the sharing of identical requests in flight and the circuit breaker of its scope, and what its
  operations make of an answer. The answers of the network and the times are parts of the events; the
  serialisation of query parameters is a parameter.
\<close>

section \<open>URLs\<close>

record remote_options =
  ro_workspaceId :: "string option"
  ro_dataSourceId :: "string option"
  ro_connectionId :: "string option"

type_synonym params = "(string \<times> string) list"

text \<open>\<^verbatim>\<open>searchParams.set\<close>: the first pair of the name gets the value, the others go.\<close>

fun search_set :: "string \<Rightarrow> string \<Rightarrow> params \<Rightarrow> params" where
  "search_set k v [] = [(k, v)]"
| "search_set k v ((k', v') # ps) = (if k = k' then (k, v) # filter (\<lambda>p. fst p \<noteq> k) ps else (k', v') # search_set k v ps)"

definition API_BASE :: string where
  "API_BASE = ''/api/v1''"

definition buildUrl :: "(params \<Rightarrow> string) \<Rightarrow> remote_options \<Rightarrow> string \<Rightarrow> params \<Rightarrow> params \<Rightarrow> string \<Rightarrow> string" where
  "buildUrl ser opts path query extra version =
     (let base = (if truthy (ro_workspaceId opts) then ''/api/'' @ version @ ''/'' @ the (ro_workspaceId opts) @ ''/graph'' else API_BASE);
          q1 = (if truthy (ro_workspaceId opts) \<and> truthy (ro_dataSourceId opts) then search_set ''dataSourceId'' (the (ro_dataSourceId opts)) query else query);
          q2 = (if \<not> truthy (ro_workspaceId opts) \<and> truthy (ro_connectionId opts) then search_set ''connectionId'' (the (ro_connectionId opts)) q1 else q1);
          q3 = fold (\<lambda>(k, v) q. search_set k v q) extra q2
      in base @ path @ (if q3 = [] then '''' else ''?'' @ ser q3))"

text \<open>The query of a list of children: a zero is left out like an absent value, an absent sort property is not a null one.\<close>

record children_options =
  ch_edgeTypes :: "string list"
  ch_searchQuery :: "string option"
  ch_offset :: nat
  ch_limit :: nat
  ch_sortProperty :: "string option option"
  ch_cursor :: "string option"

definition opt_param :: "string \<Rightarrow> string option \<Rightarrow> params" where
  "opt_param k v = (if truthy v then [(k, the v)] else [])"

definition num_param :: "string \<Rightarrow> nat \<Rightarrow> params" where
  "num_param k n = (if n \<noteq> 0 then [(k, dec_of_nat n)] else [])"

definition children_params :: "children_options \<Rightarrow> params" where
  "children_params co = num_param ''offset'' (ch_offset co) @ num_param ''limit'' (ch_limit co) @ opt_param ''searchQuery'' (ch_searchQuery co)
     @ (case ch_sortProperty co of None \<Rightarrow> [] | Some p \<Rightarrow> [(''sortProperty'', nullish p '''')])
     @ opt_param ''cursor'' (ch_cursor co) @ map (\<lambda>t. (''edgeTypes'', t)) (ch_edgeTypes co)"

section \<open>How long an answer is kept\<close>

text \<open>
  What is left of a path after \<^verbatim>\<open>/api/v1/ws/graph\<close>: digits after the v, at most one segment, then \<^verbatim>\<open>/graph\<close>;
  a path that does not start so is left alone.
\<close>

definition after_prefix :: "string \<Rightarrow> string \<Rightarrow> string option" where
  "after_prefix p s = (if is_prefix p s then Some (drop (length p) s) else None)"

definition strip_graph :: "string \<Rightarrow> string" where
  "strip_graph path =
     (case after_prefix ''/api/v'' path of
        None \<Rightarrow> path
      | Some r \<Rightarrow>
          let digits = takeWhile is_digit r; r1 = dropWhile is_digit r;
              seg = takeWhile (\<lambda>c. c \<noteq> CHR ''/'') (drop 1 r1);
              with_seg = (if is_prefix ''/'' r1 \<and> seg \<noteq> [] then after_prefix ''/graph'' (drop (1 + length seg) r1) else None)
          in if digits = [] then path
             else (case with_seg of Some r2 \<Rightarrow> r2 | None \<Rightarrow> (case after_prefix ''/graph'' r1 of Some r2 \<Rightarrow> r2 | None \<Rightarrow> path)))"

definition node_relation :: "string \<Rightarrow> bool" where
  "node_relation seg =
     (case after_prefix ''/nodes/'' seg of
        None \<Rightarrow> False
      | Some r \<Rightarrow> let rest = dropWhile (\<lambda>c. c \<noteq> CHR ''/'') r
          in takeWhile (\<lambda>c. c \<noteq> CHR ''/'') r \<noteq> [] \<and> (is_prefix ''/ancestors'' rest \<or> is_prefix ''/descendants'' rest \<or> is_prefix ''/parent'' rest))"

definition responseCacheTtlMs :: "string \<Rightarrow> int" where
  "responseCacheTtlMs path =
     (let seg = strip_graph (takeWhile (\<lambda>c. c \<noteq> CHR ''?'') path)
      in if is_infix ''/children'' seg then 30000
         else if is_prefix ''/edges/between'' seg \<or> is_prefix ''/edges/query'' seg then 30000
         else if is_prefix ''/nodes/top-level'' seg then 30000
         else if is_prefix ''/nodes/query'' seg \<or> seg = ''/search'' then 30000
         else if node_relation seg then 30000
         else if is_prefix ''/metadata'' seg \<or> seg = ''/introspection'' \<or> seg = ''/stats'' then 60000
         else 2000)"

lemma ttl_bounds: "2000 \<le> responseCacheTtlMs path \<and> responseCacheTtlMs path \<le> 60000"
  by (simp add: responseCacheTtlMs_def Let_def)

section \<open>Requests\<close>

record wire_request =
  wr_method :: string
  wr_url :: string
  wr_body :: "string option"

definition request_key :: "wire_request \<Rightarrow> string" where
  "request_key r = wr_method r @ '':'' @ wr_url r @ '':'' @ nullish (wr_body r) ''''"

text \<open>What a caller gets: data, or the message of the error.\<close>

datatype got = Got json | Failed_With string

text \<open>
  A promise is a number; \<open>rp_settled\<close> has those that have an outcome, \<open>rp_running\<close> the requests on the
  network with their promise. The breaker is the one of the registry for the provider's scope.
\<close>

record remote =
  rp_breaker :: breaker
  rp_inflight :: "(string, nat) jsmap"
  rp_cache :: "(string, json \<times> int \<times> int) jsmap"
  rp_running :: "(nat \<times> wire_request) list"
  rp_settled :: "(nat, got) jsmap"
  rp_next :: nat

definition new_remote :: "breaker \<Rightarrow> remote" where
  "new_remote b = \<lparr>rp_breaker = b, rp_inflight = [], rp_cache = [], rp_running = [], rp_settled = [], rp_next = 0\<rparr>"

datatype answer = Cached json | Promised nat

definition open_message :: string where
  "open_message = ''Provider unavailable (circuit open)''"

text \<open>
  The part of \<^verbatim>\<open>_doFetch\<close> before its first \<^verbatim>\<open>await\<close> runs inside the call: with an open circuit the entry is
  deleted before \<^verbatim>\<open>fetch\<close> puts the rejected promise there.
\<close>

definition remote_fetch :: "int \<Rightarrow> wire_request \<Rightarrow> remote \<Rightarrow> answer \<times> remote" where
  "remote_fetch now r s =
     (let key = request_key r;
          fresh = (if wr_method r = ''GET'' then (case mget (rp_cache s) key of Some (d, ts, ttl) \<Rightarrow> if now - ts < ttl then Some d else None | None \<Rightarrow> None) else None)
      in case fresh of
           Some d \<Rightarrow> (Cached d, s)
         | None \<Rightarrow>
             (case mget (rp_inflight s) key of
                Some n \<Rightarrow> (Promised n, s)
              | None \<Rightarrow>
                  let (granted', b) = canRequest now (rp_breaker s); n = rp_next s;
                      s1 = s\<lparr>rp_breaker := b, rp_next := n + 1\<rparr>
                  in if granted' then (Promised n, s1\<lparr>rp_running := rp_running s1 @ [(n, r)], rp_inflight := mset_key key n (rp_inflight s1)\<rparr>)
                     else (Promised n, s1\<lparr>rp_settled := mset_key n (Failed_With open_message) (rp_settled s1), rp_inflight := mset_key key n (mdel key (rp_inflight s1))\<rparr>)))"

text \<open>An answer, with its text when it is none to be read as JSON, or what was thrown.\<close>

datatype net_outcome = Net_Response response string string | Net_Thrown bool string

definition timed_out_message :: "wire_request \<Rightarrow> string" where
  "timed_out_message r = ''Request timed out: '' @ wr_method r @ '' '' @ wr_url r"

definition net_result :: "wire_request \<Rightarrow> net_outcome \<Rightarrow> got" where
  "net_result r out =
     (case out of
        Net_Response res text statusText \<Rightarrow>
          if \<not> response_ok res then Failed_With (''API Error '' @ dec_of_nat (status res) @ '': '' @ (if text \<noteq> '''' then text else statusText))
          else (case body res of None \<Rightarrow> Failed_With ''Unexpected token'' | Some j \<Rightarrow> Got j)
      | Net_Thrown typeError m \<Rightarrow> Failed_With (if typeError \<and> is_infix ''timed out'' m then timed_out_message r else m))"

definition net_breaker :: "int \<Rightarrow> net_outcome \<Rightarrow> breaker \<Rightarrow> breaker" where
  "net_breaker now out b =
     (case out of
        Net_Response res _ _ \<Rightarrow>
          if \<not> response_ok res
          then (if 500 \<le> status res then recordFailure now (case retryAfterMs res of None \<Rightarrow> None | Some ms \<Rightarrow> if ms = 0 then None else Some ms) b else b)
          else (case body res of None \<Rightarrow> b | Some _ \<Rightarrow> recordSuccess b)
      | Net_Thrown typeError _ \<Rightarrow> if typeError then recordFailure now None b else b)"

definition remote_ended :: "nat \<Rightarrow> net_outcome \<Rightarrow> int \<Rightarrow> remote \<Rightarrow> remote" where
  "remote_ended n out now s =
     (case mget (rp_running s) n of
        None \<Rightarrow> s
      | Some r \<Rightarrow>
          (let key = request_key r; res = net_result r out
           in s\<lparr>rp_running := mdel n (rp_running s), rp_settled := mset_key n res (rp_settled s), rp_inflight := mdel key (rp_inflight s),
                rp_breaker := net_breaker now out (rp_breaker s),
                rp_cache := (case res of Got j \<Rightarrow> if wr_method r = ''GET'' then mset_key key (j, now, responseCacheTtlMs (wr_url r)) (rp_cache s) else rp_cache s
                             | Failed_With _ \<Rightarrow> rp_cache s)\<rparr>))"

datatype remote_event =
    Fetch_Called wire_request int
  | Net_Ended nat net_outcome int
  | Breaker_Event cb_event

text \<open>The breaker is shared with the other users of its scope.\<close>

fun remote_step :: "remote_event \<Rightarrow> remote \<Rightarrow> remote" where
  "remote_step (Fetch_Called r now) s = snd (remote_fetch now r s)"
| "remote_step (Net_Ended n out now) s = remote_ended n out now s"
| "remote_step (Breaker_Event e) s = s\<lparr>rp_breaker := cb_step e (rp_breaker s)\<rparr>"

section \<open>Identical requests are shared\<close>

text \<open>
  The maps of the provider: what runs has no outcome and is the shared promise of its key; a shared promise runs,
  or it was refused; no answer is kept longer than a minute.
\<close>

definition maps_ok :: "(nat \<Rightarrow> wire_request option) \<Rightarrow> (nat \<Rightarrow> got option) \<Rightarrow> (string \<Rightarrow> nat option) \<Rightarrow> nat \<Rightarrow> bool" where
  "maps_ok runs done infl nx \<longleftrightarrow>
     (\<forall>n r. runs n = Some r \<longrightarrow> n < nx \<and> done n = None \<and> infl (request_key r) = Some n) \<and> (\<forall>n x. done n = Some x \<longrightarrow> n < nx)
     \<and> (\<forall>key n. infl key = Some n \<longrightarrow> (\<exists>r. runs n = Some r \<and> request_key r = key) \<or> done n = Some (Failed_With open_message))"

definition remote_ok :: "remote \<Rightarrow> bool" where
  "remote_ok s \<longleftrightarrow> jsm_ok (rp_running s) \<and> maps_ok (mget (rp_running s)) (mget (rp_settled s)) (mget (rp_inflight s)) (rp_next s)
     \<and> (\<forall>key d ts ttl. mget (rp_cache s) key = Some (d, ts, ttl) \<longrightarrow> ttl \<le> 60000)"

lemma maps_okD:
  assumes "maps_ok runs done infl nx"
  shows "runs n = Some r \<Longrightarrow> n < nx" and "runs n = Some r \<Longrightarrow> done n = None" and "runs n = Some r \<Longrightarrow> infl (request_key r) = Some n"
    and "done n = Some x \<Longrightarrow> n < nx"
    and "infl key = Some n \<Longrightarrow> (\<exists>r. runs n = Some r \<and> request_key r = key) \<or> done n = Some (Failed_With open_message)"
  using assms by (simp_all add: maps_ok_def)

lemma maps_ok_sent:
  assumes ok: "maps_ok runs done infl nx" and "infl (request_key r) = None"
  shows "maps_ok (runs(nx \<mapsto> r)) done (infl(request_key r \<mapsto> nx)) (nx + 1)"
  unfolding maps_ok_def
proof (intro conjI allI impI)
  fix n r' assume n: "(runs(nx \<mapsto> r)) n = Some r'"
  show "n < nx + 1" using n maps_okD(1) [OF ok, of n r'] by (auto split: if_splits)
  show "done n = None" using n maps_okD(2) [OF ok, of n r'] maps_okD(4) [OF ok, of nx] by (cases "done nx") (auto split: if_splits)
  show "(infl(request_key r \<mapsto> nx)) (request_key r') = Some n" using n maps_okD(3) [OF ok, of n r'] assms(2) by (auto split: if_splits)
next
  show "n < nx + 1" if "done n = Some x" for n x using maps_okD(4) [OF ok that] by simp
next
  fix key n assume n: "(infl(request_key r \<mapsto> nx)) key = Some n"
  show "(\<exists>r'. (runs(nx \<mapsto> r)) n = Some r' \<and> request_key r' = key) \<or> done n = Some (Failed_With open_message)"
    using n maps_okD(5) [OF ok, of key n] maps_okD(1) [OF ok, of n] by (auto split: if_splits)
qed

lemma maps_ok_refused:
  assumes ok: "maps_ok runs done infl nx" and "infl (request_key r) = None"
  shows "maps_ok runs (done(nx \<mapsto> Failed_With open_message)) ((infl(request_key r := None))(request_key r \<mapsto> nx)) (nx + 1)"
  unfolding maps_ok_def
proof (intro conjI allI impI)
  fix n r' assume n: "runs n = Some r'"
  show "n < nx + 1" using maps_okD(1) [OF ok n] by simp
  show "(done(nx \<mapsto> Failed_With open_message)) n = None" using maps_okD(1,2) [OF ok n] by simp
  show "((infl(request_key r := None))(request_key r \<mapsto> nx)) (request_key r') = Some n" using maps_okD(3) [OF ok n] assms(2) by auto
next
  show "n < nx + 1" if "(done(nx \<mapsto> Failed_With open_message)) n = Some x" for n x using maps_okD(4) [OF ok, of n x] that by (auto split: if_splits)
next
  fix key n assume n: "((infl(request_key r := None))(request_key r \<mapsto> nx)) key = Some n"
  show "(\<exists>r'. runs n = Some r' \<and> request_key r' = key) \<or> (done(nx \<mapsto> Failed_With open_message)) n = Some (Failed_With open_message)"
    using n maps_okD(5) [OF ok, of key n] by (auto split: if_splits)
qed

lemma maps_ok_ended:
  assumes ok: "maps_ok runs done infl nx" and run: "runs n = Some r"
  shows "maps_ok (runs(n := None)) (done(n \<mapsto> x)) (infl(request_key r := None)) nx"
  unfolding maps_ok_def
proof (intro conjI allI impI)
  fix m r' assume m: "(runs(n := None)) m = Some r'"
  then have m': "runs m = Some r'" "m \<noteq> n" by (auto split: if_splits)
  show "m < nx" by (rule maps_okD(1) [OF ok m'(1)])
  show "(done(n \<mapsto> x)) m = None" using maps_okD(2) [OF ok m'(1)] m'(2) by simp
  show "(infl(request_key r := None)) (request_key r') = Some m" using maps_okD(3) [OF ok m'(1)] maps_okD(3) [OF ok run] m'(2) by auto
next
  show "m < nx" if "(done(n \<mapsto> x)) m = Some y" for m y using that maps_okD(1) [OF ok run] maps_okD(4) [OF ok, of m y] by (auto split: if_splits)
next
  fix key m assume m: "(infl(request_key r := None)) key = Some m"
  then have m': "infl key = Some m" "key \<noteq> request_key r" by (auto split: if_splits)
  show "(\<exists>r'. (runs(n := None)) m = Some r' \<and> request_key r' = key) \<or> (done(n \<mapsto> x)) m = Some (Failed_With open_message)"
    using maps_okD(5) [OF ok m'(1)] m'(2) run maps_okD(2) [OF ok run] by auto
qed

lemma remote_cases:
  obtains (cached) d ts ttl where "remote_fetch now r s = (Cached d, s)" "wr_method r = ''GET''" "mget (rp_cache s) (request_key r) = Some (d, ts, ttl)" "now - ts < ttl"
  | (shared) n where "remote_fetch now r s = (Promised n, s)" "mget (rp_inflight s) (request_key r) = Some n"
  | (sent) b where "mget (rp_inflight s) (request_key r) = None" "canRequest now (rp_breaker s) = (True, b)"
      "remote_fetch now r s = (Promised (rp_next s), s\<lparr>rp_breaker := b, rp_next := rp_next s + 1, rp_running := rp_running s @ [(rp_next s, r)],
         rp_inflight := mset_key (request_key r) (rp_next s) (rp_inflight s)\<rparr>)"
  | (refused) b where "mget (rp_inflight s) (request_key r) = None" "canRequest now (rp_breaker s) = (False, b)"
      "remote_fetch now r s = (Promised (rp_next s), s\<lparr>rp_breaker := b, rp_next := rp_next s + 1, rp_settled := mset_key (rp_next s) (Failed_With open_message) (rp_settled s),
         rp_inflight := mset_key (request_key r) (rp_next s) (mdel (request_key r) (rp_inflight s))\<rparr>)"
proof -
  let ?key = "request_key r"
  define fresh where "fresh = (if wr_method r = ''GET'' then (case mget (rp_cache s) ?key of Some (d, ts, ttl) \<Rightarrow> if now - ts < ttl then Some d else None | None \<Rightarrow> None) else None)"
  obtain ok b where can: "canRequest now (rp_breaker s) = (ok, b)" by (cases "canRequest now (rp_breaker s)") auto
  show thesis
  proof (cases fresh)
    case (Some d)
    then obtain ts ttl where "wr_method r = ''GET''" "mget (rp_cache s) ?key = Some (d, ts, ttl)" "now - ts < ttl"
      by (auto simp: fresh_def split: if_splits option.splits)
    moreover have "remote_fetch now r s = (Cached d, s)" using Some by (simp add: remote_fetch_def Let_def fresh_def)
    ultimately show thesis by (rule cached [rotated])
  next
    case None
    note plain = None [unfolded fresh_def]
    show thesis
    proof (cases "mget (rp_inflight s) ?key")
      case (Some n)
      then show thesis using plain by (intro shared [of n]) (simp_all add: remote_fetch_def Let_def)
    next
      case none: None
      show thesis
      proof (cases ok)
        case True
        then show thesis using plain none can by (intro sent [of b]) (simp_all add: remote_fetch_def Let_def)
      next
        case False
        then show thesis using plain none can by (intro refused [of b]) (simp_all add: remote_fetch_def Let_def)
      qed
    qed
  qed
qed

lemma mget_snoc: "mget m k = None \<Longrightarrow> mget (m @ [(k, v)]) = (mget m)(k \<mapsto> v)"
  by (auto simp: map_add_def fun_eq_iff split: option.split)

lemma remote_ok_fetch:
  assumes "remote_ok s"
  shows "remote_ok (snd (remote_fetch now r s))"
proof (cases rule: remote_cases [of now r s])
  case (sent b)
  have new: "mget (rp_running s) (rp_next s) = None" using assms unfolding remote_ok_def maps_ok_def by (metis less_irrefl not_None_eq)
  then have fresh_num: "rp_next s \<notin> fst ` set (rp_running s)" by (simp add: map_of_eq_None_iff)
  have m: "maps_ok (mget (rp_running s)) (mget (rp_settled s)) (mget (rp_inflight s)) (rp_next s)" using assms by (simp add: remote_ok_def)
  show ?thesis using assms new fresh_num maps_ok_sent [OF m sent(1)]
    unfolding sent(3) remote_ok_def by (simp add: mget_snoc update_conv' jsm_ok_def del: map_of_append)
next
  case (refused b)
  have m: "maps_ok (mget (rp_running s)) (mget (rp_settled s)) (mget (rp_inflight s)) (rp_next s)" using assms by (simp add: remote_ok_def)
  from assms maps_ok_refused [OF m refused(1)] show ?thesis
    unfolding refused(3) remote_ok_def by (simp add: update_conv' AList.delete_conv')
qed (use assms in simp_all)

lemma remote_ok_ended:
  assumes "remote_ok s"
  shows "remote_ok (remote_ended n out now s)"
proof (cases "mget (rp_running s) n")
  case None
  with assms show ?thesis by (simp add: remote_ended_def)
next
  case (Some r)
  have cache: "\<forall>key d ts ttl. mget (rp_cache (remote_ended n out now s)) key = Some (d, ts, ttl) \<longrightarrow> ttl \<le> 60000"
    using assms ttl_bounds by (auto simp: remote_ended_def Some Let_def remote_ok_def split: got.splits if_splits)
  have m: "maps_ok (mget (rp_running s)) (mget (rp_settled s)) (mget (rp_inflight s)) (rp_next s)" using assms by (simp add: remote_ok_def)
  have "mget (rp_running (remote_ended n out now s)) = (mget (rp_running s))(n := None)"
    "mget (rp_settled (remote_ended n out now s)) = (mget (rp_settled s))(n \<mapsto> net_result r out)"
    "mget (rp_inflight (remote_ended n out now s)) = (mget (rp_inflight s))(request_key r := None)"
    "rp_next (remote_ended n out now s) = rp_next s"
    by (simp_all add: remote_ended_def Some Let_def fun_eq_iff)
  then have "maps_ok (mget (rp_running (remote_ended n out now s))) (mget (rp_settled (remote_ended n out now s)))
      (mget (rp_inflight (remote_ended n out now s))) (rp_next (remote_ended n out now s))"
    using maps_ok_ended [OF m Some] by (simp only:)
  moreover have "jsm_ok (rp_running (remote_ended n out now s))" using assms by (simp add: remote_ended_def Some Let_def remote_ok_def)
  ultimately show ?thesis using cache by (simp add: remote_ok_def)
qed

lemma remote_ok_step: "remote_ok s \<Longrightarrow> remote_ok (remote_step e s)"
  by (cases e) (simp_all add: remote_ok_fetch remote_ok_ended, simp add: remote_ok_def)

interpretation remote_system: step_system remote_step remote_ok "\<lambda>_. True"
  by unfold_locales (rule remote_ok_step)

lemma new_remote_ok: "remote_ok (new_remote b)"
  by (simp add: remote_ok_def maps_ok_def new_remote_def)

lemma running_key_once:
  assumes "remote_ok s"
  shows "distinct (map (request_key \<circ> snd) (rp_running s))"
proof -
  have keys: "jsm_ok (rp_running s)" and m: "maps_ok (mget (rp_running s)) (mget (rp_settled s)) (mget (rp_inflight s)) (rp_next s)"
    using assms by (simp_all add: remote_ok_def)
  have "inj_on (request_key \<circ> snd) (set (rp_running s))"
  proof (rule inj_onI)
    fix p q assume p: "p \<in> set (rp_running s)" and q: "q \<in> set (rp_running s)" and eq: "(request_key \<circ> snd) p = (request_key \<circ> snd) q"
    have "mget (rp_running s) (fst p) = Some (snd p)" "mget (rp_running s) (fst q) = Some (snd q)"
      using p q mget_iff_in_set [OF keys, of "fst p" "snd p"] mget_iff_in_set [OF keys, of "fst q" "snd q"] by simp_all
    with maps_okD(3) [OF m] eq show "p = q" by (metis comp_apply option.inject prod_eqI)
  qed
  moreover have "distinct (rp_running s)" using keys by (simp add: jsm_ok_def distinct_map)
  ultimately show ?thesis by (simp add: distinct_map)
qed

text \<open>
  C35: through every history of calls and answers there is one request on the network for a key at most; a call
  that is answered from the cache reads and gets the entry of its own key, made less than its time to live ago, a
  minute at most; every other call gets the promise of a request on the network, or of one that an open circuit refused;
  and an answer settles its promise and frees the key.
\<close>

theorem identical_requests_share_one_answer:
  assumes "s = run remote_step es (new_remote b)" and "remote_fetch now r s = (a, s')"
  shows "distinct (map (request_key \<circ> snd) (rp_running s'))
    \<and> (case a of
        Cached d \<Rightarrow> wr_method r = ''GET'' \<and> (\<exists>ts ttl. mget (rp_cache s) (request_key r) = Some (d, ts, ttl) \<and> now - ts < ttl \<and> ttl \<le> 60000) \<and> s' = s
      | Promised n \<Rightarrow>
          (\<exists>r'. mget (rp_running s') n = Some r' \<and> request_key r' = request_key r
             \<and> mget (rp_settled (remote_ended n out later s')) n = Some (net_result r' out)
             \<and> mget (rp_inflight (remote_ended n out later s')) (request_key r) = None)
          \<or> mget (rp_settled s') n = Some (Failed_With open_message))"
proof -
  have ok: "remote_ok s" unfolding assms(1) by (rule remote_system.run_inv) (simp_all add: new_remote_ok)
  then have ok': "remote_ok s'" using remote_ok_fetch [of s now r] assms(2) by simp
  have running: "\<exists>r'. mget (rp_running s') n = Some r' \<and> request_key r' = request_key r
             \<and> mget (rp_settled (remote_ended n out later s')) n = Some (net_result r' out)
             \<and> mget (rp_inflight (remote_ended n out later s')) (request_key r) = None"
    if "mget (rp_running s') n = Some r'" "request_key r' = request_key r" for n r'
    using that by (simp add: remote_ended_def Let_def)
  show ?thesis
  proof (cases rule: remote_cases [of now r s])
    case (cached d ts ttl)
    then have "s' = s" "a = Cached d" using assms(2) by simp_all
    with cached ok show ?thesis by (auto simp: running_key_once remote_ok_def [of s])
  next
    case (shared n)
    then have "s' = s" "a = Promised n" using assms(2) by simp_all
    moreover have "(\<exists>r'. mget (rp_running s) n = Some r' \<and> request_key r' = request_key r) \<or> mget (rp_settled s) n = Some (Failed_With open_message)"
      using ok shared(2) maps_okD(5) [of "mget (rp_running s)" "mget (rp_settled s)" "mget (rp_inflight s)" "rp_next s" "request_key r" n] by (simp add: remote_ok_def)
    ultimately show ?thesis using running [of n] running_key_once [OF ok'] by auto
  next
    case (sent b')
    then have a: "a = Promised (rp_next s)" and s': "rp_running s' = rp_running s @ [(rp_next s, r)]" using assms(2) by auto
    have "mget (rp_running s) (rp_next s) = None"
      using ok unfolding remote_ok_def maps_ok_def by (metis less_irrefl not_None_eq)
    then have "mget (rp_running s') (rp_next s) = Some r" by (simp add: s' mget_snoc del: map_of_append)
    then show ?thesis using running [of "rp_next s" r] running_key_once [OF ok'] a by auto
  next
    case (refused b')
    then have "a = Promised (rp_next s)" "mget (rp_settled s') (rp_next s) = Some (Failed_With open_message)" using assms(2) by auto
    then show ?thesis using running_key_once [OF ok'] by auto
  qed
qed

definition sample_request :: wire_request where
  "sample_request = \<lparr>wr_method = ''GET'', wr_url = ''/api/v1/ws/graph/nodes/a/children?limit=5'', wr_body = None\<rparr>"

definition ok_answer :: net_outcome where
  "ok_answer = Net_Response \<lparr>status = 200, retry_after = None, body = Some (JArr [])\<rparr> '''' ''''"

lemma identical_requests_share_one_answer_witness:
  "mget (rp_settled (remote_ended 0 ok_answer 5 (snd (remote_fetch 1 sample_request (run remote_step [Fetch_Called sample_request 0] (new_remote default_breaker)))))) 0 = Some (Got (JArr []))"
proof -
  let ?s = "run remote_step [Fetch_Called sample_request 0] (new_remote default_breaker)"
  have "remote_fetch 1 sample_request ?s = (Promised 0, snd (remote_fetch 1 sample_request ?s))"
    "mget (rp_settled (snd (remote_fetch 1 sample_request ?s))) 0 \<noteq> Some (Failed_With open_message)"
    "map_option (\<lambda>r. net_result r ok_answer) (mget (rp_running (snd (remote_fetch 1 sample_request ?s))) 0) = Some (Got (JArr []))" by code_simp+
  with identical_requests_share_one_answer [OF refl this(1), where out = ok_answer and later = 5] show ?thesis by (auto simp del: run_simps)
qed

section \<open>A refused request is never repeated\<close>

text \<open>
  The entry of a refused request stays: whatever happens later, and however healthy the backend is, a call with
  its key that the cache does not answer gets the same rejected promise.
\<close>

definition poisoned :: "string \<Rightarrow> nat \<Rightarrow> remote \<Rightarrow> bool" where
  "poisoned key n s \<longleftrightarrow> mget (rp_inflight s) key = Some n \<and> mget (rp_settled s) n = Some (Failed_With open_message)"

lemma poisoned_step:
  assumes "remote_ok s" and "poisoned key n s"
  shows "poisoned key n (remote_step e s)"
proof (cases e)
  case (Fetch_Called r now)
  show ?thesis
  proof (cases rule: remote_cases [of now r s])
    case (refused b)
    have "n < rp_next s" using assms by (auto simp: remote_ok_def maps_ok_def poisoned_def)
    with refused Fetch_Called assms(2) show ?thesis by (auto simp: poisoned_def)
  qed (use Fetch_Called assms(2) in \<open>auto simp: poisoned_def\<close>)
next
  case (Net_Ended m out now)
  show ?thesis
  proof (cases "mget (rp_running s) m")
    case (Some r)
    have mm: "maps_ok (mget (rp_running s)) (mget (rp_settled s)) (mget (rp_inflight s)) (rp_next s)" using assms(1) by (simp add: remote_ok_def)
    have "m \<noteq> n" using maps_okD(2) [OF mm Some] assms(2) by (auto simp: poisoned_def)
    moreover have "request_key r \<noteq> key" using maps_okD(3) [OF mm Some] assms(2) \<open>m \<noteq> n\<close> by (auto simp: poisoned_def)
    ultimately show ?thesis using Net_Ended Some assms(2) by (simp add: poisoned_def remote_ended_def Let_def)
  qed (use Net_Ended assms(2) in \<open>simp add: remote_ended_def\<close>)
qed (use assms(2) in \<open>simp add: poisoned_def\<close>)

lemma poisoned_run: "remote_ok s \<Longrightarrow> poisoned key n s \<Longrightarrow> poisoned key n (run remote_step es s)"
  by (induction es arbitrary: s) (simp_all add: poisoned_step remote_ok_step)

lemma refused_request_stays_refused:
  assumes "s = run remote_step es (new_remote b)" and "fst (canRequest now (rp_breaker s)) = False" and "mget (rp_inflight s) (request_key r) = None"
    and "remote_fetch now r s = (Promised n, s')" and "request_key q = request_key r"
    and "s'' = run remote_step fs s'" and "remote_fetch later q s'' = (Promised m, t)"
  shows "m = n \<and> mget (rp_settled t) m = Some (Failed_With open_message)"
proof -
  have ok: "remote_ok s" unfolding assms(1) by (rule remote_system.run_inv) (simp_all add: new_remote_ok)
  have ok': "remote_ok s'" using remote_ok_fetch [OF ok, of now r] assms(4) by simp
  have "poisoned (request_key r) n s'"
  proof (cases rule: remote_cases [of now r s])
    case (refused b')
    with assms(4) show ?thesis by (auto simp: poisoned_def)
  next
    case (sent b')
    with assms(2) show ?thesis by simp
  qed (use assms(3,4) in simp_all)
  then have "poisoned (request_key q) n s''" unfolding assms(5,6) by (rule poisoned_run [OF ok'])
  with assms(7) show ?thesis by (cases rule: remote_cases [of later q s'']) (auto simp: poisoned_def)
qed

lemma recovered_backend_is_still_refused:
  "(let down = snd (canRequest 0 (recordFailure 0 None (recordFailure 0 None (recordFailure 0 None default_breaker))));
        s = run remote_step [Fetch_Called sample_request 1, Breaker_Event Reset, Fetch_Called sample_request 100000] (new_remote down)
    in rp_running s = [] \<and> mget (rp_settled s) 0 = Some (Failed_With open_message) \<and> cb_state (rp_breaker s) = Closed)"
  by code_simp

text \<open>
  A probe of a half-open circuit that is answered with a client error is recorded nowhere: the next request of the
  scope is refused, and so on.
\<close>

lemma client_error_keeps_the_probe:
  "(let half = snd (canRequest 20000 (recordFailure 0 None (recordFailure 0 None (recordFailure 0 None default_breaker))));
        b = net_breaker 20001 (Net_Response \<lparr>status = 404, retry_after = None, body = None\<rparr> '''' '''') half
    in fst (canRequest 9999999 b) = False)"
  by code_simp

section \<open>Operations\<close>

text \<open>A node that is not found is null; the test looks for the number anywhere in the message.\<close>

definition getNode_result :: "got \<Rightarrow> got" where
  "getNode_result g = (case g of Got j \<Rightarrow> Got j | Failed_With m \<Rightarrow> if is_infix ''404'' m then Got JNull else Failed_With m)"

lemma other_errors_read_as_not_found:
  "getNode_result (net_result sample_request (Net_Response \<lparr>status = 500, retry_after = None, body = None\<rparr> ''query 40404 failed'' '''')) = Got JNull"
  by code_simp

text \<open>The four endpoints that answer with an envelope; a falsy payload is an error.\<close>

definition falsy :: "json \<Rightarrow> bool" where
  "falsy j \<longleftrightarrow> j = JNull \<or> j = JBool False \<or> j = JNum 0 \<or> j = JStr ''''"

definition unwrapped :: "string \<Rightarrow> got \<Rightarrow> got" where
  "unwrapped what g =
     (case g of
        Failed_With m \<Rightarrow> Failed_With m
      | Got raw \<Rightarrow> (let d = unwrapEnvelope raw in if falsy d then Failed_With (what @ '' unavailable: cache miss or backend error'') else Got d))"

lemma unwrapped_envelope:
  assumes "mget meta ''status'' = Some (JStr st)" and "isCacheEnvelope (envelope d meta)"
  shows "unwrapped what (Got (envelope d meta)) = (if st = ''error'' \<or> falsy d then Failed_With (what @ '' unavailable: cache miss or backend error'') else Got d)"
  using assms by (auto simp: unwrapped_def unwrapEnvelope_def Let_def falsy_def) (auto simp: envelope_def get_prop_def)

definition flag_param :: "string \<Rightarrow> bool option \<Rightarrow> params" where
  "flag_param k b = (if b = Some False then [(k, ''false'')] else [])"

definition children_with_edges_params :: "children_options \<Rightarrow> bool option \<Rightarrow> string list \<Rightarrow> params" where
  "children_with_edges_params co includeLineageEdges lineageTypes =
     num_param ''offset'' (ch_offset co) @ num_param ''limit'' (ch_limit co) @ opt_param ''searchQuery'' (ch_searchQuery co)
     @ flag_param ''includeLineageEdges'' includeLineageEdges
     @ (case ch_sortProperty co of None \<Rightarrow> [] | Some p \<Rightarrow> [(''sortProperty'', nullish p '''')])
     @ opt_param ''cursor'' (ch_cursor co) @ map (\<lambda>t. (''edgeTypes'', t)) (ch_edgeTypes co) @ map (\<lambda>t. (''lineageEdgeTypes'', t)) lineageTypes"

record top_level_query =
  tq_entityTypes :: "string list"
  tq_searchQuery :: "string option"
  tq_limit :: "nat option"
  tq_cursor :: "string option"
  tq_includeChildCount :: "bool option"

definition top_level_params :: "top_level_query \<Rightarrow> params" where
  "top_level_params q =
     (case tq_limit q of None \<Rightarrow> [] | Some n \<Rightarrow> [(''limit'', dec_of_nat n)])
     @ opt_param ''searchQuery'' (tq_searchQuery q) @ opt_param ''cursor'' (tq_cursor q)
     @ flag_param ''includeChildCount'' (tq_includeChildCount q) @ map (\<lambda>t. (''entityTypes'', t)) (tq_entityTypes q)"

text \<open>A child of a containment: its name and URN, each may be missing, and the number of its children.\<close>

record contained =
  co_displayName :: "string option"
  co_urn :: "string option"
  co_childCount :: nat

definition getContainment :: "string option \<Rightarrow> nat \<Rightarrow> contained list \<Rightarrow> contained list \<times> bool" where
  "getContainment searchQuery limit children =
     (let q = nullish searchQuery '''';
          hit = (\<lambda>x. case x of None \<Rightarrow> False | Some t \<Rightarrow> is_infix (toLowerCase q) (toLowerCase t));
          kept = (if trim q \<noteq> '''' then filter (\<lambda>c. hit (co_displayName c) \<or> hit (co_urn c)) children else children)
      in (take limit kept, list_ex (\<lambda>c. 0 < co_childCount c) kept))"

lemma containment_is_bounded: "length (fst (getContainment q limit children)) \<le> limit \<and> set (fst (getContainment q limit children)) \<subseteq> set children"
  by (auto simp: getContainment_def Let_def dest: in_set_takeD)

text \<open>The children of a node come from the cache for half a minute, also after a node was created below it.\<close>

lemma created_node_is_not_shown:
  "(let create = \<lparr>wr_method = ''POST'', wr_url = ''/api/v1/ws/graph/nodes/create'', wr_body = Some ''a''\<rparr>;
        s = run remote_step [Fetch_Called sample_request 0, Net_Ended 0 ok_answer 10, Fetch_Called create 20, Net_Ended 1 ok_answer 30] (new_remote default_breaker)
    in fst (remote_fetch 30009 sample_request s) = Cached (JArr []) \<and> fst (remote_fetch 30010 sample_request s) = Promised 2)"
  by code_simp

text \<open>An answer to anything but a \<^verbatim>\<open>GET\<close> is not kept, the queries of nodes and edges among them.\<close>

lemma post_answers_are_not_kept:
  "mget (rp_running s) n = Some r \<Longrightarrow> wr_method r \<noteq> ''GET'' \<Longrightarrow> rp_cache (remote_ended n out now s) = rp_cache s"
  by (simp add: remote_ended_def Let_def split: got.split)

end
