(* ===== verification/Canvas_Edits.thy ===== *)
theory Canvas_Edits
  imports Canvas_Store Staged_Changes Js_String
begin

text \<open>
  The edits of the graph on the canvas and what they stage: renaming, deleting, reversing and duplicating
  (\<^verbatim>\<open>hooks/useCanvasInteractions.ts\<close>), the drawer of an entity (\<^verbatim>\<open>components/panels/EntityDrawer.tsx\<close>), the
  deletion in the panel of an edge (\<^verbatim>\<open>components/panels/EdgeDetailPanel.tsx\<close>) and the creation of an entity
  (\<^verbatim>\<open>components/panels/EntityCreationPanel.tsx\<close>). The world of the staged changes is the canvas store and the log
  of what the apply hooks sent; the answers of the backend are a parameter. Summaries are left out.
\<close>

section \<open>The world of an edit\<close>

record create_request =
  cr_entityType :: string
  cr_displayName :: string
  cr_parentUrn :: "string option"
  cr_properties :: jsobj
  cr_tags :: "string list"

datatype sent = Sent_Create create_request | Sent_Delete_Edge ident

record edit_world =
  ew_canvas :: canvas
  ew_sent :: "sent list"

type_synonym edits = "edit_world \<times> edit_world staged"

text \<open>The node a successful creation answers with.\<close>

record created_node =
  cn_urn :: urn
  cn_displayName :: string
  cn_entityType :: string
  cn_tags :: "string list"
  cn_properties :: jsobj

datatype create_answer = Create_Threw string | Create_Failed "string option" | Created created_node "graph_edge option"

text \<open>An answer may depend on all that was sent before; a deletion answers with the message of an error.\<close>

record backend =
  bk_create :: "sent list \<Rightarrow> create_request \<Rightarrow> create_answer"
  bk_delete_edge :: "sent list \<Rightarrow> ident \<Rightarrow> string option"

definition on_canvas :: "(canvas \<Rightarrow> canvas) \<Rightarrow> edit_world \<Rightarrow> edit_world" where
  "on_canvas f w = w\<lparr>ew_canvas := f (ew_canvas w)\<rparr>"

definition find_node :: "ident \<Rightarrow> canvas \<Rightarrow> lineage_node option" where
  "find_node nid c = find_first (\<lambda>n. node_id n = nid) (nodes c)"

definition find_edge :: "ident \<Rightarrow> canvas \<Rightarrow> lineage_edge option" where
  "find_edge eid c = find_first (\<lambda>e. edge_id e = eid) (edges c)"

text \<open>A label or URN of a node, where it is a string; \<^verbatim>\<open>updateNode(id, { isPending: undefined })\<close>.\<close>

definition data_str :: "string \<Rightarrow> lineage_node option \<Rightarrow> string option" where
  "data_str k n = (case n of None \<Rightarrow> None | Some x \<Rightarrow> str_field (node_data x) k)"

definition clear_pending :: "ident \<Rightarrow> canvas \<Rightarrow> canvas" where
  "clear_pending nid c =
     commit GraphKeys c (c\<lparr>nodes := map (\<lambda>n. if node_id n = nid then n\<lparr>node_data := mdel ''isPending'' (node_data n)\<rparr> else n) (nodes c)\<rparr>)"

definition same_target :: "change_type \<Rightarrow> ident \<Rightarrow> 'w staged_change \<Rightarrow> bool" where
  "same_target t target c \<longleftrightarrow> ch_type c = t \<and> ch_targetId c = target"

definition edit_input :: "change_type \<Rightarrow> ident \<Rightarrow> urn option \<Rightarrow> json option \<Rightarrow> json \<Rightarrow> edit_world apply_hook option \<Rightarrow> (canvas \<Rightarrow> canvas) \<Rightarrow> edit_world change_input" where
  "edit_input t target urn before after apply_hook discard_hook =
     \<lparr>in_type = t, in_targetId = target, in_targetUrn = urn, in_before = before, in_after = after, in_summary = [],
      in_apply = apply_hook, in_discard = Some (on_canvas discard_hook), in_error = None\<rparr>"

text \<open>Snapshots of nodes and edges as the JSON the review shows; the data of an edge is left out.\<close>

definition edge_json :: "lineage_edge \<Rightarrow> json" where
  "edge_json e = JObj [(''id'', JStr (edge_id e)), (''source'', JStr (edge_source e)), (''target'', JStr (edge_target e))]"

definition node_json :: "lineage_node \<Rightarrow> json" where
  "node_json n = JObj [(''id'', JStr (node_id n)), (''data'', JObj (node_data n))]"

section \<open>Edits of the canvas\<close>

definition saveInlineEdit :: "ident \<Rightarrow> int \<Rightarrow> ident \<Rightarrow> string \<Rightarrow> edits \<Rightarrow> edits" where
  "saveInlineEdit cid now nid newValue st =
     (case st of (w, s) \<Rightarrow>
        let node = find_node nid (ew_canvas w); previousLabel = nullish (data_str ''label'' node) ''''
        in if previousLabel = newValue then (w, s)
           else (on_canvas (updateNode nid [(''label'', JStr newValue)]) w,
                 snd (stageOrReplace cid now (same_target Rename_entity nid)
                   (edit_input Rename_entity nid (Some (nullish (data_str ''urn'' node) nid)) (Some (JObj [(''label'', JStr previousLabel)]))
                      (JObj [(''label'', JStr newValue)]) None (updateNode nid [(''label'', JStr previousLabel)])) s)))"

text \<open>A copy is put on the canvas and selected, and nothing is staged.\<close>

definition duplicateNode :: "int \<Rightarrow> ident \<Rightarrow> edits \<Rightarrow> edits" where
  "duplicateNode now nid st =
     (case st of (w, s) \<Rightarrow>
        case find_node nid (ew_canvas w) of
          None \<Rightarrow> (w, s)
        | Some n \<Rightarrow>
            (let suffix = ''-copy-'' @ dec_of_int now; newId = nid @ suffix;
                 text = (\<lambda>k. nullish (str_field (node_data n) k) ''undefined'');
                 d = mset_key ''label'' (JStr (text ''label'' @ '' (Copy)'')) (mset_key ''urn'' (JStr (text ''urn'' @ suffix)) (node_data n))
             in (on_canvas (\<lambda>c. selectNode newId False (addNodes [n\<lparr>node_id := newId, node_data := d\<rparr>] c)) w, s)))"

definition remove_node_apply :: "ident \<Rightarrow> edit_world apply_hook" where
  "remove_node_apply nid ctx = (ctx\<lparr>world := on_canvas (removeNode nid) (world ctx)\<rparr>, None)"

definition deleteNode :: "ident \<Rightarrow> int \<Rightarrow> ident \<Rightarrow> edits \<Rightarrow> edits" where
  "deleteNode cid now nid st =
     (case st of (w, s) \<Rightarrow>
        case find_node nid (ew_canvas w) of
          None \<Rightarrow> (w, s)
        | Some n \<Rightarrow>
            (case find_first (same_target Create_entity nid) (changes s) of
               Some c \<Rightarrow> discard (ch_id c) (w, s)
             | None \<Rightarrow>
                 (on_canvas (updateNode nid [(''isPending'', JStr ''delete'')]) w,
                  snd (stage cid now (edit_input Delete_entity nid (Some (nullish (data_str ''urn'' (Some n)) nid)) (Some (JObj [(''node'', node_json n)])) JNull
                    (Some (remove_node_apply nid)) (clear_pending nid)) s))))"

definition deleteEdge :: "ident \<Rightarrow> int \<Rightarrow> ident \<Rightarrow> edits \<Rightarrow> edits" where
  "deleteEdge cid now eid st =
     (case st of (w, s) \<Rightarrow>
        case find_edge eid (ew_canvas w) of
          None \<Rightarrow> (w, s)
        | Some e \<Rightarrow>
            (case find_first (same_target Create_edge eid) (changes s) of
               Some c \<Rightarrow> discard (ch_id c) (w, s)
             | None \<Rightarrow>
                 (on_canvas (removeEdge eid) w,
                  snd (stage cid now (edit_input Delete_edge eid None (Some (JObj [(''edge'', edge_json e)])) JNull None (addEdges [e])) s))))"

definition reversed_id :: "ident \<Rightarrow> ident" where
  "reversed_id eid = eid @ ''-reversed''"

definition reversed :: "lineage_edge \<Rightarrow> lineage_edge" where
  "reversed e = e\<lparr>edge_id := reversed_id (edge_id e), edge_source := edge_target e, edge_target := edge_source e\<rparr>"

definition reverseEdge :: "ident \<Rightarrow> int \<Rightarrow> ident \<Rightarrow> edits \<Rightarrow> edits" where
  "reverseEdge cid now eid st =
     (case st of (w, s) \<Rightarrow>
        case find_edge eid (ew_canvas w) of
          None \<Rightarrow> (w, s)
        | Some e \<Rightarrow>
            (on_canvas (\<lambda>c. addEdges [reversed e] (removeEdge eid c)) w,
             snd (stage cid now (edit_input Reverse_edge (reversed_id eid) None (Some (JObj [(''edge'', edge_json e)])) (JObj [(''edge'', edge_json (reversed e))]) None
               (\<lambda>c. addEdges [e] (removeEdge (reversed_id eid) c))) s)))"

text \<open>The operations on the selection; a generated id is a function of the target.\<close>

definition selectAll :: "canvas \<Rightarrow> canvas" where
  "selectAll c = fold (\<lambda>n. selectNode (node_id n) True) (nodes c) c"

definition deleteSelected :: "(ident \<Rightarrow> ident) \<Rightarrow> int \<Rightarrow> edits \<Rightarrow> edits" where
  "deleteSelected gen now st =
     (let sel = selectedNodeIds (ew_canvas (fst st)); sel_edges = selectedEdgeIds (ew_canvas (fst st));
          st1 = fold (\<lambda>n. deleteNode (gen n) now n) sel st;
          st2 = fold (\<lambda>e. deleteEdge (gen e) now e) sel_edges st1
      in (on_canvas clearSelection (fst st2), snd st2))"

definition duplicateSelected :: "int \<Rightarrow> edits \<Rightarrow> edits" where
  "duplicateSelected now st = fold (duplicateNode now) (selectedNodeIds (ew_canvas (fst st))) st"

text \<open>The text put on the clipboard, if there is any.\<close>

definition copySelectedUrns :: "canvas \<Rightarrow> string option" where
  "copySelectedUrns c =
     (let urns = filter (\<lambda>u. u \<noteq> '''') (map (\<lambda>i. nullish (data_str ''urn'' (find_node i c)) '''') (selectedNodeIds c));
          text = join_with (CHR 0x0A) urns
      in if text = '''' then None else Some text)"

section \<open>The drawer of an entity\<close>

text \<open>The drawer shows the node it was opened on, unless that is a group; keys differ as their JSON texts do.\<close>

definition drawer_node :: "canvas \<Rightarrow> lineage_node option" where
  "drawer_node c = (case drawerNodeId c of None \<Rightarrow> None | Some i \<Rightarrow> if i = '''' \<or> is_prefix ''logical:'' i then None else find_node i c)"

definition changed_fields :: "jsobj \<Rightarrow> jsobj \<Rightarrow> string list" where
  "changed_fields previous form = filter (\<lambda>k. mget previous k \<noteq> mget form k) (set_from (map fst previous @ map fst form))"

definition nothing_apply :: "edit_world apply_hook" where
  "nothing_apply ctx = (ctx, None)"

definition handleSave :: "ident \<Rightarrow> int \<Rightarrow> bool \<Rightarrow> jsobj \<Rightarrow> edits \<Rightarrow> edits" where
  "handleSave cid now jsonError form st =
     (case st of (w, s) \<Rightarrow>
        case drawer_node (ew_canvas w) of
          None \<Rightarrow> (w, s)
        | Some n \<Rightarrow>
            if jsonError then (w, s)
            else (let nid = node_id n; previous = node_data n; w1 = on_canvas (updateNode nid form) w; changed = changed_fields previous form
                  in if changed = [] then (w1, s)
                     else (let t = (if changed = [''label''] then Rename_entity else Update_entity)
                           in (w1, snd (stageOrReplace cid now (same_target t nid)
                                (edit_input t nid (str_field previous ''urn'') (Some (JObj previous)) (JObj form)
                                  (if changed = [''label''] then None else Some nothing_apply) (updateNode nid previous)) s)))))"

section \<open>The panel of an edge\<close>

text \<open>The card shows an edge of the canvas. Saving changed properties calls an action the canvas store does not have.\<close>

definition delete_edge_apply :: "backend \<Rightarrow> ident \<Rightarrow> edit_world apply_hook" where
  "delete_edge_apply bk eid ctx =
     (let w = world ctx
      in (ctx\<lparr>world := w\<lparr>ew_sent := ew_sent w @ [Sent_Delete_Edge eid]\<rparr>\<rparr>, bk_delete_edge bk (ew_sent w) eid))"

definition stageEdgeDelete :: "backend \<Rightarrow> ident \<Rightarrow> int \<Rightarrow> lineage_edge \<Rightarrow> edits \<Rightarrow> edits" where
  "stageEdgeDelete bk cid now e st =
     (case st of (w, s) \<Rightarrow>
        (on_canvas (removeEdge (edge_id e)) w,
         snd (stage cid now (edit_input Delete_edge (edge_id e) None (Some (edge_json e)) JNull (Some (delete_edge_apply bk (edge_id e))) (addEdges [e])) s)))"

section \<open>Creating an entity\<close>

record creation_form =
  cf_entityType :: string
  cf_displayName :: string
  cf_description :: string
  cf_parentUrn :: string
  cf_tags :: string
  cf_properties :: jsobj

definition form_tags :: "creation_form \<Rightarrow> string list" where
  "form_tags f = filter (\<lambda>t. 0 < length t) (map trim (split_on (CHR '','') (cf_tags f)))"

definition form_properties :: "creation_form \<Rightarrow> jsobj" where
  "form_properties f = mset_key ''description'' (JStr (cf_description f)) (cf_properties f)"

definition temp_urn :: "string \<Rightarrow> creation_form \<Rightarrow> urn" where
  "temp_urn gen f = ''urn:staged:'' @ cf_entityType f @ '':'' @ gen"

definition containment_id :: "string \<Rightarrow> creation_form \<Rightarrow> ident option" where
  "containment_id gen f = (if cf_parentUrn f = '''' then None else Some (''contains-'' @ cf_parentUrn f @ ''-'' @ temp_urn gen f))"

definition temp_node :: "string \<Rightarrow> creation_form \<Rightarrow> lineage_node" where
  "temp_node gen f =
     \<lparr>node_id = temp_urn gen f,
      node_data = [(''label'', JStr (cf_displayName f)), (''type'', JStr (cf_entityType f)), (''urn'', JStr (temp_urn gen f)),
        (''classifications'', JArr (map JStr (form_tags f))), (''isPending'', JStr ''create''), (''properties'', JObj (form_properties f))]\<rparr>"

definition temp_edges :: "string list \<Rightarrow> string \<Rightarrow> creation_form \<Rightarrow> lineage_edge list" where
  "temp_edges types gen f =
     (case containment_id gen f of
        None \<Rightarrow> []
      | Some i \<Rightarrow>
          (let t = (case types of [] \<Rightarrow> ''CONTAINS'' | t # _ \<Rightarrow> t)
           in [\<lparr>edge_id = i, edge_source = cf_parentUrn f, edge_target = temp_urn gen f,
                edge_data_of = Some \<lparr>d_edgeType = Some t, d_relationship = Some (toLowerCase t), d_confidence = None, d_isAggregated = False, d_edgeTypes = None\<rparr>\<rparr>]))"

definition create_request_of :: "creation_form \<Rightarrow> create_request" where
  "create_request_of f =
     \<lparr>cr_entityType = cf_entityType f, cr_displayName = cf_displayName f, cr_parentUrn = (if cf_parentUrn f = '''' then None else Some (cf_parentUrn f)),
      cr_properties = form_properties f, cr_tags = form_tags f\<rparr>"

definition made_node :: "created_node \<Rightarrow> lineage_node" where
  "made_node n =
     \<lparr>node_id = cn_urn n,
      node_data = [(''label'', JStr (cn_displayName n)), (''type'', JStr (cn_entityType n)), (''urn'', JStr (cn_urn n)),
        (''classifications'', JArr (map JStr (cn_tags n))), (''properties'', JObj (cn_properties n))]\<rparr>"

definition made_edge :: "graph_edge \<Rightarrow> lineage_edge" where
  "made_edge e =
     \<lparr>edge_id = ge_id e, edge_source = ge_sourceUrn e, edge_target = ge_targetUrn e,
      edge_data_of = Some \<lparr>d_edgeType = Some (ge_edgeType e), d_relationship = Some ''contains'', d_confidence = None, d_isAggregated = False, d_edgeTypes = None\<rparr>\<rparr>"

definition without_edge :: "ident option \<Rightarrow> canvas \<Rightarrow> canvas" where
  "without_edge i c = (case i of None \<Rightarrow> c | Some e \<Rightarrow> removeEdge e c)"

text \<open>Without a provider the creation is local.\<close>

definition create_apply :: "backend option \<Rightarrow> string \<Rightarrow> creation_form \<Rightarrow> edit_world apply_hook" where
  "create_apply provider gen f ctx =
     (case provider of
        None \<Rightarrow> (ctx\<lparr>world := on_canvas (clear_pending (temp_urn gen f)) (world ctx)\<rparr>, None)
      | Some bk \<Rightarrow>
          (let w = world ctx; req = create_request_of f; w1 = w\<lparr>ew_sent := ew_sent w @ [Sent_Create req]\<rparr>
           in case bk_create bk (ew_sent w) req of
                Create_Threw m \<Rightarrow> (ctx\<lparr>world := w1\<rparr>, Some m)
              | Create_Failed m \<Rightarrow> (ctx\<lparr>world := w1\<rparr>, Some (str_or m ''Failed to create entity''))
              | Created n e \<Rightarrow>
                  (ctx\<lparr>world := on_canvas (\<lambda>c. (case e of None \<Rightarrow> (\<lambda>c. c) | Some g \<Rightarrow> addEdges [made_edge g])
                        (addNodes [made_node n] (without_edge (containment_id gen f) (removeNode (temp_urn gen f) c)))) w1,
                     tempIdMap := mset_key (temp_urn gen f) (cn_urn n) (tempIdMap ctx)\<rparr>, None)))"

definition handleSubmit :: "backend option \<Rightarrow> string list \<Rightarrow> string \<Rightarrow> ident \<Rightarrow> int \<Rightarrow> creation_form \<Rightarrow> edits \<Rightarrow> string option \<times> edits" where
  "handleSubmit provider types gen cid now f st =
     (case st of (w, s) \<Rightarrow>
        if cf_entityType f = '''' then (Some ''Please select an entity type'', (w, s))
        else if trim (cf_displayName f) = '''' then (Some ''Please enter a display name'', (w, s))
        else (None,
          (on_canvas (\<lambda>c. (if temp_edges types gen f = [] then (\<lambda>c. c) else addEdges (temp_edges types gen f)) (addNodes [temp_node gen f] c)) w,
           snd (stage cid now (edit_input Create_entity (temp_urn gen f) (Some (temp_urn gen f)) None
             (JObj [(''entityType'', JStr (cf_entityType f)), (''displayName'', JStr (cf_displayName f)), (''parentUrn'', JStr (cf_parentUrn f))])
             (Some (create_apply provider gen f)) (\<lambda>c. removeNode (temp_urn gen f) (without_edge (containment_id gen f) c))) s))))"

section \<open>What is open above the canvas\<close>

record overlays =
  ov_contextMenu :: bool
  ov_inlineEdit :: "ident option"
  ov_quickCreate :: bool
  ov_commandPalette :: bool

datatype cancelled = Closed_Inline_Edit | Closed_Quick_Create | Closed_Palette | Closed_Menu | Exited_Trace | Closed_Edge_Panel | Closed_Drawer | Cleared_Selection

text \<open>Escape: the first of these that is open; the last four are what the callbacks answer.\<close>

definition onCancel :: "bool \<Rightarrow> bool \<Rightarrow> bool \<Rightarrow> overlays \<times> canvas \<Rightarrow> cancelled \<times> overlays \<times> canvas" where
  "onCancel exitTrace closeEdgePanel closeDrawer oc =
     (case oc of (ov, c) \<Rightarrow>
        if truthy (ov_inlineEdit ov) then (Closed_Inline_Edit, ov\<lparr>ov_inlineEdit := None\<rparr>, c)
        else if ov_quickCreate ov then (Closed_Quick_Create, ov\<lparr>ov_quickCreate := False\<rparr>, c)
        else if ov_commandPalette ov then (Closed_Palette, ov\<lparr>ov_commandPalette := False\<rparr>, c)
        else if ov_contextMenu ov then (Closed_Menu, ov\<lparr>ov_contextMenu := False\<rparr>, c)
        else if exitTrace then (Exited_Trace, ov, c)
        else if closeEdgePanel then (Closed_Edge_Panel, ov, c)
        else if closeDrawer then (Closed_Drawer, ov, c)
        else (Cleared_Selection, ov, clearSelection c))"

section \<open>Edits as events\<close>

datatype edit_event =
    Rename ident int ident string
  | Drawer_Save ident int bool jsobj
  | Delete_Node ident int ident
  | Delete_Edge ident int ident
  | Panel_Delete_Edge backend ident int lineage_edge
  | Reverse_Edge ident int ident
  | Create "backend option" "string list" string ident int creation_form
  | Duplicate_Node int ident
  | Undo_Edit
  | Discard_Edits
  | Save_Edits
  | Canvas_Action canvas_event

fun edits_step :: "edit_event \<Rightarrow> edits \<Rightarrow> edits" where
  "edits_step (Rename cid now nid v) st = saveInlineEdit cid now nid v st"
| "edits_step (Drawer_Save cid now err form) st = handleSave cid now err form st"
| "edits_step (Delete_Node cid now nid) st = deleteNode cid now nid st"
| "edits_step (Delete_Edge cid now eid) st = deleteEdge cid now eid st"
| "edits_step (Panel_Delete_Edge bk cid now e) st = stageEdgeDelete bk cid now e st"
| "edits_step (Reverse_Edge cid now eid) st = reverseEdge cid now eid st"
| "edits_step (Create provider types gen cid now f) st = snd (handleSubmit provider types gen cid now f st)"
| "edits_step (Duplicate_Node now nid) st = duplicateNode now nid st"
| "edits_step Undo_Edit st = snd (undo st)"
| "edits_step Discard_Edits st = discardAll st"
| "edits_step Save_Edits st = snd (applyAll st)"
| "edits_step (Canvas_Action e) st = (on_canvas (canvas_step e) (fst st), snd st)"

definition new_edits :: "canvas \<Rightarrow> edits" where
  "new_edits c = (\<lparr>ew_canvas = c, ew_sent = []\<rparr>, initial_staged)"

section \<open>Graphs up to the order of edges\<close>

definition same_graph :: "canvas \<Rightarrow> canvas \<Rightarrow> bool" where
  "same_graph a b \<longleftrightarrow> canvas_wf a \<and> canvas_wf b \<and> nodes a = nodes b \<and> set (edges a) = set (edges b)"

definition graph_hook :: "(canvas \<Rightarrow> canvas) \<Rightarrow> bool" where
  "graph_hook h \<longleftrightarrow> (\<forall>a b. same_graph a b \<longrightarrow> same_graph (h a) (h b))"

lemma same_graph_refl: "canvas_wf a \<Longrightarrow> same_graph a a"
  by (simp add: same_graph_def)

lemma same_graph_trans: "same_graph a b \<Longrightarrow> same_graph b c \<Longrightarrow> same_graph a c"
  by (simp add: same_graph_def)

lemma graph_hookD: "graph_hook h \<Longrightarrow> same_graph a b \<Longrightarrow> same_graph (h a) (h b)"
  by (simp add: graph_hook_def)

lemma graph_hook_comp: "graph_hook g \<Longrightarrow> graph_hook h \<Longrightarrow> graph_hook (\<lambda>c. g (h c))"
  by (simp add: graph_hook_def)

lemma graph_hook_id: "graph_hook (\<lambda>c. c)"
  by (simp add: graph_hook_def)

lemma graph_hookI:
  assumes "\<And>c. canvas_wf c \<Longrightarrow> canvas_wf (h c)"
    and "\<And>a b. same_graph a b \<Longrightarrow> nodes (h a) = nodes (h b) \<and> set (edges (h a)) = set (edges (h b))"
  shows "graph_hook h"
  using assms by (auto simp: graph_hook_def same_graph_def)

lemma updateNode_wf: "canvas_wf c \<Longrightarrow> canvas_wf (updateNode nid d c)"
  using canvas_wf_step [of c "UpdateNode nid d"] by simp

lemma removeEdge_parts: "edges (removeEdge i c) = filter (\<lambda>x. edge_id x \<noteq> i) (edges c)" "nodes (removeEdge i c) = nodes c" "edgeIndex (removeEdge i c) = edgeIndex c - {i}"
  by (simp_all add: removeEdge_def)

lemma removeEdge_wf: "canvas_wf c \<Longrightarrow> canvas_wf (removeEdge i c)"
  using canvas_wf_step [of c "RemoveEdge i"] by simp

lemma removeNode_wf: "canvas_wf c \<Longrightarrow> canvas_wf (removeNode i c)"
  using canvas_wf_step [of c "RemoveNode i"] by simp

lemma graph_hook_updateNode: "graph_hook (updateNode nid d)"
  by (rule graph_hookI, erule updateNode_wf) (simp add: updateNode_def same_graph_def)

lemma clear_pending_wf: "canvas_wf c \<Longrightarrow> canvas_wf (clear_pending nid c)"
proof -
  have "map node_id (nodes (clear_pending nid c)) = map node_id (nodes c)" by (simp add: clear_pending_def)
  moreover from arg_cong [OF this, of set] have "node_id ` set (nodes (clear_pending nid c)) = node_id ` set (nodes c)" by simp
  ultimately show "canvas_wf c \<Longrightarrow> canvas_wf (clear_pending nid c)" by (simp add: canvas_wf_def) (simp add: clear_pending_def)
qed

lemma graph_hook_clear_pending: "graph_hook (clear_pending nid)"
  by (rule graph_hookI, erule clear_pending_wf) (simp add: clear_pending_def same_graph_def)

lemma graph_hook_addEdges: "graph_hook (addEdges [e])"
  by (rule graph_hookI, erule canvas_wf_addEdges) (auto simp: same_graph_def edge_collection.items_add fresh_items_def canvas_wf_def)

lemma graph_hook_removeEdge: "graph_hook (removeEdge i)"
  by (rule graph_hookI, erule removeEdge_wf) (simp add: removeEdge_def same_graph_def)

lemma graph_hook_removeNode: "graph_hook (removeNode i)"
  by (rule graph_hookI, erule removeNode_wf) (simp add: removeNode_def same_graph_def Let_def)

lemma graph_hook_without_edge: "graph_hook (without_edge i)"
  by (cases i) (simp_all add: without_edge_def [abs_def] graph_hook_id graph_hook_removeEdge)

section \<open>What is staged takes the edit back\<close>

definition hook_ok :: "edit_world staged_change \<Rightarrow> bool" where
  "hook_ok c \<longleftrightarrow> ch_type c \<noteq> Create_edge \<and> (\<exists>h. ch_discard c = Some (on_canvas h) \<and> graph_hook h)"

definition edits_inv :: "canvas \<Rightarrow> edits \<Rightarrow> bool" where
  "edits_inv c0 st \<longleftrightarrow> canvas_wf (ew_canvas (fst st)) \<and> (\<forall>c \<in> set (changes (snd st)). hook_ok c)
     \<and> same_graph (ew_canvas (fold run_discard (rev (changes (snd st))) (fst st))) c0"

lemma canvas_on_canvas [simp]: "ew_canvas (on_canvas h w) = h (ew_canvas w)"
  by (simp add: on_canvas_def)

lemma run_discards_same:
  "list_all hook_ok cs \<Longrightarrow> same_graph (ew_canvas a) (ew_canvas b)
     \<Longrightarrow> same_graph (ew_canvas (fold run_discard cs a)) (ew_canvas (fold run_discard cs b))"
proof (induction cs arbitrary: a b)
  case (Cons c cs)
  then show ?case by (auto simp: hook_ok_def run_discard_def dest: graph_hookD)
qed simp

lemma inv_same_canvas:
  assumes "edits_inv c0 (w, s)" and "same_graph (ew_canvas w') (ew_canvas w)"
  shows "edits_inv c0 (w', s)"
  using assms run_discards_same [of "rev (changes s)" w' w] by (auto simp: edits_inv_def same_graph_def list_all_iff)

lemma inv_staged:
  assumes "edits_inv c0 (w, s)" and "canvas_wf (f (ew_canvas w))" and "same_graph (h (f (ew_canvas w))) (ew_canvas w)" and "graph_hook h" and "t \<noteq> Create_edge"
  shows "edits_inv c0 (on_canvas f w, snd (stage cid now (edit_input t target u b a ap h) s))"
proof -
  let ?w = "on_canvas f w" let ?c = "new_change cid now (edit_input t target u b a ap h)"
  have "same_graph (ew_canvas (run_discard ?c ?w)) (ew_canvas w)" using assms(3) by (simp add: run_discard_def new_change_def edit_input_def)
  then have "same_graph (ew_canvas (fold run_discard (rev (changes s)) (run_discard ?c ?w))) c0"
    using assms(1) run_discards_same [of "rev (changes s)" "run_discard ?c ?w" w] by (auto simp: edits_inv_def list_all_iff intro: same_graph_trans)
  moreover have "hook_ok ?c" using assms(4,5) by (auto simp: hook_ok_def new_change_def edit_input_def)
  ultimately show ?thesis using assms(1,2) by (auto simp: edits_inv_def stage_def)
qed


section \<open>Every edit is taken back by its hook\<close>

lemma find_by_id:
  assumes "distinct (map f xs)" and "find_first (\<lambda>x. f x = i) xs = Some a"
  shows "a \<in> set xs" and "f a = i" and "x \<in> set xs \<Longrightarrow> f x = i \<Longrightarrow> x = a"
  using assms find_first_Some [OF assms(2)] by (auto simp: distinct_map dest: inj_onD)

lemma update_back:
  assumes wf: "canvas_wf c" and n: "find_node nid c = Some n" and undo_it: "g (spread (node_data n) d) = node_data n"
    and h: "\<And>c. h c = commit GraphKeys c (c\<lparr>nodes := map (\<lambda>n. if node_id n = nid then n\<lparr>node_data := g (node_data n)\<rparr> else n) (nodes c)\<rparr>)"
    and "canvas_wf (h (updateNode nid d c))"
  shows "same_graph (h (updateNode nid d c)) c"
proof -
  have dist: "distinct (map node_id (nodes c))" using wf by (simp add: canvas_wf_def)
  have "x\<lparr>node_data := g (spread (node_data x) d)\<rparr> = x" if "x \<in> set (nodes c)" "node_id x = nid" for x
    using find_by_id(3) [OF dist n [unfolded find_node_def] that] undo_it by simp
  then have "nodes (h (updateNode nid d c)) = nodes c" unfolding h by (simp add: updateNode_def map_idI)
  moreover have "edges (h (updateNode nid d c)) = edges c" unfolding h by (simp add: updateNode_def)
  ultimately show ?thesis using wf assms(5) by (simp add: same_graph_def)
qed

lemma update_same: "mget m k = Some v \<Longrightarrow> mset_key k v m = m"
  by (induction m) auto

lemma delete_new: "mget m k = None \<Longrightarrow> mdel k (mset_key k v m) = m"
  by (induction m) (auto simp: AList.delete_eq filter_id_conv split: if_splits)

lemma spread_keys: "fst ` set f \<subseteq> fst ` set d \<Longrightarrow> map fst (spread d f) = map fst d"
proof (induction f arbitrary: d)
  case (Cons p f)
  obtain k v where p: "p = (k, v)" by (cases p)
  have "mget d k \<noteq> None" using Cons.prems p by (simp add: map_of_eq_None_iff)
  then have keys: "map fst (mset_key k v d) = map fst d" by (induction d) auto
  from arg_cong [OF this, of set] have "fst ` set (mset_key k v d) = fst ` set d" by simp
  with Cons keys p show ?case by (simp add: spread_def)
qed simp

lemma same_map_same_list: "map fst a = map fst b \<Longrightarrow> distinct (map fst b) \<Longrightarrow> (\<And>k. mget a k = mget b k) \<Longrightarrow> a = b"
proof (induction b arbitrary: a)
  case (Cons p b)
  obtain q a' where a: "a = q # a'" "fst q = fst p" "map fst a' = map fst b" using Cons.prems(1) by (cases a) auto
  have "mget a' k = mget b k" for k
  proof (cases "k = fst p")
    case True
    with Cons.prems(2) a(3) have "k \<notin> set (map fst a')" "k \<notin> set (map fst b)" by simp_all
    then show ?thesis by (simp add: map_of_eq_None_iff [THEN iffD2])
  next
    case False
    with Cons.prems(3) [of k] a show ?thesis by (cases p, cases q) auto
  qed
  with Cons.IH [of a'] Cons.prems(2) a have "a' = b" by simp
  moreover have "snd q = snd p" using Cons.prems(3) [of "fst p"] a by (cases p, cases q) auto
  ultimately show ?case using a by (simp add: prod_eq_iff)
qed simp

lemma spread_spread_back:
  assumes "jsm_ok d" and "jsm_ok f" and "fst ` set f \<subseteq> fst ` set d"
  shows "spread (spread d f) d = d"
proof (rule same_map_same_list)
  have keys: "map fst (spread d f) = map fst d" by (rule spread_keys [OF assms(3)])
  from arg_cong [OF this, of set] have "fst ` set (spread d f) = fst ` set d" by simp
  then show "map fst (spread (spread d f) d) = map fst d" using spread_keys [of d "spread d f"] keys by simp
  show "distinct (map fst d)" using assms(1) by (simp add: jsm_ok_def)
  have rev: "mget (rev d) = mget d" using assms(1) by (simp add: jsm_ok_def map_of_rev_distinct)
  have "fst ` set f \<subseteq> fst ` set d" by (rule assms(3))
  then have "mget d k = None \<Longrightarrow> mget (rev f) k = None" for k by (simp add: map_of_eq_None_iff) blast
  then show "mget (spread (spread d f) d) k = mget d k" for k by (auto simp: mget_spread rev split: option.split)
qed

lemma edge_by_id: "canvas_wf c \<Longrightarrow> e \<in> set (edges c) \<Longrightarrow> e' \<in> set (edges c) \<Longrightarrow> edge_id e = edge_id e' \<Longrightarrow> e = e'"
  unfolding canvas_wf_def distinct_map by (blast dest: inj_onD)

lemma others_of_edge:
  assumes "canvas_wf c" and "e \<in> set (edges c)"
  shows "set (filter (\<lambda>x. edge_id x \<noteq> edge_id e) (edges c)) = set (edges c) - {e}"
  using edge_by_id [OF assms(1) _ assms(2)] by (auto simp: set_eq_iff)

lemma restore_edge:
  assumes wf: "canvas_wf c" and e: "e \<in> set (edges c)" and wf': "canvas_wf c'"
    and "nodes c' = nodes c" and "set (edges c') = set (edges c) - {e}"
  shows "same_graph (addEdges [e] c') c"
proof -
  have "edge_id e \<notin> edge_id ` (set (edges c) - {e})" using edge_by_id [OF wf e] by auto
  then have "edge_id e \<notin> edgeIndex c'" using wf' assms(5) by (simp add: canvas_wf_def)
  then have "set (edges (addEdges [e] c')) = set (edges c)" using e assms(5) by (auto simp: edge_collection.items_add fresh_items_def)
  with assms canvas_wf_addEdges [OF wf', of "[e]"] show ?thesis by (simp add: same_graph_def)
qed

lemma delete_edge_back:
  assumes "canvas_wf c" and "e \<in> set (edges c)"
  shows "same_graph (addEdges [e] (removeEdge (edge_id e) c)) c"
  using others_of_edge [OF assms] by (intro restore_edge assms removeEdge_wf) (simp_all add: removeEdge_parts)

lemma reverse_edge_back:
  assumes wf: "canvas_wf c" and e: "e \<in> set (edges c)" and new: "reversed_id (edge_id e) \<notin> edgeIndex c"
  shows "same_graph (addEdges [e] (removeEdge (reversed_id (edge_id e)) (addEdges [reversed e] (removeEdge (edge_id e) c)))) c"
proof (rule restore_edge [OF wf e])
  let ?c1 = "removeEdge (edge_id e) c" let ?c2 = "addEdges [reversed e] ?c1"
  have c1: "canvas_wf ?c1" "edges ?c1 = filter (\<lambda>x. edge_id x \<noteq> edge_id e) (edges c)" "edgeIndex ?c1 = edgeIndex c - {edge_id e}" "nodes ?c1 = nodes c"
    using removeEdge_wf [OF wf] by (simp_all add: removeEdge_parts)
  have c2: "edges ?c2 = edges ?c1 @ [reversed e]" using new by (simp add: edge_collection.items_add fresh_items_def c1(3) reversed_def)
  have "canvas_wf ?c2" using canvas_wf_addEdges [OF c1(1)] by simp
  then show "canvas_wf (removeEdge (reversed_id (edge_id e)) ?c2)" by (rule removeEdge_wf)
  have "\<forall>x \<in> set (edges c). edge_id x \<noteq> reversed_id (edge_id e)" using new wf unfolding canvas_wf_def by (metis imageI)
  then show "set (edges (removeEdge (reversed_id (edge_id e)) ?c2)) = set (edges c) - {e}"
    using others_of_edge [OF wf e] unfolding removeEdge_parts c2 c1(2) by (auto simp: reversed_def)
  show "nodes (removeEdge (reversed_id (edge_id e)) ?c2) = nodes c" by (simp add: removeEdge_parts)
qed

lemma create_back:
  assumes wf: "canvas_wf c" and wf': "canvas_wf c'" and "nodes c' = nodes c @ [n]" and "edges c' = edges c"
    and "node_id n \<notin> nodeIndex c" and "list_all (\<lambda>e. edge_source e \<noteq> node_id n \<and> edge_target e \<noteq> node_id n) (edges c)"
  shows "same_graph (removeNode (node_id n) c') c"
proof -
  have "\<forall>x \<in> set (nodes c). node_id x \<noteq> node_id n" using assms(5) wf unfolding canvas_wf_def by (metis imageI)
  then have "nodes (removeNode (node_id n) c') = nodes c" using assms(3) by (simp add: removeNode_def Let_def filter_id_conv)
  moreover have "edges (removeNode (node_id n) c') = edges c" using assms(4,6) by (simp add: removeNode_def Let_def filter_id_conv list_all_iff)
  ultimately show ?thesis using wf removeNode_wf [OF wf'] by (simp add: same_graph_def)
qed

section \<open>Discarding restores the graph\<close>

definition staged_as :: "change_type \<Rightarrow> ident \<Rightarrow> edits \<Rightarrow> bool" where
  "staged_as t i st \<longleftrightarrow> list_ex (same_target t i) (changes (snd st))"

text \<open>
  When an edit can be taken back: no second rename of a node and no second change of its fields; a form with
  fields the node has; a node that is not marked and was not just created; an edge of the canvas; a reversed
  edge or a created entity with new ids. A copy is not staged, and what was saved is not discarded.
\<close>

fun can_take_back :: "edit_event \<Rightarrow> edits \<Rightarrow> bool" where
  "can_take_back (Rename cid now nid v) st \<longleftrightarrow>
     (case find_node nid (ew_canvas (fst st)) of None \<Rightarrow> False | Some n \<Rightarrow> str_field (node_data n) ''label'' \<noteq> None) \<and> \<not> staged_as Rename_entity nid st"
| "can_take_back (Drawer_Save cid now err form) st \<longleftrightarrow>
     (case drawer_node (ew_canvas (fst st)) of
        None \<Rightarrow> True
      | Some n \<Rightarrow> jsm_ok (node_data n) \<and> jsm_ok form \<and> list_all (\<lambda>p. mhas (node_data n) (fst p)) form
          \<and> \<not> staged_as Rename_entity (node_id n) st \<and> \<not> staged_as Update_entity (node_id n) st)"
| "can_take_back (Delete_Node cid now nid) st \<longleftrightarrow>
     (case find_node nid (ew_canvas (fst st)) of None \<Rightarrow> True | Some n \<Rightarrow> mget (node_data n) ''isPending'' = None \<and> \<not> staged_as Create_entity nid st)"
| "can_take_back (Delete_Edge cid now eid) st \<longleftrightarrow> True"
| "can_take_back (Panel_Delete_Edge bk cid now e) st \<longleftrightarrow> e \<in> set (edges (ew_canvas (fst st)))"
| "can_take_back (Reverse_Edge cid now eid) st \<longleftrightarrow> reversed_id eid \<notin> edgeIndex (ew_canvas (fst st))"
| "can_take_back (Create provider types gen cid now f) st \<longleftrightarrow>
     temp_urn gen f \<notin> nodeIndex (ew_canvas (fst st))
     \<and> list_all (\<lambda>e. edge_source e \<noteq> temp_urn gen f \<and> edge_target e \<noteq> temp_urn gen f \<and> Some (edge_id e) \<noteq> containment_id gen f) (edges (ew_canvas (fst st)))"
| "can_take_back (Duplicate_Node now nid) st \<longleftrightarrow> False"
| "can_take_back Undo_Edit st \<longleftrightarrow> True"
| "can_take_back Discard_Edits st \<longleftrightarrow> True"
| "can_take_back Save_Edits st \<longleftrightarrow> False"
| "can_take_back (Canvas_Action e) st \<longleftrightarrow> view_event e"

lemma no_changes:
  assumes "changed_fields p f = []"
  shows "mget p k = mget f k"
proof (cases "k \<in> set (map fst p) \<union> set (map fst f)")
  case True
  then show ?thesis using assms by (auto simp: changed_fields_def filter_empty_conv)
next
  case False
  then have "mget p k = None" "mget f k = None" by (simp_all add: map_of_eq_None_iff)
  then show ?thesis by simp
qed

lemma not_staged_as: "\<not> staged_as t i st \<Longrightarrow> find_first (same_target t i) (changes (snd st)) = None"
  by (auto simp: staged_as_def find_first_None list_ex_iff)

lemma not_staged_stages: "\<not> staged_as t i st \<Longrightarrow> stageOrReplace cid now (same_target t i) a (snd st) = stage cid now a (snd st)"
  by (simp add: stageOrReplace_def not_staged_as)

lemma same_node_data: "x\<lparr>node_data := f (node_data x)\<rparr> = x \<longleftrightarrow> f (node_data x) = node_data x"
  by (cases x) simp

lemma updateNode_same: "canvas_wf c \<Longrightarrow> find_node nid c = Some n \<Longrightarrow> spread (node_data n) d = node_data n \<Longrightarrow> same_graph (updateNode nid d c) c"
  using updateNode_wf [of c nid d] find_by_id(3) [of node_id "nodes c" nid n]
  by (auto simp: same_graph_def find_node_def canvas_wf_def updateNode_def same_node_data intro!: map_idI)

lemma updateNode_back:
  "canvas_wf c \<Longrightarrow> find_node nid c = Some n \<Longrightarrow> spread (spread (node_data n) d) d' = node_data n
     \<Longrightarrow> same_graph (updateNode nid d' (updateNode nid d c)) c"
  by (rule update_back [where g = "\<lambda>m. spread m d'" and h = "updateNode nid d'"], assumption+, simp only: updateNode_def, intro updateNode_wf)

lemma clear_pending_back:
  "canvas_wf c \<Longrightarrow> find_node nid c = Some n \<Longrightarrow> mget (node_data n) ''isPending'' = None
     \<Longrightarrow> same_graph (clear_pending nid (updateNode nid [(''isPending'', v)] c)) c"
  by (rule update_back [where g = "mdel ''isPending''" and h = "clear_pending nid"], assumption+)
     (simp add: spread_def delete_new, simp only: clear_pending_def, intro clear_pending_wf updateNode_wf)

lemma inv_wf: "edits_inv c0 (w, s) \<Longrightarrow> canvas_wf (ew_canvas w)"
  by (simp add: edits_inv_def)

lemma inv_no_created_edge: "edits_inv c0 (w, s) \<Longrightarrow> find_first (same_target Create_edge i) (changes s) = None"
  by (auto simp: edits_inv_def hook_ok_def find_first_None same_target_def)

lemma inv_rename:
  assumes "edits_inv c0 (w, s)" and "can_take_back (Rename cid now nid v) (w, s)"
  shows "edits_inv c0 (saveInlineEdit cid now nid v (w, s))"
proof -
  obtain n l where n: "find_node nid (ew_canvas w) = Some n" and l: "mget (node_data n) ''label'' = Some (JStr l)"
    using assms(2) by (auto simp: str_field_def split: option.splits json.splits)
  have "spread (spread (node_data n) [(''label'', JStr v)]) [(''label'', JStr l)] = node_data n" by (simp add: spread_def update_same [OF l])
  from inv_staged [where f = "updateNode nid [(''label'', JStr v)]" and h = "updateNode nid [(''label'', JStr l)]", OF assms(1) updateNode_wf [OF inv_wf [OF assms(1)]] updateNode_back [OF inv_wf [OF assms(1)] n this] graph_hook_updateNode]
  have "edits_inv c0 (on_canvas (updateNode nid [(''label'', JStr v)]) w, snd (stage cid now (edit_input Rename_entity nid u b a None (updateNode nid [(''label'', JStr l)])) s))" for u b a
    by simp
  moreover have "stageOrReplace cid now (same_target Rename_entity nid) a s = stage cid now a s" for a
    using not_staged_stages [of Rename_entity nid "(w, s)"] assms(2) by simp
  ultimately show ?thesis using assms(1) n l by (simp add: saveInlineEdit_def data_str_def str_field_def Let_def)
qed

lemma inv_drawer:
  assumes "edits_inv c0 (w, s)" and "can_take_back (Drawer_Save cid now err form) (w, s)"
  shows "edits_inv c0 (handleSave cid now err form (w, s))"
proof (cases "drawer_node (ew_canvas w)")
  case (Some n)
  then have n: "find_node (node_id n) (ew_canvas w) = Some n"
    by (auto simp: drawer_node_def find_node_def split: option.splits if_splits dest: find_first_Some)
  have ok: "jsm_ok (node_data n)" "jsm_ok form" and keys: "fst ` set form \<subseteq> fst ` set (node_data n)"
    and new: "\<not> staged_as Rename_entity (node_id n) (w, s)" "\<not> staged_as Update_entity (node_id n) (w, s)"
    using assms(2) Some by (auto simp: list_all_iff map_of_eq_None_iff)
  have again: "same_graph (updateNode (node_id n) (node_data n) (updateNode (node_id n) form (ew_canvas w))) (ew_canvas w)"
    by (rule updateNode_back [OF inv_wf [OF assms(1)] n spread_spread_back [OF ok keys]])
  have same: "same_graph (updateNode (node_id n) form (ew_canvas w)) (ew_canvas w)" if none: "changed_fields (node_data n) form = []"
  proof (rule updateNode_same [OF inv_wf [OF assms(1)] n], rule same_map_same_list)
    show "map fst (spread (node_data n) form) = map fst (node_data n)" by (rule spread_keys [OF keys])
    show "distinct (map fst (node_data n))" using ok(1) by (simp add: jsm_ok_def)
    have "mget (rev form) k = mget (node_data n) k" for k
      using no_changes [OF none] map_of_rev_distinct [of form] ok(2) by (simp add: jsm_ok_def)
    then show "mget (spread (node_data n) form) k = mget (node_data n) k" for k by (simp add: mget_spread split: option.split)
  qed
  show ?thesis
  proof (cases "err \<or> changed_fields (node_data n) form = []")
    case True
    then show ?thesis using assms(1) Some same by (auto simp: handleSave_def Let_def intro: inv_same_canvas)
  next
    case False
    have "edits_inv c0 (on_canvas (updateNode (node_id n) form) w, snd (stage cid now (edit_input t (node_id n) u b a ap (updateNode (node_id n) (node_data n))) s))"
      if "t \<noteq> Create_edge" for t u b a ap
      by (rule inv_staged [where f = "updateNode (node_id n) form" and h = "updateNode (node_id n) (node_data n)", OF assms(1) updateNode_wf [OF inv_wf [OF assms(1)]] again graph_hook_updateNode that])
    moreover have "stageOrReplace cid now (same_target t (node_id n)) a s = stage cid now a s" if "t = Rename_entity \<or> t = Update_entity" for t a
      using not_staged_stages [of t "node_id n" "(w, s)"] new that by auto
    ultimately show ?thesis using False Some by (simp add: handleSave_def Let_def)
  qed
qed (use assms in \<open>simp add: handleSave_def\<close>)

lemma inv_delete_node:
  assumes "edits_inv c0 (w, s)" and "can_take_back (Delete_Node cid now nid) (w, s)"
  shows "edits_inv c0 (deleteNode cid now nid (w, s))"
proof (cases "find_node nid (ew_canvas w)")
  case (Some n)
  have "mget (node_data n) ''isPending'' = None" using assms(2) Some by simp
  from inv_staged [where f = "updateNode nid [(''isPending'', JStr ''delete'')]" and h = "clear_pending nid", OF assms(1) updateNode_wf [OF inv_wf [OF assms(1)]] clear_pending_back [OF inv_wf [OF assms(1)] Some this] graph_hook_clear_pending]
  have "edits_inv c0 (on_canvas (updateNode nid [(''isPending'', JStr ''delete'')]) w, snd (stage cid now (edit_input Delete_entity nid u b a ap (clear_pending nid)) s))" for u b a ap
    by simp
  moreover have "find_first (same_target Create_entity nid) (changes s) = None"
    using not_staged_as [of Create_entity nid "(w, s)"] assms(2) Some by simp
  ultimately show ?thesis using Some by (simp add: deleteNode_def)
qed (use assms in \<open>simp add: deleteNode_def\<close>)

lemma find_edge_in: "find_edge i c = Some e \<Longrightarrow> e \<in> set (edges c) \<and> edge_id e = i"
  by (auto simp: find_edge_def dest: find_first_Some)

lemma inv_delete_edge:
  assumes "edits_inv c0 (w, s)"
  shows "edits_inv c0 (deleteEdge cid now eid (w, s))"
proof (cases "find_edge eid (ew_canvas w)")
  case (Some e)
  have "same_graph (addEdges [e] (removeEdge eid (ew_canvas w))) (ew_canvas w)"
    using delete_edge_back [OF inv_wf [OF assms], of e] find_edge_in [OF Some] by simp
  from inv_staged [where f = "removeEdge eid" and h = "addEdges [e]", OF assms removeEdge_wf [OF inv_wf [OF assms]] this graph_hook_addEdges]
  have "edits_inv c0 (on_canvas (removeEdge eid) w, snd (stage cid now (edit_input Delete_edge eid u b a ap (addEdges [e])) s))" for u b a ap by simp
  then show ?thesis by (simp add: deleteEdge_def Some inv_no_created_edge [OF assms])
qed (use assms in \<open>simp add: deleteEdge_def\<close>)

lemma inv_panel_delete:
  assumes "edits_inv c0 (w, s)" and "e \<in> set (edges (ew_canvas w))"
  shows "edits_inv c0 (stageEdgeDelete bk cid now e (w, s))"
  unfolding stageEdgeDelete_def prod.case
  by (rule inv_staged [where f = "removeEdge (edge_id e)" and h = "addEdges [e]", OF assms(1) removeEdge_wf [OF inv_wf [OF assms(1)]] delete_edge_back [OF inv_wf [OF assms(1)] assms(2)] graph_hook_addEdges]) simp

lemma inv_reverse:
  assumes "edits_inv c0 (w, s)" and "can_take_back (Reverse_Edge cid now eid) (w, s)"
  shows "edits_inv c0 (reverseEdge cid now eid (w, s))"
proof (cases "find_edge eid (ew_canvas w)")
  case (Some e)
  have wf: "canvas_wf (addEdges [reversed e] (removeEdge eid (ew_canvas w)))"
    by (intro canvas_wf_addEdges removeEdge_wf inv_wf [OF assms(1)]) simp
  have new: "reversed_id eid \<notin> edgeIndex (ew_canvas w)" using assms(2) by (simp only: can_take_back.simps fst_conv not_False_eq_True)
  have e: "e \<in> set (edges (ew_canvas w))" and i: "edge_id e = eid" using find_edge_in [OF Some] by blast+
  from reverse_edge_back [OF inv_wf [OF assms(1)] e] new
  have same: "same_graph (addEdges [e] (removeEdge (reversed_id eid) (addEdges [reversed e] (removeEdge eid (ew_canvas w))))) (ew_canvas w)" by (simp only: i not_False_eq_True)
  have "graph_hook (\<lambda>c. addEdges [e] (removeEdge (reversed_id eid) c))" by (rule graph_hook_comp [OF graph_hook_addEdges graph_hook_removeEdge])
  from inv_staged [where f = "\<lambda>c. addEdges [reversed e] (removeEdge eid c)" and h = "\<lambda>c. addEdges [e] (removeEdge (reversed_id eid) c)", OF assms(1) wf same this]
  have "edits_inv c0 (on_canvas (\<lambda>c. addEdges [reversed e] (removeEdge eid c)) w, snd (stage cid now (edit_input Reverse_edge (reversed_id eid) None u a None
      (\<lambda>c. addEdges [e] (removeEdge (reversed_id eid) c))) s))" for u a
    by simp
  then show ?thesis using Some by (simp add: reverseEdge_def)
qed (use assms in \<open>simp add: reverseEdge_def\<close>)

lemma temp_node_id [simp]: "node_id (temp_node gen f) = temp_urn gen f"
  by (simp add: temp_node_def)

definition put_temp :: "string list \<Rightarrow> string \<Rightarrow> creation_form \<Rightarrow> canvas \<Rightarrow> canvas" where
  "put_temp types gen f c = (if temp_edges types gen f = [] then (\<lambda>c. c) else addEdges (temp_edges types gen f)) (addNodes [temp_node gen f] c)"

lemma put_temp_wf: "canvas_wf c \<Longrightarrow> canvas_wf (put_temp types gen f c)"
  using canvas_wf_addNodes [of c "[temp_node gen f]"] canvas_wf_addEdges [of "addNodes [temp_node gen f] c" "temp_edges types gen f"]
  by (auto simp: put_temp_def temp_edges_def Let_def split: option.split)

lemma without_temp:
  assumes wf: "canvas_wf c" and new: "temp_urn gen f \<notin> nodeIndex c"
    and free: "list_all (\<lambda>e. Some (edge_id e) \<noteq> containment_id gen f) (edges c)"
  shows "nodes (without_edge (containment_id gen f) (put_temp types gen f c)) = nodes c @ [temp_node gen f]"
    and "edges (without_edge (containment_id gen f) (put_temp types gen f c)) = edges c"
proof -
  have n: "nodes (addNodes [temp_node gen f] c) = nodes c @ [temp_node gen f]" using new by (simp add: node_collection.items_add fresh_items_def)
  have "nodes (without_edge (containment_id gen f) (put_temp types gen f c)) = nodes c @ [temp_node gen f]
     \<and> edges (without_edge (containment_id gen f) (put_temp types gen f c)) = edges c"
  proof (cases "containment_id gen f")
    case None
    then show ?thesis by (simp add: put_temp_def temp_edges_def without_edge_def n)
  next
    case (Some i)
    have ids: "edge_id e \<noteq> i" if "e \<in> set (edges c)" for e using free Some that by (auto simp: list_all_iff)
    moreover have "edge_id e = i" if "e \<in> set (temp_edges types gen f)" for e using Some that by (simp add: temp_edges_def Let_def)
    ultimately show ?thesis using Some
      by (auto simp: put_temp_def without_edge_def removeEdge_parts n edge_collection.items_add fresh_items_def filter_id_conv filter_empty_conv)
  qed
  then show "nodes (without_edge (containment_id gen f) (put_temp types gen f c)) = nodes c @ [temp_node gen f]"
    and "edges (without_edge (containment_id gen f) (put_temp types gen f c)) = edges c" by simp_all
qed

lemma without_edge_wf: "canvas_wf c \<Longrightarrow> canvas_wf (without_edge i c)"
  by (cases i) (simp_all add: without_edge_def removeEdge_wf)

lemma inv_create:
  assumes "edits_inv c0 (w, s)" and "can_take_back (Create provider types gen cid now f) (w, s)"
  shows "edits_inv c0 (snd (handleSubmit provider types gen cid now f (w, s)))"
proof -
  let ?h = "\<lambda>c. removeNode (temp_urn gen f) (without_edge (containment_id gen f) c)"
  have wf: "canvas_wf (ew_canvas w)" by (rule inv_wf [OF assms(1)])
  have new: "temp_urn gen f \<notin> nodeIndex (ew_canvas w)"
    and free: "list_all (\<lambda>e. Some (edge_id e) \<noteq> containment_id gen f) (edges (ew_canvas w))"
    and untouched: "list_all (\<lambda>e. edge_source e \<noteq> node_id (temp_node gen f) \<and> edge_target e \<noteq> node_id (temp_node gen f)) (edges (ew_canvas w))"
    using assms(2) by (simp_all add: list_all_iff)
  have "same_graph (removeNode (node_id (temp_node gen f)) (without_edge (containment_id gen f) (put_temp types gen f (ew_canvas w)))) (ew_canvas w)"
    by (rule create_back [OF wf without_edge_wf [OF put_temp_wf [OF wf]] without_temp [OF wf new free] _ untouched]) (simp add: new)
  then have same: "same_graph (?h (put_temp types gen f (ew_canvas w))) (ew_canvas w)" by simp
  have "graph_hook ?h" by (rule graph_hook_comp [OF graph_hook_removeNode graph_hook_without_edge])
  from inv_staged [where f = "put_temp types gen f" and h = ?h, OF assms(1) put_temp_wf [OF wf] same this]
  have "edits_inv c0 (on_canvas (put_temp types gen f) w, snd (stage cid now (edit_input Create_entity u t b a ap ?h) s))" for u t b a ap by simp
  then show ?thesis using assms(1) by (simp add: handleSubmit_def put_temp_def [abs_def])
qed

lemma inv_undo: "edits_inv c0 (w, s) \<Longrightarrow> edits_inv c0 (snd (undo (w, s)))"
proof (cases "changes s" rule: rev_cases)
  case (snoc cs c)
  assume inv: "edits_inv c0 (w, s)"
  then have "hook_ok c" using snoc by (simp add: edits_inv_def)
  then obtain h where "ch_discard c = Some (on_canvas h)" "graph_hook h" by (auto simp: hook_ok_def)
  then have "canvas_wf (ew_canvas (run_discard c w))"
    using inv_wf [OF inv] graph_hookD [of h "ew_canvas w" "ew_canvas w"] by (simp add: run_discard_def same_graph_def)
  with inv snoc show ?thesis by (simp add: edits_inv_def undo_def Let_def)
qed (simp add: undo_def)

lemma inv_discardAll: "edits_inv c0 (w, s) \<Longrightarrow> edits_inv c0 (discardAll (w, s))"
  by (simp add: edits_inv_def discardAll_def same_graph_def)

lemma inv_view:
  assumes "edits_inv c0 (w, s)" and "view_event e"
  shows "edits_inv c0 (on_canvas (canvas_step e) w, s)"
proof (rule inv_same_canvas [OF assms(1)])
  have same: "graph_of (canvas_step e (ew_canvas w)) = graph_of (ew_canvas w)" by (rule view_event_graph [OF assms(2)])
  have "canvas_wf (canvas_step e (ew_canvas w))" using canvas_wf_cong [OF same] inv_wf [OF assms(1)] by blast
  then show "same_graph (ew_canvas (on_canvas (canvas_step e) w)) (ew_canvas w)"
    using same inv_wf [OF assms(1)] unfolding same_graph_def canvas_on_canvas graph_of_def by (simp only: prod.inject simp_thms)
qed

lemma inv_step: "edits_inv c0 st \<Longrightarrow> can_take_back e st \<Longrightarrow> edits_inv c0 (edits_step e st)"
  using inv_rename inv_drawer inv_delete_node inv_delete_edge inv_panel_delete inv_reverse inv_create inv_undo inv_discardAll inv_view
  by (cases st; cases e) (simp_all del: can_take_back.simps, simp_all)

lemma inv_run:
  assumes "edits_inv c0 st" and "\<And>fs e gs. es = fs @ e # gs \<Longrightarrow> can_take_back e (run edits_step fs st)"
  shows "edits_inv c0 (run edits_step es st)"
  using assms
proof (induction es arbitrary: st)
  case (Cons e es)
  have "edits_inv c0 (edits_step e st)" using inv_step [OF Cons.prems(1)] Cons.prems(2) [of "[]" e es] by simp
  moreover have "can_take_back e' (run edits_step fs (edits_step e st))" if "es = fs @ e' # gs" for fs e' gs
    using Cons.prems(2) [of "e # fs" e' gs] that by simp
  ultimately show ?case using Cons.IH by simp
qed simp

text \<open>
  C7: through every history of renames, edits of fields, deletions, reversals, creations, undos and discards
  that can be taken back, discarding everything that is staged restores the graph of the canvas: the nodes with
  their data and order, and the same edges, each once, whatever their order.
\<close>

theorem discarding_restores_the_graph:
  assumes "canvas_wf c" and "\<And>fs e gs. es = fs @ e # gs \<Longrightarrow> can_take_back e (run edits_step fs (new_edits c))"
    and "discardAll (run edits_step es (new_edits c)) = (w, s)"
  shows "nodes (ew_canvas w) = nodes c \<and> mset (edges (ew_canvas w)) = mset (edges c) \<and> changes s = []"
proof -
  have "edits_inv c (new_edits c)" using assms(1) by (simp add: edits_inv_def new_edits_def initial_staged_def same_graph_refl)
  then have "edits_inv c (run edits_step es (new_edits c))" by (rule inv_run) (rule assms(2))
  then have "edits_inv c (w, s)" unfolding assms(3) [symmetric] by (metis prod.collapse inv_discardAll)
  moreover have "changes s = []" using assms(3) by (cases "run edits_step es (new_edits c)") (auto simp: discardAll_def)
  ultimately have same: "same_graph (ew_canvas w) c" by (simp add: edits_inv_def)
  then have "mset (edges (ew_canvas w)) = mset (edges c)"
    using set_eq_iff_mset_eq_distinct [of "edges (ew_canvas w)" "edges c"] by (simp add: same_graph_def canvas_wf_def distinct_map)
  with same \<open>changes s = []\<close> show ?thesis by (simp add: same_graph_def)
qed

definition sample_canvas :: canvas where
  "sample_canvas = setGraph
     [\<lparr>node_id = ''a'', node_data = [(''label'', JStr ''A''), (''urn'', JStr ''a'')]\<rparr>, \<lparr>node_id = ''b'', node_data = [(''label'', JStr ''B'')]\<rparr>]
     [\<lparr>edge_id = ''e'', edge_source = ''a'', edge_target = ''b'', edge_data_of = None\<rparr>,
      \<lparr>edge_id = ''f'', edge_source = ''b'', edge_target = ''a'', edge_data_of = None\<rparr>] initial_canvas"

definition sample_form :: creation_form where
  "sample_form = \<lparr>cf_entityType = ''table'', cf_displayName = ''T'', cf_description = '''', cf_parentUrn = ''a'', cf_tags = '' x, ,y'', cf_properties = []\<rparr>"

definition sample_edits :: "edit_event list" where
  "sample_edits = [Rename ''1'' 1 ''a'' ''A2'', Delete_Edge ''2'' 2 ''e'', Create None [] ''new'' ''3'' 3 sample_form, Delete_Node ''4'' 4 ''b'', Undo_Edit,
     Reverse_Edge ''5'' 5 ''f'', Delete_Node ''6'' 6 ''a'']"

lemma discarding_restores_the_graph_witness:
  "nodes (ew_canvas (fst (discardAll (run edits_step sample_edits (new_edits sample_canvas))))) = nodes sample_canvas"
proof -
  have "nodes (ew_canvas (fst (discardAll (run edits_step sample_edits (new_edits sample_canvas))))) = nodes sample_canvas
    \<and> mset (edges (ew_canvas (fst (discardAll (run edits_step sample_edits (new_edits sample_canvas)))))) = mset (edges sample_canvas)
    \<and> changes (snd (discardAll (run edits_step sample_edits (new_edits sample_canvas)))) = []"
  proof (rule discarding_restores_the_graph [OF _ _ prod.collapse [symmetric]])
    show "canvas_wf sample_canvas" unfolding sample_canvas_def by (rule canvas_wf_setGraph)
    fix fs e gs assume "sample_edits = fs @ e # gs"
    then show "can_take_back e (run edits_step fs (new_edits sample_canvas))"
      unfolding sample_edits_def by (elim all_steps_Cons [rotated 2] all_steps_Nil) code_simp+
  qed
  then show ?thesis by blast
qed

section \<open>Discards that do not restore\<close>

definition label_of :: "ident \<Rightarrow> edits \<Rightarrow> string option" where
  "label_of i st = data_str ''label'' (find_node i (ew_canvas (fst st)))"

text \<open>The hook of a replaced rename puts back the name of the first rename, not the original one the change keeps as \<open>before\<close>.\<close>

lemma renamed_twice_is_not_restored:
  "label_of ''a'' (run edits_step [Rename ''1'' 1 ''a'' ''A2'', Rename ''2'' 2 ''a'' ''A3'', Discard_Edits] (new_edits sample_canvas)) = Some ''A2''"
  by code_simp

text \<open>A field added in the drawer stays when the edit is discarded, and one removed there is not removed: the store merges.\<close>

definition drawer_on :: "ident \<Rightarrow> canvas" where
  "drawer_on i = openNodeDrawer i sample_canvas"

lemma added_field_survives_the_discard:
  "map_option (\<lambda>n. mget (node_data n) ''owner'')
     (find_node ''b'' (ew_canvas (fst (run edits_step [Drawer_Save ''1'' 1 False [(''label'', JStr ''B''), (''owner'', JStr ''me'')], Discard_Edits] (new_edits (drawer_on ''b''))))))
   = Some (Some (JStr ''me''))"
  by code_simp

lemma removed_field_stays:
  "(let st = run edits_step [Drawer_Save ''1'' 1 False [(''label'', JStr ''A'')]] (new_edits (drawer_on ''a''))
    in nodes (ew_canvas (fst st)) = nodes sample_canvas \<and> map ch_type (changes (snd st)) = [Update_entity])"
  by code_simp

text \<open>A node can be deleted twice; undoing the second deletion takes the mark away while the first is still staged.\<close>

lemma deleted_twice_loses_its_mark:
  "(let st = run edits_step [Delete_Node ''1'' 1 ''a'', Delete_Node ''2'' 2 ''a'', Undo_Edit] (new_edits sample_canvas)
    in nodes (ew_canvas (fst st)) = nodes sample_canvas \<and> map ch_type (changes (snd st)) = [Delete_entity])"
  by code_simp

text \<open>Discarding single changes of the review out of order: a reversal and the deletion of its result bring back both edges.\<close>

lemma out_of_order_discard_keeps_both:
  "map edge_id (edges (ew_canvas (fst (discard ''2'' (discard ''1''
      (run edits_step [Reverse_Edge ''1'' 1 ''e'', Delete_Edge ''2'' 2 ''e-reversed''] (new_edits sample_canvas))))))) = [''f'', ''e'', ''e-reversed'']"
  by code_simp

text \<open>A reversal into an id that is taken loses the edge, and its discard the other one.\<close>

lemma reversal_into_a_taken_id:
  "(let c = addEdges [\<lparr>edge_id = ''e-reversed'', edge_source = ''b'', edge_target = ''b'', edge_data_of = None\<rparr>] sample_canvas;
        ids = (\<lambda>st. map edge_id (edges (ew_canvas (fst st))))
    in ids (run edits_step [Reverse_Edge ''1'' 1 ''e''] (new_edits c)) = [''f'', ''e-reversed'']
       \<and> ids (run edits_step [Reverse_Edge ''1'' 1 ''e'', Discard_Edits] (new_edits c)) = [''f'', ''e''])"
  by code_simp

text \<open>A copy is not staged: no discard removes it and no save sends it.\<close>

lemma copies_are_not_staged:
  "(let st = run edits_step [Duplicate_Node 5 ''a'', Discard_Edits, Save_Edits] (new_edits sample_canvas)
    in map node_id (nodes (ew_canvas (fst st))) = [''a'', ''b'', ''a-copy-5''] \<and> ew_sent (fst st) = [] \<and> changes (snd st) = [])"
  by code_simp

text \<open>Selecting all toggles: what was selected is not afterwards.\<close>

lemma select_all_drops_the_selected:
  "selectedNodeIds (selectAll (selectNode ''a'' False sample_canvas)) = [''b'']"
  by code_simp

section \<open>What a save sends\<close>

text \<open>
  Of the staged edits only creations and the deletions in the panel of an edge talk to the backend. All
  others succeed in a save without a request.
\<close>

definition silent :: "edit_world staged_change \<Rightarrow> bool" where
  "silent c \<longleftrightarrow> (case ch_apply c of None \<Rightarrow> True | Some h \<Rightarrow> \<forall>ctx. snd (h ctx) = None \<and> ew_sent (world (fst (h ctx))) = ew_sent (world ctx))
     \<and> (\<exists>h. ch_discard c = Some (on_canvas h))"

fun local_edit :: "edit_event \<Rightarrow> bool" where
  "local_edit (Panel_Delete_Edge bk cid now e) = False"
| "local_edit (Create provider types gen cid now f) = False"
| "local_edit _ = True"

definition silent_inv :: "edits \<Rightarrow> bool" where
  "silent_inv st \<longleftrightarrow> ew_sent (fst st) = [] \<and> list_all silent (changes (snd st))"

lemma sent_on_canvas [simp]: "ew_sent (on_canvas h w) = ew_sent w"
  by (simp add: on_canvas_def)

lemma sent_run_discards: "list_all silent cs \<Longrightarrow> ew_sent (fold run_discard cs w) = ew_sent w"
  by (induction cs arbitrary: w) (auto simp: silent_def run_discard_def)

lemma silent_edit:
  "ap = None \<or> ap = Some (remove_node_apply i) \<or> ap = Some nothing_apply \<Longrightarrow> silent (new_change cid now (edit_input t target u b a ap h))"
  by (auto simp: silent_def new_change_def edit_input_def remove_node_apply_def nothing_apply_def)

lemma silent_replace:
  "silent c \<Longrightarrow> ap = None \<or> ap = Some nothing_apply \<Longrightarrow> silent (replace_change ex now (edit_input t target u b a ap h) c)"
  by (auto simp: silent_def replace_change_def edit_input_def overlay_def nothing_apply_def)

lemma silent_stage:
  "list_all silent (changes s) \<Longrightarrow> ap = None \<or> ap = Some (remove_node_apply i) \<or> ap = Some nothing_apply
     \<Longrightarrow> list_all silent (changes (snd (stage cid now (edit_input t target u b a ap h) s)))"
  using silent_edit by (auto simp: stage_def)

lemma silent_stageOrReplace:
  assumes "list_all silent (changes s)" and "ap = None \<or> ap = Some nothing_apply"
  shows "list_all silent (changes (snd (stageOrReplace cid now m (edit_input t target u b a ap h) s)))"
  using assms silent_stage [OF assms(1), of ap] silent_replace [OF _ assms(2)]
  by (auto simp: stageOrReplace_def list_all_iff split: option.split)

lemma silent_discard: "silent_inv (w, s) \<Longrightarrow> silent_inv (discard cid (w, s))"
  using sent_run_discards [of "[c]" for c]
  by (auto simp: silent_inv_def discard_def list_all_iff dest!: find_first_Some split: option.split)

lemma silent_save_loop:
  "list_all silent cs \<Longrightarrow> ew_sent (world (save_ctx (fold apply_one cs r))) = ew_sent (world (save_ctx r))
     \<and> save_ok (fold apply_one cs r) = save_ok r + length cs \<and> save_failed (fold apply_one cs r) = save_failed r \<and> save_remaining (fold apply_one cs r) = save_remaining r"
proof (induction cs arbitrary: r)
  case (Cons c cs)
  have "ew_sent (world (save_ctx (apply_one c r))) = ew_sent (world (save_ctx r)) \<and> save_ok (apply_one c r) = Suc (save_ok r)
     \<and> save_failed (apply_one c r) = save_failed r \<and> save_remaining (apply_one c r) = save_remaining r"
    using Cons.prems by (auto simp: apply_one_def silent_def split: option.splits prod.splits) (metis fst_conv snd_conv option.distinct(1))+
  with Cons show ?case by simp
qed simp

lemma silent_save:
  assumes "silent_inv (w, s)"
  shows "fst (applyAll (w, s)) = (length (changes s), 0) \<and> changes (snd (snd (applyAll (w, s)))) = [] \<and> ew_sent (fst (snd (applyAll (w, s)))) = []"
proof -
  have "list_all silent (apply_order (changes s))" using assms by (simp add: silent_inv_def apply_order_def list_all_iff)
  from silent_save_loop [OF this] show ?thesis using assms
    by (simp add: applyAll_def apply_begin_def apply_finish_def apply_loop_def silent_inv_def apply_order_def Let_def)
qed

lemma silent_inv_stage:
  "silent_inv (w, s) \<Longrightarrow> ap = None \<or> ap = Some (remove_node_apply i) \<or> ap = Some nothing_apply
     \<Longrightarrow> silent_inv (on_canvas f w, snd (stage cid now (edit_input t target u b a ap h) s))"
  using silent_stage [of s ap i] by (simp add: silent_inv_def)

lemma silent_inv_replace:
  "silent_inv (w, s) \<Longrightarrow> ap = None \<or> ap = Some nothing_apply
     \<Longrightarrow> silent_inv (on_canvas f w, snd (stageOrReplace cid now m (edit_input t target u b a ap h) s))"
  using silent_stageOrReplace [of s ap] by (simp add: silent_inv_def)

lemma silent_inv_canvas: "silent_inv (w, s) \<Longrightarrow> silent_inv (on_canvas f w, s)"
  by (simp add: silent_inv_def)

lemma silent_undo: "silent_inv (w, s) \<Longrightarrow> silent_inv (snd (undo (w, s)))"
  using sent_run_discards [of "[last (changes s)]" w]
  by (cases "changes s" rule: rev_cases) (simp_all add: silent_inv_def undo_def Let_def)

lemma silent_step:
  assumes "silent_inv (w, s)" and "local_edit e"
  shows "silent_inv (edits_step e (w, s))"
proof (cases e)
  case (Drawer_Save cid now err form)
  then show ?thesis using assms(1)
    by (auto simp: handleSave_def Let_def silent_inv_canvas intro!: silent_inv_replace split: option.split)
next
  case (Delete_Node cid now nid)
  then show ?thesis using assms(1)
    by (auto simp: deleteNode_def silent_discard intro!: silent_inv_stage [where i = nid] split: option.split)
next
  case Discard_Edits
  then show ?thesis using assms(1) sent_run_discards [of "rev (changes s)" w] by (simp add: silent_inv_def discardAll_def)
next
  case Save_Edits
  then show ?thesis using silent_save [OF assms(1)] by (simp add: silent_inv_def)
qed (use assms in \<open>auto simp: saveInlineEdit_def deleteEdge_def reverseEdge_def duplicateNode_def Let_def silent_discard silent_undo silent_inv_canvas
       intro!: silent_inv_replace silent_inv_stage [where ap = None] split: option.split\<close>)

lemma silent_run:
  assumes "silent_inv st" and "list_all local_edit es"
  shows "silent_inv (run edits_step es st)"
  using assms
proof (induction es arbitrary: st)
  case (Cons e es)
  have "silent_inv (edits_step e st)" using silent_step [of "fst st" "snd st" e] Cons.prems by simp
  with Cons show ?case by simp
qed simp

text \<open>
  C8: take any history of the edits of \<^verbatim>\<open>useCanvasInteractions.ts\<close> and \<^verbatim>\<open>EntityDrawer.tsx\<close> (renames, edits of
  fields, deletions of nodes, deletions of edges by key or menu, reversals, copies), of undos, discards and saves, in
  which no entity is created and no edge is deleted from the panel of an edge: those two are the edits whose hooks
  talk to the backend. Then a save reports every staged change as done and leaves none, and the backend has not been
  sent anything, although the documentation of the staged changes says that they are committed to the backend.
\<close>

theorem local_edits_are_never_sent:
  assumes "list_all local_edit es" and "run edits_step es (new_edits c) = (w, s)" and "applyAll (w, s) = ((done, failed), (w', s'))"
  shows "done = length (changes s) \<and> failed = 0 \<and> changes s' = [] \<and> ew_sent w' = []"
proof -
  have "silent_inv (new_edits c)" by (simp add: silent_inv_def new_edits_def initial_staged_def)
  from silent_run [OF this assms(1)] have "silent_inv (w, s)" by (simp add: assms(2))
  from silent_save [OF this] show ?thesis by (simp add: assms(3))
qed

lemma local_edits_are_never_sent_witness:
  "(let edits = [Rename ''1'' 1 ''a'' ''A2'', Delete_Edge ''2'' 2 ''e'', Delete_Node ''3'' 3 ''b'', Reverse_Edge ''4'' 4 ''f''];
        st = applyAll (run edits_step edits (new_edits sample_canvas))
    in fst st = (4, 0) \<and> ew_sent (fst (snd st)) = [])"
proof -
  let ?edits = "[Rename ''1'' 1 ''a'' ''A2'', Delete_Edge ''2'' 2 ''e'', Delete_Node ''3'' 3 ''b'', Reverse_Edge ''4'' 4 ''f'']"
  let ?st = "run edits_step ?edits (new_edits sample_canvas)"
  have "length (changes (snd ?st)) = 4" by code_simp
  with local_edits_are_never_sent [of ?edits sample_canvas "fst ?st" "snd ?st" "fst (fst (applyAll ?st))" "snd (fst (applyAll ?st))"
      "fst (snd (applyAll ?st))" "snd (snd (applyAll ?st))"]
  show ?thesis by (simp add: Let_def prod_eq_iff del: run_simps)
qed

text \<open>What is open above the canvas is closed one at a time.\<close>

lemma cancel_keeps_the_selection:
  "truthy (ov_inlineEdit ov) \<or> ov_quickCreate ov \<or> ov_commandPalette ov \<or> ov_contextMenu ov \<or> t \<or> p \<or> d
     \<Longrightarrow> snd (snd (onCancel t p d (ov, c))) = c"
  by (auto simp: onCancel_def)

end
