(* ===== verification/Entity_Browser.thy ===== *)
theory Entity_Browser
  imports Step_System Js_String
begin

text \<open>
  The tree of entities in the view wizard (\<^verbatim>\<open>hooks/useEntityBrowser.ts\<close>): the top level with its pages, search
  and type filter, the children loaded level by level, and which entity types may contain which. A request is
  a number; its answer is an event, in whatever order. Handlers see the state of the last render, which is the
  present one.
\<close>

section \<open>Which types contain which\<close>

text \<open>\<^verbatim>\<open>canContainMap\<close>: a later definition of a type replaces an earlier one.\<close>

type_synonym contain_map = "(string, string list) jsmap"

definition canContainMap :: "(string \<times> string list option) list \<Rightarrow> contain_map" where
  "canContainMap defs = mfrom (map (\<lambda>(t, cs). (t, nullish cs [])) defs)"

definition contains_directly :: "contain_map \<Rightarrow> string \<Rightarrow> string \<Rightarrow> bool" where
  "contains_directly m t c \<longleftrightarrow> c \<in> set (nullish (mget m t) [])"

text \<open>The types that occur among the contained ones, for the measure of the search.\<close>

definition open_types :: "contain_map \<Rightarrow> string set \<Rightarrow> string list \<Rightarrow> nat" where
  "open_types m visited queue = card ((set queue \<union> \<Union> (set ` snd ` set m)) - visited)"

lemma mget_contained: "set (nullish (mget m t) []) \<subseteq> \<Union> (set ` snd ` set m)"
  by (cases "mget m t") (auto dest!: mget_in_set)

function contain_search :: "contain_map \<Rightarrow> string \<Rightarrow> string set \<Rightarrow> string list \<Rightarrow> bool" where
  "contain_search m target visited [] = False"
| "contain_search m target visited (current # queue) =
     (if current \<in> visited then contain_search m target visited queue
      else (let children = nullish (mget m current) []
            in if target \<in> set children then True else contain_search m target (insert current visited) (queue @ children)))"
  by pat_completeness auto

termination
proof (relation "measures [\<lambda>(m, target, visited, queue). open_types m visited queue, \<lambda>(m, target, visited, queue). length queue]")
  fix m :: contain_map and target visited current queue and children :: "string list"
  assume "current \<notin> visited" and children: "children = nullish (mget m current) []"
  then have "(set (queue @ children) \<union> \<Union> (set ` snd ` set m)) - insert current visited \<subset> (set (current # queue) \<union> \<Union> (set ` snd ` set m)) - visited"
    using mget_contained [of m current] by auto
  then have "open_types m (insert current visited) (queue @ children) < open_types m visited (current # queue)"
    unfolding open_types_def by (intro psubset_card_mono) auto
  then show "((m, target, insert current visited, queue @ children), (m, target, visited, current # queue))
      \<in> measures [\<lambda>(m, target, visited, queue). open_types m visited queue, \<lambda>(m, target, visited, queue). length queue]" by simp
next
  fix m :: contain_map and target visited current and queue :: "string list"
  have "(set queue \<union> \<Union> (set ` snd ` set m)) - visited \<subseteq> (set (current # queue) \<union> \<Union> (set ` snd ` set m)) - visited" by auto
  then have "open_types m visited queue \<le> open_types m visited (current # queue)"
    unfolding open_types_def by (intro card_mono) auto
  then show "((m, target, visited, queue), (m, target, visited, current # queue))
      \<in> measures [\<lambda>(m, target, visited, queue). open_types m visited queue, \<lambda>(m, target, visited, queue). length queue]" by auto
qed simp

definition canTransitivelyContain :: "contain_map \<Rightarrow> string \<Rightarrow> string \<Rightarrow> bool" where
  "canTransitivelyContain m ancestorType targetType \<longleftrightarrow> ancestorType = targetType \<or> contain_search m targetType {} [ancestorType]"

definition typesOnPathTo :: "(string \<times> string list option) list \<Rightarrow> string \<Rightarrow> string list" where
  "typesOnPathTo defs target =
     set_from (filter (\<lambda>t. t \<noteq> target \<and> canTransitivelyContain (canContainMap defs) t target) (map fst defs))"

section \<open>The tree\<close>

record entity_node =
  en_urn :: urn
  en_name :: string
  en_childCount :: "nat option"

record browser_node =
  bn_node :: entity_node
  bn_childIds :: "urn list"
  bn_totalChildren :: nat
  bn_hasMore :: bool
  bn_nextCursor :: "string option"
  bn_loaded :: bool

definition new_browser_node :: "entity_node \<Rightarrow> browser_node" where
  "new_browser_node n =
     \<lparr>bn_node = n, bn_childIds = [], bn_totalChildren = nullish (en_childCount n) 0, bn_hasMore = False, bn_nextCursor = None, bn_loaded = False\<rparr>"

text \<open>What is asked of the provider, and what it answers.\<close>

record top_query =
  tl_provider :: nat
  tl_entityType :: "string option"
  tl_searchQuery :: "string option"
  tl_cursor :: "string option"

datatype browse_request =
    Ask_Top top_query
  | Ask_More_Top top_query
  | Ask_Search top_query
  | Ask_Children nat urn
  | Ask_More_Children nat urn "string option"

record top_result =
  tr_nodes :: "entity_node list"
  tr_hasMore :: bool
  tr_nextCursor :: "string option"
  tr_totalCount :: nat
  tr_rootTypeCount :: nat
  tr_orphanCount :: nat

record children_result =
  rs_children :: "entity_node list"
  rs_edges :: "(urn \<times> urn) list"
  rs_totalChildren :: nat
  rs_hasMore :: bool
  rs_nextCursor :: "string option"

datatype browse_answer = Top_Answer top_result | Children_Answer children_result | Browse_Failed "string option"

record browser =
  br_nodes :: "(urn, browser_node) jsmap"
  br_topLevelIds :: "urn list"
  br_topLevelHasMore :: bool
  br_topLevelCursor :: "string option"
  br_totalCount :: nat
  br_metadata :: "nat \<times> nat"
  br_parentMap :: "(urn, urn) jsmap"
  br_loadingNodes :: "string set"
  br_isLoading :: bool
  br_error :: "string option"
  br_searchQuery :: string
  br_typeFilter :: "string option"
  br_timer :: "(nat \<times> string) option"
  br_provider :: nat
  br_enabled :: bool
  br_pending :: "(nat \<times> browse_request) list"
  br_next :: nat

definition new_browser :: "nat \<Rightarrow> bool \<Rightarrow> browser" where
  "new_browser provider enabled =
     \<lparr>br_nodes = [], br_topLevelIds = [], br_topLevelHasMore = False, br_topLevelCursor = None, br_totalCount = 0, br_metadata = (0, 0),
      br_parentMap = [], br_loadingNodes = {}, br_isLoading = False, br_error = None, br_searchQuery = '''', br_typeFilter = None,
      br_timer = None, br_provider = provider, br_enabled = enabled, br_pending = [], br_next = 0\<rparr>"

definition ask :: "browse_request \<Rightarrow> browser \<Rightarrow> browser" where
  "ask r s = s\<lparr>br_pending := br_pending s @ [(br_next s, r)], br_next := br_next s + 1\<rparr>"

definition provider_changed :: "nat \<Rightarrow> browser \<Rightarrow> browser" where
  "provider_changed p s =
     (if br_provider s = p then s
      else s\<lparr>br_provider := p, br_nodes := [], br_topLevelIds := [], br_topLevelHasMore := False, br_topLevelCursor := None,
             br_totalCount := 0, br_metadata := (0, 0), br_parentMap := [], br_error := None\<rparr>)"

section \<open>Merging a page of the top level\<close>

definition put_new :: "entity_node \<Rightarrow> (urn, browser_node) jsmap \<Rightarrow> (urn, browser_node) jsmap" where
  "put_new n m = (if mhas m (en_urn n) then m else mset_key (en_urn n) (new_browser_node n) m)"

definition merge_counts :: "top_result \<Rightarrow> browser \<Rightarrow> browser" where
  "merge_counts r s =
     s\<lparr>br_topLevelHasMore := tr_hasMore r, br_topLevelCursor := tr_nextCursor r, br_totalCount := tr_totalCount r,
       br_metadata := (tr_rootTypeCount r, tr_orphanCount r)\<rparr>"

definition merge_replace :: "top_result \<Rightarrow> browser \<Rightarrow> browser" where
  "merge_replace r s =
     merge_counts r (s\<lparr>br_nodes := mfrom (map (\<lambda>n. (en_urn n, new_browser_node n)) (tr_nodes r)), br_topLevelIds := map en_urn (tr_nodes r), br_parentMap := []\<rparr>)"

definition merge_append :: "top_result \<Rightarrow> browser \<Rightarrow> browser" where
  "merge_append r s =
     merge_counts r (s\<lparr>br_nodes := fold put_new (tr_nodes r) (br_nodes s),
       br_topLevelIds := br_topLevelIds s @ filter (\<lambda>u. u \<notin> set (br_topLevelIds s)) (map en_urn (tr_nodes r))\<rparr>)"

section \<open>Loading\<close>

definition filter_type :: "browser \<Rightarrow> string option" where
  "filter_type s = (if truthy (br_typeFilter s) then br_typeFilter s else None)"

definition loadTopLevel :: "browser \<Rightarrow> browser" where
  "loadTopLevel s =
     (if \<not> br_enabled s then s
      else ask (Ask_Top \<lparr>tl_provider = br_provider s, tl_entityType = filter_type s, tl_searchQuery = None, tl_cursor = None\<rparr>)
             (s\<lparr>br_isLoading := True, br_error := None\<rparr>))"

definition TOP_LEVEL :: string where
  "TOP_LEVEL = ''__top-level''"

definition loadMoreTopLevel :: "browser \<Rightarrow> browser" where
  "loadMoreTopLevel s =
     (if \<not> br_topLevelHasMore s then s
      else ask (Ask_More_Top \<lparr>tl_provider = br_provider s, tl_entityType = filter_type s, tl_searchQuery = None, tl_cursor = br_topLevelCursor s\<rparr>)
             (s\<lparr>br_loadingNodes := insert TOP_LEVEL (br_loadingNodes s)\<rparr>))"

definition expandNode :: "urn \<Rightarrow> browser \<Rightarrow> browser" where
  "expandNode u s =
     (if (case mget (br_nodes s) u of Some b \<Rightarrow> bn_loaded b | None \<Rightarrow> False) then s
      else ask (Ask_Children (br_provider s) u) (s\<lparr>br_loadingNodes := insert u (br_loadingNodes s)\<rparr>))"

definition loadMoreChildren :: "urn \<Rightarrow> browser \<Rightarrow> browser" where
  "loadMoreChildren u s =
     (case mget (br_nodes s) u of
        None \<Rightarrow> s
      | Some b \<Rightarrow>
          if \<not> bn_hasMore b then s
          else ask (Ask_More_Children (br_provider s) u (bn_nextCursor b)) (s\<lparr>br_loadingNodes := insert u (br_loadingNodes s)\<rparr>))"

text \<open>A search waits for 300 ms; an empty one loads the top level at once.\<close>

definition setSearch :: "string \<Rightarrow> browser \<Rightarrow> browser" where
  "setSearch q s =
     (let s1 = s\<lparr>br_searchQuery := q, br_timer := None\<rparr>
      in if trim q = '''' then loadTopLevel s1 else s1\<lparr>br_timer := Some (br_provider s1, q)\<rparr>)"

definition search_fires :: "browser \<Rightarrow> browser" where
  "search_fires s =
     (case br_timer s of
        None \<Rightarrow> s
      | Some (p, q) \<Rightarrow> ask (Ask_Search \<lparr>tl_provider = p, tl_entityType = filter_type s, tl_searchQuery = Some q, tl_cursor = None\<rparr>)
                        (s\<lparr>br_timer := None, br_isLoading := True\<rparr>))"

definition refresh_browser :: "browser \<Rightarrow> browser" where
  "refresh_browser s = (if trim (br_searchQuery s) \<noteq> '''' then setSearch (br_searchQuery s) s else loadTopLevel s)"

definition setTypeFilter :: "string option \<Rightarrow> browser \<Rightarrow> browser" where
  "setTypeFilter t s = refresh_browser (s\<lparr>br_typeFilter := t\<rparr>)"

section \<open>Answers\<close>

definition put_child :: "entity_node \<Rightarrow> (urn, browser_node) jsmap \<Rightarrow> (urn, browser_node) jsmap" where
  "put_child n m =
     mset_key (en_urn n)
       (case mget m (en_urn n) of
          None \<Rightarrow> new_browser_node n
        | Some b \<Rightarrow> b\<lparr>bn_node := n, bn_totalChildren := nullish (en_childCount n) 0\<rparr>) m"

definition put_parents :: "(urn \<times> urn) list \<Rightarrow> (urn, urn) jsmap \<Rightarrow> (urn, urn) jsmap" where
  "put_parents es m = fold (\<lambda>(src, tgt). mset_key tgt src) es m"

definition children_arrived :: "urn \<Rightarrow> children_result \<Rightarrow> browser \<Rightarrow> browser" where
  "children_arrived u r s =
     (let m = fold put_child (rs_children r) (br_nodes s);
          m' = (case mget m u of
                  None \<Rightarrow> m
                | Some b \<Rightarrow> mset_key u (b\<lparr>bn_childIds := map en_urn (rs_children r), bn_totalChildren := rs_totalChildren r,
                    bn_hasMore := rs_hasMore r, bn_nextCursor := rs_nextCursor r, bn_loaded := True\<rparr>) m)
      in s\<lparr>br_nodes := m', br_parentMap := put_parents (rs_edges r) (br_parentMap s)\<rparr>)"

definition more_children_arrived :: "urn \<Rightarrow> children_result \<Rightarrow> browser \<Rightarrow> browser" where
  "more_children_arrived u r s =
     (let m = fold put_new (rs_children r) (br_nodes s);
          m' = (case mget m u of
                  None \<Rightarrow> m
                | Some b \<Rightarrow> mset_key u (b\<lparr>bn_childIds := bn_childIds b @ filter (\<lambda>i. i \<notin> set (bn_childIds b)) (map en_urn (rs_children r)),
                    bn_totalChildren := rs_totalChildren r, bn_hasMore := rs_hasMore r, bn_nextCursor := rs_nextCursor r\<rparr>) m)
      in s\<lparr>br_nodes := m', br_parentMap := put_parents (rs_edges r) (br_parentMap s)\<rparr>)"

fun answered :: "browse_request \<Rightarrow> browse_answer \<Rightarrow> browser \<Rightarrow> browser" where
  "answered (Ask_Top q) (Top_Answer r) s = (merge_replace r s)\<lparr>br_isLoading := False\<rparr>"
| "answered (Ask_Top q) (Browse_Failed m) s = s\<lparr>br_error := Some (nullish m ''Failed to load entities''), br_isLoading := False\<rparr>"
| "answered (Ask_Search q) (Top_Answer r) s = (merge_replace r s)\<lparr>br_isLoading := False\<rparr>"
| "answered (Ask_Search q) (Browse_Failed m) s = s\<lparr>br_error := Some (nullish m ''Search failed''), br_isLoading := False\<rparr>"
| "answered (Ask_More_Top q) (Top_Answer r) s = (merge_append r s)\<lparr>br_loadingNodes := br_loadingNodes s - {TOP_LEVEL}\<rparr>"
| "answered (Ask_More_Top q) (Browse_Failed m) s = s\<lparr>br_loadingNodes := br_loadingNodes s - {TOP_LEVEL}\<rparr>"
| "answered (Ask_Children p u) (Children_Answer r) s = (children_arrived u r s)\<lparr>br_loadingNodes := br_loadingNodes s - {u}\<rparr>"
| "answered (Ask_Children p u) (Browse_Failed m) s = s\<lparr>br_loadingNodes := br_loadingNodes s - {u}\<rparr>"
| "answered (Ask_More_Children p u c) (Children_Answer r) s = (more_children_arrived u r s)\<lparr>br_loadingNodes := br_loadingNodes s - {u}\<rparr>"
| "answered (Ask_More_Children p u c) (Browse_Failed m) s = s\<lparr>br_loadingNodes := br_loadingNodes s - {u}\<rparr>"
| "answered r a s = s"

fun fits :: "browse_request \<Rightarrow> browse_answer \<Rightarrow> bool" where
  "fits r (Browse_Failed m) = True"
| "fits (Ask_Children p u) (Children_Answer r) = True"
| "fits (Ask_More_Children p u c) (Children_Answer r) = True"
| "fits (Ask_Children p u) (Top_Answer r) = False"
| "fits (Ask_More_Children p u c) (Top_Answer r) = False"
| "fits r (Top_Answer x) = True"
| "fits r (Children_Answer x) = False"

definition answer_arrives :: "nat \<Rightarrow> browse_answer \<Rightarrow> browser \<Rightarrow> browser" where
  "answer_arrives n a s =
     (case mget (br_pending s) n of
        None \<Rightarrow> s
      | Some r \<Rightarrow> if fits r a then answered r a (s\<lparr>br_pending := mdel n (br_pending s)\<rparr>) else s)"

datatype browser_event =
    Load_Top_Level
  | Load_More_Top_Level
  | Expand_Node urn
  | Load_More_Children urn
  | Set_Search string
  | Search_Fires
  | Set_Type_Filter "string option"
  | Refresh_Browser
  | Provider_Changed nat
  | Enabled_Changed bool
  | Answer_Arrives nat browse_answer

fun browser_step :: "browser_event \<Rightarrow> browser \<Rightarrow> browser" where
  "browser_step Load_Top_Level s = loadTopLevel s"
| "browser_step Load_More_Top_Level s = loadMoreTopLevel s"
| "browser_step (Expand_Node u) s = expandNode u s"
| "browser_step (Load_More_Children u) s = loadMoreChildren u s"
| "browser_step (Set_Search q) s = setSearch q s"
| "browser_step Search_Fires s = search_fires s"
| "browser_step (Set_Type_Filter t) s = setTypeFilter t s"
| "browser_step Refresh_Browser s = refresh_browser s"
| "browser_step (Provider_Changed p) s = provider_changed p s"
| "browser_step (Enabled_Changed b) s = s\<lparr>br_enabled := b\<rparr>"
| "browser_step (Answer_Arrives n a) s = answer_arrives n a s"

section \<open>The search is reachability\<close>

definition contain_rel :: "contain_map \<Rightarrow> (string \<times> string) set" where
  "contain_rel m = {(t, c). contains_directly m t c}"


lemma contain_rel_iff [simp]: "(t, c) \<in> contain_rel m \<longleftrightarrow> c \<in> set (nullish (mget m t) [])"
  by (simp add: contain_rel_def contains_directly_def)

text \<open>What is visited is settled: the types below it are visited or in the queue, and the target is not among them.\<close>

definition settled_search :: "contain_map \<Rightarrow> string \<Rightarrow> string set \<Rightarrow> string list \<Rightarrow> bool" where
  "settled_search m target visited queue \<longleftrightarrow> (\<forall>v \<in> visited. \<forall>c. (v, c) \<in> contain_rel m \<longrightarrow> c \<noteq> target \<and> (c \<in> visited \<or> c \<in> set queue))"

lemma visited_leads_on:
  "(d, target) \<in> (contain_rel m)\<^sup>+ \<Longrightarrow> settled_search m target visited queue \<Longrightarrow> d \<in> visited \<Longrightarrow> \<exists>q \<in> set queue. (q, target) \<in> (contain_rel m)\<^sup>+"
  by (induction rule: converse_trancl_induct) (unfold settled_search_def, blast+)

lemma contain_search_iff:
  "settled_search m target visited queue \<Longrightarrow> contain_search m target visited queue \<longleftrightarrow> (\<exists>q \<in> set queue. (q, target) \<in> (contain_rel m)\<^sup>+)"
proof (induction m target visited queue rule: contain_search.induct)
  case (2 m target visited current queue)
  let ?children = "nullish (mget m current) []"
  show ?case
  proof (cases "current \<in> visited")
    case True
    then have settled: "settled_search m target visited queue" using "2.prems" by (auto simp: settled_search_def)
    with True "2.IH"(1) visited_leads_on [OF _ settled True] show ?thesis by auto
  next
    case new: False
    show ?thesis
    proof (cases "target \<in> set ?children")
      case True
      then have "(current, target) \<in> (contain_rel m)\<^sup>+" by (intro r_into_trancl) simp
      with new True show ?thesis by auto
    next
      case False
      then have "settled_search m target (insert current visited) (queue @ ?children)"
        using "2.prems" by (auto simp: settled_search_def)
      from "2.IH"(2) [OF new refl False this]
      have "contain_search m target visited (current # queue) \<longleftrightarrow> (\<exists>q \<in> set (queue @ ?children). (q, target) \<in> (contain_rel m)\<^sup>+)"
        using new False by (simp add: Let_def)
      moreover have "(current, target) \<in> (contain_rel m)\<^sup>+ \<longleftrightarrow> (\<exists>q \<in> set ?children. (q, target) \<in> (contain_rel m)\<^sup>+)"
        using False by (subst trancl_unfold_left) (auto simp: rtrancl_eq_or_trancl)
      ultimately show ?thesis by auto
    qed
  qed
qed simp

text \<open>
  C34: the search with its visited set ends on every ontology, cyclic ones too, and finds exactly what a chain of
  containing types reaches; the types shown on the path to a type are those, without the type itself.
\<close>

theorem containing_types_are_found:
  "(canTransitivelyContain m a t \<longleftrightarrow> (a, t) \<in> (contain_rel m)\<^sup>*)
   \<and> set (typesOnPathTo defs t) = {x \<in> fst ` set defs. x \<noteq> t \<and> (x, t) \<in> (contain_rel (canContainMap defs))\<^sup>+}"
proof -
  have search: "contain_search m' t {} [x] \<longleftrightarrow> (x, t) \<in> (contain_rel m')\<^sup>+" for m' x
    by (subst contain_search_iff) (auto simp: settled_search_def)
  then show ?thesis by (auto simp: canTransitivelyContain_def typesOnPathTo_def rtrancl_eq_or_trancl)
qed

section \<open>The tree stays closed\<close>

text \<open>
  What is shown has an entry, and so have the children of every entry; no id is listed twice if no page names
  one twice, which is what \<open>d\<close> says; a spinner stands for a request on its way.
\<close>

definition tree_closed :: "bool \<Rightarrow> (urn, browser_node) jsmap \<Rightarrow> urn list \<Rightarrow> bool" where
  "tree_closed d m shown \<longleftrightarrow> (d \<longrightarrow> distinct shown) \<and> (\<forall>u \<in> set shown. mget m u \<noteq> None)
     \<and> (\<forall>u b. mget m u = Some b \<longrightarrow> en_urn (bn_node b) = u \<and> (d \<longrightarrow> distinct (bn_childIds b)) \<and> (\<forall>c \<in> set (bn_childIds b). mget m c \<noteq> None))"

fun spins_for :: "browse_request \<Rightarrow> string \<Rightarrow> bool" where
  "spins_for (Ask_More_Top q) x \<longleftrightarrow> x = TOP_LEVEL"
| "spins_for (Ask_Children p u) x \<longleftrightarrow> x = u"
| "spins_for (Ask_More_Children p u c) x \<longleftrightarrow> x = u"
| "spins_for r x \<longleftrightarrow> False"

fun loads_top :: "browse_request \<Rightarrow> bool" where
  "loads_top (Ask_Top q) = True"
| "loads_top (Ask_Search q) = True"
| "loads_top r = False"

definition spinners_ok :: "browser \<Rightarrow> bool" where
  "spinners_ok s \<longleftrightarrow> (\<forall>x \<in> br_loadingNodes s. list_ex (\<lambda>p. spins_for (snd p) x) (br_pending s))
     \<and> (br_isLoading s \<longrightarrow> list_ex (\<lambda>p. loads_top (snd p)) (br_pending s))"

definition browser_ok :: "bool \<Rightarrow> browser \<Rightarrow> bool" where
  "browser_ok d s \<longleftrightarrow> tree_closed d (br_nodes s) (br_topLevelIds s) \<and> spinners_ok s
     \<and> jsm_ok (br_pending s) \<and> (\<forall>p \<in> set (br_pending s). fst p < br_next s)"

text \<open>A page names no entity twice.\<close>

fun distinct_answer :: "browser_event \<Rightarrow> bool" where
  "distinct_answer (Answer_Arrives n (Top_Answer r)) = distinct (map en_urn (tr_nodes r))"
| "distinct_answer (Answer_Arrives n (Children_Answer r)) = distinct (map en_urn (rs_children r))"
| "distinct_answer e = True"

text \<open>Maps that only gain entries, or new nodes in them, keep the tree closed.\<close>

definition tree_grows :: "(urn, browser_node) jsmap \<Rightarrow> (urn, browser_node) jsmap \<Rightarrow> bool" where
  "tree_grows m m' \<longleftrightarrow> (\<forall>u b. mget m u = Some b \<longrightarrow> (\<exists>b'. mget m' u = Some b' \<and> bn_childIds b' = bn_childIds b))
     \<and> (\<forall>u b'. mget m' u = Some b' \<longrightarrow> en_urn (bn_node b') = u \<and> (bn_childIds b' = [] \<or> (\<exists>b. mget m u = Some b \<and> bn_childIds b' = bn_childIds b)))"

lemma tree_grows_has: "tree_grows m m' \<Longrightarrow> mget m u \<noteq> None \<Longrightarrow> mget m' u \<noteq> None"
  unfolding tree_grows_def by (metis not_None_eq)

lemma tree_closed_grows:
  assumes closed: "tree_closed d m shown" and grows: "tree_grows m m'"
  shows "tree_closed d m' shown"
  unfolding tree_closed_def
proof (intro conjI ballI allI impI)
  show "distinct shown" if d using closed that by (simp add: tree_closed_def)
  show "mget m' u \<noteq> None" if "u \<in> set shown" for u using closed that tree_grows_has [OF grows] by (simp add: tree_closed_def)
  fix u b' assume b': "mget m' u = Some b'"
  then show "en_urn (bn_node b') = u" using grows by (simp add: tree_grows_def)
  consider "bn_childIds b' = []" | b where "mget m u = Some b" "bn_childIds b' = bn_childIds b" using grows b' unfolding tree_grows_def by blast
  then have kids: "(d \<longrightarrow> distinct (bn_childIds b')) \<and> (\<forall>c \<in> set (bn_childIds b'). mget m c \<noteq> None)"
    using closed by cases (simp_all add: tree_closed_def)
  then show "distinct (bn_childIds b')" if d using that by simp
  show "mget m' c \<noteq> None" if "c \<in> set (bn_childIds b')" for c using kids that tree_grows_has [OF grows] by blast
qed

definition urns_ok :: "(urn, browser_node) jsmap \<Rightarrow> bool" where
  "urns_ok m \<longleftrightarrow> (\<forall>u b. mget m u = Some b \<longrightarrow> en_urn (bn_node b) = u)"

lemma tree_grows_refl: "urns_ok m \<Longrightarrow> tree_grows m m"
  by (auto simp: tree_grows_def urns_ok_def)

lemma tree_grows_trans:
  assumes ab: "tree_grows a b" and bc: "tree_grows b c"
  shows "tree_grows a c"
  unfolding tree_grows_def
proof (intro conjI allI impI)
  show "\<exists>x'. mget c u = Some x' \<and> bn_childIds x' = bn_childIds x" if "mget a u = Some x" for u x
    using ab bc that unfolding tree_grows_def by metis
  show "en_urn (bn_node x') = u" if "mget c u = Some x'" for u x' using bc that by (simp add: tree_grows_def)
  show "bn_childIds x' = [] \<or> (\<exists>x. mget a u = Some x \<and> bn_childIds x' = bn_childIds x)" if x': "mget c u = Some x'" for u x'
  proof -
    consider "bn_childIds x' = []" | y where "mget b u = Some y" "bn_childIds x' = bn_childIds y" using bc x' unfolding tree_grows_def by blast
    then show ?thesis
    proof cases
      case (2 y)
      with ab show ?thesis unfolding tree_grows_def by metis
    qed simp
  qed
qed

lemma tree_grows_urns: "tree_grows a b \<Longrightarrow> urns_ok b"
  by (auto simp: tree_grows_def urns_ok_def)

lemma grows_put_new: "urns_ok m \<Longrightarrow> tree_grows m (put_new n m)"
  by (auto simp: tree_grows_def put_new_def new_browser_node_def urns_ok_def)

lemma grows_put_child: "urns_ok m \<Longrightarrow> tree_grows m (put_child n m)"
  by (auto simp: tree_grows_def put_child_def new_browser_node_def urns_ok_def split: option.split)

lemma grows_fold:
  assumes "\<And>n m. urns_ok m \<Longrightarrow> tree_grows m (put n m)" and "urns_ok m"
  shows "tree_grows m (fold put ns m)"
  using assms(2)
proof (induction ns arbitrary: m)
  case (Cons n ns)
  from assms(1) [OF Cons.prems] have "tree_grows m (put n m)" .
  with Cons.IH [OF tree_grows_urns [OF this]] show ?case by (auto intro: tree_grows_trans)
qed (simp add: tree_grows_refl)

lemma fold_puts:
  assumes "\<And>n m. urns_ok m \<Longrightarrow> tree_grows m (put n m)" and "\<And>n m. mget (put n m) (en_urn n) \<noteq> None" and "urns_ok m" and "n \<in> set ns"
  shows "mget (fold put ns m) (en_urn n) \<noteq> None"
  using assms(3,4)
proof (induction ns arbitrary: m)
  case (Cons x ns)
  have ok: "urns_ok (put x m)" by (rule tree_grows_urns [OF assms(1) [OF Cons.prems(1)]])
  show ?case
  proof (cases "n = x")
    case True
    have "mget (fold put ns (put x m)) (en_urn x) \<noteq> None"
      by (rule tree_grows_has [OF grows_fold [of put, OF assms(1) ok] assms(2)])
    with True show ?thesis by simp
  next
    case False
    with Cons ok show ?thesis by simp
  qed
qed simp

lemma closed_urns: "tree_closed d m shown \<Longrightarrow> urns_ok m"
  by (auto simp: tree_closed_def urns_ok_def)

lemma closed_children:
  assumes "tree_closed d m shown" and "mget m u = Some b" and "d \<longrightarrow> distinct cs" and "\<And>c. c \<in> set cs \<Longrightarrow> mget m c \<noteq> None"
    and "bn_childIds b' = cs" and "bn_node b' = bn_node b"
  shows "tree_closed d (mset_key u b' m) shown"
  using assms by (auto simp: tree_closed_def)

lemma closed_arrived:
  assumes "tree_closed d (br_nodes s) (br_topLevelIds s)" and "d \<longrightarrow> distinct (map en_urn (rs_children r))"
  shows "tree_closed d (br_nodes (children_arrived u r s)) (br_topLevelIds (children_arrived u r s))"
proof -
  let ?m = "fold put_child (rs_children r) (br_nodes s)"
  have grows: "tree_grows (br_nodes s) ?m" by (rule grows_fold [OF grows_put_child closed_urns [OF assms(1)]])
  have closed: "tree_closed d ?m (br_topLevelIds s)" by (rule tree_closed_grows [OF assms(1) grows])
  have "mget ?m c \<noteq> None" if "c \<in> set (map en_urn (rs_children r))" for c
    using fold_puts [of put_child, OF grows_put_child _ closed_urns [OF assms(1)]] that by (force simp: put_child_def)
  then show ?thesis using closed assms(2)
    by (auto simp: children_arrived_def Let_def split: option.split intro!: closed_children [OF closed])
qed

lemma closed_more_arrived:
  assumes "tree_closed d (br_nodes s) (br_topLevelIds s)" and "d \<longrightarrow> distinct (map en_urn (rs_children r))"
  shows "tree_closed d (br_nodes (more_children_arrived u r s)) (br_topLevelIds (more_children_arrived u r s))"
proof -
  let ?m = "fold put_new (rs_children r) (br_nodes s)"
  have grows: "tree_grows (br_nodes s) ?m" by (rule grows_fold [OF grows_put_new closed_urns [OF assms(1)]])
  have closed: "tree_closed d ?m (br_topLevelIds s)" by (rule tree_closed_grows [OF assms(1) grows])
  have arrived: "mget ?m c \<noteq> None" if "c \<in> set (map en_urn (rs_children r))" for c
    using fold_puts [of put_new, OF grows_put_new _ closed_urns [OF assms(1)]] that by (force simp: put_new_def)
  show ?thesis
  proof (cases "mget ?m u")
    case (Some b)
    let ?cs = "bn_childIds b @ filter (\<lambda>i. i \<notin> set (bn_childIds b)) (map en_urn (rs_children r))"
    have "d \<longrightarrow> distinct (bn_childIds b)" "\<forall>c \<in> set (bn_childIds b). mget ?m c \<noteq> None" using closed Some by (simp_all add: tree_closed_def)
    then have "d \<longrightarrow> distinct ?cs" and has: "\<And>c. c \<in> set ?cs \<Longrightarrow> mget ?m c \<noteq> None" using assms(2) arrived by auto
    from closed_children [OF closed Some this] Some show ?thesis by (simp add: more_children_arrived_def Let_def)
  qed (use closed in \<open>simp add: more_children_arrived_def\<close>)
qed

lemma closed_replace:
  assumes "d \<longrightarrow> distinct (map en_urn (tr_nodes r))"
  shows "tree_closed d (br_nodes (merge_replace r s)) (br_topLevelIds (merge_replace r s))"
proof -
  let ?ps = "map (\<lambda>n. (en_urn n, new_browser_node n)) (tr_nodes r)"
  have get: "mget (mfrom ?ps) u = map_of (rev ?ps) u" for u by (rule mget_mfrom)
  have found: "\<exists>n \<in> set (tr_nodes r). en_urn n = u \<and> b = new_browser_node n" if "mget (mfrom ?ps) u = Some b" for u b
    using that by (auto simp: get dest!: map_of_SomeD)
  have "mget (mfrom ?ps) u \<noteq> None" if "u \<in> en_urn ` set (tr_nodes r)" for u
    using that by (auto simp: get map_of_eq_None_iff image_iff simp del: mget_mfrom)
  moreover have "bn_childIds (new_browser_node n) = []" "bn_node (new_browser_node n) = n" for n by (simp_all add: new_browser_node_def)
  ultimately show ?thesis using assms found
    by (fastforce simp: merge_replace_def merge_counts_def tree_closed_def)
qed

lemma closed_append:
  assumes "tree_closed d (br_nodes s) (br_topLevelIds s)" and "d \<longrightarrow> distinct (map en_urn (tr_nodes r))"
  shows "tree_closed d (br_nodes (merge_append r s)) (br_topLevelIds (merge_append r s))"
proof -
  let ?m = "fold put_new (tr_nodes r) (br_nodes s)"
  have grows: "tree_grows (br_nodes s) ?m" by (rule grows_fold [OF grows_put_new closed_urns [OF assms(1)]])
  have closed: "tree_closed d ?m (br_topLevelIds s)" by (rule tree_closed_grows [OF assms(1) grows])
  have arrived: "mget ?m c \<noteq> None" if "c \<in> set (map en_urn (tr_nodes r))" for c
    using fold_puts [of put_new, OF grows_put_new _ closed_urns [OF assms(1)]] that by (force simp: put_new_def)
  then show ?thesis using closed assms(2) by (auto simp: merge_append_def merge_counts_def tree_closed_def)
qed

lemma others_pending:
  assumes "jsm_ok ps" and "mget ps n = Some r" and "list_ex (\<lambda>p. P (snd p)) ps" and "\<not> P r"
  shows "list_ex (\<lambda>p. P (snd p)) (mdel n ps)"
proof -
  obtain k v where kv: "(k, v) \<in> set ps" "P v" using assms(3) by (auto simp: list_ex_iff)
  then have "mget ps k = Some v" using mget_iff_in_set [OF assms(1)] by simp
  then have "mget (mdel n ps) k = Some v" using assms(2,4) kv(2) by auto
  with kv(2) show ?thesis unfolding list_ex_iff by (metis mget_in_set snd_conv)
qed

lemma set_mdel: "set (mdel n ps) \<subseteq> set ps"
  by (induction ps) auto

lemma spins_once: "spins_for r x \<Longrightarrow> spins_for r y \<Longrightarrow> x = y"
  by (cases r) simp_all

lemma browser_ok_answered:
  assumes ok: "browser_ok d s" and r: "mget (br_pending s) n = Some r" and fit: "fits r a" and dist: "d \<longrightarrow> distinct_answer (Answer_Arrives n a)"
  shows "browser_ok d (answered r a (s\<lparr>br_pending := mdel n (br_pending s)\<rparr>))"
proof -
  let ?s = "s\<lparr>br_pending := mdel n (br_pending s)\<rparr>" let ?t = "answered r a ?s"
  have parts: "br_pending ?t = mdel n (br_pending s)" "br_next ?t = br_next s"
      "br_loadingNodes ?t = {x \<in> br_loadingNodes s. \<not> spins_for r x}" "br_isLoading ?t = (br_isLoading s \<and> \<not> loads_top r)"
    using fit by (cases r; cases a;
      auto simp: merge_replace_def merge_append_def merge_counts_def children_arrived_def more_children_arrived_def Let_def)+
  have pend: "jsm_ok (br_pending s)" using ok by (simp add: browser_ok_def)
  have "tree_closed d (br_nodes ?s) (br_topLevelIds ?s)" using ok by (simp add: browser_ok_def)
  then have "tree_closed d (br_nodes ?t) (br_topLevelIds ?t)"
    using fit dist closed_replace [where s = ?s] closed_append [where s = ?s] closed_arrived [where s = ?s] closed_more_arrived [where s = ?s]
    by (cases r; cases a) simp_all
  moreover have "spinners_ok ?t"
    using ok others_pending [OF pend r, of "\<lambda>q. spins_for q x" for x] others_pending [OF pend r, of loads_top]
    by (auto simp: spinners_ok_def parts browser_ok_def)
  ultimately show ?thesis using ok parts(1,2) set_mdel [of n "br_pending s"] unfolding browser_ok_def by (simp only: jsm_ok_mdel) blast
qed

lemma ask_parts [simp]:
  "br_pending (ask r s) = br_pending s @ [(br_next s, r)]" "br_next (ask r s) = br_next s + 1" "br_nodes (ask r s) = br_nodes s"
  "br_topLevelIds (ask r s) = br_topLevelIds s" "br_loadingNodes (ask r s) = br_loadingNodes s" "br_isLoading (ask r s) = br_isLoading s"
  by (simp_all add: ask_def)

lemma browser_ok_ask:
  assumes ok: "browser_ok d s" and same: "br_pending s' = br_pending s" "br_next s' = br_next s" "br_nodes s' = br_nodes s" "br_topLevelIds s' = br_topLevelIds s"
    and spin: "\<And>x. x \<in> br_loadingNodes s' \<Longrightarrow> x \<in> br_loadingNodes s \<or> spins_for r x" and load: "br_isLoading s' \<Longrightarrow> br_isLoading s \<or> loads_top r"
  shows "browser_ok d (ask r s')"
proof -
  have "fst ` set (br_pending s) \<inter> {br_next s} = {}" using ok by (auto simp: browser_ok_def)
  then have "jsm_ok (br_pending s @ [(br_next s, r)])" using ok by (auto simp: browser_ok_def jsm_ok_def)
  with ok spin load show ?thesis by (auto simp: browser_ok_def spinners_ok_def same)
qed

lemma browser_ok_same:
  assumes "browser_ok d s" and "br_pending s' = br_pending s" "br_next s' = br_next s" "tree_closed d (br_nodes s') (br_topLevelIds s')"
    "br_loadingNodes s' = br_loadingNodes s" "br_isLoading s' = br_isLoading s"
  shows "browser_ok d s'"
  using assms by (simp add: browser_ok_def spinners_ok_def)

lemma browser_ok_view: "browser_ok d s \<Longrightarrow> browser_ok d (s\<lparr>br_searchQuery := q, br_timer := t\<rparr>)" "browser_ok d s \<Longrightarrow> browser_ok d (s\<lparr>br_timer := t\<rparr>)"
  "browser_ok d s \<Longrightarrow> browser_ok d (s\<lparr>br_typeFilter := f\<rparr>)" "browser_ok d s \<Longrightarrow> browser_ok d (s\<lparr>br_enabled := b\<rparr>)"
  by (simp_all add: browser_ok_def spinners_ok_def)

lemma browser_ok_loadTopLevel: "browser_ok d s \<Longrightarrow> browser_ok d (loadTopLevel s)"
  by (auto simp: loadTopLevel_def intro!: browser_ok_ask [where s = s])

lemma browser_ok_setSearch: "browser_ok d s \<Longrightarrow> browser_ok d (setSearch q s)"
  using browser_ok_view(1) [of d s] browser_ok_loadTopLevel [of d "s\<lparr>br_searchQuery := q, br_timer := None\<rparr>"] by (simp add: setSearch_def Let_def)

lemma browser_ok_refresh: "browser_ok d s \<Longrightarrow> browser_ok d (refresh_browser s)"
  by (simp add: refresh_browser_def browser_ok_setSearch browser_ok_loadTopLevel)

lemma browser_ok_step: "browser_ok d s \<Longrightarrow> (d \<longrightarrow> distinct_answer e) \<Longrightarrow> browser_ok d (browser_step e s)"
proof (cases e)
  case (Answer_Arrives n a)
  assume "browser_ok d s" "d \<longrightarrow> distinct_answer e"
  with Answer_Arrives show ?thesis by (auto simp: answer_arrives_def browser_ok_answered split: option.split)
next
  case (Provider_Changed p)
  assume "browser_ok d s"
  with Provider_Changed show ?thesis
    by (auto simp: provider_changed_def tree_closed_def intro!: browser_ok_same [of d s])
next
  case Load_More_Top_Level
  assume "browser_ok d s"
  with Load_More_Top_Level show ?thesis by (auto simp: loadMoreTopLevel_def intro!: browser_ok_ask [where s = s])
next
  case (Expand_Node u)
  assume "browser_ok d s"
  with Expand_Node show ?thesis by (auto simp: expandNode_def intro!: browser_ok_ask [where s = s])
next
  case (Load_More_Children u)
  assume "browser_ok d s"
  with Load_More_Children show ?thesis by (auto simp: loadMoreChildren_def intro!: browser_ok_ask [where s = s] split: option.split)
next
  case Search_Fires
  assume "browser_ok d s"
  with Search_Fires show ?thesis by (auto simp: search_fires_def intro!: browser_ok_ask [where s = s] split: option.split)
next
  case (Set_Type_Filter t)
  assume "browser_ok d s"
  with Set_Type_Filter show ?thesis by (simp add: setTypeFilter_def browser_ok_refresh browser_ok_view)
qed (simp_all add: browser_ok_loadTopLevel browser_ok_setSearch browser_ok_refresh browser_ok_view)

interpretation browser: step_system browser_step "browser_ok d" "\<lambda>e. d \<longrightarrow> distinct_answer e"
  by unfold_locales (rule browser_ok_step)

text \<open>
  C33: through every history of loads, searches, filters, expansions, changes of the provider and answers in any
  order the tree is closed: every id shown, at the top or below an entry, has an entry under its own URN; and a
  spinner, on a node, on the list or on the whole browser, stands for a request on its way that ends it. If no
  page that arrived names an entity twice, no list has an id twice. (Only the pages appended are cleared of
  what is there: the lemma \<open>repeated_child_is_listed_twice\<close>.)
\<close>

theorem browser_tree_stays_closed:
  assumes "s = run browser_step es (new_browser p b)"
  shows "(\<forall>u \<in> set (br_topLevelIds s). mget (br_nodes s) u \<noteq> None)
    \<and> (\<forall>u e. mget (br_nodes s) u = Some e \<longrightarrow> en_urn (bn_node e) = u \<and> (\<forall>c \<in> set (bn_childIds e). mget (br_nodes s) c \<noteq> None))
    \<and> (\<forall>x \<in> br_loadingNodes s. \<exists>n r. mget (br_pending s) n = Some r \<and> (\<forall>a. fits r a \<longrightarrow> x \<notin> br_loadingNodes (answer_arrives n a s)))
    \<and> (br_isLoading s \<longrightarrow> (\<exists>n r. mget (br_pending s) n = Some r \<and> (\<forall>a. fits r a \<longrightarrow> \<not> br_isLoading (answer_arrives n a s))))
    \<and> (list_all distinct_answer es \<longrightarrow> distinct (br_topLevelIds s) \<and> (\<forall>u e. mget (br_nodes s) u = Some e \<longrightarrow> distinct (bn_childIds e)))"
proof -
  let ?d = "list_all distinct_answer es"
  have "browser_ok ?d (new_browser p b)" by (simp add: browser_ok_def spinners_ok_def tree_closed_def new_browser_def)
  then have ok: "browser_ok ?d s" unfolding assms by (rule browser.run_inv) (simp add: list_all_iff)
  have ends: "x \<notin> br_loadingNodes (answer_arrives n a s)" if "mget (br_pending s) n = Some r" "spins_for r x" "fits r a" for x n r a
    using that by (cases r; cases a) (auto simp: answer_arrives_def)
  have ends_all: "\<not> br_isLoading (answer_arrives n a s)" if "mget (br_pending s) n = Some r" "loads_top r" "fits r a" for n r a
    using that by (cases r; cases a) (auto simp: answer_arrives_def)
  have pending: "\<exists>n r. mget (br_pending s) n = Some r \<and> P r" if "list_ex (\<lambda>q. P (snd q)) (br_pending s)" for P
    using that ok mget_iff_in_set [of "br_pending s"] by (force simp: list_ex_iff browser_ok_def)
  have "\<exists>n r. mget (br_pending s) n = Some r \<and> (\<forall>a. fits r a \<longrightarrow> x \<notin> br_loadingNodes (answer_arrives n a s))" if "x \<in> br_loadingNodes s" for x
    using pending [of "\<lambda>r. spins_for r x"] ok that ends unfolding browser_ok_def spinners_ok_def by blast
  moreover have "\<exists>n r. mget (br_pending s) n = Some r \<and> (\<forall>a. fits r a \<longrightarrow> \<not> br_isLoading (answer_arrives n a s))" if "br_isLoading s"
    using pending [of loads_top] ok that ends_all unfolding browser_ok_def spinners_ok_def by blast
  moreover have "tree_closed ?d (br_nodes s) (br_topLevelIds s)" using ok by (simp add: browser_ok_def)
  ultimately show ?thesis unfolding tree_closed_def by blast
qed

definition entity :: "string \<Rightarrow> entity_node" where
  "entity u = \<lparr>en_urn = u, en_name = u, en_childCount = Some 2\<rparr>"

definition page :: "string list \<Rightarrow> bool \<Rightarrow> browse_answer" where
  "page us again = Top_Answer \<lparr>tr_nodes = map entity us, tr_hasMore = again, tr_nextCursor = (if again then Some ''next'' else None), tr_totalCount = 9, tr_rootTypeCount = 1, tr_orphanCount = 0\<rparr>"

definition kids :: "string \<Rightarrow> string list \<Rightarrow> browse_answer" where
  "kids u us = Children_Answer \<lparr>rs_children = map entity us, rs_edges = map (\<lambda>c. (u, c)) us, rs_totalChildren = length us, rs_hasMore = False, rs_nextCursor = None\<rparr>"

lemma browser_tree_stays_closed_witness:
  "(let s = run browser_step [Load_Top_Level, Answer_Arrives 0 (page [''a'', ''b''] True), Expand_Node ''a'', Load_More_Top_Level,
        Answer_Arrives 2 (page [''b'', ''c''] False), Answer_Arrives 1 (kids ''a'' [''d'', ''e''])] (new_browser 0 True)
    in br_topLevelIds s = [''a'', ''b'', ''c''] \<and> distinct (br_topLevelIds s) \<and> map_option bn_childIds (mget (br_nodes s) ''a'') = Some [''d'', ''e''])"
proof -
  let ?es = "[Load_Top_Level, Answer_Arrives 0 (page [''a'', ''b''] True), Expand_Node ''a'', Load_More_Top_Level,
        Answer_Arrives 2 (page [''b'', ''c''] False), Answer_Arrives 1 (kids ''a'' [''d'', ''e''])]"
  let ?s = "run browser_step ?es (new_browser 0 True)"
  have "list_all distinct_answer ?es" "br_topLevelIds ?s = [''a'', ''b'', ''c'']" "map_option bn_childIds (mget (br_nodes ?s) ''a'') = Some [''d'', ''e'']" by code_simp+
  with browser_tree_stays_closed [OF refl, of ?es 0 True] show ?thesis by (simp add: Let_def del: run_simps)
qed

text \<open>The first page of children is taken as it comes: a child the provider names twice is listed twice.\<close>

lemma repeated_child_is_listed_twice:
  "(let s = run browser_step [Load_Top_Level, Answer_Arrives 0 (page [''a''] False), Expand_Node ''a'', Answer_Arrives 1 (kids ''a'' [''d'', ''d''])] (new_browser 0 True)
    in map_option bn_childIds (mget (br_nodes s) ''a'') = Some [''d'', ''d''])"
  by code_simp

section \<open>Answers that come too late\<close>

text \<open>A search has no token: the answer of an earlier one replaces what a later one, or an emptied search, has loaded.\<close>

lemma late_search_replaces:
  "(let s = run browser_step [Load_Top_Level, Answer_Arrives 0 (page [''a'', ''b''] True), Set_Search ''x'', Search_Fires, Set_Search '''',
        Answer_Arrives 2 (page [''a'', ''b''] True), Answer_Arrives 1 (page [''x''] False)] (new_browser 0 True)
    in br_searchQuery s = '''' \<and> br_topLevelIds s = [''x''])"
  by code_simp

text \<open>The next page of a search is asked for without the search.\<close>

lemma more_results_are_unfiltered:
  "(let s = run browser_step [Set_Search ''x'', Search_Fires, Answer_Arrives 0 (page [''x1''] True), Load_More_Top_Level] (new_browser 0 True)
    in br_pending s = [(1, Ask_More_Top \<lparr>tl_provider = 0, tl_entityType = None, tl_searchQuery = None, tl_cursor = Some ''next''\<rparr>)] \<and> br_searchQuery s = ''x'')"
  by code_simp

text \<open>An answer of the provider before the switch is shown for the one after it.\<close>

lemma other_providers_entities_are_shown:
  "(let s = run browser_step [Load_Top_Level, Provider_Changed 1, Answer_Arrives 0 (page [''old''] False)] (new_browser 0 True)
    in br_provider s = 1 \<and> br_topLevelIds s = [''old''])"
  by code_simp

text \<open>Two loads at once: the first answer ends the spinner of both. A failed search leaves an error that a good one does not clear.\<close>

lemma spinner_ends_early:
  "(let s = run browser_step [Load_Top_Level, Load_Top_Level, Answer_Arrives 0 (page [''a''] False)] (new_browser 0 True)
    in \<not> br_isLoading s \<and> length (br_pending s) = 1)"
  by code_simp

lemma error_outlives_a_good_search:
  "(let s = run browser_step [Set_Search ''x'', Search_Fires, Answer_Arrives 0 (Browse_Failed (Some ''down'')), Set_Search ''y'', Search_Fires, Answer_Arrives 1 (page [''y''] False)] (new_browser 0 True)
    in br_error s = Some ''down'' \<and> br_topLevelIds s = [''y''])"
  by code_simp

end
