(* ===== verification/Spec2Isabelle.thy ===== *)
theory Spec2Isabelle
  imports Cache_Envelope Lineage_Cache Bounded_Queue Concurrency Canvas_Store Staged_Changes Reference_Model
    Containment_Hierarchy Trace_Filter Search_Scoring Fetch_Policy Auth_Session Aggregated_Lineage Lineage_Stubs Edge_Projection Trace_Session Trace_Canvas Workspace_Switch Edge_Filters Graph_Hydration Child_Loading Auto_Organize Backend_Health Provider_Status Provider_Probe Ontology_Editor Remote_Provider Canvas_Edits Entity_Browser
begin

text \<open>
  Verification library of the univiz frontend (\<^verbatim>\<open>src/frontend/src\<close>), the TypeScript client of a platform
  for graph metadata and data lineage. Paths below are relative to that directory.

  \<^bold>\<open>The program.\<close> A user works in a workspace with data sources. Its ontology says which types of entities
  and relationships exist and which relationships mean containment and which lineage. The client loads
  entities on demand over REST, keeps them in stores (zustand), and draws them: as trees in layers (the
  reference model), with lineage edges between what is visible, aggregated where the ends are hidden. A trace
  asks the backend for what is up and down stream of an entity and merges the answer into the canvas. Edits
  are staged and saved together. Every request goes through a wrapper with time-outs and retries, a circuit
  breaker per scope, and caches.

  \<^bold>\<open>Theories and sources.\<close> Each theory models one part, in the order of its code; its records, datatypes and
  operations have the names of the source where Isabelle allows it.

  Shared: \<^verbatim>\<open>Prelude\<close> (JavaScript maps, sets, truthiness, stable sorting, parent chains), \<^verbatim>\<open>Js_String\<close> (string
  methods), \<^verbatim>\<open>Step_System\<close> (the locales \<^verbatim>\<open>step_system\<close>, \<^verbatim>\<open>clocked_system\<close>, \<^verbatim>\<open>observed_system\<close>: a handler of
  events with an invariant, lifted to all histories), \<^verbatim>\<open>Graph_Model\<close> (JSON, canvas nodes and edges, the
  classification of edge types), \<^verbatim>\<open>Containment_Map\<close> (walks on parent maps), \<^verbatim>\<open>Undo_History\<close> (the locale of an
  editor with two stacks of snapshots).

  Requests and resilience: \<^verbatim>\<open>Circuit_Breaker\<close> (services/circuitBreaker.ts), \<^verbatim>\<open>Cache_Envelope\<close>
  (services/cacheEnvelope.ts), \<^verbatim>\<open>Fetch_Policy\<close> (services/fetchWithTimeout.ts, services/apiClient.ts),
  \<^verbatim>\<open>Remote_Provider\<close> (providers/RemoteGraphProvider.ts), \<^verbatim>\<open>Concurrency\<close> and \<^verbatim>\<open>Bounded_Queue\<close> (lib/concurrency.ts),
  \<^verbatim>\<open>Lineage_Cache\<close> (hooks/lib/lineageCache.ts), \<^verbatim>\<open>Polling\<close> (config/polling.ts, hooks/usePolling.ts),
  \<^verbatim>\<open>Backend_Health\<close> (store/health.ts, components/layout/BackendHealthBanner.tsx, hooks/useBackendRecovery.ts),
  \<^verbatim>\<open>Provider_Status\<close> (store/providerStatus.ts, store/providerHealth.ts), \<^verbatim>\<open>Provider_Probe\<close>
  (hooks/useProviderHealthSweep.ts, providers/providerPool.ts), \<^verbatim>\<open>Auth_Session\<close> (store/auth.ts).

  Stores: \<^verbatim>\<open>Canvas_Store\<close> (store/canvas.ts), \<^verbatim>\<open>Schema_Store\<close> (store/schema.ts), \<^verbatim>\<open>Reference_Model\<close>
  (store/referenceModelStore.ts), \<^verbatim>\<open>Staged_Changes\<close> (store/stagedChangesStore.ts), \<^verbatim>\<open>Workspace_Switch\<close>
  (store/workspaces.ts, store/workspaceSwitchCleanup.ts, utils/viewNavigation.ts).

  The canvas: \<^verbatim>\<open>Layer_Rules\<close> (the rules in providers/GraphDataProvider.ts), \<^verbatim>\<open>Layer_Assignment\<close>
  (hooks/useLayerAssignment.ts), \<^verbatim>\<open>Containment_Hierarchy\<close> (hooks/useContainmentHierarchy.ts), \<^verbatim>\<open>Graph_Hydration\<close>
  and \<^verbatim>\<open>Child_Loading\<close> (hooks/useGraphHydration.ts), \<^verbatim>\<open>Aggregated_Lineage\<close> (hooks/useAggregatedLineage.ts),
  \<^verbatim>\<open>Lineage_Stubs\<close> (hooks/useLineageStubs.ts), \<^verbatim>\<open>Ancestor_Map\<close> and \<^verbatim>\<open>Edge_Projection\<close>
  (hooks/useEdgeProjection.ts), \<^verbatim>\<open>Edge_Filters\<close> (lib/type-visuals.ts, utils/edgeTypeUtils.tsx,
  hooks/useEdgeFilters.ts), \<^verbatim>\<open>Search_Scoring\<close> (utils/searchScoring.ts).

  The trace: \<^verbatim>\<open>Trace_Session\<close> (hooks/useUnifiedTrace.ts), \<^verbatim>\<open>Trace_Spine\<close> (hooks/lib/traceMergeSpine.ts,
  lib/synthesizeContainmentEdges.ts), \<^verbatim>\<open>Trace_Canvas\<close> (hooks/useCanvasTrace.ts and the merge in
  components/canvas/context-view/ContextViewCanvas.tsx), \<^verbatim>\<open>Trace_Filter\<close> (hooks/useTraceFilteredHierarchy.ts).

  Editors: \<^verbatim>\<open>Logical_Nodes\<close> (hooks/useLogicalNodes.ts), \<^verbatim>\<open>Layer_Studio\<close> (components/views/LayerStudio.tsx),
  \<^verbatim>\<open>Auto_Organize\<close> (hooks/useAutoOrganize.ts), \<^verbatim>\<open>Ontology_Codec\<close> (features/ontology/lib), \<^verbatim>\<open>Ontology_Editor\<close>
  (pages/OntologySchemaPage.tsx), \<^verbatim>\<open>Canvas_Edits\<close> (hooks/useCanvasInteractions.ts and
  components/panels: EntityDrawer.tsx, EdgeDetailPanel.tsx, EntityCreationPanel.tsx), \<^verbatim>\<open>Entity_Browser\<close>
  (hooks/useEntityBrowser.ts).

  \<^bold>\<open>How state and effects are modelled.\<close> A store or a hook is a record; an action is a function from state to
  state, with what the code closes over as arguments. An asynchronous operation is cut at its \<^verbatim>\<open>await\<close>s: it runs up
  to a request, which it leaves in the state, and a later event brings the answer. The events of a component
  are a datatype, its handler a step function, and the properties speak of all histories of events, so that
  answers may come in every order. Times, random numbers, generated ids and answers of the network are parts of
  the events. Errors are values: options, sums, or constructors of a result type. A JavaScript \<^verbatim>\<open>Map\<close> or object
  is an association list with distinct keys in insertion order; a \<^verbatim>\<open>Set\<close> is a HOL set where its order does not
  matter and a distinct list where it does.

  \<^bold>\<open>How the parts are composed.\<close> The circuit breaker is a component of the guarded fetch (\<^verbatim>\<open>Cache_Envelope\<close>), of
  the remote provider and of the provider probes, each with its own accounting. The bounded queue carries the
  loads of \<^verbatim>\<open>Child_Loading\<close>; the bounded cache, through the locale \<^verbatim>\<open>ttl_cache\<close>, the entries of \<^verbatim>\<open>Lineage_Stubs\<close>.
  The canvas store is a part of the state of hydration, child loading, the trace and the workspace switch. The
  walks of \<^verbatim>\<open>Containment_Map\<close> serve the reference model, the layer editor and the trace, and the locale of
  \<^verbatim>\<open>Undo_History\<close> is interpreted by the two editors with undo. \<^verbatim>\<open>Staged_Changes\<close> takes the hooks of a change over
  any world; \<^verbatim>\<open>Canvas_Edits\<close> supplies the code's hooks over the canvas store.

  \<^bold>\<open>What the lemmas show.\<close> Per component: its invariant and that every operation keeps it; what each operation
  does on each branch, failures included; that the optimised routines (the incremental hierarchy, the patched
  ancestor map, the sorted rules) equal their plain references; that the loops end; that what is written can be read
  back; what cannot happen in any history (an answer shown for another focus, a spinner without a request, two
  requests for one key). Lemmas that evaluate a short history to an unexpected state record where
  the code departs from its comments or from what it means to do. A property that holds under a condition
  says so in its text, and a lemma beside it shows what happens without it.

  \<^bold>\<open>Loops, fuel and bounds.\<close> Worklist loops with a visited set are total functions with a measure. Walks up parent
  chains without a guard are \<^verbatim>\<open>partial_function (option)\<close>, \<open>None\<close> when the code does not return, and the properties
  state when they return. The recursion over the shown trees in \<^verbatim>\<open>Layer_Assignment\<close> has the number of nodes as
  fuel (\<open>depth_fuel\<close>), which a chain without repetition cannot exceed. The bundle passes of \<^verbatim>\<open>Edge_Projection\<close> are the
  six of the code. The hash of edge colours and of cache keys are computed on machine words.

  \<^bold>\<open>Parameters.\<close> Not in the repository, hence arguments: the regular expression engine, the collation of
  \<^verbatim>\<open>localeCompare\<close>, the platform's parsers of URLs, numbers and dates, the serialisation of query
  parameters, and the answers of the backend.

  \<^bold>\<open>Abstractions.\<close> Case conversion is that of ASCII letters; JavaScript numbers are exact (\<open>int\<close>, \<open>nat\<close> or \<open>rat\<close>),
  so rounding is not modelled; random positions, texts of messages, logging and the identity of objects are left
  out where nothing depends on them. Handlers of an editor see the state of the last render, and each theory says
  where that differs from the present state.

  \<^bold>\<open>Not modelled.\<close> React components that only render (pages, panels, dialogs, wizards, the drawing of nodes
  and edges), the layouts computed by the ELK library and its worker, the services that only make a URL and call
  the request wrapper, router synchronisation, keyboard shortcuts and animation, and hooks that only
  compose a library's query with a service. The older trace (hooks/useLineageTrace.ts, services/traceApi.ts)
  has no caller left. The Python backend is another program; here it is the source of the answers. Of its
  repositories only the creation and the update of a context model are modelled, in \<^verbatim>\<open>Reference_Model\<close>, because
  what "synced" means depends on them.
\<close>

end
